(* ===== verification/Prelude.thy ===== *)
theory Prelude
  imports Main "HOL-Library.Word" "HOL-Library.Monad_Syntax"
begin

text \<open>
  Shared vocabulary of the development: how the Rust constructs that every component uses are
  rendered in HOL, and the lemmas about them that carry the component proofs.

  \<^item> A call that may panic (\<open>expect\<close>, \<open>assert!\<close>, \<open>debug_assert!\<close>, an arithmetic overflow of
    the checked build, an index out of range) has a result of type \<open>exec\<close>: \<^term>\<open>None\<close> is the
    panic. A theorem that a call returns is a theorem that its result is not \<^term>\<open>None\<close>.
  \<^item> \<open>Result<T, E>\<close> is the datatype \<open>result\<close>.
  \<^item> Unsigned integers are natural numbers with the width written at the operation:
    \<open>checked_add\<close> answers \<^term>\<open>None\<close> outside the width (Rust's \<open>checked_add\<close>), and a plain \<open>+\<close>
    is \<open>plus_exec\<close>, a panic outside the width. Bytes are \<^typ>\<open>8 word\<close>.
  \<^item> \<open>BTreeMap\<close> is an association list in strictly ascending key order.
\<close>

section \<open>Collections of facts\<close>

named_theorems exec_simps \<open>unfolding the panic and result plumbing\<close>
named_theorems layout_simps \<open>lengths and slices of encoded structures\<close>


section \<open>Results and panics\<close>

datatype ('a, 'e) result = Ok 'a | Err 'e

type_synonym 'a exec = "'a option"

fun is_ok :: "('a, 'e) result \<Rightarrow> bool" where
  "is_ok (Ok _) = True"
| "is_ok (Err _) = False"

definition assert_exec :: "bool \<Rightarrow> unit exec" where
  "assert_exec b = (if b then Some () else None)"

text \<open>\<open>Option::ok_or\<close>.\<close>

definition ok_or :: "'a option \<Rightarrow> 'e \<Rightarrow> ('a, 'e) result" where
  "ok_or x e = (case x of None \<Rightarrow> Err e | Some v \<Rightarrow> Ok v)"

text \<open>The \<open>?\<close> operator on \<open>Result\<close>: stop at the first error.\<close>

definition and_then :: "('a, 'e) result \<Rightarrow> ('a \<Rightarrow> ('b, 'e) result) \<Rightarrow> ('b, 'e) result" where
  "and_then r f = (case r of Err e \<Rightarrow> Err e | Ok v \<Rightarrow> f v)"

lemma assert_exec_simps [simp, exec_simps]:
  "assert_exec True = Some ()"
  "assert_exec False = None"
  by (simp_all add: assert_exec_def)

lemma assert_exec_Some [simp]: "assert_exec b = Some u \<longleftrightarrow> b"
  by (cases u) (simp add: assert_exec_def)

lemma ok_or_simps [simp]:
  "ok_or None e = Err e"
  "ok_or (Some v) e = Ok v"
  "ok_or x e = Ok v \<longleftrightarrow> x = Some v"
  by (auto simp: ok_or_def split: option.splits)

lemma and_then_simps [simp]:
  "and_then (Ok v) f = f v"
  "and_then (Err e) f = Err e"
  by (simp_all add: and_then_def)

lemma and_then_Ok: "and_then r f = Ok y \<longleftrightarrow> (\<exists>v. r = Ok v \<and> f v = Ok y)"
  by (cases r) auto

lemma and_then_Err: "and_then r f = Err e \<longleftrightarrow> r = Err e \<or> (\<exists>v. r = Ok v \<and> f v = Err e)"
  by (cases r) auto


text \<open>\<open>Iterator::find\<close> is the library's \<^const>\<open>find\<close>.\<close>

lemma find_SomeD: "find P xs = Some x \<Longrightarrow> x \<in> set xs \<and> P x"
  by (induction xs) (auto split: if_splits)


section \<open>Machine arithmetic\<close>

abbreviation u8_max :: nat where "u8_max \<equiv> 2 ^ 8 - 1"
abbreviation u32_max :: nat where "u32_max \<equiv> 2 ^ 32 - 1"
abbreviation u64_max :: nat where "u64_max \<equiv> 2 ^ 64 - 1"

definition checked_add :: "nat \<Rightarrow> nat \<Rightarrow> nat \<Rightarrow> nat option" where
  "checked_add w a b = (if a + b < 2 ^ w then Some (a + b) else None)"

definition checked_sub :: "nat \<Rightarrow> nat \<Rightarrow> nat option" where
  "checked_sub a b = (if b \<le> a then Some (a - b) else None)"

definition plus_exec :: "nat \<Rightarrow> nat \<Rightarrow> nat \<Rightarrow> nat exec" where
  "plus_exec w a b = (if a + b < 2 ^ w then Some (a + b) else None)"

definition minus_exec :: "nat \<Rightarrow> nat \<Rightarrow> nat exec" where
  "minus_exec a b = (if b \<le> a then Some (a - b) else None)"

definition times_exec :: "nat \<Rightarrow> nat \<Rightarrow> nat \<Rightarrow> nat exec" where
  "times_exec w a b = (if a * b < 2 ^ w then Some (a * b) else None)"

text \<open>\<open>u64::div_ceil\<close>; both operands are non-negative and the divisor is positive.\<close>

definition div_ceil :: "nat \<Rightarrow> nat \<Rightarrow> nat" where
  "div_ceil a b = (a + b - 1) div b"

lemma checked_add_Some [simp]:
  "checked_add w a b = Some c \<longleftrightarrow> c = a + b \<and> a + b < 2 ^ w"
  by (auto simp: checked_add_def)

lemma checked_add_None [simp]: "checked_add w a b = None \<longleftrightarrow> 2 ^ w \<le> a + b"
  by (auto simp: checked_add_def)

lemma checked_sub_Some [simp]: "checked_sub a b = Some c \<longleftrightarrow> b \<le> a \<and> c = a - b"
  by (auto simp: checked_sub_def)

lemma checked_sub_None [simp]: "checked_sub a b = None \<longleftrightarrow> a < b"
  by (auto simp: checked_sub_def)

lemma plus_exec_Some [simp]: "plus_exec w a b = Some c \<longleftrightarrow> c = a + b \<and> a + b < 2 ^ w"
  by (auto simp: plus_exec_def)

lemma minus_exec_Some [simp]: "minus_exec a b = Some c \<longleftrightarrow> b \<le> a \<and> c = a - b"
  by (auto simp: minus_exec_def)

lemma times_exec_Some [simp]: "times_exec w a b = Some c \<longleftrightarrow> c = a * b \<and> a * b < 2 ^ w"
  by (auto simp: times_exec_def)

lemma div_ceil_bounds:
  assumes "0 < b"
  shows "a \<le> div_ceil a b * b" and "div_ceil a b * b < a + b"
proof -
  have "div_ceil a b * b + (a + b - 1) mod b = a + b - 1"
    by (simp add: div_ceil_def)
  moreover have "(a + b - 1) mod b < b"
    using assms by simp
  ultimately show "a \<le> div_ceil a b * b" and "div_ceil a b * b < a + b"
    using assms by linarith+
qed

lemma div_ceil_le_iff:
  assumes "0 < b"
  shows "div_ceil a b \<le> n \<longleftrightarrow> a \<le> n * b"
proof
  assume "div_ceil a b \<le> n"
  then have "div_ceil a b * b \<le> n * b" by simp
  with div_ceil_bounds(1) [OF assms] show "a \<le> n * b" using le_trans by blast
next
  assume "a \<le> n * b"
  with div_ceil_bounds(2) [OF assms, of a] have "div_ceil a b * b < (n + 1) * b"
    by simp
  then show "div_ceil a b \<le> n"
    by (metis Suc_eq_plus1 less_Suc_eq_le mult_less_cancel2)
qed

lemma div_ceil_0 [simp]: "0 < b \<Longrightarrow> div_ceil 0 b = 0"
  by (simp add: div_ceil_def)

lemma div_ceil_pos: "0 < b \<Longrightarrow> 0 < a \<Longrightarrow> 0 < div_ceil a b"
  using div_ceil_le_iff [of b a 0] by auto


section \<open>BTreeMap as a sorted association list\<close>

type_synonym ('k, 'v) btree_map = "('k \<times> 'v) list"

definition bm_wf :: "('k::linorder, 'v) btree_map \<Rightarrow> bool" where
  "bm_wf m \<longleftrightarrow> sorted_wrt (<) (map fst m)"

fun bm_insert :: "'k::linorder \<Rightarrow> 'v \<Rightarrow> ('k, 'v) btree_map \<Rightarrow> ('k, 'v) btree_map" where
  "bm_insert key val [] = [(key, val)]"
| "bm_insert key val (entry # rest) =
     (if key = fst entry then (key, val) # rest
      else if key < fst entry then (key, val) # entry # rest
      else entry # bm_insert key val rest)"

definition bm_remove :: "'k \<Rightarrow> ('k, 'v) btree_map \<Rightarrow> ('k, 'v) btree_map" where
  "bm_remove key m = [entry \<leftarrow> m. fst entry \<noteq> key]"

definition bm_keys :: "('k, 'v) btree_map \<Rightarrow> 'k list" where
  "bm_keys m = map fst m"

definition bm_values :: "('k, 'v) btree_map \<Rightarrow> 'v list" where
  "bm_values m = map snd m"

abbreviation bm_get :: "('k, 'v) btree_map \<Rightarrow> 'k \<Rightarrow> 'v option" where
  "bm_get \<equiv> map_of"

lemma bm_wf_Nil [simp]: "bm_wf []"
  by (simp add: bm_wf_def)

lemma set_keys_bm_insert: "fst ` set (bm_insert k v m) = insert k (fst ` set m)"
  by (induction m) auto

lemma bm_wf_insert [simp, intro]: "bm_wf m \<Longrightarrow> bm_wf (bm_insert k v m)"
proof (induction m)
  case Nil
  then show ?case by (simp add: bm_wf_def)
next
  case (Cons e m)
  then have IH: "bm_wf (bm_insert k v m)" and below: "\<forall>x \<in> fst ` set m. fst e < x"
    by (auto simp: bm_wf_def)
  then have "\<forall>x \<in> fst ` set (bm_insert k v m). fst e < x" if "fst e < k"
    using that by (auto simp: set_keys_bm_insert)
  with IH below Cons.prems show ?case
    by (auto simp: bm_wf_def)
qed

lemma bm_wf_remove [simp, intro]: "bm_wf m \<Longrightarrow> bm_wf (bm_remove k m)"
  by (induction m) (auto simp: bm_wf_def bm_remove_def)

lemma bm_wf_distinct: "bm_wf m \<Longrightarrow> distinct (map fst m)"
  by (simp add: bm_wf_def strict_sorted_iff)

lemma bm_get_insert [simp]: "bm_get (bm_insert k v m) = (bm_get m)(k \<mapsto> v)"
proof (rule ext)
  fix x
  show "bm_get (bm_insert k v m) x = ((bm_get m)(k \<mapsto> v)) x"
    by (induction m) auto
qed

lemma bm_get_remove [simp]: "bm_get (bm_remove k m) = (bm_get m)(k := None)"
proof (rule ext)
  fix x
  show "bm_get (bm_remove k m) x = ((bm_get m)(k := None)) x"
    by (induction m) (auto simp: bm_remove_def)
qed

lemma bm_keys_dom: "set (bm_keys m) = dom (bm_get m)"
  by (simp add: bm_keys_def dom_map_of_conv_image_fst)

text \<open>Sums over the values of a map, the shape of every conservation argument.\<close>

definition bm_sum :: "('k, nat) btree_map \<Rightarrow> nat" where
  "bm_sum m = sum_list (bm_values m)"

lemma bm_sum_simps [simp]:
  "bm_sum [] = 0"
  "bm_sum (e # m) = snd e + bm_sum m"
  by (simp_all add: bm_sum_def bm_values_def)

lemma bm_sum_ge: "bm_get m k = Some b \<Longrightarrow> b \<le> bm_sum m"
  by (induction m) (auto split: if_splits)

lemma bm_sum_insert_new: "bm_get m k = None \<Longrightarrow> bm_sum (bm_insert k v m) = v + bm_sum m"
  by (induction m) (auto split: if_splits)

lemma bm_get_None_above:
  assumes "bm_wf (e # m)" and "k \<le> fst e"
  shows "bm_get m k = None"
proof -
  have "k \<notin> fst ` set m"
    using assms by (auto simp: bm_wf_def)
  then show ?thesis by (simp add: map_of_eq_None_iff)
qed

lemma bm_sum_insert_old:
  assumes "bm_wf m" and "bm_get m k = Some b"
  shows "bm_sum (bm_insert k v m) + b = v + bm_sum m"
  using assms
proof (induction m)
  case Nil
  then show ?case by simp
next
  case (Cons e m)
  then have wf: "bm_wf m" by (simp add: bm_wf_def)
  show ?case
  proof (cases "k = fst e")
    case True
    with Cons.prems show ?thesis by (cases e) auto
  next
    case False
    with Cons.prems have get: "bm_get m k = Some b" by (cases e) auto
    then have "\<not> k \<le> fst e"
      using bm_get_None_above [OF Cons.prems(1), of k] by auto
    with False Cons.IH [OF wf get] show ?thesis by auto
  qed
qed

lemma bm_remove_fresh: "bm_get m k = None \<Longrightarrow> bm_remove k m = m"
  by (induction m) (auto simp: bm_remove_def split: if_splits)

lemma bm_sum_remove:
  assumes "bm_wf m" and "bm_get m k = Some b"
  shows "bm_sum (bm_remove k m) + b = bm_sum m"
  using assms
proof (induction m)
  case Nil
  then show ?case by simp
next
  case (Cons e m)
  then have wf: "bm_wf m" by (simp add: bm_wf_def)
  show ?case
  proof (cases "fst e = k")
    case True
    then have "bm_get m k = None"
      using bm_get_None_above [OF Cons.prems(1)] by simp
    with True have "bm_remove k (e # m) = m"
      using bm_remove_fresh [of m k] by (simp add: bm_remove_def)
    with True Cons.prems show ?thesis by (cases e) simp
  next
    case False
    with Cons.prems have "bm_get m k = Some b" by (cases e) auto
    from Cons.IH [OF wf this] False show ?thesis by (simp add: bm_remove_def)
  qed
qed

lemma bm_get_mem: "bm_wf m \<Longrightarrow> (k, v) \<in> set m \<longleftrightarrow> bm_get m k = Some v"
  by (simp add: bm_wf_distinct map_of_eq_Some_iff)


section \<open>Bytes and little-endian integers\<close>

type_synonym byte = "8 word"
type_synonym bytes = "byte list"

fun le_decode :: "bytes \<Rightarrow> nat" where
  "le_decode [] = 0"
| "le_decode (b # bs) = unat b + 256 * le_decode bs"

fun le_encode :: "nat \<Rightarrow> nat \<Rightarrow> bytes" where
  "le_encode 0 v = []"
| "le_encode (Suc n) v = word_of_nat (v mod 256) # le_encode n (v div 256)"

definition be_decode :: "bytes \<Rightarrow> nat" where
  "be_decode bs = le_decode (rev bs)"

definition be_encode :: "nat \<Rightarrow> nat \<Rightarrow> bytes" where
  "be_encode n v = rev (le_encode n v)"

lemma length_le_encode [simp, layout_simps]: "length (le_encode n v) = n"
  by (induction n arbitrary: v) auto

lemma length_be_encode [simp, layout_simps]: "length (be_encode n v) = n"
  by (simp add: be_encode_def)

lemma unat_byte_lt [simp]: "unat (b :: byte) < 256"
  using unsigned_less [of b, where ?'a = nat] by simp

lemma unat_byte_of_nat [simp]: "unat (word_of_nat (v mod 256) :: byte) = v mod 256"
  by (simp add: unat_of_nat)

lemma le_decode_bound: "le_decode bs < 256 ^ length bs"
proof (induction bs)
  case Nil
  then show ?case by simp
next
  case (Cons b bs)
  have "unat b + 256 * le_decode bs < 256 + 256 * le_decode bs"
    by simp
  also have "\<dots> \<le> 256 * 256 ^ length bs"
    using Cons.IH by simp
  finally show ?case by simp
qed

lemma le_decode_encode: "le_decode (le_encode n v) = v mod 256 ^ n"
proof (induction n arbitrary: v)
  case 0
  then show ?case by simp
next
  case (Suc n)
  then show ?case by (simp add: mod_mult2_eq)
qed

lemma le_roundtrip: "v < 256 ^ n \<Longrightarrow> le_decode (le_encode n v) = v"
  by (simp add: le_decode_encode)

lemma le_encode_decode: "le_encode (length bs) (le_decode bs) = bs"
proof (induction bs)
  case Nil
  then show ?case by simp
next
  case (Cons b bs)
  have "(unat b + 256 * le_decode bs) mod 256 = unat b"
    by simp
  moreover have "(unat b + 256 * le_decode bs) div 256 = le_decode bs"
    by simp
  ultimately show ?case using Cons.IH by simp
qed

lemma be_roundtrip: "v < 256 ^ n \<Longrightarrow> be_decode (be_encode n v) = v"
  by (simp add: be_decode_def be_encode_def le_roundtrip)

lemma le_decode_bounds [simp]:
  "length bs = 2 \<Longrightarrow> le_decode bs < 2 ^ 16"
  "length bs = 4 \<Longrightarrow> le_decode bs < 2 ^ 32"
  "length bs = 8 \<Longrightarrow> le_decode bs < 2 ^ 64"
  using le_decode_bound [of bs] by simp_all

text \<open>\<open>&bytes[at..at + len]\<close>, used only where the range was checked.\<close>

definition slice :: "nat \<Rightarrow> nat \<Rightarrow> 'a list \<Rightarrow> 'a list" where
  "slice at len xs = take len (drop at xs)"

lemma length_slice [simp, layout_simps]:
  "at + len \<le> length xs \<Longrightarrow> length (slice at len xs) = len"
  by (simp add: slice_def)

lemma slice_append_left [layout_simps]:
  "at + len \<le> length xs \<Longrightarrow> slice at len (xs @ ys) = slice at len xs"
  by (simp add: slice_def)

lemma slice_append_right [layout_simps]:
  "length xs \<le> at \<Longrightarrow> slice at len (xs @ ys) = slice (at - length xs) len ys"
  by (simp add: slice_def)

lemma slice_all [layout_simps]: "length xs = len \<Longrightarrow> slice 0 len xs = xs"
  by (simp add: slice_def)

lemma nth_slice: "i < len \<Longrightarrow> at + len \<le> length xs \<Longrightarrow> slice at len xs ! i = xs ! (at + i)"
  by (simp add: slice_def)

lemma slice_slice: "i + n \<le> len \<Longrightarrow> slice i n (slice at len xs) = slice (at + i) n xs"
  by (simp add: slice_def drop_take min_def add.commute)

end
