(* ===== verification/Fuel_Ledger.thy ===== *)
theory Fuel_Ledger
  imports Prelude
begin

text \<open>
  The conserved fuel ledger of the scheduler crate (\<open>crates/eo9-sched/src/fuel.rs\<close>): its state,
  its six mutating operations with every debug assertion and every possible panic in place, and
  the laws a client relies on, stated as the locale \<open>fuel_books\<close> and interpreted on the model.
\<close>

section \<open>State and errors\<close>

datatype 'a fuel_error =
    NoSuchAccount 'a
  | AccountExists 'a
  | Insufficient 'a nat nat  \<comment> \<open>account, requested, available\<close>
  | BalanceOverflow 'a
  | NonEmptyClose 'a nat

record 'a fuel_ledger =
  balances :: "('a, nat) btree_map"
  imported :: nat
  burned :: nat
  exported :: nat

definition ledger_new :: "'a fuel_ledger" where
  "ledger_new = \<lparr>balances = [], imported = 0, burned = 0, exported = 0\<rparr>"


section \<open>Queries and helpers\<close>

definition ledger_balance :: "('a::linorder) fuel_ledger \<Rightarrow> 'a \<Rightarrow> nat option" where
  "ledger_balance l account = bm_get (balances l) account"

definition is_open :: "('a::linorder) fuel_ledger \<Rightarrow> 'a \<Rightarrow> bool" where
  "is_open l account \<longleftrightarrow> bm_get (balances l) account \<noteq> None"

definition accounts :: "('a::linorder) fuel_ledger \<Rightarrow> nat" where
  "accounts l = length (balances l)"

definition circulating :: "('a::linorder) fuel_ledger \<Rightarrow> nat" where
  "circulating l = bm_sum (balances l)"

definition is_conserved :: "('a::linorder) fuel_ledger \<Rightarrow> bool" where
  "is_conserved l \<longleftrightarrow> imported l = burned l + exported l + circulating l"

definition ledger_get :: "('a::linorder) fuel_ledger \<Rightarrow> 'a \<Rightarrow> (nat, 'a fuel_error) result" where
  "ledger_get l account = ok_or (bm_get (balances l) account) (NoSuchAccount account)"

definition debited ::
  "('a::linorder) fuel_ledger \<Rightarrow> 'a \<Rightarrow> nat \<Rightarrow> (nat, 'a fuel_error) result" where
  "debited l account amount =
     and_then (ledger_get l account) (\<lambda>available.
       ok_or (checked_sub available amount) (Insufficient account amount available))"

definition ledger_set :: "('a::linorder) fuel_ledger \<Rightarrow> 'a \<Rightarrow> nat \<Rightarrow> 'a fuel_ledger exec" where
  "ledger_set l account value =
     (case bm_get (balances l) account of
        None \<Rightarrow> None
      | Some _ \<Rightarrow> Some (l\<lparr>balances := bm_insert account value (balances l)\<rparr>))"


section \<open>Mutating operations\<close>

type_synonym 'a ledger_res = "('a fuel_ledger \<times> (unit, 'a fuel_error) result) exec"

definition ledger_open :: "('a::linorder) fuel_ledger \<Rightarrow> 'a \<Rightarrow> 'a ledger_res" where
  "ledger_open l account =
     (if is_open l account then Some (l, Err (AccountExists account))
      else do {
        let l = l\<lparr>balances := bm_insert account 0 (balances l)\<rparr>;
        assert_exec (is_conserved l);
        Some (l, Ok ())
      })"

definition ledger_close :: "('a::linorder) fuel_ledger \<Rightarrow> 'a \<Rightarrow> 'a ledger_res" where
  "ledger_close l account =
     (case bm_get (balances l) account of
        None \<Rightarrow> Some (l, Err (NoSuchAccount account))
      | Some balance \<Rightarrow>
          (if balance \<noteq> 0 then Some (l, Err (NonEmptyClose account balance))
           else do {
             let l = l\<lparr>balances := bm_remove account (balances l)\<rparr>;
             assert_exec (is_conserved l);
             Some (l, Ok ())
           }))"

definition ledger_import :: "('a::linorder) fuel_ledger \<Rightarrow> 'a \<Rightarrow> nat \<Rightarrow> 'a ledger_res" where
  "ledger_import l account amount =
     (case and_then (ledger_get l account) (\<lambda>b.
             ok_or (checked_add 64 b amount) (BalanceOverflow account)) of
        Err e \<Rightarrow> Some (l, Err e)
      | Ok new \<Rightarrow> do {
          l \<leftarrow> ledger_set l account new;
          total \<leftarrow> plus_exec 128 (imported l) amount;
          let l = l\<lparr>imported := total\<rparr>;
          assert_exec (is_conserved l);
          Some (l, Ok ())
        })"

definition ledger_export :: "('a::linorder) fuel_ledger \<Rightarrow> 'a \<Rightarrow> nat \<Rightarrow> 'a ledger_res" where
  "ledger_export l account amount =
     (case debited l account amount of
        Err e \<Rightarrow> Some (l, Err e)
      | Ok new \<Rightarrow> do {
          l \<leftarrow> ledger_set l account new;
          total \<leftarrow> plus_exec 128 (exported l) amount;
          let l = l\<lparr>exported := total\<rparr>;
          assert_exec (is_conserved l);
          Some (l, Ok ())
        })"

definition transfer :: "('a::linorder) fuel_ledger \<Rightarrow> 'a \<Rightarrow> 'a \<Rightarrow> nat \<Rightarrow> 'a ledger_res" where
  "transfer l src dst amount =
     (if src = dst then
        (case debited l src amount of
           Err e \<Rightarrow> Some (l, Err e)
         | Ok _ \<Rightarrow> Some (l, Ok ()))
      else
        (case debited l src amount of
           Err e \<Rightarrow> Some (l, Err e)
         | Ok from_new \<Rightarrow>
             (case and_then (ledger_get l dst) (\<lambda>b.
                     ok_or (checked_add 64 b amount) (BalanceOverflow dst)) of
                Err e \<Rightarrow> Some (l, Err e)
              | Ok to_new \<Rightarrow> do {
                  l \<leftarrow> ledger_set l src from_new;
                  l \<leftarrow> ledger_set l dst to_new;
                  assert_exec (is_conserved l);
                  Some (l, Ok ())
                })))"

definition burn :: "('a::linorder) fuel_ledger \<Rightarrow> 'a \<Rightarrow> nat \<Rightarrow> 'a ledger_res" where
  "burn l account amount =
     (case debited l account amount of
        Err e \<Rightarrow> Some (l, Err e)
      | Ok new \<Rightarrow> do {
          l \<leftarrow> ledger_set l account new;
          total \<leftarrow> plus_exec 128 (burned l) amount;
          let l = l\<lparr>burned := total\<rparr>;
          assert_exec (is_conserved l);
          Some (l, Ok ())
        })"

lemmas ledger_op_defs =
  ledger_open_def ledger_close_def ledger_import_def ledger_export_def transfer_def burn_def
  debited_def ledger_get_def ledger_set_def is_open_def


section \<open>The ledger invariant\<close>

text \<open>
  Balances fit their \<open>u64\<close>, the lifetime import total its \<open>u128\<close>, the map is a map, and the
  conservation law holds. Burned and exported totals then fit as well.
\<close>

definition ledger_inv :: "('a::linorder) fuel_ledger \<Rightarrow> bool" where
  "ledger_inv l \<longleftrightarrow> bm_wf (balances l) \<and> (\<forall>a b. bm_get (balances l) a = Some b \<longrightarrow> b < 2 ^ 64)
     \<and> imported l < 2 ^ 128 \<and> is_conserved l"

lemma ledger_inv_new: "ledger_inv ledger_new"
  by (simp add: ledger_inv_def ledger_new_def is_conserved_def circulating_def)

lemma ledger_inv_wf: "ledger_inv l \<Longrightarrow> bm_wf (balances l)"
  by (simp add: ledger_inv_def)

lemma ledger_inv_totals:
  assumes "ledger_inv l" and "bm_get (balances l) a = Some b" and "n \<le> b"
  shows "burned l + n < 2 ^ 128" and "exported l + n < 2 ^ 128"
  using assms bm_sum_ge [OF assms(2)]
  by (auto simp: ledger_inv_def is_conserved_def circulating_def)

text \<open>
  Each operation, reduced under the invariant to its branches: the panic plumbing disappears,
  except for the one counter that can really run over, the lifetime import total.
\<close>

lemma ledger_open_eq:
  assumes "ledger_inv l"
  shows "ledger_open l a =
    (if bm_get (balances l) a \<noteq> None then Some (l, Err (AccountExists a))
     else Some (l\<lparr>balances := bm_insert a 0 (balances l)\<rparr>, Ok ()))"
  using assms
  by (auto simp: ledger_op_defs ledger_inv_def is_conserved_def circulating_def bm_sum_insert_new)

lemma ledger_close_eq:
  assumes "ledger_inv l"
  shows "ledger_close l a =
    (case bm_get (balances l) a of
       None \<Rightarrow> Some (l, Err (NoSuchAccount a))
     | Some b \<Rightarrow> (if b \<noteq> 0 then Some (l, Err (NonEmptyClose a b))
                  else Some (l\<lparr>balances := bm_remove a (balances l)\<rparr>, Ok ())))"
  using assms bm_sum_remove [of "balances l" a 0]
  by (auto simp: ledger_op_defs ledger_inv_def is_conserved_def circulating_def
           split: option.splits)

lemma conserved_credit:
  assumes "ledger_inv l" and "bm_get (balances l) a = Some b"
  shows "circulating (l\<lparr>balances := bm_insert a (b + n) (balances l)\<rparr>) = circulating l + n"
  using bm_sum_insert_old [OF ledger_inv_wf [OF assms(1)] assms(2), of "b + n"]
  by (simp add: circulating_def)

lemma conserved_debit:
  assumes "ledger_inv l" and "bm_get (balances l) a = Some b" and "n \<le> b"
  shows "circulating (l\<lparr>balances := bm_insert a (b - n) (balances l)\<rparr>) + n = circulating l"
  using bm_sum_insert_old [OF ledger_inv_wf [OF assms(1)] assms(2), of "b - n"] assms(3)
  by (simp add: circulating_def)

lemma circulating_other_field [simp]:
  "circulating (l\<lparr>imported := x\<rparr>) = circulating l"
  "circulating (l\<lparr>burned := x\<rparr>) = circulating l"
  "circulating (l\<lparr>exported := x\<rparr>) = circulating l"
  by (simp_all add: circulating_def)

lemma ledger_import_eq:
  assumes inv: "ledger_inv l"
  shows "ledger_import l a n =
    (case bm_get (balances l) a of
       None \<Rightarrow> Some (l, Err (NoSuchAccount a))
     | Some b \<Rightarrow>
         (if 2 ^ 64 \<le> b + n then Some (l, Err (BalanceOverflow a))
          else if 2 ^ 128 \<le> imported l + n then None
          else Some (l\<lparr>balances := bm_insert a (b + n) (balances l), imported := imported l + n\<rparr>,
                     Ok ())))"
proof (cases "bm_get (balances l) a")
  case None
  then show ?thesis by (simp add: ledger_op_defs)
next
  case (Some b)
  have "is_conserved (l\<lparr>balances := bm_insert a (b + n) (balances l), imported := imported l + n\<rparr>)"
    using inv conserved_credit [OF inv Some, of n]
    by (simp add: ledger_inv_def is_conserved_def)
  with Some show ?thesis
    by (simp add: ledger_op_defs checked_add_def plus_exec_def)
qed

lemma ledger_export_eq:
  assumes inv: "ledger_inv l"
  shows "ledger_export l a n =
    (case bm_get (balances l) a of
       None \<Rightarrow> Some (l, Err (NoSuchAccount a))
     | Some b \<Rightarrow>
         (if b < n then Some (l, Err (Insufficient a n b))
          else Some (l\<lparr>balances := bm_insert a (b - n) (balances l), exported := exported l + n\<rparr>,
                     Ok ())))"
proof (cases "bm_get (balances l) a")
  case None
  then show ?thesis by (simp add: ledger_op_defs)
next
  case (Some b)
  have "is_conserved (l\<lparr>balances := bm_insert a (b - n) (balances l), exported := exported l + n\<rparr>)"
    if "n \<le> b"
    using inv conserved_debit [OF inv Some that] by (simp add: ledger_inv_def is_conserved_def)
  moreover have "exported l + n < 2 ^ 128" if "n \<le> b"
    using ledger_inv_totals [OF inv Some that] by simp
  ultimately show ?thesis
    using Some by (auto simp: ledger_op_defs checked_sub_def plus_exec_def)
qed

lemma burn_eq:
  assumes inv: "ledger_inv l"
  shows "burn l a n =
    (case bm_get (balances l) a of
       None \<Rightarrow> Some (l, Err (NoSuchAccount a))
     | Some b \<Rightarrow>
         (if b < n then Some (l, Err (Insufficient a n b))
          else Some (l\<lparr>balances := bm_insert a (b - n) (balances l), burned := burned l + n\<rparr>,
                     Ok ())))"
proof (cases "bm_get (balances l) a")
  case None
  then show ?thesis by (simp add: ledger_op_defs)
next
  case (Some b)
  have "is_conserved (l\<lparr>balances := bm_insert a (b - n) (balances l), burned := burned l + n\<rparr>)"
    if "n \<le> b"
    using inv conserved_debit [OF inv Some that] by (simp add: ledger_inv_def is_conserved_def)
  moreover have "burned l + n < 2 ^ 128" if "n \<le> b"
    using ledger_inv_totals [OF inv Some that] by simp
  ultimately show ?thesis
    using Some by (auto simp: ledger_op_defs checked_sub_def plus_exec_def)
qed

lemma circulating_move:
  assumes inv: "ledger_inv l" and src: "bm_get (balances l) a = Some x"
    and dst: "bm_get (balances l) b = Some y" and "a \<noteq> b" and "n \<le> x"
  shows "bm_sum (bm_insert b (y + n) (bm_insert a (x - n) (balances l))) = bm_sum (balances l)"
proof -
  have wf: "bm_wf (balances l)" by (rule ledger_inv_wf [OF inv])
  have "bm_get (bm_insert a (x - n) (balances l)) b = Some y"
    using dst \<open>a \<noteq> b\<close> by simp
  from bm_sum_insert_old [OF bm_wf_insert [OF wf] this, of "y + n"]
    bm_sum_insert_old [OF wf src, of "x - n"] \<open>n \<le> x\<close>
  show ?thesis by simp
qed

lemma transfer_eq:
  assumes inv: "ledger_inv l"
  shows "transfer l a b n =
    (case bm_get (balances l) a of
       None \<Rightarrow> Some (l, Err (NoSuchAccount a))
     | Some x \<Rightarrow>
         (if x < n then Some (l, Err (Insufficient a n x))
          else if a = b then Some (l, Ok ())
          else (case bm_get (balances l) b of
             None \<Rightarrow> Some (l, Err (NoSuchAccount b))
           | Some y \<Rightarrow>
               (if 2 ^ 64 \<le> y + n then Some (l, Err (BalanceOverflow b))
                else Some (l\<lparr>balances := bm_insert b (y + n) (bm_insert a (x - n) (balances l))\<rparr>,
                           Ok ())))))"
proof (cases "bm_get (balances l) a")
  case None
  then show ?thesis by (auto simp: ledger_op_defs)
next
  case x: (Some x)
  show ?thesis
  proof (cases "bm_get (balances l) b")
    case None
    with x show ?thesis by (auto simp: ledger_op_defs checked_sub_def)
  next
    case y: (Some y)
    have "is_conserved (l\<lparr>balances := bm_insert b (y + n) (bm_insert a (x - n) (balances l))\<rparr>)"
      if "a \<noteq> b" and "n \<le> x"
      using inv circulating_move [OF inv x y that]
      by (simp add: ledger_inv_def is_conserved_def circulating_def)
    with x y show ?thesis
      by (auto simp: ledger_op_defs checked_sub_def checked_add_def)
  qed
qed

lemmas ledger_eqs =
  ledger_open_eq ledger_close_eq ledger_import_eq ledger_export_eq burn_eq transfer_eq


section \<open>The contract of the books\<close>

datatype 'a ledger_op =
    OpOpen 'a | OpClose 'a | OpImport 'a nat | OpExport 'a nat | OpTransfer 'a 'a nat | OpBurn 'a nat

fun ledger_apply :: "('a::linorder) fuel_ledger \<Rightarrow> 'a ledger_op \<Rightarrow> 'a ledger_res" where
  "ledger_apply l (OpOpen a) = ledger_open l a"
| "ledger_apply l (OpClose a) = ledger_close l a"
| "ledger_apply l (OpImport a n) = ledger_import l a n"
| "ledger_apply l (OpExport a n) = ledger_export l a n"
| "ledger_apply l (OpTransfer a b n) = transfer l a b n"
| "ledger_apply l (OpBurn a n) = burn l a n"

text \<open>
  The interface a scheduler node needs from its books: an invariant, a conservation law that
  the invariant implies, operations that keep the invariant whether they succeed or fail, and
  failures that change nothing. Only fuel imported counts toward the one capacity that can run
  out.
\<close>

locale fuel_books =
  fixes apply_op :: "'l \<Rightarrow> 'op \<Rightarrow> ('l \<times> (unit, 'e) result) exec"
    and inv :: "'l \<Rightarrow> bool"
    and lifetime :: "'l \<Rightarrow> nat"
    and import_of :: "'op \<Rightarrow> nat"
  assumes keeps_inv: "inv l \<Longrightarrow> apply_op l op = Some (l', r) \<Longrightarrow> inv l'"
    and failure_frame: "inv l \<Longrightarrow> apply_op l op = Some (l', Err e) \<Longrightarrow> l' = l"
    and returns: "inv l \<Longrightarrow> lifetime l + import_of op < 2 ^ 128 \<Longrightarrow> apply_op l op \<noteq> None"
    and lifetime_grows: "inv l \<Longrightarrow> apply_op l op = Some (l', r) \<Longrightarrow>
           lifetime l' \<le> lifetime l + import_of op"
begin

fun run_ops :: "'l \<Rightarrow> 'op list \<Rightarrow> 'l exec" where
  "run_ops l [] = Some l"
| "run_ops l (op # ops) = (case apply_op l op of None \<Rightarrow> None | Some (l', _) \<Rightarrow> run_ops l' ops)"

lemma run_ops_inv: "inv l \<Longrightarrow> run_ops l ops = Some l' \<Longrightarrow> inv l'"
  by (induction ops arbitrary: l) (auto split: option.splits dest: keeps_inv)

lemma run_ops_returns:
  "inv l \<Longrightarrow> lifetime l + sum_list (map import_of ops) < 2 ^ 128 \<Longrightarrow> run_ops l ops \<noteq> None"
proof (induction ops arbitrary: l)
  case Nil
  then show ?case by simp
next
  case (Cons op ops)
  then obtain l' r where step: "apply_op l op = Some (l', r)"
    using returns [of l op] by fastforce
  with Cons.prems keeps_inv lifetime_grows have "inv l'" and "lifetime l' \<le> lifetime l + import_of op"
    by blast+
  with Cons.prems Cons.IH [of l'] step show ?case by simp
qed

end

fun import_amount :: "'a ledger_op \<Rightarrow> nat" where
  "import_amount (OpImport _ n) = n"
| "import_amount _ = 0"

lemma ledger_inv_balances:
  assumes "ledger_inv l" and "bm_wf m"
    and "\<And>a b. bm_get m a = Some b \<Longrightarrow> b < 2 ^ 64"
    and "i < 2 ^ 128" and "i = b + x + bm_sum m"
  shows "ledger_inv (l\<lparr>balances := m, imported := i, burned := b, exported := x\<rparr>)"
  using assms by (simp add: ledger_inv_def is_conserved_def circulating_def)

lemma ledger_inv_openI:
  assumes "ledger_inv l" and "bm_get (balances l) a = None"
  shows "ledger_inv (l\<lparr>balances := bm_insert a 0 (balances l)\<rparr>)"
  using assms
  by (auto simp: ledger_inv_def is_conserved_def circulating_def bm_sum_insert_new)

lemma ledger_inv_closeI:
  assumes "ledger_inv l" and "bm_get (balances l) a = Some 0"
  shows "ledger_inv (l\<lparr>balances := bm_remove a (balances l)\<rparr>)"
  using assms bm_sum_remove [OF ledger_inv_wf [OF assms(1)] assms(2)]
  by (auto simp: ledger_inv_def is_conserved_def circulating_def)

lemma ledger_inv_importI:
  assumes "ledger_inv l" and "bm_get (balances l) a = Some b"
    and "b + n < 2 ^ 64" and "imported l + n < 2 ^ 128"
  shows "ledger_inv (l\<lparr>balances := bm_insert a (b + n) (balances l), imported := imported l + n\<rparr>)"
  using assms conserved_credit [OF assms(1,2), of n]
  by (auto simp: ledger_inv_def is_conserved_def circulating_def)

lemma ledger_inv_debitI:
  assumes "ledger_inv l" and "bm_get (balances l) a = Some b" and "n \<le> b"
  shows "ledger_inv (l\<lparr>balances := bm_insert a (b - n) (balances l), burned := burned l + n\<rparr>)"
    and "ledger_inv (l\<lparr>balances := bm_insert a (b - n) (balances l), exported := exported l + n\<rparr>)"
proof -
  have "b - n < 2 ^ 64"
    using assms(1,2) by (auto simp: ledger_inv_def intro: le_less_trans [of _ b])
  with assms conserved_debit [OF assms]
  show "ledger_inv (l\<lparr>balances := bm_insert a (b - n) (balances l), burned := burned l + n\<rparr>)"
    and "ledger_inv (l\<lparr>balances := bm_insert a (b - n) (balances l), exported := exported l + n\<rparr>)"
    by (auto simp: ledger_inv_def is_conserved_def circulating_def)
qed

lemma ledger_inv_moveI:
  assumes "ledger_inv l" and "bm_get (balances l) a = Some x"
    and "bm_get (balances l) b = Some y" and "a \<noteq> b" and "n \<le> x" and "y + n < 2 ^ 64"
  shows "ledger_inv (l\<lparr>balances := bm_insert b (y + n) (bm_insert a (x - n) (balances l))\<rparr>)"
proof -
  have "x - n < 2 ^ 64"
    using assms(1,2) by (auto simp: ledger_inv_def intro: le_less_trans [of _ x])
  with assms circulating_move [OF assms(1-5)] show ?thesis
    by (auto simp: ledger_inv_def is_conserved_def circulating_def)
qed

lemmas ledger_invI =
  ledger_inv_openI ledger_inv_closeI ledger_inv_importI ledger_inv_debitI ledger_inv_moveI

lemma ledger_apply_inv:
  assumes "ledger_inv l" and "ledger_apply l op = Some (l', r)"
  shows "ledger_inv l'"
  using assms
  by (cases op) (auto simp: ledger_eqs split: option.splits if_splits intro: ledger_invI)

lemma ledger_apply_failure:
  assumes "ledger_inv l" and "ledger_apply l op = Some (l', Err e)"
  shows "l' = l"
  using assms by (cases op) (auto simp: ledger_eqs split: option.splits if_splits)

lemma ledger_apply_returns:
  assumes "ledger_inv l" and "imported l + import_amount op < 2 ^ 128"
  shows "ledger_apply l op \<noteq> None"
  using assms by (cases op) (auto simp: ledger_eqs split: option.splits if_splits)

lemma ledger_apply_imported:
  assumes "ledger_inv l" and "ledger_apply l op = Some (l', r)"
  shows "imported l' \<le> imported l + import_amount op"
  using assms by (cases op) (auto simp: ledger_eqs split: option.splits if_splits)

interpretation books: fuel_books ledger_apply ledger_inv imported import_amount
  by unfold_locales
    (auto dest: ledger_apply_inv ledger_apply_failure ledger_apply_returns ledger_apply_imported)

text \<open>A whole history of operations on the books, from an empty ledger.\<close>

fun ledger_run :: "('a::linorder) fuel_ledger \<Rightarrow> 'a ledger_op list \<Rightarrow> 'a fuel_ledger exec" where
  "ledger_run l [] = Some l"
| "ledger_run l (op # ops) =
     (case ledger_apply l op of None \<Rightarrow> None | Some (l', _) \<Rightarrow> ledger_run l' ops)"

lemma ledger_run_books: "ledger_run l ops = books.run_ops l ops"
  by (induction ops arbitrary: l) (auto split: option.splits)

end
