(* ===== verification/Run_Queue.thy ===== *)
theory Run_Queue
  imports Prelude
begin

text \<open>
  Run-queue policies (\<open>crates/eo9-sched/src/policy.rs\<close>). The trait \<open>Policy\<close> is the record
  \<open>policy\<close> of its methods; its documented contract is the locale \<open>run_queue\<close>; the two shipped
  policies are \<open>deterministic_policy\<close> (lowest id first, a \<open>BTreeSet\<close>) and \<open>fair_policy\<close>
  (first in, first out, a \<open>VecDeque\<close>), and both are interpreted.
\<close>

type_synonym task_id = nat

record 'q policy =
  p_enqueue :: "task_id \<Rightarrow> 'q \<Rightarrow> 'q exec"
  p_dequeue :: "'q \<Rightarrow> task_id option \<times> 'q"
  p_remove :: "task_id \<Rightarrow> 'q \<Rightarrow> bool \<times> 'q"
  p_len :: "'q \<Rightarrow> nat"

definition p_is_empty :: "'q policy \<Rightarrow> 'q \<Rightarrow> bool" where
  "p_is_empty P q \<longleftrightarrow> p_len P q = 0"


section \<open>DeterministicPolicy: a sorted set of ids\<close>

type_synonym det_queue = "task_id list"

definition det_new :: det_queue where
  "det_new = []"

fun set_insert :: "task_id \<Rightarrow> det_queue \<Rightarrow> det_queue" where
  "set_insert x [] = [x]"
| "set_insert x (y # ys) =
     (if x < y then x # y # ys else if x = y then y # ys else y # set_insert x ys)"

definition det_enqueue :: "task_id \<Rightarrow> det_queue \<Rightarrow> det_queue exec" where
  "det_enqueue task q = do { assert_exec (task \<notin> set q); Some (set_insert task q) }"

fun det_dequeue :: "det_queue \<Rightarrow> task_id option \<times> det_queue" where
  "det_dequeue [] = (None, [])"
| "det_dequeue (x # q) = (Some x, q)"

definition det_remove :: "task_id \<Rightarrow> det_queue \<Rightarrow> bool \<times> det_queue" where
  "det_remove task q = (task \<in> set q, [x \<leftarrow> q. x \<noteq> task])"

definition det_len :: "det_queue \<Rightarrow> nat" where
  "det_len q = length q"

definition deterministic_policy :: "det_queue policy" where
  "deterministic_policy =
     \<lparr>p_enqueue = det_enqueue, p_dequeue = det_dequeue, p_remove = det_remove, p_len = det_len\<rparr>"


section \<open>FairPolicy: a queue in arrival order\<close>

type_synonym fair_queue = "task_id list"

definition fair_new :: fair_queue where
  "fair_new = []"

definition fair_enqueue :: "task_id \<Rightarrow> fair_queue \<Rightarrow> fair_queue exec" where
  "fair_enqueue task q = do { assert_exec (task \<notin> set q); Some (q @ [task]) }"

fun fair_dequeue :: "fair_queue \<Rightarrow> task_id option \<times> fair_queue" where
  "fair_dequeue [] = (None, [])"
| "fair_dequeue (x # q) = (Some x, q)"

fun position :: "task_id \<Rightarrow> fair_queue \<Rightarrow> nat option" where
  "position t [] = None"
| "position t (x # q) = (if x = t then Some 0 else map_option Suc (position t q))"

definition fair_remove :: "task_id \<Rightarrow> fair_queue \<Rightarrow> bool \<times> fair_queue" where
  "fair_remove task q =
     (case position task q of
        Some index \<Rightarrow> (True, take index q @ drop (Suc index) q)
      | None \<Rightarrow> (False, q))"

definition fair_len :: "fair_queue \<Rightarrow> nat" where
  "fair_len q = length q"

definition fair_policy :: "fair_queue policy" where
  "fair_policy =
     \<lparr>p_enqueue = fair_enqueue, p_dequeue = fair_dequeue, p_remove = fair_remove, p_len = fair_len\<rparr>"

lemmas policy_simps =
  deterministic_policy_def det_enqueue_def det_remove_def det_len_def det_new_def
  fair_policy_def fair_enqueue_def fair_remove_def fair_len_def fair_new_def


section \<open>The contract\<close>

text \<open>
  What the scheduler may assume of a policy, over the queue seen as the list \<open>order q\<close> in which
  \<open>dequeue\<close> would hand its tasks out: no duplicates, \<open>dequeue\<close> takes the head, \<open>remove\<close> takes a
  task out wherever it sits and keeps the order of the rest, and \<open>enqueue\<close> of a task that is not
  queued adds exactly that task without disturbing the order of the others.
\<close>

locale run_queue =
  fixes P :: "'q policy"
    and empty_queue :: 'q
    and queue_inv :: "'q \<Rightarrow> bool"
    and order :: "'q \<Rightarrow> task_id list"
  assumes empty_inv: "queue_inv empty_queue"
    and order_empty: "order empty_queue = []"
    and order_distinct: "queue_inv q \<Longrightarrow> distinct (order q)"
    and enqueue_fresh: "queue_inv q \<Longrightarrow> task \<notin> set (order q) \<Longrightarrow>
          \<exists>q'. p_enqueue P task q = Some q' \<and> queue_inv q' \<and> set (order q') = insert task (set (order q))
             \<and> [x \<leftarrow> order q'. x \<noteq> task] = order q"
    and dequeue_order: "queue_inv q \<Longrightarrow>
          (case order q of
             [] \<Rightarrow> p_dequeue P q = (None, q)
           | x # xs \<Rightarrow> \<exists>q'. p_dequeue P q = (Some x, q') \<and> queue_inv q' \<and> order q' = xs)"
    and remove_order: "queue_inv q \<Longrightarrow>
          \<exists>q'. p_remove P task q = (task \<in> set (order q), q') \<and> queue_inv q'
             \<and> order q' = [x \<leftarrow> order q. x \<noteq> task]"
    and len_order: "queue_inv q \<Longrightarrow> p_len P q = length (order q)"
begin

lemma dequeue_None: "queue_inv q \<Longrightarrow> order q = [] \<Longrightarrow> p_dequeue P q = (None, q)"
  using dequeue_order [of q] by simp

lemma dequeue_Some:
  assumes "queue_inv q" and "order q = x # xs"
  obtains q' where "p_dequeue P q = (Some x, q')" and "queue_inv q'" and "order q' = xs"
  using dequeue_order [OF assms(1)] assms(2) by auto

lemma is_empty_iff: "queue_inv q \<Longrightarrow> p_is_empty P q \<longleftrightarrow> order q = []"
  by (simp add: p_is_empty_def len_order)

end

lemma set_set_insert [simp]: "set (set_insert x q) = insert x (set q)"
  by (induction q) auto

lemma sorted_set_insert: "sorted_wrt (<) q \<Longrightarrow> sorted_wrt (<) (set_insert x q)"
  by (induction q) auto

lemma filter_set_insert: "x \<notin> set q \<Longrightarrow> [y \<leftarrow> set_insert x q. y \<noteq> x] = q"
proof (induction q)
  case Nil
  then show ?case by simp
next
  case (Cons a q)
  then have "[y \<leftarrow> q. y \<noteq> x] = q" by (auto simp: filter_id_conv)
  with Cons show ?case by auto
qed

interpretation det: run_queue deterministic_policy det_new "sorted_wrt (<)" "\<lambda>q. q"
proof unfold_locales
  fix q :: det_queue and task
  assume "sorted_wrt (<) q"
  then show "distinct q" by (simp add: strict_sorted_iff)
  show "case q of
      [] \<Rightarrow> p_dequeue deterministic_policy q = (None, q)
    | x # xs \<Rightarrow> \<exists>q'. p_dequeue deterministic_policy q = (Some x, q') \<and> sorted_wrt (<) q' \<and> q' = xs"
    using \<open>sorted_wrt (<) q\<close> by (cases q) (auto simp: policy_simps)
  show "\<exists>q'. p_remove deterministic_policy task q = (task \<in> set q, q') \<and> sorted_wrt (<) q'
     \<and> q' = [x \<leftarrow> q. x \<noteq> task]"
    using \<open>sorted_wrt (<) q\<close> by (simp add: policy_simps sorted_wrt_filter)
  assume "task \<notin> set q"
  then show "\<exists>q'. p_enqueue deterministic_policy task q = Some q' \<and> sorted_wrt (<) q'
     \<and> set q' = insert task (set q) \<and> [x \<leftarrow> q'. x \<noteq> task] = q"
    using \<open>sorted_wrt (<) q\<close>
    by (simp add: policy_simps sorted_set_insert filter_set_insert)
qed (simp_all add: policy_simps)

lemma position_None: "position t q = None \<longleftrightarrow> t \<notin> set q"
  by (induction q) auto

lemma position_take_drop:
  "position t q = Some i \<Longrightarrow> distinct q \<Longrightarrow> take i q @ drop (Suc i) q = [x \<leftarrow> q. x \<noteq> t]"
proof (induction q arbitrary: i)
  case Nil
  then show ?case by simp
next
  case (Cons x q)
  show ?case
  proof (cases "x = t")
    case True
    with Cons.prems show ?thesis by (auto simp: filter_id_conv intro!: sym [of _ q])
  next
    case False
    with Cons.prems obtain j where "position t q = Some j" and "i = Suc j" by auto
    with False Cons.prems(2) Cons.IH [of j] show ?thesis by simp
  qed
qed

lemma position_Some_mem: "position t q = Some i \<Longrightarrow> t \<in> set q"
  using position_None [of t q] by auto

lemma fair_remove_eq:
  assumes "distinct q"
  shows "fair_remove t q = (t \<in> set q, [x \<leftarrow> q. x \<noteq> t])"
proof (cases "position t q")
  case None
  then have "t \<notin> set q" by (simp add: position_None)
  then have "[x \<leftarrow> q. x \<noteq> t] = q" by (auto simp: filter_id_conv)
  with None \<open>t \<notin> set q\<close> show ?thesis by (simp add: fair_remove_def)
next
  case (Some i)
  with assms show ?thesis
    by (simp add: fair_remove_def position_take_drop position_Some_mem)
qed

interpretation fair: run_queue fair_policy fair_new distinct "\<lambda>q. q"
proof unfold_locales
  fix q :: fair_queue and task
  assume "distinct q"
  then show "distinct q" .
  show "case q of
      [] \<Rightarrow> p_dequeue fair_policy q = (None, q)
    | x # xs \<Rightarrow> \<exists>q'. p_dequeue fair_policy q = (Some x, q') \<and> distinct q' \<and> q' = xs"
    using \<open>distinct q\<close> by (cases q) (auto simp: policy_simps)
  show "\<exists>q'. p_remove fair_policy task q = (task \<in> set q, q') \<and> distinct q'
     \<and> q' = [x \<leftarrow> q. x \<noteq> task]"
    using \<open>distinct q\<close> by (simp add: fair_policy_def fair_remove_eq)
  assume "task \<notin> set q"
  then show "\<exists>q'. p_enqueue fair_policy task q = Some q' \<and> distinct q'
     \<and> set q' = insert task (set q) \<and> [x \<leftarrow> q'. x \<noteq> task] = q"
    using \<open>distinct q\<close> by (auto simp: policy_simps filter_id_conv)
qed (simp_all add: policy_simps)

end
