(* ===== verification/Scheduler.thy ===== *)
theory Scheduler
  imports Fuel_Ledger Run_Queue
begin

text \<open>
  The scheduler node (\<open>crates/eo9-sched/src/sched.rs\<close>): the task table with its parent and child
  links, the run queue behind a policy, and the fuel accounts. Every public operation is one
  definition, \<open>expect\<close>, \<open>assert!\<close>, \<open>debug_assert!\<close> and \<open>unreachable!\<close> included, over a policy that
  is passed as a dictionary of methods (the trait parameter \<open>P: Policy\<close>).
\<close>

section \<open>Data\<close>

datatype task_state = Runnable | Running | Blocked | Done

datatype resume_outcome = ROutOfFuel | RBlocked | RDone

datatype sched_error =
    NoSuchTask task_id
  | TaskDone task_id
  | TaskRunning task_id
  | NotRunning task_id
  | NotDone task_id
  | HasChildren task_id
  | InsufficientFuel nat nat  \<comment> \<open>requested, available\<close>
  | FuelOverflow

datatype account = Pool | TaskAcc task_id

instantiation account :: linorder
begin

fun less_eq_account :: "account \<Rightarrow> account \<Rightarrow> bool" where
  "less_eq_account Pool _ = True"
| "less_eq_account (TaskAcc _) Pool = False"
| "less_eq_account (TaskAcc s) (TaskAcc t) = (s \<le> t)"

definition less_account :: "account \<Rightarrow> account \<Rightarrow> bool" where
  "less_account a b \<longleftrightarrow> a \<le> b \<and> \<not> b \<le> a"

instance
proof
  fix a b c :: account
  show "a < b \<longleftrightarrow> a \<le> b \<and> \<not> b \<le> a" by (rule less_account_def)
  show "a \<le> a" by (cases a) auto
  show "a \<le> c" if "a \<le> b" "b \<le> c" using that by (cases a; cases b; cases c) auto
  show "a = b" if "a \<le> b" "b \<le> a" using that by (cases a; cases b) auto
  show "a \<le> b \<or> b \<le> a" by (cases a; cases b) auto
qed

end

record task =
  tstate :: task_state
  tparent :: "task_id option"
  tchildren :: "task_id list"

record 'q scheduler =
  tasks :: "(task_id, task) btree_map"
  next_id :: nat
  policy_state :: 'q
  ledger :: "account fuel_ledger"
  running :: "task_id option"

record fuel_audit_report =
  audit_imported :: nat
  audit_burned :: nat
  audit_exported :: nat
  audit_pool :: nat
  audit_held_by_tasks :: nat

type_synonym ('q, 'a) sched_res = "('q scheduler \<times> ('a, sched_error) result) exec"


section \<open>Internals\<close>

text \<open>\<open>Result::expect\<close>: an error is a panic.\<close>

definition expect_ok :: "('l \<times> (unit, 'e) result) exec \<Rightarrow> 'l exec" where
  "expect_ok m = do { (l, r) \<leftarrow> m; (case r of Ok _ \<Rightarrow> Some l | Err _ \<Rightarrow> None) }"

text \<open>Overwriting one row of the table, as \<open>get_mut(..).expect(..)\<close> does.\<close>

definition update_task ::
  "task_id \<Rightarrow> (task \<Rightarrow> task) \<Rightarrow> (task_id, task) btree_map \<Rightarrow> (task_id, task) btree_map exec" where
  "update_task t f ts =
     (case bm_get ts t of None \<Rightarrow> None | Some e \<Rightarrow> Some (bm_insert t (f e) ts))"

fun fuel_err :: "account fuel_error \<Rightarrow> sched_error exec" where
  "fuel_err (Insufficient _ requested available) = Some (InsufficientFuel requested available)"
| "fuel_err (BalanceOverflow _) = Some FuelOverflow"
| "fuel_err (NoSuchAccount _) = None"
| "fuel_err (AccountExists _) = None"
| "fuel_err (NonEmptyClose _ _) = None"

text \<open>\<open>ledger.op(..).map_err(Self::fuel_err)\<close>.\<close>

definition with_fuel_err :: "'q scheduler \<Rightarrow> account ledger_res \<Rightarrow> ('q, unit) sched_res" where
  "with_fuel_err s m = do {
     (l, r) \<leftarrow> m;
     (case r of
        Ok _ \<Rightarrow> Some (s\<lparr>ledger := l\<rparr>, Ok ())
      | Err e \<Rightarrow> do { e' \<leftarrow> fuel_err e; Some (s\<lparr>ledger := l\<rparr>, Err e') })
   }"

definition reclaim_all :: "'q scheduler \<Rightarrow> task_id \<Rightarrow> 'q scheduler exec" where
  "reclaim_all s task = do {
     balance \<leftarrow> ledger_balance (ledger s) (TaskAcc task);
     (if balance > 0
      then do {
        l \<leftarrow> expect_ok (transfer (ledger s) (TaskAcc task) Pool balance);
        Some (s\<lparr>ledger := l\<rparr>)
      }
      else Some s)
   }"


section \<open>Queries\<close>

definition task_state_of :: "'q scheduler \<Rightarrow> task_id \<Rightarrow> (task_state, sched_error) result" where
  "task_state_of s task = ok_or (map_option tstate (bm_get (tasks s) task)) (NoSuchTask task)"

definition parent_of :: "'q scheduler \<Rightarrow> task_id \<Rightarrow> (task_id option, sched_error) result" where
  "parent_of s task = ok_or (map_option tparent (bm_get (tasks s) task)) (NoSuchTask task)"

definition children_of :: "'q scheduler \<Rightarrow> task_id \<Rightarrow> (task_id list, sched_error) result" where
  "children_of s task = ok_or (map_option tchildren (bm_get (tasks s) task)) (NoSuchTask task)"

definition task_ids :: "'q scheduler \<Rightarrow> task_id list" where
  "task_ids s = bm_keys (tasks s)"

definition has_runnable :: "'q policy \<Rightarrow> 'q scheduler \<Rightarrow> bool" where
  "has_runnable P s \<longleftrightarrow> \<not> p_is_empty P (policy_state s)"

definition live_tasks :: "'q scheduler \<Rightarrow> nat" where
  "live_tasks s = length [e \<leftarrow> bm_values (tasks s). tstate e \<noteq> Done]"

definition is_idle :: "'q policy \<Rightarrow> 'q scheduler \<Rightarrow> bool" where
  "is_idle P s \<longleftrightarrow> running s = None \<and> p_is_empty P (policy_state s)"

definition pool :: "'q scheduler \<Rightarrow> nat exec" where
  "pool s = ledger_balance (ledger s) Pool"

definition fuel_of :: "'q scheduler \<Rightarrow> task_id \<Rightarrow> (nat, sched_error) result exec" where
  "fuel_of s task =
     (case task_state_of s task of
        Err e \<Rightarrow> Some (Err e)
      | Ok _ \<Rightarrow> do { b \<leftarrow> ledger_balance (ledger s) (TaskAcc task); Some (Ok b) })"

definition fuel_audit :: "'q scheduler \<Rightarrow> fuel_audit_report exec" where
  "fuel_audit s = do {
     p \<leftarrow> pool s;
     held \<leftarrow> minus_exec (circulating (ledger s)) p;
     Some \<lparr>audit_imported = imported (ledger s), audit_burned = burned (ledger s),
           audit_exported = exported (ledger s), audit_pool = p, audit_held_by_tasks = held\<rparr>
   }"

definition audit_is_conserved :: "fuel_audit_report \<Rightarrow> bool" where
  "audit_is_conserved a \<longleftrightarrow>
     audit_imported a = audit_burned a + audit_exported a + audit_pool a + audit_held_by_tasks a"


section \<open>Task lifecycle\<close>

definition sched_new :: "'q \<Rightarrow> 'q scheduler exec" where
  "sched_new q = do {
     l \<leftarrow> expect_ok (ledger_open ledger_new Pool);
     Some \<lparr>tasks = [], next_id = 0, policy_state = q, ledger = l, running = None\<rparr>
   }"

definition check_parent :: "'q scheduler \<Rightarrow> task_id option \<Rightarrow> (unit, sched_error) result" where
  "check_parent s parent =
     (case parent of
        None \<Rightarrow> Ok ()
      | Some parent_id \<Rightarrow>
          and_then (task_state_of s parent_id) (\<lambda>st.
            if st = Done then Err (TaskDone parent_id) else Ok ()))"

definition spawn :: "'q policy \<Rightarrow> 'q scheduler \<Rightarrow> task_id option \<Rightarrow> ('q, task_id) sched_res" where
  "spawn P s parent =
     (case check_parent s parent of
        Err e \<Rightarrow> Some (s, Err e)
      | Ok _ \<Rightarrow> do {
          let id = next_id s;
          nid \<leftarrow> plus_exec 64 (next_id s) 1;
          l \<leftarrow> expect_ok (ledger_open (ledger s) (TaskAcc id));
          let ts = bm_insert id \<lparr>tstate = Runnable, tparent = parent, tchildren = []\<rparr> (tasks s);
          ts \<leftarrow> (case parent of
                  None \<Rightarrow> Some ts
                | Some parent_id \<Rightarrow>
                    update_task parent_id (\<lambda>e. e\<lparr>tchildren := tchildren e @ [id]\<rparr>) ts);
          q \<leftarrow> p_enqueue P id (policy_state s);
          Some (s\<lparr>tasks := ts, next_id := nid, policy_state := q, ledger := l\<rparr>, Ok id)
        })"

definition kill :: "'q policy \<Rightarrow> 'q scheduler \<Rightarrow> task_id \<Rightarrow> ('q, unit) sched_res" where
  "kill P s task =
     (case task_state_of s task of
        Err e \<Rightarrow> Some (s, Err e)
      | Ok Running \<Rightarrow> Some (s, Err (TaskRunning task))
      | Ok Done \<Rightarrow> Some (s, Ok ())
      | Ok st \<Rightarrow> do {
          s \<leftarrow> (if st = Runnable
                then (case p_remove P task (policy_state s) of (removed, q) \<Rightarrow> do {
                        assert_exec removed;
                        Some (s\<lparr>policy_state := q\<rparr>)
                      })
                else Some s);
          s \<leftarrow> reclaim_all s task;
          ts \<leftarrow> update_task task (\<lambda>e. e\<lparr>tstate := Done\<rparr>) (tasks s);
          Some (s\<lparr>tasks := ts\<rparr>, Ok ())
        })"

definition reap :: "'q scheduler \<Rightarrow> task_id \<Rightarrow> ('q, unit) sched_res" where
  "reap s task =
     (case bm_get (tasks s) task of
        None \<Rightarrow> Some (s, Err (NoSuchTask task))
      | Some entry \<Rightarrow>
          (if tstate entry \<noteq> Done then Some (s, Err (NotDone task))
           else if tchildren entry \<noteq> [] then Some (s, Err (HasChildren task))
           else do {
             l \<leftarrow> expect_ok (ledger_close (ledger s) (TaskAcc task));
             let ts = bm_remove task (tasks s);
             ts \<leftarrow> (case tparent entry of
                     None \<Rightarrow> Some ts
                   | Some parent_id \<Rightarrow>
                       update_task parent_id
                         (\<lambda>e. e\<lparr>tchildren := [child \<leftarrow> tchildren e. child \<noteq> task]\<rparr>) ts);
             Some (s\<lparr>ledger := l, tasks := ts\<rparr>, Ok ())
           }))"


section \<open>Readiness and the resume cycle\<close>

definition ready :: "'q policy \<Rightarrow> 'q scheduler \<Rightarrow> task_id \<Rightarrow> ('q, bool) sched_res" where
  "ready P s task =
     (case bm_get (tasks s) task of
        None \<Rightarrow> Some (s, Err (NoSuchTask task))
      | Some entry \<Rightarrow>
          (if tstate entry = Blocked
           then do {
             let ts = bm_insert task (entry\<lparr>tstate := Runnable\<rparr>) (tasks s);
             q \<leftarrow> p_enqueue P task (policy_state s);
             Some (s\<lparr>tasks := ts, policy_state := q\<rparr>, Ok True)
           }
           else Some (s, Ok False)))"

definition pick :: "'q policy \<Rightarrow> 'q scheduler \<Rightarrow> ('q scheduler \<times> task_id option) exec" where
  "pick P s = do {
     assert_exec (running s = None);
     (case p_dequeue P (policy_state s) of
        (None, q) \<Rightarrow> Some (s\<lparr>policy_state := q\<rparr>, None)
      | (Some task, q) \<Rightarrow> do {
          entry \<leftarrow> bm_get (tasks s) task;
          assert_exec (tstate entry = Runnable);
          let ts = bm_insert task (entry\<lparr>tstate := Running\<rparr>) (tasks s);
          Some (s\<lparr>tasks := ts, policy_state := q, running := Some task\<rparr>, Some task)
        })
   }"

definition report ::
  "'q policy \<Rightarrow> 'q scheduler \<Rightarrow> task_id \<Rightarrow> nat \<Rightarrow> resume_outcome \<Rightarrow> ('q, unit) sched_res" where
  "report P s task spent outcome =
     (if running s \<noteq> Some task then Some (s, Err (NotRunning task))
      else do {
        (s, r) \<leftarrow> with_fuel_err s (burn (ledger s) (TaskAcc task) spent);
        (case r of
           Err e \<Rightarrow> Some (s, Err e)
         | Ok _ \<Rightarrow> do {
             s \<leftarrow> (case outcome of
                     ROutOfFuel \<Rightarrow> do {
                       ts \<leftarrow> update_task task (\<lambda>e. e\<lparr>tstate := Runnable\<rparr>) (tasks s);
                       q \<leftarrow> p_enqueue P task (policy_state s);
                       Some (s\<lparr>tasks := ts, policy_state := q\<rparr>)
                     }
                   | RBlocked \<Rightarrow> do {
                       ts \<leftarrow> update_task task (\<lambda>e. e\<lparr>tstate := Blocked\<rparr>) (tasks s);
                       Some (s\<lparr>tasks := ts\<rparr>)
                     }
                   | RDone \<Rightarrow> do {
                       ts \<leftarrow> update_task task (\<lambda>e. e\<lparr>tstate := Done\<rparr>) (tasks s);
                       reclaim_all (s\<lparr>tasks := ts\<rparr>) task
                     });
             Some (s\<lparr>running := None\<rparr>, Ok ())
           })
      })"


section \<open>Fuel\<close>

definition refuel :: "'q scheduler \<Rightarrow> nat \<Rightarrow> ('q, unit) sched_res" where
  "refuel s amount =
     (if circulating (ledger s) + amount > u64_max then Some (s, Err FuelOverflow)
      else do {
        l \<leftarrow> expect_ok (ledger_import (ledger s) Pool amount);
        Some (s\<lparr>ledger := l\<rparr>, Ok ())
      })"

definition export :: "'q scheduler \<Rightarrow> nat \<Rightarrow> ('q, unit) sched_res" where
  "export s amount = with_fuel_err s (ledger_export (ledger s) Pool amount)"

definition donate :: "'q scheduler \<Rightarrow> task_id \<Rightarrow> nat \<Rightarrow> ('q, unit) sched_res" where
  "donate s task amount =
     (case task_state_of s task of
        Err e \<Rightarrow> Some (s, Err e)
      | Ok Done \<Rightarrow> Some (s, Err (TaskDone task))
      | Ok _ \<Rightarrow> with_fuel_err s (transfer (ledger s) Pool (TaskAcc task) amount))"

definition reclaim :: "'q scheduler \<Rightarrow> task_id \<Rightarrow> nat \<Rightarrow> ('q, unit) sched_res" where
  "reclaim s task amount =
     (case task_state_of s task of
        Err e \<Rightarrow> Some (s, Err e)
      | Ok Running \<Rightarrow> Some (s, Err (TaskRunning task))
      | Ok Done \<Rightarrow> Some (s, Err (TaskDone task))
      | Ok _ \<Rightarrow> with_fuel_err s (transfer (ledger s) (TaskAcc task) Pool amount))"


section \<open>The node as a state machine\<close>

inductive sched_step :: "'q policy \<Rightarrow> 'q scheduler \<Rightarrow> 'q scheduler \<Rightarrow> bool" for P where
  step_spawn: "spawn P s parent = Some (s', r) \<Longrightarrow> sched_step P s s'"
| step_kill: "kill P s t = Some (s', r) \<Longrightarrow> sched_step P s s'"
| step_reap: "reap s t = Some (s', r) \<Longrightarrow> sched_step P s s'"
| step_ready: "ready P s t = Some (s', b) \<Longrightarrow> sched_step P s s'"
| step_pick: "pick P s = Some (s', picked) \<Longrightarrow> sched_step P s s'"
| step_report: "report P s t spent outcome = Some (s', r) \<Longrightarrow> sched_step P s s'"
| step_refuel: "refuel s n = Some (s', r) \<Longrightarrow> sched_step P s s'"
| step_export: "export s n = Some (s', r) \<Longrightarrow> sched_step P s s'"
| step_donate: "donate s t n = Some (s', r) \<Longrightarrow> sched_step P s s'"
| step_reclaim: "reclaim s t n = Some (s', r) \<Longrightarrow> sched_step P s s'"

inductive sched_reachable :: "'q policy \<Rightarrow> 'q \<Rightarrow> 'q scheduler \<Rightarrow> bool" for P q0 where
  reach_new: "sched_new q0 = Some s \<Longrightarrow> sched_reachable P q0 s"
| reach_step: "sched_reachable P q0 s \<Longrightarrow> sched_step P s s' \<Longrightarrow> sched_reachable P q0 s'"

text \<open>The same steps as an executable interpreter of operation sequences.\<close>

datatype sched_op =
    OpSpawn "task_id option" | OpKill task_id | OpReap task_id | OpReady task_id | OpPick
  | OpReport task_id nat resume_outcome | OpRefuel nat | OpExportFuel nat
  | OpDonate task_id nat | OpReclaim task_id nat

fun sched_apply :: "'q policy \<Rightarrow> 'q scheduler \<Rightarrow> sched_op \<Rightarrow> 'q scheduler exec" where
  "sched_apply P s (OpSpawn parent) = map_option fst (spawn P s parent)"
| "sched_apply P s (OpKill t) = map_option fst (kill P s t)"
| "sched_apply P s (OpReap t) = map_option fst (reap s t)"
| "sched_apply P s (OpReady t) = map_option fst (ready P s t)"
| "sched_apply P s OpPick = map_option fst (pick P s)"
| "sched_apply P s (OpReport t n out) = map_option fst (report P s t n out)"
| "sched_apply P s (OpRefuel n) = map_option fst (refuel s n)"
| "sched_apply P s (OpExportFuel n) = map_option fst (export s n)"
| "sched_apply P s (OpDonate t n) = map_option fst (donate s t n)"
| "sched_apply P s (OpReclaim t n) = map_option fst (reclaim s t n)"

fun sched_run :: "'q policy \<Rightarrow> 'q scheduler \<Rightarrow> sched_op list \<Rightarrow> 'q scheduler exec" where
  "sched_run P s [] = Some s"
| "sched_run P s (op # ops) = do { s \<leftarrow> sched_apply P s op; sched_run P s ops }"

definition sched_exec :: "'q policy \<Rightarrow> 'q \<Rightarrow> sched_op list \<Rightarrow> 'q scheduler exec" where
  "sched_exec P q0 ops = do { s \<leftarrow> sched_new q0; sched_run P s ops }"

lemma sched_apply_step: "sched_apply P s op = Some s' \<Longrightarrow> sched_step P s s'"
  by (cases op) (auto intro: sched_step.intros)

lemma sched_run_reachable:
  "sched_run P s ops = Some s' \<Longrightarrow> sched_reachable P q0 s \<Longrightarrow> sched_reachable P q0 s'"
  by (induction ops arbitrary: s) (auto simp: bind_eq_Some_conv intro: reach_step dest: sched_apply_step)

lemma sched_exec_reachable: "sched_exec P q0 ops = Some s \<Longrightarrow> sched_reachable P q0 s"
  by (auto simp: sched_exec_def bind_eq_Some_conv intro: sched_run_reachable reach_new)

end
