(* ===== verification/Scheduler_Inv.thy ===== *)
theory Scheduler_Inv
  imports Scheduler
begin

text \<open>
  The invariant of the scheduler node and the proof that every operation returns and keeps it.
  It has three parts, each over only the fields it needs: the task tree (\<open>tree_inv\<close>), the
  agreement of run queue, running task and task states (\<open>queue_link\<close>), and the agreement of the
  fuel accounts with the task table (\<open>fuel_link\<close>).
\<close>

section \<open>The invariant\<close>

definition has_parent :: "(task_id, task) btree_map \<Rightarrow> task_id \<Rightarrow> task_id \<Rightarrow> bool" where
  "has_parent ts c p \<longleftrightarrow> (\<exists>e. bm_get ts c = Some e \<and> tparent e = Some p)"

definition has_child :: "(task_id, task) btree_map \<Rightarrow> task_id \<Rightarrow> task_id \<Rightarrow> bool" where
  "has_child ts p c \<longleftrightarrow> (\<exists>e. bm_get ts p = Some e \<and> c \<in> set (tchildren e))"

definition tree_inv :: "(task_id, task) btree_map \<Rightarrow> nat \<Rightarrow> bool" where
  "tree_inv ts nid \<longleftrightarrow> bm_wf ts \<and> (\<forall>t \<in> dom (bm_get ts). t < nid) \<and>
     (\<forall>t e. bm_get ts t = Some e \<longrightarrow> distinct (tchildren e)) \<and>
     (\<forall>c p. has_parent ts c p \<longleftrightarrow> has_child ts p c) \<and>
     (\<forall>c p. has_parent ts c p \<longrightarrow> p < c)"

text \<open>The states of the tracked tasks, all that the other two parts depend on.\<close>

definition state_at :: "(task_id, task) btree_map \<Rightarrow> task_id \<rightharpoonup> task_state" where
  "state_at ts t = map_option tstate (bm_get ts t)"

definition queue_link :: "(task_id \<rightharpoonup> task_state) \<Rightarrow> task_id list \<Rightarrow> task_id option \<Rightarrow> bool" where
  "queue_link f ord run \<longleftrightarrow> (\<forall>t. t \<in> set ord \<longleftrightarrow> f t = Some Runnable) \<and>
     (\<forall>t. run = Some t \<longleftrightarrow> f t = Some Running)"

definition fuel_link :: "(task_id \<rightharpoonup> task_state) \<Rightarrow> account fuel_ledger \<Rightarrow> bool" where
  "fuel_link f l \<longleftrightarrow> ledger_inv l \<and> circulating l < 2 ^ 64 \<and>
     bm_get (balances l) Pool \<noteq> None \<and>
     (\<forall>t. bm_get (balances l) (TaskAcc t) = None \<longleftrightarrow> f t = None) \<and>
     (\<forall>t. f t = Some Done \<longrightarrow> bm_get (balances l) (TaskAcc t) = Some 0)"

definition sched_inv :: "('q \<Rightarrow> bool) \<Rightarrow> ('q \<Rightarrow> task_id list) \<Rightarrow> 'q scheduler \<Rightarrow> bool" where
  "sched_inv qi ord s \<longleftrightarrow> next_id s < 2 ^ 64 \<and> tree_inv (tasks s) (next_id s) \<and>
     qi (policy_state s) \<and> queue_link (state_at (tasks s)) (ord (policy_state s)) (running s) \<and>
     fuel_link (state_at (tasks s)) (ledger s)"

lemma sched_invD:
  assumes "sched_inv qi ord s"
  shows "next_id s < 2 ^ 64" "tree_inv (tasks s) (next_id s)" "qi (policy_state s)"
    "queue_link (state_at (tasks s)) (ord (policy_state s)) (running s)" "fuel_link (state_at (tasks s)) (ledger s)"
  using assms by (simp_all add: sched_inv_def)


section \<open>Table updates\<close>

lemma tree_inv_wf: "tree_inv ts n \<Longrightarrow> bm_wf ts"
  by (simp add: tree_inv_def)

lemma tree_link: "tree_inv ts n \<Longrightarrow> has_child ts p c \<longleftrightarrow> has_parent ts c p"
  by (simp add: tree_inv_def)

text \<open>Changing only the state of a task keeps the tree.\<close>

lemma tree_inv_state:
  assumes "tree_inv ts n" and "bm_get ts t = Some e"
  shows "tree_inv (bm_insert t (e\<lparr>tstate := x\<rparr>) ts) n"
proof -
  have "has_parent (bm_insert t (e\<lparr>tstate := x\<rparr>) ts) = has_parent ts"
    and "has_child (bm_insert t (e\<lparr>tstate := x\<rparr>) ts) = has_child ts"
    using assms(2) by (auto simp: has_parent_def has_child_def fun_eq_iff)
  with assms show ?thesis
    by (auto simp: tree_inv_def)
qed

text \<open>A fresh child is appended to its parent, which is older.\<close>

lemma tree_inv_spawn_root:
  assumes "tree_inv ts n"
  shows "tree_inv (bm_insert n \<lparr>tstate = x, tparent = None, tchildren = []\<rparr> ts) (n + 1)"
proof -
  have fresh: "bm_get ts n = None"
    using assms by (auto simp: tree_inv_def)
  then have "\<not> has_child ts p n" for p
    by (simp add: tree_link [OF assms] has_parent_def)
  moreover have "\<not> has_parent ts c n" for c
    using assms fresh by (auto simp: tree_inv_def has_child_def)
  ultimately have
    "has_parent (bm_insert n \<lparr>tstate = x, tparent = None, tchildren = []\<rparr> ts) = has_parent ts"
    "has_child (bm_insert n \<lparr>tstate = x, tparent = None, tchildren = []\<rparr> ts) = has_child ts"
    using fresh by (auto simp: has_parent_def has_child_def fun_eq_iff)
  with assms show ?thesis
    by (auto simp: tree_inv_def less_Suc_eq)
qed

lemma tree_inv_spawn_child:
  assumes inv: "tree_inv ts n" and p: "bm_get ts p = Some pe"
  shows "tree_inv (bm_insert p (pe\<lparr>tchildren := tchildren pe @ [n]\<rparr>)
           (bm_insert n \<lparr>tstate = x, tparent = Some p, tchildren = []\<rparr> ts)) (n + 1)"
    (is "tree_inv ?ts _")
proof -
  have fresh: "bm_get ts n = None" and pn: "p < n"
    using inv p by (auto simp: tree_inv_def)
  have no_child: "\<not> has_child ts q n" for q
    using fresh by (simp add: tree_link [OF inv] has_parent_def)
  have "has_parent ?ts c q \<longleftrightarrow> has_parent ts c q \<or> (c = n \<and> q = p)" for c q
    using fresh p pn by (auto simp: has_parent_def)
  moreover have "has_child ?ts q c \<longleftrightarrow> has_child ts q c \<or> (c = n \<and> q = p)" for c q
    using fresh p pn by (auto simp: has_child_def)
  moreover have "distinct (tchildren pe @ [n])"
    using inv p no_child [of p] by (auto simp: tree_inv_def has_child_def)
  ultimately show ?thesis
    using inv pn by (auto simp: tree_inv_def less_Suc_eq)
qed

text \<open>A task without children leaves the tree, and its parent's list.\<close>

lemma tree_inv_reap_root:
  assumes inv: "tree_inv ts n" and t: "bm_get ts t = Some e"
    and "tparent e = None" and "tchildren e = []"
  shows "tree_inv (bm_remove t ts) n"
proof -
  have "\<not> has_child ts p t" for p
    using t \<open>tparent e = None\<close> by (simp add: tree_link [OF inv] has_parent_def)
  moreover have "\<not> has_parent ts c t" for c
    using inv t \<open>tchildren e = []\<close> by (auto simp: tree_inv_def has_child_def)
  ultimately have "has_parent (bm_remove t ts) = has_parent ts"
    "has_child (bm_remove t ts) = has_child ts"
    using t \<open>tparent e = None\<close> \<open>tchildren e = []\<close>
    by (auto simp: has_parent_def has_child_def fun_eq_iff)
  with inv show ?thesis
    by (auto simp: tree_inv_def)
qed

lemma tree_inv_reap_child:
  assumes inv: "tree_inv ts n" and t: "bm_get ts t = Some e"
    and par: "tparent e = Some p" and none: "tchildren e = []"
  shows "\<exists>pe. p \<noteq> t \<and> bm_get ts p = Some pe \<and>
     tree_inv (bm_insert p (pe\<lparr>tchildren := [c \<leftarrow> tchildren pe. c \<noteq> t]\<rparr>) (bm_remove t ts)) n"
proof -
  have "has_parent ts t p" using t par by (simp add: has_parent_def)
  then have "p < t" and "has_child ts p t" using inv by (auto simp: tree_inv_def)
  then obtain pe where pe: "bm_get ts p = Some pe" and "p \<noteq> t"
    by (auto simp: has_child_def)
  define ts' where "ts' = bm_insert p (pe\<lparr>tchildren := [c \<leftarrow> tchildren pe. c \<noteq> t]\<rparr>) (bm_remove t ts)"
  have no_child: "\<not> has_child ts t c" for c
    using t none by (auto simp: has_child_def)
  have only: "has_child ts q t \<longleftrightarrow> q = p" for q
    using t par by (auto simp: tree_link [OF inv] has_parent_def)
  have "has_parent ts' c q \<longleftrightarrow> has_parent ts c q \<and> c \<noteq> t" for c q
    using pe \<open>p \<noteq> t\<close> by (auto simp: ts'_def has_parent_def)
  moreover have "has_child ts' q c \<longleftrightarrow> has_child ts q c \<and> c \<noteq> t" for c q
    using pe \<open>p \<noteq> t\<close> no_child only [of q] by (auto simp: ts'_def has_child_def)
  ultimately have "tree_inv ts' n"
    using inv pe \<open>p \<noteq> t\<close> by (auto simp: tree_inv_def ts'_def)
  with pe \<open>p \<noteq> t\<close> show ?thesis by (auto simp: ts'_def)
qed


section \<open>Queue agreement\<close>

lemma state_at_insert [simp]: "state_at (bm_insert t e ts) = (state_at ts)(t \<mapsto> tstate e)"
  by (auto simp: state_at_def fun_eq_iff)

lemma state_at_remove [simp]: "state_at (bm_remove t ts) = (state_at ts)(t := None)"
  by (auto simp: state_at_def fun_eq_iff)

lemma state_at_get: "bm_get ts t = Some e \<Longrightarrow> state_at ts t = Some (tstate e)"
  by (simp add: state_at_def)

lemma state_at_same [simp]: "bm_get ts t = Some e \<Longrightarrow> (state_at ts)(t \<mapsto> tstate e) = state_at ts"
  by (auto simp: state_at_def fun_eq_iff)

lemma queue_link_state:
  assumes "queue_link f ord run"
    and "set ord' = (if x = Runnable then insert t (set ord) else set ord - {t})"
    and "run' = (if x = Running then Some t else if run = Some t then None else run)"
    and "x = Running \<Longrightarrow> run = None \<or> run = Some t"
  shows "queue_link (f(t \<mapsto> x)) ord' run'"
proof -
  have ord: "u \<in> set ord \<longleftrightarrow> f u = Some Runnable" and run: "run = Some u \<longleftrightarrow> f u = Some Running" for u
    using assms(1) by (simp_all add: queue_link_def)
  have "u \<in> set ord' \<longleftrightarrow> (f(t \<mapsto> x)) u = Some Runnable" for u
    using assms(2) ord [of u] by (cases x) auto
  moreover have "run' = Some u \<longleftrightarrow> (f(t \<mapsto> x)) u = Some Running" for u
    using assms(3,4) run [of u] run [of t] by (cases x) auto
  ultimately show ?thesis by (simp add: queue_link_def)
qed

lemma queue_link_reap:
  assumes "queue_link f ord run" and "f t = Some Done"
  shows "queue_link (f(t := None)) ord run"
  using assms by (auto simp: queue_link_def)


section \<open>Fuel agreement\<close>

lemma two_accounts:
  assumes "ledger_inv l" and "bm_get (balances l) a = Some x" and "bm_get (balances l) b = Some y"
    and "a \<noteq> b"
  shows "x + y \<le> circulating l"
proof -
  have "bm_get (bm_remove a (balances l)) b = Some y"
    using assms(3,4) by simp
  from bm_sum_ge [OF this] bm_sum_remove [OF ledger_inv_wf [OF assms(1)] assms(2)]
  show ?thesis by (simp add: circulating_def)
qed

lemma fuel_link_state:
  assumes "fuel_link f l" and "f t \<noteq> None"
    and "x = Done \<Longrightarrow> bm_get (balances l) (TaskAcc t) = Some 0"
  shows "fuel_link (f(t \<mapsto> x)) l"
  using assms by (simp add: fuel_link_def)

lemma fuel_link_spawn:
  assumes link: "fuel_link f l" and fresh: "f n = None"
  shows "\<exists>l'. ledger_open l (TaskAcc n) = Some (l', Ok ()) \<and> fuel_link (f(n \<mapsto> Runnable)) l'"
proof -
  have inv: "ledger_inv l" and none: "bm_get (balances l) (TaskAcc n) = None"
    using link fresh by (simp_all add: fuel_link_def)
  have "circulating (l\<lparr>balances := bm_insert (TaskAcc n) 0 (balances l)\<rparr>) = circulating l"
    using none by (simp add: circulating_def bm_sum_insert_new)
  with link fresh none ledger_inv_openI [OF inv none] show ?thesis
    by (auto simp: ledger_open_eq [OF inv] fuel_link_def)
qed

lemma fuel_link_reap:
  assumes link: "fuel_link f l" and "f t = Some Done"
  shows "\<exists>l'. ledger_close l (TaskAcc t) = Some (l', Ok ()) \<and> fuel_link (f(t := None)) l'"
proof -
  have inv: "ledger_inv l" and zero: "bm_get (balances l) (TaskAcc t) = Some 0"
    using assms by (simp_all add: fuel_link_def)
  have "circulating (l\<lparr>balances := bm_remove (TaskAcc t) (balances l)\<rparr>) = circulating l"
    using bm_sum_remove [OF ledger_inv_wf [OF inv] zero] by (simp add: circulating_def)
  with link zero ledger_inv_closeI [OF inv zero] show ?thesis
    by (auto simp: ledger_close_eq [OF inv] fuel_link_def)
qed

text \<open>
  Between two open accounts a transfer never overflows: the node's outstanding fuel fits a
  \<open>u64\<close>. The target must not be a finished task.
\<close>

lemma fuel_link_move:
  assumes link: "fuel_link f l" and a: "bm_get (balances l) a = Some x"
    and b: "bm_get (balances l) b = Some y" and "a \<noteq> b"
    and live: "\<And>t. b = TaskAcc t \<Longrightarrow> f t \<noteq> Some Done"
  shows "(n \<le> x \<longrightarrow> (\<exists>l'. transfer l a b n = Some (l', Ok ()) \<and> fuel_link f l' \<and>
            bm_get (balances l') = (bm_get (balances l))(a \<mapsto> x - n, b \<mapsto> y + n) \<and>
            imported l' = imported l \<and> burned l' = burned l \<and> exported l' = exported l)) \<and>
         (x < n \<longrightarrow> transfer l a b n = Some (l, Err (Insufficient a n x)))"
proof (cases "n \<le> x")
  case True
  have inv: "ledger_inv l" and circ: "circulating l < 2 ^ 64"
    using link by (auto simp: fuel_link_def)
  have small: "y + n < 2 ^ 64"
    using two_accounts [OF inv a b \<open>a \<noteq> b\<close>] True circ by linarith
  define l' where "l' = l\<lparr>balances := bm_insert b (y + n) (bm_insert a (x - n) (balances l))\<rparr>"
  have "circulating l' = circulating l"
    using circulating_move [OF inv a b \<open>a \<noteq> b\<close> True] by (simp add: circulating_def l'_def)
  moreover have "ledger_inv l'"
    unfolding l'_def by (rule ledger_inv_moveI [OF inv a b \<open>a \<noteq> b\<close> True small])
  moreover have "bm_get (balances l') c = None \<longleftrightarrow> bm_get (balances l) c = None" for c
    using a b by (auto simp: l'_def)
  moreover have "bm_get (balances l') (TaskAcc t) = Some 0" if "f t = Some Done" for t
    using link that live [of t] a by (auto simp: fuel_link_def l'_def)
  ultimately have "fuel_link f l'"
    using link by (simp add: fuel_link_def)
  moreover have "transfer l a b n = Some (l', Ok ())"
    using a b \<open>a \<noteq> b\<close> True small by (simp add: transfer_eq [OF inv] l'_def)
  ultimately show ?thesis using True by (auto simp: l'_def)
next
  case False
  with link a b show ?thesis by (auto simp: fuel_link_def transfer_eq)
qed

lemma fuel_link_pool:
  assumes "fuel_link f l"
  obtains p where "bm_get (balances l) Pool = Some p"
  using assms by (auto simp: fuel_link_def)

lemma fuel_link_task:
  assumes "fuel_link f l" and "f t \<noteq> None"
  obtains b where "bm_get (balances l) (TaskAcc t) = Some b"
  using assms by (cases "bm_get (balances l) (TaskAcc t)") (simp_all add: fuel_link_def)

lemma reclaim_all_returns:
  assumes link: "fuel_link (state_at (tasks s)) (ledger s)" and t: "state_at (tasks s) t \<noteq> None"
  shows "\<exists>l' b p. reclaim_all s t = Some (s\<lparr>ledger := l'\<rparr>) \<and> fuel_link (state_at (tasks s)) l' \<and>
     bm_get (balances (ledger s)) (TaskAcc t) = Some b \<and>
     bm_get (balances (ledger s)) Pool = Some p \<and>
     bm_get (balances l') = (bm_get (balances (ledger s)))(TaskAcc t \<mapsto> 0, Pool \<mapsto> p + b) \<and>
     imported l' = imported (ledger s) \<and> burned l' = burned (ledger s) \<and>
     exported l' = exported (ledger s)"
proof -
  obtain p where p: "bm_get (balances (ledger s)) Pool = Some p"
    by (rule fuel_link_pool [OF link])
  obtain b where b: "bm_get (balances (ledger s)) (TaskAcc t) = Some b"
    by (rule fuel_link_task [OF link t])
  show ?thesis
  proof (cases "b = 0")
    case True
    have "(bm_get (balances (ledger s)))(TaskAcc t \<mapsto> 0, Pool \<mapsto> p + b) = bm_get (balances (ledger s))"
      using True b p by (auto simp: fun_eq_iff)
    with True b p link show ?thesis
      by (intro exI [of _ "ledger s"]) (simp add: reclaim_all_def ledger_balance_def)
  next
    case False
    have "TaskAcc t \<noteq> Pool" by simp
    from fuel_link_move [OF link b p this, of b] obtain l' where
      "transfer (ledger s) (TaskAcc t) Pool b = Some (l', Ok ())" and "fuel_link (state_at (tasks s)) l'" and
      "bm_get (balances l') = (bm_get (balances (ledger s)))(TaskAcc t \<mapsto> 0, Pool \<mapsto> p + b)" and
      "imported l' = imported (ledger s)" and "burned l' = burned (ledger s)" and
      "exported l' = exported (ledger s)"
      by auto
    with False b p show ?thesis
      by (intro exI [of _ l']) (simp add: reclaim_all_def ledger_balance_def expect_ok_def)
  qed
qed

end
