(* ===== verification/Scheduler_Ops.thy ===== *)
theory Scheduler_Ops
  imports Scheduler_Inv
begin

text \<open>
  Every operation of the scheduler node, proved once for any policy that meets the run-queue
  contract: it returns (no \<open>expect\<close>, assertion or overflow is hit), it keeps the invariant, and
  an error answer leaves the node as it was.
\<close>

definition keeps :: "('s \<Rightarrow> bool) \<Rightarrow> 's \<Rightarrow> ('s \<times> ('a, 'e) result) exec \<Rightarrow> bool" where
  "keeps I s m \<longleftrightarrow> (\<exists>s' r. m = Some (s', r) \<and> I s' \<and> (\<forall>e. r = Err e \<longrightarrow> s' = s))"

lemma keepsI_ok: "m = Some (s', Ok v) \<Longrightarrow> I s' \<Longrightarrow> keeps I s m"
  by (auto simp: keeps_def)

lemma keepsI_err: "m = Some (s, Err e) \<Longrightarrow> I s \<Longrightarrow> keeps I s m"
  by (auto simp: keeps_def)

lemma keepsD:
  assumes "keeps I s m" and "m = Some (s', r)"
  shows "I s'" and "r = Err e \<Longrightarrow> s' = s"
  using assms by (auto simp: keeps_def)

lemma keeps_returns: "keeps I s m \<Longrightarrow> m \<noteq> None"
  by (auto simp: keeps_def)

text \<open>A task in a state other than finished, or the finished one.\<close>

lemma task_state_of_simps:
  "task_state_of s t = Err e \<longleftrightarrow> bm_get (tasks s) t = None \<and> e = NoSuchTask t"
  "task_state_of s t = Ok st \<longleftrightarrow> state_at (tasks s) t = Some st"
  by (auto simp: task_state_of_def state_at_def ok_or_def split: option.splits)

lemma queue_linkD:
  assumes "queue_link f ord run"
  shows "t \<in> set ord \<longleftrightarrow> f t = Some Runnable" and "run = Some t \<longleftrightarrow> f t = Some Running"
  using assms by (simp_all add: queue_link_def)

lemma tree_inv_fresh: "tree_inv ts n \<Longrightarrow> bm_get ts n = None"
  by (auto simp: tree_inv_def)

lemma state_at_fresh: "tree_inv ts n \<Longrightarrow> state_at ts n = None"
  by (simp add: state_at_def tree_inv_fresh)

lemma sched_inv_ledger:
  assumes "sched_inv qi ord s" and "fuel_link (state_at (tasks s)) l"
  shows "sched_inv qi ord (s\<lparr>ledger := l\<rparr>)"
  using assms by (simp add: sched_inv_def)

lemma with_fuel_err_simps:
  "with_fuel_err s (Some (l, Ok ())) = Some (s\<lparr>ledger := l\<rparr>, Ok ())"
  "with_fuel_err s (Some (l, Err (Insufficient a n x))) = Some (s\<lparr>ledger := l\<rparr>, Err (InsufficientFuel n x))"
  by (simp_all add: with_fuel_err_def)

lemma ledger_same: "s\<lparr>ledger := ledger s\<rparr> = s"
  by simp


section \<open>Fuel operations\<close>

lemma move_keeps:
  assumes inv: "sched_inv qi ord s"
    and a: "bm_get (balances (ledger s)) a = Some x" and b: "bm_get (balances (ledger s)) b = Some y"
    and "a \<noteq> b" and "\<And>t. b = TaskAcc t \<Longrightarrow> state_at (tasks s) t \<noteq> Some Done"
  shows "keeps (sched_inv qi ord) s (with_fuel_err s (transfer (ledger s) a b n))"
proof (cases "n \<le> x")
  case True
  with fuel_link_move [OF sched_invD(5) [OF inv] a b assms(4,5), of n] obtain l' where
    "transfer (ledger s) a b n = Some (l', Ok ())" and "fuel_link (state_at (tasks s)) l'"
    by auto
  with sched_inv_ledger [OF inv] show ?thesis
    by (intro keepsI_ok) (simp_all add: with_fuel_err_simps)
next
  case False
  with fuel_link_move [OF sched_invD(5) [OF inv] a b assms(4,5), of n]
  have "transfer (ledger s) a b n = Some (ledger s, Err (Insufficient a n x))"
    by auto
  with inv show ?thesis
    by (intro keepsI_err) (simp_all add: with_fuel_err_simps)
qed

lemma donate_keeps:
  assumes inv: "sched_inv qi ord s"
  shows "keeps (sched_inv qi ord) s (donate s t n)"
proof (cases "state_at (tasks s) t")
  case None
  then have "task_state_of s t = Err (NoSuchTask t)"
    by (simp add: task_state_of_def state_at_def)
  with inv show ?thesis by (intro keepsI_err) (simp_all add: donate_def)
next
  case (Some st)
  then have st: "task_state_of s t = Ok st" by (simp add: task_state_of_simps)
  obtain p where p: "bm_get (balances (ledger s)) Pool = Some p"
    by (rule fuel_link_pool [OF sched_invD(5) [OF inv]])
  obtain b where b: "bm_get (balances (ledger s)) (TaskAcc t) = Some b"
    using fuel_link_task [OF sched_invD(5) [OF inv]] Some by blast
  show ?thesis
  proof (cases "st = Done")
    case True
    with st inv show ?thesis by (intro keepsI_err) (simp_all add: donate_def)
  next
    case False
    then have "donate s t n = with_fuel_err s (transfer (ledger s) Pool (TaskAcc t) n)"
      using st by (cases st) (simp_all add: donate_def)
    with move_keeps [OF inv p b] Some False show ?thesis by simp
  qed
qed

lemma reclaim_keeps:
  assumes inv: "sched_inv qi ord s"
  shows "keeps (sched_inv qi ord) s (reclaim s t n)"
proof (cases "state_at (tasks s) t")
  case None
  then have "task_state_of s t = Err (NoSuchTask t)"
    by (simp add: task_state_of_def state_at_def)
  with inv show ?thesis by (intro keepsI_err) (simp_all add: reclaim_def)
next
  case (Some st)
  then have st: "task_state_of s t = Ok st" by (simp add: task_state_of_simps)
  obtain p where p: "bm_get (balances (ledger s)) Pool = Some p"
    by (rule fuel_link_pool [OF sched_invD(5) [OF inv]])
  obtain b where b: "bm_get (balances (ledger s)) (TaskAcc t) = Some b"
    using fuel_link_task [OF sched_invD(5) [OF inv]] Some by blast
  show ?thesis
  proof (cases "st = Done \<or> st = Running")
    case True
    with st inv show ?thesis by (auto simp: keeps_def reclaim_def)
  next
    case False
    then have "reclaim s t n = with_fuel_err s (transfer (ledger s) (TaskAcc t) Pool n)"
      using st by (cases st) (simp_all add: reclaim_def)
    with move_keeps [OF inv b p] show ?thesis by simp
  qed
qed

lemma export_keeps:
  assumes inv: "sched_inv qi ord s"
  shows "keeps (sched_inv qi ord) s (export s n)"
proof -
  have link: "fuel_link (state_at (tasks s)) (ledger s)" and linv: "ledger_inv (ledger s)"
    using inv by (auto simp: sched_inv_def fuel_link_def)
  obtain p where p: "bm_get (balances (ledger s)) Pool = Some p"
    by (rule fuel_link_pool [OF link])
  show ?thesis
  proof (cases "n \<le> p")
    case False
    with p inv show ?thesis
      by (intro keepsI_err) (simp_all add: export_def ledger_export_eq [OF linv] with_fuel_err_simps)
  next
    case True
    define l' where "l' = ledger s\<lparr>balances := bm_insert Pool (p - n) (balances (ledger s)),
      exported := exported (ledger s) + n\<rparr>"
    have "circulating l' + n = circulating (ledger s)"
      using conserved_debit [OF linv p True] by (simp add: l'_def circulating_def)
    then have "fuel_link (state_at (tasks s)) l'"
      using link ledger_inv_debitI(2) [OF linv p True] by (auto simp: fuel_link_def l'_def)
    with True p inv show ?thesis
      by (intro keepsI_ok [where s' = "s\<lparr>ledger := l'\<rparr>"] sched_inv_ledger)
        (auto simp: export_def ledger_export_eq [OF linv] with_fuel_err_simps l'_def)
  qed
qed

lemma refuel_keeps:
  assumes inv: "sched_inv qi ord s" and room: "imported (ledger s) + n < 2 ^ 128"
  shows "keeps (sched_inv qi ord) s (refuel s n)"
proof -
  have link: "fuel_link (state_at (tasks s)) (ledger s)" and linv: "ledger_inv (ledger s)"
    using inv by (auto simp: sched_inv_def fuel_link_def)
  obtain p where p: "bm_get (balances (ledger s)) Pool = Some p"
    by (rule fuel_link_pool [OF link])
  have p_le: "p \<le> circulating (ledger s)"
    using bm_sum_ge [OF p] by (simp add: circulating_def)
  show ?thesis
  proof (cases "circulating (ledger s) + n \<le> u64_max")
    case False
    with inv show ?thesis by (intro keepsI_err) (simp_all add: refuel_def)
  next
    case True
    with p_le have small: "p + n < 2 ^ 64" by simp
    define l' where "l' = ledger s\<lparr>balances := bm_insert Pool (p + n) (balances (ledger s)),
      imported := imported (ledger s) + n\<rparr>"
    have "circulating l' = circulating (ledger s) + n"
      using conserved_credit [OF linv p, of n] by (simp add: l'_def circulating_def)
    then have "fuel_link (state_at (tasks s)) l'"
      using link True ledger_inv_importI [OF linv p small room] by (auto simp: fuel_link_def l'_def)
    with True p inv small room show ?thesis
      by (intro keepsI_ok [where s' = "s\<lparr>ledger := l'\<rparr>"] sched_inv_ledger)
        (auto simp: refuel_def ledger_import_eq [OF linv] expect_ok_def l'_def)
  qed
qed


section \<open>Lifecycle and resume operations\<close>

lemma reap_keeps:
  assumes inv: "sched_inv qi ord s"
  shows "keeps (sched_inv qi ord) s (reap s t)"
proof (cases "bm_get (tasks s) t")
  case None
  with inv show ?thesis by (intro keepsI_err) (simp_all add: reap_def)
next
  case (Some e)
  show ?thesis
  proof (cases "tstate e = Done \<and> tchildren e = []")
    case False
    with Some inv show ?thesis by (auto simp: keeps_def reap_def)
  next
    case True
    then have st: "state_at (tasks s) t = Some Done" using Some by (simp add: state_at_get)
    obtain l' where close: "ledger_close (ledger s) (TaskAcc t) = Some (l', Ok ())"
      and link: "fuel_link ((state_at (tasks s))(t := None)) l'"
      using fuel_link_reap [OF sched_invD(5) [OF inv] st] by blast
    have qlink: "queue_link ((state_at (tasks s))(t := None)) (ord (policy_state s)) (running s)"
      by (rule queue_link_reap [OF sched_invD(4) [OF inv] st])
    show ?thesis
    proof (cases "tparent e")
      case None
      have "tree_inv (bm_remove t (tasks s)) (next_id s)"
        using tree_inv_reap_root [OF sched_invD(2) [OF inv] Some None] True by simp
      with inv link qlink have
        "sched_inv qi ord (s\<lparr>ledger := l', tasks := bm_remove t (tasks s)\<rparr>)"
        by (simp add: sched_inv_def)
      with Some True None close show ?thesis
        by (intro keepsI_ok) (simp_all add: reap_def expect_ok_def)
    next
      case (Some p)
      from tree_inv_reap_child [OF sched_invD(2) [OF inv] \<open>bm_get (tasks s) t = Some e\<close> Some] True
      obtain pe where "p \<noteq> t" and pe: "bm_get (tasks s) p = Some pe" and tree:
        "tree_inv (bm_insert p (pe\<lparr>tchildren := [c \<leftarrow> tchildren pe. c \<noteq> t]\<rparr>) (bm_remove t (tasks s)))
           (next_id s)"
        by auto
      have same: "((state_at (tasks s))(t := None))(p \<mapsto> tstate pe) = (state_at (tasks s))(t := None)"
        using pe \<open>p \<noteq> t\<close> by (auto simp: state_at_def fun_eq_iff)
      with inv tree link qlink have "sched_inv qi ord (s\<lparr>ledger := l', tasks :=
          bm_insert p (pe\<lparr>tchildren := [c \<leftarrow> tchildren pe. c \<noteq> t]\<rparr>) (bm_remove t (tasks s))\<rparr>)"
        by (simp add: sched_inv_def)
      with Some True \<open>bm_get (tasks s) t = Some e\<close> \<open>p \<noteq> t\<close> pe close show ?thesis
        by (intro keepsI_ok) (simp_all add: reap_def expect_ok_def update_task_def)
    qed
  qed
qed

lemma reclaim_all_policy:
  "reclaim_all (s\<lparr>policy_state := q\<rparr>) t = map_option (\<lambda>s'. s'\<lparr>policy_state := q\<rparr>) (reclaim_all s t)"
  by (cases "ledger_balance (ledger s) (TaskAcc t)";
      cases "expect_ok (transfer (ledger s) (TaskAcc t) Pool (the (ledger_balance (ledger s) (TaskAcc t))))")
    (simp_all add: reclaim_all_def)

lemma reclaim_all_tasks:
  "reclaim_all (s\<lparr>tasks := ts\<rparr>) t = map_option (\<lambda>s'. s'\<lparr>tasks := ts\<rparr>) (reclaim_all s t)"
  by (cases "ledger_balance (ledger s) (TaskAcc t)";
      cases "expect_ok (transfer (ledger s) (TaskAcc t) Pool (the (ledger_balance (ledger s) (TaskAcc t))))")
    (simp_all add: reclaim_all_def)

text \<open>Setting the state of a tracked task, with the queue, running slot and fuel to match.\<close>

lemma sched_inv_retask:
  assumes inv: "sched_inv qi ord s" and e: "bm_get (tasks s) t = Some e"
    and "qi q" and ord: "set (ord q) =
      (if x = Runnable then insert t (set (ord (policy_state s))) else set (ord (policy_state s)) - {t})"
    and run: "run = (if x = Running then Some t else if running s = Some t then None else running s)"
    and "x = Running \<Longrightarrow> running s = None"
    and fuel: "fuel_link (state_at (tasks s)) l"
    and "x = Done \<Longrightarrow> bm_get (balances l) (TaskAcc t) = Some 0"
  shows "sched_inv qi ord (s\<lparr>tasks := bm_insert t (e\<lparr>tstate := x\<rparr>) (tasks s), policy_state := q,
            ledger := l, running := run\<rparr>)"
proof -
  have "queue_link ((state_at (tasks s))(t \<mapsto> x)) (ord q) run"
    using queue_link_state [OF sched_invD(4) [OF inv] ord run] assms(6) by blast
  moreover have "fuel_link ((state_at (tasks s))(t \<mapsto> x)) l"
    using fuel_link_state [OF fuel] assms(8) e by (simp add: state_at_get)
  ultimately show ?thesis
    using inv \<open>qi q\<close> tree_inv_state [OF sched_invD(2) [OF inv] e] by (simp add: sched_inv_def)
qed

context run_queue
begin

lemma new_inv: "\<exists>s. sched_new empty_queue = Some s \<and> sched_inv queue_inv order s"
proof -
  have "fuel_link Map.empty (\<lparr>balances = [(Pool, 0)], imported = 0, burned = 0, exported = 0\<rparr>)"
    by (simp add: fuel_link_def ledger_inv_def is_conserved_def circulating_def bm_wf_def)
  moreover have "state_at [] = Map.empty"
    by (simp add: state_at_def fun_eq_iff)
  ultimately have "sched_inv queue_inv order \<lparr>tasks = [], next_id = 0, policy_state = empty_queue,
      ledger = \<lparr>balances = [(Pool, 0)], imported = 0, burned = 0, exported = 0\<rparr>, running = None\<rparr>"
    by (simp add: sched_inv_def tree_inv_def has_parent_def has_child_def queue_link_def
        empty_inv order_empty)
  then show ?thesis
    by (simp add: sched_new_def expect_ok_def ledger_open_def ledger_new_def is_open_def
        is_conserved_def circulating_def)
qed

lemma enqueue_task:
  assumes inv: "sched_inv queue_inv order s" and "state_at (tasks s) t \<noteq> Some Runnable"
  obtains q where "p_enqueue P t (policy_state s) = Some q" and "queue_inv q"
    and "set (order q) = insert t (set (order (policy_state s)))"
proof -
  have "t \<notin> set (order (policy_state s))"
    using sched_invD(4) [OF inv] assms(2) by (simp add: queue_link_def)
  from enqueue_fresh [OF sched_invD(3) [OF inv] this] that show ?thesis by blast
qed

lemma spawn_keeps:
  assumes inv: "sched_inv queue_inv order s" and room: "next_id s + 1 < 2 ^ 64"
  shows "keeps (sched_inv queue_inv order) s (spawn P s parent)"
proof (cases "check_parent s parent")
  case (Err e)
  with inv show ?thesis by (intro keepsI_err) (simp_all add: spawn_def)
next
  case (Ok u)
  let ?n = "next_id s" and ?row = "\<lparr>tstate = Runnable, tparent = parent, tchildren = []\<rparr>"
  have tree: "tree_inv (tasks s) ?n" by (rule sched_invD(2) [OF inv])
  have fresh: "state_at (tasks s) ?n = None" by (rule state_at_fresh [OF tree])
  obtain q where q: "p_enqueue P ?n (policy_state s) = Some q" and "queue_inv q"
    and ord: "set (order q) = insert ?n (set (order (policy_state s)))"
    using enqueue_task [OF inv] fresh by (metis option.distinct(1))
  obtain l' where l: "ledger_open (ledger s) (TaskAcc ?n) = Some (l', Ok ())"
    and link: "fuel_link ((state_at (tasks s))(?n \<mapsto> Runnable)) l'"
    using fuel_link_spawn [OF sched_invD(5) [OF inv] fresh] by blast
  have qlink: "queue_link ((state_at (tasks s))(?n \<mapsto> Runnable)) (order q) (running s)"
    using queue_linkD(2) [OF sched_invD(4) [OF inv], of ?n] ord fresh
    by (intro queue_link_state [OF sched_invD(4) [OF inv]]) auto
  show ?thesis
  proof (cases parent)
    case None
    with inv tree_inv_spawn_root [OF tree] link qlink \<open>queue_inv q\<close> room
    have "sched_inv queue_inv order (s\<lparr>tasks := bm_insert ?n ?row (tasks s), next_id := ?n + 1,
            policy_state := q, ledger := l'\<rparr>)"
      by (simp add: sched_inv_def)
    with None Ok room l q show ?thesis
      by (intro keepsI_ok [where v = ?n]) (simp_all add: spawn_def plus_exec_def expect_ok_def Let_def)
  next
    case (Some p)
    with Ok have "state_at (tasks s) p \<noteq> None"
      by (cases "bm_get (tasks s) p") (simp_all add: check_parent_def task_state_of_def state_at_def)
    then obtain pe where pe: "bm_get (tasks s) p = Some pe" by (auto simp: state_at_def)
    have pn: "p \<noteq> ?n" using pe tree_inv_fresh [OF tree] by auto
    let ?ts = "bm_insert p (pe\<lparr>tchildren := tchildren pe @ [?n]\<rparr>) (bm_insert ?n ?row (tasks s))"
    have same: "((state_at (tasks s))(?n \<mapsto> Runnable))(p \<mapsto> tstate pe) = (state_at (tasks s))(?n \<mapsto> Runnable)"
      using pe pn by (auto simp: state_at_def fun_eq_iff)
    with Some inv tree_inv_spawn_child [OF tree pe] link qlink \<open>queue_inv q\<close> room
    have "sched_inv queue_inv order (s\<lparr>tasks := ?ts, next_id := ?n + 1,
            policy_state := q, ledger := l'\<rparr>)"
      by (simp add: sched_inv_def)
    with Some Ok room l q pe pn show ?thesis
      by (intro keepsI_ok [where v = ?n])
        (simp_all add: spawn_def plus_exec_def expect_ok_def update_task_def Let_def)
  qed
qed

lemma ready_keeps:
  assumes inv: "sched_inv queue_inv order s"
  shows "keeps (sched_inv queue_inv order) s (ready P s t)"
proof (cases "bm_get (tasks s) t")
  case None
  with inv show ?thesis by (intro keepsI_err) (simp_all add: ready_def)
next
  case (Some e)
  show ?thesis
  proof (cases "tstate e = Blocked")
    case False
    with Some inv show ?thesis by (auto simp: keeps_def ready_def)
  next
    case True
    have "state_at (tasks s) t \<noteq> Some Runnable"
      using Some True by (simp add: state_at_get)
    then obtain q where q: "p_enqueue P t (policy_state s) = Some q" and "queue_inv q"
      and ord: "set (order q) = insert t (set (order (policy_state s)))"
      by (rule enqueue_task [OF inv])
    have "running s \<noteq> Some t"
      using sched_invD(4) [OF inv] Some True by (auto simp: queue_link_def state_at_get)
    then have "sched_inv queue_inv order (s\<lparr>tasks := bm_insert t (e\<lparr>tstate := Runnable\<rparr>) (tasks s),
        policy_state := q, ledger := ledger s, running := running s\<rparr>)"
      using ord by (intro sched_inv_retask [OF inv Some \<open>queue_inv q\<close>]) (simp_all add: sched_invD [OF inv])
    with Some True q show ?thesis
      by (intro keepsI_ok) (simp_all add: ready_def)
  qed
qed

lemma pick_keeps:
  assumes inv: "sched_inv queue_inv order s" and idle: "running s = None"
  shows "\<exists>s' r. pick P s = Some (s', r) \<and> sched_inv queue_inv order s' \<and>
     (case order (policy_state s) of
        [] \<Rightarrow> r = None \<and> s' = s
      | t # ts \<Rightarrow> r = Some t \<and> running s' = Some t \<and> order (policy_state s') = ts \<and>
          ledger s' = ledger s)"
proof (cases "order (policy_state s)")
  case Nil
  then have "p_dequeue P (policy_state s) = (None, policy_state s)"
    by (rule dequeue_None [OF sched_invD(3) [OF inv]])
  with idle inv Nil show ?thesis by (simp add: pick_def)
next
  case (Cons t ts)
  obtain q where q: "p_dequeue P (policy_state s) = (Some t, q)" and "queue_inv q" and "order q = ts"
    by (rule dequeue_Some [OF sched_invD(3) [OF inv] Cons])
  have "state_at (tasks s) t = Some Runnable"
    using queue_linkD(1) [OF sched_invD(4) [OF inv], of t] Cons by simp
  then obtain e where e: "bm_get (tasks s) t = Some e" and "tstate e = Runnable"
    by (auto simp: state_at_def)
  have "distinct (t # ts)"
    using order_distinct [OF sched_invD(3) [OF inv]] Cons by simp
  then have "sched_inv queue_inv order (s\<lparr>tasks := bm_insert t (e\<lparr>tstate := Running\<rparr>) (tasks s),
        policy_state := q, ledger := ledger s, running := Some t\<rparr>)"
    using Cons \<open>order q = ts\<close> idle
    by (intro sched_inv_retask [OF inv e \<open>queue_inv q\<close>]) (auto simp: sched_invD [OF inv])
  with q e idle \<open>tstate e = Runnable\<close> Cons \<open>order q = ts\<close> show ?thesis
    by (simp add: pick_def)
qed

lemma kill_keeps:
  assumes inv: "sched_inv queue_inv order s"
  shows "keeps (sched_inv queue_inv order) s (kill P s t)"
proof (cases "bm_get (tasks s) t")
  case None
  with inv show ?thesis by (intro keepsI_err) (simp_all add: kill_def task_state_of_def)
next
  case (Some e)
  then have st: "task_state_of s t = Ok (tstate e)" and sa: "state_at (tasks s) t = Some (tstate e)"
    by (simp_all add: task_state_of_def state_at_def)
  from reclaim_all_returns [OF sched_invD(5) [OF inv]] sa obtain l' where
    rec: "reclaim_all s t = Some (s\<lparr>ledger := l'\<rparr>)" and link: "fuel_link (state_at (tasks s)) l'"
    and zero: "bm_get (balances l') (TaskAcc t) = Some 0"
    by fastforce
  have rec': "reclaim_all (s\<lparr>policy_state := q\<rparr>) t = Some (s\<lparr>policy_state := q, ledger := l'\<rparr>)" for q
    using rec by (simp add: reclaim_all_policy)
  have not_running: "running s \<noteq> Some t" if "tstate e \<noteq> Running"
    using sched_invD(4) [OF inv] sa that by (auto simp: queue_link_def)
  show ?thesis
  proof (cases "tstate e")
    case Runnable
    obtain q where q: "p_remove P t (policy_state s) = (t \<in> set (order (policy_state s)), q)"
      and "queue_inv q" and ord: "order q = [x \<leftarrow> order (policy_state s). x \<noteq> t]"
      using remove_order [OF sched_invD(3) [OF inv]] by blast
    have "t \<in> set (order (policy_state s))"
      using sched_invD(4) [OF inv] sa Runnable by (simp add: queue_link_def)
    moreover have "sched_inv queue_inv order (s\<lparr>tasks := bm_insert t (e\<lparr>tstate := Done\<rparr>) (tasks s),
        policy_state := q, ledger := l', running := running s\<rparr>)"
      using ord not_running Runnable zero link
      by (intro sched_inv_retask [OF inv Some \<open>queue_inv q\<close>]) auto
    ultimately show ?thesis
      using Runnable st q rec' Some by (intro keepsI_ok) (simp_all add: kill_def update_task_def)
  next
    case Blocked
    then have "t \<notin> set (order (policy_state s))"
      using sched_invD(4) [OF inv] sa by (simp add: queue_link_def)
    then have "sched_inv queue_inv order (s\<lparr>tasks := bm_insert t (e\<lparr>tstate := Done\<rparr>) (tasks s),
        policy_state := policy_state s, ledger := l', running := running s\<rparr>)"
      using not_running Blocked zero link
      by (intro sched_inv_retask [OF inv Some sched_invD(3) [OF inv]]) auto
    then show ?thesis
      using Blocked st rec Some by (intro keepsI_ok) (simp_all add: kill_def update_task_def)
  qed (use st inv in \<open>auto simp: keeps_def kill_def\<close>)
qed

text \<open>
  A report first burns what the resume spent; the outcome then decides the next state. The
  burned ledger \<open>l\<close> is the one every outcome continues with.
\<close>

lemma burn_running:
  assumes inv: "sched_inv queue_inv order s" and b: "bm_get (balances (ledger s)) (TaskAcc t) = Some b"
    and "n \<le> b"
  defines "l \<equiv> ledger s\<lparr>balances := bm_insert (TaskAcc t) (b - n) (balances (ledger s)),
      burned := burned (ledger s) + n\<rparr>"
  shows "burn (ledger s) (TaskAcc t) n = Some (l, Ok ())" and "fuel_link (state_at (tasks s)) l"
    and "sched_inv queue_inv order (s\<lparr>ledger := l\<rparr>)"
proof -
  have link: "fuel_link (state_at (tasks s)) (ledger s)" and linv: "ledger_inv (ledger s)"
    using inv by (auto simp: sched_inv_def fuel_link_def)
  show "burn (ledger s) (TaskAcc t) n = Some (l, Ok ())"
    using b \<open>n \<le> b\<close> by (simp add: burn_eq [OF linv] l_def)
  have "circulating l + n = circulating (ledger s)"
    using conserved_debit [OF linv b \<open>n \<le> b\<close>] by (simp add: l_def circulating_def)
  moreover have "state_at (tasks s) t \<noteq> None"
    using link b unfolding fuel_link_def by (metis option.distinct(1))
  ultimately show fl: "fuel_link (state_at (tasks s)) l"
    using link b \<open>n \<le> b\<close> ledger_inv_debitI(1) [OF linv b \<open>n \<le> b\<close>] by (auto simp: fuel_link_def l_def)
  show "sched_inv queue_inv order (s\<lparr>ledger := l\<rparr>)"
    by (rule sched_inv_ledger [OF inv fl])
qed

lemma report_keeps:
  assumes inv: "sched_inv queue_inv order s"
  shows "keeps (sched_inv queue_inv order) s (report P s t spent outcome)"
proof (cases "running s = Some t")
  case False
  with inv show ?thesis by (auto simp: keeps_def report_def)
next
  case True
  then have sa: "state_at (tasks s) t = Some Running"
    using queue_linkD(2) [OF sched_invD(4) [OF inv], of t] by simp
  then obtain e where e: "bm_get (tasks s) t = Some e" by (auto simp: state_at_def)
  obtain b where b: "bm_get (balances (ledger s)) (TaskAcc t) = Some b"
    using fuel_link_task [OF sched_invD(5) [OF inv]] sa by blast
  have unqueued: "t \<notin> set (order (policy_state s))"
    using queue_linkD(1) [OF sched_invD(4) [OF inv], of t] sa by simp
  show ?thesis
  proof (cases "spent \<le> b")
    case False
    have "ledger_inv (ledger s)" using inv by (simp add: sched_inv_def fuel_link_def)
    with False True b inv show ?thesis
      by (auto simp: keeps_def report_def burn_eq with_fuel_err_simps)
  next
    case spent: True
    obtain l where burn: "burn (ledger s) (TaskAcc t) spent = Some (l, Ok ())"
      and link: "fuel_link (state_at (tasks s)) l" and inv_l: "sched_inv queue_inv order (s\<lparr>ledger := l\<rparr>)"
      using burn_running [OF inv b spent] by blast
    show ?thesis
    proof (cases outcome)
      case ROutOfFuel
      obtain q where q: "p_enqueue P t (policy_state s) = Some q" and "queue_inv q"
        and ord: "set (order q) = insert t (set (order (policy_state s)))"
        using enqueue_task [OF inv, of t] sa by auto
      have "sched_inv queue_inv order (s\<lparr>tasks := bm_insert t (e\<lparr>tstate := Runnable\<rparr>) (tasks s),
          policy_state := q, ledger := l, running := None\<rparr>)"
        using ord True link by (intro sched_inv_retask [OF inv e \<open>queue_inv q\<close>]) simp_all
      with ROutOfFuel True burn e q show ?thesis
        by (auto simp: keeps_def report_def with_fuel_err_simps update_task_def sched_inv_def)
    next
      case RBlocked
      have "sched_inv queue_inv order (s\<lparr>tasks := bm_insert t (e\<lparr>tstate := Blocked\<rparr>) (tasks s),
          policy_state := policy_state s, ledger := l, running := None\<rparr>)"
        using unqueued True link
        by (intro sched_inv_retask [OF inv e sched_invD(3) [OF inv]]) simp_all
      with RBlocked True burn e show ?thesis
        by (auto simp: keeps_def report_def with_fuel_err_simps update_task_def sched_inv_def)
    next
      case RDone
      let ?s = "s\<lparr>ledger := l\<rparr>"
      from reclaim_all_returns [of ?s t] link sa obtain l' where
        rec: "reclaim_all ?s t = Some (?s\<lparr>ledger := l'\<rparr>)" and
        link': "fuel_link (state_at (tasks s)) l'" and zero: "bm_get (balances l') (TaskAcc t) = Some 0"
        by fastforce
      have rec': "reclaim_all (?s\<lparr>tasks := ts\<rparr>) t = Some (?s\<lparr>tasks := ts, ledger := l'\<rparr>)" for ts
        using rec by (simp add: reclaim_all_tasks)
      have "sched_inv queue_inv order (s\<lparr>tasks := bm_insert t (e\<lparr>tstate := Done\<rparr>) (tasks s),
          policy_state := policy_state s, ledger := l', running := None\<rparr>)"
        using unqueued True link' zero
        by (intro sched_inv_retask [OF inv e sched_invD(3) [OF inv]]) simp_all
      with RDone True burn e rec' show ?thesis
        by (auto simp: keeps_def report_def with_fuel_err_simps update_task_def sched_inv_def)
    qed
  qed
qed

end

end
