(* ===== verification/Scheduler_Props.thy ===== *)
theory Scheduler_Props
  imports Scheduler_Ops
begin

text \<open>
  What the scheduler node promises, for every state reachable under either shipped policy: fuel
  conservation, freedom from panics, the single-resumer rule, the task tree, the order in which
  tasks run, and identifiers that are never reused.
\<close>

text \<open>The two constructors of the crate, \<open>Scheduler::deterministic\<close> and \<open>Scheduler::fair\<close>.\<close>

definition shipped :: "task_id list policy \<Rightarrow> task_id list \<Rightarrow> bool" where
  "shipped P q0 \<longleftrightarrow> (P = deterministic_policy \<and> q0 = det_new) \<or> (P = fair_policy \<and> q0 = fair_new)"

definition shipped_inv :: "task_id list policy \<Rightarrow> task_id list \<Rightarrow> bool" where
  "shipped_inv P q \<longleftrightarrow> distinct q \<and> (P = deterministic_policy \<longrightarrow> sorted_wrt (<) q)"

section \<open>Reachable states\<close>

lemma refuel_room:
  assumes inv: "sched_inv qi ord s" and "refuel s n = Some (s', r)"
  shows "s' = s \<or> imported (ledger s) + n < 2 ^ 128"
proof -
  have linv: "ledger_inv (ledger s)" using inv by (simp add: sched_inv_def fuel_link_def)
  obtain p where p: "bm_get (balances (ledger s)) Pool = Some p"
    by (rule fuel_link_pool [OF sched_invD(5) [OF inv]])
  with assms(2) show ?thesis
    by (auto simp: refuel_def ledger_import_eq [OF linv] expect_ok_def bind_eq_Some_conv split: if_splits)
qed

context run_queue
begin

lemma sched_step_inv:
  assumes "sched_step P s s'" and inv: "sched_inv queue_inv order s"
  shows "sched_inv queue_inv order s'"
  using assms(1)
proof cases
  case (step_spawn parent r)
  then have "s' = s \<or> next_id s + 1 < 2 ^ 64"
    by (cases "check_parent s parent") (auto simp: spawn_def Let_def bind_eq_Some_conv)
  with step_spawn inv keepsD(1) spawn_keeps show ?thesis by metis
next
  case (step_refuel n r)
  then have "s' = s \<or> imported (ledger s) + n < 2 ^ 128"
    using refuel_room [OF inv] by blast
  with step_refuel inv keepsD(1) refuel_keeps show ?thesis by metis
next
  case (step_pick picked)
  then have "running s = None" by (auto simp: pick_def bind_eq_Some_conv)
  with step_pick pick_keeps [OF inv] show ?thesis by auto
qed (use keepsD(1) inv kill_keeps reap_keeps ready_keeps report_keeps export_keeps donate_keeps
      reclaim_keeps in metis)+

lemma sched_reachable_inv:
  "sched_reachable P empty_queue s \<Longrightarrow> sched_inv queue_inv order s"
proof (induction rule: sched_reachable.induct)
  case (reach_new s)
  then show ?case using new_inv by auto
next
  case (reach_step s s')
  then show ?case using sched_step_inv by blast
qed

end

lemma shipped_reachable_inv:
  assumes "shipped P q0" and "sched_reachable P q0 s"
  shows "sched_inv (shipped_inv P) (\<lambda>q. q) s"
proof (cases "P = deterministic_policy \<and> q0 = det_new")
  case True
  with det.sched_reachable_inv assms(2) have "sched_inv (sorted_wrt (<)) (\<lambda>q. q) s" by blast
  with True show ?thesis by (simp add: sched_inv_def shipped_inv_def strict_sorted_iff)
next
  case False
  with assms(1) have "P = fair_policy" and "q0 = fair_new" by (auto simp: shipped_def)
  with fair.sched_reachable_inv assms(2) have "sched_inv distinct (\<lambda>q. q) s" by blast
  moreover have "fair_policy \<noteq> deterministic_policy"
  proof
    assume "fair_policy = deterministic_policy"
    then have "p_enqueue fair_policy 0 [1] = p_enqueue deterministic_policy 0 [1]" by simp
    then show False by (simp add: policy_simps)
  qed
  ultimately show ?thesis using \<open>P = fair_policy\<close> by (simp add: sched_inv_def shipped_inv_def)
qed

lemma shipped_run_queue:
  assumes "shipped P q0"
  shows "run_queue P q0 (shipped_inv P) (\<lambda>q. q)"
proof (cases "P = deterministic_policy")
  case True
  then have "shipped_inv P = sorted_wrt (<)"
    by (auto simp: shipped_inv_def fun_eq_iff strict_sorted_iff)
  moreover have "q0 = det_new"
    using assms by (auto simp: shipped_def policy_simps)
  ultimately show ?thesis using True det.run_queue_axioms by simp
next
  case False
  then have "shipped_inv P = distinct"
    by (auto simp: shipped_inv_def fun_eq_iff)
  moreover have "P = fair_policy" "q0 = fair_new"
    using assms False by (auto simp: shipped_def)
  ultimately show ?thesis using fair.run_queue_axioms by simp
qed

lemma sched_inv_audit:
  assumes inv: "sched_inv qi ord s"
  shows "\<exists>a. fuel_audit s = Some a \<and> audit_is_conserved a \<and> audit_imported a < 2 ^ 128 \<and>
     audit_pool a + audit_held_by_tasks a < 2 ^ 64"
proof -
  have link: "fuel_link (state_at (tasks s)) (ledger s)" by (rule sched_invD(5) [OF inv])
  obtain p where p: "bm_get (balances (ledger s)) Pool = Some p"
    by (rule fuel_link_pool [OF link])
  from bm_sum_ge [OF p] have "p \<le> circulating (ledger s)" by (simp add: circulating_def)
  with p link show ?thesis
    by (auto simp: fuel_audit_def pool_def ledger_balance_def minus_exec_def audit_is_conserved_def
        fuel_link_def ledger_inv_def is_conserved_def)
qed


section \<open>Properties\<close>

text \<open>A run of the resume cycle that the witnesses below use.\<close>

definition demo_ops :: "sched_op list" where
  "demo_ops = [OpRefuel 100, OpSpawn None, OpSpawn (Some 0), OpDonate 0 60, OpPick]"

definition demo_state :: "task_id list scheduler" where
  "demo_state = \<lparr>tasks = [(0, \<lparr>tstate = Running, tparent = None, tchildren = [1]\<rparr>),
      (1, \<lparr>tstate = Runnable, tparent = Some 0, tchildren = []\<rparr>)], next_id = 2, policy_state = [1],
     ledger = \<lparr>balances = [(Pool, 40), (TaskAcc 0, 60), (TaskAcc 1, 0)], imported = 100, burned = 0,
       exported = 0\<rparr>, running = Some 0\<rparr>"

lemmas sched_eval =
  sched_exec_def sched_new_def expect_ok_def spawn_def check_parent_def task_state_of_def
  refuel_def donate_def pick_def report_def kill_def reap_def reclaim_all_def update_task_def
  with_fuel_err_def ledger_op_defs ledger_new_def is_conserved_def circulating_def ledger_balance_def
  checked_add_def checked_sub_def plus_exec_def minus_exec_def less_account_def policy_simps bm_remove_def

lemma demo_state_exec: "sched_exec deterministic_policy det_new demo_ops = Some demo_state"
  by (simp add: demo_ops_def demo_state_def sched_eval)

lemma demo_reachable: "sched_reachable deterministic_policy det_new demo_state"
  by (rule sched_exec_reachable [OF demo_state_exec])

lemma shipped_det: "shipped deterministic_policy det_new"
  by (simp add: shipped_def)

text \<open>
  C1: in every reachable state of a scheduler node, under either shipped policy, the fuel audit
  answers, the conservation law holds of it (imported = burned + exported + pool + held by
  tasks), and the outstanding fuel fits a \<open>u64\<close>.
\<close>

theorem sched_fuel_conserved:
  assumes "shipped P q0" and "sched_reachable P q0 s"
  shows "\<exists>a. fuel_audit s = Some a \<and> audit_is_conserved a \<and> audit_imported a < 2 ^ 128 \<and>
     audit_pool a + audit_held_by_tasks a < 2 ^ 64"
  by (rule sched_inv_audit [OF shipped_reachable_inv [OF assms]])

theorem sched_fuel_conserved_witness:
  "sched_reachable deterministic_policy det_new demo_state \<and>
   (\<exists>a. fuel_audit demo_state = Some a \<and> audit_is_conserved a)"
  using sched_fuel_conserved [OF shipped_det demo_reachable] demo_reachable by blast

text \<open>
  C6: from a reachable state no operation of the node panics: every \<open>expect\<close>, assertion and
  unreachable arm is unreachable. The exceptions are the three documented ones: the task-id
  counter is exhausted, the lifetime import total would pass \<open>u128\<close>, or \<open>pick\<close> is called while
  a task is being resumed.
\<close>

theorem sched_no_panic:
  assumes ship: "shipped P q0" and reach: "sched_reachable P q0 s"
  shows "(next_id s + 1 < 2 ^ 64 \<longrightarrow> spawn P s parent \<noteq> None) \<and> kill P s t \<noteq> None \<and>
     reap s t \<noteq> None \<and> ready P s t \<noteq> None \<and> (pick P s = None \<longleftrightarrow> running s \<noteq> None) \<and>
     report P s t n outcome \<noteq> None \<and>
     (imported (ledger s) + n < 2 ^ 128 \<longrightarrow> refuel s n \<noteq> None) \<and> export s n \<noteq> None \<and>
     donate s t n \<noteq> None \<and> reclaim s t n \<noteq> None \<and> pool s \<noteq> None \<and> fuel_of s t \<noteq> None"
proof -
  note inv = shipped_reachable_inv [OF ship reach] and rq = shipped_run_queue [OF ship]
  have "pick P s = None \<longleftrightarrow> running s \<noteq> None"
    using run_queue.pick_keeps [OF rq inv] by (cases "running s") (auto simp: pick_def [of P s])
  moreover have "pool s \<noteq> None"
    using inv by (auto simp: sched_inv_def fuel_link_def pool_def ledger_balance_def)
  moreover have "fuel_of s t \<noteq> None"
  proof (cases "task_state_of s t")
    case (Ok st)
    then have "state_at (tasks s) t \<noteq> None" by (simp add: task_state_of_simps)
    then obtain b where "bm_get (balances (ledger s)) (TaskAcc t) = Some b"
      by (rule fuel_link_task [OF sched_invD(5) [OF inv]])
    with Ok show ?thesis by (simp add: fuel_of_def ledger_balance_def)
  qed (simp add: fuel_of_def)
  moreover have "next_id s + 1 < 2 ^ 64 \<longrightarrow> spawn P s parent \<noteq> None"
    using keeps_returns [OF run_queue.spawn_keeps [OF rq inv]] by blast
  moreover have "imported (ledger s) + n < 2 ^ 128 \<longrightarrow> refuel s n \<noteq> None"
    using keeps_returns [OF refuel_keeps [OF inv]] by blast
  ultimately show ?thesis
    using keeps_returns [OF run_queue.kill_keeps [OF rq inv, of t]]
      keeps_returns [OF reap_keeps [OF inv, of t]]
      keeps_returns [OF run_queue.ready_keeps [OF rq inv, of t]]
      keeps_returns [OF run_queue.report_keeps [OF rq inv, of t n outcome]]
      keeps_returns [OF export_keeps [OF inv, of n]]
      keeps_returns [OF donate_keeps [OF inv, of t n]]
      keeps_returns [OF reclaim_keeps [OF inv, of t n]]
    by (intro conjI)
qed

theorem sched_no_panic_witness:
  "kill deterministic_policy demo_state 1 \<noteq> None \<and> (pick deterministic_policy demo_state = None) \<and>
   report deterministic_policy demo_state 0 7 RDone \<noteq> None"
  using sched_no_panic [OF shipped_det demo_reachable, of None 1 0 RDone]
    sched_no_panic [OF shipped_det demo_reachable, of None 0 7 RDone]
  by (simp add: demo_state_def)

text \<open>
  C10: an operation that answers an error leaves the scheduler exactly as it was.
\<close>

theorem sched_errors_change_nothing:
  assumes ship: "shipped P q0" and reach: "sched_reachable P q0 s"
  shows "(spawn P s parent = Some (s', Err e) \<longrightarrow> s' = s) \<and>
     (kill P s t = Some (s', Err e) \<longrightarrow> s' = s) \<and> (reap s t = Some (s', Err e) \<longrightarrow> s' = s) \<and>
     (ready P s t = Some (s', Err e) \<longrightarrow> s' = s) \<and>
     (report P s t n outcome = Some (s', Err e) \<longrightarrow> s' = s) \<and>
     (refuel s n = Some (s', Err e) \<longrightarrow> s' = s) \<and> (export s n = Some (s', Err e) \<longrightarrow> s' = s) \<and>
     (donate s t n = Some (s', Err e) \<longrightarrow> s' = s) \<and> (reclaim s t n = Some (s', Err e) \<longrightarrow> s' = s)"
proof -
  note inv = shipped_reachable_inv [OF ship reach] and rq = shipped_run_queue [OF ship]
  have "spawn P s parent = Some (s', Err e) \<longrightarrow> s' = s"
    by (cases "check_parent s parent") (auto simp: spawn_def Let_def bind_eq_Some_conv)
  moreover have "refuel s n = Some (s', Err e) \<longrightarrow> s' = s"
    by (auto simp: refuel_def bind_eq_Some_conv)
  ultimately show ?thesis
    using run_queue.kill_keeps [OF rq inv] reap_keeps [OF inv]
      run_queue.ready_keeps [OF rq inv] run_queue.report_keeps [OF rq inv]
      export_keeps [OF inv] donate_keeps [OF inv] reclaim_keeps [OF inv]
    by (intro conjI impI) (blast dest: keepsD(2))+
qed

theorem sched_errors_change_nothing_witness:
  "\<exists>s'. report deterministic_policy demo_state 0 61 RDone = Some (s', Err (InsufficientFuel 61 60)) \<and>
     s' = demo_state"
proof -
  obtain s' where err: "report deterministic_policy demo_state 0 61 RDone =
      Some (s', Err (InsufficientFuel 61 60))"
    by (simp add: demo_state_def sched_eval)
  with sched_errors_change_nothing [OF shipped_det demo_reachable, of None s' _ 0 61 RDone]
  show ?thesis by blast
qed


text \<open>
  C11: the single-resumer rule and the run queue. The queue holds exactly the runnable tasks, each
  once; the task being resumed is the only one in state \<open>Running\<close>; and the idle queries answer
  from that.
\<close>

theorem sched_queue_agrees:
  assumes "shipped P q0" and "sched_reachable P q0 s"
  shows "distinct (policy_state s) \<and>
     (\<forall>t. t \<in> set (policy_state s) \<longleftrightarrow> task_state_of s t = Ok Runnable) \<and>
     (\<forall>t. running s = Some t \<longleftrightarrow> task_state_of s t = Ok Running) \<and>
     (has_runnable P s \<longleftrightarrow> (\<exists>t. task_state_of s t = Ok Runnable)) \<and>
     (is_idle P s \<longleftrightarrow> (\<forall>t. task_state_of s t \<noteq> Ok Runnable \<and> task_state_of s t \<noteq> Ok Running))"
proof -
  note inv = shipped_reachable_inv [OF assms] and rq = shipped_run_queue [OF assms(1)]
  have q: "t \<in> set (policy_state s) \<longleftrightarrow> task_state_of s t = Ok Runnable"
    and r: "running s = Some t \<longleftrightarrow> task_state_of s t = Ok Running" for t
    using sched_invD(4) [OF inv] by (simp_all add: queue_link_def task_state_of_simps)
  have "p_is_empty P (policy_state s) \<longleftrightarrow> (\<forall>t. t \<notin> set (policy_state s))"
    using run_queue.is_empty_iff [OF rq sched_invD(3) [OF inv]] by auto
  moreover have "running s = None \<longleftrightarrow> (\<forall>t. running s \<noteq> Some t)"
    by (cases "running s") auto
  moreover have "distinct (policy_state s)"
    using sched_invD(3) [OF inv] by (simp add: shipped_inv_def)
  ultimately show ?thesis
    by (simp add: has_runnable_def is_idle_def q r) blast
qed

theorem sched_queue_agrees_witness:
  "task_state_of demo_state 1 = Ok Runnable \<and> 1 \<in> set (policy_state demo_state) \<and>
   \<not> is_idle deterministic_policy demo_state"
proof -
  have "task_state_of demo_state 1 = Ok Runnable"
    by (simp add: demo_state_def task_state_of_def)
  with sched_queue_agrees [OF shipped_det demo_reachable] show ?thesis by blast
qed

text \<open>
  C12: the task tree. A task is in its parent's child list exactly when it names that parent, no
  child is listed twice, parents are older than their children (so the tree has no cycle), and
  every id handed out is below the counter.
\<close>

theorem sched_task_tree:
  assumes "shipped P q0" and "sched_reachable P q0 s"
  shows "(\<forall>c p. parent_of s c = Ok (Some p) \<longleftrightarrow> (\<exists>cs. children_of s p = Ok cs \<and> c \<in> set cs)) \<and>
     (\<forall>p cs. children_of s p = Ok cs \<longrightarrow> distinct cs) \<and>
     (\<forall>c p. parent_of s c = Ok (Some p) \<longrightarrow> p < c) \<and>
     sorted_wrt (<) (task_ids s) \<and> (\<forall>t \<in> set (task_ids s). t < next_id s)"
proof -
  have tree: "tree_inv (tasks s) (next_id s)"
    by (rule sched_invD(2) [OF shipped_reachable_inv [OF assms]])
  have par: "parent_of s c = Ok (Some p) \<longleftrightarrow> has_parent (tasks s) c p" for c p
    by (auto simp: parent_of_def has_parent_def)
  have chi: "(\<exists>cs. children_of s p = Ok cs \<and> c \<in> set cs) \<longleftrightarrow> has_child (tasks s) p c" for c p
    by (auto simp: children_of_def has_child_def)
  have "distinct cs" if "children_of s p = Ok cs" for p cs
    using tree that by (auto simp: tree_inv_def children_of_def)
  moreover have "sorted_wrt (<) (task_ids s)"
    using tree by (simp add: tree_inv_def task_ids_def bm_keys_def bm_wf_def)
  moreover have "\<forall>t \<in> set (task_ids s). t < next_id s"
    using tree by (simp add: tree_inv_def task_ids_def bm_keys_dom)
  ultimately show ?thesis
    using tree unfolding par chi by (simp add: tree_inv_def)
qed

theorem sched_task_tree_witness:
  "parent_of demo_state 1 = Ok (Some 0) \<and> (0 :: nat) < 1 \<and>
   (\<exists>cs. children_of demo_state 0 = Ok cs \<and> 1 \<in> set cs)"
proof -
  have "parent_of demo_state 1 = Ok (Some 0)"
    by (simp add: demo_state_def parent_of_def)
  with sched_task_tree [OF shipped_det demo_reachable] show ?thesis by blast
qed

text \<open>
  The deterministic policy resumes the runnable task with the smallest id, and resumes
  nothing exactly when no task is runnable; the picked task becomes the one running task and no
  other task changes state.
\<close>

theorem det_pick_smallest:
  assumes reach: "sched_reachable deterministic_policy det_new s" and idle: "running s = None"
  defines "runnable \<equiv> {t. task_state_of s t = Ok Runnable}"
  shows "\<exists>s' r. pick deterministic_policy s = Some (s', r) \<and> finite runnable \<and>
     r = (if runnable = {} then None else Some (Min runnable)) \<and> running s' = r \<and>
     (\<forall>t. task_state_of s' t = (if r = Some t then Ok Running else task_state_of s t))"
proof -
  note inv = det.sched_reachable_inv [OF reach]
  have q: "runnable = set (policy_state s)"
    using sched_invD(4) [OF inv] by (auto simp: runnable_def queue_link_def task_state_of_simps)
  have sorted: "sorted_wrt (<) (policy_state s)" by (rule sched_invD(3) [OF inv])
  show ?thesis
  proof (cases "policy_state s")
    case Nil
    with idle show ?thesis by (simp add: q pick_def policy_simps task_state_of_def)
  next
    case (Cons t ts)
    have "Min (set (policy_state s)) = t"
      using sorted Cons by (intro Min_eqI) auto
    moreover have "task_state_of s t = Ok Runnable"
      using q Cons by (auto simp: runnable_def)
    then obtain e where "bm_get (tasks s) t = Some e" and "tstate e = Runnable"
      by (auto simp: task_state_of_def)
    ultimately show ?thesis
      using Cons idle by (simp add: q pick_def policy_simps task_state_of_def)
  qed
qed

theorem det_pick_smallest_witness:
  "\<exists>s s' r. sched_exec deterministic_policy det_new [OpSpawn None, OpSpawn None] = Some s \<and>
     pick deterministic_policy s = Some (s', r) \<and> running s' = r"
proof -
  obtain s where s: "sched_exec deterministic_policy det_new [OpSpawn None, OpSpawn None] = Some s"
    and "running s = None"
    by (simp add: sched_eval)
  with det_pick_smallest [OF sched_exec_reachable [OF s]] show ?thesis by blast
qed


section \<open>Fairness\<close>

lemma position_append: "position t q = Some i \<Longrightarrow> position t (q @ [x]) = Some i"
  by (induction q arbitrary: i) auto

lemma position_filter:
  "position t q = Some i \<Longrightarrow> x \<noteq> t \<Longrightarrow> \<exists>j \<le> i. position t [y \<leftarrow> q. y \<noteq> x] = Some j"
proof (induction q arbitrary: i)
  case (Cons a q)
  show ?case
  proof (cases "a = t")
    case False
    with Cons.prems obtain k where k: "position t q = Some k" "i = Suc k" by auto
    with Cons.IH [of k] Cons.prems(2) obtain j where "j \<le> k" "position t [y \<leftarrow> q. y \<noteq> x] = Some j"
      by blast
    with k False show ?thesis by (cases "a = x") (auto intro: le_SucI)
  qed (use Cons.prems in auto)
qed simp

text \<open>How the fair queue of a node may change in one operation that is not a \<open>pick\<close>.\<close>

definition queue_moves :: "fair_queue \<Rightarrow> fair_queue \<Rightarrow> bool" where
  "queue_moves q q' \<longleftrightarrow> q' = q \<or> (\<exists>x. q' = q @ [x]) \<or> (\<exists>x. q' = [y \<leftarrow> q. y \<noteq> x])"

lemma queue_moves_position:
  assumes "queue_moves q q'" and "position t q = Some i" and "t \<in> set q'"
  shows "\<exists>j \<le> i. position t q' = Some j"
  using assms unfolding queue_moves_def
proof (elim disjE exE)
  fix x assume "q' = [y \<leftarrow> q. y \<noteq> x]"
  with assms position_filter [of t q i x] show ?thesis by auto
qed (auto simp: position_append)

lemma fair_enqueue_moves: "fair_enqueue x q = Some q' \<Longrightarrow> queue_moves q q'"
  by (auto simp: fair_enqueue_def queue_moves_def bind_eq_Some_conv)

lemma queue_moves_refl [simp]: "queue_moves q q"
  by (simp add: queue_moves_def)

lemma with_fuel_err_policy:
  assumes "with_fuel_err s m = Some (s', r)"
  shows "policy_state s' = policy_state s"
proof -
  obtain l x where "m = Some (l, x)"
    using assms by (auto simp: with_fuel_err_def bind_eq_Some_conv)
  with assms show ?thesis
    by (cases x) (auto simp: with_fuel_err_def bind_eq_Some_conv)
qed

lemma reclaim_all_policy_state:
  "reclaim_all s t = Some s' \<Longrightarrow> policy_state s' = policy_state s"
  by (auto simp: reclaim_all_def bind_eq_Some_conv split: if_splits)

lemma spawn_moves: "spawn fair_policy s parent = Some (s', r) \<Longrightarrow> queue_moves (policy_state s) (policy_state s')"
  by (cases "check_parent s parent")
    (auto simp: spawn_def Let_def bind_eq_Some_conv fair_policy_def intro: fair_enqueue_moves)

lemma ready_moves: "ready fair_policy s t = Some (s', r) \<Longrightarrow> queue_moves (policy_state s) (policy_state s')"
  by (auto simp: ready_def Let_def bind_eq_Some_conv fair_policy_def intro: fair_enqueue_moves
      split: option.splits if_splits)

lemma kill_moves:
  assumes "kill fair_policy s t = Some (s', r)" and "distinct (policy_state s)"
  shows "queue_moves (policy_state s) (policy_state s')"
proof (cases "task_state_of s t")
  case (Ok st)
  have "queue_moves (policy_state s) [y \<leftarrow> policy_state s. y \<noteq> t]"
    by (auto simp: queue_moves_def)
  with assms Ok show ?thesis
    by (cases st) (auto simp: kill_def bind_eq_Some_conv fair_policy_def fair_remove_eq
        dest!: reclaim_all_policy_state)
qed (use assms in \<open>simp add: kill_def\<close>)

lemma report_moves:
  assumes "report fair_policy s t n outcome = Some (s', r)"
  shows "queue_moves (policy_state s) (policy_state s')"
proof (cases "running s = Some t")
  case True
  from assms True obtain s1 r1 where burn: "with_fuel_err s (burn (ledger s) (TaskAcc t) n) = Some (s1, r1)"
    by (auto simp: report_def bind_eq_Some_conv)
  from with_fuel_err_policy [OF burn] have same: "policy_state s1 = policy_state s" .
  show ?thesis
  proof (cases r1)
    case (Ok u)
    show ?thesis
      using assms True burn Ok same
      by (cases outcome) (auto simp: report_def bind_eq_Some_conv fair_policy_def
          dest: reclaim_all_policy_state intro: fair_enqueue_moves)
  qed (use assms True burn same in \<open>auto simp: report_def bind_eq_Some_conv\<close>)
qed (use assms in \<open>simp add: report_def\<close>)

lemma others_moves:
  "reap s t = Some (s', r) \<Longrightarrow> policy_state s' = policy_state s"
  "refuel s n = Some (s', r) \<Longrightarrow> policy_state s' = policy_state s"
  "export s n = Some (s', r) \<Longrightarrow> policy_state s' = policy_state s"
  by (auto simp: reap_def refuel_def export_def bind_eq_Some_conv Let_def dest: with_fuel_err_policy
      split: option.splits if_splits)

lemma fuel_moves_policy:
  shows donate_policy: "donate s t n = Some (s', r) \<Longrightarrow> policy_state s' = policy_state s"
    and reclaim_policy: "reclaim s t n = Some (s', r) \<Longrightarrow> policy_state s' = policy_state s"
  by (auto simp: donate_def reclaim_def dest: with_fuel_err_policy
      split: result.splits task_state.splits)

lemma fair_apply_moves:
  assumes "sched_apply fair_policy s op = Some s'" and "distinct (policy_state s)" and "op \<noteq> OpPick"
  shows "queue_moves (policy_state s) (policy_state s')"
  using assms
  by (cases op) (auto dest: spawn_moves ready_moves kill_moves report_moves others_moves fuel_moves_policy)

lemma fair_pick_moves:
  assumes "pick fair_policy s = Some (s', r)"
  shows "policy_state s' = tl (policy_state s)"
  using assms
  by (cases "policy_state s") (auto simp: pick_def fair_policy_def bind_eq_Some_conv Let_def)

lemma fair_apply_position:
  assumes inv: "sched_inv distinct (\<lambda>q. q) s" and op: "sched_apply fair_policy s op = Some s'"
    and i: "position t (policy_state s) = Some i" and t: "t \<in> set (policy_state s')"
  shows "\<exists>j. position t (policy_state s') = Some j \<and> (if op = OpPick then j < i else j \<le> i)"
proof (cases "op = OpPick")
  case True
  with op have q: "policy_state s' = tl (policy_state s)" by (auto dest: fair_pick_moves)
  with i t sched_invD(3) [OF inv] show ?thesis
    using True by (cases "policy_state s") (auto split: if_splits)
next
  case False
  from queue_moves_position [OF fair_apply_moves [OF op sched_invD(3) [OF inv] False] i t] False
  show ?thesis by auto
qed

text \<open>
  C13: no starvation under the fair policy. A task that waits behind \<open>i\<close> others is resumed (or
  killed) within \<open>i + 1\<close> picks, whatever operations run in between: over any history with more
  than \<open>i\<close> picks there is a moment when it is no longer waiting.
\<close>

theorem fair_no_starvation:
  assumes "sched_reachable fair_policy fair_new s" and "position t (policy_state s) = Some i"
    and "sched_run fair_policy s ops = Some s'"
    and "i < length [op \<leftarrow> ops. op = OpPick]"
  shows "\<exists>k \<le> length ops. \<exists>u. sched_run fair_policy s (take k ops) = Some u \<and>
     task_state_of u t \<noteq> Ok Runnable"
  using assms
proof (induction ops arbitrary: s i)
  case Nil
  then show ?case by simp
next
  case (Cons op ops)
  then obtain s1 where s1: "sched_apply fair_policy s op = Some s1"
    and run: "sched_run fair_policy s1 ops = Some s'"
    by (auto simp: bind_eq_Some_conv)
  have reach: "sched_reachable fair_policy fair_new s1"
    using Cons.prems(1) sched_apply_step [OF s1] by (rule reach_step)
  show ?case
  proof (cases "t \<in> set (policy_state s1)")
    case False
    then have "task_state_of s1 t \<noteq> Ok Runnable"
      using sched_invD(4) [OF fair.sched_reachable_inv [OF reach]]
      by (simp add: queue_link_def task_state_of_simps)
    with s1 show ?thesis by (intro exI [of _ 1]) simp
  next
    case True
    obtain j where j: "position t (policy_state s1) = Some j"
      and le: "if op = OpPick then j < i else j \<le> i"
      using fair_apply_position [OF fair.sched_reachable_inv [OF Cons.prems(1)] s1 Cons.prems(2) True]
      by blast
    have "j < length [op \<leftarrow> ops. op = OpPick]"
      using Cons.prems(4) le by (auto split: if_splits)
    from Cons.IH [OF reach j run this] obtain k u where "k \<le> length ops"
      "sched_run fair_policy s1 (take k ops) = Some u" "task_state_of u t \<noteq> Ok Runnable" by blast
    with s1 show ?thesis by (intro exI [of _ "Suc k"]) auto
  qed
qed

theorem fair_no_starvation_witness:
  "\<exists>s. sched_exec fair_policy fair_new [OpSpawn None, OpSpawn None] = Some s \<and>
     (\<exists>k \<le> 3. \<exists>u. sched_run fair_policy s (take k [OpPick, OpReport 0 0 ROutOfFuel, OpPick]) = Some u \<and>
        task_state_of u 1 \<noteq> Ok Runnable)"
proof -
  obtain s s' where s: "sched_exec fair_policy fair_new [OpSpawn None, OpSpawn None] = Some s"
    and pos: "position 1 (policy_state s) = Some 1"
    and run: "sched_run fair_policy s [OpPick, OpReport 0 0 ROutOfFuel, OpPick] = Some s'"
    by (simp add: sched_eval)
  from fair_no_starvation [OF sched_exec_reachable [OF s] pos run] s show ?thesis
    by (simp add: numeral_3_eq_3)
qed

section \<open>Identifiers\<close>

lemma with_fuel_err_next: "with_fuel_err s m = Some (s', r) \<Longrightarrow> next_id s' = next_id s"
  by (cases m) (auto simp: with_fuel_err_def bind_eq_Some_conv split: result.splits)

lemma reclaim_all_next: "reclaim_all s t = Some s' \<Longrightarrow> next_id s' = next_id s"
  by (auto simp: reclaim_all_def bind_eq_Some_conv split: if_splits)

lemma spawn_next:
  assumes "spawn P s parent = Some (s', r)"
  shows "case r of Ok t \<Rightarrow> t = next_id s \<and> next_id s' = next_id s + 1 | Err _ \<Rightarrow> s' = s"
  using assms
  by (cases "check_parent s parent") (auto simp: spawn_def Let_def bind_eq_Some_conv)

lemma kill_next: "kill P s t = Some (s', r) \<Longrightarrow> next_id s' = next_id s"
  by (auto simp: kill_def bind_eq_Some_conv dest!: reclaim_all_next
      split: result.splits task_state.splits prod.splits)

lemma report_next:
  assumes "report P s t n outcome = Some (s', r)"
  shows "next_id s' = next_id s"
proof (cases "running s = Some t")
  case True
  from assms True obtain s1 r1 where burn: "with_fuel_err s (burn (ledger s) (TaskAcc t) n) = Some (s1, r1)"
    by (auto simp: report_def bind_eq_Some_conv)
  show ?thesis
  proof (cases r1)
    case (Ok u)
    show ?thesis
      using assms True burn Ok with_fuel_err_next [OF burn]
      by (cases outcome) (auto simp: report_def bind_eq_Some_conv dest: reclaim_all_next)
  qed (use assms True burn with_fuel_err_next [OF burn] in \<open>auto simp: report_def bind_eq_Some_conv\<close>)
qed (use assms in \<open>simp add: report_def\<close>)

lemma quiet_next:
  "reap s t = Some (s', r) \<Longrightarrow> next_id s' = next_id s"
  "ready P s t = Some (s', b) \<Longrightarrow> next_id s' = next_id s"
  "pick P s = Some (s', picked) \<Longrightarrow> next_id s' = next_id s"
  "refuel s n = Some (s', r) \<Longrightarrow> next_id s' = next_id s"
  "export s n = Some (s', r) \<Longrightarrow> next_id s' = next_id s"
  "donate s t n = Some (s', r) \<Longrightarrow> next_id s' = next_id s"
  "reclaim s t n = Some (s', r) \<Longrightarrow> next_id s' = next_id s"
  by (auto simp: reap_def ready_def pick_def refuel_def export_def donate_def reclaim_def Let_def
      bind_eq_Some_conv dest: with_fuel_err_next
      split: option.splits if_splits result.splits task_state.splits prod.splits)

lemma sched_step_next: "sched_step P s s' \<Longrightarrow> next_id s \<le> next_id s'"
proof (induction rule: sched_step.induct)
  case (step_spawn s parent s' r)
  from spawn_next [OF this] show ?case by (cases r) auto
qed (auto dest: kill_next report_next quiet_next)

lemma sched_steps_next: "(sched_step P)\<^sup>*\<^sup>* s s' \<Longrightarrow> next_id s \<le> next_id s'"
  by (induction rule: rtranclp_induct) (auto dest: sched_step_next)

text \<open>
  Task ids are never reused. An id returned by a \<open>spawn\<close> names no task tracked so far, and
  every later \<open>spawn\<close> of the same node, after any operations (reaping included), returns a
  strictly larger one.
\<close>

theorem spawn_ids_fresh:
  assumes "shipped P q0" and "sched_reachable P q0 s"
    and first: "spawn P s parent = Some (s1, Ok t)"
    and later: "(sched_step P)\<^sup>*\<^sup>* s1 s2" and second: "spawn P s2 parent' = Some (s3, Ok u)"
  shows "t \<notin> set (task_ids s) \<and> t < u"
proof -
  have "tree_inv (tasks s) (next_id s)"
    by (rule sched_invD(2) [OF shipped_reachable_inv [OF assms(1,2)]])
  then have "t \<notin> set (task_ids s)"
    using spawn_next [OF first] by (auto simp: tree_inv_def task_ids_def bm_keys_dom)
  moreover have "t < u"
    using spawn_next [OF first] spawn_next [OF second] sched_steps_next [OF later] by simp
  ultimately show ?thesis ..
qed

theorem spawn_ids_fresh_witness:
  "\<exists>s1 s2 s3. spawn deterministic_policy demo_state None = Some (s1, Ok 2) \<and>
     kill deterministic_policy s1 2 = Some (s2, Ok ()) \<and>
     spawn deterministic_policy s2 None = Some (s3, Ok 3) \<and> (2 :: nat) < 3"
proof -
  obtain s1 s2 s3 where run: "spawn deterministic_policy demo_state None = Some (s1, Ok 2)"
    "kill deterministic_policy s1 2 = Some (s2, Ok ())"
    "spawn deterministic_policy s2 None = Some (s3, Ok 3)"
    by (simp add: demo_state_def sched_eval)
  have "(sched_step deterministic_policy)\<^sup>*\<^sup>* s1 s2"
    using step_kill [OF run(2)] by (rule r_into_rtranclp)
  from spawn_ids_fresh [OF shipped_det demo_reachable run(1) this run(3)] run
  show ?thesis by blast
qed

section \<open>The resume cycle\<close>

fun outcome_state :: "resume_outcome \<Rightarrow> task_state" where
  "outcome_state ROutOfFuel = Runnable"
| "outcome_state RBlocked = Blocked"
| "outcome_state RDone = Done"

text \<open>What a report moves: the spent fuel is burned; a finished task gives the rest to the pool.\<close>

fun report_pays :: "resume_outcome \<Rightarrow> nat \<Rightarrow> nat \<Rightarrow> nat \<times> nat" where
  "report_pays RDone rest p = (0, p + rest)"
| "report_pays _ rest p = (rest, p)"

lemma fuel_of_simps:
  assumes "fuel_link (state_at (tasks s)) (ledger s)"
  shows "fuel_of s t = (case bm_get (balances (ledger s)) (TaskAcc t) of
     Some b \<Rightarrow> Some (Ok b) | None \<Rightarrow> Some (Err (NoSuchTask t)))"
proof (cases "bm_get (tasks s) t")
  case None
  with assms have "bm_get (balances (ledger s)) (TaskAcc t) = None"
    by (simp add: fuel_link_def state_at_def)
  with None show ?thesis by (simp add: fuel_of_def task_state_of_def)
next
  case (Some e)
  then have "state_at (tasks s) t \<noteq> None" by (simp add: state_at_def)
  then obtain b where "bm_get (balances (ledger s)) (TaskAcc t) = Some b"
    by (rule fuel_link_task [OF assms])
  with Some show ?thesis by (simp add: fuel_of_def task_state_of_def ledger_balance_def)
qed

context run_queue
begin

text \<open>
  The effect of a report on the books and the table: the ledger after the burn, and after a
  finished task gave the rest back.
\<close>

lemma report_books:
  assumes inv: "sched_inv queue_inv order s" and run: "running s = Some t"
    and b: "bm_get (balances (ledger s)) (TaskAcc t) = Some b"
    and p: "bm_get (balances (ledger s)) Pool = Some p" and "n \<le> b"
    and res: "report P s t n outcome = Some (s', r)"
  shows "r = Ok () \<and> running s' = None \<and>
     state_at (tasks s') = (state_at (tasks s))(t \<mapsto> outcome_state outcome) \<and>
     bm_get (balances (ledger s')) = (bm_get (balances (ledger s)))
       (TaskAcc t \<mapsto> fst (report_pays outcome (b - n) p), Pool \<mapsto> snd (report_pays outcome (b - n) p)) \<and>
     burned (ledger s') = burned (ledger s) + n"
proof -
  have linv: "ledger_inv (ledger s)" using inv by (simp add: sched_inv_def fuel_link_def)
  define l where "l = ledger s\<lparr>balances := bm_insert (TaskAcc t) (b - n) (balances (ledger s)),
      burned := burned (ledger s) + n\<rparr>"
  have burn: "burn (ledger s) (TaskAcc t) n = Some (l, Ok ())"
    using b \<open>n \<le> b\<close> by (simp add: burn_eq [OF linv] l_def)
  have "state_at (tasks s) t = Some Running"
    using queue_linkD(2) [OF sched_invD(4) [OF inv], of t] run by simp
  then obtain e where e: "bm_get (tasks s) t = Some e" by (auto simp: state_at_def)
  have same: "(bm_get (balances (ledger s)))(TaskAcc t \<mapsto> x, Pool \<mapsto> p) =
      (bm_get (balances (ledger s)))(TaskAcc t \<mapsto> x)" for x
    using p by (auto simp: fun_eq_iff)
  show ?thesis
  proof (cases outcome)
    case RDone
    let ?s = "s\<lparr>ledger := l\<rparr>"
    have "fuel_link (state_at (tasks ?s)) (ledger ?s)"
      using burn_running(2) [OF inv b \<open>n \<le> b\<close>] by (simp add: l_def)
    moreover have "state_at (tasks ?s) t \<noteq> None" using e by (simp add: state_at_def)
    ultimately obtain l' where rec: "reclaim_all ?s t = Some (?s\<lparr>ledger := l'\<rparr>)"
      and l': "bm_get (balances l') = (bm_get (balances l))(TaskAcc t \<mapsto> 0, Pool \<mapsto> p + (b - n))"
        "burned l' = burned l"
      using reclaim_all_returns [of ?s t] p by (auto simp: l_def)
    have "reclaim_all (?s\<lparr>tasks := ts\<rparr>) t = Some (?s\<lparr>tasks := ts, ledger := l'\<rparr>)" for ts
      using rec by (simp add: reclaim_all_tasks)
    with RDone run burn e res l' show ?thesis
      by (auto simp: report_def with_fuel_err_simps update_task_def l_def)
  qed (use run burn e res in \<open>auto simp: report_def with_fuel_err_simps update_task_def l_def same
         bind_eq_Some_conv\<close>)
qed

end

text \<open>
  The whole effect of \<open>report\<close>. Spending more than the task holds is refused and changes
  nothing. Otherwise the spent fuel is burned, the task moves to the state its outcome names, a
  finished task returns its remaining fuel to the pool, every other task keeps its state and its
  fuel, and no task is running.
\<close>

theorem report_effect:
  assumes ship: "shipped P q0" and reach: "sched_reachable P q0 s" and run: "running s = Some t"
    and fuel: "fuel_of s t = Some (Ok b)" and pool: "pool s = Some p"
  shows "if b < n then report P s t n outcome = Some (s, Err (InsufficientFuel n b))
     else \<exists>s'. report P s t n outcome = Some (s', Ok ()) \<and> running s' = None \<and>
       (\<forall>u. task_state_of s' u = (if u = t then Ok (outcome_state outcome) else task_state_of s u)) \<and>
       (\<forall>u. u \<noteq> t \<longrightarrow> fuel_of s' u = fuel_of s u) \<and>
       fuel_of s' t = Some (Ok (fst (report_pays outcome (b - n) p))) \<and>
       Scheduler.pool s' = Some (snd (report_pays outcome (b - n) p)) \<and>
       burned (ledger s') = burned (ledger s) + n"
proof -
  note inv = shipped_reachable_inv [OF ship reach] and rq = shipped_run_queue [OF ship]
  note link = sched_invD(5) [OF inv]
  have b: "bm_get (balances (ledger s)) (TaskAcc t) = Some b"
    using fuel by (auto simp: fuel_of_simps [OF link] split: option.splits)
  have p: "bm_get (balances (ledger s)) Pool = Some p"
    using pool by (simp add: pool_def ledger_balance_def)
  show ?thesis
  proof (cases "b < n")
    case True
    have "ledger_inv (ledger s)" using link by (simp add: fuel_link_def)
    with True b run show ?thesis by (simp add: report_def burn_eq with_fuel_err_simps)
  next
    case False
    then have n: "n \<le> b" by simp
    obtain s' r where res: "report P s t n outcome = Some (s', r)" and inv': "sched_inv (shipped_inv P) (\<lambda>q. q) s'"
      using run_queue.report_keeps [OF rq inv, of t n outcome] by (auto simp: keeps_def)
    note eff = run_queue.report_books [OF rq inv run b p n res]
    have "fuel_of s' u = fuel_of s u" if "u \<noteq> t" for u
      using eff that by (simp add: fuel_of_simps [OF link] fuel_of_simps [OF sched_invD(5) [OF inv']])
    moreover have "task_state_of s' u = (if u = t then Ok (outcome_state outcome) else task_state_of s u)" for u
      using fun_cong [OF conjunct1 [OF conjunct2 [OF conjunct2 [OF eff]]], of u]
      by (auto simp: task_state_of_def state_at_def split: if_splits)
    ultimately show ?thesis
      using False res eff by (simp add: fuel_of_simps [OF sched_invD(5) [OF inv']] pool_def ledger_balance_def)
  qed
qed

theorem report_effect_witness:
  "\<exists>s'. report deterministic_policy demo_state 0 7 RDone = Some (s', Ok ()) \<and>
     task_state_of s' 0 = Ok Done \<and> pool s' = Some 93"
proof -
  have "running demo_state = Some 0" "fuel_of demo_state 0 = Some (Ok 60)" "pool demo_state = Some 40"
    by (simp_all add: demo_state_def fuel_of_def pool_def task_state_of_def ledger_balance_def)
  from report_effect [OF shipped_det demo_reachable this, of 7 RDone] show ?thesis by auto
qed

text \<open>
  The books themselves, whatever sequence of operations runs on them: if the fuel imported
  over the whole history fits \<open>u128\<close>, no operation panics (the internal conservation check never
  fires) and at the end every unit imported is burned, exported or in an account.
\<close>

theorem ledger_history_conserved:
  assumes "sum_list (map import_amount ops) < 2 ^ 128"
  shows "\<exists>l. ledger_run ledger_new ops = Some l \<and> is_conserved l \<and>
     (\<forall>a b. ledger_balance l a = Some b \<longrightarrow> b < 2 ^ 64)"
proof -
  have inv: "ledger_inv ledger_new"
    by (simp add: ledger_inv_def ledger_new_def is_conserved_def circulating_def)
  have "imported ledger_new + sum_list (map import_amount ops) < 2 ^ 128"
    using assms by (simp add: ledger_new_def)
  from books.run_ops_returns [OF inv this] obtain l where l: "books.run_ops ledger_new ops = Some l"
    by auto
  from books.run_ops_inv [OF inv this] have "ledger_inv l" .
  with l show ?thesis
    by (auto simp: ledger_run_books ledger_inv_def ledger_balance_def)
qed

theorem ledger_history_conserved_witness:
  "\<exists>l. ledger_run ledger_new [OpOpen Pool, OpImport Pool 10, OpBurn Pool 4, OpClose Pool] = Some l \<and>
     is_conserved l"
  using ledger_history_conserved
    [of "[OpOpen Pool, OpImport Pool 10, OpBurn Pool 4, OpClose Pool]"]
  by auto

end
