(* ===== verification/Completion.thy ===== *)
theory Completion
  imports Prelude
begin

text \<open>
  Completion queues and doorbells (\<open>crates/eo9-sched/src/completion.rs\<close>): the two primitives, and
  the pairing the module documents, as an interleaving of any number of producers with one
  consumer. Pushes and drains run under the embedder's exclusion and are single steps; a ring, a
  take and the wake that follows a ring are separate atomic steps, so another party may run
  between them.
\<close>

section \<open>Doorbell\<close>

record doorbell =
  rung :: bool

definition doorbell_new :: doorbell where
  "doorbell_new = \<lparr>rung = False\<rparr>"

text \<open>\<open>AtomicBool::swap\<close> answers the old value and stores the new one.\<close>

definition ring :: "doorbell \<Rightarrow> bool \<times> doorbell" where
  "ring d = (\<not> rung d, d\<lparr>rung := True\<rparr>)"

definition take_signal :: "doorbell \<Rightarrow> bool \<times> doorbell" where
  "take_signal d = (rung d, d\<lparr>rung := False\<rparr>)"

definition is_rung :: "doorbell \<Rightarrow> bool" where
  "is_rung d = rung d"


section \<open>Completion queue\<close>

record 'a completion_queue =
  records :: "'a list"

definition queue_new :: "'a completion_queue" where
  "queue_new = \<lparr>records = []\<rparr>"

definition queue_push :: "'a completion_queue \<Rightarrow> 'a \<Rightarrow> bool \<times> 'a completion_queue" where
  "queue_push q record = (records q = [], q\<lparr>records := records q @ [record]\<rparr>)"

definition queue_pop :: "'a completion_queue \<Rightarrow> 'a option \<times> 'a completion_queue" where
  "queue_pop q = (case records q of [] \<Rightarrow> (None, q) | x # xs \<Rightarrow> (Some x, q\<lparr>records := xs\<rparr>))"

definition queue_drain :: "'a completion_queue \<Rightarrow> 'a list \<times> 'a completion_queue" where
  "queue_drain q = (records q, q\<lparr>records := []\<rparr>)"

definition queue_len :: "'a completion_queue \<Rightarrow> nat" where
  "queue_len q = length (records q)"

definition queue_is_empty :: "'a completion_queue \<Rightarrow> bool" where
  "queue_is_empty q \<longleftrightarrow> records q = []"


section \<open>The pairing\<close>

text \<open>
  The consumer is parked, resumed and about to test the bell, or past a successful \<open>take\<close> and
  about to drain. A producer whose push saw the edge still has to ring (\<open>pending_rings\<close>); one
  whose ring saw the edge still has to wake the consumer (\<open>pending_wakes\<close>). The history fields
  record what was pushed, what was dispatched, and how often each edge was seen.
\<close>

datatype consumer = Parked | Resumed | Draining

record 'a pairing =
  queue :: "'a completion_queue"
  bell :: doorbell
  pending_rings :: nat
  pending_wakes :: nat
  woken :: bool
  consumer :: consumer
  pushed :: "'a list"
  dispatched :: "'a list"
  wakes :: nat
  takes :: nat

definition pairing_new :: "'a pairing" where
  "pairing_new = \<lparr>queue = queue_new, bell = doorbell_new, pending_rings = 0, pending_wakes = 0,
     woken = False, consumer = Parked, pushed = [], dispatched = [], wakes = 0, takes = 0\<rparr>"

text \<open>Producer: \<open>if queue.push(record)\<close>.\<close>

definition producer_push :: "'a pairing \<Rightarrow> 'a \<Rightarrow> 'a pairing" where
  "producer_push s x =
     (case queue_push (queue s) x of (edge, q) \<Rightarrow>
        s\<lparr>queue := q, pushed := pushed s @ [x],
          pending_rings := pending_rings s + (if edge then 1 else 0)\<rparr>)"

text \<open>Producer: \<open>if doorbell.ring()\<close>.\<close>

definition producer_ring :: "'a pairing \<Rightarrow> 'a pairing" where
  "producer_ring s =
     (case ring (bell s) of (edge, d) \<Rightarrow>
        s\<lparr>bell := d, pending_rings := pending_rings s - 1,
          pending_wakes := pending_wakes s + (if edge then 1 else 0),
          wakes := wakes s + (if edge then 1 else 0)\<rparr>)"

text \<open>Producer: wake the task's resumer.\<close>

definition producer_wake :: "'a pairing \<Rightarrow> 'a pairing" where
  "producer_wake s = s\<lparr>pending_wakes := pending_wakes s - 1, woken := True\<rparr>"

definition consumer_resume :: "'a pairing \<Rightarrow> 'a pairing" where
  "consumer_resume s = s\<lparr>woken := False, consumer := Resumed\<rparr>"

text \<open>Consumer: \<open>if doorbell.take()\<close>; otherwise it parks again.\<close>

definition consumer_take :: "'a pairing \<Rightarrow> 'a pairing" where
  "consumer_take s =
     (case take_signal (bell s) of (was_rung, d) \<Rightarrow>
        s\<lparr>bell := d, consumer := (if was_rung then Draining else Parked),
          takes := takes s + (if was_rung then 1 else 0)\<rparr>)"

text \<open>Consumer: \<open>for record in queue.drain()\<close>, then park.\<close>

definition consumer_drain :: "'a pairing \<Rightarrow> 'a pairing" where
  "consumer_drain s =
     (case queue_drain (queue s) of (batch, q) \<Rightarrow>
        s\<lparr>queue := q, dispatched := dispatched s @ batch, consumer := Parked\<rparr>)"

inductive pairing_step :: "'a pairing \<Rightarrow> 'a pairing \<Rightarrow> bool" where
  push: "pairing_step s (producer_push s x)"
| ring: "0 < pending_rings s \<Longrightarrow> pairing_step s (producer_ring s)"
| wake: "0 < pending_wakes s \<Longrightarrow> pairing_step s (producer_wake s)"
| resume: "consumer s = Parked \<Longrightarrow> woken s \<Longrightarrow> pairing_step s (consumer_resume s)"
| take: "consumer s = Resumed \<Longrightarrow> pairing_step s (consumer_take s)"
| drain: "consumer s = Draining \<Longrightarrow> pairing_step s (consumer_drain s)"

inductive pairing_reachable :: "'a pairing \<Rightarrow> bool" where
  init: "pairing_reachable pairing_new"
| step: "pairing_reachable s \<Longrightarrow> pairing_step s s' \<Longrightarrow> pairing_reachable s'"

lemmas pairing_defs =
  producer_push_def producer_ring_def producer_wake_def consumer_resume_def consumer_take_def
  consumer_drain_def queue_push_def queue_drain_def ring_def take_signal_def

text \<open>A state in which nobody has anything left to do but push more.\<close>

definition quiescent :: "'a pairing \<Rightarrow> bool" where
  "quiescent s \<longleftrightarrow> pending_rings s = 0 \<and> pending_wakes s = 0 \<and> \<not> woken s \<and> consumer s = Parked"

inductive_simps pairing_step_simps: "pairing_step s s'"


section \<open>Properties\<close>

definition pairing_inv :: "'a pairing \<Rightarrow> bool" where
  "pairing_inv s \<longleftrightarrow>
     (\<not> queue_is_empty (queue s) \<longrightarrow>
        0 < pending_rings s \<or> is_rung (bell s) \<or> consumer s = Draining) \<and>
     (is_rung (bell s) \<longrightarrow> 0 < pending_wakes s \<or> woken s \<or> consumer s = Resumed) \<and>
     pushed s = dispatched s @ records (queue s) \<and>
     wakes s = takes s + (if is_rung (bell s) then 1 else 0)"

lemma pairing_inv_step: "pairing_step s s' \<Longrightarrow> pairing_inv s \<Longrightarrow> pairing_inv s'"
  by (induction rule: pairing_step.induct)
    (auto simp: pairing_inv_def pairing_defs queue_is_empty_def is_rung_def split: if_splits)

lemma pairing_reachable_inv: "pairing_reachable s \<Longrightarrow> pairing_inv s"
proof (induction rule: pairing_reachable.induct)
  case init
  then show ?case
    by (simp add: pairing_inv_def pairing_new_def queue_new_def doorbell_new_def queue_is_empty_def
        is_rung_def)
qed (rule pairing_inv_step)

text \<open>The steps the parties still owe; each one taken brings the pairing nearer to rest.\<close>

definition pairing_work :: "'a pairing \<Rightarrow> nat" where
  "pairing_work s = 5 * pending_rings s + 4 * pending_wakes s + (if woken s then 3 else 0) +
     (case consumer s of Parked \<Rightarrow> 0 | Resumed \<Rightarrow> 2 | Draining \<Rightarrow> 1)"

lemma pairing_work_decreases:
  assumes "pairing_step s s'" and "\<And>x. s' \<noteq> producer_push s x"
  shows "pairing_work s' < pairing_work s"
  using assms(1)
proof cases
  case (push x)
  with assms(2) show ?thesis by blast
qed (auto simp: pairing_work_def pairing_defs)

lemma quiescent_or_step: "quiescent s \<or> (\<exists>s'. pairing_step s s' \<and> pairing_work s' < pairing_work s)"
proof (rule disjCI)
  assume no: "\<not> (\<exists>s'. pairing_step s s' \<and> pairing_work s' < pairing_work s)"
  have "pending_rings s = 0"
    using no pairing_step.ring [of s] by (fastforce simp: pairing_work_def pairing_defs)
  moreover have "pending_wakes s = 0"
    using no pairing_step.wake [of s] by (fastforce simp: pairing_work_def pairing_defs)
  moreover have "consumer s \<noteq> Resumed"
    using no pairing_step.take [of s] by (fastforce simp: pairing_work_def pairing_defs)
  moreover have "consumer s \<noteq> Draining"
    using no pairing_step.drain [of s] by (fastforce simp: pairing_work_def pairing_defs)
  moreover have "\<not> woken s" if "consumer s = Parked"
    using no that pairing_step.resume [of s] by (fastforce simp: pairing_work_def pairing_defs)
  ultimately show "quiescent s"
    by (cases "consumer s") (auto simp: quiescent_def)
qed

lemma pairing_settles:
  "\<exists>s'. pairing_step\<^sup>*\<^sup>* s s' \<and> quiescent s' \<and> pushed s' = pushed s"
proof (induction "pairing_work s" arbitrary: s rule: less_induct)
  case less
  show ?case
  proof (cases "quiescent s")
    case True
    then show ?thesis by blast
  next
    case False
    then obtain s1 where s1: "pairing_step s s1" "pairing_work s1 < pairing_work s"
      using quiescent_or_step by blast
    then have "pushed s1 = pushed s"
      by cases (auto simp: pairing_work_def pairing_defs)
    with less [OF s1(2)] s1(1) show ?thesis
      by (metis converse_rtranclp_into_rtranclp)
  qed
qed



text \<open>
  C15: from every reachable state the parties, without pushing anything new, reach a state in
  which all records pushed so far are dispatched; nothing is dispatched twice or out of order on
  the way; and the consumer is woken at most once more than it has taken the signal, so a batch
  of completions costs one wake.
\<close>

theorem completions_delivered:
  assumes "pairing_reachable s"
  shows "(\<exists>s'. pairing_step\<^sup>*\<^sup>* s s' \<and> pushed s' = pushed s \<and> dispatched s' = pushed s) \<and>
     pushed s = dispatched s @ records (queue s) \<and> wakes s \<le> takes s + 1"
proof -
  obtain s' where s': "pairing_step\<^sup>*\<^sup>* s s'" "quiescent s'" "pushed s' = pushed s"
    using pairing_settles by blast
  from s'(1) assms have "pairing_reachable s'"
    by (induction rule: rtranclp_induct) (auto intro: pairing_reachable.step)
  then have "pairing_inv s'" by (rule pairing_reachable_inv)
  with s' have "dispatched s' = pushed s"
    by (auto simp: pairing_inv_def quiescent_def queue_is_empty_def)
  with s' pairing_reachable_inv [OF assms] show ?thesis
    by (auto simp: pairing_inv_def)
qed

theorem completions_delivered_witness:
  "\<exists>s'. pairing_step\<^sup>*\<^sup>* (producer_push pairing_new (7 :: nat)) s' \<and> dispatched s' = [7]"
proof -
  have "pairing_reachable (producer_push pairing_new (7 :: nat))"
    by (rule pairing_reachable.step [OF pairing_reachable.init pairing_step.push])
  from completions_delivered [OF this] show ?thesis
    by (auto simp: producer_push_def queue_push_def queue_new_def pairing_new_def)
qed

end
