(* ===== verification/Fatwalk.thy ===== *)
theory Fatwalk
  imports Prelude
begin

text \<open>
  FAT32 walking and same-size overwrite planning (\<open>crates/eo9-fatwalk/src/lib.rs\<close>): boot sector
  parsing, the root-directory search, the cycle-bounded chain walk, the mapping of byte ranges to
  sector runs, and the write plan. The device callback \<open>SectorRead\<close> is a function from sector
  numbers to sectors or device errors, which is what its implementations in the repository are
  (a sector map, an image slice); a name is the list of its bytes.
\<close>

unbundle bit_operations_syntax

section \<open>Data\<close>

definition sector :: nat where "sector = 512"

datatype fat_error =
    NotFat32 string
  | BadName
  | NotFound
  | NotAFile
  | FreeClusterInChain nat
  | BadClusterInChain nat
  | ChainCycle
  | ChainSizeMismatch nat nat
  | OutOfRange
  | SizeMismatch nat nat
  | UnalignedSize nat

datatype 'e error = Device 'e | Fat fat_error

record volume =
  sectors_per_cluster :: nat
  reserved_sectors :: nat
  fat_count :: nat
  fat_sectors :: nat
  root_cluster :: nat
  total_sectors :: nat
  cluster_count :: nat

record root_file =
  first_cluster :: nat
  file_size :: nat

record file_map =
  map_size :: nat
  map_chain :: "nat list"

record run =
  run_lba :: nat
  run_sectors :: nat
  file_offset :: nat

record write_op =
  op_lba :: nat
  op_data :: bytes

record fat_cache =
  cache_lba :: "nat option"
  cache_bytes :: bytes

type_synonym 'e sector_read = "nat \<Rightarrow> (bytes, 'e) result"

definition fat32_eoc :: nat where "fat32_eoc = 0x0FFFFFF8"
definition fat32_bad :: nat where "fat32_bad = 0x0FFFFFF7"
definition dir_entry :: nat where "dir_entry = 32"

text \<open>\<open>x & FAT32_MASK\<close>, the low 28 bits.\<close>

definition fat32_mask :: "nat \<Rightarrow> nat" where "fat32_mask x = x mod 2 ^ 28"

definition read_u16 :: "bytes \<Rightarrow> nat \<Rightarrow> nat" where
  "read_u16 b at = le_decode (slice at 2 b)"

definition read_u32 :: "bytes \<Rightarrow> nat \<Rightarrow> nat" where
  "read_u32 b at = le_decode (slice at 4 b)"


section \<open>Names\<close>

definition ascii_upper :: "byte \<Rightarrow> byte" where
  "ascii_upper b = (if 97 \<le> b \<and> b \<le> 122 then b - 32 else b)"

definition ok_83 :: "byte \<Rightarrow> bool" where
  "ok_83 b \<longleftrightarrow> 65 \<le> b \<and> b \<le> 90 \<or> 48 \<le> b \<and> b \<le> 57 \<or>
     b \<in> set [0x5F, 0x2D, 0x7E, 0x21, 0x23, 0x24, 0x25, 0x26, 0x40]"

text \<open>The scan for the one permitted dot.\<close>

fun find_dot :: "nat \<Rightarrow> nat option \<Rightarrow> bytes \<Rightarrow> (nat option, fat_error) result" where
  "find_dot i dot [] = Ok dot"
| "find_dot i dot (b # bs) =
     (if b = 0x2E then (if dot \<noteq> None then Err BadName else find_dot (Suc i) (Some i) bs)
      else find_dot (Suc i) dot bs)"

definition name_to_83 :: "bytes \<Rightarrow> (bytes, fat_error) result" where
  "name_to_83 name =
     and_then (find_dot 0 None name) (\<lambda>dot.
       let (base, ext) = (case dot of
             Some at \<Rightarrow> (take at name, drop (at + 1) name)
           | None \<Rightarrow> (name, []))
       in if base = [] \<or> length base > 8 \<or> length ext > 3 then Err BadName
          else if list_all ok_83 (map ascii_upper (base @ ext)) then
            Ok (map ascii_upper base @ replicate (8 - length base) 0x20 @
                map ascii_upper ext @ replicate (3 - length ext) 0x20)
          else Err BadName)"


section \<open>The boot sector\<close>

definition is_power_of_two :: "nat \<Rightarrow> bool" where
  "is_power_of_two n \<longleftrightarrow> list_ex (\<lambda>k. n = 2 ^ k) [0..<32]"

definition volume_parse :: "bytes \<Rightarrow> (volume, fat_error) result exec" where
  "volume_parse boot =
     (if boot ! 510 \<noteq> 0x55 \<or> boot ! 511 \<noteq> 0xAA then
        Some (Err (NotFat32 ''missing 0x55AA boot signature''))
      else if read_u16 boot 11 \<noteq> sector then
        Some (Err (NotFat32 ''bytes per sector is not 512''))
      else let spc = unat (boot ! 13) in
      if spc = 0 \<or> \<not> is_power_of_two spc then
        Some (Err (NotFat32 ''sectors per cluster is not a power of two''))
      else if read_u16 boot 17 \<noteq> 0 then
        Some (Err (NotFat32 ''root entry count is nonzero (FAT12/16 layout)''))
      else if read_u16 boot 22 \<noteq> 0 then
        Some (Err (NotFat32 ''16-bit FAT size is nonzero (FAT12/16 layout)''))
      else let fat_sz = read_u32 boot 36 in
      if fat_sz = 0 then Some (Err (NotFat32 ''32-bit FAT size is zero''))
      else let fats = unat (boot ! 16) in
      if fats = 0 \<or> fats > 2 then Some (Err (NotFat32 ''FAT count is not 1 or 2''))
      else let reserved = read_u16 boot 14 in
      if reserved = 0 then Some (Err (NotFat32 ''zero reserved sectors''))
      else let total = (if read_u16 boot 19 = 0 then read_u32 boot 32 else read_u16 boot 19) in
      do {
        fat_area \<leftarrow> times_exec 32 fats fat_sz;
        data_start \<leftarrow> plus_exec 32 reserved fat_area;
        (if total \<le> data_start then Some (Err (NotFat32 ''no data region after the FATs''))
         else do {
           let clusters = (total - data_start) div spc;
           entries \<leftarrow> plus_exec 32 clusters 2;
           room \<leftarrow> times_exec 32 fat_sz (sector div 4);
           (if entries > room then Some (Err (NotFat32 ''FAT too small for the data region''))
            else
              let root = fat32_mask (read_u32 boot 44) in
              if root < 2 \<or> root - 2 \<ge> clusters then Some (Err (NotFat32 ''root cluster out of range''))
              else Some (Ok \<lparr>sectors_per_cluster = spc, reserved_sectors = reserved, fat_count = fats,
                fat_sectors = fat_sz, root_cluster = root, total_sectors = total,
                cluster_count = clusters\<rparr>))
         })
      })"

definition volume_open :: "'e sector_read \<Rightarrow> (volume, 'e error) result exec" where
  "volume_open dev =
     (case dev 0 of
        Err e \<Rightarrow> Some (Err (Device e))
      | Ok boot \<Rightarrow> do {
          r \<leftarrow> volume_parse boot;
          (case r of Err e \<Rightarrow> Some (Err (Fat e)) | Ok v \<Rightarrow> Some (Ok v))
        })"

definition cluster_bytes :: "volume \<Rightarrow> nat" where
  "cluster_bytes v = sectors_per_cluster v * sector"

definition cluster_lba :: "volume \<Rightarrow> nat \<Rightarrow> nat exec" where
  "cluster_lba v cluster = do {
     fat_area \<leftarrow> times_exec 32 (fat_count v) (fat_sectors v);
     data_start \<leftarrow> plus_exec 32 (reserved_sectors v) fat_area;
     index \<leftarrow> minus_exec cluster 2;
     Some (data_start + index * sectors_per_cluster v)
   }"

definition valid_cluster :: "volume \<Rightarrow> nat \<Rightarrow> bool" where
  "valid_cluster v cluster \<longleftrightarrow> 2 \<le> cluster \<and> cluster - 2 < cluster_count v"


section \<open>The FAT and the root directory\<close>

definition fat_cache_new :: fat_cache where
  "fat_cache_new = \<lparr>cache_lba = None, cache_bytes = replicate sector 0\<rparr>"

definition fat_entry ::
  "volume \<Rightarrow> 'e sector_read \<Rightarrow> fat_cache \<Rightarrow> nat \<Rightarrow> (fat_cache \<times> nat, 'e error) result" where
  "fat_entry v dev cache cluster =
     (let entries_per_sector = sector div 4;
          lba = reserved_sectors v + cluster div entries_per_sector;
          loaded = (if cache_lba cache \<noteq> Some lba
                    then (case dev lba of
                            Err e \<Rightarrow> Err (Device e)
                          | Ok b \<Rightarrow> Ok \<lparr>cache_lba = Some lba, cache_bytes = b\<rparr>)
                    else Ok cache)
      in and_then loaded (\<lambda>cache.
           Ok (cache, fat32_mask (read_u32 (cache_bytes cache) (cluster mod entries_per_sector * 4)))))"

definition chunks_32 :: "bytes \<Rightarrow> bytes list" where
  "chunks_32 b = map (\<lambda>i. slice (i * dir_entry) dir_entry b) [0..<length b div dir_entry]"

text \<open>The entries of one directory sector; \<^term>\<open>None\<close> is \<open>continue\<close> past the last one.\<close>

fun scan_entries :: "bytes \<Rightarrow> bytes list \<Rightarrow> (root_file, fat_error) result option" where
  "scan_entries want [] = None"
| "scan_entries want (entry # rest) =
     (if entry ! 0 = 0x00 then Some (Err NotFound)
      else if entry ! 0 = 0xE5 then scan_entries want rest
      else let attr = entry ! 11 in
      if attr AND 0x0F = 0x0F then scan_entries want rest
      else if take 11 entry \<noteq> want then scan_entries want rest
      else if attr AND (0x10 OR 0x08) \<noteq> 0 then Some (Err NotAFile)
      else Some (Ok \<lparr>first_cluster = fat32_mask (read_u16 entry 20 * 2 ^ 16 + read_u16 entry 26),
                     file_size = read_u32 entry 28\<rparr>))"

fun scan_sectors ::
  "'e sector_read \<Rightarrow> bytes \<Rightarrow> nat list \<Rightarrow> (root_file, 'e error) result option" where
  "scan_sectors dev want [] = None"
| "scan_sectors dev want (lba # lbas) =
     (case dev lba of
        Err e \<Rightarrow> Some (Err (Device e))
      | Ok b \<Rightarrow>
          (case scan_entries want (chunks_32 b) of
             Some (Err e) \<Rightarrow> Some (Err (Fat e))
           | Some (Ok f) \<Rightarrow> Some (Ok f)
           | None \<Rightarrow> scan_sectors dev want lbas))"

text \<open>The outer loop: one round per cluster of the root directory, at most \<open>rounds\<close> of them.\<close>

fun root_loop ::
  "volume \<Rightarrow> 'e sector_read \<Rightarrow> bytes \<Rightarrow> nat \<Rightarrow> fat_cache \<Rightarrow> nat \<Rightarrow> (root_file, 'e error) result exec" where
  "root_loop v dev want 0 cache cluster = Some (Err (Fat ChainCycle))"
| "root_loop v dev want (Suc rounds) cache cluster = do {
     lba \<leftarrow> cluster_lba v cluster;
     (case scan_sectors dev want [lba..<lba + sectors_per_cluster v] of
        Some r \<Rightarrow> Some r
      | None \<Rightarrow>
          (case fat_entry v dev cache cluster of
             Err e \<Rightarrow> Some (Err e)
           | Ok (cache, next) \<Rightarrow>
               if next \<ge> fat32_eoc then Some (Err (Fat NotFound))
               else if next = 0 then Some (Err (Fat (FreeClusterInChain cluster)))
               else if next = fat32_bad \<or> \<not> valid_cluster v next
               then Some (Err (Fat (BadClusterInChain next)))
               else root_loop v dev want rounds cache next))
   }"

definition find_root_file :: "volume \<Rightarrow> 'e sector_read \<Rightarrow> bytes \<Rightarrow> (root_file, 'e error) result exec" where
  "find_root_file v dev name =
     (case name_to_83 name of
        Err e \<Rightarrow> Some (Err (Fat e))
      | Ok want \<Rightarrow> root_loop v dev want (Suc (cluster_count v)) fat_cache_new (root_cluster v))"


section \<open>The chain\<close>

function chain_loop ::
  "volume \<Rightarrow> 'e sector_read \<Rightarrow> fat_cache \<Rightarrow> nat \<Rightarrow> nat list \<Rightarrow> (nat list, 'e error) result" where
  "chain_loop v dev cache cluster chain =
     (let chain = chain @ [cluster] in
      if length chain > cluster_count v then Err (Fat ChainCycle)
      else (case fat_entry v dev cache cluster of
          Err e \<Rightarrow> Err e
        | Ok (cache, next) \<Rightarrow>
            if next \<ge> fat32_eoc then Ok chain
            else if next = 0 then Err (Fat (FreeClusterInChain cluster))
            else if next = fat32_bad \<or> \<not> valid_cluster v next then Err (Fat (BadClusterInChain next))
            else chain_loop v dev cache next chain))"
  by pat_completeness auto
termination
  by (relation "measure (\<lambda>(v, _, _, _, chain). Suc (cluster_count v) - length chain)") auto

definition chain_of :: "volume \<Rightarrow> 'e sector_read \<Rightarrow> root_file \<Rightarrow> (file_map, 'e error) result" where
  "chain_of v dev f =
     (let needed = div_ceil (file_size f) (cluster_bytes v) in
      if file_size f = 0 \<or> first_cluster f = 0 then
        (if file_size f = 0 \<and> first_cluster f = 0 then Ok \<lparr>map_size = 0, map_chain = []\<rparr>
         else Err (Fat (ChainSizeMismatch 0 (file_size f))))
      else if \<not> valid_cluster v (first_cluster f) then Err (Fat (BadClusterInChain (first_cluster f)))
      else and_then (chain_loop v dev fat_cache_new (first_cluster f) []) (\<lambda>chain.
        if length chain \<noteq> needed then Err (Fat (ChainSizeMismatch (length chain) (file_size f)))
        else Ok \<lparr>map_size = file_size f, map_chain = chain\<rparr>))"

definition locate :: "volume \<Rightarrow> 'e sector_read \<Rightarrow> bytes \<Rightarrow> (file_map, 'e error) result exec" where
  "locate v dev name = do {
     r \<leftarrow> find_root_file v dev name;
     (case r of Err e \<Rightarrow> Some (Err e) | Ok f \<Rightarrow> Some (chain_of v dev f))
   }"


section \<open>Runs and the write plan\<close>

definition add_sector :: "run list \<Rightarrow> nat \<Rightarrow> nat \<Rightarrow> run list" where
  "add_sector rs file_sector lba =
     (if rs \<noteq> [] \<and> run_lba (last rs) + run_sectors (last rs) = lba
      then butlast rs @ [(last rs)\<lparr>run_sectors := run_sectors (last rs) + 1\<rparr>]
      else rs @ [\<lparr>run_lba = lba, run_sectors = 1, file_offset = file_sector * sector\<rparr>])"

text \<open>The sector that holds sector \<open>file_sector\<close> of the file.\<close>

definition sector_lba :: "volume \<Rightarrow> file_map \<Rightarrow> nat \<Rightarrow> nat exec" where
  "sector_lba v m file_sector = do {
     let cluster_index = file_sector div sectors_per_cluster v;
     let within = file_sector mod sectors_per_cluster v;
     assert_exec (cluster_index < length (map_chain m));
     lba \<leftarrow> cluster_lba v (map_chain m ! cluster_index);
     Some (lba + within)
   }"

fun runs_loop :: "volume \<Rightarrow> file_map \<Rightarrow> run list \<Rightarrow> nat list \<Rightarrow> run list exec" where
  "runs_loop v m rs [] = Some rs"
| "runs_loop v m rs (s # ss) = do { lba \<leftarrow> sector_lba v m s; runs_loop v m (add_sector rs s lba) ss }"

definition runs :: "volume \<Rightarrow> file_map \<Rightarrow> nat \<Rightarrow> nat \<Rightarrow> (run list, fat_error) result exec" where
  "runs v m offset len =
     (case checked_add 64 offset len of
        None \<Rightarrow> Some (Err OutOfRange)
      | Some end_at \<Rightarrow>
          if len = 0 \<or> end_at > map_size m then Some (Err OutOfRange)
          else do {
            rs \<leftarrow> runs_loop v m [] [offset div sector..<Suc ((end_at - 1) div sector)];
            Some (Ok rs)
          })"

definition write_op_of :: "bytes \<Rightarrow> run \<Rightarrow> write_op exec" where
  "write_op_of data r = do {
     assert_exec (file_offset r + run_sectors r * sector \<le> length data);
     Some \<lparr>op_lba = run_lba r, op_data = slice (file_offset r) (run_sectors r * sector) data\<rparr>
   }"

fun plan_ops :: "bytes \<Rightarrow> run list \<Rightarrow> write_op list exec" where
  "plan_ops data [] = Some []"
| "plan_ops data (r # rs) = do { op \<leftarrow> write_op_of data r; ops \<leftarrow> plan_ops data rs; Some (op # ops) }"

definition write_plan :: "volume \<Rightarrow> file_map \<Rightarrow> bytes \<Rightarrow> (write_op list, fat_error) result exec" where
  "write_plan v m data =
     (if length data \<noteq> map_size m then Some (Err (SizeMismatch (length data) (map_size m)))
      else if map_size m mod sector \<noteq> 0 then Some (Err (UnalignedSize (map_size m)))
      else do {
        r \<leftarrow> runs v m 0 (map_size m);
        (case r of
           Err e \<Rightarrow> Some (Err e)
         | Ok rs \<Rightarrow> do { ops \<leftarrow> plan_ops data rs; Some (Ok ops) })
      })"

declare chain_loop.simps [simp del]


section \<open>Geometry\<close>

definition data_start :: "volume \<Rightarrow> nat" where
  "data_start v = reserved_sectors v + fat_count v * fat_sectors v"

definition volume_inv :: "volume \<Rightarrow> bool" where
  "volume_inv v \<longleftrightarrow> 0 < sectors_per_cluster v \<and> sectors_per_cluster v < 256 \<and>
     0 < reserved_sectors v \<and> 0 < fat_count v \<and> fat_count v * fat_sectors v < 2 ^ 32 \<and>
     data_start v < total_sectors v \<and> total_sectors v < 2 ^ 32 \<and>
     cluster_count v = (total_sectors v - data_start v) div sectors_per_cluster v \<and>
     cluster_count v + 2 \<le> fat_sectors v * (sector div 4) \<and> valid_cluster v (root_cluster v)"

lemma read_bounds:
  "length b = 512 \<Longrightarrow> at + 2 \<le> 512 \<Longrightarrow> read_u16 b at < 2 ^ 16"
  "length b = 512 \<Longrightarrow> at + 4 \<le> 512 \<Longrightarrow> read_u32 b at < 2 ^ 32"
  by (simp_all add: read_u16_def read_u32_def del: power_numeral)

lemma volume_parse_inv:
  assumes "volume_parse boot = Some (Ok v)" and len: "length boot = sector"
  shows "volume_inv v"
proof -
  have total: "(if read_u16 boot 19 = 0 then read_u32 boot 32 else read_u16 boot 19) < 2 ^ 32"
    using read_bounds(1) [of boot 19] read_bounds(2) [of boot 32] len by (simp add: sector_def)
  have byte: "unat (boot ! 13) < 256" by simp
  show ?thesis
    using assms(1) total byte
    by (auto simp: volume_parse_def Let_def bind_eq_Some_conv volume_inv_def data_start_def valid_cluster_def
        split: if_splits)
qed

lemma volume_parse_returns:
  assumes "2 * read_u32 boot 36 + 2 ^ 16 < 2 ^ 32" and "read_u32 boot 36 * 128 < 2 ^ 32"
    and len: "length boot = sector"
  shows "volume_parse boot \<noteq> None"
proof -
  let ?fats = "unat (boot ! 16)" and ?fat = "read_u32 boot 36" and ?res = "read_u16 boot 14"
  let ?total = "if read_u16 boot 19 = 0 then read_u32 boot 32 else read_u16 boot 19"
  have res: "?res < 2 ^ 16" using read_bounds(1) [of boot 14] len by (simp add: sector_def)
  have total: "?total < 2 ^ 32"
    using read_bounds(1) [of boot 19] read_bounds(2) [of boot 32] len by (simp add: sector_def)
  have area: "?res + ?fats * ?fat < 2 ^ 32" if "?fats \<le> 2"
  proof -
    have "?fats * ?fat \<le> 2 * ?fat" using that by (rule mult_le_mono1)
    with assms(1) res show ?thesis by linarith
  qed
  have entries: "(?total - (?res + ?fats * ?fat)) div spc + 2 < 2 ^ 32" if "?res \<noteq> 0" "?fats \<noteq> 0" "?fat \<noteq> 0" for spc
  proof -
    have "1 * 1 \<le> ?fats * ?fat" using that by (intro mult_le_mono) auto
    then have "2 \<le> ?res + ?fats * ?fat" using that by linarith
    moreover have "(?total - (?res + ?fats * ?fat)) div spc \<le> ?total - (?res + ?fats * ?fat)" by simp
    moreover have "q + 2 < 2 ^ 32" if "2 \<le> x" "q \<le> t - x" "t < 2 ^ 32" for q x t :: nat
      using that by simp
    ultimately show ?thesis using total by blast
  qed
  show ?thesis
    using assms area entries
    by (auto simp: volume_parse_def Let_def sector_def times_exec_def plus_exec_def)
qed

lemma cluster_lba_eq:
  assumes "volume_inv v" and "2 \<le> c"
  shows "cluster_lba v c = Some (data_start v + (c - 2) * sectors_per_cluster v)"
proof -
  have "fat_count v * fat_sectors v < 2 ^ 32" "data_start v < 2 ^ 32"
    using assms by (auto simp: volume_inv_def)
  with assms(2) show ?thesis
    by (simp add: cluster_lba_def data_start_def times_exec_def plus_exec_def minus_exec_def)
qed

text \<open>A valid cluster lies wholly inside the data region, and its FAT entry in the first FAT.\<close>

lemma cluster_in_data:
  assumes inv: "volume_inv v" and c: "valid_cluster v c"
  shows "data_start v + (c - 2) * sectors_per_cluster v + sectors_per_cluster v \<le> total_sectors v"
proof -
  have "Suc (c - 2) * sectors_per_cluster v \<le> cluster_count v * sectors_per_cluster v"
    using c by (intro mult_le_mono1) (simp add: valid_cluster_def)
  also have "\<dots> \<le> total_sectors v - data_start v"
    using inv by (simp add: volume_inv_def)
  finally have "Suc (c - 2) * sectors_per_cluster v \<le> total_sectors v - data_start v" .
  moreover have "data_start v < total_sectors v" using inv by (simp add: volume_inv_def)
  ultimately show ?thesis by simp
qed

lemma fat_sector_in_fat:
  assumes inv: "volume_inv v" and c: "valid_cluster v c"
  shows "reserved_sectors v + c div 128 < data_start v"
proof -
  have "c < fat_sectors v * 128"
  proof -
    have "c - 2 < cluster_count v" and "cluster_count v + 2 \<le> fat_sectors v * 128"
      using inv c by (simp_all add: volume_inv_def valid_cluster_def sector_def)
    then show ?thesis by linarith
  qed
  then have "c div 128 < fat_sectors v" by (simp add: div_less_iff_less_mult)
  also have "\<dots> \<le> fat_count v * fat_sectors v"
    using inv by (simp add: volume_inv_def)
  finally show ?thesis by (simp add: data_start_def)
qed


section \<open>The cached FAT is the FAT\<close>

definition fat_next :: "volume \<Rightarrow> 'e sector_read \<Rightarrow> nat \<Rightarrow> (nat, 'e error) result" where
  "fat_next v dev c =
     (case dev (reserved_sectors v + c div 128) of
        Err e \<Rightarrow> Err (Device e)
      | Ok b \<Rightarrow> Ok (fat32_mask (read_u32 b (c mod 128 * 4))))"

definition cache_ok :: "'e sector_read \<Rightarrow> fat_cache \<Rightarrow> bool" where
  "cache_ok dev cache \<longleftrightarrow> (\<forall>lba. cache_lba cache = Some lba \<longrightarrow> dev lba = Ok (cache_bytes cache))"

lemma cache_ok_new [simp]: "cache_ok dev fat_cache_new"
  by (simp add: cache_ok_def fat_cache_new_def)

lemma fat_entry_cached:
  assumes "cache_ok dev cache"
  shows "(\<exists>cache' n. fat_entry v dev cache c = Ok (cache', n) \<and> fat_next v dev c = Ok n \<and> cache_ok dev cache') \<or>
     (\<exists>e. fat_entry v dev cache c = Err e \<and> fat_next v dev c = Err e)"
  using assms
  by (cases "dev (reserved_sectors v + c div 128)")
    (auto simp: fat_entry_def fat_next_def cache_ok_def sector_def Let_def)


section \<open>Chains\<close>

text \<open>A complete chain of the FAT: each cluster names the next, and the last one ends it.\<close>

fun linked :: "volume \<Rightarrow> 'e sector_read \<Rightarrow> nat list \<Rightarrow> bool" where
  "linked v dev [] = False"
| "linked v dev [c] \<longleftrightarrow> (\<exists>n. fat_next v dev c = Ok n \<and> fat32_eoc \<le> n)"
| "linked v dev (c # d # cs) \<longleftrightarrow> fat_next v dev c = Ok d \<and> d < fat32_eoc \<and> d \<noteq> fat32_bad \<and>
     linked v dev (d # cs)"

lemma linked_unique: "linked v dev (c # xs) \<Longrightarrow> linked v dev (c # ys) \<Longrightarrow> xs = ys"
proof (induction xs arbitrary: c ys)
  case Nil
  then show ?case by (cases ys) auto
next
  case (Cons d xs)
  from Cons.prems obtain ys' where "ys = d # ys'" by (cases ys) auto
  with Cons show ?case by auto
qed

lemma linked_suffix: "linked v dev (xs @ c # ys) \<Longrightarrow> linked v dev (c # ys)"
  by (induction xs rule: induct_list012) (auto elim: linked.elims)

lemma linked_Cons: "linked v dev (c # d # cs) \<Longrightarrow> linked v dev (d # cs)"
  by simp

lemma linked_distinct: "linked v dev chain \<Longrightarrow> distinct chain"
proof (induction chain rule: induct_list012)
  case (3 c d cs)
  then have tail: "distinct (d # cs)" by simp
  have "c \<notin> set (d # cs)"
  proof
    assume "c \<in> set (d # cs)"
    then obtain xs ys where split: "d # cs = xs @ c # ys" by (metis split_list)
    from 3(3) have "linked v dev (d # cs)" by simp
    then have "linked v dev (xs @ c # ys)" unfolding split .
    then have "linked v dev (c # ys)" by (rule linked_suffix)
    with 3(3) have "d # cs = ys" by (rule linked_unique)
    with split show False by simp
  qed
  with tail show ?case by simp
qed auto

lemma chain_loop_Ok:
  assumes "chain_loop v dev cache c pre = Ok chain" and "cache_ok dev cache" and "valid_cluster v c"
  shows "\<exists>cs. chain = pre @ c # cs \<and> linked v dev (c # cs) \<and> (\<forall>x \<in> set (c # cs). valid_cluster v x)"
  using assms
proof (induction v dev cache c pre rule: chain_loop.induct)
  case (1 v dev cache c pre)
  have short: "\<not> length (pre @ [c]) > cluster_count v"
    using 1(2) by (subst (asm) chain_loop.simps) (auto simp: Let_def split: if_splits)
  obtain cache' n where entry: "fat_entry v dev cache c = Ok (cache', n)"
    and n: "fat_next v dev c = Ok n" and ok: "cache_ok dev cache'"
    using fat_entry_cached [OF 1(3), of v c] 1(2) short
    by (subst (asm) chain_loop.simps) (auto simp: Let_def)
  show ?case
  proof (cases "fat32_eoc \<le> n")
    case True
    then have "chain = pre @ [c]"
      using 1(2) short entry by (subst (asm) chain_loop.simps) (simp add: Let_def)
    with True n 1(4) show ?thesis by auto
  next
    case False
    then have next_ok: "n \<noteq> 0" "n \<noteq> fat32_bad" "valid_cluster v n"
      and rec: "chain_loop v dev cache' n (pre @ [c]) = Ok chain"
      using 1(2) short entry by (subst (asm) (1) chain_loop.simps, auto simp: Let_def split: if_splits)+
    from 1(1) [OF refl short entry refl False, simplified] next_ok rec ok obtain cs where
      "chain = pre @ c # n # cs" "linked v dev (n # cs)" "\<forall>x \<in> set (n # cs). valid_cluster v x"
      by auto
    with False n 1(4) next_ok show ?thesis by (intro exI [of _ "n # cs"]) auto
  qed
qed

lemma chain_loop_complete:
  assumes "linked v dev (c # cs)" and "cache_ok dev cache" and "\<forall>x \<in> set (c # cs). valid_cluster v x"
    and "length (pre @ c # cs) \<le> cluster_count v"
  shows "chain_loop v dev cache c pre = Ok (pre @ c # cs)"
  using assms
proof (induction cs arbitrary: c cache pre)
  case Nil
  then obtain n where "fat_next v dev c = Ok n" "fat32_eoc \<le> n" by auto
  with fat_entry_cached [OF Nil.prems(2), of v c] obtain cache' where
    "fat_entry v dev cache c = Ok (cache', n)" by auto
  with Nil.prems(4) \<open>fat32_eoc \<le> n\<close> show ?case by (subst chain_loop.simps) (simp add: Let_def)
next
  case (Cons d cs)
  with fat_entry_cached [OF Cons.prems(2), of v c] obtain cache' where
    entry: "fat_entry v dev cache c = Ok (cache', d)" "cache_ok dev cache'" by auto
  have "d \<noteq> 0" using Cons.prems(3) by (auto simp: valid_cluster_def)
  with Cons.prems entry have "chain_loop v dev cache c pre = chain_loop v dev cache' d (pre @ [c])"
    by (subst chain_loop.simps) (simp add: Let_def)
  also have "\<dots> = Ok (pre @ c # d # cs)"
    using Cons.IH [of d cache' "pre @ [c]"] Cons.prems entry by simp
  finally show ?case .
qed

text \<open>What a located file's map guarantees.\<close>

definition map_ok :: "volume \<Rightarrow> file_map \<Rightarrow> bool" where
  "map_ok v m \<longleftrightarrow> length (map_chain m) = div_ceil (map_size m) (cluster_bytes v) \<and>
     distinct (map_chain m) \<and> (\<forall>c \<in> set (map_chain m). valid_cluster v c)"

lemma chain_of_Ok:
  assumes "chain_of v dev f = Ok m" and inv: "volume_inv v"
  shows "map_ok v m \<and> map_size m = file_size f \<and>
     (if file_size f = 0 then map_chain m = [] else linked v dev (map_chain m) \<and> hd (map_chain m) = first_cluster f)"
proof (cases "file_size f = 0 \<or> first_cluster f = 0")
  case True
  have "0 < cluster_bytes v" using inv by (simp add: volume_inv_def cluster_bytes_def sector_def)
  with True assms(1) show ?thesis
    by (auto simp: chain_of_def Let_def map_ok_def split: if_splits)
next
  case False
  with assms(1) have valid: "valid_cluster v (first_cluster f)"
    by (auto simp: chain_of_def Let_def split: if_splits)
  with False assms(1) obtain chain where
    loop: "chain_loop v dev fat_cache_new (first_cluster f) [] = Ok chain"
    and m: "length chain = div_ceil (file_size f) (cluster_bytes v)" "m = \<lparr>map_size = file_size f, map_chain = chain\<rparr>"
    by (auto simp: chain_of_def Let_def and_then_Ok split: if_splits)
  from chain_loop_Ok [OF loop cache_ok_new valid] obtain cs where
    "chain = first_cluster f # cs" "linked v dev chain" "\<forall>x \<in> set chain. valid_cluster v x" by auto
  with m False linked_distinct [of v dev chain] show ?thesis by (simp add: map_ok_def)
qed


lemma valid_clusters_bounded:
  assumes "distinct cs" and "\<forall>c \<in> set cs. valid_cluster v c"
  shows "length cs \<le> cluster_count v"
proof -
  have "set cs \<subseteq> {2..<2 + cluster_count v}"
    using assms(2) by (auto simp: valid_cluster_def)
  then have "card (set cs) \<le> card {2..<2 + cluster_count v}" by (rule card_mono [rotated]) simp
  with assms(1) show ?thesis by (simp add: distinct_card)
qed

lemma chain_of_complete:
  assumes "linked v dev (first_cluster f # cs)" and "\<forall>x \<in> set (first_cluster f # cs). valid_cluster v x"
    and "0 < file_size f" and "Suc (length cs) = div_ceil (file_size f) (cluster_bytes v)"
  shows "chain_of v dev f = Ok \<lparr>map_size = file_size f, map_chain = first_cluster f # cs\<rparr>"
proof -
  have "length (first_cluster f # cs) \<le> cluster_count v"
    by (rule valid_clusters_bounded [OF linked_distinct [OF assms(1)] assms(2)])
  then have "chain_loop v dev fat_cache_new (first_cluster f) [] = Ok (first_cluster f # cs)"
    using chain_loop_complete [OF assms(1) cache_ok_new assms(2), of "[]"] by simp
  moreover have "first_cluster f \<noteq> 0" "valid_cluster v (first_cluster f)"
    using assms(2) by (auto simp: valid_cluster_def)
  ultimately show ?thesis using assms(3,4) by (simp add: chain_of_def Let_def)
qed


section \<open>Runs\<close>

text \<open>The sector of the device that holds sector \<open>s\<close> of the file, read off the chain.\<close>

definition file_sector_lba :: "volume \<Rightarrow> file_map \<Rightarrow> nat \<Rightarrow> nat" where
  "file_sector_lba v m s = data_start v +
     (map_chain m ! (s div sectors_per_cluster v) - 2) * sectors_per_cluster v + s mod sectors_per_cluster v"

definition in_file :: "volume \<Rightarrow> file_map \<Rightarrow> nat \<Rightarrow> bool" where
  "in_file v m s \<longleftrightarrow> s div sectors_per_cluster v < length (map_chain m)"

lemma in_file_sector:
  assumes inv: "volume_inv v" and ok: "map_ok v m" and "s * sector < map_size m"
  shows "in_file v m s"
proof -
  have pos: "0 < cluster_bytes v" and spc: "0 < sectors_per_cluster v"
    using inv by (simp_all add: volume_inv_def cluster_bytes_def sector_def)
  have "map_size m \<le> length (map_chain m) * cluster_bytes v"
    using ok div_ceil_bounds(1) [OF pos, of "map_size m"] by (simp add: map_ok_def)
  with assms(3) have "s * sector < (length (map_chain m) * sectors_per_cluster v) * sector"
    unfolding cluster_bytes_def mult.assoc by (rule less_le_trans)
  then have "s < length (map_chain m) * sectors_per_cluster v"
    using mult_less_cancel2 by blast
  with spc show ?thesis by (simp add: in_file_def div_less_iff_less_mult)
qed

lemma sector_lba_eq:
  assumes inv: "volume_inv v" and ok: "map_ok v m" and s: "in_file v m s"
  shows "sector_lba v m s = Some (file_sector_lba v m s)"
proof -
  have "valid_cluster v (map_chain m ! (s div sectors_per_cluster v))"
    using ok s by (simp add: map_ok_def in_file_def)
  then have "2 \<le> map_chain m ! (s div sectors_per_cluster v)" by (simp add: valid_cluster_def)
  with s show ?thesis
    by (simp add: sector_lba_def file_sector_lba_def in_file_def cluster_lba_eq [OF inv])
qed

lemma file_sector_in_data:
  assumes inv: "volume_inv v" and ok: "map_ok v m" and s: "in_file v m s"
  shows "data_start v \<le> file_sector_lba v m s" and "file_sector_lba v m s < total_sectors v"
proof -
  have "valid_cluster v (map_chain m ! (s div sectors_per_cluster v))"
    using ok s by (simp add: map_ok_def in_file_def)
  from cluster_in_data [OF inv this] have
    "data_start v + (map_chain m ! (s div sectors_per_cluster v) - 2) * sectors_per_cluster v + sectors_per_cluster v
       \<le> total_sectors v" .
  moreover have "s mod sectors_per_cluster v < sectors_per_cluster v"
    using inv by (simp add: volume_inv_def)
  ultimately show "file_sector_lba v m s < total_sectors v" by (simp add: file_sector_lba_def)
  show "data_start v \<le> file_sector_lba v m s" by (simp add: file_sector_lba_def)
qed

text \<open>Distinct sectors of the file live in distinct sectors of the device.\<close>

lemma file_sector_inj:
  assumes inv: "volume_inv v" and ok: "map_ok v m" and s: "in_file v m s" and t: "in_file v m t"
    and eq: "file_sector_lba v m s = file_sector_lba v m t"
  shows "s = t"
proof -
  let ?k = "sectors_per_cluster v" and ?c = "\<lambda>s. map_chain m ! (s div sectors_per_cluster v)"
  have k: "0 < ?k" using inv by (simp add: volume_inv_def)
  have "(?c s - 2) * ?k + s mod ?k = (?c t - 2) * ?k + t mod ?k"
    using eq by (simp add: file_sector_lba_def)
  then have "((?c s - 2) * ?k + s mod ?k) div ?k = ((?c t - 2) * ?k + t mod ?k) div ?k"
    and "((?c s - 2) * ?k + s mod ?k) mod ?k = ((?c t - 2) * ?k + t mod ?k) mod ?k" by simp_all
  then have "?c s - 2 = ?c t - 2" and mods: "s mod ?k = t mod ?k" using k by simp_all
  moreover have "valid_cluster v (?c s)" "valid_cluster v (?c t)"
    using ok s t by (simp_all add: map_ok_def in_file_def)
  ultimately have "?c s = ?c t" unfolding valid_cluster_def by linarith
  then have "s div ?k = t div ?k"
    using ok s t by (simp add: map_ok_def in_file_def nth_eq_iff_index_eq)
  with mods show ?thesis by (metis div_mult_mod_eq)
qed

text \<open>A run stands for its list of (file sector, device sector) pairs.\<close>

definition expand :: "run \<Rightarrow> (nat \<times> nat) list" where
  "expand r = map (\<lambda>i. (file_offset r div sector + i, run_lba r + i)) [0..<run_sectors r]"

definition expand_all :: "run list \<Rightarrow> (nat \<times> nat) list" where
  "expand_all rs = concat (map expand rs)"

definition runs_good :: "run list \<Rightarrow> bool" where
  "runs_good rs \<longleftrightarrow> (\<forall>r \<in> set rs. 0 < run_sectors r \<and> sector dvd file_offset r) \<and>
     successively (\<lambda>r q. run_lba r + run_sectors r \<noteq> run_lba q) rs"

definition runs_upto :: "run list \<Rightarrow> nat \<Rightarrow> bool" where
  "runs_upto rs s \<longleftrightarrow> rs = [] \<or> file_offset (last rs) div sector + run_sectors (last rs) = s"

lemma sector_pos [simp]: "0 < sector"
  by (simp add: sector_def)

lemma expand_grow:
  "expand (r\<lparr>run_sectors := run_sectors r + 1\<rparr>) =
     expand r @ [(file_offset r div sector + run_sectors r, run_lba r + run_sectors r)]"
  by (simp add: expand_def)

lemma expand_one: "expand \<lparr>run_lba = l, run_sectors = 1, file_offset = s * sector\<rparr> = [(s, l)]"
  by (simp add: expand_def)

lemma add_sector_good:
  assumes "runs_upto rs s" and "runs_good rs"
  shows "expand_all (add_sector rs s lba) = expand_all rs @ [(s, lba)]"
    and "runs_upto (add_sector rs s lba) (Suc s)" and "runs_good (add_sector rs s lba)"
proof -
  have "expand_all (add_sector rs s lba) = expand_all rs @ [(s, lba)] \<and>
      runs_upto (add_sector rs s lba) (Suc s) \<and> runs_good (add_sector rs s lba)"
  proof (cases "rs \<noteq> [] \<and> run_lba (last rs) + run_sectors (last rs) = lba")
    case True
    then obtain bs r where rs: "rs = bs @ [r]" by (metis append_butlast_last_id)
    with True assms show ?thesis
      unfolding rs
      by (auto simp: add_sector_def expand_all_def runs_upto_def runs_good_def expand_grow [simplified]
          successively_append_iff)
  next
    case False
    with assms show ?thesis
      by (auto simp: add_sector_def expand_all_def runs_upto_def runs_good_def expand_one [simplified]
          successively_append_iff)
  qed
  then show "expand_all (add_sector rs s lba) = expand_all rs @ [(s, lba)]"
    and "runs_upto (add_sector rs s lba) (Suc s)" and "runs_good (add_sector rs s lba)" by blast+
qed

lemma runs_loop_returns:
  assumes inv: "volume_inv v" and ok: "map_ok v m"
    and "runs_upto rs a" and "runs_good rs" and "\<And>s. a \<le> s \<Longrightarrow> s < b \<Longrightarrow> in_file v m s" and "a \<le> b"
  shows "\<exists>rs'. runs_loop v m rs [a..<b] = Some rs' \<and> runs_good rs' \<and>
     expand_all rs' = expand_all rs @ map (\<lambda>s. (s, file_sector_lba v m s)) [a..<b]"
  using assms(3-6)
proof (induction "b - a" arbitrary: a rs)
  case 0
  then show ?case by simp
next
  case (Suc n)
  then have upt: "[a..<b] = a # [Suc a..<b]" by (intro upt_conv_Cons) simp
  have lba: "sector_lba v m a = Some (file_sector_lba v m a)"
    using Suc by (intro sector_lba_eq [OF inv ok]) simp
  let ?rs = "add_sector rs a (file_sector_lba v m a)"
  note grown = add_sector_good [OF Suc.prems(1,2), of "file_sector_lba v m a"]
  have "\<exists>rs'. runs_loop v m ?rs [Suc a..<b] = Some rs' \<and> runs_good rs' \<and>
      expand_all rs' = expand_all ?rs @ map (\<lambda>s. (s, file_sector_lba v m s)) [Suc a..<b]"
    using Suc.prems Suc.hyps(2) by (intro Suc.hyps(1) grown) auto
  with lba grown(1) show ?case by (simp add: upt)
qed

lemma last_sector: "0 < (n::nat) \<Longrightarrow> s \<le> (n - 1) div sector \<Longrightarrow> s * sector < n"
proof -
  assume "0 < n" and "s \<le> (n - 1) div sector"
  then have "s * sector \<le> (n - 1) div sector * sector" by simp
  also have "\<dots> \<le> n - 1" by simp
  finally show ?thesis using \<open>0 < n\<close> by linarith
qed

lemma sector_in_size: "s < n div sector \<Longrightarrow> s * sector < n"
proof -
  assume "s < n div sector"
  then have "Suc s * sector \<le> n div sector * sector" by (intro mult_le_mono1) simp
  also have "\<dots> \<le> n" by simp
  finally show ?thesis by (simp add: sector_def)
qed

lemma runs_returns:
  assumes inv: "volume_inv v" and ok: "map_ok v m"
    and "0 < len" and "offset + len \<le> map_size m" and "map_size m < 2 ^ 32"
  shows "\<exists>rs. runs v m offset len = Some (Ok rs) \<and> runs_good rs \<and>
     expand_all rs = map (\<lambda>s. (s, file_sector_lba v m s))
       [offset div sector..<Suc ((offset + len - 1) div sector)]"
proof -
  let ?a = "offset div sector" and ?b = "Suc ((offset + len - 1) div sector)"
  have files: "in_file v m s" if "?a \<le> s" "s < ?b" for s
    using that assms(3,4) last_sector [of "offset + len" s]
    by (intro in_file_sector [OF inv ok]) auto
  have le: "?a \<le> ?b"
    using assms(3) by (intro le_SucI div_le_mono) simp
  have start: "runs_upto [] ?a" "runs_good []"
    by (simp_all add: runs_upto_def runs_good_def)
  from runs_loop_returns [OF inv ok start files le] obtain rs where
    "runs_loop v m [] [?a..<?b] = Some rs" "runs_good rs"
    "expand_all rs = map (\<lambda>s. (s, file_sector_lba v m s)) [?a..<?b]"
    by (auto simp: expand_all_def simp del: upt_Suc)
  moreover have "offset + len < 2 ^ 64" using assms(4,5) by simp
  ultimately show ?thesis
    using assms(3,4) by (simp add: runs_def checked_add_def del: upt_Suc)
qed


section \<open>The plan\<close>

text \<open>Performing a plan on the sectors of a device.\<close>

definition op_sectors :: "write_op \<Rightarrow> (nat \<times> bytes) list" where
  "op_sectors op = map (\<lambda>i. (op_lba op + i, slice (i * sector) sector (op_data op)))
     [0..<length (op_data op) div sector]"

definition put_sector :: "(nat \<Rightarrow> bytes) \<Rightarrow> nat \<times> bytes \<Rightarrow> nat \<Rightarrow> bytes" where
  "put_sector img p = img(fst p := snd p)"

definition perform :: "(nat \<Rightarrow> bytes) \<Rightarrow> write_op list \<Rightarrow> nat \<Rightarrow> bytes" where
  "perform img ops = foldl put_sector img (concat (map op_sectors ops))"

lemma foldl_update_other:
  "l \<notin> fst ` set xs \<Longrightarrow> foldl put_sector img xs l = img l"
  by (induction xs arbitrary: img) (auto simp: put_sector_def)

lemma foldl_update_at:
  "distinct (map fst xs) \<Longrightarrow> (l, b) \<in> set xs \<Longrightarrow> foldl put_sector img xs l = b"
proof (induction xs arbitrary: img)
  case (Cons x xs)
  show ?case
  proof (cases "x = (l, b)")
    case True
    with Cons.prems(1) have "l \<notin> fst ` set xs" by auto
    then have "foldl put_sector img (x # xs) l = put_sector img x l"
      by (simp add: foldl_update_other)
    also have "put_sector img x l = b" using True by (simp add: put_sector_def)
    finally show ?thesis .
  qed (use Cons in auto)
qed simp

lemma op_sectors_of_run:
  assumes "write_op_of data r = Some op" and "sector dvd file_offset r"
  shows "op_sectors op = map (\<lambda>(s, l). (l, slice (s * sector) sector data)) (expand r)"
proof -
  have op: "op = \<lparr>op_lba = run_lba r, op_data = slice (file_offset r) (run_sectors r * sector) data\<rparr>"
    and fits: "file_offset r + run_sectors r * sector \<le> length data"
    using assms(1) by (auto simp: write_op_of_def bind_eq_Some_conv)
  have "slice (i * sector) sector (slice (file_offset r) (run_sectors r * sector) data) =
      slice ((file_offset r div sector + i) * sector) sector data" if "i < run_sectors r" for i
  proof -
    have "Suc i * sector \<le> run_sectors r * sector" using that by (intro mult_le_mono1) simp
    then have "slice (i * sector) sector (slice (file_offset r) (run_sectors r * sector) data) =
        slice (file_offset r + i * sector) sector data"
      by (intro slice_slice) simp
    also have "file_offset r + i * sector = (file_offset r div sector + i) * sector"
      using assms(2) by (simp add: add_mult_distrib)
    finally show ?thesis .
  qed
  with fits show ?thesis by (simp add: op op_sectors_def expand_def)
qed

lemma plan_ops_returns:
  assumes "\<forall>r \<in> set rs. 0 < run_sectors r \<and> sector dvd file_offset r"
    and "\<forall>(s, l) \<in> set (expand_all rs). Suc s * sector \<le> length data"
  shows "\<exists>ops. plan_ops data rs = Some ops \<and>
     concat (map op_sectors ops) = map (\<lambda>(s, l). (l, slice (s * sector) sector data)) (expand_all rs)"
  using assms
proof (induction rs)
  case Nil
  then show ?case by (simp add: expand_all_def)
next
  case (Cons r rs)
  have tail: "\<forall>(s, l) \<in> set (expand_all rs). Suc s * sector \<le> length data"
    using Cons.prems(2) by (simp add: expand_all_def ball_Un)
  have r: "0 < run_sectors r" "sector dvd file_offset r" using Cons.prems(1) by auto
  let ?last = "file_offset r div sector + (run_sectors r - 1)"
  have "(?last, run_lba r + (run_sectors r - 1)) \<in> set (expand r)"
    unfolding expand_def set_map set_upt
    using r(1) by (intro image_eqI [of _ _ "run_sectors r - 1"]) auto
  then have "Suc ?last * sector \<le> length data"
    using Cons.prems(2) unfolding expand_all_def by fastforce
  moreover have "Suc ?last * sector = file_offset r + run_sectors r * sector"
  proof -
    have "Suc ?last = file_offset r div sector + run_sectors r" using r(1) by simp
    with r(2) show ?thesis by (simp add: add_mult_distrib del: add_Suc_right)
  qed
  ultimately obtain op where op: "write_op_of data r = Some op"
    by (simp add: write_op_of_def)
  from Cons.IH Cons.prems(1) tail obtain ops where "plan_ops data rs = Some ops"
    "concat (map op_sectors ops) = map (\<lambda>(s, l). (l, slice (s * sector) sector data)) (expand_all rs)"
    by auto
  with op op_sectors_of_run [OF op r(2)] show ?case by (simp add: expand_all_def)
qed

lemma concat_sectors:
  "length data = n * sector \<Longrightarrow> concat (map (\<lambda>s. slice (s * sector) sector data) [0..<n]) = data"
proof (induction n arbitrary: data)
  case (Suc n)
  have "slice (s * sector) sector data = slice (s * sector) sector (take (n * sector) data)" if "s < n" for s
  proof -
    have "Suc s * sector \<le> n * sector" using that by (intro mult_le_mono1) simp
    then show ?thesis by (simp add: slice_def drop_take min_def)
  qed
  then have "map (\<lambda>s. slice (s * sector) sector data) [0..<n] =
      map (\<lambda>s. slice (s * sector) sector (take (n * sector) data)) [0..<n]"
    by simp
  moreover have "concat (map (\<lambda>s. slice (s * sector) sector (take (n * sector) data)) [0..<n]) = take (n * sector) data"
    using Suc by (intro Suc.IH) simp
  moreover have "slice (n * sector) sector data = drop (n * sector) data"
    using Suc.prems by (simp add: slice_def)
  ultimately show ?case by (simp del: map_eq_conv)
qed simp


section \<open>Properties\<close>

definition file_lbas :: "volume \<Rightarrow> file_map \<Rightarrow> nat list" where
  "file_lbas v m = map (file_sector_lba v m) [0..<map_size m div sector]"

lemma write_plan_returns:
  assumes inv: "volume_inv v" and ok: "map_ok v m" and "0 < map_size m" and small: "map_size m < 2 ^ 32"
    and len: "length data = map_size m" and aligned: "map_size m mod sector = 0"
  shows "\<exists>ops. write_plan v m data = Some (Ok ops) \<and>
     concat (map op_sectors ops) =
       map (\<lambda>s. (file_sector_lba v m s, slice (s * sector) sector data)) [0..<map_size m div sector]"
proof -
  let ?n = "map_size m div sector"
  have n: "map_size m = ?n * sector" using aligned by (metis add.right_neutral div_mult_mod_eq)
  have last: "Suc ((map_size m - 1) div sector) = ?n"
    using \<open>0 < map_size m\<close> n
    by (metis Suc_diff_1 add_diff_cancel_right' diff_Suc_1 div_mult_self1_is_m minus_mod_self2 mod_Suc
        aligned div_Suc)
  have upt: "[0 div sector..<Suc ((0 + map_size m - 1) div sector)] = [0..<?n]"
    using last by (simp del: upt_Suc)
  from runs_returns [OF inv ok \<open>0 < map_size m\<close> _ small, of 0, unfolded upt] obtain rs where
    runs: "runs v m 0 (map_size m) = Some (Ok rs)" and good: "runs_good rs"
    and ex: "expand_all rs = map (\<lambda>s. (s, file_sector_lba v m s)) [0..<?n]"
    by auto
  have "Suc s * sector \<le> length data" if "s < ?n" for s
    using that len n by (metis Suc_leI mult_le_mono1)
  with ex have "\<forall>(s, l) \<in> set (expand_all rs). Suc s * sector \<le> length data" by auto
  with good plan_ops_returns [of rs data] obtain ops where "plan_ops data rs = Some ops"
    "concat (map op_sectors ops) = map (\<lambda>(s, l). (l, slice (s * sector) sector data)) (expand_all rs)"
    by (auto simp: runs_good_def)
  with runs len aligned ex show ?thesis by (simp add: write_plan_def)
qed

text \<open>
  C17: flashing a file in place. For a volume accepted at open and a file located through its FAT,
  a plan for new content of the file's own size exists; performing it makes the file read back as
  exactly that content; and it writes only sectors of the file itself, all of them in the data
  region, so neither the boot sector nor a FAT nor any other file's sectors change.
\<close>

theorem write_plan_overwrites:
  assumes parse: "volume_parse boot = Some (Ok v)" "length boot = sector"
    and chain: "chain_of v dev f = Ok m" and small: "file_size f < 2 ^ 32"
    and size: "0 < map_size m" "map_size m mod sector = 0" and len: "length data = map_size m"
  shows "\<exists>ops. write_plan v m data = Some (Ok ops) \<and>
     concat (map (perform img ops) (file_lbas v m)) = data \<and>
     (\<forall>l. l \<notin> set (file_lbas v m) \<longrightarrow> perform img ops l = img l) \<and>
     (\<forall>l \<in> set (file_lbas v m). data_start v \<le> l \<and> l < total_sectors v)"
proof -
  note inv = volume_parse_inv [OF parse]
  have ok: "map_ok v m" and ms: "map_size m = file_size f"
    using chain_of_Ok [OF chain inv] by blast+
  let ?n = "map_size m div sector"
  let ?w = "map (\<lambda>s. (file_sector_lba v m s, slice (s * sector) sector data)) [0..<?n]"
  obtain ops where ops: "write_plan v m data = Some (Ok ops)" and w: "concat (map op_sectors ops) = ?w"
    using write_plan_returns [OF inv ok size(1) _ len size(2)] small ms by auto
  have sec: "in_file v m s" if "s < ?n" for s
    by (rule in_file_sector [OF inv ok sector_in_size [OF that]])
  have "inj_on (file_sector_lba v m) {0..<?n}"
    using sec file_sector_inj [OF inv ok] by (intro inj_onI) auto
  then have dist: "distinct (map fst ?w)"
    by (simp add: comp_def distinct_map)
  have "perform img ops (file_sector_lba v m s) = slice (s * sector) sector data" if "s < ?n" for s
    unfolding perform_def w using that by (intro foldl_update_at [OF dist]) auto
  then have "map (perform img ops) (file_lbas v m) = map (\<lambda>s. slice (s * sector) sector data) [0..<?n]"
    by (simp add: file_lbas_def)
  moreover have "concat (map (\<lambda>s. slice (s * sector) sector data) [0..<?n]) = data"
    using len size(2) by (intro concat_sectors) (metis add.right_neutral div_mult_mod_eq)
  ultimately have "concat (map (perform img ops) (file_lbas v m)) = data" by (simp only:)
  moreover have "perform img ops l = img l" if "l \<notin> set (file_lbas v m)" for l
    unfolding perform_def w using that by (intro foldl_update_other) (auto simp: file_lbas_def)
  moreover have "data_start v \<le> l \<and> l < total_sectors v" if "l \<in> set (file_lbas v m)" for l
    using that sec file_sector_in_data [OF inv ok] by (auto simp: file_lbas_def)
  ultimately show ?thesis using ops by blast
qed

text \<open>A volume of eight one-sector clusters and a two-cluster file on it, for the witnesses.\<close>

definition demo_boot :: bytes where
  "demo_boot = replicate 11 0 @ [0, 2, 1, 1, 0, 1, 0, 0, 10, 0, 0, 0, 0] @ replicate 12 0 @ [1, 0, 0, 0] @
     replicate 4 0 @ [2, 0, 0, 0] @ replicate 462 0 @ [0x55, 0xAA]"

definition demo_volume :: volume where
  "demo_volume = \<lparr>sectors_per_cluster = 1, reserved_sectors = 1, fat_count = 1, fat_sectors = 1,
     root_cluster = 2, total_sectors = 10, cluster_count = 8\<rparr>"

definition demo_dev :: "nat \<Rightarrow> (bytes, nat) result" where
  "demo_dev lba = (if lba = 1 then Ok (replicate 12 0 @ [5, 0, 0, 0] @ replicate 4 0 @ [0xFF, 0xFF, 0xFF, 0x0F] @
     replicate 488 0) else Ok (replicate 512 0))"

definition demo_file :: root_file where
  "demo_file = \<lparr>first_cluster = 3, file_size = 1024\<rparr>"

definition demo_map :: file_map where
  "demo_map = \<lparr>map_size = 1024, map_chain = [3, 5]\<rparr>"

lemma demo_parse: "volume_parse demo_boot = Some (Ok demo_volume)" "length demo_boot = sector"
  by (simp_all add: volume_parse_def demo_boot_def demo_volume_def read_u16_def read_u32_def slice_def nth_append
      sector_def is_power_of_two_def times_exec_def plus_exec_def fat32_mask_def upt_rec)

lemma demo_links: "linked demo_volume demo_dev [3, 5]"
  by (simp add: fat_next_def demo_volume_def demo_dev_def read_u32_def slice_def fat32_mask_def fat32_eoc_def
      fat32_bad_def)

lemma demo_chain: "chain_of demo_volume demo_dev demo_file = Ok demo_map"
  using chain_of_complete [of demo_volume demo_dev demo_file "[5]"] demo_links
  by (simp add: demo_file_def demo_map_def demo_volume_def valid_cluster_def div_ceil_def cluster_bytes_def sector_def)

theorem write_plan_overwrites_witness:
  "\<exists>ops. write_plan demo_volume demo_map (replicate 1024 7) = Some (Ok ops) \<and>
     concat (map (perform (\<lambda>_. []) ops) (file_lbas demo_volume demo_map)) = replicate 1024 7"
  using write_plan_overwrites [OF demo_parse demo_chain, of "replicate 1024 7" "\<lambda>_. []"]
  by (simp add: demo_file_def demo_map_def sector_def) blast

text \<open>
  The chain walk. On any device it ends with an answer, and it accepts a non-empty file with
  cluster list \<open>chain\<close> exactly when that list is the FAT's chain from the file's first cluster:
  every cluster valid, each naming the next, the last ending the chain, and exactly as many of
  them as the size needs. An accepted chain never visits a cluster twice.
\<close>

theorem chain_of_iff:
  assumes parse: "volume_parse boot = Some (Ok v)" "length boot = sector" and "0 < file_size f"
  shows "chain_of v dev f = Ok \<lparr>map_size = n, map_chain = chain\<rparr> \<longleftrightarrow>
     n = file_size f \<and> linked v dev chain \<and> hd chain = first_cluster f \<and>
     (\<forall>c \<in> set chain. valid_cluster v c) \<and>
     length chain = div_ceil (file_size f) (cluster_bytes v) \<and> distinct chain"
    (is "?lhs \<longleftrightarrow> ?rhs")
proof
  assume ?lhs
  from chain_of_Ok [OF this volume_parse_inv [OF parse]] \<open>0 < file_size f\<close> show ?rhs
    by (simp add: map_ok_def)
next
  assume r: ?rhs
  then obtain cs where cs: "chain = first_cluster f # cs" by (cases chain) auto
  with r \<open>0 < file_size f\<close> chain_of_complete [of v dev f cs] show ?lhs by simp
qed

theorem chain_of_iff_witness:
  "linked demo_volume demo_dev [3, 5] \<and> distinct [3, 5 :: nat] \<and>
   length [3, 5 :: nat] = div_ceil (file_size demo_file) (cluster_bytes demo_volume)"
  using chain_of_iff [OF demo_parse, of demo_file demo_dev 1024 "[3, 5]"] demo_chain
  by (simp add: demo_file_def demo_map_def)

text \<open>
  Mapping a byte range. Inside a located file the runs list, in file order and without gaps,
  exactly the sectors that hold a byte of the range, each with the device sector its cluster puts
  it in; and no two neighbouring runs could have been merged.
\<close>

theorem runs_cover_range:
  assumes parse: "volume_parse boot = Some (Ok v)" "length boot = sector"
    and chain: "chain_of v dev f = Ok m" and small: "file_size f < 2 ^ 32"
    and range: "0 < len" "offset + len \<le> map_size m"
  shows "\<exists>rs. runs v m offset len = Some (Ok rs) \<and>
     expand_all rs = map (\<lambda>s. (s, file_sector_lba v m s))
       [offset div sector..<Suc ((offset + len - 1) div sector)] \<and>
     successively (\<lambda>r q. run_lba r + run_sectors r \<noteq> run_lba q) rs"
proof -
  note inv = volume_parse_inv [OF parse]
  have "map_ok v m" "map_size m < 2 ^ 32"
    using chain_of_Ok [OF chain inv] small by auto
  from runs_returns [OF inv this(1) range this(2)] show ?thesis by (auto simp: runs_good_def)
qed

theorem runs_cover_range_witness:
  "\<exists>rs. runs demo_volume demo_map 100 900 = Some (Ok rs) \<and> expand_all rs = [(0, 3), (1, 5)]"
proof -
  have upt: "[100 div sector..<Suc ((100 + 900 - 1) div sector)] = [0, 1]"
    by (simp add: sector_def)
  have lbas: "file_sector_lba demo_volume demo_map 0 = 3" "file_sector_lba demo_volume demo_map 1 = 5"
    by (simp_all add: file_sector_lba_def data_start_def demo_volume_def demo_map_def)
  have "file_size demo_file < 2 ^ 32" "(0 :: nat) < 900" "100 + 900 \<le> map_size demo_map"
    by (simp_all add: demo_file_def demo_map_def)
  from runs_cover_range [OF demo_parse demo_chain this, unfolded upt] lbas show ?thesis by auto
qed

section \<open>Opening and searching\<close>

lemma root_loop_returns:
  assumes inv: "volume_inv v" and "valid_cluster v c" and "cache_ok dev cache"
  shows "root_loop v dev want n cache c \<noteq> None"
  using assms(2,3)
proof (induction n arbitrary: c cache)
  case (Suc n)
  have lba: "cluster_lba v c = Some (data_start v + (c - 2) * sectors_per_cluster v)"
    using Suc.prems(1) by (intro cluster_lba_eq [OF inv]) (simp add: valid_cluster_def)
  from fat_entry_cached [OF Suc.prems(2), of v c] show ?case
    using Suc.IH by (auto simp: lba split: option.splits)
qed simp

lemma scan_entries_found:
  assumes "scan_entries want es = Some (Ok f)"
  shows "\<exists>e \<in> set es. take 11 e = want \<and> e ! 0 \<noteq> 0x00 \<and> e ! 0 \<noteq> 0xE5 \<and> e ! 11 AND (0x10 OR 0x08) = 0 \<and>
     file_size f = read_u32 e 28 \<and>
     first_cluster f = fat32_mask (read_u16 e 20 * 2 ^ 16 + read_u16 e 26)"
  using assms
proof (induction es)
  case (Cons e es)
  show ?case
  proof (cases "scan_entries want es = Some (Ok f)")
    case True
    from Cons.IH [OF this] show ?thesis by auto
  next
    case False
    with Cons.prems show ?thesis
      by (intro bexI [of _ e]) (auto simp: Let_def split: if_splits)
  qed
qed simp

lemma scan_sectors_found:
  assumes "scan_sectors dev want lbas = Some (Ok f)"
  shows "\<exists>lba \<in> set lbas. \<exists>b. dev lba = Ok b \<and> scan_entries want (chunks_32 b) = Some (Ok f)"
  using assms
proof (induction lbas)
  case (Cons l ls)
  show ?case
  proof (cases "dev l")
    case (Ok b)
    show ?thesis
    proof (cases "scan_entries want (chunks_32 b)")
      case None
      with Cons Ok show ?thesis by auto
    next
      case (Some r)
      with Cons.prems Ok show ?thesis by (cases r) auto
    qed
  qed (use Cons.prems in auto)
qed simp

lemma root_loop_found:
  assumes inv: "volume_inv v" and "valid_cluster v c" and "cache_ok dev cache"
    and "root_loop v dev want n cache c = Some (Ok f)"
  shows "\<exists>lba b. data_start v \<le> lba \<and> lba < total_sectors v \<and> dev lba = Ok b \<and>
     scan_entries want (chunks_32 b) = Some (Ok f)"
  using assms(2-4)
proof (induction n arbitrary: c cache)
  case (Suc n)
  let ?at = "data_start v + (c - 2) * sectors_per_cluster v"
  have lba: "cluster_lba v c = Some ?at"
    using Suc.prems(1) by (intro cluster_lba_eq [OF inv]) (simp add: valid_cluster_def)
  show ?case
  proof (cases "scan_sectors dev want [?at..<?at + sectors_per_cluster v]")
    case (Some r)
    with Suc.prems(3) lba have "scan_sectors dev want [?at..<?at + sectors_per_cluster v] = Some (Ok f)" by simp
    from scan_sectors_found [OF this] obtain l b where "l \<in> set [?at..<?at + sectors_per_cluster v]"
      "dev l = Ok b" "scan_entries want (chunks_32 b) = Some (Ok f)" by blast
    moreover from this(1) have "data_start v \<le> l" "l < total_sectors v"
      using cluster_in_data [OF inv Suc.prems(1)] by auto
    ultimately show ?thesis by blast
  next
    case None
    from fat_entry_cached [OF Suc.prems(2), of v c] Suc.prems(3) None lba
    obtain cache' d where "fat_entry v dev cache c = Ok (cache', d)" "cache_ok dev cache'" by auto
    with Suc.prems(3) None lba Suc.IH [of d cache'] show ?thesis by (auto split: if_splits)
  qed
qed simp

text \<open>
  Opening and searching a volume. On an accepted volume the search for a name and the whole
  \<open>locate\<close> return on any device, cyclic directories included; a file that is found comes from a
  live, non-directory entry of that name in a sector of the data region, with the entry's size
  and first cluster.
\<close>

theorem locate_returns:
  assumes parse: "volume_parse boot = Some (Ok v)" "length boot = sector"
  shows "locate v dev name \<noteq> None \<and>
     (\<forall>f. find_root_file v dev name = Some (Ok f) \<longrightarrow>
        (\<exists>lba b e. data_start v \<le> lba \<and> lba < total_sectors v \<and> dev lba = Ok b \<and>
           e \<in> set (chunks_32 b) \<and> name_to_83 name = Ok (take 11 e) \<and>
           e ! 0 \<noteq> 0x00 \<and> e ! 0 \<noteq> 0xE5 \<and> e ! 11 AND (0x10 OR 0x08) = 0 \<and>
           file_size f = read_u32 e 28 \<and>
           first_cluster f = fat32_mask (read_u16 e 20 * 2 ^ 16 + read_u16 e 26)))"
proof -
  note inv = volume_parse_inv [OF parse]
  have root: "valid_cluster v (root_cluster v)" using inv by (simp add: volume_inv_def)
  show ?thesis
  proof (cases "name_to_83 name")
    case (Err e)
    then show ?thesis by (simp add: locate_def find_root_file_def)
  next
    case (Ok want)
    have "root_loop v dev want (Suc (cluster_count v)) fat_cache_new (root_cluster v) \<noteq> None"
      by (rule root_loop_returns [OF inv root cache_ok_new])
    then obtain r where r: "find_root_file v dev name = Some r"
      using Ok by (auto simp: find_root_file_def simp del: root_loop.simps)
    then have "locate v dev name \<noteq> None" by (cases r) (simp_all add: locate_def)
    moreover have "\<exists>lba b. data_start v \<le> lba \<and> lba < total_sectors v \<and> dev lba = Ok b \<and>
        scan_entries want (chunks_32 b) = Some (Ok f)"
      if "find_root_file v dev name = Some (Ok f)" for f
      using that Ok by (intro root_loop_found [OF inv root cache_ok_new, of dev want "Suc (cluster_count v)"])
        (simp add: find_root_file_def)
    ultimately show ?thesis
      using Ok by (metis scan_entries_found)
  qed
qed

theorem locate_returns_witness: "locate demo_volume demo_dev [0x41] \<noteq> None"
  using locate_returns [OF demo_parse, of demo_dev "[0x41]"] by blast



text \<open>
  A boot sector whose FAT size field is 2^31 makes the 32-bit product of FAT count and FAT size
  overflow before anything is refused.
\<close>

definition overflow_boot :: bytes where
  "overflow_boot = replicate 11 0 @ [0, 2, 1, 1, 0, 2, 0, 0, 10, 0, 0, 0, 0] @ replicate 12 0 @ [0, 0, 0, 0x80] @
     replicate 4 0 @ [2, 0, 0, 0] @ replicate 462 0 @ [0x55, 0xAA]"

lemma volume_parse_overflow: "length overflow_boot = sector \<and> volume_parse overflow_boot = None"
  by (simp add: volume_parse_def overflow_boot_def read_u16_def read_u32_def slice_def nth_append
      sector_def is_power_of_two_def times_exec_def upt_rec)

end
