(* ===== verification/Partwalk.thy ===== *)
theory Partwalk
  imports Prelude
begin

text \<open>
  MBR partition tables (\<open>crates/eo9-partwalk/src/lib.rs\<close>): decoding of table sectors, the
  pull-driven walk of the extended-partition chain, and the validation ladder. The walker is a
  record passed through \<open>start\<close> and \<open>feed\<close>; a refusal is a value, and what an early return leaves
  in the walker is kept as the code leaves it. Sums of sector numbers are written on natural
  numbers; \<open>walker_inv\<close> bounds every one of them by the device, so none leaves \<open>u64\<close>.
\<close>

section \<open>Data\<close>

definition sector_size :: nat where "sector_size = 512"
definition max_ebrs :: nat where "max_ebrs = 64"
definition entries_offset :: nat where "entries_offset = 446"

record partition =
  number :: nat
  start_lba :: nat
  sectors :: nat

definition start_bytes :: "partition \<Rightarrow> nat" where
  "start_bytes p = start_lba p * sector_size"

definition len_bytes :: "partition \<Rightarrow> nat" where
  "len_bytes p = sectors p * sector_size"

definition contains :: "partition \<Rightarrow> nat \<Rightarrow> bool" where
  "contains p lba \<longleftrightarrow> start_lba p \<le> lba \<and> lba < start_lba p + sectors p"

definition overlaps :: "partition \<Rightarrow> partition \<Rightarrow> bool" where
  "overlaps p q \<longleftrightarrow> start_lba p < start_lba q + sectors q \<and> start_lba q < start_lba p + sectors p"

datatype table_error =
    SectorSize nat
  | MissingSignature
  | Gpt
  | EbrMissingSignature nat
  | ZeroLength nat
  | StartsAtZero nat
  | OutOfBounds nat nat nat  \<comment> \<open>number, end, device sectors\<close>
  | Overlap nat nat
  | TwoExtendedContainers
  | LogicalOutsideContainer nat
  | EbrOutsideContainer nat
  | EbrInsideLogical nat nat
  | ChainCycle nat
  | ChainTooLong
  | BadChainEntry nat byte
  | NotExpectingSector

datatype select_error = SelZero | SelContainer nat | SelNotPresent nat "nat list"

record partition_table =
  table_partitions :: "partition list"
  table_container :: "nat option"

definition select :: "partition_table \<Rightarrow> nat \<Rightarrow> (partition, select_error) result" where
  "select t n =
     (if n = 0 then Err SelZero
      else if table_container t = Some n then Err (SelContainer n)
      else ok_or (find (\<lambda>p. number p = n) (table_partitions t))
             (SelNotPresent n (map number (table_partitions t))))"

datatype step = Need nat | Done partition_table

record raw_entry =
  partition_type :: byte
  entry_start :: nat
  entry_sectors :: nat

definition decode_entry :: "bytes \<Rightarrow> nat \<Rightarrow> raw_entry" where
  "decode_entry sector index =
     (let entry = slice (entries_offset + index * 16) 16 sector in
      \<lparr>partition_type = entry ! 4, entry_start = le_decode (slice 8 4 entry),
       entry_sectors = le_decode (slice 12 4 entry)\<rparr>)"

definition is_extended :: "byte \<Rightarrow> bool" where
  "is_extended t \<longleftrightarrow> t = 0x05 \<or> t = 0x0F"

definition has_signature :: "bytes \<Rightarrow> bool" where
  "has_signature sector \<longleftrightarrow> sector ! 510 = 0x55 \<and> sector ! 511 = 0xAA"

record span =
  span_start :: nat
  span_sectors :: nat

record walker =
  device_sectors :: nat
  partitions :: "partition list"
  container :: "span option"
  container_number :: "nat option"
  ebr_lbas :: "nat list"
  pending :: "nat option"
  next_logical :: nat


section \<open>Operations\<close>

definition walker_new :: "nat \<Rightarrow> walker" where
  "walker_new device_size = \<lparr>device_sectors = device_size div sector_size, partitions = [],
     container = None, container_number = None, ebr_lbas = [], pending = None, next_logical = 5\<rparr>"

definition check_span :: "walker \<Rightarrow> nat \<Rightarrow> nat \<Rightarrow> nat \<Rightarrow> (unit, table_error) result" where
  "check_span w n first len =
     (if len = 0 then Err (ZeroLength n)
      else if first = 0 then Err (StartsAtZero n)
      else (case checked_add 64 first len of
          None \<Rightarrow> Err (OutOfBounds n u64_max (device_sectors w))
        | Some end_lba \<Rightarrow>
            if end_lba > device_sectors w then Err (OutOfBounds n end_lba (device_sectors w))
            else Ok ()))"

text \<open>The three passes of \<open>finalize\<close>, each stopping at the first offence.\<close>

fun first_overlap :: "partition list \<Rightarrow> table_error option" where
  "first_overlap [] = None"
| "first_overlap (a # rest) =
     (case find (overlaps a) rest of
        Some b \<Rightarrow> Some (Overlap (number a) (number b))
      | None \<Rightarrow> first_overlap rest)"

definition container_overlap :: "walker \<Rightarrow> table_error option" where
  "container_overlap w =
     (case (container w, container_number w) of
        (Some c, Some cn) \<Rightarrow>
          let span = \<lparr>number = cn, start_lba = span_start c, sectors = span_sectors c\<rparr> in
          map_option (\<lambda>p. Overlap cn (number p))
            (find (overlaps span) [p \<leftarrow> partitions w. number p \<le> 4])
      | _ \<Rightarrow> None)"

fun first_covered_ebr :: "partition list \<Rightarrow> nat list \<Rightarrow> table_error option" where
  "first_covered_ebr ps [] = None"
| "first_covered_ebr ps (lba # rest) =
     (case find (\<lambda>p. contains p lba) ps of
        Some p \<Rightarrow> Some (EbrInsideLogical lba (number p))
      | None \<Rightarrow> first_covered_ebr ps rest)"

definition finalize :: "walker \<Rightarrow> walker \<times> (step, table_error) result" where
  "finalize w =
     (case first_overlap (partitions w) of
        Some e \<Rightarrow> (w, Err e)
      | None \<Rightarrow>
     (case container_overlap w of
        Some e \<Rightarrow> (w, Err e)
      | None \<Rightarrow>
     (case first_covered_ebr (partitions w) (ebr_lbas w) of
        Some e \<Rightarrow> (w, Err e)
      | None \<Rightarrow>
          (w\<lparr>partitions := []\<rparr>,
           Ok (Done \<lparr>table_partitions = partitions w, table_container = container_number w\<rparr>)))))"

text \<open>One primary slot, and the loop over the four of them.\<close>

definition start_entry :: "walker \<Rightarrow> bytes \<Rightarrow> nat \<Rightarrow> walker \<times> (unit, table_error) result" where
  "start_entry w sector0 index =
     (let entry = decode_entry sector0 index; n = index + 1 in
      if partition_type entry = 0x00 then (w, Ok ())
      else (case check_span w n (entry_start entry) (entry_sectors entry) of
          Err e \<Rightarrow> (w, Err e)
        | Ok _ \<Rightarrow>
            if is_extended (partition_type entry) then
              (if container w \<noteq> None then (w, Err TwoExtendedContainers)
               else (w\<lparr>container := Some \<lparr>span_start = entry_start entry, span_sectors = entry_sectors entry\<rparr>,
                       container_number := Some n\<rparr>, Ok ()))
            else
              (w\<lparr>partitions := partitions w @
                  [\<lparr>number = n, start_lba = entry_start entry, sectors = entry_sectors entry\<rparr>]\<rparr>, Ok ())))"

fun start_entries :: "walker \<Rightarrow> bytes \<Rightarrow> nat list \<Rightarrow> walker \<times> (unit, table_error) result" where
  "start_entries w sector0 [] = (w, Ok ())"
| "start_entries w sector0 (i # is) =
     (case start_entry w sector0 i of
        (w, Err e) \<Rightarrow> (w, Err e)
      | (w, Ok _) \<Rightarrow> start_entries w sector0 is)"

definition start :: "walker \<Rightarrow> bytes \<Rightarrow> walker \<times> (step, table_error) result" where
  "start w sector0 =
     (if length sector0 \<noteq> sector_size then (w, Err (SectorSize (length sector0)))
      else if \<not> has_signature sector0 then (w, Err MissingSignature)
      else if list_ex (\<lambda>i. partition_type (decode_entry sector0 i) = 0xEE) [0, 1, 2, 3] then (w, Err Gpt)
      else (case start_entries w sector0 [0, 1, 2, 3] of
          (w, Err e) \<Rightarrow> (w, Err e)
        | (w, Ok _) \<Rightarrow>
            (case container w of
               Some c \<Rightarrow>
                 (w\<lparr>ebr_lbas := ebr_lbas w @ [span_start c], pending := Some (span_start c)\<rparr>,
                  Ok (Need (span_start c)))
             | None \<Rightarrow> finalize w)))"

text \<open>The data slot of an EBR: its logical partition, relative to that EBR.\<close>

definition feed_logical ::
  "walker \<Rightarrow> nat \<Rightarrow> span \<Rightarrow> raw_entry \<Rightarrow> walker \<times> (unit, table_error) result" where
  "feed_logical w ebr_lba c logical =
     (if partition_type logical = 0xEE then (w, Err Gpt)
      else if partition_type logical = 0x00 then (w, Ok ())
      else if is_extended (partition_type logical) then
        (w, Err (BadChainEntry ebr_lba (partition_type logical)))
      else
        (let n = next_logical w; w = w\<lparr>next_logical := next_logical w + 1\<rparr> in
         (case checked_add 64 ebr_lba (entry_start logical) of
            None \<Rightarrow> (w, Err (OutOfBounds n u64_max (device_sectors w)))
          | Some first \<Rightarrow>
              (case check_span w n first (entry_sectors logical) of
                 Err e \<Rightarrow> (w, Err e)
               | Ok _ \<Rightarrow>
                   if first < span_start c \<or> first + entry_sectors logical > span_start c + span_sectors c
                   then (w, Err (LogicalOutsideContainer n))
                   else (w\<lparr>partitions := partitions w @
                           [\<lparr>number = n, start_lba = first, sectors = entry_sectors logical\<rparr>]\<rparr>, Ok ())))))"

text \<open>The chain slot of an EBR: the next EBR, relative to the container.\<close>

definition feed_chain ::
  "walker \<Rightarrow> nat \<Rightarrow> span \<Rightarrow> raw_entry \<Rightarrow> walker \<times> (step, table_error) result" where
  "feed_chain w ebr_lba c chain =
     (if partition_type chain = 0x00 then finalize w
      else if \<not> is_extended (partition_type chain) then
        (w, Err (BadChainEntry ebr_lba (partition_type chain)))
      else (case checked_add 64 (span_start c) (entry_start chain) of
          None \<Rightarrow> (w, Err (EbrOutsideContainer u64_max))
        | Some next_lba \<Rightarrow>
            if next_lba < span_start c \<or> next_lba \<ge> span_start c + span_sectors c
            then (w, Err (EbrOutsideContainer next_lba))
            else if next_lba \<in> set (ebr_lbas w) then (w, Err (ChainCycle next_lba))
            else if length (ebr_lbas w) \<ge> max_ebrs then (w, Err ChainTooLong)
            else (w\<lparr>ebr_lbas := ebr_lbas w @ [next_lba], pending := Some next_lba\<rparr>,
                  Ok (Need next_lba))))"

definition feed :: "walker \<Rightarrow> bytes \<Rightarrow> (walker \<times> (step, table_error) result) exec" where
  "feed w sector =
     (case pending w of
        None \<Rightarrow> Some (w, Err NotExpectingSector)
      | Some ebr_lba \<Rightarrow>
          (let w = w\<lparr>pending := None\<rparr> in
           if length sector \<noteq> sector_size then Some (w, Err (SectorSize (length sector)))
           else if \<not> has_signature sector then Some (w, Err (EbrMissingSignature ebr_lba))
           else do {
             c \<leftarrow> container w;
             (case feed_logical w ebr_lba c (decode_entry sector 0) of
                (w, Err e) \<Rightarrow> Some (w, Err e)
              | (w, Ok _) \<Rightarrow> Some (feed_chain w ebr_lba c (decode_entry sector 1)))
           }))"


section \<open>What a parsed table guarantees\<close>

definition fits :: "nat \<Rightarrow> nat \<Rightarrow> nat \<Rightarrow> bool" where
  "fits dev first len \<longleftrightarrow> 0 < len \<and> 0 < first \<and> first + len \<le> dev"

definition part_fits :: "nat \<Rightarrow> partition \<Rightarrow> bool" where
  "part_fits dev p \<longleftrightarrow> fits dev (start_lba p) (sectors p)"

text \<open>
  A table is safe for a device of \<open>dev\<close> sectors whose table lives in the sectors \<open>lbas\<close> (and in
  sector 0): every selectable partition is a non-empty span inside the device, no two share a
  sector, none covers a table sector, and numbers are unambiguous.
\<close>

definition table_safe :: "nat \<Rightarrow> nat list \<Rightarrow> partition_table \<Rightarrow> bool" where
  "table_safe dev lbas t \<longleftrightarrow>
     (\<forall>p \<in> set (table_partitions t). part_fits dev p \<and> \<not> contains p 0 \<and> 1 \<le> number p) \<and>
     sorted_wrt (\<lambda>p q. \<not> overlaps p q) (table_partitions t) \<and>
     distinct (map number (table_partitions t)) \<and>
     (\<forall>p \<in> set (table_partitions t). table_container t \<noteq> Some (number p)) \<and>
     (\<forall>p \<in> set (table_partitions t). \<forall>lba \<in> set lbas. \<not> contains p lba)"

definition entries_inv :: "nat \<Rightarrow> walker \<Rightarrow> bool" where
  "entries_inv b w \<longleftrightarrow> device_sectors w < 2 ^ 64 \<and>
     (\<forall>p \<in> set (partitions w). part_fits (device_sectors w) p \<and> 1 \<le> number p \<and> number p < b \<and>
        container_number w \<noteq> Some (number p)) \<and>
     distinct (map number (partitions w)) \<and>
     (container w = None \<longleftrightarrow> container_number w = None) \<and>
     (\<forall>n. container_number w = Some n \<longrightarrow> n < b) \<and>
     (\<forall>c. container w = Some c \<longrightarrow> fits (device_sectors w) (span_start c) (span_sectors c))"

definition walker_inv :: "walker \<Rightarrow> bool" where
  "walker_inv w \<longleftrightarrow> entries_inv (next_logical w) w \<and> 5 \<le> next_logical w \<and>
     (pending w \<noteq> None \<longrightarrow> container w \<noteq> None \<and> ebr_lbas w \<noteq> [] \<and> pending w = Some (last (ebr_lbas w))) \<and>
     distinct (ebr_lbas w) \<and> length (ebr_lbas w) \<le> max_ebrs \<and>
     next_logical w + (if pending w = None then 0 else 1) \<le> 5 + length (ebr_lbas w)"

lemma check_span_ok: "check_span w n first len = Ok () \<longleftrightarrow> fits (device_sectors w) first len \<and> first + len < 2 ^ 64"
  by (auto simp: check_span_def fits_def checked_add_def)

lemma entries_inv_mono: "entries_inv b w \<Longrightarrow> b \<le> b' \<Longrightarrow> entries_inv b' w"
  by (fastforce simp: entries_inv_def)

lemma first_overlap_None: "first_overlap ps = None \<longleftrightarrow> sorted_wrt (\<lambda>p q. \<not> overlaps p q) ps"
  by (induction ps) (auto simp: find_None_iff dest: find_SomeD split: option.splits)

lemma first_covered_ebr_None:
  "first_covered_ebr ps lbas = None \<longleftrightarrow> (\<forall>lba \<in> set lbas. \<forall>p \<in> set ps. \<not> contains p lba)"
  by (induction lbas) (auto simp: find_None_iff dest: find_SomeD split: option.splits)

lemma finalize_Ok:
  assumes "finalize w = (w', Ok s)" and inv: "entries_inv b w"
  shows "\<exists>t. s = Done t \<and> table_partitions t = partitions w \<and> table_container t = container_number w \<and>
     table_safe (device_sectors w) (ebr_lbas w) t \<and> ebr_lbas w' = ebr_lbas w"
proof -
  have none: "first_overlap (partitions w) = None" "first_covered_ebr (partitions w) (ebr_lbas w) = None"
    and s: "s = Done \<lparr>table_partitions = partitions w, table_container = container_number w\<rparr>"
    and w': "w' = w\<lparr>partitions := []\<rparr>"
    using assms(1) by (auto simp: finalize_def split: option.splits)
  have "\<not> contains p 0" if "p \<in> set (partitions w)" for p
    using inv that by (auto simp: entries_inv_def part_fits_def fits_def contains_def)
  with none inv s w' show ?thesis
    by (auto simp: table_safe_def entries_inv_def first_overlap_None first_covered_ebr_None)
qed

lemma entries_inv_add:
  assumes "entries_inv b w" and "fits (device_sectors w) first len" and "1 \<le> b"
  shows "entries_inv (Suc b) (w\<lparr>partitions := partitions w @ [\<lparr>number = b, start_lba = first, sectors = len\<rparr>]\<rparr>)"
proof -
  have "b \<notin> number ` set (partitions w)" and "container_number w \<noteq> Some b"
    using assms(1) by (auto simp: entries_inv_def)
  with assms show ?thesis
    by (auto simp: entries_inv_def part_fits_def less_Suc_eq)
qed

lemma entries_inv_container:
  assumes "entries_inv b w" and "fits (device_sectors w) first len" and "container w = None"
  shows "entries_inv (Suc b) (w\<lparr>container := Some \<lparr>span_start = first, span_sectors = len\<rparr>,
     container_number := Some b\<rparr>)"
  using assms by (auto simp: entries_inv_def less_Suc_eq)

text \<open>What the loop over the primary slots leaves untouched.\<close>

definition chain_fresh :: "nat \<Rightarrow> walker \<Rightarrow> bool" where
  "chain_fresh dev w \<longleftrightarrow> device_sectors w = dev \<and> ebr_lbas w = [] \<and> pending w = None \<and> next_logical w = 5"

lemma start_entry_inv:
  assumes "start_entry w sector0 i = (w', r)" and "entries_inv (Suc i) w" and "chain_fresh dev w"
  shows "entries_inv (Suc (Suc i)) w' \<and> chain_fresh dev w'"
proof -
  let ?e = "decode_entry sector0 i"
  have mono: "entries_inv (Suc (Suc i)) w"
    by (rule entries_inv_mono [OF assms(2)]) simp
  show ?thesis
  proof (cases "partition_type ?e = 0 \<or> check_span w (i + 1) (entry_start ?e) (entry_sectors ?e) \<noteq> Ok ()
      \<or> is_extended (partition_type ?e) \<and> container w \<noteq> None")
    case True
    then have "w' = w"
      using assms(1) by (auto simp: start_entry_def Let_def split: result.splits if_splits)
    with mono assms(3) show ?thesis by simp
  next
    case False
    then have fit: "fits (device_sectors w) (entry_start ?e) (entry_sectors ?e)"
      by (simp add: check_span_ok)
    show ?thesis
    proof (cases "is_extended (partition_type ?e)")
      case True
      with False assms(1) entries_inv_container [OF assms(2) fit] assms(3) show ?thesis
        by (auto simp: start_entry_def Let_def chain_fresh_def)
    next
      case no: False
      with False assms(1) entries_inv_add [OF assms(2) fit] assms(3) show ?thesis
        by (auto simp: start_entry_def Let_def chain_fresh_def)
    qed
  qed
qed

lemma start_entries_inv:
  assumes "start_entries w sector0 [i..<j] = (w', r)" and "entries_inv (Suc i) w"
    and "chain_fresh dev w" and "i \<le> j"
  shows "entries_inv (Suc j) w' \<and> chain_fresh dev w'"
  using assms
proof (induction "j - i" arbitrary: i w)
  case 0
  then show ?case by simp
next
  case (Suc n)
  then have "i < j" by simp
  then have upt: "[i..<j] = i # [Suc i..<j]" by (rule upt_conv_Cons)
  obtain w1 r1 where s1: "start_entry w sector0 i = (w1, r1)" by fastforce
  from start_entry_inv [OF s1 Suc.prems(2,3)] have inv: "entries_inv (Suc (Suc i)) w1" "chain_fresh dev w1"
    by blast+
  show ?case
  proof (cases r1)
    case (Ok u)
    with Suc.prems(1) s1 upt have "start_entries w1 sector0 [Suc i..<j] = (w', r)" by simp
    with Suc.hyps(1) [of "Suc i" w1] Suc.hyps(2) inv \<open>i < j\<close> show ?thesis by simp
  next
    case (Err e)
    with Suc.prems(1) s1 upt have "w' = w1" by simp
    with inv \<open>i < j\<close> entries_inv_mono [of "Suc (Suc i)" w1 "Suc j"] show ?thesis by simp
  qed
qed

text \<open>
  The contract of one step of the walk, over the table sectors \<open>lbas\<close> asked for so far: the next
  request is a new sector and keeps the invariant, a finished table is safe for all of them.
\<close>

fun step_good :: "nat \<Rightarrow> nat list \<Rightarrow> walker \<times> (step, table_error) result \<Rightarrow> bool" where
  "step_good dev lbas (w, Err e) = True"
| "step_good dev lbas (w, Ok (Need lba)) \<longleftrightarrow> walker_inv w \<and> pending w = Some lba \<and>
     ebr_lbas w = lbas @ [lba] \<and> device_sectors w = dev"
| "step_good dev lbas (w, Ok (Done t)) \<longleftrightarrow> table_safe dev lbas t"

lemma finalize_good:
  assumes "entries_inv b w"
  shows "step_good (device_sectors w) (ebr_lbas w) (finalize w)"
proof -
  obtain w' r where fin: "finalize w = (w', r)" by fastforce
  then show ?thesis using finalize_Ok [OF _ assms] by (cases r) fastforce+
qed

lemma entries_inv_new: "dsize < 2 ^ 64 \<Longrightarrow> entries_inv (Suc 0) (walker_new dsize)"
proof -
  assume "dsize < 2 ^ 64"
  moreover have "dsize div 512 \<le> dsize" by simp
  ultimately have "dsize div 512 < 2 ^ 64" by (rule le_less_trans [rotated])
  then show ?thesis by (simp add: entries_inv_def walker_new_def sector_size_def)
qed

lemma start_good:
  assumes "dsize < 2 ^ 64"
  shows "step_good (dsize div sector_size) [] (start (walker_new dsize) sector0)"
proof -
  obtain w r where es: "start_entries (walker_new dsize) sector0 [0..<4] = (w, r)" by fastforce
  have fresh: "chain_fresh (dsize div sector_size) (walker_new dsize)"
    by (simp add: chain_fresh_def walker_new_def)
  from start_entries_inv [OF es entries_inv_new [OF assms] fresh]
  have inv: "entries_inv 5 w" and cf: "chain_fresh (dsize div sector_size) w" by simp_all
  have four: "[0..<4] = [0, 1, 2, 3 :: nat]" by (simp add: upt_rec)
  show ?thesis
  proof (cases "container w")
    case None
    with es cf finalize_good [OF inv] show ?thesis
      by (auto simp: start_def four chain_fresh_def split: result.splits)
  next
    case (Some c)
    then have "walker_inv (w\<lparr>ebr_lbas := ebr_lbas w @ [span_start c], pending := Some (span_start c)\<rparr>)"
      using inv cf by (auto simp: walker_inv_def entries_inv_def chain_fresh_def max_ebrs_def)
    with es cf Some show ?thesis
      by (auto simp: start_def four chain_fresh_def split: result.splits)
  qed
qed

lemma feed_logical_inv:
  assumes inv: "entries_inv (next_logical w) w" and "5 \<le> next_logical w"
    and res: "feed_logical w lba c e = (w', r)"
  shows "entries_inv (next_logical w') w' \<and> next_logical w \<le> next_logical w' \<and>
     next_logical w' \<le> Suc (next_logical w) \<and> device_sectors w' = device_sectors w \<and>
     container w' = container w \<and> ebr_lbas w' = ebr_lbas w \<and> pending w' = pending w"
proof -
  let ?w = "w\<lparr>next_logical := next_logical w + 1\<rparr>"
  have bump: "entries_inv (Suc (next_logical w)) ?w"
    using entries_inv_mono [OF inv, of "Suc (next_logical w)"] by (simp add: entries_inv_def)
  have add: "entries_inv (Suc (next_logical w))
      (?w\<lparr>partitions := partitions w @ [\<lparr>number = next_logical w, start_lba = a, sectors = n\<rparr>]\<rparr>)"
    if "fits (device_sectors w) a n" for a n
    using entries_inv_add [OF inv that] \<open>5 \<le> next_logical w\<close> by (simp add: entries_inv_def)
  have span: "fits (device_sectors w) a n" if "check_span ?w m a n = Ok u" for a n m u
    using that check_span_ok [of ?w m a n] by simp
  show ?thesis
    using res inv bump add span
    by (auto simp: feed_logical_def Let_def split: if_splits option.splits result.splits)
qed

lemma feed_chain_good:
  assumes inv: "entries_inv (next_logical w) w" and "container w = Some c"
    and "distinct (ebr_lbas w)" and "next_logical w \<le> 5 + length (ebr_lbas w)" and "5 \<le> next_logical w"
  shows "step_good (device_sectors w) (ebr_lbas w) (feed_chain w lba c e)"
  using assms finalize_good [OF inv]
  by (auto simp: feed_chain_def walker_inv_def entries_inv_def checked_add_def)

lemma feed_good:
  assumes inv: "walker_inv w" and pend: "pending w = Some lba"
  shows "\<exists>w' r. feed w sector = Some (w', r) \<and> step_good (device_sectors w) (ebr_lbas w) (w', r)"
proof -
  have five: "5 \<le> next_logical w" using inv by (simp add: walker_inv_def)
  obtain c where c: "container w = Some c"
    using inv pend by (auto simp: walker_inv_def)
  let ?w = "w\<lparr>pending := None\<rparr>"
  have e: "entries_inv (next_logical ?w) ?w" using inv by (simp add: walker_inv_def entries_inv_def)
  obtain w1 r1 where log: "feed_logical ?w lba c (decode_entry sector 0) = (w1, r1)" by fastforce
  note l = feed_logical_inv [OF e _ log, simplified]
  show ?thesis
  proof (cases "length sector \<noteq> sector_size \<or> \<not> has_signature sector \<or> (\<exists>x. r1 = Err x)")
    case True
    with pend c log l five show ?thesis by (auto simp: feed_def Let_def)
  next
    case False
    then obtain u where r1: "r1 = Ok u" by (cases r1) auto
    have "distinct (ebr_lbas w1)" "next_logical w1 \<le> 5 + length (ebr_lbas w1)" "container w1 = Some c"
      using inv pend l five c by (auto simp: walker_inv_def)
    with feed_chain_good [of w1 c lba "decode_entry sector 1"] l five
    have good: "step_good (device_sectors w) (ebr_lbas w) (feed_chain w1 lba c (decode_entry sector 1))"
      by simp
    obtain w2 r2 where ch: "feed_chain w1 lba c (decode_entry sector 1) = (w2, r2)" by fastforce
    with False pend c log r1 good ch l five show ?thesis
      by (simp add: feed_def Let_def)
  qed
qed

end
