(* ===== verification/Disk_Part.thy ===== *)
theory Disk_Part
  imports Partwalk
begin

text \<open>
  Block-device providers: the \<open>eo9:disk\<close> interface as a record of its operations, the in-memory
  device \<open>disk.mem\<close> (\<open>guest/stubs/disk-mem/src/lib.rs\<close>), and the partition window \<open>disk.part\<close>
  (\<open>guest/stubs/disk-part/src/lib.rs\<close>) over any underlying device. A buffer is the list of its
  bytes; an awaited call threads the state of the underlying device. Refusal texts are the values
  of \<open>io_message\<close> they are rendered from.
\<close>

section \<open>The interface\<close>

datatype read_error = NotFound | ReadIo io_message | ReadOutOfRange
  and io_message =
    Driver string
  | TableRead nat read_error
  | TableShort nat nat
  | TableInvalid table_error
  | TableSelect select_error
  | PartitionZero
  | TooLarge

datatype write_error = WriteIo io_message | WriteOutOfRange | ReadOnly

text \<open>A read fills the buffer and answers how many bytes it holds; a write answers how many it took.\<close>

record 'd disk_ops =
  disk_read :: "'d \<Rightarrow> nat \<Rightarrow> bytes \<Rightarrow> 'd \<times> bytes \<times> (nat, read_error) result"
  disk_write :: "'d \<Rightarrow> nat \<Rightarrow> bytes \<Rightarrow> 'd \<times> bytes \<times> (nat, write_error) result"
  disk_flush :: "'d \<Rightarrow> 'd \<times> (unit, write_error) result"
  disk_size :: "'d \<Rightarrow> nat"

text \<open>
  What a consumer relies on: only a write changes the stored bytes, and only those in its range;
  sizes are \<open>u64\<close>. \<open>content\<close> is the byte stored at an address.
\<close>

locale block_disk =
  fixes D :: "'d disk_ops" and content :: "'d \<Rightarrow> nat \<Rightarrow> byte"
  assumes read_keeps: "disk_read D d off dst = (d', dst', r) \<Longrightarrow> content d' = content d"
    and flush_keeps: "disk_flush D d = (d', r') \<Longrightarrow> content d' = content d"
    and write_range: "disk_write D d off src = (d', src', q) \<Longrightarrow> a < off \<or> off + length src \<le> a \<Longrightarrow>
          content d' a = content d a"
    and size_u64: "disk_size D d < 2 ^ 64"


section \<open>disk.mem\<close>

type_synonym mem_disk = "bytes option"  \<comment> \<open>the static, \<open>None\<close> until first use\<close>

definition default_size :: nat where
  "default_size = 16 * 1024 * 1024"

definition with_device :: "mem_disk \<Rightarrow> bytes" where
  "with_device st = (case st of None \<Rightarrow> replicate default_size 0 | Some dev \<Rightarrow> dev)"

text \<open>The guest's \<open>usize\<close> has 32 bits.\<close>

definition mem_range :: "nat \<Rightarrow> nat \<Rightarrow> nat \<Rightarrow> (nat \<times> nat) option" where
  "mem_range device_size offset len = do {
     assert_exec (offset < 2 ^ 32);
     assert_exec (len < 2 ^ 32);
     end_at \<leftarrow> checked_add 32 offset len;
     (if end_at > device_size then None else Some (offset, end_at))
   }"

definition mem_configure :: "nat \<Rightarrow> mem_disk \<Rightarrow> mem_disk \<times> (unit, io_message) result" where
  "mem_configure n st = (if n < 2 ^ 32 then (Some (replicate n 0), Ok ()) else (st, Err TooLarge))"

definition mem_read :: "mem_disk \<Rightarrow> nat \<Rightarrow> bytes \<Rightarrow> mem_disk \<times> bytes \<times> (nat, read_error) result" where
  "mem_read st offset dst =
     (let dev = with_device st in
      (case mem_range (length dev) offset (length dst) of
         None \<Rightarrow> (Some dev, dst, Err ReadOutOfRange)
       | Some (at, end_at) \<Rightarrow> (Some dev, slice at (end_at - at) dev, Ok (length dst))))"

definition mem_write :: "mem_disk \<Rightarrow> nat \<Rightarrow> bytes \<Rightarrow> mem_disk \<times> bytes \<times> (nat, write_error) result" where
  "mem_write st offset src =
     (let dev = with_device st in
      (case mem_range (length dev) offset (length src) of
         None \<Rightarrow> (Some dev, src, Err WriteOutOfRange)
       | Some (at, end_at) \<Rightarrow> (Some (take at dev @ src @ drop end_at dev), src, Ok (length src))))"

definition mem_size :: "mem_disk \<Rightarrow> nat" where
  "mem_size st = length (with_device st)"

definition mem_ops :: "mem_disk disk_ops" where
  "mem_ops = \<lparr>disk_read = mem_read, disk_write = mem_write, disk_flush = (\<lambda>st. (st, Ok ())),
     disk_size = (\<lambda>st. mem_size st mod 2 ^ 64)\<rparr>"  \<comment> \<open>\<open>as u64\<close>\<close>

text \<open>Bytes past the end of the device read as zero.\<close>

definition mem_content :: "mem_disk \<Rightarrow> nat \<Rightarrow> byte" where
  "mem_content st a = (let dev = with_device st in if a < length dev then dev ! a else 0)"

lemma with_device_Some [simp]: "with_device (Some dev) = dev"
  by (simp add: with_device_def)

lemma mem_range_Some:
  "mem_range n off len = Some (at, end_at) \<Longrightarrow> at = off \<and> end_at = off + len \<and> off + len \<le> n"
  by (auto simp: mem_range_def bind_eq_Some_conv split: if_splits)

lemma mem_write_range:
  assumes "mem_write st off src = (st', src', q)" and "a < off \<or> off + length src \<le> a"
  shows "mem_content st' a = mem_content st a"
proof (cases "mem_range (length (with_device st)) off (length src)")
  case None
  with assms(1) show ?thesis by (auto simp: mem_write_def mem_content_def Let_def)
next
  case (Some r)
  then obtain at end_at where r: "r = (at, end_at)" "at = off" "end_at = off + length src"
    "off + length src \<le> length (with_device st)"
    using mem_range_Some by (cases r) auto
  let ?dev = "with_device st"
  have "(take off ?dev @ src @ drop (off + length src) ?dev) ! a = ?dev ! a" if "a < length ?dev"
    using assms(2) r that by (auto simp: nth_append)
  with assms(1) Some r show ?thesis
    by (auto simp: mem_write_def mem_content_def Let_def)
qed

interpretation mem: block_disk mem_ops mem_content
proof unfold_locales
  fix d d' off dst dst' r
  assume "disk_read mem_ops d off dst = (d', dst', r)"
  then have "d' = Some (with_device d)"
    by (auto simp: mem_ops_def mem_read_def Let_def split: option.splits)
  then show "mem_content d' = mem_content d"
    by (simp add: mem_content_def fun_eq_iff)
next
  fix d off src d' src' q a
  assume "disk_write mem_ops d off src = (d', src', q)" and "a < off \<or> off + length src \<le> a"
  then show "mem_content d' a = mem_content d a"
    by (intro mem_write_range) (simp_all add: mem_ops_def)
qed (auto simp: mem_ops_def)


section \<open>disk.part\<close>

record window =
  win_start :: nat
  win_len :: nat

record part_state =
  selected :: nat
  part_window :: "window option"

definition default_partition :: nat where
  "default_partition = 1"

definition with_state :: "part_state option \<Rightarrow> part_state" where
  "with_state st = (case st of None \<Rightarrow> \<lparr>selected = default_partition, part_window = None\<rparr> | Some s \<Rightarrow> s)"

definition read_table_sector ::
  "'d disk_ops \<Rightarrow> 'd \<Rightarrow> nat \<Rightarrow> 'd \<times> (bytes, io_message) result" where
  "read_table_sector D d lba =
     (case disk_read D d (lba * sector_size) (replicate sector_size 0) of
        (d, dst, Err e) \<Rightarrow> (d, Err (TableRead lba e))
      | (d, dst, Ok n) \<Rightarrow>
          if n < sector_size then (d, Err (TableShort lba n))
          else (d, Ok (slice 0 sector_size dst)))"

text \<open>
  The loop that services the walker. The second component is the list of table sectors read; the
  fuel is one more than the longest chain the walker follows, and \<open>walk_loop_returns\<close> shows it
  is never used up.
\<close>

fun walk_loop ::
  "nat \<Rightarrow> 'd disk_ops \<Rightarrow> 'd \<Rightarrow> walker \<Rightarrow> step \<Rightarrow> ('d \<times> nat list \<times> (partition_table, io_message) result) exec" where
  "walk_loop 0 D d w s = None"
| "walk_loop (Suc n) D d w (Done t) = Some (d, [], Ok t)"
| "walk_loop (Suc n) D d w (Need lba) =
     (case read_table_sector D d lba of
        (d, Err m) \<Rightarrow> Some (d, [lba], Err m)
      | (d, Ok sector) \<Rightarrow> do {
          (w, r) \<leftarrow> feed w sector;
          (case r of
             Err e \<Rightarrow> Some (d, [lba], Err (TableInvalid e))
           | Ok s \<Rightarrow> do { (d, lbas, res) \<leftarrow> walk_loop n D d w s; Some (d, lba # lbas, res) })
        })"

definition read_table ::
  "'d disk_ops \<Rightarrow> 'd \<Rightarrow> ('d \<times> nat list \<times> (partition_table, io_message) result) exec" where
  "read_table D d =
     (case read_table_sector D d 0 of
        (d, Err m) \<Rightarrow> Some (d, [0], Err m)
      | (d, Ok sector0) \<Rightarrow>
          (case start (walker_new (disk_size D d)) sector0 of
             (w, Err e) \<Rightarrow> Some (d, [0], Err (TableInvalid e))
           | (w, Ok s) \<Rightarrow> do {
               (d, lbas, res) \<leftarrow> walk_loop (max_ebrs + 1) D d w s;
               Some (d, 0 # lbas, res)
             }))"

definition ensure_window ::
  "'d disk_ops \<Rightarrow> part_state option \<Rightarrow> 'd \<Rightarrow> (part_state option \<times> 'd \<times> (window, io_message) result) exec" where
  "ensure_window D st d =
     (let s = with_state st in
      case part_window s of
        Some w \<Rightarrow> Some (Some s, d, Ok w)
      | None \<Rightarrow> do {
          (d, lbas, res) \<leftarrow> read_table D d;
          (case res of
             Err m \<Rightarrow> Some (Some s, d, Err m)
           | Ok table \<Rightarrow>
               (case select table (selected s) of
                  Err e \<Rightarrow> Some (Some s, d, Err (TableSelect e))
                | Ok p \<Rightarrow>
                    let w = \<lparr>win_start = start_bytes p, win_len = len_bytes p\<rparr> in
                    Some (Some (s\<lparr>part_window := Some w\<rparr>), d, Ok w)))
        })"

definition translate :: "window \<Rightarrow> nat \<Rightarrow> nat \<Rightarrow> nat option" where
  "translate w offset len =
     (if offset > win_len w \<or> len > win_len w - offset then None else Some (win_start w + offset))"

definition part_configure :: "nat \<Rightarrow> part_state option \<Rightarrow> part_state option \<times> (unit, io_message) result" where
  "part_configure n st =
     (if n = 0 then (st, Err PartitionZero)
      else (Some \<lparr>selected = n, part_window = None\<rparr>, Ok ()))"

definition part_size :: "part_state option \<Rightarrow> nat" where
  "part_size st = (case part_window (with_state st) of None \<Rightarrow> 0 | Some w \<Rightarrow> win_len w)"

definition part_read ::
  "'d disk_ops \<Rightarrow> part_state option \<Rightarrow> 'd \<Rightarrow> nat \<Rightarrow> bytes \<Rightarrow>
     (part_state option \<times> 'd \<times> bytes \<times> (nat, read_error) result) exec" where
  "part_read D st d offset dst = do {
     (st, d, res) \<leftarrow> ensure_window D st d;
     (case res of
        Err m \<Rightarrow> Some (st, d, dst, Err (ReadIo m))
      | Ok w \<Rightarrow>
          (case translate w offset (length dst) of
             None \<Rightarrow> Some (st, d, dst, Err ReadOutOfRange)
           | Some absolute \<Rightarrow>
               (case disk_read D d absolute dst of (d, dst, r) \<Rightarrow> Some (st, d, dst, r))))
   }"

definition part_write ::
  "'d disk_ops \<Rightarrow> part_state option \<Rightarrow> 'd \<Rightarrow> nat \<Rightarrow> bytes \<Rightarrow>
     (part_state option \<times> 'd \<times> bytes \<times> (nat, write_error) result) exec" where
  "part_write D st d offset src = do {
     (st, d, res) \<leftarrow> ensure_window D st d;
     (case res of
        Err m \<Rightarrow> Some (st, d, src, Err (WriteIo m))
      | Ok w \<Rightarrow>
          (case translate w offset (length src) of
             None \<Rightarrow> Some (st, d, src, Err WriteOutOfRange)
           | Some absolute \<Rightarrow>
               (case disk_write D d absolute src of (d, src, r) \<Rightarrow> Some (st, d, src, r))))
   }"

definition part_flush ::
  "'d disk_ops \<Rightarrow> part_state option \<Rightarrow> 'd \<Rightarrow> (part_state option \<times> 'd \<times> (unit, write_error) result) exec" where
  "part_flush D st d = do {
     (st, d, res) \<leftarrow> ensure_window D st d;
     (case res of
        Err m \<Rightarrow> Some (st, d, Err (WriteIo m))
      | Ok w \<Rightarrow> (case disk_flush D d of (d, r) \<Rightarrow> Some (st, d, r)))
   }"


section \<open>The walk returns, and its table is safe\<close>

lemma walk_loop_returns:
  assumes "step_good dev lbas (w, Ok s)" and "n + length lbas = Suc max_ebrs" and "length lbas \<le> max_ebrs"
  shows "\<exists>d' lbas' res. walk_loop n D d w s = Some (d', lbas', res) \<and>
     length (lbas @ lbas') \<le> max_ebrs \<and> (\<forall>t. res = Ok t \<longrightarrow> table_safe dev (lbas @ lbas') t)"
  using assms
proof (induction n arbitrary: d w s lbas)
  case 0
  then show ?case by simp
next
  case (Suc n)
  show ?case
  proof (cases s)
    case (Done t)
    with Suc.prems show ?thesis by simp
  next
    case (Need lba)
    with Suc.prems have inv: "walker_inv w" and pend: "pending w = Some lba"
      and ebr: "ebr_lbas w = lbas @ [lba]" and dev: "device_sectors w = dev" by simp_all
    have len: "length (lbas @ [lba]) \<le> max_ebrs"
      using inv ebr unfolding walker_inv_def by simp
    obtain d1 r1 where rd: "read_table_sector D d lba = (d1, r1)" by fastforce
    show ?thesis
    proof (cases r1)
      case (Err m)
      with Need rd len show ?thesis by simp
    next
      case (Ok sector)
      from feed_good [OF inv pend, of sector] obtain w1 r2 where
        fd: "feed w sector = Some (w1, r2)" and good: "step_good dev (lbas @ [lba]) (w1, r2)"
        using dev ebr by auto
      show ?thesis
      proof (cases r2)
        case (Err e)
        with Need rd Ok fd len show ?thesis by simp
      next
        case s1: (Ok s1)
        from Suc.IH [of "lbas @ [lba]" w1 s1 d1] good s1 Suc.prems(2) len obtain d' lbas' res where
          "walk_loop n D d1 w1 s1 = Some (d', lbas', res)"
          "length (lbas @ lba # lbas') \<le> max_ebrs"
          "\<forall>t. res = Ok t \<longrightarrow> table_safe dev (lbas @ lba # lbas') t" by auto
        with Need rd Ok fd s1 show ?thesis by simp
      qed
    qed
  qed
qed

lemma read_table_returns:
  assumes "\<And>d. disk_size D d < 2 ^ 64"
  shows "\<exists>d' lbas res. read_table D d = Some (d', 0 # lbas, res) \<and> length lbas \<le> max_ebrs \<and>
     (\<forall>t. res = Ok t \<longrightarrow> (\<exists>d1. table_safe (disk_size D d1 div sector_size) (0 # lbas) t))"
proof -
  obtain d1 r1 where rd: "read_table_sector D d 0 = (d1, r1)" by fastforce
  show ?thesis
  proof (cases r1)
    case (Err m)
    with rd show ?thesis by (simp add: read_table_def)
  next
    case (Ok sector0)
    obtain w r2 where st: "start (walker_new (disk_size D d1)) sector0 = (w, r2)" by fastforce
    show ?thesis
    proof (cases r2)
      case (Err e)
      with rd Ok st show ?thesis by (simp add: read_table_def)
    next
      case s: (Ok s)
      have "step_good (disk_size D d1 div sector_size) [] (w, Ok s)"
        using start_good [OF assms, of d1 sector0] st s by simp
      from walk_loop_returns [OF this, of "Suc max_ebrs" D d1] obtain d' lbas res where
        "walk_loop (Suc max_ebrs) D d1 w s = Some (d', lbas, res)" "length lbas \<le> max_ebrs"
        and safe: "\<forall>t. res = Ok t \<longrightarrow> table_safe (disk_size D d1 div sector_size) lbas t" by auto
      moreover have "table_safe dev (0 # lbas) t" if "table_safe dev lbas t" for dev t
        using that by (simp add: table_safe_def)
      ultimately show ?thesis
        using rd Ok st s by (auto simp: read_table_def)
    qed
  qed
qed

lemma select_Ok: "select t n = Ok p \<Longrightarrow> p \<in> set (table_partitions t) \<and> number p = n"
  by (auto simp: select_def dest: find_SomeD split: if_splits)

text \<open>A byte address inside a partition's window lies in one of the partition's sectors.\<close>

lemma window_sector:
  assumes "start_bytes p \<le> a" and "a < start_bytes p + len_bytes p"
  shows "contains p (a div sector_size)"
proof -
  have "start_lba p \<le> a div 512"
    using assms(1) by (simp add: start_bytes_def sector_size_def less_eq_div_iff_mult_less_eq)
  moreover have "a div 512 < start_lba p + sectors p"
    using assms(2) by (simp add: start_bytes_def len_bytes_def sector_size_def less_mult_imp_div_less add_mult_distrib)
  ultimately show ?thesis by (simp add: contains_def sector_size_def)
qed


section \<open>Histories of accesses\<close>

datatype part_op = PRead nat bytes | PWrite nat bytes | PFlush

fun part_apply :: "'d disk_ops \<Rightarrow> part_state option \<Rightarrow> 'd \<Rightarrow> part_op \<Rightarrow> (part_state option \<times> 'd) exec" where
  "part_apply D st d (PRead off dst) = map_option (\<lambda>(st, d, _). (st, d)) (part_read D st d off dst)"
| "part_apply D st d (PWrite off src) = map_option (\<lambda>(st, d, _). (st, d)) (part_write D st d off src)"
| "part_apply D st d PFlush = map_option (\<lambda>(st, d, _). (st, d)) (part_flush D st d)"

fun part_run :: "'d disk_ops \<Rightarrow> part_state option \<Rightarrow> 'd \<Rightarrow> part_op list \<Rightarrow> (part_state option \<times> 'd) exec" where
  "part_run D st d [] = Some (st, d)"
| "part_run D st d (op # ops) = do { (st, d) \<leftarrow> part_apply D st d op; part_run D st d ops }"

abbreviation bound_window :: "part_state option \<Rightarrow> window option" where
  "bound_window st \<equiv> part_window (with_state st)"

definition in_window :: "window \<Rightarrow> nat \<Rightarrow> bool" where
  "in_window w a \<longleftrightarrow> win_start w \<le> a \<and> a < win_start w + win_len w"

text \<open>A window that was cut out of the table found in the sectors \<open>lbas\<close> of device \<open>d\<close>.\<close>

definition window_of_table :: "'d disk_ops \<Rightarrow> 'd \<Rightarrow> nat list \<Rightarrow> window \<Rightarrow> bool" where
  "window_of_table D d lbas w \<longleftrightarrow> (\<exists>d' t. read_table D d = Some (d', lbas, Ok t)) \<and>
     0 \<in> set lbas \<and> (\<forall>a. in_window w a \<longrightarrow> a div sector_size \<notin> set lbas)"

lemma with_state_Some [simp]: "with_state (Some s) = s"
  by (simp add: with_state_def)

lemma translate_in_window:
  assumes "translate w off len = Some adr" and "adr \<le> a" and "a < adr + len"
  shows "in_window w a"
  using assms by (auto simp: translate_def in_window_def split: if_splits)

context block_disk
begin

lemma read_table_sector_content: "read_table_sector D d lba = (d', r) \<Longrightarrow> content d' = content d"
proof -
  assume asm: "read_table_sector D d lba = (d', r)"
  obtain d1 dst q where "disk_read D d (lba * sector_size) (replicate sector_size 0) = (d1, dst, q)"
    by (metis prod_cases3)
  with asm read_keeps [OF this] show ?thesis
    by (cases q) (auto simp: read_table_sector_def split: if_splits)
qed

lemma walk_loop_content: "walk_loop n D d w s = Some (d', lbas, res) \<Longrightarrow> content d' = content d"
proof (induction n arbitrary: d w s lbas)
  case (Suc n)
  show ?case
  proof (cases s)
    case (Need lba)
    obtain d1 r1 where rd: "read_table_sector D d lba = (d1, r1)" by fastforce
    note same = read_table_sector_content [OF rd]
    show ?thesis
    proof (cases r1)
      case (Ok sector)
      with Suc.prems Need rd obtain w1 r where fd: "feed w sector = Some (w1, r)"
        by (auto simp: bind_eq_Some_conv)
      show ?thesis
        using Suc.prems Need rd Ok fd same Suc.IH
        by (cases r) (auto simp: bind_eq_Some_conv)
    qed (use Suc.prems Need rd same in auto)
  qed (use Suc.prems in auto)
qed simp

lemma read_table_content: "read_table D d = Some (d', lbas, res) \<Longrightarrow> content d' = content d"
proof -
  assume asm: "read_table D d = Some (d', lbas, res)"
  obtain d1 r1 where rd: "read_table_sector D d 0 = (d1, r1)" by fastforce
  note same = read_table_sector_content [OF rd]
  show ?thesis
  proof (cases r1)
    case (Ok sector0)
    obtain w r where st: "start (walker_new (disk_size D d1)) sector0 = (w, r)" by fastforce
    show ?thesis
      using asm rd Ok st same
      by (cases r) (auto simp: read_table_def bind_eq_Some_conv dest: walk_loop_content)
  qed (use asm rd same in \<open>auto simp: read_table_def\<close>)
qed

lemma ensure_window_bound:
  "bound_window st = Some w \<Longrightarrow> \<exists>st'. ensure_window D st d = Some (st', d, Ok w) \<and> bound_window st' = Some w"
  by (simp add: ensure_window_def Let_def)

lemma ensure_window_unbound:
  assumes "bound_window st = None"
  shows "\<exists>st' d' res. ensure_window D st d = Some (st', d', res) \<and> content d' = content d \<and>
     (case res of Err _ \<Rightarrow> bound_window st' = None
      | Ok w \<Rightarrow> bound_window st' = Some w \<and> (\<exists>lbas. window_of_table D d lbas w))"
proof -
  obtain d1 lbas res where rt: "read_table D d = Some (d1, 0 # lbas, res)"
    and safe: "\<forall>t. res = Ok t \<longrightarrow> (\<exists>d2. table_safe (disk_size D d2 div sector_size) (0 # lbas) t)"
    using read_table_returns [OF size_u64] by blast
  note same = read_table_content [OF rt]
  show ?thesis
  proof (cases res)
    case (Err m)
    with assms rt same show ?thesis by (simp add: ensure_window_def Let_def)
  next
    case (Ok t)
    show ?thesis
    proof (cases "select t (selected (with_state st))")
      case (Err e)
      with assms rt same Ok show ?thesis by (simp add: ensure_window_def Let_def)
    next
      case p: (Ok p)
      define w where "w = \<lparr>win_start = start_bytes p, win_len = len_bytes p\<rparr>"
      have "\<forall>lba \<in> set (0 # lbas). \<not> contains p lba"
        using safe Ok select_Ok [OF p] by (auto simp: table_safe_def)
      moreover have "contains p (a div sector_size)" if "in_window w a" for a
        using window_sector [of p a] that by (simp add: in_window_def w_def)
      ultimately have "a div sector_size \<notin> set (0 # lbas)" if "in_window w a" for a
        using that by blast
      then have "window_of_table D d (0 # lbas) w"
        using rt Ok unfolding window_of_table_def by auto
      with assms rt same Ok p show ?thesis
        by (auto simp: ensure_window_def Let_def w_def)
    qed
  qed
qed

text \<open>What an access does once \<open>ensure_window\<close> has answered.\<close>

lemma part_apply_ensured:
  assumes "ensure_window D st d = Some (st1, d1, res)"
  shows "\<exists>d'. part_apply D st d op = Some (st1, d') \<and>
     (case res of Err _ \<Rightarrow> d' = d1
      | Ok w \<Rightarrow> \<forall>a. \<not> in_window w a \<longrightarrow> content d' a = content d1 a)"
proof (cases res)
  case (Err m)
  with assms show ?thesis
    by (cases op) (simp_all add: part_read_def part_write_def part_flush_def)
next
  case (Ok w)
  show ?thesis
  proof (cases op)
    case (PRead off dst)
    show ?thesis
    proof (cases "translate w off (length dst)")
      case (Some adr)
      obtain d2 dst' r where "disk_read D d1 adr dst = (d2, dst', r)" by (metis prod_cases3)
      with read_keeps [OF this] assms Ok PRead Some show ?thesis by (simp add: part_read_def)
    qed (use assms Ok PRead in \<open>simp add: part_read_def\<close>)
  next
    case (PWrite off src)
    show ?thesis
    proof (cases "translate w off (length src)")
      case (Some adr)
      obtain d2 src' q where wr: "disk_write D d1 adr src = (d2, src', q)" by (metis prod_cases3)
      have "content d2 a = content d1 a" if "\<not> in_window w a" for a
      proof (rule write_range [OF wr])
        show "a < adr \<or> adr + length src \<le> a"
          using translate_in_window [OF Some, of a] that by fastforce
      qed
      with assms Ok PWrite Some wr show ?thesis by (simp add: part_write_def)
    qed (use assms Ok PWrite in \<open>simp add: part_write_def\<close>)
  next
    case PFlush
    obtain d2 r where "disk_flush D d1 = (d2, r)" by fastforce
    with flush_keeps [OF this] assms Ok PFlush show ?thesis by (simp add: part_flush_def)
  qed
qed

lemma part_run_bound:
  assumes "bound_window st = Some w"
  shows "\<exists>st' d'. part_run D st d ops = Some (st', d') \<and> bound_window st' = Some w \<and>
     (\<forall>a. \<not> in_window w a \<longrightarrow> content d' a = content d a)"
  using assms
proof (induction ops arbitrary: st d)
  case (Cons op ops)
  obtain st1 where "ensure_window D st d = Some (st1, d, Ok w)" and w: "bound_window st1 = Some w"
    using ensure_window_bound [OF Cons.prems] by blast
  from part_apply_ensured [OF this(1)] obtain d1 where
    "part_apply D st d op = Some (st1, d1)" "\<forall>a. \<not> in_window w a \<longrightarrow> content d1 a = content d a" by auto
  with Cons.IH [OF w, of d1] show ?case by auto
qed simp

lemma part_run_unbound:
  assumes "bound_window st = None"
  shows "\<exists>st' d'. part_run D st d ops = Some (st', d') \<and>
     (case bound_window st' of
        None \<Rightarrow> content d' = content d
      | Some w \<Rightarrow> (\<exists>d0 lbas. content d0 = content d \<and> window_of_table D d0 lbas w) \<and>
          (\<forall>a. \<not> in_window w a \<longrightarrow> content d' a = content d a))"
  using assms
proof (induction ops arbitrary: st d)
  case (Cons op ops)
  obtain st1 d1 res where ens: "ensure_window D st d = Some (st1, d1, res)" "content d1 = content d"
    and res: "case res of Err _ \<Rightarrow> bound_window st1 = None
      | Ok w \<Rightarrow> bound_window st1 = Some w \<and> (\<exists>lbas. window_of_table D d lbas w)"
    using ensure_window_unbound [OF Cons.prems] by blast
  obtain d2 where app: "part_apply D st d op = Some (st1, d2)"
    and d2: "case res of Err _ \<Rightarrow> d2 = d1 | Ok w \<Rightarrow> \<forall>a. \<not> in_window w a \<longrightarrow> content d2 a = content d1 a"
    using part_apply_ensured [OF ens(1)] by blast
  show ?case
  proof (cases res)
    case (Err m)
    with res d2 ens(2) have "bound_window st1 = None" and same: "content d2 = content d" by simp_all
    from Cons.IH [OF this(1), of d2, unfolded same] app show ?thesis by simp
  next
    case (Ok w)
    with res have w: "bound_window st1 = Some w" and tab: "\<exists>lbas. window_of_table D d lbas w" by simp_all
    have "\<exists>d0 lbas. content d0 = content d \<and> window_of_table D d0 lbas w"
      using tab by blast
    moreover obtain st' d' where "part_run D st1 d2 ops = Some (st', d')" "bound_window st' = Some w"
      and "\<forall>a. \<not> in_window w a \<longrightarrow> content d' a = content d2 a"
      using part_run_bound [OF w, of d2 ops] by blast
    ultimately show ?thesis using app d2 ens(2) Ok by simp
  qed
qed simp

end


section \<open>Properties\<close>

text \<open>A two-sector device with one primary partition, for the witnesses.\<close>

definition demo_mbr :: bytes where
  "demo_mbr = replicate 446 0 @ [0, 0, 0, 0, 0x83, 0, 0, 0, 1, 0, 0, 0, 1, 0, 0, 0] @ replicate 48 0 @ [0x55, 0xAA]"

definition demo_disk :: mem_disk where
  "demo_disk = Some (demo_mbr @ replicate 512 0)"

lemma length_demo_mbr [simp]: "length demo_mbr = 512"
  by (simp add: demo_mbr_def)

lemma demo_entries:
  "decode_entry demo_mbr 0 = \<lparr>partition_type = 0x83, entry_start = 1, entry_sectors = 1\<rparr>"
  "partition_type (decode_entry demo_mbr 1) = 0"
  "partition_type (decode_entry demo_mbr 2) = 0"
  "partition_type (decode_entry demo_mbr 3) = 0"
  by (simp_all add: decode_entry_def demo_mbr_def entries_offset_def slice_def nth_append Let_def)

lemma demo_signature: "has_signature demo_mbr"
  by (simp add: has_signature_def demo_mbr_def nth_append)

lemma walk_loop_Done: "0 < n \<Longrightarrow> walk_loop n D d w (Done t) = Some (d, [], Ok t)"
  by (cases n) simp_all

lemma demo_table: "read_table mem_ops demo_disk =
   Some (demo_disk, [0], Ok \<lparr>table_partitions = [\<lparr>number = 1, start_lba = 1, sectors = 1\<rparr>], table_container = None\<rparr>)"
proof -
  have "read_table_sector mem_ops demo_disk 0 = (demo_disk, Ok demo_mbr)"
    by (simp add: read_table_sector_def mem_ops_def mem_read_def Let_def demo_disk_def mem_range_def
      sector_size_def slice_def checked_add_def)
  moreover have "disk_size mem_ops demo_disk = 1024"
    by (simp add: mem_ops_def mem_size_def demo_disk_def)
  ultimately show ?thesis
    by (simp add: read_table_def walker_new_def sector_size_def max_ebrs_def start_def demo_signature demo_entries demo_entries [simplified] start_entry_def check_span_def
      checked_add_def is_extended_def finalize_def container_overlap_def Let_def walk_loop_Done)
qed

text \<open>
  Reading a partition table always ends, whatever the device answers: it asks for sector 0
  and at most \<open>MAX_EBRS\<close> further sectors, and never hits the walker's \<open>expect\<close>. A table it accepts
  is safe for the device: partitions are non-empty, inside the device, pairwise disjoint,
  numbered unambiguously, and none covers one of the table sectors that were read.
\<close>

theorem table_walk_total:
  assumes "\<And>d. disk_size D d < 2 ^ 64"
  shows "\<exists>d' lbas res. read_table D d = Some (d', lbas, res) \<and> hd lbas = 0 \<and>
     length lbas \<le> Suc max_ebrs \<and>
     (\<forall>t. res = Ok t \<longrightarrow> (\<exists>d1. table_safe (disk_size D d1 div sector_size) lbas t))"
proof -
  obtain d' lbas res where "read_table D d = Some (d', 0 # lbas, res)" "length lbas \<le> max_ebrs"
    "\<forall>t. res = Ok t \<longrightarrow> (\<exists>d1. table_safe (disk_size D d1 div sector_size) (0 # lbas) t)"
    using read_table_returns [OF assms, of d] by blast
  then show ?thesis by (intro exI [of _ d'] exI [of _ "0 # lbas"] exI [of _ res]) simp
qed

theorem table_walk_total_witness:
  "\<exists>d1. table_safe (disk_size mem_ops d1 div sector_size) [0]
     \<lparr>table_partitions = [\<lparr>number = 1, start_lba = 1, sectors = 1\<rparr>], table_container = None\<rparr>"
  using table_walk_total [of mem_ops, OF mem.size_u64, of demo_disk] by (simp add: demo_table)



text \<open>
  Accesses through a bound window. A range that leaves the window is refused and the device is
  not touched; over \<open>disk.mem\<close> a write that succeeds is read back exactly, at the same offset.
\<close>

theorem disk_part_window_access:
  assumes "bound_window st = Some w"
  shows "(win_len w < offset + length src \<longrightarrow>
       (\<exists>st'. part_write D st d offset src = Some (st', d, src, Err WriteOutOfRange)) \<and>
       (\<exists>st'. part_read D st d offset src = Some (st', d, src, Err ReadOutOfRange))) \<and>
     (part_write mem_ops st m offset src = Some (st1, m1, src1, Ok n) \<and> length dst = length src \<longrightarrow>
       n = length src \<and> (\<exists>st2 m2. part_read mem_ops st1 m1 offset dst = Some (st2, m2, src, Ok n)))"
proof -
  have out: "translate w offset (length src) = None" if "win_len w < offset + length src"
    using that by (auto simp: translate_def)
  have "n = length src \<and> (\<exists>st2 m2. part_read mem_ops st1 m1 offset dst = Some (st2, m2, src, Ok n))"
    if wr: "part_write mem_ops st m offset src = Some (st1, m1, src1, Ok n)" "length dst = length src"
  proof -
    have ens: "ensure_window mem_ops st m = Some (Some (with_state st), m, Ok w)"
      using assms by (simp add: ensure_window_def Let_def)
    with wr(1) obtain adr where adr: "translate w offset (length src) = Some adr"
      by (cases "translate w offset (length src)") (auto simp: part_write_def)
    with wr(1) ens have mw: "mem_write m adr src = (m1, src1, Ok n)" and st1: "st1 = Some (with_state st)"
      by (auto simp: part_write_def mem_ops_def split: prod.splits)
    then obtain at end_at where rng: "mem_range (length (with_device m)) adr (length src) = Some (at, end_at)"
      by (auto simp: mem_write_def Let_def split: option.splits)
    let ?dev = "take adr (with_device m) @ src @ drop (adr + length src) (with_device m)"
    have r: "at = adr" "end_at = adr + length src" "adr + length src \<le> length (with_device m)"
      using mem_range_Some [OF rng] by auto
    then have m1: "m1 = Some ?dev" "n = length src"
      using mw rng by (auto simp: mem_write_def Let_def)
    have len: "length ?dev = length (with_device m)" using r(3) by simp
    have "slice adr (length src) ?dev = src"
      using r(3) by (simp add: slice_def)
    then have "mem_read m1 adr dst = (Some ?dev, src, Ok n)"
      using m1 rng len r wr(2) by (simp add: mem_read_def Let_def)
    moreover have "ensure_window mem_ops st1 m1 = Some (st1, m1, Ok w)"
      using assms st1 by (simp add: ensure_window_def Let_def)
    ultimately show ?thesis
      using m1 adr wr(2) by (simp add: part_read_def mem_ops_def)
  qed
  with out assms show ?thesis
    by (simp add: part_write_def part_read_def ensure_window_def Let_def)
qed

theorem disk_part_window_access_witness:
  "\<exists>st'. part_write mem_ops (Some \<lparr>selected = 1, part_window = Some \<lparr>win_start = 512, win_len = 512\<rparr>\<rparr>)
     None 511 [1, 2] = Some (st', None, [1, 2], Err WriteOutOfRange)"
proof -
  let ?st = "Some \<lparr>selected = 1, part_window = Some \<lparr>win_start = 512, win_len = 512\<rparr>\<rparr>"
  have "bound_window ?st = Some \<lparr>win_start = 512, win_len = 512\<rparr>" by simp
  from disk_part_window_access [OF this, of 511 "[1, 2]" mem_ops None] show ?thesis by simp
qed

end
