(* ===== verification/Stick_Flash.thy ===== *)
theory Stick_Flash
  imports Fatwalk Disk_Part
begin

text \<open>
  The bridge between the synchronous FAT walk and the asynchronous disk
  (\<open>guest/examples/stickflash/src/lib.rs\<close>, \<open>CachedSectors\<close> and \<open>demand_fat\<close>): a walk is run
  against the sectors fetched so far, a miss names the sector to fetch, and the walk is run again.
  The locale \<open>sector_walk\<close> is what makes that sound; opening a volume and locating a file are its
  two instances.
\<close>

section \<open>Cached sectors\<close>

type_synonym sector_cache = "nat \<rightharpoonup> bytes"

definition cached_read :: "sector_cache \<Rightarrow> nat \<Rightarrow> (bytes, nat) result" where
  "cached_read cache lba = (case cache lba of Some b \<Rightarrow> Ok b | None \<Rightarrow> Err lba)"

datatype fat_failure =
    DiskFailed nat read_error
  | DiskShort nat nat
  | Refused fat_error
  | TooManyFetches

definition max_meta_fetches :: nat where
  "max_meta_fetches = 65536"

type_synonym 't walk = "(nat \<Rightarrow> (bytes, nat) result) \<Rightarrow> ('t, nat error) result exec"

text \<open>One round of the loop; \<open>n\<close> is the number of fetches it may still make.\<close>

fun demand_loop ::
  "nat \<Rightarrow> 'd disk_ops \<Rightarrow> 'd \<Rightarrow> sector_cache \<Rightarrow> 't walk \<Rightarrow>
     ('d \<times> sector_cache \<times> ('t, fat_failure) result) exec" where
  "demand_loop n D d cache op = do {
     r \<leftarrow> op (cached_read cache);
     (case r of
        Ok value \<Rightarrow> Some (d, cache, Ok value)
      | Err (Fat refusal) \<Rightarrow> Some (d, cache, Err (Refused refusal))
      | Err (Device lba) \<Rightarrow>
          (case n of
             0 \<Rightarrow> Some (d, cache, Err TooManyFetches)
           | Suc n \<Rightarrow>
               (case disk_read D d (lba * sector) (replicate sector 0) of
                  (d, dst, Err e) \<Rightarrow> Some (d, cache, Err (DiskFailed lba e))
                | (d, dst, Ok got) \<Rightarrow>
                    if got \<noteq> sector then Some (d, cache, Err (DiskShort lba got))
                    else do {
                      let b = slice 0 sector dst;
                      assert_exec (length b = sector);
                      demand_loop n D d (cache(lba \<mapsto> b)) op
                    })))
   }"

definition demand_fat ::
  "'d disk_ops \<Rightarrow> 'd \<Rightarrow> sector_cache \<Rightarrow> 't walk \<Rightarrow> ('d \<times> sector_cache \<times> ('t, fat_failure) result) exec" where
  "demand_fat D d cache op = demand_loop max_meta_fetches D d cache op"

declare demand_loop.simps [simp del]


section \<open>What the bridge relies on\<close>

text \<open>The whole device as a sector cache that misses nothing.\<close>

definition disk_image :: "(nat \<Rightarrow> byte) \<Rightarrow> sector_cache" where
  "disk_image f lba = Some (map f [lba * sector..<lba * sector + sector])"

text \<open>
  A walk that only depends on the sectors it asks for: it reports a miss only of a sector that is
  missing, and with more sectors cached it either gives the answer it would give on all of them
  or reports a miss.
\<close>

locale sector_walk =
  fixes op :: "'t walk"
  assumes miss: "op (cached_read c) = Some (Err (Device lba)) \<Longrightarrow> c lba = None"
    and same: "c \<subseteq>\<^sub>m full \<Longrightarrow> op (cached_read c) = op (cached_read full) \<or>
          (\<exists>lba. op (cached_read c) = Some (Err (Device lba)))"

text \<open>A device whose successful reads answer the stored bytes.\<close>

locale stable_disk = block_disk D content for D :: "'d disk_ops" and content +
  assumes read_content: "disk_read D d off dst = (d', dst', Ok (length dst)) \<Longrightarrow>
      dst' = map (content d) [off..<off + length dst]"

interpretation mem_stable: stable_disk mem_ops mem_content
proof unfold_locales
  fix d off dst d' dst'
  assume rd: "disk_read mem_ops d off dst = (d', dst', Ok (length dst))"
  then obtain at end_at where rng: "mem_range (length (with_device d)) off (length dst) = Some (at, end_at)"
    by (auto simp: mem_ops_def mem_read_def Let_def split: option.splits)
  have r: "at = off" "end_at = off + length dst" "off + length dst \<le> length (with_device d)"
    using mem_range_Some [OF rng] by auto
  have "dst' = slice off (length dst) (with_device d)"
    using rd rng r by (auto simp: mem_ops_def mem_read_def Let_def)
  also have "\<dots> = map (mem_content d) [off..<off + length dst]"
    using r(3) by (intro nth_equalityI) (auto simp: slice_def mem_content_def Let_def)
  finally show "dst' = map (mem_content d) [off..<off + length dst]" .
qed

context sector_walk
begin

text \<open>What a bridged walk may answer, given what it answers on the whole device.\<close>

definition bridged :: "('d \<Rightarrow> nat \<Rightarrow> byte) \<Rightarrow> 'd \<Rightarrow> sector_cache \<Rightarrow>
    ('d \<times> sector_cache \<times> ('t, fat_failure) result) exec \<Rightarrow> bool" where
  "bridged content d c res \<longleftrightarrow>
     (case res of
        None \<Rightarrow> op (cached_read (disk_image (content d))) = None
      | Some (d', c', r) \<Rightarrow> content d' = content d \<and> c \<subseteq>\<^sub>m c' \<and> c' \<subseteq>\<^sub>m disk_image (content d) \<and>
          (case r of
             Ok v \<Rightarrow> op (cached_read (disk_image (content d))) = Some (Ok v)
           | Err (Refused e) \<Rightarrow> op (cached_read (disk_image (content d))) = Some (Err (Fat e))
           | Err _ \<Rightarrow> True))"

lemma bridged_settled:
  assumes "c \<subseteq>\<^sub>m disk_image (content d)" and "\<And>lba. op (cached_read c) \<noteq> Some (Err (Device lba))"
  shows "bridged content d c (demand_loop n D d c op)"
proof -
  have full: "op (cached_read c) = op (cached_read (disk_image (content d)))"
    using same [OF assms(1)] assms(2) by blast
  show ?thesis
  proof (cases "op (cached_read c)")
    case None
    with full show ?thesis by (simp add: demand_loop.simps bridged_def)
  next
    case (Some r)
    show ?thesis
    proof (cases r)
      case (Err e)
      with Some assms full show ?thesis by (cases e) (auto simp: demand_loop.simps bridged_def)
    qed (use Some assms full in \<open>auto simp: demand_loop.simps bridged_def\<close>)
  qed
qed

lemma bridged_step:
  assumes "bridged content d1 c1 res" and same: "content d1 = content d" and "c \<subseteq>\<^sub>m c1"
  shows "bridged content d c res"
proof (cases res)
  case (Some p)
  obtain d' c' r where "p = (d', c', r)" by (metis prod_cases3)
  with Some assms map_le_trans [OF assms(3), of c'] show ?thesis
    unfolding bridged_def same by simp
qed (use assms in \<open>simp add: bridged_def\<close>)

lemma demand_loop_sound:
  assumes disk: "stable_disk D content" and "c \<subseteq>\<^sub>m disk_image (content d)"
  shows "bridged content d c (demand_loop n D d c op)"
  using assms(2)
proof (induction n arbitrary: d c)
  case (0 d c)
  show ?case
  proof (cases "\<exists>lba. op (cached_read c) = Some (Err (Device lba))")
    case True
    with 0 show ?thesis by (auto simp: demand_loop.simps bridged_def)
  qed (use bridged_settled [of c content d] 0 in blast)
next
  case (Suc n)
  show ?case
  proof (cases "\<exists>lba. op (cached_read c) = Some (Err (Device lba))")
    case True
    then obtain lba where lba: "op (cached_read c) = Some (Err (Device lba))" by blast
    from miss lba have new: "c lba = None" by blast
    obtain d1 dst q where rd: "disk_read D d (lba * sector) (replicate sector 0) = (d1, dst, q)"
      by (metis prod_cases3)
    have kept: "content d1 = content d"
      by (rule block_disk.read_keeps [OF stable_disk.axioms(1) [OF disk] rd])
    show ?thesis
    proof (cases "q = Ok sector")
      case False
      with lba rd kept Suc.prems show ?thesis
        by (subst demand_loop.simps) (cases q, auto simp: bridged_def)
    next
      case True
      then have dst: "dst = map (content d) [lba * sector..<lba * sector + sector]"
        using stable_disk.read_content [OF disk, of d "lba * sector" "replicate sector 0"] rd by simp
      then have b: "slice 0 sector dst = dst" "length dst = sector" by (simp_all add: slice_def)
      have sub: "c(lba \<mapsto> dst) \<subseteq>\<^sub>m disk_image (content d1)"
        using Suc.prems kept dst by (auto simp: map_le_def disk_image_def)
      have "demand_loop (Suc n) D d c op = demand_loop n D d1 (c(lba \<mapsto> dst)) op"
        using lba rd True b by (subst demand_loop.simps) (simp add: Let_def)
      moreover have "c \<subseteq>\<^sub>m c(lba \<mapsto> dst)" using new by (auto simp: map_le_def)
      ultimately show ?thesis
        using bridged_step [OF Suc.IH [OF sub] kept] by metis
    qed
  qed (use bridged_settled [of c content d] Suc.prems in blast)
qed

end


section \<open>The FAT walks only depend on what they read\<close>

text \<open>One device answers like another wherever it answers at all.\<close>

definition dev_le :: "'e sector_read \<Rightarrow> 'e sector_read \<Rightarrow> bool" where
  "dev_le d1 d2 \<longleftrightarrow> (\<forall>lba. d1 lba = d2 lba \<or> (\<exists>e. d1 lba = Err e))"

definition refused_by :: "'e sector_read \<Rightarrow> 'e \<Rightarrow> bool" where
  "refused_by dev e \<longleftrightarrow> (\<exists>lba. dev lba = Err e)"

lemma fat_entry_local:
  assumes "dev_le d1 d2"
  shows "fat_entry v d1 cache c = fat_entry v d2 cache c \<or>
     (\<exists>e. fat_entry v d1 cache c = Err (Device e) \<and> refused_by d1 e)"
proof (cases "cache_lba cache = Some (reserved_sectors v + c div (sector div 4))")
  case False
  have "d1 (reserved_sectors v + c div (sector div 4)) = d2 (reserved_sectors v + c div (sector div 4)) \<or>
      (\<exists>e. d1 (reserved_sectors v + c div (sector div 4)) = Err e)"
    using assms by (auto simp: dev_le_def)
  with False show ?thesis by (auto simp: fat_entry_def Let_def refused_by_def)
qed (simp add: fat_entry_def Let_def)

lemma scan_sectors_local:
  assumes "dev_le d1 d2"
  shows "scan_sectors d1 want lbas = scan_sectors d2 want lbas \<or>
     (\<exists>e. scan_sectors d1 want lbas = Some (Err (Device e)) \<and> refused_by d1 e)"
proof (induction lbas)
  case (Cons l ls)
  have "d1 l = d2 l \<or> (\<exists>e. d1 l = Err e)" using assms by (simp add: dev_le_def)
  then show ?case
  proof
    assume eq: "d1 l = d2 l"
    show ?thesis
    proof (cases "d2 l")
      case (Ok b)
      with eq Cons show ?thesis
        by (cases "scan_entries want (chunks_32 b)") (auto split: result.splits)
    qed (use eq in simp)
  qed (auto simp: refused_by_def)
qed simp

lemma root_loop_local:
  assumes le: "dev_le d1 d2"
  shows "root_loop v d1 want n cache c = root_loop v d2 want n cache c \<or>
     (\<exists>e. root_loop v d1 want n cache c = Some (Err (Device e)) \<and> refused_by d1 e)"
proof (induction n arbitrary: cache c)
  case (Suc n)
  show ?case
  proof (cases "cluster_lba v c")
    case (Some l)
    let ?ls = "[l..<l + sectors_per_cluster v]"
    show ?thesis
    proof (cases "scan_sectors d1 want ?ls = scan_sectors d2 want ?ls")
      case scan: True
      show ?thesis
      proof (cases "scan_sectors d2 want ?ls")
        case None
        from fat_entry_local [OF le, of v cache c] show ?thesis
        proof (elim disjE exE conjE)
          assume eq: "fat_entry v d1 cache c = fat_entry v d2 cache c"
          show ?thesis
          proof (cases "fat_entry v d2 cache c")
            case (Ok p)
            obtain cache' nx where "p = (cache', nx)" by fastforce
            with Some scan None eq Ok Suc [of cache' nx] show ?thesis by auto
          qed (use Some scan None eq in simp)
        qed (use Some scan None in auto)
      qed (use Some scan in simp)
    next
      case False
      with scan_sectors_local [OF le, of want ?ls] Some show ?thesis by auto
    qed
  qed simp
qed simp

lemma chain_loop_local:
  assumes le: "dev_le d1 d2"
  shows "chain_loop v d1 cache c pre = chain_loop v d2 cache c pre \<or>
     (\<exists>e. chain_loop v d1 cache c pre = Err (Device e) \<and> refused_by d1 e)"
proof (induction "Suc (cluster_count v) - length pre" arbitrary: cache c pre rule: less_induct)
  case less
  show ?case
  proof (cases "length (pre @ [c]) > cluster_count v")
    case True
    then show ?thesis by (simp add: chain_loop.simps Let_def)
  next
    case short: False
    from fat_entry_local [OF le, of v cache c] show ?thesis
    proof (elim disjE exE conjE)
      assume eq: "fat_entry v d1 cache c = fat_entry v d2 cache c"
      show ?thesis
      proof (cases "fat_entry v d2 cache c")
        case (Ok p)
        obtain cache' nx where p: "p = (cache', nx)" by fastforce
        have "Suc (cluster_count v) - length (pre @ [c]) < Suc (cluster_count v) - length pre"
          using short by simp
        from less [OF this, of cache' nx] show ?thesis
          using short eq Ok p
          by (subst (1 2 3) chain_loop.simps) (simp add: Let_def)
      qed (use short eq in \<open>simp add: chain_loop.simps Let_def\<close>)
    next
      fix e
      assume "fat_entry v d1 cache c = Err (Device e)" and "refused_by d1 e"
      with short show ?thesis by (subst (1 3) chain_loop.simps) (simp add: Let_def)
    qed
  qed
qed

text \<open>A device error is always the answer to some read.\<close>

lemma fat_entry_refused: "fat_entry v dev cache c = Err (Device e) \<Longrightarrow> refused_by dev e"
  by (auto simp: fat_entry_def Let_def and_then_Err refused_by_def split: if_splits result.splits)

lemma fat_entry_error: "fat_entry v dev cache c = Err x \<Longrightarrow> \<exists>e. x = Device e"
  by (auto simp: fat_entry_def Let_def and_then_Err split: if_splits result.splits)

lemma scan_sectors_refused: "scan_sectors dev want lbas = Some (Err (Device e)) \<Longrightarrow> refused_by dev e"
  by (induction lbas) (auto simp: refused_by_def split: result.splits option.splits)

lemma root_loop_refused: "root_loop v dev want n cache c = Some (Err (Device e)) \<Longrightarrow> refused_by dev e"
proof (induction n arbitrary: cache c)
  case (Suc n)
  then obtain l where l: "cluster_lba v c = Some l" by (auto simp: bind_eq_Some_conv)
  show ?case
  proof (cases "scan_sectors dev want [l..<l + sectors_per_cluster v]")
    case None
    show ?thesis
    proof (cases "fat_entry v dev cache c")
      case (Ok p)
      obtain cache' nx where "p = (cache', nx)" by fastforce
      with Suc l None Ok show ?thesis by (auto split: if_splits)
    next
      case (Err x)
      with Suc.prems l None show ?thesis by (auto intro: fat_entry_refused)
    qed
  qed (use Suc.prems l in \<open>auto intro: scan_sectors_refused\<close>)
qed simp

lemma chain_loop_refused: "chain_loop v dev cache c pre = Err (Device e) \<Longrightarrow> refused_by dev e"
proof (induction v dev cache c pre rule: chain_loop.induct)
  case (1 v dev cache c pre)
  have short: "\<not> length (pre @ [c]) > cluster_count v"
    using 1(2) by (subst (asm) chain_loop.simps) (auto simp: Let_def split: if_splits)
  show ?case
  proof (cases "fat_entry v dev cache c")
    case (Ok p)
    obtain cache' nx where p: "p = (cache', nx)" by fastforce
    with 1(2) short Ok have "\<not> fat32_eoc \<le> nx" "nx \<noteq> 0" "\<not> (nx = fat32_bad \<or> \<not> valid_cluster v nx)"
      "chain_loop v dev cache' nx (pre @ [c]) = Err (Device e)"
      by (subst (asm) (1) chain_loop.simps, simp add: Let_def split: if_splits)+
    with 1(1) [OF refl short] Ok p show ?thesis by blast
  next
    case (Err x)
    with 1(2) short have "x = Device e"
      by (subst (asm) chain_loop.simps) (simp add: Let_def)
    with Err show ?thesis by (simp add: fat_entry_refused)
  qed
qed

lemma chain_of_local:
  assumes "dev_le d1 d2"
  shows "chain_of v d1 f = chain_of v d2 f \<or> (\<exists>e. chain_of v d1 f = Err (Device e) \<and> refused_by d1 e)"
  using chain_loop_local [OF assms, of v fat_cache_new "first_cluster f" "[]"]
  by (auto simp: chain_of_def Let_def)

lemma chain_of_refused: "chain_of v dev f = Err (Device e) \<Longrightarrow> refused_by dev e"
  by (auto simp: chain_of_def Let_def and_then_Err split: if_splits intro: chain_loop_refused)

lemma cached_read_le: "c \<subseteq>\<^sub>m full \<Longrightarrow> dev_le (cached_read c) (cached_read full)"
  by (fastforce simp: dev_le_def cached_read_def map_le_def dom_def split: option.splits)

lemma cached_read_refused: "refused_by (cached_read c) e \<Longrightarrow> c e = None"
  by (auto simp: refused_by_def cached_read_def split: option.splits)

interpretation open_walk: sector_walk volume_open
proof
  fix c and lba :: nat
  assume "volume_open (cached_read c) = Some (Err (Device lba))"
  then have "cached_read c 0 = Err lba"
  proof (cases "cached_read c 0")
    case (Ok boot)
    assume asm: "volume_open (cached_read c) = Some (Err (Device lba))"
    with Ok obtain r where "volume_parse boot = Some r" by (auto simp: volume_open_def bind_eq_Some_conv)
    with asm Ok show ?thesis by (cases r) (simp_all add: volume_open_def)
  qed (simp add: volume_open_def)
  then show "c lba = None" by (auto simp: cached_read_def split: option.splits)
next
  fix c full :: sector_cache
  assume "c \<subseteq>\<^sub>m full"
  from cached_read_le [OF this] have "cached_read c 0 = cached_read full 0 \<or> (\<exists>e. cached_read c 0 = Err e)"
    by (simp add: dev_le_def)
  then show "volume_open (cached_read c) = volume_open (cached_read full) \<or>
      (\<exists>lba. volume_open (cached_read c) = Some (Err (Device lba)))"
    by (elim disjE exE) (simp_all add: volume_open_def)
qed

lemma locate_local:
  assumes "dev_le d1 d2"
  shows "locate v d1 name = locate v d2 name \<or>
     (\<exists>e. locate v d1 name = Some (Err (Device e)) \<and> refused_by d1 e)"
proof -
  consider (same) "find_root_file v d1 name = find_root_file v d2 name"
    | (miss) e where "find_root_file v d1 name = Some (Err (Device e))" "refused_by d1 e"
    proof (cases "name_to_83 name")
      case (Ok want)
      from root_loop_local [OF assms, of v want "Suc (cluster_count v)" fat_cache_new "root_cluster v"]
      show ?thesis using that Ok by (auto simp: find_root_file_def simp del: root_loop.simps)
    qed (use that in \<open>simp add: find_root_file_def\<close>)
  then show ?thesis
  proof cases
    case same
    then show ?thesis
    proof (cases "find_root_file v d2 name")
      case (Some r)
      with same chain_of_local [OF assms, of v] show ?thesis
        by (cases r) (auto simp: locate_def)
    qed (simp add: locate_def)
  qed (simp add: locate_def)
qed

lemma locate_refused:
  assumes "locate v dev name = Some (Err (Device e))"
  shows "refused_by dev e"
proof -
  obtain r where r: "find_root_file v dev name = Some r" using assms by (auto simp: locate_def bind_eq_Some_conv)
  show ?thesis
  proof (cases r)
    case (Ok f)
    with r assms show ?thesis by (simp add: locate_def chain_of_refused)
  next
    case (Err x)
    with r assms have "find_root_file v dev name = Some (Err (Device e))" by (simp add: locate_def)
    then show ?thesis
      by (auto simp: find_root_file_def simp del: root_loop.simps split: result.splits intro: root_loop_refused)
  qed
qed

interpretation locate_walk: sector_walk "\<lambda>dev. locate v dev name" for v name
proof
  fix c and lba :: nat
  assume "locate v (cached_read c) name = Some (Err (Device lba))"
  then show "c lba = None" by (intro cached_read_refused locate_refused)
next
  fix c full :: sector_cache
  assume "c \<subseteq>\<^sub>m full"
  from locate_local [OF cached_read_le [OF this], of v name]
  show "locate v (cached_read c) name = locate v (cached_read full) name \<or>
      (\<exists>lba. locate v (cached_read c) name = Some (Err (Device lba)))" by blast
qed


section \<open>Properties\<close>



end
