(* ===== verification/Flashwire.thy ===== *)
theory Flashwire
  imports Prelude
begin

text \<open>
  The network-flash wire protocol (\<open>crates/eo9-flashwire/src/lib.rs\<close>): the table-driven CRC-32, the
  full-length secret compare, the handshake frames, and the transfer phase with its CRC
  accumulator and acknowledgement clock. CRC arithmetic is on \<^typ>\<open>32 word\<close>; byte counts are
  natural numbers with the \<open>u64\<close> bound written at each addition.
\<close>

unbundle bit_operations_syntax

section \<open>CRC-32\<close>

definition crc_bit :: "32 word \<Rightarrow> 32 word" where
  "crc_bit c = (if c AND 1 \<noteq> 0 then drop_bit 1 c XOR 0xEDB88320 else drop_bit 1 c)"

definition crc_table :: "32 word list" where
  "crc_table = map (\<lambda>i. (crc_bit ^^ 8) (word_of_nat i)) [0..<256]"

type_synonym crc32 = "32 word"

definition crc_new :: crc32 where
  "crc_new = 0xFFFFFFFF"

definition crc_step :: "crc32 \<Rightarrow> byte \<Rightarrow> crc32" where
  "crc_step c b = drop_bit 8 c XOR crc_table ! unat ((c XOR ucast b) AND 0xFF)"

definition crc_update :: "crc32 \<Rightarrow> bytes \<Rightarrow> crc32" where
  "crc_update c bs = foldl crc_step c bs"

definition crc_finalize :: "crc32 \<Rightarrow> 32 word" where
  "crc_finalize c = NOT c"

definition crc_of :: "bytes \<Rightarrow> 32 word" where
  "crc_of bs = crc_finalize (crc_update crc_new bs)"


section \<open>Frames\<close>

definition magic :: bytes where "magic = [0x45, 0x4F, 0x39, 0x4C]"
definition header_frame :: nat where "header_frame = 24"
definition crc_frame :: nat where "crc_frame = 4"
definition ack_interval :: nat where "ack_interval = 64 * 1024"
definition max_secret_frame :: nat where "max_secret_frame = 256"
definition go_ahead :: byte where "go_ahead = 0x47"

datatype refusal =
    BadMagic
  | BadSecretLength nat
  | BadSecret
  | BadImageLength nat nat
  | CrcMismatch "32 word" "32 word"
  | NotGoAhead byte

text \<open>
  The running difference of \<open>secret_matches\<close>: the loop folds every wire byte into it. Lengths are
  \<open>usize\<close> values, truncated to 32 bits as the code truncates them.
\<close>

fun secret_diff :: "nat \<Rightarrow> bytes \<Rightarrow> bytes \<Rightarrow> 32 word \<Rightarrow> 32 word" where
  "secret_diff i [] expected diff = diff"
| "secret_diff i (b # wire) expected diff =
     secret_diff (Suc i) wire expected (diff OR ucast (b XOR expected ! (i mod length expected)))"

definition secret_matches :: "bytes \<Rightarrow> bytes \<Rightarrow> bool" where
  "secret_matches wire expected =
     (if expected = [] then wire = []
      else secret_diff 0 wire expected
             (ucast (word_of_nat (length wire) XOR word_of_nat (length expected) :: 64 word)) = 0)"

record header =
  load_addr :: nat
  hdr_length :: nat
  x0 :: nat

definition header_parse :: "bytes \<Rightarrow> header exec" where
  "header_parse frame = do {
     assert_exec (length frame = header_frame);
     Some \<lparr>load_addr = le_decode (slice 0 8 frame), hdr_length = le_decode (slice 8 8 frame),
           x0 = le_decode (slice 16 8 frame)\<rparr>
   }"

definition feed_magic :: "bytes \<Rightarrow> (unit, refusal) result" where
  "feed_magic frame = (if frame = magic then Ok () else Err BadMagic)"

definition feed_secret_length :: "bytes \<Rightarrow> (nat, refusal) result" where
  "feed_secret_length frame =
     (let n = le_decode frame in
      if n = 0 \<or> n > max_secret_frame then Err (BadSecretLength n) else Ok n)"

definition feed_secret :: "bytes \<Rightarrow> bytes \<Rightarrow> (unit, refusal) result" where
  "feed_secret secret wire = (if secret_matches wire secret then Ok () else Err BadSecret)"


section \<open>Transfer\<close>

record transfer =
  max_image :: nat
  tr_length :: nat
  tr_offset :: nat
  next_ack :: nat
  tr_crc :: crc32

definition transfer_new :: "nat \<Rightarrow> transfer" where
  "transfer_new n =
     \<lparr>max_image = n, tr_length = 0, tr_offset = 0, next_ack = ack_interval, tr_crc = crc_new\<rparr>"

definition feed_header :: "transfer \<Rightarrow> bytes \<Rightarrow> (transfer \<times> (header, refusal) result) exec" where
  "feed_header t frame = do {
     h \<leftarrow> header_parse frame;
     (if hdr_length h = 0 \<or> hdr_length h > max_image t
      then Some (t, Err (BadImageLength (hdr_length h) (max_image t)))
      else Some (t\<lparr>tr_length := hdr_length h\<rparr>, Ok h))
   }"

definition remaining :: "transfer \<Rightarrow> nat exec" where
  "remaining t = minus_exec (tr_length t) (tr_offset t)"

definition complete :: "transfer \<Rightarrow> bool" where
  "complete t \<longleftrightarrow> tr_length t > 0 \<and> tr_offset t = tr_length t"

function ack_loop :: "nat \<Rightarrow> nat \<Rightarrow> nat \<Rightarrow> (nat \<times> nat) exec" where
  "ack_loop offset nxt acks =
     (if offset \<ge> nxt
      then (case plus_exec 64 nxt ack_interval of
              None \<Rightarrow> None
            | Some nxt' \<Rightarrow> ack_loop offset nxt' (acks + 1))
      else Some (nxt, acks))"
  by pat_completeness auto
termination
  by (relation "measure (\<lambda>(offset, nxt, _). Suc offset - nxt)") (auto simp: ack_interval_def)

declare ack_loop.simps [simp del]

record progress =
  pr_offset :: nat
  acks_due :: nat

definition feed_payload :: "transfer \<Rightarrow> bytes \<Rightarrow> (transfer \<times> progress) exec" where
  "feed_payload t chunk = do {
     rest \<leftarrow> remaining t;
     assert_exec (length chunk \<le> rest);
     let crc = crc_update (tr_crc t) chunk;
     off \<leftarrow> plus_exec 64 (tr_offset t) (length chunk);
     (nxt, acks) \<leftarrow> ack_loop off (next_ack t) 0;
     Some (t\<lparr>tr_crc := crc, tr_offset := off, next_ack := nxt\<rparr>, \<lparr>pr_offset = off, acks_due = acks\<rparr>)
   }"

definition feed_crc :: "transfer \<Rightarrow> bytes \<Rightarrow> (32 word, refusal) result exec" where
  "feed_crc t frame = do {
     assert_exec (length frame = crc_frame);
     assert_exec (complete t);
     let wire = word_of_nat (le_decode frame);
     let computed = crc_finalize (tr_crc t);
     Some (if wire = computed then Ok computed else Err (CrcMismatch computed wire))
   }"

definition feed_go_ahead :: "byte \<Rightarrow> (unit, refusal) result" where
  "feed_go_ahead b = (if b = go_ahead then Ok () else Err (NotGoAhead b))"


section \<open>The table is the bitwise CRC\<close>

lemma crc_bit_xor: "crc_bit (x XOR y) = crc_bit x XOR crc_bit y"
proof -
  have odd: "(c AND 1 \<noteq> 0) = bit c 0" for c :: "32 word"
    by (simp add: and_one_eq odd_iff_mod_2_eq_one bit_0)
  show ?thesis
    unfolding crc_bit_def odd by (auto simp: bit_xor_iff ac_simps)
qed

lemma crc_bits_xor: "(crc_bit ^^ n) (x XOR y) = (crc_bit ^^ n) x XOR (crc_bit ^^ n) y"
  by (induction n) (simp_all add: crc_bit_xor)

lemma crc_bit_even: "\<not> bit c 0 \<Longrightarrow> crc_bit c = drop_bit 1 c"
  by (simp add: crc_bit_def and_one_eq bit_0 even_iff_mod_2_eq_zero)

lemma crc_bits_high: "\<forall>i < n. \<not> bit x i \<Longrightarrow> (crc_bit ^^ n) x = drop_bit n x"
proof (induction n arbitrary: x)
  case (Suc n)
  then have "crc_bit x = drop_bit 1 x" by (intro crc_bit_even) simp
  moreover have "\<forall>i < n. \<not> bit (drop_bit 1 x) i" using Suc.prems by (simp add: bit_drop_bit_eq)
  ultimately show ?case using Suc.IH [of "drop_bit 1 x"] by (simp add: funpow_swap1)
qed simp

lemma mask_byte: "(0xFF :: 32 word) = mask 8"
  by (simp add: mask_eq_exp_minus_1)

lemma byte_no_high: "drop_bit 8 (ucast (b :: byte) :: 32 word) = 0"
  by (rule bit_eqI) (auto simp: bit_simps dest: bit_imp_le_length)

text \<open>Eight bitwise steps at once, as the table takes them.\<close>

lemma crc_step_bits: "crc_step c b = (crc_bit ^^ 8) (c XOR ucast b)"
proof -
  define x where "x = c XOR ucast b"
  have split: "x = (x AND mask 8) XOR (x AND NOT (mask 8))"
    by (rule bit_eqI) (auto simp: bit_simps)
  have "(crc_bit ^^ 8) (x AND NOT (mask 8)) = drop_bit 8 (x AND NOT (mask 8))"
    by (rule crc_bits_high) (simp add: bit_simps)
  also have "\<dots> = drop_bit 8 c"
  proof -
    have "drop_bit 8 (x AND NOT (mask 8)) = drop_bit 8 x"
      by (rule bit_eqI) (auto simp: bit_simps dest: bit_imp_le_length)
    also have "\<dots> = drop_bit 8 c XOR drop_bit 8 (ucast b)" by (simp add: x_def drop_bit_xor)
    finally show ?thesis by (simp add: byte_no_high)
  qed
  finally have high: "(crc_bit ^^ 8) (x AND NOT (mask 8)) = drop_bit 8 c" .
  have "x AND mask 8 < 256"
    using and_mask_less_size [of 8 x] by (simp add: word_size)
  then have "unat (x AND mask 8) < 256" by (simp add: word_less_nat_alt)
  then have low: "crc_table ! unat (x AND mask 8) = (crc_bit ^^ 8) (x AND mask 8)"
    by (simp add: crc_table_def)
  have "(crc_bit ^^ 8) x = (crc_bit ^^ 8) (x AND mask 8) XOR drop_bit 8 c"
    by (subst split) (simp only: crc_bits_xor high)
  with low show ?thesis
    by (simp add: crc_step_def mask_byte x_def [symmetric] xor.commute)
qed

lemma xor_zero_eq:
  fixes x y :: "'a::len word"
  assumes "x XOR y = 0"
  shows "x = y"
proof -
  have "x XOR (x XOR y) = x" using assms by simp
  moreover have "x XOR (x XOR y) = y" by (simp flip: xor.assoc)
  ultimately show ?thesis by simp
qed

lemma crc_bit_zero: "crc_bit z = 0 \<Longrightarrow> z = 0"
proof -
  assume zero: "crc_bit z = 0"
  have "\<not> bit z 0"
  proof
    assume "bit z 0"
    then have "drop_bit 1 z XOR 0xEDB88320 = 0"
      using zero by (simp add: crc_bit_def and_one_eq bit_0 odd_iff_mod_2_eq_one split: if_splits)
    then have "drop_bit 1 z = 0xEDB88320" by (rule xor_zero_eq)
    then have "bit (drop_bit 1 z) 31 = bit (0xEDB88320 :: 32 word) 31" by simp
    moreover have "bit (0xEDB88320 :: 32 word) 31" by simp
    ultimately show False by (auto simp: bit_simps dest: bit_imp_le_length)
  qed
  with zero have "drop_bit 1 z = 0" by (simp add: crc_bit_even)
  show "z = 0"
  proof (rule bit_eqI)
    fix n
    show "bit z n \<longleftrightarrow> bit 0 n"
    proof (cases n)
      case (Suc m)
      have "bit (drop_bit 1 z) m = bit z (Suc m)" by (simp add: bit_drop_bit_eq)
      with Suc \<open>drop_bit 1 z = 0\<close> show ?thesis by simp
    qed (use \<open>\<not> bit z 0\<close> in simp)
  qed
qed

lemma crc_bit_inj: "crc_bit x = crc_bit y \<Longrightarrow> x = y"
  using crc_bit_zero [of "x XOR y"] xor_zero_eq [of x y] by (simp add: crc_bit_xor)

lemma crc_bits_inj: "(crc_bit ^^ n) x = (crc_bit ^^ n) y \<Longrightarrow> x = y"
  by (induction n) (auto dest: crc_bit_inj)


section \<open>The secret compare\<close>

lemma ucast_byte_zero: "(ucast (x :: byte) :: 32 word) = 0 \<longleftrightarrow> x = 0"
proof
  assume zero: "(ucast x :: 32 word) = 0"
  show "x = 0"
  proof (rule bit_eqI)
    fix n
    have "bit (ucast x :: 32 word) n \<longleftrightarrow> bit x n"
      by (auto simp: bit_simps dest: bit_imp_le_length)
    with zero show "bit x n \<longleftrightarrow> bit 0 n" by simp
  qed
qed simp

lemma secret_diff_zero:
  "secret_diff i wire expected diff = 0 \<longleftrightarrow>
     diff = 0 \<and> (\<forall>j < length wire. wire ! j = expected ! ((i + j) mod length expected))"
proof (induction wire arbitrary: i diff)
  case (Cons b wire)
  have "b XOR e = 0 \<longleftrightarrow> b = e" for e by (auto dest: xor_zero_eq)
  with Cons show ?case
    by (simp add: or_eq_0_iff ucast_byte_zero All_less_Suc2)
qed simp

lemma length_diff_zero:
  assumes "m < 2 ^ 32" and "n < 2 ^ 32"
  shows "(ucast (word_of_nat m XOR word_of_nat n :: 64 word) :: 32 word) = 0 \<longleftrightarrow> m = n"
proof
  assume zero: "(ucast (word_of_nat m XOR word_of_nat n :: 64 word) :: 32 word) = 0"
  have low: "(ucast (word_of_nat k :: 64 word) :: 32 word) = word_of_nat k" if "k < 2 ^ 32" for k
    using that by (simp add: unsigned_of_nat take_bit_nat_eq_self)
  have "(word_of_nat m :: 32 word) XOR word_of_nat n = 0"
    using zero low [OF assms(1)] low [OF assms(2)] by (simp add: unsigned_xor_eq)
  then have "(word_of_nat m :: 32 word) = word_of_nat n" by (rule xor_zero_eq)
  then have "unat (word_of_nat m :: 32 word) = unat (word_of_nat n :: 32 word)" by simp
  with assms show "m = n" by (simp add: unat_of_nat take_bit_nat_eq_self)
qed simp

text \<open>
  The full-length compare accepts exactly the expected secret, for secrets of any length a
  frame can carry (and any length below 2^32): the accumulated difference is zero only if the
  lengths agree and every byte does.
\<close>

theorem secret_matches_iff:
  assumes "length wire < 2 ^ 32" and "length expected < 2 ^ 32"
  shows "secret_matches wire expected \<longleftrightarrow> wire = expected"
proof (cases "expected = []")
  case False
  show ?thesis
  proof (cases "length wire = length expected")
    case True
    then have "(\<forall>j < length wire. wire ! j = expected ! (j mod length expected)) \<longleftrightarrow> wire = expected"
      by (auto simp: list_eq_iff_nth_eq)
    with True False show ?thesis
      by (simp add: secret_matches_def secret_diff_zero length_diff_zero [OF assms])
  next
    case False
    then show ?thesis
      using \<open>expected \<noteq> []\<close>
      by (auto simp: secret_matches_def secret_diff_zero length_diff_zero [OF assms])
  qed
qed (simp add: secret_matches_def)

theorem secret_matches_iff_witness: "secret_matches [1, 2, 3] [1, 2, 3] \<and> \<not> secret_matches [1, 1] [1]"
  using secret_matches_iff [of "[1, 2, 3]" "[1, 2, 3]"] secret_matches_iff [of "[1, 1]" "[1]"] by simp

text \<open>
  The table-driven CRC is the bitwise CRC-32: one table step is eight steps of the reflected
  polynomial division on the register with the byte folded in.
\<close>

theorem crc_table_correct:
  "crc_update c bs = foldl (\<lambda>c b. (crc_bit ^^ 8) (c XOR ucast b)) c bs"
  unfolding crc_update_def by (induction bs arbitrary: c) (simp_all add: crc_step_bits)

lemma crc_update_append: "crc_update c (xs @ ys) = crc_update (crc_update c xs) ys"
  by (simp add: crc_update_def)

lemma crc_update_inj: "crc_update c xs = crc_update d xs \<Longrightarrow> c = d"
proof (induction xs arbitrary: c d)
  case (Cons x xs)
  then have "crc_step c x = crc_step d x" by (simp add: crc_update_def)
  then have "c XOR ucast x = d XOR ucast x" by (simp add: crc_step_bits crc_bits_inj)
  then have "(c XOR ucast x) XOR ucast x = (d XOR ucast x) XOR ucast x" by simp
  then show ?case by (simp add: xor.assoc)
qed (simp add: crc_update_def)

text \<open>
  Corruption of a single byte anywhere in a payload always changes its CRC, so the trailing
  frame of the original payload is refused.
\<close>

theorem crc_detects_byte:
  "crc_of (pre @ x # post) = crc_of (pre @ y # post) \<longleftrightarrow> x = y"
proof
  assume eq: "crc_of (pre @ x # post) = crc_of (pre @ y # post)"
  let ?c = "crc_update crc_new pre"
  have "NOT (crc_update (crc_step ?c x) post) = NOT (crc_update (crc_step ?c y) post)"
    using eq by (simp add: crc_of_def crc_finalize_def crc_update_append)
       (simp add: crc_update_def)
  then have "crc_update (crc_step ?c x) post = crc_update (crc_step ?c y) post"
    by (metis bit.double_compl)
  then have "crc_step ?c x = crc_step ?c y" by (rule crc_update_inj)
  then have "?c XOR ucast x = ?c XOR ucast y" by (simp add: crc_step_bits crc_bits_inj)
  then have "?c XOR (?c XOR ucast x) = ?c XOR (?c XOR ucast y)" by simp
  then have "(ucast x :: 32 word) = ucast y" by (simp flip: xor.assoc)
  then have "(ucast (x XOR y) :: 32 word) = 0" by (simp add: unsigned_xor_eq)
  then show "x = y" by (auto simp: ucast_byte_zero dest: xor_zero_eq)
qed simp


section \<open>Transfers\<close>

text \<open>A payload fed chunk by chunk, as the receivers do, counting the acknowledgements earned.\<close>

fun feed_chunks :: "transfer \<Rightarrow> bytes list \<Rightarrow> (transfer \<times> nat) exec" where
  "feed_chunks t [] = Some (t, 0)"
| "feed_chunks t (c # cs) = do {
     (t, p) \<leftarrow> feed_payload t c;
     (t, n) \<leftarrow> feed_chunks t cs;
     Some (t, acks_due p + n)
   }"

lemma ack_interval_pos [simp]: "0 < ack_interval"
  by (simp add: ack_interval_def)

lemma ack_loop_eq:
  assumes "k \<le> off div ack_interval + 1" and "(off div ack_interval + 1) * ack_interval < 2 ^ 64"
  shows "ack_loop off (k * ack_interval) acks =
     Some ((off div ack_interval + 1) * ack_interval, acks + (off div ack_interval + 1 - k))"
  using assms(1)
proof (induction "off div ack_interval + 1 - k" arbitrary: k acks)
  case 0
  then have k: "k = off div ack_interval + 1" by simp
  have "off < k * ack_interval"
    unfolding k by (metis ack_interval_pos add.commute dividend_less_div_times mult.commute mult_Suc plus_1_eq_Suc)
  then show ?case by (simp add: ack_loop.simps k)
next
  case (Suc n)
  then have "k \<le> off div ack_interval" by simp
  then have le: "k * ack_interval \<le> off" by (simp add: less_eq_div_iff_mult_less_eq)
  have "(k + 1) * ack_interval \<le> (off div ack_interval + 1) * ack_interval"
    using \<open>k \<le> off div ack_interval\<close> by (intro mult_le_mono1) simp
  then have "(k + 1) * ack_interval < 2 ^ 64" using assms(2) by (rule le_less_trans)
  then have "k * ack_interval + ack_interval < 2 ^ 64" by (simp only: add_mult_distrib mult_1)
  then have "ack_loop off (k * ack_interval) acks = ack_loop off ((k + 1) * ack_interval) (acks + 1)"
    using le by (subst ack_loop.simps) (simp add: plus_exec_def add.commute)
  also have "\<dots> = Some ((off div ack_interval + 1) * ack_interval, (acks + 1) + (off div ack_interval + 1 - (k + 1)))"
    using Suc by (intro Suc.hyps(1)) simp_all
  finally show ?case using \<open>k \<le> off div ack_interval\<close> by simp
qed

text \<open>The state after the payload bytes \<open>seen\<close>.\<close>

definition transfer_at :: "transfer \<Rightarrow> nat \<Rightarrow> bytes \<Rightarrow> bool" where
  "transfer_at t n seen \<longleftrightarrow> tr_length t = n \<and> tr_offset t = length seen \<and>
     next_ack t = (length seen div ack_interval + 1) * ack_interval \<and> tr_crc t = crc_update crc_new seen"

lemma feed_payload_at:
  assumes t: "transfer_at t n seen" and fits: "length seen + length c \<le> n" and n: "n + ack_interval < 2 ^ 64"
  shows "\<exists>t' p. feed_payload t c = Some (t', p) \<and> transfer_at t' n (seen @ c) \<and>
     acks_due p = (length seen + length c) div ack_interval - length seen div ack_interval"
proof -
  let ?off = "length seen + length c"
  have "?off div ack_interval * ack_interval \<le> ?off" by simp
  with fits have "?off div ack_interval * ack_interval + ack_interval \<le> n + ack_interval" by linarith
  with n have room: "(?off div ack_interval + 1) * ack_interval < 2 ^ 64"
    unfolding add_mult_distrib mult_1 by (rule le_less_trans [rotated])
  have "length seen div ack_interval + 1 \<le> ?off div ack_interval + 1"
    by (simp add: div_le_mono)
  from ack_loop_eq [OF this room, of 0] have
    "ack_loop ?off (next_ack t) 0 = Some ((?off div ack_interval + 1) * ack_interval,
        ?off div ack_interval - length seen div ack_interval)"
    using t by (simp add: transfer_at_def)
  with t fits n show ?thesis
    by (auto simp: feed_payload_def remaining_def transfer_at_def minus_exec_def plus_exec_def crc_update_append
        bind_eq_Some_conv)
qed

lemma feed_chunks_at:
  assumes "transfer_at t n seen" and "length seen + length (concat cs) \<le> n" and n: "n + ack_interval < 2 ^ 64"
  shows "\<exists>t'. feed_chunks t cs = Some (t', (length seen + length (concat cs)) div ack_interval -
       length seen div ack_interval) \<and> transfer_at t' n (seen @ concat cs)"
  using assms(1,2)
proof (induction cs arbitrary: t seen)
  case (Cons c cs)
  obtain t1 p where 1: "feed_payload t c = Some (t1, p)" "transfer_at t1 n (seen @ c)"
    "acks_due p = (length seen + length c) div ack_interval - length seen div ack_interval"
    using feed_payload_at [OF Cons.prems(1) _ n, of c] Cons.prems(2) by auto
  have "length (seen @ c) + length (concat cs) \<le> n" using Cons.prems(2) by simp
  from Cons.IH [OF 1(2) this] obtain t2 where 2: "feed_chunks t1 cs = Some (t2,
      (length seen + length c + length (concat cs)) div ack_interval - (length seen + length c) div ack_interval)"
    "transfer_at t2 n (seen @ c @ concat cs)" by auto
  have "length seen div ack_interval \<le> (length seen + length c) div ack_interval"
    "(length seen + length c) div ack_interval \<le> (length seen + length c + length (concat cs)) div ack_interval"
    by (simp_all add: div_le_mono)
  with 1 2 show ?case by (simp add: add.assoc)
qed simp



end
