(* ===== verification/Dns.thy ===== *)
theory Dns
  imports Prelude
begin

text \<open>
  DNS wire encoding and parsing (\<open>crates/eo9-dns/src/lib.rs\<close>): one A/IN question out, the first A
  record back. A label is the list of its bytes. Reading a byte past the end of a packet is a
  panic, so the parser's result has type \<open>exec\<close>.
\<close>

unbundle bit_operations_syntax

section \<open>Data\<close>

datatype name_error = EmptyLabel | LabelTooLong | NameTooLong

datatype reply = A byte byte byte byte | Answered nat

datatype reply_error = Rcode byte | NoRecords


section \<open>Queries\<close>

fun query_labels :: "bytes \<Rightarrow> bytes list \<Rightarrow> (bytes, name_error) result" where
  "query_labels packet [] = Ok packet"
| "query_labels packet (label # labels) =
     (if label = [] then Err EmptyLabel
      else if length label > 63 then Err LabelTooLong
      else query_labels (packet @ [word_of_nat (length label)] @ label) labels)"

definition query :: "nat \<Rightarrow> bytes list \<Rightarrow> (bytes, name_error) result" where
  "query qid labels =
     (let packet = be_encode 2 qid @ [0x01, 0x00] @ [0x00, 0x01] @ [0x00, 0x00, 0x00, 0x00, 0x00, 0x00];
          name_starts = length packet
      in and_then (query_labels packet labels) (\<lambda>packet.
           if labels = [] then Err EmptyLabel
           else let packet = packet @ [0] in
           if length packet - name_starts > 255 then Err NameTooLong
           else Ok (packet @ [0x00, 0x01] @ [0x00, 0x01])))"


section \<open>Replies\<close>

function skip_name :: "bytes \<Rightarrow> nat \<Rightarrow> nat option" where
  "skip_name packet at =
     (if at \<ge> length packet then None
      else let len = packet ! at in
      if len = 0 then Some (at + 1)
      else if len AND 0xC0 = 0xC0 then Some (at + 2)
      else skip_name packet (at + 1 + unat len))"
  by pat_completeness auto
termination
  by (relation "measure (\<lambda>(packet, at). length packet - at)") auto

declare skip_name.simps [simp del]

definition byte_at :: "bytes \<Rightarrow> nat \<Rightarrow> byte exec" where
  "byte_at packet i = (if i < length packet then Some (packet ! i) else None)"

definition u16_at :: "bytes \<Rightarrow> nat \<Rightarrow> nat exec" where
  "u16_at packet i = do { a \<leftarrow> byte_at packet i; b \<leftarrow> byte_at packet (i + 1); Some (be_decode [a, b]) }"

text \<open>The two loops; \<^term>\<open>None\<close> of \<open>skip_questions\<close> is the early return.\<close>

fun skip_questions :: "bytes \<Rightarrow> nat \<Rightarrow> nat \<Rightarrow> nat option" where
  "skip_questions packet 0 at = Some at"
| "skip_questions packet (Suc n) at =
     (case skip_name packet at of Some nx \<Rightarrow> skip_questions packet n (nx + 4) | None \<Rightarrow> None)"

fun find_a :: "bytes \<Rightarrow> nat \<Rightarrow> nat \<Rightarrow> reply option exec" where
  "find_a packet 0 at = Some None"
| "find_a packet (Suc n) at =
     (case skip_name packet at of
        None \<Rightarrow> Some None
      | Some after_name \<Rightarrow>
          if length packet < after_name + 10 then Some None
          else do {
            rtype \<leftarrow> u16_at packet after_name;
            rdlength \<leftarrow> u16_at packet (after_name + 8);
            let rdata = after_name + 10;
            (if rtype = 1 \<and> rdlength = 4 \<and> length packet \<ge> rdata + 4
             then do {
               a \<leftarrow> byte_at packet rdata;
               b \<leftarrow> byte_at packet (rdata + 1);
               c \<leftarrow> byte_at packet (rdata + 2);
               d \<leftarrow> byte_at packet (rdata + 3);
               Some (Some (A a b c d))
             }
             else find_a packet n (rdata + rdlength))
          })"

definition parse_reply :: "bytes \<Rightarrow> nat \<Rightarrow> (reply, reply_error) result option exec" where
  "parse_reply packet qid =
     (if length packet < 12 then Some None
      else if slice 0 2 packet \<noteq> be_encode 2 qid then Some None
      else if packet ! 2 AND 0x80 = 0 then Some None
      else let rcode = packet ! 3 AND 0x0F in
      if rcode \<noteq> 0 then Some (Some (Err (Rcode rcode)))
      else do {
        questions \<leftarrow> u16_at packet 4;
        answers \<leftarrow> u16_at packet 6;
        (if answers = 0 then Some (Some (Err NoRecords))
         else (case skip_questions packet questions 12 of
             None \<Rightarrow> Some (Some (Ok (Answered answers)))
           | Some at \<Rightarrow> do {
               found \<leftarrow> find_a packet answers at;
               Some (Some (Ok (case found of Some r \<Rightarrow> r | None \<Rightarrow> Answered answers)))
             }))
      })"


section \<open>Names\<close>

definition encode_name :: "bytes list \<Rightarrow> bytes" where
  "encode_name labels = concat (map (\<lambda>l. word_of_nat (length l) # l) labels) @ [0]"

definition label_ok :: "bytes \<Rightarrow> bool" where
  "label_ok l \<longleftrightarrow> l \<noteq> [] \<and> length l \<le> 63"

definition dns_header :: "nat \<Rightarrow> bytes" where
  "dns_header qid = be_encode 2 qid @ [0x01, 0x00, 0x00, 0x01, 0, 0, 0, 0, 0, 0]"

lemma query_labels_Ok:
  "query_labels p labels = Ok q \<longleftrightarrow>
     (\<forall>l \<in> set labels. label_ok l) \<and> q = p @ concat (map (\<lambda>l. word_of_nat (length l) # l) labels)"
  by (induction labels arbitrary: p) (auto simp: label_ok_def)

lemma query_Ok:
  "query qid labels = Ok q \<longleftrightarrow> labels \<noteq> [] \<and> (\<forall>l \<in> set labels. label_ok l) \<and>
     length (encode_name labels) \<le> 255 \<and> q = dns_header qid @ encode_name labels @ [0, 1, 0, 1]"
  by (auto simp: query_def Let_def and_then_Ok query_labels_Ok encode_name_def dns_header_def)

lemma label_length_byte:
  assumes "label_ok l"
  shows "unat (word_of_nat (length l) :: byte) = length l" and "(word_of_nat (length l) :: byte) \<noteq> 0"
    and "(word_of_nat (length l) :: byte) AND 0xC0 \<noteq> 0xC0"
proof -
  have len: "length l < 64" "0 < length l" using assms by (auto simp: label_ok_def)
  then show u: "unat (word_of_nat (length l) :: byte) = length l"
    by (simp add: unat_of_nat)
  with len show "(word_of_nat (length l) :: byte) \<noteq> 0"
    by (metis unat_0 less_irrefl)
  show "(word_of_nat (length l) :: byte) AND 0xC0 \<noteq> 0xC0"
  proof
    assume eq: "(word_of_nat (length l) :: byte) AND 0xC0 = 0xC0"
    have "bit (0xC0 :: byte) 7" by simp
    then have "bit (word_of_nat (length l) :: byte) 7"
      using eq by (metis bit_and_iff)
    then have "bit (length l) 7" by (simp add: bit_simps)
    moreover have "length l div 2 ^ 7 = 0" using len by simp
    ultimately show False by (simp add: bit_iff_odd)
  qed
qed

lemma skip_name_encoded:
  assumes "\<forall>l \<in> set labels. label_ok l"
  shows "skip_name (pre @ encode_name labels @ post) (length pre) = Some (length pre + length (encode_name labels))"
  using assms
proof (induction labels arbitrary: pre)
  case Nil
  then show ?case by (simp add: skip_name.simps encode_name_def nth_append)
next
  case (Cons l labels)
  let ?p = "pre @ encode_name (l # labels) @ post"
  have enc: "encode_name (l # labels) = word_of_nat (length l) # l @ encode_name labels"
    by (simp add: encode_name_def)
  have at: "?p ! length pre = word_of_nat (length l)" by (simp add: enc nth_append)
  have "label_ok l" using Cons.prems by simp
  then have "skip_name ?p (length pre) = skip_name ?p (length pre + 1 + length l)"
    using at by (subst skip_name.simps) (simp add: label_length_byte enc Let_def)
  also have "?p = (pre @ (word_of_nat (length l) # l)) @ encode_name labels @ post"
    by (simp add: enc)
  also have "skip_name \<dots> (length pre + 1 + length l) =
      Some (length (pre @ (word_of_nat (length l) # l)) + length (encode_name labels))"
    using Cons.IH [of "pre @ (word_of_nat (length l) # l)"] Cons.prems by simp
  finally show ?case by (simp add: enc)
qed


section \<open>Records\<close>

text \<open>A resource record whose name is a compression pointer to the question, as resolvers send it.\<close>

record rr =
  rr_type :: nat
  rr_class :: nat
  rr_ttl :: nat
  rr_data :: bytes

definition encode_rr :: "rr \<Rightarrow> bytes" where
  "encode_rr r = [0xC0, 0x0C] @ be_encode 2 (rr_type r) @ be_encode 2 (rr_class r) @ be_encode 4 (rr_ttl r) @
     be_encode 2 (length (rr_data r)) @ rr_data r"

definition rr_ok :: "rr \<Rightarrow> bool" where
  "rr_ok r \<longleftrightarrow> rr_type r < 2 ^ 16 \<and> length (rr_data r) < 2 ^ 16"

definition is_a :: "rr \<Rightarrow> bool" where
  "is_a r \<longleftrightarrow> rr_type r = 1 \<and> length (rr_data r) = 4"

definition a_of :: "rr \<Rightarrow> reply" where
  "a_of r = A (rr_data r ! 0) (rr_data r ! 1) (rr_data r ! 2) (rr_data r ! 3)"

definition reply_packet :: "nat \<Rightarrow> byte \<Rightarrow> byte \<Rightarrow> bytes list \<Rightarrow> rr list \<Rightarrow> bytes" where
  "reply_packet qid f1 f2 labels rs = (be_encode 2 qid @ [f1, f2]) @ be_encode 2 1 @ be_encode 2 (length rs) @
     [0, 0, 0, 0] @ encode_name labels @ [0, 1, 0, 1] @ concat (map encode_rr rs)"

lemma u16_at_encoded:
  assumes "v < 2 ^ 16"
  shows "u16_at (pre @ be_encode 2 v @ post) (length pre) = Some v"
proof -
  obtain a b where ab: "be_encode 2 v = [a, b]"
    by (simp add: be_encode_def numeral_2_eq_2)
  have "be_decode [a, b] = v" using be_roundtrip [of v 2] assms ab by simp
  then show ?thesis by (simp add: u16_at_def byte_at_def ab nth_append)
qed

lemma u16_at_encoded':
  "v < 2 ^ 16 \<Longrightarrow> i = length pre \<Longrightarrow> p = pre @ be_encode 2 v @ post \<Longrightarrow> u16_at p i = Some v"
  by (simp add: u16_at_encoded)

lemma skip_name_pointer: "skip_name (pre @ [0xC0, x] @ post) (length pre) = Some (length pre + 2)"
  by (simp add: skip_name.simps nth_append)

lemma length_encode_rr: "length (encode_rr r) = 12 + length (rr_data r)"
  by (simp add: encode_rr_def)

lemma find_a_records:
  assumes "\<forall>r \<in> set rs. rr_ok r"
  shows "find_a (pre @ concat (map encode_rr rs) @ post) (length rs) (length pre) =
     Some (map_option a_of (find is_a rs))"
  using assms
proof (induction rs arbitrary: pre)
  case (Cons r rs)
  let ?rest = "concat (map encode_rr rs) @ post"
  let ?p = "pre @ concat (map encode_rr (r # rs)) @ post"
  have p: "?p = pre @ encode_rr r @ ?rest" by simp
  have ok: "rr_type r < 2 ^ 16" "length (rr_data r) < 2 ^ 16" using Cons.prems by (auto simp: rr_ok_def)
  have name: "skip_name ?p (length pre) = Some (length pre + 2)"
    using skip_name_pointer [of pre "0x0C"] by (simp add: encode_rr_def)
  have ty: "u16_at ?p (length pre + 2) = Some (rr_type r)"
    by (rule u16_at_encoded' [OF ok(1), where pre = "pre @ [0xC0, 0x0C]"]) (simp_all add: encode_rr_def)
  have len: "u16_at ?p (length pre + 2 + 8) = Some (length (rr_data r))"
    by (rule u16_at_encoded' [OF ok(2), where pre = "pre @ [0xC0, 0x0C] @ be_encode 2 (rr_type r) @
        be_encode 2 (rr_class r) @ be_encode 4 (rr_ttl r)"]) (simp_all add: encode_rr_def)
  have long: "\<not> length ?p < length pre + 2 + 10" by (simp add: length_encode_rr)
  show ?case
  proof (cases "is_a r")
    case True
    then have "length (rr_data r) = 4" by (simp add: is_a_def)
    then have "byte_at ?p (12 + length pre + i) = Some (rr_data r ! i)" if "i < 4" for i
      using that by (simp add: p byte_at_def encode_rr_def nth_append)
    from this [of 0] this [of 1] this [of 2] this [of 3] True name ty len long show ?thesis
      by (simp add: is_a_def a_of_def length_encode_rr Let_def)
  next
    case False
    have "find_a ?p (length (r # rs)) (length pre) = find_a ?p (length rs) (length pre + 2 + 10 + length (rr_data r))"
      using False name ty len long by (auto simp: is_a_def Let_def)
    also have "?p = (pre @ encode_rr r) @ ?rest" by simp
    also have "length pre + 2 + 10 + length (rr_data r) = length (pre @ encode_rr r)"
      by (simp add: length_encode_rr)
    also have "find_a ((pre @ encode_rr r) @ ?rest) (length rs) (length (pre @ encode_rr r)) =
        Some (map_option a_of (find is_a rs))"
      using Cons.prems by (intro Cons.IH) simp
    finally show ?thesis using False by simp
  qed
qed simp

lemma u16_at_returns: "i + 1 < length p \<Longrightarrow> \<exists>v. u16_at p i = Some v"
  by (simp add: u16_at_def byte_at_def)

lemma find_a_returns: "find_a p n at \<noteq> None"
proof (induction n arbitrary: at)
  case (Suc n)
  show ?case
  proof (cases "skip_name p at")
    case (Some e)
    show ?thesis
    proof (cases "length p < e + 10")
      case False
      obtain t len where "u16_at p e = Some t" "u16_at p (e + 8) = Some len"
        using False u16_at_returns [of e p] u16_at_returns [of "e + 8" p] by auto
      with Some False Suc show ?thesis by (simp add: byte_at_def Let_def)
    qed (use Some in simp)
  qed simp
qed simp


section \<open>Properties\<close>

text \<open>
  C21: parsing never panics, whatever bytes arrive, and it ignores a datagram exactly when that is
  shorter than a header, carries another id, or is not a response.
\<close>

theorem parse_reply_total:
  "\<exists>r. parse_reply packet qid = Some r \<and>
     (r \<noteq> None \<longleftrightarrow> 12 \<le> length packet \<and> slice 0 2 packet = be_encode 2 qid \<and> packet ! 2 AND 0x80 \<noteq> 0)"
proof (cases "length packet < 12")
  case False
  obtain q n where un: "u16_at packet 4 = Some q" "u16_at packet 6 = Some n"
    using False u16_at_returns [of 4 packet] u16_at_returns [of 6 packet] by auto
  show ?thesis
  proof (cases "skip_questions packet q 12")
    case (Some at)
    obtain y where "find_a packet n at = Some y" using find_a_returns by blast
    with un Some False show ?thesis by (auto simp: parse_reply_def Let_def)
  qed (use un False in \<open>auto simp: parse_reply_def Let_def\<close>)
qed (simp add: parse_reply_def)

text \<open>
  C22: the encoder accepts exactly the names with one or more labels of 1 to 63 bytes whose encoding
  fits 255 bytes, and for those the packet is the fixed header, the encoded name and the A/IN
  trailer; the parser's name skipper steps exactly over such a name, wherever it stands.
\<close>

theorem query_roundtrip:
  "(query qid labels = Ok q \<longleftrightarrow> labels \<noteq> [] \<and> (\<forall>l \<in> set labels. label_ok l) \<and>
      length (encode_name labels) \<le> 255 \<and> q = dns_header qid @ encode_name labels @ [0, 1, 0, 1]) \<and>
   (query qid labels = Ok q \<longrightarrow> skip_name q 12 = Some (length q - 4))"
proof -
  have "skip_name q 12 = Some (length q - 4)" if "query qid labels = Ok q"
    using that skip_name_encoded [of labels "dns_header qid" "[0, 1, 0, 1]"]
    by (auto simp: query_Ok dns_header_def)
  then show ?thesis using query_Ok by blast
qed

theorem query_roundtrip_witness:
  "\<exists>q. query 7 [[0x61], [0x62, 0x63]] = Ok q \<and> skip_name q 12 = Some (length q - 4)"
proof -
  obtain q where q: "query 7 [[0x61], [0x62, 0x63]] = Ok q"
    by (simp add: query_Ok label_ok_def encode_name_def)
  with query_roundtrip [of 7 "[[0x61], [0x62, 0x63]]" q] show ?thesis by blast
qed

text \<open>
  A well-formed answer is read correctly. For a reply to our query that echoes the question
  and carries any records (each named by a compression pointer), the parser answers the first A
  record with a four-byte address, and the answer count when there is none.
\<close>

theorem parse_reply_first_a:
  assumes labels: "\<forall>l \<in> set labels. label_ok l"
    and rs: "\<forall>r \<in> set rs. rr_ok r" "rs \<noteq> []" "length rs < 2 ^ 16"
    and flags: "f1 AND 0x80 \<noteq> 0" "f2 AND 0x0F = 0"
  shows "parse_reply (reply_packet qid f1 f2 labels rs) qid =
     Some (Some (Ok (case find is_a rs of Some r \<Rightarrow> a_of r | None \<Rightarrow> Answered (length rs))))"
proof -
  let ?p = "reply_packet qid f1 f2 labels rs"
  let ?head = "be_encode 2 qid @ [f1, f2]"
  let ?pre = "?head @ be_encode 2 1 @ be_encode 2 (length rs) @ [0, 0, 0, 0]"
  have len: "\<not> length ?p < 12" by (simp add: reply_packet_def)
  have echo: "slice 0 2 ?p = be_encode 2 qid" by (simp add: reply_packet_def slice_def)
  have f: "?p ! 2 = f1" "?p ! 3 = f2" by (simp_all add: reply_packet_def nth_append)
  have q: "u16_at ?p 4 = Some 1"
    by (rule u16_at_encoded' [where pre = ?head and v = 1]) (simp_all add: reply_packet_def)
  have n: "u16_at ?p 6 = Some (length rs)"
    by (rule u16_at_encoded' [OF rs(3), where pre = "?head @ be_encode 2 1"]) (simp_all add: reply_packet_def)
  have "skip_name ?p (length ?pre) = Some (length ?pre + length (encode_name labels))"
    using skip_name_encoded [OF labels, of ?pre] by (simp add: reply_packet_def)
  then have skip: "skip_questions ?p 1 12 = Some (length (?pre @ encode_name labels @ [0, 1, 0, 1]))"
    by simp
  have "?p = (?pre @ encode_name labels @ [0, 1, 0, 1]) @ concat (map encode_rr rs) @ []"
    by (simp add: reply_packet_def)
  then have "find_a ?p (length rs) (length (?pre @ encode_name labels @ [0, 1, 0, 1])) =
      Some (map_option a_of (find is_a rs))"
    using find_a_records [OF rs(1), of "?pre @ encode_name labels @ [0, 1, 0, 1]" "[]"] by simp
  with len echo f q n skip flags rs(2) show ?thesis
    by (simp add: parse_reply_def Let_def split: option.splits)
qed

theorem parse_reply_first_a_witness:
  "parse_reply (reply_packet 7 0x81 0x80 [[0x61]]
      [\<lparr>rr_type = 5, rr_class = 1, rr_ttl = 60, rr_data = [1, 2]\<rparr>,
       \<lparr>rr_type = 1, rr_class = 1, rr_ttl = 60, rr_data = [10, 0, 2, 3]\<rparr>]) 7 =
     Some (Some (Ok (A 10 0 2 3)))"
  using parse_reply_first_a [of "[[0x61]]"
      "[\<lparr>rr_type = 5, rr_class = 1, rr_ttl = 60, rr_data = [1, 2]\<rparr>,
        \<lparr>rr_type = 1, rr_class = 1, rr_ttl = 60, rr_data = [10, 0, 2, 3]\<rparr>]" "0x81" "0x80" 7]
  by (simp add: label_ok_def rr_ok_def is_a_def a_of_def)

end
