(* ===== verification/Eofs_Device.thy ===== *)
theory Eofs_Device
  imports Prelude
begin

text \<open>
  The block devices eofs runs on (\<open>crates/eo9-eofs/src/device.rs\<close>): the trait \<open>BlockDevice\<close> as a
  record of its operations, the in-memory device, and the power-cut simulator over any device. The
  locale \<open>block_device\<close> states what the trait's documentation requires of an implementation, and
  \<open>torn_device\<close> the stronger contract of a device whose failed writes stop after a prefix.
\<close>

section \<open>Replacing a range of bytes\<close>

definition overwrite :: "nat \<Rightarrow> 'a list \<Rightarrow> 'a list \<Rightarrow> 'a list" where
  "overwrite at xs data = take at data @ xs @ drop (at + length xs) data"

lemma length_overwrite [simp]:
  "at + length xs \<le> length data \<Longrightarrow> length (overwrite at xs data) = length data"
  by (simp add: overwrite_def)

lemma overwrite_Nil [simp]: "overwrite at [] data = data"
  by (simp add: overwrite_def)

lemma nth_overwrite:
  assumes "at + length xs \<le> length data" and "i < length data"
  shows "overwrite at xs data ! i = (if at \<le> i \<and> i < at + length xs then xs ! (i - at) else data ! i)"
  using assms by (auto simp: overwrite_def nth_append)

lemma slice_overwrite_same:
  assumes "at + length xs \<le> length data"
  shows "slice at (length xs) (overwrite at xs data) = xs"
  using assms by (simp add: overwrite_def slice_def)

lemma slice_eqI:
  assumes "length xs = length ys" and "\<And>i. at \<le> i \<Longrightarrow> i < at + len \<Longrightarrow> i < length xs \<Longrightarrow> xs ! i = ys ! i"
  shows "slice at len xs = slice at len ys"
  unfolding slice_def
  using assms by (intro nth_equalityI) auto

lemma slice_overwrite_other:
  assumes "at + length xs \<le> length data" and "b + len \<le> at \<or> at + length xs \<le> b"
  shows "slice b len (overwrite at xs data) = slice b len data"
  using assms by (intro slice_eqI) (auto simp: nth_overwrite)

lemma slice_overwrite_within:
  assumes "at + length xs \<le> length data"
  shows "slice at n (overwrite at xs data) =
    take n (xs @ drop (at + length xs) data)"
  using assms by (simp add: overwrite_def slice_def)


section \<open>The interface\<close>

datatype device_error = DevOutOfRange | DevIo | DevIoNamed string

record 'd block_ops =
  d_size :: "'d \<Rightarrow> nat"
  d_read :: "'d \<Rightarrow> nat \<Rightarrow> nat \<Rightarrow> (bytes, device_error) result"
  d_write :: "'d \<Rightarrow> nat \<Rightarrow> bytes \<Rightarrow> 'd \<times> (unit, device_error) result"
  d_flush :: "'d \<Rightarrow> 'd \<times> (unit, device_error) result"

text \<open>
  The documented requirements: the size is that of the stored bytes and a \<open>u64\<close>, a read answers
  the stored bytes, a write that succeeds stores its data, one that fails touches nothing outside
  its range, and a flush changes no byte.
\<close>

locale block_device =
  fixes D :: "'d block_ops" and content :: "'d \<Rightarrow> bytes" and dev_inv :: "'d \<Rightarrow> bool"
  assumes size_content: "dev_inv d \<Longrightarrow> d_size D d = length (content d)"
    and size_u64: "dev_inv d \<Longrightarrow> length (content d) < 2 ^ 64"
    and read_content: "dev_inv d \<Longrightarrow> d_read D d off len = Ok b \<Longrightarrow>
          off + len \<le> length (content d) \<and> b = slice off len (content d)"
    and write_inv: "dev_inv d \<Longrightarrow> d_write D d off xs = (d', r) \<Longrightarrow> dev_inv d'"
    and write_ok: "dev_inv d \<Longrightarrow> d_write D d off xs = (d', Ok u) \<Longrightarrow>
          off + length xs \<le> length (content d) \<and> content d' = overwrite off xs (content d)"
    and write_torn: "dev_inv d \<Longrightarrow> d_write D d off xs = (d', Err e) \<Longrightarrow>
          length (content d') = length (content d) \<and>
          (\<forall>i < length (content d). i < off \<or> off + length xs \<le> i \<longrightarrow> content d' ! i = content d ! i)"
    and flush_inv: "dev_inv d \<Longrightarrow> d_flush D d = (d', r) \<Longrightarrow> dev_inv d'"
    and flush_content: "dev_inv d \<Longrightarrow> d_flush D d = (d', r) \<Longrightarrow> content d' = content d"
begin

lemma write_length:
  assumes "dev_inv d" "d_write D d off xs = (d', r)"
  shows "length (content d') = length (content d)"
  using assms by (cases r) (auto dest: write_ok write_torn)

lemma write_outside:
  assumes "dev_inv d" "d_write D d off xs = (d', r)"
    and "i < off \<or> off + length xs \<le> i" "i < length (content d)"
  shows "content d' ! i = content d ! i"
proof (cases r)
  case (Ok u)
  with assms(1,2) have "off + length xs \<le> length (content d)" "content d' = overwrite off xs (content d)"
    using write_ok by blast+
  with assms(3,4) show ?thesis by (auto simp: nth_overwrite)
next
  case (Err e)
  with assms show ?thesis using write_torn by blast
qed

lemma write_slice_outside:
  assumes "dev_inv d" "d_write D d off xs = (d', r)" and "b + len \<le> off \<or> off + length xs \<le> b"
  shows "slice b len (content d') = slice b len (content d)"
  using assms by (intro slice_eqI) (auto simp: write_length write_outside)

end

text \<open>A device whose reads always work in range, and whose failed writes store a prefix of the data.\<close>

locale torn_device = block_device D content dev_inv
  for D :: "'d block_ops" and content :: "'d \<Rightarrow> bytes" and dev_inv :: "'d \<Rightarrow> bool" +
  assumes read_ok: "dev_inv d \<Longrightarrow> off + len \<le> length (content d) \<Longrightarrow>
      d_read D d off len = Ok (slice off len (content d))"
    and write_prefix: "dev_inv d \<Longrightarrow> d_write D d off xs = (d', Err e) \<Longrightarrow>
      \<exists>k \<le> length xs. content d' = overwrite off (take k xs) (content d) \<and>
        (k = 0 \<or> off + length xs \<le> length (content d) \<or> off + k \<le> length (content d))"


section \<open>The in-memory device\<close>

record mem_device =
  mem_data :: bytes

definition check_range :: "nat \<Rightarrow> nat \<Rightarrow> nat \<Rightarrow> (unit, device_error) result" where
  "check_range n offset len =
     and_then (ok_or (checked_add 64 offset len) DevOutOfRange)
       (\<lambda>end_at. if end_at > n then Err DevOutOfRange else Ok ())"

definition mem_device_new :: "nat \<Rightarrow> mem_device" where
  "mem_device_new n = \<lparr>mem_data = replicate n 0\<rparr>"

definition mem_device_size :: "mem_device \<Rightarrow> nat" where
  "mem_device_size d = length (mem_data d)"

definition mem_device_read :: "mem_device \<Rightarrow> nat \<Rightarrow> nat \<Rightarrow> (bytes, device_error) result" where
  "mem_device_read d offset len =
     and_then (check_range (mem_device_size d) offset len) (\<lambda>_. Ok (slice offset len (mem_data d)))"

definition mem_device_write ::
  "mem_device \<Rightarrow> nat \<Rightarrow> bytes \<Rightarrow> mem_device \<times> (unit, device_error) result" where
  "mem_device_write d offset data =
     (case check_range (mem_device_size d) offset (length data) of
        Err e \<Rightarrow> (d, Err e)
      | Ok _ \<Rightarrow> (d\<lparr>mem_data := overwrite offset data (mem_data d)\<rparr>, Ok ()))"

definition mem_device_flush :: "mem_device \<Rightarrow> mem_device \<times> (unit, device_error) result" where
  "mem_device_flush d = (d, Ok ())"

definition mem_device_ops :: "mem_device block_ops" where
  "mem_device_ops = \<lparr>d_size = mem_device_size, d_read = mem_device_read, d_write = mem_device_write,
     d_flush = mem_device_flush\<rparr>"

definition mem_device_inv :: "mem_device \<Rightarrow> bool" where
  "mem_device_inv d \<longleftrightarrow> length (mem_data d) < 2 ^ 64"

lemma check_range_eq:
  "check_range n off len = (if off + len \<le> n \<and> off + len < 2 ^ 64 then Ok () else Err DevOutOfRange)"
  by (auto simp: check_range_def and_then_def ok_or_def split: option.splits)

lemma mem_device_read_Ok:
  "mem_device_read d off len = Ok b \<longleftrightarrow>
     off + len \<le> length (mem_data d) \<and> off + len < 2 ^ 64 \<and> b = slice off len (mem_data d)"
  by (auto simp: mem_device_read_def mem_device_size_def and_then_def check_range_eq)

lemma mem_device_write_cases:
  assumes "mem_device_write d off xs = (d', r)"
  obtains "off + length xs \<le> length (mem_data d)" "d' = d\<lparr>mem_data := overwrite off xs (mem_data d)\<rparr>" "r = Ok ()"
  | "d' = d" "r = Err DevOutOfRange"
proof (cases "off + length xs \<le> length (mem_data d) \<and> off + length xs < 2 ^ 64")
  case True
  with assms that(1) show ?thesis by (simp add: mem_device_write_def mem_device_size_def check_range_eq)
next
  case False
  then have "check_range (mem_device_size d) off (length xs) = Err DevOutOfRange"
    by (auto simp: check_range_eq mem_device_size_def)
  with assms that(2) show ?thesis by (simp add: mem_device_write_def)
qed

lemma mem_device_write_Ok:
  assumes "mem_device_inv d" "off + length xs \<le> length (mem_data d)"
  shows "mem_device_write d off xs = (d\<lparr>mem_data := overwrite off xs (mem_data d)\<rparr>, Ok ())"
  using assms by (simp add: mem_device_write_def mem_device_size_def mem_device_inv_def check_range_eq)

interpretation memdev: torn_device mem_device_ops mem_data mem_device_inv
proof unfold_locales
  show "length (mem_data d) < 2 ^ 64" if "mem_device_inv d" for d
    using that by (simp add: mem_device_inv_def)
  fix d d' off xs and r :: "(unit, device_error) result"
  assume d: "mem_device_inv d"
  show "mem_device_inv d'" if "d_write mem_device_ops d off xs = (d', r)"
    using that d by (auto simp: mem_device_ops_def mem_device_inv_def elim!: mem_device_write_cases)
next
  fix d off xs d' e
  assume "d_write mem_device_ops d off xs = (d', Err e)"
  then have "d' = d" by (auto simp: mem_device_ops_def elim!: mem_device_write_cases)
  then show "\<exists>k \<le> length xs. mem_data d' = overwrite off (take k xs) (mem_data d) \<and>
      (k = 0 \<or> off + length xs \<le> length (mem_data d) \<or> off + k \<le> length (mem_data d))"
    by (intro exI [of _ 0]) simp
qed (auto simp: mem_device_ops_def mem_device_size_def mem_device_read_Ok mem_device_flush_def
       mem_device_inv_def elim!: mem_device_write_cases)


section \<open>The power-cut simulator\<close>

record 'd cut_device =
  cut_inner :: 'd
  cut_remaining :: "nat option"
  cut_tear :: nat
  cut_dead :: bool
  cut_writes :: nat

definition cut_unlimited :: "'d \<Rightarrow> 'd cut_device" where
  "cut_unlimited inner = \<lparr>cut_inner = inner, cut_remaining = None, cut_tear = 0, cut_dead = False, cut_writes = 0\<rparr>"

definition cut_after :: "'d \<Rightarrow> nat \<Rightarrow> nat \<Rightarrow> 'd cut_device" where
  "cut_after inner allowed tear =
     \<lparr>cut_inner = inner, cut_remaining = Some allowed, cut_tear = tear, cut_dead = False, cut_writes = 0\<rparr>"

definition cut_size :: "'d block_ops \<Rightarrow> 'd cut_device \<Rightarrow> nat" where
  "cut_size D c = d_size D (cut_inner c)"

definition cut_read :: "'d block_ops \<Rightarrow> 'd cut_device \<Rightarrow> nat \<Rightarrow> nat \<Rightarrow> (bytes, device_error) result" where
  "cut_read D c = d_read D (cut_inner c)"

text \<open>The counter of completed writes is a diagnostic; it would take \<open>2 ^ 64\<close> writes to overflow.\<close>

definition cut_write ::
  "'d block_ops \<Rightarrow> 'd cut_device \<Rightarrow> nat \<Rightarrow> bytes \<Rightarrow> 'd cut_device \<times> (unit, device_error) result" where
  "cut_write D c offset data =
     (if cut_dead c then (c, Err DevIo)
      else if cut_remaining c = Some 0 then
        (let c1 = c\<lparr>cut_dead := True\<rparr>;
             torn = min (cut_tear c) (length data) in
         if torn > 0 then
           (case d_write D (cut_inner c1) offset (take torn data) of
              (inner, Err e) \<Rightarrow> (c1\<lparr>cut_inner := inner\<rparr>, Err e)
            | (inner, Ok _) \<Rightarrow> (c1\<lparr>cut_inner := inner\<rparr>, Err DevIo))
         else (c1, Err DevIo))
      else
        (let c1 = c\<lparr>cut_remaining := map_option (\<lambda>n. n - 1) (cut_remaining c)\<rparr> in
         (case d_write D (cut_inner c1) offset data of
            (inner, Err e) \<Rightarrow> (c1\<lparr>cut_inner := inner\<rparr>, Err e)
          | (inner, Ok _) \<Rightarrow> (c1\<lparr>cut_inner := inner, cut_writes := cut_writes c1 + 1\<rparr>, Ok ()))))"

definition cut_flush :: "'d block_ops \<Rightarrow> 'd cut_device \<Rightarrow> 'd cut_device \<times> (unit, device_error) result" where
  "cut_flush D c =
     (if cut_dead c then (c, Err DevIo)
      else (case d_flush D (cut_inner c) of (inner, r) \<Rightarrow> (c\<lparr>cut_inner := inner\<rparr>, r)))"

definition cut_ops :: "'d block_ops \<Rightarrow> 'd cut_device block_ops" where
  "cut_ops D = \<lparr>d_size = cut_size D, d_read = cut_read D, d_write = cut_write D, d_flush = cut_flush D\<rparr>"

lemma cut_mem_write_cases:
  fixes c c' :: "mem_device cut_device"
  assumes "cut_write mem_device_ops c off xs = (c', r)"
  obtains (full) "off + length xs \<le> length (mem_data (cut_inner c))" "r = Ok ()"
      "mem_data (cut_inner c') = overwrite off xs (mem_data (cut_inner c))"
  | (part) k e where "k \<le> length xs" "r = Err e"
      "k = 0 \<or> off + k \<le> length (mem_data (cut_inner c))"
      "mem_data (cut_inner c') = overwrite off (take k xs) (mem_data (cut_inner c))"
proof (cases "cut_dead c")
  case True
  with assms have "c' = c" "r = Err DevIo" by (simp_all add: cut_write_def)
  then show ?thesis using part [of 0 DevIo] by simp
next
  case alive: False
  let ?t = "min (cut_tear c) (length xs)"
  show ?thesis
  proof (cases "cut_remaining c = Some 0")
    case True
    show ?thesis
    proof (cases "?t > 0")
      case False
      with assms alive True have "cut_inner c' = cut_inner c" "r = Err DevIo"
        by (auto simp: cut_write_def)
      then show ?thesis using part [of 0 DevIo] by simp
    next
      case pos: True
      obtain i q where w: "mem_device_write (cut_inner c) off (take ?t xs) = (i, q)"
        by fastforce
      with assms alive True pos have c': "cut_inner c' = i" "\<exists>e. r = Err e"
        by (auto simp: cut_write_def Let_def mem_device_ops_def split: result.splits)
      from c'(2) obtain e where e: "r = Err e" by blast
      from w show ?thesis
      proof (rule mem_device_write_cases)
        assume "off + length (take ?t xs) \<le> length (mem_data (cut_inner c))"
          "i = cut_inner c\<lparr>mem_data := overwrite off (take ?t xs) (mem_data (cut_inner c))\<rparr>"
        with c' e show ?thesis using part [of ?t e] by simp
      next
        assume "i = cut_inner c"
        with c' e show ?thesis using part [of 0 e] by simp
      qed
    qed
  next
    case False
    obtain i q where w: "mem_device_write (cut_inner c) off xs = (i, q)"
      by fastforce
    with assms alive False have c': "cut_inner c' = i" "is_ok r = is_ok q"
      by (auto simp: cut_write_def Let_def mem_device_ops_def split: result.splits)
    from w show ?thesis
    proof (rule mem_device_write_cases)
      assume q: "off + length xs \<le> length (mem_data (cut_inner c))" "q = Ok ()"
        "i = cut_inner c\<lparr>mem_data := overwrite off xs (mem_data (cut_inner c))\<rparr>"
      with c' have "r = Ok ()" by (cases r) auto
      with q c' show ?thesis by (intro full) auto
    next
      assume q: "i = cut_inner c" "q = Err DevOutOfRange"
      with c' obtain e where "r = Err e" by (cases r) auto
      with q c' show ?thesis using part [of 0 e] by simp
    qed
  qed
qed

interpretation cutdev: torn_device "cut_ops mem_device_ops" "\<lambda>c. mem_data (cut_inner c)"
  "\<lambda>c. mem_device_inv (cut_inner c)"
proof unfold_locales
  fix c c' :: "mem_device cut_device" and off xs e and r :: "(unit, device_error) result"
  assume "mem_device_inv (cut_inner c)"
  show "mem_device_inv (cut_inner c')" if "d_write (cut_ops mem_device_ops) c off xs = (c', r)"
    using that \<open>mem_device_inv (cut_inner c)\<close>
    by (auto simp: cut_ops_def mem_device_inv_def elim!: cut_mem_write_cases)
  assume w: "d_write (cut_ops mem_device_ops) c off xs = (c', Err e)"
  then have "cut_write mem_device_ops c off xs = (c', Err e)"
    by (simp add: cut_ops_def)
  then obtain k where k: "k \<le> length xs" "k = 0 \<or> off + k \<le> length (mem_data (cut_inner c))"
      "mem_data (cut_inner c') = overwrite off (take k xs) (mem_data (cut_inner c))"
    by (rule cut_mem_write_cases) auto
  then show "length (mem_data (cut_inner c')) = length (mem_data (cut_inner c)) \<and>
      (\<forall>i < length (mem_data (cut_inner c)). i < off \<or> off + length xs \<le> i \<longrightarrow>
         mem_data (cut_inner c') ! i = mem_data (cut_inner c) ! i)"
    by (auto simp: nth_overwrite)
  from k show "\<exists>k \<le> length xs. mem_data (cut_inner c') = overwrite off (take k xs) (mem_data (cut_inner c)) \<and>
      (k = 0 \<or> off + length xs \<le> length (mem_data (cut_inner c)) \<or> off + k \<le> length (mem_data (cut_inner c)))"
    by blast
qed (auto simp: cut_ops_def cut_size_def cut_read_def cut_flush_def mem_device_ops_def mem_device_size_def
    mem_device_read_Ok mem_device_flush_def mem_device_inv_def [symmetric] elim!: cut_mem_write_cases [unfolded mem_device_ops_def]
    simp: mem_device_inv_def split: if_splits)

end
