(* ===== verification/Eofs_Space.thy ===== *)
theory Eofs_Space
  imports Eofs_Device
begin

text \<open>
  Errors (\<open>crates/eo9-eofs/src/error.rs\<close>) and space allocation (\<open>crates/eo9-eofs/src/space.rs\<close>): a
  frontier that only grows, with the free extents a collection found reused first. The locale
  \<open>space_manager\<close> is what the block layer relies on: an allocation takes its bytes out of the free
  space and nothing else changes.
\<close>

section \<open>Errors\<close>

datatype fs_error =
    FsDevice device_error
  | FsNotFound
  | AlreadyExists
  | NotADirectory
  | IsADirectory
  | DirectoryNotEmpty
  | InvalidPath
  | NoSpace
  | ChecksumMismatch
  | Corrupt string
  | InvalidConfig string


section \<open>The allocator\<close>

record extent =
  ext_addr :: nat
  ext_len :: nat

record allocator =
  a_unit :: nat
  a_device_size :: nat
  a_frontier :: nat
  a_free :: "extent list"

definition allocator_new :: "nat \<Rightarrow> nat \<Rightarrow> nat \<Rightarrow> allocator" where
  "allocator_new alloc_unit device_size frontier =
     \<lparr>a_unit = alloc_unit, a_device_size = device_size, a_frontier = frontier, a_free = []\<rparr>"

definition aligned :: "allocator \<Rightarrow> nat \<Rightarrow> nat exec" where
  "aligned a len = times_exec 64 (div_ceil len (a_unit a)) (a_unit a)"

fun sum_exec :: "nat \<Rightarrow> nat list \<Rightarrow> nat exec" where
  "sum_exec acc [] = Some acc"
| "sum_exec acc (x # xs) = do { acc' \<leftarrow> plus_exec 64 acc x; sum_exec acc' xs }"

definition free_bytes :: "allocator \<Rightarrow> nat exec" where
  "free_bytes a = sum_exec 0 (map ext_len (a_free a))"

text \<open>The first-fit loop: the address and the free list that is left, or no extent is large enough.\<close>

fun first_fit :: "nat \<Rightarrow> extent list \<Rightarrow> (nat \<times> extent list) option exec" where
  "first_fit need [] = Some None"
| "first_fit need (e # es) =
     (if ext_len e \<ge> need then do {
        addr' \<leftarrow> plus_exec 64 (ext_addr e) need;
        let e' = \<lparr>ext_addr = addr', ext_len = ext_len e - need\<rparr>;
        Some (Some (ext_addr e, if ext_len e' = 0 then es else e' # es))
      } else do {
        r \<leftarrow> first_fit need es;
        Some (map_option (\<lambda>(addr, es'). (addr, e # es')) r)
      })"

definition allocate :: "allocator \<Rightarrow> nat \<Rightarrow> (allocator \<times> (nat, fs_error) result) exec" where
  "allocate a len =
     (if len = 0 then Some (a, Err (Corrupt ''zero-length allocation''))
      else do {
        need \<leftarrow> aligned a len;
        fit \<leftarrow> first_fit need (a_free a);
        (case fit of
           Some (addr, es) \<Rightarrow> Some (a\<lparr>a_free := es\<rparr>, Ok addr)
         | None \<Rightarrow>
             (case checked_add 64 (a_frontier a) need of
                None \<Rightarrow> Some (a, Err NoSpace)
              | Some end_at \<Rightarrow>
                  if end_at > a_device_size a then Some (a, Err NoSpace)
                  else Some (a\<lparr>a_frontier := end_at\<rparr>, Ok (a_frontier a))))
      })"

definition set_free :: "allocator \<Rightarrow> extent list \<Rightarrow> allocator" where
  "set_free a es = a\<lparr>a_free := es\<rparr>"


section \<open>Free space\<close>

abbreviation ext_bytes :: "extent \<Rightarrow> nat set" where
  "ext_bytes e \<equiv> {ext_addr e ..< ext_addr e + ext_len e}"

text \<open>Sorted, non-empty and non-overlapping extents between two addresses, as the free list is kept.\<close>

fun extents_ok :: "nat \<Rightarrow> extent list \<Rightarrow> nat \<Rightarrow> bool" where
  "extents_ok lo [] hi \<longleftrightarrow> lo \<le> hi"
| "extents_ok lo (e # es) hi \<longleftrightarrow>
     lo \<le> ext_addr e \<and> 0 < ext_len e \<and> extents_ok (ext_addr e + ext_len e) es hi"

definition alloc_inv :: "nat \<Rightarrow> allocator \<Rightarrow> bool" where
  "alloc_inv base a \<longleftrightarrow> 0 < a_unit a \<and> a_frontier a \<le> a_device_size a \<and> a_device_size a < 2 ^ 64 \<and>
     extents_ok base (a_free a) (a_frontier a)"

definition alloc_aligned :: "allocator \<Rightarrow> bool" where
  "alloc_aligned a \<longleftrightarrow> a_unit a dvd a_frontier a \<and>
     list_all (\<lambda>e. a_unit a dvd ext_addr e \<and> a_unit a dvd ext_len e) (a_free a)"

definition free_space :: "allocator \<Rightarrow> nat set" where
  "free_space a = \<Union> (ext_bytes ` set (a_free a)) \<union> {a_frontier a ..< a_device_size a}"

lemma extents_ok_le: "extents_ok lo es hi \<Longrightarrow> lo \<le> hi"
  by (induction lo es hi rule: extents_ok.induct) auto

lemma extents_ok_mono: "extents_ok lo es hi \<Longrightarrow> lo' \<le> lo \<Longrightarrow> extents_ok lo' es hi"
  by (cases es) auto

lemma extents_ok_bounds:
  "extents_ok lo es hi \<Longrightarrow> e \<in> set es \<Longrightarrow> lo \<le> ext_addr e \<and> ext_addr e + ext_len e \<le> hi"
proof (induction lo es hi rule: extents_ok.induct)
  case (2 lo f es hi)
  then show ?case using extents_ok_le by fastforce
qed simp

lemma free_space_bounds:
  assumes "alloc_inv base a" "x \<in> free_space a"
  shows "base \<le> x" and "x < a_device_size a"
  using assms extents_ok_bounds [of base "a_free a" "a_frontier a"]
    extents_ok_le [of base "a_free a" "a_frontier a"]
  by (fastforce simp: free_space_def alloc_inv_def)+

lemma first_fit_Some:
  assumes "first_fit need es = Some (Some (addr, es'))" and "extents_ok lo es hi" and "0 < need"
  shows "extents_ok lo es' hi \<and> {addr ..< addr + need} \<subseteq> \<Union> (ext_bytes ` set es) \<and>
    \<Union> (ext_bytes ` set es') = \<Union> (ext_bytes ` set es) - {addr ..< addr + need}"
  using assms
proof (induction need es arbitrary: lo addr es' rule: first_fit.induct)
  case (2 need e es)
  show ?case
  proof (cases "ext_len e \<ge> need")
    case True
    have sep: "x \<notin> ext_bytes e" if "f \<in> set es" "x \<in> ext_bytes f" for x f
      using "2.prems"(2) that extents_ok_bounds [of "ext_addr e + ext_len e" es hi f] by auto
    from True "2.prems"(1) have a: "addr = ext_addr e"
      and es': "es' = (if ext_len e = need then es else \<lparr>ext_addr = ext_addr e + need, ext_len = ext_len e - need\<rparr> # es)"
      by (auto simp: bind_eq_Some_conv split: if_splits)
    have ok: "extents_ok lo es' hi"
      using "2.prems"(2) True es' extents_ok_mono [of "ext_addr e + ext_len e" es hi lo] by auto
    have "{addr ..< addr + need} \<subseteq> ext_bytes e"
      using True a by auto
    moreover have "\<Union> (ext_bytes ` set es') = (ext_bytes e - {addr ..< addr + need}) \<union> \<Union> (ext_bytes ` set es)"
      using True a es' by auto
    ultimately show ?thesis
      using ok sep by fastforce
  next
    case False
    with "2.prems"(1) obtain es1 where r: "first_fit need es = Some (Some (addr, es1))" "es' = e # es1"
      by (auto simp: bind_eq_Some_conv)
    from "2.prems"(2) have "extents_ok (ext_addr e + ext_len e) es hi" by simp
    note IH = "2.IH" [OF False r(1) this "2.prems"(3)]
    have "x \<notin> ext_bytes e" if "x \<in> {addr ..< addr + need}" for x
    proof -
      from IH that obtain f where "f \<in> set es" "x \<in> ext_bytes f" by blast
      with "2.prems"(2) extents_ok_bounds [of "ext_addr e + ext_len e" es hi f] show ?thesis by simp
    qed
    then have "ext_bytes e = ext_bytes e - {addr ..< addr + need}" by blast
    with IH r(2) "2.prems"(2) show ?thesis by auto
  qed
qed simp

lemma first_fit_returns:
  assumes "extents_ok lo es hi" and "hi < 2 ^ 64"
  shows "\<exists>r. first_fit need es = Some r"
  using assms
proof (induction need es arbitrary: lo rule: first_fit.induct)
  case (2 need e es)
  have "ext_addr e + ext_len e \<le> hi"
    using extents_ok_bounds [OF "2.prems"(1), of e] by simp
  with 2 show ?case by (auto simp: bind_eq_Some_conv)
qed simp

lemma first_fit_aligned:
  assumes "first_fit need es = Some (Some (addr, es'))" and "u dvd need"
    and "list_all (\<lambda>e. u dvd ext_addr e \<and> u dvd ext_len e) es"
  shows "u dvd addr \<and> list_all (\<lambda>e. u dvd ext_addr e \<and> u dvd ext_len e) es'"
  using assms
proof (induction need es arbitrary: addr es' rule: first_fit.induct)
  case (2 need e es)
  then show ?case
    by (cases "ext_len e \<ge> need") (auto simp: bind_eq_Some_conv split: if_splits)
qed simp

lemma aligned_Some:
  assumes "aligned a len = Some need" and "0 < a_unit a"
  shows "len \<le> need" and "need < len + a_unit a" and "a_unit a dvd need" and "0 < len \<Longrightarrow> 0 < need"
  using assms div_ceil_bounds [of "a_unit a" len] div_ceil_pos [of "a_unit a" len]
  by (auto simp: aligned_def)

lemma aligned_returns:
  assumes "len + a_unit a \<le> 2 ^ 64" and "0 < a_unit a"
  shows "\<exists>need. aligned a len = Some need"
  using assms div_ceil_bounds(2) [of "a_unit a" len] by (simp add: aligned_def times_exec_def)

lemma allocate_returns:
  assumes "alloc_inv base a" and "len + a_unit a \<le> 2 ^ 64"
  shows "\<exists>a' r. allocate a len = Some (a', r)"
proof -
  from assms obtain need where need: "aligned a len = Some need"
    using aligned_returns [of len a] by (auto simp: alloc_inv_def)
  obtain fit where fit: "first_fit need (a_free a) = Some fit"
    using first_fit_returns [of base "a_free a" "a_frontier a" need] assms(1) by (auto simp: alloc_inv_def)
  with need show ?thesis
    by (cases fit) (auto simp: allocate_def split: option.splits)
qed

lemma allocate_Err: "allocate a len = Some (a', Err e) \<Longrightarrow> a' = a"
  by (auto simp: allocate_def bind_eq_Some_conv split: if_splits option.splits)

lemma allocate_error: "allocate a len = Some (a', Err e) \<Longrightarrow> 0 < len \<Longrightarrow> e = NoSpace"
  by (auto simp: allocate_def bind_eq_Some_conv split: if_splits option.splits)

lemma allocate_frame:
  "allocate a len = Some (a', r) \<Longrightarrow> a_unit a' = a_unit a \<and> a_device_size a' = a_device_size a"
  by (auto simp: allocate_def bind_eq_Some_conv split: if_splits option.splits)

lemma allocate_frontier: "allocate a len = Some (a', r) \<Longrightarrow> a_frontier a \<le> a_frontier a'"
  by (auto simp: allocate_def bind_eq_Some_conv split: if_splits option.splits)

text \<open>A successful allocation, for the rounded size it takes.\<close>

lemma allocate_Ok:
  assumes "alloc_inv base a" and "allocate a len = Some (a', Ok addr)"
  obtains need where "aligned a len = Some need" "len \<le> need" "0 < need" "a_unit a dvd need"
    "alloc_inv base a'" "{addr ..< addr + need} \<subseteq> free_space a"
    "free_space a' = free_space a - {addr ..< addr + need}"
    "alloc_aligned a \<longrightarrow> alloc_aligned a' \<and> a_unit a dvd addr"
proof -
  from assms have unit: "0 < a_unit a" by (simp add: alloc_inv_def)
  from assms(2) obtain need fit where len: "0 < len" and need: "aligned a len = Some need"
    and fit: "first_fit need (a_free a) = Some fit"
    by (auto simp: allocate_def bind_eq_Some_conv split: if_splits)
  note al = aligned_Some [OF need unit]
  have pos: "0 < need" using al(4) len by simp
  show thesis
  proof (cases fit)
    case None
    with assms(2) len need fit have a: "addr = a_frontier a" "a' = a\<lparr>a_frontier := a_frontier a + need\<rparr>"
      "a_frontier a + need \<le> a_device_size a"
      by (auto simp: allocate_def split: option.splits if_splits)
    have below: "x < a_frontier a" if "e \<in> set (a_free a)" "x \<in> ext_bytes e" for x e
      using that assms(1) extents_ok_bounds [of base "a_free a" "a_frontier a" e] by (auto simp: alloc_inv_def)
    have ok: "extents_ok base (a_free a) (a_frontier a + need)"
    proof -
      have "extents_ok lo es hi \<Longrightarrow> extents_ok lo es (hi + need)" for lo es hi
        by (induction lo es hi rule: extents_ok.induct) auto
      then show ?thesis using assms(1) by (simp add: alloc_inv_def)
    qed
    show thesis
    proof (rule that [OF need al(1) pos al(3)])
      show "alloc_inv base a'" using assms(1) a ok by (simp add: alloc_inv_def)
      show "{addr ..< addr + need} \<subseteq> free_space a" using a by (auto simp: free_space_def)
      show "free_space a' = free_space a - {addr ..< addr + need}"
        using a below by (fastforce simp: free_space_def)
      show "alloc_aligned a \<longrightarrow> alloc_aligned a' \<and> a_unit a dvd addr"
        using a al(3) by (simp add: alloc_aligned_def)
    qed
  next
    case (Some p)
    with assms(2) len need fit obtain es where p: "p = (addr, es)" "a' = a\<lparr>a_free := es\<rparr>"
      by (auto simp: allocate_def split: prod.splits)
    from assms(1) have inv: "extents_ok base (a_free a) (a_frontier a)" by (simp add: alloc_inv_def)
    note ff = first_fit_Some [OF fit [unfolded Some p(1)] inv pos]
    have "x < a_frontier a" if "x \<in> {addr ..< addr + need}" for x
    proof -
      from ff that obtain e where "e \<in> set (a_free a)" "x \<in> ext_bytes e" by blast
      with extents_ok_bounds [OF inv] show ?thesis by fastforce
    qed
    then have "{a_frontier a ..< a_device_size a} \<inter> {addr ..< addr + need} = {}" by fastforce
    with ff show thesis
      using first_fit_aligned [OF fit [unfolded Some p(1)] al(3)] assms(1) p(2)
      by (intro that [OF need al(1) pos al(3)]) (auto simp: alloc_inv_def free_space_def alloc_aligned_def)
  qed
qed


section \<open>The interface to the block layer\<close>

text \<open>A series of requests, with the ranges that were granted in order.\<close>

fun allocs ::
  "('a \<Rightarrow> nat \<Rightarrow> ('a \<times> (nat, 'e) result) exec) \<Rightarrow> 'a \<Rightarrow> nat list \<Rightarrow> ('a \<times> (nat \<times> nat) list) exec" where
  "allocs f a [] = Some (a, [])"
| "allocs f a (len # lens) = do {
     (a', r) \<leftarrow> f a len;
     (a'', granted) \<leftarrow> allocs f a' lens;
     Some (a'', (case r of Ok addr \<Rightarrow> (addr, len) # granted | Err _ \<Rightarrow> granted))
   }"

abbreviation range_bytes :: "nat \<times> nat \<Rightarrow> nat set" where
  "range_bytes p \<equiv> {fst p ..< fst p + snd p}"

locale space_manager =
  fixes alloc :: "'a \<Rightarrow> nat \<Rightarrow> ('a \<times> (nat, 'e) result) exec"
    and space :: "'a \<Rightarrow> nat set" and inv :: "'a \<Rightarrow> bool"
  assumes alloc_Ok: "inv a \<Longrightarrow> alloc a len = Some (a', Ok addr) \<Longrightarrow>
      inv a' \<and> {addr ..< addr + len} \<subseteq> space a \<and> space a' \<subseteq> space a - {addr ..< addr + len}"
    and alloc_Err: "alloc a len = Some (a', Err e) \<Longrightarrow> a' = a"
begin

lemma alloc_step:
  assumes "inv a" and "alloc a len = Some (a', r)"
  shows "inv a' \<and> space a' \<subseteq> space a"
proof (cases r)
  case (Ok addr)
  with assms have "inv a' \<and> space a' \<subseteq> space a - {addr ..< addr + len}"
    using alloc_Ok by blast
  then show ?thesis by blast
next
  case (Err e)
  with assms show ?thesis using alloc_Err by blast
qed

lemma allocs_disjoint:
  assumes "inv a" and "allocs alloc a lens = Some (a', granted)"
  shows "inv a' \<and> \<Union> (range_bytes ` set granted) \<subseteq> space a \<and>
    space a' \<subseteq> space a - \<Union> (range_bytes ` set granted) \<and>
    sorted_wrt (\<lambda>p q. range_bytes p \<inter> range_bytes q = {}) granted"
  using assms
proof (induction lens arbitrary: a granted)
  case (Cons len lens)
  from Cons.prems(2) obtain a1 r g where st: "alloc a len = Some (a1, r)" "allocs alloc a1 lens = Some (a', g)"
    "granted = (case r of Ok addr \<Rightarrow> (addr, len) # g | Err _ \<Rightarrow> g)"
    by (auto simp: bind_eq_Some_conv)
  note step = alloc_step [OF Cons.prems(1) st(1)]
  note IH = Cons.IH [OF conjunct1 [OF step] st(2)]
  show ?case
  proof (cases r)
    case (Ok addr)
    with st(1) Cons.prems(1) have one: "{addr ..< addr + len} \<subseteq> space a"
      "space a1 \<subseteq> space a - {addr ..< addr + len}"
      using alloc_Ok by blast+
    have "{addr ..< addr + len} \<inter> range_bytes q = {}" if "q \<in> set g" for q
      using IH one(2) that by blast
    moreover have gr: "granted = (addr, len) # g" using Ok st(3) by simp
    moreover have "\<Union> (range_bytes ` set granted) = {addr ..< addr + len} \<union> \<Union> (range_bytes ` set g)"
      using gr by simp
    ultimately show ?thesis using IH one by auto
  next
    case (Err e)
    with st IH step show ?thesis by auto
  qed
qed auto

end

interpretation space: space_manager allocate free_space "alloc_inv base"
proof unfold_locales
  fix a len a' addr
  assume inv: "alloc_inv base a" and al: "allocate a len = Some (a', Ok addr)"
  obtain need where "aligned a len = Some need" "len \<le> need" "0 < need" "a_unit a dvd need"
    "alloc_inv base a'" "{addr ..< addr + need} \<subseteq> free_space a"
    "free_space a' = free_space a - {addr ..< addr + need}"
    by (rule allocate_Ok [OF inv al])
  moreover from \<open>len \<le> need\<close> have "{addr ..< addr + len} \<subseteq> {addr ..< addr + need}" by auto
  ultimately show "alloc_inv base a' \<and> {addr ..< addr + len} \<subseteq> free_space a \<and>
      free_space a' \<subseteq> free_space a - {addr ..< addr + len}"
    by blast
qed (rule allocate_Err)



end
