(* ===== verification/Utf8.thy ===== *)
theory Utf8
  imports Prelude
begin

text \<open>
  Strings of the standard library, as bytes: which byte strings are UTF-8 (\<open>core::str::from_utf8\<close>) and
  what \<open>String::from_utf8_lossy\<close> makes of the others. The filesystem checks names with the first, the
  shell's parser turns captured bytes into strings with the second.
\<close>

section \<open>Validity\<close>

text \<open>\<open>core::str::from_utf8\<close>: how many continuation bytes a lead byte asks for, and its first one.\<close>

definition utf8_extra :: "byte \<Rightarrow> nat" where
  "utf8_extra b = (if b < 0xC2 then 0 else if b < 0xE0 then 1 else if b < 0xF0 then 2 else if b < 0xF5 then 3 else 0)"

definition utf8_second :: "byte \<Rightarrow> byte \<Rightarrow> bool" where
  "utf8_second b c \<longleftrightarrow>
     (if b = 0xE0 then 0xA0 \<le> c else if b = 0xF0 then 0x90 \<le> c else 0x80 \<le> c) \<and>
     (if b = 0xED then c \<le> 0x9F else if b = 0xF4 then c \<le> 0x8F else c \<le> 0xBF)"

definition utf8_cont :: "byte \<Rightarrow> bool" where
  "utf8_cont c \<longleftrightarrow> 0x80 \<le> c \<and> c \<le> 0xBF"

fun utf8_valid :: "bytes \<Rightarrow> bool" where
  "utf8_valid [] = True"
| "utf8_valid (b # bs) =
     (if b < 0x80 then utf8_valid bs
      else utf8_extra b > 0 \<and> utf8_extra b \<le> length bs \<and> utf8_second b (hd bs) \<and>
        list_all utf8_cont (take (utf8_extra b - 1) (tl bs)) \<and> utf8_valid (drop (utf8_extra b) bs))"


section \<open>Lossy conversion\<close>

text \<open>
  A valid sequence is kept; otherwise its longest valid beginning (at least one byte) becomes one
  replacement character. \<open>utf8_run\<close> counts the continuation bytes after a lead byte that fit.
\<close>

definition utf8_run :: "byte \<Rightarrow> bytes \<Rightarrow> nat" where
  "utf8_run b bs =
     (if utf8_extra b = 0 \<or> bs = [] \<or> \<not> utf8_second b (hd bs) then 0
      else 1 + length (takeWhile utf8_cont (take (utf8_extra b - 1) (tl bs))))"

definition replacement_char :: bytes where
  "replacement_char = [0xEF, 0xBF, 0xBD]"

fun from_utf8_lossy :: "bytes \<Rightarrow> bytes" where
  "from_utf8_lossy [] = []"
| "from_utf8_lossy (b # bs) =
     (if b < 0x80 then b # from_utf8_lossy bs
      else (let n = utf8_run b bs in
        (if n = utf8_extra b \<and> 0 < n then b # take n bs else replacement_char) @
        from_utf8_lossy (drop n bs)))"

lemma from_utf8_lossy_valid: "utf8_valid s \<Longrightarrow> from_utf8_lossy s = s"
proof (induction s rule: utf8_valid.induct)
  case (2 b bs)
  show ?case
  proof (cases "b < 0x80")
    case False
    let ?n = "utf8_extra b"
    from "2.prems" False have v: "0 < ?n" "?n \<le> length bs" "utf8_second b (hd bs)"
      "list_all utf8_cont (take (?n - 1) (tl bs))" "utf8_valid (drop ?n bs)" by simp_all
    have "length (takeWhile utf8_cont (take (?n - 1) (tl bs))) = ?n - 1"
      using v(2,4) by (simp add: list_all_iff takeWhile_eq_all_conv [THEN iffD2])
    with v have "utf8_run b bs = ?n" by (auto simp: utf8_run_def)
    with False v "2.IH"(2) show ?thesis by (simp add: Let_def)
  qed (use 2 in simp)
qed simp

lemma utf8_valid_ascii: "(\<And>b. b \<in> set s \<Longrightarrow> b < 0x80) \<Longrightarrow> utf8_valid s"
  by (induction s) auto



section \<open>Operations on strings\<close>

text \<open>A literal of the source, as bytes.\<close>

definition ascii :: "string \<Rightarrow> bytes" where
  "ascii s = map of_char s"

definition starts_with :: "bytes \<Rightarrow> bytes \<Rightarrow> bool" where
  "starts_with p s \<longleftrightarrow> take (length p) s = p"

definition ends_with :: "bytes \<Rightarrow> bytes \<Rightarrow> bool" where
  "ends_with p s \<longleftrightarrow> length p \<le> length s \<and> drop (length s - length p) s = p"

definition strip_prefix :: "bytes \<Rightarrow> bytes \<Rightarrow> bytes option" where
  "strip_prefix p s = (if starts_with p s then Some (drop (length p) s) else None)"

definition strip_suffix :: "bytes \<Rightarrow> bytes \<Rightarrow> bytes option" where
  "strip_suffix p s = (if ends_with p s then Some (take (length s - length p) s) else None)"

text \<open>\<open>str::split_once\<close> at an ASCII byte.\<close>

definition split_once :: "byte \<Rightarrow> bytes \<Rightarrow> (bytes \<times> bytes) option" where
  "split_once b s =
     (if b \<in> set s then Some (takeWhile (\<lambda>c. c \<noteq> b) s, tl (dropWhile (\<lambda>c. c \<noteq> b) s)) else None)"

text \<open>
  \<open>str::trim\<close>: the length of the white-space character (property \<open>White_Space\<close> of Unicode) that a
  string begins with, 0 if there is none, and the characters taken off both ends.
\<close>

definition ws_char :: "bytes \<Rightarrow> nat" where
  "ws_char s =
     (if take 1 s \<in> {[0x09], [0x0A], [0x0B], [0x0C], [0x0D], [0x20]} then 1
      else if take 2 s \<in> {[0xC2, 0x85], [0xC2, 0xA0]} then 2
      else if take 3 s \<in> {[0xE1, 0x9A, 0x80], [0xE2, 0x80, 0xA8], [0xE2, 0x80, 0xA9], [0xE2, 0x80, 0xAF],
          [0xE2, 0x81, 0x9F], [0xE3, 0x80, 0x80]} \<or>
        (take 2 s = [0xE2, 0x80] \<and> 2 < length s \<and> 0x80 \<le> s ! 2 \<and> s ! 2 \<le> 0x8A) then 3
      else 0)"

lemma ws_char_le: "ws_char s \<le> length s"
proof -
  have "length (take n s) = n \<Longrightarrow> n \<le> length s" for n by auto
  from this [of 1] this [of 2] this [of 3] show ?thesis
    by (auto simp: ws_char_def simp del: length_take)
qed

function trim_start :: "bytes \<Rightarrow> bytes" where
  "trim_start s = (if ws_char s = 0 then s else trim_start (drop (ws_char s) s))"
  by auto
termination
proof (relation "measure length")
  fix s assume "ws_char s \<noteq> 0"
  then show "(drop (ws_char s) s, s) \<in> measure length" using ws_char_le [of s] by auto
qed simp

definition ws_char_end :: "bytes \<Rightarrow> nat" where
  "ws_char_end s =
     (if 1 \<le> length s \<and> ws_char (drop (length s - 1) s) = 1 then 1
      else if 2 \<le> length s \<and> ws_char (drop (length s - 2) s) = 2 then 2
      else if 3 \<le> length s \<and> ws_char (drop (length s - 3) s) = 3 then 3
      else 0)"

function trim_end :: "bytes \<Rightarrow> bytes" where
  "trim_end s = (if ws_char_end s = 0 then s else trim_end (take (length s - ws_char_end s) s))"
  by auto
termination
proof (relation "measure length")
  fix s assume "ws_char_end s \<noteq> 0"
  then show "(take (length s - ws_char_end s) s, s) \<in> measure length"
    by (auto simp: ws_char_end_def split: if_splits)
qed simp

declare trim_start.simps [simp del] trim_end.simps [simp del]

definition trim :: "bytes \<Rightarrow> bytes" where
  "trim s = trim_end (trim_start s)"

lemma trim_start_length: "length (trim_start s) \<le> length s"
  by (induction s rule: trim_start.induct) (subst trim_start.simps, auto)

lemma trim_end_length: "length (trim_end s) \<le> length s"
  by (induction s rule: trim_end.induct) (subst trim_end.simps, auto)

lemma trim_length: "length (trim s) \<le> length s"
  unfolding trim_def by (meson le_trans trim_start_length trim_end_length)

lemma strip_length:
  "strip_prefix p s = Some r \<Longrightarrow> length r \<le> length s \<and> length r = length s - length p"
  "strip_suffix p s = Some r \<Longrightarrow> length r \<le> length s"
  by (auto simp: strip_prefix_def strip_suffix_def split: if_splits)


text \<open>Trimming is idempotent.\<close>

lemma ws_char_take: "ws_char s = 0 \<Longrightarrow> ws_char (take n s) = 0"
proof (rule ccontr)
  assume s: "ws_char s = 0" and t: "ws_char (take n s) \<noteq> 0"
  let ?t = "take n s"
  have pre: "take k ?t = l \<Longrightarrow> length l = k \<Longrightarrow> take k s = l" for k l
    by (metis length_take min.absorb2 min.commute nat_le_linear take_all_iff take_take)
  then have mem: "take k ?t \<in> S \<Longrightarrow> \<forall>l \<in> S. length l = k \<Longrightarrow> take k s \<in> S" for k S by metis
  consider "take 1 ?t \<in> {[0x09], [0x0A], [0x0B], [0x0C], [0x0D], [0x20]}"
    | "take 2 ?t \<in> {[0xC2, 0x85], [0xC2, 0xA0]}"
    | "take 3 ?t \<in> {[0xE1, 0x9A, 0x80], [0xE2, 0x80, 0xA8], [0xE2, 0x80, 0xA9], [0xE2, 0x80, 0xAF],
          [0xE2, 0x81, 0x9F], [0xE3, 0x80, 0x80]}"
    | "take 2 ?t = [0xE2, 0x80] \<and> 2 < length ?t \<and> 0x80 \<le> ?t ! 2 \<and> ?t ! 2 \<le> 0x8A"
    using t unfolding ws_char_def by (meson)
  then show False
  proof cases
    case 1
    then have "take 1 s \<in> {[0x09], [0x0A], [0x0B], [0x0C], [0x0D], [0x20]}" using mem [OF 1] by simp
    with s show False unfolding ws_char_def by (metis zero_neq_one)
  next
    case 2
    then have "take 2 s \<in> {[0xC2, 0x85], [0xC2, 0xA0]}" using mem [OF 2] by simp
    with s show False unfolding ws_char_def by (metis zero_neq_numeral zero_neq_one)
  next
    case 3
    then have "take 3 s \<in> {[0xE1, 0x9A, 0x80], [0xE2, 0x80, 0xA8], [0xE2, 0x80, 0xA9], [0xE2, 0x80, 0xAF],
          [0xE2, 0x81, 0x9F], [0xE3, 0x80, 0x80]}" using mem [OF 3] by simp
    with s show False unfolding ws_char_def by (metis zero_neq_numeral zero_neq_one)
  next
    case 4
    then have "take 2 s = [0xE2, 0x80] \<and> 2 < length s \<and> 0x80 \<le> s ! 2 \<and> s ! 2 \<le> 0x8A"
      using pre [of 2] by auto
    with s show False unfolding ws_char_def by (metis zero_neq_numeral zero_neq_one)
  qed
qed

lemma ws_char_trim_start: "ws_char (trim_start s) = 0"
  by (induction s rule: trim_start.induct) (metis trim_start.simps)

lemma trim_start_id: "ws_char s = 0 \<Longrightarrow> trim_start s = s"
  by (subst trim_start.simps) simp

lemma trim_end_prefix: "\<exists>n. trim_end s = take n s"
proof (induction s rule: trim_end.induct)
  case (1 s)
  show ?case
  proof (cases "ws_char_end s = 0")
    case True
    then have "trim_end s = take (length s) s" by (subst trim_end.simps) simp
    then show ?thesis by blast
  next
    case False
    with 1 obtain n where "trim_end (take (length s - ws_char_end s) s) = take n (take (length s - ws_char_end s) s)"
      by blast
    with False have "trim_end s = take (min n (length s - ws_char_end s)) s"
      by (subst trim_end.simps) simp
    then show ?thesis by blast
  qed
qed

lemma trim_end_idem: "trim_end (trim_end s) = trim_end s"
proof (induction s rule: trim_end.induct)
  case (1 s)
  then show ?case by (cases "ws_char_end s = 0") (metis trim_end.simps)+
qed

lemma trim_idem [simp]: "trim (trim s) = trim s"
proof -
  obtain n where "trim_end (trim_start s) = take n (trim_start s)" using trim_end_prefix by blast
  then have "ws_char (trim s) = 0" by (simp add: trim_def ws_char_take ws_char_trim_start)
  then have "trim_start (trim s) = trim s" by (rule trim_start_id)
  then show ?thesis unfolding trim_def using trim_end_idem by metis
qed


section \<open>Splitting a path\<close>

text \<open>\<open>str::split('/')\<close>.\<close>

fun split_slash :: "bytes \<Rightarrow> bytes list" where
  "split_slash [] = [[]]"
| "split_slash (c # cs) =
     (if c = 0x2F then [] # split_slash cs
      else (case split_slash cs of [] \<Rightarrow> [[c]] | seg # segs \<Rightarrow> (c # seg) # segs))"

lemma split_slash_append:
  assumes "0x2F \<notin> set xs"
  shows "split_slash (xs @ ys) = (xs @ hd (split_slash ys)) # tl (split_slash ys)"
  using assms
proof (induction xs)
  case Nil
  have "split_slash ys \<noteq> []" by (induction ys) (auto split: list.splits)
  then show ?case by simp
qed auto

lemma utf8_segments: "utf8_valid path \<Longrightarrow> list_all utf8_valid (split_slash path) \<and> split_slash path \<noteq> []"
proof (induction path rule: utf8_valid.induct)
  case (2 b bs)
  show ?case
  proof (cases "b < 0x80")
    case True
    then have IH: "list_all utf8_valid (split_slash bs) \<and> split_slash bs \<noteq> []" using 2 by simp
    then obtain seg segs where "split_slash bs = seg # segs" by (cases "split_slash bs") auto
    with IH True show ?thesis by simp
  next
    case False
    let ?n = "utf8_extra b"
    let ?xs = "take ?n bs" and ?ys = "drop ?n bs"
    from False 2(3) have v: "0 < ?n" "?n \<le> length bs" "utf8_second b (hd bs)"
      "list_all utf8_cont (take (?n - 1) (tl bs))" "utf8_valid ?ys"
      by auto
    obtain c cs where bs: "bs = c # cs" using v(1,2) by (cases bs) auto
    have c: "0x80 \<le> c"
      using v(3) bs order.trans [of "0x80" "0xA0" c] order.trans [of "0x80" "0x90" c]
      by (auto simp: utf8_second_def split: if_splits)
    have xs: "?xs = c # take (?n - 1) cs" using bs v(1) by (cases ?n) auto
    have "0x80 \<le> x" if "x \<in> set ?xs" for x
      using that c v(4) xs bs by (auto simp: list_all_iff utf8_cont_def)
    then have "0x2F \<notin> set (b # ?xs)" using False by fastforce
    then have split: "split_slash (b # bs) = ((b # ?xs) @ hd (split_slash ?ys)) # tl (split_slash ?ys)"
      using split_slash_append [of "b # ?xs" ?ys] by simp
    have IH: "list_all utf8_valid (split_slash ?ys)" "split_slash ?ys \<noteq> []" using 2(2) False v by simp_all
    then obtain seg segs where seg: "split_slash ?ys = seg # segs" by (cases "split_slash ?ys") auto
    have "utf8_valid (b # ?xs @ seg)"
      using False v IH seg bs by (cases ?n) (auto simp: xs)
    then show ?thesis using split seg IH by simp
  qed
qed simp

end
