(* ===== verification/Eofs_Format.thy ===== *)
theory Eofs_Format
  imports Eofs_Space Utf8 "HOL-Library.List_Lexorder" "HOL-Library.Multiset"
begin

text \<open>
  The on-disk format of eofs (\<open>crates/eo9-eofs/src/format.rs\<close>): block pointers, object references,
  uberblock slots, directories and the snapshot table, each with its encoder and its parser. The
  hash \<open>blake3\<close> is a parameter; the encoders rely on it giving 32 bytes. A Rust string is the list
  of its bytes, which are well-formed UTF-8.
\<close>

section \<open>The question mark operator in code that may panic\<close>

definition try_then ::
  "('a, 'e) result exec \<Rightarrow> ('a \<Rightarrow> ('b, 'e) result exec) \<Rightarrow> ('b, 'e) result exec" where
  "try_then m f = (case m of None \<Rightarrow> None | Some (Err e) \<Rightarrow> Some (Err e) | Some (Ok v) \<Rightarrow> f v)"

lemma try_then_simps [simp]:
  "try_then (Some (Ok v)) f = f v"
  "try_then (Some (Err e)) f = Some (Err e)"
  "try_then None f = None"
  by (simp_all add: try_then_def)

lemma try_then_Ok_iff:
  "try_then m f = Some (Ok v) \<longleftrightarrow> (\<exists>x. m = Some (Ok x) \<and> f x = Some (Ok v))"
  by (auto simp: try_then_def split: option.splits result.splits)

lemma try_then_None_iff:
  "try_then m f = None \<longleftrightarrow> m = None \<or> (\<exists>x. m = Some (Ok x) \<and> f x = None)"
  by (auto simp: try_then_def split: option.splits result.splits)

lemma try_then_cong [fundef_cong]:
  "m = m' \<Longrightarrow> (\<And>x. m' = Some (Ok x) \<Longrightarrow> f x = g x) \<Longrightarrow> try_then m f = try_then m' g"
  by (auto simp: try_then_def split: option.splits result.splits)


section \<open>Constants\<close>

definition eofs_magic :: bytes where
  "eofs_magic = [0x45, 0x4F, 0x46, 0x53, 0x2D, 0x55, 0x42, 0]"  \<comment> \<open>\<open>EOFS-UB\0\<close>\<close>
definition format_version :: nat where "format_version = 1"
definition slot_size :: nat where "slot_size = 4096"
definition slot_offsets :: "nat list" where "slot_offsets = [0, slot_size]"
definition eofs_data_start :: nat where "eofs_data_start = 2 * slot_size"
definition block_ptr_size :: nat where "block_ptr_size = 56"
definition obj_ref_size :: nat where "obj_ref_size = 72"
definition uberblock_body_size :: nat where "uberblock_body_size = 192"
definition uberblock_size :: nat where "uberblock_size = uberblock_body_size + 32"
definition dir_entry_fixed :: nat where "dir_entry_fixed = 4 + obj_ref_size"
definition snap_entry_fixed :: nat where "snap_entry_fixed = 16 + obj_ref_size"
definition max_name_len :: nat where "max_name_len = 255"
definition max_meta_object_size :: nat where "max_meta_object_size = 2 ^ 24"

lemmas format_consts = eofs_magic_def format_version_def slot_size_def slot_offsets_def eofs_data_start_def
  block_ptr_size_def obj_ref_size_def uberblock_body_size_def uberblock_size_def dir_entry_fixed_def
  snap_entry_fixed_def max_name_len_def max_meta_object_size_def


section \<open>Tags\<close>

datatype codec = Raw | Lz4

definition codec_to_tag :: "codec \<Rightarrow> byte" where
  "codec_to_tag c = (case c of Raw \<Rightarrow> 0 | Lz4 \<Rightarrow> 1)"

definition codec_from_tag :: "byte \<Rightarrow> (codec, fs_error) result" where
  "codec_from_tag tag =
     (if tag = 0 then Ok Raw else if tag = 1 then Ok Lz4 else Err (Corrupt ''unknown codec tag''))"

datatype node_kind = File | Directory

definition kind_to_tag :: "node_kind \<Rightarrow> byte" where
  "kind_to_tag k = (case k of File \<Rightarrow> 1 | Directory \<Rightarrow> 2)"

definition kind_from_tag :: "byte \<Rightarrow> (node_kind, fs_error) result" where
  "kind_from_tag tag =
     (if tag = 1 then Ok File else if tag = 2 then Ok Directory else Err (Corrupt ''unknown node kind''))"

lemma codec_roundtrip [simp]: "codec_from_tag (codec_to_tag c) = Ok c"
  by (cases c) (simp_all add: codec_from_tag_def codec_to_tag_def)

lemma kind_roundtrip [simp]: "kind_from_tag (kind_to_tag k) = Ok k"
  by (cases k) (simp_all add: kind_from_tag_def kind_to_tag_def)


section \<open>Block pointers and object references\<close>

record block_ptr =
  bp_addr :: nat
  bp_lsize :: nat
  bp_psize :: nat
  bp_codec :: codec
  bp_hash :: bytes

definition null_ptr :: block_ptr where
  "null_ptr = \<lparr>bp_addr = 0, bp_lsize = 0, bp_psize = 0, bp_codec = Raw, bp_hash = replicate 32 0\<rparr>"

definition is_null :: "block_ptr \<Rightarrow> bool" where
  "is_null p \<longleftrightarrow> bp_addr p = 0"

definition ptr_write :: "block_ptr \<Rightarrow> bytes" where
  "ptr_write p = le_encode 8 (bp_addr p) @ le_encode 4 (bp_lsize p) @ le_encode 4 (bp_psize p) @
     [codec_to_tag (bp_codec p)] @ replicate 7 0 @ bp_hash p"

definition ptr_read :: "bytes \<Rightarrow> (block_ptr, fs_error) result exec" where
  "ptr_read bs = do {
     assert_exec (length bs = block_ptr_size);
     let addr = le_decode (slice 0 8 bs);
     let lsize = le_decode (slice 8 4 bs);
     let psize = le_decode (slice 12 4 bs);
     try_then (Some (codec_from_tag (bs ! 16))) (\<lambda>codec.
     Some (Ok \<lparr>bp_addr = addr, bp_lsize = lsize, bp_psize = psize, bp_codec = codec, bp_hash = slice 24 32 bs\<rparr>))
   }"

record obj_ref =
  o_size :: nat
  o_level :: nat
  o_root :: block_ptr

definition empty_obj :: obj_ref where
  "empty_obj = \<lparr>o_size = 0, o_level = 0, o_root = null_ptr\<rparr>"

definition obj_write :: "obj_ref \<Rightarrow> bytes" where
  "obj_write ob = le_encode 8 (o_size ob) @ [word_of_nat (o_level ob)] @ replicate 7 0 @ ptr_write (o_root ob)"

definition obj_read :: "bytes \<Rightarrow> (obj_ref, fs_error) result exec" where
  "obj_read bs = do {
     assert_exec (length bs = obj_ref_size);
     let sz = le_decode (slice 0 8 bs);
     let level = unat (bs ! 8);
     try_then (ptr_read (slice 16 block_ptr_size bs)) (\<lambda>root.
     Some (Ok \<lparr>o_size = sz, o_level = level, o_root = root\<rparr>))
   }"

text \<open>Values of the Rust types: field widths and the 32-byte hash.\<close>

definition ptr_wf :: "block_ptr \<Rightarrow> bool" where
  "ptr_wf p \<longleftrightarrow> bp_addr p < 2 ^ 64 \<and> bp_lsize p < 2 ^ 32 \<and> bp_psize p < 2 ^ 32 \<and> length (bp_hash p) = 32"

definition obj_wf :: "obj_ref \<Rightarrow> bool" where
  "obj_wf ob \<longleftrightarrow> o_size ob < 2 ^ 64 \<and> o_level ob < 2 ^ 8 \<and> ptr_wf (o_root ob)"

lemma le_roundtrips [simp]:
  "v < 2 ^ 16 \<Longrightarrow> le_decode (le_encode 2 v) = v"
  "v < 2 ^ 32 \<Longrightarrow> le_decode (le_encode 4 v) = v"
  "v < 2 ^ 64 \<Longrightarrow> le_decode (le_encode 8 v) = v"
  by (rule le_roundtrip; simp)+

lemma unat_byte_small: "v < 2 ^ 8 \<Longrightarrow> unat (word_of_nat v :: byte) = v"
  by (simp add: unat_of_nat)

lemma slice_Cons [layout_simps]: "0 < at \<Longrightarrow> slice at len (x # xs) = slice (at - 1) len xs"
  by (cases at) (simp_all add: slice_def)

lemma le_decode_slice_bound: "le_decode (slice at n bs) < 256 ^ n"
proof -
  have "le_decode (slice at n bs) < 256 ^ length (slice at n bs)" by (rule le_decode_bound)
  also have "\<dots> \<le> 256 ^ n" by (intro power_increasing) (simp_all add: slice_def)
  finally show ?thesis .
qed

lemma le_decode_slice_lt [simp]:
  "le_decode (slice at 2 bs) < 65536"
  "le_decode (slice at 4 bs) < 4294967296"
  "le_decode (slice at 8 bs) < 18446744073709551616"
  using le_decode_slice_bound [of at 2 bs] le_decode_slice_bound [of at 4 bs] le_decode_slice_bound [of at 8 bs]
  by simp_all

lemma null_ptr_wf [simp]: "ptr_wf null_ptr"
  by (simp add: ptr_wf_def null_ptr_def)

lemma is_null_null [simp]: "is_null null_ptr"
  by (simp add: is_null_def null_ptr_def)

lemma empty_obj_wf [simp]: "obj_wf empty_obj"
  by (simp add: obj_wf_def empty_obj_def)

lemma length_ptr_write [simp, layout_simps]: "ptr_wf p \<Longrightarrow> length (ptr_write p) = 56"
  by (simp add: ptr_write_def ptr_wf_def)

lemma length_obj_write [simp, layout_simps]: "obj_wf ob \<Longrightarrow> length (obj_write ob) = 72"
  by (simp add: obj_write_def obj_wf_def)

lemma ptr_roundtrip [simp]: "ptr_wf p \<Longrightarrow> ptr_read (ptr_write p) = Some (Ok p)"
  by (simp add: ptr_read_def block_ptr_size_def) (simp add: ptr_write_def ptr_wf_def layout_simps nth_append)

lemma obj_roundtrip [simp]: "obj_wf ob \<Longrightarrow> obj_read (obj_write ob) = Some (Ok ob)"
  by (simp add: obj_read_def obj_ref_size_def block_ptr_size_def)
    (simp add: obj_write_def obj_wf_def layout_simps nth_append unat_byte_small)

lemma ptr_read_returns: "length bs = 56 \<Longrightarrow> ptr_read bs \<noteq> None"
  by (simp add: ptr_read_def block_ptr_size_def codec_from_tag_def)

lemma obj_read_returns: "length bs = 72 \<Longrightarrow> obj_read bs \<noteq> None"
  using ptr_read_returns [of "slice 16 56 bs"]
  by (auto simp: obj_read_def obj_ref_size_def block_ptr_size_def try_then_None_iff)

lemma ptr_read_wf: "ptr_read bs = Some (Ok p) \<Longrightarrow> ptr_wf p"
  by (auto simp: ptr_read_def ptr_wf_def block_ptr_size_def bind_eq_Some_conv try_then_Ok_iff)

lemma obj_read_wf: "obj_read bs = Some (Ok ob) \<Longrightarrow> obj_wf ob"
  by (auto simp: obj_read_def obj_wf_def obj_ref_size_def bind_eq_Some_conv try_then_Ok_iff dest: ptr_read_wf)


section \<open>Uberblocks\<close>

record uberblock =
  ub_block_size :: nat
  ub_alloc_unit :: nat
  ub_codec :: codec
  ub_txg :: nat
  ub_frontier :: nat
  ub_device_size :: nat
  ub_live_root :: obj_ref
  ub_snapshots :: obj_ref

datatype slot_state = NoMagic | Invalid | Valid uberblock

definition ub_body :: "uberblock \<Rightarrow> bytes" where
  "ub_body ub = eofs_magic @ le_encode 4 format_version @ le_encode 4 (ub_block_size ub) @
     le_encode 4 (ub_alloc_unit ub) @ [codec_to_tag (ub_codec ub)] @ replicate 3 0 @
     le_encode 8 (ub_txg ub) @ le_encode 8 (ub_frontier ub) @ le_encode 8 (ub_device_size ub) @
     obj_write (ub_live_root ub) @ obj_write (ub_snapshots ub)"

definition to_slot_bytes :: "(bytes \<Rightarrow> bytes) \<Rightarrow> uberblock \<Rightarrow> bytes" where
  "to_slot_bytes blake3 ub =
     ub_body ub @ blake3 (ub_body ub) @ replicate (slot_size - uberblock_size) 0"

definition classify_slot :: "(bytes \<Rightarrow> bytes) \<Rightarrow> bytes \<Rightarrow> (slot_state, fs_error) result exec" where
  "classify_slot blake3 slot =
     (if length slot < uberblock_size \<or> slice 0 8 slot \<noteq> eofs_magic then Some (Ok NoMagic)
      else if blake3 (slice 0 uberblock_body_size slot) \<noteq> slice uberblock_body_size 32 slot then Some (Ok Invalid)
      else if le_decode (slice 8 4 slot) \<noteq> format_version then
        Some (Err (Corrupt ''unsupported format version''))
      else
        try_then (Some (codec_from_tag (slot ! 20))) (\<lambda>codec.
        try_then (obj_read (slice 48 obj_ref_size slot)) (\<lambda>live_root.
        try_then (obj_read (slice 120 obj_ref_size slot)) (\<lambda>snapshots.
        Some (Ok (Valid
          \<lparr>ub_block_size = le_decode (slice 12 4 slot), ub_alloc_unit = le_decode (slice 16 4 slot),
           ub_codec = codec, ub_txg = le_decode (slice 24 8 slot), ub_frontier = le_decode (slice 32 8 slot),
           ub_device_size = le_decode (slice 40 8 slot), ub_live_root = live_root, ub_snapshots = snapshots\<rparr>))))))"

definition from_slot_bytes :: "(bytes \<Rightarrow> bytes) \<Rightarrow> bytes \<Rightarrow> (uberblock option, fs_error) result exec" where
  "from_slot_bytes blake3 slot =
     try_then (classify_slot blake3 slot)
       (\<lambda>st. Some (Ok (case st of Valid ub \<Rightarrow> Some ub | NoMagic \<Rightarrow> None | Invalid \<Rightarrow> None)))"

definition ub_wf :: "uberblock \<Rightarrow> bool" where
  "ub_wf ub \<longleftrightarrow> ub_block_size ub < 2 ^ 32 \<and> ub_alloc_unit ub < 2 ^ 32 \<and> ub_txg ub < 2 ^ 64 \<and>
     ub_frontier ub < 2 ^ 64 \<and> ub_device_size ub < 2 ^ 64 \<and> obj_wf (ub_live_root ub) \<and> obj_wf (ub_snapshots ub)"

lemma length_eofs_magic [simp, layout_simps]: "length eofs_magic = 8"
  by (simp add: eofs_magic_def)

lemma length_ub_body [simp, layout_simps]: "ub_wf ub \<Longrightarrow> length (ub_body ub) = 192"
  by (simp add: ub_body_def ub_wf_def)

lemma length_to_slot_bytes [simp, layout_simps]:
  "ub_wf ub \<Longrightarrow> length (blake3 (ub_body ub)) = 32 \<Longrightarrow> length (to_slot_bytes blake3 ub) = 4096"
  by (simp add: to_slot_bytes_def format_consts)

lemma to_slot_body:
  assumes "ub_wf ub" "at + n \<le> 192"
  shows "slice at n (to_slot_bytes blake3 ub) = slice at n (ub_body ub)"
  using assms by (simp add: to_slot_bytes_def layout_simps)

text \<open>What the parser answers depends on the first 224 bytes of a slot only.\<close>

lemma classify_slot_prefix:
  assumes "take 224 s = take 224 t" and "224 \<le> length s" and "224 \<le> length t"
  shows "classify_slot blake3 s = classify_slot blake3 t"
proof -
  have sl: "slice at n s = slice at n t" if "at + n \<le> 224" for at n
  proof -
    have "slice at n s = slice at n (take 224 s)" "slice at n t = slice at n (take 224 t)"
      using that by (auto simp: slice_def drop_take min_def)
    then show ?thesis using assms(1) by simp
  qed
  have "s ! 20 = t ! 20"
    using assms by (metis nth_take numeral_less_iff semiring_norm(68) semiring_norm(76) semiring_norm(78) semiring_norm(81))
  with sl assms(2,3) show ?thesis
    by (simp add: classify_slot_def format_consts)
qed

lemma classify_slot_returns: "classify_slot blake3 slot \<noteq> None"
  using obj_read_returns [of "slice 48 72 slot"] obj_read_returns [of "slice 120 72 slot"]
  by (auto simp: classify_slot_def try_then_None_iff format_consts simp del: not_None_eq)

lemma classify_slot_valid_wf:
  assumes "classify_slot blake3 slot = Some (Ok (Valid ub))"
  shows "ub_wf ub"
  using assms by (auto simp: classify_slot_def ub_wf_def format_consts try_then_Ok_iff
      dest: obj_read_wf split: if_splits)

lemma classify_to_slot:
  assumes "ub_wf ub" and "length (blake3 (ub_body ub)) = 32"
  shows "classify_slot blake3 (to_slot_bytes blake3 ub) = Some (Ok (Valid ub))"
proof -
  let ?s = "to_slot_bytes blake3 ub"
  have "slice 192 32 ?s = blake3 (ub_body ub)" "slice 0 192 ?s = ub_body ub"
    using assms by (simp_all add: to_slot_bytes_def layout_simps)
  moreover have "?s ! 20 = codec_to_tag (ub_codec ub)"
    using assms by (simp add: to_slot_bytes_def ub_body_def nth_append)
  moreover have "slice 48 72 ?s = obj_write (ub_live_root ub)" "slice 120 72 ?s = obj_write (ub_snapshots ub)"
    using assms by (simp_all add: to_slot_body, simp_all add: ub_body_def ub_wf_def layout_simps)
  moreover have "slice 0 8 ?s = eofs_magic" "slice 8 4 ?s = le_encode 4 format_version"
      "slice 12 4 ?s = le_encode 4 (ub_block_size ub)" "slice 16 4 ?s = le_encode 4 (ub_alloc_unit ub)"
      "slice 24 8 ?s = le_encode 8 (ub_txg ub)" "slice 32 8 ?s = le_encode 8 (ub_frontier ub)"
      "slice 40 8 ?s = le_encode 8 (ub_device_size ub)"
    using assms by (simp_all add: to_slot_body, simp_all add: ub_body_def ub_wf_def layout_simps)
  ultimately show ?thesis
    using assms by (simp add: classify_slot_def uberblock_size_def uberblock_body_size_def obj_ref_size_def
        format_version_def ub_wf_def)
qed


section \<open>Directories\<close>

record dir_entry =
  de_name :: bytes
  de_kind :: node_kind
  de_obj :: obj_ref

definition dir_entry_bytes :: "dir_entry \<Rightarrow> bytes" where
  "dir_entry_bytes e = le_encode 2 (length (de_name e)) @ [kind_to_tag (de_kind e)] @ [0] @
     obj_write (de_obj e) @ de_name e"

definition serialize_dir :: "dir_entry list \<Rightarrow> bytes exec" where
  "serialize_dir entries =
     (let es = sort_key de_name entries in do {
        assert_exec (list_all (\<lambda>e. length (de_name e) \<le> max_name_len) es);
        Some (concat (map dir_entry_bytes es))
      })"

text \<open>The loop at offset \<open>at\<close>, over the bytes from \<open>at\<close> on.\<close>

function parse_dir :: "bytes \<Rightarrow> (dir_entry list, fs_error) result exec" where
  "parse_dir rest =
     (if rest = [] then Some (Ok [])
      else if length rest < dir_entry_fixed then Some (Err (Corrupt ''truncated directory entry''))
      else
        (let name_len = le_decode (slice 0 2 rest) in
         try_then (Some (kind_from_tag (rest ! 2))) (\<lambda>kind.
         try_then (obj_read (slice 4 obj_ref_size rest)) (\<lambda>obj.
         if name_len > max_name_len \<or> length rest - dir_entry_fixed < name_len then
           Some (Err (Corrupt ''truncated directory entry name''))
         else
           (let name = slice dir_entry_fixed name_len rest in
            if \<not> utf8_valid name then Some (Err (Corrupt ''directory entry name is not utf-8''))
            else
              try_then (parse_dir (drop (dir_entry_fixed + name_len) rest)) (\<lambda>es.
              Some (Ok (\<lparr>de_name = name, de_kind = kind, de_obj = obj\<rparr> # es))))))))"
  by pat_completeness auto
termination
  by (relation "measure length") (auto simp: dir_entry_fixed_def)

declare parse_dir.simps [simp del]


section \<open>The snapshot table\<close>

record snap_entry =
  se_txg :: nat
  se_name :: bytes
  se_root :: obj_ref

definition snap_entry_bytes :: "snap_entry \<Rightarrow> bytes" where
  "snap_entry_bytes e = le_encode 8 (se_txg e) @ le_encode 2 (length (se_name e)) @ replicate 6 0 @
     obj_write (se_root e) @ se_name e"

definition serialize_snapshots :: "snap_entry list \<Rightarrow> bytes exec" where
  "serialize_snapshots es = do {
     assert_exec (list_all (\<lambda>e. length (se_name e) \<le> max_name_len) es);
     Some (concat (map snap_entry_bytes es))
   }"

function parse_snapshots :: "bytes \<Rightarrow> (snap_entry list, fs_error) result exec" where
  "parse_snapshots rest =
     (if rest = [] then Some (Ok [])
      else if length rest < snap_entry_fixed then Some (Err (Corrupt ''truncated snapshot entry''))
      else
        (let txg = le_decode (slice 0 8 rest);
             name_len = le_decode (slice 8 2 rest) in
         try_then (obj_read (slice 16 obj_ref_size rest)) (\<lambda>root.
         if name_len > max_name_len \<or> length rest - snap_entry_fixed < name_len then
           Some (Err (Corrupt ''truncated snapshot entry name''))
         else
           (let name = slice snap_entry_fixed name_len rest in
            if \<not> utf8_valid name then Some (Err (Corrupt ''snapshot name is not utf-8''))
            else
              try_then (parse_snapshots (drop (snap_entry_fixed + name_len) rest)) (\<lambda>es.
              Some (Ok (\<lparr>se_txg = txg, se_name = name, se_root = root\<rparr> # es)))))))"
  by pat_completeness auto
termination
  by (relation "measure length") (auto simp: snap_entry_fixed_def)

declare parse_snapshots.simps [simp del]


section \<open>Round trips of the tables\<close>

definition name_wf :: "bytes \<Rightarrow> bool" where
  "name_wf nm \<longleftrightarrow> length nm \<le> max_name_len \<and> utf8_valid nm"

definition dir_wf :: "dir_entry \<Rightarrow> bool" where
  "dir_wf e \<longleftrightarrow> name_wf (de_name e) \<and> obj_wf (de_obj e)"

definition snap_wf :: "snap_entry \<Rightarrow> bool" where
  "snap_wf e \<longleftrightarrow> name_wf (se_name e) \<and> obj_wf (se_root e) \<and> se_txg e < 2 ^ 64"

lemma length_dir_entry_bytes: "dir_wf e \<Longrightarrow> length (dir_entry_bytes e) = 76 + length (de_name e)"
  by (simp add: dir_entry_bytes_def dir_wf_def)

lemma length_snap_entry_bytes: "snap_wf e \<Longrightarrow> length (snap_entry_bytes e) = 88 + length (se_name e)"
  by (simp add: snap_entry_bytes_def snap_wf_def)

lemma parse_dir_Nil [simp]: "parse_dir [] = Some (Ok [])"
  by (simp add: parse_dir.simps)

lemma parse_snapshots_Nil [simp]: "parse_snapshots [] = Some (Ok [])"
  by (simp add: parse_snapshots.simps)

lemma parse_dir_step:
  assumes "dir_wf e"
  shows "parse_dir (dir_entry_bytes e @ rest) = try_then (parse_dir rest) (\<lambda>es. Some (Ok (e # es)))"
proof -
  let ?b = "dir_entry_bytes e @ rest" and ?n = "length (de_name e)"
  have n: "?n < 2 ^ 16" "?n \<le> 255" using assms by (simp_all add: dir_wf_def name_wf_def max_name_len_def)
  have obj: "obj_wf (de_obj e)" and utf: "utf8_valid (de_name e)"
    using assms by (simp_all add: dir_wf_def name_wf_def)
  have "slice 0 2 ?b = le_encode 2 ?n" "?b ! 2 = kind_to_tag (de_kind e)"
      "slice 4 72 ?b = obj_write (de_obj e)" "slice 76 ?n ?b = de_name e"
    using obj by (simp_all add: dir_entry_bytes_def layout_simps nth_append)
  moreover have "drop (76 + ?n) ?b = rest" "length ?b = 76 + ?n + length rest" "?b \<noteq> []"
    using length_dir_entry_bytes [OF assms] by auto
  ultimately show ?thesis using n obj utf
    by (subst parse_dir.simps, simp add: dir_entry_fixed_def obj_ref_size_def max_name_len_def Let_def)
      (cases e, simp)
qed

lemma parse_snapshots_step:
  assumes "snap_wf e"
  shows "parse_snapshots (snap_entry_bytes e @ rest) = try_then (parse_snapshots rest) (\<lambda>es. Some (Ok (e # es)))"
proof -
  let ?b = "snap_entry_bytes e @ rest" and ?n = "length (se_name e)"
  have n: "?n < 2 ^ 16" "?n \<le> 255" "se_txg e < 2 ^ 64"
    using assms by (simp_all add: snap_wf_def name_wf_def max_name_len_def)
  have obj: "obj_wf (se_root e)" and utf: "utf8_valid (se_name e)"
    using assms by (simp_all add: snap_wf_def name_wf_def)
  have "slice 0 8 ?b = le_encode 8 (se_txg e)" "slice 8 2 ?b = le_encode 2 ?n"
      "slice 16 72 ?b = obj_write (se_root e)" "slice 88 ?n ?b = se_name e"
    using obj by (simp_all add: snap_entry_bytes_def layout_simps nth_append)
  moreover have "drop (88 + ?n) ?b = rest" "length ?b = 88 + ?n + length rest" "?b \<noteq> []"
    using length_snap_entry_bytes [OF assms] by auto
  ultimately show ?thesis using n obj utf
    by (subst parse_snapshots.simps, simp add: snap_entry_fixed_def obj_ref_size_def max_name_len_def Let_def)
      (cases e, simp)
qed

lemma parse_dir_concat:
  "list_all dir_wf es \<Longrightarrow> parse_dir (concat (map dir_entry_bytes es)) = Some (Ok es)"
  by (induction es) (simp_all add: parse_dir_step)

lemma parse_snapshots_concat:
  "list_all snap_wf es \<Longrightarrow> parse_snapshots (concat (map snap_entry_bytes es)) = Some (Ok es)"
  by (induction es) (simp_all add: parse_snapshots_step)

lemma list_all_sort_key [simp]: "list_all P (sort_key f xs) = list_all P xs"
  by (simp add: list_all_iff)

lemma serialize_dir_wf:
  "list_all dir_wf es \<Longrightarrow> serialize_dir es = Some (concat (map dir_entry_bytes (sort_key de_name es)))"
  by (auto simp: serialize_dir_def Let_def list_all_iff dir_wf_def name_wf_def assert_exec_def)

lemma serialize_snapshots_wf:
  "list_all snap_wf es \<Longrightarrow> serialize_snapshots es = Some (concat (map snap_entry_bytes es))"
  by (auto simp: serialize_snapshots_def list_all_iff snap_wf_def name_wf_def assert_exec_def)

text \<open>Parsing never panics, and what it accepts are values of the Rust types.\<close>

lemma parse_dir_returns: "parse_dir bs \<noteq> None"
proof (induction bs rule: parse_dir.induct)
  case (1 rest)
  have "obj_read (slice 4 72 rest) \<noteq> None" if "76 \<le> length rest"
    using that by (intro obj_read_returns) simp
  with 1 show ?case
    by (subst parse_dir.simps)
      (auto simp: Let_def try_then_None_iff dir_entry_fixed_def obj_ref_size_def simp del: not_None_eq)
qed

lemma parse_snapshots_returns: "parse_snapshots bs \<noteq> None"
proof (induction bs rule: parse_snapshots.induct)
  case (1 rest)
  have "obj_read (slice 16 72 rest) \<noteq> None" if "88 \<le> length rest"
    using that by (intro obj_read_returns) simp
  with 1 show ?case
    by (subst parse_snapshots.simps)
      (auto simp: Let_def try_then_None_iff snap_entry_fixed_def obj_ref_size_def simp del: not_None_eq)
qed

lemma parse_dir_Cons:
  assumes "parse_dir rest = Some (Ok es)" and "rest \<noteq> []"
  obtains e es' n where "es = e # es'" "dir_wf e" "parse_dir (drop n rest) = Some (Ok es')" "length (drop n rest) < length rest"
proof -
  let ?n = "le_decode (slice 0 2 rest)"
  from assms obtain kind obj es' where
    r: "76 \<le> length rest" "obj_read (slice 4 72 rest) = Some (Ok obj)"
      "?n \<le> 255" "76 + ?n \<le> length rest"
      "utf8_valid (slice 76 ?n rest)" "parse_dir (drop (76 + ?n) rest) = Some (Ok es')"
      "es = \<lparr>de_name = slice 76 ?n rest, de_kind = kind, de_obj = obj\<rparr> # es'"
    by (subst (asm) parse_dir.simps)
      (auto simp: Let_def try_then_Ok_iff dir_entry_fixed_def obj_ref_size_def max_name_len_def not_less split: if_splits)
  from r show thesis
    by (intro that [of "\<lparr>de_name = slice 76 ?n rest, de_kind = kind, de_obj = obj\<rparr>" es' "76 + ?n"])
      (auto simp: dir_wf_def name_wf_def max_name_len_def dest: obj_read_wf)
qed

lemma parse_snapshots_Cons:
  assumes "parse_snapshots rest = Some (Ok es)" and "rest \<noteq> []"
  obtains e es' n where "es = e # es'" "snap_wf e" "parse_snapshots (drop n rest) = Some (Ok es')"
    "length (drop n rest) < length rest"
proof -
  let ?n = "le_decode (slice 8 2 rest)"
  from assms obtain obj es' where
    r: "88 \<le> length rest" "obj_read (slice 16 72 rest) = Some (Ok obj)"
      "?n \<le> 255" "88 + ?n \<le> length rest"
      "utf8_valid (slice 88 ?n rest)" "parse_snapshots (drop (88 + ?n) rest) = Some (Ok es')"
      "es = \<lparr>se_txg = le_decode (slice 0 8 rest), se_name = slice 88 ?n rest, se_root = obj\<rparr> # es'"
    by (subst (asm) parse_snapshots.simps)
      (auto simp: Let_def try_then_Ok_iff snap_entry_fixed_def obj_ref_size_def max_name_len_def not_less split: if_splits)
  from r show thesis
    by (intro that [of "\<lparr>se_txg = le_decode (slice 0 8 rest), se_name = slice 88 ?n rest, se_root = obj\<rparr>" es' "88 + ?n"])
      (auto simp: snap_wf_def name_wf_def max_name_len_def dest: obj_read_wf)
qed

lemma parse_dir_wf: "parse_dir bs = Some (Ok es) \<Longrightarrow> list_all dir_wf es"
proof (induction bs arbitrary: es rule: measure_induct_rule [of length])
  case (less bs)
  show ?case
  proof (cases "bs = []")
    case False
    show ?thesis by (rule parse_dir_Cons [OF less.prems False]) (use less.IH in fastforce)
  qed (use less.prems in simp)
qed

lemma parse_snapshots_wf: "parse_snapshots bs = Some (Ok es) \<Longrightarrow> list_all snap_wf es"
proof (induction bs arbitrary: es rule: measure_induct_rule [of length])
  case (less bs)
  show ?case
  proof (cases "bs = []")
    case False
    show ?thesis by (rule parse_snapshots_Cons [OF less.prems False]) (use less.IH in fastforce)
  qed (use less.prems in simp)
qed


section \<open>Properties\<close>

text \<open>
  C25: the uberblock slot. An encoded uberblock fills a slot exactly and is parsed back as itself,
  whatever bytes stand in a slot the parser answers without a panic, and it adopts only what
  carries the magic and a matching checksum.
\<close>

theorem slot_roundtrip:
  assumes "ub_wf ub" and "\<forall>bs. length (blake3 bs) = 32"
  shows "length (to_slot_bytes blake3 ub) = slot_size \<and>
    classify_slot blake3 (to_slot_bytes blake3 ub) = Some (Ok (Valid ub)) \<and>
    (\<forall>slot. \<exists>r. classify_slot blake3 slot = Some r \<and>
       (\<forall>ub'. r = Ok (Valid ub') \<longrightarrow> ub_wf ub' \<and> take 8 slot = eofs_magic \<and>
          blake3 (take 192 slot) = slice 192 32 slot))"
proof -
  have "\<exists>r. classify_slot blake3 slot = Some r \<and>
       (\<forall>ub'. r = Ok (Valid ub') \<longrightarrow> ub_wf ub' \<and> take 8 slot = eofs_magic \<and>
          blake3 (take 192 slot) = slice 192 32 slot)" for slot
  proof -
    obtain r where r: "classify_slot blake3 slot = Some r"
      using classify_slot_returns [of blake3 slot] by auto
    moreover have "ub_wf ub' \<and> take 8 slot = eofs_magic \<and> blake3 (take 192 slot) = slice 192 32 slot"
      if "r = Ok (Valid ub')" for ub'
      using that r classify_slot_valid_wf [of blake3 slot ub']
      by (auto simp: classify_slot_def uberblock_body_size_def slice_def split: if_splits)
    ultimately show ?thesis by blast
  qed
  with assms show ?thesis by (simp add: slot_size_def classify_to_slot)
qed

theorem slot_roundtrip_witness:
  "let ub = \<lparr>ub_block_size = 4096, ub_alloc_unit = 512, ub_codec = Lz4, ub_txg = 7, ub_frontier = 12288,
       ub_device_size = 65536, ub_live_root = empty_obj, ub_snapshots = empty_obj\<rparr>
   in classify_slot (\<lambda>bs. replicate 32 (sum_list bs)) (to_slot_bytes (\<lambda>bs. replicate 32 (sum_list bs)) ub) =
        Some (Ok (Valid ub))"
  using slot_roundtrip [of "\<lparr>ub_block_size = 4096, ub_alloc_unit = 512, ub_codec = Lz4, ub_txg = 7,
      ub_frontier = 12288, ub_device_size = 65536, ub_live_root = empty_obj, ub_snapshots = empty_obj\<rparr>"
      "\<lambda>bs. replicate 32 (sum_list bs)"]
  by (simp add: ub_wf_def Let_def slot_size_def)

text \<open>
  The stored tables. A directory is read back as its entries in name order, its bytes depend
  on the set of its entries only (so equal directories hash equally), and the snapshot table is
  read back in creation order.
\<close>

theorem tables_roundtrip:
  assumes "list_all dir_wf es" and "list_all snap_wf sns"
  shows "(\<exists>bs. serialize_dir es = Some bs \<and> parse_dir bs = Some (Ok (sort_key de_name es)) \<and>
      (\<forall>es'. mset es' = mset es \<and> distinct (map de_name es) \<longrightarrow> serialize_dir es' = Some bs)) \<and>
    (\<exists>bs. serialize_snapshots sns = Some bs \<and> parse_snapshots bs = Some (Ok sns))"
proof (intro conjI exI allI impI)
  let ?bs = "concat (map dir_entry_bytes (sort_key de_name es))"
  show "serialize_dir es = Some ?bs"
    using assms(1) by (rule serialize_dir_wf)
  show "parse_dir ?bs = Some (Ok (sort_key de_name es))"
    using assms(1) by (intro parse_dir_concat) simp
  fix es' assume perm: "mset es' = mset es \<and> distinct (map de_name es)"
  then have "set es' = set es" by (metis set_mset_mset)
  with assms(1) have "list_all dir_wf es'" by (simp add: list_all_iff)
  moreover have "sort_key de_name es' = sort_key de_name es"
    using perm \<open>set es' = set es\<close>
    by (intro sort_key_inj_key_eq) (simp_all add: distinct_map)
  ultimately show "serialize_dir es' = Some ?bs" by (simp add: serialize_dir_wf)
next
  show "serialize_snapshots sns = Some (concat (map snap_entry_bytes sns))"
    using assms(2) by (rule serialize_snapshots_wf)
  show "parse_snapshots (concat (map snap_entry_bytes sns)) = Some (Ok sns)"
    using assms(2) by (rule parse_snapshots_concat)
qed

theorem tables_roundtrip_witness:
  "let e1 = \<lparr>de_name = [0x62], de_kind = File, de_obj = empty_obj\<rparr>;
       e2 = \<lparr>de_name = [0x61, 0x7A], de_kind = Directory, de_obj = empty_obj\<rparr>
   in \<exists>bs. serialize_dir [e1, e2] = Some bs \<and> parse_dir bs = Some (Ok [e2, e1]) \<and> serialize_dir [e2, e1] = Some bs"
proof -
  let ?e1 = "\<lparr>de_name = [0x62], de_kind = File, de_obj = empty_obj\<rparr>"
  let ?e2 = "\<lparr>de_name = [0x61, 0x7A], de_kind = Directory, de_obj = empty_obj\<rparr>"
  have "list_all dir_wf [?e1, ?e2]" by (simp add: dir_wf_def name_wf_def max_name_len_def)
  from tables_roundtrip [OF this, of "[]"] obtain bs where
    bs: "serialize_dir [?e1, ?e2] = Some bs" "parse_dir bs = Some (Ok (sort_key de_name [?e1, ?e2]))"
      "\<forall>es'. mset es' = mset [?e1, ?e2] \<and> distinct (map de_name [?e1, ?e2]) \<longrightarrow> serialize_dir es' = Some bs"
    by auto
  moreover have "sort_key de_name [?e1, ?e2] = [?e2, ?e1]" by simp
  moreover have "serialize_dir [?e2, ?e1] = Some bs"
    using bs(3) by (simp add: add_mset_commute)
  ultimately show ?thesis unfolding Let_def by metis
qed

end
