(* ===== verification/Eofs_Tree.thy ===== *)
theory Eofs_Tree
  imports Eofs_Format
begin

text \<open>
  Block I/O and byte objects (\<open>crates/eo9-eofs/src/tree.rs\<close>) over the mounted filesystem's state
  (\<open>AsyncEofs\<close> of \<open>crates/eo9-eofs/src/fs.rs\<close>). The device operations, the hash \<open>blake3\<close> and the
  compressor \<open>lz4\<close> are parameters, gathered in an environment. \<open>usize\<close> has 64 bits. A read fills a
  caller's buffer; the model answers the bytes that were filled in.
\<close>

section \<open>State and environment\<close>

record 'd env =
  e_dev :: "'d block_ops"
  e_blake3 :: "bytes \<Rightarrow> bytes"
  e_compress :: "bytes \<Rightarrow> bytes"
  e_decompress :: "bytes \<Rightarrow> nat \<Rightarrow> bytes option"

record 'd eofs =
  fs_dev :: 'd
  fs_block_size :: nat
  fs_alloc_unit :: nat
  fs_codec :: codec
  fs_device_size :: nat
  fs_format_device_size :: nat
  fs_committed_txg :: nat
  fs_committed_live_root :: obj_ref
  fs_committed_snapshots :: obj_ref
  fs_live_root :: obj_ref
  fs_snapshots :: obj_ref
  fs_alloc :: allocator
  fs_dirty :: bool

type_synonym ('d, 'a) fs_io = "('d eofs \<times> ('a, fs_error) result) exec"

text \<open>The question mark operator in an operation on the filesystem: the state is kept on an error.\<close>

definition io_then ::
  "('s \<times> ('a, 'e) result) exec \<Rightarrow> ('s \<Rightarrow> 'a \<Rightarrow> ('s \<times> ('b, 'e) result) exec) \<Rightarrow> ('s \<times> ('b, 'e) result) exec" where
  "io_then m f = (case m of None \<Rightarrow> None | Some (s, Err e) \<Rightarrow> Some (s, Err e) | Some (s, Ok v) \<Rightarrow> f s v)"

definition io_read ::
  "'s \<Rightarrow> ('a, 'e) result exec \<Rightarrow> ('a \<Rightarrow> ('s \<times> ('b, 'e) result) exec) \<Rightarrow> ('s \<times> ('b, 'e) result) exec" where
  "io_read s m f = (case m of None \<Rightarrow> None | Some (Err e) \<Rightarrow> Some (s, Err e) | Some (Ok v) \<Rightarrow> f v)"

text \<open>A loop over a list that stops at the first error.\<close>

primrec fold_try ::
  "('x \<Rightarrow> 'a \<Rightarrow> ('a, 'e) result exec) \<Rightarrow> 'x list \<Rightarrow> 'a \<Rightarrow> ('a, 'e) result exec" where
  "fold_try f [] a = Some (Ok a)"
| "fold_try f (x # xs) a = try_then (f x a) (fold_try f xs)"

text \<open>\<open>slice::chunks\<close>; the length of a chunk is positive.\<close>

function chunks :: "nat \<Rightarrow> 'a list \<Rightarrow> 'a list list" where
  "chunks n xs = (if xs = [] \<or> n = 0 then [] else take n xs # chunks n (drop n xs))"
  by pat_completeness auto
termination by (relation "measure (length \<circ> snd)") auto

declare chunks.simps [simp del]


section \<open>Blocks\<close>

definition fanout :: "'d eofs \<Rightarrow> nat" where
  "fanout fs = fs_block_size fs div block_ptr_size"

definition encode_block :: "'d env \<Rightarrow> codec \<Rightarrow> bytes \<Rightarrow> codec \<times> bytes" where
  "encode_block E c logical =
     (if c = Lz4 then
        (let compressed = e_compress E logical in
         if length compressed < length logical then (Lz4, compressed) else (Raw, logical))
      else (Raw, logical))"

definition write_block :: "'d env \<Rightarrow> 'd eofs \<Rightarrow> bytes \<Rightarrow> ('d, block_ptr) fs_io" where
  "write_block E fs logical = do {
     assert_exec (logical \<noteq> [] \<and> length logical \<le> fs_block_size fs);
     let hash = e_blake3 E logical;
     let (codec, payload) = encode_block E (fs_codec fs) logical;
     (alloc', r) \<leftarrow> allocate (fs_alloc fs) (length payload);
     let fs1 = fs\<lparr>fs_alloc := alloc'\<rparr>;
     (case r of
        Err e \<Rightarrow> Some (fs1, Err e)
      | Ok addr \<Rightarrow>
          (case d_write (e_dev E) (fs_dev fs1) addr payload of
             (dev', Err e) \<Rightarrow> Some (fs1\<lparr>fs_dev := dev'\<rparr>, Err (FsDevice e))
           | (dev', Ok _) \<Rightarrow> Some (fs1\<lparr>fs_dev := dev'\<rparr>,
               Ok \<lparr>bp_addr = addr, bp_lsize = length logical, bp_psize = length payload, bp_codec = codec, bp_hash = hash\<rparr>)))
   }"

definition decode_block :: "'d env \<Rightarrow> block_ptr \<Rightarrow> bytes \<Rightarrow> (bytes, fs_error) result" where
  "decode_block E p payload =
     (case bp_codec p of
        Raw \<Rightarrow> if bp_psize p \<noteq> bp_lsize p then Err (Corrupt ''raw block with differing sizes'') else Ok payload
      | Lz4 \<Rightarrow>
          (case e_decompress E payload (bp_lsize p) of
             None \<Rightarrow> Err ChecksumMismatch
           | Some out \<Rightarrow>
               if length out \<noteq> bp_lsize p then Err (Corrupt ''decompressed size mismatch'') else Ok out))"

definition read_block :: "'d env \<Rightarrow> 'd eofs \<Rightarrow> block_ptr \<Rightarrow> (bytes, fs_error) result" where
  "read_block E fs p =
     (if is_null p then Err (Corrupt ''read through a null block pointer'')
      else if bp_lsize p = 0 \<or> bp_lsize p > fs_block_size fs \<or> bp_psize p = 0 \<or> bp_psize p > fs_block_size fs then
        Err (Corrupt ''block pointer with impossible sizes'')
      else if bp_addr p < eofs_data_start \<or> bp_addr p mod fs_alloc_unit fs \<noteq> 0 \<or>
          (case checked_add 64 (bp_addr p) (bp_psize p) of None \<Rightarrow> True | Some end_at \<Rightarrow> end_at > fs_device_size fs) then
        Err (Corrupt ''block pointer outside the data region'')
      else
        (case d_read (e_dev E) (fs_dev fs) (bp_addr p) (bp_psize p) of
           Err e \<Rightarrow> Err (FsDevice e)
         | Ok payload \<Rightarrow>
             and_then (decode_block E p payload) (\<lambda>logical.
             if e_blake3 E logical \<noteq> bp_hash p then Err ChecksumMismatch else Ok logical)))"


section \<open>Objects\<close>

text \<open>The height loop; the level is a \<open>u8\<close>, so it ends after 255 rounds at the latest.\<close>

function canonical_level :: "nat \<Rightarrow> nat \<Rightarrow> nat \<Rightarrow> nat \<Rightarrow> nat exec" where
  "canonical_level fan leaf_count capacity level =
     (if capacity < leaf_count then
        (if level + 1 < 2 ^ 8 then canonical_level fan leaf_count (min (capacity * fan) (2 ^ 64 - 1)) (level + 1)
         else None)
      else Some level)"
  by pat_completeness auto
termination by (relation "measure (\<lambda>(_, _, _, level). 256 - level)") auto

declare canonical_level.simps [simp del]

definition check_object :: "'d eofs \<Rightarrow> obj_ref \<Rightarrow> (nat, fs_error) result exec" where
  "check_object fs ob =
     (if o_size ob = 0 then
        Some (if \<not> is_null (o_root ob) \<or> o_level ob \<noteq> 0 then Err (Corrupt ''empty object with a root block'') else Ok 0)
      else if is_null (o_root ob) then Some (Err (Corrupt ''non-empty object without a root block''))
      else do {
        assert_exec (0 < fs_block_size fs \<and> 0 < fs_alloc_unit fs);
        let leaf_count = div_ceil (o_size ob) (fs_block_size fs);
        room \<leftarrow> minus_exec (fs_device_size fs) eofs_data_start;
        (if leaf_count > room div fs_alloc_unit fs then Some (Err (Corrupt ''object larger than the device''))
         else do {
           level \<leftarrow> canonical_level (fanout fs) leaf_count 1 0;
           Some (if o_level ob \<noteq> level then Err (Corrupt ''object level inconsistent with its size'') else Ok leaf_count)
         })
      })"

text \<open>The pointers an indirect block holds, each visited in order.\<close>

definition each_child ::
  "bytes \<Rightarrow> (block_ptr \<Rightarrow> 'a \<Rightarrow> ('a, fs_error) result exec) \<Rightarrow> 'a \<Rightarrow> ('a, fs_error) result exec" where
  "each_child block visit acc =
     (if block = [] \<or> length block mod block_ptr_size \<noteq> 0 then Some (Err (Corrupt ''malformed indirect block''))
      else fold_try (\<lambda>chunk acc. try_then (ptr_read chunk) (\<lambda>child. visit child acc)) (chunks block_ptr_size block) acc)"

fun collect_level ::
  "'d env \<Rightarrow> 'd eofs \<Rightarrow> nat \<Rightarrow> nat \<Rightarrow> block_ptr \<Rightarrow> block_ptr list \<Rightarrow> (block_ptr list, fs_error) result exec" where
  "collect_level E fs leaf_count 0 p out =
     Some (if length out \<ge> leaf_count then Err (Corrupt ''object has more data blocks than its size'') else Ok (out @ [p]))"
| "collect_level E fs leaf_count (Suc level) p out =
     try_then (Some (read_block E fs p)) (\<lambda>block. each_child block (collect_level E fs leaf_count level) out)"

definition collect_leaves :: "'d env \<Rightarrow> 'd eofs \<Rightarrow> obj_ref \<Rightarrow> (block_ptr list, fs_error) result exec" where
  "collect_leaves E fs ob =
     try_then (check_object fs ob) (\<lambda>leaf_count.
     if leaf_count = 0 then Some (Ok [])
     else
       try_then (collect_level E fs leaf_count (o_level ob) (o_root ob) []) (\<lambda>leaves.
       Some (if length leaves \<noteq> leaf_count then Err (Corrupt ''object data-block count mismatch'') else Ok leaves)))"

text \<open>One level of the indirect tree: a block for every group of pointers.\<close>

fun write_groups :: "'d env \<Rightarrow> 'd eofs \<Rightarrow> block_ptr list list \<Rightarrow> ('d, block_ptr list) fs_io" where
  "write_groups E fs [] = Some (fs, Ok [])"
| "write_groups E fs (g # gs) =
     io_then (write_block E fs (concat (map ptr_write g))) (\<lambda>fs1 p.
     io_then (write_groups E fs1 gs) (\<lambda>fs2 ps. Some (fs2, Ok (p # ps))))"

function build_loop :: "'d env \<Rightarrow> 'd eofs \<Rightarrow> nat \<Rightarrow> block_ptr list \<Rightarrow> ('d, nat \<times> block_ptr) fs_io" where
  "build_loop E fs level current =
     (if length current > 1 then do {
        assert_exec (0 < fanout fs);
        io_then (write_groups E fs (chunks (fanout fs) current)) (\<lambda>fs1 next.
          if level + 1 < 2 ^ 8 then build_loop E fs1 (level + 1) next else None)
      } else do {
        assert_exec (current \<noteq> []);
        Some (fs, Ok (level, hd current))
      })"
  by pat_completeness auto
termination by (relation "measure (\<lambda>(_, _, level, _). 256 - level)") auto

declare build_loop.simps [simp del]

definition build_tree :: "'d env \<Rightarrow> 'd eofs \<Rightarrow> block_ptr list \<Rightarrow> nat \<Rightarrow> ('d, obj_ref) fs_io" where
  "build_tree E fs leaves sz =
     (if leaves = [] then do { assert_exec (sz = 0); Some (fs, Ok empty_obj) }
      else io_then (build_loop E fs 0 leaves) (\<lambda>fs1 (level, root).
        Some (fs1, Ok \<lparr>o_size = sz, o_level = level, o_root = root\<rparr>)))"

text \<open>
  The copy loop of a read. A block that is too short makes no progress, which the code repeats
  forever: the model answers \<^term>\<open>None\<close> there, as for the underflow of \<open>logical.len() - within\<close>.
\<close>

function read_range_loop ::
  "'d env \<Rightarrow> 'd eofs \<Rightarrow> block_ptr list \<Rightarrow> nat \<Rightarrow> nat \<Rightarrow> bytes \<Rightarrow> (bytes, fs_error) result exec" where
  "read_range_loop E fs leaves offset want got =
     (if length got < want then
        (let at = offset + length got;
             within = at mod fs_block_size fs in do {
           assert_exec (at div fs_block_size fs < length leaves);
           try_then (Some (read_block E fs (leaves ! (at div fs_block_size fs)))) (\<lambda>logical. do {
             left \<leftarrow> minus_exec (length logical) within;
             let n = min (want - length got) left;
             (if n = 0 then None
              else read_range_loop E fs leaves offset want (got @ slice within n logical))
           })
         })
      else Some (Ok got))"
  by pat_completeness auto
termination
  by (relation "measure (\<lambda>(_, _, _, _, want, got). want - length got)") (auto simp: slice_def)

declare read_range_loop.simps [simp del]

definition read_object_range ::
  "'d env \<Rightarrow> 'd eofs \<Rightarrow> obj_ref \<Rightarrow> nat \<Rightarrow> nat \<Rightarrow> (bytes, fs_error) result exec" where
  "read_object_range E fs ob offset buf_len =
     (if offset \<ge> o_size ob \<or> buf_len = 0 then Some (Ok [])
      else
        try_then (collect_leaves E fs ob) (\<lambda>leaves.
        read_range_loop E fs leaves offset (min buf_len (o_size ob - offset)) []))"

definition read_object :: "'d env \<Rightarrow> 'd eofs \<Rightarrow> obj_ref \<Rightarrow> (bytes, fs_error) result exec" where
  "read_object E fs ob =
     (if o_size ob > max_meta_object_size then Some (Err (Corrupt ''metadata object impossibly large''))
      else
        try_then (check_object fs ob) (\<lambda>_.
        try_then (read_object_range E fs ob 0 (o_size ob)) (\<lambda>buf. do {
          assert_exec (length buf = o_size ob);
          Some (Ok buf)
        })))"

text \<open>
  One data block of a copy-on-write update: kept by pointer, or rewritten with the old bytes and
  the overlapping part of the new ones. Block starts stay below the new size, a \<open>u64\<close>.
\<close>

definition range_block ::
  "'d env \<Rightarrow> 'd eofs \<Rightarrow> obj_ref \<Rightarrow> block_ptr list \<Rightarrow> nat \<Rightarrow> bytes \<Rightarrow> nat \<Rightarrow> nat \<Rightarrow> ('d, block_ptr) fs_io" where
  "range_block E fs ob old_leaves offset data new_size b =
     (let bs = fs_block_size fs;
          write_end = offset + length data;
          block_start = b * bs;
          new_len = min bs (new_size - block_start);
          old_len = (if b < length old_leaves then min bs (o_size ob - block_start) else 0);
          overlap_start = max block_start offset;
          overlap_end = min (block_start + new_len) write_end;
          overlap = overlap_start < overlap_end in
      if \<not> overlap \<and> new_len = old_len then do {
        assert_exec (b < length old_leaves);
        Some (fs, Ok (old_leaves ! b))
      } else
        io_read fs (if old_len > 0 then Some (read_block E fs (old_leaves ! b)) else Some (Ok [])) (\<lambda>old.
        if old_len > 0 \<and> length old \<noteq> old_len then Some (fs, Err (Corrupt ''data block size mismatch''))
        else do {
          assert_exec (old_len \<le> new_len);
          let content = old @ replicate (new_len - old_len) 0;
          let content' = (if overlap then
              overwrite (overlap_start - block_start) (slice (overlap_start - offset) (overlap_end - overlap_start) data) content
            else content);
          write_block E fs content'
        }))"

fun range_blocks ::
  "'d env \<Rightarrow> 'd eofs \<Rightarrow> obj_ref \<Rightarrow> block_ptr list \<Rightarrow> nat \<Rightarrow> bytes \<Rightarrow> nat \<Rightarrow> nat list \<Rightarrow> ('d, block_ptr list) fs_io" where
  "range_blocks E fs ob old_leaves offset data new_size [] = Some (fs, Ok [])"
| "range_blocks E fs ob old_leaves offset data new_size (b # bs) =
     io_then (range_block E fs ob old_leaves offset data new_size b) (\<lambda>fs1 p.
     io_then (range_blocks E fs1 ob old_leaves offset data new_size bs) (\<lambda>fs2 ps. Some (fs2, Ok (p # ps))))"

text \<open>\<open>Vec::with_capacity\<close> panics when the vector of 56-byte pointers would pass \<open>isize::MAX\<close>.\<close>

definition write_object_range ::
  "'d env \<Rightarrow> 'd eofs \<Rightarrow> obj_ref \<Rightarrow> nat \<Rightarrow> bytes \<Rightarrow> ('d, obj_ref) fs_io" where
  "write_object_range E fs ob offset data =
     (if data = [] then Some (fs, Ok ob)
      else
        (case checked_add 64 offset (length data) of
           None \<Rightarrow> Some (fs, Err NoSpace)
         | Some write_end \<Rightarrow>
             (let new_size = max (o_size ob) write_end in
              io_read fs (collect_leaves E fs ob) (\<lambda>old_leaves. do {
                assert_exec (0 < fs_block_size fs);
                let block_count = div_ceil new_size (fs_block_size fs);
                assert_exec (block_count * 56 < 2 ^ 63);
                io_then (range_blocks E fs ob old_leaves offset data new_size [0..<block_count]) (\<lambda>fs1 new_leaves.
                build_tree E fs1 new_leaves new_size)
              }))))"

definition write_object :: "'d env \<Rightarrow> 'd eofs \<Rightarrow> bytes \<Rightarrow> ('d, obj_ref) fs_io" where
  "write_object E fs data = write_object_range E fs empty_obj 0 data"


section \<open>Plumbing\<close>

lemma io_then_simps [simp]:
  "io_then None f = None"
  "io_then (Some (s, Err e)) f = Some (s, Err e)"
  "io_then (Some (s, Ok v)) f = f s v"
  by (simp_all add: io_then_def)

lemma io_read_simps [simp]:
  "io_read s None f = None"
  "io_read s (Some (Err e)) f = Some (s, Err e)"
  "io_read s (Some (Ok v)) f = f v"
  by (simp_all add: io_read_def)

lemma io_then_Ok_iff:
  "io_then m f = Some (s, Ok v) \<longleftrightarrow> (\<exists>s' x. m = Some (s', Ok x) \<and> f s' x = Some (s, Ok v))"
  by (auto simp: io_then_def split: option.splits result.splits)

lemma io_read_Ok_iff:
  "io_read s0 m f = Some (s, Ok v) \<longleftrightarrow> (\<exists>x. m = Some (Ok x) \<and> f x = Some (s, Ok v))"
  by (auto simp: io_read_def split: option.splits result.splits)

lemma check_object_Ok:
  assumes "check_object fs ob = Some (Ok n)"
  shows "(o_size ob = 0 \<and> n = 0 \<and> is_null (o_root ob) \<and> o_level ob = 0) \<or>
    (0 < o_size ob \<and> 0 < n \<and> \<not> is_null (o_root ob) \<and> n = div_ceil (o_size ob) (fs_block_size fs) \<and>
     0 < fs_block_size fs \<and> 0 < fs_alloc_unit fs \<and> canonical_level (fanout fs) n 1 0 = Some (o_level ob))"
  using assms div_ceil_pos [of "fs_block_size fs" "o_size ob"]
  by (auto simp: check_object_def Let_def bind_eq_Some_conv split: if_splits)

lemma write_block_Ok:
  assumes "write_block E fs logical = Some (fs', Ok p)"
  obtains c payload al addr dev' where
    "logical \<noteq> []" "length logical \<le> fs_block_size fs" "encode_block E (fs_codec fs) logical = (c, payload)"
    "allocate (fs_alloc fs) (length payload) = Some (al, Ok addr)"
    "d_write (e_dev E) (fs_dev fs) addr payload = (dev', Ok ())"
    "fs' = fs\<lparr>fs_alloc := al, fs_dev := dev'\<rparr>"
    "p = \<lparr>bp_addr = addr, bp_lsize = length logical, bp_psize = length payload, bp_codec = c, bp_hash = e_blake3 E logical\<rparr>"
proof -
  obtain c payload where enc: "encode_block E (fs_codec fs) logical = (c, payload)" by fastforce
  with assms obtain al q where al: "allocate (fs_alloc fs) (length payload) = Some (al, q)"
    and len: "logical \<noteq> []" "length logical \<le> fs_block_size fs"
    by (auto simp: write_block_def Let_def bind_eq_Some_conv)
  from assms enc al len obtain addr where q: "q = Ok addr"
    by (cases q) (auto simp: write_block_def Let_def)
  obtain dev' wr where dw: "d_write (e_dev E) (fs_dev fs) addr payload = (dev', wr)" by fastforce
  from assms enc al len q dw have "wr = Ok ()"
    by (cases wr) (auto simp: write_block_def Let_def)
  with assms enc al len q dw show thesis
    by (intro that) (auto simp: write_block_def Let_def)
qed

end
