(* ===== verification/Eofs_Fs.thy ===== *)
theory Eofs_Fs
  imports Eofs_Tree
begin

text \<open>
  The eofs engine (\<open>crates/eo9-eofs/src/fs.rs\<close>): probing, formatting and mounting a device,
  transactions, the namespace operations, snapshots, verification and garbage collection. The
  asynchronous core and the synchronous facade (which polls the core once) are the same functions
  here; a device call is one call of the environment's device.
\<close>

section \<open>Reports and options\<close>

record format_options =
  opt_block_size :: nat
  opt_alloc_unit :: nat
  opt_compression :: bool

definition default_options :: format_options where
  "default_options = \<lparr>opt_block_size = 4096, opt_alloc_unit = 512, opt_compression = True\<rparr>"

record node_stat =
  st_kind :: node_kind
  st_size :: nat
  st_hash :: bytes

record snapshot_info =
  si_name :: bytes
  si_txg :: nat
  si_root_hash :: bytes

record verify_report =
  vr_blocks :: nat
  vr_logical_bytes :: nat
  vr_physical_bytes :: nat
  vr_compressed_blocks :: nat
  vr_files :: nat
  vr_directories :: nat
  vr_snapshots :: nat

record gc_report =
  gc_reclaimed_bytes :: nat
  gc_free_extents :: nat

record space_report =
  sp_frontier :: nat
  sp_free_bytes :: nat
  sp_device_size :: nat

record mount_report =
  mr_txg :: nat
  mr_fell_back :: bool

datatype image_state = ImgEofs nat bool | ImgBlank | ImgForeign | ImgUnmountable


section \<open>Probing\<close>

definition probe_zero_prefix :: nat where "probe_zero_prefix = 1024 * 1024"
definition probe_zero_suffix :: nat where "probe_zero_suffix = 64 * 1024"
definition probe_whole_device_below :: nat where "probe_whole_device_below = 2 * 1024 * 1024"

record probe_state =
  ps_best :: "nat option"
  ps_any_invalid :: bool
  ps_any_magic :: bool

text \<open>One round of the slot loop; a slot past the end of the device is skipped.\<close>

definition probe_slot :: "'d env \<Rightarrow> 'd \<Rightarrow> nat \<Rightarrow> probe_state \<Rightarrow> (probe_state, fs_error) result exec" where
  "probe_slot E dev offset ps =
     (if offset + slot_size > d_size (e_dev E) dev then Some (Ok ps)
      else
        (case d_read (e_dev E) dev offset slot_size of
           Err e \<Rightarrow> Some (Err (FsDevice e))
         | Ok slot \<Rightarrow> do {
             st \<leftarrow> classify_slot (e_blake3 E) slot;
             Some (Ok (case st of
                 Ok (Valid ub) \<Rightarrow> ps\<lparr>ps_any_magic := True,
                    ps_best := (case ps_best ps of None \<Rightarrow> Some (ub_txg ub)
                                | Some txg \<Rightarrow> if ub_txg ub > txg then Some (ub_txg ub) else Some txg)\<rparr>
               | Ok Invalid \<Rightarrow> ps\<lparr>ps_any_magic := True, ps_any_invalid := True\<rparr>
               | Ok NoMagic \<Rightarrow> ps
               | Err _ \<Rightarrow> ps\<lparr>ps_any_magic := True, ps_any_invalid := True\<rparr>))
           }))"

text \<open>The zero scan of one span, in chunks of 4096 bytes; true when a byte is not zero.\<close>

function scan_span :: "'d env \<Rightarrow> 'd \<Rightarrow> nat \<Rightarrow> nat \<Rightarrow> (bool, fs_error) result" where
  "scan_span E dev offset end_at =
     (if offset < end_at then
        (let len = min 4096 (end_at - offset) in
         (case d_read (e_dev E) dev offset len of
            Err e \<Rightarrow> Err (FsDevice e)
          | Ok chunk \<Rightarrow> if list_ex (\<lambda>b. b \<noteq> 0) chunk then Ok True else scan_span E dev (offset + len) end_at))
      else Ok False)"
  by pat_completeness auto
termination by (relation "measure (\<lambda>(_, _, offset, end_at). end_at - offset)") auto

declare scan_span.simps [simp del]

definition probe :: "'d env \<Rightarrow> 'd \<Rightarrow> (image_state, fs_error) result exec" where
  "probe E dev =
     (let device_size = d_size (e_dev E) dev in
      try_then (fold_try (probe_slot E dev) slot_offsets \<lparr>ps_best = None, ps_any_invalid = False, ps_any_magic = False\<rparr>)
        (\<lambda>ps. case ps_best ps of
           Some txg \<Rightarrow> Some (Ok (ImgEofs txg (ps_any_invalid ps)))
         | None \<Rightarrow>
             if ps_any_magic ps then Some (Ok ImgUnmountable)
             else
               (let spans = (if device_size \<le> probe_whole_device_below then [(0, device_size), (0, 0)]
                  else [(0, probe_zero_prefix), (device_size - probe_zero_suffix, device_size)]) in
                try_then (fold_try (\<lambda>(from, to) dirty. if dirty then Some (Ok True) else Some (scan_span E dev from to)) spans False)
                  (\<lambda>dirty. Some (Ok (if dirty then ImgForeign else ImgBlank))))))"


section \<open>Transactions\<close>

definition fs_uberblock :: "'d eofs \<Rightarrow> nat \<Rightarrow> uberblock" where
  "fs_uberblock fs txg =
     \<lparr>ub_block_size = fs_block_size fs, ub_alloc_unit = fs_alloc_unit fs, ub_codec = fs_codec fs, ub_txg = txg,
      ub_frontier = a_frontier (fs_alloc fs), ub_device_size = fs_format_device_size fs,
      ub_live_root = fs_live_root fs, ub_snapshots = fs_snapshots fs\<rparr>"

text \<open>A device call of the engine, with its error wrapped.\<close>

definition dev_flush :: "'d env \<Rightarrow> 'd eofs \<Rightarrow> ('d, unit) fs_io" where
  "dev_flush E fs =
     (case d_flush (e_dev E) (fs_dev fs) of
        (dev', Err e) \<Rightarrow> Some (fs\<lparr>fs_dev := dev'\<rparr>, Err (FsDevice e))
      | (dev', Ok _) \<Rightarrow> Some (fs\<lparr>fs_dev := dev'\<rparr>, Ok ()))"

definition dev_write :: "'d env \<Rightarrow> 'd eofs \<Rightarrow> nat \<Rightarrow> bytes \<Rightarrow> ('d, unit) fs_io" where
  "dev_write E fs offset data =
     (case d_write (e_dev E) (fs_dev fs) offset data of
        (dev', Err e) \<Rightarrow> Some (fs\<lparr>fs_dev := dev'\<rparr>, Err (FsDevice e))
      | (dev', Ok _) \<Rightarrow> Some (fs\<lparr>fs_dev := dev'\<rparr>, Ok ()))"

definition commit :: "'d env \<Rightarrow> 'd eofs \<Rightarrow> ('d, nat) fs_io" where
  "commit E fs =
     (if \<not> fs_dirty fs then Some (fs, Ok (fs_committed_txg fs))
      else
        io_then (dev_flush E fs) (\<lambda>fs1 _. do {
          txg \<leftarrow> plus_exec 64 (fs_committed_txg fs1) 1;
          io_then (dev_write E fs1 (slot_offsets ! (txg mod 2)) (to_slot_bytes (e_blake3 E) (fs_uberblock fs1 txg)))
            (\<lambda>fs2 _.
          io_then (dev_flush E fs2) (\<lambda>fs3 _.
          Some (fs3\<lparr>fs_committed_txg := txg, fs_committed_live_root := fs_live_root fs3,
                    fs_committed_snapshots := fs_snapshots fs3, fs_dirty := False\<rparr>, Ok txg)))
        }))"

definition rollback :: "'d eofs \<Rightarrow> 'd eofs" where
  "rollback fs = fs\<lparr>fs_live_root := fs_committed_live_root fs, fs_snapshots := fs_committed_snapshots fs, fs_dirty := False\<rparr>"


section \<open>Format and mount\<close>

definition power_of_two :: "nat \<Rightarrow> bool" where
  "power_of_two n \<longleftrightarrow> list_ex (\<lambda>k. n = 2 ^ k) [0..<32]"

definition block_size_ok :: "nat \<Rightarrow> bool" where
  "block_size_ok bs \<longleftrightarrow> power_of_two bs \<and> 512 \<le> bs \<and> bs \<le> 2 ^ 20"

definition alloc_unit_ok :: "nat \<Rightarrow> nat \<Rightarrow> bool" where
  "alloc_unit_ok unit bs \<longleftrightarrow> power_of_two unit \<and> 64 \<le> unit \<and> unit \<le> 4096 \<and> unit \<le> bs"

definition format_fs :: "'d env \<Rightarrow> 'd \<Rightarrow> format_options \<Rightarrow> ('d \<times> ('d eofs, fs_error) result) exec" where
  "format_fs E dev opts =
     (if \<not> block_size_ok (opt_block_size opts) then Some (dev, Err (InvalidConfig ''block_size''))
      else if \<not> alloc_unit_ok (opt_alloc_unit opts) (opt_block_size opts) then Some (dev, Err (InvalidConfig ''alloc_unit''))
      else
        (let device_size = d_size (e_dev E) dev in
         if device_size < eofs_data_start + 4 * opt_block_size opts then Some (dev, Err (InvalidConfig ''device too small''))
         else
           (let fs = \<lparr>fs_dev = dev, fs_block_size = opt_block_size opts, fs_alloc_unit = opt_alloc_unit opts,
                      fs_codec = (if opt_compression opts then Lz4 else Raw), fs_device_size = device_size,
                      fs_format_device_size = device_size, fs_committed_txg = 0, fs_committed_live_root = empty_obj,
                      fs_committed_snapshots = empty_obj, fs_live_root = empty_obj, fs_snapshots = empty_obj,
                      fs_alloc = allocator_new (opt_alloc_unit opts) device_size eofs_data_start, fs_dirty = True\<rparr> in do {
              (fs', r) \<leftarrow> io_then (dev_write E fs 0 (replicate (2 * slot_size) 0)) (\<lambda>fs1 _. commit E fs1);
              Some (fs_dev fs', (case r of Err e \<Rightarrow> Err e | Ok _ \<Rightarrow> Ok fs'))
            })))"

record election =
  el_best :: "uberblock option"
  el_deferred :: "fs_error option"
  el_fell_back :: bool

definition elect_slot :: "'d env \<Rightarrow> 'd \<Rightarrow> nat \<Rightarrow> election \<Rightarrow> (election, fs_error) result exec" where
  "elect_slot E dev offset el =
     (case d_read (e_dev E) dev offset slot_size of
        Err e \<Rightarrow> Some (Err (FsDevice e))
      | Ok slot \<Rightarrow> do {
          st \<leftarrow> classify_slot (e_blake3 E) slot;
          Some (Ok (case st of
              Ok (Valid ub) \<Rightarrow>
                if (case el_best el of None \<Rightarrow> True | Some b \<Rightarrow> ub_txg ub > ub_txg b) then el\<lparr>el_best := Some ub\<rparr> else el
            | Ok NoMagic \<Rightarrow> el
            | Ok Invalid \<Rightarrow> el\<lparr>el_fell_back := True\<rparr>
            | Err e \<Rightarrow> el\<lparr>el_fell_back := True, el_deferred := Some e\<rparr>))
        })"

definition mounted :: "'d \<Rightarrow> nat \<Rightarrow> uberblock \<Rightarrow> 'd eofs" where
  "mounted dev device_size ub =
     \<lparr>fs_dev = dev, fs_block_size = ub_block_size ub, fs_alloc_unit = ub_alloc_unit ub, fs_codec = ub_codec ub,
      fs_device_size = device_size, fs_format_device_size = ub_device_size ub, fs_committed_txg = ub_txg ub,
      fs_committed_live_root = ub_live_root ub, fs_committed_snapshots = ub_snapshots ub,
      fs_live_root = ub_live_root ub, fs_snapshots = ub_snapshots ub,
      fs_alloc = allocator_new (ub_alloc_unit ub) device_size (ub_frontier ub), fs_dirty = False\<rparr>"

definition mount_with_report :: "'d env \<Rightarrow> 'd \<Rightarrow> ('d eofs \<times> mount_report, fs_error) result exec" where
  "mount_with_report E dev =
     (let device_size = d_size (e_dev E) dev in
      if device_size < eofs_data_start then Some (Err (Corrupt ''device too small to hold an eofs image''))
      else
        try_then (fold_try (elect_slot E dev) slot_offsets \<lparr>el_best = None, el_deferred = None, el_fell_back = False\<rparr>)
          (\<lambda>el. Some (case el_best el of
             None \<Rightarrow> Err (case el_deferred el of None \<Rightarrow> Corrupt ''no valid uberblock'' | Some e \<Rightarrow> e)
           | Some ub \<Rightarrow>
               if \<not> block_size_ok (ub_block_size ub) then Err (Corrupt ''uberblock block size'')
               else if \<not> alloc_unit_ok (ub_alloc_unit ub) (ub_block_size ub) then Err (Corrupt ''uberblock allocation unit'')
               else if ub_device_size ub > device_size \<or> ub_frontier ub > device_size \<or> ub_frontier ub < eofs_data_start then
                 Err (Corrupt ''device smaller than the filesystem on it'')
               else Ok (mounted dev device_size ub, \<lparr>mr_txg = ub_txg ub, mr_fell_back = el_fell_back el\<rparr>))))"

definition mount :: "'d env \<Rightarrow> 'd \<Rightarrow> ('d eofs, fs_error) result exec" where
  "mount E dev = try_then (mount_with_report E dev) (\<lambda>(fs, _). Some (Ok fs))"

definition fs_space :: "'d eofs \<Rightarrow> space_report exec" where
  "fs_space fs = do {
     free \<leftarrow> free_bytes (fs_alloc fs);
     Some \<lparr>sp_frontier = a_frontier (fs_alloc fs), sp_free_bytes = free, sp_device_size = fs_device_size fs\<rparr>
   }"


section \<open>Paths\<close>

definition check_name :: "bytes \<Rightarrow> (unit, fs_error) result" where
  "check_name name =
     (if name = [] \<or> length name > max_name_len \<or> name = [0x2E] \<or> name = [0x2E, 0x2E] \<or>
         0x2F \<in> set name \<or> 0 \<in> set name then Err InvalidPath
      else Ok ())"

fun check_segments :: "bytes list \<Rightarrow> (bytes list, fs_error) result" where
  "check_segments [] = Ok []"
| "check_segments (seg # segs) =
     (if seg = [] then check_segments segs
      else and_then (check_name seg) (\<lambda>_. and_then (check_segments segs) (\<lambda>rest. Ok (seg # rest))))"

definition split_path :: "bytes \<Rightarrow> (bytes list, fs_error) result" where
  "split_path path = check_segments (split_slash path)"


section \<open>The directory tree\<close>

datatype dir_op =
    Insert bytes node_kind obj_ref
  | Replace bytes obj_ref
  | Remove bytes

definition read_dir :: "'d env \<Rightarrow> 'd eofs \<Rightarrow> obj_ref \<Rightarrow> (dir_entry list, fs_error) result exec" where
  "read_dir E fs ob = try_then (read_object E fs ob) parse_dir"

definition resolve_step ::
  "'d env \<Rightarrow> 'd eofs \<Rightarrow> bytes \<Rightarrow> node_kind \<times> obj_ref \<Rightarrow> (node_kind \<times> obj_ref, fs_error) result exec" where
  "resolve_step E fs segment = (\<lambda>(kind, ob).
     if kind \<noteq> Directory then Some (Err NotADirectory)
     else
       try_then (read_dir E fs ob) (\<lambda>entries.
       Some (case find (\<lambda>e. de_name e = segment) entries of
           None \<Rightarrow> Err FsNotFound
         | Some e \<Rightarrow> Ok (de_kind e, de_obj e))))"

definition resolve ::
  "'d env \<Rightarrow> 'd eofs \<Rightarrow> obj_ref \<Rightarrow> bytes list \<Rightarrow> (node_kind \<times> obj_ref, fs_error) result exec" where
  "resolve E fs root segments = fold_try (resolve_step E fs) segments (Directory, root)"

fun entry_index :: "bytes \<Rightarrow> dir_entry list \<Rightarrow> nat option" where
  "entry_index name [] = None"
| "entry_index name (e # es) = (if de_name e = name then Some 0 else map_option Suc (entry_index name es))"

definition apply_op :: "dir_op \<Rightarrow> dir_entry list \<Rightarrow> (dir_entry list, fs_error) result" where
  "apply_op dop entries =
     (case dop of
        Insert name kind ob \<Rightarrow>
          if list_ex (\<lambda>e. de_name e = name) entries then Err AlreadyExists
          else Ok (entries @ [\<lparr>de_name = name, de_kind = kind, de_obj = ob\<rparr>])
      | Replace name ob \<Rightarrow>
          (case entry_index name entries of
             None \<Rightarrow> Err FsNotFound
           | Some i \<Rightarrow> Ok (entries[i := (entries ! i)\<lparr>de_obj := ob\<rparr>]))
      | Remove name \<Rightarrow>
          (case entry_index name entries of
             None \<Rightarrow> Err FsNotFound
           | Some i \<Rightarrow> Ok (take i entries @ drop (i + 1) entries)))"

definition store_dir :: "'d env \<Rightarrow> 'd eofs \<Rightarrow> dir_entry list \<Rightarrow> ('d, obj_ref) fs_io" where
  "store_dir E fs entries = do {
     bytes \<leftarrow> serialize_dir entries;
     (if length bytes > max_meta_object_size then Some (fs, Err NoSpace) else write_object E fs bytes)
   }"

fun apply_in_dir :: "'d env \<Rightarrow> 'd eofs \<Rightarrow> obj_ref \<Rightarrow> bytes list \<Rightarrow> dir_op \<Rightarrow> ('d, obj_ref) fs_io" where
  "apply_in_dir E fs dir [] dop =
     io_read fs (read_dir E fs dir) (\<lambda>entries.
     io_then (Some (fs, apply_op dop entries)) (\<lambda>fs1 entries'. store_dir E fs1 entries'))"
| "apply_in_dir E fs dir (segment # rest) dop =
     io_read fs (read_dir E fs dir) (\<lambda>entries.
     case entry_index segment entries of
       None \<Rightarrow> Some (fs, Err FsNotFound)
     | Some i \<Rightarrow>
         if de_kind (entries ! i) \<noteq> Directory then Some (fs, Err NotADirectory)
         else io_then (apply_in_dir E fs (de_obj (entries ! i)) rest dop) (\<lambda>fs1 ob.
           store_dir E fs1 (entries[i := (entries ! i)\<lparr>de_obj := ob\<rparr>])))"

text \<open>The last step of every change: adopt the new root of the pending tree.\<close>

definition set_live_root :: "('d, obj_ref) fs_io \<Rightarrow> ('d, unit) fs_io" where
  "set_live_root m = io_then m (\<lambda>fs root. Some (fs\<lparr>fs_live_root := root, fs_dirty := True\<rparr>, Ok ()))"

definition create_node :: "'d env \<Rightarrow> 'd eofs \<Rightarrow> bytes \<Rightarrow> node_kind \<Rightarrow> ('d, unit) fs_io" where
  "create_node E fs path kind =
     io_read fs (Some (split_path path)) (\<lambda>segments.
     if segments = [] then Some (fs, Err InvalidPath)
     else set_live_root (apply_in_dir E fs (fs_live_root fs) (butlast segments) (Insert (last segments) kind empty_obj)))"

definition create_file :: "'d env \<Rightarrow> 'd eofs \<Rightarrow> bytes \<Rightarrow> ('d, unit) fs_io" where
  "create_file E fs path = create_node E fs path File"

definition mkdir :: "'d env \<Rightarrow> 'd eofs \<Rightarrow> bytes \<Rightarrow> ('d, unit) fs_io" where
  "mkdir E fs path = create_node E fs path Directory"

definition fs_write :: "'d env \<Rightarrow> 'd eofs \<Rightarrow> bytes \<Rightarrow> nat \<Rightarrow> bytes \<Rightarrow> ('d, unit) fs_io" where
  "fs_write E fs path offset data =
     io_read fs (Some (split_path path)) (\<lambda>segments.
     if segments = [] then Some (fs, Err IsADirectory)
     else
       io_read fs (resolve E fs (fs_live_root fs) segments) (\<lambda>(kind, ob).
       if kind \<noteq> File then Some (fs, Err IsADirectory)
       else
         io_then (write_object_range E fs ob offset data) (\<lambda>fs1 ob'.
         set_live_root (apply_in_dir E fs1 (fs_live_root fs) (butlast segments) (Replace (last segments) ob')))))"

definition remove :: "'d env \<Rightarrow> 'd eofs \<Rightarrow> bytes \<Rightarrow> ('d, unit) fs_io" where
  "remove E fs path =
     io_read fs (Some (split_path path)) (\<lambda>segments.
     if segments = [] then Some (fs, Err InvalidPath)
     else
       io_read fs (resolve E fs (fs_live_root fs) segments) (\<lambda>(kind, ob).
       if kind = Directory \<and> o_size ob \<noteq> 0 then Some (fs, Err DirectoryNotEmpty)
       else set_live_root (apply_in_dir E fs (fs_live_root fs) (butlast segments) (Remove (last segments)))))"

definition read_at_root ::
  "'d env \<Rightarrow> 'd eofs \<Rightarrow> obj_ref \<Rightarrow> bytes \<Rightarrow> nat \<Rightarrow> nat \<Rightarrow> (bytes, fs_error) result exec" where
  "read_at_root E fs root path offset buf_len =
     try_then (Some (split_path path)) (\<lambda>segments.
     try_then (resolve E fs root segments) (\<lambda>(kind, ob).
     if kind \<noteq> File then Some (Err IsADirectory) else read_object_range E fs ob offset buf_len))"

definition list_at_root :: "'d env \<Rightarrow> 'd eofs \<Rightarrow> obj_ref \<Rightarrow> bytes \<Rightarrow> (bytes list, fs_error) result exec" where
  "list_at_root E fs root path =
     try_then (Some (split_path path)) (\<lambda>segments.
     try_then (resolve E fs root segments) (\<lambda>(kind, ob).
     if kind \<noteq> Directory then Some (Err NotADirectory)
     else try_then (read_dir E fs ob) (\<lambda>entries. Some (Ok (map de_name entries)))))"

definition stat_at_root :: "'d env \<Rightarrow> 'd eofs \<Rightarrow> obj_ref \<Rightarrow> bytes \<Rightarrow> (node_stat, fs_error) result exec" where
  "stat_at_root E fs root path =
     try_then (Some (split_path path)) (\<lambda>segments.
     try_then (resolve E fs root segments) (\<lambda>(kind, ob).
     Some (Ok \<lparr>st_kind = kind, st_size = o_size ob, st_hash = bp_hash (o_root ob)\<rparr>)))"

definition fs_read :: "'d env \<Rightarrow> 'd eofs \<Rightarrow> bytes \<Rightarrow> nat \<Rightarrow> nat \<Rightarrow> (bytes, fs_error) result exec" where
  "fs_read E fs path offset buf_len = read_at_root E fs (fs_live_root fs) path offset buf_len"

definition fs_list :: "'d env \<Rightarrow> 'd eofs \<Rightarrow> bytes \<Rightarrow> (bytes list, fs_error) result exec" where
  "fs_list E fs path = list_at_root E fs (fs_live_root fs) path"

definition fs_stat :: "'d env \<Rightarrow> 'd eofs \<Rightarrow> bytes \<Rightarrow> (node_stat, fs_error) result exec" where
  "fs_stat E fs path = stat_at_root E fs (fs_live_root fs) path"


section \<open>Snapshots\<close>

definition read_snapshots :: "'d env \<Rightarrow> 'd eofs \<Rightarrow> obj_ref \<Rightarrow> (snap_entry list, fs_error) result exec" where
  "read_snapshots E fs table = try_then (read_object E fs table) parse_snapshots"

definition snapshot_create :: "'d env \<Rightarrow> 'd eofs \<Rightarrow> bytes \<Rightarrow> ('d, unit) fs_io" where
  "snapshot_create E fs name =
     io_read fs (Some (check_name name)) (\<lambda>_.
     io_read fs (read_snapshots E fs (fs_snapshots fs)) (\<lambda>entries.
     if list_ex (\<lambda>e. se_name e = name) entries then Some (fs, Err AlreadyExists)
     else do {
       txg \<leftarrow> plus_exec 64 (fs_committed_txg fs) 1;
       bytes \<leftarrow> serialize_snapshots (entries @ [\<lparr>se_txg = txg, se_name = name, se_root = fs_live_root fs\<rparr>]);
       (if length bytes > max_meta_object_size then Some (fs, Err NoSpace)
        else
          io_then (write_object E fs bytes) (\<lambda>fs1 table.
          Some (fs1\<lparr>fs_snapshots := table, fs_dirty := True\<rparr>, Ok ())))
     }))"

definition snapshot_list :: "'d env \<Rightarrow> 'd eofs \<Rightarrow> (snapshot_info list, fs_error) result exec" where
  "snapshot_list E fs =
     try_then (read_snapshots E fs (fs_snapshots fs)) (\<lambda>entries.
     Some (Ok (map (\<lambda>e. \<lparr>si_name = se_name e, si_txg = se_txg e, si_root_hash = bp_hash (o_root (se_root e))\<rparr>) entries)))"

text \<open>A snapshot view is the root it reads from.\<close>

definition snapshot_view :: "'d env \<Rightarrow> 'd eofs \<Rightarrow> bytes \<Rightarrow> (obj_ref, fs_error) result exec" where
  "snapshot_view E fs name =
     try_then (read_snapshots E fs (fs_snapshots fs)) (\<lambda>entries.
     Some (case find (\<lambda>e. se_name e = name) entries of None \<Rightarrow> Err FsNotFound | Some e \<Rightarrow> Ok (se_root e)))"

end
