(* ===== verification/Eofs_Walk.thy ===== *)
theory Eofs_Walk
  imports Eofs_Fs
begin

text \<open>
  The two walks over everything a filesystem can reach (\<open>crates/eo9-eofs/src/fs.rs\<close>): \<open>verify\<close>, which
  re-reads every block, and \<open>gc\<close>, which hands the gaps between the reachable extents back to the
  allocator. The directory walks keep a worklist and a set of visited addresses; that they end on
  every image, hostile ones included, is their termination proof here.
\<close>

section \<open>Verification\<close>

fun verify_ptr ::
  "'d env \<Rightarrow> 'd eofs \<Rightarrow> nat \<Rightarrow> nat \<Rightarrow> nat \<Rightarrow> block_ptr \<Rightarrow> nat \<Rightarrow> verify_report \<Rightarrow> (nat \<times> verify_report, fs_error) result exec" where
  "verify_ptr E fs obj_size leaf_count level p first_leaf report =
     try_then (Some (read_block E fs p)) (\<lambda>logical. do {
       physical \<leftarrow> aligned (fs_alloc fs) (bp_psize p);
       let report1 = report\<lparr>vr_blocks := vr_blocks report + 1, vr_logical_bytes := vr_logical_bytes report + bp_lsize p,
          vr_physical_bytes := vr_physical_bytes report + physical,
          vr_compressed_blocks := vr_compressed_blocks report + (if bp_codec p = Lz4 then 1 else 0)\<rparr>;
       (case level of
          0 \<Rightarrow>
            if first_leaf \<ge> leaf_count then Some (Err (Corrupt ''object has more data blocks than its size''))
            else if bp_lsize p \<noteq> min (fs_block_size fs) (obj_size - first_leaf * fs_block_size fs) then
              Some (Err (Corrupt ''data block size mismatch''))
            else Some (Ok (1, report1))
        | Suc level' \<Rightarrow>
            each_child logical (\<lambda>child (covered, report).
              try_then (verify_ptr E fs obj_size leaf_count level' child (first_leaf + covered) report) (\<lambda>(n, report').
              Some (Ok (covered + n, report')))) (0, report1))
     })"

definition verify_object :: "'d env \<Rightarrow> 'd eofs \<Rightarrow> obj_ref \<Rightarrow> verify_report \<Rightarrow> (verify_report, fs_error) result exec" where
  "verify_object E fs ob report =
     try_then (check_object fs ob) (\<lambda>leaf_count.
     if leaf_count = 0 then Some (Ok report)
     else
       try_then (verify_ptr E fs (o_size ob) leaf_count (o_level ob) (o_root ob) 0 report) (\<lambda>(counted, report').
       Some (if counted \<noteq> leaf_count then Err (Corrupt ''object data-block count mismatch'') else Ok report')))"

text \<open>The entries of one directory: files are verified, directories join the worklist.\<close>

definition verify_entry ::
  "'d env \<Rightarrow> 'd eofs \<Rightarrow> dir_entry \<Rightarrow> verify_report \<times> obj_ref list \<Rightarrow> (verify_report \<times> obj_ref list, fs_error) result exec" where
  "verify_entry E fs e = (\<lambda>(report, pending).
     try_then (Some (check_name (de_name e))) (\<lambda>_.
     case de_kind e of
       File \<Rightarrow>
         try_then (verify_object E fs (de_obj e) (report\<lparr>vr_files := vr_files report + 1\<rparr>)) (\<lambda>report'.
         Some (Ok (report', pending)))
     | Directory \<Rightarrow> Some (Ok (report, pending @ [de_obj e]))))"

lemma fold_try_pending_Nil [simp]: "fold_try f [] a = Some (Ok b) \<longleftrightarrow> a = b"
  by auto

text \<open>What ends the walks: a directory that was read has its root block on the device, or is empty.\<close>

lemma read_block_addr:
  "read_block E fs p = Ok bs \<Longrightarrow> \<not> is_null p \<and> bp_addr p < fs_device_size fs"
  by (auto simp: read_block_def split: if_splits option.splits)

lemma read_object_cases:
  assumes "read_object E fs ob = Some (Ok bs)"
  shows "(is_null (o_root ob) \<and> bs = []) \<or> (\<not> is_null (o_root ob) \<and> bp_addr (o_root ob) < fs_device_size fs)"
proof (cases "o_size ob = 0")
  case True
  with assms show ?thesis
    by (auto simp: read_object_def check_object_def read_object_range_def split: if_splits)
next
  case False
  with assms obtain leaf_count leaves where
    c: "check_object fs ob = Some (Ok leaf_count)" "\<not> is_null (o_root ob)"
      and l: "collect_leaves E fs ob = Some (Ok leaves)"
      and r: "read_range_loop E fs leaves 0 (o_size ob) [] = Some (Ok bs)"
    by (auto simp: read_object_def try_then_Ok_iff check_object_def read_object_range_def bind_eq_Some_conv split: if_splits)
  have "bp_addr (o_root ob) < fs_device_size fs"
  proof (cases "o_level ob")
    case 0
    with l c have "leaves = [o_root ob]"
      using False check_object_Ok [OF c(1)] by (auto simp: collect_leaves_def split: if_splits)
    moreover from r False obtain bs' where "read_block E fs (leaves ! 0) = Ok bs'"
      by (subst (asm) read_range_loop.simps) (auto simp: Let_def try_then_Ok_iff bind_eq_Some_conv)
    ultimately show ?thesis using read_block_addr by fastforce
  next
    case (Suc level)
    with l c obtain bs' where "read_block E fs (o_root ob) = Ok bs'"
      using False check_object_Ok [OF c(1)] by (auto simp: collect_leaves_def try_then_Ok_iff split: if_splits)
    then show ?thesis using read_block_addr by blast
  qed
  with c show ?thesis by blast
qed

lemma read_dir_cases:
  assumes "read_dir E fs ob = Some (Ok entries)"
  obtains "is_null (o_root ob)" "entries = []"
  | "\<not> is_null (o_root ob)" "bp_addr (o_root ob) < fs_device_size fs"
  using assms read_object_cases [of E fs ob] by (auto simp: read_dir_def try_then_Ok_iff)

text \<open>The progress of a walk: addresses not visited yet, then the worklist.\<close>

definition walk_measure :: "nat \<Rightarrow> obj_ref list \<Rightarrow> nat list \<Rightarrow> nat \<times> nat" where
  "walk_measure n pending visited = (card ({..<n} - set visited), length pending)"

lemma walk_measure_visit:
  assumes "a < n" "a \<notin> set visited"
  shows "(walk_measure n pending' (a # visited), walk_measure n pending visited) \<in> less_than <*lex*> less_than"
proof -
  have "{..<n} - set (a # visited) \<subset> {..<n} - set visited" using assms by auto
  then have "card ({..<n} - set (a # visited)) < card ({..<n} - set visited)"
    by (intro psubset_card_mono) auto
  then show ?thesis by (simp add: walk_measure_def)
qed

text \<open>The worklist is popped at its end; \<open>visited\<close> is the set of root addresses seen.\<close>

function verify_dir_loop ::
  "'d env \<Rightarrow> 'd eofs \<Rightarrow> obj_ref list \<Rightarrow> nat list \<Rightarrow> verify_report \<Rightarrow> (verify_report, fs_error) result exec" where
  "verify_dir_loop E fs pending visited report =
     (if pending = [] then Some (Ok report)
      else
        (let dir = last pending; a = bp_addr (o_root dir) in
         if \<not> is_null (o_root dir) \<and> a \<in> set visited then Some (Err (Corrupt ''directory tree is not a tree''))
         else
           try_then (verify_object E fs dir (report\<lparr>vr_directories := vr_directories report + 1\<rparr>)) (\<lambda>report1.
           try_then (read_dir E fs dir) (\<lambda>entries.
           try_then (fold_try (verify_entry E fs) entries (report1, butlast pending)) (\<lambda>(report2, pending').
           verify_dir_loop E fs pending' (if is_null (o_root dir) then visited else a # visited) report2)))))"
  by pat_completeness auto
termination
proof (relation "inv_image (less_than <*lex*> less_than) (\<lambda>(E, fs, pending, visited, report). walk_measure (fs_device_size fs) pending visited)")
  show "wf (inv_image (less_than <*lex*> less_than)
      (\<lambda>(E, fs, pending, visited, report). walk_measure (fs_device_size fs) pending visited))"
    by (intro wf_inv_image wf_lex_prod) simp_all
next
  fix E :: "'d env" and fs pending visited and report dir a report1 entries p report2 pending'
  assume ne: "pending \<noteq> []" and dir: "dir = last pending" and a: "a = bp_addr (o_root dir)"
    and fresh: "\<not> (\<not> is_null (o_root dir) \<and> a \<in> set visited)"
    and rd: "read_dir E fs dir = Some (Ok entries)"
    and fold: "fold_try (verify_entry E fs) entries (report1, butlast pending) = Some (Ok p)"
    and p: "(report2, pending') = p"
  from rd show "((E, fs, pending', if is_null (o_root dir) then visited else a # visited, report2),
      E, fs, pending, visited, report) \<in> inv_image (less_than <*lex*> less_than)
      (\<lambda>(E, fs, pending, visited, report). walk_measure (fs_device_size fs) pending visited)"
  proof (rule read_dir_cases)
    assume "is_null (o_root dir)" "entries = []"
    with fold p ne show ?thesis by (auto simp: walk_measure_def)
  next
    assume "\<not> is_null (o_root dir)" "bp_addr (o_root dir) < fs_device_size fs"
    with fresh a show ?thesis using walk_measure_visit [of a "fs_device_size fs" visited] by simp
  qed
qed

declare verify_dir_loop.simps [simp del]

definition verify_dir_tree :: "'d env \<Rightarrow> 'd eofs \<Rightarrow> obj_ref \<Rightarrow> verify_report \<Rightarrow> (verify_report, fs_error) result exec" where
  "verify_dir_tree E fs root report = verify_dir_loop E fs [root] [] report"

definition empty_report :: verify_report where
  "empty_report = \<lparr>vr_blocks = 0, vr_logical_bytes = 0, vr_physical_bytes = 0, vr_compressed_blocks = 0,
     vr_files = 0, vr_directories = 0, vr_snapshots = 0\<rparr>"

definition verify :: "'d env \<Rightarrow> 'd eofs \<Rightarrow> (verify_report, fs_error) result exec" where
  "verify E fs =
     try_then (verify_dir_tree E fs (fs_live_root fs) empty_report) (\<lambda>report1.
     try_then (verify_object E fs (fs_snapshots fs) report1) (\<lambda>report2.
     try_then (read_snapshots E fs (fs_snapshots fs)) (\<lambda>entries.
     fold_try (\<lambda>e report. verify_dir_tree E fs (se_root e) (report\<lparr>vr_snapshots := vr_snapshots report + 1\<rparr>)) entries report2)))"


section \<open>Garbage collection\<close>

fun mark_ptr ::
  "'d env \<Rightarrow> 'd eofs \<Rightarrow> nat \<Rightarrow> nat \<Rightarrow> block_ptr \<Rightarrow> nat \<times> extent list \<Rightarrow> (nat \<times> extent list, fs_error) result exec" where
  "mark_ptr E fs leaf_count level p (leaves_seen, out) = do {
     len \<leftarrow> aligned (fs_alloc fs) (bp_psize p);
     let out1 = out @ [\<lparr>ext_addr = bp_addr p, ext_len = len\<rparr>];
     (case level of
        0 \<Rightarrow>
          if leaves_seen + 1 > leaf_count then Some (Err (Corrupt ''object has more data blocks than its size''))
          else Some (Ok (leaves_seen + 1, out1))
      | Suc level' \<Rightarrow>
          try_then (Some (read_block E fs p)) (\<lambda>logical.
          each_child logical (mark_ptr E fs leaf_count level') (leaves_seen, out1)))
   }"

definition mark_object :: "'d env \<Rightarrow> 'd eofs \<Rightarrow> obj_ref \<Rightarrow> extent list \<Rightarrow> (extent list, fs_error) result exec" where
  "mark_object E fs ob out =
     try_then (check_object fs ob) (\<lambda>leaf_count.
     if leaf_count = 0 then Some (Ok out)
     else try_then (mark_ptr E fs leaf_count (o_level ob) (o_root ob) (0, out)) (\<lambda>(_, out'). Some (Ok out')))"

definition mark_entry ::
  "'d env \<Rightarrow> 'd eofs \<Rightarrow> dir_entry \<Rightarrow> extent list \<times> obj_ref list \<Rightarrow> (extent list \<times> obj_ref list, fs_error) result exec" where
  "mark_entry E fs e = (\<lambda>(out, pending).
     case de_kind e of
       File \<Rightarrow> try_then (mark_object E fs (de_obj e) out) (\<lambda>out'. Some (Ok (out', pending)))
     | Directory \<Rightarrow> Some (Ok (out, pending @ [de_obj e])))"

function mark_dir_loop ::
  "'d env \<Rightarrow> 'd eofs \<Rightarrow> obj_ref list \<Rightarrow> nat list \<Rightarrow> extent list \<Rightarrow> (extent list, fs_error) result exec" where
  "mark_dir_loop E fs pending visited out =
     (if pending = [] then Some (Ok out)
      else
        (let dir = last pending; a = bp_addr (o_root dir) in
         if \<not> is_null (o_root dir) \<and> a \<in> set visited then Some (Err (Corrupt ''directory tree is not a tree''))
         else
           try_then (mark_object E fs dir out) (\<lambda>out1.
           try_then (read_dir E fs dir) (\<lambda>entries.
           try_then (fold_try (mark_entry E fs) entries (out1, butlast pending)) (\<lambda>(out2, pending').
           mark_dir_loop E fs pending' (if is_null (o_root dir) then visited else a # visited) out2)))))"
  by pat_completeness auto
termination
proof (relation "inv_image (less_than <*lex*> less_than) (\<lambda>(E, fs, pending, visited, out). walk_measure (fs_device_size fs) pending visited)")
  show "wf (inv_image (less_than <*lex*> less_than)
      (\<lambda>(E, fs, pending, visited, out). walk_measure (fs_device_size fs) pending visited))"
    by (intro wf_inv_image wf_lex_prod) simp_all
next
  fix E :: "'d env" and fs pending visited and out dir a out1 entries p out2 pending'
  assume ne: "pending \<noteq> []" and dir: "dir = last pending" and a: "a = bp_addr (o_root dir)"
    and fresh: "\<not> (\<not> is_null (o_root dir) \<and> a \<in> set visited)"
    and rd: "read_dir E fs dir = Some (Ok entries)"
    and fold: "fold_try (mark_entry E fs) entries (out1, butlast pending) = Some (Ok p)"
    and p: "(out2, pending') = p"
  from rd show "((E, fs, pending', if is_null (o_root dir) then visited else a # visited, out2),
      E, fs, pending, visited, out) \<in> inv_image (less_than <*lex*> less_than)
      (\<lambda>(E, fs, pending, visited, out). walk_measure (fs_device_size fs) pending visited)"
  proof (rule read_dir_cases)
    assume "is_null (o_root dir)" "entries = []"
    with fold p ne show ?thesis by (auto simp: walk_measure_def)
  next
    assume "\<not> is_null (o_root dir)" "bp_addr (o_root dir) < fs_device_size fs"
    with fresh a show ?thesis using walk_measure_visit [of a "fs_device_size fs" visited] by simp
  qed
qed

declare mark_dir_loop.simps [simp del]

definition mark_dir_tree :: "'d env \<Rightarrow> 'd eofs \<Rightarrow> obj_ref \<Rightarrow> extent list \<Rightarrow> (extent list, fs_error) result exec" where
  "mark_dir_tree E fs root out = mark_dir_loop E fs [root] [] out"

definition mark_table :: "'d env \<Rightarrow> 'd eofs \<Rightarrow> obj_ref \<Rightarrow> extent list \<Rightarrow> (extent list, fs_error) result exec" where
  "mark_table E fs table out =
     try_then (mark_object E fs table out) (\<lambda>out1.
     try_then (read_snapshots E fs table) (\<lambda>entries.
     fold_try (\<lambda>e. mark_dir_tree E fs (se_root e)) entries out1))"

definition mark_all :: "'d env \<Rightarrow> 'd eofs \<Rightarrow> (extent list, fs_error) result exec" where
  "mark_all E fs =
     try_then (fold_try (mark_dir_tree E fs) [fs_committed_live_root fs, fs_live_root fs] []) (\<lambda>out.
     fold_try (mark_table E fs) [fs_committed_snapshots fs, fs_snapshots fs] out)"

text \<open>The gaps between the marked extents, in address order, and the cursor behind the last one.\<close>

fun gaps :: "nat \<Rightarrow> extent list \<Rightarrow> (extent list \<times> nat) exec" where
  "gaps cursor [] = Some ([], cursor)"
| "gaps cursor (e # es) = do {
     end_at \<leftarrow> plus_exec 64 (ext_addr e) (ext_len e);
     (free, cursor') \<leftarrow> gaps (max cursor end_at) es;
     Some ((if ext_addr e > cursor then [\<lparr>ext_addr = cursor, ext_len = ext_addr e - cursor\<rparr>] else []) @ free, cursor')
   }"

definition gc :: "'d env \<Rightarrow> 'd eofs \<Rightarrow> ('d, gc_report) fs_io" where
  "gc E fs =
     io_read fs (mark_all E fs) (\<lambda>marked. do {
       (free, cursor) \<leftarrow> gaps eofs_data_start (sort_key ext_addr marked);
       let frontier = a_frontier (fs_alloc fs);
       let free' = (if frontier > cursor then free @ [\<lparr>ext_addr = cursor, ext_len = frontier - cursor\<rparr>] else free);
       reclaimed \<leftarrow> sum_exec 0 (map ext_len free');
       Some (fs\<lparr>fs_alloc := set_free (fs_alloc fs) free'\<rparr>,
         Ok \<lparr>gc_reclaimed_bytes = reclaimed, gc_free_extents = length free'\<rparr>)
     })"

end
