(* ===== verification/Eofs_Store.thy ===== *)
theory Eofs_Store
  imports Eofs_Walk
begin

text \<open>
  What the engine keeps: the invariant of a mounted filesystem, and copy-on-write as a relation
  between states. A state \<open>grows\<close> into another when nothing but free space was written and the
  free space only shrank. The locale \<open>eofs_device\<close> is the engine over any device that keeps the
  documented contract; it is interpreted on the in-memory device and on the power-cut simulator.
\<close>

section \<open>Invariant and growth\<close>

definition store_inv :: "('d \<Rightarrow> bytes) \<Rightarrow> ('d \<Rightarrow> bool) \<Rightarrow> 'd eofs \<Rightarrow> bool" where
  "store_inv content dev_inv fs \<longleftrightarrow>
     dev_inv (fs_dev fs) \<and> fs_device_size fs = length (content (fs_dev fs)) \<and>
     alloc_inv eofs_data_start (fs_alloc fs) \<and>
     a_unit (fs_alloc fs) = fs_alloc_unit fs \<and> a_device_size (fs_alloc fs) = fs_device_size fs \<and>
     block_size_ok (fs_block_size fs) \<and> alloc_unit_ok (fs_alloc_unit fs) (fs_block_size fs)"

definition same_config :: "'d eofs \<Rightarrow> 'd eofs \<Rightarrow> bool" where
  "same_config fs fs' \<longleftrightarrow> fs' = fs\<lparr>fs_dev := fs_dev fs', fs_alloc := fs_alloc fs'\<rparr>"

definition grows :: "('d \<Rightarrow> bytes) \<Rightarrow> 'd eofs \<Rightarrow> 'd eofs \<Rightarrow> bool" where
  "grows content fs fs' \<longleftrightarrow>
     free_space (fs_alloc fs') \<subseteq> free_space (fs_alloc fs) \<and>
     (alloc_aligned (fs_alloc fs) \<longrightarrow> alloc_aligned (fs_alloc fs')) \<and>
     a_frontier (fs_alloc fs) \<le> a_frontier (fs_alloc fs') \<and>
     length (content (fs_dev fs')) = length (content (fs_dev fs)) \<and>
     (\<forall>i < length (content (fs_dev fs)). i \<notin> free_space (fs_alloc fs) \<longrightarrow> content (fs_dev fs') ! i = content (fs_dev fs) ! i)"

lemma same_config_refl [simp]: "same_config fs fs"
  by (simp add: same_config_def)

lemma same_config_trans: "same_config a b \<Longrightarrow> same_config b c \<Longrightarrow> same_config a c"
  by (cases a; cases b; cases c) (simp add: same_config_def)

lemma same_config_fields:
  assumes "same_config fs fs'"
  shows "fs_block_size fs' = fs_block_size fs" "fs_alloc_unit fs' = fs_alloc_unit fs" "fs_codec fs' = fs_codec fs"
    "fs_device_size fs' = fs_device_size fs" "fs_format_device_size fs' = fs_format_device_size fs"
    "fs_committed_txg fs' = fs_committed_txg fs" "fs_committed_live_root fs' = fs_committed_live_root fs"
    "fs_committed_snapshots fs' = fs_committed_snapshots fs" "fs_live_root fs' = fs_live_root fs"
    "fs_snapshots fs' = fs_snapshots fs" "fs_dirty fs' = fs_dirty fs"
  using assms by (cases fs; cases fs'; simp add: same_config_def)+

lemma grows_refl [simp]: "grows content fs fs"
  by (simp add: grows_def)

lemma grows_trans: "grows content a b \<Longrightarrow> grows content b c \<Longrightarrow> grows content a c"
  unfolding grows_def by (elim conjE, intro conjI allI impI) (force dest: subsetD)+

text \<open>Operations that only write new blocks: they return, keep the invariant, and grow the store.\<close>

definition cow :: "('d \<Rightarrow> bytes) \<Rightarrow> ('d \<Rightarrow> bool) \<Rightarrow> 'd eofs \<Rightarrow> ('d, 'a) fs_io \<Rightarrow> bool" where
  "cow content dev_inv fs m \<longleftrightarrow>
     (\<forall>fs' r. m = Some (fs', r) \<longrightarrow> store_inv content dev_inv fs' \<and> grows content fs fs' \<and> same_config fs fs')"

lemma cowD:
  assumes "cow content dev_inv fs m" and "m = Some (fs', r)"
  shows "store_inv content dev_inv fs'" and "grows content fs fs'" and "same_config fs fs'"
  using assms by (auto simp: cow_def)

lemma cow_pure [intro]: "store_inv content dev_inv fs \<Longrightarrow> cow content dev_inv fs (Some (fs, r))"
  by (simp add: cow_def)

lemma cow_None [intro, simp]: "cow content dev_inv fs None"
  by (simp add: cow_def)

lemma cow_io_then:
  assumes "cow content dev_inv fs m"
    and "\<And>fs' v. m = Some (fs', Ok v) \<Longrightarrow> store_inv content dev_inv fs' \<Longrightarrow> same_config fs fs' \<Longrightarrow> cow content dev_inv fs' (f fs' v)"
  shows "cow content dev_inv fs (io_then m f)"
  unfolding cow_def
proof (intro allI impI)
  fix fs2 r assume "io_then m f = Some (fs2, r)"
  then consider e where "m = Some (fs2, Err e)" | fs1 v where "m = Some (fs1, Ok v)" "f fs1 v = Some (fs2, r)"
    by (auto simp: io_then_def split: option.splits result.splits)
  then show "store_inv content dev_inv fs2 \<and> grows content fs fs2 \<and> same_config fs fs2"
  proof cases
    case 1
    with assms(1) show ?thesis by (simp add: cow_def)
  next
    case 2
    with assms(1) have st: "store_inv content dev_inv fs1" "grows content fs fs1" "same_config fs fs1"
      by (auto simp: cow_def)
    with assms(2) [OF 2(1)] 2(2) have "store_inv content dev_inv fs2" "grows content fs1 fs2" "same_config fs1 fs2"
      by (auto simp: cow_def)
    with st show ?thesis using grows_trans same_config_trans by blast
  qed
qed

lemma cow_io_read:
  assumes "store_inv content dev_inv fs" and "\<And>v. m = Some (Ok v) \<Longrightarrow> cow content dev_inv fs (f v)"
  shows "cow content dev_inv fs (io_read fs m f)"
  using assms by (auto simp: io_read_def split: option.splits result.splits)

lemma cow_bind:
  assumes "\<And>v. m = Some v \<Longrightarrow> cow content dev_inv fs (f v)"
  shows "cow content dev_inv fs (m \<bind> f)"
  using assms by (cases m) auto


section \<open>Small objects\<close>

lemma read_dir_empty [simp]: "read_dir E fs empty_obj = Some (Ok [])"
  by (simp add: read_dir_def read_object_def check_object_def read_object_range_def empty_obj_def max_meta_object_size_def)

lemma write_object_one_block:
  assumes "data \<noteq> []" and "length data \<le> fs_block_size fs" and "length data < 2 ^ 57"
  shows "write_object E fs data =
    io_then (write_block E fs data) (\<lambda>fs1 p. Some (fs1, Ok \<lparr>o_size = length data, o_level = 0, o_root = p\<rparr>))"
proof -
  have one: "div_ceil (length data) (fs_block_size fs) = 1"
    using assms(1,2) div_ceil_le_iff [of "fs_block_size fs" "length data" 1] div_ceil_pos [of "fs_block_size fs" "length data"]
    by (cases "fs_block_size fs = 0") auto
  have leaves: "collect_leaves E fs empty_obj = Some (Ok [])"
    by (simp add: collect_leaves_def check_object_def empty_obj_def)
  have blk: "range_block E fs empty_obj [] 0 data (length data) 0 = write_block E fs data"
    using assms(1,2) by (simp add: range_block_def Let_def overwrite_def slice_def min_def)
  have root: "build_tree E fs1 [p] (length data) = Some (fs1, Ok \<lparr>o_size = length data, o_level = 0, o_root = p\<rparr>)" for fs1 p
    by (simp add: build_tree_def build_loop.simps)
  moreover have "0 < fs_block_size fs" using assms(1,2) by (cases "fs_block_size fs") auto
  ultimately show ?thesis
    using assms one leaves blk
    by (cases "write_block E fs data")
      (auto simp: write_object_def write_object_range_def empty_obj_def Let_def checked_add_def io_then_def split: result.splits)
qed


section \<open>Operations that change the pending tree\<close>

datatype fs_op =
    OpCreate bytes
  | OpMkdir bytes
  | OpWrite bytes nat bytes
  | OpRemove bytes
  | OpSnapshot bytes

fun fs_apply :: "'d env \<Rightarrow> 'd eofs \<Rightarrow> fs_op \<Rightarrow> ('d, unit) fs_io" where
  "fs_apply E fs (OpCreate path) = create_file E fs path"
| "fs_apply E fs (OpMkdir path) = mkdir E fs path"
| "fs_apply E fs (OpWrite path offset data) = fs_write E fs path offset data"
| "fs_apply E fs (OpRemove path) = remove E fs path"
| "fs_apply E fs (OpSnapshot name) = snapshot_create E fs name"

text \<open>A series of operations; one that answers an error does not stop the next.\<close>

fun fs_run :: "'d env \<Rightarrow> 'd eofs \<Rightarrow> fs_op list \<Rightarrow> 'd eofs exec" where
  "fs_run E fs [] = Some fs"
| "fs_run E fs (opn # ops) = (case fs_apply E fs opn of None \<Rightarrow> None | Some (fs', _) \<Rightarrow> fs_run E fs' ops)"

definition same_committed :: "'d eofs \<Rightarrow> 'd eofs \<Rightarrow> bool" where
  "same_committed fs fs' \<longleftrightarrow>
     fs_block_size fs' = fs_block_size fs \<and> fs_alloc_unit fs' = fs_alloc_unit fs \<and> fs_codec fs' = fs_codec fs \<and>
     fs_device_size fs' = fs_device_size fs \<and> fs_format_device_size fs' = fs_format_device_size fs \<and>
     fs_committed_txg fs' = fs_committed_txg fs \<and> fs_committed_live_root fs' = fs_committed_live_root fs \<and>
     fs_committed_snapshots fs' = fs_committed_snapshots fs"

definition change :: "('d \<Rightarrow> bytes) \<Rightarrow> ('d \<Rightarrow> bool) \<Rightarrow> 'd eofs \<Rightarrow> ('d, 'a) fs_io \<Rightarrow> bool" where
  "change content dev_inv fs m \<longleftrightarrow>
     (\<forall>fs' r. m = Some (fs', r) \<longrightarrow> store_inv content dev_inv fs' \<and> grows content fs fs' \<and>
        same_committed fs fs' \<and> (is_ok r \<or> same_config fs fs'))"

lemma same_committed_refl [simp]: "same_committed fs fs"
  by (simp add: same_committed_def)

lemma same_committed_trans: "same_committed a b \<Longrightarrow> same_committed b c \<Longrightarrow> same_committed a c"
  by (simp add: same_committed_def)

lemma same_config_committed: "same_config fs fs' \<Longrightarrow> same_committed fs fs'"
  by (simp add: same_committed_def same_config_fields)

lemma change_Err [intro]: "store_inv content dev_inv fs \<Longrightarrow> change content dev_inv fs (Some (fs, Err e))"
  by (simp add: change_def)

lemma change_None [intro, simp]: "change content dev_inv fs None"
  by (simp add: change_def)

lemma change_bind:
  assumes "\<And>v. m = Some v \<Longrightarrow> change content dev_inv fs (f v)"
  shows "change content dev_inv fs (m \<bind> f)"
  using assms by (cases m) auto

lemma change_io_read:
  assumes "store_inv content dev_inv fs" and "\<And>v. m = Some (Ok v) \<Longrightarrow> change content dev_inv fs (f v)"
  shows "change content dev_inv fs (io_read fs m f)"
  using assms by (auto simp: io_read_def split: option.splits result.splits)

lemma change_io_then:
  assumes "cow content dev_inv fs m"
    and "\<And>fs' v. m = Some (fs', Ok v) \<Longrightarrow> store_inv content dev_inv fs' \<Longrightarrow> change content dev_inv fs' (f fs' v)"
  shows "change content dev_inv fs (io_then m f)"
  unfolding change_def
proof (intro allI impI)
  fix fs2 r assume "io_then m f = Some (fs2, r)"
  then consider e where "m = Some (fs2, Err e)" | fs1 v where "m = Some (fs1, Ok v)" "f fs1 v = Some (fs2, r)"
    by (auto simp: io_then_def split: option.splits result.splits)
  then show "store_inv content dev_inv fs2 \<and> grows content fs fs2 \<and> same_committed fs fs2 \<and> (is_ok r \<or> same_config fs fs2)"
  proof cases
    case 1
    with assms(1) show ?thesis by (simp add: cow_def same_config_committed)
  next
    case 2
    with assms(1) have st: "store_inv content dev_inv fs1" "grows content fs fs1" "same_config fs fs1"
      by (auto simp: cow_def)
    with assms(2) [OF 2(1)] 2(2) have "store_inv content dev_inv fs2" "grows content fs1 fs2" "same_committed fs1 fs2"
        "is_ok r \<or> same_config fs1 fs2"
      by (auto simp: change_def)
    with st show ?thesis
      using grows_trans same_config_trans same_committed_trans same_config_committed by blast
  qed
qed


section \<open>The engine over a device\<close>

locale eofs_device = block_device "e_dev E" content dev_inv
  for E :: "'d env" and content :: "'d \<Rightarrow> bytes" and dev_inv :: "'d \<Rightarrow> bool"
begin

abbreviation "ok_fs \<equiv> store_inv content dev_inv"
abbreviation "keeps_cow \<equiv> cow content dev_inv"

lemma cow_write_block:
  assumes "ok_fs fs"
  shows "keeps_cow fs (write_block E fs logical)"
  unfolding cow_def
proof (intro allI impI)
  fix fs' r assume w: "write_block E fs logical = Some (fs', r)"
  obtain c payload where enc: "encode_block E (fs_codec fs) logical = (c, payload)" by fastforce
  from w enc obtain al q where al: "allocate (fs_alloc fs) (length payload) = Some (al, q)"
    by (auto simp: write_block_def Let_def bind_eq_Some_conv)
  from assms have ai: "alloc_inv eofs_data_start (fs_alloc fs)" by (simp add: store_inv_def)
  show "ok_fs fs' \<and> grows content fs fs' \<and> same_config fs fs'"
  proof (cases q)
    case (Err e)
    with w enc al have "fs' = fs\<lparr>fs_alloc := al\<rparr>" by (auto simp: write_block_def Let_def bind_eq_Some_conv)
    moreover have "al = fs_alloc fs" using allocate_Err al Err by blast
    ultimately show ?thesis using assms by simp
  next
    case (Ok addr)
    obtain dev' wr where dw: "d_write (e_dev E) (fs_dev fs) addr payload = (dev', wr)" by fastforce
    with w enc al Ok have fs': "fs' = fs\<lparr>fs_alloc := al, fs_dev := dev'\<rparr>"
      by (auto simp: write_block_def Let_def bind_eq_Some_conv split: result.splits)
    obtain need where need: "aligned (fs_alloc fs) (length payload) = Some need" "length payload \<le> need" "0 < need"
        "a_unit (fs_alloc fs) dvd need" "alloc_inv eofs_data_start al"
        "{addr ..< addr + need} \<subseteq> free_space (fs_alloc fs)"
        "free_space al = free_space (fs_alloc fs) - {addr ..< addr + need}"
        "alloc_aligned (fs_alloc fs) \<longrightarrow> alloc_aligned al \<and> a_unit (fs_alloc fs) dvd addr"
      by (rule allocate_Ok [OF ai al [unfolded Ok]])
    from assms have di: "dev_inv (fs_dev fs)" by (simp add: store_inv_def)
    note fr = allocate_frontier [OF al]
    have keep: "content dev' ! i = content (fs_dev fs) ! i"
      if "i < length (content (fs_dev fs))" "i \<notin> free_space (fs_alloc fs)" for i
    proof (rule write_outside [OF di dw])
      from that(2) need(6) have "i \<notin> {addr ..< addr + need}" by blast
      with need(2) show "i < addr \<or> addr + length payload \<le> i" by auto
    qed (use that in simp)
    have "ok_fs fs'"
      using assms need(5) fs' write_inv [OF di dw] write_length [OF di dw] allocate_frame [OF al]
      by (simp add: store_inv_def)
    moreover have "grows content fs fs'"
      using fs' need(7,8) keep write_length [OF di dw] fr by (auto simp: grows_def)
    ultimately show ?thesis using fs' by (simp add: same_config_def)
  qed
qed

lemma cow_write_groups: "ok_fs fs \<Longrightarrow> keeps_cow fs (write_groups E fs gs)"
  by (induction gs arbitrary: fs) (auto intro!: cow_io_then cow_write_block)

lemma cow_build_loop: "ok_fs fs \<Longrightarrow> keeps_cow fs (build_loop E fs level current)"
proof (induction level arbitrary: fs current rule: measure_induct_rule [of "\<lambda>level. 256 - level"])
  case (less level)
  then show ?case
    by (subst build_loop.simps) (auto intro!: cow_bind cow_io_then cow_write_groups)
qed

lemma cow_build_tree: "ok_fs fs \<Longrightarrow> keeps_cow fs (build_tree E fs leaves sz)"
  by (auto simp: build_tree_def intro!: cow_bind cow_io_then cow_build_loop split: prod.splits)

lemma cow_range_block: "ok_fs fs \<Longrightarrow> keeps_cow fs (range_block E fs ob old_leaves offset data new_size b)"
  by (auto simp: range_block_def Let_def intro!: cow_bind cow_io_read cow_write_block)

lemma cow_range_blocks: "ok_fs fs \<Longrightarrow> keeps_cow fs (range_blocks E fs ob old_leaves offset data new_size bs)"
  by (induction bs arbitrary: fs) (auto intro!: cow_io_then cow_range_block)

lemma cow_write_object_range: "ok_fs fs \<Longrightarrow> keeps_cow fs (write_object_range E fs ob offset data)"
  by (auto simp: write_object_range_def Let_def split: option.splits
      intro!: cow_bind cow_io_read cow_io_then cow_range_blocks cow_build_tree)

lemma cow_write_object: "ok_fs fs \<Longrightarrow> keeps_cow fs (write_object E fs data)"
  by (simp add: write_object_def cow_write_object_range)

lemma cow_store_dir: "ok_fs fs \<Longrightarrow> keeps_cow fs (store_dir E fs entries)"
  by (auto simp: store_dir_def intro!: cow_bind cow_write_object)

lemma cow_apply_in_dir: "ok_fs fs \<Longrightarrow> keeps_cow fs (apply_in_dir E fs dir segments dop)"
  by (induction segments arbitrary: fs dir)
    (auto intro!: cow_io_read cow_io_then cow_store_dir split: option.splits)

text \<open>A change of the pending tree: copy-on-write, and nothing but space is spent when it fails.\<close>

lemma change_set_live_root:
  assumes "keeps_cow fs m" and "store_inv content dev_inv fs"
  shows "change content dev_inv fs (set_live_root m)"
  unfolding change_def set_live_root_def
proof (intro allI impI)
  fix fs' r assume "io_then m (\<lambda>fs root. Some (fs\<lparr>fs_live_root := root, fs_dirty := True\<rparr>, Ok ())) = Some (fs', r)"
  then consider e where "m = Some (fs', Err e)" "r = Err e"
    | fs1 root where "m = Some (fs1, Ok root)" "fs' = fs1\<lparr>fs_live_root := root, fs_dirty := True\<rparr>" "r = Ok ()"
    by (auto simp: io_then_def split: option.splits result.splits)
  then show "store_inv content dev_inv fs' \<and> grows content fs fs' \<and> same_committed fs fs' \<and> (is_ok r \<or> same_config fs fs')"
    using assms(1) by cases (auto simp: cow_def store_inv_def grows_def same_committed_def dest: same_config_fields)
qed

lemma change_create_node: "ok_fs fs \<Longrightarrow> change content dev_inv fs (create_node E fs path kind)"
  by (auto simp: create_node_def intro!: change_Err change_io_read change_set_live_root cow_apply_in_dir)

lemma change_fs_write: "ok_fs fs \<Longrightarrow> change content dev_inv fs (fs_write E fs path offset data)"
  unfolding fs_write_def
  by (auto intro!: change_Err change_io_read change_set_live_root cow_apply_in_dir change_io_then [OF cow_write_object_range])

lemma change_remove: "ok_fs fs \<Longrightarrow> change content dev_inv fs (remove E fs path)"
  by (auto simp: remove_def intro!: change_Err change_io_read change_set_live_root cow_apply_in_dir)

lemma change_snapshot_create:
  assumes "ok_fs fs"
  shows "change content dev_inv fs (snapshot_create E fs name)"
proof -
  have "change content dev_inv fs' (Some (fs'\<lparr>fs_snapshots := table, fs_dirty := True\<rparr>, Ok ()))" if "ok_fs fs'" for fs' table
    using that by (auto simp: change_def store_inv_def grows_def same_committed_def)
  then show ?thesis
    using assms
    by (auto simp: snapshot_create_def intro!: change_Err change_io_read change_bind change_io_then [OF cow_write_object])
qed

lemma change_fs_apply: "ok_fs fs \<Longrightarrow> change content dev_inv fs (fs_apply E fs opn)"
  by (cases opn) (simp_all add: create_file_def mkdir_def change_create_node change_fs_write change_remove change_snapshot_create)

lemma fs_run_grows:
  assumes "ok_fs fs" and "fs_run E fs ops = Some fs'"
  shows "ok_fs fs' \<and> grows content fs fs' \<and> same_committed fs fs'"
  using assms
proof (induction ops arbitrary: fs)
  case (Cons opn ops)
  from Cons.prems(2) obtain fs1 r where st: "fs_apply E fs opn = Some (fs1, r)" "fs_run E fs1 ops = Some fs'"
    by (auto split: option.splits)
  with change_fs_apply [OF Cons.prems(1), of opn] have "ok_fs fs1" "grows content fs fs1" "same_committed fs fs1"
    by (auto simp: change_def)
  with Cons.IH [of fs1] st(2) show ?case using grows_trans same_committed_trans by blast
qed auto

end

end
