(* ===== verification/Eofs_Wf.thy ===== *)
theory Eofs_Wf
  imports Eofs_Store
begin

text \<open>
  Everything the engine stores in a pointer is a value of its Rust type, so that it survives the
  encoding: addresses below the device's size, block sizes of at most 1 MiB, levels in a byte and
  32-byte hashes. The locale adds to the engine the one fact about the hash that this needs.
\<close>

definition roots_wf :: "'d eofs \<Rightarrow> bool" where
  "roots_wf fs \<longleftrightarrow> obj_wf (fs_live_root fs) \<and> obj_wf (fs_snapshots fs)"

lemma fold_try_inv:
  assumes "fold_try f xs a = Some (Ok b)" and "P a"
    and "\<And>x a a'. x \<in> set xs \<Longrightarrow> P a \<Longrightarrow> f x a = Some (Ok a') \<Longrightarrow> P a'"
  shows "P b"
  using assms by (induction xs arbitrary: a) (auto simp: try_then_Ok_iff)

lemma each_child_inv:
  assumes "each_child block visit a = Some (Ok b)" and "P a"
    and "\<And>child a a'. ptr_wf child \<Longrightarrow> P a \<Longrightarrow> visit child a = Some (Ok a') \<Longrightarrow> P a'"
  shows "P b"
proof -
  from assms(1) have "fold_try (\<lambda>chunk acc. try_then (ptr_read chunk) (\<lambda>child. visit child acc)) (chunks block_ptr_size block) a = Some (Ok b)"
    by (simp add: each_child_def split: if_splits)
  then show ?thesis
    using assms(2) by (rule fold_try_inv) (auto simp: try_then_Ok_iff dest: ptr_read_wf intro: assms(3))
qed

lemma collect_level_wf:
  assumes "collect_level E fs n level p out = Some (Ok ls)" and "ptr_wf p" and "list_all ptr_wf out"
  shows "list_all ptr_wf ls"
  using assms
proof (induction level arbitrary: p out ls)
  case 0
  then show ?case by (auto split: if_splits)
next
  case (Suc level)
  from Suc.prems(1) obtain block where "each_child block (collect_level E fs n level) out = Some (Ok ls)"
    by (auto simp: try_then_Ok_iff)
  then show ?case using Suc.prems(3) by (rule each_child_inv) (rule Suc.IH)
qed

lemma collect_leaves_wf:
  assumes "collect_leaves E fs ob = Some (Ok ls)" and "ptr_wf (o_root ob)"
  shows "list_all ptr_wf ls"
  using assms by (auto simp: collect_leaves_def try_then_Ok_iff split: if_splits dest: collect_level_wf)

lemma find_dir_wf: "find P es = Some e \<Longrightarrow> list_all dir_wf es \<Longrightarrow> dir_wf e"
  by (auto simp: list_all_iff find_Some_iff)

lemma read_dir_wf: "read_dir E fs ob = Some (Ok es) \<Longrightarrow> list_all dir_wf es"
  by (auto simp: read_dir_def try_then_Ok_iff dest: parse_dir_wf)

lemma resolve_wf:
  assumes "resolve E fs root segments = Some (Ok (kind, ob))" and "obj_wf root"
  shows "obj_wf ob"
proof -
  have "obj_wf (snd (kind, ob))"
  proof (rule fold_try_inv [where P = "\<lambda>p. obj_wf (snd p)"])
    show "fold_try (resolve_step E fs) segments (Directory, root) = Some (Ok (kind, ob))"
      using assms(1) by (simp add: resolve_def)
    show "obj_wf (snd (Directory, root))" using assms(2) by simp
    fix x a a' assume "resolve_step E fs x a = Some (Ok a')"
    then obtain es e where "read_dir E fs (snd a) = Some (Ok es)" "find (\<lambda>e. de_name e = x) es = Some e"
        "a' = (de_kind e, de_obj e)"
      by (auto simp: resolve_step_def try_then_Ok_iff split: prod.splits if_splits option.splits)
    then have "dir_wf e" using find_dir_wf read_dir_wf by blast
    with \<open>a' = (de_kind e, de_obj e)\<close> show "obj_wf (snd a')" by (simp add: dir_wf_def)
  qed
  then show ?thesis by simp
qed

locale eofs_hashed = eofs_device E content dev_inv
  for E :: "'d env" and content :: "'d \<Rightarrow> bytes" and dev_inv :: "'d \<Rightarrow> bool" +
  assumes hash_length: "length (e_blake3 E bs) = 32"
begin

lemma write_block_wf:
  assumes "ok_fs fs" and "write_block E fs logical = Some (fs', Ok p)"
  shows "ptr_wf p \<and> bp_lsize p = length logical"
proof -
  from assms(2) obtain c payload al addr where enc: "encode_block E (fs_codec fs) logical = (c, payload)"
    and al: "allocate (fs_alloc fs) (length payload) = Some (al, Ok addr)"
    and p: "p = \<lparr>bp_addr = addr, bp_lsize = length logical, bp_psize = length payload, bp_codec = c, bp_hash = e_blake3 E logical\<rparr>"
    and len: "length logical \<le> fs_block_size fs"
    by (rule write_block_Ok)
  from assms(1) have ai: "alloc_inv eofs_data_start (fs_alloc fs)" and bs: "fs_block_size fs \<le> 2 ^ 20"
    by (auto simp: store_inv_def block_size_ok_def)
  obtain need where need: "aligned (fs_alloc fs) (length payload) = Some need" "length payload \<le> need" "0 < need"
      "a_unit (fs_alloc fs) dvd need" "alloc_inv eofs_data_start al"
      "{addr ..< addr + need} \<subseteq> free_space (fs_alloc fs)"
      "free_space al = free_space (fs_alloc fs) - {addr ..< addr + need}"
      "alloc_aligned (fs_alloc fs) \<longrightarrow> alloc_aligned al \<and> a_unit (fs_alloc fs) dvd addr"
    by (rule allocate_Ok [OF ai al])
  then have "addr \<in> free_space (fs_alloc fs)" by auto
  then have "addr < 2 ^ 64"
    using free_space_bounds(2) [OF ai] ai by (fastforce simp: alloc_inv_def)
  moreover have "length payload \<le> length logical"
    using enc by (auto simp: encode_block_def Let_def split: if_splits)
  ultimately show ?thesis using p len bs hash_length by (simp add: ptr_wf_def)
qed

lemma write_groups_wf:
  assumes "ok_fs fs" and "write_groups E fs gs = Some (fs', Ok ps)"
  shows "list_all ptr_wf ps \<and> length ps = length gs"
  using assms
proof (induction gs arbitrary: fs ps)
  case (Cons g gs)
  from Cons.prems(2) obtain fs1 p ps' where st: "write_block E fs (concat (map ptr_write g)) = Some (fs1, Ok p)"
    "write_groups E fs1 gs = Some (fs', Ok ps')" "ps = p # ps'"
    by (auto simp: io_then_Ok_iff)
  from cowD(1) [OF cow_write_block [OF Cons.prems(1)] st(1)] have "ok_fs fs1" .
  with Cons.IH st write_block_wf [OF Cons.prems(1)] show ?case by auto
qed simp

lemma build_loop_wf:
  assumes "ok_fs fs" and "build_loop E fs level current = Some (fs', Ok (lv, p))"
    and "list_all ptr_wf current" and "level < 2 ^ 8"
  shows "ptr_wf p \<and> lv < 2 ^ 8"
  using assms
proof (induction level arbitrary: fs current rule: measure_induct_rule [of "\<lambda>level. 256 - level"])
  case (less level)
  show ?case
  proof (cases "length current > 1")
    case True
    with less.prems(2) obtain fs1 ps where
      g: "write_groups E fs (chunks (fanout fs) current) = Some (fs1, Ok ps)" and "level + 1 < 2 ^ 8"
      "build_loop E fs1 (level + 1) ps = Some (fs', Ok (lv, p))"
      by (subst (asm) build_loop.simps) (auto simp: bind_eq_Some_conv io_then_Ok_iff split: if_splits)
    moreover have "ok_fs fs1" by (rule cowD(1) [OF cow_write_groups [OF less.prems(1)] g])
    moreover have "list_all ptr_wf ps" using write_groups_wf [OF less.prems(1) g] by simp
    ultimately show ?thesis by (intro less.IH [of "level + 1"]) simp_all
  next
    case False
    with less.prems show ?thesis
      by (subst (asm) build_loop.simps) (auto simp: bind_eq_Some_conv neq_Nil_conv)
  qed
qed

lemma build_tree_wf:
  assumes "ok_fs fs" and "build_tree E fs leaves sz = Some (fs', Ok ob)" and "list_all ptr_wf leaves" and "sz < 2 ^ 64"
  shows "obj_wf ob"
  using assms build_loop_wf [OF assms(1) _ assms(3), of 0]
  by (auto simp: build_tree_def bind_eq_Some_conv io_then_Ok_iff obj_wf_def empty_obj_def split: if_splits)

lemma range_block_wf:
  assumes "ok_fs fs" and "range_block E fs ob old offset data new_size b = Some (fs', Ok p)" and "list_all ptr_wf old"
  shows "ptr_wf p"
  using assms write_block_wf [OF assms(1)]
  by (auto simp: range_block_def Let_def bind_eq_Some_conv io_read_Ok_iff list_all_length split: if_splits)

lemma range_blocks_wf:
  assumes "ok_fs fs" and "range_blocks E fs ob old offset data new_size bs = Some (fs', Ok ps)" and "list_all ptr_wf old"
  shows "list_all ptr_wf ps"
  using assms
proof (induction bs arbitrary: fs ps)
  case (Cons b bs)
  from Cons.prems(2) obtain fs1 p ps' where st: "range_block E fs ob old offset data new_size b = Some (fs1, Ok p)"
    "range_blocks E fs1 ob old offset data new_size bs = Some (fs', Ok ps')" "ps = p # ps'"
    by (auto simp: io_then_Ok_iff)
  from cow_range_block [OF Cons.prems(1)] st(1) have "ok_fs fs1" unfolding cow_def by blast
  with Cons.IH st range_block_wf [OF Cons.prems(1)] Cons.prems(3) show ?case by auto
qed simp

lemma write_object_range_wf:
  assumes "ok_fs fs" and "write_object_range E fs ob offset data = Some (fs', Ok ob')" and "obj_wf ob"
  shows "obj_wf ob'"
proof (cases "data = []")
  case True
  with assms show ?thesis by (simp add: write_object_range_def)
next
  case False
  let ?n = "max (o_size ob) (offset + length data)"
  from False assms(2) obtain old fs1 leaves where
    st: "collect_leaves E fs ob = Some (Ok old)"
      "range_blocks E fs ob old offset data ?n [0..<div_ceil ?n (fs_block_size fs)] = Some (fs1, Ok leaves)"
      "build_tree E fs1 leaves ?n = Some (fs', Ok ob')" "?n < 2 ^ 64"
    using assms(3)
    by (auto simp: write_object_range_def Let_def bind_eq_Some_conv io_read_Ok_iff io_then_Ok_iff obj_wf_def split: option.splits)
  have "list_all ptr_wf old"
    using collect_leaves_wf [OF st(1)] assms(3) by (simp add: obj_wf_def)
  then have "list_all ptr_wf leaves" by (rule range_blocks_wf [OF assms(1) st(2)])
  moreover have "ok_fs fs1" using cow_range_blocks [OF assms(1)] st(2) unfolding cow_def by blast
  ultimately show ?thesis using build_tree_wf st(3,4) by blast
qed

lemma store_dir_wf:
  assumes "ok_fs fs" and "store_dir E fs es = Some (fs', Ok ob)"
  shows "obj_wf ob"
  using assms by (auto simp: store_dir_def bind_eq_Some_conv write_object_def split: if_splits
      intro: write_object_range_wf [where ob = empty_obj])

lemma apply_in_dir_wf:
  assumes "ok_fs fs" and "apply_in_dir E fs dir segments dop = Some (fs', Ok ob)"
  shows "obj_wf ob"
proof (cases segments)
  case Nil
  with assms show ?thesis by (auto simp: io_read_Ok_iff io_then_Ok_iff dest: store_dir_wf)
next
  case (Cons seg rest)
  with assms(2) obtain fs1 ob1 es dir1 where a: "apply_in_dir E fs dir1 rest dop = Some (fs1, Ok ob1)"
    and s: "store_dir E fs1 es = Some (fs', Ok ob)"
    by (auto simp: io_read_Ok_iff io_then_Ok_iff split: option.splits if_splits)
  from cow_apply_in_dir [OF assms(1)] a have "ok_fs fs1" unfolding cow_def by blast
  then show ?thesis using s by (rule store_dir_wf)
qed

lemma set_live_root_wf:
  assumes "set_live_root m = Some (fs', r)" and "keeps_cow fs m" and "roots_wf fs"
    and "\<And>fs1 root. m = Some (fs1, Ok root) \<Longrightarrow> obj_wf root"
  shows "roots_wf fs'"
proof -
  from assms(1) consider e where "m = Some (fs', Err e)"
    | fs1 root where "m = Some (fs1, Ok root)" "fs' = fs1\<lparr>fs_live_root := root, fs_dirty := True\<rparr>"
    by (auto simp: set_live_root_def io_then_def split: option.splits result.splits)
  then show ?thesis
    using assms(2-4) by cases (auto simp: cow_def roots_wf_def dest: same_config_fields)
qed

lemma fs_write_wf:
  assumes "ok_fs fs" and "fs_write E fs path offset data = Some (fs', r)" and "roots_wf fs"
  shows "roots_wf fs'"
proof (cases "fs' = fs")
  case False
  from assms(2) obtain segments ob m where
    res: "resolve E fs (fs_live_root fs) segments = Some (Ok (File, ob))"
    and st: "write_object_range E fs ob offset data = Some m"
      "io_then (Some m) (\<lambda>fs1 ob'. set_live_root (apply_in_dir E fs1 (fs_live_root fs) (butlast segments) (Replace (last segments) ob'))) = Some (fs', r)"
    using False
    by (auto simp: fs_write_def io_read_def io_then_def split: result.splits option.splits prod.splits if_splits)
  obtain fs1 q where m: "m = (fs1, q)" by fastforce
  have fs1: "ok_fs fs1" "same_config fs fs1"
    using cow_write_object_range [OF assms(1)] st(1) m unfolding cow_def by blast+
  have wf1: "roots_wf fs1" using assms(3) fs1(2) by (simp add: roots_wf_def same_config_fields)
  show ?thesis
  proof (cases q)
    case (Err e)
    with st(2) m wf1 show ?thesis by simp
  next
    case (Ok ob')
    with st(2) m have "set_live_root (apply_in_dir E fs1 (fs_live_root fs) (butlast segments) (Replace (last segments) ob')) = Some (fs', r)"
      by simp
    then show ?thesis
      by (rule set_live_root_wf [OF _ cow_apply_in_dir [OF fs1(1)] wf1 apply_in_dir_wf [OF fs1(1)]])
  qed
qed (use assms in simp)

lemma tree_change_wf:
  assumes "ok_fs fs" and "roots_wf fs"
    and "set_live_root (apply_in_dir E fs dir segments dop) = Some (fs', r)"
  shows "roots_wf fs'"
  using assms(3)
  by (rule set_live_root_wf [OF _ cow_apply_in_dir [OF assms(1)] assms(2) apply_in_dir_wf [OF assms(1)]])

lemma snapshot_create_wf:
  assumes "ok_fs fs" and "snapshot_create E fs name = Some (fs', r)" and "roots_wf fs"
  shows "roots_wf fs'"
proof (cases "fs' = fs")
  case False
  with assms(2) obtain bytes where
    st: "io_then (write_object E fs bytes) (\<lambda>fs1 table. Some (fs1\<lparr>fs_snapshots := table, fs_dirty := True\<rparr>, Ok ())) = Some (fs', r)"
    by (auto simp: snapshot_create_def io_read_def bind_eq_Some_conv split: result.splits option.splits if_splits)
  then obtain fs1 q where w: "write_object E fs bytes = Some (fs1, q)"
    and fs': "(\<exists>e. q = Err e \<and> fs' = fs1) \<or> (\<exists>t. q = Ok t \<and> fs' = fs1\<lparr>fs_snapshots := t, fs_dirty := True\<rparr>)"
    by (auto simp: io_then_def split: option.splits result.splits)
  have "same_config fs fs1" using cow_write_object [OF assms(1)] w unfolding cow_def by blast
  moreover have "obj_wf t" if "q = Ok t" for t
    using write_object_range_wf [OF assms(1), of empty_obj] w that by (simp add: write_object_def)
  ultimately show ?thesis using fs' assms(3) by (auto simp: roots_wf_def same_config_fields)
qed (use assms in simp)

lemma fs_apply_wf:
  assumes "ok_fs fs" and "fs_apply E fs opn = Some (fs', r)" and "roots_wf fs"
  shows "roots_wf fs'"
proof -
  have create: "roots_wf fs'" if "create_node E fs path kind = Some (fs', r)" for path kind
    using that assms(1,3)
    by (auto simp: create_node_def io_read_def split: result.splits if_splits dest: tree_change_wf)
  have rm: "roots_wf fs'" if "remove E fs path = Some (fs', r)" for path
    using that assms(1,3)
    by (auto simp: remove_def io_read_def split: result.splits option.splits prod.splits if_splits dest: tree_change_wf)
  show ?thesis
    using assms create rm
    by (cases opn) (auto simp: create_file_def mkdir_def dest: fs_write_wf snapshot_create_wf)
qed

lemma fs_run_wf:
  assumes "ok_fs fs" and "fs_run E fs ops = Some fs'" and "roots_wf fs"
  shows "roots_wf fs'"
  using assms
proof (induction ops arbitrary: fs)
  case (Cons opn ops)
  from Cons.prems(2) obtain fs1 r where st: "fs_apply E fs opn = Some (fs1, r)" "fs_run E fs1 ops = Some fs'"
    by (auto split: option.splits)
  with change_fs_apply [OF Cons.prems(1), of opn] have "ok_fs fs1" by (auto simp: change_def)
  with Cons.IH st fs_apply_wf [OF Cons.prems(1) st(1) Cons.prems(3)] show ?case by blast
qed simp

end

end
