(* ===== verification/Eofs_Objects.thy ===== *)
theory Eofs_Objects
  imports Eofs_Wf
begin

text \<open>
  Byte objects as sequences of bytes. \<open>stored\<close> says that a block stands on the device outside the
  free space, \<open>tree_at\<close> that an indirect tree holds a list of data blocks, and \<open>object\<close> that an
  object reference denotes a byte string. Reading refines taking a slice of that string, and a
  copy-on-write range update refines splicing bytes into it; objects that are not written stay
  what they were. The locale adds what the engine relies on of the device and of the compressor.
\<close>

section \<open>Lists in chunks\<close>

lemma chunks_Nil [simp]: "chunks n [] = []"
  by (simp add: chunks.simps)

lemma chunks_Cons: "xs \<noteq> [] \<Longrightarrow> 0 < n \<Longrightarrow> chunks n xs = take n xs # chunks n (drop n xs)"
  by (subst chunks.simps) simp

lemma concat_chunks: "0 < n \<Longrightarrow> concat (chunks n xs) = xs"
proof (induction n xs rule: chunks.induct)
  case (1 n xs)
  then show ?case by (cases "xs = []") (simp_all add: chunks_Cons)
qed

lemma div_ceil_step:
  assumes "0 < n" "0 < m"
  shows "div_ceil m n = Suc (div_ceil (m - n) n)"
proof (cases "n \<le> m")
  case True
  then obtain k where "m = k + n" by (metis add.commute le_Suc_ex)
  moreover have "(k + n + n - 1) div n = ((k + n - 1) + n) div n" using assms by simp
  ultimately show ?thesis using assms by (simp only: div_ceil_def add_diff_cancel_right' div_add_self2)
next
  case False
  with assms have "(m + n - 1) div n = 1" by (intro div_nat_eqI) auto
  with False assms show ?thesis by (simp add: div_ceil_def)
qed

lemma length_chunks: "0 < n \<Longrightarrow> length (chunks n xs) = div_ceil (length xs) n"
proof (induction n xs rule: chunks.induct)
  case (1 n xs)
  then show ?case
    by (cases "xs = []") (simp_all add: chunks_Cons div_ceil_step [of n "length xs"])
qed

lemma nth_chunks: "0 < n \<Longrightarrow> i < length (chunks n xs) \<Longrightarrow> chunks n xs ! i = slice (i * n) n xs"
proof (induction n xs arbitrary: i rule: chunks.induct)
  case (1 n xs)
  then have ne: "xs \<noteq> []" by auto
  show ?case
  proof (cases i)
    case 0
    with ne 1(2) show ?thesis by (simp add: chunks_Cons slice_def)
  next
    case (Suc j)
    with 1 ne have "chunks n (drop n xs) ! j = slice (j * n) n (drop n xs)"
      by (simp add: chunks_Cons)
    with Suc ne 1(2) show ?thesis by (simp add: chunks_Cons slice_def add.commute)
  qed
qed

lemma chunks_lengths: "g \<in> set (chunks n xs) \<Longrightarrow> g \<noteq> [] \<and> length g \<le> n \<and> set g \<subseteq> set xs"
proof (induction n xs rule: chunks.induct)
  case (1 n xs)
  show ?case
  proof (cases "xs = [] \<or> n = 0")
    case False
    with 1(2) consider "g = take n xs" | "g \<in> set (chunks n (drop n xs))" by (auto simp: chunks_Cons)
    then show ?thesis
    proof cases
      case 1
      with False show ?thesis using set_take_subset [of n xs] by auto
    next
      case 2
      with False "1.IH" show ?thesis using set_drop_subset [of n xs] by blast
    qed
  qed (use 1(2) in \<open>auto simp: chunks.simps\<close>)
qed

lemma chunks_concat:
  assumes "0 < n" and "list_all (\<lambda>x. length x = n) xss"
  shows "chunks n (concat xss) = xss"
  using assms(2)
proof (induction xss)
  case (Cons x xss)
  then have "concat (x # xss) \<noteq> []" using assms(1) by auto
  with Cons assms(1) show ?case by (simp add: chunks_Cons)
qed simp

lemma list_all2_chunks:
  "list_all2 P xs ys \<Longrightarrow> list_all2 (list_all2 P) (chunks n xs) (chunks n ys)"
proof (induction n xs arbitrary: ys rule: chunks.induct)
  case (1 n xs)
  show ?case
  proof (cases "xs = [] \<or> n = 0")
    case True
    with 1(2) show ?thesis by (auto simp: chunks.simps)
  next
    case False
    with 1(2) have ys: "ys \<noteq> []" by auto
    have "list_all2 P (take n xs) (take n ys)" "list_all2 P (drop n xs) (drop n ys)"
      using 1(2) by (auto intro: list_all2_takeI list_all2_dropI)
    with 1(1) False ys show ?thesis by (simp add: chunks_Cons)
  qed
qed

lemma concat_map_concat: "concat (map concat xsss) = concat (concat xsss)"
  by (induction xsss) simp_all

lemma concat_map_concat_chunks: "0 < n \<Longrightarrow> concat (map concat (chunks n xss)) = concat xss"
  by (simp add: concat_map_concat concat_chunks)


section \<open>The height of a tree\<close>

function height :: "nat \<Rightarrow> nat \<Rightarrow> nat" where
  "height f n = (if n \<le> 1 \<or> f \<le> 1 then 0 else Suc (height f (div_ceil n f)))"
  by pat_completeness auto
termination
proof (relation "measure snd")
  fix f n :: nat assume "\<not> (n \<le> 1 \<or> f \<le> 1)"
  then have "n \<le> (n - 1) * f" by (cases n; cases f) auto
  then have "div_ceil n f \<le> n - 1" using \<open>\<not> (n \<le> 1 \<or> f \<le> 1)\<close> by (subst div_ceil_le_iff) auto
  then show "((f, div_ceil n f), f, n) \<in> measure snd" using \<open>\<not> (n \<le> 1 \<or> f \<le> 1)\<close> by (simp, linarith)
qed simp

declare height.simps [simp del]

lemma height_le_iff: "1 < f \<Longrightarrow> height f n \<le> k \<longleftrightarrow> n \<le> f ^ k"
proof (induction f n arbitrary: k rule: height.induct)
  case (1 f n)
  show ?case
  proof (cases "n \<le> 1")
    case True
    with 1(2) have "n \<le> f ^ k" by (metis One_nat_def le_trans one_le_power order_less_imp_le)
    with True show ?thesis by (simp add: height.simps)
  next
    case False
    show ?thesis
    proof (cases k)
      case 0
      with False 1(2) show ?thesis by (simp add: height.simps)
    next
      case (Suc j)
      with 1 False have "height f n \<le> k \<longleftrightarrow> div_ceil n f \<le> f ^ j" by (simp add: height.simps [of f n])
      also have "\<dots> \<longleftrightarrow> n \<le> f ^ j * f" using 1(2) by (intro div_ceil_le_iff) simp
      finally show ?thesis using Suc by (simp add: mult.commute)
    qed
  qed
qed

lemma height_small: "1 < f \<Longrightarrow> n < 2 ^ 64 \<Longrightarrow> height f n \<le> 64"
proof -
  assume f: "1 < f" "n < 2 ^ 64"
  have "(2::nat) ^ 64 \<le> f ^ 64" using f(1) by (intro power_mono) auto
  with f show ?thesis by (subst height_le_iff) auto
qed

lemma canonical_level_height:
  assumes "1 < f" and "n < 2 ^ 64" and "j \<le> height f n" and "j = 0 \<or> f ^ (j - 1) < n"
  shows "canonical_level f n (min (f ^ j) (2 ^ 64 - 1)) j = Some (height f n)"
  using assms(3,4)
proof (induction "height f n - j" arbitrary: j)
  case 0
  then have "j = height f n" by simp
  then have "n \<le> f ^ j" using height_le_iff [OF assms(1), of n j] by simp
  then have "\<not> min (f ^ j) (2 ^ 64 - 1) < n" using assms(2) by simp
  then show ?case using \<open>j = height f n\<close> by (subst canonical_level.simps) simp
next
  case (Suc d)
  then have lt: "j < height f n" by simp
  then have "\<not> n \<le> f ^ j" using height_le_iff [OF assms(1), of n j] by simp
  then have fn: "f ^ j < n" by simp
  then have cap: "min (f ^ j) (2 ^ 64 - 1) = f ^ j" "f ^ j < 2 ^ 64 - 1" using assms(2) by auto
  have "j + 1 < 2 ^ 8" using lt height_small [OF assms(1,2)] by simp
  moreover have "canonical_level f n (min (f ^ (j + 1)) (2 ^ 64 - 1)) (j + 1) = Some (height f n)"
    using Suc fn lt by (intro Suc.hyps(1)) auto
  ultimately show ?case
    using fn cap by (subst canonical_level.simps) (simp add: mult.commute)
qed

lemma canonical_level_0: "1 < f \<Longrightarrow> n < 2 ^ 64 \<Longrightarrow> canonical_level f n 1 0 = Some (height f n)"
  using canonical_level_height [of f n 0] by simp


section \<open>Stored blocks, trees and objects\<close>

text \<open>The bytes a block occupies, rounded to the allocation unit.\<close>

definition block_bytes :: "'d eofs \<Rightarrow> block_ptr \<Rightarrow> nat set" where
  "block_bytes fs p = {bp_addr p ..< bp_addr p + div_ceil (bp_psize p) (fs_alloc_unit fs) * fs_alloc_unit fs}"

definition stored :: "'d env \<Rightarrow> 'd eofs \<Rightarrow> block_ptr \<Rightarrow> bytes \<Rightarrow> bool" where
  "stored E fs p logical \<longleftrightarrow> read_block E fs p = Ok logical \<and> ptr_wf p \<and>
     block_bytes fs p \<subseteq> {..<fs_device_size fs} - free_space (fs_alloc fs)"

fun tree_at :: "'d env \<Rightarrow> 'd eofs \<Rightarrow> nat \<Rightarrow> block_ptr \<Rightarrow> block_ptr list \<Rightarrow> bool" where
  "tree_at E fs 0 p ls \<longleftrightarrow> ls = [p]"
| "tree_at E fs (Suc level) p ls \<longleftrightarrow>
     (\<exists>children lss. children \<noteq> [] \<and> list_all ptr_wf children \<and> stored E fs p (concat (map ptr_write children)) \<and>
        list_all2 (tree_at E fs level) children lss \<and> ls = concat lss)"

definition object :: "'d env \<Rightarrow> 'd eofs \<Rightarrow> obj_ref \<Rightarrow> bytes \<Rightarrow> bool" where
  "object E fs ob data \<longleftrightarrow> obj_wf ob \<and> o_size ob = length data \<and>
     (if data = [] then is_null (o_root ob) \<and> o_level ob = 0
      else \<exists>ls. tree_at E fs (o_level ob) (o_root ob) ls \<and> list_all2 (stored E fs) ls (chunks (fs_block_size fs) data) \<and>
        distinct (map bp_addr ls) \<and> o_level ob = height (fanout fs) (length ls))"

lemma object_empty [simp]: "object E fs empty_obj []"
  by (simp add: object_def) (simp add: empty_obj_def)

lemma power_of_two_dvd:
  assumes "power_of_two u" "u \<le> 4096"
  shows "u dvd 8192"
proof -
  from assms obtain k where k: "u = 2 ^ k" by (auto simp: power_of_two_def list_ex_iff)
  with assms(2) have "(2::nat) ^ k \<le> 2 ^ 12" by simp
  then have "k \<le> 12" by (rule power_le_imp_le_exp [rotated]) simp
  then have "(2::nat) ^ k dvd 2 ^ 13" by (intro le_imp_power_dvd) simp
  then show ?thesis using k by simp
qed

lemma store_inv_geometry:
  assumes "store_inv content dev_inv fs"
  shows "512 \<le> fs_block_size fs" "fs_block_size fs \<le> 2 ^ 20" "0 < fs_alloc_unit fs" "fs_alloc_unit fs \<le> 4096"
    "fs_alloc_unit fs dvd 8192" "1 < fanout fs" "fanout fs * 56 \<le> fs_block_size fs" "8192 \<le> fs_device_size fs"
    "fs_device_size fs < 2 ^ 64"
proof -
  show bs: "512 \<le> fs_block_size fs" "fs_block_size fs \<le> 2 ^ 20" and au: "0 < fs_alloc_unit fs" "fs_alloc_unit fs \<le> 4096"
    using assms by (auto simp: store_inv_def block_size_ok_def alloc_unit_ok_def)
  show "fs_alloc_unit fs dvd 8192"
    using assms au(2) by (intro power_of_two_dvd) (auto simp: store_inv_def alloc_unit_ok_def)
  have "512 div 56 \<le> fanout fs" unfolding fanout_def block_ptr_size_def using bs(1) by (rule div_le_mono)
  then show "1 < fanout fs" by simp
  show "fanout fs * 56 \<le> fs_block_size fs" by (simp add: fanout_def block_ptr_size_def)
  have "extents_ok eofs_data_start (a_free (fs_alloc fs)) (a_frontier (fs_alloc fs))"
      "a_frontier (fs_alloc fs) \<le> fs_device_size fs" "fs_device_size fs < 2 ^ 64"
    using assms by (auto simp: store_inv_def alloc_inv_def)
  then show "8192 \<le> fs_device_size fs" "fs_device_size fs < 2 ^ 64"
    using extents_ok_le by (fastforce simp: eofs_data_start_def slot_size_def)+
qed

lemma read_block_Ok:
  assumes "read_block E fs p = Ok logical"
  shows "\<not> is_null p" "0 < bp_lsize p" "bp_lsize p \<le> fs_block_size fs" "0 < bp_psize p" "bp_psize p \<le> fs_block_size fs"
    "8192 \<le> bp_addr p" "fs_alloc_unit fs dvd bp_addr p" "bp_addr p + bp_psize p \<le> fs_device_size fs"
  using assms
  by (auto simp: read_block_def eofs_data_start_def slot_size_def mod_eq_0_iff_dvd split: if_splits option.splits)

lemma stored_addr:
  assumes "stored E fs p logical" and "0 < fs_alloc_unit fs"
  shows "8192 \<le> bp_addr p" "fs_alloc_unit fs dvd bp_addr p" "bp_addr p + fs_alloc_unit fs \<le> fs_device_size fs"
    "bp_addr p \<notin> free_space (fs_alloc fs)" "\<not> is_null p"
proof -
  have rd: "read_block E fs p = Ok logical" using assms(1) by (simp add: stored_def)
  then show "8192 \<le> bp_addr p" "fs_alloc_unit fs dvd bp_addr p" "\<not> is_null p" using read_block_Ok [OF rd] by simp_all
  let ?n = "div_ceil (bp_psize p) (fs_alloc_unit fs)"
  have "0 < ?n" using read_block_Ok(4) [OF rd] assms(2) by (intro div_ceil_pos)
  then have n: "fs_alloc_unit fs \<le> ?n * fs_alloc_unit fs" by (cases ?n) auto
  define m where "m = ?n * fs_alloc_unit fs"
  have sub: "block_bytes fs p \<subseteq> {..<fs_device_size fs} - free_space (fs_alloc fs)" using assms(1) by (simp add: stored_def)
  have "bp_addr p + m - 1 \<in> block_bytes fs p" "bp_addr p \<in> block_bytes fs p"
    using n assms(2) unfolding block_bytes_def m_def [symmetric] by auto
  then have "bp_addr p + m - 1 < fs_device_size fs" "bp_addr p \<notin> free_space (fs_alloc fs)"
    using sub by blast+
  then show "bp_addr p + fs_alloc_unit fs \<le> fs_device_size fs" "bp_addr p \<notin> free_space (fs_alloc fs)"
    using n assms(2) unfolding m_def [symmetric] by auto
qed

text \<open>Blocks at different addresses: there are at most as many as the device has allocation units.\<close>

lemma stored_count:
  assumes "store_inv content dev_inv fs" and "list_all (\<lambda>p. \<exists>l. stored E fs p l) ls" and "distinct (map bp_addr ls)"
  shows "length ls \<le> (fs_device_size fs - 8192) div fs_alloc_unit fs"
proof -
  let ?u = "fs_alloc_unit fs"
  let ?q = "\<lambda>a. (a - 8192) div ?u"
  note geo = store_inv_geometry [OF assms(1)]
  have a: "8192 \<le> a \<and> ?u dvd a \<and> a + ?u \<le> fs_device_size fs" if "a \<in> bp_addr ` set ls" for a
    using that assms(2) stored_addr [OF _ geo(3)] by (fastforce simp: list_all_iff)
  have "?q a < (fs_device_size fs - 8192) div ?u" if "a \<in> bp_addr ` set ls" for a
  proof -
    have "(a - 8192) + ?u \<le> fs_device_size fs - 8192" using a [OF that] by linarith
    then have "((a - 8192) + ?u) div ?u \<le> (fs_device_size fs - 8192) div ?u" by (rule div_le_mono)
    then show ?thesis using geo(3) div_add_self2 [of ?u "a - 8192"] by linarith
  qed
  then have "?q ` bp_addr ` set ls \<subseteq> {..<(fs_device_size fs - 8192) div ?u}" by blast
  moreover have "inj_on ?q (bp_addr ` set ls)"
  proof (rule inj_onI)
    fix x y assume x: "x \<in> bp_addr ` set ls" and y: "y \<in> bp_addr ` set ls" and eq: "?q x = ?q y"
    have "?u dvd x - 8192" "?u dvd y - 8192" using a [OF x] a [OF y] geo(5) by (simp_all add: dvd_diff_nat)
    then have "x - 8192 = y - 8192" using eq by (metis dvd_div_mult_self)
    then show "x = y" using a [OF x] a [OF y] by linarith
  qed
  ultimately have "card (bp_addr ` set ls) \<le> (fs_device_size fs - 8192) div ?u"
    by (metis card_image card_lessThan card_mono finite_lessThan)
  moreover have "card (bp_addr ` set ls) = length ls"
    using distinct_card [OF assms(3)] by simp
  ultimately show ?thesis by simp
qed


section \<open>Reading\<close>

lemma each_child_ptrs:
  assumes "children \<noteq> []" and "list_all ptr_wf children"
  shows "each_child (concat (map ptr_write children)) visit acc = fold_try visit children acc"
proof -
  have len: "list_all (\<lambda>x. length x = 56) (map ptr_write children)"
    using assms(2) by (induction children) auto
  have total: "length (concat (map ptr_write children)) = 56 * length children"
    using assms(2) by (induction children) auto
  have "fold_try (\<lambda>chunk acc. try_then (ptr_read chunk) (\<lambda>child. visit child acc)) (map ptr_write cs) acc = fold_try visit cs acc"
    if "list_all ptr_wf cs" for cs acc
    using that by (induction cs arbitrary: acc) (auto intro: try_then_cong)
  moreover have "concat (map ptr_write children) \<noteq> []"
    using total assms(1) by (metis length_0_conv mult_eq_0_iff zero_neq_numeral)
  moreover have "chunks 56 (concat (map ptr_write children)) = map ptr_write children"
    by (rule chunks_concat [OF _ len]) simp
  ultimately show ?thesis
    using assms(2) total unfolding each_child_def block_ptr_size_def by (simp only: mod_mult_self1_is_0) simp
qed

lemma collect_level_tree:
  assumes "tree_at E fs level p ls" and "length out + length ls \<le> n"
  shows "collect_level E fs n level p out = Some (Ok (out @ ls))"
  using assms
proof (induction level arbitrary: p ls out)
  case 0
  then show ?case by simp
next
  case (Suc level)
  then obtain children lss where c: "children \<noteq> []" "list_all ptr_wf children"
    "stored E fs p (concat (map ptr_write children))" "list_all2 (tree_at E fs level) children lss" "ls = concat lss"
    by auto
  have "fold_try (collect_level E fs n level) cs out = Some (Ok (out @ concat lss'))"
    if "list_all2 (tree_at E fs level) cs lss'" "length out + length (concat lss') \<le> n" for cs lss' out
    using that
  proof (induction arbitrary: out rule: list_all2_induct)
    case (Cons c cs l lss')
    then show ?case using Suc.IH [of c l out] by simp
  qed simp
  then show ?case
    using c Suc.prems(2) by (simp add: stored_def each_child_ptrs)
qed

lemma object_leaves:
  assumes "store_inv content dev_inv fs" and "object E fs ob data" and "data \<noteq> []"
  obtains ls where "collect_leaves E fs ob = Some (Ok ls)" "list_all2 (stored E fs) ls (chunks (fs_block_size fs) data)"
    "distinct (map bp_addr ls)"
proof -
  note geo = store_inv_geometry [OF assms(1)]
  from assms(2,3) obtain ls where ls: "tree_at E fs (o_level ob) (o_root ob) ls"
    "list_all2 (stored E fs) ls (chunks (fs_block_size fs) data)" "distinct (map bp_addr ls)"
    "o_level ob = height (fanout fs) (length ls)" and sz: "o_size ob = length data" "obj_wf ob"
    by (auto simp: object_def)
  have bs: "0 < fs_block_size fs" using geo(1) by simp
  have n: "length ls = div_ceil (length data) (fs_block_size fs)"
    using list_all2_lengthD [OF ls(2)] length_chunks [OF bs] by simp
  have st: "list_all (\<lambda>p. \<exists>l. stored E fs p l) ls"
    using ls(2) by (auto simp: list_all_length list_all2_conv_all_nth)
  have root: "\<not> is_null (o_root ob)"
  proof (cases "o_level ob")
    case 0
    with ls(1) st show ?thesis using stored_addr(5) [OF _ geo(3)] by (auto simp: list_all_iff)
  next
    case (Suc level)
    with ls(1) show ?thesis using stored_addr(5) [OF _ geo(3)] by auto
  qed
  have count: "length ls \<le> (fs_device_size fs - 8192) div fs_alloc_unit fs"
    by (rule stored_count [OF assms(1) st ls(3)])
  also have "\<dots> \<le> fs_device_size fs" by (meson diff_le_self div_le_dividend le_trans)
  finally have "length ls < 2 ^ 64" using geo(9) by simp
  then have lev: "canonical_level (fanout fs) (length ls) 1 0 = Some (o_level ob)"
    using canonical_level_0 [OF geo(6)] ls(4) by simp
  have "check_object fs ob = Some (Ok (length ls))"
    using sz(1) assms(3) root geo bs count lev n
    by (simp add: check_object_def Let_def minus_exec_def eofs_data_start_def slot_size_def)
  moreover have "length ls \<noteq> 0" using n assms(3) div_ceil_pos [OF bs] by simp
  ultimately have "collect_leaves E fs ob = Some (Ok ls)"
    using collect_level_tree [OF ls(1), of "[]" "length ls"] by (simp add: collect_leaves_def)
  then show thesis using ls(2,3) that by blast
qed

lemma slice_append_step: "slice off n xs @ slice (off + n) m xs = slice off (n + m) xs"
  by (simp add: slice_def take_add) (simp add: add.commute)

lemma read_range_loop_object:
  assumes "list_all2 (stored E fs) ls (chunks (fs_block_size fs) data)" and "0 < fs_block_size fs"
    and "offset + want \<le> length data" and "n \<le> want"
  shows "read_range_loop E fs ls offset want (slice offset n data) = Some (Ok (slice offset want data))"
  using assms(4)
proof (induction "want - n" arbitrary: n rule: less_induct)
  case less
  let ?bs = "fs_block_size fs" and ?at = "offset + n"
  have len: "length (slice offset n data) = n" using less.prems assms(3) by simp
  show ?case
  proof (cases "n < want")
    case False
    with less.prems have "n = want" by simp
    then show ?thesis using len by (subst read_range_loop.simps) simp
  next
    case True
    let ?i = "?at div ?bs" and ?w = "?at mod ?bs"
    have at: "?at < length data" using True assms(3) by simp
    have i: "?i < length (chunks ?bs data)"
    proof -
      have "length data \<le> length (chunks ?bs data) * ?bs"
        using div_ceil_bounds(1) [OF assms(2)] length_chunks [OF assms(2)] by metis
      then show ?thesis using at by (simp add: div_less_iff_less_mult assms(2))
    qed
    let ?l = "slice (?i * ?bs) ?bs data"
    have rd: "read_block E fs (ls ! ?i) = Ok ?l"
      using assms(1) i nth_chunks [OF assms(2) i] by (auto simp: list_all2_conv_all_nth stored_def)
    have split: "?i * ?bs + ?w = ?at" by simp
    have wlt: "?w < ?bs" using assms(2) by simp
    have ll: "length ?l = min ?bs (length data - ?i * ?bs)" by (simp add: slice_def)
    have w: "?w < length ?l" using ll wlt at split by linarith
    define m where "m = min (want - n) (length ?l - ?w)"
    have m: "0 < m" "m \<le> want - n" "?w + m \<le> ?bs"
      using True w ll by (auto simp: m_def)
    have sl: "slice ?w m ?l = slice ?at m data"
      using slice_slice [OF m(3), of "?i * ?bs" data] split by simp
    have "read_range_loop E fs ls offset want (slice offset n data) =
        read_range_loop E fs ls offset want (slice offset n data @ slice ?w m ?l)"
      using True len i rd w m(1) list_all2_lengthD [OF assms(1)]
      by (subst read_range_loop.simps) (simp add: Let_def minus_exec_def flip: m_def)
    also have "\<dots> = read_range_loop E fs ls offset want (slice offset (n + m) data)"
      by (simp add: sl slice_append_step)
    also have "\<dots> = Some (Ok (slice offset want data))"
      using m True by (intro less.hyps) auto
    finally show ?thesis .
  qed
qed

lemma read_object_range_object:
  assumes "store_inv content dev_inv fs" and "object E fs ob data"
  shows "read_object_range E fs ob offset n = Some (Ok (slice offset n data))"
proof (cases "offset \<ge> o_size ob \<or> n = 0")
  case True
  with assms(2) show ?thesis by (auto simp: read_object_range_def object_def slice_def)
next
  case False
  with assms(2) have sz: "o_size ob = length data" "data \<noteq> []" by (auto simp: object_def)
  obtain ls where ls: "collect_leaves E fs ob = Some (Ok ls)" "list_all2 (stored E fs) ls (chunks (fs_block_size fs) data)"
    using object_leaves [OF assms sz(2)] by blast
  let ?want = "min n (length data - offset)"
  have "0 < fs_block_size fs" using store_inv_geometry(1) [OF assms(1)] by simp
  then have "read_range_loop E fs ls offset ?want (slice offset 0 data) = Some (Ok (slice offset ?want data))"
    using False sz by (intro read_range_loop_object [OF ls(2)]) auto
  moreover have "slice offset ?want data = slice offset n data" by (simp add: slice_def min_def)
  ultimately show ?thesis using False ls(1) sz by (simp add: read_object_range_def slice_def)
qed

lemma read_object_object:
  assumes "store_inv content dev_inv fs" and "object E fs ob data" and "length data \<le> max_meta_object_size"
  shows "read_object E fs ob = Some (Ok data)"
proof -
  have sz: "o_size ob = length data" using assms(2) by (simp add: object_def)
  have "\<exists>k. check_object fs ob = Some (Ok k)"
  proof (cases "data = []")
    case True
    with assms(2) show ?thesis by (simp add: check_object_def object_def)
  next
    case False
    then obtain ls where "collect_leaves E fs ob = Some (Ok ls)" using object_leaves [OF assms(1,2)] by blast
    then show ?thesis by (auto simp: collect_leaves_def try_then_Ok_iff)
  qed
  moreover have "slice 0 (length data) data = data" by (simp add: slice_def)
  ultimately show ?thesis
    using read_object_range_object [OF assms(1,2), of 0 "length data"] sz assms(3) by (auto simp: read_object_def)
qed


section \<open>Writing\<close>

locale eofs_disk = eofs_hashed E content dev_inv + torn_device "e_dev E" content dev_inv
  for E :: "'d env" and content :: "'d \<Rightarrow> bytes" and dev_inv :: "'d \<Rightarrow> bool" +
  assumes lz4_roundtrip: "e_decompress E (e_compress E bs) (length bs) = Some bs"
    and lz4_nonempty: "bs \<noteq> [] \<Longrightarrow> e_compress E bs \<noteq> []"
    and write_in_range: "dev_inv d \<Longrightarrow> off + length xs \<le> length (content d) \<Longrightarrow> \<exists>d'. d_write (e_dev E) d off xs = (d', Ok ())"
begin

lemma stored_grows:
  assumes "ok_fs fs" "ok_fs fs'" "grows content fs fs'" "same_committed fs fs'" "stored E fs p l"
  shows "stored E fs' p l"
proof -
  have geo: "fs_block_size fs' = fs_block_size fs" "fs_alloc_unit fs' = fs_alloc_unit fs" "fs_device_size fs' = fs_device_size fs"
    using assms(4) by (simp_all add: same_committed_def)
  have rd: "read_block E fs p = Ok l" and sub: "block_bytes fs p \<subseteq> {..<fs_device_size fs} - free_space (fs_alloc fs)"
    using assms(5) by (simp_all add: stored_def)
  note ok = read_block_Ok [OF rd]
  have in_block: "{bp_addr p ..< bp_addr p + bp_psize p} \<subseteq> block_bytes fs p"
    using div_ceil_bounds(1) [OF store_inv_geometry(3) [OF assms(1)], of "bp_psize p"] by (auto simp: block_bytes_def)
  have len: "length (content (fs_dev fs')) = length (content (fs_dev fs))" "length (content (fs_dev fs)) = fs_device_size fs"
    using assms(1,3) by (simp_all add: grows_def store_inv_def)
  have "slice (bp_addr p) (bp_psize p) (content (fs_dev fs')) = slice (bp_addr p) (bp_psize p) (content (fs_dev fs))"
    using assms(3) sub in_block len(1) by (intro slice_eqI) (force simp: grows_def)+
  moreover have "d_read (e_dev E) (fs_dev fs') (bp_addr p) (bp_psize p) = Ok (slice (bp_addr p) (bp_psize p) (content (fs_dev fs')))"
      "d_read (e_dev E) (fs_dev fs) (bp_addr p) (bp_psize p) = Ok (slice (bp_addr p) (bp_psize p) (content (fs_dev fs)))"
    using assms(1,2) ok(8) len by (auto intro!: read_ok simp: store_inv_def)
  ultimately have "read_block E fs' p = read_block E fs p"
    using geo by (simp add: read_block_def cong: option.case_cong)
  moreover have "free_space (fs_alloc fs') \<subseteq> free_space (fs_alloc fs)" using assms(3) by (simp add: grows_def)
  ultimately show ?thesis using assms(5) geo by (auto simp: stored_def block_bytes_def)
qed

lemma tree_at_grows:
  assumes "ok_fs fs" "ok_fs fs'" "grows content fs fs'" "same_committed fs fs'" "tree_at E fs level p ls"
  shows "tree_at E fs' level p ls"
  using assms(5)
proof (induction level arbitrary: p ls)
  case (Suc level)
  then obtain children lss where c: "children \<noteq> []" "list_all ptr_wf children"
    "stored E fs p (concat (map ptr_write children))" "list_all2 (tree_at E fs level) children lss" "ls = concat lss"
    by auto
  from c(4) have "list_all2 (tree_at E fs' level) children lss" by (rule list_all2_mono) (rule Suc.IH)
  with c stored_grows [OF assms(1-4)] show ?case by auto
qed simp

lemma object_grows:
  assumes "ok_fs fs" "ok_fs fs'" "grows content fs fs'" "same_committed fs fs'" "object E fs ob data"
  shows "object E fs' ob data"
proof -
  have "fs_block_size fs' = fs_block_size fs" "fanout fs' = fanout fs"
    using assms(4) by (simp_all add: same_committed_def fanout_def)
  moreover have "list_all2 (stored E fs') ls cs" if "list_all2 (stored E fs) ls cs" for ls cs
    using that by (rule list_all2_mono) (rule stored_grows [OF assms(1-4)])
  ultimately show ?thesis
    using assms(5) tree_at_grows [OF assms(1-4)] unfolding object_def by (metis (no_types, lifting))
qed

lemma write_block_stored:
  assumes "ok_fs fs" and "alloc_aligned (fs_alloc fs)" and "write_block E fs logical = Some (fs', Ok p)"
  shows "stored E fs' p logical" and "bp_addr p \<in> free_space (fs_alloc fs)"
proof -
  from assms(3) obtain c payload al addr dev' where w:
    "logical \<noteq> []" "length logical \<le> fs_block_size fs" "encode_block E (fs_codec fs) logical = (c, payload)"
    "allocate (fs_alloc fs) (length payload) = Some (al, Ok addr)"
    "d_write (e_dev E) (fs_dev fs) addr payload = (dev', Ok ())"
    "fs' = fs\<lparr>fs_alloc := al, fs_dev := dev'\<rparr>"
    "p = \<lparr>bp_addr = addr, bp_lsize = length logical, bp_psize = length payload, bp_codec = c, bp_hash = e_blake3 E logical\<rparr>"
    by (rule write_block_Ok)
  from assms(1) have ai: "alloc_inv eofs_data_start (fs_alloc fs)" and unit: "a_unit (fs_alloc fs) = fs_alloc_unit fs"
    and ds: "a_device_size (fs_alloc fs) = fs_device_size fs" and di: "dev_inv (fs_dev fs)"
    by (auto simp: store_inv_def)
  obtain need where need: "aligned (fs_alloc fs) (length payload) = Some need" "length payload \<le> need" "0 < need"
      "a_unit (fs_alloc fs) dvd need" "alloc_inv eofs_data_start al"
      "{addr ..< addr + need} \<subseteq> free_space (fs_alloc fs)"
      "free_space al = free_space (fs_alloc fs) - {addr ..< addr + need}"
      "alloc_aligned (fs_alloc fs) \<longrightarrow> alloc_aligned al \<and> a_unit (fs_alloc fs) dvd addr"
    by (rule allocate_Ok [OF ai w(4)])
  have pay: "0 < length payload" using w(4) by (cases payload) (auto simp: allocate_def)
  have pl: "length payload \<le> length logical" using w(3) by (auto simp: encode_block_def Let_def split: if_splits)
  have "addr \<in> free_space (fs_alloc fs)" "addr + need - 1 \<in> free_space (fs_alloc fs)" using need(3,6) by auto
  then have addr: "8192 \<le> addr" "addr + need \<le> fs_device_size fs"
    using free_space_bounds [OF ai] ds need(3) by (fastforce simp: eofs_data_start_def slot_size_def)+
  show "bp_addr p \<in> free_space (fs_alloc fs)" using \<open>addr \<in> free_space (fs_alloc fs)\<close> w(7) by simp
  have wr: "addr + length payload \<le> length (content (fs_dev fs))" "content dev' = overwrite addr payload (content (fs_dev fs))"
    using write_ok [OF di w(5)] by auto
  have "d_read (e_dev E) dev' addr (length payload) = Ok (slice addr (length payload) (content dev'))"
    using wr write_inv [OF di w(5)] by (intro read_ok) simp_all
  then have rd: "d_read (e_dev E) dev' addr (length payload) = Ok payload"
    using wr slice_overwrite_same by metis
  have dec: "decode_block E p payload = Ok logical"
    using w(3,7) lz4_roundtrip [of logical] by (auto simp: encode_block_def decode_block_def Let_def split: if_splits)
  have blk: "block_bytes fs' p = {addr ..< addr + need}"
    using need(1) w(6,7) unit by (simp add: block_bytes_def aligned_def times_exec_def split: if_splits)
  have "read_block E fs' p = Ok logical"
    using w(1,2,6,7) pay pl rd dec addr need(2,8) assms(2) unit store_inv_geometry(9) [OF assms(1)]
    by (simp add: read_block_def is_null_def and_then_def eofs_data_start_def slot_size_def checked_add_def mod_eq_0_iff_dvd)
  moreover have "ptr_wf p" using write_block_wf [OF assms(1,3)] by simp
  moreover have "block_bytes fs' p \<subseteq> {..<fs_device_size fs'} - free_space (fs_alloc fs')"
    using blk addr(2) need(7) w(6) by auto
  ultimately show "stored E fs' p logical" by (simp add: stored_def)
qed

end

end
