(* ===== verification/Eofs_Crash.thy ===== *)
theory Eofs_Crash
  imports Eofs_Wf
begin

text \<open>
  Crash consistency of eofs: the uberblock election at mount, what a torn write of a slot can leave
  behind, and the transaction as a whole over the power-cut simulator. The one thing relied on of
  the hash is that a partly overwritten uberblock does not happen to match the checksum that stood
  in its slot (\<open>tear_evident\<close>).
\<close>

section \<open>Environments\<close>

definition mem_env :: "(bytes \<Rightarrow> bytes) \<Rightarrow> (bytes \<Rightarrow> bytes) \<Rightarrow> (bytes \<Rightarrow> nat \<Rightarrow> bytes option) \<Rightarrow> mem_device env" where
  "mem_env h c d = \<lparr>e_dev = mem_device_ops, e_blake3 = h, e_compress = c, e_decompress = d\<rparr>"

definition cut_env :: "(bytes \<Rightarrow> bytes) \<Rightarrow> (bytes \<Rightarrow> bytes) \<Rightarrow> (bytes \<Rightarrow> nat \<Rightarrow> bytes option) \<Rightarrow> mem_device cut_device env" where
  "cut_env h c d = \<lparr>e_dev = cut_ops mem_device_ops, e_blake3 = h, e_compress = c, e_decompress = d\<rparr>"

abbreviation cut_image :: "mem_device cut_device \<Rightarrow> bytes" where
  "cut_image c \<equiv> mem_data (cut_inner c)"

abbreviation cut_inv :: "mem_device cut_device \<Rightarrow> bool" where
  "cut_inv c \<equiv> mem_device_inv (cut_inner c)"

interpretation memfs: eofs_device "mem_env h c d" mem_data mem_device_inv
  by (simp add: eofs_device_def mem_env_def memdev.block_device_axioms)

interpretation cutfs: eofs_device "cut_env h c d" cut_image cut_inv
  by (simp add: eofs_device_def cut_env_def cutdev.block_device_axioms)

text \<open>A hash function is a function to 32 bytes; \<open>fix32\<close> is the identity on those.\<close>

definition fix32 :: "(bytes \<Rightarrow> bytes) \<Rightarrow> bytes \<Rightarrow> bytes" where
  "fix32 h bs = take 32 (h bs @ replicate 32 0)"

lemma fix32_id: "\<forall>bs. length (h bs) = 32 \<Longrightarrow> fix32 h = h"
  by (simp add: fix32_def fun_eq_iff)

interpretation cuthash: eofs_hashed "cut_env (fix32 h) c d" cut_image cut_inv
  by unfold_locales (simp add: cut_env_def fix32_def)


section \<open>The election\<close>

definition slot_at :: "bytes \<Rightarrow> nat \<Rightarrow> bytes" where
  "slot_at img i = slice (slot_offsets ! i) slot_size img"

text \<open>The image holds \<open>ub\<close> in its slot, and nothing as new in the other.\<close>

definition committed_on :: "(bytes \<Rightarrow> bytes) \<Rightarrow> bytes \<Rightarrow> uberblock \<Rightarrow> bool" where
  "committed_on h img ub \<longleftrightarrow>
     classify_slot h (slot_at img (ub_txg ub mod 2)) = Some (Ok (Valid ub)) \<and>
     (\<forall>u. classify_slot h (slot_at img (1 - ub_txg ub mod 2)) = Some (Ok (Valid u)) \<longrightarrow> ub_txg u < ub_txg ub)"

definition ub_fits :: "uberblock \<Rightarrow> nat \<Rightarrow> bool" where
  "ub_fits ub n \<longleftrightarrow> block_size_ok (ub_block_size ub) \<and> alloc_unit_ok (ub_alloc_unit ub) (ub_block_size ub) \<and>
     ub_device_size ub \<le> n \<and> eofs_data_start \<le> ub_frontier ub \<and> ub_frontier ub \<le> n"

lemma elect_slot_mem:
  assumes "mem_device_inv dev" and "i < 2" and "eofs_data_start \<le> length (mem_data dev)"
  shows "elect_slot (mem_env h c d) dev (slot_offsets ! i) el =
    (classify_slot h (slot_at (mem_data dev) i) \<bind> (\<lambda>st. Some (Ok (case st of
        Ok (Valid ub) \<Rightarrow>
          if (case el_best el of None \<Rightarrow> True | Some b \<Rightarrow> ub_txg ub > ub_txg b) then el\<lparr>el_best := Some ub\<rparr> else el
      | Ok NoMagic \<Rightarrow> el
      | Ok Invalid \<Rightarrow> el\<lparr>el_fell_back := True\<rparr>
      | Err e \<Rightarrow> el\<lparr>el_fell_back := True, el_deferred := Some e\<rparr>))))"
proof -
  have "slot_offsets ! i + slot_size \<le> length (mem_data dev)"
    using assms(2,3) by (auto simp: slot_offsets_def slot_size_def eofs_data_start_def less_2_cases_iff)
  with assms(1) have "mem_device_read dev (slot_offsets ! i) slot_size = Ok (slot_at (mem_data dev) i)"
    by (simp add: mem_device_read_Ok mem_device_inv_def slot_at_def)
  then show ?thesis by (simp add: elect_slot_def mem_env_def mem_device_ops_def)
qed

lemma mount_committed:
  assumes "mem_device_inv dev" and "committed_on h (mem_data dev) ub" and "ub_fits ub (length (mem_data dev))"
  shows "\<exists>rep. mount_with_report (mem_env h c d) dev = Some (Ok (mounted dev (length (mem_data dev)) ub, rep)) \<and>
    mr_txg rep = ub_txg ub"
proof -
  let ?E = "mem_env h c d" and ?el = "\<lparr>el_best = None, el_deferred = None, el_fell_back = False\<rparr>"
  have big: "eofs_data_start \<le> length (mem_data dev)" using assms(3) by (simp add: ub_fits_def)
  note el = elect_slot_mem [OF assms(1) _ big, of _ h c d]
  have offs: "slot_offsets = [slot_offsets ! 0, slot_offsets ! 1]" by (simp add: slot_offsets_def)
  have "\<exists>e. fold_try (elect_slot ?E dev) [slot_offsets ! 0, slot_offsets ! 1] ?el = Some (Ok e) \<and> el_best e = Some ub"
  proof (cases "ub_txg ub mod 2 = 0")
    case True
    with assms(2) have c0: "classify_slot h (slot_at (mem_data dev) 0) = Some (Ok (Valid ub))"
      and c1: "\<And>u. classify_slot h (slot_at (mem_data dev) 1) = Some (Ok (Valid u)) \<Longrightarrow> ub_txg u < ub_txg ub"
      by (simp_all add: committed_on_def)
    obtain st where st: "classify_slot h (slot_at (mem_data dev) 1) = Some st"
      using classify_slot_returns by blast
    with c0 c1 show ?thesis
      by (cases st) (auto simp: el [of 0] el [of "Suc 0"] split: slot_state.splits)
  next
    case False
    then have odd: "ub_txg ub mod 2 = 1" by simp
    with assms(2) have c1: "classify_slot h (slot_at (mem_data dev) 1) = Some (Ok (Valid ub))"
      and c0: "\<And>u. classify_slot h (slot_at (mem_data dev) 0) = Some (Ok (Valid u)) \<Longrightarrow> ub_txg u < ub_txg ub"
      by (simp_all add: committed_on_def)
    obtain st where st: "classify_slot h (slot_at (mem_data dev) 0) = Some st"
      using classify_slot_returns by blast
    with c0 c1 show ?thesis
      by (cases st) (auto simp: el [of 0] el [of "Suc 0"] split: slot_state.splits)
  qed
  then obtain e where "fold_try (elect_slot ?E dev) slot_offsets ?el = Some (Ok e)" "el_best e = Some ub"
    using offs by metis
  moreover have "d_size (e_dev ?E) dev = length (mem_data dev)"
    by (simp add: mem_env_def mem_device_ops_def mem_device_size_def)
  ultimately show ?thesis
    using assms(3) big by (simp add: mount_with_report_def Let_def ub_fits_def)
qed


section \<open>Torn slots\<close>

definition tear :: "nat \<Rightarrow> 'a list \<Rightarrow> 'a list \<Rightarrow> 'a list" where
  "tear k new old = take k new @ drop k old"

text \<open>
  The checksum stored in a slot matches no partly overwritten body of it: what a collision-free
  hash guarantees of the finitely many torn bodies.
\<close>

definition tear_evident :: "(bytes \<Rightarrow> bytes) \<Rightarrow> bytes \<Rightarrow> bytes \<Rightarrow> bool" where
  "tear_evident h new old \<longleftrightarrow>
     (\<forall>k \<le> 192. h (tear k (take 192 new) (take 192 old)) = slice 192 32 old \<longrightarrow>
        tear k (take 192 new) (take 192 old) = take 192 old)"

lemma take_tear: "k \<le> length new \<Longrightarrow> take n (tear k new old) = tear k (take n new) (take n old)"
  by (simp add: tear_def take_drop min_def)

lemma classify_Invalid:
  "h (take 192 s) \<noteq> slice 192 32 s \<Longrightarrow> classify_slot h s = Some (Ok NoMagic) \<or> classify_slot h s = Some (Ok Invalid)"
  by (simp add: classify_slot_def uberblock_body_size_def slice_def)

lemma torn_slot:
  assumes "length old = 4096" and "length new = 4096" and "k \<le> 4096" and "tear_evident h new old"
    and "h (take 192 new) = slice 192 32 new"
  shows "classify_slot h (tear k new old) \<in>
    {classify_slot h old, classify_slot h new, Some (Ok NoMagic), Some (Ok Invalid)}"
proof -
  let ?s = "tear k new old"
  have len: "length ?s = 4096" using assms(1-3) by (simp add: tear_def)
  consider (late) "224 \<le> k" | (mid) "192 \<le> k" "k < 224" | (early) "k < 192" by linarith
  then show ?thesis
  proof cases
    case late
    then have "take 224 ?s = take 224 new" using assms(1-3) by (simp add: take_tear) (simp add: tear_def)
    then show ?thesis using classify_slot_prefix [of ?s new h] len assms(2) by simp
  next
    case mid
    then have body: "take 192 ?s = take 192 new" using assms(1-3) by (simp add: take_tear) (simp add: tear_def)
    show ?thesis
    proof (cases "h (take 192 ?s) = slice 192 32 ?s")
      case True
      with body assms(5) have "slice 192 32 ?s = slice 192 32 new" by simp
      with body have "take 192 ?s @ slice 192 32 ?s = take 192 new @ slice 192 32 new" by simp
      then have "take 224 ?s = take 224 new"
        by (simp add: slice_def flip: take_add)
      then show ?thesis using classify_slot_prefix [of ?s new h] len assms(2) by simp
    next
      case False
      then show ?thesis using classify_Invalid by blast
    qed
  next
    case early
    then have body: "take 192 ?s = tear k (take 192 new) (take 192 old)" and sum: "slice 192 32 ?s = slice 192 32 old"
      using assms(1-3) by (simp_all add: take_tear) (simp add: tear_def slice_def)
    show ?thesis
    proof (cases "h (take 192 ?s) = slice 192 32 ?s")
      case True
      with body sum early assms(4) have "take 192 ?s = take 192 old"
        unfolding tear_evident_def by auto
      with sum have "take 192 ?s @ slice 192 32 ?s = take 192 old @ slice 192 32 old" by simp
      then have "take 224 ?s = take 224 old"
        by (simp add: slice_def flip: take_add)
      then show ?thesis using classify_slot_prefix [of ?s old h] len assms(1) by simp
    next
      case False
      then show ?thesis using classify_Invalid by blast
    qed
  qed
qed


section \<open>Commit\<close>

lemma slot_offset_nth: "i < 2 \<Longrightarrow> slot_offsets ! i = i * 4096"
  by (auto simp: slot_offsets_def slot_size_def less_2_cases_iff)

lemma slot_at_overwrite_same:
  assumes "i < 2" "8192 \<le> length img" "k \<le> length new" "length new = 4096"
  shows "slot_at (overwrite (i * 4096) (take k new) img) i = tear k new (slot_at img i)"
proof -
  have "i * 4096 + 4096 \<le> length img" using assms(1,2) by (simp add: less_2_cases_iff) linarith
  with assms show ?thesis
    by (simp add: slot_at_def slot_offset_nth slot_size_def overwrite_def tear_def slice_def min_def drop_take)
      (simp add: add.commute)
qed

lemma slot_at_overwrite_other:
  assumes "i < 2" "8192 \<le> length img" "length xs \<le> 4096"
  shows "slot_at (overwrite (i * 4096) xs img) (1 - i) = slot_at img (1 - i)"
proof -
  from assms(1) consider "i = 0" | "i = 1" by linarith
  then show ?thesis
  proof cases
    case 1
    with assms show ?thesis
      by (simp add: slot_at_def slot_offsets_def slot_size_def) (rule slice_overwrite_other, simp_all)
  next
    case 2
    with assms show ?thesis
      by (simp add: slot_at_def slot_offsets_def slot_size_def) (rule slice_overwrite_other, simp_all)
  qed
qed

lemma drop_overwrite_slot:
  assumes "i < 2" "8192 \<le> length img" "length xs \<le> 4096"
  shows "drop 8192 (overwrite (i * 4096) xs img) = drop 8192 img"
proof -
  have "i * 4096 + length xs \<le> 8192" using assms(1,3) by (simp add: less_2_cases_iff) linarith
  then show ?thesis using assms(2) by (simp add: overwrite_def drop_take)
qed

text \<open>A write of a new uberblock that stops after \<open>k\<close> bytes leaves the old state or the new one.\<close>

lemma torn_commit:
  assumes "committed_on h img ub" and "ub_txg new = ub_txg ub + 1" and "8192 \<le> length img"
    and "ub_wf new" and "\<forall>bs. length (h bs) = 32" and "k \<le> 4096"
    and "tear_evident h (to_slot_bytes h new) (slot_at img (ub_txg new mod 2))"
  defines "img' \<equiv> overwrite (ub_txg new mod 2 * 4096) (take k (to_slot_bytes h new)) img"
  shows "(committed_on h img' ub \<or> committed_on h img' new) \<and> (k = 4096 \<longrightarrow> committed_on h img' new)"
proof -
  let ?i = "ub_txg new mod 2" and ?s = "to_slot_bytes h new"
  have i: "?i < 2" "ub_txg ub mod 2 = 1 - ?i" "1 - ub_txg ub mod 2 = ?i"
    using assms(2) by (simp_all add: mod_Suc)
  have len: "length ?s = 4096" using assms(4,5) by simp
  have old_len: "length (slot_at img ?i) = 4096"
    using assms(3) i(1) by (auto simp: slot_at_def slot_offset_nth slot_size_def slice_def less_2_cases_iff)
  have sum: "h (take 192 ?s) = slice 192 32 ?s"
    using assms(4,5) by (simp add: to_slot_bytes_def layout_simps)
  have same: "slot_at img' ?i = tear k ?s (slot_at img ?i)" and other: "slot_at img' (1 - ?i) = slot_at img (1 - ?i)"
    using slot_at_overwrite_same [OF i(1) assms(3), of k ?s] slot_at_overwrite_other [OF i(1) assms(3), of "take k ?s"]
      len assms(6) by (simp_all add: img'_def)
  have new_valid: "classify_slot h ?s = Some (Ok (Valid new))"
    using assms(4,5) by (intro classify_to_slot) simp_all
  have other_valid: "classify_slot h (slot_at img' (1 - ?i)) = Some (Ok (Valid ub))"
    using assms(1) other i(2) by (simp add: committed_on_def)
  have to_new: "committed_on h img' new" if "classify_slot h (slot_at img' ?i) = Some (Ok (Valid new))"
    using that other_valid assms(2) by (simp add: committed_on_def)
  have to_old: "committed_on h img' ub"
    if "\<And>u. classify_slot h (slot_at img' ?i) = Some (Ok (Valid u)) \<Longrightarrow> ub_txg u < ub_txg ub"
    using that other_valid i(2,3) by (simp add: committed_on_def)
  have "classify_slot h (slot_at img' ?i) \<in>
      {classify_slot h (slot_at img ?i), Some (Ok (Valid new)), Some (Ok NoMagic), Some (Ok Invalid)}"
    using torn_slot [OF old_len len assms(6,7) sum] new_valid same by simp
  then have "committed_on h img' ub \<or> committed_on h img' new"
    using assms(1) i(3) to_new to_old by (auto simp: committed_on_def)
  moreover have "committed_on h img' new" if "k = 4096"
    using to_new new_valid same len that old_len by (simp add: tear_def)
  ultimately show ?thesis by blast
qed

text \<open>The same for the whole operation, over a device that may lose power at any write.\<close>

lemma commit_cut:
  assumes "store_inv cut_image cut_inv fs" and "commit (cut_env h c d) fs = Some (fs', r)" and "fs_dirty fs"
    and "committed_on h (cut_image (fs_dev fs)) ub" and "ub_txg ub = fs_committed_txg fs"
    and "ub_wf (fs_uberblock fs (fs_committed_txg fs + 1))" and "\<forall>bs. length (h bs) = 32"
    and "tear_evident h (to_slot_bytes h (fs_uberblock fs (fs_committed_txg fs + 1)))
          (slot_at (cut_image (fs_dev fs)) ((fs_committed_txg fs + 1) mod 2))"
    and "8192 \<le> fs_device_size fs"
  defines "img' \<equiv> cut_image (fs_dev fs')"
  shows "cut_inv (fs_dev fs') \<and> length img' = length (cut_image (fs_dev fs)) \<and>
    drop 8192 img' = drop 8192 (cut_image (fs_dev fs)) \<and>
    (committed_on h img' ub \<or> committed_on h img' (fs_uberblock fs (fs_committed_txg fs + 1))) \<and>
    (is_ok r \<longrightarrow> r = Ok (fs_committed_txg fs + 1) \<and> committed_on h img' (fs_uberblock fs (fs_committed_txg fs + 1)))"
proof -
  let ?img = "cut_image (fs_dev fs)" and ?new = "fs_uberblock fs (fs_committed_txg fs + 1)"
  let ?i = "(fs_committed_txg fs + 1) mod 2"
  let ?off = "slot_offsets ! ?i" and ?s = "to_slot_bytes h ?new"
  have dev: "e_dev (cut_env h c d) = cut_ops mem_device_ops" "e_blake3 (cut_env h c d) = h"
    by (simp_all add: cut_env_def)
  have inv: "cut_inv (fs_dev fs)" and big: "8192 \<le> length ?img"
    using assms(1,9) by (simp_all add: store_inv_def)
  obtain d1 r1 where f1: "d_flush (cut_ops mem_device_ops) (fs_dev fs) = (d1, r1)" by fastforce
  have d1: "cut_inv d1" "cut_image d1 = ?img"
    using cutdev.flush_inv [OF inv f1] cutdev.flush_content [OF inv f1] by auto
  have off: "?off = ?i * 4096" by (simp add: slot_offset_nth)
  have len: "length ?s = 4096" using assms(6,7) by simp
  have txg: "ub_txg ?new = fs_committed_txg fs + 1" by (simp add: fs_uberblock_def)
  show ?thesis
  proof (cases r1)
    case (Err e)
    with assms(2,3) f1 dev have "fs' = fs\<lparr>fs_dev := d1\<rparr>" "r = Err (FsDevice e)"
      by (simp_all add: commit_def dev_flush_def)
    with d1 assms(4) show ?thesis by (simp add: img'_def)
  next
    case (Ok u)
    obtain d2 r2 where w: "d_write (cut_ops mem_device_ops) d1 ?off ?s = (d2, r2)" by fastforce
    have d2: "cut_inv d2" by (rule cutdev.write_inv [OF d1(1) w])
    have "\<exists>k \<le> 4096. cut_image d2 = overwrite (?i * 4096) (take k ?s) ?img \<and> (is_ok r2 \<longrightarrow> k = 4096)"
    proof (cases r2)
      case (Ok u2)
      with cutdev.write_ok [OF d1(1)] w d1 off len show ?thesis by (intro exI [of _ 4096]) auto
    next
      case (Err e2)
      from cutdev.write_prefix [OF d1(1) w [unfolded Err]] d1(2) off len obtain k
        where "k \<le> 4096" "cut_image d2 = overwrite (?i * 4096) (take k ?s) ?img" by auto
      with Err show ?thesis by auto
    qed
    then obtain k where k: "k \<le> 4096" "cut_image d2 = overwrite (?i * 4096) (take k ?s) ?img" "is_ok r2 \<longrightarrow> k = 4096"
      by blast
    have torn: "(committed_on h (cut_image d2) ub \<or> committed_on h (cut_image d2) ?new) \<and>
        (k = 4096 \<longrightarrow> committed_on h (cut_image d2) ?new)"
      using torn_commit [OF assms(4) _ big assms(6,7) k(1)] assms(5,8) txg k(2) by simp
    have rest: "drop 8192 (cut_image d2) = drop 8192 ?img" "length (cut_image d2) = length ?img"
      using drop_overwrite_slot [of ?i ?img "take k ?s"] big len k(2) cutdev.write_length [OF d1(1) w] d1 by simp_all
    have img': "cut_image (fs_dev fs') = cut_image d2" "cut_inv (fs_dev fs')"
        "is_ok r \<longrightarrow> is_ok r2 \<and> r = Ok (fs_committed_txg fs + 1)"
    proof -
      have plus: "fs_committed_txg fs + 1 < 2 ^ 64"
        using assms(6) txg by (simp add: ub_wf_def)
      have ub1: "fs_uberblock (fs\<lparr>fs_dev := d1\<rparr>) (fs_committed_txg fs + 1) = ?new"
        by (simp add: fs_uberblock_def)
      have st: "commit (cut_env h c d) fs = io_then (dev_write (cut_env h c d) (fs\<lparr>fs_dev := d1\<rparr>) ?off ?s) (\<lambda>fs2 _.
          io_then (dev_flush (cut_env h c d) fs2) (\<lambda>fs3 _.
          Some (fs3\<lparr>fs_committed_txg := fs_committed_txg fs + 1, fs_committed_live_root := fs_live_root fs3,
                    fs_committed_snapshots := fs_snapshots fs3, fs_dirty := False\<rparr>, Ok (fs_committed_txg fs + 1))))"
        using assms(3) f1 dev Ok plus ub1 by (simp add: commit_def dev_flush_def plus_exec_def)
      obtain d3 r3 where f3: "d_flush (cut_ops mem_device_ops) d2 = (d3, r3)" by fastforce
      note d3 = cutdev.flush_inv [OF d2 f3] cutdev.flush_content [OF d2 f3]
      show "cut_image (fs_dev fs') = cut_image d2" "cut_inv (fs_dev fs')"
          "is_ok r \<longrightarrow> is_ok r2 \<and> r = Ok (fs_committed_txg fs + 1)"
        using assms(2) st w f3 dev d2 d3
        by (cases r2; cases r3; auto simp: dev_write_def dev_flush_def)+
    qed
    with torn rest k(3) show ?thesis by (auto simp: img'_def)
  qed
qed


section \<open>Transactions and power cuts\<close>

text \<open>The state of a filesystem whose last committed uberblock \<open>ub\<close> stands on its device.\<close>

definition on_disk :: "(bytes \<Rightarrow> bytes) \<Rightarrow> mem_device cut_device eofs \<Rightarrow> uberblock \<Rightarrow> bool" where
  "on_disk h fs ub \<longleftrightarrow> store_inv cut_image cut_inv fs \<and> roots_wf fs \<and>
     committed_on h (cut_image (fs_dev fs)) ub \<and> ub_fits ub (fs_device_size fs) \<and>
     ub_txg ub = fs_committed_txg fs \<and> ub_live_root ub = fs_committed_live_root fs \<and>
     ub_snapshots ub = fs_committed_snapshots fs \<and> fs_format_device_size fs \<le> fs_device_size fs"

text \<open>The device as the next boot finds it.\<close>

definition after_reboot :: "mem_device cut_device eofs \<Rightarrow> mem_device" where
  "after_reboot fs = cut_inner (fs_dev fs)"

lemma grows_slots:
  assumes "store_inv cut_image cut_inv fs" and "grows cut_image fs fs'" and "8192 \<le> fs_device_size fs" and "i < 2"
  shows "slot_at (cut_image (fs_dev fs')) i = slot_at (cut_image (fs_dev fs)) i"
  unfolding slot_at_def
proof (rule slice_eqI)
  show "length (cut_image (fs_dev fs')) = length (cut_image (fs_dev fs))" using assms(2) by (simp add: grows_def)
  fix j assume j: "slot_offsets ! i \<le> j" "j < slot_offsets ! i + slot_size" "j < length (cut_image (fs_dev fs'))"
  then have "j < eofs_data_start"
    using assms(4) by (auto simp: slot_offset_nth slot_size_def eofs_data_start_def less_2_cases_iff)
  then have "j \<notin> free_space (fs_alloc fs)"
    using free_space_bounds(1) [of eofs_data_start "fs_alloc fs" j] assms(1) by (auto simp: store_inv_def)
  then show "cut_image (fs_dev fs') ! j = cut_image (fs_dev fs) ! j"
    using assms(2) j(3) by (simp add: grows_def)
qed

lemma on_disk_run:
  assumes "on_disk h fs ub" and "fs_run (cut_env h c d) fs ops = Some fs'" and "\<forall>bs. length (h bs) = 32"
  shows "on_disk h fs' ub \<and> grows cut_image fs fs' \<and> same_committed fs fs'"
proof -
  have inv: "store_inv cut_image cut_inv fs" and rw: "roots_wf fs" and big: "8192 \<le> fs_device_size fs"
    using assms(1) by (auto simp: on_disk_def ub_fits_def eofs_data_start_def slot_size_def)
  have run: "fs_run (cut_env (fix32 h) c d) fs ops = Some fs'"
    using assms(2) fix32_id [OF assms(3)] by simp
  note g = cutfs.fs_run_grows [OF inv run] and w = cuthash.fs_run_wf [OF inv run rw]
  have "slot_at (cut_image (fs_dev fs')) i = slot_at (cut_image (fs_dev fs)) i" if "i < 2" for i
    using grows_slots [OF inv _ big that] g by blast
  then have "committed_on h (cut_image (fs_dev fs')) ub \<longleftrightarrow> committed_on h (cut_image (fs_dev fs)) ub"
    by (simp add: committed_on_def)
  with assms(1) g w show ?thesis by (simp add: on_disk_def same_committed_def)
qed

lemma fs_uberblock_wf:
  assumes "store_inv cut_image cut_inv fs" and "roots_wf fs" and "txg < 2 ^ 64"
    and "fs_format_device_size fs \<le> fs_device_size fs"
  shows "ub_wf (fs_uberblock fs txg)" and "ub_fits (fs_uberblock fs txg) (fs_device_size fs)"
proof -
  from assms(1) have sz: "fs_device_size fs < 2 ^ 64" "a_frontier (fs_alloc fs) \<le> fs_device_size fs"
      "eofs_data_start \<le> a_frontier (fs_alloc fs)"
    using extents_ok_le by (auto simp: store_inv_def alloc_inv_def)
  from assms(1) have "fs_block_size fs \<le> 2 ^ 20" "fs_alloc_unit fs \<le> 4096"
    by (auto simp: store_inv_def block_size_ok_def alloc_unit_ok_def)
  with assms sz show "ub_wf (fs_uberblock fs txg)"
    by (simp add: ub_wf_def fs_uberblock_def roots_wf_def)
  from assms sz show "ub_fits (fs_uberblock fs txg) (fs_device_size fs)"
    by (simp add: ub_fits_def fs_uberblock_def store_inv_def)
qed

lemma mount_after_reboot:
  assumes "cut_inv (fs_dev fs)" and "committed_on h (cut_image (fs_dev fs)) ub"
    and "ub_fits ub (length (cut_image (fs_dev fs)))"
  shows "mount (mem_env h c d) (after_reboot fs) =
    Some (Ok (mounted (after_reboot fs) (length (cut_image (fs_dev fs))) ub))"
  using mount_committed [of "after_reboot fs" h ub c d] assms
  by (auto simp: mount_def after_reboot_def)

section \<open>A concrete transaction\<close>

text \<open>A device of 16 KiB that loses power in its second write, after 100 bytes.\<close>

definition demo_hash :: "bytes \<Rightarrow> bytes" where
  "demo_hash bs = take 32 (bs @ replicate 32 0)"

definition demo_ub :: "nat \<Rightarrow> uberblock" where
  "demo_ub txg = \<lparr>ub_block_size = 512, ub_alloc_unit = 512, ub_codec = Raw, ub_txg = txg, ub_frontier = 8192,
     ub_device_size = 16384, ub_live_root = empty_obj, ub_snapshots = empty_obj\<rparr>"

definition demo_image :: bytes where
  "demo_image = to_slot_bytes demo_hash (demo_ub 2) @ to_slot_bytes demo_hash (demo_ub 1) @ replicate 8192 0"

definition demo_fs :: "mem_device cut_device eofs" where
  "demo_fs = mounted (cut_after \<lparr>mem_data = demo_image\<rparr> 1 100) 16384 (demo_ub 2)"

lemma length_demo_hash [simp]: "length (demo_hash bs) = 32"
  by (simp add: demo_hash_def)

lemma demo_ub_wf [simp]: "txg < 2 ^ 64 \<Longrightarrow> ub_wf (demo_ub txg)"
  by (simp add: ub_wf_def demo_ub_def)

lemma length_demo_image [simp]: "length demo_image = 16384"
  by (simp add: demo_image_def)


abbreviation "demo_env \<equiv> cut_env demo_hash id (\<lambda>_ _. None)"

lemma demo_write:
  assumes "0 < length bs" "length bs \<le> 512"
  shows "write_block demo_env demo_fs bs =
    Some (demo_fs\<lparr>fs_alloc := fs_alloc demo_fs\<lparr>a_frontier := 8704\<rparr>,
        fs_dev := \<lparr>cut_inner = \<lparr>mem_data = overwrite 8192 bs demo_image\<rparr>, cut_remaining = Some 0, cut_tear = 100, cut_dead = False, cut_writes = 1\<rparr>\<rparr>,
      Ok \<lparr>bp_addr = 8192, bp_lsize = length bs, bp_psize = length bs, bp_codec = Raw, bp_hash = demo_hash bs\<rparr>)"
proof -
  have "div_ceil (length bs) 512 = 1"
    using assms div_ceil_le_iff [of 512 "length bs" 1] div_ceil_pos [of 512 "length bs"] by simp
  then have "allocate (fs_alloc demo_fs) (length bs) = Some (fs_alloc demo_fs\<lparr>a_frontier := 8704\<rparr>, Ok 8192)"
    using assms by (simp add: allocate_def aligned_def demo_fs_def mounted_def demo_ub_def allocator_new_def times_exec_def checked_add_def)
  moreover have "mem_device_write \<lparr>mem_data = demo_image\<rparr> 8192 bs = (\<lparr>mem_data = overwrite 8192 bs demo_image\<rparr>, Ok ())"
    using assms by (subst mem_device_write_Ok) (simp_all add: mem_device_inv_def)
  ultimately show ?thesis
    using assms by (simp add: write_block_def demo_fs_def mounted_def demo_ub_def Let_def encode_block_def cut_env_def cut_ops_def
      cut_after_def cut_write_def mem_device_ops_def)
qed

lemma demo_run:
  "\<exists>fs1 fs2 e. fs_run demo_env demo_fs [OpMkdir [0x61]] = Some fs1 \<and>
     commit demo_env fs1 = Some (fs2, Err e) \<and> fs_dirty fs1 \<and> fs_live_root fs1 \<noteq> empty_obj"
proof -
  let ?bs = "dir_entry_bytes \<lparr>de_name = [0x61], de_kind = Directory, de_obj = empty_obj\<rparr>"
  have len: "length ?bs = 77" by (simp add: dir_entry_bytes_def)
  have sd: "store_dir demo_env demo_fs [\<lparr>de_name = [0x61], de_kind = Directory, de_obj = empty_obj\<rparr>] =
      io_then (write_block demo_env demo_fs ?bs) (\<lambda>fs1 p. Some (fs1, Ok \<lparr>o_size = 77, o_level = 0, o_root = p\<rparr>))"
    using len by (simp add: store_dir_def serialize_dir_def max_name_len_def max_meta_object_size_def write_object_one_block
        demo_fs_def mounted_def demo_ub_def Let_def flip: length_greater_0_conv)
  have lr: "fs_live_root demo_fs = empty_obj" by (simp add: demo_fs_def mounted_def demo_ub_def)
  obtain fs1 where fs1: "fs_run demo_env demo_fs [OpMkdir [0x61]] = Some fs1"
     "fs1 = demo_fs\<lparr>fs_alloc := fs_alloc demo_fs\<lparr>a_frontier := 8704\<rparr>,
        fs_dev := \<lparr>cut_inner = \<lparr>mem_data = overwrite 8192 ?bs demo_image\<rparr>, cut_remaining = Some 0, cut_tear = 100, cut_dead = False, cut_writes = 1\<rparr>,
        fs_live_root := \<lparr>o_size = 77, o_level = 0, o_root = \<lparr>bp_addr = 8192, bp_lsize = 77, bp_psize = 77, bp_codec = Raw, bp_hash = demo_hash ?bs\<rparr>\<rparr>,
        fs_dirty := True\<rparr>"
    using demo_write [of ?bs] len
    by (simp add: mkdir_def create_node_def split_path_def check_name_def max_name_len_def and_then_def lr apply_op_def sd set_live_root_def)
  have "\<exists>fs2 e. commit demo_env fs1 = Some (fs2, Err e)"
    by (simp add: fs1(2) commit_def dev_flush_def dev_write_def cut_env_def cut_ops_def cut_flush_def mem_device_ops_def
        mem_device_flush_def demo_fs_def mounted_def demo_ub_def plus_exec_def cut_write_def Let_def mem_device_write_def
        check_range_eq split: prod.splits result.splits)
  then show ?thesis using fs1 by (auto simp: empty_obj_def)
qed

lemma demo_slots [simp]:
  "slot_at demo_image 0 = to_slot_bytes demo_hash (demo_ub 2)"
  "slot_at demo_image (Suc 0) = to_slot_bytes demo_hash (demo_ub 1)"
  by (simp_all add: slot_at_def slot_offsets_def slot_size_def demo_image_def slice_def)

lemma demo_on_disk: "on_disk demo_hash demo_fs (demo_ub 2)"
proof -
  have cl: "classify_slot demo_hash (to_slot_bytes demo_hash (demo_ub n)) = Some (Ok (Valid (demo_ub n)))" if "n < 2 ^ 64" for n
    using that by (intro classify_to_slot) simp_all
  have bs: "block_size_ok 512" "alloc_unit_ok 512 512"
    by (simp_all add: block_size_ok_def alloc_unit_ok_def power_of_two_def upt_rec)
  have "committed_on demo_hash demo_image (demo_ub 2)"
    using cl [of 2] cl [of 1] by (simp add: committed_on_def) (simp add: demo_ub_def)
  then show ?thesis
    using bs by (simp add: on_disk_def demo_fs_def mounted_def cut_after_def store_inv_def mem_device_inv_def
        alloc_inv_def allocator_new_def demo_ub_def roots_wf_def ub_fits_def eofs_data_start_def slot_size_def)
qed

lemma demo_tear:
  assumes "ub_wf new" and "take 24 (ub_body new) = take 24 (ub_body old)" and "ub_wf old"
    and "ub_body new ! 24 \<noteq> ub_body old ! 24"
  shows "tear_evident demo_hash (to_slot_bytes demo_hash new) (to_slot_bytes demo_hash old)"
  unfolding tear_evident_def
proof (intro allI impI)
  let ?n = "ub_body new" and ?o = "ub_body old"
  have b: "take 192 (to_slot_bytes demo_hash new) = ?n" "take 192 (to_slot_bytes demo_hash old) = ?o"
    "slice 192 32 (to_slot_bytes demo_hash old) = take 32 ?o"
    using assms(1,3) by (simp_all add: to_slot_bytes_def layout_simps demo_hash_def)
  fix k :: nat assume k: "k \<le> 192" and eq: "demo_hash (tear k (take 192 (to_slot_bytes demo_hash new)) (take 192 (to_slot_bytes demo_hash old))) =
      slice 192 32 (to_slot_bytes demo_hash old)"
  then have eq32: "take 32 (tear k ?n ?o) = take 32 ?o"
    using b assms(1,3) by (simp add: demo_hash_def tear_def)
  have "k \<le> 24"
  proof (rule ccontr)
    assume "\<not> k \<le> 24"
    then have "take 32 (tear k ?n ?o) ! 24 = ?n ! 24"
      using assms(1) k by (simp add: tear_def nth_append)
    with eq32 assms(4) show False by simp
  qed
  then have "take k ?n = take k ?o" using assms(2) by (metis min.absorb1 take_take)
  then have "tear k ?n ?o = ?o" by (simp add: tear_def)
  then show "tear k (take 192 (to_slot_bytes demo_hash new)) (take 192 (to_slot_bytes demo_hash old)) =
      take 192 (to_slot_bytes demo_hash old)"
    using b by simp
qed

lemma le_encode_first: "0 < n \<Longrightarrow> le_encode n v ! 0 = word_of_nat (v mod 256)"
  by (cases n) simp_all


section \<open>Crash consistency\<close>

text \<open>
  C2: crash consistency. Take a filesystem whose last commit stands on its device, run any
  operations on it, then commit, over a device that loses power at any write, tearing it after any
  number of bytes. Before the commit the next boot mounts the last committed transaction; after
  it, that one or the new one, and the new one when the commit reported success. In each case the
  mounted transaction finds its blocks as they were: no byte outside the free space of the
  old state has changed, and the new one finds every byte written before its commit.
\<close>

theorem crash_consistency:
  assumes "on_disk h fs ub" and "\<forall>bs. length (h bs) = 32"
    and "fs_run (cut_env h c d) fs ops = Some fs1" and "commit (cut_env h c d) fs1 = Some (fs2, r)"
    and "fs_dirty fs1" and "fs_committed_txg fs + 1 < 2 ^ 64"
    and "tear_evident h (to_slot_bytes h (fs_uberblock fs1 (fs_committed_txg fs + 1)))
          (slot_at (cut_image (fs_dev fs)) ((fs_committed_txg fs + 1) mod 2))"
  shows "mount (mem_env h c d) (after_reboot fs1) = Some (Ok (mounted (after_reboot fs1) (fs_device_size fs) ub)) \<and>
    (\<exists>ub'. mount (mem_env h c d) (after_reboot fs2) = Some (Ok (mounted (after_reboot fs2) (fs_device_size fs) ub')) \<and>
      (ub' = ub \<or> ub' = fs_uberblock fs1 (fs_committed_txg fs + 1)) \<and>
      (is_ok r \<longrightarrow> ub' = fs_uberblock fs1 (fs_committed_txg fs + 1))) \<and>
    drop 8192 (cut_image (fs_dev fs2)) = drop 8192 (cut_image (fs_dev fs1)) \<and>
    (\<forall>i. 8192 \<le> i \<longrightarrow> i < fs_device_size fs \<longrightarrow> i \<notin> free_space (fs_alloc fs) \<longrightarrow>
      cut_image (fs_dev fs2) ! i = cut_image (fs_dev fs) ! i)"
proof -
  let ?new = "fs_uberblock fs1 (fs_committed_txg fs + 1)"
  have run: "on_disk h fs1 ub" "grows cut_image fs fs1" "same_committed fs fs1"
    using on_disk_run [OF assms(1,3,2)] by blast+
  have inv: "store_inv cut_image cut_inv fs" "store_inv cut_image cut_inv fs1" and fits: "ub_fits ub (fs_device_size fs)"
    and rw: "roots_wf fs1" and fmt: "fs_format_device_size fs1 \<le> fs_device_size fs1"
    and com: "committed_on h (cut_image (fs_dev fs1)) ub" "ub_txg ub = fs_committed_txg fs1"
    using assms(1) run(1) by (auto simp: on_disk_def)
  have same: "fs_device_size fs1 = fs_device_size fs" "fs_committed_txg fs1 = fs_committed_txg fs"
    using run(3) by (simp_all add: same_committed_def)
  have big: "8192 \<le> fs_device_size fs1"
    using fits same by (simp add: ub_fits_def eofs_data_start_def slot_size_def)
  have size: "length (cut_image (fs_dev fs)) = fs_device_size fs" "length (cut_image (fs_dev fs1)) = fs_device_size fs"
    using inv same by (simp_all add: store_inv_def)
  note new = fs_uberblock_wf [OF inv(2) rw assms(6) fmt]
  have slot: "slot_at (cut_image (fs_dev fs1)) ((fs_committed_txg fs + 1) mod 2) =
      slot_at (cut_image (fs_dev fs)) ((fs_committed_txg fs + 1) mod 2)"
    using grows_slots [OF inv(1) run(2)] big same by simp
  have cc: "cut_inv (fs_dev fs2)" "length (cut_image (fs_dev fs2)) = fs_device_size fs"
      "drop 8192 (cut_image (fs_dev fs2)) = drop 8192 (cut_image (fs_dev fs1))"
      "committed_on h (cut_image (fs_dev fs2)) ub \<or> committed_on h (cut_image (fs_dev fs2)) ?new"
      "is_ok r \<longrightarrow> committed_on h (cut_image (fs_dev fs2)) ?new"
    using commit_cut [OF inv(2) assms(4,5) com _ assms(2) _ big] new(1) assms(7) slot same size by auto
  have "\<exists>ub'. mount (mem_env h c d) (after_reboot fs2) = Some (Ok (mounted (after_reboot fs2) (fs_device_size fs) ub')) \<and>
      (ub' = ub \<or> ub' = ?new) \<and> (is_ok r \<longrightarrow> ub' = ?new)"
    using mount_after_reboot [OF cc(1), of h _ c d] cc(2,4,5) fits new(2) same by metis
  moreover have "mount (mem_env h c d) (after_reboot fs1) = Some (Ok (mounted (after_reboot fs1) (fs_device_size fs) ub))"
    using mount_after_reboot [OF _ com(1), of c d] inv(2) fits size by (simp add: store_inv_def)
  moreover have "cut_image (fs_dev fs2) ! i = cut_image (fs_dev fs) ! i"
    if "8192 \<le> i" "i < fs_device_size fs" "i \<notin> free_space (fs_alloc fs)" for i
  proof -
    have "cut_image (fs_dev fs2) ! i = drop 8192 (cut_image (fs_dev fs2)) ! (i - 8192)"
      using that cc(2) by simp
    also have "\<dots> = cut_image (fs_dev fs1) ! i" using that cc(3) size by simp
    also have "\<dots> = cut_image (fs_dev fs) ! i" using run(2) that size by (simp add: grows_def)
    finally show ?thesis .
  qed
  ultimately show ?thesis using cc(3) by blast
qed

theorem crash_consistency_witness:
  "\<exists>fs1 fs2 r ub'. fs_run demo_env demo_fs [OpMkdir [0x61]] = Some fs1 \<and> commit demo_env fs1 = Some (fs2, r) \<and>
     mount (mem_env demo_hash id (\<lambda>_ _. None)) (after_reboot fs1) = Some (Ok (mounted (after_reboot fs1) 16384 (demo_ub 2))) \<and>
     mount (mem_env demo_hash id (\<lambda>_ _. None)) (after_reboot fs2) = Some (Ok (mounted (after_reboot fs2) 16384 ub')) \<and>
     (ub' = demo_ub 2 \<or> ub' = fs_uberblock fs1 3)"
proof -
  obtain fs1 fs2 e where run: "fs_run demo_env demo_fs [OpMkdir [0x61]] = Some fs1"
    "commit demo_env fs1 = Some (fs2, Err e)" "fs_dirty fs1"
    using demo_run by blast
  have h32: "\<forall>bs. length (demo_hash bs) = 32" by simp
  have on1: "on_disk demo_hash fs1 (demo_ub 2)" "same_committed demo_fs fs1"
    using on_disk_run [OF demo_on_disk run(1) h32] by blast+
  have txg: "fs_committed_txg demo_fs = 2" "fs_device_size demo_fs = 16384"
    "cut_image (fs_dev demo_fs) = demo_image" "fs_block_size demo_fs = 512" "fs_alloc_unit demo_fs = 512" "fs_codec demo_fs = Raw"
    by (simp_all add: demo_fs_def mounted_def demo_ub_def cut_after_def)
  let ?new = "fs_uberblock fs1 3"
  have wf: "ub_wf ?new"
    using on1(1) by (intro fs_uberblock_wf) (simp_all add: on_disk_def)
  have "take 24 (ub_body ?new) = take 24 (ub_body (demo_ub 1))" "ub_body ?new ! 24 \<noteq> ub_body (demo_ub 1) ! 24"
    using on1(2) txg
    by (simp_all add: ub_body_def fs_uberblock_def demo_ub_def same_committed_def nth_append le_encode_first)
  then have "tear_evident demo_hash (to_slot_bytes demo_hash ?new) (to_slot_bytes demo_hash (demo_ub 1))"
    using wf by (intro demo_tear) simp_all
  then show ?thesis
    using crash_consistency [OF demo_on_disk h32 run(1,2,3)] run txg by auto
qed

end
