(* ===== verification/Eofs_Splice.thy ===== *)
theory Eofs_Splice
  imports Eofs_Objects Eofs_Crash
begin

text \<open>
  Copy-on-write updates of byte objects: \<open>write_object_range\<close> refines splicing bytes into a byte
  string. \<open>yields\<close> is the total-correctness triple of the engine's operations: the operation
  returns, keeps the invariant, writes free space only, and its only error is \<open>NoSpace\<close>.
\<close>

section \<open>Splicing into a byte string\<close>

text \<open>The documented effect of a range update: the gap past the old end is filled with zeros.\<close>

definition splice :: "bytes \<Rightarrow> nat \<Rightarrow> bytes \<Rightarrow> bytes" where
  "splice data offset xs =
     (if xs = [] then data else overwrite offset xs (data @ replicate (offset + length xs - length data) 0))"

lemma length_splice: "xs \<noteq> [] \<Longrightarrow> length (splice data offset xs) = max (length data) (offset + length xs)"
  by (simp add: splice_def)

lemma splice_empty: "splice [] 0 xs = xs"
  by (simp add: splice_def overwrite_def)

lemma nth_splice:
  assumes "xs \<noteq> []" "i < max (length data) (offset + length xs)"
  shows "splice data offset xs ! i =
    (if offset \<le> i \<and> i < offset + length xs then xs ! (i - offset) else if i < length data then data ! i else 0)"
  using assms by (auto simp: splice_def nth_overwrite nth_append)

lemma length_slice_min: "length (slice at n xs) = min n (length xs - at)"
  by (simp add: slice_def)

lemma nth_slice_less: "i < length (slice at n xs) \<Longrightarrow> slice at n xs ! i = xs ! (at + i)"
  by (cases "at \<le> length xs") (simp_all add: slice_def)

lemma slice_splice_outside:
  assumes "xs \<noteq> []" and "at + n \<le> offset \<or> offset + length xs \<le> at" and "at + n \<le> length data"
  shows "slice at n (splice data offset xs) = slice at n data"
  using assms by (intro nth_equalityI) (auto simp: length_slice_min length_splice nth_slice_less nth_splice)

text \<open>Block \<open>b\<close> of an update, from the same block of the old byte string.\<close>

lemma block_content:
  fixes data xs :: bytes and offset b bs :: nat
  defines "new \<equiv> splice data offset xs" and "os \<equiv> max (b * bs) offset"
    and "oe \<equiv> min (b * bs + min bs (max (length data) (offset + length xs) - b * bs)) (offset + length xs)"
  assumes "xs \<noteq> []" and "b * bs < length new"
  shows "slice (b * bs) bs new =
    (let old = slice (b * bs) bs data; content = old @ replicate (length (slice (b * bs) bs new) - length old) 0
     in if os < oe then overwrite (os - b * bs) (slice (os - offset) (oe - os) xs) content else content)"
proof -
  let ?at = "b * bs"
  let ?old = "slice ?at bs data"
  let ?c = "?old @ replicate (length (slice ?at bs new) - length ?old) 0"
  have ln: "length new = max (length data) (offset + length xs)" using assms(4) by (simp add: new_def length_splice)
  have lo: "length ?old = min bs (length data - ?at)" "length (slice ?at bs new) = min bs (length new - ?at)"
    by (simp_all add: length_slice_min)
  have "length ?old \<le> length (slice ?at bs new)" unfolding lo ln by (intro min.mono diff_le_mono) simp_all
  then have lc: "length ?c = length (slice ?at bs new)" by simp
  have c: "?c ! i = (if ?at + i < length data then data ! (?at + i) else 0)" if "i < length ?c" for i
  proof (cases "i < length ?old")
    case False
    with that have "i - length ?old < length (slice ?at bs new) - length ?old" using lc by linarith
    then have "?c ! i = 0" using False by (simp add: nth_append)
    moreover have "i < bs" using that lc lo(2) by linarith
    with False have "\<not> ?at + i < length data" unfolding lo(1) by simp
    ultimately show ?thesis by simp
  next
    case True
    then have "?c ! i = data ! (?at + i)" by (simp add: nth_append nth_slice_less)
    moreover have "?at + i < length data" using True lo(1) by linarith
    ultimately show ?thesis by simp
  qed
  have new: "slice ?at bs new ! i = (if offset \<le> ?at + i \<and> ?at + i < offset + length xs then xs ! (?at + i - offset)
      else if ?at + i < length data then data ! (?at + i) else 0)" if "i < length ?c" for i
  proof -
    have "i < length (slice ?at bs new)" "?at + i < max (length data) (offset + length xs)" using that lc lo(2) ln by linarith+
    then show ?thesis using assms(4) by (simp add: nth_slice_less) (simp add: new_def nth_splice)
  qed
  have "oe = min (?at + length (slice ?at bs new)) (offset + length xs)" unfolding lo(2) ln oe_def ..
  then have oe: "oe = ?at + length ?c \<or> oe = offset + length xs" and bd: "oe \<le> ?at + length ?c" "oe \<le> offset + length xs"
    unfolding lc by linarith+
  have os: "os = ?at \<or> os = offset" and bd': "?at \<le> os" "offset \<le> os" unfolding os_def by linarith+
  note bd = bd bd'
  have outside: "\<not> (offset \<le> ?at + i \<and> ?at + i < offset + length xs)" if "i < length ?c" "?at + i < os \<or> oe \<le> ?at + i" for i
    using that oe os by linarith
  show ?thesis
  proof (cases "os < oe")
    case True
    let ?s = "slice (os - offset) (oe - os) xs"
    have ls: "length ?s = oe - os" using bd unfolding length_slice_min by linarith
    have ls2: "os - ?at + length ?s \<le> length ?c" using True bd unfolding ls by linarith
    note ls = ls ls2
    have "overwrite (os - ?at) ?s ?c ! i = slice ?at bs new ! i" if "i < length ?c" for i
    proof (cases "os - ?at \<le> i \<and> i < os - ?at + length ?s")
      case True
      then have "i - (os - ?at) < length ?s" by linarith
      note nth_slice_less [OF this]
      moreover have "overwrite (os - ?at) ?s ?c ! i = ?s ! (i - (os - ?at))" using True that ls(2) by (subst nth_overwrite) auto
      ultimately have "overwrite (os - ?at) ?s ?c ! i = xs ! (os - offset + (i - (os - ?at)))" by simp
      moreover have "os - offset + (i - (os - ?at)) = ?at + i - offset" "offset \<le> ?at + i" "?at + i < offset + length xs"
        using True ls(1) bd \<open>os < oe\<close> by linarith+
      ultimately show ?thesis using new [OF that] by simp
    next
      case False
      then have "overwrite (os - ?at) ?s ?c ! i = ?c ! i" using that ls(2) by (subst nth_overwrite) auto
      moreover have "\<not> (offset \<le> ?at + i \<and> ?at + i < offset + length xs)"
        using False ls(1) that bd by (intro outside) linarith+
      ultimately show ?thesis using new [OF that] c [OF that] by argo
    qed
    then show ?thesis using True ls(2) lc by (auto simp: Let_def intro!: nth_equalityI)
  next
    case False
    have "?c ! i = slice ?at bs new ! i" if "i < length ?c" for i
    proof -
      have "\<not> (offset \<le> ?at + i \<and> ?at + i < offset + length xs)"
        using False that by (intro outside) linarith+
      then show ?thesis using new [OF that] c [OF that] by argo
    qed
    then show ?thesis using False lc by (auto simp: Let_def intro!: nth_equalityI)
  qed
qed


section \<open>Total correctness of an operation\<close>

definition settled :: "('d \<Rightarrow> bytes) \<Rightarrow> ('d \<Rightarrow> bool) \<Rightarrow> 'd eofs \<Rightarrow> bool" where
  "settled content dev_inv fs \<longleftrightarrow> store_inv content dev_inv fs \<and> alloc_aligned (fs_alloc fs)"

definition yields ::
  "('d \<Rightarrow> bytes) \<Rightarrow> ('d \<Rightarrow> bool) \<Rightarrow> 'd eofs \<Rightarrow> ('d, 'a) fs_io \<Rightarrow> ('d eofs \<Rightarrow> 'a \<Rightarrow> bool) \<Rightarrow> bool" where
  "yields content dev_inv fs m Q \<longleftrightarrow>
     (\<exists>fs' r. m = Some (fs', r) \<and> settled content dev_inv fs' \<and> grows content fs fs' \<and> same_config fs fs' \<and>
        (case r of Err e \<Rightarrow> e = NoSpace | Ok v \<Rightarrow> Q fs' v))"

lemma yields_pure: "settled content dev_inv fs \<Longrightarrow> Q fs v \<Longrightarrow> yields content dev_inv fs (Some (fs, Ok v)) Q"
  by (simp add: yields_def)

lemma yields_io_then:
  assumes "yields content dev_inv fs m Q"
    and "\<And>fs' v. settled content dev_inv fs' \<Longrightarrow> grows content fs fs' \<Longrightarrow> same_config fs fs' \<Longrightarrow> Q fs' v \<Longrightarrow>
      yields content dev_inv fs' (f fs' v) R"
  shows "yields content dev_inv fs (io_then m f) R"
proof -
  from assms(1) obtain fs1 r where m: "m = Some (fs1, r)" "settled content dev_inv fs1" "grows content fs fs1" "same_config fs fs1"
    and r: "case r of Err e \<Rightarrow> e = NoSpace | Ok v \<Rightarrow> Q fs1 v"
    unfolding yields_def by blast
  show ?thesis
  proof (cases r)
    case (Ok v)
    with m r assms(2) [of fs1 v] obtain fs2 q where "f fs1 v = Some (fs2, q)" "settled content dev_inv fs2" "grows content fs1 fs2"
      "same_config fs1 fs2" "case q of Err e \<Rightarrow> e = NoSpace | Ok v \<Rightarrow> R fs2 v"
      unfolding yields_def by auto
    with m Ok show ?thesis
      unfolding yields_def using grows_trans same_config_trans by (intro exI [of _ fs2] exI [of _ q]) auto
  qed (use m r in \<open>auto simp: yields_def\<close>)
qed

lemma yields_conseq:
  assumes "yields content dev_inv fs m Q"
    and "\<And>fs' v. settled content dev_inv fs' \<Longrightarrow> grows content fs fs' \<Longrightarrow> same_config fs fs' \<Longrightarrow> Q fs' v \<Longrightarrow> R fs' v"
  shows "yields content dev_inv fs m R"
proof -
  from assms(1) obtain fs' r where "m = Some (fs', r)" "settled content dev_inv fs'" "grows content fs fs'" "same_config fs fs'"
    "case r of Err e \<Rightarrow> e = NoSpace | Ok v \<Rightarrow> Q fs' v"
    unfolding yields_def by blast
  with assms(2) [of fs'] show ?thesis
    unfolding yields_def by (intro exI [of _ fs'] exI [of _ r]) (auto split: result.splits)
qed


section \<open>Building trees\<close>

context eofs_disk
begin

abbreviation "ready \<equiv> settled content dev_inv"
abbreviation "does \<equiv> yields content dev_inv"

lemma yields_write_block:
  assumes "ready fs" and "logical \<noteq> []" and "length logical \<le> fs_block_size fs"
  shows "does fs (write_block E fs logical) (\<lambda>fs' p. stored E fs' p logical \<and> bp_addr p \<in> free_space (fs_alloc fs))"
proof -
  from assms(1) have ok: "ok_fs fs" and al: "alloc_aligned (fs_alloc fs)" by (simp_all add: settled_def)
  then have ai: "alloc_inv eofs_data_start (fs_alloc fs)" and di: "dev_inv (fs_dev fs)"
    and ds: "a_device_size (fs_alloc fs) = length (content (fs_dev fs))"
    by (auto simp: store_inv_def)
  obtain c payload where enc: "encode_block E (fs_codec fs) logical = (c, payload)" by fastforce
  then have pay: "length payload \<le> length logical" "payload \<noteq> []"
    using lz4_nonempty [OF assms(2)] assms(2) by (auto simp: encode_block_def Let_def split: if_splits)
  then have "length payload + a_unit (fs_alloc fs) \<le> 2 ^ 64"
    using store_inv_geometry [OF ok] ok assms(3) by (simp add: store_inv_def)
  then obtain a' q where a': "allocate (fs_alloc fs) (length payload) = Some (a', q)"
    using allocate_returns [OF ai] by blast
  have "\<exists>fs' r. write_block E fs logical = Some (fs', r) \<and> (r = Err NoSpace \<or> (\<exists>p. r = Ok p))"
  proof (cases q)
    case (Err e)
    then have "e = NoSpace" using allocate_error a' pay(2) by blast
    with Err a' enc assms show ?thesis by (simp add: write_block_def)
  next
    case (Ok addr)
    obtain need where "length payload \<le> need" "{addr ..< addr + need} \<subseteq> free_space (fs_alloc fs)"
      by (rule allocate_Ok [OF ai a' [unfolded Ok]]) blast
    then have "addr + length payload - 1 \<in> free_space (fs_alloc fs)" using pay(2) by (cases payload) auto
    then have "addr + length payload - 1 < length (content (fs_dev fs))"
      using free_space_bounds(2) [OF ai] ds by simp
    then have "addr + length payload \<le> length (content (fs_dev fs))" by linarith
    then obtain d' where "d_write (e_dev E) (fs_dev fs) addr payload = (d', Ok ())"
      using write_in_range [OF di] by blast
    with Ok a' enc assms show ?thesis by (simp add: write_block_def)
  qed
  then obtain fs' r where w: "write_block E fs logical = Some (fs', r)" "r = Err NoSpace \<or> (\<exists>p. r = Ok p)" by blast
  note st = cowD [OF cow_write_block [OF ok] w(1)]
  with al have "ready fs'" by (simp add: settled_def grows_def)
  then show ?thesis
    unfolding yields_def using w st write_block_stored [OF ok al] by (auto split: result.split)
qed

lemma settled_grows:
  assumes "ready fs" "ready fs'" "grows content fs fs'" "same_config fs fs'"
  shows "stored E fs p l \<Longrightarrow> stored E fs' p l" "tree_at E fs level p ls \<Longrightarrow> tree_at E fs' level p ls"
    "object E fs ob data \<Longrightarrow> object E fs' ob data"
  using assms stored_grows tree_at_grows object_grows same_config_committed unfolding settled_def by blast+

lemma yields_write_groups:
  assumes "ready fs" and "list_all (\<lambda>g. g \<noteq> [] \<and> list_all ptr_wf g \<and> length g \<le> fanout fs) gs"
  shows "does fs (write_groups E fs gs) (\<lambda>fs' ps. list_all2 (\<lambda>p g. stored E fs' p (concat (map ptr_write g))) ps gs)"
  using assms
proof (induction gs arbitrary: fs)
  case Nil
  then show ?case by (simp add: yields_pure)
next
  case (Cons g gs)
  let ?l = "concat (map ptr_write g)"
  have len: "length (concat (map ptr_write g)) = 56 * length g" if "list_all ptr_wf g" for g
    using that by (induction g) auto
  have "length ?l = 56 * length g" using len Cons.prems(2) by simp
  moreover have "56 * length g \<le> fs_block_size fs" "0 < length g"
    using Cons.prems store_inv_geometry(7) [of content dev_inv fs] by (auto simp: settled_def)
  ultimately have "?l \<noteq> []" "length ?l \<le> fs_block_size fs" by - (metis length_0_conv mult_is_0 not_less0 zero_neq_numeral, simp)
  note w = yields_write_block [OF Cons.prems(1) this]
  show ?case
    unfolding write_groups.simps
  proof (rule yields_io_then [OF w], rule yields_io_then)
    fix fs1 p assume fs1: "ready fs1" "grows content fs fs1" "same_config fs fs1"
      and p: "stored E fs1 p ?l \<and> bp_addr p \<in> free_space (fs_alloc fs)"
    have "fanout fs1 = fanout fs" using fs1(3) by (simp add: fanout_def same_config_fields)
    then show "does fs1 (write_groups E fs1 gs) (\<lambda>fs' ps. list_all2 (\<lambda>p g. stored E fs' p (concat (map ptr_write g))) ps gs)"
      using Cons.prems(2) fs1(1) by (intro Cons.IH) simp_all
    fix fs2 ps assume fs2: "ready fs2" "grows content fs1 fs2" "same_config fs1 fs2"
      and ps: "list_all2 (\<lambda>p g. stored E fs2 p (concat (map ptr_write g))) ps gs"
    show "does fs2 (Some (fs2, Ok (p # ps))) (\<lambda>fs' ps. list_all2 (\<lambda>p g. stored E fs' p (concat (map ptr_write g))) ps (g # gs))"
      using ps p fs2(1) settled_grows(1) [OF fs1(1) fs2] by (simp add: yields_pure)
  qed
qed

lemma yields_build_loop:
  assumes "ready fs" and "list_all ptr_wf current" and "current \<noteq> []" and "list_all2 (tree_at E fs level) current lss"
    and "level + height (fanout fs) (length current) < 2 ^ 8"
  shows "does fs (build_loop E fs level current)
    (\<lambda>fs' (lv, p). tree_at E fs' lv p (concat lss) \<and> lv = level + height (fanout fs) (length current))"
  using assms
proof (induction level arbitrary: fs current lss rule: measure_induct_rule [of "\<lambda>level. 256 - level"])
  case (less level)
  have fan: "1 < fanout fs" using less.prems(1) store_inv_geometry(6) by (auto simp: settled_def)
  show ?case
  proof (cases "length current > 1")
    case False
    with less.prems(3) obtain p where "current = [p]" by (cases current) auto
    with less.prems(1,4) show ?thesis
      by (subst build_loop.simps) (auto simp: list_all2_Cons1 height.simps intro!: yields_pure)
  next
    case True
    let ?gs = "chunks (fanout fs) current" and ?f = "fanout fs"
    have gs: "list_all (\<lambda>g. g \<noteq> [] \<and> list_all ptr_wf g \<and> length g \<le> fanout fs) ?gs"
      using chunks_lengths [of _ ?f current] less.prems(2) by (fastforce simp: list_all_iff)
    have trees: "list_all2 (list_all2 (tree_at E fs level)) ?gs (chunks ?f lss)"
      by (rule list_all2_chunks [OF less.prems(4)])
    have h: "height ?f (length current) = Suc (height ?f (length ?gs))"
      using True fan by (subst height.simps) (simp add: length_chunks)
    have unfold: "build_loop E fs level current =
        io_then (write_groups E fs ?gs) (\<lambda>fs1 next. build_loop E fs1 (level + 1) next)"
      using True fan h less.prems(5) by (subst build_loop.simps) simp
    show ?thesis
      unfolding unfold
    proof (rule yields_io_then [OF yields_write_groups [OF less.prems(1) gs]])
      fix fs1 ps assume fs1: "ready fs1" "grows content fs fs1" "same_config fs fs1"
        and ps: "list_all2 (\<lambda>p g. stored E fs1 p (concat (map ptr_write g))) ps ?gs"
      have f1: "fanout fs1 = ?f" using fs1(3) by (simp add: fanout_def same_config_fields)
      have len: "length ps = length ?gs" "length ?gs = length (chunks ?f lss)"
        using ps trees by (auto dest: list_all2_lengthD)
      have "list_all2 (tree_at E fs1 (Suc level)) ps (map concat (chunks ?f lss))"
      proof (rule list_all2_all_nthI)
        fix i assume i: "i < length ps"
        let ?g = "?gs ! i"
        have g: "?g \<noteq> []" "list_all ptr_wf ?g" using gs i len by (auto simp: list_all_length)
        have "list_all2 (tree_at E fs level) ?g (chunks ?f lss ! i)" "stored E fs1 (ps ! i) (concat (map ptr_write ?g))"
          using trees ps i len by (auto simp: list_all2_conv_all_nth)
        moreover from this(1) have "list_all2 (tree_at E fs1 level) ?g (chunks ?f lss ! i)"
          by (rule list_all2_mono) (rule settled_grows(2) [OF less.prems(1) fs1])
        ultimately show "tree_at E fs1 (Suc level) (ps ! i) (map concat (chunks ?f lss) ! i)"
          using g i len by auto
      qed (use len in simp)
      moreover have "list_all ptr_wf ps" using ps by (auto simp: list_all_length list_all2_conv_all_nth stored_def)
      moreover have "ps \<noteq> []" using len(1) True fan by (cases current) (auto simp: chunks_Cons)
      ultimately have "does fs1 (build_loop E fs1 (level + 1) ps)
          (\<lambda>fs' (lv, p). tree_at E fs' lv p (concat (map concat (chunks ?f lss))) \<and> lv = level + 1 + height (fanout fs1) (length ps))"
        using less.prems(5) fs1(1) h f1 len(1) by (intro less.IH) (simp_all del: tree_at.simps)
      then show "does fs1 (build_loop E fs1 (level + 1) ps)
          (\<lambda>fs' (lv, p). tree_at E fs' lv p (concat lss) \<and> lv = level + height ?f (length current))"
        using h f1 len(1) fan by (elim yields_conseq) (auto simp: concat_map_concat_chunks)
    qed
  qed
qed

lemma list_all2_stored_wf: "list_all2 (stored E fs) ls cs \<Longrightarrow> list_all ptr_wf ls"
  by (auto simp: list_all_length list_all2_conv_all_nth stored_def)

text \<open>A tree over the data blocks of a byte string is an object that denotes it.\<close>

lemma yields_build_tree:
  assumes "ready fs" and "data \<noteq> []" and "length data < 2 ^ 64"
    and "list_all2 (stored E fs) ls (chunks (fs_block_size fs) data)" and "distinct (map bp_addr ls)"
  shows "does fs (build_tree E fs ls (length data)) (\<lambda>fs' ob. object E fs' ob data)"
proof -
  have ok: "ok_fs fs" using assms(1) by (simp add: settled_def)
  note geo = store_inv_geometry [OF ok]
  have ls: "ls \<noteq> []" using assms(2,4) geo(1) by (auto simp: chunks_Cons list_all2_Cons2)
  have "list_all (\<lambda>p. \<exists>l. stored E fs p l) ls"
    using assms(4) by (auto simp: list_all_length list_all2_conv_all_nth)
  then have "length ls \<le> (fs_device_size fs - 8192) div fs_alloc_unit fs"
    by (rule stored_count [OF ok _ assms(5)])
  also have "\<dots> \<le> fs_device_size fs" by (meson diff_le_self div_le_dividend le_trans)
  finally have "height (fanout fs) (length ls) \<le> 64" using geo(9) by (intro height_small [OF geo(6)]) simp
  moreover have "list_all2 (tree_at E fs 0) ls (map (\<lambda>p. [p]) ls)"
    by (simp add: list_all2_conv_all_nth)
  ultimately have "does fs (build_loop E fs 0 ls)
      (\<lambda>fs' (lv, p). tree_at E fs' lv p (concat (map (\<lambda>p. [p]) ls)) \<and> lv = 0 + height (fanout fs) (length ls))"
    using ls list_all2_stored_wf [OF assms(4)] by (intro yields_build_loop [OF assms(1)]) simp_all
  then have loop: "does fs (build_loop E fs 0 ls) (\<lambda>fs' (lv, p). tree_at E fs' lv p ls \<and> lv = height (fanout fs) (length ls))"
    by simp
  have "does fs (io_then (build_loop E fs 0 ls) (\<lambda>fs1 (level, root). Some (fs1, Ok \<lparr>o_size = length data, o_level = level, o_root = root\<rparr>)))
      (\<lambda>fs' ob. object E fs' ob data)"
  proof (rule yields_io_then [OF loop])
    fix fs1 v assume fs1: "ready fs1" "grows content fs fs1" "same_config fs fs1"
      and v: "case v of (lv, p) \<Rightarrow> tree_at E fs1 lv p ls \<and> lv = height (fanout fs) (length ls)"
    obtain lv p where vp: "v = (lv, p)" by fastforce
    have "list_all2 (stored E fs1) ls (chunks (fs_block_size fs1) data)"
      using assms(4) settled_grows(1) [OF assms(1) fs1] by (auto simp: same_config_fields [OF fs1(3)] elim: list_all2_mono)
    moreover have "fanout fs1 = fanout fs" using fs1(3) by (simp add: fanout_def same_config_fields)
    moreover have "ptr_wf p"
    proof (cases lv)
      case 0
      with v vp list_all2_stored_wf [OF assms(4)] show ?thesis by simp
    qed (use v vp in \<open>auto simp: stored_def\<close>)
    ultimately have "object E fs1 \<lparr>o_size = length data, o_level = lv, o_root = p\<rparr> data"
      using v vp assms(2,3,5) \<open>height (fanout fs) (length ls) \<le> 64\<close> by (auto simp: object_def obj_wf_def)
    then show "does fs1 (case v of (level, root) \<Rightarrow> Some (fs1, Ok \<lparr>o_size = length data, o_level = level, o_root = root\<rparr>))
        (\<lambda>fs' ob. object E fs' ob data)"
      using vp fs1(1) by (simp add: yields_pure)
  qed
  then show ?thesis using ls by (simp add: build_tree_def)
qed


section \<open>Rewriting data blocks\<close>

lemma yields_range_block:
  fixes data xs offset fs
  defines "bs \<equiv> fs_block_size fs" and "new \<equiv> splice data offset xs"
  assumes "ready fs" and "list_all2 (stored E fs) ls (chunks bs data)" and "o_size ob = length data" and "xs \<noteq> []"
    and "b * bs < length new"
  shows "does fs (range_block E fs ob ls offset xs (length new) b)
    (\<lambda>fs' p. stored E fs' p (slice (b * bs) bs new) \<and> (bp_addr p \<in> free_space (fs_alloc fs) \<or> b < length ls \<and> p = ls ! b))"
proof -
  let ?old = "slice (b * bs) bs data" and ?chunk = "slice (b * bs) bs new"
  define os where "os = max (b * bs) offset"
  define oe where "oe = min (b * bs + length ?chunk) (offset + length xs)"
  have bs: "0 < bs" using assms(3) store_inv_geometry(1) [of content dev_inv fs] by (simp add: settled_def bs_def)
  have ln: "length new = max (length data) (offset + length xs)" using assms(6) by (simp add: new_def length_splice)
  have n: "length ls = div_ceil (length data) bs" using list_all2_lengthD [OF assms(4)] length_chunks [OF bs] by simp
  have b_iff: "b < length ls \<longleftrightarrow> b * bs < length data"
    using div_ceil_le_iff [OF bs, of "length data" b] n by (metis not_le)
  have new_len: "min bs (length new - b * bs) = length ?chunk" by (simp add: length_slice_min)
  have old_len: "(if b < length ls then min bs (o_size ob - b * bs) else 0) = length ?old"
    using assms(5) b_iff by (simp add: length_slice_min)
  have pos: "0 < length ?chunk" "length ?chunk \<le> bs" using assms(7) bs by (auto simp: length_slice_min)
  have le: "length ?old \<le> length ?chunk" unfolding length_slice_min ln by (intro min.mono diff_le_mono) simp_all
  have leaf: "stored E fs (ls ! b) ?old" if "b < length ls"
  proof -
    have "b < length (chunks bs data)" using that list_all2_lengthD [OF assms(4)] by simp
    with assms(4) nth_chunks [OF bs this] show ?thesis by (auto simp: list_all2_conv_all_nth)
  qed
  have oe_eq: "oe = min (b * bs + min bs (max (length data) (offset + length xs) - b * bs)) (offset + length xs)"
    by (simp add: oe_def length_slice_min ln)
  define c where "c = ?old @ replicate (length ?chunk - length ?old) 0"
  have "?chunk = (if os < oe then overwrite (os - b * bs) (slice (os - offset) (oe - os) xs) c else c)"
    unfolding c_def os_def oe_eq unfolding new_def by (rule block_content [OF assms(6) assms(7) [unfolded new_def], unfolded Let_def])
  then have chunk: "(if os < oe then overwrite (os - b * bs) (slice (os - offset) (oe - os) xs) c else c) = ?chunk"
    by (rule sym)
  have read: "(if length ?old > 0 then Some (read_block E fs (ls ! b)) else Some (Ok [])) = Some (Ok ?old)"
    using leaf b_iff bs by (cases "b < length ls") (auto simp: stored_def length_slice_min, simp add: slice_def)
  show ?thesis
  proof (cases "\<not> os < oe \<and> length ?chunk = length ?old")
    case True
    then have "c = ?chunk" using chunk by argo
    moreover have "c = ?old" using True by (simp add: c_def)
    ultimately have "?chunk = ?old" by simp
    moreover have "b < length ls" using True pos(1) b_iff by (auto simp: length_slice_min)
    moreover have "range_block E fs ob ls offset xs (length new) b = Some (fs, Ok (ls ! b))"
      using True \<open>b < length ls\<close> unfolding range_block_def Let_def bs_def [symmetric] new_len old_len os_def [symmetric] oe_def [symmetric] by simp
    ultimately show ?thesis using leaf assms(3) by (simp add: yields_pure)
  next
    case False
    have "range_block E fs ob ls offset xs (length new) b = write_block E fs ?chunk"
      using False le unfolding range_block_def Let_def bs_def [symmetric] new_len old_len read os_def [symmetric] oe_def [symmetric]
      by (simp only: io_read_simps c_def [symmetric] chunk if_False) simp
    moreover have "does fs (write_block E fs ?chunk) (\<lambda>fs' p. stored E fs' p ?chunk \<and> bp_addr p \<in> free_space (fs_alloc fs))"
      using pos by (intro yields_write_block [OF assms(3)]) (auto simp: bs_def)
    ultimately show ?thesis by (auto elim: yields_conseq)
  qed
qed

text \<open>Where the new data blocks stand: in space that was free, or the block is shared with the old object.\<close>

lemma yields_range_blocks:
  fixes data xs offset
  defines "new \<equiv> splice data offset xs"
  assumes "ready fs" and "fs_block_size fs = bs" and "list_all2 (stored E fs) ls (chunks bs data)" and "o_size ob = length data"
    and "xs \<noteq> []" and "distinct (map bp_addr ls)" and "distinct blocks" and "list_all (\<lambda>b. b * bs < length new) blocks"
  shows "does fs (range_blocks E fs ob ls offset xs (length new) blocks)
    (\<lambda>fs' ps. list_all2 (stored E fs') ps (map (\<lambda>b. slice (b * bs) bs new) blocks) \<and> distinct (map bp_addr ps) \<and>
       list_all2 (\<lambda>p b. bp_addr p \<in> free_space (fs_alloc fs) \<or> b < length ls \<and> p = ls ! b) ps blocks)"
  using assms(2-4,8,9)
proof (induction blocks arbitrary: fs)
  case Nil
  then show ?case by (simp add: yields_pure)
next
  case (Cons b blocks)
  let ?at = "\<lambda>b. slice (b * bs) bs new"
  let ?from = "\<lambda>fs p b. bp_addr p \<in> free_space (fs_alloc fs) \<or> b < length ls \<and> p = ls ! b"
  let ?Q = "\<lambda>fs1 fs' ps. list_all2 (stored E fs') ps (map ?at blocks) \<and> distinct (map bp_addr ps) \<and> list_all2 (?from fs1) ps blocks"
  have w: "does fs (range_block E fs ob ls offset xs (length new) b) (\<lambda>fs' p. stored E fs' p (?at b) \<and> ?from fs p b)"
    using yields_range_block [of fs ls data ob xs b offset] Cons.prems assms(5,6) by (simp add: new_def)
  show ?case
    unfolding range_blocks.simps
  proof (rule yields_io_then [OF w], rule yields_io_then [where Q = "?Q _"])
    fix fs1 p assume fs1: "ready fs1" "grows content fs fs1" "same_config fs fs1" and p: "stored E fs1 p (?at b) \<and> ?from fs p b"
    have "list_all2 (stored E fs1) ls (chunks bs data)"
      using Cons.prems(3) by (rule list_all2_mono) (rule settled_grows(1) [OF Cons.prems(1) fs1])
    then show "does fs1 (range_blocks E fs1 ob ls offset xs (length new) blocks) (?Q fs1)"
      using Cons.prems fs1(1,3) by (intro Cons.IH) (simp_all add: same_config_fields)
    fix fs2 ps assume fs2: "ready fs2" "grows content fs1 fs2" "same_config fs1 fs2" and ps: "?Q fs1 fs2 ps"
    have unit: "0 < fs_alloc_unit fs" "0 < fs_alloc_unit fs1"
      using store_inv_geometry(3) Cons.prems(1) fs1(1) by (auto simp: settled_def)
    have old: "bp_addr (ls ! i) \<notin> free_space (fs_alloc fs)" if "i < length ls" for i
      using that Cons.prems(3) stored_addr(4) [OF _ unit(1)] by (auto simp: list_all2_conv_all_nth)
    have "bp_addr p \<notin> free_space (fs_alloc fs1)" using p stored_addr(4) [OF _ unit(2)] by blast
    then have "bp_addr (ps ! i) \<noteq> bp_addr p" if "i < length ps" for i
    proof -
      have i: "i < length blocks" "?from fs1 (ps ! i) (blocks ! i)"
        using that ps by (auto simp: list_all2_conv_all_nth)
      then have "blocks ! i \<noteq> b" using Cons.prems(4) nth_mem by fastforce
      then show ?thesis
        using i(2) p old [of "blocks ! i"] \<open>bp_addr p \<notin> free_space (fs_alloc fs1)\<close> assms(7) by (auto simp: distinct_conv_nth)
    qed
    then have "bp_addr p \<notin> set (map bp_addr ps)" by (metis in_set_conv_nth length_map nth_map)
    moreover have "list_all2 (?from fs) ps blocks"
      using ps fs1(2) by (auto simp: grows_def elim!: list_all2_mono)
    ultimately show "does fs2 (Some (fs2, Ok (p # ps))) (\<lambda>fs' ps. list_all2 (stored E fs') ps (map ?at (b # blocks)) \<and>
        distinct (map bp_addr ps) \<and> list_all2 (?from fs) ps (b # blocks))"
      using p ps settled_grows(1) [OF fs1(1) fs2] fs2(1) by (auto intro!: yields_pure)
  qed
qed

lemma chunks_map:
  assumes "0 < n"
  shows "chunks n xs = map (\<lambda>b. slice (b * n) n xs) [0..<div_ceil (length xs) n]"
  using assms by (auto simp: length_chunks nth_chunks intro!: nth_equalityI)

theorem yields_write_object_range:
  assumes "ready fs" and "object E fs ob data" and "offset + length xs < 2 ^ 64"
  shows "does fs (write_object_range E fs ob offset xs) (\<lambda>fs' ob'. object E fs' ob' (splice data offset xs))"
proof (cases "xs = []")
  case True
  with assms show ?thesis by (simp add: write_object_range_def splice_def yields_pure)
next
  case False
  let ?new = "splice data offset xs" and ?bs = "fs_block_size fs"
  have ok: "ok_fs fs" using assms(1) by (simp add: settled_def)
  note geo = store_inv_geometry [OF ok]
  have bs: "0 < ?bs" using geo(1) by simp
  have sz: "o_size ob = length data" "length data < 2 ^ 64" using assms(2) by (auto simp: object_def obj_wf_def)
  have ln: "length ?new = max (length data) (offset + length xs)" using False by (rule length_splice)
  then have new: "length ?new < 2 ^ 64" "?new \<noteq> []" using sz(2) assms(3) False by auto
  obtain ls where ls: "collect_leaves E fs ob = Some (Ok ls)" "list_all2 (stored E fs) ls (chunks ?bs data)" "distinct (map bp_addr ls)"
  proof (cases "data = []")
    case True
    with assms(2) have "collect_leaves E fs ob = Some (Ok [])" by (simp add: object_def collect_leaves_def check_object_def)
    with True that show ?thesis by simp
  qed (use object_leaves [OF ok assms(2)] that in blast)
  let ?n = "div_ceil (length ?new) ?bs"
  have "?n * 56 < 2 ^ 63"
  proof -
    have "?n \<le> 2 ^ 55" using new(1) geo(1) by (subst div_ceil_le_iff [OF bs]) (simp add: order_trans [OF less_imp_le])
    then show ?thesis by simp
  qed
  moreover have "b * ?bs < length ?new" if "b < ?n" for b
    using that div_ceil_le_iff [OF bs, of "length ?new" b] by (metis not_le)
  then have "list_all (\<lambda>b. b * ?bs < length ?new) [0..<?n]" by (simp add: list_all_length)
  note blocks = yields_range_blocks [OF assms(1) refl ls(2) sz(1) False ls(3) distinct_upt this]
  have "does fs (io_then (range_blocks E fs ob ls offset xs (length ?new) [0..<?n]) (\<lambda>fs1 ps. build_tree E fs1 ps (length ?new)))
      (\<lambda>fs' ob'. object E fs' ob' ?new)"
  proof (rule yields_io_then [OF blocks], elim conjE)
    fix fs1 ps assume fs1: "ready fs1" "same_config fs fs1" and "distinct (map bp_addr ps)"
      and "list_all2 (stored E fs1) ps (map (\<lambda>b. slice (b * ?bs) ?bs ?new) [0..<?n])"
    then show "does fs1 (build_tree E fs1 ps (length ?new)) (\<lambda>fs' ob'. object E fs' ob' ?new)"
      using new bs by (intro yields_build_tree) (simp_all add: chunks_map same_config_fields)
  qed
  ultimately show ?thesis
    using False assms(3) ls(1) bs ln sz(1) by (simp add: write_object_range_def checked_add_def Let_def)
qed

end


section \<open>The engine on the in-memory device\<close>

text \<open>
  A compressor is a pair of functions with the round trip; \<open>lz4_pair\<close> is the identity on those.
\<close>

definition lz4_ok :: "(bytes \<Rightarrow> bytes) \<Rightarrow> (bytes \<Rightarrow> nat \<Rightarrow> bytes option) \<Rightarrow> bool" where
  "lz4_ok c d \<longleftrightarrow> (\<forall>bs. d (c bs) (length bs) = Some bs \<and> (bs \<noteq> [] \<longrightarrow> c bs \<noteq> []))"

definition lz4_pair :: "(bytes \<Rightarrow> bytes) \<Rightarrow> (bytes \<Rightarrow> nat \<Rightarrow> bytes option) \<Rightarrow>
    (bytes \<Rightarrow> bytes) \<times> (bytes \<Rightarrow> nat \<Rightarrow> bytes option)" where
  "lz4_pair c d = (if lz4_ok c d then (c, d) else (\<lambda>bs. bs, \<lambda>bs _. Some bs))"

lemma lz4_pair_ok: "lz4_ok (fst (lz4_pair c d)) (snd (lz4_pair c d))"
  by (simp add: lz4_pair_def) (simp add: lz4_ok_def)

interpretation memdisk: eofs_disk "mem_env (fix32 h) (fst (lz4_pair c d)) (snd (lz4_pair c d))" mem_data mem_device_inv
proof unfold_locales
  fix off len xs dev assume "mem_device_inv dev"
  then show "\<exists>d'. d_write (e_dev (mem_env (fix32 h) (fst (lz4_pair c d)) (snd (lz4_pair c d)))) dev off xs = (d', Ok ())"
    if "off + length xs \<le> length (mem_data dev)"
    using that by (subst mem_env_def) (simp add: mem_device_ops_def mem_device_write_Ok)
qed (use lz4_pair_ok [of c d] memdev.read_ok memdev.write_prefix in
  \<open>auto simp: mem_env_def lz4_ok_def fix32_def\<close>)

text \<open>
  C4: writing into a byte object refines splicing bytes into a byte string. On a settled
  filesystem with an object that denotes \<open>data\<close>, a range update returns; its only error is a full
  device; on success the new object denotes the data with the bytes spliced in (the gap past the
  old end zero-filled), every range of it reads back as that slice, and whatever happened every
  object of the filesystem, the old version of this one included, still denotes and reads what it
  did. The compressor's round trip and the hash's length are hypotheses on the parameters.
\<close>

theorem object_update_refines_splice:
  assumes "\<forall>bs. length (h bs) = 32" and "lz4_ok c d"
    and "settled mem_data mem_device_inv fs" and "object (mem_env h c d) fs ob data" and "offset + length xs < 2 ^ 64"
  shows "\<exists>fs' r. write_object_range (mem_env h c d) fs ob offset xs = Some (fs', r) \<and> settled mem_data mem_device_inv fs' \<and>
     (case r of Err e \<Rightarrow> e = NoSpace
      | Ok ob' \<Rightarrow> object (mem_env h c d) fs' ob' (splice data offset xs) \<and>
          (\<forall>at n. read_object_range (mem_env h c d) fs' ob' at n = Some (Ok (slice at n (splice data offset xs))))) \<and>
     (\<forall>ob2 data2. object (mem_env h c d) fs ob2 data2 \<longrightarrow> object (mem_env h c d) fs' ob2 data2 \<and>
        (\<forall>at n. read_object_range (mem_env h c d) fs' ob2 at n = Some (Ok (slice at n data2))))"
proof -
  let ?E = "mem_env h c d"
  have E: "mem_env (fix32 h) (fst (lz4_pair c d)) (snd (lz4_pair c d)) = ?E"
    using assms(1,2) by (simp add: fix32_id lz4_pair_def)
  note upd = memdisk.yields_write_object_range [of fs h c d ob data offset xs, unfolded E, OF assms(3-5)]
  then obtain fs' r where w: "write_object_range ?E fs ob offset xs = Some (fs', r)" "settled mem_data mem_device_inv fs'"
      "grows mem_data fs fs'" "same_config fs fs'"
    and r: "case r of Err e \<Rightarrow> e = NoSpace | Ok ob' \<Rightarrow> object ?E fs' ob' (splice data offset xs)"
    unfolding yields_def by blast
  have keep: "object ?E fs ob2 data2 \<Longrightarrow> object ?E fs' ob2 data2" for ob2 data2
    using memdisk.settled_grows(3) [of fs fs' h c d, unfolded E, OF assms(3) w(2-4)] by blast
  have rd: "read_object_range ?E fs' ob2 at n = Some (Ok (slice at n data2))" if "object ?E fs' ob2 data2" for ob2 data2 at n
    using read_object_range_object that w(2) by (auto simp: settled_def)
  show ?thesis
    using w(1,2) r keep rd by (intro exI [of _ fs'] exI [of _ r]) (auto split: result.splits)
qed

theorem object_update_refines_splice_witness:
  "\<exists>fs' ob'. write_object_range (mem_env demo_hash id (\<lambda>bs _. Some bs)) (mounted \<lparr>mem_data = demo_image\<rparr> 16384 (demo_ub 2)) empty_obj 0 [7, 8] =
       Some (fs', Ok ob') \<and>
     (\<forall>at n. read_object_range (mem_env demo_hash id (\<lambda>bs _. Some bs)) fs' ob' at n = Some (Ok (slice at n [7, 8])))"
proof -
  let ?E = "mem_env demo_hash id (\<lambda>bs _. Some bs)" and ?fs = "mounted \<lparr>mem_data = demo_image\<rparr> 16384 (demo_ub 2)"
  have "block_size_ok 512" "alloc_unit_ok 512 512"
    by (simp_all add: block_size_ok_def alloc_unit_ok_def power_of_two_def upt_rec)
  then have "settled mem_data mem_device_inv ?fs"
    by (simp add: settled_def mounted_def store_inv_def mem_device_inv_def alloc_inv_def alloc_aligned_def allocator_new_def
        demo_ub_def eofs_data_start_def slot_size_def)
  moreover have "lz4_ok id (\<lambda>bs _. Some bs)" by (simp add: lz4_ok_def)
  ultimately obtain fs' r where w: "write_object_range ?E ?fs empty_obj 0 [7, 8] = Some (fs', r)"
    and r: "case r of Err e \<Rightarrow> e = NoSpace | Ok ob' \<Rightarrow> object ?E fs' ob' (splice [] 0 [7, 8]) \<and>
          (\<forall>at n. read_object_range ?E fs' ob' at n = Some (Ok (slice at n (splice [] 0 [7, 8]))))"
    using object_update_refines_splice [of demo_hash id "\<lambda>bs _. Some bs" ?fs empty_obj "[]" 0 "[7, 8]"] by force
  have "div_ceil (Suc (Suc 0)) 512 = 1" by (simp add: div_ceil_def)
  then have "\<exists>fs1 p. write_block ?E ?fs [7, 8] = Some (fs1, Ok p)"
    by (simp add: write_block_def encode_block_def allocate_def aligned_def mounted_def demo_ub_def allocator_new_def times_exec_def
        checked_add_def mem_env_def mem_device_ops_def mem_device_write_Ok mem_device_inv_def)
  then have "\<exists>ob'. r = Ok ob'"
    using w write_object_one_block [of "[7, 8]" ?fs ?E] by (auto simp: write_object_def mounted_def demo_ub_def)
  then show ?thesis using w r by (auto simp: splice_empty)
qed

end
