(* ===== verification/Eofs_Namespace.thy ===== *)
theory Eofs_Namespace
  imports Eofs_Splice
begin

text \<open>
  The namespace of a filesystem as a tree of byte strings: files hold bytes, directories map names
  to nodes. \<open>tree_apply\<close> is what creating, writing and removing by path mean on such a tree,
  \<open>tree_lookup\<close> what a path names. \<open>denotes\<close> says that an object of the store represents a node;
  the engine's operations refine those of the tree.
\<close>

section \<open>Trees\<close>

datatype node =
    FileN bytes
  | DirN "bytes \<Rightarrow> node option"

fun tree_lookup :: "node \<Rightarrow> bytes list \<Rightarrow> (node, fs_error) result" where
  "tree_lookup n [] = Ok n"
| "tree_lookup (FileN _) (s # ss) = Err NotADirectory"
| "tree_lookup (DirN m) (s # ss) = (case m s of None \<Rightarrow> Err FsNotFound | Some n \<Rightarrow> tree_lookup n ss)"

text \<open>Editing the directory that a list of names leads to.\<close>

fun tree_edit :: "node \<Rightarrow> bytes list \<Rightarrow> ((bytes \<Rightarrow> node option) \<Rightarrow> (bytes \<Rightarrow> node option, fs_error) result) \<Rightarrow> (node, fs_error) result" where
  "tree_edit (FileN _) ss f = Err NotADirectory"
| "tree_edit (DirN m) [] f = and_then (f m) (\<lambda>m'. Ok (DirN m'))"
| "tree_edit (DirN m) (s # ss) f =
     (case m s of
        None \<Rightarrow> Err FsNotFound
      | Some n \<Rightarrow> and_then (tree_edit n ss f) (\<lambda>n'. Ok (DirN (m(s \<mapsto> n')))))"

definition tree_create :: "node \<Rightarrow> bytes \<Rightarrow> node \<Rightarrow> (node, fs_error) result" where
  "tree_create t path new =
     and_then (split_path path) (\<lambda>segs.
     if segs = [] then Err InvalidPath
     else tree_edit t (butlast segs) (\<lambda>m. if m (last segs) = None then Ok (m(last segs \<mapsto> new)) else Err AlreadyExists))"

definition tree_write :: "node \<Rightarrow> bytes \<Rightarrow> nat \<Rightarrow> bytes \<Rightarrow> (node, fs_error) result" where
  "tree_write t path offset xs =
     and_then (split_path path) (\<lambda>segs.
     if segs = [] then Err IsADirectory
     else
       and_then (tree_lookup t segs) (\<lambda>n.
       case n of
         DirN _ \<Rightarrow> Err IsADirectory
       | FileN data \<Rightarrow> tree_edit t (butlast segs) (\<lambda>m. Ok (m(last segs \<mapsto> FileN (splice data offset xs))))))"

definition tree_remove :: "node \<Rightarrow> bytes \<Rightarrow> (node, fs_error) result" where
  "tree_remove t path =
     and_then (split_path path) (\<lambda>segs.
     if segs = [] then Err InvalidPath
     else
       and_then (tree_lookup t segs) (\<lambda>n.
       if (case n of FileN _ \<Rightarrow> False | DirN m \<Rightarrow> dom m \<noteq> {}) then Err DirectoryNotEmpty
       else tree_edit t (butlast segs) (\<lambda>m. Ok (m(last segs := None)))))"

text \<open>The state a filesystem shows: the live tree, and the named snapshots in creation order.\<close>

type_synonym vfs = "node \<times> (bytes \<times> node) list"

definition with_tree :: "(node, fs_error) result \<Rightarrow> (bytes \<times> node) list \<Rightarrow> (vfs, fs_error) result" where
  "with_tree r sns = and_then r (\<lambda>t. Ok (t, sns))"

fun vfs_apply :: "vfs \<Rightarrow> fs_op \<Rightarrow> (vfs, fs_error) result" where
  "vfs_apply (t, sns) (OpCreate path) = with_tree (tree_create t path (FileN [])) sns"
| "vfs_apply (t, sns) (OpMkdir path) = with_tree (tree_create t path (DirN Map.empty)) sns"
| "vfs_apply (t, sns) (OpWrite path offset xs) = with_tree (tree_write t path offset xs) sns"
| "vfs_apply (t, sns) (OpRemove path) = with_tree (tree_remove t path) sns"
| "vfs_apply (t, sns) (OpSnapshot name) =
     and_then (check_name name) (\<lambda>_. if name \<in> fst ` set sns then Err AlreadyExists else Ok (t, sns @ [(name, t)]))"

definition tree_read :: "node \<Rightarrow> bytes \<Rightarrow> nat \<Rightarrow> nat \<Rightarrow> (bytes, fs_error) result" where
  "tree_read t path offset len =
     and_then (split_path path) (\<lambda>segs.
     and_then (tree_lookup t segs) (\<lambda>n.
     case n of DirN _ \<Rightarrow> Err IsADirectory | FileN data \<Rightarrow> Ok (slice offset len data)))"

definition tree_list :: "node \<Rightarrow> bytes \<Rightarrow> (bytes list, fs_error) result" where
  "tree_list t path =
     and_then (split_path path) (\<lambda>segs.
     and_then (tree_lookup t segs) (\<lambda>n.
     case n of FileN _ \<Rightarrow> Err NotADirectory | DirN m \<Rightarrow> Ok (sorted_list_of_set (dom m))))"


section \<open>Names in a path\<close>

lemma check_segments_Ok:
  assumes "check_segments segs = Ok ss" and "list_all utf8_valid segs"
  shows "list_all name_wf ss"
  using assms
  by (induction segs arbitrary: ss)
    (auto simp: and_then_Ok name_wf_def check_name_def max_name_len_def split: if_splits)

lemma split_path_wf: "split_path path = Ok ss \<Longrightarrow> utf8_valid path \<Longrightarrow> list_all name_wf ss"
  using utf8_segments check_segments_Ok by (auto simp: split_path_def)


section \<open>What an object denotes\<close>

definition dir_bytes :: "dir_entry list \<Rightarrow> bytes" where
  "dir_bytes es = concat (map dir_entry_bytes es)"

inductive denotes :: "'d env \<Rightarrow> 'd eofs \<Rightarrow> node_kind \<Rightarrow> obj_ref \<Rightarrow> node \<Rightarrow> bool" for E fs where
  denotes_file: "object E fs ob data \<Longrightarrow> denotes E fs File ob (FileN data)"
| denotes_dir: "object E fs ob (dir_bytes es) \<Longrightarrow> length (dir_bytes es) \<le> max_meta_object_size \<Longrightarrow>
    list_all dir_wf es \<Longrightarrow> sorted (map de_name es) \<Longrightarrow> distinct (map de_name es) \<Longrightarrow> dom m = de_name ` set es \<Longrightarrow>
    (\<And>e. e \<in> set es \<Longrightarrow> \<exists>n. m (de_name e) = Some n \<and> denotes E fs (de_kind e) (de_obj e) n) \<Longrightarrow>
    denotes E fs Directory ob (DirN m)"

inductive_cases denotes_FileE: "denotes E fs File ob n"
inductive_cases denotes_DirE: "denotes E fs Directory ob n"

text \<open>The entries a directory holds, in any order.\<close>

definition entries_rep :: "'d env \<Rightarrow> 'd eofs \<Rightarrow> dir_entry list \<Rightarrow> (bytes \<Rightarrow> node option) \<Rightarrow> bool" where
  "entries_rep E fs es m \<longleftrightarrow> list_all dir_wf es \<and> distinct (map de_name es) \<and> dom m = de_name ` set es \<and>
     (\<forall>e \<in> set es. \<exists>n. m (de_name e) = Some n \<and> denotes E fs (de_kind e) (de_obj e) n)"

lemma denotes_kind: "denotes E fs kind ob n \<Longrightarrow> kind = (case n of FileN _ \<Rightarrow> File | DirN _ \<Rightarrow> Directory)"
  by (cases rule: denotes.cases) auto

lemma denotes_obj_wf: "denotes E fs kind ob n \<Longrightarrow> obj_wf ob"
  by (cases rule: denotes.cases) (auto simp: object_def)

lemma dir_bytes_empty: "list_all dir_wf es \<Longrightarrow> dir_bytes es = [] \<longleftrightarrow> es = []"
  by (cases es) (auto simp: dir_bytes_def dir_entry_bytes_def)

lemma entries_rep_sort: "entries_rep E fs es m \<Longrightarrow> entries_rep E fs (sort_key de_name es) m"
  by (simp add: entries_rep_def) (simp add: distinct_map)

lemma entry_index_Some: "entry_index name es = Some i \<Longrightarrow> i < length es \<and> de_name (es ! i) = name"
  by (induction es arbitrary: i) (auto split: if_splits)

lemma entry_index_None: "entry_index name es = None \<longleftrightarrow> name \<notin> de_name ` set es"
  by (induction es) auto

lemma entries_rep_entry:
  assumes "entries_rep E fs es m"
  shows "(case entry_index name es of
      None \<Rightarrow> m name = None
    | Some i \<Rightarrow> i < length es \<and> de_name (es ! i) = name \<and>
        (\<exists>n. m name = Some n \<and> denotes E fs (de_kind (es ! i)) (de_obj (es ! i)) n))"
proof (cases "entry_index name es")
  case None
  then have "name \<notin> dom m" using assms by (simp add: entries_rep_def entry_index_None)
  with None show ?thesis by (simp add: domIff)
next
  case (Some i)
  then have "i < length es" "de_name (es ! i) = name" using entry_index_Some by blast+
  with assms Some show ?thesis by (auto simp: entries_rep_def)
qed

lemma entries_rep_find:
  assumes "entries_rep E fs es m"
  shows "(case find (\<lambda>e. de_name e = name) es of
      None \<Rightarrow> m name = None
    | Some e \<Rightarrow> \<exists>n. m name = Some n \<and> denotes E fs (de_kind e) (de_obj e) n)"
proof (cases "find (\<lambda>e. de_name e = name) es")
  case None
  then have "name \<notin> dom m" using assms by (auto simp: entries_rep_def find_None_iff)
  with None show ?thesis by (simp add: domIff)
next
  case (Some e)
  then have "e \<in> set es" "de_name e = name" using find_SomeD by force+
  with assms Some show ?thesis by (auto simp: entries_rep_def)
qed

text \<open>The three edits of a list of entries.\<close>

lemma entries_rep_add:
  assumes "entries_rep E fs es m" and "m name = None" and "name_wf name" and "denotes E fs kind ob n"
  shows "entries_rep E fs (es @ [\<lparr>de_name = name, de_kind = kind, de_obj = ob\<rparr>]) (m(name \<mapsto> n))"
  using assms denotes_obj_wf [OF assms(4)] by (auto simp: entries_rep_def dir_wf_def domIff)

lemma entries_rep_update:
  assumes "entries_rep E fs es m" and "i < length es" and "denotes E fs (de_kind (es ! i)) ob n"
  shows "entries_rep E fs (es[i := (es ! i)\<lparr>de_obj := ob\<rparr>]) (m(de_name (es ! i) \<mapsto> n))"
proof -
  let ?e = "(es ! i)\<lparr>de_obj := ob\<rparr>" and ?es = "es[i := (es ! i)\<lparr>de_obj := ob\<rparr>]"
  have names: "map de_name ?es = map de_name es"
    using assms(2) by (simp add: map_update list_update_same_conv)
  then have set_names: "de_name ` set ?es = de_name ` set es" by (metis set_map)
  have d: "distinct (map de_name es)" using assms(1) by (simp add: entries_rep_def)
  have elem: "e = ?e \<or> e \<in> set es \<and> de_name e \<noteq> de_name (es ! i)" if "e \<in> set ?es" for e
  proof -
    from that obtain j where j: "j < length es" "e = ?es ! j" by (auto simp: in_set_conv_nth)
    show ?thesis
    proof (cases "j = i")
      case False
      then have "de_name (es ! j) \<noteq> de_name (es ! i)"
        using d j(1) assms(2) by (auto simp: distinct_conv_nth)
      with False j show ?thesis by auto
    qed (use j assms(2) in simp)
  qed
  have rep: "list_all dir_wf es" "dom m = de_name ` set es"
    "\<forall>e \<in> set es. \<exists>n. m (de_name e) = Some n \<and> denotes E fs (de_kind e) (de_obj e) n"
    using assms(1) by (simp_all add: entries_rep_def)
  have "dir_wf ?e"
    using rep(1) assms(2) denotes_obj_wf [OF assms(3)] by (simp add: dir_wf_def list_all_length)
  then have "list_all dir_wf ?es" using elem rep(1) unfolding list_all_iff by blast
  moreover have "dom (m(de_name (es ! i) \<mapsto> n)) = de_name ` set ?es"
    using rep(2) assms(2) unfolding set_names by auto
  moreover have "\<exists>n'. (m(de_name (es ! i) \<mapsto> n)) (de_name e) = Some n' \<and> denotes E fs (de_kind e) (de_obj e) n'"
    if "e \<in> set ?es" for e
    using elem [OF that]
  proof
    assume "e = ?e"
    then show ?thesis using assms(3) by simp
  qed (use rep(3) in simp)
  ultimately show ?thesis using d names by (simp add: entries_rep_def)
qed

lemma entries_rep_delete:
  assumes "entries_rep E fs es m" and "i < length es"
  shows "entries_rep E fs (take i es @ drop (i + 1) es) (m(de_name (es ! i) := None))"
proof -
  have es: "es = take i es @ es ! i # drop (i + 1) es" using assms(2) by (simp add: id_take_nth_drop)
  define xs ys e where "xs = take i es" and "ys = drop (i + 1) es" and "e = es ! i"
  have "es = xs @ e # ys" using es by (simp add: xs_def ys_def e_def)
  with assms(1) have rep: "list_all dir_wf (xs @ ys)" "distinct (map de_name (xs @ ys))" "de_name e \<notin> de_name ` set (xs @ ys)"
    "dom m = insert (de_name e) (de_name ` set (xs @ ys))"
    "\<forall>e \<in> set (xs @ ys). \<exists>n. m (de_name e) = Some n \<and> denotes E fs (de_kind e) (de_obj e) n"
    by (simp_all add: entries_rep_def image_Un)
  then have "dom (m(de_name e := None)) = de_name ` set (xs @ ys)" by simp
  moreover have "(m(de_name e := None)) (de_name x) = m (de_name x)" if "x \<in> set (xs @ ys)" for x
    using that rep(3) by (metis fun_upd_other image_eqI)
  ultimately have "entries_rep E fs (xs @ ys) (m(de_name e := None))"
    using rep(1,2,5) by (simp add: entries_rep_def)
  then show ?thesis by (simp add: xs_def ys_def e_def)
qed


section \<open>Reading\<close>

lemma read_dir_denotes:
  assumes "store_inv content dev_inv fs" and "denotes E fs Directory ob (DirN m)"
  obtains es where "read_dir E fs ob = Some (Ok es)" "entries_rep E fs es m" "sorted (map de_name es)"
    "o_size ob = length (dir_bytes es)"
  using assms(2)
proof (cases rule: denotes.cases)
  case (denotes_dir es)
  then have "read_dir E fs ob = Some (Ok es)"
    using read_object_object [OF assms(1)] by (simp add: read_dir_def) (simp add: dir_bytes_def parse_dir_concat)
  moreover have "entries_rep E fs es m" using denotes_dir by (simp add: entries_rep_def)
  ultimately show thesis using that denotes_dir by (simp add: object_def)
qed

lemma resolve_denotes:
  assumes "store_inv content dev_inv fs" and "denotes E fs kind ob n"
  shows "case tree_lookup n segs of
      Err e \<Rightarrow> fold_try (resolve_step E fs) segs (kind, ob) = Some (Err e)
    | Ok n' \<Rightarrow> \<exists>kind' ob'. fold_try (resolve_step E fs) segs (kind, ob) = Some (Ok (kind', ob')) \<and> denotes E fs kind' ob' n'"
  using assms(2)
proof (induction segs arbitrary: kind ob n)
  case (Cons s ss)
  show ?case
  proof (cases n)
    case (FileN data)
    with Cons.prems have "kind = File" using denotes_kind by fastforce
    with FileN show ?thesis by (simp add: resolve_step_def)
  next
    case (DirN m)
    with Cons.prems have k: "kind = Directory" using denotes_kind by fastforce
    with Cons.prems DirN obtain es where es: "read_dir E fs ob = Some (Ok es)" "entries_rep E fs es m"
      using read_dir_denotes [OF assms(1)] by metis
    show ?thesis
    proof (cases "find (\<lambda>e. de_name e = s) es")
      case None
      with entries_rep_find [OF es(2), of s] DirN k es(1) show ?thesis by (simp add: resolve_step_def)
    next
      case (Some e)
      with entries_rep_find [OF es(2), of s] obtain n' where n': "m s = Some n'" "denotes E fs (de_kind e) (de_obj e) n'"
        by auto
      have "resolve_step E fs s (kind, ob) = Some (Ok (de_kind e, de_obj e))"
        using k es(1) Some by (simp add: resolve_step_def)
      then show ?thesis using Cons.IH [OF n'(2)] DirN n'(1) by (simp split: result.splits)
    qed
  qed
qed simp


section \<open>Changing the tree\<close>

context eofs_disk
begin

lemma denotes_grows:
  assumes "ready fs" "ready fs'" "grows content fs fs'" "same_committed fs fs'" "denotes E fs kind ob n"
  shows "denotes E fs' kind ob n"
  using assms(5)
proof induction
  case (denotes_file ob data)
  then show ?case using object_grows assms(1-4) by (auto simp: settled_def intro: denotes.denotes_file)
next
  case (denotes_dir ob es m)
  show ?case
  proof (rule denotes.denotes_dir [where es = es])
    show "object E fs' ob (dir_bytes es)" using object_grows denotes_dir(1) assms(1-4) by (auto simp: settled_def)
    show "\<exists>n. m (de_name e) = Some n \<and> denotes E fs' (de_kind e) (de_obj e) n" if "e \<in> set es" for e
      using denotes_dir(7) [OF that] by blast
  qed (use denotes_dir in simp_all)
qed

lemma entries_rep_grows:
  assumes "ready fs" "ready fs'" "grows content fs fs'" "same_committed fs fs'" "entries_rep E fs es m"
  shows "entries_rep E fs' es m"
  using assms(5) denotes_grows [OF assms(1-4)] unfolding entries_rep_def by blast

lemma yields_store_dir:
  assumes "ready fs" and "entries_rep E fs es m"
  shows "does fs (store_dir E fs es) (\<lambda>fs' ob. denotes E fs' Directory ob (DirN m))"
proof -
  let ?es = "sort_key de_name es"
  let ?bs = "dir_bytes ?es"
  have wf: "list_all dir_wf es" using assms(2) by (simp add: entries_rep_def)
  have rep: "entries_rep E fs ?es m" by (rule entries_rep_sort [OF assms(2)])
  show ?thesis
  proof (cases "length ?bs > max_meta_object_size")
    case True
    then have "store_dir E fs es = Some (fs, Err NoSpace)"
      using wf by (simp add: store_dir_def serialize_dir_wf dir_bytes_def)
    then show ?thesis using assms(1) by (simp add: yields_def)
  next
    case False
    then have "store_dir E fs es = write_object_range E fs empty_obj 0 ?bs"
      using wf by (simp add: store_dir_def serialize_dir_wf dir_bytes_def write_object_def)
    moreover have "does fs (write_object_range E fs empty_obj 0 ?bs) (\<lambda>fs' ob. object E fs' ob (splice [] 0 ?bs))"
      using False by (intro yields_write_object_range [OF assms(1)]) (simp_all add: max_meta_object_size_def)
    then have "does fs (write_object_range E fs empty_obj 0 ?bs) (\<lambda>fs' ob. denotes E fs' Directory ob (DirN m))"
    proof (rule yields_conseq)
      fix fs' ob assume fs': "ready fs'" "grows content fs fs'" "same_config fs fs'" and ob: "object E fs' ob (splice [] 0 ?bs)"
      have "entries_rep E fs' ?es m"
        using rep entries_rep_grows [OF assms(1) fs'(1,2)] same_config_committed [OF fs'(3)] by blast
      then show "denotes E fs' Directory ob (DirN m)"
        using ob False by (intro denotes_dir [where es = ?es]) (auto simp: entries_rep_def splice_empty)
    qed
    ultimately show ?thesis by simp
  qed
qed

text \<open>
  An edit by path. An error of the tree is the engine's error, found before anything is written;
  otherwise the new root denotes the edited tree, or the device is full.
\<close>

lemma apply_in_dir_edit:
  assumes "ready fs" and "denotes E fs Directory dir t"
    and "\<And>m es. tree_lookup t segs = Ok (DirN m) \<Longrightarrow> entries_rep E fs es m \<Longrightarrow>
      (case f m of Err e \<Rightarrow> apply_op dop es = Err e | Ok m' \<Rightarrow> \<exists>es'. apply_op dop es = Ok es' \<and> entries_rep E fs es' m')"
  shows "case tree_edit t segs f of
      Err e \<Rightarrow> apply_in_dir E fs dir segs dop = Some (fs, Err e)
    | Ok t' \<Rightarrow> does fs (apply_in_dir E fs dir segs dop) (\<lambda>fs' ob. denotes E fs' Directory ob t')"
  using assms(2,3)
proof (induction segs arbitrary: dir t)
  case Nil
  obtain m where t: "t = DirN m" using denotes_kind [OF Nil.prems(1)] by (cases t) auto
  have ok: "ok_fs fs" using assms(1) by (simp add: settled_def)
  from Nil.prems(1) t obtain es where es: "read_dir E fs dir = Some (Ok es)" "entries_rep E fs es m"
    using read_dir_denotes [OF ok] by metis
  from Nil.prems(2) [OF _ es(2)] t
  have op: "case f m of Err e \<Rightarrow> apply_op dop es = Err e | Ok m' \<Rightarrow> \<exists>es'. apply_op dop es = Ok es' \<and> entries_rep E fs es' m'"
    by simp
  show ?case
  proof (cases "f m")
    case (Ok m')
    with op obtain es' where "apply_op dop es = Ok es'" "entries_rep E fs es' m'" by auto
    with Ok t es(1) show ?thesis using yields_store_dir [OF assms(1)] by simp
  qed (use op t es(1) in simp)
next
  case (Cons s ss)
  obtain m where t: "t = DirN m" using denotes_kind [OF Cons.prems(1)] by (cases t) auto
  have ok: "ok_fs fs" using assms(1) by (simp add: settled_def)
  from Cons.prems(1) t obtain es where es: "read_dir E fs dir = Some (Ok es)" "entries_rep E fs es m"
    using read_dir_denotes [OF ok] by metis
  note entry = entries_rep_entry [OF es(2), of s]
  show ?case
  proof (cases "entry_index s es")
    case None
    with entry t es(1) show ?thesis by simp
  next
    case (Some i)
    with entry obtain n where i: "i < length es" "de_name (es ! i) = s" "m s = Some n"
      and n: "denotes E fs (de_kind (es ! i)) (de_obj (es ! i)) n" by auto
    show ?thesis
    proof (cases n)
      case (FileN data)
      with denotes_kind [OF n] i t es(1) Some show ?thesis by simp
    next
      case (DirN m1)
      with denotes_kind [OF n] have kind: "de_kind (es ! i) = Directory" by simp
      have IH: "case tree_edit n ss f of
          Err e \<Rightarrow> apply_in_dir E fs (de_obj (es ! i)) ss dop = Some (fs, Err e)
        | Ok n' \<Rightarrow> does fs (apply_in_dir E fs (de_obj (es ! i)) ss dop) (\<lambda>fs' ob. denotes E fs' Directory ob n')"
        using n kind Cons.prems(2) t i(3) by (intro Cons.IH) auto
      show ?thesis
      proof (cases "tree_edit n ss f")
        case (Err e)
        with IH t i es(1) Some kind show ?thesis by simp
      next
        case (Ok n')
        with IH have sub: "does fs (apply_in_dir E fs (de_obj (es ! i)) ss dop) (\<lambda>fs' ob. denotes E fs' Directory ob n')"
          by simp
        have "does fs (io_then (apply_in_dir E fs (de_obj (es ! i)) ss dop)
            (\<lambda>fs1 ob. store_dir E fs1 (es[i := (es ! i)\<lparr>de_obj := ob\<rparr>]))) (\<lambda>fs' ob. denotes E fs' Directory ob (DirN (m(s \<mapsto> n'))))"
        proof (rule yields_io_then [OF sub], rule yields_store_dir)
          fix fs1 ob assume fs1: "ready fs1" "grows content fs fs1" "same_config fs fs1" "denotes E fs1 Directory ob n'"
          have "entries_rep E fs1 es m"
            using entries_rep_grows [OF assms(1) fs1(1,2) same_config_committed [OF fs1(3)] es(2)] .
          then show "entries_rep E fs1 (es[i := (es ! i)\<lparr>de_obj := ob\<rparr>]) (m(s \<mapsto> n'))"
            using entries_rep_update [of E fs1 es m i ob n'] i fs1(4) kind by simp
        qed
        with Ok t i es(1) Some kind show ?thesis by simp
      qed
    qed
  qed
qed

lemma yields_write_object_range_any:
  assumes "ready fs" and "object E fs ob data"
  shows "does fs (write_object_range E fs ob offset xs) (\<lambda>fs' ob'. object E fs' ob' (splice data offset xs))"
proof (cases "offset + length xs < 2 ^ 64")
  case False
  then show ?thesis
    using assms by (cases "xs = []") (simp_all add: write_object_range_def splice_def yields_pure, simp add: yields_def checked_add_def)
qed (use yields_write_object_range [OF assms] in simp)

end

lemma tree_lookup_last:
  assumes "tree_lookup t segs = Ok n" and "segs \<noteq> []"
  shows "\<exists>m. tree_lookup t (butlast segs) = Ok (DirN m) \<and> m (last segs) = Some n"
  using assms
proof (induction segs arbitrary: t)
  case (Cons s ss)
  from Cons.prems(1) obtain m n' where t: "t = DirN m" "m s = Some n'" "tree_lookup n' ss = Ok n"
    by (cases t) (auto split: option.splits)
  show ?case
  proof (cases "ss = []")
    case True
    with t show ?thesis by simp
  next
    case False
    with Cons.IH [of n'] t obtain m' where "tree_lookup n' (butlast ss) = Ok (DirN m')" "m' (last ss) = Some n" by blast
    with t False show ?thesis by simp
  qed
qed simp


section \<open>The filesystem as a whole\<close>

definition snap_bytes :: "snap_entry list \<Rightarrow> bytes" where
  "snap_bytes ss = concat (map snap_entry_bytes ss)"

definition snaps_rep :: "'d env \<Rightarrow> 'd eofs \<Rightarrow> obj_ref \<Rightarrow> (bytes \<times> node) list \<Rightarrow> bool" where
  "snaps_rep E fs table sns \<longleftrightarrow> (\<exists>ss. object E fs table (snap_bytes ss) \<and> length (snap_bytes ss) \<le> max_meta_object_size \<and>
     list_all snap_wf ss \<and> list_all2 (\<lambda>s (name, n). se_name s = name \<and> denotes E fs Directory (se_root s) n) ss sns)"

definition vfs_rep :: "'d env \<Rightarrow> 'd eofs \<Rightarrow> vfs \<Rightarrow> bool" where
  "vfs_rep E fs v \<longleftrightarrow> denotes E fs Directory (fs_live_root fs) (fst v) \<and> snaps_rep E fs (fs_snapshots fs) (snd v)"

text \<open>How an operation answers when the tree answers \<open>res\<close>: the same, except that the device may be full.\<close>

definition refines_to ::
  "'d env \<Rightarrow> ('d \<Rightarrow> bytes) \<Rightarrow> ('d \<Rightarrow> bool) \<Rightarrow> 'd eofs \<Rightarrow> ('d, unit) fs_io \<Rightarrow> (vfs, fs_error) result \<Rightarrow> bool" where
  "refines_to E content dev_inv fs m res \<longleftrightarrow>
     (\<exists>fs' r. m = Some (fs', r) \<and> settled content dev_inv fs' \<and> grows content fs fs' \<and> same_committed fs fs' \<and>
        (case r of
           Ok _ \<Rightarrow> \<exists>v. res = Ok v \<and> vfs_rep E fs' v
         | Err e \<Rightarrow> (res = Err e \<or> e = NoSpace) \<and> same_config fs fs'))"

lemma read_snapshots_rep:
  assumes "store_inv content dev_inv fs" and "snaps_rep E fs table sns"
  obtains ss where "read_snapshots E fs table = Some (Ok ss)" "list_all snap_wf ss"
    "list_all2 (\<lambda>s (name, n). se_name s = name \<and> denotes E fs Directory (se_root s) n) ss sns"
proof -
  from assms(2) obtain ss where ss: "object E fs table (snap_bytes ss)" "length (snap_bytes ss) \<le> max_meta_object_size"
    "list_all snap_wf ss" "list_all2 (\<lambda>s (name, n). se_name s = name \<and> denotes E fs Directory (se_root s) n) ss sns"
    by (auto simp: snaps_rep_def)
  have "read_snapshots E fs table = Some (Ok ss)"
    using read_object_object [OF assms(1) ss(1,2)] ss(3)
    by (simp add: read_snapshots_def) (simp add: snap_bytes_def parse_snapshots_concat)
  then show thesis using that ss by blast
qed

lemma snaps_names:
  assumes "list_all2 (\<lambda>s (name, n). se_name s = name \<and> P s n) ss sns"
  shows "se_name ` set ss = fst ` set sns"
  using assms by (induction rule: list_all2_induct) auto

context eofs_disk
begin

lemma snaps_rep_grows:
  assumes "ready fs" "ready fs'" "grows content fs fs'" "same_committed fs fs'" "snaps_rep E fs table sns"
  shows "snaps_rep E fs' table sns"
proof -
  from assms(5) obtain ss where ss: "object E fs table (snap_bytes ss)" "length (snap_bytes ss) \<le> max_meta_object_size"
    "list_all snap_wf ss" "list_all2 (\<lambda>s (name, n). se_name s = name \<and> denotes E fs Directory (se_root s) n) ss sns"
    by (auto simp: snaps_rep_def)
  have "object E fs' table (snap_bytes ss)" using object_grows ss(1) assms(1-4) by (auto simp: settled_def)
  moreover have "list_all2 (\<lambda>s (name, n). se_name s = name \<and> denotes E fs' Directory (se_root s) n) ss sns"
    using ss(4) by (rule list_all2_mono) (auto intro: denotes_grows [OF assms(1-4)])
  ultimately show ?thesis using ss(2,3) by (auto simp: snaps_rep_def)
qed

lemma refines_error: "ready fs \<Longrightarrow> res = Err e \<Longrightarrow> refines_to E content dev_inv fs (Some (fs, Err e)) res"
  by (simp add: refines_to_def)

text \<open>The step that adopts a new root, after something was written (\<open>fs\<close> to \<open>fs1\<close>).\<close>

lemma refines_set_live_root:
  assumes "ready fs" and "ready fs1" and "grows content fs fs1" and "same_config fs fs1" and "snaps_rep E fs (fs_snapshots fs) sns"
    and "does fs1 m (\<lambda>fs' ob. denotes E fs' Directory ob t')"
  shows "refines_to E content dev_inv fs (set_live_root m) (Ok (t', sns))"
proof -
  from assms(6) obtain fs2 r where m: "m = Some (fs2, r)" "ready fs2" "grows content fs1 fs2" "same_config fs1 fs2"
    and r: "case r of Err e \<Rightarrow> e = NoSpace | Ok ob \<Rightarrow> denotes E fs2 Directory ob t'"
    unfolding yields_def by blast
  have g: "grows content fs fs2" "same_config fs fs2"
    using grows_trans [OF assms(3) m(3)] same_config_trans [OF assms(4) m(4)] by blast+
  show ?thesis
  proof (cases r)
    case (Err e)
    with m g r show ?thesis
      unfolding refines_to_def set_live_root_def by (auto simp: same_config_committed)
  next
    case (Ok root)
    let ?fs' = "fs2\<lparr>fs_live_root := root, fs_dirty := True\<rparr>"
    have fs': "ready ?fs'" "grows content fs2 ?fs'" "same_committed fs2 ?fs'"
      using m(2) by (simp_all add: settled_def store_inv_def grows_def same_committed_def)
    have to: "grows content fs ?fs'" "same_committed fs ?fs'"
      using grows_trans [OF g(1) fs'(2)] same_committed_trans [OF same_config_committed [OF g(2)] fs'(3)] by blast+
    have "denotes E ?fs' Directory root t'"
      using denotes_grows [OF m(2) fs'] r Ok by simp
    moreover have "snaps_rep E ?fs' (fs_snapshots fs) sns"
      by (rule snaps_rep_grows [OF assms(1) fs'(1) to assms(5)])
    ultimately have "vfs_rep E ?fs' (t', sns)"
      using g(2) by (simp add: vfs_rep_def same_config_fields)
    then show ?thesis
      using m(1) Ok fs'(1) to unfolding refines_to_def set_live_root_def by simp
  qed
qed

lemma refines_edit:
  assumes "ready fs" and "ready fs1" and "grows content fs fs1" and "same_config fs fs1"
    and "vfs_rep E fs (t, sns)"
    and "\<And>m es. tree_lookup t segs = Ok (DirN m) \<Longrightarrow> entries_rep E fs1 es m \<Longrightarrow>
      (case f m of Err e \<Rightarrow> apply_op dop es = Err e | Ok m' \<Rightarrow> \<exists>es'. apply_op dop es = Ok es' \<and> entries_rep E fs1 es' m')"
  shows "refines_to E content dev_inv fs (set_live_root (apply_in_dir E fs1 (fs_live_root fs) segs dop)) (with_tree (tree_edit t segs f) sns)"
proof -
  have live: "denotes E fs1 Directory (fs_live_root fs) t"
    using assms(5) denotes_grows [OF assms(1-3) same_config_committed [OF assms(4)]] by (simp add: vfs_rep_def)
  have edit: "case tree_edit t segs f of
      Err e \<Rightarrow> apply_in_dir E fs1 (fs_live_root fs) segs dop = Some (fs1, Err e)
    | Ok t' \<Rightarrow> does fs1 (apply_in_dir E fs1 (fs_live_root fs) segs dop) (\<lambda>fs' ob. denotes E fs' Directory ob t')"
    by (rule apply_in_dir_edit [OF assms(2) live]) (rule assms(6))
  show ?thesis
  proof (cases "tree_edit t segs f")
    case (Err e)
    with edit have "apply_in_dir E fs1 (fs_live_root fs) segs dop = Some (fs1, Err e)" by simp
    then show ?thesis
      using Err assms(2-4) by (simp add: refines_to_def set_live_root_def with_tree_def same_config_committed)
  next
    case (Ok t')
    with edit have "does fs1 (apply_in_dir E fs1 (fs_live_root fs) segs dop) (\<lambda>fs' ob. denotes E fs' Directory ob t')" by simp
    then show ?thesis
      using refines_set_live_root [OF assms(1-4)] assms(5) Ok by (simp add: vfs_rep_def with_tree_def)
  qed
qed

text \<open>The operations.\<close>

lemma refines_create:
  assumes "ready fs" and "vfs_rep E fs (t, sns)" and "utf8_valid path" and "denotes E fs kind empty_obj new"
  shows "refines_to E content dev_inv fs (create_node E fs path kind) (with_tree (tree_create t path new) sns)"
proof (cases "split_path path")
  case (Err e)
  then show ?thesis using assms(1) by (simp add: create_node_def tree_create_def with_tree_def refines_error)
next
  case (Ok segs)
  let ?nm = "last segs" and ?f = "\<lambda>m. if m (last segs) = None then Ok (m(last segs \<mapsto> new)) else Err AlreadyExists"
  show ?thesis
  proof (cases "segs = []")
    case True
    then show ?thesis using Ok assms(1) by (simp add: create_node_def tree_create_def with_tree_def refines_error)
  next
    case False
    have wf: "name_wf ?nm" using split_path_wf [OF Ok assms(3)] False by (simp add: list_all_iff)
    have "refines_to E content dev_inv fs (set_live_root (apply_in_dir E fs (fs_live_root fs) (butlast segs) (Insert ?nm kind empty_obj)))
        (with_tree (tree_edit t (butlast segs) ?f) sns)"
    proof (rule refines_edit [OF assms(1,1) grows_refl same_config_refl assms(2)])
      fix m es assume rep: "entries_rep E fs es m"
      have "list_ex (\<lambda>e. de_name e = ?nm) es \<longleftrightarrow> ?nm \<in> de_name ` set es"
        by (auto simp: list_ex_iff) (metis image_eqI)
      then have "list_ex (\<lambda>e. de_name e = ?nm) es \<longleftrightarrow> ?nm \<in> dom m"
        using rep by (simp add: entries_rep_def)
      then show "case ?f m of Err e \<Rightarrow> apply_op (Insert ?nm kind empty_obj) es = Err e
          | Ok m' \<Rightarrow> \<exists>es'. apply_op (Insert ?nm kind empty_obj) es = Ok es' \<and> entries_rep E fs es' m'"
        using entries_rep_add [OF rep _ wf assms(4)] by (auto simp: apply_op_def domIff)
    qed
    then show ?thesis using Ok False by (simp add: create_node_def tree_create_def)
  qed
qed

lemma resolve_live:
  assumes "ready fs" and "vfs_rep E fs (t, sns)"
  shows "case tree_lookup t segs of
      Err e \<Rightarrow> resolve E fs (fs_live_root fs) segs = Some (Err e)
    | Ok n \<Rightarrow> \<exists>kind ob. resolve E fs (fs_live_root fs) segs = Some (Ok (kind, ob)) \<and> denotes E fs kind ob n"
  using resolve_denotes [of content dev_inv fs E Directory "fs_live_root fs" t segs] assms
  by (simp add: settled_def vfs_rep_def) (simp only: resolve_def)

lemma refines_write:
  assumes "ready fs" and "vfs_rep E fs (t, sns)"
  shows "refines_to E content dev_inv fs (fs_write E fs path offset xs) (with_tree (tree_write t path offset xs) sns)"
proof (cases "split_path path")
  case (Err e)
  then show ?thesis using assms(1) by (simp add: fs_write_def tree_write_def with_tree_def refines_error)
next
  case (Ok segs)
  note res = resolve_live [OF assms, of segs]
  show ?thesis
  proof (cases "segs = [] \<or> (\<forall>data. tree_lookup t segs \<noteq> Ok (FileN data))")
    case True
    show ?thesis
    proof (cases "segs = []")
      case False
      show ?thesis
      proof (cases "tree_lookup t segs")
        case (Ok n)
        with True False obtain m where n: "n = DirN m" by (cases n) auto
        with res Ok obtain ob where "resolve E fs (fs_live_root fs) segs = Some (Ok (Directory, ob))"
          using denotes_kind by fastforce
        then show ?thesis
          using False n Ok \<open>split_path path = Ok segs\<close> assms(1) by (simp add: fs_write_def tree_write_def with_tree_def refines_error)
      qed (use False res \<open>split_path path = Ok segs\<close> assms(1) in \<open>simp add: fs_write_def tree_write_def with_tree_def refines_error\<close>)
    qed (use Ok assms(1) in \<open>simp add: fs_write_def tree_write_def with_tree_def refines_error\<close>)
  next
    case False
    then obtain data where data: "tree_lookup t segs = Ok (FileN data)" and ne: "segs \<noteq> []" by auto
    with res obtain ob where ob: "resolve E fs (fs_live_root fs) segs = Some (Ok (File, ob))" "object E fs ob data"
      using denotes_kind by (fastforce elim: denotes_FileE)
    obtain m0 where m0: "tree_lookup t (butlast segs) = Ok (DirN m0)" "m0 (last segs) = Some (FileN data)"
      using tree_lookup_last [OF data ne] by blast
    let ?nm = "last segs" and ?new = "FileN (splice data offset xs)"
    let ?f = "\<lambda>m. Ok (m(last segs \<mapsto> FileN (splice data offset xs)))"
    obtain fs1 r where w: "write_object_range E fs ob offset xs = Some (fs1, r)" "ready fs1" "grows content fs fs1" "same_config fs fs1"
      and r: "case r of Err e \<Rightarrow> e = NoSpace | Ok ob' \<Rightarrow> object E fs1 ob' (splice data offset xs)"
      using yields_write_object_range_any [OF assms(1) ob(2)] unfolding yields_def by blast
    have code: "fs_write E fs path offset xs =
        io_then (Some (fs1, r)) (\<lambda>fs1 ob'. set_live_root (apply_in_dir E fs1 (fs_live_root fs) (butlast segs) (Replace ?nm ob')))"
      using Ok ne ob(1) w(1) by (simp add: fs_write_def)
    have tree: "tree_write t path offset xs = tree_edit t (butlast segs) ?f"
      using Ok ne data by (simp add: tree_write_def)
    show ?thesis
    proof (cases r)
      case (Err e)
      with r w code show ?thesis by (simp add: refines_to_def same_config_committed)
    next
      case (Ok ob')
      with r have ob': "denotes E fs1 File ob' ?new" by (simp add: denotes_file)
      have "refines_to E content dev_inv fs (set_live_root (apply_in_dir E fs1 (fs_live_root fs) (butlast segs) (Replace ?nm ob')))
          (with_tree (tree_edit t (butlast segs) ?f) sns)"
      proof (rule refines_edit [OF assms(1) w(2-4) assms(2)])
        fix m es assume m: "tree_lookup t (butlast segs) = Ok (DirN m)" and rep: "entries_rep E fs1 es m"
        with m0 have "m ?nm = Some (FileN data)" by simp
        with entries_rep_entry [OF rep, of ?nm] obtain i where i: "entry_index ?nm es = Some i" "i < length es"
          "de_name (es ! i) = ?nm" "denotes E fs1 (de_kind (es ! i)) (de_obj (es ! i)) (FileN data)"
          by (auto split: option.splits)
        then have "de_kind (es ! i) = File" using denotes_kind by fastforce
        with i ob' entries_rep_update [OF rep i(2), of ob' ?new]
        show "case ?f m of Err e \<Rightarrow> apply_op (Replace ?nm ob') es = Err e
            | Ok m' \<Rightarrow> \<exists>es'. apply_op (Replace ?nm ob') es = Ok es' \<and> entries_rep E fs1 es' m'"
          by (simp add: apply_op_def)
      qed
      then show ?thesis using code tree Ok by simp
    qed
  qed
qed

lemma denotes_dir_size:
  assumes "denotes E fs Directory ob (DirN m)"
  shows "o_size ob = 0 \<longleftrightarrow> dom m = {}"
  using assms
proof (cases rule: denotes.cases)
  case (denotes_dir es)
  then have "o_size ob = length (dir_bytes es)" by (simp add: object_def)
  then show ?thesis using denotes_dir(3,6) by (simp add: dir_bytes_empty)
qed

lemma refines_remove:
  assumes "ready fs" and "vfs_rep E fs (t, sns)"
  shows "refines_to E content dev_inv fs (remove E fs path) (with_tree (tree_remove t path) sns)"
proof (cases "split_path path")
  case (Err e)
  then show ?thesis using assms(1) by (simp add: remove_def tree_remove_def with_tree_def refines_error)
next
  case (Ok segs)
  note res = resolve_live [OF assms, of segs]
  show ?thesis
  proof (cases "segs = []")
    case True
    then show ?thesis using Ok assms(1) by (simp add: remove_def tree_remove_def with_tree_def refines_error)
  next
    case ne: False
    show ?thesis
    proof (cases "tree_lookup t segs")
      case (Err e)
      then show ?thesis
        using ne res \<open>split_path path = Ok segs\<close> assms(1) by (simp add: remove_def tree_remove_def with_tree_def refines_error)
    next
      case n: (Ok n)
      with res obtain kind ob where ob: "resolve E fs (fs_live_root fs) segs = Some (Ok (kind, ob))" "denotes E fs kind ob n" by auto
      have full: "(kind = Directory \<and> o_size ob \<noteq> 0) \<longleftrightarrow> (case n of FileN _ \<Rightarrow> False | DirN m \<Rightarrow> dom m \<noteq> {})"
        using denotes_kind [OF ob(2)] denotes_dir_size ob(2) by (cases n) auto
      let ?nm = "last segs" and ?f = "\<lambda>m. Ok (m(last segs := None))"
      have edit: "refines_to E content dev_inv fs (set_live_root (apply_in_dir E fs (fs_live_root fs) (butlast segs) (Remove ?nm)))
          (with_tree (tree_edit t (butlast segs) ?f) sns)"
      proof (rule refines_edit [OF assms(1,1) grows_refl same_config_refl assms(2)])
        fix m es assume m: "tree_lookup t (butlast segs) = Ok (DirN m)" and rep: "entries_rep E fs es m"
        with tree_lookup_last [OF n ne] have "m ?nm = Some n" by auto
        with entries_rep_entry [OF rep, of ?nm] obtain i where "entry_index ?nm es = Some i" "i < length es" "de_name (es ! i) = ?nm"
          by (auto split: option.splits)
        with entries_rep_delete [OF rep]
        show "case ?f m of Err e \<Rightarrow> apply_op (Remove ?nm) es = Err e
            | Ok m' \<Rightarrow> \<exists>es'. apply_op (Remove ?nm) es = Ok es' \<and> entries_rep E fs es' m'"
          by (fastforce simp: apply_op_def)
      qed
      show ?thesis
        using edit full ne n ob(1) Ok assms(1) by (auto simp: remove_def tree_remove_def with_tree_def refines_error)
    qed
  qed
qed

lemma refines_snapshot:
  assumes "ready fs" and "vfs_rep E fs (t, sns)" and "utf8_valid name" and "fs_committed_txg fs + 1 < 2 ^ 64"
  shows "refines_to E content dev_inv fs (snapshot_create E fs name) (vfs_apply (t, sns) (OpSnapshot name))"
proof (cases "check_name name")
  case (Err e)
  then show ?thesis using assms(1) by (simp add: snapshot_create_def refines_error)
next
  case (Ok u)
  have ok: "ok_fs fs" and table: "snaps_rep E fs (fs_snapshots fs) sns" and live: "denotes E fs Directory (fs_live_root fs) t"
    using assms(1,2) by (simp_all add: settled_def vfs_rep_def)
  obtain ss where ss: "read_snapshots E fs (fs_snapshots fs) = Some (Ok ss)" "list_all snap_wf ss"
    "list_all2 (\<lambda>s (name, n). se_name s = name \<and> denotes E fs Directory (se_root s) n) ss sns"
    by (rule read_snapshots_rep [OF ok table])
  have taken: "list_ex (\<lambda>e. se_name e = name) ss \<longleftrightarrow> name \<in> fst ` set sns"
    unfolding snaps_names [OF ss(3), symmetric] list_ex_iff by (metis (mono_tags, lifting) image_iff)
  let ?e = "\<lparr>se_txg = fs_committed_txg fs + 1, se_name = name, se_root = fs_live_root fs\<rparr>"
  let ?ss = "ss @ [?e]"
  have "name_wf name" using Ok assms(3) by (simp add: check_name_def name_wf_def split: if_splits)
  then have wf: "list_all snap_wf ?ss" using ss(2) denotes_obj_wf [OF live] assms(4) by (simp add: snap_wf_def)
  then have ser: "serialize_snapshots ?ss = Some (snap_bytes ?ss)" by (simp only: serialize_snapshots_wf snap_bytes_def)
  show ?thesis
  proof (cases "name \<in> fst ` set sns")
    case True
    then show ?thesis using Ok ss(1) taken assms(1) by (simp add: snapshot_create_def refines_error)
  next
    case free: False
    show ?thesis
    proof (cases "length (snap_bytes ?ss) > max_meta_object_size")
      case True
      then have "snapshot_create E fs name = Some (fs, Err NoSpace)"
        using Ok ss(1) taken free ser assms(4) by (simp add: snapshot_create_def plus_exec_def)
      then show ?thesis using assms(1) by (simp add: refines_to_def)
    next
      case False
      have "does fs (write_object_range E fs empty_obj 0 (snap_bytes ?ss)) (\<lambda>fs' ob. object E fs' ob (splice [] 0 (snap_bytes ?ss)))"
        by (rule yields_write_object_range_any [OF assms(1) object_empty])
      then obtain fs1 r where w: "write_object E fs (snap_bytes ?ss) = Some (fs1, r)" "ready fs1" "grows content fs fs1" "same_config fs fs1"
        and r: "case r of Err e \<Rightarrow> e = NoSpace | Ok ob \<Rightarrow> object E fs1 ob (snap_bytes ?ss)"
        unfolding yields_def splice_empty write_object_def by blast
      have code: "snapshot_create E fs name = io_then (Some (fs1, r)) (\<lambda>fs1 table. Some (fs1\<lparr>fs_snapshots := table, fs_dirty := True\<rparr>, Ok ()))"
        using Ok ss(1) taken free ser assms(4) False w(1) by (simp add: snapshot_create_def plus_exec_def)
      show ?thesis
      proof (cases r)
        case (Err e)
        with r w code show ?thesis by (simp add: refines_to_def same_config_committed)
      next
        case new: (Ok table')
        let ?fs' = "fs1\<lparr>fs_snapshots := table', fs_dirty := True\<rparr>"
        have fs': "ready ?fs'" "grows content fs1 ?fs'" "same_committed fs1 ?fs'"
          using w(2) by (simp_all add: settled_def store_inv_def grows_def same_committed_def)
        have to: "grows content fs ?fs'" "same_committed fs ?fs'"
          using grows_trans [OF w(3) fs'(2)] same_committed_trans [OF same_config_committed [OF w(4)] fs'(3)] by blast+
        note keep = denotes_grows [OF assms(1) fs'(1) to]
        have "object E ?fs' table' (snap_bytes ?ss)"
          using object_grows [of fs1 ?fs'] r new w(2) fs' by (simp add: settled_def)
        moreover have "list_all2 (\<lambda>s (name, n). se_name s = name \<and> denotes E ?fs' Directory (se_root s) n) ?ss (sns @ [(name, t)])"
        proof (rule list_all2_appendI)
          show "list_all2 (\<lambda>s (name, n). se_name s = name \<and> denotes E ?fs' Directory (se_root s) n) ss sns"
            using ss(3) by (rule list_all2_mono) (use keep in auto)
        qed (use keep [OF live] in simp)
        ultimately have "snaps_rep E ?fs' table' (sns @ [(name, t)])"
          using False wf by (auto simp: snaps_rep_def intro!: exI [of _ ?ss])
        moreover have "fs_live_root fs1 = fs_live_root fs" using w(4) by (simp add: same_config_fields)
        ultimately have "vfs_rep E ?fs' (t, sns @ [(name, t)])" using keep [OF live] by (simp add: vfs_rep_def)
        then show ?thesis using code new Ok free fs'(1) to by (simp add: refines_to_def)
      qed
    qed
  qed
qed

end

text \<open>Paths and names are Rust strings, and the transaction counter has room.\<close>

fun op_wf :: "fs_op \<Rightarrow> bool" where
  "op_wf (OpCreate path) = utf8_valid path"
| "op_wf (OpMkdir path) = utf8_valid path"
| "op_wf (OpWrite path offset xs) = utf8_valid path"
| "op_wf (OpRemove path) = utf8_valid path"
| "op_wf (OpSnapshot name) = utf8_valid name"

lemma denotes_empty: "denotes E fs File empty_obj (FileN [])" "denotes E fs Directory empty_obj (DirN Map.empty)"
  by (auto intro: denotes_file denotes_dir [where es = "[]"] simp: dir_bytes_def)

context eofs_disk
begin

theorem refines_apply:
  assumes "ready fs" and "vfs_rep E fs v" and "op_wf opn" and "fs_committed_txg fs + 1 < 2 ^ 64"
  shows "refines_to E content dev_inv fs (fs_apply E fs opn) (vfs_apply v opn)"
proof -
  obtain t sns where v: "v = (t, sns)" by fastforce
  show ?thesis
    using assms v refines_snapshot [OF assms(1)]
    by (cases opn) (auto simp: create_file_def mkdir_def denotes_empty intro!: refines_create refines_write refines_remove)
qed

end

lemma read_at_root_denotes:
  assumes "store_inv content dev_inv fs" and "denotes E fs Directory root t"
  shows "read_at_root E fs root path offset len = Some (tree_read t path offset len)"
    and "list_at_root E fs root path = Some (tree_list t path)"
proof -
  have "read_at_root E fs root path offset len = Some (tree_read t path offset len) \<and>
      list_at_root E fs root path = Some (tree_list t path)"
  proof (cases "split_path path")
    case (Ok segs)
    note res = resolve_denotes [OF assms, of segs, folded resolve_def]
    show ?thesis
    proof (cases "tree_lookup t segs")
      case (Err e)
      with res Ok show ?thesis
        by (simp add: read_at_root_def list_at_root_def tree_read_def tree_list_def resolve_def)
    next
      case n: (Ok n)
      with res obtain kind ob where ob: "resolve E fs root segs = Some (Ok (kind, ob))" "denotes E fs kind ob n"
        by (auto simp: resolve_def)
      show ?thesis
      proof (cases n)
        case (FileN data)
        with ob(2) have "kind = File" "object E fs ob data" using denotes_kind by (fastforce elim: denotes_FileE)+
        then show ?thesis
          using read_object_range_object [OF assms(1)] FileN n ob(1) Ok
          by (simp add: read_at_root_def list_at_root_def tree_read_def tree_list_def)
      next
        case (DirN m)
        with ob(2) have k: "kind = Directory" using denotes_kind by fastforce
        with ob(2) DirN obtain es where es: "read_dir E fs ob = Some (Ok es)" "entries_rep E fs es m" "sorted (map de_name es)"
          using read_dir_denotes [OF assms(1)] by metis
        have "map de_name es = sorted_list_of_set (dom m)"
          using es(2,3) by (metis entries_rep_def set_map sorted_list_of_set.idem_if_sorted_distinct)
        then show ?thesis
          using k es(1) DirN n ob(1) Ok by (simp add: read_at_root_def list_at_root_def tree_read_def tree_list_def)
      qed
    qed
  qed (simp add: read_at_root_def list_at_root_def tree_read_def tree_list_def)
  then show "read_at_root E fs root path offset len = Some (tree_read t path offset len)"
    "list_at_root E fs root path = Some (tree_list t path)" by simp_all
qed

lemma snapshot_view_rep:
  assumes "store_inv content dev_inv fs" and "snaps_rep E fs (fs_snapshots fs) sns"
  shows "case map_of sns name of
      None \<Rightarrow> snapshot_view E fs name = Some (Err FsNotFound)
    | Some st \<Rightarrow> \<exists>root. snapshot_view E fs name = Some (Ok root) \<and> denotes E fs Directory root st"
proof -
  obtain ss where ss: "read_snapshots E fs (fs_snapshots fs) = Some (Ok ss)"
    "list_all2 (\<lambda>s (name, n). se_name s = name \<and> denotes E fs Directory (se_root s) n) ss sns"
    by (rule read_snapshots_rep [OF assms])
  from ss(2) have "case map_of sns name of
      None \<Rightarrow> find (\<lambda>e. se_name e = name) ss = None
    | Some st \<Rightarrow> \<exists>s. find (\<lambda>e. se_name e = name) ss = Some s \<and> denotes E fs Directory (se_root s) st"
    by (induction rule: list_all2_induct) (auto split: option.splits)
  then show ?thesis using ss(1) by (auto simp: snapshot_view_def split: option.splits)
qed


section \<open>Properties\<close>

text \<open>
  C3: the filesystem refines the tree. On a settled filesystem that represents a live tree and its
  snapshots, creating, writing, removing by path and taking a snapshot always return. Success
  means the tree's operation succeeds and the new state represents its result; an error is the
  tree's error, or the device (or a directory's size limit) is full, and the state still
  represents what it did: in particular a snapshot never changes.
\<close>

theorem namespace_refinement:
  assumes "\<forall>bs. length (h bs) = 32" and "lz4_ok c d"
    and "settled mem_data mem_device_inv fs" and "vfs_rep (mem_env h c d) fs v" and "op_wf opn" and "fs_committed_txg fs + 1 < 2 ^ 64"
  shows "\<exists>fs' r. fs_apply (mem_env h c d) fs opn = Some (fs', r) \<and> settled mem_data mem_device_inv fs' \<and>
     (case r of
        Ok _ \<Rightarrow> \<exists>v'. vfs_apply v opn = Ok v' \<and> vfs_rep (mem_env h c d) fs' v'
      | Err e \<Rightarrow> (vfs_apply v opn = Err e \<or> e = NoSpace) \<and> vfs_rep (mem_env h c d) fs' v)"
proof -
  let ?E = "mem_env h c d"
  have E: "mem_env (fix32 h) (fst (lz4_pair c d)) (snd (lz4_pair c d)) = ?E"
    using assms(1,2) by (simp add: fix32_id lz4_pair_def)
  obtain fs' r where a: "fs_apply ?E fs opn = Some (fs', r)" "settled mem_data mem_device_inv fs'" "grows mem_data fs fs'"
      "same_committed fs fs'"
    and r: "case r of Ok _ \<Rightarrow> \<exists>v'. vfs_apply v opn = Ok v' \<and> vfs_rep ?E fs' v'
        | Err e \<Rightarrow> (vfs_apply v opn = Err e \<or> e = NoSpace) \<and> same_config fs fs'"
    using memdisk.refines_apply [of fs h c d v opn, unfolded E, OF assms(3-6)] unfolding refines_to_def by blast
  have "vfs_rep ?E fs' v" if "same_config fs fs'"
    using memdisk.denotes_grows [of fs fs' h c d, unfolded E, OF assms(3) a(2-4)]
      memdisk.snaps_rep_grows [of fs fs' h c d, unfolded E, OF assms(3) a(2-4)] assms(4) that
    by (simp add: vfs_rep_def same_config_fields)
  with a r show ?thesis by (intro exI [of _ fs'] exI [of _ r]) (auto split: result.splits)
qed

abbreviation "demo_mem_env \<equiv> mem_env demo_hash id (\<lambda>bs _. Some bs)"

definition demo_mem_fs :: "mem_device eofs" where
  "demo_mem_fs = mounted \<lparr>mem_data = demo_image\<rparr> 16384 (demo_ub 2)"

lemma demo_mem_settled: "settled mem_data mem_device_inv demo_mem_fs" "vfs_rep E demo_mem_fs (DirN Map.empty, [])"
proof -
  have "block_size_ok 512" "alloc_unit_ok 512 512"
    by (simp_all add: block_size_ok_def alloc_unit_ok_def power_of_two_def upt_rec)
  then show "settled mem_data mem_device_inv demo_mem_fs"
    by (simp add: demo_mem_fs_def settled_def mounted_def store_inv_def mem_device_inv_def alloc_inv_def alloc_aligned_def
        allocator_new_def demo_ub_def eofs_data_start_def slot_size_def)
  show "vfs_rep E demo_mem_fs (DirN Map.empty, [])"
    using denotes_empty(2) [of E demo_mem_fs]
    by (auto simp: vfs_rep_def snaps_rep_def snap_bytes_def demo_mem_fs_def mounted_def demo_ub_def intro!: exI [of _ "[]"])
qed

theorem namespace_refinement_witness:
  "\<exists>fs'. fs_apply demo_mem_env demo_mem_fs (OpMkdir [0x61]) = Some (fs', Ok ()) \<and>
     vfs_rep demo_mem_env fs' (DirN [[0x61] \<mapsto> DirN Map.empty], [])"
proof -
  have lz4: "lz4_ok id (\<lambda>bs _. Some bs)" by (simp add: lz4_ok_def)
  have txg: "fs_committed_txg demo_mem_fs + 1 < 2 ^ 64" by (simp add: demo_mem_fs_def mounted_def demo_ub_def)
  have tree: "vfs_apply (DirN Map.empty, []) (OpMkdir [0x61]) = Ok (DirN [[0x61] \<mapsto> DirN Map.empty], [])"
    by (simp add: with_tree_def tree_create_def split_path_def check_name_def max_name_len_def)
  have h32: "\<forall>bs. length (demo_hash bs) = 32" by simp
  have wf: "op_wf (OpMkdir [0x61])" by simp
  obtain fs' r where a: "fs_apply demo_mem_env demo_mem_fs (OpMkdir [0x61]) = Some (fs', r)"
    and r: "case r of Ok _ \<Rightarrow> \<exists>v'. vfs_apply (DirN Map.empty, []) (OpMkdir [0x61]) = Ok v' \<and> vfs_rep demo_mem_env fs' v'
      | Err e \<Rightarrow> (vfs_apply (DirN Map.empty, []) (OpMkdir [0x61]) = Err e \<or> e = NoSpace) \<and>
          vfs_rep demo_mem_env fs' (DirN Map.empty, [])"
    using namespace_refinement [OF h32 lz4 demo_mem_settled(1) demo_mem_settled(2) wf txg] by blast
  let ?bs = "dir_entry_bytes \<lparr>de_name = [0x61], de_kind = Directory, de_obj = empty_obj\<rparr>"
  have len: "length ?bs = 77" by (simp add: dir_entry_bytes_def)
  have "div_ceil 77 512 = 1" by (simp add: div_ceil_def)
  then have "\<exists>fs1 p. write_block demo_mem_env demo_mem_fs ?bs = Some (fs1, Ok p)"
    using len by (auto simp: write_block_def encode_block_def allocate_def aligned_def demo_mem_fs_def mounted_def demo_ub_def
        allocator_new_def times_exec_def checked_add_def mem_env_def mem_device_ops_def mem_device_write_Ok mem_device_inv_def)
  moreover have "store_dir demo_mem_env demo_mem_fs [\<lparr>de_name = [0x61], de_kind = Directory, de_obj = empty_obj\<rparr>] =
      io_then (write_block demo_mem_env demo_mem_fs ?bs) (\<lambda>fs1 p. Some (fs1, Ok \<lparr>o_size = 77, o_level = 0, o_root = p\<rparr>))"
    using len by (simp add: store_dir_def serialize_dir_def max_name_len_def max_meta_object_size_def write_object_one_block
        demo_mem_fs_def mounted_def demo_ub_def Let_def flip: length_greater_0_conv)
  moreover have "fs_live_root demo_mem_fs = empty_obj" by (simp add: demo_mem_fs_def mounted_def demo_ub_def)
  ultimately have "\<exists>u. r = Ok u"
    using a by (auto simp: mkdir_def create_node_def split_path_def check_name_def max_name_len_def and_then_def apply_op_def set_live_root_def)
  with a r tree show ?thesis by auto
qed

text \<open>
  C23: what a filesystem shows is its tree. Reading and listing by path, in the live tree and in
  every snapshot, return on every path and answer what the tree holds there (a listing in name
  order), or the error that the path has in the tree.
\<close>

theorem namespace_reads:
  assumes "store_inv content dev_inv fs" and "vfs_rep E fs (t, sns)"
  shows "fs_read E fs path offset len = Some (tree_read t path offset len) \<and>
    fs_list E fs path = Some (tree_list t path) \<and>
    (case map_of sns name of
       None \<Rightarrow> snapshot_view E fs name = Some (Err FsNotFound)
     | Some st \<Rightarrow> \<exists>root. snapshot_view E fs name = Some (Ok root) \<and>
         read_at_root E fs root path offset len = Some (tree_read st path offset len) \<and>
         list_at_root E fs root path = Some (tree_list st path))"
proof -
  have rep: "denotes E fs Directory (fs_live_root fs) t" "snaps_rep E fs (fs_snapshots fs) sns"
    using assms(2) by (simp_all add: vfs_rep_def)
  show ?thesis
    using snapshot_view_rep [OF assms(1) rep(2), of name] read_at_root_denotes [OF assms(1)] rep(1)
    by (cases "map_of sns name") (auto simp: fs_read_def fs_list_def)
qed

theorem namespace_reads_witness:
  "fs_read demo_mem_env demo_mem_fs [0x61] 0 4 = Some (Err FsNotFound) \<and> fs_list demo_mem_env demo_mem_fs [0x2F] = Some (Ok [])"
proof -
  have "store_inv mem_data mem_device_inv demo_mem_fs" using demo_mem_settled(1) by (simp add: settled_def)
  then show ?thesis
    using namespace_reads [OF _ demo_mem_settled(2), of mem_data mem_device_inv demo_mem_env]
    by (simp add: tree_read_def tree_list_def split_path_def check_name_def max_name_len_def)
qed

end
