(* ===== verification/L2_Switch.thy ===== *)
theory L2_Switch
  imports Eofs_Device
begin

text \<open>
  The virtual-NIC switch \<open>net.l2.switch\<close> (\<open>guest/stubs/net-l2-switch/src/lib.rs\<close>): two ports over one
  uplink. A port operation is an asynchronous function that is suspended at every call of the
  uplink; between the calls it runs without interruption. The model has one definition per stretch
  of code between two awaits, an activation per suspended operation, and a step relation in which
  the uplink answers anything, activations interleave and a suspended future may be dropped. A
  buffer is the list of its bytes; the texts of errors are constructors.
\<close>

unbundle bit_operations_syntax

section \<open>Ports, configuration and errors\<close>

datatype slot = SlotA | SlotB

fun slot_index :: "slot \<Rightarrow> nat" where
  "slot_index SlotA = 0"
| "slot_index SlotB = 1"

fun slot_interface_name :: "slot \<Rightarrow> string" where
  "slot_interface_name SlotA = ''vnic-a''"
| "slot_interface_name SlotB = ''vnic-b''"

definition default_base :: bytes where
  "default_base = [0x02, 0xe0, 0x09, 0x00, 0x00, 0x00]"

definition rx_queue_cap :: nat where
  "rx_queue_cap = 32"

definition max_frame_bytes :: nat where
  "max_frame_bytes = 2048"

definition drain_batch :: nat where
  "drain_batch = 16"

definition broadcast :: bytes where
  "broadcast = replicate 6 0xff"

definition mac_base :: "bytes option \<Rightarrow> bytes" where
  "mac_base b = (case b of Some base \<Rightarrow> base | None \<Rightarrow> default_base)"

definition slot_mac :: "bytes option \<Rightarrow> slot \<Rightarrow> bytes" where
  "slot_mac b s = (let mac = mac_base b in mac[5 := mac ! 5 + (of_nat (slot_index s) + 1)])"

datatype l2_error = L2Denied | L2NoSuchInterface | L2LinkDown | L2FrameTooLarge | L2Io string

datatype switch_message =
    BusyMsg string
  | NoInterfacesMsg
  | TooShortMsg nat
  | UplinkMsg l2_error

datatype switch_error = SwDenied | SwLinkDown | SwFrameTooLarge | SwNoSuchInterface | SwIo switch_message

definition busy :: "string \<Rightarrow> switch_error" where
  "busy what = SwIo (BusyMsg what)"

definition uplink_failure :: "l2_error \<Rightarrow> switch_error" where
  "uplink_failure e =
     (case e of
        L2Denied \<Rightarrow> SwDenied
      | L2LinkDown \<Rightarrow> SwLinkDown
      | L2FrameTooLarge \<Rightarrow> SwFrameTooLarge
      | other \<Rightarrow> SwIo (UplinkMsg other))"

text \<open>\<open>u8::from_str_radix(part, 16)\<close>: an optional plus sign, then hex digits whose value fits a byte.\<close>

definition hex_digit :: "char \<Rightarrow> nat option" where
  "hex_digit c =
     (let n = of_char c :: nat in
      if 48 \<le> n \<and> n \<le> 57 then Some (n - 48)
      else if 97 \<le> n \<and> n \<le> 102 then Some (n - 87)
      else if 65 \<le> n \<and> n \<le> 70 then Some (n - 55)
      else None)"

fun hex_value :: "nat \<Rightarrow> string \<Rightarrow> nat option" where
  "hex_value acc [] = Some acc"
| "hex_value acc (c # cs) =
     (case hex_digit c of
        None \<Rightarrow> None
      | Some d \<Rightarrow> if acc * 16 + d < 256 then hex_value (acc * 16 + d) cs else None)"

definition hex_byte :: "string \<Rightarrow> byte option" where
  "hex_byte s =
     (case s of
        [] \<Rightarrow> None
      | c # cs \<Rightarrow>
          if c = CHR ''+'' then (if cs = [] then None else map_option of_nat (hex_value 0 cs))
          else map_option of_nat (hex_value 0 s))"

fun split_on :: "char \<Rightarrow> string \<Rightarrow> string list" where
  "split_on d [] = [[]]"
| "split_on d (c # cs) =
     (if c = d then [] # split_on d cs
      else (case split_on d cs of [] \<Rightarrow> [[c]] | p # ps \<Rightarrow> (c # p) # ps))"

text \<open>The loop of \<open>parse_mac\<close> over the parts, with the octets so far.\<close>

fun parse_mac_loop :: "bytes \<Rightarrow> string list \<Rightarrow> bytes option" where
  "parse_mac_loop mac [] = (if length mac = 6 then Some mac else None)"
| "parse_mac_loop mac (part # parts) =
     (if length mac = 6 then None
      else (case hex_byte part of None \<Rightarrow> None | Some b \<Rightarrow> parse_mac_loop (mac @ [b]) parts))"

definition parse_mac :: "string \<Rightarrow> bytes option" where
  "parse_mac text = parse_mac_loop [] (split_on (CHR '':'') text)"

datatype config_error = NotAMac | NotLocal | Multicast

definition configure :: "string \<Rightarrow> (bytes, config_error) result" where
  "configure text =
     (case parse_mac text of
        None \<Rightarrow> Err NotAMac
      | Some mac \<Rightarrow>
          if mac ! 0 AND 0x02 = 0 then Err NotLocal
          else if mac ! 0 AND 0x01 \<noteq> 0 then Err Multicast
          else Ok mac)"


section \<open>State and queues\<close>

record 'i uplink =
  up_iface :: 'i
  up_mtu :: nat
  up_up :: bool

record 'i switch_state =
  sw_uplink :: "'i uplink option"
  sw_claimed :: bool
  sw_params :: "(nat \<times> bool) option"
  sw_rx :: "slot \<Rightarrow> bytes list"

definition switch_new :: "'i switch_state" where
  "switch_new = \<lparr>sw_uplink = None, sw_claimed = False, sw_params = None, sw_rx = (\<lambda>_. [])\<rparr>"

text \<open>Dropping an \<open>UplinkGuard\<close>, and dropping an armed \<open>BringUpClaim\<close>.\<close>

definition put_back :: "'i uplink \<Rightarrow> 'i switch_state \<Rightarrow> 'i switch_state" where
  "put_back u st = st\<lparr>sw_uplink := Some u, sw_claimed := False\<rparr>"

definition release_claim :: "'i switch_state \<Rightarrow> 'i switch_state" where
  "release_claim st = st\<lparr>sw_claimed := False\<rparr>"

datatype 'i uplink_view = Ready "'i uplink" | Busy | NeedOpen

definition take_uplink :: "'i switch_state \<Rightarrow> 'i uplink_view \<times> 'i switch_state" where
  "take_uplink st =
     (case sw_uplink st of
        Some u \<Rightarrow> (Ready u, st\<lparr>sw_uplink := None, sw_claimed := True\<rparr>)
      | None \<Rightarrow> if sw_claimed st then (Busy, st) else (NeedOpen, st\<lparr>sw_claimed := True\<rparr>))"

definition enqueue :: "slot \<Rightarrow> bytes \<Rightarrow> 'i switch_state \<Rightarrow> 'i switch_state" where
  "enqueue s frame st =
     (let queue = sw_rx st s;
          queue = (if length queue = rx_queue_cap then tl queue else queue) in
      st\<lparr>sw_rx := (sw_rx st)(s := queue @ [frame])\<rparr>)"

definition pop_front :: "slot \<Rightarrow> 'i switch_state \<Rightarrow> bytes option \<times> 'i switch_state" where
  "pop_front s st =
     (case sw_rx st s of
        [] \<Rightarrow> (None, st)
      | frame # rest \<Rightarrow> (Some frame, st\<lparr>sw_rx := (sw_rx st)(s := rest)\<rparr>))"

definition is_group :: "bytes \<Rightarrow> bool" where
  "is_group dst \<longleftrightarrow> dst = broadcast \<or> dst ! 0 AND 0x01 \<noteq> 0"

definition demux :: "bytes option \<Rightarrow> bytes \<Rightarrow> 'i switch_state \<Rightarrow> 'i switch_state" where
  "demux b frame st =
     (if length frame < 14 then st
      else
        (let dst = take 6 frame in
         if is_group dst then enqueue SlotB frame (enqueue SlotA frame st)
         else if dst = slot_mac b SlotA then enqueue SlotA frame st
         else if dst = slot_mac b SlotB then enqueue SlotB frame st
         else st))"


section \<open>Port operations between two awaits\<close>

datatype port_op = PList slot | POpen slot string | PSend slot bytes | PRecv slot

fun op_slot :: "port_op \<Rightarrow> slot" where
  "op_slot (PList s) = s"
| "op_slot (POpen s _) = s"
| "op_slot (PSend s _) = s"
| "op_slot (PRecv s) = s"

datatype answer =
    AList string bytes nat bool
  | AOpened
  | ASent nat
  | ARecv "bytes option"
  | AError switch_error

text \<open>What a suspended activation awaits, and what it holds meanwhile.\<close>

datatype 'i activation =
    Listing port_op
  | Opening port_op nat bool
  | Draining slot "'i uplink" nat
  | Sending slot "'i uplink"

datatype upcall = CListInterfaces | COpenInterface string | CRecvFrame | CSendFrame bytes

datatype 'i outcome = Await "'i activation" upcall | Finish answer

text \<open>After \<open>acquire_uplink\<close> returned a guard. A \<open>PSend\<close> carries the rewritten frame.\<close>

fun with_guard :: "bytes option \<Rightarrow> port_op \<Rightarrow> 'i uplink \<Rightarrow> 'i switch_state \<Rightarrow> 'i switch_state \<times> 'i outcome" where
  "with_guard b (PList s) u st =
     (put_back u st, Finish (AList (slot_interface_name s) (slot_mac b s) (up_mtu u) (up_up u)))"
| "with_guard b (POpen s name) u st =
     (put_back u st, Finish (if name = slot_interface_name s then AOpened else AError SwNoSuchInterface))"
| "with_guard b (PSend s frame) u st = (st, Await (Sending s u) (CSendFrame frame))"
| "with_guard b (PRecv s) u st = (st, Await (Draining s u drain_batch) CRecvFrame)"

fun busy_answer :: "port_op \<Rightarrow> answer" where
  "busy_answer (PList s) = AError (busy ''list-interfaces'')"
| "busy_answer (POpen s name) = AError (busy ''open-interface'')"
| "busy_answer (PSend s frame) = AError (busy ''send-frame'')"
| "busy_answer (PRecv s) = ARecv None"

definition acquire_uplink :: "bytes option \<Rightarrow> port_op \<Rightarrow> 'i switch_state \<Rightarrow> 'i switch_state \<times> 'i outcome" where
  "acquire_uplink b opn st =
     (case take_uplink st of
        (Ready u, st') \<Rightarrow> with_guard b opn u st'
      | (Busy, st') \<Rightarrow> (st', Finish (busy_answer opn))
      | (NeedOpen, st') \<Rightarrow> (st', Await (Listing opn) CListInterfaces))"

fun begin_op :: "bytes option \<Rightarrow> port_op \<Rightarrow> 'i switch_state \<Rightarrow> 'i switch_state \<times> 'i outcome" where
  "begin_op b (PSend s frame) st =
     (if length frame < 14 then (st, Finish (AError (SwIo (TooShortMsg (length frame)))))
      else if length frame > max_frame_bytes then (st, Finish (AError SwFrameTooLarge))
      else acquire_uplink b (PSend s (overwrite 6 (slot_mac b s) frame)) st)"
| "begin_op b (PRecv s) st =
     (case pop_front s st of
        (Some frame, st') \<Rightarrow> (st', Finish (ARecv (Some frame)))
      | (None, st') \<Rightarrow> acquire_uplink b (PRecv s) st')"
| "begin_op b opn st = acquire_uplink b opn st"

text \<open>\<open>list_interfaces\<close> answered: the first interface is opened.\<close>

fun resume_list :: "port_op \<Rightarrow> ((string \<times> nat \<times> bool) list, l2_error) result \<Rightarrow> 'i switch_state \<Rightarrow> 'i switch_state \<times> 'i outcome" where
  "resume_list opn (Err e) st = (release_claim st, Finish (AError (uplink_failure e)))"
| "resume_list opn (Ok []) st = (release_claim st, Finish (AError (SwIo NoInterfacesMsg)))"
| "resume_list opn (Ok ((name, mtu, up) # _)) st = (st, Await (Opening opn mtu up) (COpenInterface name))"

text \<open>\<open>open_interface\<close> answered.\<close>

fun resume_open :: "bytes option \<Rightarrow> port_op \<Rightarrow> nat \<Rightarrow> bool \<Rightarrow> ('i, l2_error) result \<Rightarrow> 'i switch_state \<Rightarrow> 'i switch_state \<times> 'i outcome" where
  "resume_open b opn mtu up (Err e) st = (release_claim st, Finish (AError (uplink_failure e)))"
| "resume_open b opn mtu up (Ok iface) st =
     with_guard b opn \<lparr>up_iface = iface, up_mtu = mtu, up_up = up\<rparr> (st\<lparr>sw_params := Some (mtu, up)\<rparr>)"

text \<open>The end of \<open>port_recv\<close> after a drain: the guard is dropped, then the queue is served.\<close>

definition finish_recv :: "slot \<Rightarrow> 'i uplink \<Rightarrow> 'i switch_state \<Rightarrow> 'i switch_state \<times> 'i outcome" where
  "finish_recv s u st = (case pop_front s (put_back u st) of (frame, st') \<Rightarrow> (st', Finish (ARecv frame)))"

text \<open>\<open>recv_frame\<close> answered with the buffer and the number of bytes received; \<open>n\<close> attempts were left.\<close>

fun resume_drain ::
  "bytes option \<Rightarrow> slot \<Rightarrow> 'i uplink \<Rightarrow> nat \<Rightarrow> bytes \<Rightarrow> (nat, l2_error) result \<Rightarrow> 'i switch_state \<Rightarrow> 'i switch_state \<times> 'i outcome" where
  "resume_drain b s u n buf (Err e) st = (put_back u st, Finish (AError (uplink_failure e)))"
| "resume_drain b s u n buf (Ok received) st =
     (if received > 0 then
        (let st' = demux b (take (min received max_frame_bytes) buf) st in
         if n > 1 then (st', Await (Draining s u (n - 1)) CRecvFrame) else finish_recv s u st')
      else finish_recv s u st)"

text \<open>\<open>send_frame\<close> answered.\<close>

fun resume_send :: "'i uplink \<Rightarrow> (nat, l2_error) result \<Rightarrow> 'i switch_state \<Rightarrow> 'i switch_state \<times> 'i outcome" where
  "resume_send u (Ok sent) st = (put_back u st, Finish (ASent sent))"
| "resume_send u (Err e) st = (put_back u st, Finish (AError (uplink_failure e)))"

text \<open>A future dropped at its await.\<close>

fun drop_activation :: "'i activation \<Rightarrow> 'i switch_state \<Rightarrow> 'i switch_state" where
  "drop_activation (Listing _) st = release_claim st"
| "drop_activation (Opening _ _ _) st = release_claim st"
| "drop_activation (Draining _ u _) st = put_back u st"
| "drop_activation (Sending _ u) st = put_back u st"

definition port_info :: "bytes option \<Rightarrow> slot \<Rightarrow> 'i switch_state \<Rightarrow> string \<times> bytes \<times> nat \<times> bool" where
  "port_info b s st =
     (case (case sw_params st of None \<Rightarrow> (0, False) | Some p \<Rightarrow> p) of
        (mtu, up) \<Rightarrow> (slot_interface_name s, slot_mac b s, mtu, up))"

text \<open>The wait returns at once: the ports are polled.\<close>

definition port_wait_recv :: "slot \<Rightarrow> nat \<Rightarrow> (unit, switch_error) result" where
  "port_wait_recv s max_wait_ns = Ok ()"

text \<open>What \<open>recv_frame\<close> hands to the consumer: the frame cut to the caller's buffer.\<close>

definition export_recv :: "nat \<Rightarrow> bytes option \<Rightarrow> bytes" where
  "export_recv dst_len r = (case r of Some frame \<Rightarrow> take dst_len frame | None \<Rightarrow> [])"


section \<open>Interleaved activations\<close>

text \<open>
  The switch with its suspended activations and a history: the frames consumers handed in, those
  sent upstream, those the uplink delivered and those handed out, and how often the uplink was
  opened.
\<close>

record 'i world =
  w_state :: "'i switch_state"
  w_acts :: "nat \<Rightarrow> 'i activation option"
  w_given :: "(slot \<times> bytes) set"
  w_sent :: "(slot \<times> bytes) set"
  w_arrived :: "bytes set"
  w_delivered :: "(slot \<times> bytes) set"
  w_opens :: nat

definition world_new :: "'i world" where
  "world_new = \<lparr>w_state = switch_new, w_acts = Map.empty, w_given = {}, w_sent = {}, w_arrived = {}, w_delivered = {}, w_opens = 0\<rparr>"

text \<open>The world after activation \<open>i\<close>, working for port \<open>s\<close>, ran up to its next await or its end.\<close>

fun settle :: "nat \<Rightarrow> slot \<Rightarrow> 'i switch_state \<times> 'i outcome \<Rightarrow> 'i world \<Rightarrow> 'i world" where
  "settle i s (st, Await a call) w =
     w\<lparr>w_state := st, w_acts := (w_acts w)(i \<mapsto> a),
       w_sent := (case call of CSendFrame frame \<Rightarrow> insert (s, frame) (w_sent w) | _ \<Rightarrow> w_sent w)\<rparr>"
| "settle i s (st, Finish ans) w =
     w\<lparr>w_state := st, w_acts := (w_acts w)(i := None),
       w_delivered := (case ans of ARecv (Some frame) \<Rightarrow> insert (s, frame) (w_delivered w) | _ \<Rightarrow> w_delivered w)\<rparr>"

fun given_frame :: "port_op \<Rightarrow> (slot \<times> bytes) set" where
  "given_frame (PSend s frame) = {(s, frame)}"
| "given_frame _ = {}"

definition drained_frame :: "bytes \<Rightarrow> (nat, l2_error) result \<Rightarrow> bytes set" where
  "drained_frame buf r = (case r of Ok received \<Rightarrow> if received > 0 then {take (min received max_frame_bytes) buf} else {} | Err _ \<Rightarrow> {})"

inductive switch_step :: "bytes option \<Rightarrow> 'i world \<Rightarrow> 'i world \<Rightarrow> bool" for b where
  step_begin: "w_acts w i = None \<Longrightarrow>
    switch_step b w (settle i (op_slot opn) (begin_op b opn (w_state w)) (w\<lparr>w_given := w_given w \<union> given_frame opn\<rparr>))"
| step_list: "w_acts w i = Some (Listing opn) \<Longrightarrow>
    switch_step b w (settle i (op_slot opn) (resume_list opn r (w_state w)) w)"
| step_open: "w_acts w i = Some (Opening opn mtu up) \<Longrightarrow>
    switch_step b w (settle i (op_slot opn) (resume_open b opn mtu up r (w_state w))
      (w\<lparr>w_opens := w_opens w + (if is_ok r then 1 else 0)\<rparr>))"
| step_drain: "w_acts w i = Some (Draining s u n) \<Longrightarrow>
    switch_step b w (settle i s (resume_drain b s u n buf r (w_state w)) (w\<lparr>w_arrived := w_arrived w \<union> drained_frame buf r\<rparr>))"
| step_send: "w_acts w i = Some (Sending s u) \<Longrightarrow>
    switch_step b w (settle i s (resume_send u r (w_state w)) w)"
| step_drop: "w_acts w i = Some a \<Longrightarrow>
    switch_step b w (w\<lparr>w_state := drop_activation a (w_state w), w_acts := (w_acts w)(i := None)\<rparr>)"

inductive switch_reachable :: "bytes option \<Rightarrow> 'i world \<Rightarrow> bool" for b where
  reach_new: "switch_reachable b world_new"
| reach_step: "switch_reachable b w \<Longrightarrow> switch_step b w w' \<Longrightarrow> switch_reachable b w'"


section \<open>Invariants\<close>

text \<open>The uplink is opened at most once, and held by at most one activation.\<close>

fun held :: "'i activation \<Rightarrow> 'i uplink option" where
  "held (Listing _) = None"
| "held (Opening _ _ _) = None"
| "held (Draining _ u _) = Some u"
| "held (Sending _ u) = Some u"

definition claim_inv :: "'i world \<Rightarrow> bool" where
  "claim_inv w \<longleftrightarrow>
     (w_acts w = Map.empty \<and> \<not> sw_claimed (w_state w) \<and> w_opens w = (if sw_uplink (w_state w) = None then 0 else 1)) \<or>
     (\<exists>i a. w_acts w = [i \<mapsto> a] \<and> sw_claimed (w_state w) \<and> sw_uplink (w_state w) = None \<and>
        w_opens w = (if held a = None then 0 else 1))"

text \<open>A frame may be seen on a port.\<close>

definition visible :: "bytes option \<Rightarrow> slot \<Rightarrow> bytes \<Rightarrow> bool" where
  "visible b s frame \<longleftrightarrow> 14 \<le> length frame \<and> (is_group (take 6 frame) \<or> take 6 frame = slot_mac b s)"

definition rx_ok :: "bytes option \<Rightarrow> bytes set \<Rightarrow> 'i switch_state \<Rightarrow> bool" where
  "rx_ok b arrived st \<longleftrightarrow> (\<forall>s. length (sw_rx st s) \<le> rx_queue_cap \<and>
     (\<forall>frame \<in> set (sw_rx st s). frame \<in> arrived \<and> visible b s frame))"

definition queue_inv :: "bytes option \<Rightarrow> 'i world \<Rightarrow> bool" where
  "queue_inv b w \<longleftrightarrow> rx_ok b (w_arrived w) (w_state w) \<and>
     (\<forall>s frame. (s, frame) \<in> w_delivered w \<longrightarrow> frame \<in> w_arrived w \<and> visible b s frame)"

definition stamped :: "bytes option \<Rightarrow> (slot \<times> bytes) set \<Rightarrow> slot \<Rightarrow> bytes \<Rightarrow> bool" where
  "stamped b given s frame \<longleftrightarrow>
     (\<exists>g. (s, g) \<in> given \<and> 14 \<le> length g \<and> length g \<le> max_frame_bytes \<and> frame = overwrite 6 (slot_mac b s) g)"

fun op_frame :: "'i activation \<Rightarrow> (slot \<times> bytes) option" where
  "op_frame (Listing (PSend s frame)) = Some (s, frame)"
| "op_frame (Opening (PSend s frame) _ _) = Some (s, frame)"
| "op_frame _ = None"

definition send_inv :: "bytes option \<Rightarrow> 'i world \<Rightarrow> bool" where
  "send_inv b w \<longleftrightarrow> (\<forall>s frame. (s, frame) \<in> w_sent w \<longrightarrow> stamped b (w_given w) s frame) \<and>
     (\<forall>i a s frame. w_acts w i = Some a \<longrightarrow> op_frame a = Some (s, frame) \<longrightarrow> stamped b (w_given w) s frame)"


lemmas switch_defs = put_back_def release_claim_def take_uplink_def acquire_uplink_def pop_front_def finish_recv_def

text \<open>The claim of the uplink across a stretch of code: kept, taken, or given back.\<close>

definition hands_over :: "'i uplink option \<Rightarrow> 'i switch_state \<times> 'i outcome \<Rightarrow> bool" where
  "hands_over u r \<longleftrightarrow>
     (case r of
        (st', Finish _) \<Rightarrow> \<not> sw_claimed st' \<and> sw_uplink st' = u
      | (st', Await a _) \<Rightarrow> sw_claimed st' \<and> sw_uplink st' = None \<and> held a = u)"

lemma hands_over_with_guard:
  "sw_claimed st \<Longrightarrow> sw_uplink st = None \<Longrightarrow> hands_over (Some u) (with_guard b opn u st)"
  by (cases opn) (simp_all add: hands_over_def put_back_def)

lemma hands_over_begin:
  assumes "\<not> sw_claimed st"
  shows "hands_over (sw_uplink st) (begin_op b opn st)"
proof -
  have acq: "hands_over (sw_uplink st) (acquire_uplink b q st)" for q
    using assms hands_over_with_guard [of "st\<lparr>sw_uplink := None, sw_claimed := True\<rparr>" _ b q]
    by (cases "sw_uplink st") (simp_all add: acquire_uplink_def take_uplink_def, simp add: hands_over_def)
  have "hands_over (sw_uplink st) (begin_op b (PRecv s) st)" for s
    using acq assms by (cases "sw_rx st s") (simp_all add: pop_front_def, simp add: hands_over_def)
  moreover have "hands_over (sw_uplink st) (begin_op b (PSend s frame) st)" for s frame
    using acq assms by (simp add: hands_over_def)
  ultimately show ?thesis using acq by (cases opn) (simp_all only: begin_op.simps)
qed

text \<open>While the uplink is claimed an operation ends at once: a receive finds nothing, the others are refused.\<close>

lemma begin_claimed:
  assumes "sw_claimed st" and "sw_uplink st = None"
  shows "\<exists>st' ans. begin_op b opn st = (st', Finish ans) \<and> sw_claimed st' \<and> sw_uplink st' = None"
proof (cases opn)
  case (PRecv s)
  with assms show ?thesis by (cases "sw_rx st s") (simp_all add: pop_front_def acquire_uplink_def take_uplink_def)
qed (use assms in \<open>simp_all add: acquire_uplink_def take_uplink_def\<close>)

lemma demux_claim [simp]: "sw_claimed (demux b frame st) = sw_claimed st" "sw_uplink (demux b frame st) = sw_uplink st"
  by (simp_all add: demux_def enqueue_def Let_def)

lemma hands_over_resume:
  assumes "sw_claimed st" and "sw_uplink st = None"
  shows "hands_over None (resume_list opn rl st)"
    and "hands_over (if is_ok ro then Some \<lparr>up_iface = (case ro of Ok i \<Rightarrow> i), up_mtu = mtu, up_up = up\<rparr> else None) (resume_open b opn mtu up ro st)"
    and "hands_over (Some u) (resume_drain b s u n buf rd st)"
    and "hands_over (Some u) (resume_send u rs st)"
proof -
  show "hands_over None (resume_list opn rl st)"
    using assms by (cases "(opn, rl, st)" rule: resume_list.cases) (simp_all add: hands_over_def release_claim_def)
  show "hands_over (if is_ok ro then Some \<lparr>up_iface = (case ro of Ok i \<Rightarrow> i), up_mtu = mtu, up_up = up\<rparr> else None) (resume_open b opn mtu up ro st)"
    using assms hands_over_with_guard [of "st\<lparr>sw_params := Some (mtu, up)\<rparr>" _ b opn]
    by (cases ro) (simp_all, simp add: hands_over_def release_claim_def)
  have fin: "hands_over (Some u) (finish_recv s u st)" for st :: "'a switch_state"
    by (simp add: finish_recv_def pop_front_def put_back_def hands_over_def split: list.splits)
  show "hands_over (Some u) (resume_drain b s u n buf rd st)"
    using assms fin by (cases rd) (simp_all add: Let_def, simp_all add: hands_over_def put_back_def)
  show "hands_over (Some u) (resume_send u rs st)"
    by (cases rs) (simp_all add: hands_over_def put_back_def)
qed

lemma claim_inv_settle:
  assumes "hands_over u r" and "w_acts w = Map.empty \<or> w_acts w = [i \<mapsto> a0]" and "w_opens w = (if u = None then 0 else 1)"
  shows "claim_inv (settle i s r w)"
proof -
  obtain st out where r: "r = (st, out)" by fastforce
  have upd: "(w_acts w)(i \<mapsto> a) = [i \<mapsto> a]" "(w_acts w)(i := None) = Map.empty" for a
    using assms(2) by auto
  show ?thesis
    using assms(1,3) r upd by (cases out) (auto simp: claim_inv_def hands_over_def)
qed

lemma lone_not_empty [simp]: "(\<lambda>x. None) \<noteq> [i \<mapsto> a]" "[i \<mapsto> a] \<noteq> (\<lambda>x. None)"
  by (metis fun_upd_same option.distinct(1))+

lemma claim_inv_step:
  assumes "switch_step b w w'" and "claim_inv w"
  shows "claim_inv w'"
  using assms
proof cases
  case (step_begin i opn)
  show ?thesis
  proof (cases "w_acts w = Map.empty")
    case True
    with assms(2) have st: "\<not> sw_claimed (w_state w)" "w_opens w = (if sw_uplink (w_state w) = None then 0 else 1)"
      by (auto simp: claim_inv_def)
    show ?thesis unfolding step_begin(1)
      by (rule claim_inv_settle [OF hands_over_begin [OF st(1)]]) (use True st(2) in simp_all)
  next
    case False
    with assms(2) obtain j a where j: "w_acts w = [j \<mapsto> a]" "sw_claimed (w_state w)" "sw_uplink (w_state w) = None"
      "w_opens w = (if held a = None then 0 else 1)" by (auto simp: claim_inv_def)
    with step_begin(2) have "(w_acts w)(i := None) = [j \<mapsto> a]" by (auto simp: fun_eq_iff split: if_splits)
    moreover obtain st' ans where "begin_op b opn (w_state w) = (st', Finish ans)" "sw_claimed st'" "sw_uplink st' = None"
      using begin_claimed [OF j(2,3)] by blast
    ultimately show ?thesis
      using j(4) unfolding claim_inv_def step_begin(1) by (intro disjI2 exI [of _ j] exI [of _ a]) simp
  qed
next
  case (step_list i opn r)
  then have "w_acts w = [i \<mapsto> Listing opn]" "sw_claimed (w_state w)" "sw_uplink (w_state w) = None" "w_opens w = 0"
    using assms(2) by (auto simp: claim_inv_def split: if_splits)
  then show ?thesis unfolding step_list(1) by (intro claim_inv_settle [OF hands_over_resume(1)]) simp_all
next
  case (step_open i opn mtu up r)
  then have "w_acts w = [i \<mapsto> Opening opn mtu up]" "sw_claimed (w_state w)" "sw_uplink (w_state w) = None" "w_opens w = 0"
    using assms(2) by (auto simp: claim_inv_def split: if_splits)
  then show ?thesis unfolding step_open(1)
    by (intro claim_inv_settle [OF hands_over_resume(2)]) (cases r; simp)+
next
  case (step_drain i s u n buf r)
  then have "w_acts w = [i \<mapsto> Draining s u n]" "sw_claimed (w_state w)" "sw_uplink (w_state w) = None" "w_opens w = 1"
    using assms(2) by (auto simp: claim_inv_def split: if_splits)
  then show ?thesis unfolding step_drain(1) by (intro claim_inv_settle [OF hands_over_resume(3)]) simp_all
next
  case (step_send i s u r)
  then have "w_acts w = [i \<mapsto> Sending s u]" "sw_claimed (w_state w)" "sw_uplink (w_state w) = None" "w_opens w = 1"
    using assms(2) by (auto simp: claim_inv_def split: if_splits)
  then show ?thesis unfolding step_send(1) by (intro claim_inv_settle [OF hands_over_resume(4)]) simp_all
next
  case (step_drop i a)
  then have "w_acts w = [i \<mapsto> a]" "sw_claimed (w_state w)" "sw_uplink (w_state w) = None" "w_opens w = (if held a = None then 0 else 1)"
    using assms(2) by (auto simp: claim_inv_def split: if_splits)
  then show ?thesis unfolding step_drop(1) by (cases a) (simp_all add: claim_inv_def release_claim_def put_back_def)
qed

text \<open>The queues: only visible frames that arrived, and never more than the cap.\<close>

lemma rx_ok_mono: "rx_ok b arrived st \<Longrightarrow> arrived \<subseteq> arrived' \<Longrightarrow> rx_ok b arrived' st"
  unfolding rx_ok_def by blast

lemma rx_ok_update [simp]:
  "rx_ok b arrived (st\<lparr>sw_uplink := x\<rparr>) = rx_ok b arrived st"
  "rx_ok b arrived (st\<lparr>sw_claimed := c\<rparr>) = rx_ok b arrived st"
  "rx_ok b arrived (st\<lparr>sw_params := p\<rparr>) = rx_ok b arrived st"
  by (simp_all add: rx_ok_def)

lemma rx_ok_enqueue:
  assumes "rx_ok b arrived st" and "frame \<in> arrived" and "visible b s frame"
  shows "rx_ok b arrived (enqueue s frame st)"
proof -
  have tl: "x \<in> set (tl xs) \<Longrightarrow> x \<in> set xs" for x :: bytes and xs by (cases xs) auto
  have "length (sw_rx st s) \<le> 32" using assms(1) by (simp add: rx_ok_def rx_queue_cap_def)
  then have "length (sw_rx st s) = 32 \<or> length (sw_rx st s) \<le> 31" by linarith
  then show ?thesis
    using assms by (auto simp: rx_ok_def enqueue_def Let_def rx_queue_cap_def dest: tl)
qed

lemma rx_ok_demux:
  assumes "rx_ok b arrived st" and "frame \<in> arrived"
  shows "rx_ok b arrived (demux b frame st)"
  using assms unfolding demux_def Let_def by (auto intro!: rx_ok_enqueue simp: visible_def)

definition serves :: "bytes option \<Rightarrow> bytes set \<Rightarrow> slot \<Rightarrow> 'i switch_state \<times> 'i outcome \<Rightarrow> bool" where
  "serves b arrived s r \<longleftrightarrow> rx_ok b arrived (fst r) \<and>
     (case snd r of Finish (ARecv (Some frame)) \<Rightarrow> frame \<in> arrived \<and> visible b s frame | _ \<Rightarrow> True)"

lemma serves_pop:
  assumes "rx_ok b arrived st"
  shows "serves b arrived s (case pop_front s st of (frame, st') \<Rightarrow> (st', Finish (ARecv frame)))"
proof (cases "sw_rx st s")
  case (Cons frame rest)
  have q: "length (frame # rest) \<le> rx_queue_cap" "\<forall>f \<in> set (frame # rest). f \<in> arrived \<and> visible b s f"
    using assms unfolding rx_ok_def Cons [symmetric] by blast+
  then have "frame \<in> arrived \<and> visible b s frame" by simp
  moreover have "rx_ok b arrived (st\<lparr>sw_rx := (sw_rx st)(s := rest)\<rparr>)"
    using assms q by (auto simp: rx_ok_def)
  ultimately show ?thesis using Cons by (simp add: serves_def pop_front_def)
qed (use assms in \<open>simp add: serves_def pop_front_def\<close>)

lemma serves_with_guard: "rx_ok b arrived st \<Longrightarrow> serves b arrived s (with_guard b opn u st)"
  by (cases opn) (simp_all add: serves_def put_back_def)

lemma serves_acquire: "rx_ok b arrived st \<Longrightarrow> serves b arrived s (acquire_uplink b opn st)"
  using serves_with_guard [of b arrived "st\<lparr>sw_uplink := None, sw_claimed := True\<rparr>" s opn]
  by (cases opn) (auto simp: acquire_uplink_def take_uplink_def serves_def rx_ok_def split: option.splits)

lemma serves_begin:
  assumes "rx_ok b arrived st"
  shows "serves b arrived (op_slot opn) (begin_op b opn st)"
proof (cases opn)
  case (PRecv s)
  with serves_pop [OF assms, of s] serves_acquire [OF assms] show ?thesis
    by (cases "sw_rx st s") (simp_all add: pop_front_def)
qed (use serves_acquire [OF assms] assms in \<open>auto simp: serves_def\<close>)

lemma serves_resume:
  assumes "rx_ok b arrived st"
  shows "serves b arrived s (resume_list opn rl st)" and "serves b arrived s (resume_open b opn mtu up ro st)"
    and "drained_frame buf rd \<subseteq> arrived \<Longrightarrow> serves b arrived s (resume_drain b s u n buf rd st)"
    and "serves b arrived s (resume_send u rs st)"
proof -
  show "serves b arrived s (resume_list opn rl st)"
    using assms by (cases "(opn, rl, st)" rule: resume_list.cases) (simp_all add: serves_def release_claim_def)
  show "serves b arrived s (resume_open b opn mtu up ro st)"
    using assms serves_with_guard [of b arrived "st\<lparr>sw_params := Some (mtu, up)\<rparr>" s]
    by (cases ro) (simp_all, simp add: serves_def release_claim_def)
  show "serves b arrived s (resume_send u rs st)"
    using assms by (cases rs) (simp_all add: serves_def put_back_def)
  have fin: "serves b arrived s (finish_recv s u st)" if "rx_ok b arrived st" for st :: "'a switch_state"
    using that serves_pop [of b arrived "put_back u st" s] by (simp add: finish_recv_def put_back_def)
  show "serves b arrived s (resume_drain b s u n buf rd st)" if "drained_frame buf rd \<subseteq> arrived"
  proof (cases rd)
    case (Ok received)
    show ?thesis
    proof (cases "received > 0")
      case True
      then have "rx_ok b arrived (demux b (take (min received max_frame_bytes) buf) st)"
        using that Ok assms by (intro rx_ok_demux) (auto simp: drained_frame_def)
      then show ?thesis using Ok True fin by (simp add: Let_def) (simp add: serves_def)
    qed (use Ok fin assms in simp)
  qed (use assms in \<open>simp add: serves_def put_back_def\<close>)
qed

lemma queue_inv_settle:
  assumes "serves b (w_arrived w) s r" and "\<forall>s frame. (s, frame) \<in> w_delivered w \<longrightarrow> frame \<in> w_arrived w \<and> visible b s frame"
  shows "queue_inv b (settle i s r w)"
proof -
  obtain st out where r: "r = (st, out)" by fastforce
  show ?thesis
  proof (cases out)
    case (Finish ans)
    with r assms show ?thesis
      by (cases ans) (auto simp: queue_inv_def serves_def split: option.splits)
  qed (use r assms in \<open>simp add: queue_inv_def serves_def\<close>)
qed

lemma queue_inv_step:
  assumes "switch_step b w w'" and "queue_inv b w"
  shows "queue_inv b w'"
proof -
  have rx: "rx_ok b (w_arrived w) (w_state w)" and dl: "\<forall>s frame. (s, frame) \<in> w_delivered w \<longrightarrow> frame \<in> w_arrived w \<and> visible b s frame"
    using assms(2) by (simp_all add: queue_inv_def)
  show ?thesis
    using assms(1)
  proof cases
    case (step_drain i s u n buf r)
    have "rx_ok b (w_arrived w \<union> drained_frame buf r) (w_state w)" by (rule rx_ok_mono [OF rx]) simp
    then show ?thesis
      unfolding step_drain(1) using dl by (intro queue_inv_settle serves_resume(3)) auto
  next
    case (step_drop i a)
    then show ?thesis
      using rx dl by (cases a) (simp_all add: queue_inv_def release_claim_def put_back_def)
  next
    case (step_begin i opn)
    then show ?thesis using rx dl by (auto intro!: queue_inv_settle serves_begin)
  next
    case (step_list i opn r)
    then show ?thesis using rx dl by (auto intro!: queue_inv_settle serves_resume(1))
  next
    case (step_open i opn mtu up r)
    then show ?thesis using rx dl by (auto intro!: queue_inv_settle serves_resume(2))
  next
    case (step_send i s u r)
    then show ?thesis using rx dl by (auto intro!: queue_inv_settle serves_resume(4))
  qed
qed

text \<open>What is sent upstream carries the port's address.\<close>

lemma stamped_mono: "stamped b given s frame \<Longrightarrow> given \<subseteq> given' \<Longrightarrow> stamped b given' s frame"
  unfolding stamped_def by blast

definition forwards :: "bytes option \<Rightarrow> (slot \<times> bytes) set \<Rightarrow> slot \<Rightarrow> 'i outcome \<Rightarrow> bool" where
  "forwards b given s out \<longleftrightarrow>
     (case out of
        Finish _ \<Rightarrow> True
      | Await a call \<Rightarrow>
          (case call of CSendFrame frame \<Rightarrow> stamped b given s frame | _ \<Rightarrow> True) \<and>
          (case op_frame a of Some (s', frame) \<Rightarrow> stamped b given s' frame | None \<Rightarrow> True))"

fun op_stamped :: "bytes option \<Rightarrow> (slot \<times> bytes) set \<Rightarrow> port_op \<Rightarrow> bool" where
  "op_stamped b given (PSend s frame) = stamped b given s frame"
| "op_stamped b given _ = True"

lemma forwards_with_guard: "op_stamped b given opn \<Longrightarrow> forwards b given (op_slot opn) (snd (with_guard b opn u st))"
  by (cases opn) (simp_all add: forwards_def)

lemma forwards_acquire: "op_stamped b given opn \<Longrightarrow> forwards b given (op_slot opn) (snd (acquire_uplink b opn st))"
  using forwards_with_guard [of b given opn]
  by (cases opn) (auto simp: acquire_uplink_def take_uplink_def forwards_def split: option.splits)

lemma forwards_begin: "given_frame opn \<subseteq> given \<Longrightarrow> forwards b given (op_slot opn) (snd (begin_op b opn st))"
proof (cases opn)
  case (PSend s frame)
  assume "given_frame opn \<subseteq> given"
  with PSend have "stamped b given s (overwrite 6 (slot_mac b s) frame)" if "14 \<le> length frame" "length frame \<le> max_frame_bytes"
    using that by (auto simp: stamped_def)
  with forwards_acquire [of b given "PSend s (overwrite 6 (slot_mac b s) frame)" st] PSend show ?thesis
    by (auto simp: forwards_def)
next
  case (PRecv s)
  with forwards_acquire [of b given "PRecv s"] show ?thesis
    by (cases "sw_rx st s") (simp_all add: pop_front_def forwards_def)
next
  case (PList s)
  with forwards_acquire [of b given "PList s"] show ?thesis by simp
next
  case (POpen s name)
  with forwards_acquire [of b given "POpen s name"] show ?thesis by simp
qed

lemma send_inv_settle:
  assumes "forwards b (w_given w) s (snd r)" and "send_inv b w"
  shows "send_inv b (settle i s r w)"
proof -
  obtain st out where r: "r = (st, out)" by fastforce
  show ?thesis
  proof (cases out)
    case (Await a call)
    with r assms show ?thesis
      by (auto simp: send_inv_def forwards_def split: upcall.splits option.splits if_splits)
  qed (use r assms in \<open>auto simp: send_inv_def split: if_splits\<close>)
qed

lemma send_inv_op:
  assumes "send_inv b w" and "w_acts w i = Some a" and "a = Listing opn \<or> a = Opening opn mtu up"
  shows "op_stamped b (w_given w) opn"
proof (cases opn)
  case (PSend s frame)
  then have "op_frame a = Some (s, frame)" using assms(3) by auto
  with assms(1,2) PSend show ?thesis by (auto simp: send_inv_def)
qed simp_all

lemma send_inv_step:
  assumes "switch_step b w w'" and "send_inv b w"
  shows "send_inv b w'"
  using assms(1)
proof cases
  case (step_begin i opn)
  have "send_inv b (w\<lparr>w_given := w_given w \<union> given_frame opn\<rparr>)"
    using assms(2) stamped_mono [of b "w_given w" _ _ "w_given w \<union> given_frame opn"] by (fastforce simp: send_inv_def)
  then show ?thesis unfolding step_begin(1) by (intro send_inv_settle forwards_begin) simp_all
next
  case (step_list i opn r)
  have "op_stamped b (w_given w) opn" by (rule send_inv_op [OF assms(2) step_list(2)]) simp
  then have "forwards b (w_given w) (op_slot opn) (snd (resume_list opn r (w_state w)))"
    by (cases "(opn, r, w_state w)" rule: resume_list.cases; cases opn) (simp_all add: forwards_def)
  then show ?thesis unfolding step_list(1) using assms(2) by (rule send_inv_settle)
next
  case (step_open i opn mtu up r)
  have "op_stamped b (w_given w) opn" by (rule send_inv_op [OF assms(2) step_open(2)]) simp
  then have "forwards b (w_given w) (op_slot opn) (snd (resume_open b opn mtu up r (w_state w)))"
    by (cases r) (simp_all add: forwards_with_guard, simp add: forwards_def)
  then show ?thesis unfolding step_open(1) using assms(2) by (intro send_inv_settle) (simp_all add: send_inv_def)
next
  case (step_drain i s u n buf r)
  have "forwards b (w_given w) s (snd (resume_drain b s u n buf r (w_state w)))"
    by (cases r) (auto simp: forwards_def finish_recv_def Let_def split: prod.splits)
  then show ?thesis unfolding step_drain(1) using assms(2) by (intro send_inv_settle) (simp_all add: send_inv_def)
next
  case (step_send i s u r)
  have "forwards b (w_given w) s (snd (resume_send u r (w_state w)))" by (cases r) (simp_all add: forwards_def)
  then show ?thesis unfolding step_send(1) using assms(2) by (rule send_inv_settle)
next
  case (step_drop i a)
  then show ?thesis using assms(2) by (auto simp: send_inv_def split: if_splits)
qed

lemma switch_reachable_inv:
  assumes "switch_reachable b w"
  shows "claim_inv w \<and> queue_inv b w \<and> send_inv b w"
  using assms
proof induction
  case reach_new
  show ?case by (simp add: world_new_def switch_new_def claim_inv_def queue_inv_def rx_ok_def send_inv_def)
next
  case (reach_step w w')
  then show ?case using claim_inv_step queue_inv_step send_inv_step by blast
qed


section \<open>Properties\<close>

definition base_ok :: "bytes option \<Rightarrow> bool" where
  "base_ok b \<longleftrightarrow> length (mac_base b) = 6 \<and> mac_base b ! 0 AND 0x02 \<noteq> 0 \<and> mac_base b ! 0 AND 0x01 = 0"

lemma parse_mac_loop_length: "parse_mac_loop mac parts = Some m \<Longrightarrow> length m = 6"
  by (induction mac parts rule: parse_mac_loop.induct) (auto split: if_splits option.splits)

lemma configure_base_ok: "configure text = Ok mac \<Longrightarrow> base_ok (Some mac)"
  by (auto simp: configure_def base_ok_def mac_base_def parse_mac_def split: option.splits if_splits dest: parse_mac_loop_length)

lemma default_base_ok: "base_ok None"
  by (simp add: base_ok_def mac_base_def default_base_def)

lemma slot_mac_props:
  assumes "base_ok b"
  shows "length (slot_mac b s) = 6" "\<not> is_group (slot_mac b s)" "slot_mac b SlotA \<noteq> slot_mac b SlotB"
proof -
  let ?m = "mac_base b"
  have m: "length ?m = 6" "?m ! 0 AND 1 = 0" using assms by (simp_all add: base_ok_def)
  then show "length (slot_mac b s) = 6" by (simp add: slot_mac_def Let_def)
  have "slot_mac b s ! 0 = ?m ! 0" using m(1) by (simp add: slot_mac_def Let_def)
  moreover have "broadcast ! 0 AND 1 \<noteq> 0" by (simp add: broadcast_def)
  ultimately show "\<not> is_group (slot_mac b s)" using m(2) unfolding is_group_def by metis
  have "slot_mac b SlotA ! 5 = ?m ! 5 + 1" "slot_mac b SlotB ! 5 = ?m ! 5 + 2"
    using m(1) by (simp_all add: slot_mac_def Let_def)
  moreover have "?m ! 5 + 1 \<noteq> ?m ! 5 + 2" by simp
  ultimately show "slot_mac b SlotA \<noteq> slot_mac b SlotB" by metis
qed

text \<open>A receive on port A that opens the uplink, drains one broadcast frame and returns it.\<close>

definition demo_frame :: bytes where
  "demo_frame = replicate 6 0xff @ [2, 0, 0, 0, 0, 9] @ [8, 6]"

definition demo_recv :: "unit world" where
  "demo_recv =
     (let w1 = settle 0 SlotA (begin_op None (PRecv SlotA) switch_new) world_new;
          w2 = settle 0 SlotA (resume_list (PRecv SlotA) (Ok [(''eth0'', 1500, True)]) (w_state w1)) w1;
          w3 = settle 0 SlotA (resume_open None (PRecv SlotA) 1500 True (Ok ()) (w_state w2)) (w2\<lparr>w_opens := 1\<rparr>);
          u = \<lparr>up_iface = (), up_mtu = 1500, up_up = True\<rparr>;
          w4 = settle 0 SlotA (resume_drain None SlotA u 16 demo_frame (Ok 14) (w_state w3)) (w3\<lparr>w_arrived := {demo_frame}\<rparr>)
      in settle 0 SlotA (resume_drain None SlotA u 15 [] (Ok 0) (w_state w4)) w4)"

lemmas demo_switch_simps = demo_recv_def Let_def world_new_def switch_new_def pop_front_def acquire_uplink_def take_uplink_def
  drain_batch_def demux_def enqueue_def finish_recv_def put_back_def rx_queue_cap_def max_frame_bytes_def is_group_def

lemma demo_recv_reachable: "switch_reachable None demo_recv"
proof -
  let ?u = "\<lparr>up_iface = (), up_mtu = 1500, up_up = True\<rparr>" and ?op = "PRecv SlotA"
  define w1 w2 w3 w4 :: "unit world" where
    "w1 = settle 0 SlotA (begin_op None ?op switch_new) world_new" and
    "w2 = settle 0 SlotA (resume_list ?op (Ok [(''eth0'', 1500, True)]) (w_state w1)) w1" and
    "w3 = settle 0 SlotA (resume_open None ?op 1500 True (Ok ()) (w_state w2)) (w2\<lparr>w_opens := 1\<rparr>)" and
    "w4 = settle 0 SlotA (resume_drain None SlotA ?u 16 demo_frame (Ok 14) (w_state w3)) (w3\<lparr>w_arrived := {demo_frame}\<rparr>)"
  note ws = w1_def w2_def w3_def w4_def
  have len: "length demo_frame = 14" by (simp add: demo_frame_def)
  have a: "w_acts w1 0 = Some (Listing ?op)" "w_acts w2 0 = Some (Opening ?op 1500 True)"
    "w_acts w3 0 = Some (Draining SlotA ?u 16)" "w_acts w4 0 = Some (Draining SlotA ?u 15)"
    "w_opens w2 = 0" "w_arrived w3 = {}"
    by (simp_all add: ws demo_switch_simps)
  have "switch_step None world_new w1"
    using step_begin [of world_new 0 None ?op] by (simp add: w1_def world_new_def)
  moreover have "switch_step None w1 w2"
    using step_list [OF a(1), of None "Ok [(''eth0'', 1500, True)]"] by (simp add: w2_def)
  moreover have "switch_step None w2 w3"
    using step_open [OF a(2), of None "Ok ()"] a(5) by (simp add: w3_def)
  moreover have "switch_step None w3 w4"
    using step_drain [OF a(3), of None demo_frame "Ok 14"] a(6) len by (simp add: w4_def drained_frame_def max_frame_bytes_def)
  moreover have "switch_step None w4 demo_recv"
    using step_drain [OF a(4), of None "[]" "Ok 0"] unfolding demo_recv_def Let_def ws [symmetric]
    by (simp add: drained_frame_def del: resume_drain.simps)
  ultimately show ?thesis by (meson reach_new reach_step)
qed

lemma demo_recv_delivered: "w_delivered demo_recv = {(SlotA, demo_frame)}" "sw_uplink (w_state demo_recv) \<noteq> None"
  by (simp_all add: demo_switch_simps demo_frame_def broadcast_def)

text \<open>
  C26: isolation. However the activations of the two ports interleave, whatever the uplink answers
  and wherever a future is dropped: a frame handed to a port arrived on the uplink and is addressed
  to everyone or to that very port, so that no port ever sees a frame for its sibling; and a frame
  sent upstream is one the port's consumer handed in, with the source address replaced by the
  port's own, which differs from the sibling's and is never a group address.
\<close>

theorem switch_isolation:
  assumes "switch_reachable b w" and "base_ok b"
  shows "(\<forall>s frame. (s, frame) \<in> w_delivered w \<longrightarrow> frame \<in> w_arrived w \<and>
       (is_group (take 6 frame) \<or> take 6 frame = slot_mac b s) \<and>
       (\<forall>s'. s' \<noteq> s \<longrightarrow> take 6 frame \<noteq> slot_mac b s')) \<and>
    (\<forall>s frame. (s, frame) \<in> w_sent w \<longrightarrow> slice 6 6 frame = slot_mac b s \<and>
       (\<exists>g. (s, g) \<in> w_given w \<and> take 6 frame = take 6 g \<and> drop 12 frame = drop 12 g))"
proof (intro conjI allI impI)
  have inv: "queue_inv b w" "send_inv b w" using switch_reachable_inv [OF assms(1)] by simp_all
  note macs = slot_mac_props [OF assms(2)]
  fix s frame
  {
    assume "(s, frame) \<in> w_delivered w"
    with inv(1) have v: "frame \<in> w_arrived w" "is_group (take 6 frame) \<or> take 6 frame = slot_mac b s"
      by (auto simp: queue_inv_def visible_def)
    then show "frame \<in> w_arrived w" "is_group (take 6 frame) \<or> take 6 frame = slot_mac b s" by simp_all
    fix s' assume "s' \<noteq> s"
    then have "slot_mac b s' \<noteq> slot_mac b s" using macs(3) by (cases s; cases s') auto
    then show "take 6 frame \<noteq> slot_mac b s'" using v(2) macs(2) by auto
  next
    assume "(s, frame) \<in> w_sent w"
    then obtain g where g: "(s, g) \<in> w_given w" "14 \<le> length g" "frame = overwrite 6 (slot_mac b s) g"
      using inv(2) by (auto simp: send_inv_def stamped_def)
    show "slice 6 6 frame = slot_mac b s" using g macs(1) [of s] slice_overwrite_same [of 6 "slot_mac b s" g] by simp
    have "take 6 frame = take 6 g" "drop 12 frame = drop 12 g"
      using g macs(1) [of s] by (simp_all add: overwrite_def)
    with g(1) show "\<exists>g. (s, g) \<in> w_given w \<and> take 6 frame = take 6 g \<and> drop 12 frame = drop 12 g" by blast
  }
qed

theorem switch_isolation_witness:
  "switch_reachable None demo_recv \<and> (SlotA, demo_frame) \<in> w_delivered demo_recv \<and> demo_frame \<in> w_arrived demo_recv \<and>
   take 6 demo_frame \<noteq> slot_mac None SlotB"
  using switch_isolation [OF demo_recv_reachable default_base_ok] demo_recv_reachable demo_recv_delivered(1) by auto

text \<open>
  C27: one uplink for two ports. In every reachable state at most one activation is suspended in the
  uplink; the claim flag is set exactly then, so a finished, failed or dropped operation never
  wedges the switch; the uplink is opened at most once and not lost: when idle it is back in its
  slot; and the receive queues never exceed their bound. While the uplink is claimed an operation
  on the other port answers at once.
\<close>

theorem switch_claim:
  assumes "switch_reachable b w"
  shows "(\<forall>i j. w_acts w i \<noteq> None \<and> w_acts w j \<noteq> None \<longrightarrow> i = j) \<and>
    (sw_claimed (w_state w) \<longleftrightarrow> (\<exists>i. w_acts w i \<noteq> None)) \<and>
    w_opens w \<le> 1 \<and> (w_opens w = 1 \<and> \<not> sw_claimed (w_state w) \<longrightarrow> sw_uplink (w_state w) \<noteq> None) \<and>
    (\<forall>s. length (sw_rx (w_state w) s) \<le> rx_queue_cap) \<and>
    (sw_claimed (w_state w) \<longrightarrow> (\<forall>opn. \<exists>st ans. begin_op b opn (w_state w) = (st, Finish ans)))"
proof -
  have inv: "claim_inv w" "queue_inv b w" using switch_reachable_inv [OF assms] by simp_all
  have rx: "\<forall>s. length (sw_rx (w_state w) s) \<le> rx_queue_cap" using inv(2) by (simp add: queue_inv_def rx_ok_def)
  from inv(1) consider
      "w_acts w = Map.empty" "\<not> sw_claimed (w_state w)" "w_opens w = (if sw_uplink (w_state w) = None then 0 else 1)"
    | i a where "w_acts w = [i \<mapsto> a]" "sw_claimed (w_state w)" "sw_uplink (w_state w) = None" "w_opens w = (if held a = None then 0 else 1)"
    unfolding claim_inv_def by blast
  then show ?thesis
  proof cases
    case 1
    with rx show ?thesis by simp
  next
    case 2
    have "\<forall>opn. \<exists>st ans. begin_op b opn (w_state w) = (st, Finish ans)" using begin_claimed [OF 2(2,3)] by blast
    with 2 rx show ?thesis by (simp split: if_splits)
  qed
qed

theorem switch_claim_witness:
  "switch_reachable None demo_recv \<and> sw_uplink (w_state demo_recv) \<noteq> None \<and> w_opens demo_recv \<le> 1"
  using switch_claim [OF demo_recv_reachable] demo_recv_reachable demo_recv_delivered(2) by auto

end
