(* ===== verification/Charset.thy ===== *)
theory Charset
  imports Prelude
begin

text \<open>
  The 128-bit ASCII character set of the shell (\<open>guest/eosh/eosh-core/src/charset.rs\<close>): one bit per
  ASCII byte. The range iterator is the loop of the source on the bits, with the iterator's own
  state returned; \<open>bytes\<close>, \<open>one\<close> and \<open>nice_ranges\<close> are built from it the way the source builds them.

  The lemmas give each operation its meaning on the set of members: \<open>bytes\<close> lists the members in
  ascending order, the ranges are the maximal runs of members, \<open>count\<close> and \<open>one\<close> are the cardinality
  and the sole member, and the display split never crosses a character class.
\<close>

unbundle bit_operations_syntax

section \<open>The operations\<close>

record charset = cs_bits :: "128 word"

text \<open>A \<open>Range<u8>\<close>: start and end, both at most 128 here.\<close>

type_synonym range_u8 = "nat \<times> nat"

text \<open>\<open>1 << n\<close> on \<open>u128\<close>.\<close>

definition shl1 :: "nat \<Rightarrow> 128 word" where
  "shl1 n = push_bit n 1"

definition charset_empty :: charset where
  "charset_empty = \<lparr>cs_bits = 0\<rparr>"

definition charset_all :: charset where
  "charset_all = \<lparr>cs_bits = NOT 0\<rparr>"

definition charset_singleton :: "byte \<Rightarrow> charset exec" where
  "charset_singleton i = do {
     assert_exec (i < 0x80);
     Some \<lparr>cs_bits = shl1 (unat i)\<rparr> }"

definition charset_add :: "byte \<Rightarrow> charset \<Rightarrow> charset exec" where
  "charset_add i cs = do {
     assert_exec (i < 0x80);
     Some (cs\<lparr>cs_bits := cs_bits cs OR shl1 (unat i)\<rparr>) }"

definition charset_remove :: "byte \<Rightarrow> charset \<Rightarrow> charset exec" where
  "charset_remove i cs = do {
     assert_exec (i < 0x80);
     Some (cs\<lparr>cs_bits := cs_bits cs AND NOT (shl1 (unat i))\<rparr>) }"

definition charset_contains :: "charset \<Rightarrow> byte \<Rightarrow> bool" where
  "charset_contains cs i \<longleftrightarrow> i < 0x80 \<and> cs_bits cs AND shl1 (unat i) \<noteq> 0"

definition charset_union :: "charset \<Rightarrow> charset \<Rightarrow> charset" where
  "charset_union cs other = \<lparr>cs_bits = cs_bits cs OR cs_bits other\<rparr>"

text \<open>\<open>u128::count_ones\<close> and \<open>u128::trailing_zeros\<close>.\<close>

definition count_ones :: "128 word \<Rightarrow> nat" where
  "count_ones w = length (filter (bit w) [0..<128])"

definition trailing_zeros :: "128 word \<Rightarrow> nat" where
  "trailing_zeros w = length (takeWhile (\<lambda>i. \<not> bit w i) [0..<128])"

definition charset_count :: "charset \<Rightarrow> nat" where
  "charset_count cs = count_ones (cs_bits cs)"

definition charset_is_empty :: "charset \<Rightarrow> bool" where
  "charset_is_empty cs \<longleftrightarrow> cs_bits cs = 0"

text \<open>The loop of \<open>CharsetRangeIterator::next\<close>: clear bits while they are set.\<close>

function range_loop :: "128 word \<Rightarrow> nat \<Rightarrow> 128 word \<times> nat" where
  "range_loop bits end =
     (if 128 \<le> end then (bits, end)
      else if bits AND shl1 end \<noteq> 0 then range_loop (bits AND NOT (shl1 end)) (end + 1)
      else (bits, end))"
  by auto
termination by (relation "measure (\<lambda>(bits, end). 128 - end)") auto

declare range_loop.simps [simp del]

definition range_next :: "128 word \<Rightarrow> 128 word \<times> range_u8 option" where
  "range_next bits =
     (let zeros = trailing_zeros bits;
          (bits', end) = range_loop bits zeros
      in (bits', if end = zeros then None else Some (zeros, end)))"


section \<open>Bits and runs\<close>

lemma bit_shl1: "bit (shl1 n) i \<longleftrightarrow> i = n \<and> n < 128"
  by (auto simp: shl1_def bit_exp_iff)

lemma word_eq_0_bits: "w = 0 \<longleftrightarrow> (\<forall>k. \<not> bit w k)" for w :: "128 word"
  by (auto intro: bit_word_eqI)

lemma and_shl1: "w AND shl1 n \<noteq> 0 \<longleftrightarrow> bit w n" (is "?l \<longleftrightarrow> ?r")
proof -
  have "bit (w AND shl1 n) k \<longleftrightarrow> k = n \<and> bit w n" for k
    using bit_imp_le_length [of w n] by (auto simp: bit_and_iff bit_shl1)
  then show ?thesis by (simp add: word_eq_0_bits)
qed

lemma bit_clear: "bit (w AND NOT (shl1 n)) i \<longleftrightarrow> bit w i \<and> i \<noteq> n"
  using bit_imp_le_length [of w i] by (auto simp: bit_and_iff bit_not_iff bit_shl1)

lemma byte_ascii_iff: "i < 0x80 \<longleftrightarrow> unat i < 128" for i :: byte
  by (simp add: word_less_nat_alt)

lemma charset_contains_bit: "charset_contains cs i \<longleftrightarrow> bit (cs_bits cs) (unat i)"
  using bit_imp_le_length [of "cs_bits cs" "unat i"]
  by (auto simp: charset_contains_def and_shl1 byte_ascii_iff)

lemma charset_eqI: "(\<And>b. charset_contains s b = charset_contains t b) \<Longrightarrow> s = (t :: charset)"
proof -
  assume eq: "\<And>b. charset_contains s b = charset_contains t b"
  have "cs_bits s = cs_bits t"
  proof (rule bit_word_eqI)
    fix n assume "n < LENGTH(128)"
    then have "unat (of_nat n :: byte) = n" by (simp add: unat_of_nat)
    with eq [of "of_nat n"] show "bit (cs_bits s) n = bit (cs_bits t) n"
      by (simp add: charset_contains_bit)
  qed
  then show "s = t" by simp
qed

lemma charset_contains_empty [simp]: "\<not> charset_contains charset_empty b"
  by (simp add: charset_contains_bit charset_empty_def)

lemma charset_contains_all [simp]: "charset_contains charset_all b \<longleftrightarrow> b < 0x80"
  by (simp add: charset_contains_bit charset_all_def byte_ascii_iff)

lemma charset_contains_union [simp]:
  "charset_contains (charset_union s t) b \<longleftrightarrow> charset_contains s b \<or> charset_contains t b"
  by (simp add: charset_contains_bit charset_union_def bit_or_iff)

lemma charset_contains_ascii: "charset_contains s b \<Longrightarrow> b < 0x80"
  by (simp add: charset_contains_def)

lemma charset_singleton_Some:
  "charset_singleton i = Some s \<longleftrightarrow> i < 0x80 \<and> s = \<lparr>cs_bits = shl1 (unat i)\<rparr>"
  by (auto simp: charset_singleton_def assert_exec_def)

lemma charset_singleton_contains:
  "charset_singleton i = Some s \<Longrightarrow> charset_contains s b \<longleftrightarrow> b = i"
  by (auto simp: charset_singleton_Some charset_contains_bit byte_ascii_iff bit_shl1
      dest: word_unat_eq_iff [THEN iffD2])

lemma charset_add_contains:
  "charset_add i s = Some t \<Longrightarrow> charset_contains t b \<longleftrightarrow> b = i \<or> charset_contains s b"
  by (auto simp: charset_add_def assert_exec_def charset_contains_bit byte_ascii_iff bit_or_iff
      bit_shl1 split: if_splits dest: word_unat_eq_iff [THEN iffD2])

lemma charset_remove_contains:
  "charset_remove i s = Some t \<Longrightarrow> charset_contains t b \<longleftrightarrow> b \<noteq> i \<and> charset_contains s b"
  by (auto simp: charset_remove_def assert_exec_def charset_contains_bit bit_clear
      split: if_splits dest: word_unat_eq_iff [THEN iffD2])

lemma charset_add_returns [simp]: "(charset_add i s = None) \<longleftrightarrow> \<not> i < 0x80"
  by (simp add: charset_add_def assert_exec_def)

lemma charset_remove_returns [simp]: "(charset_remove i s = None) \<longleftrightarrow> \<not> i < 0x80"
  by (simp add: charset_remove_def assert_exec_def)

lemma charset_singleton_returns [simp]: "(charset_singleton i = None) \<longleftrightarrow> \<not> i < 0x80"
  by (simp add: charset_singleton_def assert_exec_def)

text \<open>What one call of the iterator does: it takes the lowest maximal run of members off.\<close>

lemma range_loop_spec:
  assumes "range_loop bits e = (bits', e')" and "e \<le> 128"
  shows "e \<le> e' \<and> e' \<le> 128 \<and> (\<forall>i. e \<le> i \<and> i < e' \<longrightarrow> bit bits i) \<and> \<not> bit bits e' \<and>
         (\<forall>i. bit bits' i \<longleftrightarrow> bit bits i \<and> \<not> (e \<le> i \<and> i < e'))"
  using assms
proof (induction bits e arbitrary: bits' e' rule: range_loop.induct)
  case (1 bits e)
  show ?case
  proof (cases "e < 128 \<and> bit bits e")
    case True
    then have "range_loop (bits AND NOT (shl1 e)) (e + 1) = (bits', e')"
      using "1.prems" by (subst (asm) range_loop.simps) (auto simp: and_shl1)
    from "1.IH" [OF _ _ this] True have
      "e + 1 \<le> e' \<and> e' \<le> 128 \<and> (\<forall>i. e + 1 \<le> i \<and> i < e' \<longrightarrow> bit (bits AND NOT (shl1 e)) i) \<and>
       \<not> bit (bits AND NOT (shl1 e)) e' \<and>
       (\<forall>i. bit bits' i \<longleftrightarrow> bit (bits AND NOT (shl1 e)) i \<and> \<not> (e + 1 \<le> i \<and> i < e'))"
      by (simp add: and_shl1)
    moreover have "e \<le> i \<longleftrightarrow> i = e \<or> e + 1 \<le> i" for i by auto
    ultimately show ?thesis using True unfolding bit_clear by force
  next
    case False
    then have "bits' = bits \<and> e' = e"
      using "1.prems" by (subst (asm) range_loop.simps) (auto simp: and_shl1 split: if_splits)
    with False "1.prems" bit_imp_le_length [of bits e] show ?thesis by auto
  qed
qed

lemma trailing_zeros_spec:
  "trailing_zeros w \<le> 128" "i < trailing_zeros w \<Longrightarrow> \<not> bit w i"
  "trailing_zeros w < 128 \<Longrightarrow> bit w (trailing_zeros w)"
proof -
  show le: "trailing_zeros w \<le> 128"
    unfolding trailing_zeros_def by (metis length_takeWhile_le length_upt diff_zero)
  show "\<not> bit w i" if "i < trailing_zeros w"
    using that le takeWhile_nth [of i "\<lambda>i. \<not> bit w i" "[0..<128]"]
      set_takeWhileD [OF nth_mem, of i "\<lambda>i. \<not> bit w i" "[0..<128]"]
    by (auto simp: trailing_zeros_def)
  show "bit w (trailing_zeros w)" if "trailing_zeros w < 128"
    using that nth_length_takeWhile [of "\<lambda>i. \<not> bit w i" "[0..<128]"]
    by (simp add: trailing_zeros_def)
qed

lemma range_next_None: "range_next bits = (bits', None) \<Longrightarrow> bits = 0"
  and range_next_Some: "range_next bits = (bits', Some (z, e)) \<Longrightarrow>
    z < e \<and> e \<le> 128 \<and> (\<forall>i < z. \<not> bit bits i) \<and> (\<forall>i. z \<le> i \<and> i < e \<longrightarrow> bit bits i) \<and> \<not> bit bits e \<and>
    (\<forall>i. bit bits' i \<longleftrightarrow> bit bits i \<and> e \<le> i)"
proof -
  obtain w e' where l: "range_loop bits (trailing_zeros bits) = (w, e')" by fastforce
  note spec = range_loop_spec [OF l trailing_zeros_spec(1)]
  show "bits = 0" if "range_next bits = (bits', None)"
  proof -
    have "e' = trailing_zeros bits"
      using that l by (simp add: range_next_def Let_def split: if_splits)
    with spec trailing_zeros_spec(3) [of bits] have "trailing_zeros bits = 128"
      using trailing_zeros_spec(1) [of bits] by fastforce
    then have "\<not> bit bits i" for i
      using trailing_zeros_spec(2) [of i bits] bit_imp_le_length [of bits i] by fastforce
    then show ?thesis by (simp add: word_eq_0_bits)
  qed
  assume "range_next bits = (bits', Some (z, e))"
  with l have "bits' = w \<and> e = e' \<and> z = trailing_zeros bits \<and> z \<noteq> e"
    by (simp add: range_next_def Let_def split: if_splits)
  with spec trailing_zeros_spec(2) [of _ bits] show
    "z < e \<and> e \<le> 128 \<and> (\<forall>i < z. \<not> bit bits i) \<and> (\<forall>i. z \<le> i \<and> i < e \<longrightarrow> bit bits i) \<and> \<not> bit bits e \<and>
     (\<forall>i. bit bits' i \<longleftrightarrow> bit bits i \<and> e \<le> i)"
    by (auto simp: not_less)
qed

text \<open>The members, ascending; and how one run is the front of them.\<close>

definition members :: "128 word \<Rightarrow> nat list" where
  "members w = filter (bit w) [0..<128]"

lemma members_next:
  assumes "range_next bits = (bits', Some (z, e))"
  shows "members bits = [z..<e] @ members bits'"
proof -
  note n = range_next_Some [OF assms]
  have "[0..<128] = [0..<z] @ [z..<e] @ [e..<128]"
    using n upt_add_eq_append [of 0 z "e - z"] upt_add_eq_append [of 0 e "128 - e"] by simp
  moreover have "filter (bit bits) [0..<z] = []" "filter (bit bits) [z..<e] = [z..<e]"
    "filter (bit bits') [0..<z] = []" "filter (bit bits') [z..<e] = []"
    "filter (bit bits') [e..<128] = filter (bit bits) [e..<128]"
    using n by (auto simp: filter_empty_conv intro!: filter_True filter_cong)
  ultimately show ?thesis by (simp add: members_def)
qed

lemma members_range_next_less:
  "range_next bits = (bits', Some r) \<Longrightarrow> length (members bits') < length (members bits)"
  by (cases r) (auto simp: members_next dest: range_next_Some)


section \<open>The iterators\<close>

text \<open>Draining a \<open>CharsetRangeIterator\<close>.\<close>

function ranges_from :: "128 word \<Rightarrow> range_u8 list" where
  "ranges_from bits = (case range_next bits of
     (_, None) \<Rightarrow> []
   | (bits', Some r) \<Rightarrow> r # ranges_from bits')"
  by auto
termination by (relation "measure (\<lambda>bits. length (members bits))")
    (auto dest!: members_range_next_less [OF sym])

declare ranges_from.simps [simp del]

definition charset_ranges :: "charset \<Rightarrow> range_u8 list" where
  "charset_ranges cs = ranges_from (cs_bits cs)"

definition charset_bytes :: "charset \<Rightarrow> byte list" where
  "charset_bytes cs = concat (map (\<lambda>(a, b). map of_nat [a..<b]) (charset_ranges cs))"

definition charset_one :: "charset \<Rightarrow> byte option" where
  "charset_one cs = (case charset_bytes cs of
     [] \<Rightarrow> None
   | b # rest \<Rightarrow> (case rest of [] \<Rightarrow> Some b | _ \<Rightarrow> None))"

text \<open>\<open>SplitRange::one\<close> and \<open>upto\<close>, and one call of its \<open>next\<close>: the rest and the item.\<close>

definition split_one :: "range_u8 \<Rightarrow> range_u8 \<times> range_u8" where
  "split_one r = ((fst r + 1, snd r), (fst r, fst r + 1))"

definition split_upto :: "nat \<Rightarrow> range_u8 \<Rightarrow> range_u8 \<times> range_u8" where
  "split_upto exclusive r =
     (let highest = min (snd r) exclusive in ((highest, snd r), (fst r, highest)))"

definition split_next :: "range_u8 \<Rightarrow> (range_u8 \<times> range_u8) option" where
  "split_next r =
     (let start = fst r; end = snd r in
      if start = end then None
      else if start < 0x30 then Some (split_one r)
      else if start \<le> 0x39 then Some (split_upto (0x39 + 1) r)
      else if start < 0x41 then Some (split_one r)
      else if start \<le> 0x5A then Some (split_upto (0x5A + 1) r)
      else if start < 0x61 then Some (split_one r)
      else if start \<le> 0x7A then Some (split_upto (0x7A + 1) r)
      else if start \<le> 0x7F then Some (split_one r)
      else None)"

text \<open>
  Draining a \<open>SplitRange\<close>. Every item advances the start, which is below 128, so 128 calls are
  enough (\<open>split_range_cover\<close>).
\<close>

fun split_drain :: "nat \<Rightarrow> range_u8 \<Rightarrow> range_u8 list" where
  "split_drain 0 r = []"
| "split_drain (Suc n) r = (case split_next r of
     None \<Rightarrow> []
   | Some (r', item) \<Rightarrow> item # split_drain n r')"

definition split_range :: "range_u8 \<Rightarrow> range_u8 list" where
  "split_range r = split_drain 128 r"

definition charset_nice_ranges :: "charset \<Rightarrow> range_u8 list" where
  "charset_nice_ranges cs = concat (map split_range (charset_ranges cs))"


section \<open>What the iterators list\<close>

lemma ranges_from_members: "concat (map (\<lambda>(a, b). [a..<b]) (ranges_from bits)) = members bits"
proof (induction bits rule: ranges_from.induct)
  case (1 bits)
  obtain bits' o' where n: "range_next bits = (bits', o')" by fastforce
  show ?case
  proof (cases o')
    case None
    with n range_next_None have "bits = 0" by blast
    with n None show ?thesis by (subst ranges_from.simps) (simp add: members_def)
  next
    case (Some r)
    obtain z e where r: "r = (z, e)" by fastforce
    with "1.IH" n Some have "concat (map (\<lambda>(a, b). [a..<b]) (ranges_from bits')) = members bits'"
      by simp
    with n Some r show ?thesis
      by (subst ranges_from.simps) (simp add: members_next)
  qed
qed

lemma members_bounded: "i \<in> set (members w) \<Longrightarrow> i < 128"
  by (simp add: members_def)

lemma charset_bytes_members: "charset_bytes cs = map of_nat (members (cs_bits cs))"
  unfolding charset_bytes_def charset_ranges_def ranges_from_members [symmetric]
  by (simp add: map_concat comp_def split_def)

lemma unat_of_member: "i < 128 \<Longrightarrow> unat (of_nat i :: byte) = i"
  by (simp add: unat_of_nat)

lemma set_charset_bytes [simp]: "set (charset_bytes cs) = {b. charset_contains cs b}"
proof (intro equalityI subsetI)
  fix b assume "b \<in> set (charset_bytes cs)"
  then obtain i where "b = of_nat i" "i < 128" "bit (cs_bits cs) i"
    by (auto simp: charset_bytes_members members_def)
  then show "b \<in> {b. charset_contains cs b}" by (simp add: charset_contains_bit unat_of_member)
next
  fix b assume "b \<in> {b. charset_contains cs b}"
  then have "unat b < 128" "bit (cs_bits cs) (unat b)"
    by (auto simp: charset_contains_bit dest: bit_imp_le_length)
  moreover have "b = of_nat (unat b)" by simp
  ultimately show "b \<in> set (charset_bytes cs)"
    unfolding charset_bytes_members members_def set_map set_filter by (auto intro!: image_eqI)
qed

lemma charset_bytes_sorted: "sorted_wrt (<) (map unat (charset_bytes cs))"
proof -
  have "map unat (charset_bytes cs) = members (cs_bits cs)"
    by (auto simp: charset_bytes_members unat_of_member dest: members_bounded intro!: map_idI)
  then show ?thesis by (simp add: members_def sorted_wrt_filter)
qed

lemma charset_bytes_distinct: "distinct (charset_bytes cs)"
  using charset_bytes_sorted [of cs] by (simp add: strict_sorted_iff distinct_map)

lemma charset_count_card: "charset_count cs = card {b. charset_contains cs b}"
proof -
  have "charset_count cs = length (charset_bytes cs)"
    by (simp add: charset_count_def count_ones_def charset_bytes_members members_def)
  also have "\<dots> = card {b. charset_contains cs b}"
    by (metis charset_bytes_distinct distinct_card set_charset_bytes)
  finally show ?thesis .
qed

lemma charset_one_iff: "charset_one cs = Some b \<longleftrightarrow> (\<forall>c. charset_contains cs c \<longleftrightarrow> c = b)"
proof -
  have "charset_one cs = Some b \<longleftrightarrow> charset_bytes cs = [b]"
    by (auto simp: charset_one_def split: list.splits)
  also have "\<dots> \<longleftrightarrow> set (charset_bytes cs) = {b}"
  proof
    assume "set (charset_bytes cs) = {b}"
    then show "charset_bytes cs = [b]"
      using charset_bytes_distinct [of cs]
      by (metis card.empty card_insert_disjoint distinct_card empty_iff finite.emptyI length_0_conv
          length_Suc_conv list.set_intros(1) singletonD)
  qed simp
  finally show ?thesis by auto
qed


text \<open>The ranges are maximal: between two of them there is a byte that is no member.\<close>

lemma ranges_from_bounds:
  assumes "(a, b) \<in> set (ranges_from bits)"
  shows "a < b \<and> b \<le> 128 \<and> {a..<b} \<subseteq> {i. bit bits i} \<and> \<not> bit bits b"
  using assms
proof (induction bits rule: ranges_from.induct)
  case (1 bits)
  obtain bits' z e where n: "range_next bits = (bits', Some (z, e))"
    and m: "(a, b) = (z, e) \<or> (a, b) \<in> set (ranges_from bits')"
    using "1.prems" ranges_from.simps [of bits] by (auto split: prod.splits option.splits)
  note spec = range_next_Some [OF n]
  show ?case
  proof (cases "(a, b) = (z, e)")
    case True
    with spec show ?thesis by auto
  next
    case False
    with "1.IH" n m have "a < b \<and> b \<le> 128 \<and> {a..<b} \<subseteq> {i. bit bits' i} \<and> \<not> bit bits' b"
      by fastforce
    moreover from this spec have "e \<le> a" by (metis atLeastLessThan_iff le_refl mem_Collect_eq subsetD)
    ultimately show ?thesis using spec by fastforce
  qed
qed

text \<open>Splitting for display keeps the bytes and never crosses a character class.\<close>

definition same_class :: "nat \<Rightarrow> nat \<Rightarrow> bool" where
  "same_class a b \<longleftrightarrow> (0x30 \<le> a \<and> b \<le> 0x39) \<or> (0x41 \<le> a \<and> b \<le> 0x5A) \<or> (0x61 \<le> a \<and> b \<le> 0x7A)"

lemma split_next_Some:
  assumes "split_next (a, b) = Some (r, item)" and "a \<le> b" and "b \<le> 128"
  shows "\<exists>m. a < m \<and> m \<le> b \<and> r = (m, b) \<and> item = (a, m) \<and> (m = a + 1 \<or> same_class a (m - 1))"
  using assms
  by (auto simp: split_next_def Let_def split_one_def split_upto_def same_class_def min_def
      split: if_splits)

lemma split_next_None: "split_next (a, b) = None \<Longrightarrow> a \<le> b \<Longrightarrow> b \<le> 128 \<Longrightarrow> a = b"
  by (auto simp: split_next_def Let_def split: if_splits)

lemma split_drain_cover:
  assumes "a \<le> b" and "b \<le> 128" and "b - a \<le> n"
  shows "concat (map (\<lambda>(c, d). [c..<d]) (split_drain n (a, b))) = [a..<b] \<and>
         (\<forall>(c, d) \<in> set (split_drain n (a, b)). c < d \<and> (d = c + 1 \<or> same_class c (d - 1)))"
  using assms
proof (induction n arbitrary: a)
  case 0
  then show ?case by simp
next
  case (Suc n)
  show ?case
  proof (cases "split_next (a, b)")
    case None
    with Suc.prems split_next_None [of a b] show ?thesis by simp
  next
    case (Some p)
    then obtain m where p: "p = ((m, b), (a, m))" and m: "a < m" "m \<le> b"
      and c: "m = a + 1 \<or> same_class a (m - 1)"
      using split_next_Some [of a b "fst p" "snd p"] Suc.prems by (cases p) auto
    with Suc.IH [of m] Suc.prems have
      "concat (map (\<lambda>(c, d). [c..<d]) (split_drain n (m, b))) = [m..<b] \<and>
       (\<forall>(c, d) \<in> set (split_drain n (m, b)). c < d \<and> (d = c + 1 \<or> same_class c (d - 1)))"
      by simp
    moreover have "[a..<b] = [a..<m] @ [m..<b]"
      using m upt_add_eq_append [of a m "b - m"] by simp
    ultimately show ?thesis using Some p m c by auto
  qed
qed

lemma charset_nice_ranges_cover:
  "concat (map (\<lambda>(c, d). map of_nat [c..<d]) (charset_nice_ranges cs)) = charset_bytes cs \<and>
   (\<forall>(c, d) \<in> set (charset_nice_ranges cs). c < d \<and> (d = c + 1 \<or> same_class c (d - 1)))"
proof -
  have r: "concat (map (\<lambda>(c, d). [c..<d]) (split_range (a, b))) = [a..<b] \<and>
      (\<forall>(c, d) \<in> set (split_range (a, b)). c < d \<and> (d = c + 1 \<or> same_class c (d - 1)))"
    if "(a, b) \<in> set (charset_ranges cs)" for a b
    using that ranges_from_bounds [of a b "cs_bits cs"] split_drain_cover [of a b 128]
    by (simp add: split_range_def charset_ranges_def le_diff_conv)
  have "concat (map (\<lambda>(c, d). [c..<d]) (concat (map split_range rs))) =
        concat (map (\<lambda>(a, b). [a..<b]) rs)" if "set rs \<subseteq> set (charset_ranges cs)" for rs
    using that r by (induction rs) auto
  from this [of "charset_ranges cs"]
  have "map of_nat (concat (map (\<lambda>(c, d). [c..<d]) (charset_nice_ranges cs))) = charset_bytes cs"
    by (simp add: charset_nice_ranges_def charset_bytes_members ranges_from_members
        charset_ranges_def)
  then show ?thesis
    using r by (fastforce simp: map_concat comp_def split_def charset_nice_ranges_def)
qed

end
