(* ===== verification/Inc_Parse.thy ===== *)
theory Inc_Parse
  imports Charset
begin

text \<open>
  The incremental parser interface of the shell (\<open>guest/eosh/eosh-core/src\<close>: \<open>input.rs\<close>, \<open>inc.rs\<close>,
  \<open>check.rs\<close>). A \<open>Box<dyn IncParse<T>>\<close> is known to its clients through its methods alone, so it is
  an element of a codatatype whose selectors are the methods: what one input does, what could come
  next, which words complete it. \<open>boxed\<close> makes such an object from a struct and its \<open>impl\<close> (the state
  and the methods on it). \<open>Option<Step>\<close> is an option of \<open>pstep\<close>; the methods that can panic have a
  result in \<open>exec\<close>.

  \<open>sane\<close> is the contract between \<open>step\<close> and \<open>admissible\<close> that the comments of \<open>inc.rs\<close> and the checker
  \<open>check.rs\<close> describe, and \<open>inc_ok\<close> says that it holds in every state a parser can reach. The lemmas
  show that the checker accepts every state of such a parser with no residual, and what the
  forced-prefix walk of the TAB key types: bytes that every accepted line begins with.
\<close>

section \<open>Inputs, admissibility, steps\<close>

text \<open>\<open>Input\<close>. The byte of \<open>Byte\<close> is an \<open>Ascii\<close>, below 128; the byte of \<open>Text\<close> is 128 or above.\<close>

datatype input = Eof | Byte byte | Text byte

definition ascii_new :: "byte \<Rightarrow> byte option" where
  "ascii_new b = (if b < 0x80 then Some b else None)"

definition input_byte :: "byte \<Rightarrow> input option" where
  "input_byte b = (case ascii_new b of Some a \<Rightarrow> Some (Byte a) | None \<Rightarrow> None)"

definition input_of_byte :: "byte \<Rightarrow> input" where
  "input_of_byte b = (case ascii_new b of Some a \<Rightarrow> Byte a | None \<Rightarrow> Text b)"

record admissible =
  adm_charset :: charset
  adm_hard_required :: bool
  adm_non_ascii_ok :: bool

definition admissible_new :: "charset \<Rightarrow> bool \<Rightarrow> bool \<Rightarrow> admissible" where
  "admissible_new cs hard text =
     \<lparr>adm_charset = cs, adm_hard_required = hard, adm_non_ascii_ok = text\<rparr>"

definition TIME_TO_FINISH :: admissible where
  "TIME_TO_FINISH = admissible_new charset_empty False False"

definition admissible_either :: "admissible \<Rightarrow> admissible \<Rightarrow> admissible" where
  "admissible_either a b =
     \<lparr>adm_charset = charset_union (adm_charset a) (adm_charset b),
      adm_hard_required = (adm_hard_required a \<and> adm_hard_required b),
      adm_non_ascii_ok = (adm_non_ascii_ok a \<or> adm_non_ascii_ok b)\<rparr>"

datatype tag = Tag_Builtin | Tag_Keyword | Tag_Program | Tag_Binding | Tag_Other | Tag_Flag | Tag_Value

definition tag_is_name :: "tag \<Rightarrow> bool" where
  "tag_is_name t \<longleftrightarrow> \<not> (t = Tag_Flag \<or> t = Tag_Value)"

record completion =
  comp_word :: bytes
  comp_matched :: nat
  comp_tag :: tag
  comp_desc :: "bytes option"
  comp_glue :: bool

text \<open>\<open>Step<T>\<close>, over the type of the parser that continues.\<close>

datatype ('a, 'p) pstep = Done 'a input | Continue 'p | Both 'a input 'p

fun step_value :: "('a, 'p) pstep \<Rightarrow> 'a option" where
  "step_value (Done v _) = Some v"
| "step_value (Both v _ _) = Some v"
| "step_value (Continue _) = None"

fun step_cont :: "('a, 'p) pstep \<Rightarrow> 'p option" where
  "step_cont (Continue p) = Some p"
| "step_cont (Both _ _ p) = Some p"
| "step_cont (Done _ _) = None"


section \<open>Parser objects\<close>

text \<open>\<open>trait IncParse<T>\<close>, behind a box.\<close>

codatatype 'a incparse = IncParse
  (inc_step: "input \<Rightarrow> ('a, 'a incparse) pstep option")
  (inc_admissible: "admissible exec")
  (inc_completions: "completion list exec")

text \<open>\<open>Box::new(state)\<close> of a struct that implements the trait.\<close>

primcorec boxed :: "('s \<Rightarrow> input \<Rightarrow> ('a, 's) pstep option) \<Rightarrow> ('s \<Rightarrow> admissible exec) \<Rightarrow>
    ('s \<Rightarrow> completion list exec) \<Rightarrow> 's \<Rightarrow> 'a incparse" where
  "inc_step (boxed step adm cmpl s) =
     (\<lambda>i. map_option (map_pstep id (boxed step adm cmpl)) (step s i))"
| "inc_admissible (boxed step adm cmpl s) = adm s"
| "inc_completions (boxed step adm cmpl s) = cmpl s"

text \<open>The default method of the trait: a structural parser completes nothing.\<close>

definition no_completions :: "'s \<Rightarrow> completion list exec" where
  "no_completions s = Some []"

fun feed_bytes :: "'a incparse \<Rightarrow> bytes \<Rightarrow> 'a incparse option" where
  "feed_bytes p [] = Some p"
| "feed_bytes p (b # bs) = do {
     s \<leftarrow> inc_step p (input_of_byte b);
     q \<leftarrow> step_cont s;
     feed_bytes q bs }"

definition finish :: "'a incparse \<Rightarrow> 'a option" where
  "finish p = do { s \<leftarrow> inc_step p Eof; step_value s }"

definition accepts :: "'a incparse \<Rightarrow> bytes \<Rightarrow> bool" where
  "accepts p line = (case feed_bytes p line of Some state \<Rightarrow> finish state \<noteq> None | None \<Rightarrow> False)"

text \<open>The loop of \<open>forced_prefix\<close>; its cap of 4096 rounds is the counter.\<close>

fun forced_walk :: "nat \<Rightarrow> 'a incparse \<Rightarrow> bytes exec" where
  "forced_walk 0 p = Some []"
| "forced_walk (Suc n) p = do {
     adm \<leftarrow> inc_admissible p;
     if \<not> adm_hard_required adm then Some []
     else case charset_one (adm_charset adm) of
       None \<Rightarrow> Some []
     | Some b \<Rightarrow> do {
         i \<leftarrow> input_byte b;
         case inc_step p i of
           Some (Continue q) \<Rightarrow> do { out \<leftarrow> forced_walk n q; Some (b # out) }
         | Some (Both _ _ q) \<Rightarrow> do { out \<leftarrow> forced_walk n q; Some (b # out) }
         | _ \<Rightarrow> Some [] } }"

definition forced_prefix :: "'a incparse \<Rightarrow> bytes exec" where
  "forced_prefix p = forced_walk 4096 p"

text \<open>\<open>check.rs\<close>: the checker's loop over the ASCII bytes, and the whole check with its residual.\<close>

definition does_cont :: "('a, 'p) pstep option \<Rightarrow> bool" where
  "does_cont r = (case r of Some s \<Rightarrow> step_cont s \<noteq> None | None \<Rightarrow> False)"

definition does_finish :: "('a, 'p) pstep option \<Rightarrow> bool" where
  "does_finish r = (case r of Some s \<Rightarrow> step_value s \<noteq> None | None \<Rightarrow> False)"

fun check_bytes :: "'a incparse \<Rightarrow> admissible \<Rightarrow> nat list \<Rightarrow> nat \<Rightarrow> nat exec" where
  "check_bytes p adm [] residual = Some residual"
| "check_bytes p adm (n # ns) residual = do {
     i \<leftarrow> input_byte (of_nat n);
     let should_work = charset_contains (adm_charset adm) (of_nat n);
     let stepped = inc_step p i;
     let worked = (stepped \<noteq> None);
     assert_exec (\<not> (should_work \<and> \<not> worked));
     assert_exec (\<not> (\<not> should_work \<and> adm_hard_required adm \<and> worked));
     check_bytes p adm ns
       (if \<not> should_work \<and> \<not> adm_hard_required adm \<and> does_cont stepped then residual + 1
        else residual) }"

definition sanity_check :: "'a incparse \<Rightarrow> nat exec" where
  "sanity_check p = do {
     adm \<leftarrow> inc_admissible p;
     residual \<leftarrow> check_bytes p adm [0..<0x80] 0;
     let text_consumes = does_cont (inc_step p (Text 0xC3));
     assert_exec (\<not> (adm_non_ascii_ok adm \<and> \<not> text_consumes));
     assert_exec (\<not> (\<not> adm_non_ascii_ok adm \<and> text_consumes));
     let eof_finishes = does_finish (inc_step p Eof);
     assert_exec (\<not> (adm_hard_required adm \<and> eof_finishes));
     assert_exec (\<not> (\<not> adm_hard_required adm \<and> \<not> eof_finishes));
     Some residual }"


section \<open>The contract\<close>

text \<open>\<open>Step\<close>'s value and continuation after one input.\<close>

definition inc_offer :: "'a incparse \<Rightarrow> input \<Rightarrow> 'a option" where
  "inc_offer p i = Option.bind (inc_step p i) step_value"

definition inc_next :: "'a incparse \<Rightarrow> input \<Rightarrow> 'a incparse option" where
  "inc_next p i = Option.bind (inc_step p i) step_cont"

definition wf_input :: "input \<Rightarrow> bool" where
  "wf_input i = (case i of Eof \<Rightarrow> True | Byte b \<Rightarrow> b < 0x80 | Text b \<Rightarrow> 0x80 \<le> b)"

definition hands_back :: "input \<Rightarrow> ('a, 'p) pstep option \<Rightarrow> bool" where
  "hands_back i r = (case r of
     Some (Done _ r) \<Rightarrow> r = i | Some (Both _ r _) \<Rightarrow> r = i | _ \<Rightarrow> True)"

text \<open>
  One state, given by what it does with an input and by the answers of its other two methods:
  \<^item> the methods return, and what is handed back is the input just stepped;
  \<^item> exactly the bytes of the charset are consumed, and text bytes exactly where the flag says so;
  \<^item> \<open>Eof\<close> is never consumed; it finishes the parser unless the state is hard, and a hard state
    finishes on nothing;
  \<^item> text bytes are treated alike: all of them finish the parser or none, a state they finish lets
    every ASCII byte through, and where they are consumed the lower-case letters are too.
\<close>

definition sane_at ::
    "(input \<Rightarrow> ('a, 'p) pstep option) \<Rightarrow> admissible exec \<Rightarrow> completion list exec \<Rightarrow> bool" where
  "sane_at step adm cmpl \<longleftrightarrow>
     cmpl \<noteq> None \<and> (\<forall>i. hands_back i (step i)) \<and> \<not> does_cont (step Eof) \<and>
     (\<exists>a. adm = Some a \<and>
       (\<forall>b < 0x80. charset_contains (adm_charset a) b = does_cont (step (Byte b))) \<and>
       (\<forall>t \<ge> 0x80. adm_non_ascii_ok a = does_cont (step (Text t))) \<and>
       (adm_hard_required a \<longrightarrow> (\<forall>i. wf_input i \<longrightarrow> \<not> does_finish (step i))) \<and>
       (\<not> adm_hard_required a \<longrightarrow> does_finish (step Eof)) \<and>
       (adm_non_ascii_ok a \<longrightarrow> (\<forall>b. 0x61 \<le> b \<and> b \<le> 0x7A \<longrightarrow> charset_contains (adm_charset a) b))) \<and>
     (\<forall>t \<ge> 0x80. does_finish (step (Text t)) = does_finish (step (Text 0x80))) \<and>
     (does_finish (step (Text 0x80)) \<longrightarrow> (\<forall>b < 0x80. step (Byte b) \<noteq> None))"

abbreviation sane :: "'a incparse \<Rightarrow> bool" where
  "sane p \<equiv> sane_at (inc_step p) (inc_admissible p) (inc_completions p)"

coinductive inc_ok :: "'a incparse \<Rightarrow> bool" where
  inc_okI: "sane p \<Longrightarrow> (\<And>i q. wf_input i \<Longrightarrow> inc_next p i = Some q \<Longrightarrow> inc_ok q) \<Longrightarrow> inc_ok p"

lemma inc_ok_sane: "inc_ok p \<Longrightarrow> sane p"
  and inc_ok_next: "inc_ok p \<Longrightarrow> wf_input i \<Longrightarrow> inc_next p i = Some q \<Longrightarrow> inc_ok q"
  by (auto elim: inc_ok.cases)

lemma inc_ok_coinduct [consumes 1, case_names sane closed]:
  assumes "X p"
    and "\<And>p. X p \<Longrightarrow> sane p"
    and "\<And>p i q. X p \<Longrightarrow> wf_input i \<Longrightarrow> inc_next p i = Some q \<Longrightarrow> X q"
  shows "inc_ok p"
  using assms(1) by (coinduction arbitrary: p rule: inc_ok.coinduct) (auto dest: assms(2,3))

lemma wf_input_simps [simp]:
  "wf_input Eof" "wf_input (Byte b) \<longleftrightarrow> b < 0x80" "wf_input (Text b) \<longleftrightarrow> 0x80 \<le> b"
  by (auto simp: wf_input_def)

lemma wf_input_of_byte [simp]: "wf_input (input_of_byte b)"
  by (auto simp: input_of_byte_def ascii_new_def wf_input_def)

lemma does_cont_next: "does_cont (inc_step p i) \<longleftrightarrow> inc_next p i \<noteq> None"
  by (auto simp: does_cont_def inc_next_def split: option.splits)

lemma does_finish_offer: "does_finish (inc_step p i) \<longleftrightarrow> inc_offer p i \<noteq> None"
  by (auto simp: does_finish_def inc_offer_def split: option.splits)

lemma does_simps [simp]:
  "\<not> does_cont None" "\<not> does_cont (Some (Done v i))" "does_cont (Some (Continue q))"
  "does_cont (Some (Both v i q))" "\<not> does_finish None" "does_finish (Some (Done v i))"
  "\<not> does_finish (Some (Continue q))" "does_finish (Some (Both v i q))"
  by (simp_all add: does_cont_def does_finish_def)

lemma hands_back_simps [simp]:
  "hands_back i None" "hands_back i (Some (Continue q))"
  "hands_back i (Some (Done v r)) \<longleftrightarrow> r = i" "hands_back i (Some (Both v r q)) \<longleftrightarrow> r = i"
  by (simp_all add: hands_back_def)

lemma does_map_pstep [simp]:
  "does_cont (map_option (map_pstep f g) r) = does_cont r"
  "does_finish (map_option (map_pstep f g) r) = does_finish r"
  "hands_back i (map_option (map_pstep f g) r) = hands_back i r"
proof -
  show "does_cont (map_option (map_pstep f g) r) = does_cont r"
    and "does_finish (map_option (map_pstep f g) r) = does_finish r"
    and "hands_back i (map_option (map_pstep f g) r) = hands_back i r"
    by (cases r; (cases "the r")?; simp)+
qed

lemma step_value_map [simp]: "step_value (map_pstep f g s) = map_option f (step_value s)"
  by (cases s) simp_all

lemma step_cont_map [simp]: "step_cont (map_pstep f g s) = map_option g (step_cont s)"
  by (cases s) simp_all

lemma sane_at_map [simp]:
  "sane_at (\<lambda>i. map_option (map_pstep f g) (step i)) adm cmpl = sane_at step adm cmpl"
  by (simp add: sane_at_def)

text \<open>
  A struct that implements the trait keeps the contract when it does so in every state of an
  invariant that its steps keep.
\<close>

locale inc_leaf =
  fixes step :: "'s \<Rightarrow> input \<Rightarrow> ('a, 's) pstep option"
    and adm :: "'s \<Rightarrow> admissible exec"
    and cmpl :: "'s \<Rightarrow> completion list exec"
    and inv :: "'s \<Rightarrow> bool"
  assumes sane: "inv s \<Longrightarrow> sane_at (step s) (adm s) (cmpl s)"
    and keep: "inv s \<Longrightarrow> wf_input i \<Longrightarrow> step s i = Some r \<Longrightarrow> step_cont r = Some s' \<Longrightarrow> inv s'"
begin

lemma boxed_ok: "inv s \<Longrightarrow> inc_ok (boxed step adm cmpl s)"
proof (coinduction arbitrary: s rule: inc_ok.coinduct)
  case inc_ok
  have "sane (boxed step adm cmpl s)" using sane [OF inc_ok] by simp
  moreover have "\<exists>s'. q = boxed step adm cmpl s' \<and> inv s'"
    if "wf_input i" "inc_next (boxed step adm cmpl s) i = Some q" for i q
    using that keep [OF inc_ok] by (cases "step s i") (auto simp: inc_next_def)
  ultimately show ?case by blast
qed

end

text \<open>The checker accepts every such state and counts no residual.\<close>

lemma check_bytes_sane:
  assumes "sane p" and "inc_admissible p = Some adm" and "\<forall>n \<in> set ns. n < 128"
  shows "check_bytes p adm ns r = Some r"
  using assms(3)
proof (induction ns arbitrary: r)
  case (Cons n ns)
  have b: "(of_nat n :: byte) < 0x80"
    using Cons.prems by (simp add: byte_ascii_iff unat_of_member)
  have c: "charset_contains (adm_charset adm) (of_nat n) = does_cont (inc_step p (Byte (of_nat n)))"
    using assms b by (simp add: sane_at_def)
  have h: "\<not> does_finish (inc_step p (Byte (of_nat n)))" if "adm_hard_required adm"
    using assms b that by (simp add: sane_at_def)
  show ?case
    using Cons b c h
    by (cases "inc_step p (Byte (of_nat n))"; cases "the (inc_step p (Byte (of_nat n)))")
      (auto simp: input_byte_def ascii_new_def Let_def assert_exec_def)
qed simp

lemma sanity_check_sane:
  assumes "sane p"
  shows "sanity_check p = Some 0"
proof -
  obtain adm where a: "inc_admissible p = Some adm" using assms by (auto simp: sane_at_def)
  then have "check_bytes p adm [0..<0x80] 0 = Some 0"
    using check_bytes_sane [OF assms] by simp
  moreover have "adm_non_ascii_ok adm = does_cont (inc_step p (Text 0xC3))"
    and "adm_hard_required adm \<noteq> does_finish (inc_step p Eof)"
    using assms a by (auto simp: sane_at_def)
  ultimately show ?thesis
    using a by (simp add: sanity_check_def Let_def assert_exec_def)
qed


section \<open>Reached states, accepted lines, the forced prefix\<close>

lemma feed_bytes_Cons: "feed_bytes p (b # bs) = Option.bind (inc_next p (input_of_byte b)) (\<lambda>q. feed_bytes q bs)"
  by (cases "inc_step p (input_of_byte b)") (simp_all add: inc_next_def)

lemma feed_bytes_append: "feed_bytes p (xs @ ys) = Option.bind (feed_bytes p xs) (\<lambda>q. feed_bytes q ys)"
proof (induction xs arbitrary: p)
  case (Cons b xs)
  then show ?case
    unfolding append_Cons feed_bytes_Cons by (cases "inc_next p (input_of_byte b)") simp_all
qed simp

declare feed_bytes.simps(2) [simp del] feed_bytes_Cons [simp]

lemma inc_ok_feed: "inc_ok p \<Longrightarrow> feed_bytes p w = Some q \<Longrightarrow> inc_ok q"
  by (induction w arbitrary: p) (auto simp: bind_eq_Some_conv dest: inc_ok_next [OF _ wf_input_of_byte])

text \<open>The value with which a parser that has consumed \<open>w\<close> finishes on the input \<open>n\<close>.\<close>

definition outcome :: "'a incparse \<Rightarrow> bytes \<Rightarrow> input \<Rightarrow> 'a option" where
  "outcome p w n = Option.bind (feed_bytes p w) (\<lambda>q. inc_offer q n)"

lemma accepts_outcome: "accepts p line \<longleftrightarrow> outcome p line Eof \<noteq> None"
  by (auto simp: accepts_def outcome_def finish_def inc_offer_def split: option.splits)

lemma accepts_Cons: "accepts p (b # bs) \<longleftrightarrow> (\<exists>q. inc_next p (input_of_byte b) = Some q \<and> accepts q bs)"
  by (cases "inc_next p (input_of_byte b)") (auto simp: accepts_def)

lemma sane_forced_byte:
  assumes "sane p" and "inc_admissible p = Some a" and "adm_hard_required a"
    and "charset_one (adm_charset a) = Some b"
  shows "b < 0x80" "inc_next p (Byte b) \<noteq> None" "accepts p line \<Longrightarrow> \<exists>rest. line = b # rest"
proof -
  have only: "charset_contains (adm_charset a) c \<longleftrightarrow> c = b" for c
    using assms(4) by (simp add: charset_one_iff)
  then show b: "b < 0x80" using charset_contains_ascii by blast
  with only assms(1,2) show "inc_next p (Byte b) \<noteq> None"
    by (auto simp: sane_at_def does_cont_next)
  have no_text: "\<not> adm_non_ascii_ok a"
  proof
    assume "adm_non_ascii_ok a"
    with assms(1,2) have l: "charset_contains (adm_charset a) c" if "0x61 \<le> c \<and> c \<le> 0x7A" for c
      using that unfolding sane_at_def by auto
    have "charset_contains (adm_charset a) 0x61" "charset_contains (adm_charset a) 0x62"
      by (rule l; simp)+
    then show False unfolding only by auto
  qed
  show "\<exists>rest. line = b # rest" if acc: "accepts p line"
  proof (cases line)
    case Nil
    with acc assms(1-3) show ?thesis
      by (auto simp: accepts_def finish_def sane_at_def does_finish_offer inc_offer_def)
  next
    case (Cons c rest)
    with acc have nx: "inc_next p (input_of_byte c) \<noteq> None" by (auto simp: accepts_Cons)
    have "c = b"
    proof (cases "c < 0x80")
      case True
      with nx assms(1,2) have "charset_contains (adm_charset a) c"
        by (simp add: input_of_byte_def ascii_new_def sane_at_def does_cont_next)
      with only show ?thesis by simp
    next
      case False
      with nx assms(1,2) no_text show ?thesis
        by (simp add: input_of_byte_def ascii_new_def sane_at_def does_cont_next)
    qed
    with Cons show ?thesis by simp
  qed
qed

lemma forced_walk_sound:
  assumes "inc_ok p"
  shows "\<exists>out q. forced_walk n p = Some out \<and> length out \<le> n \<and> feed_bytes p out = Some q \<and>
    (\<forall>line. accepts p line \<longrightarrow> (\<exists>rest. line = out @ rest \<and> accepts q rest)) \<and>
    (length out < n \<longrightarrow> (\<exists>a. inc_admissible q = Some a \<and>
       (adm_hard_required a \<longrightarrow> charset_one (adm_charset a) = None)))"
  using assms
proof (induction n arbitrary: p)
  case (Suc n)
  have sp: "sane p" by (rule inc_ok_sane [OF Suc.prems])
  then obtain a where a: "inc_admissible p = Some a" by (auto simp: sane_at_def)
  show ?case
  proof (cases "adm_hard_required a \<and> charset_one (adm_charset a) \<noteq> None")
    case False
    with a show ?thesis by auto
  next
    case True
    then obtain b where one: "charset_one (adm_charset a) = Some b" by blast
    note f = sane_forced_byte [OF sp a _ one]
    from True f obtain q where q: "inc_next p (Byte b) = Some q" and b: "b < 0x80" by auto
    then have in_b: "input_of_byte b = Byte b" "input_byte b = Some (Byte b)"
      by (simp_all add: input_of_byte_def input_byte_def ascii_new_def)
    have "inc_ok q" using inc_ok_next [OF Suc.prems _ q] b by simp
    from Suc.IH [OF this] obtain out q' where w: "forced_walk n q = Some out"
      and l: "length out \<le> n" and fd: "feed_bytes q out = Some q'"
      and ext: "\<And>line. accepts q line \<Longrightarrow> \<exists>rest. line = out @ rest \<and> accepts q' rest"
      and stop: "length out < n \<longrightarrow> (\<exists>a. inc_admissible q' = Some a \<and>
        (adm_hard_required a \<longrightarrow> charset_one (adm_charset a) = None))" by blast
    have "forced_walk (Suc n) p = Some (b # out)"
      using a True one in_b w q
      by (auto simp: inc_next_def bind_eq_Some_conv split: option.splits pstep.splits)
    moreover have "\<exists>rest. line = (b # out) @ rest \<and> accepts q' rest" if "accepts p line" for line
    proof -
      from f(3) True that obtain rest where "line = b # rest" by blast
      with that q in_b ext [of rest] show ?thesis by (auto simp: accepts_Cons)
    qed
    ultimately show ?thesis using l fd stop q in_b by auto
  qed
qed simp

end
