(* ===== verification/Comb.thy ===== *)
theory Comb
  imports Inc_Parse
begin

text \<open>
  The combinators of the shell's parser (\<open>guest/eosh/eosh-core/src/comb.rs\<close>, lines 87 to 617): \<open>Pure\<close>,
  \<open>Map\<close>, \<open>Bind\<close>, \<open>Alt\<close>, \<open>Fail\<close> and what is derived from them. Each struct is a state with its
  methods, boxed into a parser object.

  A step of \<open>Bind\<close> over an ambiguous left side continues with an alternation of two of its own
  states, so the states of a bind object here are its two variants and such forks of them
  (\<open>Forks\<close>); \<open>fork_is_alt\<close> shows that a fork is the alternation the source builds.

  Shown here: the contract of \<open>Inc_Parse\<close> is kept by every combinator, and the exact meaning of a
  line: an alternation finishes with the value of its first branch that does, a sequence with the
  value of the longest left part that leaves the right side something to finish with.
\<close>

section \<open>Pure, Fail, Map\<close>

definition pure_step :: "'a \<Rightarrow> input \<Rightarrow> ('a, 'a) pstep option" where
  "pure_step value i = Some (Done value i)"

definition p_pure :: "'a \<Rightarrow> 'a incparse" where
  "p_pure = boxed pure_step (\<lambda>_. Some TIME_TO_FINISH) no_completions"

definition fail_step :: "unit \<Rightarrow> input \<Rightarrow> ('a, unit) pstep option" where
  "fail_step s i = None"

definition fail_admissible :: "unit \<Rightarrow> admissible exec" where
  "fail_admissible s = Some (admissible_new charset_empty True False)"

definition p_fail :: "'a incparse" where
  "p_fail = boxed fail_step fail_admissible no_completions ()"

definition map_step :: "('a \<Rightarrow> 'b) \<Rightarrow> 'a incparse \<Rightarrow> input \<Rightarrow> ('b, 'a incparse) pstep option" where
  "map_step f parser i = (case inc_step parser i of
     None \<Rightarrow> None
   | Some (Done v r) \<Rightarrow> Some (Done (f v) r)
   | Some (Continue c) \<Rightarrow> Some (Continue c)
   | Some (Both v r c) \<Rightarrow> Some (Both (f v) r c))"

definition p_map :: "'a incparse \<Rightarrow> ('a \<Rightarrow> 'b) \<Rightarrow> 'b incparse" where
  "p_map parser f = boxed (map_step f) inc_admissible inc_completions parser"


section \<open>Alt\<close>

text \<open>
  The loop of \<open>Alt::step\<close> over what the branches answered: the first finisher's value and the
  branches that continue, in order.
\<close>

fun alt_loop :: "('a, 'p) pstep option list \<Rightarrow> ('a \<times> input) option \<Rightarrow> 'p list \<Rightarrow>
    ('a \<times> input) option \<times> 'p list" where
  "alt_loop [] done conts = (done, conts)"
| "alt_loop (None # rs) done conts = alt_loop rs done conts"
| "alt_loop (Some (Done v r) # rs) done conts =
     alt_loop rs (if Option.is_none done then Some (v, r) else done) conts"
| "alt_loop (Some (Continue c) # rs) done conts = alt_loop rs done (conts @ [c])"
| "alt_loop (Some (Both v r c) # rs) done conts =
     alt_loop rs (if Option.is_none done then Some (v, r) else done) (conts @ [c])"

definition alt_merge :: "('a, 'p) pstep option list \<Rightarrow> ('a, 'p list) pstep option" where
  "alt_merge rs = (case alt_loop rs None [] of
     (None, []) \<Rightarrow> None
   | (Some (v, r), []) \<Rightarrow> Some (Done v r)
   | (None, conts) \<Rightarrow> Some (Continue conts)
   | (Some (v, r), conts) \<Rightarrow> Some (Both v r conts))"

text \<open>A single survivor goes on as itself, several as an alternation.\<close>

definition survivors :: "('p list \<Rightarrow> 'p) \<Rightarrow> 'p list \<Rightarrow> 'p" where
  "survivors mk conts = (case conts of [c] \<Rightarrow> c | _ \<Rightarrow> mk conts)"

fun either_all :: "admissible \<Rightarrow> admissible exec list \<Rightarrow> admissible exec" where
  "either_all acc [] = Some acc"
| "either_all acc (x # xs) = do { a \<leftarrow> x; either_all (admissible_either acc a) xs }"

definition alt_admissible :: "admissible exec list \<Rightarrow> admissible exec" where
  "alt_admissible branches = (case branches of
     [] \<Rightarrow> None
   | x # xs \<Rightarrow> do { first \<leftarrow> x; either_all first xs })"

fun concat_exec :: "'a list exec list \<Rightarrow> 'a list exec" where
  "concat_exec [] = Some []"
| "concat_exec (x # xs) = do { a \<leftarrow> x; b \<leftarrow> concat_exec xs; Some (a @ b) }"

primcorec alt_obj :: "'a incparse list \<Rightarrow> 'a incparse" where
  "inc_step (alt_obj branches) = (\<lambda>i. map_option
     (map_pstep id (\<lambda>conts. case conts of [c] \<Rightarrow> c | _ \<Rightarrow> alt_obj conts))
     (alt_merge (map (\<lambda>b. inc_step b i) branches)))"
| "inc_admissible (alt_obj branches) = alt_admissible (map inc_admissible branches)"
| "inc_completions (alt_obj branches) = concat_exec (map inc_completions branches)"

text \<open>
  \<open>alt\<close>. Its assertion that there is a branch holds at every call: the calls of the source all pass
  a list of two or more.
\<close>

definition p_alt :: "'a incparse list \<Rightarrow> 'a incparse" where
  "p_alt branches = (case branches of [b] \<Rightarrow> b | _ \<Rightarrow> alt_obj branches)"


section \<open>Bind\<close>

datatype (plugins del: size) ('a, 'b) bind_state =
  P1 "'a incparse" | P2 "'b incparse" | Forks "('a, 'b) bind_state list"

definition merge_rhs :: "('b, ('a, 'b) bind_state) pstep \<Rightarrow> ('a, 'b) bind_state option \<Rightarrow>
    ('b, ('a, 'b) bind_state) pstep" where
  "merge_rhs rhs left_alive = (case left_alive of
     None \<Rightarrow> rhs
   | Some left \<Rightarrow> (case rhs of
       Done v r \<Rightarrow> Both v r left
     | Continue cont \<Rightarrow> Continue (Forks [left, cont])
     | Both v r cont \<Rightarrow> Both v r (Forks [left, cont])))"

definition wrap_p2 :: "('b, 'b incparse) pstep \<Rightarrow> ('a, 'b) bind_state option \<Rightarrow>
    ('b, ('a, 'b) bind_state) pstep" where
  "wrap_p2 step left_alive = merge_rhs
     (case step of
        Done v r \<Rightarrow> Done v r
      | Continue p2 \<Rightarrow> Continue (P2 p2)
      | Both v r cont \<Rightarrow> Both v r (P2 cont)) left_alive"

primrec bind_step :: "('a \<Rightarrow> 'b incparse) \<Rightarrow> ('a, 'b) bind_state \<Rightarrow> input \<Rightarrow>
    ('b, ('a, 'b) bind_state) pstep option" where
  "bind_step f (P1 p1) = (\<lambda>i. case inc_step p1 i of
     None \<Rightarrow> None
   | Some (Done v rejected) \<Rightarrow>
       (case inc_step (f v) rejected of None \<Rightarrow> None | Some s \<Rightarrow> Some (wrap_p2 s None))
   | Some (Continue c) \<Rightarrow> Some (Continue (P1 c))
   | Some (Both v rejected cont) \<Rightarrow>
       (case inc_step (f v) rejected of
          None \<Rightarrow> Some (Continue (P1 cont))
        | Some rhs \<Rightarrow> Some (wrap_p2 rhs (Some (P1 cont)))))"
| "bind_step f (P2 p2) = (\<lambda>i. case inc_step p2 i of
     None \<Rightarrow> None | Some s \<Rightarrow> Some (wrap_p2 s None))"
| "bind_step f (Forks bs) = (\<lambda>i. map_option (map_pstep id (survivors Forks))
     (alt_merge (map (\<lambda>g. g i) (map (bind_step f) bs))))"

text \<open>The loop of \<open>Bind::admissible\<close> over the right side's bytes.\<close>

fun probe_bytes :: "'a incparse \<Rightarrow> byte list \<Rightarrow> charset \<Rightarrow> charset exec" where
  "probe_bytes p1 [] cs = Some cs"
| "probe_bytes p1 (b # bs) cs =
     (if charset_contains cs b then probe_bytes p1 bs cs
      else do {
        i \<leftarrow> input_byte b;
        if does_finish (inc_step p1 i) then do {
          cs' \<leftarrow> charset_add b cs;
          probe_bytes p1 bs cs' }
        else probe_bytes p1 bs cs })"

definition bind_p1_admissible :: "('a \<Rightarrow> 'b incparse) \<Rightarrow> 'a incparse \<Rightarrow> admissible exec" where
  "bind_p1_admissible f p1 = do {
     p1e \<leftarrow> inc_admissible p1;
     if adm_hard_required p1e then Some p1e
     else case inc_step p1 Eof of
       None \<Rightarrow> None
     | Some (Continue _) \<Rightarrow> None
     | Some s \<Rightarrow> do {
         (v, rejected) \<leftarrow> (case s of Done v r \<Rightarrow> Some (v, r) | Both v r _ \<Rightarrow> Some (v, r) | _ \<Rightarrow> None);
         assert_exec (rejected = Eof);
         p2e \<leftarrow> inc_admissible (f v);
         charset \<leftarrow> probe_bytes p1 (charset_bytes (adm_charset p2e)) (adm_charset p1e);
         let rhs_text_ok = (adm_non_ascii_ok p2e \<and> does_finish (inc_step p1 (Text 0x80)));
         Some \<lparr>adm_charset = charset, adm_hard_required = adm_hard_required p2e,
               adm_non_ascii_ok = adm_non_ascii_ok p1e \<or> rhs_text_ok\<rparr> } }"

definition bind_p1_completions :: "('a \<Rightarrow> 'b incparse) \<Rightarrow> 'a incparse \<Rightarrow> completion list exec" where
  "bind_p1_completions f p1 = do {
     out \<leftarrow> inc_completions p1;
     p1e \<leftarrow> inc_admissible p1;
     if adm_hard_required p1e then Some out
     else case Option.bind (inc_step p1 Eof) step_value of
       None \<Rightarrow> Some out
     | Some v \<Rightarrow> do { rest \<leftarrow> inc_completions (f v); Some (out @ rest) } }"

primrec bind_admissible :: "('a \<Rightarrow> 'b incparse) \<Rightarrow> ('a, 'b) bind_state \<Rightarrow> admissible exec" where
  "bind_admissible f (P1 p1) = bind_p1_admissible f p1"
| "bind_admissible f (P2 p2) = inc_admissible p2"
| "bind_admissible f (Forks bs) = alt_admissible (map (bind_admissible f) bs)"

primrec bind_completions :: "('a \<Rightarrow> 'b incparse) \<Rightarrow> ('a, 'b) bind_state \<Rightarrow> completion list exec" where
  "bind_completions f (P1 p1) = bind_p1_completions f p1"
| "bind_completions f (P2 p2) = inc_completions p2"
| "bind_completions f (Forks bs) = concat_exec (map (bind_completions f) bs)"

definition bind_obj :: "('a \<Rightarrow> 'b incparse) \<Rightarrow> ('a, 'b) bind_state \<Rightarrow> 'b incparse" where
  "bind_obj f = boxed (bind_step f) (bind_admissible f) (bind_completions f)"

definition p_bind :: "'a incparse \<Rightarrow> ('a \<Rightarrow> 'b incparse) \<Rightarrow> 'b incparse" where
  "p_bind parser f = bind_obj f (P1 parser)"


section \<open>Derived forms\<close>

definition p_lazy :: "(unit \<Rightarrow> 'a incparse) \<Rightarrow> 'a incparse" where
  "p_lazy build = IncParse (\<lambda>i. inc_step (build ()) i) (inc_admissible (build ()))
     (inc_completions (build ()))"

definition keep_left :: "'a incparse \<Rightarrow> unit incparse \<Rightarrow> 'a incparse" where
  "keep_left first second = p_bind first (\<lambda>value. p_map second (\<lambda>_. value))"

definition keep_right :: "unit incparse \<Rightarrow> 'a incparse \<Rightarrow> 'a incparse" where
  "keep_right first second = p_bind first (\<lambda>_. second)"

primrec rep :: "nat \<Rightarrow> unit incparse \<Rightarrow> unit incparse" where
  "rep 0 item = p_pure ()"
| "rep (Suc n) item = p_bind item (\<lambda>_. rep n item)"

primrec rep_vec_from :: "nat \<Rightarrow> 'a list \<Rightarrow> 'a incparse \<Rightarrow> 'a list incparse" where
  "rep_vec_from 0 acc item = p_pure acc"
| "rep_vec_from (Suc n) acc item = p_bind item (\<lambda>v. rep_vec_from n (acc @ [v]) item)"

definition rep_vec :: "nat \<Rightarrow> 'a incparse \<Rightarrow> 'a list incparse" where
  "rep_vec n item = rep_vec_from n [] item"

text \<open>
  \<open>star\<close> and \<open>star_vec\<close>: the closure of the source calls the function again each time an item is
  complete. The counter bounds how often; a line of \<open>n\<close> bytes has at most \<open>n\<close> items when no item is
  empty, so a counter above its length leaves the language of the source (\<open>star_unfold\<close>).
\<close>

primrec star_vec_from :: "nat \<Rightarrow> 'a list \<Rightarrow> 'a incparse \<Rightarrow> 'a list incparse" where
  "star_vec_from 0 acc item = p_pure acc"
| "star_vec_from (Suc k) acc item =
     p_alt [p_pure acc, p_bind item (\<lambda>v. star_vec_from k (acc @ [v]) item)]"

definition star_vec :: "nat \<Rightarrow> 'a incparse \<Rightarrow> 'a list incparse" where
  "star_vec k item = star_vec_from k [] item"

primrec star :: "nat \<Rightarrow> unit incparse \<Rightarrow> unit incparse" where
  "star 0 item = p_pure ()"
| "star (Suc k) item = p_alt [p_pure (), p_bind item (\<lambda>_. star k item)]"


section \<open>What the objects do\<close>

lemma case_survivors: "(\<lambda>cs. case cs of [c] \<Rightarrow> c | _ \<Rightarrow> mk cs) = survivors mk"
  by (rule ext) (simp add: survivors_def)

lemma survivors_simps [simp]:
  "survivors mk [c] = c" "survivors mk [] = mk []" "survivors mk (a # b # cs) = mk (a # b # cs)"
  by (simp_all add: survivors_def)

lemma inc_step_alt: "inc_step (alt_obj bs) i =
    map_option (map_pstep id (survivors alt_obj)) (alt_merge (map (\<lambda>b. inc_step b i) bs))"
  by (simp add: survivors_def [abs_def])

declare alt_obj.simps(1) [simp del] inc_step_alt [simp]

text \<open>The first of several optional values.\<close>

primrec first_some :: "'a option list \<Rightarrow> 'a option" where
  "first_some [] = None"
| "first_some (x # xs) = (case x of None \<Rightarrow> first_some xs | Some v \<Rightarrow> Some v)"

lemma first_some_append:
  "first_some (xs @ ys) = (case first_some xs of None \<Rightarrow> first_some ys | Some v \<Rightarrow> Some v)"
  by (induction xs) (auto split: option.splits)

lemma first_some_None: "first_some xs = None \<longleftrightarrow> (\<forall>x \<in> set xs. x = None)"
  by (induction xs) (auto split: option.splits)

lemma first_some_Nones: "first_some (map (\<lambda>k. None) xs) = None"
  by (simp add: first_some_None)

abbreviation offers :: "('a, 'p) pstep option \<Rightarrow> ('a \<times> input) option" where
  "offers r \<equiv> Option.bind r (\<lambda>s. case s of Done v r \<Rightarrow> Some (v, r) | Both v r _ \<Rightarrow> Some (v, r)
     | Continue _ \<Rightarrow> None)"

abbreviation conts_of :: "('a, 'p) pstep option list \<Rightarrow> 'p list" where
  "conts_of rs \<equiv> List.map_filter (\<lambda>r. Option.bind r step_cont) rs"

lemma map_filter_Cons [simp]:
  "List.map_filter f (x # xs) = (case f x of None \<Rightarrow> List.map_filter f xs | Some y \<Rightarrow> y # List.map_filter f xs)"
  by (simp add: map_filter_simps)

lemma map_filter_Nil [simp]: "List.map_filter f [] = []"
  by (simp add: List.map_filter_def)

lemma alt_loop_eq:
  "alt_loop rs fin conts =
     (case fin of None \<Rightarrow> first_some (map offers rs) | Some d \<Rightarrow> Some d, conts @ conts_of rs)"
  by (induction rs fin conts rule: alt_loop.induct) (auto split: option.splits)

lemma alt_merge_eq: "alt_merge rs = (case (first_some (map offers rs), conts_of rs) of
     (None, []) \<Rightarrow> None
   | (Some (v, r), []) \<Rightarrow> Some (Done v r)
   | (None, conts) \<Rightarrow> Some (Continue conts)
   | (Some (v, r), conts) \<Rightarrow> Some (Both v r conts))"
  by (simp add: alt_merge_def alt_loop_eq)

lemma offers_map: "offers (map_option (map_pstep f g) r) = map_option (map_prod f id) (offers r)"
  by (cases r; (cases "the r")?; simp)

lemma offers_fst: "map_option fst (offers r) = Option.bind r step_value"
  by (cases r; (cases "the r")?; simp)

lemma first_some_map: "first_some (map (\<lambda>x. map_option f (g x)) xs) = map_option f (first_some (map g xs))"
  by (induction xs) (auto split: option.splits)

lemma conts_of_map: "conts_of (map (\<lambda>x. map_option (map_pstep f g) (h x)) xs) = map g (conts_of (map h xs))"
proof (induction xs)
  case (Cons x xs)
  then show ?case by (cases "h x"; (cases "the (h x)")?; simp)
qed simp

lemma alt_merge_map: "alt_merge (map (\<lambda>x. map_option (map_pstep id g) (h x)) xs) =
    map_option (map_pstep id (map g)) (alt_merge (map h xs))"
proof -
  have "first_some (map offers (map (\<lambda>x. map_option (map_pstep id g) (h x)) xs)) =
        first_some (map offers (map h xs))"
    by (simp add: offers_map comp_def first_some_map prod.map_id0 option.map_id)
  then show ?thesis
    unfolding alt_merge_eq conts_of_map by (auto split: option.splits list.splits)
qed


text \<open>A right side that has started is that parser; a fork is an alternation.\<close>

lemma bind_obj_P2 [simp]: "bind_obj f (P2 q) = q"
proof (coinduction arbitrary: q)
  case Eq_incparse
  have "rel_option (rel_pstep (=) (\<lambda>a b. \<exists>q. a = bind_obj f (P2 q) \<and> b = q))
     (inc_step (bind_obj f (P2 q)) i) (inc_step q i)" for i
    by (cases "inc_step q i"; (cases "the (inc_step q i)")?)
      (auto simp: bind_obj_def wrap_p2_def merge_rhs_def)
  then show ?case by (auto simp: rel_fun_def) (auto simp: bind_obj_def)
qed

lemma bind_obj_Forks: "bind_obj f (Forks bs) = alt_obj (map (bind_obj f) bs)"
proof (coinduction arbitrary: bs rule: incparse.coinduct_strong)
  case (Eq_incparse bs)
  let ?R = "\<lambda>a b. (\<exists>bs. a = bind_obj f (Forks bs) \<and> b = alt_obj (map (bind_obj f) bs)) \<or> a = b"
  have step: "rel_option (rel_pstep (=) ?R) (inc_step (bind_obj f (Forks bs)) i)
      (inc_step (alt_obj (map (bind_obj f) bs)) i)" for i
  proof -
    have "map (\<lambda>b. inc_step b i) (map (bind_obj f) bs) =
        map (\<lambda>b. map_option (map_pstep id (bind_obj f)) (bind_step f b i)) bs"
      by (simp add: bind_obj_def)
    then have e2: "inc_step (alt_obj (map (bind_obj f) bs)) i =
        map_option (map_pstep id (\<lambda>cs. survivors alt_obj (map (bind_obj f) cs)))
          (alt_merge (map (\<lambda>b. bind_step f b i) bs))"
      by (simp only: inc_step_alt alt_merge_map option.map_comp pstep.map_comp comp_def id_apply)
        (simp add: id_def)
    have e1: "inc_step (bind_obj f (Forks bs)) i =
        map_option (map_pstep id (\<lambda>cs. bind_obj f (survivors Forks cs)))
          (alt_merge (map (\<lambda>b. bind_step f b i) bs))"
      by (simp add: bind_obj_def option.map_comp pstep.map_comp comp_def id_def)
    have r: "?R (bind_obj f (survivors Forks cs)) (survivors alt_obj (map (bind_obj f) cs))" for cs
      by (cases cs rule: remdups_adj.cases) auto
    show ?thesis
      unfolding e1 e2 option.rel_map pstep.rel_map id_apply
      by (rule option.rel_refl_strong, rule pstep.rel_refl_strong) (rule refl, rule r)
  qed
  have "inc_admissible (bind_obj f (Forks bs)) = inc_admissible (alt_obj (map (bind_obj f) bs))"
    and "inc_completions (bind_obj f (Forks bs)) = inc_completions (alt_obj (map (bind_obj f) bs))"
    by (simp_all add: bind_obj_def comp_def)
  with step show ?case by (simp add: rel_fun_def)
qed

lemma inc_step_bind:
  "inc_step (p_bind p f) i = (case inc_step p i of
     None \<Rightarrow> None
   | Some (Done v r) \<Rightarrow> inc_step (f v) r
   | Some (Continue c) \<Rightarrow> Some (Continue (p_bind c f))
   | Some (Both v r c) \<Rightarrow> (case inc_step (f v) r of
       None \<Rightarrow> Some (Continue (p_bind c f))
     | Some (Done w r) \<Rightarrow> Some (Both w r (p_bind c f))
     | Some (Continue q) \<Rightarrow> Some (Continue (alt_obj [p_bind c f, q]))
     | Some (Both w r q) \<Rightarrow> Some (Both w r (alt_obj [p_bind c f, q]))))"
proof -
  have unbox: "inc_step (p_bind p f) i = map_option (map_pstep id (bind_obj f)) (bind_step f (P1 p) i)"
    by (simp add: p_bind_def bind_obj_def)
  show ?thesis unfolding unbox
    by (auto simp: p_bind_def wrap_p2_def merge_rhs_def bind_obj_Forks split: option.splits pstep.splits)
qed

lemma inc_methods_bind [simp]:
  "inc_admissible (p_bind p f) = bind_p1_admissible f p"
  "inc_completions (p_bind p f) = bind_p1_completions f p"
  by (simp_all add: p_bind_def bind_obj_def)

lemma inc_step_map: "inc_step (p_map p f) i = map_option (map_pstep f (\<lambda>c. p_map c f)) (inc_step p i)"
  by (cases "inc_step p i"; (cases "the (inc_step p i)")?) (simp_all add: p_map_def map_step_def)

lemma inc_methods_map [simp]:
  "inc_admissible (p_map p f) = inc_admissible p" "inc_completions (p_map p f) = inc_completions p"
  by (simp_all add: p_map_def)

lemma p_lazy_build [simp]: "p_lazy build = build ()"
  by (simp add: p_lazy_def)

lemma inc_step_pure [simp]: "inc_step (p_pure v) i = Some (Done v i)"
  by (simp add: p_pure_def pure_step_def)

lemma inc_step_fail [simp]: "inc_step p_fail i = None"
  by (simp add: p_fail_def fail_step_def)

lemma p_alt_two [simp]: "p_alt [a, b] = alt_obj [a, b]"
  by (simp add: p_alt_def)


section \<open>The outcome of a line\<close>

lemma inc_next_alt: "inc_next (alt_obj bs) i =
    (case List.map_filter (\<lambda>b. inc_next b i) bs of [] \<Rightarrow> None | cs \<Rightarrow> Some (survivors alt_obj cs))"
  and inc_offer_alt: "inc_offer (alt_obj bs) i = first_some (map (\<lambda>b. inc_offer b i) bs)"
proof -
  let ?rs = "map (\<lambda>b. inc_step b i) bs"
  have c: "conts_of ?rs = List.map_filter (\<lambda>b. inc_next b i) bs"
    by (induction bs) (auto simp: inc_next_def split: option.splits)
  have o: "map_option fst (first_some (map offers ?rs)) = first_some (map (\<lambda>b. inc_offer b i) bs)"
    by (simp add: first_some_map [symmetric] comp_def inc_offer_def offers_fst)
  show "inc_next (alt_obj bs) i = (case List.map_filter (\<lambda>b. inc_next b i) bs of
      [] \<Rightarrow> None | cs \<Rightarrow> Some (survivors alt_obj cs))"
    unfolding inc_next_def [of "alt_obj bs"] inc_step_alt alt_merge_eq c
    by (auto split: option.splits list.splits)
  show "inc_offer (alt_obj bs) i = first_some (map (\<lambda>b. inc_offer b i) bs)"
    unfolding inc_offer_def [of "alt_obj bs"] inc_step_alt alt_merge_eq o [symmetric]
    by (auto split: option.splits list.splits)
qed


lemma outcome_Nil [simp]: "outcome p [] n = inc_offer p n"
  by (simp add: outcome_def)

lemma outcome_Cons [simp]:
  "outcome p (b # w) n = Option.bind (inc_next p (input_of_byte b)) (\<lambda>q. outcome q w n)"
  by (cases "inc_next p (input_of_byte b)") (simp_all add: outcome_def)

lemma first_some_filter:
  "first_some (map f (List.map_filter g xs)) = first_some (map (\<lambda>x. Option.bind (g x) f) xs)"
  by (induction xs) (auto split: option.splits)

text \<open>The first branch, in order, that finishes there.\<close>

lemma outcome_alt: "outcome (alt_obj bs) w n = first_some (map (\<lambda>b. outcome b w n) bs)"
proof (induction w arbitrary: bs)
  case Nil
  then show ?case by (simp add: inc_offer_alt)
next
  case (Cons c w)
  let ?cs = "List.map_filter (\<lambda>b. inc_next b (input_of_byte c)) bs"
  have "outcome (survivors alt_obj ?cs) w n = first_some (map (\<lambda>b. outcome b w n) ?cs)"
    by (cases ?cs rule: remdups_adj.cases) (auto simp: Cons split: option.splits)
  moreover have "first_some (map (\<lambda>b. outcome b w n) ?cs) = first_some (map (\<lambda>b. outcome b (c # w) n) bs)"
    by (simp add: first_some_filter)
  ultimately show ?case
    by (cases ?cs) (simp_all add: inc_next_alt)
qed

lemma inc_next_map: "inc_next (p_map p f) i = map_option (\<lambda>c. p_map c f) (inc_next p i)"
  and inc_offer_map: "inc_offer (p_map p f) i = map_option f (inc_offer p i)"
  by (cases "inc_step p i"; simp add: inc_next_def inc_offer_def inc_step_map)+

lemma outcome_map: "outcome (p_map p f) w n = map_option f (outcome p w n)"
proof (induction w arbitrary: p)
  case (Cons b w)
  then show ?case by (cases "inc_next p (input_of_byte b)") (simp_all add: inc_next_map)
qed (simp add: inc_offer_map)

lemma outcome_pure: "outcome (p_pure v) w n = (if w = [] then Some v else None)"
  by (cases w) (simp_all add: inc_offer_def inc_next_def)

text \<open>
  A sequence: for every way to cut the line the left side must finish on the first byte of the rest
  (or on the final input), and the right side it yields must finish the rest. The longest left part
  comes first.
\<close>

definition next_input :: "bytes \<Rightarrow> input \<Rightarrow> input" where
  "next_input w n = (case w of [] \<Rightarrow> n | b # _ \<Rightarrow> input_of_byte b)"

definition cut_outcome :: "'a incparse \<Rightarrow> ('a \<Rightarrow> 'b incparse) \<Rightarrow> bytes \<Rightarrow> input \<Rightarrow> nat \<Rightarrow> 'b option" where
  "cut_outcome p f w n k = Option.bind (outcome p (take k w) (next_input (drop k w) n))
     (\<lambda>u. outcome (f u) (drop k w) n)"

definition seq_outcome :: "'a incparse \<Rightarrow> ('a \<Rightarrow> 'b incparse) \<Rightarrow> bytes \<Rightarrow> input \<Rightarrow> 'b option" where
  "seq_outcome p f w n = first_some (map (cut_outcome p f w n) (rev [0..<Suc (length w)]))"

lemma seq_outcome_Nil: "seq_outcome p f [] n = Option.bind (inc_offer p n) (\<lambda>u. inc_offer (f u) n)"
  by (simp add: seq_outcome_def cut_outcome_def next_input_def)
    (cases "inc_offer p n"; simp split: option.split)

lemma cut_outcome_Suc: "cut_outcome p f (b # w) n (Suc k) =
    Option.bind (inc_next p (input_of_byte b)) (\<lambda>q. cut_outcome q f w n k)"
  by (cases "inc_next p (input_of_byte b)") (simp_all add: cut_outcome_def)

lemma seq_outcome_Cons: "seq_outcome p f (b # w) n =
    (case Option.bind (inc_next p (input_of_byte b)) (\<lambda>q. seq_outcome q f w n) of
       Some v \<Rightarrow> Some v
     | None \<Rightarrow> Option.bind (inc_offer p (input_of_byte b)) (\<lambda>u. outcome (f u) (b # w) n))"
proof -
  let ?ks = "rev [0..<Suc (length w)]"
  have "rev [0..<Suc (length (b # w))] = map Suc ?ks @ [0]"
    by (simp only: list.size add_Suc_right add_0_right upt_conv_Cons [OF zero_less_Suc]
        map_Suc_upt [symmetric] rev.simps rev_map)
  then have "seq_outcome p f (b # w) n =
    first_some (map (cut_outcome p f (b # w) n) (map Suc ?ks) @ [cut_outcome p f (b # w) n 0])"
    unfolding seq_outcome_def by (simp only: map_append list.map)
  also have "map (cut_outcome p f (b # w) n) (map Suc ?ks) =
    map (\<lambda>k. Option.bind (inc_next p (input_of_byte b)) (\<lambda>q. cut_outcome q f w n k)) ?ks"
    by (simp only: map_map comp_def cut_outcome_Suc)
  also have "first_some (\<dots> @ [cut_outcome p f (b # w) n 0]) =
    (case Option.bind (inc_next p (input_of_byte b)) (\<lambda>q. seq_outcome q f w n) of
       Some v \<Rightarrow> Some v | None \<Rightarrow> cut_outcome p f (b # w) n 0)"
    by (cases "inc_next p (input_of_byte b)")
      (simp_all add: first_some_append first_some_Nones seq_outcome_def split: option.split del: upt_Suc)
  also have "cut_outcome p f (b # w) n 0 =
    Option.bind (inc_offer p (input_of_byte b)) (\<lambda>u. outcome (f u) (b # w) n)"
    by (simp add: cut_outcome_def next_input_def)
  finally show ?thesis .
qed

lemma hands_back_offer:
  "hands_back i r \<Longrightarrow> r = Some (Done v j) \<Longrightarrow> j = i"
  "hands_back i r \<Longrightarrow> r = Some (Both v j c) \<Longrightarrow> j = i"
  by simp_all

lemma inc_ok_hands_back: "inc_ok p \<Longrightarrow> hands_back i (inc_step p i)"
  using inc_ok_sane [of p] by (simp add: sane_at_def)

lemma bind_next_offer:
  assumes "hands_back i (inc_step p i)"
  shows "inc_offer (p_bind p f) i = Option.bind (inc_offer p i) (\<lambda>u. inc_offer (f u) i)"
    and "inc_next (p_bind p f) i = (case (inc_next p i, Option.bind (inc_offer p i) (\<lambda>u. inc_next (f u) i)) of
       (None, None) \<Rightarrow> None
     | (Some c, None) \<Rightarrow> Some (p_bind c f)
     | (None, Some q) \<Rightarrow> Some q
     | (Some c, Some q) \<Rightarrow> Some (alt_obj [p_bind c f, q]))"
  using assms
  by (auto simp: inc_offer_def inc_next_def inc_step_bind split: option.splits pstep.splits)

lemma outcome_bind:
  assumes "inc_ok p" and "wf_input n"
  shows "outcome (p_bind p f) w n = seq_outcome p f w n"
  using assms(1)
proof (induction w arbitrary: p)
  case Nil
  then show ?case by (simp add: bind_next_offer(1) inc_ok_hands_back seq_outcome_Nil)
next
  case (Cons b w)
  let ?i = "input_of_byte b"
  have IH: "outcome (p_bind q f) w n = seq_outcome q f w n" if "inc_next p ?i = Some q" for q
    using Cons.IH inc_ok_next [OF Cons.prems wf_input_of_byte that] .
  show ?case
    unfolding seq_outcome_Cons outcome_Cons [of "p_bind p f"]
      bind_next_offer(2) [OF inc_ok_hands_back [OF Cons.prems]]
    using IH
    by (cases "inc_offer p ?i"; cases "inc_next p ?i") (auto simp: outcome_alt split: option.splits)
qed

end
