(* ===== verification/Comb_Contract.thy ===== *)
theory Comb_Contract
  imports Comb
begin

text \<open>
  The contract of \<open>Inc_Parse\<close> is kept by every combinator of \<open>comb.rs\<close>. For \<open>Bind\<close> this is the claim of
  the commentary in \<open>Bind::admissible\<close>: probing the right side built from the value at \<open>Eof\<close> is exact
  as long as the right side does not depend on which input completed the left side (\<open>settled\<close>), and
  then none of its panics is reached.
\<close>

section \<open>Alternations\<close>

lemma step_None_iff: "r = None \<longleftrightarrow> \<not> does_cont r \<and> \<not> does_finish r"
  by (cases r; (cases "the r")?; simp)

lemma map_filter_empty: "List.map_filter f xs = [] \<longleftrightarrow> (\<forall>x \<in> set xs. f x = None)"
  by (induction xs) (auto split: option.splits)

lemma set_map_filter: "set (List.map_filter f xs) = {y. \<exists>x \<in> set xs. f x = Some y}"
  by (induction xs) (auto split: option.splits)

lemma does_cont_alt: "does_cont (inc_step (alt_obj bs) i) \<longleftrightarrow> (\<exists>b \<in> set bs. does_cont (inc_step b i))"
  unfolding does_cont_next inc_next_alt
  using map_filter_empty [of "\<lambda>b. inc_next b i" bs] by (auto split: list.splits)

lemma does_finish_alt: "does_finish (inc_step (alt_obj bs) i) \<longleftrightarrow> (\<exists>b \<in> set bs. does_finish (inc_step b i))"
  unfolding does_finish_offer inc_offer_alt by (auto simp: first_some_None)

lemma first_some_SomeD: "first_some xs = Some v \<Longrightarrow> Some v \<in> set xs"
  by (induction xs) (auto split: option.splits)

lemma hands_back_alt:
  assumes "\<forall>b \<in> set bs. hands_back i (inc_step b i)"
  shows "hands_back i (inc_step (alt_obj bs) i)"
proof -
  have "r = i" if "first_some (map offers (map (\<lambda>b. inc_step b i) bs)) = Some (v, r)" for v r
  proof -
    from first_some_SomeD [OF that] obtain b where "b \<in> set bs" "Some (v, r) = offers (inc_step b i)"
      by auto
    with assms show ?thesis
      by (cases "inc_step b i"; cases "the (inc_step b i)") force+
  qed
  then show ?thesis
    by (auto simp: alt_merge_eq split: option.splits list.splits)
qed

lemma either_all_spec:
  assumes "\<forall>x \<in> set xs. x \<noteq> None"
  shows "\<exists>a. either_all acc xs = Some a \<and>
    (\<forall>b. charset_contains (adm_charset a) b \<longleftrightarrow>
       charset_contains (adm_charset acc) b \<or> (\<exists>x \<in> set xs. charset_contains (adm_charset (the x)) b)) \<and>
    (adm_hard_required a \<longleftrightarrow> adm_hard_required acc \<and> (\<forall>x \<in> set xs. adm_hard_required (the x))) \<and>
    (adm_non_ascii_ok a \<longleftrightarrow> adm_non_ascii_ok acc \<or> (\<exists>x \<in> set xs. adm_non_ascii_ok (the x)))"
  using assms
proof (induction xs arbitrary: acc)
  case (Cons x xs)
  then obtain y where x: "x = Some y" by auto
  from Cons.IH [of "admissible_either acc y"] Cons.prems obtain a where
    "either_all (admissible_either acc y) xs = Some a" and
    "\<forall>b. charset_contains (adm_charset a) b \<longleftrightarrow>
       charset_contains (adm_charset (admissible_either acc y)) b \<or> (\<exists>x \<in> set xs. charset_contains (adm_charset (the x)) b)"
    "adm_hard_required a \<longleftrightarrow> adm_hard_required (admissible_either acc y) \<and> (\<forall>x \<in> set xs. adm_hard_required (the x))"
    "adm_non_ascii_ok a \<longleftrightarrow> adm_non_ascii_ok (admissible_either acc y) \<or> (\<exists>x \<in> set xs. adm_non_ascii_ok (the x))"
    by auto
  then show ?case by (intro exI [of _ a]) (simp add: x admissible_either_def)
qed simp

lemma alt_admissible_spec:
  assumes "xs \<noteq> []" and "\<forall>x \<in> set xs. x \<noteq> None"
  shows "\<exists>a. alt_admissible xs = Some a \<and>
    (\<forall>b. charset_contains (adm_charset a) b \<longleftrightarrow> (\<exists>x \<in> set xs. charset_contains (adm_charset (the x)) b)) \<and>
    (adm_hard_required a \<longleftrightarrow> (\<forall>x \<in> set xs. adm_hard_required (the x))) \<and>
    (adm_non_ascii_ok a \<longleftrightarrow> (\<exists>x \<in> set xs. adm_non_ascii_ok (the x)))"
proof -
  from assms obtain y ys where xs: "xs = Some y # ys" by (cases xs) auto
  with assms(2) have "\<forall>x \<in> set ys. x \<noteq> None" by simp
  from either_all_spec [OF this, of y] xs show ?thesis by (auto simp: alt_admissible_def)
qed

lemma concat_exec_returns: "concat_exec xs \<noteq> None \<longleftrightarrow> (\<forall>x \<in> set xs. x \<noteq> None)"
proof (induction xs)
  case (Cons x xs)
  then show ?case by (cases x; cases "concat_exec xs") auto
qed simp

text \<open>The parts of the contract, by name.\<close>

lemma saneD:
  assumes "sane_at step adm cmpl"
  shows "\<exists>a. adm = Some a" "\<exists>c. cmpl = Some c" "hands_back i (step i)" "\<not> does_cont (step Eof)"
    "b < 0x80 \<Longrightarrow> charset_contains (adm_charset (the adm)) b = does_cont (step (Byte b))"
    "0x80 \<le> t \<Longrightarrow> adm_non_ascii_ok (the adm) = does_cont (step (Text t))"
    "adm_hard_required (the adm) \<Longrightarrow> wf_input i \<Longrightarrow> \<not> does_finish (step i)"
    "\<not> adm_hard_required (the adm) \<Longrightarrow> does_finish (step Eof)"
    "adm_non_ascii_ok (the adm) \<Longrightarrow> 0x61 \<le> b \<Longrightarrow> b \<le> 0x7A \<Longrightarrow> charset_contains (adm_charset (the adm)) b"
    "0x80 \<le> t \<Longrightarrow> does_finish (step (Text t)) = does_finish (step (Text 0x80))"
    "does_finish (step (Text 0x80)) \<Longrightarrow> b < 0x80 \<Longrightarrow> step (Byte b) \<noteq> None"
proof -
  obtain a where a: "adm = Some a" using assms unfolding sane_at_def by blast
  note c = assms [unfolded sane_at_def a option.inject]
  show "\<exists>a. adm = Some a" using a by blast
  show "\<exists>c. cmpl = Some c" using c by blast
  show "hands_back i (step i)" using c by blast
  show "\<not> does_cont (step Eof)" using c by blast
  show "b < 0x80 \<Longrightarrow> charset_contains (adm_charset (the adm)) b = does_cont (step (Byte b))"
    unfolding a option.sel using c by blast
  show "0x80 \<le> t \<Longrightarrow> adm_non_ascii_ok (the adm) = does_cont (step (Text t))"
    unfolding a option.sel using c by blast
  show "adm_hard_required (the adm) \<Longrightarrow> wf_input i \<Longrightarrow> \<not> does_finish (step i)"
    unfolding a option.sel using c by blast
  show "\<not> adm_hard_required (the adm) \<Longrightarrow> does_finish (step Eof)"
    unfolding a option.sel using c by blast
  show "adm_non_ascii_ok (the adm) \<Longrightarrow> 0x61 \<le> b \<Longrightarrow> b \<le> 0x7A \<Longrightarrow> charset_contains (adm_charset (the adm)) b"
    unfolding a option.sel using c by blast
  show "0x80 \<le> t \<Longrightarrow> does_finish (step (Text t)) = does_finish (step (Text 0x80))"
    using c by blast
  show "does_finish (step (Text 0x80)) \<Longrightarrow> b < 0x80 \<Longrightarrow> step (Byte b) \<noteq> None"
    using c by blast
qed

text \<open>And its introduction, with the admissibility given.\<close>

lemma sane_atI:
  assumes "adm = Some a" "cmpl \<noteq> None" "\<And>i. hands_back i (step i)" "\<not> does_cont (step Eof)"
    "\<And>b. b < 0x80 \<Longrightarrow> charset_contains (adm_charset a) b = does_cont (step (Byte b))"
    "\<And>t. 0x80 \<le> t \<Longrightarrow> adm_non_ascii_ok a = does_cont (step (Text t))"
    "\<And>i. adm_hard_required a \<Longrightarrow> wf_input i \<Longrightarrow> \<not> does_finish (step i)"
    "\<not> adm_hard_required a \<Longrightarrow> does_finish (step Eof)"
    "\<And>b. adm_non_ascii_ok a \<Longrightarrow> 0x61 \<le> b \<Longrightarrow> b \<le> 0x7A \<Longrightarrow> charset_contains (adm_charset a) b"
    "\<And>t. 0x80 \<le> t \<Longrightarrow> does_finish (step (Text t)) = does_finish (step (Text 0x80))"
    "\<And>b. does_finish (step (Text 0x80)) \<Longrightarrow> b < 0x80 \<Longrightarrow> step (Byte b) \<noteq> None"
  shows "sane_at step adm cmpl"
  using assms unfolding sane_at_def by blast

lemma sane_alt:
  assumes "bs \<noteq> []" and "\<forall>b \<in> set bs. sane b"
  shows "sane (alt_obj bs)"
proof -
  let ?adm = "\<lambda>b. the (inc_admissible b)"
  note each = bspec [OF assms(2)]
  note D = saneD [OF each]
  have ret: "\<forall>x \<in> set (map inc_admissible bs). x \<noteq> None" using D(1) by auto
  from alt_admissible_spec [OF _ ret] assms(1) obtain a where
    a: "inc_admissible (alt_obj bs) = Some a"
    and cs: "\<And>b. charset_contains (adm_charset a) b \<longleftrightarrow> (\<exists>x \<in> set bs. charset_contains (adm_charset (?adm x)) b)"
    and hard: "adm_hard_required a \<longleftrightarrow> (\<forall>x \<in> set bs. adm_hard_required (?adm x))"
    and nonascii: "adm_non_ascii_ok a \<longleftrightarrow> (\<exists>x \<in> set bs. adm_non_ascii_ok (?adm x))"
    by auto
  show ?thesis
  proof (rule sane_atI)
    show "inc_admissible (alt_obj bs) = Some a" by (rule a)
    show "inc_completions (alt_obj bs) \<noteq> None"
      using D(2) unfolding alt_obj.simps concat_exec_returns by auto
    show "hands_back i (inc_step (alt_obj bs) i)" for i
      by (rule hands_back_alt) (use D(3) in blast)
    show "\<not> does_cont (inc_step (alt_obj bs) Eof)" using D(4) unfolding does_cont_alt by blast
    show "charset_contains (adm_charset a) b = does_cont (inc_step (alt_obj bs) (Byte b))"
      if "b < 0x80" for b using D(5) [OF _ that] unfolding cs does_cont_alt by blast
    show "adm_non_ascii_ok a = does_cont (inc_step (alt_obj bs) (Text t))"
      if "0x80 \<le> t" for t using D(6) [OF _ that] unfolding nonascii does_cont_alt by blast
    show "\<not> does_finish (inc_step (alt_obj bs) i)" if "adm_hard_required a" "wf_input i" for i
      using that D(7) unfolding hard does_finish_alt by blast
    show "does_finish (inc_step (alt_obj bs) Eof)" if "\<not> adm_hard_required a"
      using that D(8) unfolding hard does_finish_alt by blast
    show "charset_contains (adm_charset a) b"
      if "adm_non_ascii_ok a" "0x61 \<le> b" "b \<le> 0x7A" for b
      using that D(9) unfolding nonascii cs by blast
    show "does_finish (inc_step (alt_obj bs) (Text t)) = does_finish (inc_step (alt_obj bs) (Text 0x80))"
      if "0x80 \<le> t" for t using D(10) [OF _ that] unfolding does_finish_alt by blast
    show "inc_step (alt_obj bs) (Byte b) \<noteq> None"
      if "does_finish (inc_step (alt_obj bs) (Text 0x80))" "b < 0x80" for b
      using that D(11) step_None_iff
      unfolding step_None_iff [of "inc_step (alt_obj bs) (Byte b)"] does_cont_alt does_finish_alt
      by metis
  qed
qed


section \<open>Sequences\<close>

text \<open>
  In every state of the left side, whatever input completes it yields the right side that \<open>Eof\<close>
  would have yielded. A right side that ignores the value is settled, and so is every left side
  whose value is fixed by the bytes it has consumed.
\<close>

definition settled_at :: "'a incparse \<Rightarrow> ('a \<Rightarrow> 'b incparse) \<Rightarrow> bool" where
  "settled_at p f \<longleftrightarrow> (\<forall>i u u'. wf_input i \<longrightarrow> inc_offer p Eof = Some u \<longrightarrow> inc_offer p i = Some u' \<longrightarrow>
     f u' = f u)"

definition settled :: "'a incparse \<Rightarrow> ('a \<Rightarrow> 'b incparse) \<Rightarrow> bool" where
  "settled p f \<longleftrightarrow> (\<forall>w q. feed_bytes p w = Some q \<longrightarrow> settled_at q f)"

lemma settled_const [simp]: "settled p (\<lambda>_. q)"
  by (simp add: settled_def settled_at_def)

lemma settled_unit: "settled p f" for p :: "unit incparse"
  by (simp add: settled_def settled_at_def)

lemma settled_here: "settled p f \<Longrightarrow> settled_at p f"
  unfolding settled_def using feed_bytes.simps(1) by blast

lemma wf_input_cases: "wf_input i \<Longrightarrow> i = Eof \<or> (\<exists>b. i = input_of_byte b)"
  by (cases i) (auto simp: input_of_byte_def ascii_new_def not_less intro!: exI)

lemma settled_next:
  assumes "settled p f" and "sane p" and "wf_input i" and "inc_next p i = Some q"
  shows "settled q f"
proof -
  have "i \<noteq> Eof" using assms(2,4) by (auto simp: sane_at_def does_cont_next)
  with wf_input_cases [OF assms(3)] obtain b where "i = input_of_byte b" by blast
  with assms(4) have "feed_bytes p (b # w) = feed_bytes q w" for w by simp
  with assms(1) show ?thesis unfolding settled_def by metis
qed

lemma probe_bytes_spec:
  assumes "\<forall>b \<in> set bs. b < 0x80"
  shows "\<exists>cs'. probe_bytes p bs cs = Some cs' \<and> (\<forall>b. charset_contains cs' b \<longleftrightarrow>
    charset_contains cs b \<or> (b \<in> set bs \<and> does_finish (inc_step p (Byte b))))"
  using assms
proof (induction bs arbitrary: cs)
  case (Cons c bs)
  then have c: "c < 0x80" by simp
  then obtain cs' where add: "charset_add c cs = Some cs'" by (meson charset_add_returns not_None_eq)
  show ?case
  proof (cases "\<not> charset_contains cs c \<and> does_finish (inc_step p (Byte c))")
    case True
    from Cons.IH [of cs'] Cons.prems obtain r where "probe_bytes p bs cs' = Some r" and
      "\<forall>b. charset_contains r b \<longleftrightarrow> charset_contains cs' b \<or> (b \<in> set bs \<and> does_finish (inc_step p (Byte b)))"
      by auto
    with True c add show ?thesis
      by (auto simp: input_byte_def ascii_new_def charset_add_contains [OF add])
  next
    case False
    from Cons.IH [of cs] Cons.prems obtain r where "probe_bytes p bs cs = Some r" and
      "\<forall>b. charset_contains r b \<longleftrightarrow> charset_contains cs b \<or> (b \<in> set bs \<and> does_finish (inc_step p (Byte b)))"
      by auto
    with False c show ?thesis by (auto simp: input_byte_def ascii_new_def)
  qed
qed simp

lemma bind_admissible_soft:
  assumes "inc_admissible p = Some p1e" and "\<not> adm_hard_required p1e"
    and "hands_back Eof (inc_step p Eof)" and "\<not> does_cont (inc_step p Eof)"
    and "inc_offer p Eof = Some u" and "inc_admissible (f u) = Some p2e"
  shows "\<exists>a. inc_admissible (p_bind p f) = Some a \<and>
    (\<forall>b. charset_contains (adm_charset a) b \<longleftrightarrow> charset_contains (adm_charset p1e) b \<or>
       (charset_contains (adm_charset p2e) b \<and> does_finish (inc_step p (Byte b)))) \<and>
    adm_hard_required a = adm_hard_required p2e \<and>
    adm_non_ascii_ok a = (adm_non_ascii_ok p1e \<or> (adm_non_ascii_ok p2e \<and> does_finish (inc_step p (Text 0x80))))"
proof -
  from assms(3,4,5) have eof: "inc_step p Eof = Some (Done u Eof)"
    by (cases "inc_step p Eof"; cases "the (inc_step p Eof)") (auto simp: inc_offer_def)
  have "\<forall>b \<in> set (charset_bytes (adm_charset p2e)). b < 0x80"
    by (auto dest: charset_contains_ascii)
  from probe_bytes_spec [OF this, of p "adm_charset p1e"] obtain cs' where
    "probe_bytes p (charset_bytes (adm_charset p2e)) (adm_charset p1e) = Some cs'"
    "\<forall>b. charset_contains cs' b \<longleftrightarrow> charset_contains (adm_charset p1e) b \<or>
       (b \<in> set (charset_bytes (adm_charset p2e)) \<and> does_finish (inc_step p (Byte b)))" by blast
  with assms eof show ?thesis by (simp add: bind_p1_admissible_def Let_def)
qed


lemma does_cont_bind:
  assumes "hands_back i (inc_step p i)"
  shows "does_cont (inc_step (p_bind p f) i) \<longleftrightarrow>
    does_cont (inc_step p i) \<or> (\<exists>u. inc_offer p i = Some u \<and> does_cont (inc_step (f u) i))"
  unfolding does_cont_next bind_next_offer(2) [OF assms] by (cases "inc_offer p i") (auto split: option.splits)

lemma does_finish_bind:
  assumes "hands_back i (inc_step p i)"
  shows "does_finish (inc_step (p_bind p f) i) \<longleftrightarrow>
    (\<exists>u. inc_offer p i = Some u \<and> does_finish (inc_step (f u) i))"
  unfolding does_finish_offer bind_next_offer(1) [OF assms] by (cases "inc_offer p i") auto

lemma hands_back_bind:
  assumes "hands_back i (inc_step p i)" and "\<And>u. hands_back i (inc_step (f u) i)"
  shows "hands_back i (inc_step (p_bind p f) i)"
proof -
  have "\<And>u v r. inc_step (f u) i = Some (Done v r) \<Longrightarrow> r = i"
    "\<And>u v r c. inc_step (f u) i = Some (Both v r c) \<Longrightarrow> r = i"
    using assms(2) hands_back_offer by metis+
  with assms show ?thesis
    unfolding inc_step_bind by (auto split: option.splits pstep.splits)
qed

lemma bind_completions_returns:
  assumes "inc_completions p \<noteq> None" and "inc_admissible p \<noteq> None" and "\<And>u. inc_completions (f u) \<noteq> None"
  shows "inc_completions (p_bind p f) \<noteq> None"
proof -
  from assms(1,2) obtain c a where c: "inc_completions p = Some c" and a: "inc_admissible p = Some a"
    by blast
  show ?thesis
  proof (cases "Option.bind (inc_step p Eof) step_value")
    case None
    with c a show ?thesis by (simp add: bind_p1_completions_def)
  next
    case (Some u)
    with assms(3) [of u] c a show ?thesis by (auto simp: bind_p1_completions_def)
  qed
qed

lemma sane_bind_hard:
  assumes p: "sane p" and f: "\<And>u. sane (f u)" and hard: "adm_hard_required (the (inc_admissible p))"
  shows "sane (p_bind p f)"
proof -
  note P = saneD [OF p] and F = saneD [OF f]
  from P(1) obtain a where a: "inc_admissible p = Some a" by blast
  with hard have b: "inc_admissible (p_bind p f) = Some a" by (simp add: bind_p1_admissible_def)
  have off: "inc_offer p i = None" if "wf_input i" for i
    using P(7) [OF hard that] by (simp add: does_finish_offer)
  note cont = does_cont_bind [OF P(3)] and fin = does_finish_bind [OF P(3)]
  show ?thesis
  proof (rule sane_atI [OF b])
    show "inc_completions (p_bind p f) \<noteq> None" using P(1,2) F(2) by (intro bind_completions_returns) auto
    show "hands_back i (inc_step (p_bind p f) i)" for i using hands_back_bind P(3) F(3) by blast
    show "\<not> does_cont (inc_step (p_bind p f) Eof)" using P(4) off unfolding cont by auto
    show "charset_contains (adm_charset a) b = does_cont (inc_step (p_bind p f) (Byte b))" if "b < 0x80" for b
      using P(5) [OF that] off that unfolding cont a by simp
    show "adm_non_ascii_ok a = does_cont (inc_step (p_bind p f) (Text t))" if "0x80 \<le> t" for t
      using P(6) [OF that] off that unfolding cont a by simp
    show "\<not> does_finish (inc_step (p_bind p f) i)" if "wf_input i" for i
      using off [OF that] unfolding fin by simp
    show "does_finish (inc_step (p_bind p f) Eof)" if "\<not> adm_hard_required a" using that hard a by simp
    show "charset_contains (adm_charset a) b" if "adm_non_ascii_ok a" "0x61 \<le> b" "b \<le> 0x7A" for b
      using P(9) that a by simp
    show "does_finish (inc_step (p_bind p f) (Text t)) = does_finish (inc_step (p_bind p f) (Text 0x80))"
      if "0x80 \<le> t" for t using off that unfolding fin by simp
    show "inc_step (p_bind p f) (Byte b) \<noteq> None" if "does_finish (inc_step (p_bind p f) (Text 0x80))" for b
      using that off unfolding fin by simp
  qed
qed

lemma sane_bind_soft:
  assumes p: "sane p" and f: "\<And>u. sane (f u)" and soft: "\<not> adm_hard_required (the (inc_admissible p))"
    and st: "settled_at p f"
  shows "sane (p_bind p f)"
proof -
  note P = saneD [OF p] and F = saneD [OF f]
  from P(1) obtain a1 where a1: "inc_admissible p = Some a1" by blast
  from P(8) [OF soft] obtain u where u: "inc_offer p Eof = Some u" by (auto simp: does_finish_offer)
  from F(1) [of u] obtain a2 where a2: "inc_admissible (f u) = Some a2" by blast
  have right: "(\<exists>v. inc_offer p i = Some v \<and> Q (f v)) \<longleftrightarrow> does_finish (inc_step p i) \<and> Q (f u)"
    if "wf_input i" for i Q
    using st u that unfolding settled_at_def does_finish_offer by (metis not_None_eq)
  from bind_admissible_soft [of p a1 u f a2, OF a1 _ P(3) P(4) u a2] soft a1 obtain a where
    b: "inc_admissible (p_bind p f) = Some a"
    and cs: "\<And>b. charset_contains (adm_charset a) b \<longleftrightarrow> charset_contains (adm_charset a1) b \<or>
       (charset_contains (adm_charset a2) b \<and> does_finish (inc_step p (Byte b)))"
    and hard: "adm_hard_required a = adm_hard_required a2"
    and na: "adm_non_ascii_ok a \<longleftrightarrow> adm_non_ascii_ok a1 \<or>
       (adm_non_ascii_ok a2 \<and> does_finish (inc_step p (Text 0x80)))"
    by auto
  note P' = P [unfolded a1 option.sel] and F' = saneD [OF f [of u], unfolded a2 option.sel]
  have cont: "does_cont (inc_step (p_bind p f) i) \<longleftrightarrow>
      does_cont (inc_step p i) \<or> does_finish (inc_step p i) \<and> does_cont (inc_step (f u) i)"
    and fin: "does_finish (inc_step (p_bind p f) i) \<longleftrightarrow>
      does_finish (inc_step p i) \<and> does_finish (inc_step (f u) i)" if "wf_input i" for i
    using right [OF that, of "\<lambda>q. does_cont (inc_step q i)"]
      right [OF that, of "\<lambda>q. does_finish (inc_step q i)"]
    unfolding does_cont_bind [OF P(3)] does_finish_bind [OF P(3)] by blast+
  have text_byte: "does_cont (inc_step p (Byte b)) \<or> does_finish (inc_step p (Byte b))"
    if "does_finish (inc_step p (Text 0x80))" "b < 0x80" for b
    using P(11) [OF that] step_None_iff [of "inc_step p (Byte b)"] by simp
  show ?thesis
  proof (rule sane_atI [OF b])
    show "inc_completions (p_bind p f) \<noteq> None" using P(1,2) F(2) by (intro bind_completions_returns) auto
    show "hands_back i (inc_step (p_bind p f) i)" for i using hands_back_bind P(3) F(3) by blast
    show "\<not> does_cont (inc_step (p_bind p f) Eof)" using P(4) F(4) unfolding cont [OF wf_input_simps(1)] by blast
    show "charset_contains (adm_charset a) b = does_cont (inc_step (p_bind p f) (Byte b))" if b: "b < 0x80" for b
      using cont [of "Byte b"] P'(5) [OF b] F'(5) [OF b] b unfolding cs by auto
    show "adm_non_ascii_ok a = does_cont (inc_step (p_bind p f) (Text t))" if t: "0x80 \<le> t" for t
      using cont [of "Text t"] P'(6) [OF t] F'(6) [OF t] P(10) [OF t] t unfolding na by auto
    show "\<not> does_finish (inc_step (p_bind p f) i)" if "adm_hard_required a" "wf_input i" for i
      using fin [OF that(2)] F'(7) [OF _ that(2)] that(1) hard by blast
    show "does_finish (inc_step (p_bind p f) Eof)" if "\<not> adm_hard_required a"
      using fin [OF wf_input_simps(1)] F'(8) P(8) [OF soft] that hard by blast
    show "charset_contains (adm_charset a) b" if "adm_non_ascii_ok a" "0x61 \<le> b" "b \<le> 0x7A" for b
    proof -
      have lt: "b < 0x80" using that(3) by (auto simp: word_less_nat_alt word_le_nat_alt)
      show ?thesis
        using that P'(9) [OF _ that(2,3)] F'(9) [OF _ that(2,3)] text_byte [OF _ lt] P'(5) [OF lt]
        unfolding cs na by blast
    qed
    show "does_finish (inc_step (p_bind p f) (Text t)) = does_finish (inc_step (p_bind p f) (Text 0x80))"
      if t: "0x80 \<le> t" for t
      using fin [of "Text t"] fin [of "Text 0x80"] P(10) [OF t] F'(10) [OF t] t by simp
    show "inc_step (p_bind p f) (Byte b) \<noteq> None"
      if t: "does_finish (inc_step (p_bind p f) (Text 0x80))" and b: "b < 0x80" for b
    proof -
      have "does_finish (inc_step p (Text 0x80))" "does_finish (inc_step (f u) (Text 0x80))"
        using t fin [of "Text 0x80"] by simp_all
      then show ?thesis
        using text_byte [OF _ b] F'(11) [OF _ b] cont [of "Byte b"] fin [of "Byte b"] b
          step_None_iff [of "inc_step (f u) (Byte b)"] step_None_iff [of "inc_step (p_bind p f) (Byte b)"]
        by auto
    qed
  qed
qed



section \<open>The contract in every state\<close>

text \<open>Everything a bind and the alternations over its states can turn into.\<close>

inductive comb_closed :: "('a \<Rightarrow> 'b incparse) \<Rightarrow> 'b incparse \<Rightarrow> bool" for f where
  closed_ok: "inc_ok q \<Longrightarrow> comb_closed f q"
| closed_bind: "inc_ok p \<Longrightarrow> (\<And>u. inc_ok (f u)) \<Longrightarrow> settled p f \<Longrightarrow> comb_closed f (p_bind p f)"
| closed_alt: "bs \<noteq> [] \<Longrightarrow> (\<And>b. b \<in> set bs \<Longrightarrow> comb_closed f b) \<Longrightarrow> comb_closed f (alt_obj bs)"

lemma sane_bind: "sane p \<Longrightarrow> (\<And>u. sane (f u)) \<Longrightarrow> settled_at p f \<Longrightarrow> sane (p_bind p f)"
  using sane_bind_hard sane_bind_soft by blast

lemma comb_closed_survivors:
  "cs \<noteq> [] \<Longrightarrow> (\<And>c. c \<in> set cs \<Longrightarrow> comb_closed f c) \<Longrightarrow> comb_closed f (survivors alt_obj cs)"
  by (cases cs rule: remdups_adj.cases) (auto intro: closed_alt)

lemma comb_closed_next:
  assumes "comb_closed f q" and i: "wf_input i"
  shows "sane q \<and> (\<forall>r. inc_next q i = Some r \<longrightarrow> comb_closed f r)"
  using assms(1)
proof induction
  case (closed_ok q)
  then show ?case using inc_ok_sane inc_ok_next [OF closed_ok i] comb_closed.closed_ok by blast
next
  case (closed_bind p)
  have "comb_closed f r" if "inc_next (p_bind p f) i = Some r" for r
  proof -
    have left: "comb_closed f (p_bind c f)" if "inc_next p i = Some c" for c
      using comb_closed.closed_bind inc_ok_next [OF closed_bind(1) i that] closed_bind
        settled_next [OF closed_bind(3) inc_ok_sane [OF closed_bind(1)] i that] by blast
    have right: "comb_closed f q" if "Option.bind (inc_offer p i) (\<lambda>u. inc_next (f u) i) = Some q" for q
      using that inc_ok_next [OF closed_bind(2) i] by (auto simp: bind_eq_Some_conv intro: closed_ok)
    from that left right show ?thesis
      unfolding bind_next_offer(2) [OF inc_ok_hands_back [OF closed_bind(1)]]
      by (auto split: option.splits intro!: closed_alt)
  qed
  moreover have "sane (p_bind p f)"
    using closed_bind by (intro sane_bind inc_ok_sane settled_here)
  ultimately show ?case by blast
next
  case (closed_alt bs)
  have "comb_closed f r" if "inc_next (alt_obj bs) i = Some r" for r
  proof -
    let ?cs = "List.map_filter (\<lambda>b. inc_next b i) bs"
    from that have r: "r = survivors alt_obj ?cs" and ne: "?cs \<noteq> []"
      unfolding inc_next_alt by (auto split: list.splits)
    show ?thesis unfolding r
      by (rule comb_closed_survivors [OF ne]) (use closed_alt in \<open>auto simp: set_map_filter\<close>)
  qed
  moreover have "sane (alt_obj bs)" using closed_alt by (intro sane_alt) auto
  ultimately show ?case by blast
qed

lemma inc_ok_closed: "comb_closed f q \<Longrightarrow> inc_ok q"
proof (coinduction arbitrary: q rule: inc_ok.coinduct)
  case (inc_ok q)
  have "sane q" using comb_closed_next [OF inc_ok wf_input_simps(1)] by blast
  moreover have "comb_closed f r" if "wf_input i" "inc_next q i = Some r" for i r
    using comb_closed_next [OF inc_ok that(1)] that(2) by blast
  ultimately show ?case by blast
qed

lemma inc_ok_bind:
  "inc_ok p \<Longrightarrow> (\<And>u. inc_ok (f u)) \<Longrightarrow> settled p f \<Longrightarrow> inc_ok (p_bind p f)"
  by (rule inc_ok_closed) (rule closed_bind)

lemma inc_ok_alt_obj: "bs \<noteq> [] \<Longrightarrow> (\<And>b. b \<in> set bs \<Longrightarrow> inc_ok b) \<Longrightarrow> inc_ok (alt_obj bs)"
  by (rule inc_ok_closed [where f = "\<lambda>_ :: unit. p_fail"]) (auto intro: closed_alt closed_ok)

lemma inc_ok_alt: "bs \<noteq> [] \<Longrightarrow> (\<And>b. b \<in> set bs \<Longrightarrow> inc_ok b) \<Longrightarrow> inc_ok (p_alt bs)"
  using inc_ok_alt_obj [of bs] by (cases bs rule: remdups_adj.cases) (auto simp: p_alt_def)

lemma inc_ok_map: "inc_ok p \<Longrightarrow> inc_ok (p_map p f)"
proof (coinduction arbitrary: p rule: inc_ok.coinduct)
  case (inc_ok p)
  have "sane_at (\<lambda>i. inc_step (p_map p f) i) (inc_admissible p) (inc_completions p)"
    using inc_ok_sane [OF inc_ok] by (simp add: inc_step_map)
  moreover have "\<exists>c. q = p_map c f \<and> inc_ok c" if "wf_input i" "inc_next (p_map p f) i = Some q" for i q
    using that inc_ok_next [OF inc_ok that(1)] by (auto simp: inc_next_map)
  ultimately show ?case by auto
qed

interpretation pure_leaf: inc_leaf pure_step "\<lambda>_. Some TIME_TO_FINISH" no_completions "\<lambda>_. True"
  by unfold_locales
    (auto simp: sane_at_def pure_step_def TIME_TO_FINISH_def admissible_new_def no_completions_def)

interpretation fail_leaf: inc_leaf fail_step fail_admissible no_completions "\<lambda>_. True"
  by unfold_locales
    (auto simp: sane_at_def fail_step_def fail_admissible_def admissible_new_def no_completions_def)

lemma inc_ok_pure: "inc_ok (p_pure v)"
  unfolding p_pure_def by (rule pure_leaf.boxed_ok) simp

lemma inc_ok_fail: "inc_ok p_fail"
  unfolding p_fail_def by (rule fail_leaf.boxed_ok) simp

lemma inc_ok_keep_right: "inc_ok p \<Longrightarrow> inc_ok q \<Longrightarrow> inc_ok (keep_right p q)"
  unfolding keep_right_def by (rule inc_ok_bind) simp_all

lemma inc_ok_keep_left:
  "inc_ok p \<Longrightarrow> inc_ok q \<Longrightarrow> settled p (\<lambda>v. p_map q (\<lambda>_. v)) \<Longrightarrow> inc_ok (keep_left p q)"
  unfolding keep_left_def by (rule inc_ok_bind) (simp_all add: inc_ok_map)

lemma inc_ok_rep: "inc_ok p \<Longrightarrow> inc_ok (rep n p)"
  by (induction n) (auto intro: inc_ok_pure inc_ok_bind)

lemma inc_ok_star: "inc_ok p \<Longrightarrow> inc_ok (star k p)"
  by (induction k) (auto intro!: inc_ok_pure inc_ok_bind inc_ok_alt_obj)

end
