(* ===== verification/Comb_Leaves.thy ===== *)
theory Comb_Leaves
  imports Comb_Contract Utf8
begin

text \<open>
  The leaf parsers of \<open>comb.rs\<close>, which are the shell's lexical rules: literals, keywords, vocabulary
  words and their completion overlay, free words, quoted strings, compound literals, whitespace,
  comments and numbers, with the variants that capture the text they read. Each struct is a record
  or datatype with its \<open>step\<close>, \<open>admissible\<close> and \<open>completions\<close>, and an interpretation of the contract
  of \<open>Inc_Parse\<close>. Strings are their UTF-8 bytes.
\<close>

section \<open>Word boundaries\<close>

definition is_boundary_byte :: "byte \<Rightarrow> bool" where
  "is_boundary_byte b \<longleftrightarrow> (0x09 \<le> b \<and> b \<le> 0x0D) \<or>
     b \<in> {0x20, 0x24, 0x26, 0x28, 0x29, 0x2C, 0x3D, 0x22, 0x23}"

definition is_word_byte :: "byte \<Rightarrow> bool" where
  "is_word_byte b \<longleftrightarrow> b < 0x80 \<and> \<not> is_boundary_byte b"

text \<open>The loops of \<open>build_word_charset\<close> and \<open>build_ws_charset\<close>, over the bytes they visit.\<close>

fun add_all :: "byte list \<Rightarrow> charset \<Rightarrow> charset exec" where
  "add_all [] cs = Some cs"
| "add_all (b # bs) cs = do { cs' \<leftarrow> charset_add b cs; add_all bs cs' }"

definition WORD_CHARSET :: "charset exec" where
  "WORD_CHARSET = add_all (filter is_word_byte (map of_nat [0..<0x80])) charset_empty"

definition WS_CHARSET :: "charset exec" where
  "WS_CHARSET = add_all (map of_nat [0x09..<0x0E] @ [0x20]) charset_empty"

lemma add_all_spec:
  assumes "\<forall>b \<in> set bs. b < 0x80"
  shows "\<exists>t. add_all bs s = Some t \<and> (\<forall>c. charset_contains t c \<longleftrightarrow> c \<in> set bs \<or> charset_contains s c)"
  using assms
proof (induction bs arbitrary: s)
  case (Cons b bs)
  then have "charset_add b s \<noteq> None" by simp
  then obtain s' where s': "charset_add b s = Some s'" by blast
  from Cons.IH [of s'] Cons.prems obtain t where "add_all bs s' = Some t"
    "\<forall>c. charset_contains t c \<longleftrightarrow> c \<in> set bs \<or> charset_contains s' c" by auto
  with s' show ?case by (auto simp: charset_add_contains [OF s'])
qed simp

lemma ascii_bytes: "set (map of_nat [0..<0x80]) = {b :: byte. b < 0x80}"
proof (intro equalityI subsetI)
  fix b :: byte assume "b \<in> {b. b < 0x80}"
  then have "unat b < 128" by (simp add: byte_ascii_iff)
  then show "b \<in> set (map of_nat [0..<0x80])" by (auto intro: image_eqI [of b of_nat "unat b"])
qed (auto simp: byte_ascii_iff unat_of_member)

lemma WORD_CHARSET_spec:
  "\<exists>cs. WORD_CHARSET = Some cs \<and> (\<forall>b. charset_contains cs b \<longleftrightarrow> is_word_byte b)"
proof -
  let ?bs = "filter is_word_byte (map of_nat [0..<0x80])"
  have "\<forall>b \<in> set ?bs. b < 0x80" by (simp add: is_word_byte_def)
  from add_all_spec [OF this, of charset_empty] show ?thesis
    unfolding WORD_CHARSET_def set_filter ascii_bytes by (auto simp: is_word_byte_def)
qed

definition is_ws_byte :: "byte \<Rightarrow> bool" where
  "is_ws_byte b \<longleftrightarrow> (0x09 \<le> b \<and> b \<le> 0x0D) \<or> b = 0x20"

lemma WS_CHARSET_spec:
  "\<exists>cs. WS_CHARSET = Some cs \<and> (\<forall>b. charset_contains cs b \<longleftrightarrow> is_ws_byte b)"
proof -
  let ?bs = "map of_nat [0x09..<0x0E] @ [0x20] :: byte list"
  have s: "set ?bs = {b. is_ws_byte b}"
  proof (intro equalityI subsetI)
    fix b assume "b \<in> {b. is_ws_byte b}"
    then have "(9 \<le> unat b \<and> unat b < 14) \<or> b = 0x20" by (auto simp: is_ws_byte_def word_le_nat_alt)
    moreover have "b = of_nat (unat b)" by simp
    ultimately show "b \<in> set ?bs" by (metis Un_iff atLeastLessThan_iff image_eqI list.set_intros(1)
          list.set_map set_append set_upt)
  qed (auto simp: is_ws_byte_def word_le_nat_alt unat_of_nat)
  have "\<forall>b \<in> set ?bs. b < 0x80" unfolding s
    by (auto simp: is_ws_byte_def word_le_nat_alt word_less_nat_alt)
  from add_all_spec [OF this, of charset_empty] show ?thesis
    unfolding WS_CHARSET_def s by auto
qed


section \<open>Lit\<close>

text \<open>The state is the remaining suffix.\<close>

definition lit_step :: "bytes \<Rightarrow> input \<Rightarrow> (unit, bytes) pstep option" where
  "lit_step rest i = (case rest of
     [] \<Rightarrow> Some (Done () i)
   | r # rs \<Rightarrow> (case i of
       Byte b \<Rightarrow> if b = r then Some (Continue rs) else None
     | _ \<Rightarrow> None))"

definition lit_admissible :: "bytes \<Rightarrow> admissible exec" where
  "lit_admissible rest = (case rest of
     [] \<Rightarrow> Some TIME_TO_FINISH
   | b # _ \<Rightarrow> do { cs \<leftarrow> charset_singleton b; Some (admissible_new cs True False) })"

definition lit :: "bytes \<Rightarrow> unit incparse" where
  "lit bs = boxed lit_step lit_admissible no_completions bs"

text \<open>\<open>TABLE[i..=i]\<close>: out of range for a byte that is not ASCII.\<close>

definition lit_byte :: "byte \<Rightarrow> unit incparse exec" where
  "lit_byte b = do { assert_exec (b < 0x80); Some (lit [b]) }"

lemmas leaf_simps = sane_at_def TIME_TO_FINISH_def admissible_new_def no_completions_def

interpretation lit_leaf: inc_leaf lit_step lit_admissible no_completions "list_all (\<lambda>b. b < 0x80)"
proof
  fix s :: bytes assume inv: "list_all (\<lambda>b. b < 0x80) s"
  show "sane_at (lit_step s) (lit_admissible s) (no_completions s)"
  proof (cases s)
    case Nil
    then show ?thesis by (simp add: leaf_simps lit_step_def lit_admissible_def)
  next
    case (Cons b bs)
    then have "charset_singleton b \<noteq> None" using inv by simp
    then obtain cs where cs: "charset_singleton b = Some cs" by blast
    then show ?thesis
      by (simp add: Cons leaf_simps lit_step_def lit_admissible_def charset_singleton_contains [OF cs]
          split: input.split)
  qed
next
  fix s i r s'
  assume "list_all (\<lambda>b. b < 0x80) s" "lit_step s i = Some r" "step_cont r = Some s'"
  then show "list_all (\<lambda>b. b < 0x80) s'"
    by (auto simp: lit_step_def split: list.splits input.splits if_splits)
qed

lemma inc_ok_lit: "list_all (\<lambda>b. b < 0x80) bs \<Longrightarrow> inc_ok (lit bs)"
  unfolding lit_def by (rule lit_leaf.boxed_ok)



section \<open>Kw\<close>

record kw_state =
  kw_word :: bytes
  kw_pos :: nat
  kw_tag :: tag

definition kw_step :: "kw_state \<Rightarrow> input \<Rightarrow> (unit, kw_state) pstep option" where
  "kw_step k i = (case i of
     Text _ \<Rightarrow> None
   | Eof \<Rightarrow> if kw_pos k = length (kw_word k) then Some (Done () i) else None
   | Byte b \<Rightarrow>
       if kw_pos k = length (kw_word k) then (if is_boundary_byte b then Some (Done () i) else None)
       else if kw_word k ! kw_pos k = b then Some (Continue (k\<lparr>kw_pos := kw_pos k + 1\<rparr>))
       else None)"

definition kw_admissible :: "kw_state \<Rightarrow> admissible exec" where
  "kw_admissible k =
     (if kw_pos k = length (kw_word k) then Some TIME_TO_FINISH
      else do {
        cs \<leftarrow> charset_singleton (kw_word k ! kw_pos k);
        Some (admissible_new cs True False) })"

definition kw_completions :: "kw_state \<Rightarrow> completion list exec" where
  "kw_completions k = Some [\<lparr>comp_word = kw_word k, comp_matched = kw_pos k, comp_tag = kw_tag k,
     comp_desc = None, comp_glue = False\<rparr>]"

definition kw :: "bytes \<Rightarrow> tag \<Rightarrow> unit incparse exec" where
  "kw word tag = do {
     assert_exec (list_all is_word_byte word);
     Some (boxed kw_step kw_admissible kw_completions
       \<lparr>kw_word = word, kw_pos = 0, kw_tag = tag\<rparr>) }"

definition kw_inv :: "kw_state \<Rightarrow> bool" where
  "kw_inv k \<longleftrightarrow> list_all is_word_byte (kw_word k) \<and> kw_pos k \<le> length (kw_word k)"

interpretation kw_leaf: inc_leaf kw_step kw_admissible kw_completions kw_inv
proof
  fix k assume inv: "kw_inv k"
  show "sane_at (kw_step k) (kw_admissible k) (kw_completions k)"
  proof (cases "kw_pos k = length (kw_word k)")
    case True
    then show ?thesis
      by (simp add: leaf_simps kw_step_def kw_admissible_def kw_completions_def split: input.split)
  next
    case False
    then have "is_word_byte (kw_word k ! kw_pos k)"
      using inv by (simp add: kw_inv_def list_all_length)
    then have "charset_singleton (kw_word k ! kw_pos k) \<noteq> None" by (simp add: is_word_byte_def)
    then obtain cs where cs: "charset_singleton (kw_word k ! kw_pos k) = Some cs" by blast
    with False show ?thesis
      by (auto simp: leaf_simps kw_step_def kw_admissible_def kw_completions_def
          charset_singleton_contains [OF cs] split: input.split)
  qed
next
  fix k i r k'
  assume "kw_inv k" "kw_step k i = Some r" "step_cont r = Some k'"
  then show "kw_inv k'"
    by (auto simp: kw_step_def kw_inv_def split: input.splits if_splits)
qed

lemma inc_ok_kw: "kw word tag = Some p \<Longrightarrow> inc_ok p"
  by (auto simp: kw_def assert_exec_def kw_inv_def split: if_splits intro!: kw_leaf.boxed_ok)


section \<open>Words and the overlay\<close>

record hint_entry =
  he_word :: bytes
  he_tag :: tag
  he_desc :: "bytes option"
  he_glue :: bool

definition entry_is_word :: "bytes \<Rightarrow> bool" where
  "entry_is_word entry \<longleftrightarrow>
     entry \<noteq> [] \<and>
     list_all (\<lambda>b. is_word_byte b \<and> 0x21 \<le> b \<and> b \<le> 0x7E) entry \<and>
     take 1 entry \<noteq> [0x5B] \<and> take 1 entry \<noteq> [0x7B] \<and> take 2 entry \<noteq> [0x2D, 0x2D]"

text \<open>The state of both: the shared vocabulary, the indices still alive, the bytes consumed.\<close>

record words_state =
  ws_vocab :: "hint_entry list"
  ws_alive :: "nat list"
  ws_pos :: nat

text \<open>\<open>self.vocab[i as usize].word\<close> and \<open>word.as_bytes().get(self.pos)\<close>.\<close>

definition entry_word :: "words_state \<Rightarrow> nat \<Rightarrow> bytes" where
  "entry_word w i = he_word (ws_vocab w ! i)"

definition byte_at :: "bytes \<Rightarrow> nat \<Rightarrow> byte option" where
  "byte_at bs n = (if n < length bs then Some (bs ! n) else None)"

definition words_complete :: "words_state \<Rightarrow> bool" where
  "words_complete w \<longleftrightarrow> list_ex (\<lambda>i. length (entry_word w i) = ws_pos w) (ws_alive w)"

definition words_advance :: "words_state \<Rightarrow> byte \<Rightarrow> words_state option" where
  "words_advance w b =
     (let alive = filter (\<lambda>i. byte_at (entry_word w i) (ws_pos w) = Some b) (ws_alive w) in
      if alive = [] then None
      else Some (w\<lparr>ws_alive := alive, ws_pos := ws_pos w + 1\<rparr>))"

definition words_step :: "words_state \<Rightarrow> input \<Rightarrow> (unit, words_state) pstep option" where
  "words_step w i = (case i of
     Text _ \<Rightarrow> None
   | Eof \<Rightarrow> if words_complete w then Some (Done () i) else None
   | Byte b \<Rightarrow>
       if is_boundary_byte b then (if words_complete w then Some (Done () i) else None)
       else map_option Continue (words_advance w b))"

fun words_charset :: "words_state \<Rightarrow> nat list \<Rightarrow> charset \<Rightarrow> bool \<Rightarrow> (charset \<times> bool) exec" where
  "words_charset w [] cs any_complete = Some (cs, any_complete)"
| "words_charset w (i # is) cs any_complete = (case byte_at (entry_word w i) (ws_pos w) of
     Some b \<Rightarrow> do { cs' \<leftarrow> charset_add b cs; words_charset w is cs' any_complete }
   | None \<Rightarrow> words_charset w is cs True)"

definition words_admissible :: "words_state \<Rightarrow> admissible exec" where
  "words_admissible w = do {
     (cs, any_complete) \<leftarrow> words_charset w (ws_alive w) charset_empty False;
     Some (admissible_new cs (\<not> any_complete) False) }"

definition words_completions :: "words_state \<Rightarrow> completion list exec" where
  "words_completions w = Some (map (\<lambda>i. let entry = ws_vocab w ! i in
     \<lparr>comp_word = he_word entry, comp_matched = ws_pos w, comp_tag = he_tag entry,
      comp_desc = he_desc entry, comp_glue = he_glue entry\<rparr>) (ws_alive w))"

definition words_start :: "hint_entry list \<Rightarrow> words_state" where
  "words_start vocab = \<lparr>ws_vocab = vocab,
     ws_alive = filter (\<lambda>i. entry_is_word (he_word (vocab ! i))) [0..<length vocab], ws_pos = 0\<rparr>"

definition hint_words :: "hint_entry list \<Rightarrow> unit incparse" where
  "hint_words vocab = boxed words_step words_admissible words_completions (words_start vocab)"

definition hint_entry_plain :: "bytes \<Rightarrow> tag \<Rightarrow> hint_entry" where
  "hint_entry_plain word tag = \<lparr>he_word = word, he_tag = tag, he_desc = None, he_glue = False\<rparr>"

definition words :: "(bytes \<times> tag) list \<Rightarrow> unit incparse" where
  "words vocab = hint_words (map (\<lambda>(word, tag). hint_entry_plain word tag) vocab)"

text \<open>The overlay: the same walk, but it never finishes.\<close>

definition overlay_step :: "words_state \<Rightarrow> input \<Rightarrow> ('a, words_state) pstep option" where
  "overlay_step w i = (case i of
     Byte b \<Rightarrow> if is_boundary_byte b then None else map_option Continue (words_advance w b)
   | _ \<Rightarrow> None)"

definition overlay_admissible :: "words_state \<Rightarrow> admissible exec" where
  "overlay_admissible w = do {
     cs \<leftarrow> add_all (List.map_filter (\<lambda>i. byte_at (entry_word w i) (ws_pos w)) (ws_alive w)) charset_empty;
     Some (admissible_new cs True False) }"

definition overlay_words :: "hint_entry list \<Rightarrow> 'a incparse" where
  "overlay_words vocab = boxed overlay_step overlay_admissible words_completions (words_start vocab)"

text \<open>The indices alive name vocabulary words that are longer than, or as long as, what was read.\<close>

definition words_inv :: "words_state \<Rightarrow> bool" where
  "words_inv w \<longleftrightarrow> list_all (\<lambda>i. i < length (ws_vocab w) \<and> entry_is_word (entry_word w i) \<and>
     ws_pos w \<le> length (entry_word w i)) (ws_alive w)"

lemma words_inv_start: "words_inv (words_start vocab)"
  by (simp add: words_inv_def words_start_def entry_word_def list_all_iff)

lemma words_inv_advance: "words_inv w \<Longrightarrow> words_advance w b = Some w' \<Longrightarrow> words_inv w'"
  by (auto simp: words_inv_def words_advance_def Let_def entry_word_def byte_at_def list_all_iff
      split: if_splits)

lemma words_advance_iff:
  "words_advance w b \<noteq> None \<longleftrightarrow> (\<exists>i \<in> set (ws_alive w). byte_at (entry_word w i) (ws_pos w) = Some b)"
  by (auto simp: words_advance_def Let_def filter_empty_conv)

lemma words_alive_byte:
  "words_inv w \<Longrightarrow> i \<in> set (ws_alive w) \<Longrightarrow> byte_at (entry_word w i) (ws_pos w) = Some b \<Longrightarrow> is_word_byte b"
  by (auto simp: words_inv_def list_all_iff entry_is_word_def byte_at_def split: if_splits)

lemma words_charset_spec:
  assumes "\<forall>i \<in> set is. \<forall>b. byte_at (entry_word w i) (ws_pos w) = Some b \<longrightarrow> b < 0x80"
  shows "\<exists>cs'. words_charset w is cs c = Some (cs', c \<or> (\<exists>i \<in> set is. byte_at (entry_word w i) (ws_pos w) = None)) \<and>
    (\<forall>b. charset_contains cs' b \<longleftrightarrow>
       charset_contains cs b \<or> (\<exists>i \<in> set is. byte_at (entry_word w i) (ws_pos w) = Some b))"
  using assms
proof (induction "is" arbitrary: cs c)
  case (Cons i "is")
  show ?case
  proof (cases "byte_at (entry_word w i) (ws_pos w)")
    case None
    with Cons.IH [of cs True] Cons.prems show ?thesis by auto
  next
    case (Some b)
    with Cons.prems have "charset_add b cs \<noteq> None" by simp
    then obtain cs' where cs': "charset_add b cs = Some cs'" by blast
    from Cons.IH [of cs' c] Cons.prems obtain t where
      "words_charset w is cs' c = Some (t, c \<or> (\<exists>i \<in> set is. byte_at (entry_word w i) (ws_pos w) = None))"
      "\<forall>b. charset_contains t b \<longleftrightarrow>
        charset_contains cs' b \<or> (\<exists>i \<in> set is. byte_at (entry_word w i) (ws_pos w) = Some b)" by auto
    with Some cs' show ?thesis by (auto simp: charset_add_contains [OF cs'])
  qed
qed simp

lemma words_complete_iff: "words_inv w \<Longrightarrow>
    words_complete w \<longleftrightarrow> (\<exists>i \<in> set (ws_alive w). byte_at (entry_word w i) (ws_pos w) = None)"
  by (force simp: words_complete_def list_ex_iff byte_at_def words_inv_def list_all_iff)


lemma does_map_Continue [simp]:
  "does_cont (map_option Continue r) \<longleftrightarrow> r \<noteq> None" "\<not> does_finish (map_option Continue r)"
  "hands_back i (map_option Continue r)"
  by (cases r; simp)+

lemma words_advance_boundary: "words_inv w \<Longrightarrow> words_advance w b \<noteq> None \<Longrightarrow> is_word_byte b"
  using words_alive_byte unfolding words_advance_iff by blast

interpretation words_leaf: inc_leaf words_step words_admissible words_completions words_inv
proof
  fix w assume inv: "words_inv w"
  have "\<forall>i \<in> set (ws_alive w). \<forall>b. byte_at (entry_word w i) (ws_pos w) = Some b \<longrightarrow> b < 0x80"
    using words_alive_byte [OF inv] by (auto simp: is_word_byte_def)
  from words_charset_spec [OF this, of charset_empty False] obtain cs where
    adm: "words_admissible w = Some (admissible_new cs (\<not> words_complete w) False)"
    and cs: "\<And>b. charset_contains cs b \<longleftrightarrow> words_advance w b \<noteq> None"
    unfolding words_complete_iff [OF inv] words_advance_iff by (auto simp: words_admissible_def)
  have b: "words_advance w b = None" if "is_boundary_byte b" for b
    using words_advance_boundary [OF inv, of b] that unfolding is_word_byte_def by blast
  show "sane_at (words_step w) (words_admissible w) (words_completions w)"
    unfolding adm
    by (auto simp: leaf_simps words_step_def words_completions_def cs b split: input.split)
next
  fix w i r w'
  assume "words_inv w" "words_step w i = Some r" "step_cont r = Some w'"
  then show "words_inv w'"
    by (auto simp: words_step_def words_inv_advance split: input.splits if_splits)
qed

lemma overlay_admissible_spec:
  assumes inv: "words_inv w"
  shows "\<exists>cs. overlay_admissible w = Some (admissible_new cs True False) \<and>
    (\<forall>b. charset_contains cs b \<longleftrightarrow> words_advance w b \<noteq> None)"
proof -
  let ?bs = "List.map_filter (\<lambda>i. byte_at (entry_word w i) (ws_pos w)) (ws_alive w)"
  have "\<forall>b \<in> set ?bs. b < 0x80"
    using words_alive_byte [OF inv] by (auto simp: set_map_filter is_word_byte_def)
  from add_all_spec [OF this, of charset_empty] show ?thesis
    unfolding words_advance_iff by (auto simp: overlay_admissible_def set_map_filter)
qed

interpretation overlay_leaf: inc_leaf overlay_step overlay_admissible words_completions words_inv
proof
  fix w assume inv: "words_inv w"
  obtain cs where adm: "overlay_admissible w = Some (admissible_new cs True False)"
    and cs: "\<And>b. charset_contains cs b \<longleftrightarrow> words_advance w b \<noteq> None"
    using overlay_admissible_spec [OF inv] by blast
  have b: "words_advance w b = None" if "is_boundary_byte b" for b
    using words_advance_boundary [OF inv, of b] that unfolding is_word_byte_def by blast
  show "sane_at (overlay_step w) (overlay_admissible w) (words_completions w)"
    unfolding adm
    by (auto simp: leaf_simps overlay_step_def words_completions_def cs b split: input.split)
next
  fix w i r w'
  assume "words_inv w" "overlay_step w i = Some r" "step_cont r = Some w'"
  then show "words_inv w'"
    by (auto simp: overlay_step_def words_inv_advance split: input.splits if_splits)
qed

lemma inc_ok_hint_words: "inc_ok (hint_words vocab)"
  unfolding hint_words_def by (rule words_leaf.boxed_ok) (rule words_inv_start)

lemma inc_ok_overlay: "inc_ok (overlay_words vocab)"
  unfolding overlay_words_def by (rule overlay_leaf.boxed_ok) (rule words_inv_start)


section \<open>Word\<close>

text \<open>The mask \<open>excl_alive\<close> is a \<open>u32\<close>; bit \<open>i\<close> stands for the \<open>i\<close>-th excluded word.\<close>

record word_state =
  w_excluded :: "bytes list"
  w_bare :: bool
  w_len :: nat
  w_dash1 :: bool
  w_excl_alive :: "32 word"

datatype word_result = Finish | Fail | Advance word_state

definition word_finishable :: "word_state \<Rightarrow> bool" where
  "word_finishable w \<longleftrightarrow> 0 < w_len w \<and>
     \<not> list_ex (\<lambda>i. bit (w_excl_alive w) i \<and> length (w_excluded w ! i) = w_len w)
         [0..<length (w_excluded w)]"

definition excl_mask :: "word_state \<Rightarrow> byte \<Rightarrow> 32 word" where
  "excl_mask w b = fold (\<lambda>i m. if bit (w_excl_alive w) i \<and> byte_at (w_excluded w ! i) (w_len w) = Some b
       then m OR push_bit i 1 else m) [0..<length (w_excluded w)] 0"

definition word_step_core :: "word_state \<Rightarrow> input \<Rightarrow> word_result" where
  "word_step_core w i = (case i of
     Eof \<Rightarrow> if word_finishable w then Finish else Fail
   | Text _ \<Rightarrow> Advance (w\<lparr>w_len := w_len w + 1, w_dash1 := False, w_excl_alive := 0\<rparr>)
   | Byte b \<Rightarrow>
       if is_boundary_byte b then (if word_finishable w then Finish else Fail)
       else if w_bare w \<and> w_len w = 0 \<and> (b = 0x5B \<or> b = 0x7B) then Fail
       else if w_bare w \<and> w_dash1 w \<and> b = 0x2D then Fail
       else Advance (w\<lparr>w_len := w_len w + 1, w_dash1 := w_bare w \<and> w_len w = 0 \<and> b = 0x2D,
         w_excl_alive := excl_mask w b\<rparr>))"

definition word_admissible :: "word_state \<Rightarrow> admissible exec" where
  "word_admissible w = do {
     cs0 \<leftarrow> WORD_CHARSET;
     cs1 \<leftarrow> (if w_bare w \<and> w_len w = 0
            then do { c \<leftarrow> charset_remove 0x5B cs0; charset_remove 0x7B c } else Some cs0);
     cs2 \<leftarrow> (if w_bare w \<and> w_dash1 w then charset_remove 0x2D cs1 else Some cs1);
     Some (admissible_new cs2 (\<not> word_finishable w) True) }"

definition word_step :: "word_state \<Rightarrow> input \<Rightarrow> (unit, word_state) pstep option" where
  "word_step w i = (case word_step_core w i of
     Fail \<Rightarrow> None
   | Finish \<Rightarrow> Some (Done () i)
   | Advance next \<Rightarrow> Some (Continue next))"

definition word_start :: "bytes list \<Rightarrow> bool \<Rightarrow> word_state exec" where
  "word_start excluded bare = do {
     assert_exec (length excluded \<le> 32);
     Some \<lparr>w_excluded = excluded, w_bare = bare, w_len = 0, w_dash1 = False,
       w_excl_alive = drop_bit (32 - max (length excluded) 1) (NOT 0)\<rparr> }"

definition bare_word :: "bytes list \<Rightarrow> unit incparse exec" where
  "bare_word excluded = do {
     w \<leftarrow> word_start excluded True;
     Some (boxed word_step word_admissible no_completions w) }"

definition flag_name :: "unit incparse exec" where
  "flag_name = do {
     w \<leftarrow> word_start [] False;
     Some (boxed word_step word_admissible no_completions w) }"

text \<open>The capturing variant: the word with the bytes read so far.\<close>

definition cap_word_step :: "word_state \<times> bytes \<Rightarrow> input \<Rightarrow> (bytes, word_state \<times> bytes) pstep option" where
  "cap_word_step s i = (case word_step_core (fst s) i of
     Fail \<Rightarrow> None
   | Finish \<Rightarrow> Some (Done (from_utf8_lossy (snd s)) i)
   | Advance next \<Rightarrow> Some (Continue (next, snd s @ (case i of
       Byte b \<Rightarrow> [b] | Text b \<Rightarrow> [b] | Eof \<Rightarrow> []))))"

definition cap_bare_word :: "bytes list \<Rightarrow> bytes incparse exec" where
  "cap_bare_word excluded = do {
     w \<leftarrow> word_start excluded True;
     Some (boxed cap_word_step (\<lambda>s. word_admissible (fst s)) no_completions (w, [])) }"

definition cap_flag_name :: "bytes incparse exec" where
  "cap_flag_name = do {
     w \<leftarrow> word_start [] False;
     Some (boxed cap_word_step (\<lambda>s. word_admissible (fst s)) no_completions (w, [])) }"

lemma word_admissible_spec:
  "\<exists>cs. word_admissible w = Some (admissible_new cs (\<not> word_finishable w) True) \<and>
    (\<forall>b. charset_contains cs b \<longleftrightarrow> is_word_byte b \<and>
       \<not> (w_bare w \<and> w_len w = 0 \<and> (b = 0x5B \<or> b = 0x7B)) \<and> \<not> (w_bare w \<and> w_dash1 w \<and> b = 0x2D))"
proof -
  from WORD_CHARSET_spec obtain cs0 where c0: "WORD_CHARSET = Some cs0"
    and m0: "\<And>b. charset_contains cs0 b \<longleftrightarrow> is_word_byte b" by blast
  have rem: "\<exists>t. charset_remove k s = Some t \<and> (\<forall>b. charset_contains t b \<longleftrightarrow> b \<noteq> k \<and> charset_contains s b)"
    if "k < 0x80" for k s
    using that charset_remove_returns [of k s] charset_remove_contains [of k s] by (metis not_None_eq)
  obtain c1 where "charset_remove 0x5B cs0 = Some c1" "\<And>b. charset_contains c1 b \<longleftrightarrow> b \<noteq> 0x5B \<and> is_word_byte b"
    using rem [of "0x5B" cs0] m0 by auto
  moreover obtain c2 where "charset_remove 0x7B c1 = Some c2" "\<And>b. charset_contains c2 b \<longleftrightarrow> b \<noteq> 0x7B \<and> charset_contains c1 b"
    using rem [of "0x7B" c1] by auto
  moreover obtain c3 where "charset_remove 0x2D c2 = Some c3" "\<And>b. charset_contains c3 b \<longleftrightarrow> b \<noteq> 0x2D \<and> charset_contains c2 b"
    using rem [of "0x2D" c2] by auto
  moreover obtain c4 where "charset_remove 0x2D cs0 = Some c4" "\<And>b. charset_contains c4 b \<longleftrightarrow> b \<noteq> 0x2D \<and> charset_contains cs0 b"
    using rem [of "0x2D" cs0] by auto
  ultimately show ?thesis
    using m0 unfolding word_admissible_def c0
    by (cases "w_bare w"; cases "w_len w = 0"; cases "w_dash1 w") auto
qed

lemma letters_are_word_bytes: "0x61 \<le> b \<Longrightarrow> b \<le> 0x7A \<Longrightarrow> is_word_byte b \<and> b \<noteq> 0x5B \<and> b \<noteq> 0x7B \<and> b \<noteq> 0x2D"
  by (auto simp: is_word_byte_def is_boundary_byte_def word_le_nat_alt word_less_nat_alt)

lemma word_core_cont: "b < 0x80 \<Longrightarrow> (\<exists>n. word_step_core w (Byte b) = Advance n) \<longleftrightarrow> is_word_byte b \<and>
    \<not> (w_bare w \<and> w_len w = 0 \<and> (b = 0x5B \<or> b = 0x7B)) \<and> \<not> (w_bare w \<and> w_dash1 w \<and> b = 0x2D)"
  by (auto simp: word_step_core_def is_word_byte_def)

lemma word_core_finish: "word_step_core w i = Finish \<Longrightarrow> word_finishable w"
  by (auto simp: word_step_core_def split: input.splits if_splits)

text \<open>Both wrappers, over what they make of a \<open>Finish\<close> and an \<open>Advance\<close>.\<close>

lemma word_sane:
  assumes "\<And>i. step i = (case word_step_core w i of
     Fail \<Rightarrow> None | Finish \<Rightarrow> Some (Done v i) | Advance n \<Rightarrow> Some (Continue (g i n)))"
  shows "sane_at step (word_admissible w) (Some [])"
proof -
  obtain cs where adm: "word_admissible w = Some (admissible_new cs (\<not> word_finishable w) True)"
    and cs: "\<And>b. charset_contains cs b \<longleftrightarrow> is_word_byte b \<and>
       \<not> (w_bare w \<and> w_len w = 0 \<and> (b = 0x5B \<or> b = 0x7B)) \<and> \<not> (w_bare w \<and> w_dash1 w \<and> b = 0x2D)"
    using word_admissible_spec by blast
  have cont: "does_cont (step i) \<longleftrightarrow> (\<exists>n. word_step_core w i = Advance n)"
    and fin: "does_finish (step i) \<longleftrightarrow> word_step_core w i = Finish"
    and hb: "hands_back i (step i)" for i
    by (simp_all add: assms split: word_result.split)
  show ?thesis
    unfolding adm
  proof (rule sane_atI [OF refl], goal_cases)
    case (4 b)
    then show ?case unfolding cont word_core_cont [OF 4] by (simp add: cs admissible_new_def)
  next
    case (6 i)
    then show ?case using word_core_finish [of w i] by (auto simp: fin admissible_new_def)
  next
    case (8 b)
    then show ?case using letters_are_word_bytes [of b] by (simp add: cs admissible_new_def)
  qed (simp_all add: cont fin hb admissible_new_def word_step_core_def)
qed

interpretation word_leaf: inc_leaf word_step word_admissible no_completions "\<lambda>_. True"
  by unfold_locales (auto simp: no_completions_def word_step_def intro!: word_sane)

interpretation cap_word_leaf: inc_leaf cap_word_step "\<lambda>s. word_admissible (fst s)" no_completions "\<lambda>_. True"
  by unfold_locales (auto simp: no_completions_def cap_word_step_def intro!: word_sane)

lemma inc_ok_words:
  "bare_word excluded = Some p \<Longrightarrow> inc_ok p" "flag_name = Some p \<Longrightarrow> inc_ok p"
  "cap_bare_word excluded = Some q \<Longrightarrow> inc_ok q" "cap_flag_name = Some q \<Longrightarrow> inc_ok q"
  by (auto simp: bare_word_def flag_name_def cap_bare_word_def cap_flag_name_def bind_eq_Some_conv
      intro: word_leaf.boxed_ok cap_word_leaf.boxed_ok)



section \<open>Quoted\<close>

datatype quoted_state = QOpen | QBody | QEscape | QFinished

text \<open>The five escapes; the additions of the constant are of ASCII bytes and never fail.\<close>

definition quote_escape_charset :: "charset exec" where
  "quote_escape_charset = add_all [0x22, 0x5C, 0x6E, 0x74, 0x72] charset_empty"

definition quoted_step :: "quoted_state \<Rightarrow> input \<Rightarrow> (unit, quoted_state) pstep option" where
  "quoted_step st i = (case i of
     Eof \<Rightarrow> (case st of QFinished \<Rightarrow> Some (Done () i) | _ \<Rightarrow> None)
   | Text _ \<Rightarrow> (case st of
       QBody \<Rightarrow> Some (Continue QBody) | QFinished \<Rightarrow> Some (Done () i) | _ \<Rightarrow> None)
   | Byte b \<Rightarrow> (case st of
       QOpen \<Rightarrow> if b = 0x22 then Some (Continue QBody) else None
     | QBody \<Rightarrow> Some (Continue (if b = 0x22 then QFinished else if b = 0x5C then QEscape else QBody))
     | QEscape \<Rightarrow> (case quote_escape_charset of
         Some cs \<Rightarrow> if charset_contains cs b then Some (Continue QBody) else None
       | None \<Rightarrow> None)
     | QFinished \<Rightarrow> Some (Done () i)))"

definition quoted_admissible :: "quoted_state \<Rightarrow> admissible exec" where
  "quoted_admissible st = (case st of
     QOpen \<Rightarrow> do { cs \<leftarrow> charset_singleton 0x22; Some (admissible_new cs True False) }
   | QBody \<Rightarrow> Some (admissible_new charset_all True True)
   | QEscape \<Rightarrow> do { cs \<leftarrow> quote_escape_charset; Some (admissible_new cs True False) }
   | QFinished \<Rightarrow> Some TIME_TO_FINISH)"

definition quoted :: "unit incparse" where
  "quoted = boxed quoted_step quoted_admissible no_completions QOpen"

definition decode_escape :: "byte \<Rightarrow> byte option" where
  "decode_escape b =
     (if b = 0x22 then Some 0x22 else if b = 0x5C then Some 0x5C else if b = 0x6E then Some 0x0A
      else if b = 0x74 then Some 0x09 else if b = 0x72 then Some 0x0D else None)"

definition cap_quoted_step :: "quoted_state \<times> bytes \<Rightarrow> input \<Rightarrow> (bytes, quoted_state \<times> bytes) pstep option" where
  "cap_quoted_step s i =
     (let st = fst s; read = snd s; fin = Some (Done (from_utf8_lossy read) i) in
      case i of
        Eof \<Rightarrow> (case st of QFinished \<Rightarrow> fin | _ \<Rightarrow> None)
      | Text b \<Rightarrow> (case st of
          QBody \<Rightarrow> Some (Continue (QBody, read @ [b])) | QFinished \<Rightarrow> fin | _ \<Rightarrow> None)
      | Byte b \<Rightarrow> (case st of
          QOpen \<Rightarrow> if b = 0x22 then Some (Continue (QBody, read)) else None
        | QBody \<Rightarrow>
            if b = 0x22 then Some (Continue (QFinished, read))
            else if b = 0x5C then Some (Continue (QEscape, read))
            else Some (Continue (QBody, read @ [b]))
        | QEscape \<Rightarrow> (case decode_escape b of
            Some d \<Rightarrow> Some (Continue (QBody, read @ [d])) | None \<Rightarrow> None)
        | QFinished \<Rightarrow> fin))"

definition cap_quoted :: "bytes incparse" where
  "cap_quoted = boxed cap_quoted_step (\<lambda>s. quoted_admissible (fst s)) no_completions (QOpen, [])"

lemma quote_escape_charset_spec:
  "\<exists>cs. quote_escape_charset = Some cs \<and> (\<forall>b. charset_contains cs b \<longleftrightarrow> decode_escape b \<noteq> None)"
proof -
  have "\<forall>b \<in> set [0x22, 0x5C, 0x6E, 0x74, 0x72 :: byte]. b < 0x80" by simp
  from add_all_spec [OF this, of charset_empty] show ?thesis
    unfolding quote_escape_charset_def by (auto simp: decode_escape_def)
qed

lemma quoted_sane:
  assumes "\<And>i. does_cont (step i) = does_cont (quoted_step st i)"
    "\<And>i. does_finish (step i) = does_finish (quoted_step st i)" "\<And>i. hands_back i (step i)"
  shows "sane_at step (quoted_admissible st) (Some [])"
proof -
  obtain ce where ce: "quote_escape_charset = Some ce"
    and me: "\<And>b. charset_contains ce b \<longleftrightarrow> decode_escape b \<noteq> None"
    using quote_escape_charset_spec by blast
  have "charset_singleton (0x22 :: byte) \<noteq> None" by simp
  then obtain co where co: "charset_singleton 0x22 = Some co" by blast
  have lt: "b < 0x80" if "0x61 \<le> b" "b \<le> 0x7A" for b :: byte
    using that by (auto simp: word_less_nat_alt word_le_nat_alt)
  have none: "step i = None \<longleftrightarrow> quoted_step st i = None" for i
    using assms(1,2) step_None_iff [of "step i"] step_None_iff [of "quoted_step st i"] by simp
  show ?thesis
    unfolding sane_at_def none assms(1,2)
    using assms(3)
    by (cases st) (auto simp: leaf_simps quoted_step_def quoted_admissible_def ce co lt
        charset_singleton_contains [OF co] split: input.split)
qed

interpretation quoted_leaf: inc_leaf quoted_step quoted_admissible no_completions "\<lambda>_. True"
proof
  fix st
  have "hands_back i (quoted_step st i)" for i
    by (auto simp: quoted_step_def split: input.split quoted_state.split option.split)
  then show "sane_at (quoted_step st) (quoted_admissible st) (no_completions st)"
    unfolding no_completions_def by (intro quoted_sane refl)
qed simp

interpretation cap_quoted_leaf: inc_leaf cap_quoted_step "\<lambda>s. quoted_admissible (fst s)" no_completions "\<lambda>_. True"
proof
  fix s :: "quoted_state \<times> bytes"
  obtain st read where s: "s = (st, read)" by fastforce
  obtain ce where ce: "quote_escape_charset = Some ce"
    and me: "\<And>b. charset_contains ce b \<longleftrightarrow> decode_escape b \<noteq> None"
    using quote_escape_charset_spec by blast
  have "does_cont (cap_quoted_step s i) = does_cont (quoted_step (fst s) i)"
    "does_finish (cap_quoted_step s i) = does_finish (quoted_step (fst s) i)"
    "hands_back i (cap_quoted_step s i)" for i
    by (cases st; cases i; auto simp: s cap_quoted_step_def quoted_step_def Let_def ce me
        split: option.split)+
  then show "sane_at (cap_quoted_step s) (quoted_admissible (fst s)) (no_completions s)"
    unfolding no_completions_def by (rule quoted_sane)
qed simp

lemma inc_ok_quoted: "inc_ok quoted" "inc_ok cap_quoted"
  unfolding quoted_def cap_quoted_def
  by (rule quoted_leaf.boxed_ok, simp) (rule cap_quoted_leaf.boxed_ok, simp)



section \<open>Compound\<close>

text \<open>The nesting depth is a \<open>u32\<close>, with the wrap-around of a release build.\<close>

datatype compound_state = COpen | CPlain "32 word" | CStr "32 word" | CStrEscape "32 word" | CFinished

definition compound_next :: "compound_state \<Rightarrow> byte \<Rightarrow> compound_state option" where
  "compound_next st b = (case st of
     COpen \<Rightarrow> if b = 0x5B \<or> b = 0x7B then Some (CPlain 1) else None
   | CPlain depth \<Rightarrow> Some
       (if b = 0x5B \<or> b = 0x7B then CPlain (depth + 1)
        else if b = 0x5D \<or> b = 0x7D then (if depth = 1 then CFinished else CPlain (depth - 1))
        else if b = 0x22 then CStr depth
        else CPlain depth)
   | CStr depth \<Rightarrow> Some
       (if b = 0x22 then CPlain depth else if b = 0x5C then CStrEscape depth else CStr depth)
   | CStrEscape depth \<Rightarrow> Some (CStr depth)
   | CFinished \<Rightarrow> None)"

definition compound_text :: "compound_state \<Rightarrow> compound_state option" where
  "compound_text st = (case st of
     CPlain depth \<Rightarrow> Some (CPlain depth)
   | CStr depth \<Rightarrow> Some (CStr depth)
   | CStrEscape depth \<Rightarrow> Some (CStr depth)
   | _ \<Rightarrow> None)"

definition compound_step :: "compound_state \<Rightarrow> input \<Rightarrow> (unit, compound_state) pstep option" where
  "compound_step st i =
     (if st = CFinished then Some (Done () i)
      else case i of
        Eof \<Rightarrow> None
      | Text _ \<Rightarrow> map_option Continue (compound_text st)
      | Byte b \<Rightarrow> map_option Continue (compound_next st b))"

definition compound_admissible :: "compound_state \<Rightarrow> admissible exec" where
  "compound_admissible st = (case st of
     COpen \<Rightarrow> do { cs \<leftarrow> add_all [0x5B, 0x7B] charset_empty; Some (admissible_new cs True False) }
   | CFinished \<Rightarrow> Some TIME_TO_FINISH
   | _ \<Rightarrow> Some (admissible_new charset_all True True))"

definition compound :: "unit incparse" where
  "compound = boxed compound_step compound_admissible no_completions COpen"

definition cap_compound_step ::
    "compound_state \<times> bytes \<Rightarrow> input \<Rightarrow> (bytes, compound_state \<times> bytes) pstep option" where
  "cap_compound_step s i =
     (let st = fst s; read = snd s in
      if st = CFinished then Some (Done (from_utf8_lossy read) i)
      else case i of
        Eof \<Rightarrow> None
      | Text b \<Rightarrow> map_option (\<lambda>n. Continue (n, read @ [b])) (compound_text st)
      | Byte b \<Rightarrow> map_option (\<lambda>n. Continue (n, read @ [b])) (compound_next st b))"

definition cap_compound :: "bytes incparse" where
  "cap_compound = boxed cap_compound_step (\<lambda>s. compound_admissible (fst s)) no_completions (COpen, [])"

lemma compound_sane:
  assumes "\<And>i. does_cont (step i) = does_cont (compound_step st i)"
    "\<And>i. does_finish (step i) = does_finish (compound_step st i)" "\<And>i. hands_back i (step i)"
  shows "sane_at step (compound_admissible st) (Some [])"
proof -
  have "\<forall>b \<in> set [0x5B, 0x7B :: byte]. b < 0x80" by simp
  from add_all_spec [OF this, of charset_empty] obtain co where
    co: "add_all [0x5B, 0x7B] charset_empty = Some co"
    and mo: "\<And>b. charset_contains co b \<longleftrightarrow> b = 0x5B \<or> b = 0x7B" by auto
  have lt: "b < 0x80" if "0x61 \<le> b" "b \<le> 0x7A" for b :: byte
    using that by (auto simp: word_less_nat_alt word_le_nat_alt)
  have none: "step i = None \<longleftrightarrow> compound_step st i = None" for i
    using assms(1,2) step_None_iff [of "step i"] step_None_iff [of "compound_step st i"] by simp
  show ?thesis
    unfolding sane_at_def none assms(1,2)
    using assms(3)
    by (cases st) (auto simp del: add_all.simps simp: leaf_simps compound_step_def compound_next_def
        compound_text_def compound_admissible_def co mo lt split: input.split)
qed

interpretation compound_leaf: inc_leaf compound_step compound_admissible no_completions "\<lambda>_. True"
proof
  fix st
  have "hands_back i (compound_step st i)" for i
    by (auto simp: compound_step_def split: input.split)
  then show "sane_at (compound_step st) (compound_admissible st) (no_completions st)"
    unfolding no_completions_def by (intro compound_sane refl)
qed simp

interpretation cap_compound_leaf:
  inc_leaf cap_compound_step "\<lambda>s. compound_admissible (fst s)" no_completions "\<lambda>_. True"
proof
  fix s :: "compound_state \<times> bytes"
  have "does_cont (cap_compound_step s i) = does_cont (compound_step (fst s) i)"
    "does_finish (cap_compound_step s i) = does_finish (compound_step (fst s) i)"
    "hands_back i (cap_compound_step s i)" for i
    by (auto simp: cap_compound_step_def compound_step_def Let_def does_cont_def does_finish_def
        hands_back_def option.case_eq_if split: input.split)
  then show "sane_at (cap_compound_step s) (compound_admissible (fst s)) (no_completions s)"
    unfolding no_completions_def by (rule compound_sane)
qed simp

lemma inc_ok_compound: "inc_ok compound" "inc_ok cap_compound"
  unfolding compound_def cap_compound_def
  by (rule compound_leaf.boxed_ok, simp) (rule cap_compound_leaf.boxed_ok, simp)


section \<open>Whitespace, comments, numbers\<close>

definition ws_step :: "unit \<Rightarrow> input \<Rightarrow> (unit, unit) pstep option" where
  "ws_step s i = (case i of
     Byte b \<Rightarrow> (case WS_CHARSET of
       Some cs \<Rightarrow> if charset_contains cs b then Some (Continue ()) else Some (Done () i)
     | None \<Rightarrow> None)
   | _ \<Rightarrow> Some (Done () i))"

definition ws_admissible :: "unit \<Rightarrow> admissible exec" where
  "ws_admissible s = do { cs \<leftarrow> WS_CHARSET; Some (admissible_new cs False False) }"

definition ws :: "unit incparse" where
  "ws = boxed ws_step ws_admissible no_completions ()"

definition comment_step :: "unit \<Rightarrow> input \<Rightarrow> (unit, unit) pstep option" where
  "comment_step s i = (case i of Eof \<Rightarrow> Some (Done () i) | _ \<Rightarrow> Some (Continue ()))"

definition comment_admissible :: "unit \<Rightarrow> admissible exec" where
  "comment_admissible s = Some (admissible_new charset_all False True)"

definition comment_rest :: "unit incparse" where
  "comment_rest = boxed comment_step comment_admissible no_completions ()"

datatype nat_state = NEmpty | NAcc "64 word"

definition nat_step :: "nat_state \<Rightarrow> input \<Rightarrow> (64 word, nat_state) pstep option" where
  "nat_step st i =
     (let digit = (case i of
        Byte b \<Rightarrow> if 0x30 \<le> b \<and> b \<le> 0x39 then Some (of_nat (unat (b - 0x30))) else None
      | _ \<Rightarrow> None)
      in case (st, digit) of
        (NEmpty, Some d) \<Rightarrow> Some (Continue (NAcc d))
      | (NEmpty, None) \<Rightarrow> None
      | (NAcc acc, Some d) \<Rightarrow> Some (Continue (NAcc (acc * 10 + d)))
      | (NAcc acc, None) \<Rightarrow> Some (Done acc i))"

definition nat_admissible :: "nat_state \<Rightarrow> admissible exec" where
  "nat_admissible st = do {
     cs \<leftarrow> add_all (map of_nat [0x30..<0x3A]) charset_empty;
     Some (admissible_new cs (st = NEmpty) False) }"

definition nat_parser :: "64 word incparse" where
  "nat_parser = boxed nat_step nat_admissible no_completions NEmpty"

lemma digit_charset_spec: "\<exists>cs. add_all (map of_nat [0x30..<0x3A]) charset_empty = Some cs \<and>
    (\<forall>b. charset_contains cs b \<longleftrightarrow> 0x30 \<le> b \<and> b \<le> 0x39)"
proof -
  let ?bs = "map of_nat [0x30..<0x3A] :: byte list"
  have s: "set ?bs = {b. 0x30 \<le> b \<and> b \<le> 0x39}"
  proof (intro equalityI subsetI)
    fix b :: byte assume "b \<in> {b. 0x30 \<le> b \<and> b \<le> 0x39}"
    then have "0x30 \<le> unat b \<and> unat b < 0x3A" by (auto simp: word_le_nat_alt)
    then show "b \<in> set ?bs"
      unfolding set_map set_upt by (intro image_eqI [of b of_nat "unat b"]) simp_all
  qed (auto simp: word_le_nat_alt unat_of_nat)
  have "\<forall>b \<in> set ?bs. b < 0x80" unfolding s by (auto simp: word_le_nat_alt word_less_nat_alt)
  from add_all_spec [OF this, of charset_empty] show ?thesis unfolding s by auto
qed

interpretation ws_leaf: inc_leaf ws_step ws_admissible no_completions "\<lambda>_. True"
proof
  fix s :: unit
  obtain cs where cs: "WS_CHARSET = Some cs" "\<And>b. charset_contains cs b \<longleftrightarrow> is_ws_byte b"
    using WS_CHARSET_spec by blast
  show "sane_at (ws_step s) (ws_admissible s) (no_completions s)"
    by (auto simp: leaf_simps ws_step_def ws_admissible_def cs split: input.split)
qed simp

interpretation comment_leaf: inc_leaf comment_step comment_admissible no_completions "\<lambda>_. True"
proof
  fix s :: unit
  have lt: "b < 0x80" if "0x61 \<le> b" "b \<le> 0x7A" for b :: byte
    using that by (auto simp: word_less_nat_alt word_le_nat_alt)
  show "sane_at (comment_step s) (comment_admissible s) (no_completions s)"
    by (auto simp: leaf_simps comment_step_def comment_admissible_def lt split: input.split)
qed simp

interpretation nat_leaf: inc_leaf nat_step nat_admissible no_completions "\<lambda>_. True"
proof
  fix st
  obtain cs where cs: "add_all (map of_nat [0x30..<0x3A]) charset_empty = Some cs"
    "\<And>b. charset_contains cs b \<longleftrightarrow> 0x30 \<le> b \<and> b \<le> 0x39"
    using digit_charset_spec by blast
  show "sane_at (nat_step st) (nat_admissible st) (no_completions st)"
    unfolding nat_admissible_def cs(1)
    by (cases st) (auto simp: leaf_simps nat_step_def cs(2) Let_def split: input.split if_splits)
qed simp

lemma inc_ok_simple: "inc_ok ws" "inc_ok comment_rest" "inc_ok nat_parser"
  unfolding ws_def comment_rest_def nat_parser_def
  by (rule ws_leaf.boxed_ok, simp) (rule comment_leaf.boxed_ok, simp, rule nat_leaf.boxed_ok, simp)

end
