(* ===== verification/Comb_Props.thy ===== *)
theory Comb_Props
  imports Comb_Leaves
begin

text \<open>
  What the shell's parser promises to the editor and to the command line, over the combinators of
  \<open>Comb\<close> and the leaves of \<open>Comb_Leaves\<close>: the contract in every reachable state, the bytes the TAB key
  may type, the value of a line, repetition without its counter, and that a completion overlay
  changes nothing.
\<close>

section \<open>Repetition\<close>

text \<open>
  The recursive equation of the source holds on every line shorter than the counter, as long as an
  item consumes at least one byte.
\<close>

lemma seq_outcome_cong:
  assumes "\<And>i. wf_input i \<Longrightarrow> inc_offer p i = None" and "wf_input n"
    and "\<And>u j. 0 < j \<Longrightarrow> j \<le> length w \<Longrightarrow> outcome (f u) (drop j w) n = outcome (g u) (drop j w) n"
  shows "seq_outcome p f w n = seq_outcome p g w n"
proof -
  have "cut_outcome p f w n j = cut_outcome p g w n j" if "j \<le> length w" for j
  proof (cases "j = 0")
    case True
    have "wf_input (next_input w n)" using assms(2) by (auto simp: next_input_def split: list.split)
    with True assms(1) show ?thesis by (simp add: cut_outcome_def)
  next
    case False
    then have "outcome (f u) (drop j w) n = outcome (g u) (drop j w) n" for u
      using assms(3) that by simp
    then show ?thesis by (simp add: cut_outcome_def)
  qed
  then show ?thesis
    unfolding seq_outcome_def by (intro arg_cong [of _ _ first_some] map_cong) auto
qed

lemma star_counter:
  assumes "inc_ok item" and "\<And>i. wf_input i \<Longrightarrow> inc_offer item i = None" and "wf_input n"
    and "length w < k" and "length w < k'"
  shows "outcome (star k item) w n = outcome (star k' item) w n"
  using assms(4,5)
proof (induction "length w" arbitrary: w k k' rule: less_induct)
  case less
  from less.prems obtain a b where k: "k = Suc a" "k' = Suc b" by (cases k; cases k') auto
  have "seq_outcome item (\<lambda>_. star a item) w n = seq_outcome item (\<lambda>_. star b item) w n"
  proof (rule seq_outcome_cong [OF assms(2,3)], assumption)
    fix u j assume j: "0 < j" "j \<le> length w"
    then have "length (drop j w) < length w" by simp
    moreover from this have "length (drop j w) < a" "length (drop j w) < b"
      using less.prems unfolding k by linarith+
    ultimately show "outcome (star a item) (drop j w) n = outcome (star b item) (drop j w) n"
      by (rule less.hyps)
  qed
  then show ?case
    by (simp add: k outcome_alt outcome_bind [OF assms(1,3)])
qed

lemma star_unfold:
  assumes "inc_ok item" and "\<And>i. wf_input i \<Longrightarrow> inc_offer item i = None" and "wf_input n"
    and "length w < k"
  shows "outcome (star k item) w n =
    outcome (p_alt [p_pure (), p_bind item (\<lambda>_. star k item)]) w n"
  using star_counter [OF assms(1-3), of w k "Suc k"] assms(4) by simp

lemma star_vec_counter:
  assumes "inc_ok item" and "\<And>i. wf_input i \<Longrightarrow> inc_offer item i = None" and "wf_input n"
    and "length w < k" and "length w < k'"
  shows "outcome (star_vec_from k acc item) w n = outcome (star_vec_from k' acc item) w n"
  using assms(4,5)
proof (induction "length w" arbitrary: w k k' acc rule: less_induct)
  case less
  from less.prems obtain a b where k: "k = Suc a" "k' = Suc b" by (cases k; cases k') auto
  have "seq_outcome item (\<lambda>v. star_vec_from a (acc @ [v]) item) w n =
      seq_outcome item (\<lambda>v. star_vec_from b (acc @ [v]) item) w n"
  proof (rule seq_outcome_cong [OF assms(2,3)], assumption)
    fix u j assume j: "0 < j" "j \<le> length w"
    then have "length (drop j w) < length w" by simp
    moreover from this have "length (drop j w) < a" "length (drop j w) < b"
      using less.prems unfolding k by linarith+
    ultimately show "outcome (star_vec_from a (acc @ [u]) item) (drop j w) n =
        outcome (star_vec_from b (acc @ [u]) item) (drop j w) n"
      by (rule less.hyps)
  qed
  then show ?case
    by (simp add: k outcome_alt outcome_bind [OF assms(1,3)])
qed


section \<open>The contract\<close>



lemma inc_next_lit [simp]:
  "inc_next (lit (b # bs)) i = (if i = Byte b then Some (lit bs) else None)" "inc_next (lit []) i = None"
  "inc_offer (lit []) i = Some ()" "inc_offer (lit (b # bs)) i = None"
  by (auto simp: inc_next_def inc_offer_def lit_def lit_step_def split: input.split)

lemma hands_back_lit: "hands_back i (inc_step (lit bs) i)"
  by (auto simp: lit_def lit_step_def split: list.split input.split)

lemmas lit_run = bind_next_offer [OF hands_back_lit] inc_next_alt input_of_byte_def ascii_new_def
  p_alt_def



section \<open>What TAB types\<close>

text \<open>
  C29: The forced-prefix walk returns, and the bytes it types are forced: the parser takes them, every
  line it accepts begins with them, and unless the cap of 4096 bytes was reached the walk stops only
  where the line could end or where no single byte is the next one.
\<close>

theorem forced_prefix_sound:
  assumes "inc_ok p"
  shows "\<exists>out q. forced_prefix p = Some out \<and> feed_bytes p out = Some q \<and>
    (\<forall>line. accepts p line \<longrightarrow> (\<exists>rest. line = out @ rest \<and> accepts q rest)) \<and>
    (length out < 4096 \<longrightarrow> (\<exists>a. inc_admissible q = Some a \<and>
       (adm_hard_required a \<longrightarrow> charset_one (adm_charset a) = None)))"
  using forced_walk_sound [OF assms, of 4096] unfolding forced_prefix_def by blast

theorem forced_prefix_sound_witness:
  "\<exists>out. forced_prefix (p_alt [lit [0x61, 0x62], lit [0x61, 0x63]]) = Some out \<and>
     feed_bytes (p_alt [lit [0x61, 0x62], lit [0x61, 0x63]]) out \<noteq> None \<and>
     accepts (p_alt [lit [0x61, 0x62], lit [0x61, 0x63]]) [0x61, 0x63] \<and> take (length out) [0x61, 0x63] = out"
proof -
  let ?p = "p_alt [lit [0x61, 0x62], lit [0x61, 0x63]] :: unit incparse"
  have "inc_ok ?p" by (rule inc_ok_alt) (auto simp: inc_ok_lit)
  from forced_prefix_sound [OF this] obtain out q where o: "forced_prefix ?p = Some out"
    "feed_bytes ?p out = Some q" "\<forall>line. accepts ?p line \<longrightarrow> (\<exists>rest. line = out @ rest \<and> accepts q rest)"
    by blast
  have a: "accepts ?p [0x61, 0x63]"
    by (simp add: accepts_outcome lit_run)
  with o obtain rest where "[0x61, 0x63] = out @ rest" by blast
  then have "take (length out) [0x61, 0x63] = out" by (metis append_eq_conv_conj)
  with o a show ?thesis by auto
qed


section \<open>What a line means\<close>

text \<open>
  C30: The value with which a parser that has read the bytes \<open>w\<close> finishes on the input \<open>n\<close>. An
  alternation finishes exactly when one of its branches does, with the value of the first such
  branch. A sequence finishes exactly when \<open>w\<close> can be cut so that the left side finishes on what
  follows the cut and the right side it yields finishes the rest; of several cuts the one with the
  longest left part counts.
\<close>

theorem line_semantics:
  assumes "inc_ok p" and "wf_input n" and "bs \<noteq> []"
  shows "outcome (p_alt bs) w n = first_some (map (\<lambda>b. outcome b w n) bs) \<and>
    outcome (p_bind p f) w n =
      first_some (map (\<lambda>k. Option.bind (outcome p (take k w) (next_input (drop k w) n))
          (\<lambda>u. outcome (f u) (drop k w) n))
        (rev [0..<Suc (length w)]))"
proof
  show "outcome (p_alt bs) w n = first_some (map (\<lambda>b. outcome b w n) bs)"
    using assms(3) by (cases bs rule: remdups_adj.cases) (auto simp: p_alt_def outcome_alt split: option.split)
  show "outcome (p_bind p f) w n =
      first_some (map (\<lambda>k. Option.bind (outcome p (take k w) (next_input (drop k w) n))
          (\<lambda>u. outcome (f u) (drop k w) n)) (rev [0..<Suc (length w)]))"
    unfolding outcome_bind [OF assms(1,2)] seq_outcome_def cut_outcome_def [abs_def] ..
qed

theorem line_semantics_witness:
  "outcome (p_bind (p_alt [p_map (lit [0x61]) (\<lambda>_. 1), p_map (lit [0x61, 0x61]) (\<lambda>_. 2)])
      (\<lambda>v :: nat. p_map (lit [0x61]) (\<lambda>_. v))) [0x61, 0x61, 0x61] Eof = Some 2"
proof -
  let ?p = "p_alt [p_map (lit [0x61]) (\<lambda>_. 1), p_map (lit [0x61, 0x61]) (\<lambda>_. 2)] :: nat incparse"
  have ok: "inc_ok ?p" by (rule inc_ok_alt) (auto simp: inc_ok_lit inc_ok_map)
  have "[0..<Suc (length [0x61, 0x61, 0x61 :: byte])] = [0, 1, 2, 3]" by (simp add: upt_rec)
  then show ?thesis
    using line_semantics [OF ok, of Eof "[?p]" "[0x61, 0x61, 0x61]" "\<lambda>v. p_map (lit [0x61]) (\<lambda>_. v)"]
    by (simp add: outcome_alt outcome_map lit_run next_input_def)
qed



section \<open>Completion overlays\<close>

text \<open>The words still alive in the overlay begin with the bytes the free word has read.\<close>

definition tracks :: "bytes \<Rightarrow> word_state \<Rightarrow> words_state \<Rightarrow> bool" where
  "tracks c w ov \<longleftrightarrow> words_inv ov \<and> ws_pos ov = length c \<and>
     (\<forall>i \<in> set (ws_alive ov). take (length c) (entry_word ov i) = c) \<and>
     w_bare w \<and> w_len w = length c \<and> (w_dash1 w \<longrightarrow> c = [0x2D])"

lemma tracks_advance:
  assumes t: "tracks c w ov" and a: "words_advance ov b = Some ov'"
  shows "\<exists>w'. word_step_core w (Byte b) = Advance w' \<and> tracks (c @ [b]) w' ov'"
proof -
  let ?n = "length c"
  from a obtain i where i: "i \<in> set (ws_alive ov)" and bi: "byte_at (entry_word ov i) (ws_pos ov) = Some b"
    using words_advance_iff [of ov b] by auto
  let ?e = "entry_word ov i"
  have e: "entry_is_word ?e" "take ?n ?e = c" "?n < length ?e" "?e ! ?n = b"
    using t i bi by (auto simp: tracks_def words_inv_def list_all_iff byte_at_def split: if_splits)
  have wb: "is_word_byte b" using words_advance_boundary t a by (auto simp: tracks_def)
  have pre: "take (Suc ?n) ?e = c @ [b]" using e take_Suc_conv_app_nth [of ?n ?e] by simp
  have bracket: "b \<noteq> 0x5B \<and> b \<noteq> 0x7B" if "?n = 0"
    using e(1) pre that by (auto simp: entry_is_word_def)
  have dash: "b \<noteq> 0x2D" if "w_dash1 w"
  proof -
    have "c = [0x2D]" using t that by (simp add: tracks_def)
    with pre have "take 2 ?e = [0x2D, b]" by (simp add: numeral_2_eq_2)
    with e(1) show ?thesis by (auto simp: entry_is_word_def)
  qed
  have "words_inv ov'" using words_inv_advance t a by (auto simp: tracks_def)
  moreover have "ws_pos ov' = Suc ?n" "ws_vocab ov' = ws_vocab ov"
    "set (ws_alive ov') = {i \<in> set (ws_alive ov). byte_at (entry_word ov i) ?n = Some b}"
    using t a by (auto simp: words_advance_def Let_def tracks_def split: if_splits)
  moreover have "take (Suc ?n) (entry_word ov j) = c @ [b]"
    if "j \<in> set (ws_alive ov)" "byte_at (entry_word ov j) ?n = Some b" for j
    using that t take_Suc_conv_app_nth [of ?n "entry_word ov j"]
    by (auto simp: tracks_def byte_at_def split: if_splits)
  moreover have "entry_word ov' j = entry_word ov j" for j
    using \<open>ws_vocab ov' = ws_vocab ov\<close> by (simp add: entry_word_def)
  ultimately show ?thesis
    using t wb bracket dash by (auto simp: tracks_def word_step_core_def is_word_byte_def)
qed

abbreviation word_obj :: "word_state \<Rightarrow> bytes \<Rightarrow> bytes incparse" where
  "word_obj w c \<equiv> boxed cap_word_step (\<lambda>s. word_admissible (fst s)) no_completions (w, c)"

abbreviation overlay_obj :: "words_state \<Rightarrow> bytes incparse" where
  "overlay_obj ov \<equiv> boxed overlay_step overlay_admissible words_completions ov"

lemma tracks_admissible:
  assumes t: "tracks c w ov"
  shows "inc_admissible (alt_obj [word_obj w d, overlay_obj ov]) = inc_admissible (word_obj w d)"
proof -
  obtain cw where w: "word_admissible w = Some (admissible_new cw (\<not> word_finishable w) True)"
    and cw: "\<And>b. charset_contains cw b \<longleftrightarrow> is_word_byte b \<and>
       \<not> (w_bare w \<and> w_len w = 0 \<and> (b = 0x5B \<or> b = 0x7B)) \<and> \<not> (w_bare w \<and> w_dash1 w \<and> b = 0x2D)"
    using word_admissible_spec by blast
  have "words_inv ov" using t by (simp add: tracks_def)
  from overlay_admissible_spec [OF this] obtain co where
    o: "overlay_admissible ov = Some (admissible_new co True False)"
    and co: "\<And>b. charset_contains co b \<longleftrightarrow> words_advance ov b \<noteq> None" by blast
  have "charset_contains cw b" if "charset_contains co b" for b
  proof -
    from that co obtain ov' where "words_advance ov b = Some ov'" by blast
    from tracks_advance [OF t this] have "\<exists>n. word_step_core w (Byte b) = Advance n" by blast
    moreover have "b < 0x80" by (rule charset_contains_ascii [OF that])
    ultimately show ?thesis unfolding cw using word_core_cont by blast
  qed
  then have "charset_union cw co = cw" by (intro charset_eqI) auto
  then show ?thesis
    by (simp add: alt_admissible_def w o admissible_either_def admissible_new_def)
qed

lemma overlay_never_offers: "inc_offer (overlay_obj ov) i = None"
  by (cases i) (auto simp: inc_offer_def overlay_step_def words_advance_def Let_def)

lemma overlay_next: "inc_next (overlay_obj ov) i = (case i of
    Byte b \<Rightarrow> if is_boundary_byte b then None else map_option overlay_obj (words_advance ov b) | _ \<Rightarrow> None)"
  by (cases i; (cases "words_advance ov (case i of Byte b \<Rightarrow> b)")?)
    (auto simp: inc_next_def overlay_step_def)

lemma word_obj_next: "inc_next (word_obj w d) i = (case word_step_core w i of
    Advance n \<Rightarrow> Some (word_obj n (d @ (case i of Byte b \<Rightarrow> [b] | Text b \<Rightarrow> [b] | Eof \<Rightarrow> []))) | _ \<Rightarrow> None)"
  by (auto simp: inc_next_def cap_word_step_def split: word_result.split)

text \<open>Two states agree when their admissibility and the values they finish with do.\<close>

definition same_view :: "'a incparse option \<Rightarrow> 'a incparse option \<Rightarrow> bool" where
  "same_view x y = (case (x, y) of
     (None, None) \<Rightarrow> True
   | (Some p, Some q) \<Rightarrow> inc_admissible p = inc_admissible q \<and> inc_offer p = inc_offer q
   | _ \<Rightarrow> False)"

lemma same_view_refl [simp]: "same_view x x"
  by (cases x) (simp_all add: same_view_def)

lemma overlay_same_view:
  assumes "tracks c w ov"
  shows "same_view (feed_bytes (word_obj w d) line) (feed_bytes (alt_obj [word_obj w d, overlay_obj ov]) line)"
  using assms
proof (induction line arbitrary: c w ov d)
  case Nil
  have "inc_offer (alt_obj [word_obj w d, overlay_obj ov]) = inc_offer (word_obj w d)"
    by (rule ext) (auto simp: inc_offer_alt overlay_never_offers split: option.split)
  then show ?case by (simp add: same_view_def tracks_admissible [OF Nil] del: boxed.simps alt_obj.simps)
next
  case (Cons b line)
  let ?i = "input_of_byte b"
  show ?case
  proof (cases "inc_next (overlay_obj ov) ?i")
    case None
    then have "inc_next (alt_obj [word_obj w d, overlay_obj ov]) ?i = inc_next (word_obj w d) ?i"
      by (auto simp: inc_next_alt split: option.split)
    then show ?thesis by simp
  next
    case (Some o')
    then obtain ov' where ov': "words_advance ov b = Some ov'" "o' = overlay_obj ov'" and i: "?i = Byte b"
      by (auto simp: overlay_next input_of_byte_def ascii_new_def split: if_splits)
    from tracks_advance [OF Cons.prems ov'(1)] obtain w' where
      w': "word_step_core w (Byte b) = Advance w'" "tracks (c @ [b]) w' ov'" by blast
    then have "inc_next (word_obj w d) ?i = Some (word_obj w' (d @ [b]))"
      by (simp add: word_obj_next i)
    with Some ov'(2) Cons.IH [OF w'(2)] show ?thesis by (simp add: inc_next_alt)
  qed
qed

text \<open>
  C31: A completion overlay next to the free word of a name position is a view only: whatever is
  typed, the position with the overlay accepts exactly what it accepts without, finishes with the
  same value, and reports the same admissible bytes.
\<close>

theorem overlay_transparent:
  assumes "cap_bare_word excluded = Some p"
  shows "same_view (feed_bytes p line) (feed_bytes (p_alt [p, overlay_words vocab]) line)"
proof -
  from assms obtain w where w: "p = word_obj w []" "w_bare w" "w_len w = 0" "\<not> w_dash1 w"
    by (auto simp: cap_bare_word_def word_start_def bind_eq_Some_conv)
  then have "tracks [] w (words_start vocab)"
    using words_inv_start by (simp add: tracks_def words_start_def)
  from overlay_same_view [OF this] w(1) show ?thesis by (simp add: overlay_words_def)
qed

theorem overlay_transparent_witness:
  "\<exists>p. cap_bare_word [[0x61, 0x73]] = Some p \<and>
     same_view (feed_bytes p [0x6C, 0x73])
       (feed_bytes (p_alt [p, overlay_words [hint_entry_plain [0x6C, 0x73] Tag_Program]]) [0x6C, 0x73])"
proof -
  obtain p where "cap_bare_word [[0x61, 0x73]] = Some p"
    by (simp add: cap_bare_word_def word_start_def)
  with overlay_transparent [OF this] show ?thesis by blast
qed

end
