(* ===== verification/Shell_Args.thy ===== *)
theory Shell_Args
  imports Comb_Props
begin

text \<open>
  The shell's expressions and its type-directed arguments (\<open>guest/eosh/eosh-core/src\<close>: \<open>ast.rs\<close>,
  \<open>wave.rs\<close>, and the argument functions of \<open>eval.rs\<close>). The signature of a program gives every
  parameter a name and a WIT type text; flags and positional values are matched against it, encoded
  as WAVE text for data-typed parameters and kept as expressions for component-typed ones.

  Shown here: a call that is accepted and completed binds every declared parameter exactly once, to
  a value of the declared type; and a string quoted for WAVE is read back by the shell's own quoted
  token.
\<close>

section \<open>Abstract syntax\<close>

datatype expr =
    EName bytes
  | EApp expr "arg list"
  | ECompose expr expr
  | EExtend expr expr
  | EOnly "bytes list" expr
  | ERename bytes bytes expr
  | EWith "with_binding list" expr
and with_binding = WithBinding expr bytes
and arg = AFlag bytes arg_value | APositional arg_value
and arg_value = VWord bytes | VQuoted bytes | VExpr expr


section \<open>WAVE text\<close>

definition is_component_type :: "bytes \<Rightarrow> bool" where
  "is_component_type ty0 =
     (let ty = trim ty0;
          rest = (case strip_prefix (ascii ''borrow<'') ty of
            Some r \<Rightarrow> Some r | None \<Rightarrow> strip_prefix (ascii ''own<'') ty);
          inner = (case Option.bind rest (strip_suffix (ascii ''>'')) of Some i \<Rightarrow> i | None \<Rightarrow> ty)
      in inner = ascii ''component'' \<or> ends_with (ascii ''/component'') inner \<or>
         ends_with (ascii ''.component'') inner)"

definition option_inner :: "bytes \<Rightarrow> bytes option" where
  "option_inner ty = do {
     rest \<leftarrow> strip_prefix (ascii ''option<'') (trim ty);
     inner \<leftarrow> strip_suffix (ascii ''>'') rest;
     Some (trim inner) }"

definition is_string_list :: "bytes \<Rightarrow> bool" where
  "is_string_list ty = (case Option.bind (strip_prefix (ascii ''list<'') (trim ty)) (strip_suffix (ascii ''>'')) of
     Some inner \<Rightarrow> trim inner = ascii ''string'' | None \<Rightarrow> False)"

definition quote_char :: "byte \<Rightarrow> bytes" where
  "quote_char c =
     (if c = 0x22 then [0x5C, 0x22] else if c = 0x5C then [0x5C, 0x5C] else if c = 0x0A then [0x5C, 0x6E]
      else if c = 0x09 then [0x5C, 0x74] else if c = 0x0D then [0x5C, 0x72] else [c])"

text \<open>The escaped characters are ASCII, so the loop over characters is one over bytes.\<close>

definition quote_string :: "bytes \<Rightarrow> bytes" where
  "quote_string t = [0x22] @ concat (map quote_char t) @ [0x22]"

fun join :: "bytes \<Rightarrow> bytes list \<Rightarrow> bytes" where
  "join sep [] = []"
| "join sep [x] = x"
| "join sep (x # y # ys) = x @ sep @ join sep (y # ys)"

definition string_list :: "bytes list \<Rightarrow> bytes" where
  "string_list elements = [0x5B] @ join (ascii '', '') (map quote_string elements) @ [0x5D]"

definition none_value :: bytes where
  "none_value = ascii ''none''"

lemma option_inner_length: "option_inner ty = Some inner \<Longrightarrow> length inner < length ty"
proof -
  assume "option_inner ty = Some inner"
  then obtain rest i where r: "strip_prefix (ascii ''option<'') (trim ty) = Some rest"
    and i: "strip_suffix (ascii ''>'') rest = Some i" and inner: "inner = trim i"
    by (auto simp: option_inner_def bind_eq_Some_conv)
  have "rest \<noteq> []" using i by (auto simp: strip_suffix_def ends_with_def ascii_def split: if_splits)
  moreover have "length i < length rest"
    using i by (auto simp: strip_suffix_def ends_with_def ascii_def split: if_splits)
  moreover have "length rest \<le> length ty"
    using strip_length(1) [OF r] trim_length [of ty] by linarith
  ultimately show "length inner < length ty"
    using trim_length [of i] unfolding inner by linarith
qed

function encode_text :: "bytes \<Rightarrow> bytes \<Rightarrow> bool \<Rightarrow> bytes" where
  "encode_text ty0 t bare =
     (let ty = trim ty0 in
      case option_inner ty of
        Some inner \<Rightarrow>
          if bare \<and> t = ascii ''none'' then ascii ''none''
          else ascii ''some('' @ encode_text inner t bare @ ascii '')''
      | None \<Rightarrow>
          if ty = ascii ''string'' then quote_string t
          else if is_string_list ty \<and> \<not> starts_with [0x5B] (trim_start t) then
            [0x5B] @ quote_string t @ [0x5D]
          else t)"
  by pat_completeness auto
termination
proof (relation "measure (\<lambda>(ty, _). length ty)")
  fix ty0 t bare ty inner
  assume "ty = trim ty0" "option_inner ty = Some inner"
  then show "((inner, t, bare), (ty0, t, bare)) \<in> measure (\<lambda>(ty, _). length ty)"
    using option_inner_length [of ty inner] trim_length [of ty0] by simp
qed simp

declare encode_text.simps [simp del]

definition encode_arg_value :: "bytes \<Rightarrow> arg_value \<Rightarrow> bytes option" where
  "encode_arg_value ty value = (case value of
     VWord t \<Rightarrow> Some (encode_text ty t True)
   | VQuoted t \<Rightarrow> Some (encode_text ty t False)
   | VExpr _ \<Rightarrow> None)"


section \<open>Matching arguments\<close>

record arg_spec =
  as_name :: bytes
  as_ty :: bytes

record named_arg =
  na_name :: bytes
  na_value :: bytes

datatype eval_error =
    Backend bytes
  | UnknownFlag bytes
  | DuplicateArgument bytes
  | TooManyPositional
  | MissingArgument bytes bytes
  | ExpressionForDataParameter bytes bytes
  | ComponentArgumentText bytes
  | ComponentArgumentWithArgs bytes
  | ComponentArgumentForConfigure bytes
  | ArgumentsNotAllowed string
  | ExtendOperandNotAProvider string "bytes option" "bytes option"
  | NamedWorldUnsupported bytes
  | WithProviderExports bytes nat

record collected_args =
  ca_named :: "named_arg list"
  ca_components :: "(bytes \<times> arg_value) list"

definition is_filled :: "named_arg list \<Rightarrow> (bytes \<times> arg_value) list \<Rightarrow> bytes \<Rightarrow> bool" where
  "is_filled named components name \<longleftrightarrow>
     list_ex (\<lambda>a. na_name a = name) named \<or> list_ex (\<lambda>c. fst c = name) components"

definition push_component :: "(bytes \<times> arg_value) list \<Rightarrow> named_arg list \<Rightarrow> arg_spec \<Rightarrow> arg_value \<Rightarrow>
    ((bytes \<times> arg_value) list, eval_error) result" where
  "push_component components named spec value =
     (if list_ex (\<lambda>c. fst c = as_name spec) components \<or> list_ex (\<lambda>a. na_name a = as_name spec) named
      then Err (DuplicateArgument (as_name spec))
      else Ok (components @ [(as_name spec, value)]))"

definition push_arg :: "named_arg list \<Rightarrow> (bytes \<times> arg_value) list \<Rightarrow> arg_spec \<Rightarrow> arg_value \<Rightarrow>
    (named_arg list, eval_error) result" where
  "push_arg named components spec value =
     (if list_ex (\<lambda>a. na_name a = as_name spec) named \<or> list_ex (\<lambda>c. fst c = as_name spec) components
      then Err (DuplicateArgument (as_name spec))
      else case encode_arg_value (as_ty spec) value of
        None \<Rightarrow> Err (ExpressionForDataParameter (as_name spec) (as_ty spec))
      | Some encoded \<Rightarrow> Ok (named @ [\<lparr>na_name = as_name spec, na_value = encoded\<rparr>]))"

text \<open>One parameter that was found for a value: a component-typed one or a data-typed one.\<close>

definition push_value :: "arg_spec \<Rightarrow> arg_value \<Rightarrow> named_arg list \<Rightarrow> (bytes \<times> arg_value) list \<Rightarrow>
    (named_arg list \<times> (bytes \<times> arg_value) list, eval_error) result" where
  "push_value spec value named components =
     (if is_component_type (as_ty spec)
      then and_then (push_component components named spec value) (\<lambda>cs. Ok (named, cs))
      else and_then (push_arg named components spec value) (\<lambda>ns. Ok (ns, components)))"

fun collect_loop :: "arg_spec list \<Rightarrow> bytes option \<Rightarrow> arg list \<Rightarrow> named_arg list \<Rightarrow>
    (bytes \<times> arg_value) list \<Rightarrow> bytes list \<Rightarrow>
    (named_arg list \<times> (bytes \<times> arg_value) list \<times> bytes list, eval_error) result" where
  "collect_loop specs variadic [] named components tail = Ok (named, components, tail)"
| "collect_loop specs variadic (AFlag name value # args) named components tail =
     (case find (\<lambda>s. as_name s = name) specs of
        None \<Rightarrow> Err (UnknownFlag name)
      | Some spec \<Rightarrow> and_then (push_value spec value named components) (\<lambda>(ns, cs).
          collect_loop specs variadic args ns cs tail))"
| "collect_loop specs variadic (APositional value # args) named components tail =
     (case find (\<lambda>s. Some (as_name s) \<noteq> variadic \<and> \<not> is_filled named components (as_name s)) specs of
        Some spec \<Rightarrow> and_then (push_value spec value named components) (\<lambda>(ns, cs).
          collect_loop specs variadic args ns cs tail)
      | None \<Rightarrow> (case variadic of
          None \<Rightarrow> Err TooManyPositional
        | Some name \<Rightarrow> (case value of
            VWord t \<Rightarrow> collect_loop specs variadic args named components (tail @ [t])
          | VQuoted t \<Rightarrow> collect_loop specs variadic args named components (tail @ [t])
          | VExpr _ \<Rightarrow> Err (ExpressionForDataParameter name (ascii ''list<string>'')))))"

definition variadic_of :: "arg_spec list \<Rightarrow> bytes option" where
  "variadic_of specs =
     (if specs \<noteq> [] \<and> is_string_list (as_ty (last specs)) then Some (as_name (last specs)) else None)"

definition collect_named_args ::
    "named_arg list \<Rightarrow> arg_spec list \<Rightarrow> arg list \<Rightarrow> (collected_args, eval_error) result" where
  "collect_named_args initial specs args =
     (let variadic = variadic_of specs in
      and_then (collect_loop specs variadic args initial [] []) (\<lambda>(named, components, tail).
        case variadic of
          None \<Rightarrow> Ok \<lparr>ca_named = named, ca_components = components\<rparr>
        | Some name \<Rightarrow>
            if tail = [] then Ok \<lparr>ca_named = named, ca_components = components\<rparr>
            else if list_ex (\<lambda>a. na_name a = name) named then Err (DuplicateArgument name)
            else Ok \<lparr>ca_named = named @ [\<lparr>na_name = name, na_value = string_list tail\<rparr>],
                     ca_components = components\<rparr>))"

text \<open>The loop of \<open>complete_args\<close>; a parameter is the final one when no other follows it.\<close>

fun complete_args :: "named_arg list \<Rightarrow> bytes list \<Rightarrow> arg_spec list \<Rightarrow> (named_arg list, eval_error) result" where
  "complete_args args filled_components [] = Ok args"
| "complete_args args filled_components (spec # specs) =
     (if list_ex (\<lambda>a. na_name a = as_name spec) args \<or> as_name spec \<in> set filled_components
      then complete_args args filled_components specs
      else if is_component_type (as_ty spec) then Err (MissingArgument (as_name spec) (as_ty spec))
      else if option_inner (as_ty spec) \<noteq> None then
        complete_args (args @ [\<lparr>na_name = as_name spec, na_value = none_value\<rparr>]) filled_components specs
      else if specs = [] \<and> is_string_list (as_ty spec) then
        complete_args (args @ [\<lparr>na_name = as_name spec, na_value = string_list []\<rparr>]) filled_components specs
      else Err (MissingArgument (as_name spec) (as_ty spec)))"



section \<open>Typed calls\<close>

text \<open>
  What a WAVE text looks like for a declared type, as far as the shell decides it: an absent or a
  present option, a quoted string, a list of quoted strings (or the user's own list text); every
  other type takes the text as written.
\<close>

function conforms :: "bytes \<Rightarrow> bytes \<Rightarrow> bool" where
  "conforms ty0 v =
     (case option_inner (trim ty0) of
        Some inner \<Rightarrow> v = none_value \<or> (\<exists>x. v = ascii ''some('' @ x @ ascii '')'' \<and> conforms inner x)
      | None \<Rightarrow>
          if trim ty0 = ascii ''string'' then \<exists>t. v = quote_string t
          else is_string_list (trim ty0) \<longrightarrow> (\<exists>ts. v = string_list ts) \<or> starts_with [0x5B] (trim_start v))"
  by pat_completeness auto
termination
proof (relation "measure (\<lambda>(ty, _). length ty)")
  fix ty0 v inner x
  assume "option_inner (trim ty0) = Some inner"
  then show "((inner, x), (ty0, v)) \<in> measure (\<lambda>(ty, _). length ty)"
    using option_inner_length [of "trim ty0" inner] trim_length [of ty0] by simp
qed simp

declare conforms.simps [simp del]

lemma option_inner_trim [simp]: "option_inner (trim ty) = option_inner ty"
  by (simp add: option_inner_def)

lemma string_list_one: "string_list [t] = [0x5B] @ quote_string t @ [0x5D]"
  by (simp add: string_list_def)

lemma encode_text_conforms: "conforms ty (encode_text ty t bare)"
proof (induction ty t bare rule: encode_text.induct)
  case (1 ty0 t bare)
  show ?case
  proof (cases "option_inner (trim ty0)")
    case (Some inner)
    have e: "encode_text ty0 t bare = (if bare \<and> t = ascii ''none'' then ascii ''none''
        else ascii ''some('' @ encode_text inner t bare @ ascii '')'')"
      using Some by (subst encode_text.simps) (simp add: Let_def)
    show ?thesis
    proof (cases "bare \<and> t = ascii ''none''")
      case True
      with e Some show ?thesis by (subst conforms.simps) (simp add: none_value_def)
    next
      case False
      with 1 Some have "conforms inner (encode_text inner t bare)" by blast
      with e Some False show ?thesis by (subst conforms.simps) auto
    qed
  next
    case None
    have "\<exists>ts. [0x5B] @ quote_string t @ [0x5D] = string_list ts"
      by (rule exI [of _ "[t]"]) (simp add: string_list_one)
    moreover have "encode_text ty0 t bare = (if trim ty0 = ascii ''string'' then quote_string t
        else if is_string_list (trim ty0) \<and> \<not> starts_with [0x5B] (trim_start t) then
          [0x5B] @ quote_string t @ [0x5D] else t)"
      using None by (subst encode_text.simps) (simp add: Let_def)
    ultimately show ?thesis using None by (subst conforms.simps) auto
  qed
qed

lemma conforms_none: "option_inner ty \<noteq> None \<Longrightarrow> conforms ty none_value"
  by (subst conforms.simps) (auto simp: option_inner_trim)


text \<open>
  The bindings of a call so far: no parameter twice, every name declared, text for data-typed
  parameters in the shape of their type, expressions for component-typed ones.
\<close>

lemma list_ex_names:
  "list_ex (\<lambda>a. na_name a = n) named \<longleftrightarrow> n \<in> set (map na_name named)"
  "list_ex (\<lambda>c. fst c = n) components \<longleftrightarrow> n \<in> set (map fst components)"
  by (auto simp: list_ex_iff image_iff)

definition bound_ok :: "arg_spec list \<Rightarrow> named_arg list \<Rightarrow> bytes list \<Rightarrow> bool" where
  "bound_ok specs named components \<longleftrightarrow>
     distinct (map na_name named @ components) \<and>
     (\<forall>a \<in> set named. \<exists>s \<in> set specs. as_name s = na_name a \<and> \<not> is_component_type (as_ty s) \<and>
        conforms (as_ty s) (na_value a)) \<and>
     (\<forall>c \<in> set components. \<exists>s \<in> set specs. as_name s = c \<and> is_component_type (as_ty s))"

lemma bound_ok_named:
  assumes "bound_ok specs named components" and "spec \<in> set specs" and "\<not> is_component_type (as_ty spec)"
    and "conforms (as_ty spec) v" and "as_name spec \<notin> set (map na_name named @ components)"
  shows "bound_ok specs (named @ [\<lparr>na_name = as_name spec, na_value = v\<rparr>]) components"
  using assms by (auto simp: bound_ok_def)

lemma bound_ok_component:
  assumes "bound_ok specs named components" and "spec \<in> set specs" and "is_component_type (as_ty spec)"
    and "as_name spec \<notin> set (map na_name named @ components)"
  shows "bound_ok specs named (components @ [as_name spec])"
  using assms by (auto simp: bound_ok_def)

lemma push_value_ok:
  assumes "bound_ok specs named (map fst components)" and "spec \<in> set specs"
    and "push_value spec value named components = Ok (ns, cs)"
  shows "bound_ok specs ns (map fst cs)"
proof (cases "is_component_type (as_ty spec)")
  case True
  with assms(3) have new: "as_name spec \<notin> set (map na_name named @ map fst components)"
    and r: "ns = named" "cs = components @ [(as_name spec, value)]"
    by (auto simp: push_value_def push_component_def list_ex_iff split: if_splits)
  have "bound_ok specs named (map fst components @ [as_name spec])"
    by (rule bound_ok_component [OF assms(1,2) True new])
  with r show ?thesis by simp
next
  case False
  with assms(3) have p: "push_arg named components spec value = Ok ns" and c: "cs = components"
    by (auto simp: push_value_def and_then_Ok)
  have new: "as_name spec \<notin> set (map na_name named @ map fst components)"
  proof
    assume "as_name spec \<in> set (map na_name named @ map fst components)"
    then have "push_arg named components spec value = Err (DuplicateArgument (as_name spec))"
      by (auto simp: push_arg_def list_ex_iff)
    with p show False by simp
  qed
  then have "push_arg named components spec value = (case encode_arg_value (as_ty spec) value of
        None \<Rightarrow> Err (ExpressionForDataParameter (as_name spec) (as_ty spec))
      | Some encoded \<Rightarrow> Ok (named @ [\<lparr>na_name = as_name spec, na_value = encoded\<rparr>]))"
    unfolding push_arg_def list_ex_names by auto
  with p obtain v where v: "encode_arg_value (as_ty spec) value = Some v"
    and r: "ns = named @ [\<lparr>na_name = as_name spec, na_value = v\<rparr>]"
    by (cases "encode_arg_value (as_ty spec) value") simp_all
  from v have "conforms (as_ty spec) v"
    by (auto simp: encode_arg_value_def encode_text_conforms split: arg_value.splits)
  with bound_ok_named [OF assms(1,2) False _ new] r c show ?thesis by simp
qed

lemma collect_loop_ok:
  assumes "collect_loop specs variadic args named components tail = Ok (ns, cs, t)"
    and "bound_ok specs named (map fst components)"
  shows "bound_ok specs ns (map fst cs)"
  using assms
proof (induction specs variadic args named components tail rule: collect_loop.induct)
  case (2 specs variadic name v args named components tail)
  then obtain spec ns' cs' where spec: "find (\<lambda>s. as_name s = name) specs = Some spec"
    and p: "push_value spec v named components = Ok (ns', cs')"
    and l: "collect_loop specs variadic args ns' cs' tail = Ok (ns, cs, t)"
    by (auto simp: and_then_Ok split: option.splits prod.splits)
  with 2 push_value_ok [OF "2.prems"(2) _ p] find_SomeD [OF spec] show ?case by auto
next
  case (3 specs variadic v args named components tail)
  show ?case
  proof (cases "find (\<lambda>s. Some (as_name s) \<noteq> variadic \<and> \<not> is_filled named components (as_name s)) specs")
    case (Some spec)
    with "3.prems"(1) obtain ns' cs' where p: "push_value spec v named components = Ok (ns', cs')"
      and l: "collect_loop specs variadic args ns' cs' tail = Ok (ns, cs, t)"
      by (auto simp: and_then_Ok split: prod.splits)
    with 3 Some push_value_ok [OF "3.prems"(2) _ p] find_SomeD [OF Some] show ?thesis by auto
  next
    case None
    with 3 show ?thesis by (auto split: option.splits arg_value.splits)
  qed
qed simp

lemma is_string_list_form:
  assumes "is_string_list ty"
  obtains i where "trim ty = ascii ''list<'' @ i @ [0x3E]"
proof -
  from assms obtain r i where "strip_prefix (ascii ''list<'') (trim ty) = Some r"
    and i: "strip_suffix (ascii ''>'') r = Some i"
    by (auto simp: is_string_list_def bind_eq_Some_conv split: option.splits)
  then have "trim ty = ascii ''list<'' @ r"
    by (metis append_take_drop_id option.distinct(1) option.inject starts_with_def strip_prefix_def)
  moreover have "r = i @ [0x3E]"
    using i by (auto simp: strip_suffix_def ends_with_def ascii_def split: if_splits) (metis append_take_drop_id)
  ultimately show ?thesis using that by simp
qed

lemma string_list_conforms: "is_string_list ty \<Longrightarrow> conforms ty (string_list ts)"
proof -
  assume l: "is_string_list ty"
  obtain i where t: "trim ty = ascii ''list<'' @ i @ [0x3E]" using is_string_list_form [OF l] by blast
  have "option_inner ty = None"
    by (simp add: option_inner_def t strip_prefix_def starts_with_def ascii_def)
  moreover have "trim ty \<noteq> ascii ''string''" by (simp add: t ascii_def)
  ultimately show ?thesis by (subst conforms.simps) auto
qed

lemma string_list_no_component: "is_string_list ty \<Longrightarrow> \<not> is_component_type ty"
proof -
  assume l: "is_string_list ty"
  obtain i where t: "trim ty = ascii ''list<'' @ i @ [0x3E]" using is_string_list_form [OF l] by blast
  have e: "\<not> ends_with (p @ [0x74]) (trim ty)" for p
  proof
    assume "ends_with (p @ [0x74]) (trim ty)"
    then obtain q where "trim ty = q @ p @ [0x74]" unfolding ends_with_def by (metis append_take_drop_id)
    then have "last (trim ty) = 0x74" by simp
    then show False by (simp add: t)
  qed
  have c: "ascii ''/component'' = ascii ''/componen'' @ [0x74]" "ascii ''.component'' = ascii ''.componen'' @ [0x74]"
    by (simp_all add: ascii_def)
  have "trim ty \<noteq> ascii ''component''" by (simp add: t ascii_def)
  moreover have "strip_prefix (ascii ''borrow<'') (trim ty) = None" "strip_prefix (ascii ''own<'') (trim ty) = None"
    by (simp_all add: t strip_prefix_def starts_with_def ascii_def)
  ultimately show ?thesis
    using e unfolding is_component_type_def c by (simp add: Let_def)
qed

lemma collect_named_args_ok:
  assumes "collect_named_args initial specs args = Ok c" and "bound_ok specs initial []"
    and "distinct (map as_name specs)"
  shows "bound_ok specs (ca_named c) (map fst (ca_components c))"
proof -
  let ?v = "variadic_of specs"
  from assms(1) obtain ns cs t where l: "collect_loop specs ?v args initial [] [] = Ok (ns, cs, t)"
    and r: "(case ?v of None \<Rightarrow> Ok \<lparr>ca_named = ns, ca_components = cs\<rparr>
        | Some name \<Rightarrow> if t = [] then Ok \<lparr>ca_named = ns, ca_components = cs\<rparr>
            else if list_ex (\<lambda>a. na_name a = name) ns then Err (DuplicateArgument name)
            else Ok \<lparr>ca_named = ns @ [\<lparr>na_name = name, na_value = string_list t\<rparr>], ca_components = cs\<rparr>) = Ok c"
    by (auto simp: collect_named_args_def Let_def and_then_Ok split: prod.splits)
  have b: "bound_ok specs ns (map fst cs)" using collect_loop_ok [OF l] assms(2) by simp
  show ?thesis
  proof (cases ?v)
    case None
    with r b show ?thesis by auto
  next
    case (Some name)
    then obtain spec where spec: "spec \<in> set specs" "as_name spec = name" "is_string_list (as_ty spec)"
      unfolding variadic_of_def by (metis last_in_set option.distinct(1) option.inject)
    show ?thesis
    proof (cases "t = []")
      case True
      with r b Some show ?thesis by auto
    next
      case False
      with r Some have c: "c = \<lparr>ca_named = ns @ [\<lparr>na_name = name, na_value = string_list t\<rparr>], ca_components = cs\<rparr>"
        and new: "name \<notin> na_name ` set ns" by (auto simp: list_ex_iff split: if_splits)
      have "name \<notin> set (map fst cs)"
      proof
        assume "name \<in> set (map fst cs)"
        with b obtain s where s: "s \<in> set specs" "as_name s = name" "is_component_type (as_ty s)"
          unfolding bound_ok_def by blast
        with spec assms(3) have "s = spec" by (auto simp: distinct_map inj_on_def)
        with s spec string_list_no_component show False by blast
      qed
      then show ?thesis
        using bound_ok_named [OF b spec(1) string_list_no_component [OF spec(3)] string_list_conforms [OF spec(3)]]
          new c spec(2) by auto
    qed
  qed
qed


lemma complete_args_ok:
  assumes "complete_args args filled rest = Ok full" and "bound_ok specs args filled" and "set rest \<subseteq> set specs"
  shows "bound_ok specs full filled \<and> set args \<subseteq> set full \<and>
    (\<forall>s \<in> set rest. as_name s \<in> na_name ` set full \<or> as_name s \<in> set filled)"
  using assms
proof (induction args filled rest rule: complete_args.induct)
  case (2 args filled spec rest)
  let ?here = "list_ex (\<lambda>a. na_name a = as_name spec) args \<or> as_name spec \<in> set filled"
  show ?case
  proof (cases ?here)
    case True
    with 2 have "bound_ok specs full filled \<and> set args \<subseteq> set full \<and>
        (\<forall>s \<in> set rest. as_name s \<in> na_name ` set full \<or> as_name s \<in> set filled)" by simp
    with True show ?thesis by (auto simp: list_ex_names)
  next
    case False
    have nc: "\<not> is_component_type (as_ty spec)" using "2.prems"(1) False by (auto split: if_splits)
    obtain v where v: "conforms (as_ty spec) v"
      and r: "complete_args (args @ [\<lparr>na_name = as_name spec, na_value = v\<rparr>]) filled rest = Ok full"
      and IH: "bound_ok specs (args @ [\<lparr>na_name = as_name spec, na_value = v\<rparr>]) filled \<Longrightarrow>
        bound_ok specs full filled \<and> set (args @ [\<lparr>na_name = as_name spec, na_value = v\<rparr>]) \<subseteq> set full \<and>
        (\<forall>s \<in> set rest. as_name s \<in> na_name ` set full \<or> as_name s \<in> set filled)"
    proof (cases "option_inner (as_ty spec)")
      case (Some inner)
      show thesis
        by (rule that [of none_value]) (use 2 False nc Some in \<open>auto intro: conforms_none\<close>)
    next
      case None
      then have "rest = [] \<and> is_string_list (as_ty spec)" using "2.prems"(1) False nc by (auto split: if_splits)
      then show thesis
        by (intro that [of "string_list []"]) (use 2 False nc None in \<open>auto intro: string_list_conforms\<close>)
    qed
    have "bound_ok specs (args @ [\<lparr>na_name = as_name spec, na_value = v\<rparr>]) filled"
      by (rule bound_ok_named) (use 2 False nc v in \<open>auto simp: list_ex_iff\<close>)
    from IH [OF this] have f: "bound_ok specs full filled"
      "set (args @ [\<lparr>na_name = as_name spec, na_value = v\<rparr>]) \<subseteq> set full"
      "\<forall>s \<in> set rest. as_name s \<in> na_name ` set full \<or> as_name s \<in> set filled" by blast+
    from f(2) have "as_name spec \<in> na_name ` set full"
      by (auto intro: image_eqI [of _ na_name "\<lparr>na_name = as_name spec, na_value = v\<rparr>"])
    with f show ?thesis by auto
  qed
qed simp





section \<open>Quoting\<close>

text \<open>What the shell quotes for WAVE, its own quoted token reads back.\<close>

abbreviation quoted_obj :: "quoted_state \<Rightarrow> bytes \<Rightarrow> bytes incparse" where
  "quoted_obj st read \<equiv> boxed cap_quoted_step (\<lambda>s. quoted_admissible (fst s)) no_completions (st, read)"

lemma quoted_feed_char: "feed_bytes (quoted_obj QBody read) (quote_char c) = Some (quoted_obj QBody (read @ [c]))"
  by (auto simp: quote_char_def inc_next_def cap_quoted_step_def decode_escape_def input_of_byte_def
      ascii_new_def Let_def)

lemma quoted_feed: "feed_bytes (quoted_obj QBody read) (concat (map quote_char t)) = Some (quoted_obj QBody (read @ t))"
  by (induction t arbitrary: read) (simp_all add: feed_bytes_append quoted_feed_char)

lemma quote_string_roundtrip:
  assumes "utf8_valid t"
  shows "outcome cap_quoted (quote_string t) Eof = Some t"
proof -
  have "feed_bytes cap_quoted [0x22] = Some (quoted_obj QBody [])"
    by (simp add: cap_quoted_def inc_next_def cap_quoted_step_def input_of_byte_def ascii_new_def Let_def)
  moreover have "feed_bytes (quoted_obj QBody t) [0x22] = Some (quoted_obj QFinished t)"
    by (simp add: inc_next_def cap_quoted_step_def input_of_byte_def ascii_new_def Let_def)
  ultimately have "feed_bytes cap_quoted (quote_string t) = Some (quoted_obj QFinished t)"
    unfolding quote_string_def feed_bytes_append by (simp add: quoted_feed)
  then show ?thesis
    by (simp add: outcome_def inc_offer_def cap_quoted_step_def Let_def from_utf8_lossy_valid [OF assms])
qed

text \<open>A captured word is the bytes that were typed.\<close>

lemma cap_word_outcome:
  assumes "outcome (word_obj w read) line n = Some v"
  shows "v = from_utf8_lossy (read @ line)"
  using assms
proof (induction line arbitrary: w read)
  case Nil
  then show ?case
    by (auto simp: inc_offer_def cap_word_step_def bind_eq_Some_conv split: word_result.splits)
next
  case (Cons b line)
  then obtain w' where "outcome (word_obj w' (read @ [b])) line n = Some v"
    by (auto simp: word_obj_next bind_eq_Some_conv input_of_byte_def ascii_new_def word_step_core_def
        split: word_result.splits input.splits if_splits)
  from Cons.IH [OF this] show ?case by simp
qed

end
