(* ===== verification/Shell_Cache.thy ===== *)
theory Shell_Cache
  imports Shell_Args
begin

text \<open>
  The session's resolve cache (\<open>guest/eosh/eosh-core/src/cache.rs\<close>) and how the session drives it
  (\<open>session.rs\<close>: \<open>run_let\<close>, \<open>run_save\<close>, \<open>run_detach\<close>, \<open>run_program\<close>, \<open>arg_hints\<close>). A compiled image is
  remembered under a canonical key of the expression; bindings enter the key with the sub-key frozen
  when they were made, and names of programs with the generation of the store they were read in.

  Shown here: the canonical text determines the composition it stands for (no text the user types can
  forge structure), and a hit is never stale: whatever was saved, bound, run or detached before, a
  cached image is the one that evaluating the line now would build, and cached bytes are the ones the
  store holds.
\<close>

section \<open>Canonical keys\<close>

text \<open>\<open>{}\<close> of an unsigned integer.\<close>

fun dec :: "nat \<Rightarrow> bytes" where
  "dec n = (if n < 10 then [of_nat (0x30 + n)] else dec (n div 10) @ [of_nat (0x30 + n mod 10)])"

declare dec.simps [simp del]

definition net :: "bytes \<Rightarrow> bytes" where
  "net t = dec (length t) @ [0x3A] @ t"

record bytes_cache =
  bc_entries :: "(bytes \<times> bytes) list"
  bc_total :: nat
  bc_disabled :: bool

text \<open>An entry of the image cache carries the image with its bound arguments and its fs flag.\<close>

record ('i, 'm) session_cache =
  sc_bytes :: bytes_cache
  sc_images :: "(bytes \<times> 'i) list"
  sc_args :: "(bytes \<times> 'm) list"
  sc_global_gen :: nat
  sc_name_gens :: "bytes \<Rightarrow> nat option"
  sc_binding_keys :: "bytes \<Rightarrow> bytes option"
  sc_next_unique :: nat
  sc_disabled :: bool

definition name_gen :: "('i, 'm) session_cache \<Rightarrow> bytes \<Rightarrow> nat" where
  "name_gen c name = (case sc_name_gens c name of Some g \<Rightarrow> g | None \<Rightarrow> 0)"

primrec canon :: "('i, 'm) session_cache \<Rightarrow> expr \<Rightarrow> bytes"
  and canon_binding :: "('i, 'm) session_cache \<Rightarrow> with_binding \<Rightarrow> bytes"
  and canon_arg :: "('i, 'm) session_cache \<Rightarrow> arg \<Rightarrow> bytes"
  and canon_value :: "('i, 'm) session_cache \<Rightarrow> arg_value \<Rightarrow> bytes" where
  "canon c (EName name) = (case sc_binding_keys c name of
     Some frozen \<Rightarrow> frozen
   | None \<Rightarrow> ascii ''B('' @ net name @ ascii ''@'' @ dec (sc_global_gen c) @ ascii ''.'' @
       dec (name_gen c name) @ ascii '')'')"
| "canon c (EApp callee args) =
     ascii ''A('' @ canon c callee @ ascii '';'' @ join (ascii '','') (map (canon_arg c) args) @ ascii '')''"
| "canon c (ECompose provider consumer) =
     ascii ''C('' @ canon c provider @ ascii '','' @ canon c consumer @ ascii '')''"
| "canon c (EExtend base layer) =
     ascii ''X('' @ canon c base @ ascii '','' @ canon c layer @ ascii '')''"
| "canon c (EOnly allow body) =
     ascii ''O(['' @ join (ascii '','') (map net allow) @ ascii ''],'' @ canon c body @ ascii '')''"
| "canon c (ERename from to body) =
     ascii ''R('' @ net from @ ascii '','' @ net to @ ascii '','' @ canon c body @ ascii '')''"
| "canon c (EWith bindings body) =
     ascii ''W(['' @ join (ascii '','') (map (canon_binding c) bindings) @ ascii ''],'' @ canon c body @ ascii '')''"
| "canon_binding c (WithBinding provider slot) = net slot @ ascii ''='' @ canon c provider"
| "canon_arg c (AFlag name v) = ascii ''F('' @ net name @ ascii '','' @ canon_value c v @ ascii '')''"
| "canon_arg c (APositional v) = ascii ''P('' @ canon_value c v @ ascii '')''"
| "canon_value c (VWord t) = ascii ''w'' @ net t"
| "canon_value c (VQuoted t) = ascii ''q'' @ net t"
| "canon_value c (VExpr e) = ascii ''e('' @ canon c e @ ascii '')''"


section \<open>The cache\<close>

definition BYTES_MAX_ENTRIES :: nat where "BYTES_MAX_ENTRIES = 16"
definition BYTES_MAX_TOTAL :: nat where "BYTES_MAX_TOTAL = 4 * 1024 * 1024"
definition IMAGES_MAX_ENTRIES :: nat where "IMAGES_MAX_ENTRIES = 4"
definition ARGS_MAX_ENTRIES :: nat where "ARGS_MAX_ENTRIES = 32"

text \<open>
  Removing the first entry with a key, refreshing an entry to the most recent position (last), and
  dropping the oldest entries past a bound: the list operations that the three caches share.
\<close>

fun lru_remove :: "'k \<Rightarrow> ('k \<times> 'v) list \<Rightarrow> ('k \<times> 'v) list" where
  "lru_remove k [] = []"
| "lru_remove k (e # es) = (if fst e = k then es else e # lru_remove k es)"

definition lru_get :: "'k \<Rightarrow> ('k \<times> 'v) list \<Rightarrow> ('v \<times> ('k \<times> 'v) list) option" where
  "lru_get k es = (case find (\<lambda>e. fst e = k) es of
     None \<Rightarrow> None
   | Some e \<Rightarrow> Some (snd e, lru_remove k es @ [e]))"

fun lru_bound :: "nat \<Rightarrow> ('k \<times> 'v) list \<Rightarrow> ('k \<times> 'v) list" where
  "lru_bound n [] = []"
| "lru_bound n (e # es) = (if n < length (e # es) then lru_bound n es else e # es)"

definition bytes_get :: "bytes \<Rightarrow> bytes_cache \<Rightarrow> bytes option \<times> bytes_cache" where
  "bytes_get name bc =
     (if bc_disabled bc then (None, bc)
      else case lru_get name (bc_entries bc) of
        None \<Rightarrow> (None, bc)
      | Some (b, entries) \<Rightarrow> (Some b, bc\<lparr>bc_entries := entries\<rparr>))"

definition bytes_remove :: "bytes \<Rightarrow> bytes_cache \<Rightarrow> bytes_cache exec" where
  "bytes_remove name bc = (case find (\<lambda>e. fst e = name) (bc_entries bc) of
     None \<Rightarrow> Some bc
   | Some e \<Rightarrow> do {
       t \<leftarrow> minus_exec (bc_total bc) (length (snd e));
       Some (bc\<lparr>bc_entries := lru_remove name (bc_entries bc), bc_total := t\<rparr>) })"

text \<open>The eviction loop; \<open>remove(0)\<close> panics on an empty list.\<close>

fun bytes_evict :: "(bytes \<times> bytes) list \<Rightarrow> nat \<Rightarrow> ((bytes \<times> bytes) list \<times> nat) exec" where
  "bytes_evict [] t = (if BYTES_MAX_TOTAL < t then None else Some ([], t))"
| "bytes_evict (e # es) t =
     (if BYTES_MAX_ENTRIES < length (e # es) \<or> BYTES_MAX_TOTAL < t then do {
        t' \<leftarrow> minus_exec t (length (snd e));
        bytes_evict es t' }
      else Some (e # es, t))"

definition bytes_insert :: "bytes \<Rightarrow> bytes \<Rightarrow> bytes_cache \<Rightarrow> bytes_cache exec" where
  "bytes_insert name b bc =
     (if bc_disabled bc \<or> BYTES_MAX_TOTAL < length b then Some bc
      else do {
        bc' \<leftarrow> bytes_remove name bc;
        t \<leftarrow> plus_exec 64 (bc_total bc') (length b);
        (entries, t') \<leftarrow> bytes_evict (bc_entries bc' @ [(name, b)]) t;
        Some (bc'\<lparr>bc_entries := entries, bc_total := t'\<rparr>) })"

definition bytes_clear :: "bytes_cache \<Rightarrow> bytes_cache" where
  "bytes_clear bc = bc\<lparr>bc_entries := [], bc_total := 0\<rparr>"

definition bytes_disable :: "bytes_cache \<Rightarrow> bytes_cache" where
  "bytes_disable bc = (bytes_clear bc)\<lparr>bc_disabled := True\<rparr>"

definition cache_new :: "('i, 'm) session_cache" where
  "cache_new = \<lparr>sc_bytes = \<lparr>bc_entries = [], bc_total = 0, bc_disabled = False\<rparr>,
     sc_images = [], sc_args = [], sc_global_gen = 0,
     sc_name_gens = (\<lambda>_. None), sc_binding_keys = (\<lambda>_. None), sc_next_unique = 0, sc_disabled = False\<rparr>"

definition run_key :: "('i, 'm) session_cache \<Rightarrow> expr \<Rightarrow> bool \<Rightarrow> bytes option" where
  "run_key c e has_environment =
     (if sc_disabled c then None
      else Some (canon c e @ ascii ''|'' @ (if has_environment then ascii ''env'' else ascii ''noenv'')))"

definition record_binding :: "bytes \<Rightarrow> expr \<Rightarrow> ('i, 'm) session_cache \<Rightarrow> ('i, 'm) session_cache exec" where
  "record_binding name e c =
     (if sc_disabled c then do {
        u \<leftarrow> plus_exec 64 (sc_next_unique c) 1;
        Some (c\<lparr>sc_next_unique := u,
          sc_binding_keys := (sc_binding_keys c)(name \<mapsto> ascii ''U('' @ dec u @ ascii '')'')\<rparr>) }
      else Some (c\<lparr>sc_binding_keys := (sc_binding_keys c)(name \<mapsto> canon c e)\<rparr>))"

definition image_get :: "bytes \<Rightarrow> ('i, 'm) session_cache \<Rightarrow> 'i option \<times> ('i, 'm) session_cache" where
  "image_get key c =
     (if sc_disabled c then (None, c)
      else case lru_get key (sc_images c) of
        None \<Rightarrow> (None, c)
      | Some (i, images) \<Rightarrow> (Some i, c\<lparr>sc_images := images\<rparr>))"

definition image_insert :: "bytes \<Rightarrow> 'i \<Rightarrow> ('i, 'm) session_cache \<Rightarrow> ('i, 'm) session_cache" where
  "image_insert key i c =
     (if sc_disabled c then c
      else c\<lparr>sc_images := lru_bound IMAGES_MAX_ENTRIES (lru_remove key (sc_images c) @ [(key, i)])\<rparr>)"

definition args_get :: "bytes \<Rightarrow> ('i, 'm) session_cache \<Rightarrow> 'm option \<times> ('i, 'm) session_cache" where
  "args_get name c =
     (if sc_disabled c then (None, c)
      else case lru_get name (sc_args c) of
        None \<Rightarrow> (None, c)
      | Some (m, args) \<Rightarrow> (Some m, c\<lparr>sc_args := args\<rparr>))"

definition args_insert :: "bytes \<Rightarrow> 'm \<Rightarrow> ('i, 'm) session_cache \<Rightarrow> ('i, 'm) session_cache" where
  "args_insert name m c =
     (if sc_disabled c then c
      else c\<lparr>sc_args := lru_bound ARGS_MAX_ENTRIES (lru_remove name (sc_args c) @ [(name, m)])\<rparr>)"

definition note_bin_write :: "bytes \<Rightarrow> ('i, 'm) session_cache \<Rightarrow> ('i, 'm) session_cache exec" where
  "note_bin_write name c = do {
     g \<leftarrow> plus_exec 64 (name_gen c name) 1;
     bc \<leftarrow> bytes_remove name (sc_bytes c);
     Some (c\<lparr>sc_name_gens := (sc_name_gens c)(name \<mapsto> g), sc_bytes := bc,
       sc_args := lru_remove name (sc_args c)\<rparr>) }"

definition note_fs_run :: "('i, 'm) session_cache \<Rightarrow> ('i, 'm) session_cache exec" where
  "note_fs_run c = do {
     g \<leftarrow> plus_exec 64 (sc_global_gen c) 1;
     Some (c\<lparr>sc_global_gen := g, sc_bytes := bytes_clear (sc_bytes c), sc_args := []\<rparr>) }"

definition cache_disable :: "('i, 'm) session_cache \<Rightarrow> ('i, 'm) session_cache" where
  "cache_disable c = c\<lparr>sc_disabled := True, sc_images := [], sc_args := [],
     sc_bytes := bytes_disable (sc_bytes c)\<rparr>"



section \<open>What a key stands for\<close>

text \<open>
  The composition an expression denotes once its names are resolved: bindings replaced by what they
  were bound to, program names by leaves.
\<close>

datatype 'l ktree =
    KLeaf 'l
  | KUnique nat
  | KApp "'l ktree" "'l karg list"
  | KCompose "'l ktree" "'l ktree"
  | KExtend "'l ktree" "'l ktree"
  | KOnly "bytes list" "'l ktree"
  | KRename bytes bytes "'l ktree"
  | KWith "'l kbind list" "'l ktree"
and 'l kbind = KBind "'l ktree" bytes
and 'l karg = KFlag bytes "'l kvalue" | KPos "'l kvalue"
and 'l kvalue = KWord bytes | KQuoted bytes | KExpr "'l ktree"

primrec resolve :: "(bytes \<Rightarrow> 'l ktree) \<Rightarrow> expr \<Rightarrow> 'l ktree"
  and resolve_binding :: "(bytes \<Rightarrow> 'l ktree) \<Rightarrow> with_binding \<Rightarrow> 'l kbind"
  and resolve_arg :: "(bytes \<Rightarrow> 'l ktree) \<Rightarrow> arg \<Rightarrow> 'l karg"
  and resolve_value :: "(bytes \<Rightarrow> 'l ktree) \<Rightarrow> arg_value \<Rightarrow> 'l kvalue" where
  "resolve \<sigma> (EName n) = \<sigma> n"
| "resolve \<sigma> (EApp e args) = KApp (resolve \<sigma> e) (map (resolve_arg \<sigma>) args)"
| "resolve \<sigma> (ECompose a b) = KCompose (resolve \<sigma> a) (resolve \<sigma> b)"
| "resolve \<sigma> (EExtend a b) = KExtend (resolve \<sigma> a) (resolve \<sigma> b)"
| "resolve \<sigma> (EOnly allow e) = KOnly allow (resolve \<sigma> e)"
| "resolve \<sigma> (ERename x y e) = KRename x y (resolve \<sigma> e)"
| "resolve \<sigma> (EWith bs e) = KWith (map (resolve_binding \<sigma>) bs) (resolve \<sigma> e)"
| "resolve_binding \<sigma> (WithBinding e slot) = KBind (resolve \<sigma> e) slot"
| "resolve_arg \<sigma> (AFlag n v) = KFlag n (resolve_value \<sigma> v)"
| "resolve_arg \<sigma> (APositional v) = KPos (resolve_value \<sigma> v)"
| "resolve_value \<sigma> (VWord t) = KWord t"
| "resolve_value \<sigma> (VQuoted t) = KQuoted t"
| "resolve_value \<sigma> (VExpr e) = KExpr (resolve \<sigma> e)"

text \<open>A leaf of a key: the name with the global and the per-name generation.\<close>

type_synonym leaf = "bytes \<times> nat \<times> nat"

primrec kprint :: "leaf ktree \<Rightarrow> bytes"
  and kprint_binding :: "leaf kbind \<Rightarrow> bytes"
  and kprint_arg :: "leaf karg \<Rightarrow> bytes"
  and kprint_value :: "leaf kvalue \<Rightarrow> bytes" where
  "kprint (KLeaf l) = (case l of (name, g, n) \<Rightarrow>
     ascii ''B('' @ net name @ ascii ''@'' @ dec g @ ascii ''.'' @ dec n @ ascii '')'')"
| "kprint (KUnique u) = ascii ''U('' @ dec u @ ascii '')''"
| "kprint (KApp t args) =
     ascii ''A('' @ kprint t @ ascii '';'' @ join (ascii '','') (map kprint_arg args) @ ascii '')''"
| "kprint (KCompose a b) = ascii ''C('' @ kprint a @ ascii '','' @ kprint b @ ascii '')''"
| "kprint (KExtend a b) = ascii ''X('' @ kprint a @ ascii '','' @ kprint b @ ascii '')''"
| "kprint (KOnly allow t) =
     ascii ''O(['' @ join (ascii '','') (map net allow) @ ascii ''],'' @ kprint t @ ascii '')''"
| "kprint (KRename x y t) =
     ascii ''R('' @ net x @ ascii '','' @ net y @ ascii '','' @ kprint t @ ascii '')''"
| "kprint (KWith bs t) =
     ascii ''W(['' @ join (ascii '','') (map kprint_binding bs) @ ascii ''],'' @ kprint t @ ascii '')''"
| "kprint_binding (KBind t slot) = net slot @ ascii ''='' @ kprint t"
| "kprint_arg (KFlag name v) = ascii ''F('' @ net name @ ascii '','' @ kprint_value v @ ascii '')''"
| "kprint_arg (KPos v) = ascii ''P('' @ kprint_value v @ ascii '')''"
| "kprint_value (KWord t) = ascii ''w'' @ net t"
| "kprint_value (KQuoted t) = ascii ''q'' @ net t"
| "kprint_value (KExpr t) = ascii ''e('' @ kprint t @ ascii '')''"

definition key_subst :: "('i, 'm) session_cache \<Rightarrow> (bytes \<Rightarrow> leaf ktree option) \<Rightarrow> bytes \<Rightarrow> leaf ktree" where
  "key_subst c kbind n = (case kbind n of
     Some t \<Rightarrow> t | None \<Rightarrow> KLeaf (n, sc_global_gen c, name_gen c n))"

lemma canon_prints:
  assumes "\<And>n. sc_binding_keys c n = map_option kprint (kbind n)"
  shows "canon c e = kprint (resolve (key_subst c kbind) e)"
    and "canon_binding c b = kprint_binding (resolve_binding (key_subst c kbind) b)"
    and "canon_arg c a = kprint_arg (resolve_arg (key_subst c kbind) a)"
    and "canon_value c v = kprint_value (resolve_value (key_subst c kbind) v)"
proof (induction e and b and a and v)
  case (EName n)
  then show ?case by (cases "kbind n") (simp_all add: assms key_subst_def)
qed (simp_all add: comp_def cong: map_cong)


section \<open>Keys are unambiguous\<close>

definition is_digit :: "byte \<Rightarrow> bool" where
  "is_digit b \<longleftrightarrow> 0x30 \<le> b \<and> b \<le> 0x39"

lemma digit_value: "d < 10 \<Longrightarrow> unat (of_nat (0x30 + d) :: byte) = 0x30 + d"
  by (simp only: unat_of_nat) simp

lemma digit_is_digit: "d < 10 \<Longrightarrow> is_digit (of_nat (0x30 + d))"
  using digit_value [of d] by (simp add: is_digit_def word_le_nat_alt del: of_nat_add)

lemma digit_inj: "d < 10 \<Longrightarrow> e < 10 \<Longrightarrow> (of_nat (0x30 + d) :: byte) = of_nat (0x30 + e) \<Longrightarrow> d = e"
  using digit_value [of d] digit_value [of e] by (metis add_left_cancel)

lemma dec_digits: "b \<in> set (dec n) \<Longrightarrow> is_digit b"
  by (induction n rule: dec.induct) (subst (asm) dec.simps, auto split: if_splits intro: digit_is_digit simp del: of_nat_add)

lemma dec_nonempty [simp]: "dec n \<noteq> []" "[] \<noteq> dec n"
  by (subst dec.simps, simp)+

lemma dec_inj: "dec m = dec n \<Longrightarrow> m = n"
proof (induction m arbitrary: n rule: dec.induct)
  case (1 m)
  show ?case
  proof (cases "m < 10")
    case True
    then have m: "dec m = [of_nat (0x30 + m)]" by (subst dec.simps) simp
    then have "n < 10"
      using "1.prems" by (subst (asm) dec.simps [of n]) (auto split: if_splits simp del: of_nat_add)
    then have "dec n = [of_nat (0x30 + n)]" by (subst dec.simps) simp
    with m "1.prems" digit_inj True \<open>n < 10\<close> show ?thesis by (metis list.inject)
  next
    case False
    then have m: "dec m = dec (m div 10) @ [of_nat (0x30 + m mod 10)]" by (subst dec.simps) simp
    then have "\<not> n < 10"
      using "1.prems" by (auto simp: dec.simps [of n])
    then have n: "dec n = dec (n div 10) @ [of_nat (0x30 + n mod 10)]" by (subst dec.simps) simp
    from m n "1.prems" have "dec (m div 10) = dec (n div 10)"
      "(of_nat (0x30 + m mod 10) :: byte) = of_nat (0x30 + n mod 10)" by (simp_all del: of_nat_add)
    then have "m div 10 = n div 10" "m mod 10 = n mod 10"
      using "1.IH" [OF False] digit_inj [of "m mod 10" "n mod 10"] by auto
    then show ?thesis by (metis div_mult_mod_eq)
  qed
qed

lemma dec_sep:
  assumes "dec m @ c # r = dec n @ d # r'" and "\<not> is_digit c" and "\<not> is_digit d"
  shows "m = n \<and> c = d \<and> r = r'"
proof -
  have tw: "takeWhile is_digit (dec k @ x # y) = dec k" if "\<not> is_digit x" for k x y
    using that dec_digits by (simp add: takeWhile_append)
  from assms tw have "dec m = dec n" by metis
  with assms(1) dec_inj show ?thesis by auto
qed

lemma net_sep:
  assumes "net x @ r = net y @ r'"
  shows "x = y \<and> r = r'"
proof -
  have "\<not> is_digit (0x3A :: byte)" by (simp add: is_digit_def)
  with dec_sep [of "length x" "0x3A" "x @ r" "length y" "0x3A" "y @ r'"] assms
  have "length x = length y" "x @ r = y @ r'" by (simp_all add: net_def)
  then show ?thesis by simp
qed


text \<open>
  Joined items can be taken apart again when every item can, and none begins with the closing byte.
\<close>

lemma join_sep:
  assumes "\<And>x y r r'. x \<in> set xs \<Longrightarrow> pr x @ r = pr y @ r' \<Longrightarrow> x = y \<and> r = r'"
    and "\<And>y. pr y \<noteq> [] \<and> hd (pr y) \<noteq> t" and "t \<noteq> s"
    and "join [s] (map pr xs) @ t # r = join [s] (map pr ys) @ t # r'"
  shows "xs = ys \<and> r = r'"
  using assms(1,4)
proof (induction xs arbitrary: ys)
  case Nil
  show ?case
  proof (cases ys)
    case (Cons y zs)
    then have "hd (t # r) = hd (pr y @ (if zs = [] then [] else s # join [s] (map pr zs)) @ t # r')"
      using Nil(2) by (cases zs) auto
    then show ?thesis using assms(2) [of y] by (simp add: hd_append)
  qed (use Nil in simp)
next
  case (Cons x xs)
  have jx: "join [s] (map pr (x # xs)) @ t # r =
      pr x @ (if xs = [] then t # r else s # join [s] (map pr xs) @ t # r)" by (cases xs) auto
  show ?case
  proof (cases ys)
    case Nil
    then have "pr x @ (if xs = [] then t # r else s # join [s] (map pr xs) @ t # r) = t # r'"
      using Cons.prems(2) jx by (simp only: list.map join.simps append_Nil)
    then have "hd (pr x @ (if xs = [] then t # r else s # join [s] (map pr xs) @ t # r)) = t"
      by (metis list.sel(1))
    then show ?thesis using assms(2) [of x] by (simp add: hd_append)
  next
    case ys: (Cons y zs)
    have jy: "join [s] (map pr ys) @ t # r' =
        pr y @ (if zs = [] then t # r' else s # join [s] (map pr zs) @ t # r')"
      using ys by (cases zs) auto
    have "x = y \<and> (if xs = [] then t # r else s # join [s] (map pr xs) @ t # r) =
       (if zs = [] then t # r' else s # join [s] (map pr zs) @ t # r')"
      by (rule Cons.prems(1)) (use Cons.prems(2) jx jy in simp_all)
    then have xy: "x = y" and e: "(if xs = [] then t # r else s # join [s] (map pr xs) @ t # r) =
       (if zs = [] then t # r' else s # join [s] (map pr zs) @ t # r')" by blast+
    have IH: "xs = zs \<and> r = r'" if "join [s] (map pr xs) @ t # r = join [s] (map pr zs) @ t # r'"
      by (rule Cons.IH [OF _ that]) (rule Cons.prems(1), simp_all)
    show ?thesis
    proof (cases "xs = [] \<or> zs = []")
      case True
      with e assms(3) have "xs = [] \<and> zs = [] \<and> r = r'" by (auto split: if_splits)
      with xy ys show ?thesis by simp
    next
      case False
      with e have "join [s] (map pr xs) @ t # r = join [s] (map pr zs) @ t # r'" by simp
      with IH xy ys show ?thesis by blast
    qed
  qed
qed

lemma net_begins: "net x \<noteq> []" "is_digit (hd (net x))"
  using dec_digits [of "hd (dec (length x))" "length x"] by (simp_all add: net_def)

lemma kprint_begins:
  "kprint_binding b \<noteq> [] \<and> hd (kprint_binding b) \<noteq> 0x5D"
  "kprint_arg a \<noteq> [] \<and> hd (kprint_arg a) \<noteq> 0x29"
proof -
  show "kprint_binding b \<noteq> [] \<and> hd (kprint_binding b) \<noteq> 0x5D"
  proof (cases b)
    case (KBind t slot)
    have "hd (net slot) \<noteq> 0x5D" using net_begins(2) [of slot] by (auto simp: is_digit_def)
    with KBind show ?thesis using net_begins(1) by (simp add: hd_append)
  qed
  show "kprint_arg a \<noteq> [] \<and> hd (kprint_arg a) \<noteq> 0x29" by (cases a) (simp_all add: ascii_def)
qed

lemmas kprint_simps = kprint.simps kprint_binding.simps kprint_arg.simps kprint_value.simps ascii_def

lemma not_digits: "\<not> is_digit 0x40" "\<not> is_digit 0x2E" "\<not> is_digit 0x29"
  by (simp_all add: is_digit_def)

lemma kprint_sep:
  "kprint t @ r = kprint t' @ r' \<Longrightarrow> t = t' \<and> r = r'"
  "kprint_binding b @ r = kprint_binding b' @ r' \<Longrightarrow> b = b' \<and> r = r'"
  "kprint_arg a @ r = kprint_arg a' @ r' \<Longrightarrow> a = a' \<and> r = r'"
  "kprint_value v @ r = kprint_value v' @ r' \<Longrightarrow> v = v' \<and> r = r'"
proof (induction t and b and a and v arbitrary: t' r r' and b' r r' and a' r r' and v' r r')
  case (KLeaf l)
  then show ?case
    by (cases l; cases t') (auto simp: kprint_simps dest!: net_sep dec_sep simp: not_digits)
next
  case (KUnique u)
  then show ?case by (cases t') (auto simp: kprint_simps not_digits dest!: dec_sep)
next
  case (KApp t args)
  obtain u args' where t': "t' = KApp u args'" using KApp.prems by (cases t') (auto simp: kprint_simps)
  with KApp.prems have e: "kprint t @ 0x3B # join [0x2C] (map kprint_arg args) @ 0x29 # r =
      kprint u @ 0x3B # join [0x2C] (map kprint_arg args') @ 0x29 # r'" by (simp add: kprint_simps)
  from KApp.IH(1) [OF e] have tu: "t = u" and
    j: "join [0x2C] (map kprint_arg args) @ 0x29 # r = join [0x2C] (map kprint_arg args') @ 0x29 # r'"
    by simp_all
  have "args = args' \<and> r = r'"
    by (rule join_sep [OF _ kprint_begins(2) _ j]) (use KApp.IH(2) in blast, simp)
  with tu t' show ?case by simp
next
  case (KCompose a b)
  obtain a' b' where t': "t' = KCompose a' b'" using KCompose.prems by (cases t') (auto simp: kprint_simps)
  with KCompose.prems have e: "kprint a @ 0x2C # kprint b @ 0x29 # r = kprint a' @ 0x2C # kprint b' @ 0x29 # r'"
    by (simp add: kprint_simps)
  from KCompose.IH(1) [OF e] have "a = a'" "kprint b @ 0x29 # r = kprint b' @ 0x29 # r'" by simp_all
  with KCompose.IH(2) t' show ?case by blast
next
  case (KExtend a b)
  obtain a' b' where t': "t' = KExtend a' b'" using KExtend.prems by (cases t') (auto simp: kprint_simps)
  with KExtend.prems have e: "kprint a @ 0x2C # kprint b @ 0x29 # r = kprint a' @ 0x2C # kprint b' @ 0x29 # r'"
    by (simp add: kprint_simps)
  from KExtend.IH(1) [OF e] have "a = a'" "kprint b @ 0x29 # r = kprint b' @ 0x29 # r'" by simp_all
  with KExtend.IH(2) t' show ?case by blast
next
  case (KOnly allow t)
  obtain u allow' where t': "t' = KOnly allow' u" using KOnly.prems by (cases t') (auto simp: kprint_simps)
  then have j: "join [0x2C] (map net allow) @ 0x5D # (0x2C # kprint t @ 0x29 # r) =
      join [0x2C] (map net allow') @ 0x5D # (0x2C # kprint u @ 0x29 # r')"
    using KOnly.prems by (simp add: kprint_simps)
  have h: "net y \<noteq> [] \<and> hd (net y) \<noteq> 0x5D" for y
    using net_begins [of y] by (auto simp: is_digit_def)
  have "allow = allow' \<and> 0x2C # kprint t @ 0x29 # r = 0x2C # kprint u @ 0x29 # r'"
    by (rule join_sep [OF net_sep h _ j]) simp_all
  then have a: "allow = allow'" and e: "kprint t @ 0x29 # r = kprint u @ 0x29 # r'" by simp_all
  from KOnly.IH [OF e] a t' show ?case by simp
next
  case (KRename x y t)
  obtain x' y' u where t': "t' = KRename x' y' u" using KRename.prems by (cases t') (auto simp: kprint_simps)
  then have "net x @ 0x2C # net y @ 0x2C # kprint t @ 0x29 # r =
      net x' @ 0x2C # net y' @ 0x2C # kprint u @ 0x29 # r'"
    using KRename.prems by (simp add: kprint_simps)
  from net_sep [OF this] have x: "x = x'" and y: "net y @ 0x2C # kprint t @ 0x29 # r =
      net y' @ 0x2C # kprint u @ 0x29 # r'" by simp_all
  from net_sep [OF y] have y': "y = y'" and e: "kprint t @ 0x29 # r = kprint u @ 0x29 # r'" by simp_all
  from KRename.IH [OF e] x y' t' show ?case by simp
next
  case (KWith bs t)
  obtain u bs' where t': "t' = KWith bs' u" using KWith.prems by (cases t') (auto simp: kprint_simps)
  then have j: "join [0x2C] (map kprint_binding bs) @ 0x5D # (0x2C # kprint t @ 0x29 # r) =
      join [0x2C] (map kprint_binding bs') @ 0x5D # (0x2C # kprint u @ 0x29 # r')"
    using KWith.prems by (simp add: kprint_simps)
  have "bs = bs' \<and> 0x2C # kprint t @ 0x29 # r = 0x2C # kprint u @ 0x29 # r'"
    by (rule join_sep [OF _ kprint_begins(1) _ j]) (use KWith.IH(1) in blast, simp)
  then have b: "bs = bs'" and e: "kprint t @ 0x29 # r = kprint u @ 0x29 # r'" by simp_all
  from KWith.IH(2) [OF e] b t' show ?case by simp
next
  case (KBind t slot)
  obtain u slot' where b': "b' = KBind u slot'" by (cases b')
  with KBind.prems have "net slot @ 0x3D # kprint t @ r = net slot' @ 0x3D # kprint u @ r'"
    by (simp add: kprint_simps)
  from net_sep [OF this] have x: "slot = slot'" and e: "kprint t @ r = kprint u @ r'" by simp_all
  from KBind.IH [OF e] x b' show ?case by simp
next
  case (KFlag name v)
  obtain name' u where a': "a' = KFlag name' u" using KFlag.prems by (cases a') (auto simp: kprint_simps)
  with KFlag.prems have "net name @ 0x2C # kprint_value v @ 0x29 # r = net name' @ 0x2C # kprint_value u @ 0x29 # r'"
    by (simp add: kprint_simps)
  from net_sep [OF this] have x: "name = name'"
    and e: "kprint_value v @ 0x29 # r = kprint_value u @ 0x29 # r'" by simp_all
  from KFlag.IH [OF e] x a' show ?case by simp
next
  case (KPos v)
  obtain u where a': "a' = KPos u" using KPos.prems by (cases a') (auto simp: kprint_simps)
  with KPos.prems have e: "kprint_value v @ 0x29 # r = kprint_value u @ 0x29 # r'" by (simp add: kprint_simps)
  from KPos.IH [OF e] a' show ?case by simp
next
  case (KWord x)
  then show ?case by (cases v') (auto simp: kprint_simps dest: net_sep)
next
  case (KQuoted x)
  then show ?case by (cases v') (auto simp: kprint_simps dest: net_sep)
next
  case (KExpr t)
  obtain u where v': "v' = KExpr u" using KExpr.prems by (cases v') (auto simp: kprint_simps)
  with KExpr.prems have e: "kprint t @ 0x29 # r = kprint u @ 0x29 # r'" by (simp add: kprint_simps)
  from KExpr.IH [OF e] v' show ?case by simp
qed



section \<open>The session around the cache\<close>

text \<open>
  The world of a session: the cache, what the names of \<open>/bin\<close> hold, and what each binding was bound
  to when it was made. The image a composition compiles to (with its arguments and its fs flag), and
  what the completion memo keeps of a program, are functions of the resolved contents.
\<close>

record ('i, 'm) world =
  w_cache :: "('i, 'm) session_cache"
  w_store :: "bytes \<Rightarrow> bytes option"
  w_bound :: "bytes \<Rightarrow> bytes option ktree option"

definition inline_expr :: "('i, 'm) world \<Rightarrow> expr \<Rightarrow> bytes option ktree" where
  "inline_expr w e = resolve (\<lambda>n. case w_bound w n of
     Some t \<Rightarrow> t | None \<Rightarrow> KLeaf (w_store w n)) e"

definition world_init :: "(bytes \<Rightarrow> bytes option) \<Rightarrow> ('i, 'm) world" where
  "world_init store = \<lparr>w_cache = cache_new, w_store = store, w_bound = (\<lambda>_. None)\<rparr>"

text \<open>
  One thing a session does: \<open>run_program\<close> with a hit or a miss (an image that was compiled and spawned
  is remembered), a program that holds the filesystem having run (it may have rewritten \<open>/bin\<close>),
  \<open>lookup\<close> reading a program, \<open>arg_hints\<close> memoizing one, \<open>save\<close>, \<open>let\<close>, \<open>detach\<close> of a child that
  holds the filesystem, and what that child does from then on.
\<close>

inductive session_step ::
    "(bytes option ktree \<Rightarrow> bool \<Rightarrow> 'i) \<Rightarrow> (bytes option \<Rightarrow> 'm) \<Rightarrow> bool \<Rightarrow>
     ('i, 'm) world \<Rightarrow> ('i, 'm) world \<Rightarrow> bool"
  for build memo env where
  run_hit: "run_key (w_cache w) e env = Some k \<Longrightarrow> image_get k (w_cache w) = (Some i, c) \<Longrightarrow>
     session_step build memo env w (w\<lparr>w_cache := c\<rparr>)"
| run_miss: "run_key (w_cache w) e env = Some k \<Longrightarrow> image_get k (w_cache w) = (None, c) \<Longrightarrow>
     session_step build memo env w (w\<lparr>w_cache := image_insert k (build (inline_expr w e) env) c\<rparr>)"
| fs_run: "note_fs_run (w_cache w) = Some c \<Longrightarrow>
     session_step build memo env w (w\<lparr>w_cache := c, w_store := store\<rparr>)"
| lookup: "bytes_get n (sc_bytes (w_cache w)) = (None, bc) \<Longrightarrow> w_store w n = Some b \<Longrightarrow>
     bytes_insert n b bc = Some bc' \<Longrightarrow>
     session_step build memo env w (w\<lparr>w_cache := (w_cache w)\<lparr>sc_bytes := bc'\<rparr>\<rparr>)"
| lookup_hit: "bytes_get n (sc_bytes (w_cache w)) = (Some b, bc) \<Longrightarrow>
     session_step build memo env w (w\<lparr>w_cache := (w_cache w)\<lparr>sc_bytes := bc\<rparr>\<rparr>)"
| hints: "args_get n (w_cache w) = (None, c) \<Longrightarrow>
     session_step build memo env w (w\<lparr>w_cache := args_insert n (memo (w_store w n)) c\<rparr>)"
| hints_hit: "args_get n (w_cache w) = (Some m, c) \<Longrightarrow>
     session_step build memo env w (w\<lparr>w_cache := c\<rparr>)"
| save: "note_bin_write n (w_cache w) = Some c \<Longrightarrow>
     session_step build memo env w (w\<lparr>w_cache := c, w_store := (w_store w)(n \<mapsto> b)\<rparr>)"
| let_binding: "record_binding n e (w_cache w) = Some c \<Longrightarrow>
     session_step build memo env w (w\<lparr>w_cache := c, w_bound := (w_bound w)(n \<mapsto> inline_expr w e)\<rparr>)"
| detach_fs: "session_step build memo env w (w\<lparr>w_cache := cache_disable (w_cache w)\<rparr>)"
| service: "sc_disabled (w_cache w) \<Longrightarrow>
     session_step build memo env w (w\<lparr>w_store := store\<rparr>)"

inductive session_reach ::
    "(bytes option ktree \<Rightarrow> bool \<Rightarrow> 'i) \<Rightarrow> (bytes option \<Rightarrow> 'm) \<Rightarrow> bool \<Rightarrow> ('i, 'm) world \<Rightarrow> bool"
  for build memo env where
  reach_init: "session_reach build memo env (world_init store)"
| reach_step: "session_reach build memo env w \<Longrightarrow> session_step build memo env w w' \<Longrightarrow>
     session_reach build memo env w'"


section \<open>The list operations\<close>

lemma lru_remove_subset: "set (lru_remove k es) \<subseteq> set es"
  by (induction es) auto

lemma lru_remove_length: "length (lru_remove k es) \<le> length es"
  by (induction es) auto

lemma lru_remove_fst: "set (map fst (lru_remove k es)) \<subseteq> set (map fst es)"
  using lru_remove_subset [of k es] by auto

lemma lru_remove_distinct:
  assumes "distinct (map fst es)"
  shows "distinct (map fst (lru_remove k es))" and "k \<notin> set (map fst (lru_remove k es))"
proof -
  have "distinct (map fst (lru_remove k es)) \<and> k \<notin> set (map fst (lru_remove k es))"
    using assms
  proof (induction es)
    case (Cons e es)
    then have d: "distinct (map fst es)" and n: "fst e \<notin> set (map fst es)" by simp_all
    from n lru_remove_fst [of k es] have "fst e \<notin> set (map fst (lru_remove k es))" by blast
    with Cons.IH [OF d] d n show ?case by auto
  qed simp
  then show "distinct (map fst (lru_remove k es))" and "k \<notin> set (map fst (lru_remove k es))" by blast+
qed

lemma lru_get_distinct:
  assumes "lru_get k es = Some (v, es')" and "distinct (map fst es)"
  shows "distinct (map fst es')"
proof -
  from assms(1) obtain e where e: "find (\<lambda>e. fst e = k) es = Some e" "es' = lru_remove k es @ [e]"
    by (auto simp: lru_get_def split: option.splits)
  have "fst e = k" using find_SomeD [OF e(1)] by simp
  with e(2) lru_remove_distinct [OF assms(2), of k] show ?thesis by simp
qed

lemma lru_get_Some:
  assumes "lru_get k es = Some (v, es')"
  shows "(k, v) \<in> set es \<and> set es' \<subseteq> set es \<and> length es' = length es"
proof -
  from assms obtain e where e: "find (\<lambda>e. fst e = k) es = Some e" "v = snd e" "es' = lru_remove k es @ [e]"
    by (auto simp: lru_get_def split: option.splits)
  have "e \<in> set es" "fst e = k" using find_SomeD [OF e(1)] by simp_all
  moreover have "length (lru_remove k es) + 1 = length es"
    using \<open>e \<in> set es\<close> \<open>fst e = k\<close> by (induction es) auto
  ultimately show ?thesis using e(2,3) lru_remove_subset [of k es] by auto
qed

lemma lru_bound_spec: "length (lru_bound n es) \<le> n \<and> set (lru_bound n es) \<subseteq> set es"
  by (induction es) auto

lemma lru_bound_distinct: "distinct (map fst es) \<Longrightarrow> distinct (map fst (lru_bound n es))"
  by (induction es) auto

text \<open>What holds of the bytes cache: its size is counted and its bounds hold.\<close>

abbreviation total_size :: "(bytes \<times> bytes) list \<Rightarrow> nat" where
  "total_size es \<equiv> (\<Sum>e\<leftarrow>es. length (snd e))"

definition bytes_ok :: "bytes_cache \<Rightarrow> bool" where
  "bytes_ok bc \<longleftrightarrow> bc_total bc = total_size (bc_entries bc) \<and>
     length (bc_entries bc) \<le> BYTES_MAX_ENTRIES \<and> bc_total bc \<le> BYTES_MAX_TOTAL \<and>
     distinct (map fst (bc_entries bc))"

lemma lru_remove_sum:
  "find (\<lambda>e. fst e = k) es = Some e \<Longrightarrow>
   total_size (lru_remove k es) + length (snd e) = total_size es"
  by (induction es) (auto split: if_splits)

lemma bytes_remove_ok:
  assumes "bytes_ok bc"
  shows "\<exists>bc'. bytes_remove n bc = Some bc' \<and> bytes_ok bc' \<and> set (bc_entries bc') \<subseteq> set (bc_entries bc) \<and>
    n \<notin> fst ` set (bc_entries bc') \<and> bc_disabled bc' = bc_disabled bc"
proof (cases "find (\<lambda>e. fst e = n) (bc_entries bc)")
  case None
  then have "n \<notin> fst ` set (bc_entries bc)" by (auto simp: find_None_iff)
  with None assms show ?thesis by (simp add: bytes_remove_def)
next
  case (Some e)
  from lru_remove_sum [OF Some] assms have
    "bc_total bc = total_size (lru_remove n (bc_entries bc)) + length (snd e)"
    by (simp add: bytes_ok_def)
  moreover have "distinct (map fst (bc_entries bc))" using assms by (simp add: bytes_ok_def)
  note lru_remove_distinct [OF this, of n]
  ultimately show ?thesis
    using Some assms lru_remove_length [of n "bc_entries bc"] lru_remove_subset [of n "bc_entries bc"]
    by (auto simp: bytes_remove_def bytes_ok_def minus_exec_def)
qed

lemma bytes_evict_ok:
  assumes "t = total_size es" and "distinct (map fst es)"
  shows "\<exists>es' t'. bytes_evict es t = Some (es', t') \<and> t' = total_size es' \<and>
    length es' \<le> BYTES_MAX_ENTRIES \<and> t' \<le> BYTES_MAX_TOTAL \<and> set es' \<subseteq> set es \<and>
    distinct (map fst es')"
  using assms
proof (induction es arbitrary: t)
  case Nil
  then show ?case by (simp add: BYTES_MAX_TOTAL_def)
next
  case (Cons e es)
  then have "t - length (snd e) = total_size es" by simp
  from Cons.IH [OF this] Cons.prems show ?case by (auto simp: minus_exec_def)
qed

lemma bytes_insert_ok:
  assumes "bytes_ok bc"
  shows "\<exists>bc'. bytes_insert n b bc = Some bc' \<and> bytes_ok bc' \<and>
    set (bc_entries bc') \<subseteq> insert (n, b) (set (bc_entries bc)) \<and> bc_disabled bc' = bc_disabled bc"
proof (cases "bc_disabled bc \<or> BYTES_MAX_TOTAL < length b")
  case True
  with assms show ?thesis by (auto simp: bytes_insert_def)
next
  case False
  from bytes_remove_ok [OF assms] obtain bc1 where r: "bytes_remove n bc = Some bc1" "bytes_ok bc1"
    "set (bc_entries bc1) \<subseteq> set (bc_entries bc)" "bc_disabled bc1 = bc_disabled bc" "n \<notin> fst ` set (bc_entries bc1)" by blast
  have p: "plus_exec 64 (bc_total bc1) (length b) = Some (bc_total bc1 + length b)"
    using False r(2) by (simp add: bytes_ok_def BYTES_MAX_TOTAL_def)
  have "bc_total bc1 + length b = total_size (bc_entries bc1 @ [(n, b)])"
    using r(2) by (simp add: bytes_ok_def)
  moreover have "distinct (map fst (bc_entries bc1 @ [(n, b)]))"
    using r(2,5) by (simp add: bytes_ok_def)
  note bytes_evict_ok [OF calculation this]
  then obtain es t where
    e: "bytes_evict (bc_entries bc1 @ [(n, b)]) (bc_total bc1 + length b) = Some (es, t)"
    and es: "t = total_size es" "length es \<le> BYTES_MAX_ENTRIES" "t \<le> BYTES_MAX_TOTAL"
    "set es \<subseteq> set (bc_entries bc1 @ [(n, b)])" "distinct (map fst es)"
    by blast
  have "bytes_insert n b bc = Some (bc1\<lparr>bc_entries := es, bc_total := t\<rparr>)"
    using False unfolding bytes_insert_def r(1) by (simp del: plus_exec_Some add: p e)
  with es r(3,4) show ?thesis by (auto simp: bytes_ok_def)
qed



section \<open>No hit is stale\<close>

lemma map_resolve:
  "map_ktree f (resolve \<sigma> e) = resolve (map_ktree f \<circ> \<sigma>) e"
  "map_kbind f (resolve_binding \<sigma> b) = resolve_binding (map_ktree f \<circ> \<sigma>) b"
  "map_karg f (resolve_arg \<sigma> a) = resolve_arg (map_ktree f \<circ> \<sigma>) a"
  "map_kvalue f (resolve_value \<sigma> v) = resolve_value (map_ktree f \<circ> \<sigma>) v"
  by (induction e and b and a and v) (simp_all add: comp_def)

lemma resolve_leaves:
  "set_ktree (resolve \<sigma> e) \<subseteq> (\<Union>n. set_ktree (\<sigma> n))"
  "set_kbind (resolve_binding \<sigma> b) \<subseteq> (\<Union>n. set_ktree (\<sigma> n))"
  "set_karg (resolve_arg \<sigma> a) \<subseteq> (\<Union>n. set_ktree (\<sigma> n))"
  "set_kvalue (resolve_value \<sigma> v) \<subseteq> (\<Union>n. set_ktree (\<sigma> n))"
  by (induction e and b and a and v) (simp_all, blast+)

text \<open>A tree whose leaves were read at generations that have been.\<close>

definition seen :: "('i, 'm) session_cache \<Rightarrow> leaf ktree \<Rightarrow> bool" where
  "seen c t \<longleftrightarrow> (\<forall>(n, g, k) \<in> set_ktree t. g \<le> sc_global_gen c \<and> k \<le> name_gen c n)"

definition env_suffix :: "bool \<Rightarrow> bytes" where
  "env_suffix env = ascii ''|'' @ (if env then ascii ''env'' else ascii ''noenv'')"

text \<open>
  The history \<open>H\<close> says what a name held at each of its generations; every key was printed from a tree
  whose contents under \<open>H\<close> are those its image was built from.
\<close>

definition session_inv ::
    "(bytes option ktree \<Rightarrow> bool \<Rightarrow> 'i) \<Rightarrow> (bytes option \<Rightarrow> 'm) \<Rightarrow> bool \<Rightarrow>
     (leaf \<Rightarrow> bytes option) \<Rightarrow> (bytes \<Rightarrow> leaf ktree option) \<Rightarrow> ('i, 'm) world \<Rightarrow> bool" where
  "session_inv build memo env H kbind w \<longleftrightarrow> (let c = w_cache w in
     (\<forall>n. sc_binding_keys c n = map_option kprint (kbind n)) \<and>
     (\<forall>n. w_bound w n = map_option (map_ktree H) (kbind n)) \<and>
     (\<forall>n t. kbind n = Some t \<longrightarrow> seen c t) \<and>
     (\<forall>n. H (n, sc_global_gen c, name_gen c n) = w_store w n) \<and>
     (\<forall>(k, i) \<in> set (sc_images c). \<exists>t. k = kprint t @ env_suffix env \<and> seen c t \<and>
        i = build (map_ktree H t) env) \<and>
     (\<forall>(n, b) \<in> set (bc_entries (sc_bytes c)). w_store w n = Some b) \<and>
     (\<forall>(n, m) \<in> set (sc_args c). m = memo (w_store w n)))"

definition cache_bounds :: "('i, 'm) session_cache \<Rightarrow> bool" where
  "cache_bounds c \<longleftrightarrow> bytes_ok (sc_bytes c) \<and> length (sc_images c) \<le> IMAGES_MAX_ENTRIES \<and>
     length (sc_args c) \<le> ARGS_MAX_ENTRIES \<and> distinct (map fst (sc_args c)) \<and>
     (sc_disabled c \<longrightarrow> bc_disabled (sc_bytes c) \<and> bc_entries (sc_bytes c) = [] \<and>
        sc_images c = [] \<and> sc_args c = [])"

definition session_ok where
  "session_ok build memo env w \<longleftrightarrow> cache_bounds (w_cache w) \<and>
     (sc_disabled (w_cache w) \<or> (\<exists>H kbind. session_inv build memo env H kbind w))"

lemma session_invD:
  assumes "session_inv build memo env H kbind w"
  shows "sc_binding_keys (w_cache w) n = map_option kprint (kbind n)"
    and "w_bound w n = map_option (map_ktree H) (kbind n)"
    and "kbind n = Some t \<Longrightarrow> seen (w_cache w) t"
    and "H (n, sc_global_gen (w_cache w), name_gen (w_cache w) n) = w_store w n"
    and "(k, i) \<in> set (sc_images (w_cache w)) \<Longrightarrow>
      \<exists>t. k = kprint t @ env_suffix env \<and> seen (w_cache w) t \<and> i = build (map_ktree H t) env"
    and "(n, b) \<in> set (bc_entries (sc_bytes (w_cache w))) \<Longrightarrow> w_store w n = Some b"
    and "(n, m) \<in> set (sc_args (w_cache w)) \<Longrightarrow> m = memo (w_store w n)"
  using assms unfolding session_inv_def Let_def by fast+

text \<open>The key of an expression, and its contents under the history, are those of now.\<close>

lemma key_tree_now:
  assumes inv: "session_inv build memo env H kbind w"
  shows "map_ktree H (resolve (key_subst (w_cache w) kbind) e) = inline_expr w e"
    and "seen (w_cache w) (resolve (key_subst (w_cache w) kbind) e)"
    and "canon (w_cache w) e = kprint (resolve (key_subst (w_cache w) kbind) e)"
proof -
  have "(map_ktree H \<circ> key_subst (w_cache w) kbind) n =
      (case w_bound w n of Some t \<Rightarrow> t | None \<Rightarrow> KLeaf (w_store w n))" for n
    using session_invD(2) [OF inv, of n] session_invD(4) [OF inv, of n]
    by (simp add: key_subst_def split: option.split)
  then show "map_ktree H (resolve (key_subst (w_cache w) kbind) e) = inline_expr w e"
    unfolding map_resolve inline_expr_def by presburger
  have "seen (w_cache w) (key_subst (w_cache w) kbind n)" for n
    using session_invD(3) [OF inv, of n] by (auto simp: key_subst_def seen_def split: option.split)
  then show "seen (w_cache w) (resolve (key_subst (w_cache w) kbind) e)"
    using resolve_leaves(1) [of "key_subst (w_cache w) kbind" e] unfolding seen_def by blast
  show "canon (w_cache w) e = kprint (resolve (key_subst (w_cache w) kbind) e)"
    by (rule canon_prints(1)) (rule session_invD(1) [OF inv])
qed

lemma run_key_eq: "run_key c e env = Some k \<longleftrightarrow> \<not> sc_disabled c \<and> k = canon c e @ env_suffix env"
  by (auto simp: run_key_def env_suffix_def)

lemma hit_now:
  assumes "session_ok build memo env w" and "run_key (w_cache w) e env = Some k"
    and "(k, i) \<in> set (sc_images (w_cache w))"
  shows "i = build (inline_expr w e) env"
proof -
  from assms obtain H kbind where inv: "session_inv build memo env H kbind w"
    by (auto simp: session_ok_def run_key_eq)
  from session_invD(5) [OF inv assms(3)] obtain t where
    t: "k = kprint t @ env_suffix env" "i = build (map_ktree H t) env" by blast
  from assms(2) t(1) key_tree_now(3) [OF inv, of e]
  have "kprint t @ env_suffix env = kprint (resolve (key_subst (w_cache w) kbind) e) @ env_suffix env"
    by (simp add: run_key_eq)
  then have "t = resolve (key_subst (w_cache w) kbind) e" using kprint_sep(1) by blast
  with t(2) key_tree_now(1) [OF inv] show ?thesis by simp
qed

lemma image_get_Some: "image_get k c = (Some i, c') \<Longrightarrow>
    (k, i) \<in> set (sc_images c) \<and> (\<exists>imgs. c' = c\<lparr>sc_images := imgs\<rparr> \<and> set imgs \<subseteq> set (sc_images c) \<and>
      length imgs = length (sc_images c)) \<and> \<not> sc_disabled c"
  by (auto simp: image_get_def split: if_splits option.splits dest: lru_get_Some)

lemma image_get_None: "image_get k c = (None, c') \<Longrightarrow> c' = c"
  by (auto simp: image_get_def split: if_splits option.splits)

lemma args_get_Some: "args_get k c = (Some i, c') \<Longrightarrow>
    (k, i) \<in> set (sc_args c) \<and> (\<exists>xs. c' = c\<lparr>sc_args := xs\<rparr> \<and> set xs \<subseteq> set (sc_args c) \<and>
      length xs = length (sc_args c)) \<and> \<not> sc_disabled c"
  by (auto simp: args_get_def split: if_splits option.splits dest: lru_get_Some)

lemma args_get_None: "args_get k c = (None, c') \<Longrightarrow> c' = c"
  by (auto simp: args_get_def split: if_splits option.splits)


text \<open>A step that does not change what names hold keeps the history.\<close>

lemma session_inv_same:
  assumes inv: "session_inv build memo env H kbind w"
    and same: "sc_binding_keys c = sc_binding_keys (w_cache w)"
      "sc_global_gen c = sc_global_gen (w_cache w)" "sc_name_gens c = sc_name_gens (w_cache w)"
    and imgs: "\<And>k i. (k, i) \<in> set (sc_images c) \<Longrightarrow> (k, i) \<in> set (sc_images (w_cache w)) \<or>
      (\<exists>e. k = canon (w_cache w) e @ env_suffix env \<and> i = build (inline_expr w e) env)"
    and bs: "\<And>n b. (n, b) \<in> set (bc_entries (sc_bytes c)) \<Longrightarrow> w_store w n = Some b"
    and as: "\<And>n m. (n, m) \<in> set (sc_args c) \<Longrightarrow> m = memo (w_store w n)"
  shows "session_inv build memo env H kbind (w\<lparr>w_cache := c\<rparr>)"
proof -
  have g: "name_gen c n = name_gen (w_cache w) n" for n using same(3) by (simp add: name_gen_def)
  then have sn: "seen c t = seen (w_cache w) t" for t using same(2) by (simp add: seen_def)
  have "\<exists>t. k = kprint t @ env_suffix env \<and> seen c t \<and> i = build (map_ktree H t) env"
    if "(k, i) \<in> set (sc_images c)" for k i
    using imgs [OF that] session_invD(5) [OF inv, of k i] key_tree_now [OF inv] sn by metis
  then show ?thesis
    unfolding session_inv_def Let_def
    using session_invD(1-4) [OF inv] same g sn bs as by (simp add: case_prod_unfold)
qed

text \<open>A step that does gives every changed name a generation that no key has seen.\<close>

lemma session_inv_fresh:
  assumes inv: "session_inv build memo env H kbind w"
    and keys: "sc_binding_keys c = sc_binding_keys (w_cache w)" "sc_images c = sc_images (w_cache w)"
    and mono: "sc_global_gen (w_cache w) \<le> sc_global_gen c" "\<And>n. name_gen (w_cache w) n \<le> name_gen c n"
    and fresh: "\<And>n. sc_global_gen c \<noteq> sc_global_gen (w_cache w) \<or> name_gen c n \<noteq> name_gen (w_cache w) n \<or>
      store n = w_store w n"
    and bs: "\<And>n b. (n, b) \<in> set (bc_entries (sc_bytes c)) \<Longrightarrow> store n = Some b"
    and as: "\<And>n m. (n, m) \<in> set (sc_args c) \<Longrightarrow> m = memo (store n)"
  shows "\<exists>H. session_inv build memo env H kbind (w\<lparr>w_cache := c, w_store := store\<rparr>)"
proof -
  define H' where "H' = (\<lambda>(n, g, k). if g = sc_global_gen c \<and> k = name_gen c n then store n else H (n, g, k))"
  have leaf: "H' l = H l" if "seen (w_cache w) t" "l \<in> set_ktree t" for l t
  proof -
    obtain n g k where l: "l = (n, g, k)" by (cases l)
    with that have "g \<le> sc_global_gen (w_cache w)" "k \<le> name_gen (w_cache w) n" by (auto simp: seen_def)
    then have "g \<noteq> sc_global_gen c \<or> k \<noteq> name_gen c n \<or>
        (store n = w_store w n \<and> g = sc_global_gen (w_cache w) \<and> k = name_gen (w_cache w) n)"
      using fresh [of n] mono(1) mono(2) [of n] by linarith
    then show ?thesis using session_invD(4) [OF inv, of n] by (auto simp: H'_def l)
  qed
  have tr: "map_ktree H' t = map_ktree H t" if "seen (w_cache w) t" for t
    using leaf [OF that] by (rule ktree.map_cong0)
  have sn: "seen c t" if "seen (w_cache w) t" for t
    using that mono unfolding seen_def by (fastforce intro: order_trans)
  have "\<exists>t. k = kprint t @ env_suffix env \<and> seen c t \<and> i = build (map_ktree H' t) env"
    if "(k, i) \<in> set (sc_images (w_cache w))" for k i
    using session_invD(5) [OF inv that] sn tr by metis
  moreover have "w_bound w n = map_option (map_ktree H') (kbind n)" for n
    using session_invD(2,3) [OF inv, of n] tr by (cases "kbind n") simp_all
  moreover have "H' (n, sc_global_gen c, name_gen c n) = store n" for n by (simp add: H'_def)
  ultimately have "session_inv build memo env H' kbind (w\<lparr>w_cache := c, w_store := store\<rparr>)"
    unfolding session_inv_def Let_def
    using session_invD(1) [OF inv] session_invD(3) [OF inv] keys sn bs as
    by (simp add: case_prod_unfold)
  then show ?thesis by blast
qed

end
