(* ===== verification/Shell_Session.thy ===== *)
theory Shell_Session
  imports Shell_Cache
begin

text \<open>
  The session's steps keep the cache sound, so no hit is stale: what \<open>run_program\<close> takes from the image
  cache is what evaluating the line now would build, what \<open>lookup\<close> takes from the bytes cache is what
  the store holds, and what \<open>arg_hints\<close> takes from the memo is what describing the program now would
  give. The invariant and its history are in \<open>Shell_Cache\<close>.
\<close>

section \<open>The bounds\<close>

lemma lru_put_distinct:
  "distinct (map fst es) \<Longrightarrow> distinct (map fst (lru_bound n (lru_remove k es @ [(k, v)])))"
  using lru_remove_distinct [of es k] by (intro lru_bound_distinct) auto

lemma lru_put_subset: "set (lru_bound n (lru_remove k es @ [(k, v)])) \<subseteq> insert (k, v) (set es)"
  using lru_bound_spec [of n "lru_remove k es @ [(k, v)]"] lru_remove_subset [of k es] by auto

lemma lru_get_total:
  assumes "lru_get k es = Some (v, es')"
  shows "total_size es' = total_size es"
proof -
  from assms obtain e where e: "find (\<lambda>e. fst e = k) es = Some e" "es' = lru_remove k es @ [e]"
    by (auto simp: lru_get_def split: option.splits)
  from lru_remove_sum [OF e(1)] e(2) show ?thesis by simp
qed

lemma bytes_get_ok:
  assumes "bytes_ok bc" and "bytes_get n bc = (r, bc')"
  shows "bytes_ok bc'" and "set (bc_entries bc') \<subseteq> set (bc_entries bc)"
    and "bc_disabled bc' = bc_disabled bc" and "r = Some b \<Longrightarrow> (n, b) \<in> set (bc_entries bc)"
proof -
  have "bytes_ok bc' \<and> set (bc_entries bc') \<subseteq> set (bc_entries bc) \<and> bc_disabled bc' = bc_disabled bc \<and>
      (r = Some b \<longrightarrow> (n, b) \<in> set (bc_entries bc))"
  proof (cases "bc_disabled bc \<or> lru_get n (bc_entries bc) = None")
    case True
    with assms show ?thesis by (auto simp: bytes_get_def split: if_splits option.splits)
  next
    case False
    then obtain v es where g: "lru_get n (bc_entries bc) = Some (v, es)" by auto
    with False assms(2) have "r = Some v" "bc' = bc\<lparr>bc_entries := es\<rparr>" by (auto simp: bytes_get_def)
    with assms(1) lru_get_Some [OF g] lru_get_total [OF g] lru_get_distinct [OF g] show ?thesis
      by (auto simp: bytes_ok_def)
  qed
  then show "bytes_ok bc'" and "set (bc_entries bc') \<subseteq> set (bc_entries bc)"
    and "bc_disabled bc' = bc_disabled bc" and "r = Some b \<Longrightarrow> (n, b) \<in> set (bc_entries bc)" by blast+
qed

lemma cache_boundsD:
  assumes "cache_bounds c"
  shows "bytes_ok (sc_bytes c)" and "length (sc_images c) \<le> IMAGES_MAX_ENTRIES"
    and "length (sc_args c) \<le> ARGS_MAX_ENTRIES" and "distinct (map fst (sc_args c))"
    and "sc_disabled c \<Longrightarrow> bc_disabled (sc_bytes c)" and "sc_disabled c \<Longrightarrow> bc_entries (sc_bytes c) = []"
    and "sc_disabled c \<Longrightarrow> sc_images c = []" and "sc_disabled c \<Longrightarrow> sc_args c = []"
  using assms by (simp_all add: cache_bounds_def)

lemma image_insert_keeps:
  "cache_bounds c \<Longrightarrow> cache_bounds (image_insert k i c)"
  using lru_bound_spec [of IMAGES_MAX_ENTRIES "lru_remove k (sc_images c) @ [(k, i)]"]
  by (auto simp: cache_bounds_def image_insert_def)

lemma args_insert_keeps:
  "cache_bounds c \<Longrightarrow> cache_bounds (args_insert k m c)"
  using lru_bound_spec [of ARGS_MAX_ENTRIES "lru_remove k (sc_args c) @ [(k, m)]"]
    lru_put_distinct [of "sc_args c" ARGS_MAX_ENTRIES k m]
  by (auto simp: cache_bounds_def args_insert_def)

lemma image_get_keeps: "cache_bounds c \<Longrightarrow> image_get k c = (r, c') \<Longrightarrow> cache_bounds c'"
  by (auto simp: cache_bounds_def image_get_def split: if_splits option.splits dest: lru_get_Some)

lemma args_get_keeps: "cache_bounds c \<Longrightarrow> args_get k c = (r, c') \<Longrightarrow> cache_bounds c'"
  by (auto simp: cache_bounds_def args_get_def split: if_splits option.splits
      dest: lru_get_Some lru_get_distinct)


lemma note_bin_write_keeps:
  assumes "cache_bounds c" and "note_bin_write n c = Some c'"
  shows "cache_bounds c'" and "n \<notin> fst ` set (bc_entries (sc_bytes c'))" and "n \<notin> fst ` set (sc_args c')"
    and "set (bc_entries (sc_bytes c')) \<subseteq> set (bc_entries (sc_bytes c))" and "set (sc_args c') \<subseteq> set (sc_args c)"
    and "sc_images c' = sc_images c" and "sc_binding_keys c' = sc_binding_keys c"
    and "sc_global_gen c' = sc_global_gen c"
    and "name_gen c' m = (if m = n then Suc (name_gen c n) else name_gen c m)"
    and "sc_disabled c' = sc_disabled c"
proof -
  note B = cache_boundsD [OF assms(1)]
  from bytes_remove_ok [OF B(1), of n] obtain bc where bc: "bytes_remove n (sc_bytes c) = Some bc" "bytes_ok bc"
    "set (bc_entries bc) \<subseteq> set (bc_entries (sc_bytes c))" "n \<notin> fst ` set (bc_entries bc)"
    "bc_disabled bc = bc_disabled (sc_bytes c)" by blast
  from assms(2) bc(1) have c': "c' = c\<lparr>sc_name_gens := (sc_name_gens c)(n \<mapsto> Suc (name_gen c n)), sc_bytes := bc,
      sc_args := lru_remove n (sc_args c)\<rparr>"
    by (auto simp: note_bin_write_def plus_exec_def split: if_splits)
  have d: "distinct (map fst (lru_remove n (sc_args c)))" "n \<notin> fst ` set (lru_remove n (sc_args c))"
    using lru_remove_distinct [OF B(4), of n] by simp_all
  have "bc_entries bc = []" if "sc_disabled c" using bc(3) B(6) [OF that] by auto
  with d c' bc(2,5) B(2,3,5,7,8) lru_remove_length [of n "sc_args c"] show "cache_bounds c'"
    by (auto simp: cache_bounds_def)
  show "n \<notin> fst ` set (bc_entries (sc_bytes c'))" "n \<notin> fst ` set (sc_args c')"
    "set (bc_entries (sc_bytes c')) \<subseteq> set (bc_entries (sc_bytes c))" "set (sc_args c') \<subseteq> set (sc_args c)"
    "sc_images c' = sc_images c" "sc_binding_keys c' = sc_binding_keys c" "sc_global_gen c' = sc_global_gen c"
    "name_gen c' m = (if m = n then Suc (name_gen c n) else name_gen c m)" "sc_disabled c' = sc_disabled c"
    using c' bc(3,4) d(2) lru_remove_subset [of n "sc_args c"] by (simp_all add: name_gen_def)
qed

lemma note_fs_run_keeps:
  assumes "cache_bounds c" and "note_fs_run c = Some c'"
  shows "cache_bounds c'" and "bc_entries (sc_bytes c') = []" and "sc_args c' = []"
    and "sc_images c' = sc_images c" and "sc_binding_keys c' = sc_binding_keys c"
    and "sc_global_gen c' = Suc (sc_global_gen c)" and "name_gen c' m = name_gen c m"
    and "sc_disabled c' = sc_disabled c"
proof -
  from assms(2) have c': "c' = c\<lparr>sc_global_gen := Suc (sc_global_gen c), sc_bytes := bytes_clear (sc_bytes c),
      sc_args := []\<rparr>"
    by (auto simp: note_fs_run_def plus_exec_def split: if_splits)
  with assms(1) show "cache_bounds c'"
    by (auto simp: cache_bounds_def bytes_clear_def bytes_ok_def)
  show "bc_entries (sc_bytes c') = []" "sc_args c' = []" "sc_images c' = sc_images c"
    "sc_binding_keys c' = sc_binding_keys c" "sc_global_gen c' = Suc (sc_global_gen c)"
    "name_gen c' m = name_gen c m" "sc_disabled c' = sc_disabled c"
    using c' by (simp_all add: bytes_clear_def name_gen_def)
qed

lemma record_binding_keeps:
  assumes "cache_bounds c" and "record_binding n e c = Some c'"
  shows "cache_bounds c'" and "sc_disabled c' = sc_disabled c"
    and "\<not> sc_disabled c \<Longrightarrow> c' = c\<lparr>sc_binding_keys := (sc_binding_keys c)(n \<mapsto> canon c e)\<rparr>"
  using assms by (auto simp: record_binding_def cache_bounds_def plus_exec_def split: if_splits)

lemma cache_disable_keeps: "cache_bounds (cache_disable c)" "sc_disabled (cache_disable c)"
  by (simp_all add: cache_bounds_def cache_disable_def bytes_disable_def bytes_clear_def bytes_ok_def)



section \<open>Every step keeps the invariant\<close>

lemma session_init_ok: "session_ok build memo env (world_init store)"
proof -
  have "session_inv build memo env (\<lambda>(n, _). store n) (\<lambda>_. None) (world_init store)"
    by (simp add: session_inv_def world_init_def cache_new_def)
  moreover have "cache_bounds (w_cache (world_init store))"
    by (simp add: world_init_def cache_new_def cache_bounds_def bytes_ok_def)
  ultimately show ?thesis unfolding session_ok_def by blast
qed

lemma session_ok_same:
  assumes ok: "session_ok build memo env w" and b: "cache_bounds c"
    and d: "sc_disabled c = sc_disabled (w_cache w)"
    and same: "sc_binding_keys c = sc_binding_keys (w_cache w)"
      "sc_global_gen c = sc_global_gen (w_cache w)" "sc_name_gens c = sc_name_gens (w_cache w)"
    and imgs: "\<And>k i. \<not> sc_disabled (w_cache w) \<Longrightarrow> (k, i) \<in> set (sc_images c) \<Longrightarrow>
      (k, i) \<in> set (sc_images (w_cache w)) \<or>
      (\<exists>e. k = canon (w_cache w) e @ env_suffix env \<and> i = build (inline_expr w e) env)"
    and bs: "\<And>n b. (n, b) \<in> set (bc_entries (sc_bytes c)) \<Longrightarrow>
      (n, b) \<in> set (bc_entries (sc_bytes (w_cache w))) \<or> w_store w n = Some b"
    and as: "\<And>n m. (n, m) \<in> set (sc_args c) \<Longrightarrow>
      (n, m) \<in> set (sc_args (w_cache w)) \<or> m = memo (w_store w n)"
  shows "session_ok build memo env (w\<lparr>w_cache := c\<rparr>)"
proof (cases "sc_disabled (w_cache w)")
  case True
  with b d show ?thesis by (simp add: session_ok_def)
next
  case False
  with ok obtain H kbind where inv: "session_inv build memo env H kbind w" by (auto simp: session_ok_def)
  have "session_inv build memo env H kbind (w\<lparr>w_cache := c\<rparr>)"
    using imgs [OF False] bs as session_invD(6,7) [OF inv]
    by (intro session_inv_same [OF inv same]) blast+
  with b show ?thesis by (auto simp: session_ok_def)
qed

lemma session_ok_fresh:
  assumes ok: "session_ok build memo env w" and b: "cache_bounds c"
    and d: "sc_disabled c = sc_disabled (w_cache w)"
    and keys: "sc_binding_keys c = sc_binding_keys (w_cache w)" "sc_images c = sc_images (w_cache w)"
    and mono: "sc_global_gen (w_cache w) \<le> sc_global_gen c" "\<And>n. name_gen (w_cache w) n \<le> name_gen c n"
    and fresh: "\<And>n. sc_global_gen c \<noteq> sc_global_gen (w_cache w) \<or> name_gen c n \<noteq> name_gen (w_cache w) n \<or>
      store n = w_store w n"
    and bs: "\<And>n b. (n, b) \<in> set (bc_entries (sc_bytes c)) \<Longrightarrow>
      (n, b) \<in> set (bc_entries (sc_bytes (w_cache w))) \<and> store n = w_store w n"
    and as: "\<And>n m. (n, m) \<in> set (sc_args c) \<Longrightarrow>
      (n, m) \<in> set (sc_args (w_cache w)) \<and> store n = w_store w n"
  shows "session_ok build memo env (w\<lparr>w_cache := c, w_store := store\<rparr>)"
proof (cases "sc_disabled (w_cache w)")
  case True
  with b d show ?thesis by (simp add: session_ok_def)
next
  case False
  with ok obtain H kbind where inv: "session_inv build memo env H kbind w" by (auto simp: session_ok_def)
  have "\<exists>H. session_inv build memo env H kbind (w\<lparr>w_cache := c, w_store := store\<rparr>)"
  proof (rule session_inv_fresh [OF inv keys mono fresh])
    show "store n = Some b" if "(n, b) \<in> set (bc_entries (sc_bytes c))" for n b
      using bs [OF that] session_invD(6) [OF inv] by metis
    show "m = memo (store n)" if "(n, m) \<in> set (sc_args c)" for n m
      using as [OF that] session_invD(7) [OF inv] by metis
  qed
  with b show ?thesis by (auto simp: session_ok_def)
qed


lemma session_ok_bind:
  assumes ok: "session_ok build memo env w" and r: "record_binding n e (w_cache w) = Some c"
  shows "session_ok build memo env (w\<lparr>w_cache := c, w_bound := (w_bound w)(n \<mapsto> inline_expr w e)\<rparr>)"
proof -
  from ok have b: "cache_bounds (w_cache w)" by (simp add: session_ok_def)
  note R = record_binding_keeps [OF b r]
  show ?thesis
  proof (cases "sc_disabled (w_cache w)")
    case True
    with R show ?thesis by (simp add: session_ok_def)
  next
    case False
    with ok obtain H kbind where inv: "session_inv build memo env H kbind w" by (auto simp: session_ok_def)
    define t where "t = resolve (key_subst (w_cache w) kbind) e"
    note T = key_tree_now [OF inv, of e, folded t_def]
    from R(3) [OF False] have c: "c = (w_cache w)\<lparr>sc_binding_keys := (sc_binding_keys (w_cache w))(n \<mapsto> kprint t)\<rparr>"
      using T(3) by simp
    then have sn: "seen c u = seen (w_cache w) u" "name_gen c m = name_gen (w_cache w) m" for u m
      by (simp_all add: seen_def name_gen_def)
    have "session_inv build memo env H (kbind(n \<mapsto> t))
        (w\<lparr>w_cache := c, w_bound := (w_bound w)(n \<mapsto> inline_expr w e)\<rparr>)"
      unfolding session_inv_def Let_def
      using session_invD [OF inv] T(1,2) sn c by (simp add: case_prod_unfold)
    with R(1) show ?thesis by (auto simp: session_ok_def)
  qed
qed

lemma session_step_ok:
  assumes "session_step build memo env w w'" and ok: "session_ok build memo env w"
  shows "session_ok build memo env w'"
  using assms(1)
proof cases
  case (run_hit e k i c)
  from ok have b: "cache_bounds (w_cache w)" by (simp add: session_ok_def)
  from image_get_Some [OF run_hit(3)] image_get_keeps [OF b run_hit(3)] show ?thesis
    unfolding run_hit(1) by (intro session_ok_same [OF ok]) auto
next
  case (run_miss e k c)
  from ok have b: "cache_bounds (w_cache w)" by (simp add: session_ok_def)
  have c: "c = w_cache w" by (rule image_get_None [OF run_miss(3)])
  from run_miss(2) have k: "k = canon (w_cache w) e @ env_suffix env" "\<not> sc_disabled (w_cache w)"
    by (auto simp: run_key_eq)
  have imgs: "(k', i) \<in> set (sc_images (w_cache w)) \<or>
      (\<exists>e. k' = canon (w_cache w) e @ env_suffix env \<and> i = build (inline_expr w e) env)"
    if "(k', i) \<in> set (sc_images (image_insert k (build (inline_expr w e) env) (w_cache w)))" for k' i
    using that k lru_put_subset [of IMAGES_MAX_ENTRIES k "sc_images (w_cache w)" "build (inline_expr w e) env"]
    by (auto simp: image_insert_def)
  show ?thesis unfolding run_miss(1) c
    by (rule session_ok_same [OF ok image_insert_keeps [OF b]]) (use k(2) imgs in \<open>auto simp: image_insert_def\<close>)
next
  case (fs_run c store)
  from ok have b: "cache_bounds (w_cache w)" by (simp add: session_ok_def)
  from note_fs_run_keeps [OF b fs_run(2)] show ?thesis
    unfolding fs_run(1) by (intro session_ok_fresh [OF ok]) auto
next
  case (lookup n bc b bc')
  from ok have B: "cache_bounds (w_cache w)" by (simp add: session_ok_def)
  note G = bytes_get_ok [OF cache_boundsD(1) [OF B] lookup(2)]
  from bytes_insert_ok [OF G(1), of n b] lookup(4)
  have I: "bytes_ok bc'" "set (bc_entries bc') \<subseteq> insert (n, b) (set (bc_entries bc))" "bc_disabled bc' = bc_disabled bc"
    by auto
  have "bc_entries bc' = []" if "sc_disabled (w_cache w)"
  proof -
    from cache_boundsD(5,6) [OF B that] have "bc_entries (sc_bytes (w_cache w)) = []" "bc_disabled bc"
      using G(3) by simp_all
    with lookup(4) G(2) show ?thesis by (simp add: bytes_insert_def)
  qed
  with I G(3) B have "cache_bounds ((w_cache w)\<lparr>sc_bytes := bc'\<rparr>)" by (auto simp: cache_bounds_def)
  then show ?thesis
    unfolding lookup(1) by (rule session_ok_same [OF ok]) (use I(2) G(2) lookup(3) in auto)
next
  case (lookup_hit n b bc)
  from ok have B: "cache_bounds (w_cache w)" by (simp add: session_ok_def)
  note G = bytes_get_ok [OF cache_boundsD(1) [OF B] lookup_hit(2)]
  have "cache_bounds ((w_cache w)\<lparr>sc_bytes := bc\<rparr>)" using B G(1,2,3) by (auto simp: cache_bounds_def)
  then show ?thesis
    unfolding lookup_hit(1) by (rule session_ok_same [OF ok]) (use G(2) in auto)
next
  case (hints n c)
  from ok have B: "cache_bounds (w_cache w)" by (simp add: session_ok_def)
  have c: "c = w_cache w" by (rule args_get_None [OF hints(2)])
  have as: "(n', m) \<in> set (sc_args (w_cache w)) \<or> m = memo (w_store w n')"
    if "(n', m) \<in> set (sc_args (args_insert n (memo (w_store w n)) (w_cache w)))" for n' m
    using that lru_put_subset [of ARGS_MAX_ENTRIES n "sc_args (w_cache w)" "memo (w_store w n)"]
    by (auto simp: args_insert_def split: if_splits)
  show ?thesis unfolding hints(1) c
    by (rule session_ok_same [OF ok args_insert_keeps [OF B]]) (use as in \<open>auto simp: args_insert_def split: if_splits\<close>)
next
  case (hints_hit n m c)
  from ok have B: "cache_bounds (w_cache w)" by (simp add: session_ok_def)
  from args_get_Some [OF hints_hit(2)] args_get_keeps [OF B hints_hit(2)] show ?thesis
    unfolding hints_hit(1) by (intro session_ok_same [OF ok]) auto
next
  case (save n c b)
  from ok have B: "cache_bounds (w_cache w)" by (simp add: session_ok_def)
  note S = note_bin_write_keeps [OF B save(2)]
  show ?thesis unfolding save(1)
  proof (rule session_ok_fresh [OF ok S(1,10,7,6)])
    fix m
    show "sc_global_gen (w_cache w) \<le> sc_global_gen c" using S(8) by simp
    show "name_gen (w_cache w) m \<le> name_gen c m" using S(9) by simp
    show "sc_global_gen c \<noteq> sc_global_gen (w_cache w) \<or> name_gen c m \<noteq> name_gen (w_cache w) m \<or>
        ((w_store w)(n \<mapsto> b)) m = w_store w m" using S(9) by simp
  next
    fix m x
    show "(m, x) \<in> set (bc_entries (sc_bytes (w_cache w))) \<and> ((w_store w)(n \<mapsto> b)) m = w_store w m"
      if "(m, x) \<in> set (bc_entries (sc_bytes c))" using that S(2,4) by force
    show "(m, x) \<in> set (sc_args (w_cache w)) \<and> ((w_store w)(n \<mapsto> b)) m = w_store w m"
      if "(m, x) \<in> set (sc_args c)" for x using that S(3,5) by force
  qed
next
  case (let_binding n e c)
  then show ?thesis using session_ok_bind [OF ok] by simp
next
  case detach_fs
  then show ?thesis by (simp add: session_ok_def cache_disable_keeps)
next
  case (service store)
  with ok show ?thesis by (simp add: session_ok_def)
qed

lemma session_reach_ok: "session_reach build memo env w \<Longrightarrow> session_ok build memo env w"
  by (induction rule: session_reach.induct) (rule session_init_ok, rule session_step_ok)



section \<open>No hit is stale\<close>



end
