(* ===== verification/Io_Monad.thy ===== *)
theory Io_Monad
  imports Prelude
begin

text \<open>
  Asynchronous code that works on a state: a computation runs from a state to a result and the state it
  leaves. It returns a value, or stops: with an error (\<open>?\<close>), because its future was dropped at an await,
  or with a panic. The state a stopped computation leaves is kept: that is what the next call finds.
  \<open>valid P m Q E\<close> is the Hoare triple over it, with \<open>Q\<close> for a return and \<open>E\<close> for a stop.
\<close>

datatype 'e stop = Fail 'e | Dropped | Panic

datatype ('a, 'e) io = Return 'a | Stop "'e stop"

type_synonym ('s, 'a, 'e) proc = "'s \<Rightarrow> ('a, 'e) io \<times> 's"

definition ret :: "'a \<Rightarrow> ('s, 'a, 'e) proc" where
  "ret x = (\<lambda>s. (Return x, s))"

definition fail :: "'e \<Rightarrow> ('s, 'a, 'e) proc" where
  "fail e = (\<lambda>s. (Stop (Fail e), s))"

definition io_bind :: "('s, 'a, 'e) proc \<Rightarrow> ('a \<Rightarrow> ('s, 'b, 'e) proc) \<Rightarrow> ('s, 'b, 'e) proc" where
  "io_bind m f = (\<lambda>s. case m s of (Return x, s') \<Rightarrow> f x s' | (Stop k, s') \<Rightarrow> (Stop k, s'))"

text \<open>Code that may panic, and code that answers a \<open>Result\<close>, as computations.\<close>

definition or_panic :: "'a exec \<Rightarrow> ('s, 'a, 'e) proc" where
  "or_panic x = (\<lambda>s. (case x of Some v \<Rightarrow> Return v | None \<Rightarrow> Stop Panic, s))"

definition or_fail :: "('x \<Rightarrow> 'e) \<Rightarrow> ('a, 'x) result \<Rightarrow> ('s, 'a, 'e) proc" where
  "or_fail f r = (case r of Ok v \<Rightarrow> ret v | Err e \<Rightarrow> fail (f e))"

definition reads :: "('s \<Rightarrow> 'a) \<Rightarrow> ('s, 'a, 'e) proc" where
  "reads f = (\<lambda>s. (Return (f s), s))"

definition modify :: "('s \<Rightarrow> 's) \<Rightarrow> ('s, unit, 'e) proc" where
  "modify f = (\<lambda>s. (Return (), f s))"

text \<open>\<open>map_err\<close> on the outcome of a call.\<close>

definition map_stop :: "('x \<Rightarrow> 'e) \<Rightarrow> ('s, 'a, 'x) proc \<Rightarrow> ('s, 'a, 'e) proc" where
  "map_stop f m = (\<lambda>s. case m s of
     (Return x, s') \<Rightarrow> (Return x, s')
   | (Stop (Fail e), s') \<Rightarrow> (Stop (Fail (f e)), s')
   | (Stop Dropped, s') \<Rightarrow> (Stop Dropped, s')
   | (Stop Panic, s') \<Rightarrow> (Stop Panic, s'))"

text \<open>Looking at the \<open>Result\<close> of a call instead of passing its error on.\<close>

definition catch :: "('s, 'a, 'x) proc \<Rightarrow> ('s, ('a, 'x) result, 'e) proc" where
  "catch m = (\<lambda>s. case m s of
     (Return x, s') \<Rightarrow> (Return (Ok x), s')
   | (Stop (Fail e), s') \<Rightarrow> (Return (Err e), s')
   | (Stop Dropped, s') \<Rightarrow> (Stop Dropped, s')
   | (Stop Panic, s') \<Rightarrow> (Stop Panic, s'))"

lemmas io_defs = ret_def fail_def io_bind_def or_panic_def or_fail_def reads_def modify_def map_stop_def
  catch_def

lemma io_bind_cong [fundef_cong]:
  assumes "m s = m' s'" and "s = s'" and "\<And>x t. m' s' = (Return x, t) \<Longrightarrow> f x t = g x t"
  shows "io_bind m f s = io_bind m' g s'"
  using assms by (auto simp: io_bind_def split: prod.split io.split)


section \<open>Triples\<close>

definition valid ::
    "('s \<Rightarrow> bool) \<Rightarrow> ('s, 'a, 'e) proc \<Rightarrow> ('a \<Rightarrow> 's \<Rightarrow> bool) \<Rightarrow> ('e stop \<Rightarrow> 's \<Rightarrow> bool) \<Rightarrow> bool" where
  "valid P m Q E \<longleftrightarrow> (\<forall>s. P s \<longrightarrow> (case m s of (Return x, s') \<Rightarrow> Q x s' | (Stop k, s') \<Rightarrow> E k s'))"

lemma validI:
  assumes "\<And>s x s'. P s \<Longrightarrow> m s = (Return x, s') \<Longrightarrow> Q x s'"
    and "\<And>s k s'. P s \<Longrightarrow> m s = (Stop k, s') \<Longrightarrow> E k s'"
  shows "valid P m Q E"
  using assms by (auto simp: valid_def split: prod.split io.split)

lemma valid_Return: "valid P m Q E \<Longrightarrow> P s \<Longrightarrow> m s = (Return x, s') \<Longrightarrow> Q x s'"
  by (force simp: valid_def)

lemma valid_Stop: "valid P m Q E \<Longrightarrow> P s \<Longrightarrow> m s = (Stop k, s') \<Longrightarrow> E k s'"
  by (force simp: valid_def)

lemma valid_bind:
  assumes "valid P m R E" and "\<And>x. valid (R x) (f x) Q E"
  shows "valid P (io_bind m f) Q E"
proof (rule validI)
  fix s x s' assume "P s" "io_bind m f s = (Return x, s')"
  then obtain y t where "m s = (Return y, t)" "f y t = (Return x, s')"
    by (auto simp: io_bind_def split: prod.splits io.splits)
  then show "Q x s'" using valid_Return [OF assms(1) \<open>P s\<close>] valid_Return [OF assms(2)] by blast
next
  fix s k s' assume P: "P s" and "io_bind m f s = (Stop k, s')"
  then consider "m s = (Stop k, s')" | y t where "m s = (Return y, t)" "f y t = (Stop k, s')"
    by (auto simp: io_bind_def split: prod.splits io.splits)
  then show "E k s'"
    using valid_Stop [OF assms(1) P] valid_Return [OF assms(1) P] valid_Stop [OF assms(2)] by cases blast+
qed

lemma valid_conseq:
  assumes "valid P m Q E" and "\<And>s. P' s \<Longrightarrow> P s" and "\<And>x s. Q x s \<Longrightarrow> Q' x s" and "\<And>k s. E k s \<Longrightarrow> E' k s"
  shows "valid P' m Q' E'"
  by (rule validI) (use assms valid_Return [OF assms(1)] valid_Stop [OF assms(1)] in blast)+

lemma valid_pre: "valid P m Q E \<Longrightarrow> (\<And>s. P' s \<Longrightarrow> P s) \<Longrightarrow> valid P' m Q E"
  by (erule valid_conseq)

lemma valid_ret: "valid (Q x) (ret x) Q E"
  by (simp add: valid_def ret_def)

lemma valid_fail: "valid (E (Fail e)) (fail e) Q E"
  by (simp add: valid_def fail_def)

lemma valid_reads: "valid (\<lambda>s. Q (f s) s) (reads f) Q E"
  by (simp add: valid_def reads_def)

lemma valid_modify: "valid (\<lambda>s. Q () (f s)) (modify f) Q E"
  by (simp add: valid_def modify_def)

lemma valid_or_panic:
  "valid (\<lambda>s. case x of Some v \<Rightarrow> Q v s | None \<Rightarrow> E Panic s) (or_panic x) Q E"
  by (simp add: valid_def or_panic_def split: option.split)

lemma valid_or_fail:
  "valid (\<lambda>s. case r of Ok v \<Rightarrow> Q v s | Err e \<Rightarrow> E (Fail (f e)) s) (or_fail f r) Q E"
  by (simp add: valid_def or_fail_def ret_def fail_def split: result.split)

lemma valid_if:
  "(b \<Longrightarrow> valid P m Q E) \<Longrightarrow> (\<not> b \<Longrightarrow> valid P n Q E) \<Longrightarrow> valid P (if b then m else n) Q E"
  by simp

text \<open>An auxiliary value of the precondition may be fixed first.\<close>

lemma valid_ex: "(\<And>x. valid (P x) m Q E) \<Longrightarrow> valid (\<lambda>s. \<exists>x. P x s) m Q E"
  by (rule validI) (auto dest: valid_Return valid_Stop)

lemma valid_assume: "(A \<Longrightarrow> valid P m Q E) \<Longrightarrow> valid (\<lambda>s. A \<and> P s) m Q E"
  by (rule validI) (auto dest: valid_Return valid_Stop)

lemma valid_False: "(\<And>s. \<not> P s) \<Longrightarrow> valid P m Q E"
  by (simp add: valid_def)

lemma valid_map_stop:
  assumes "valid P m Q (\<lambda>k s. case k of Fail e \<Rightarrow> E (Fail (f e)) s | Dropped \<Rightarrow> E Dropped s | Panic \<Rightarrow> E Panic s)"
  shows "valid P (map_stop f m) Q E"
  using assms by (auto simp: valid_def map_stop_def split: prod.splits io.splits stop.splits)

lemma valid_catch:
  assumes "valid P m (\<lambda>x. Q (Ok x))
    (\<lambda>k s. case k of Fail e \<Rightarrow> Q (Err e) s | Dropped \<Rightarrow> E Dropped s | Panic \<Rightarrow> E Panic s)"
  shows "valid P (catch m) Q E"
  using assms by (auto simp: valid_def catch_def split: prod.splits io.splits stop.splits)

end
