(* ===== verification/Msd_Bot.thy ===== *)
theory Msd_Bot
  imports Prelude
begin

unbundle bit_operations_syntax

text \<open>
  The wire formats of USB mass storage (\<open>crates/eo9-msd/src/bot.rs\<close> and \<open>scsi.rs\<close>): the command and
  status wrappers of Bulk-Only Transport, the six command blocks, and the decoders of their answers.
  Shown: a device that reads a wrapper field by field finds what the driver put there, and a status is
  accepted only if it echoes the tag of its command.
\<close>

section \<open>Bulk-Only Transport\<close>

definition CBW_LEN :: nat where "CBW_LEN = 31"
definition CSW_LEN :: nat where "CSW_LEN = 13"
definition CBW_SIGNATURE :: bytes where "CBW_SIGNATURE = [0x55, 0x53, 0x42, 0x43]"
definition CSW_SIGNATURE :: bytes where "CSW_SIGNATURE = [0x55, 0x53, 0x42, 0x53]"
definition CSW_PASSED :: byte where "CSW_PASSED = 0"
definition CSW_FAILED :: byte where "CSW_FAILED = 1"
definition CSW_PHASE_ERROR :: byte where "CSW_PHASE_ERROR = 2"
definition MAX_CDB_LEN :: nat where "MAX_CDB_LEN = 16"

lemmas bot_consts = CBW_LEN_def CSW_LEN_def CBW_SIGNATURE_def CSW_SIGNATURE_def CSW_PASSED_def
  CSW_FAILED_def CSW_PHASE_ERROR_def MAX_CDB_LEN_def

datatype direction = In | Out

text \<open>Tags are \<open>u32\<close> values that wrap; a transfer length is a natural number below \<open>2 ^ 32\<close>.\<close>

definition encode_cbw :: "32 word \<Rightarrow> nat \<Rightarrow> direction \<Rightarrow> byte \<Rightarrow> bytes \<Rightarrow> bytes exec" where
  "encode_cbw tag transfer_length dir lun cdb = do {
     assert_exec (cdb \<noteq> [] \<and> length cdb \<le> MAX_CDB_LEN);
     Some (CBW_SIGNATURE @ le_encode 4 (unat tag) @ le_encode 4 transfer_length @
       [case dir of In \<Rightarrow> 0x80 | Out \<Rightarrow> 0, lun AND 0x0F, of_nat (length cdb)] @
       cdb @ replicate (16 - length cdb) 0) }"

record csw =
  csw_tag :: "32 word"
  csw_residue :: nat
  csw_status :: byte

datatype csw_error = Csw_Length nat | Csw_Signature | Csw_Tag "32 word" "32 word" | Csw_Status byte

definition decode_csw :: "bytes \<Rightarrow> 32 word \<Rightarrow> (csw, csw_error) result" where
  "decode_csw bs expected_tag =
     (if length bs \<noteq> CSW_LEN then Err (Csw_Length (length bs))
      else if slice 0 4 bs \<noteq> CSW_SIGNATURE then Err Csw_Signature
      else let tag = of_nat (le_decode (slice 4 4 bs)) in
        if tag \<noteq> expected_tag then Err (Csw_Tag expected_tag tag)
        else let status = bs ! 12 in
          if status > CSW_PHASE_ERROR then Err (Csw_Status status)
          else Ok \<lparr>csw_tag = tag, csw_residue = le_decode (slice 8 4 bs), csw_status = status\<rparr>)"

text \<open>What a device puts on the wire for a status.\<close>

definition csw_bytes :: "csw \<Rightarrow> bytes" where
  "csw_bytes c = CSW_SIGNATURE @ le_encode 4 (unat (csw_tag c)) @ le_encode 4 (csw_residue c) @ [csw_status c]"

lemma unat_tag_bound: "unat (t :: 32 word) < 256 ^ 4"
  using unsigned_less [of t, where ?'a = nat] by simp

lemma decode_csw_bytes:
  assumes "csw_residue c < 2 ^ 32" and "csw_status c \<le> CSW_PHASE_ERROR"
  shows "decode_csw (csw_bytes c) (csw_tag c) = Ok c"
proof -
  have t: "le_decode (le_encode 4 (unat (csw_tag c))) = unat (csw_tag c)"
    using unat_tag_bound by (rule le_roundtrip)
  have r: "le_decode (le_encode 4 (csw_residue c)) = csw_residue c"
    using assms(1) by (intro le_roundtrip) simp
  have "slice 0 4 (csw_bytes c) = CSW_SIGNATURE" "slice 4 4 (csw_bytes c) = le_encode 4 (unat (csw_tag c))"
    "slice 8 4 (csw_bytes c) = le_encode 4 (csw_residue c)" "csw_bytes c ! 12 = csw_status c"
    "length (csw_bytes c) = CSW_LEN"
    by (simp_all add: csw_bytes_def bot_consts slice_def nth_append)
  with t r assms(2) show ?thesis by (simp add: decode_csw_def Let_def not_less)
qed

lemma decode_csw_Ok:
  "decode_csw bs tag = Ok c \<Longrightarrow> csw_tag c = tag \<and> csw_status c \<le> CSW_PHASE_ERROR"
  by (auto simp: decode_csw_def Let_def split: if_splits)


section \<open>SCSI\<close>

definition OP_TEST_UNIT_READY :: byte where "OP_TEST_UNIT_READY = 0x00"
definition OP_REQUEST_SENSE :: byte where "OP_REQUEST_SENSE = 0x03"
definition OP_INQUIRY :: byte where "OP_INQUIRY = 0x12"
definition OP_READ_CAPACITY_10 :: byte where "OP_READ_CAPACITY_10 = 0x25"
definition OP_READ_10 :: byte where "OP_READ_10 = 0x28"
definition OP_WRITE_10 :: byte where "OP_WRITE_10 = 0x2A"
definition INQUIRY_LEN :: nat where "INQUIRY_LEN = 36"
definition SENSE_LEN :: nat where "SENSE_LEN = 18"
definition READ_CAPACITY_LEN :: nat where "READ_CAPACITY_LEN = 8"

lemmas scsi_consts = OP_TEST_UNIT_READY_def OP_REQUEST_SENSE_def OP_INQUIRY_def OP_READ_CAPACITY_10_def
  OP_READ_10_def OP_WRITE_10_def INQUIRY_LEN_def SENSE_LEN_def READ_CAPACITY_LEN_def

definition cdb_inquiry :: "nat \<Rightarrow> bytes" where
  "cdb_inquiry allocation = [OP_INQUIRY, 0, 0, 0, of_nat allocation, 0]"

definition cdb_test_unit_ready :: bytes where
  "cdb_test_unit_ready = [OP_TEST_UNIT_READY, 0, 0, 0, 0, 0]"

definition cdb_request_sense :: "nat \<Rightarrow> bytes" where
  "cdb_request_sense allocation = [OP_REQUEST_SENSE, 0, 0, 0, of_nat allocation, 0]"

definition cdb_read_capacity10 :: bytes where
  "cdb_read_capacity10 = OP_READ_CAPACITY_10 # replicate 9 0"

definition rw10 :: "byte \<Rightarrow> nat \<Rightarrow> nat \<Rightarrow> bytes" where
  "rw10 op lba blocks = [op, 0] @ be_encode 4 lba @ [0] @ be_encode 2 blocks @ [0]"

definition cdb_read10 :: "nat \<Rightarrow> nat \<Rightarrow> bytes" where
  "cdb_read10 lba blocks = rw10 OP_READ_10 lba blocks"

definition cdb_write10 :: "nat \<Rightarrow> nat \<Rightarrow> bytes" where
  "cdb_write10 lba blocks = rw10 OP_WRITE_10 lba blocks"

lemma cdb_lengths [simp]:
  "length (cdb_inquiry n) = 6" "length cdb_test_unit_ready = 6" "length (cdb_request_sense n) = 6"
  "length cdb_read_capacity10 = 10" "length (cdb_read10 lba n) = 10" "length (cdb_write10 lba n) = 10"
  by (simp_all add: cdb_inquiry_def cdb_test_unit_ready_def cdb_request_sense_def
      cdb_read_capacity10_def cdb_read10_def cdb_write10_def rw10_def)

record inquiry_data =
  inq_device_type :: byte
  inq_removable :: bool
  inq_vendor :: bytes
  inq_product :: bytes
  inq_revision :: bytes

definition inquiry_parse :: "bytes \<Rightarrow> inquiry_data option" where
  "inquiry_parse bs =
     (if length bs < INQUIRY_LEN then None
      else Some \<lparr>inq_device_type = bs ! 0 AND 0x1F, inq_removable = (bs ! 1 AND 0x80 \<noteq> 0),
        inq_vendor = slice 8 8 bs, inq_product = slice 16 16 bs, inq_revision = slice 32 4 bs\<rparr>)"

text \<open>Unprintable bytes become dots, then trailing spaces go.\<close>

definition trimmed_ascii :: "bytes \<Rightarrow> bytes" where
  "trimmed_ascii bs = rev (dropWhile (\<lambda>b. b = 0x20)
     (rev (map (\<lambda>b. if 0x20 \<le> b \<and> b \<le> 0x7E then b else 0x2E) bs)))"

lemma trimmed_ascii_printable:
  "b \<in> set (trimmed_ascii bs) \<Longrightarrow> 0x20 \<le> b \<and> b \<le> 0x7E"
  unfolding trimmed_ascii_def by (auto dest!: set_dropWhileD split: if_splits)

record capacity_data =
  cap_last_lba :: nat
  cap_block_size :: nat

definition capacity_parse :: "bytes \<Rightarrow> capacity_data option" where
  "capacity_parse bs =
     (if length bs < READ_CAPACITY_LEN then None
      else Some \<lparr>cap_last_lba = be_decode (slice 0 4 bs), cap_block_size = be_decode (slice 4 4 bs)\<rparr>)"

definition capacity_bytes :: "capacity_data \<Rightarrow> nat exec" where
  "capacity_bytes c = do {
     n \<leftarrow> plus_exec 64 (cap_last_lba c) 1;
     times_exec 64 n (cap_block_size c) }"

lemma capacity_parse_bounds:
  assumes "capacity_parse bs = Some c"
  shows "cap_last_lba c < 2 ^ 32" and "cap_block_size c < 2 ^ 32"
    and "capacity_bytes c = Some ((cap_last_lba c + 1) * cap_block_size c)"
proof -
  have b: "be_decode (slice i 4 bs) < 2 ^ 32" if "i + 4 \<le> length bs" for i
    using le_decode_bound [of "rev (slice i 4 bs)"] that by (simp add: be_decode_def)
  from assms show l: "cap_last_lba c < 2 ^ 32" and s: "cap_block_size c < 2 ^ 32"
    using b [of 0] b [of 4] by (auto simp: capacity_parse_def READ_CAPACITY_LEN_def split: if_splits)
  then have "cap_last_lba c + 1 \<le> 2 ^ 32" by simp
  with s have "(cap_last_lba c + 1) * cap_block_size c < 2 ^ 32 * 2 ^ 32"
    by (intro mult_le_less_imp_less) auto
  with l show "capacity_bytes c = Some ((cap_last_lba c + 1) * cap_block_size c)"
    by (simp add: capacity_bytes_def plus_exec_def times_exec_def)
qed

record sense_data =
  sense_key :: byte
  sense_asc :: byte
  sense_ascq :: byte

definition sense_parse :: "bytes \<Rightarrow> sense_data option" where
  "sense_parse bs =
     (if bs = [] then None
      else let response_code = bs ! 0 AND 0x7F in
        if response_code \<noteq> 0x70 \<and> response_code \<noteq> 0x71 then None
        else if length bs \<le> 13 then None
        else Some \<lparr>sense_key = bs ! 2 AND 0x0F, sense_asc = bs ! 12, sense_ascq = bs ! 13\<rparr>)"

text \<open>
  What a device reads in a wrapper: the fields of the layout of the standard. A wrapper the driver
  builds is read back as it was meant.
\<close>

record cbw_view =
  cbw_tag :: "32 word"
  cbw_length :: nat
  cbw_in :: bool
  cbw_cdb :: bytes

definition read_cbw :: "bytes \<Rightarrow> cbw_view option" where
  "read_cbw bs =
     (if length bs = CBW_LEN \<and> slice 0 4 bs = CBW_SIGNATURE
      then Some \<lparr>cbw_tag = of_nat (le_decode (slice 4 4 bs)), cbw_length = le_decode (slice 8 4 bs),
        cbw_in = bit (bs ! 12) 7, cbw_cdb = slice 15 (unat (bs ! 14)) bs\<rparr>
      else None)"

lemma encode_cbw_Some:
  "cdb \<noteq> [] \<Longrightarrow> length cdb \<le> 16 \<Longrightarrow> encode_cbw tag len dir lun cdb \<noteq> None"
  by (simp add: encode_cbw_def MAX_CDB_LEN_def)

lemma read_encode_cbw:
  assumes "encode_cbw tag len dir lun cdb = Some bs" and "len < 2 ^ 32"
  shows "read_cbw bs = Some \<lparr>cbw_tag = tag, cbw_length = len, cbw_in = (dir = In), cbw_cdb = cdb\<rparr>"
proof -
  from assms(1) have c: "length cdb \<le> 16" and bs: "bs = CBW_SIGNATURE @ le_encode 4 (unat tag) @ le_encode 4 len @
       [case dir of In \<Rightarrow> 0x80 | Out \<Rightarrow> 0, lun AND 0x0F, of_nat (length cdb)] @
       cdb @ replicate (16 - length cdb) 0"
    by (auto simp: encode_cbw_def MAX_CDB_LEN_def bind_eq_Some_conv)
  have t: "le_decode (le_encode 4 (unat tag)) = unat tag" using unat_tag_bound by (rule le_roundtrip)
  have l: "le_decode (le_encode 4 len) = len" using assms(2) by (intro le_roundtrip) simp
  have u: "unat (of_nat (length cdb) :: byte) = length cdb" using c by (simp add: unat_of_nat)
  have "length bs = CBW_LEN" "slice 0 4 bs = CBW_SIGNATURE" "slice 4 4 bs = le_encode 4 (unat tag)"
    "slice 8 4 bs = le_encode 4 len" "bs ! 12 = (case dir of In \<Rightarrow> 0x80 | Out \<Rightarrow> 0)"
    "bs ! 14 = of_nat (length cdb)" "slice 15 (length cdb) bs = cdb"
    using c unfolding bs by (simp_all add: bot_consts slice_def nth_append)
  moreover have "bit (case dir of In \<Rightarrow> 0x80 | Out \<Rightarrow> (0 :: byte)) 7 = (dir = In)"
    by (cases dir) simp_all
  ultimately show ?thesis using t l u by (simp add: read_cbw_def)
qed

text \<open>The address and count a device reads in a \<open>READ(10)\<close> or \<open>WRITE(10)\<close> block.\<close>

definition rw10_view :: "bytes \<Rightarrow> (byte \<times> nat \<times> nat) option" where
  "rw10_view cdb =
     (if length cdb = 10 \<and> (cdb ! 0 = OP_READ_10 \<or> cdb ! 0 = OP_WRITE_10)
      then Some (cdb ! 0, be_decode (slice 2 4 cdb), be_decode (slice 7 2 cdb)) else None)"

lemma rw10_view_cdb:
  assumes "op = OP_READ_10 \<or> op = OP_WRITE_10" and "lba < 2 ^ 32" and "blocks < 2 ^ 16"
  shows "rw10_view (rw10 op lba blocks) = Some (op, lba, blocks)"
proof -
  have "be_decode (be_encode 4 lba) = lba" "be_decode (be_encode 2 blocks) = blocks"
    using assms(2,3) by (simp_all add: be_roundtrip)
  moreover have "slice 2 4 (rw10 op lba blocks) = be_encode 4 lba" "slice 7 2 (rw10 op lba blocks) = be_encode 2 blocks"
    "rw10 op lba blocks ! 0 = op" "length (rw10 op lba blocks) = 10"
    by (simp_all add: rw10_def slice_def)
  ultimately show ?thesis using assms(1) by (simp add: rw10_view_def)
qed

lemma rw10_view_other:
  "rw10_view (cdb_inquiry n) = None" "rw10_view cdb_test_unit_ready = None"
  "rw10_view (cdb_request_sense n) = None" "rw10_view cdb_read_capacity10 = None"
  by (simp_all add: rw10_view_def cdb_inquiry_def cdb_test_unit_ready_def cdb_request_sense_def
      cdb_read_capacity10_def scsi_consts)

end
