(* ===== verification/Msd_Engine.thy ===== *)
theory Msd_Engine
  imports Io_Monad Msd_Bot
begin

text \<open>
  The Bulk-Only Transport command engine (\<open>crates/eo9-msd/src/device.rs\<close>): a command goes out as a
  wrapper, data moves in or out, a status comes back; stalls, undecodable statuses and abandoned
  commands are recovered from as the standard says. The endpoints are a parameter, the record
  \<open>transport\<close> of the five methods of the trait over any state; each await may also be the place where
  the future is dropped. A vector holds less than \<open>2 ^ 32\<close> bytes, so \<open>data.len() as u32\<close> is its length.
\<close>

section \<open>The transport\<close>

datatype transport_error = Stall | Timeout | Other bytes

text \<open>\<^term>\<open>None\<close> is a dropped future.\<close>

record 's transport =
  t_bulk_out :: "bytes \<Rightarrow> 's \<Rightarrow> (unit, transport_error) result option \<times> 's"
  t_bulk_in :: "nat \<Rightarrow> 's \<Rightarrow> (bytes, transport_error) result option \<times> 's"
  t_clear_halt_in :: "'s \<Rightarrow> (unit, transport_error) result option \<times> 's"
  t_clear_halt_out :: "'s \<Rightarrow> (unit, transport_error) result option \<times> 's"
  t_mass_storage_reset :: "'s \<Rightarrow> (unit, transport_error) result option \<times> 's"

datatype protocol_error = CbwStalled | CswStalledTwice | BadCsw csw_error | PhaseError

datatype msd_error =
    CommandFailed "sense_data option"
  | Protocol protocol_error
  | Transport transport_error
  | ShortData nat nat

datatype data_phase = NoData | DataIn nat | DataOut bytes

definition FIRST_TAG :: "32 word" where "FIRST_TAG = 0xE0900001"

record 's bot =
  bot_transport :: 's
  bot_tag :: "32 word"
  bot_mid :: bool

definition bot_new :: "'s \<Rightarrow> 's bot" where
  "bot_new t = \<lparr>bot_transport = t, bot_tag = FIRST_TAG, bot_mid = False\<rparr>"

type_synonym ('s, 'a) bot_proc = "('s bot, 'a, msd_error) proc"


section \<open>The ladder\<close>

text \<open>Awaiting a call of the transport.\<close>

definition await :: "('s \<Rightarrow> ('a, transport_error) result option \<times> 's) \<Rightarrow>
    ('s, ('a, transport_error) result) bot_proc" where
  "await call = (\<lambda>b. case call (bot_transport b) of
     (None, t) \<Rightarrow> (Stop Dropped, b\<lparr>bot_transport := t\<rparr>)
   | (Some r, t) \<Rightarrow> (Return r, b\<lparr>bot_transport := t\<rparr>))"

definition must :: "('a, transport_error) result \<Rightarrow> ('s, 'a) bot_proc" where
  "must r = or_fail Transport r"

definition set_mid :: "bool \<Rightarrow> ('s, unit) bot_proc" where
  "set_mid m = modify (\<lambda>b. b\<lparr>bot_mid := m\<rparr>)"

definition reset_recovery :: "'s transport \<Rightarrow> ('s, unit) bot_proc" where
  "reset_recovery T =
     io_bind (io_bind (await (t_mass_storage_reset T)) must) (\<lambda>_.
     io_bind (io_bind (await (t_clear_halt_in T)) must) (\<lambda>_.
     io_bind (await (t_clear_halt_out T)) must))"

text \<open>Reset recovery, after which the conversation broke with the error.\<close>

definition recover_and_fail :: "'s transport \<Rightarrow> protocol_error \<Rightarrow> ('s, 'a) bot_proc" where
  "recover_and_fail T e =
     io_bind (reset_recovery T) (\<lambda>_. io_bind (set_mid False) (\<lambda>_. fail (Protocol e)))"

definition resync :: "'s transport \<Rightarrow> ('s, unit) bot_proc" where
  "resync T = io_bind (reads bot_mid) (\<lambda>mid.
     if mid then io_bind (reset_recovery T) (\<lambda>_. set_mid False) else ret ())"

definition next_tag :: "('s, 32 word) bot_proc" where
  "next_tag = (\<lambda>b. let tag = bot_tag b + 1 in (Return tag, b\<lparr>bot_tag := tag\<rparr>))"

definition send_cbw :: "'s transport \<Rightarrow> bytes \<Rightarrow> ('s, unit) bot_proc" where
  "send_cbw T cbw = io_bind (await (t_bulk_out T cbw)) (\<lambda>r. case r of
     Ok _ \<Rightarrow> ret ()
   | Err Stall \<Rightarrow> recover_and_fail T CbwStalled
   | Err other \<Rightarrow> fail (Transport other))"

text \<open>The loop of the IN data stage.\<close>

function data_in :: "'s transport \<Rightarrow> nat \<Rightarrow> bytes \<Rightarrow> ('s, bytes) bot_proc" where
  "data_in T expected data b =
     (if length data < expected then
        case await (t_bulk_in T (expected - length data)) b of
          (Stop k, b') \<Rightarrow> (Stop k, b')
        | (Return (Ok chunk), b') \<Rightarrow>
            if chunk = [] then (Return data, b') else data_in T expected (data @ chunk) b'
        | (Return (Err Stall), b') \<Rightarrow>
            io_bind (io_bind (await (t_clear_halt_in T)) must) (\<lambda>_. ret data) b'
        | (Return (Err other), b') \<Rightarrow> (Stop (Fail (Transport other)), b')
      else (Return data, b))"
  by pat_completeness auto
termination
  by (relation "measure (\<lambda>(T, expected, data, b). expected - length data)") (auto simp: length_greater_0_conv [symmetric] simp del: length_greater_0_conv)

declare data_in.simps [simp del]

definition data_stage :: "'s transport \<Rightarrow> data_phase \<Rightarrow> ('s, bytes) bot_proc" where
  "data_stage T phase = (case phase of
     NoData \<Rightarrow> ret []
   | DataIn expected \<Rightarrow> data_in T expected []
   | DataOut payload \<Rightarrow> io_bind (await (t_bulk_out T payload)) (\<lambda>r. case r of
       Ok _ \<Rightarrow> ret []
     | Err Stall \<Rightarrow> io_bind (io_bind (await (t_clear_halt_out T)) must) (\<lambda>_. ret [])
     | Err other \<Rightarrow> fail (Transport other)))"

definition csw_stage :: "'s transport \<Rightarrow> ('s, bytes) bot_proc" where
  "csw_stage T = io_bind (await (t_bulk_in T CSW_LEN)) (\<lambda>r. case r of
     Ok bs \<Rightarrow> ret bs
   | Err Stall \<Rightarrow>
       io_bind (io_bind (await (t_clear_halt_in T)) must) (\<lambda>_.
       io_bind (await (t_bulk_in T CSW_LEN)) (\<lambda>r. case r of
         Ok bs \<Rightarrow> ret bs
       | Err Stall \<Rightarrow> recover_and_fail T CswStalledTwice
       | Err other \<Rightarrow> fail (Transport other)))
   | Err other \<Rightarrow> fail (Transport other))"

definition judge_csw :: "'s transport \<Rightarrow> 32 word \<Rightarrow> bytes \<Rightarrow> bytes \<Rightarrow> ('s, bytes \<times> csw) bot_proc" where
  "judge_csw T tag data bs = (case decode_csw bs tag of
     Err e \<Rightarrow> recover_and_fail T (BadCsw e)
   | Ok c \<Rightarrow>
       if csw_status c = CSW_PHASE_ERROR then recover_and_fail T PhaseError
       else io_bind (set_mid False) (\<lambda>_. ret (data, c)))"

definition phase_shape :: "data_phase \<Rightarrow> nat \<times> direction" where
  "phase_shape phase = (case phase of
     NoData \<Rightarrow> (0, Out) | DataIn expected \<Rightarrow> (expected, In) | DataOut payload \<Rightarrow> (length payload, Out))"

text \<open>The exchange proper, from a device that waits for a command.\<close>

definition exchange :: "'s transport \<Rightarrow> bytes \<Rightarrow> data_phase \<Rightarrow> ('s, bytes \<times> csw) bot_proc" where
  "exchange T cdb phase =
     io_bind next_tag (\<lambda>tag.
     io_bind (or_panic (encode_cbw tag (fst (phase_shape phase)) (snd (phase_shape phase)) 0 cdb)) (\<lambda>cbw.
     io_bind (set_mid True) (\<lambda>_.
     io_bind (send_cbw T cbw) (\<lambda>_.
     io_bind (data_stage T phase) (\<lambda>data.
     io_bind (csw_stage T) (\<lambda>bs. judge_csw T tag data bs))))))"

definition execute :: "'s transport \<Rightarrow> bytes \<Rightarrow> data_phase \<Rightarrow> ('s, bytes \<times> csw) bot_proc" where
  "execute T cdb phase = io_bind (resync T) (\<lambda>_. exchange T cdb phase)"

definition fetch_sense :: "'s transport \<Rightarrow> ('s, sense_data option) bot_proc" where
  "fetch_sense T = io_bind (catch (execute T (cdb_request_sense SENSE_LEN) (DataIn SENSE_LEN))) (\<lambda>r. ret (case r of
     Ok (data, c) \<Rightarrow> if csw_status c = CSW_PASSED then sense_parse data else None
   | Err _ \<Rightarrow> None))"

definition command :: "'s transport \<Rightarrow> bytes \<Rightarrow> data_phase \<Rightarrow> ('s, bytes \<times> nat) bot_proc" where
  "command T cdb phase = io_bind (execute T cdb phase) (\<lambda>(data, c).
     if csw_status c = CSW_PASSED then ret (data, csw_residue c)
     else io_bind (fetch_sense T) (\<lambda>sense. fail (CommandFailed sense)))"


section \<open>The six commands\<close>

definition bot_inquiry :: "'s transport \<Rightarrow> ('s, inquiry_data) bot_proc" where
  "bot_inquiry T = io_bind (command T (cdb_inquiry INQUIRY_LEN) (DataIn INQUIRY_LEN)) (\<lambda>(data, residue).
     or_fail (\<lambda>e. e) (ok_or (inquiry_parse data) (ShortData INQUIRY_LEN (length data))))"

definition bot_test_unit_ready :: "'s transport \<Rightarrow> ('s, unit) bot_proc" where
  "bot_test_unit_ready T = io_bind (command T cdb_test_unit_ready NoData) (\<lambda>_. ret ())"

definition bot_read_capacity :: "'s transport \<Rightarrow> ('s, capacity_data) bot_proc" where
  "bot_read_capacity T = io_bind (command T cdb_read_capacity10 (DataIn READ_CAPACITY_LEN)) (\<lambda>(data, residue).
     or_fail (\<lambda>e. e) (ok_or (capacity_parse data) (ShortData READ_CAPACITY_LEN (length data))))"

definition bot_read10 :: "'s transport \<Rightarrow> nat \<Rightarrow> nat \<Rightarrow> nat \<Rightarrow> ('s, bytes) bot_proc" where
  "bot_read10 T lba blocks block_size =
     io_bind (or_panic (times_exec 32 blocks block_size)) (\<lambda>expected.
     io_bind (command T (cdb_read10 lba blocks) (DataIn expected)) (\<lambda>(data, residue).
     if length data < expected then fail (ShortData expected (length data)) else ret data))"

definition bot_write10 :: "'s transport \<Rightarrow> nat \<Rightarrow> nat \<Rightarrow> nat \<Rightarrow> bytes \<Rightarrow> ('s, unit) bot_proc" where
  "bot_write10 T lba blocks block_size payload =
     io_bind (or_panic (times_exec 32 blocks block_size)) (\<lambda>expected.
     io_bind (or_panic (assert_exec (length payload = expected))) (\<lambda>_.
     io_bind (command T (cdb_write10 lba blocks) (DataOut payload)) (\<lambda>(data, residue).
     if residue \<noteq> 0 then fail (ShortData expected (expected - residue)) else ret ())))"


section \<open>A device that keeps to the standard\<close>

text \<open>
  The device side of Bulk-Only Transport over a disk of \<open>n\<close> blocks of \<open>bs\<close> bytes, as the standard
  defines it and as the engine may rely on it. Any call may fail or be dropped; a stall and a short
  packet end a data stage; a status may say anything except that a write passed in full that did not.
  The sets are the blocks that a torn write may still change.
\<close>

type_synonym disk = "nat \<Rightarrow> bytes"

datatype phase =
    Idle
  | Sending bytes
  | Receiving nat nat
  | Status_Due bool "nat set"
  | Reset_Done
  | In_Cleared
  | Lost "nat set"

datatype call = C_Out bytes | C_In nat | C_Clear_In | C_Clear_Out | C_Reset

definition blocks_at :: "disk \<Rightarrow> nat \<Rightarrow> nat \<Rightarrow> bytes" where
  "blocks_at d lba k = concat (map d [lba..<lba + k])"

definition put_blocks :: "nat \<Rightarrow> disk \<Rightarrow> nat \<Rightarrow> nat \<Rightarrow> bytes \<Rightarrow> disk" where
  "put_blocks bs d lba k payload =
     (\<lambda>i. if lba \<le> i \<and> i < lba + k then slice ((i - lba) * bs) bs payload else d i)"

definition same_outside :: "nat set \<Rightarrow> disk \<Rightarrow> disk \<Rightarrow> bool" where
  "same_outside R d d' \<longleftrightarrow> (\<forall>i. i \<notin> R \<longrightarrow> d' i = d i)"

text \<open>The blocks a command writes, if it is a write.\<close>

definition written_by :: "bytes \<Rightarrow> nat set" where
  "written_by bs = (case read_cbw bs of
     None \<Rightarrow> {}
   | Some v \<Rightarrow> (case rw10_view (cbw_cdb v) of
       Some (op, lba, k) \<Rightarrow> if op = OP_WRITE_10 then {lba..<lba + k} else {}
     | None \<Rightarrow> {}))"

fun at_risk :: "phase \<Rightarrow> call \<Rightarrow> nat set" where
  "at_risk Idle (C_Out bs) = written_by bs"
| "at_risk (Receiving lba k) _ = {lba..<lba + k}"
| "at_risk (Status_Due _ R) _ = R"
| "at_risk (Lost R) _ = R"
| "at_risk _ _ = {}"

text \<open>What the device does when it takes a \<open>READ(10)\<close> or \<open>WRITE(10)\<close> that fits the disk.\<close>

definition takes_rw :: "nat \<Rightarrow> nat \<Rightarrow> disk \<Rightarrow> cbw_view \<Rightarrow> phase option" where
  "takes_rw bs n d v = (case rw10_view (cbw_cdb v) of
     None \<Rightarrow> None
   | Some (op, lba, k) \<Rightarrow>
       if n < lba + k \<or> cbw_length v \<noteq> k * bs \<or> cbw_in v \<noteq> (op = OP_READ_10) then None
       else if op = OP_READ_10 then Some (Sending (blocks_at d lba k))
       else Some (Receiving lba k))"

definition passed_in_full :: "bytes \<Rightarrow> bool" where
  "passed_in_full bs \<longleftrightarrow> (\<exists>tag c. decode_csw bs tag = Ok c \<and> csw_status c = CSW_PASSED \<and> csw_residue c = 0)"

text \<open>A stall of a command or of a control request is not part of an exchange.\<close>

fun stall_tears :: "phase \<Rightarrow> call \<Rightarrow> bool" where
  "stall_tears p (C_In k) = False"
| "stall_tears p (C_Out bs) = (p = Idle)"
| "stall_tears p _ = True"

inductive bot_device ::
    "nat \<Rightarrow> nat \<Rightarrow> phase \<Rightarrow> disk \<Rightarrow> call \<Rightarrow> (bytes, transport_error) result option \<Rightarrow> phase \<Rightarrow> disk \<Rightarrow> bool"
  for bs n where
  torn: "r = None \<or> (\<exists>e. r = Some (Err e) \<and> (e = Stall \<longrightarrow> stall_tears p c)) \<Longrightarrow>
     same_outside (at_risk p c) d d' \<Longrightarrow> bot_device bs n p d c r (Lost (at_risk p c)) d'"
| take_rw: "read_cbw cbw = Some v \<Longrightarrow> takes_rw bs n d v = Some p \<Longrightarrow>
     bot_device bs n Idle d (C_Out cbw) (Some (Ok [])) p d"
| take_query: "read_cbw cbw = Some v \<Longrightarrow> rw10_view (cbw_cdb v) = None \<Longrightarrow> length answer \<le> cbw_length v \<Longrightarrow>
     bot_device bs n Idle d (C_Out cbw) (Some (Ok [])) (if cbw_in v then Sending answer else Status_Due True {}) d"
| odd_command: "read_cbw cbw = None \<or> (\<exists>v. read_cbw cbw = Some v \<and> rw10_view (cbw_cdb v) \<noteq> None \<and>
       takes_rw bs n d v = None) \<Longrightarrow>
     bot_device bs n Idle d (C_Out cbw) r (Lost (written_by cbw)) d"
| send: "chunk = take (length chunk) rest \<Longrightarrow> length chunk \<le> k \<Longrightarrow> chunk \<noteq> [] \<Longrightarrow>
     p' = Sending (drop (length chunk) rest) \<or> p' = Status_Due True {} \<Longrightarrow>
     bot_device bs n (Sending rest) d (C_In k) (Some (Ok chunk)) p' d"
| end_data: "bot_device bs n (Sending rest) d (C_In k) (Some (Ok [])) (Status_Due True {}) d"
| stall_in: "bot_device bs n (Sending rest) d (C_In k) (Some (Err Stall)) (Status_Due True {}) d"
| status_now: "CSW_LEN \<le> k \<Longrightarrow> bot_device bs n (Sending []) d (C_In k) (Some (Ok csw)) Idle d"
| receive: "length payload = k * bs \<Longrightarrow>
     bot_device bs n (Receiving lba k) d (C_Out payload) (Some (Ok [])) (Status_Due True {lba..<lba + k})
       (put_blocks bs d lba k payload)"
| receive_some: "same_outside {lba..<lba + k} d d' \<Longrightarrow> r = Ok [] \<or> r = Err Stall \<Longrightarrow>
     bot_device bs n (Receiving lba k) d (C_Out payload) (Some r) (Status_Due False {lba..<lba + k}) d'"
| status: "CSW_LEN \<le> k \<Longrightarrow> passed_in_full csw \<longrightarrow> complete \<Longrightarrow>
     bot_device bs n (Status_Due complete R) d (C_In k) (Some (Ok csw)) Idle d"
| stall_status: "bot_device bs n (Status_Due complete R) d (C_In k) (Some (Err Stall)) (Status_Due complete R) d"
| clear_status: "c = C_Clear_In \<or> c = C_Clear_Out \<Longrightarrow>
     bot_device bs n (Status_Due complete R) d c (Some (Ok [])) (Status_Due complete R) d"
| reset: "same_outside (at_risk p C_Reset) d d' \<Longrightarrow> bot_device bs n p d C_Reset (Some (Ok [])) Reset_Done d'"
| clear_in: "bot_device bs n Reset_Done d C_Clear_In (Some (Ok [])) In_Cleared d"
| clear_out: "bot_device bs n In_Cleared d C_Clear_Out (Some (Ok [])) Idle d"
| lost: "same_outside R d d' \<Longrightarrow> c \<noteq> C_Reset \<Longrightarrow> bot_device bs n (Lost R) d c r (Lost R) d'"


inductive_cases device_out: "bot_device bs n p d (C_Out cbw) r p' d'"
inductive_cases device_in: "bot_device bs n p d (C_In k) r p' d'"
inductive_cases device_clear_in: "bot_device bs n p d C_Clear_In r p' d'"
inductive_cases device_clear_out: "bot_device bs n p d C_Clear_Out r p' d'"
inductive_cases device_reset: "bot_device bs n p d C_Reset r p' d'"

text \<open>A transport whose device, seen through \<open>view\<close> and \<open>disk\<close>, keeps to the standard.\<close>

definition no_data :: "(unit, transport_error) result option \<times> 's \<Rightarrow> (bytes, transport_error) result option \<times> 's" where
  "no_data x = (case x of
     (None, s) \<Rightarrow> (None, s) | (Some (Ok _), s) \<Rightarrow> (Some (Ok []), s) | (Some (Err e), s) \<Rightarrow> (Some (Err e), s))"

fun perform :: "'s transport \<Rightarrow> call \<Rightarrow> 's \<Rightarrow> (bytes, transport_error) result option \<times> 's" where
  "perform T (C_Out bs) s = no_data (t_bulk_out T bs s)"
| "perform T (C_In k) s = t_bulk_in T k s"
| "perform T C_Clear_In s = no_data (t_clear_halt_in T s)"
| "perform T C_Clear_Out s = no_data (t_clear_halt_out T s)"
| "perform T C_Reset s = no_data (t_mass_storage_reset T s)"

definition conforms :: "nat \<Rightarrow> nat \<Rightarrow> 's transport \<Rightarrow> ('s \<Rightarrow> phase) \<Rightarrow> ('s \<Rightarrow> disk) \<Rightarrow> bool" where
  "conforms bs n T view disk \<longleftrightarrow> (\<forall>c s. case perform T c s of
     (r, s') \<Rightarrow> bot_device bs n (view s) (disk s) c r (view s') (disk s')) \<and> (\<forall>s i. length (disk s i) = bs)"

end
