(* ===== verification/Msd_Sync.thy ===== *)
theory Msd_Sync
  imports Msd_Engine
begin

text \<open>
  The engine against a device that keeps to the standard: whatever fails and wherever a future is
  dropped, either the engine knows that an exchange is open or the device waits for a command; so no
  command takes data or status of an earlier one. A read that returns has the blocks of the disk, a
  write that returns has put all of them, and nothing else on the disk changes.
\<close>

section \<open>What holds between calls\<close>

fun risk :: "phase \<Rightarrow> nat set" where
  "risk (Receiving lba k) = {lba..<lba + k}"
| "risk (Status_Due _ R) = R"
| "risk (Lost R) = R"
| "risk _ = {}"

text \<open>
  \<open>kept\<close>: the disk is that of before except for blocks in \<open>W\<close>, and only these may still change.
  \<open>left\<close>: what a stopped command leaves.
\<close>

definition kept :: "('s \<Rightarrow> phase) \<Rightarrow> ('s \<Rightarrow> disk) \<Rightarrow> nat set \<Rightarrow> disk \<Rightarrow> 's bot \<Rightarrow> bool" where
  "kept view disk W d b \<longleftrightarrow> risk (view (bot_transport b)) \<subseteq> W \<and> same_outside W d (disk (bot_transport b))"

definition in_sync :: "('s \<Rightarrow> phase) \<Rightarrow> 's bot \<Rightarrow> bool" where
  "in_sync view b \<longleftrightarrow> bot_mid b \<or> view (bot_transport b) = Idle"

definition left_by ::
    "('s \<Rightarrow> phase) \<Rightarrow> ('s \<Rightarrow> disk) \<Rightarrow> nat set \<Rightarrow> disk \<Rightarrow> 'e stop \<Rightarrow> 's bot \<Rightarrow> bool" where
  "left_by view disk W d k b \<longleftrightarrow> k \<noteq> Panic \<and> in_sync view b \<and> kept view disk W d b"

definition at_phase :: "('s \<Rightarrow> phase) \<Rightarrow> ('s \<Rightarrow> disk) \<Rightarrow> phase \<Rightarrow> disk \<Rightarrow> 's bot \<Rightarrow> bool" where
  "at_phase view disk p d b \<longleftrightarrow> view (bot_transport b) = p \<and> disk (bot_transport b) = d"

lemma same_outside_refl [simp]: "same_outside W d d"
  by (simp add: same_outside_def)

lemma same_outside_trans: "same_outside W d d' \<Longrightarrow> same_outside W d' d'' \<Longrightarrow> same_outside W d d''"
  by (simp add: same_outside_def)

lemma same_outside_mono: "same_outside W d d' \<Longrightarrow> W \<subseteq> W' \<Longrightarrow> same_outside W' d d'"
  by (auto simp: same_outside_def)

lemma same_outside_step: "same_outside W d0 d \<Longrightarrow> same_outside R d d' \<Longrightarrow> R \<subseteq> W \<Longrightarrow> same_outside W d0 d'"
  by (auto simp: same_outside_def)

lemma same_outside_empty [simp]: "same_outside {} d d' \<longleftrightarrow> d' = d"
  by (auto simp: same_outside_def)

lemma at_risk_risk: "c \<noteq> C_Out bs \<Longrightarrow> at_risk p c = risk p \<or> (\<exists>b. c = C_Out b)"
  by (cases p; cases c) simp_all

lemma at_risk_simps [simp]:
  "at_risk p (C_In k) = risk p" "at_risk p C_Clear_In = risk p" "at_risk p C_Clear_Out = risk p"
  "at_risk p C_Reset = risk p"
  by (cases p; simp)+

text \<open>Every await is a step of the device.\<close>

definition bare :: "('a \<Rightarrow> bytes) \<Rightarrow> ('a, transport_error) result \<Rightarrow> (bytes, transport_error) result" where
  "bare g r = (case r of Ok x \<Rightarrow> Ok (g x) | Err e \<Rightarrow> Err e)"

lemma bare_simps [simp]: "bare g (Ok x) = Ok (g x)" "bare g (Err e) = Err e" "bare (\<lambda>x. x) = (\<lambda>r. r)"
  by (auto simp: bare_def fun_eq_iff split: result.split)

lemma no_data_bare: "no_data x = (map_option (bare (\<lambda>_. [])) (fst x), snd x)"
  by (simp add: no_data_def bare_def split: prod.split option.split result.split)

definition stepped ::
    "nat \<Rightarrow> nat \<Rightarrow> ('s \<Rightarrow> phase) \<Rightarrow> ('s \<Rightarrow> disk) \<Rightarrow> phase \<Rightarrow> disk \<Rightarrow> call \<Rightarrow> (bytes, transport_error) result option \<Rightarrow>
     's bot \<Rightarrow> bool" where
  "stepped bs n view disk p d c r b \<longleftrightarrow> bot_mid b \<and>
     bot_device bs n p d c r (view (bot_transport b)) (disk (bot_transport b))"

lemma await_step:
  assumes "\<And>s. bot_device bs n (view s) (disk s) c (map_option (bare g) (fst (call s)))
    (view (snd (call s))) (disk (snd (call s)))"
  shows "valid (\<lambda>b. at_phase view disk p d b \<and> bot_mid b) (await call)
    (\<lambda>r. stepped bs n view disk p d c (Some (bare g r))) (\<lambda>k b. k = Dropped \<and> stepped bs n view disk p d c None b)"
proof (rule validI)
  fix b r b' assume b: "at_phase view disk p d b \<and> bot_mid b" and "await call b = (Return r, b')"
  then have "fst (call (bot_transport b)) = Some r" "b' = b\<lparr>bot_transport := snd (call (bot_transport b))\<rparr>"
    by (auto simp: await_def split: prod.splits option.splits)
  then show "stepped bs n view disk p d c (Some (bare g r)) b'"
    using assms [of "bot_transport b"] b by (simp add: stepped_def at_phase_def)
next
  fix b k b' assume b: "at_phase view disk p d b \<and> bot_mid b" and "await call b = (Stop k, b')"
  then have "k = Dropped" "fst (call (bot_transport b)) = None" "b' = b\<lparr>bot_transport := snd (call (bot_transport b))\<rparr>"
    by (auto simp: await_def split: prod.splits option.splits)
  then show "k = Dropped \<and> stepped bs n view disk p d c None b'"
    using assms [of "bot_transport b"] b by (simp add: stepped_def at_phase_def)
qed

lemma conforms_step:
  assumes "conforms bs n T view disk" and "perform T c s = (r, s')"
  shows "bot_device bs n (view s) (disk s) c r (view s') (disk s')"
  using assms by (simp add: conforms_def split_beta) (metis fst_conv snd_conv)

lemma await_in:
  assumes "conforms bs n T view disk"
  shows "valid (\<lambda>b. at_phase view disk p d b \<and> bot_mid b) (await (t_bulk_in T k))
    (\<lambda>r. stepped bs n view disk p d (C_In k) (Some r)) (\<lambda>s b. s = Dropped \<and> stepped bs n view disk p d (C_In k) None b)"
proof -
  have "bot_device bs n (view s) (disk s) (C_In k) (map_option (bare (\<lambda>x. x)) (fst (t_bulk_in T k s)))
      (view (snd (t_bulk_in T k s))) (disk (snd (t_bulk_in T k s)))" for s
    by (rule conforms_step [OF assms, of "C_In k"]) (simp add: option.map_ident prod_eq_iff)
  from await_step [OF this] show ?thesis by simp
qed

lemma await_unit:
  assumes "conforms bs n T view disk" and "\<And>s. perform T c s = no_data (call s)"
  shows "valid (\<lambda>b. at_phase view disk p d b \<and> bot_mid b) (await call)
    (\<lambda>r. stepped bs n view disk p d c (Some (bare (\<lambda>_. []) r))) (\<lambda>s b. s = Dropped \<and> stepped bs n view disk p d c None b)"
  by (rule await_step, rule conforms_step [OF assms(1), of c]) (simp add: assms(2) no_data_bare)

lemmas await_out = await_unit [of _ _ _ _ _ "C_Out cbw" "t_bulk_out T cbw" for T cbw, OF _ perform.simps(1)]
lemmas await_clear_in = await_unit [of _ _ _ _ _ C_Clear_In "t_clear_halt_in T" for T, OF _ perform.simps(3)]
lemmas await_clear_out = await_unit [of _ _ _ _ _ C_Clear_Out "t_clear_halt_out T" for T, OF _ perform.simps(4)]
lemmas await_reset = await_unit [of _ _ _ _ _ C_Reset "t_mass_storage_reset T" for T, OF _ perform.simps(5)]

text \<open>A torn call leaves the engine in sync, and what is at risk is what was.\<close>

lemma torn_left:
  assumes "stepped bs n view disk p d c r b" and "r = None \<or> (\<exists>e. r = Some (Err e) \<and> (e = Stall \<longrightarrow> c = C_Clear_In \<or> c = C_Clear_Out \<or> c = C_Reset))"
    and "risk p \<union> at_risk p c \<subseteq> W" and "same_outside W d0 d" and "k \<noteq> Panic"
  shows "left_by view disk W d0 k b"
proof -
  from assms(1) have s: "bot_device bs n p d c r (view (bot_transport b)) (disk (bot_transport b))" "bot_mid b"
    by (simp_all add: stepped_def)
  from s(1) have "risk (view (bot_transport b)) \<subseteq> W \<and> same_outside W d (disk (bot_transport b))"
    using assms(2,3) by cases (auto intro: same_outside_mono)
  with s(2) assms(4,5) show ?thesis
    by (auto simp: left_by_def in_sync_def kept_def intro: same_outside_trans)
qed


text \<open>A control request that must succeed.\<close>

lemma request_step:
  assumes "conforms bs n T view disk" and "\<And>s. perform T c s = no_data (call s)"
    and "c = C_Clear_In \<or> c = C_Clear_Out \<or> c = C_Reset"
    and "risk p \<subseteq> W" and "same_outside W d0 d"
    and "\<And>b. stepped bs n view disk p d c (Some (Ok [])) b \<Longrightarrow> Q () b"
  shows "valid (\<lambda>b. at_phase view disk p d b \<and> bot_mid b) (io_bind (await call) must) Q (left_by view disk W d0)"
proof (rule valid_bind)
  have W: "risk p \<union> at_risk p c \<subseteq> W" using assms(3,4) by auto
  show "valid (\<lambda>b. at_phase view disk p d b \<and> bot_mid b) (await call)
      (\<lambda>r. stepped bs n view disk p d c (Some (bare (\<lambda>_. []) r))) (left_by view disk W d0)"
    by (rule valid_conseq [OF await_unit [OF assms(1,2)]]) (auto intro: torn_left [OF _ _ W assms(5)])
  show "valid (stepped bs n view disk p d c (Some (bare (\<lambda>_. []) r))) (must r) Q (left_by view disk W d0)" for r
    unfolding must_def
    by (rule valid_pre [OF valid_or_fail], cases r)
      (auto intro: assms(6) torn_left [OF _ _ W assms(5)] simp: assms(3))
qed

lemma clear_in_status:
  assumes "conforms bs n T view disk" and "R \<subseteq> W" and "same_outside W d0 d"
  shows "valid (\<lambda>b. at_phase view disk (Status_Due ok R) d b \<and> bot_mid b) (io_bind (await (t_clear_halt_in T)) must)
    (\<lambda>_ b. at_phase view disk (Status_Due ok R) d b \<and> bot_mid b) (left_by view disk W d0)"
  by (rule request_step [OF assms(1) perform.simps(3)])
    (use assms in \<open>auto simp: stepped_def at_phase_def elim: device_clear_in\<close>)

lemma clear_out_status:
  assumes "conforms bs n T view disk" and "R \<subseteq> W" and "same_outside W d0 d"
  shows "valid (\<lambda>b. at_phase view disk (Status_Due ok R) d b \<and> bot_mid b) (io_bind (await (t_clear_halt_out T)) must)
    (\<lambda>_ b. at_phase view disk (Status_Due ok R) d b \<and> bot_mid b) (left_by view disk W d0)"
  by (rule request_step [OF assms(1) perform.simps(4)])
    (use assms in \<open>auto simp: stepped_def at_phase_def elim: device_clear_out\<close>)

text \<open>Reset recovery brings the device back from wherever it is.\<close>

lemma reset_recovery_valid:
  assumes C: "conforms bs n T view disk"
  shows "valid (\<lambda>b. kept view disk W d0 b \<and> bot_mid b) (reset_recovery T)
    (\<lambda>_ b. view (bot_transport b) = Idle \<and> same_outside W d0 (disk (bot_transport b)) \<and> bot_mid b)
    (left_by view disk W d0)"
proof -
  have 1: "valid (\<lambda>b. at_phase view disk p d b \<and> bot_mid b) (io_bind (await (t_mass_storage_reset T)) must)
      (\<lambda>_ b. \<exists>d'. same_outside W d0 d' \<and> at_phase view disk Reset_Done d' b \<and> bot_mid b) (left_by view disk W d0)"
    if "risk p \<subseteq> W" "same_outside W d0 d" for p d
    by (rule request_step [OF C perform.simps(5) _ that])
      (use that in \<open>auto simp: stepped_def at_phase_def elim!: device_reset intro: same_outside_step\<close>)
  have 2: "valid (\<lambda>b. \<exists>d'. same_outside W d0 d' \<and> at_phase view disk Reset_Done d' b \<and> bot_mid b)
      (io_bind (await (t_clear_halt_in T)) must)
      (\<lambda>_ b. \<exists>d'. same_outside W d0 d' \<and> at_phase view disk In_Cleared d' b \<and> bot_mid b) (left_by view disk W d0)"
    by (intro valid_ex valid_assume, rule request_step [OF C perform.simps(3)])
      (auto simp: stepped_def at_phase_def elim!: device_clear_in)
  have 3: "valid (\<lambda>b. \<exists>d'. same_outside W d0 d' \<and> at_phase view disk In_Cleared d' b \<and> bot_mid b)
      (io_bind (await (t_clear_halt_out T)) must)
      (\<lambda>_ b. view (bot_transport b) = Idle \<and> same_outside W d0 (disk (bot_transport b)) \<and> bot_mid b) (left_by view disk W d0)"
    by (intro valid_ex valid_assume, rule request_step [OF C perform.simps(4)])
      (auto simp: stepped_def at_phase_def elim!: device_clear_out)
  have "valid (\<lambda>b. \<exists>p d. risk p \<subseteq> W \<and> same_outside W d0 d \<and> at_phase view disk p d b \<and> bot_mid b) (reset_recovery T)
    (\<lambda>_ b. view (bot_transport b) = Idle \<and> same_outside W d0 (disk (bot_transport b)) \<and> bot_mid b)
    (left_by view disk W d0)"
    unfolding reset_recovery_def
    by (intro valid_ex valid_assume valid_bind [OF _ valid_bind [OF 2 3]] 1)
  then show ?thesis by (rule valid_pre) (auto simp: kept_def at_phase_def)
qed



section \<open>The stages of an exchange\<close>

lemma recover_and_fail_valid:
  assumes "conforms bs n T view disk"
  shows "valid (\<lambda>b. kept view disk W d0 b \<and> bot_mid b) (recover_and_fail T e) Q (left_by view disk W d0)"
proof -
  have "valid (\<lambda>b. view (bot_transport b) = Idle \<and> same_outside W d0 (disk (bot_transport b)) \<and> bot_mid b)
      (io_bind (set_mid False) (\<lambda>_. fail (Protocol e))) Q (left_by view disk W d0)"
    by (simp add: valid_def io_bind_def set_mid_def modify_def fail_def left_by_def in_sync_def kept_def)
  from valid_bind [OF reset_recovery_valid [OF assms] this] show ?thesis unfolding recover_and_fail_def .
qed

lemma resync_valid:
  assumes "conforms bs n T view disk"
  shows "valid (\<lambda>b. in_sync view b \<and> kept view disk R d0 b) (resync T)
    (\<lambda>_ b. \<exists>d. same_outside R d0 d \<and> at_phase view disk Idle d b) (left_by view disk R d0)"
proof -
  have "valid (\<lambda>b. kept view disk R d0 b \<and> bot_mid b) (io_bind (reset_recovery T) (\<lambda>_. set_mid False))
      (\<lambda>_ b. \<exists>d. same_outside R d0 d \<and> at_phase view disk Idle d b) (left_by view disk R d0)"
    by (rule valid_bind [OF reset_recovery_valid [OF assms]])
      (auto simp: valid_def set_mid_def modify_def at_phase_def)
  then show ?thesis
    unfolding resync_def io_bind_def reads_def
    by (auto simp: valid_def ret_def in_sync_def kept_def at_phase_def split: if_splits)
qed

text \<open>The status stage, from a device that owes a status (or has already given it away as data).\<close>

definition owes :: "phase \<Rightarrow> bool" where
  "owes p \<longleftrightarrow> p = Sending [] \<or> (\<exists>ok R. p = Status_Due ok R) \<or> p = Idle"

definition given ::
    "('s \<Rightarrow> phase) \<Rightarrow> ('s \<Rightarrow> disk) \<Rightarrow> phase \<Rightarrow> disk \<Rightarrow> bytes \<Rightarrow> 's bot \<Rightarrow> bool" where
  "given view disk p d bs b \<longleftrightarrow> bot_mid b \<and> disk (bot_transport b) = d \<and> p \<noteq> Idle \<and>
     (view (bot_transport b) = Idle \<and> (\<forall>R. p = Status_Due False R \<longrightarrow> \<not> passed_in_full bs) \<or>
      bs = [] \<and> risk (view (bot_transport b)) = {})"

lemma status_ok:
  assumes "stepped bs n view disk p d (C_In k) (Some (Ok csw)) b" and "owes p"
  shows "given view disk p d csw b"
  using assms unfolding stepped_def given_def owes_def by (auto elim!: device_in)

lemma status_stall:
  assumes "stepped bs n view disk p d (C_In k) (Some (Err Stall)) b" and "owes p"
  shows "\<exists>ok R. at_phase view disk (Status_Due ok R) d b \<and> bot_mid b \<and> R = risk p \<and> p \<noteq> Idle \<and>
    (ok \<longleftrightarrow> \<not> (\<exists>R. p = Status_Due False R))"
  using assms unfolding stepped_def at_phase_def owes_def by (auto elim!: device_in)

lemma csw_stage_valid:
  assumes C: "conforms bs n T view disk" and p: "owes p" and W: "risk p \<subseteq> W" "same_outside W d0 d"
  shows "valid (\<lambda>b. at_phase view disk p d b \<and> bot_mid b) (csw_stage T)
    (given view disk p d) (left_by view disk W d0)"
proof -
  have W': "risk p \<union> at_risk p (C_In CSW_LEN) \<subseteq> W" using W(1) by simp
  have retry: "valid (\<lambda>b. at_phase view disk (Status_Due ok R) d b \<and> bot_mid b)
      (io_bind (io_bind (await (t_clear_halt_in T)) must) (\<lambda>_.
       io_bind (await (t_bulk_in T CSW_LEN)) (\<lambda>r. case r of
         Ok bs \<Rightarrow> ret bs
       | Err Stall \<Rightarrow> recover_and_fail T CswStalledTwice
       | Err other \<Rightarrow> fail (Transport other))))
      (given view disk p d) (left_by view disk W d0)"
    if R: "R = risk p" "p \<noteq> Idle" "ok \<longleftrightarrow> \<not> (\<exists>R. p = Status_Due False R)" for ok R
  proof (rule valid_bind [OF clear_in_status [OF C _ W(2)] valid_bind])
    show "R \<subseteq> W" using R(1) W(1) by simp
    have W2: "risk (Status_Due ok R) \<union> at_risk (Status_Due ok R) (C_In CSW_LEN) \<subseteq> W" using R(1) W(1) by simp
    show "valid (\<lambda>b. at_phase view disk (Status_Due ok R) d b \<and> bot_mid b) (await (t_bulk_in T CSW_LEN))
        (\<lambda>r. stepped bs n view disk (Status_Due ok R) d (C_In CSW_LEN) (Some r)) (left_by view disk W d0)"
      by (rule valid_conseq [OF await_in [OF C]]) (auto intro: torn_left [OF _ _ W2 W(2)])
    show "valid (stepped bs n view disk (Status_Due ok R) d (C_In CSW_LEN) (Some r))
        (case r of Ok bs \<Rightarrow> ret bs | Err Stall \<Rightarrow> recover_and_fail T CswStalledTwice
         | Err other \<Rightarrow> fail (Transport other)) (given view disk p d) (left_by view disk W d0)" for r
    proof (cases r)
      case (Ok bs')
      have "given view disk p d bs' b"
        if "stepped bs n view disk (Status_Due ok R) d (C_In CSW_LEN) (Some (Ok bs')) b" for b
        using status_ok [OF that] R(2,3) by (auto simp: given_def owes_def)
      then show ?thesis unfolding Ok result.case by (intro valid_pre [OF valid_ret])
    next
      case (Err e)
      show ?thesis
      proof (cases "e = Stall")
        case True
        have "kept view disk W d0 b \<and> bot_mid b"
          if "stepped bs n view disk (Status_Due ok R) d (C_In CSW_LEN) (Some (Err Stall)) b" for b
          using status_stall [OF that] R(1) W by (auto simp: kept_def at_phase_def owes_def)
        then show ?thesis unfolding Err True by (auto intro!: valid_pre [OF recover_and_fail_valid [OF C]])
      next
        case False
        with Err show ?thesis
          by (cases e) (auto intro!: valid_pre [OF valid_fail] intro: torn_left [OF _ _ W2 W(2)])
      qed
    qed
  qed
  show ?thesis
    unfolding csw_stage_def
  proof (rule valid_bind)
    show "valid (\<lambda>b. at_phase view disk p d b \<and> bot_mid b) (await (t_bulk_in T CSW_LEN))
        (\<lambda>r. stepped bs n view disk p d (C_In CSW_LEN) (Some r)) (left_by view disk W d0)"
      by (rule valid_conseq [OF await_in [OF C]]) (auto intro: torn_left [OF _ _ W' W(2)])
  next
    fix r
    show "valid (stepped bs n view disk p d (C_In CSW_LEN) (Some r))
        (case r of Ok bs \<Rightarrow> ret bs
         | Err Stall \<Rightarrow> io_bind (io_bind (await (t_clear_halt_in T)) must) (\<lambda>_.
             io_bind (await (t_bulk_in T CSW_LEN)) (\<lambda>r. case r of
               Ok bs \<Rightarrow> ret bs
             | Err Stall \<Rightarrow> recover_and_fail T CswStalledTwice
             | Err other \<Rightarrow> fail (Transport other)))
         | Err other \<Rightarrow> fail (Transport other)) (given view disk p d) (left_by view disk W d0)"
    proof (cases r)
      case (Ok bs')
      then show ?thesis by (auto intro!: valid_pre [OF valid_ret] status_ok [OF _ p])
    next
      case (Err e)
      show ?thesis
      proof (cases "e = Stall")
        case True
        have "valid (\<lambda>b. \<exists>ok R. (R = risk p \<and> p \<noteq> Idle \<and> (ok \<longleftrightarrow> \<not> (\<exists>R. p = Status_Due False R))) \<and>
            at_phase view disk (Status_Due ok R) d b \<and> bot_mid b)
          (io_bind (io_bind (await (t_clear_halt_in T)) must) (\<lambda>_.
             io_bind (await (t_bulk_in T CSW_LEN)) (\<lambda>r. case r of
               Ok bs \<Rightarrow> ret bs
             | Err Stall \<Rightarrow> recover_and_fail T CswStalledTwice
             | Err other \<Rightarrow> fail (Transport other)))) (given view disk p d) (left_by view disk W d0)"
          by (intro valid_ex valid_assume retry) auto
        note V = this
        show ?thesis unfolding Err True result.case transport_error.case
        proof (rule valid_pre [OF V])
          fix b assume "stepped bs n view disk p d (C_In CSW_LEN) (Some (Err Stall)) b"
          from status_stall [OF this p] show "\<exists>ok R. (R = risk p \<and> p \<noteq> Idle \<and>
              (ok \<longleftrightarrow> \<not> (\<exists>R. p = Status_Due False R))) \<and>
              at_phase view disk (Status_Due ok R) d b \<and> bot_mid b" by metis
        qed
      next
        case False
        with Err show ?thesis
          by (cases e) (auto intro!: valid_pre [OF valid_fail] intro: torn_left [OF _ _ W' W(2)])
      qed
    qed
  qed
qed


text \<open>
  The IN data stage. What was read is a part of what the device has to send, unless the device gave
  its status away as data and waits for a command again.
\<close>

definition reading ::
    "('s \<Rightarrow> phase) \<Rightarrow> ('s \<Rightarrow> disk) \<Rightarrow> bytes \<Rightarrow> disk \<Rightarrow> bytes \<Rightarrow> 's bot \<Rightarrow> bool" where
  "reading view disk rest0 d data b \<longleftrightarrow> bot_mid b \<and> disk (bot_transport b) = d \<and>
     ((\<exists>rest. view (bot_transport b) = Sending rest \<and> rest0 = data @ rest) \<or>
      (view (bot_transport b) = Status_Due True {} \<and> (\<exists>rest. rest0 = data @ rest)) \<or>
      view (bot_transport b) = Idle)"

lemma reading_step:
  assumes "stepped bs n view disk (view (bot_transport b)) d (C_In k) (Some (Ok chunk)) b'"
    and "reading view disk rest0 d data b"
  shows "reading view disk rest0 d (data @ chunk) b'"
proof -
  from assms(1) have s: "bot_device bs n (view (bot_transport b)) d (C_In k) (Some (Ok chunk))
      (view (bot_transport b')) (disk (bot_transport b'))" and m: "bot_mid b'" by (simp_all add: stepped_def)
  consider rest where "view (bot_transport b) = Sending rest" "rest0 = data @ rest"
    | rest where "view (bot_transport b) = Status_Due True {}" "rest0 = data @ rest"
    | "view (bot_transport b) = Idle"
    using assms(2) by (auto simp: reading_def)
  then show ?thesis
  proof cases
    case 1
    have ap: "rest = chunk @ drop (length chunk) rest" if "chunk = take (length chunk) rest"
      using that append_take_drop_id [of "length chunk" rest] by simp
    from s [unfolded 1(1)] show ?thesis
    proof cases
      case (send)
      then have "chunk = take (length chunk) rest" by simp
      from ap [OF this] have "rest0 = (data @ chunk) @ drop (length chunk) rest" using 1(2) by simp
      with send m show ?thesis unfolding reading_def by blast
    qed (use 1 m in \<open>auto simp: reading_def\<close>)
  next
    case 2
    with s m show ?thesis by (auto simp: reading_def elim!: device_in)
  next
    case 3
    with s show ?thesis by (auto elim!: device_in)
  qed
qed

lemma reading_stall:
  assumes "stepped bs n view disk (view (bot_transport b)) d (C_In k) (Some (Err Stall)) b'"
    and "reading view disk rest0 d data b"
  shows "at_phase view disk (Status_Due True {}) d b' \<and> bot_mid b' \<and> (\<exists>rest. rest0 = data @ rest)"
  using assms unfolding stepped_def reading_def at_phase_def by (auto elim!: device_in)

text \<open>After the stage the device owes a status.\<close>

definition data_read ::
    "('s \<Rightarrow> phase) \<Rightarrow> ('s \<Rightarrow> disk) \<Rightarrow> bytes \<Rightarrow> disk \<Rightarrow> bytes \<Rightarrow> 's bot \<Rightarrow> bool" where
  "data_read view disk rest0 d data b \<longleftrightarrow> (\<exists>p. owes p \<and> risk p = {} \<and> (\<forall>R. p \<noteq> Status_Due False R) \<and>
     at_phase view disk p d b \<and> bot_mid b \<and> (p \<noteq> Idle \<longrightarrow> (\<exists>rest. rest0 = data @ rest)))"

lemma reading_done:
  assumes "reading view disk rest0 d data b" and "length rest0 \<le> length data \<or> view (bot_transport b) = Status_Due True {} \<or>
    view (bot_transport b) = Idle"
  shows "data_read view disk rest0 d data b"
  using assms unfolding reading_def data_read_def owes_def at_phase_def by auto

lemma reading_end:
  assumes "stepped bs n view disk (view (bot_transport b)) d (C_In k) (Some (Ok [])) b'"
    and "reading view disk rest0 d data b"
  shows "data_read view disk rest0 d data b'"
proof (rule reading_done)
  show "reading view disk rest0 d data b'" using reading_step [OF assms] by simp
  show "length rest0 \<le> length data \<or> view (bot_transport b') = Status_Due True {} \<or> view (bot_transport b') = Idle"
    using assms unfolding stepped_def reading_def by (auto elim!: device_in)
qed

lemma data_in_valid:
  assumes C: "conforms bs n T view disk" and len: "length rest0 \<le> expected"
  shows "reading view disk rest0 d data b \<Longrightarrow>
    (case data_in T expected data b of
       (Return data', b') \<Rightarrow> data_read view disk rest0 d data' b'
     | (Stop k, b') \<Rightarrow> left_by view disk {} d k b')"
proof (induction "expected - length data" arbitrary: data b rule: less_induct)
  case less
  let ?p = "view (bot_transport b)" and ?k = "expected - length data"
  have r: "risk ?p = {}" and pre: "at_phase view disk ?p d b \<and> bot_mid b"
    using less.prems by (auto simp: reading_def at_phase_def)
  have W: "risk ?p \<union> at_risk ?p (C_In ?k) \<subseteq> {}" using r by simp
  show ?case
  proof (cases "length data < expected")
    case False
    then have "data_in T expected data b = (Return data, b)" by (subst data_in.simps) simp
    with reading_done [OF less.prems] len False show ?thesis by simp
  next
    case True
    obtain r b1 where a: "await (t_bulk_in T ?k) b = (r, b1)" by fastforce
    show ?thesis
    proof (cases r)
      case (Stop k)
      with valid_Stop [OF await_in [OF C] pre] a
      have "k = Dropped \<and> stepped bs n view disk ?p d (C_In ?k) None b1" by blast
      then have "left_by view disk {} d k b1" using torn_left [OF _ _ W, of bs n view disk d None b1 d] by auto
      with True a Stop show ?thesis by (subst data_in.simps) simp
    next
      case (Return res)
      with valid_Return [OF await_in [OF C] pre] a
      have st: "stepped bs n view disk ?p d (C_In ?k) (Some res) b1" by blast
      show ?thesis
      proof (cases res)
        case (Ok chunk)
        show ?thesis
        proof (cases "chunk = []")
          case True
          with reading_end [OF _ less.prems] st Ok have "data_read view disk rest0 d data b1" by simp
          with True \<open>length data < expected\<close> a Return Ok show ?thesis by (subst data_in.simps) simp
        next
          case False
          with \<open>length data < expected\<close> have "expected - length (data @ chunk) < ?k" by (cases chunk) auto
          from less.hyps [OF this reading_step [OF st [unfolded Ok] less.prems]]
          show ?thesis using False \<open>length data < expected\<close> a Return Ok by (subst data_in.simps) simp
        qed
      next
        case (Err e)
        show ?thesis
        proof (cases "e = Stall")
          case True
          from reading_stall [OF st [unfolded Err True] less.prems]
          have s: "at_phase view disk (Status_Due True {}) d b1 \<and> bot_mid b1" and rest: "\<exists>rest. rest0 = data @ rest" by simp_all
          have "valid (\<lambda>b. at_phase view disk (Status_Due True {}) d b \<and> bot_mid b)
              (io_bind (io_bind (await (t_clear_halt_in T)) must) (\<lambda>_. ret data))
              (\<lambda>data' b. data_read view disk rest0 d data' b) (left_by view disk {} d)"
          proof (rule valid_bind [OF clear_in_status [OF C]])
            have "data_read view disk rest0 d data c"
              if "at_phase view disk (Status_Due True {}) d c \<and> bot_mid c" for c
              unfolding data_read_def
              by (rule exI [of _ "Status_Due True {}"]) (use that rest in \<open>auto simp: owes_def\<close>)
            then show "valid (\<lambda>b. at_phase view disk (Status_Due True {}) d b \<and> bot_mid b) (ret data)
                (\<lambda>data' b. data_read view disk rest0 d data' b) (left_by view disk {} d)" for u
              by (intro valid_pre [OF valid_ret])
          qed simp_all
          with s valid_Return [OF this s] valid_Stop [OF this s] a Return Err True \<open>length data < expected\<close>
          show ?thesis by (subst data_in.simps) (auto split: prod.split io.split)
        next
          case False
          have "left_by view disk {} d (Fail (Transport e)) b1"
            by (rule torn_left [OF st _ W]) (use Err False in auto)
          with False a Return Err True show ?thesis by (subst data_in.simps) (cases e; simp)
        qed
      qed
    qed
  qed
qed


text \<open>The OUT data stage of a write.\<close>

definition data_written ::
    "('s \<Rightarrow> phase) \<Rightarrow> ('s \<Rightarrow> disk) \<Rightarrow> nat \<Rightarrow> nat \<Rightarrow> nat \<Rightarrow> bytes \<Rightarrow> disk \<Rightarrow> 's bot \<Rightarrow> bool" where
  "data_written view disk bs lba k payload d b \<longleftrightarrow> bot_mid b \<and> (\<exists>ok d'.
     at_phase view disk (Status_Due ok {lba..<lba + k}) d' b \<and> same_outside {lba..<lba + k} d d' \<and>
     (ok \<longrightarrow> d' = put_blocks bs d lba k payload))"

lemma put_blocks_same: "same_outside {lba..<lba + k} d (put_blocks bs d lba k payload)"
  by (simp add: same_outside_def put_blocks_def)

lemma data_out_valid:
  assumes C: "conforms bs n T view disk" and len: "length payload = k * bs"
  shows "valid (\<lambda>b. at_phase view disk (Receiving lba k) d b \<and> bot_mid b) (data_stage T (DataOut payload))
    (\<lambda>_. data_written view disk bs lba k payload d) (left_by view disk {lba..<lba + k} d)"
  unfolding data_stage_def data_phase.case
proof (rule valid_bind)
  let ?p = "Receiving lba k" and ?W = "{lba..<lba + k}"
  have W: "risk ?p \<union> at_risk ?p (C_Out payload) \<subseteq> ?W" by simp
  show "valid (\<lambda>b. at_phase view disk ?p d b \<and> bot_mid b) (await (t_bulk_out T payload))
      (\<lambda>r. stepped bs n view disk ?p d (C_Out payload) (Some (bare (\<lambda>_. []) r))) (left_by view disk ?W d)"
    by (rule valid_conseq [OF await_out [OF C]]) (auto intro: torn_left [OF _ _ W])
  fix r
  show "valid (stepped bs n view disk ?p d (C_Out payload) (Some (bare (\<lambda>_. []) r)))
      (case r of Ok _ \<Rightarrow> ret []
       | Err Stall \<Rightarrow> io_bind (io_bind (await (t_clear_halt_out T)) must) (\<lambda>_. ret [])
       | Err other \<Rightarrow> fail (Transport other)) (\<lambda>_. data_written view disk bs lba k payload d) (left_by view disk ?W d)"
  proof (cases r)
    case (Ok u)
    have "data_written view disk bs lba k payload d b"
      if "stepped bs n view disk ?p d (C_Out payload) (Some (Ok [])) b" for b
      using that unfolding stepped_def data_written_def at_phase_def
      by (auto elim!: device_out simp: put_blocks_same)
    then show ?thesis unfolding Ok by (auto intro!: valid_pre [OF valid_ret])
  next
    case (Err e)
    show ?thesis
    proof (cases "e = Stall")
      case True
      have s: "\<exists>d'. same_outside ?W d d' \<and> at_phase view disk (Status_Due False ?W) d' b \<and> bot_mid b"
        if "stepped bs n view disk ?p d (C_Out payload) (Some (Err Stall)) b" for b
        using that unfolding stepped_def at_phase_def by (auto elim!: device_out)
      have "valid (\<lambda>b. at_phase view disk (Status_Due False ?W) d' b \<and> bot_mid b)
          (io_bind (io_bind (await (t_clear_halt_out T)) must) (\<lambda>_. ret []))
          (\<lambda>_. data_written view disk bs lba k payload d) (left_by view disk ?W d)"
        if "same_outside ?W d d'" for d'
      proof (rule valid_bind [OF clear_out_status [OF C _ that]])
        show "?W \<subseteq> ?W" by simp
        show "valid (\<lambda>b. at_phase view disk (Status_Due False ?W) d' b \<and> bot_mid b) (ret [])
          (\<lambda>_. data_written view disk bs lba k payload d) (left_by view disk ?W d)" for u
          by (rule valid_pre [OF valid_ret]) (use that in \<open>auto simp: data_written_def\<close>)
      qed
      then have V: "valid (\<lambda>b. \<exists>d'. same_outside ?W d d' \<and> at_phase view disk (Status_Due False ?W) d' b \<and> bot_mid b)
          (io_bind (io_bind (await (t_clear_halt_out T)) must) (\<lambda>_. ret []))
          (\<lambda>_. data_written view disk bs lba k payload d) (left_by view disk ?W d)"
        by (intro valid_ex valid_assume)
      show ?thesis unfolding Err True result.case transport_error.case bare_simps
        by (rule valid_pre [OF V]) (rule s)
    next
      case False
      with Err show ?thesis
        by (cases e) (auto intro!: valid_pre [OF valid_fail] intro: torn_left [OF _ _ W])
    qed
  qed
qed

text \<open>Judging the status: a return means the device waits for a command again.\<close>

lemma judge_valid:
  assumes C: "conforms bs n T view disk" and W: "same_outside W d0 d"
  shows "valid (given view disk p d bs') (judge_csw T tag data bs')
    (\<lambda>(data', c) b. data' = data \<and> at_phase view disk Idle d b \<and> \<not> bot_mid b \<and> p \<noteq> Idle \<and>
       (csw_status c = CSW_PASSED \<and> csw_residue c = 0 \<longrightarrow> (\<forall>R. p \<noteq> Status_Due False R)))
    (left_by view disk W d0)"
proof (cases "decode_csw bs' tag")
  case (Err e)
  have "kept view disk W d0 b \<and> bot_mid b" if "given view disk p d bs' b" for b
    using that W by (auto simp: given_def kept_def)
  then show ?thesis unfolding judge_csw_def Err result.case
    by (rule valid_pre [OF recover_and_fail_valid [OF C]])
next
  case (Ok c)
  have ne: "bs' \<noteq> []" using Ok by (auto simp: decode_csw_def CSW_LEN_def)
  show ?thesis
  proof (cases "csw_status c = CSW_PHASE_ERROR")
    case True
    have "kept view disk W d0 b \<and> bot_mid b" if "given view disk p d bs' b" for b
      using that W by (auto simp: given_def kept_def)
    then show ?thesis unfolding judge_csw_def Ok result.case if_P [OF True]
      by (rule valid_pre [OF recover_and_fail_valid [OF C]])
  next
    case False
    have "passed_in_full bs'" if "csw_status c = CSW_PASSED" "csw_residue c = 0"
      using that Ok unfolding passed_in_full_def by blast
    with ne show ?thesis unfolding judge_csw_def Ok result.case if_not_P [OF False]
      by (auto simp: valid_def io_bind_def set_mid_def modify_def ret_def given_def at_phase_def)
  qed
qed



section \<open>Whole commands\<close>

definition commanded :: "nat \<Rightarrow> nat \<Rightarrow> disk \<Rightarrow> cbw_view \<Rightarrow> phase \<Rightarrow> bool" where
  "commanded bs n d v p \<longleftrightarrow> takes_rw bs n d v = Some p \<or>
     (rw10_view (cbw_cdb v) = None \<and>
      (if cbw_in v then \<exists>answer. p = Sending answer \<and> length answer \<le> cbw_length v else p = Status_Due True {}))"

lemma send_cbw_valid:
  assumes C: "conforms bs n T view disk" and v: "read_cbw cbw = Some v"
    and ok: "rw10_view (cbw_cdb v) = None \<or> takes_rw bs n d v \<noteq> None" and W: "written_by cbw \<subseteq> W"
  shows "valid (\<lambda>b. at_phase view disk Idle d b \<and> bot_mid b) (send_cbw T cbw)
    (\<lambda>_ b. \<exists>p. commanded bs n d v p \<and> at_phase view disk p d b \<and> bot_mid b) (left_by view disk W d)"
  unfolding send_cbw_def
proof (rule valid_bind)
  have W': "risk Idle \<union> at_risk Idle (C_Out cbw) \<subseteq> W" using W by simp
  show "valid (\<lambda>b. at_phase view disk Idle d b \<and> bot_mid b) (await (t_bulk_out T cbw))
      (\<lambda>r. stepped bs n view disk Idle d (C_Out cbw) (Some (bare (\<lambda>_. []) r))) (left_by view disk W d)"
    by (rule valid_conseq [OF await_out [OF C]]) (auto intro: torn_left [OF _ _ W'])
  fix r
  show "valid (stepped bs n view disk Idle d (C_Out cbw) (Some (bare (\<lambda>_. []) r)))
      (case r of Ok _ \<Rightarrow> ret () | Err Stall \<Rightarrow> recover_and_fail T CbwStalled
       | Err other \<Rightarrow> fail (Transport other))
      (\<lambda>_ b. \<exists>p. commanded bs n d v p \<and> at_phase view disk p d b \<and> bot_mid b) (left_by view disk W d)"
  proof (cases r)
    case (Ok u)
    have "\<exists>p. commanded bs n d v p \<and> at_phase view disk p d b \<and> bot_mid b"
      if "stepped bs n view disk Idle d (C_Out cbw) (Some (Ok [])) b" for b
      using that v ok unfolding stepped_def at_phase_def commanded_def by (auto elim!: device_out)
    then show ?thesis unfolding Ok by (auto intro!: valid_pre [OF valid_ret])
  next
    case (Err e)
    show ?thesis
    proof (cases "e = Stall")
      case True
      have "kept view disk W d b \<and> bot_mid b"
        if "stepped bs n view disk Idle d (C_Out cbw) (Some (Err Stall)) b" for b
        using that W unfolding stepped_def kept_def
        by (auto elim!: device_out intro: same_outside_mono)
      then show ?thesis unfolding Err True by (auto intro!: valid_pre [OF recover_and_fail_valid [OF C]])
    next
      case False
      with Err show ?thesis
        by (cases e) (auto intro!: valid_pre [OF valid_fail] intro: torn_left [OF _ _ W'])
    qed
  qed
qed

definition cbw_for :: "32 word \<Rightarrow> bytes \<Rightarrow> data_phase \<Rightarrow> cbw_view" where
  "cbw_for tag cdb phase = \<lparr>cbw_tag = tag, cbw_length = fst (phase_shape phase),
     cbw_in = (snd (phase_shape phase) = In), cbw_cdb = cdb\<rparr>"

lemma exchange_valid:
  assumes C: "conforms bs n T view disk" and cdb: "cdb \<noteq> []" "length cdb \<le> 16"
    and len: "fst (phase_shape phase) < 2 ^ 32"
    and ok: "rw10_view cdb = None \<or> (\<forall>tag. takes_rw bs n d (cbw_for tag cdb phase) \<noteq> None)"
    and W: "\<And>op lba k. rw10_view cdb = Some (op, lba, k) \<Longrightarrow> op = OP_WRITE_10 \<Longrightarrow> {lba..<lba + k} \<subseteq> W"
    and body: "\<And>tag p. commanded bs n d (cbw_for tag cdb phase) p \<Longrightarrow>
      valid (\<lambda>b. at_phase view disk p d b \<and> bot_mid b)
        (io_bind (data_stage T phase) (\<lambda>data. io_bind (csw_stage T) (\<lambda>bs. judge_csw T tag data bs))) Q (left_by view disk W d)"
  shows "valid (at_phase view disk Idle d) (exchange T cdb phase) Q (left_by view disk W d)"
  unfolding exchange_def
proof (rule valid_bind)
  show "valid (at_phase view disk Idle d) next_tag (\<lambda>_. at_phase view disk Idle d) (left_by view disk W d)"
    by (simp add: valid_def next_tag_def Let_def at_phase_def)
  fix tag
  obtain cbw where e: "encode_cbw tag (fst (phase_shape phase)) (snd (phase_shape phase)) 0 cdb = Some cbw"
    using encode_cbw_Some [OF cdb] by blast
  from read_encode_cbw [OF e len] have v: "read_cbw cbw = Some (cbw_for tag cdb phase)" by (simp add: cbw_for_def)
  have w: "written_by cbw \<subseteq> W"
    using W by (auto simp: written_by_def v cbw_for_def split: option.splits if_splits)
  have "rw10_view (cbw_cdb (cbw_for tag cdb phase)) = None \<or> takes_rw bs n d (cbw_for tag cdb phase) \<noteq> None"
    using ok by (auto simp: cbw_for_def)
  note S = send_cbw_valid [OF C v this w]
  have B: "valid (\<lambda>b. \<exists>p. commanded bs n d (cbw_for tag cdb phase) p \<and> at_phase view disk p d b \<and> bot_mid b)
      (io_bind (data_stage T phase) (\<lambda>data. io_bind (csw_stage T) (\<lambda>bs. judge_csw T tag data bs))) Q (left_by view disk W d)"
    by (intro valid_ex valid_assume body)
  have M: "valid (at_phase view disk Idle d) (set_mid True) (\<lambda>_ b. at_phase view disk Idle d b \<and> bot_mid b) (left_by view disk W d)"
    by (simp add: valid_def set_mid_def modify_def at_phase_def)
  have P: "valid (at_phase view disk Idle d) (or_panic (Some cbw)) (\<lambda>x b. x = cbw \<and> at_phase view disk Idle d b)
      (left_by view disk W d)" by (simp add: valid_def or_panic_def)
  show "valid (at_phase view disk Idle d)
      (io_bind (or_panic (encode_cbw tag (fst (phase_shape phase)) (snd (phase_shape phase)) 0 cdb)) (\<lambda>cbw.
       io_bind (set_mid True) (\<lambda>_. io_bind (send_cbw T cbw) (\<lambda>_. io_bind (data_stage T phase) (\<lambda>data.
       io_bind (csw_stage T) (\<lambda>bs. judge_csw T tag data bs)))))) Q (left_by view disk W d)"
    unfolding e by (rule valid_bind [OF P valid_assume]) (use valid_bind [OF M valid_bind [OF S B]] in simp)
qed


text \<open>A read, a query and a write from a device that waits for a command.\<close>

lemma length_blocks_at:
  assumes "\<And>i. length (d i) = bs"
  shows "length (blocks_at d lba k) = k * bs"
  using assms by (simp add: blocks_at_def length_concat comp_def sum_list_triv)

lemma in_body_valid:
  assumes C: "conforms bs n T view disk" and p: "p = Sending rest0 \<and> length rest0 \<le> expected \<or> p = Status_Due True {} \<and> rest0 = []"
  shows "valid (\<lambda>b. at_phase view disk p d b \<and> bot_mid b)
    (io_bind (data_stage T (DataIn expected)) (\<lambda>data. io_bind (csw_stage T) (\<lambda>bs. judge_csw T tag data bs)))
    (\<lambda>(data, c) b. at_phase view disk Idle d b \<and> \<not> bot_mid b \<and> (\<exists>rest. rest0 = data @ rest)) (left_by view disk {} d)"
proof (rule valid_bind)
  have pre: "reading view disk rest0 d [] b" if "at_phase view disk p d b \<and> bot_mid b" for b
    using that p by (auto simp: reading_def at_phase_def)
  have len: "length rest0 \<le> expected" using p by auto
  show "valid (\<lambda>b. at_phase view disk p d b \<and> bot_mid b) (data_stage T (DataIn expected))
      (data_read view disk rest0 d) (left_by view disk {} d)"
    unfolding data_stage_def data_phase.case valid_def
    using data_in_valid [OF C len pre] by blast
  fix data
  have one: "valid (\<lambda>b. at_phase view disk q d b \<and> bot_mid b) (io_bind (csw_stage T) (\<lambda>bs. judge_csw T tag data bs))
      (\<lambda>(data, c) b. at_phase view disk Idle d b \<and> \<not> bot_mid b \<and> (\<exists>rest. rest0 = data @ rest)) (left_by view disk {} d)"
    if q: "owes q" "risk q = {}" "q \<noteq> Idle \<longrightarrow> (\<exists>rest. rest0 = data @ rest)" for q
  proof (rule valid_bind [OF csw_stage_valid [OF C q(1)]])
    show "valid (given view disk q d bs') (judge_csw T tag data bs')
        (\<lambda>(data, c) b. at_phase view disk Idle d b \<and> \<not> bot_mid b \<and> (\<exists>rest. rest0 = data @ rest)) (left_by view disk {} d)" for bs'
      by (rule valid_conseq [OF judge_valid [OF C, of "{}" d d]]) (use q(3) in auto)
  qed (use q(2) in simp_all)
  have "valid (\<lambda>b. \<exists>q. (owes q \<and> risk q = {} \<and> (q \<noteq> Idle \<longrightarrow> (\<exists>rest. rest0 = data @ rest))) \<and>
      at_phase view disk q d b \<and> bot_mid b) (io_bind (csw_stage T) (\<lambda>bs. judge_csw T tag data bs))
      (\<lambda>(data, c) b. at_phase view disk Idle d b \<and> \<not> bot_mid b \<and> (\<exists>rest. rest0 = data @ rest)) (left_by view disk {} d)"
    by (intro valid_ex valid_assume one) auto
  then show "valid (data_read view disk rest0 d data) (io_bind (csw_stage T) (\<lambda>bs. judge_csw T tag data bs))
      (\<lambda>(data, c) b. at_phase view disk Idle d b \<and> \<not> bot_mid b \<and> (\<exists>rest. rest0 = data @ rest)) (left_by view disk {} d)"
    by (rule valid_pre) (unfold data_read_def, blast)
qed

lemma takes_rw_read:
  assumes "lba + k \<le> n" and "lba < 2 ^ 32" and "k < 2 ^ 16"
  shows "takes_rw bs n d (cbw_for tag (cdb_read10 lba k) (DataIn (k * bs))) = Some (Sending (blocks_at d lba k))"
  using assms rw10_view_cdb [of OP_READ_10 lba k] by (simp add: takes_rw_def cbw_for_def phase_shape_def cdb_read10_def)

lemma takes_rw_write:
  assumes "lba + k \<le> n" and "lba < 2 ^ 32" and "k < 2 ^ 16" and "length payload = k * bs"
  shows "takes_rw bs n d (cbw_for tag (cdb_write10 lba k) (DataOut payload)) = Some (Receiving lba k)"
  using assms rw10_view_cdb [of OP_WRITE_10 lba k]
  by (simp add: takes_rw_def cbw_for_def phase_shape_def cdb_write10_def scsi_consts)

lemma exchange_read:
  assumes C: "conforms bs n T view disk" and bs: "\<And>i. length (d i) = bs"
    and lba: "lba + k \<le> n" "lba < 2 ^ 32" "k < 2 ^ 16" and len: "k * bs < 2 ^ 32"
  shows "valid (at_phase view disk Idle d) (exchange T (cdb_read10 lba k) (DataIn (k * bs)))
    (\<lambda>(data, c) b. at_phase view disk Idle d b \<and> \<not> bot_mid b \<and> (\<exists>rest. blocks_at d lba k = data @ rest))
    (left_by view disk {} d)"
proof (rule exchange_valid [OF C])
  note t = takes_rw_read [OF lba, of bs d]
  have v: "rw10_view (cdb_read10 lba k) = Some (OP_READ_10, lba, k)"
    using rw10_view_cdb [of OP_READ_10 lba k] lba by (simp add: cdb_read10_def)
  show "rw10_view (cdb_read10 lba k) = None \<or> (\<forall>tag. takes_rw bs n d (cbw_for tag (cdb_read10 lba k) (DataIn (k * bs))) \<noteq> None)"
    using t by simp
  show "{l..<l + j} \<subseteq> {}" if "rw10_view (cdb_read10 lba k) = Some (op, l, j)" "op = OP_WRITE_10" for op l j
    using that v by (simp add: scsi_consts)
  show "valid (\<lambda>b. at_phase view disk p d b \<and> bot_mid b)
      (io_bind (data_stage T (DataIn (k * bs))) (\<lambda>data. io_bind (csw_stage T) (\<lambda>bs. judge_csw T tag data bs)))
      (\<lambda>(data, c) b. at_phase view disk Idle d b \<and> \<not> bot_mid b \<and> (\<exists>rest. blocks_at d lba k = data @ rest)) (left_by view disk {} d)"
    if "commanded bs n d (cbw_for tag (cdb_read10 lba k) (DataIn (k * bs))) p" for tag p
    by (rule in_body_valid [OF C])
      (use that t v length_blocks_at [of d bs lba k] bs in \<open>auto simp: commanded_def cbw_for_def\<close>)
qed (use len in \<open>auto simp: phase_shape_def cdb_read10_def rw10_def\<close>)

lemma exchange_query:
  assumes C: "conforms bs n T view disk" and cdb: "cdb \<noteq> []" "length cdb \<le> 16" "rw10_view cdb = None"
    and ph: "phase = NoData \<or> (\<exists>k. phase = DataIn k \<and> k < 2 ^ 32)"
  shows "valid (at_phase view disk Idle d) (exchange T cdb phase)
    (\<lambda>_ b. at_phase view disk Idle d b \<and> \<not> bot_mid b) (left_by view disk {} d)"
proof (rule exchange_valid [OF C cdb(1,2)])
  show "fst (phase_shape phase) < 2 ^ 32" using ph by (auto simp: phase_shape_def)
  fix tag p
  assume com: "commanded bs n d (cbw_for tag cdb phase) p"
  have "valid (\<lambda>b. at_phase view disk p d b \<and> bot_mid b)
      (io_bind (data_stage T phase) (\<lambda>data. io_bind (csw_stage T) (\<lambda>bs. judge_csw T tag data bs)))
      (\<lambda>(data, c) b. at_phase view disk Idle d b \<and> \<not> bot_mid b) (left_by view disk {} d)"
  proof (cases "phase = NoData")
    case True
    then have p: "p = Status_Due True {}"
      using com cdb(3) by (auto simp: commanded_def takes_rw_def cbw_for_def phase_shape_def)
    have D: "valid (\<lambda>b. at_phase view disk p d b \<and> bot_mid b) (data_stage T NoData)
        (\<lambda>_ b. at_phase view disk p d b \<and> bot_mid b) (left_by view disk {} d)"
      by (simp add: data_stage_def valid_def ret_def)
    show ?thesis unfolding True
      by (rule valid_bind [OF D], rule valid_bind [OF csw_stage_valid [OF C]])
        (auto simp: p owes_def intro: valid_conseq [OF judge_valid [OF C, of "{}" d d]])
  next
    case False
    with ph obtain k where k: "phase = DataIn k" by blast
    then obtain answer where "p = Sending answer" "length answer \<le> k"
      using com cdb(3) by (auto simp: commanded_def takes_rw_def cbw_for_def phase_shape_def)
    then show ?thesis unfolding k
      by (intro valid_conseq [OF in_body_valid [OF C, of p answer k d tag]]) auto
  qed
  then show "valid (\<lambda>b. at_phase view disk p d b \<and> bot_mid b)
      (io_bind (data_stage T phase) (\<lambda>data. io_bind (csw_stage T) (\<lambda>bs. judge_csw T tag data bs)))
      (\<lambda>_ b. at_phase view disk Idle d b \<and> \<not> bot_mid b) (left_by view disk {} d)"
    by (simp add: case_prod_unfold)
qed (use cdb(3) in simp_all)


lemma exchange_write:
  assumes C: "conforms bs n T view disk"
    and lba: "lba + k \<le> n" "lba < 2 ^ 32" "k < 2 ^ 16" and len: "k * bs < 2 ^ 32" "length payload = k * bs"
  shows "valid (at_phase view disk Idle d) (exchange T (cdb_write10 lba k) (DataOut payload))
    (\<lambda>(data, c) b. \<exists>d'. at_phase view disk Idle d' b \<and> \<not> bot_mid b \<and> same_outside {lba..<lba + k} d d' \<and>
       (csw_status c = CSW_PASSED \<and> csw_residue c = 0 \<longrightarrow> d' = put_blocks bs d lba k payload))
    (left_by view disk {lba..<lba + k} d)" (is "valid _ _ ?Q _")
proof (rule exchange_valid [OF C])
  let ?W = "{lba..<lba + k}"
  note t = takes_rw_write [OF lba len(2), of d]
  have v: "rw10_view (cdb_write10 lba k) = Some (OP_WRITE_10, lba, k)"
    using rw10_view_cdb [of OP_WRITE_10 lba k] lba by (simp add: cdb_write10_def)
  show "rw10_view (cdb_write10 lba k) = None \<or> (\<forall>tag. takes_rw bs n d (cbw_for tag (cdb_write10 lba k) (DataOut payload)) \<noteq> None)"
    using t by simp
  show "{l..<l + j} \<subseteq> ?W" if "rw10_view (cdb_write10 lba k) = Some (op, l, j)" for op l j
    using that v by simp
  fix tag p
  assume "commanded bs n d (cbw_for tag (cdb_write10 lba k) (DataOut payload)) p"
  then have p: "p = Receiving lba k" using t v by (auto simp: commanded_def cbw_for_def)
  show "valid (\<lambda>b. at_phase view disk p d b \<and> bot_mid b)
      (io_bind (data_stage T (DataOut payload)) (\<lambda>data. io_bind (csw_stage T) (\<lambda>bs. judge_csw T tag data bs)))
      ?Q (left_by view disk ?W d)"
    unfolding p
  proof (rule valid_bind [OF data_out_valid [OF C len(2)]])
    fix data
    have one: "valid (\<lambda>b. at_phase view disk (Status_Due ok ?W) d' b \<and> bot_mid b)
        (io_bind (csw_stage T) (\<lambda>bs. judge_csw T tag data bs)) ?Q (left_by view disk ?W d)"
      if d': "same_outside ?W d d'" "ok \<longrightarrow> d' = put_blocks bs d lba k payload" for ok d'
    proof (rule valid_bind [OF csw_stage_valid [OF C _ _ d'(1)]])
      show "valid (given view disk (Status_Due ok ?W) d' bs') (judge_csw T tag data bs') ?Q (left_by view disk ?W d)" for bs'
        by (rule valid_conseq [OF judge_valid [OF C d'(1)]]) (use d' in \<open>auto\<close>)
    qed (simp_all add: owes_def)
    have "valid (\<lambda>b. \<exists>ok d'. (same_outside ?W d d' \<and> (ok \<longrightarrow> d' = put_blocks bs d lba k payload)) \<and>
        at_phase view disk (Status_Due ok ?W) d' b \<and> bot_mid b)
        (io_bind (csw_stage T) (\<lambda>bs. judge_csw T tag data bs)) ?Q (left_by view disk ?W d)"
      by (intro valid_ex valid_assume one) auto
    then show "valid (data_written view disk bs lba k payload d)
        (io_bind (csw_stage T) (\<lambda>bs. judge_csw T tag data bs)) ?Q (left_by view disk ?W d)"
      by (rule valid_pre) (auto simp: data_written_def)
  qed
qed (use len in \<open>auto simp: phase_shape_def cdb_write10_def rw10_def\<close>)

text \<open>With the resynchronisation in front, from whatever an earlier command left.\<close>

definition idle_after ::
    "('s \<Rightarrow> phase) \<Rightarrow> ('s \<Rightarrow> disk) \<Rightarrow> nat set \<Rightarrow> disk \<Rightarrow> 's bot \<Rightarrow> bool" where
  "idle_after view disk R d0 b \<longleftrightarrow> \<not> bot_mid b \<and> view (bot_transport b) = Idle \<and> same_outside R d0 (disk (bot_transport b))"

definition ready :: "('s \<Rightarrow> phase) \<Rightarrow> ('s \<Rightarrow> disk) \<Rightarrow> nat set \<Rightarrow> disk \<Rightarrow> 's bot \<Rightarrow> bool" where
  "ready view disk R d0 b \<longleftrightarrow> in_sync view b \<and> kept view disk R d0 b"

lemma left_ready: "left_by view disk W d k b \<Longrightarrow> ready view disk W d b"
  by (simp add: left_by_def ready_def)

lemma idle_ready: "idle_after view disk R d0 b \<Longrightarrow> ready view disk R d0 b"
  by (simp add: idle_after_def ready_def in_sync_def kept_def)

lemma left_widen:
  assumes "left_by view disk W d k b" and "same_outside R d0 d" and "W \<subseteq> W'" and "R \<subseteq> W'"
  shows "left_by view disk W' d0 k b"
proof -
  have "same_outside W' d0 (disk (bot_transport b))"
    by (rule same_outside_trans [of _ _ d])
      (use assms in \<open>auto simp: left_by_def kept_def intro: same_outside_mono\<close>)
  with assms show ?thesis by (auto simp: left_by_def kept_def)
qed

lemma execute_valid:
  assumes C: "conforms bs n T view disk" and RW: "R \<subseteq> W'" "W \<subseteq> W'"
    and ex: "\<And>d. same_outside R d0 d \<Longrightarrow> (\<And>i. length (d i) = bs) \<Longrightarrow>
      valid (at_phase view disk Idle d) (exchange T cdb phase) Q (left_by view disk W d)"
  shows "valid (ready view disk R d0) (execute T cdb phase) Q (left_by view disk W' d0)"
  unfolding execute_def
proof (rule valid_bind)
  show "valid (ready view disk R d0) (resync T) (\<lambda>_ b. \<exists>d. same_outside R d0 d \<and> at_phase view disk Idle d b)
      (left_by view disk W' d0)"
    by (rule valid_conseq [OF resync_valid [OF C, of R d0]])
      (use RW in \<open>auto simp: ready_def intro: left_widen [where R = "{}"]\<close>)
  have "valid (\<lambda>b. \<exists>d. (same_outside R d0 d \<and> (\<forall>i. length (d i) = bs)) \<and> at_phase view disk Idle d b)
      (exchange T cdb phase) Q (left_by view disk W' d0)"
    by (intro valid_ex valid_assume valid_conseq [OF ex]) (use RW in \<open>auto intro: left_widen\<close>)
  moreover have "length (disk s i) = bs" for s i using C by (simp add: conforms_def)
  ultimately show "valid (\<lambda>b. \<exists>d. same_outside R d0 d \<and> at_phase view disk Idle d b) (exchange T cdb phase) Q
      (left_by view disk W' d0)"
    by (rule_tac valid_pre) (assumption, auto simp: at_phase_def)
qed

end
