(* ===== verification/Msd_Commands.thy ===== *)
theory Msd_Commands
  imports Msd_Sync
begin

text \<open>
  The commands of the engine as triples over the device's disk, from whatever an earlier command left
  (\<open>ready\<close>): a read returns the blocks asked for, a write has put its blocks, a query changes nothing; a
  command that stops never panics, leaves the engine in sync and leaves only its own blocks at risk.
\<close>

section \<open>Sense, and the check of the status\<close>

lemma left_ready_cases:
  assumes "left_by view disk W d k b"
  shows "case k of Fail e \<Rightarrow> ready view disk W d b | Dropped \<Rightarrow> left_by view disk W d Dropped b
    | Panic \<Rightarrow> left_by view disk W d Panic b"
  using left_ready [OF assms] assms by (cases k) (simp_all add: left_by_def)

lemma idle_left: "idle_after view disk R d0 b \<Longrightarrow> k \<noteq> Panic \<Longrightarrow> left_by view disk R d0 k b"
  by (simp add: idle_after_def left_by_def in_sync_def kept_def)

lemma or_panic_bind [simp]: "io_bind (or_panic (Some v)) f = f v"
  by (simp add: io_bind_def or_panic_def fun_eq_iff)

lemma query_execute:
  assumes C: "conforms bs n T view disk" and cdb: "cdb \<noteq> []" "length cdb \<le> 16" "rw10_view cdb = None"
    and ph: "phase = NoData \<or> (\<exists>k. phase = DataIn k \<and> k < 2 ^ 32)"
  shows "valid (ready view disk R d0) (execute T cdb phase)
    (\<lambda>_. idle_after view disk R d0) (left_by view disk R d0)"
proof (rule execute_valid [OF C])
  show "valid (at_phase view disk Idle d) (exchange T cdb phase) (\<lambda>_. idle_after view disk R d0) (left_by view disk {} d)"
    if "same_outside R d0 d" for d
    by (rule valid_conseq [OF exchange_query [OF C cdb ph]])
      (use that in \<open>auto simp: at_phase_def idle_after_def\<close>)
qed simp_all

lemma sense_cdb: "rw10_view (cdb_request_sense SENSE_LEN) = None" "cdb_request_sense SENSE_LEN \<noteq> []"
  "length (cdb_request_sense SENSE_LEN) \<le> 16"
  by (simp_all add: cdb_request_sense_def rw10_view_def scsi_consts)

lemma fetch_sense_valid:
  assumes C: "conforms bs n T view disk"
  shows "valid (ready view disk R d0) (fetch_sense T) (\<lambda>_. ready view disk R d0) (left_by view disk R d0)"
  unfolding fetch_sense_def
proof (rule valid_bind)
  show "valid (ready view disk R d0) (catch (execute T (cdb_request_sense SENSE_LEN) (DataIn SENSE_LEN)))
      (\<lambda>_. ready view disk R d0) (left_by view disk R d0)"
    by (rule valid_catch, rule valid_conseq [OF query_execute [OF C sense_cdb(2,3,1)]])
      (auto intro: idle_ready left_ready_cases simp: scsi_consts)
qed (rule valid_ret)

lemma command_valid:
  assumes C: "conforms bs n T view disk"
    and ex: "valid P (execute T cdb phase) (\<lambda>(data, c) b. idle_after view disk W d0 b \<and>
      (csw_status c = CSW_PASSED \<longrightarrow> Q (data, csw_residue c) b)) (left_by view disk W d0)"
  shows "valid P (command T cdb phase) (\<lambda>r b. idle_after view disk W d0 b \<and> Q r b) (left_by view disk W d0)"
  unfolding command_def
proof (rule valid_bind [OF ex])
  fix x :: "bytes \<times> csw"
  obtain data c where x: "x = (data, c)" by (cases x)
  have F: "valid (idle_after view disk W d0) (io_bind (fetch_sense T) (\<lambda>sense. fail (CommandFailed sense)))
      (\<lambda>r b. idle_after view disk W d0 b \<and> Q r b) (left_by view disk W d0)"
  proof (rule valid_bind [OF valid_pre [OF fetch_sense_valid [OF C]]])
    show "valid (ready view disk W d0) (fail (CommandFailed sense)) (\<lambda>r b. idle_after view disk W d0 b \<and> Q r b)
        (left_by view disk W d0)" for sense
      by (rule valid_pre [OF valid_fail]) (simp add: ready_def left_by_def)
  qed (rule idle_ready)
  show "valid (case x of (data, c) \<Rightarrow> \<lambda>b. idle_after view disk W d0 b \<and> (csw_status c = CSW_PASSED \<longrightarrow> Q (data, csw_residue c) b))
      (case x of (data, c) \<Rightarrow> if csw_status c = CSW_PASSED then ret (data, csw_residue c)
         else io_bind (fetch_sense T) (\<lambda>sense. fail (CommandFailed sense)))
      (\<lambda>r b. idle_after view disk W d0 b \<and> Q r b) (left_by view disk W d0)"
    unfolding x prod.case
    by (rule valid_if) (auto intro: valid_pre [OF valid_ret] valid_pre [OF F])
qed

section \<open>Reads and writes\<close>

lemma read10_valid:
  assumes C: "conforms bs n T view disk"
    and lba: "lba + k \<le> n" "lba < 2 ^ 32" "k < 2 ^ 16" and len: "k * bs < 2 ^ 32"
  shows "valid (ready view disk R d0) (bot_read10 T lba k bs)
    (\<lambda>data b. idle_after view disk R d0 b \<and> data = blocks_at (disk (bot_transport b)) lba k) (left_by view disk R d0)"
proof -
  have E: "valid (ready view disk R d0) (execute T (cdb_read10 lba k) (DataIn (k * bs)))
      (\<lambda>(data, c) b. idle_after view disk R d0 b \<and> (csw_status c = CSW_PASSED \<longrightarrow>
         (\<exists>rest. blocks_at (disk (bot_transport b)) lba k = data @ rest))) (left_by view disk R d0)"
  proof (rule execute_valid [OF C])
    show "valid (at_phase view disk Idle d) (exchange T (cdb_read10 lba k) (DataIn (k * bs)))
      (\<lambda>(data, c) b. idle_after view disk R d0 b \<and> (csw_status c = CSW_PASSED \<longrightarrow>
         (\<exists>rest. blocks_at (disk (bot_transport b)) lba k = data @ rest))) (left_by view disk {} d)"
      if "same_outside R d0 d" "\<And>i. length (d i) = bs" for d
      by (rule valid_conseq [OF exchange_read [OF C that(2) lba len]])
        (use that in \<open>auto simp: at_phase_def idle_after_def\<close>)
  qed simp_all
  have B: "length (blocks_at (disk s) lba k) = k * bs" for s
    using C by (intro length_blocks_at) (simp add: conforms_def)
  have G: "valid (ready view disk R d0) (command T (cdb_read10 lba k) (DataIn (k * bs)))
      (\<lambda>(data, residue) b. idle_after view disk R d0 b \<and>
         (\<exists>rest. blocks_at (disk (bot_transport b)) lba k = data @ rest)) (left_by view disk R d0)"
    by (rule valid_conseq [OF command_valid [OF C, where P = "ready view disk R d0" and W = R and ?d0.0 = d0 and
          Q = "\<lambda>r b. \<exists>rest. blocks_at (disk (bot_transport b)) lba k = fst r @ rest"]])
      (use E in \<open>auto simp: case_prod_unfold\<close>)
  have S: "valid (\<lambda>b. idle_after view disk R d0 b \<and> (\<exists>rest. blocks_at (disk (bot_transport b)) lba k = data @ rest))
      (if length data < k * bs then fail (ShortData (k * bs) (length data)) else ret data)
      (\<lambda>data b. idle_after view disk R d0 b \<and> data = blocks_at (disk (bot_transport b)) lba k) (left_by view disk R d0)" for data
  proof (rule valid_if)
    show "valid (\<lambda>b. idle_after view disk R d0 b \<and> (\<exists>rest. blocks_at (disk (bot_transport b)) lba k = data @ rest))
        (fail (ShortData (k * bs) (length data)))
        (\<lambda>data b. idle_after view disk R d0 b \<and> data = blocks_at (disk (bot_transport b)) lba k) (left_by view disk R d0)"
      by (rule valid_pre [OF valid_fail]) (auto intro: idle_left)
    show "valid (\<lambda>b. idle_after view disk R d0 b \<and> (\<exists>rest. blocks_at (disk (bot_transport b)) lba k = data @ rest))
        (ret data)
        (\<lambda>data b. idle_after view disk R d0 b \<and> data = blocks_at (disk (bot_transport b)) lba k) (left_by view disk R d0)"
      if full: "\<not> length data < k * bs"
    proof (rule valid_pre [OF valid_ret])
      fix b assume "idle_after view disk R d0 b \<and> (\<exists>rest. blocks_at (disk (bot_transport b)) lba k = data @ rest)"
      then obtain rest where b: "idle_after view disk R d0 b" "blocks_at (disk (bot_transport b)) lba k = data @ rest" by blast
      have "length data + length rest = k * bs" using B [of "bot_transport b"] b(2) by simp
      with full have "length rest = 0" by linarith
      then have "rest = []" by simp
      with b show "idle_after view disk R d0 b \<and> data = blocks_at (disk (bot_transport b)) lba k" by simp
    qed
  qed
  have t: "times_exec 32 k bs = Some (k * bs)" using len by (simp add: times_exec_def)
  show ?thesis
    unfolding bot_read10_def
    by (simp only: t or_panic_bind) (rule valid_bind [OF G], use S in \<open>simp add: case_prod_unfold\<close>)
qed

lemma write10_valid:
  assumes C: "conforms bs n T view disk"
    and lba: "lba + k \<le> n" "lba < 2 ^ 32" "k < 2 ^ 16" and len: "k * bs < 2 ^ 32" "length payload = k * bs"
    and W: "R \<subseteq> W" "{lba..<lba + k} \<subseteq> W"
  shows "valid (ready view disk R d0) (bot_write10 T lba k bs payload)
    (\<lambda>_ b. idle_after view disk W d0 b \<and>
      (\<exists>d. same_outside R d0 d \<and> disk (bot_transport b) = put_blocks bs d lba k payload)) (left_by view disk W d0)"
proof -
  let ?put = "\<lambda>b. \<exists>d. same_outside R d0 d \<and> disk (bot_transport b) = put_blocks bs d lba k payload"
  have E: "valid (ready view disk R d0) (execute T (cdb_write10 lba k) (DataOut payload))
      (\<lambda>(data, c) b. idle_after view disk W d0 b \<and> (csw_status c = CSW_PASSED \<longrightarrow> (csw_residue c = 0 \<longrightarrow> ?put b)))
      (left_by view disk W d0)"
  proof (rule execute_valid [OF C W])
    show "valid (at_phase view disk Idle d) (exchange T (cdb_write10 lba k) (DataOut payload))
      (\<lambda>(data, c) b. idle_after view disk W d0 b \<and> (csw_status c = CSW_PASSED \<longrightarrow> (csw_residue c = 0 \<longrightarrow> ?put b)))
      (left_by view disk {lba..<lba + k} d)"
      if d: "same_outside R d0 d" for d
    proof (rule valid_conseq [OF exchange_write [OF C lba len]])
      fix x :: "bytes \<times> csw" and b
      assume "(case x of (data, c) \<Rightarrow> \<lambda>b. \<exists>d'. at_phase view disk Idle d' b \<and> \<not> bot_mid b \<and>
        same_outside {lba..<lba + k} d d' \<and>
        (csw_status c = CSW_PASSED \<and> csw_residue c = 0 \<longrightarrow> d' = put_blocks bs d lba k payload)) b"
      with d W show "(case x of (data, c) \<Rightarrow> \<lambda>b. idle_after view disk W d0 b \<and>
          (csw_status c = CSW_PASSED \<longrightarrow> (csw_residue c = 0 \<longrightarrow> ?put b))) b"
        by (auto simp: case_prod_unfold at_phase_def idle_after_def intro: same_outside_trans same_outside_mono)
    qed simp_all
  qed
  have G: "valid (ready view disk R d0) (command T (cdb_write10 lba k) (DataOut payload))
      (\<lambda>(data, residue) b. idle_after view disk W d0 b \<and> (residue = 0 \<longrightarrow> ?put b)) (left_by view disk W d0)"
    by (rule valid_conseq [OF command_valid [OF C, where P = "ready view disk R d0" and W = W and ?d0.0 = d0 and
          Q = "\<lambda>r b. snd r = 0 \<longrightarrow> ?put b"]])
      (use E in \<open>auto simp: case_prod_unfold\<close>)
  have S: "valid (\<lambda>b. idle_after view disk W d0 b \<and> (residue = 0 \<longrightarrow> ?put b))
      (if residue \<noteq> 0 then fail (ShortData (k * bs) (k * bs - residue)) else ret ())
      (\<lambda>_ b. idle_after view disk W d0 b \<and> ?put b) (left_by view disk W d0)" for residue
    by (rule valid_if)
      (auto intro!: valid_pre [OF valid_fail] valid_pre [OF valid_ret] intro: idle_left)
  have t: "times_exec 32 k bs = Some (k * bs)" "assert_exec (length payload = k * bs) = Some ()"
    using len by (simp_all add: times_exec_def)
  show ?thesis
    unfolding bot_write10_def
    by (simp only: t or_panic_bind) (rule valid_bind [OF G], use S in \<open>simp add: case_prod_unfold\<close>)
qed

end
