(* ===== verification/Usb_Msd.thy ===== *)
theory Usb_Msd
  imports Msd_Commands
begin

text \<open>
  The disk over a USB mass-storage stick (\<open>guest/stubs/usb-msd/src/lib.rs\<close>): byte-addressed reads and
  writes as block commands of at most \<open>DATA_CAP\<close> bytes, with read-modify-write of the blocks a write
  covers in part, and the slot the brought-up driver waits in between operations. Texts of failures
  are the values of \<open>msd_io\<close> they are rendered from.
\<close>

section \<open>The driver\<close>

definition DATA_CAP :: nat where "DATA_CAP = 64 * 1024"

record 's driver =
  drv_bot :: "'s bot"
  drv_block_size :: nat
  drv_capacity :: nat

datatype usb_error =
    Usb_Denied | No_Controller | Usb_Not_Found | Usb_Busy | Usb_Stall | Usb_Timeout | Usb_Unsupported | Usb_Io bytes

text \<open>What bring-up refuses with: each is one text of the code.\<close>

datatype bring_up_error =
    Usb_Failed string usb_error
  | No_Device
  | Bad_Device_Descriptor
  | Is_A_Hub
  | Bad_Configuration
  | Bad_Flavour byte byte byte
  | No_Interface nat nat byte
  | No_Bulk_In
  | No_Bulk_Out
  | Many_Luns nat
  | Msd_Up_Failed string msd_error
  | Not_Direct_Access byte
  | Bad_Block_Size nat

datatype msd_io = Msd_Failed string msd_error | Short_Rmw | Device_Busy | Bring_Up_Failed bring_up_error

datatype disk_fail = Out_Of_Range | Disk_Io msd_io

text \<open>A call of the engine inside the driver, its error rendered.\<close>

definition on_bot :: "string \<Rightarrow> ('s, 'a) bot_proc \<Rightarrow> ('s driver, 'a, disk_fail) proc" where
  "on_bot what m = map_stop (\<lambda>e. Disk_Io (Msd_Failed what e))
     (\<lambda>d. case m (drv_bot d) of (r, b) \<Rightarrow> (r, d\<lparr>drv_bot := b\<rparr>))"

definition check_range :: "nat \<Rightarrow> nat \<Rightarrow> 's driver \<Rightarrow> (unit, disk_fail) result" where
  "check_range offset len d = (case checked_add 64 offset len of
     None \<Rightarrow> Err Out_Of_Range
   | Some end_at \<Rightarrow> if end_at > drv_capacity d then Err Out_Of_Range else Ok ())"

text \<open>
  The next command of a transfer: the first block, the offset in it, the bytes taken and the blocks
  covered, as the sixteen bits of the command hold them. A block size over \<open>DATA_CAP\<close>, which bring-up
  refuses, could take no byte, and the loop would not end: that is a panic here.
\<close>

definition next_chunk :: "nat \<Rightarrow> nat \<Rightarrow> nat \<Rightarrow> (nat \<times> nat \<times> nat \<times> nat) exec" where
  "next_chunk block_size cursor remaining = do {
     assert_exec (block_size \<noteq> 0);
     let first_block = cursor div block_size;
     let within = cursor - first_block * block_size;
     room \<leftarrow> minus_exec DATA_CAP within;
     let taken = min remaining room;
     assert_exec (taken \<noteq> 0);
     Some (first_block, within, taken, div_ceil (within + taken) block_size mod 2 ^ 16)
   }"

lemma next_chunk_progress:
  "next_chunk bs cursor remaining = Some (f, w, t, k) \<Longrightarrow> 0 < t \<and> t \<le> remaining"
  by (auto simp: next_chunk_def Let_def split: option.splits if_splits bind_splits)

function read_chunks :: "'s transport \<Rightarrow> nat \<Rightarrow> nat \<Rightarrow> bytes \<Rightarrow> ('s driver, bytes, disk_fail) proc" where
  "read_chunks T cursor remaining out d =
     (if remaining = 0 then (Return out, d)
      else case next_chunk (drv_block_size d) cursor remaining of
        None \<Rightarrow> (Stop Panic, d)
      | Some (first_block, within, taken, blocks) \<Rightarrow>
          (case on_bot ''READ(10)'' (bot_read10 T (first_block mod 2 ^ 32) blocks (drv_block_size d)) d of
             (Stop k, d') \<Rightarrow> (Stop k, d')
           | (Return chunk, d') \<Rightarrow>
               if length chunk < within + taken then (Stop Panic, d')
               else read_chunks T (cursor + taken) (remaining - taken) (out @ slice within taken chunk) d'))"
  by pat_completeness auto
termination
  by (relation "measure (\<lambda>(T, cursor, remaining, out, d). remaining)") (auto dest!: next_chunk_progress)

declare read_chunks.simps [simp del]

definition read_bytes :: "'s transport \<Rightarrow> nat \<Rightarrow> nat \<Rightarrow> ('s driver, bytes, disk_fail) proc" where
  "read_bytes T offset len = io_bind (io_bind (reads (check_range offset len)) (or_fail (\<lambda>e. e)))
     (\<lambda>_. read_chunks T offset len [])"

text \<open>What is written for a chunk: the bytes themselves, or the covering blocks with the bytes laid over.\<close>

definition chunk_to_write ::
    "'s transport \<Rightarrow> nat \<Rightarrow> nat \<Rightarrow> nat \<Rightarrow> bytes \<Rightarrow> ('s driver, bytes, disk_fail) proc" where
  "chunk_to_write T first_block within blocks part d =
     (let bs = drv_block_size d; end_within = within + length part in
      if within = 0 \<and> end_within mod bs = 0 then (Return part, d)
      else io_bind (on_bot ''READ(10) (RMW)'' (bot_read10 T (first_block mod 2 ^ 32) blocks bs)) (\<lambda>current.
        if length current < blocks * bs then fail (Disk_Io Short_Rmw)
        else if length current < end_within then or_panic None
        else ret (take within current @ part @ drop end_within current)) d)"

function write_chunks :: "'s transport \<Rightarrow> nat \<Rightarrow> nat \<Rightarrow> bytes \<Rightarrow> ('s driver, unit, disk_fail) proc" where
  "write_chunks T cursor written bs d =
     (if length bs \<le> written then (Return (), d)
      else case next_chunk (drv_block_size d) cursor (length bs - written) of
        None \<Rightarrow> (Stop Panic, d)
      | Some (first_block, within, taken, blocks) \<Rightarrow>
          (case io_bind (chunk_to_write T first_block within blocks (slice written taken bs)) (\<lambda>chunk d'.
               on_bot ''WRITE(10)'' (bot_write10 T (first_block mod 2 ^ 32) blocks (drv_block_size d') chunk) d') d of
             (Stop k, d') \<Rightarrow> (Stop k, d')
           | (Return _, d') \<Rightarrow> write_chunks T (cursor + taken) (written + taken) bs d'))"
  by pat_completeness auto
termination
  by (relation "measure (\<lambda>(T, cursor, written, bs, d). length bs - written)") (auto dest!: next_chunk_progress)

declare write_chunks.simps [simp del]

definition write_bytes :: "'s transport \<Rightarrow> nat \<Rightarrow> bytes \<Rightarrow> ('s driver, unit, disk_fail) proc" where
  "write_bytes T offset bs = io_bind (io_bind (reads (check_range offset (length bs))) (or_fail (\<lambda>e. e)))
     (\<lambda>_. write_chunks T offset 0 bs)"


section \<open>Bytes of the disk\<close>

definition byte_at :: "nat \<Rightarrow> disk \<Rightarrow> nat \<Rightarrow> byte" where
  "byte_at bs d i = d (i div bs) ! (i mod bs)"

lemma blocks_at_nth:
  assumes "\<And>i. length (d i) = bs" and "j < k * bs"
  shows "blocks_at d lba k ! j = byte_at bs d (lba * bs + j)"
  using assms(2)
proof (induction k arbitrary: j)
  case (Suc k)
  have len: "length (blocks_at d lba k) = k * bs" by (rule length_blocks_at [OF assms(1)])
  have split: "blocks_at d lba (Suc k) = blocks_at d lba k @ d (lba + k)" by (simp add: blocks_at_def)
  show ?case
  proof (cases "j < k * bs")
    case True
    with Suc.IH [OF True] len show ?thesis by (simp add: split nth_append)
  next
    case False
    then obtain i where j: "j = k * bs + i" by (metis le_iff_add not_less)
    with Suc.prems have i: "i < bs" by simp
    have "lba * bs + j = (lba + k) * bs + i" by (simp add: j algebra_simps)
    with i have "(lba * bs + j) div bs = lba + k" "(lba * bs + j) mod bs = i" by simp_all
    with j len show ?thesis by (simp add: split nth_append byte_at_def)
  qed
qed simp

lemma blocks_at_slice:
  assumes "\<And>i. length (d i) = bs" and "w + t \<le> k * bs"
  shows "slice w t (blocks_at d lba k) = map (byte_at bs d) [lba * bs + w..<lba * bs + w + t]"
  using assms length_blocks_at [of d bs lba k, OF assms(1)]
  by (intro nth_equalityI) (auto simp: nth_slice blocks_at_nth add.assoc)

lemma put_blocks_byte:
  assumes "length payload = k * bs" and "0 < bs"
  shows "byte_at bs (put_blocks bs d lba k payload) i =
    (if lba * bs \<le> i \<and> i < (lba + k) * bs then payload ! (i - lba * bs) else byte_at bs d i)"
proof -
  have b: "lba \<le> i div bs \<and> i div bs < lba + k \<longleftrightarrow> lba * bs \<le> i \<and> i < (lba + k) * bs"
    using assms(2) by (simp add: less_eq_div_iff_mult_less_eq div_less_iff_less_mult)
  show ?thesis
  proof (cases "lba * bs \<le> i \<and> i < (lba + k) * bs")
    case True
    define q r where "q = i div bs" and "r = i mod bs"
    have i: "i = q * bs + r" and r: "r < bs" using assms(2) by (simp_all add: q_def r_def)
    have q: "lba \<le> q" "q < lba + k" using b True by (simp_all add: q_def)
    have le: "(q - lba) * bs + bs \<le> length payload"
      using q mult_le_mono1 [of "Suc (q - lba)" k bs] by (simp add: assms(1) add.commute)
    have "slice ((q - lba) * bs) bs payload ! r = payload ! ((q - lba) * bs + r)"
      using r le by (rule nth_slice)
    moreover have "(q - lba) * bs + r = i - lba * bs" using q by (simp add: i diff_mult_distrib)
    ultimately show ?thesis using True q by (simp add: byte_at_def put_blocks_def flip: q_def r_def)
  next
    case False
    with b have "\<not> (lba \<le> i div bs \<and> i div bs < lba + k)" by blast
    then show ?thesis unfolding if_not_P [OF False] byte_at_def put_blocks_def by (simp only: if_False)
  qed
qed

lemma same_outside_byte:
  "same_outside R d d' \<Longrightarrow> i div bs \<notin> R \<Longrightarrow> byte_at bs d' i = byte_at bs d i"
  by (simp add: same_outside_def byte_at_def)


section \<open>One command of a transfer\<close>

lemma next_chunk_fits:
  assumes bs: "2 \<le> bs" "bs \<le> DATA_CAP" and rem: "0 < remaining" "cursor + remaining \<le> n * bs" and n: "n \<le> 2 ^ 32"
  obtains f w t k where "next_chunk bs cursor remaining = Some (f, w, t, k)"
    and "cursor = f * bs + w" "0 < t" "t \<le> remaining" "w + t \<le> k * bs" "f + k \<le> n"
    and "f mod 2 ^ 32 = f" "f < 2 ^ 32" "k < 2 ^ 16" "k * bs < 2 ^ 32" "k * bs < w + t + bs" "w < bs"
proof -
  define f w where "f = cursor div bs" and "w = cursor mod bs"
  define t where "t = min remaining (DATA_CAP - w)"
  define k where "k = div_ceil (w + t) bs"
  have c: "cursor = f * bs + w" and w: "w < bs" using bs by (simp_all add: f_def w_def)
  have t: "0 < t" "t \<le> remaining" "w + t \<le> DATA_CAP" using rem(1) w bs by (auto simp: t_def)
  have k: "w + t \<le> k * bs" "k * bs < w + t + bs" using div_ceil_bounds [of bs "w + t"] bs by (auto simp: k_def)
  have "k \<le> 2 ^ 15"
    unfolding k_def using bs t by (subst div_ceil_le_iff) (auto simp: DATA_CAP_def intro: order_trans [of _ "2 ^ 15 * 2"])
  then have k16: "k < 2 ^ 16" by simp
  have "w + t \<le> (n - f) * bs" using rem(2) t(2) c by (simp add: diff_mult_distrib)
  then have "k \<le> n - f" unfolding k_def using bs by (subst div_ceil_le_iff) auto
  moreover have "f < n"
  proof (rule ccontr)
    assume "\<not> f < n"
    then have "n * bs \<le> f * bs" by simp
    with rem c show False by simp
  qed
  ultimately have fk: "f + k \<le> n" by simp
  have f32: "f < 2 ^ 32" using \<open>f < n\<close> n by simp
  have "k * bs < 2 ^ 32" using k(2) t(3) w bs(2) by (simp add: DATA_CAP_def)
  moreover have "next_chunk bs cursor remaining = Some (f, w, t, k)"
    using bs w t(1) k16 c rem(1)
    by (simp add: next_chunk_def Let_def minus_exec_def f_def [symmetric] w_def [symmetric] t_def [symmetric]
        k_def [symmetric] assert_exec_def)
  ultimately show ?thesis using that c t k k16 fk f32 w by simp
qed


definition sized :: "nat \<Rightarrow> nat \<Rightarrow> 's driver \<Rightarrow> bool" where
  "sized bs n d \<longleftrightarrow> drv_block_size d = bs \<and> drv_capacity d = n * bs"

text \<open>A stopped operation: no panic, the engine in sync, the disk changed in \<open>W\<close> at most.\<close>

definition stopped ::
    "('s \<Rightarrow> phase) \<Rightarrow> ('s \<Rightarrow> disk) \<Rightarrow> nat \<Rightarrow> nat \<Rightarrow> nat set \<Rightarrow> disk \<Rightarrow> 'e stop \<Rightarrow> 's driver \<Rightarrow> bool" where
  "stopped view disk bs n W d0 k d \<longleftrightarrow> left_by view disk W d0 k (drv_bot d) \<and> sized bs n d"

abbreviation disk_of :: "('s \<Rightarrow> disk) \<Rightarrow> 's driver \<Rightarrow> disk" where
  "disk_of disk d \<equiv> disk (bot_transport (drv_bot d))"

lemma valid_on_bot:
  assumes "valid P m Q (left_by view disk W d0)"
  shows "valid (\<lambda>d. P (drv_bot d) \<and> sized bs n d) (on_bot what m) (\<lambda>x d. Q x (drv_bot d) \<and> sized bs n d)
    (stopped view disk bs n W d0)"
  unfolding on_bot_def
proof (rule valid_map_stop, rule validI)
  fix d x d' assume P: "P (drv_bot d) \<and> sized bs n d"
    and r: "(case m (drv_bot d) of (r, b) \<Rightarrow> (r, d\<lparr>drv_bot := b\<rparr>)) = (Return x, d')"
  obtain r0 b where m: "m (drv_bot d) = (r0, b)" by fastforce
  with r have "m (drv_bot d) = (Return x, b)" "d' = d\<lparr>drv_bot := b\<rparr>" by simp_all
  with P valid_Return [OF assms] show "Q x (drv_bot d') \<and> sized bs n d'" by (auto simp: sized_def)
next
  fix d k d' assume P: "P (drv_bot d) \<and> sized bs n d"
    and r: "(case m (drv_bot d) of (r, b) \<Rightarrow> (r, d\<lparr>drv_bot := b\<rparr>)) = (Stop k, d')"
  obtain r0 b where m: "m (drv_bot d) = (r0, b)" by fastforce
  with r have "m (drv_bot d) = (Stop k, b)" and d': "d' = d\<lparr>drv_bot := b\<rparr>" by simp_all
  with P valid_Stop [OF assms] have "left_by view disk W d0 k b" by blast
  with d' P show "case k of Fail e \<Rightarrow> stopped view disk bs n W d0 (Fail (Disk_Io (Msd_Failed what e))) d'
      | Dropped \<Rightarrow> stopped view disk bs n W d0 Dropped d' | Panic \<Rightarrow> stopped view disk bs n W d0 Panic d'"
    by (cases k) (auto simp: stopped_def left_by_def sized_def)
qed

lemmas on_read10 = valid_on_bot [OF read10_valid]
lemmas on_write10 = valid_on_bot [OF write10_valid]

text \<open>From where a command left the device: nothing is at risk any more.\<close>

definition holding :: "('s \<Rightarrow> phase) \<Rightarrow> ('s \<Rightarrow> disk) \<Rightarrow> nat \<Rightarrow> nat \<Rightarrow> nat set \<Rightarrow> disk \<Rightarrow> 's driver \<Rightarrow> bool" where
  "holding view disk bs n R d0 d \<longleftrightarrow> ready view disk R d0 (drv_bot d) \<and> sized bs n d"

lemma idle_holding:
  assumes "idle_after view disk R d0 (drv_bot d)" and "sized bs n d"
  shows "holding view disk bs n {} (disk_of disk d) d"
  using assms by (simp add: holding_def ready_def idle_after_def in_sync_def kept_def)

lemma stopped_widen:
  assumes "stopped view disk bs n W d1 k d" and "same_outside W' d0 d1" and "W \<subseteq> W'"
  shows "stopped view disk bs n W' d0 k d"
  using assms left_widen [of view disk W d1 k "drv_bot d" W' d0 W'] by (auto simp: stopped_def)

text \<open>A chunk of a read.\<close>

lemma read_chunks_valid:
  assumes C: "conforms bs n T view disk" and bs: "2 \<le> bs" "bs \<le> DATA_CAP" and n: "n \<le> 2 ^ 32"
  shows "holding view disk bs n R d0 d \<Longrightarrow> cursor + remaining \<le> n * bs \<Longrightarrow>
    (case read_chunks T cursor remaining out d of
       (Return out', d') \<Rightarrow> holding view disk bs n R d0 d' \<and>
          out' = out @ map (byte_at bs (disk_of disk d')) [cursor..<cursor + remaining] \<and>
          (R = {} \<longrightarrow> disk_of disk d' = d0)
     | (Stop k, d') \<Rightarrow> stopped view disk bs n R d0 k d')"
proof (induction remaining arbitrary: R d0 d cursor out rule: less_induct)
  case (less remaining)
  have size: "drv_block_size d = bs" using less.prems(1) by (simp add: holding_def sized_def)
  show ?case
  proof (cases "remaining = 0")
    case True
    then show ?thesis using less.prems(1) by (auto simp: read_chunks.simps holding_def ready_def kept_def)
  next
    case False
    then have pos: "0 < remaining" by simp
    obtain f w t k where ch: "next_chunk bs cursor remaining = Some (f, w, t, k)"
      and c: "cursor = f * bs + w" "0 < t" "t \<le> remaining" "w + t \<le> k * bs" "f + k \<le> n"
      "f mod 2 ^ 32 = f" "f < 2 ^ 32" "k < 2 ^ 16" "k * bs < 2 ^ 32"
      by (rule next_chunk_fits [OF bs pos less.prems(2) n], rule that)
    note V = on_read10 [OF C c(5,7,8,9), of R d0 bs n "''READ(10)''"]
    have pre: "ready view disk R d0 (drv_bot d) \<and> sized bs n d" using less.prems(1) by (simp add: holding_def)
    obtain r d1 where run: "on_bot ''READ(10)'' (bot_read10 T f k bs) d = (r, d1)" by fastforce
    show ?thesis
    proof (cases r)
      case (Stop s)
      with run valid_Stop [OF V pre] have "stopped view disk bs n R d0 s d1" by simp
      with False ch c(6) run Stop size show ?thesis by (subst read_chunks.simps) simp
    next
      case (Return chunk)
      with run valid_Return [OF V pre] have i: "idle_after view disk R d0 (drv_bot d1)" and s1: "sized bs n d1"
        and chunk: "chunk = blocks_at (disk_of disk d1) f k" by simp_all
      have blen: "length (disk_of disk d1 j) = bs" for j using C by (simp add: conforms_def)
      have len: "length chunk = k * bs" using chunk length_blocks_at [OF blen] by simp
      have part: "slice w t chunk = map (byte_at bs (disk_of disk d1)) [cursor..<cursor + t]"
        using blocks_at_slice [OF blen c(4)] chunk c(1) by (simp add: add.assoc)
      have out: "R = {} \<longrightarrow> disk_of disk d1 = d0" and so: "same_outside R d0 (disk_of disk d1)"
        using i by (auto simp: idle_after_def)
      have step: "read_chunks T cursor remaining out d = read_chunks T (cursor + t) (remaining - t) (out @ slice w t chunk) d1"
        using False ch c(4,6) run Return size len by (subst read_chunks.simps) simp
      have "cursor + t + (remaining - t) \<le> n * bs" and "remaining - t < remaining" using less.prems(2) c(2,3) by simp_all
      note IH = less.IH [OF this(2) idle_holding [OF i s1] this(1), of "out @ slice w t chunk"]
      have join: "map g [cursor..<cursor + t] @ map g [cursor + t..<cursor + remaining] = map g [cursor..<cursor + remaining]"
        for g :: "nat \<Rightarrow> byte"
        using c(3) upt_add_eq_append [of cursor "cursor + t" "remaining - t"] by (simp flip: map_append)
      from IH show ?thesis unfolding step part
        using so c(3) out stopped_widen [OF _ so, of view disk bs n "{}"]
        by (auto split: prod.splits io.splits
            simp: holding_def ready_def kept_def join intro: same_outside_trans)
    qed
  qed
qed


text \<open>A chunk of a write: exactly its bytes change, and a failure leaves only its blocks at risk.\<close>

definition chunk_put ::
    "('s \<Rightarrow> disk) \<Rightarrow> nat \<Rightarrow> nat set \<Rightarrow> disk \<Rightarrow> nat \<Rightarrow> bytes \<Rightarrow> 's driver \<Rightarrow> bool" where
  "chunk_put disk bs R d0 cursor part d \<longleftrightarrow> (\<exists>d1. same_outside R d0 d1 \<and>
     (\<forall>i. byte_at bs (disk_of disk d) i =
        (if cursor \<le> i \<and> i < cursor + length part then part ! (i - cursor) else byte_at bs d1 i)))"

lemma overlay_bytes:
  assumes bs: "0 < bs" "\<And>i. length (d i) = bs" and fit: "w + length part \<le> k * bs"
    and payload_def: "payload = take w (blocks_at d f k) @ part @ drop (w + length part) (blocks_at d f k)"
  shows "length payload = k * bs"
    and "byte_at bs (put_blocks bs d f k payload) i =
      (if f * bs + w \<le> i \<and> i < f * bs + w + length part then part ! (i - (f * bs + w)) else byte_at bs d i)"
proof -
  have len: "length (blocks_at d f k) = k * bs" using bs(2) by (rule length_blocks_at)
  show plen: "length payload = k * bs" using len fit by (simp add: payload_def)
  show "byte_at bs (put_blocks bs d f k payload) i =
      (if f * bs + w \<le> i \<and> i < f * bs + w + length part then part ! (i - (f * bs + w)) else byte_at bs d i)"
  proof (cases "f * bs \<le> i \<and> i < (f + k) * bs")
    case False
    with fit show ?thesis by (auto simp: put_blocks_byte [OF plen bs(1)] algebra_simps)
  next
    case True
    define j where "j = i - f * bs"
    with True have i: "i = f * bs + j" and j: "j < k * bs"
      by (auto simp: add_mult_distrib less_diff_conv2)
    have "payload ! j = (if w \<le> j \<and> j < w + length part then part ! (j - w) else blocks_at d f k ! j)"
      using len fit j by (auto simp: payload_def nth_append min_def)
    with True j show ?thesis
      by (simp add: put_blocks_byte [OF plen bs(1)] i blocks_at_nth [OF bs(2)])
  qed
qed

lemma whole_blocks:
  assumes "len mod bs = 0" and "len \<le> k * (bs :: nat)" and "k * bs < len + bs" and "0 < bs"
  shows "len = k * bs"
proof -
  define q where "q = len div bs"
  have q: "len = q * bs" using assms(1) div_mult_mod_eq [of len bs] by (simp add: q_def)
  have "q * bs \<le> k * bs" using assms(2) q by simp
  then have 1: "q \<le> k" using assms(4) by (simp only: mult_le_cancel2)
  have "k * bs < Suc q * bs" using assms(3) q by simp
  then have "k < Suc q" by (simp only: mult_less_cancel2)
  with 1 q show ?thesis by simp
qed

lemma write_step_valid:
  assumes C: "conforms bs n T view disk" and bs: "2 \<le> bs"
    and c: "w + length part \<le> k * bs" "k * bs < w + length part + bs" "f + k \<le> n"
      "f mod 2 ^ 32 = f" "f < 2 ^ 32" "k < 2 ^ 16" "k * bs < 2 ^ 32"
  shows "valid (holding view disk bs n R d0)
    (io_bind (chunk_to_write T f w k part) (\<lambda>chunk d'. on_bot ''WRITE(10)'' (bot_write10 T (f mod 2 ^ 32) k (drv_block_size d') chunk) d'))
    (\<lambda>_ d. idle_after view disk (R \<union> {f..<f + k}) d0 (drv_bot d) \<and> sized bs n d \<and>
       chunk_put disk bs R d0 (f * bs + w) part d)
    (stopped view disk bs n (R \<union> {f..<f + k}) d0)"
proof (cases "w = 0 \<and> (w + length part) mod bs = 0")
  case True
  then have w: "w = 0" and m: "length part mod bs = 0" by auto
  have len: "length part = k * bs" using whole_blocks [OF m, of k] c(1,2) w bs by simp
  have V: "valid (\<lambda>d. ready view disk R d0 (drv_bot d) \<and> sized bs n d) (on_bot ''WRITE(10)'' (bot_write10 T f k bs part))
      (\<lambda>_ d. idle_after view disk (R \<union> {f..<f + k}) d0 (drv_bot d) \<and> sized bs n d \<and> chunk_put disk bs R d0 (f * bs + w) part d)
      (stopped view disk bs n (R \<union> {f..<f + k}) d0)"
  proof (rule valid_conseq [OF on_write10 [OF C c(3,5,6,7) len, of R "R \<union> {f..<f + k}" d0 bs n]])
    fix x :: unit and d
    assume "(idle_after view disk (R \<union> {f..<f + k}) d0 (drv_bot d) \<and>
        (\<exists>d'. same_outside R d0 d' \<and> disk_of disk d = put_blocks bs d' f k part)) \<and> sized bs n d"
    then obtain d1 where a: "idle_after view disk (R \<union> {f..<f + k}) d0 (drv_bot d)" "sized bs n d"
      "same_outside R d0 d1" "disk_of disk d = put_blocks bs d1 f k part" by blast
    have "chunk_put disk bs R d0 (f * bs + w) part d"
      unfolding chunk_put_def
      using a(3,4) len bs w by (intro exI [of _ d1]) (auto simp: put_blocks_byte algebra_simps)
    with a show "idle_after view disk (R \<union> {f..<f + k}) d0 (drv_bot d) \<and> sized bs n d \<and>
        chunk_put disk bs R d0 (f * bs + w) part d" by simp
  qed simp_all
  have "io_bind (chunk_to_write T f w k part) (\<lambda>chunk d'. on_bot ''WRITE(10)'' (bot_write10 T (f mod 2 ^ 32) k (drv_block_size d') chunk) d') d =
      on_bot ''WRITE(10)'' (bot_write10 T f k bs part) d" if "sized bs n d" for d
    using that w m c(4) by (simp add: io_bind_def chunk_to_write_def Let_def sized_def)
  with V show ?thesis by (auto simp: valid_def holding_def)
next
  case False
  have blen: "length (disk s i) = bs" for s i using C by (simp add: conforms_def)
  have Rd: "valid (holding view disk bs n R d0) (on_bot ''READ(10) (RMW)'' (bot_read10 T f k bs))
      (\<lambda>current d. \<exists>dd. (same_outside R d0 dd \<and> (\<forall>i. length (dd i) = bs) \<and> current = blocks_at dd f k) \<and>
         holding view disk bs n {} dd d) (stopped view disk bs n (R \<union> {f..<f + k}) d0)"
    by (rule valid_conseq [OF on_read10 [OF C c(3,5,6,7), of R d0 bs n]])
      (use blen in \<open>auto simp: holding_def idle_after_def ready_def in_sync_def kept_def intro: stopped_widen\<close>)
  have Wr: "valid (holding view disk bs n {} dd)
      (\<lambda>d. on_bot ''WRITE(10)'' (bot_write10 T (f mod 2 ^ 32) k (drv_block_size d)
          (take w (blocks_at dd f k) @ part @ drop (w + length part) (blocks_at dd f k))) d)
      (\<lambda>_ d. idle_after view disk (R \<union> {f..<f + k}) d0 (drv_bot d) \<and> sized bs n d \<and> chunk_put disk bs R d0 (f * bs + w) part d)
      (stopped view disk bs n (R \<union> {f..<f + k}) d0)"
    if dd: "same_outside R d0 dd" "\<And>i. length (dd i) = bs" for dd
  proof -
    let ?p = "take w (blocks_at dd f k) @ part @ drop (w + length part) (blocks_at dd f k)"
    have b0: "0 < bs" using bs by simp
    note O = overlay_bytes [where f = f, OF b0 dd(2) c(1) refl]
    have "valid (holding view disk bs n {} dd) (on_bot ''WRITE(10)'' (bot_write10 T f k bs ?p))
      (\<lambda>_ d. idle_after view disk (R \<union> {f..<f + k}) d0 (drv_bot d) \<and> sized bs n d \<and> chunk_put disk bs R d0 (f * bs + w) part d)
      (stopped view disk bs n (R \<union> {f..<f + k}) d0)"
    proof (rule valid_conseq [OF on_write10 [OF C c(3,5,6,7) O(1), of "{}" "{f..<f + k}" dd bs n]])
      fix x :: unit and d
      assume a: "(idle_after view disk {f..<f + k} dd (drv_bot d) \<and>
        (\<exists>d'. same_outside {} dd d' \<and> disk_of disk d = put_blocks bs d' f k ?p)) \<and> sized bs n d"
      then have "disk_of disk d = put_blocks bs dd f k ?p" by simp
      then have "chunk_put disk bs R d0 (f * bs + w) part d"
        unfolding chunk_put_def using dd(1) O(2) by (intro exI [of _ dd]) auto
      with a dd(1) show "idle_after view disk (R \<union> {f..<f + k}) d0 (drv_bot d) \<and> sized bs n d \<and>
          chunk_put disk bs R d0 (f * bs + w) part d"
        by (auto simp: idle_after_def same_outside_def)
    next
      show "stopped view disk bs n {f..<f + k} dd s d \<Longrightarrow> stopped view disk bs n (R \<union> {f..<f + k}) d0 s d" for s d
        using dd(1) by (auto intro: stopped_widen same_outside_mono)
    qed (simp_all add: holding_def)
    then show ?thesis using c(4) by (auto simp: valid_def holding_def sized_def)
  qed
  have len: "length (blocks_at dd f k) = k * bs" if "\<And>i. length (dd i) = bs" for dd
    using that by (rule length_blocks_at)
  have "valid (holding view disk bs n R d0)
      (io_bind (on_bot ''READ(10) (RMW)'' (bot_read10 T f k bs)) (\<lambda>current. io_bind
         (if length current < k * bs then fail (Disk_Io Short_Rmw)
          else if length current < w + length part then or_panic None
          else ret (take w current @ part @ drop (w + length part) current))
         (\<lambda>chunk d'. on_bot ''WRITE(10)'' (bot_write10 T (f mod 2 ^ 32) k (drv_block_size d') chunk) d')))
      (\<lambda>_ d. idle_after view disk (R \<union> {f..<f + k}) d0 (drv_bot d) \<and> sized bs n d \<and> chunk_put disk bs R d0 (f * bs + w) part d)
      (stopped view disk bs n (R \<union> {f..<f + k}) d0)"
    by (rule valid_bind [OF Rd], intro valid_ex valid_assume)
      (use Wr len c(1) in \<open>auto simp: io_bind_def ret_def\<close>)
  moreover have "io_bind (chunk_to_write T f w k part) (\<lambda>chunk d'. on_bot ''WRITE(10)'' (bot_write10 T (f mod 2 ^ 32) k (drv_block_size d') chunk) d') d =
      io_bind (on_bot ''READ(10) (RMW)'' (bot_read10 T f k bs)) (\<lambda>current. io_bind
         (if length current < k * bs then fail (Disk_Io Short_Rmw)
          else if length current < w + length part then or_panic None
          else ret (take w current @ part @ drop (w + length part) current))
         (\<lambda>chunk d'. on_bot ''WRITE(10)'' (bot_write10 T (f mod 2 ^ 32) k (drv_block_size d') chunk) d')) d"
    if "sized bs n d" for d
  proof -
    have "chunk_to_write T f w k part d = io_bind (on_bot ''READ(10) (RMW)'' (bot_read10 T f k bs)) (\<lambda>current.
         if length current < k * bs then fail (Disk_Io Short_Rmw)
          else if length current < w + length part then or_panic None
          else ret (take w current @ part @ drop (w + length part) current)) d"
      using that False c(4) by (auto simp: chunk_to_write_def Let_def sized_def)
    then show ?thesis by (simp add: io_bind_def split: prod.split io.split)
  qed
  ultimately show ?thesis by (simp add: valid_def holding_def)
qed


definition touched :: "nat \<Rightarrow> nat \<Rightarrow> nat \<Rightarrow> nat set" where
  "touched bs offset len = (\<lambda>a. a div bs) ` {offset..<offset + len}"

lemma touched_chunk:
  assumes "0 < bs" and "w < bs" and "0 < t" and "k * bs < w + t + bs"
  shows "{f..<f + k} \<subseteq> touched bs (f * bs + w) t"
proof
  fix j assume j: "j \<in> {f..<f + k}"
  show "j \<in> touched bs (f * bs + w) t"
  proof (cases "j = f")
    case True
    then show ?thesis using assms by (auto simp: touched_def intro!: image_eqI [of _ _ "f * bs + w"])
  next
    case False
    define i where "i = j - f - 1"
    with j False have i: "j = f + Suc i" "Suc i < k" by auto
    have "(Suc i + 1) * bs \<le> k * bs" using i(2) by (intro mult_le_mono1) simp
    with assms have "Suc i * bs < w + t" and "w \<le> Suc i * bs" by (simp_all add: algebra_simps)
    then show ?thesis using assms(1) i(1)
      by (auto simp: touched_def algebra_simps intro!: image_eqI [of _ _ "j * bs"])
  qed
qed

lemma touched_mono: "offset \<le> a \<Longrightarrow> a + n \<le> offset + len \<Longrightarrow> touched bs a n \<subseteq> touched bs offset len"
  by (auto simp: touched_def)

lemma chunk_put_join:
  assumes "chunk_put disk bs R d0 cursor (take t part) d1" and "t \<le> length part"
    and "chunk_put disk bs {} (disk_of disk d1) (cursor + t) (drop t part) d2"
  shows "chunk_put disk bs R d0 cursor part d2"
proof -
  from assms(1) obtain e where e: "same_outside R d0 e" and 1: "\<And>i. byte_at bs (disk_of disk d1) i =
      (if cursor \<le> i \<and> i < cursor + length (take t part) then take t part ! (i - cursor) else byte_at bs e i)"
    by (auto simp: chunk_put_def)
  have 2: "byte_at bs (disk_of disk d2) i = (if cursor + t \<le> i \<and> i < cursor + t + length (drop t part)
      then drop t part ! (i - (cursor + t)) else byte_at bs (disk_of disk d1) i)" for i
    using assms(3) by (auto simp: chunk_put_def)
  have "byte_at bs (disk_of disk d2) i = (if cursor \<le> i \<and> i < cursor + length part then part ! (i - cursor) else byte_at bs e i)" for i
    using assms(2) unfolding 2 1 by (auto simp: nth_append)
  with e show ?thesis unfolding chunk_put_def by blast
qed

lemma chunk_put_nil:
  assumes "same_outside R d0 (disk_of disk d)"
  shows "chunk_put disk bs R d0 cursor [] d"
  using assms by (auto simp: chunk_put_def)

lemma write_chunks_valid:
  assumes C: "conforms bs n T view disk" and bs: "2 \<le> bs" "bs \<le> DATA_CAP" and n: "n \<le> 2 ^ 32"
  shows "holding view disk bs n R d0 d \<Longrightarrow> written \<le> length xs \<Longrightarrow> cursor + (length xs - written) \<le> n * bs \<Longrightarrow>
    (case write_chunks T cursor written xs d of
       (Return u, d') \<Rightarrow> holding view disk bs n R (disk_of disk d') d' \<and>
          chunk_put disk bs R d0 cursor (drop written xs) d'
     | (Stop k, d') \<Rightarrow> stopped view disk bs n (R \<union> touched bs cursor (length xs - written)) d0 k d')"
proof (induction "length xs - written" arbitrary: R d0 d cursor written rule: less_induct)
  case less
  let ?rem = "length xs - written"
  have size: "drv_block_size d = bs" using less.prems(1) by (simp add: holding_def sized_def)
  show ?case
  proof (cases "length xs \<le> written")
    case True
    then show ?thesis using less.prems(1)
      by (auto simp: write_chunks.simps holding_def ready_def kept_def intro: chunk_put_nil)
  next
    case False
    then have pos: "0 < ?rem" by simp
    obtain f w t k where ch: "next_chunk bs cursor ?rem = Some (f, w, t, k)"
      and c: "cursor = f * bs + w" "0 < t" "t \<le> ?rem" "w + t \<le> k * bs" "f + k \<le> n"
      "f mod 2 ^ 32 = f" "f < 2 ^ 32" "k < 2 ^ 16" "k * bs < 2 ^ 32" "k * bs < w + t + bs" "w < bs"
      by (rule next_chunk_fits [OF bs pos less.prems(3) n], rule that)
    let ?part = "slice written t xs"
    let ?step = "io_bind (chunk_to_write T f w k ?part) (\<lambda>chunk d'.
      on_bot ''WRITE(10)'' (bot_write10 T (f mod 2 ^ 32) k (drv_block_size d') chunk) d')"
    have plen: "length ?part = t" using c(3) pos by simp
    have "w + length ?part \<le> k * bs" and "k * bs < w + length ?part + bs" using c(4,10) plen by simp_all
    note V = write_step_valid [OF C bs(1) this c(5,6,7,8,9), of R d0]
    have b0: "0 < bs" using bs(1) by simp
    have cov: "{f..<f + k} \<subseteq> touched bs cursor t"
      unfolding c(1) by (rule touched_chunk [OF b0 c(11,2,10)])
    have W: "R \<union> {f..<f + k} \<subseteq> R \<union> touched bs cursor ?rem"
      using cov touched_mono [of cursor cursor t ?rem bs] c(3) by auto
    obtain r d1 where run: "?step d = (r, d1)" by fastforce
    show ?thesis
    proof (cases r)
      case (Stop s)
      with run valid_Stop [OF V less.prems(1)] have "stopped view disk bs n (R \<union> {f..<f + k}) d0 s d1" by simp
      then have "stopped view disk bs n (R \<union> touched bs cursor ?rem) d0 s d1"
        by (rule stopped_widen) (simp_all only: same_outside_refl W)
      moreover have "write_chunks T cursor written xs d = (Stop s, d1)"
        using False ch run Stop size by (subst write_chunks.simps) simp
      ultimately show ?thesis by simp
    next
      case (Return u)
      with run valid_Return [OF V less.prems(1)]
      have i: "idle_after view disk (R \<union> {f..<f + k}) d0 (drv_bot d1)" and s1: "sized bs n d1"
        and put: "chunk_put disk bs R d0 cursor ?part d1" by (simp_all add: c(1))
      have step: "write_chunks T cursor written xs d = write_chunks T (cursor + t) (written + t) xs d1"
        using False ch run Return size by (subst write_chunks.simps) simp
      have so: "same_outside (R \<union> touched bs cursor ?rem) d0 (disk_of disk d1)"
        by (rule same_outside_mono [OF _ W]) (use i in \<open>simp add: idle_after_def\<close>)
      have lt: "length xs - (written + t) < ?rem" and le: "written + t \<le> length xs"
        and fit: "cursor + t + (length xs - (written + t)) \<le> n * bs"
        using less.prems(3) c(2,3) pos by simp_all
      have sub: "touched bs (cursor + t) (length xs - (written + t)) \<subseteq> R \<union> touched bs cursor ?rem"
        using touched_mono [of cursor "cursor + t" "length xs - (written + t)" ?rem bs] le by auto
      have tk: "take t (drop written xs) = ?part" "drop t (drop written xs) = drop (written + t) xs"
        by (simp_all add: slice_def add.commute)
      have tl: "t \<le> length (drop written xs)" using c(3) by simp
      note IH = less.hyps [OF lt idle_holding [OF i s1] le fit]
      show ?thesis
      proof (cases "write_chunks T (cursor + t) (written + t) xs d1")
        case (Pair q d2)
        show ?thesis
        proof (cases q)
          case (Return v)
          with IH Pair have h: "holding view disk bs n {} (disk_of disk d2) d2"
            and p2: "chunk_put disk bs {} (disk_of disk d1) (cursor + t) (drop (written + t) xs) d2" by simp_all
          have "chunk_put disk bs R d0 cursor (drop written xs) d2"
            by (rule chunk_put_join [OF _ tl]) (use put p2 tk in simp_all)
          with h Pair Return show ?thesis unfolding step by (simp add: holding_def ready_def kept_def)
        next
          case (Stop s)
          with IH Pair have "stopped view disk bs n ({} \<union> touched bs (cursor + t) (length xs - (written + t))) (disk_of disk d1) s d2"
            by simp
          then have "stopped view disk bs n (R \<union> touched bs cursor ?rem) d0 s d2"
            by (rule stopped_widen [OF _ so]) (use sub in simp)
          with Pair Stop show ?thesis unfolding step by simp
        qed
      qed
    qed
  qed
qed



section \<open>The operations against the bytes of the disk\<close>

lemma check_range_Ok:
  assumes "sized bs n d" and "bs \<le> DATA_CAP" and "n \<le> 2 ^ 32"
  shows "check_range offset len d = (if offset + len \<le> n * bs then Ok () else Err Out_Of_Range)"
proof -
  have "n * bs \<le> 2 ^ 32 * DATA_CAP" using assms(2,3) by (rule mult_le_mono [rotated])
  then have "n * bs < 2 ^ 64" by (simp add: DATA_CAP_def)
  with assms(1) show ?thesis by (auto simp: check_range_def sized_def checked_add_def)
qed

lemma ranged_bind:
  assumes "sized bs n d" and "bs \<le> DATA_CAP" and "n \<le> 2 ^ 32"
  shows "io_bind (io_bind (reads (check_range offset len)) (or_fail (\<lambda>e. e))) (\<lambda>_. m) d =
    (if offset + len \<le> n * bs then m d else (Stop (Fail Out_Of_Range), d))"
  by (simp add: io_defs check_range_Ok [OF assms])

lemma holding_stopped: "holding view disk bs n R d0 d \<Longrightarrow> k \<noteq> Panic \<Longrightarrow> stopped view disk bs n R d0 k d"
  by (simp add: holding_def stopped_def left_by_def ready_def)

lemma stopped_holding: "stopped view disk bs n R d0 k d \<Longrightarrow> holding view disk bs n R d0 d"
  by (simp add: holding_def stopped_def left_by_def ready_def)

lemma on_bot_in_range: "on_bot what m d \<noteq> (Stop (Fail Out_Of_Range), d')"
  by (auto simp: on_bot_def map_stop_def split: prod.splits io.splits stop.splits)

lemma chunk_to_write_in_range: "chunk_to_write T f w k part d \<noteq> (Stop (Fail Out_Of_Range), d')"
  by (auto simp: chunk_to_write_def Let_def io_bind_def fail_def ret_def or_panic_def on_bot_in_range
      split: prod.splits io.splits if_splits)

lemma write_step_in_range:
  "io_bind (chunk_to_write T f w k part) (\<lambda>chunk d. on_bot what (g chunk d) d) d \<noteq> (Stop (Fail Out_Of_Range), d')"
  by (auto simp: io_bind_def chunk_to_write_in_range on_bot_in_range split: prod.splits io.splits)

lemma read_chunks_in_range: "read_chunks T c r out e \<noteq> (Stop (Fail Out_Of_Range), e')"
proof (induction T c r out e rule: read_chunks.induct)
  case (1 T c r out e)
  then show ?case
    by (subst read_chunks.simps) (auto simp: on_bot_in_range split: prod.split option.split io.split)
qed

lemma write_chunks_in_range: "write_chunks T c r bs e \<noteq> (Stop (Fail Out_Of_Range), e')"
proof (induction T c r bs e rule: write_chunks.induct)
  case (1 T c r bs e)
  then show ?case
    by (subst write_chunks.simps) (auto simp: write_step_in_range split: prod.split option.split io.split)
qed

text \<open>
  A read that returns has exactly the bytes of the range as the disk holds them now; a read that stops
  leaves the disk as it was, up to blocks already at risk; the range is refused exactly when it passes
  the end of the device, with nothing sent.
\<close>

lemma read_bytes_valid:
  assumes C: "conforms bs n T view disk" and bs: "2 \<le> bs" "bs \<le> DATA_CAP" and n: "n \<le> 2 ^ 32"
    and d: "holding view disk bs n R d0 d"
  shows "case read_bytes T offset len d of
      (Return out, d') \<Rightarrow> offset + len \<le> n * bs \<and> holding view disk bs n R d0 d' \<and>
        out = map (byte_at bs (disk_of disk d')) [offset..<offset + len]
    | (Stop k, d') \<Rightarrow> stopped view disk bs n R d0 k d' \<and> (k = Fail Out_Of_Range \<longleftrightarrow> n * bs < offset + len) \<and>
        (k = Fail Out_Of_Range \<longrightarrow> d' = d)"
proof -
  have s: "sized bs n d" using d by (simp add: holding_def)
  show ?thesis
  proof (cases "offset + len \<le> n * bs")
    case False
    then show ?thesis using holding_stopped [OF d, of "Fail Out_Of_Range"]
      by (simp add: read_bytes_def ranged_bind [OF s bs(2) n])
  next
    case True
    show ?thesis
      using read_chunks_valid [OF C bs n d True, of "[]"] read_chunks_in_range [of T offset len "[]" d] True
      by (auto simp: read_bytes_def ranged_bind [OF s bs(2) n] split: prod.splits io.splits)
  qed
qed

text \<open>
  A write that returns has put exactly its bytes; a write that stops has changed, and leaves at risk,
  only the blocks its range touches.
\<close>

lemma write_bytes_valid:
  assumes C: "conforms bs n T view disk" and bs: "2 \<le> bs" "bs \<le> DATA_CAP" and n: "n \<le> 2 ^ 32"
    and d: "holding view disk bs n R d0 d"
  shows "case write_bytes T offset xs d of
      (Return u, d') \<Rightarrow> offset + length xs \<le> n * bs \<and> holding view disk bs n R (disk_of disk d') d' \<and>
        chunk_put disk bs R d0 offset xs d'
    | (Stop k, d') \<Rightarrow> stopped view disk bs n (R \<union> touched bs offset (length xs)) d0 k d' \<and>
        (k = Fail Out_Of_Range \<longleftrightarrow> n * bs < offset + length xs) \<and> (k = Fail Out_Of_Range \<longrightarrow> d' = d)"
proof -
  have s: "sized bs n d" using d by (simp add: holding_def)
  show ?thesis
  proof (cases "offset + length xs \<le> n * bs")
    case False
    have "stopped view disk bs n (R \<union> touched bs offset (length xs)) d0 (Fail Out_Of_Range) d"
      by (rule stopped_widen [OF holding_stopped [OF d]]) simp_all
    with False show ?thesis by (simp add: write_bytes_def ranged_bind [OF s bs(2) n])
  next
    case True
    then have "offset + (length xs - 0) \<le> n * bs" by simp
    from write_chunks_valid [OF C bs n d le0 this] write_chunks_in_range [of T offset 0 xs d] True
    show ?thesis by (auto simp: write_bytes_def ranged_bind [OF s bs(2) n] split: prod.splits io.splits)
  qed
qed

end
