(* ===== verification/Usb_Msd_Props.thy ===== *)
theory Usb_Msd_Props
  imports Usb_Msd
begin

text \<open>
  Histories of operations on the stick, what they keep, and a stick in memory that keeps to the standard,
  on which the statements are tried.
\<close>

section \<open>Histories\<close>

datatype msd_op = Msd_Read nat nat | Msd_Write nat bytes

definition msd_run :: "'s transport \<Rightarrow> msd_op \<Rightarrow> 's driver \<Rightarrow> (bytes, disk_fail) io \<times> 's driver" where
  "msd_run T op = (case op of
     Msd_Read offset len \<Rightarrow> read_bytes T offset len
   | Msd_Write offset bs \<Rightarrow> io_bind (write_bytes T offset bs) (\<lambda>_. ret []))"

fun msd_history :: "'s transport \<Rightarrow> msd_op list \<Rightarrow> 's driver \<Rightarrow> (bytes, disk_fail) io list \<times> 's driver" where
  "msd_history T [] d = ([], d)"
| "msd_history T (op # ops) d =
     (case msd_run T op d of (r, d') \<Rightarrow> (case msd_history T ops d' of (rs, d'') \<Rightarrow> (r # rs, d'')))"

text \<open>The blocks a history of writes touches.\<close>

fun op_touched :: "nat \<Rightarrow> msd_op \<Rightarrow> nat set" where
  "op_touched bs (Msd_Read offset len) = {}"
| "op_touched bs (Msd_Write offset xs) = touched bs offset (length xs)"

lemma holding_widen:
  assumes "holding view disk bs n R d1 d" and "same_outside W d0 d1" and "R \<subseteq> W"
  shows "holding view disk bs n W d0 d"
  using stopped_holding [OF stopped_widen [OF holding_stopped [OF assms(1), of Dropped] assms(2,3)]] by simp

lemma chunk_put_outside:
  assumes "chunk_put disk bs R d0 offset xs d" and "0 < bs"
    and "\<And>i. length (d0 i) = bs" and "\<And>i. length (disk_of disk d i) = bs"
  shows "same_outside (R \<union> touched bs offset (length xs)) d0 (disk_of disk d)"
  unfolding same_outside_def
proof (intro allI impI)
  fix i assume i: "i \<notin> R \<union> touched bs offset (length xs)"
  from assms(1) obtain d1 where d1: "same_outside R d0 d1" and b: "\<And>a. byte_at bs (disk_of disk d) a =
      (if offset \<le> a \<and> a < offset + length xs then xs ! (a - offset) else byte_at bs d1 a)"
    by (auto simp: chunk_put_def)
  show "disk_of disk d i = d0 i"
  proof (rule nth_equalityI)
    fix j assume "j < length (disk_of disk d i)"
    then have j: "j < bs" by (simp add: assms(4))
    then have a: "(i * bs + j) div bs = i" "(i * bs + j) mod bs = j" by simp_all
    have "\<not> (offset \<le> i * bs + j \<and> i * bs + j < offset + length xs)"
    proof
      assume "offset \<le> i * bs + j \<and> i * bs + j < offset + length xs"
      then have "i \<in> touched bs offset (length xs)"
        unfolding touched_def by (intro image_eqI [of _ _ "i * bs + j"]) (auto simp: a)
      with i show False by simp
    qed
    with b [of "i * bs + j"] have "disk_of disk d i ! j = d1 i ! j" by (simp add: byte_at_def a j split: if_splits)
    moreover have "d1 i = d0 i" using d1 i by (simp add: same_outside_def)
    ultimately show "disk_of disk d i ! j = d0 i ! j" by simp
  qed (simp add: assms(3,4))
qed

lemma msd_run_keeps:
  assumes C: "conforms bs n T view disk" and bs: "2 \<le> bs" "bs \<le> DATA_CAP" and n: "n \<le> 2 ^ 32"
    and d: "holding view disk bs n R d0 d" and d0: "\<And>i. length (d0 i) = bs" and r: "msd_run T op d = (r, d')"
  shows "holding view disk bs n (R \<union> op_touched bs op) d0 d' \<and> r \<noteq> Stop Panic"
proof (cases op)
  case (Msd_Read offset len)
  with read_bytes_valid [OF C bs n d, of offset len] r show ?thesis
    by (cases r) (auto simp: msd_run_def stopped_def left_by_def holding_def ready_def)
next
  case (Msd_Write offset xs)
  have blen: "length (disk s i) = bs" for s i using C by (simp add: conforms_def)
  obtain q d1 where w: "write_bytes T offset xs d = (q, d1)" by fastforce
  show ?thesis
  proof (cases q)
    case (Return u)
    with write_bytes_valid [OF C bs n d, of offset xs] w
    have h: "holding view disk bs n R (disk_of disk d1) d1" and p: "chunk_put disk bs R d0 offset xs d1" by simp_all
    have "holding view disk bs n (R \<union> op_touched bs op) d0 d1"
      by (rule holding_widen [OF h]) (use chunk_put_outside [OF p] bs(1) d0 blen Msd_Write in auto)
    with w Return r Msd_Write show ?thesis by (auto simp: msd_run_def io_bind_def ret_def)
  next
    case (Stop k)
    with write_bytes_valid [OF C bs n d, of offset xs] w
    have "stopped view disk bs n (R \<union> op_touched bs op) d0 k d1" using Msd_Write by simp
    with w Stop r Msd_Write show ?thesis
      by (auto simp: msd_run_def io_bind_def stopped_def left_by_def holding_def ready_def)
  qed
qed

text \<open>
  Whatever the operations, whatever they answer and wherever one is dropped: none panics, the engine
  stays in step with the device, and only the blocks of the writes change or may still change.
\<close>

lemma msd_history_keeps:
  assumes C: "conforms bs n T view disk" and bs: "2 \<le> bs" "bs \<le> DATA_CAP" and n: "n \<le> 2 ^ 32"
    and d0: "\<And>i. length (d0 i) = bs"
  shows "holding view disk bs n R d0 d \<Longrightarrow> msd_history T ops d = (rs, d') \<Longrightarrow>
    holding view disk bs n (R \<union> \<Union> (op_touched bs ` set ops)) d0 d' \<and> Stop Panic \<notin> set rs"
proof (induction ops arbitrary: R d rs)
  case (Cons op ops)
  obtain r d1 where r: "msd_run T op d = (r, d1)" by fastforce
  obtain rs' where rs': "msd_history T ops d1 = (rs', d')" "rs = r # rs'"
    using Cons.prems(2) r by (auto split: prod.splits)
  from msd_run_keeps [OF C bs n Cons.prems(1) d0 r] have 1: "holding view disk bs n (R \<union> op_touched bs op) d0 d1"
    and "r \<noteq> Stop Panic" by simp_all
  with Cons.IH [OF 1 rs'(1)] rs'(2) show ?case by (auto simp: Un_assoc)
qed simp


section \<open>A stick in memory\<close>

record stick =
  st_phase :: phase
  st_tag :: "32 word"
  st_bytes :: "nat \<Rightarrow> byte"

definition stick_disk :: "nat \<Rightarrow> stick \<Rightarrow> disk" where
  "stick_disk bs s = (\<lambda>i. map (\<lambda>j. st_bytes s (i * bs + j)) [0..<bs])"

text \<open>A call that is not part of an exchange times out, and the device is lost until it is reset.\<close>

definition stick_torn :: "call \<Rightarrow> stick \<Rightarrow> ('a, transport_error) result option \<times> stick" where
  "stick_torn c s = (Some (Err Timeout), s\<lparr>st_phase := Lost (at_risk (st_phase s) c)\<rparr>)"

definition stick_out :: "nat \<Rightarrow> nat \<Rightarrow> bytes \<Rightarrow> stick \<Rightarrow> (unit, transport_error) result option \<times> stick" where
  "stick_out bs n xs s = (case st_phase s of
     Idle \<Rightarrow> (case read_cbw xs of
         None \<Rightarrow> stick_torn (C_Out xs) s
       | Some v \<Rightarrow> (case takes_rw bs n (stick_disk bs s) v of
           Some p \<Rightarrow> (Some (Ok ()), s\<lparr>st_phase := p, st_tag := cbw_tag v\<rparr>)
         | None \<Rightarrow>
             if rw10_view (cbw_cdb v) = None then
               (Some (Ok ()), s\<lparr>st_phase := (if cbw_in v then Sending (replicate (cbw_length v) 0) else Status_Due True {}),
                  st_tag := cbw_tag v\<rparr>)
             else stick_torn (C_Out xs) s))
   | Receiving lba k \<Rightarrow>
       if length xs = k * bs then
         (Some (Ok ()), s\<lparr>st_phase := Status_Due True {lba..<lba + k},
            st_bytes := (\<lambda>i. if lba * bs \<le> i \<and> i < (lba + k) * bs then xs ! (i - lba * bs) else st_bytes s i)\<rparr>)
       else stick_torn (C_Out xs) s
   | _ \<Rightarrow> stick_torn (C_Out xs) s)"

definition stick_in :: "nat \<Rightarrow> stick \<Rightarrow> (bytes, transport_error) result option \<times> stick" where
  "stick_in k s =
     (let status = (Some (Ok (csw_bytes \<lparr>csw_tag = st_tag s, csw_residue = 0, csw_status = CSW_PASSED\<rparr>)), s\<lparr>st_phase := Idle\<rparr>) in
      (case st_phase s of
         Sending rest \<Rightarrow>
           if rest = [] then (if CSW_LEN \<le> k then status else stick_torn (C_In k) s)
           else if k = 0 then stick_torn (C_In k) s
           else (Some (Ok (take k rest)), s\<lparr>st_phase := Sending (drop k rest)\<rparr>)
       | Status_Due True R \<Rightarrow> if CSW_LEN \<le> k then status else stick_torn (C_In k) s
       | _ \<Rightarrow> stick_torn (C_In k) s))"

definition stick_reset :: "stick \<Rightarrow> (unit, transport_error) result option \<times> stick" where
  "stick_reset s = (Some (Ok ()), s\<lparr>st_phase := Reset_Done\<rparr>)"

definition stick_clear_in :: "stick \<Rightarrow> (unit, transport_error) result option \<times> stick" where
  "stick_clear_in s = (if st_phase s = Reset_Done then (Some (Ok ()), s\<lparr>st_phase := In_Cleared\<rparr>) else stick_torn C_Clear_In s)"

definition stick_clear_out :: "stick \<Rightarrow> (unit, transport_error) result option \<times> stick" where
  "stick_clear_out s = (if st_phase s = In_Cleared then (Some (Ok ()), s\<lparr>st_phase := Idle\<rparr>) else stick_torn C_Clear_Out s)"

definition stick_transport :: "nat \<Rightarrow> nat \<Rightarrow> stick transport" where
  "stick_transport bs n = \<lparr>t_bulk_out = stick_out bs n, t_bulk_in = stick_in, t_clear_halt_in = stick_clear_in,
     t_clear_halt_out = stick_clear_out, t_mass_storage_reset = stick_reset\<rparr>"


lemma length_stick_disk [simp]: "length (stick_disk bs s i) = bs"
  by (simp add: stick_disk_def)

lemma stick_disk_phase [simp]: "stick_disk bs (s\<lparr>st_phase := p\<rparr>) = stick_disk bs s"
  "stick_disk bs (s\<lparr>st_phase := p, st_tag := t\<rparr>) = stick_disk bs s"
  by (simp_all add: stick_disk_def)

lemma stick_disk_put:
  assumes "length xs = k * bs"
  shows "stick_disk bs (s\<lparr>st_phase := p, st_bytes := (\<lambda>i. if lba * bs \<le> i \<and> i < (lba + k) * bs then xs ! (i - lba * bs) else st_bytes s i)\<rparr>) =
    put_blocks bs (stick_disk bs s) lba k xs"
proof (rule ext, rule nth_equalityI)
  fix i j
  assume "j < length (stick_disk bs (s\<lparr>st_phase := p, st_bytes := (\<lambda>i. if lba * bs \<le> i \<and> i < (lba + k) * bs
    then xs ! (i - lba * bs) else st_bytes s i)\<rparr>) i)"
  then have j: "j < bs" by simp
  then have b0: "0 < bs" and dm: "(i * bs + j) div bs = i" "(i * bs + j) mod bs = j" by simp_all
  from put_blocks_byte [OF assms b0, of "stick_disk bs s" lba "i * bs + j"]
  have "put_blocks bs (stick_disk bs s) lba k xs i ! j =
      (if lba * bs \<le> i * bs + j \<and> i * bs + j < (lba + k) * bs then xs ! (i * bs + j - lba * bs) else stick_disk bs s i ! j)"
    by (simp add: byte_at_def dm j)
  with j show "stick_disk bs (s\<lparr>st_phase := p, st_bytes := (\<lambda>i. if lba * bs \<le> i \<and> i < (lba + k) * bs
      then xs ! (i - lba * bs) else st_bytes s i)\<rparr>) i ! j = put_blocks bs (stick_disk bs s) lba k xs i ! j"
    by (simp add: stick_disk_def)
next
  fix i
  show "length (stick_disk bs (s\<lparr>st_phase := p, st_bytes := (\<lambda>i. if lba * bs \<le> i \<and> i < (lba + k) * bs
      then xs ! (i - lba * bs) else st_bytes s i)\<rparr>) i) = length (put_blocks bs (stick_disk bs s) lba k xs i)"
  proof (cases "lba \<le> i \<and> i < lba + k")
    case True
    then have "Suc (i - lba) \<le> k" by linarith
    then have "Suc (i - lba) * bs \<le> k * bs" by (rule mult_le_mono1)
    then have "(i - lba) * bs + bs \<le> length xs" by (simp add: assms add.commute)
    with True show ?thesis by (simp add: put_blocks_def)
  next
    case False
    then have "put_blocks bs (stick_disk bs s) lba k xs i = stick_disk bs s i" unfolding put_blocks_def by (rule if_not_P)
    then show ?thesis by simp
  qed
qed

lemma stick_torn_step:
  assumes "call = stick_torn c s" and "st_phase s = p"
  shows "bot_device bs n p (stick_disk bs s) c (map_option (bare g) (fst call)) (st_phase (snd call)) (stick_disk bs (snd call))"
  using assms by (auto simp: stick_torn_def intro!: bot_device.torn)

lemma stick_out_step:
  "bot_device bs n (st_phase s) (stick_disk bs s) (C_Out xs) (map_option (bare (\<lambda>_. [])) (fst (stick_out bs n xs s)))
     (st_phase (snd (stick_out bs n xs s))) (stick_disk bs (snd (stick_out bs n xs s)))"
proof (cases "st_phase s")
  case Idle
  show ?thesis
  proof (cases "read_cbw xs")
    case None
    then show ?thesis using stick_torn_step [OF refl Idle, where c = "C_Out xs"] by (simp add: stick_out_def Idle)
  next
    case (Some v)
    show ?thesis
    proof (cases "takes_rw bs n (stick_disk bs s) v")
      case None
      then show ?thesis
        using Some stick_torn_step [OF refl Idle, where c = "C_Out xs"]
          bot_device.take_query [OF Some, of "replicate (cbw_length v) 0" bs n "stick_disk bs s"]
        by (cases "cbw_in v") (auto simp: stick_out_def Idle)
    next
      case (Some p)
      then show ?thesis using \<open>read_cbw xs = Some v\<close> by (auto simp: stick_out_def Idle intro: bot_device.take_rw)
    qed
  qed
next
  case (Receiving lba k)
  show ?thesis
  proof (cases "length xs = k * bs")
    case True
    then show ?thesis using stick_disk_put [OF True] bot_device.receive [OF True]
      by (simp add: stick_out_def Receiving)
  next
    case False
    then show ?thesis using stick_torn_step [OF refl Receiving, where c = "C_Out xs"] by (simp add: stick_out_def Receiving)
  qed
qed (use stick_torn_step [OF refl refl, where c = "C_Out xs" and s = s and g = "\<lambda>_. []"] in \<open>simp_all add: stick_out_def\<close>)

lemma stick_status_passes: "passed_in_full csw \<longrightarrow> True" by simp

lemma stick_in_step:
  "bot_device bs n (st_phase s) (stick_disk bs s) (C_In k) (fst (stick_in k s))
     (st_phase (snd (stick_in k s))) (stick_disk bs (snd (stick_in k s)))"
proof -
  note torn = stick_torn_step [OF refl refl, where c = "C_In k" and s = s and g = "\<lambda>x. x", unfolded bare_simps option.map_ident]
  show ?thesis
  proof (cases "st_phase s")
    case (Sending rest)
    have "bot_device bs n (Sending rest) (stick_disk bs s) (C_In k) (Some (Ok (take k rest))) (Sending (drop k rest)) (stick_disk bs s)"
      if "rest \<noteq> []" "k \<noteq> 0"
      by (rule bot_device.send) (use that in \<open>auto simp: min_def\<close>)
    with torn show ?thesis
      by (auto simp: stick_in_def Let_def Sending intro: bot_device.status_now)
  next
    case (Status_Due complete R)
    with torn show ?thesis
      by (cases complete) (auto simp: stick_in_def Let_def intro: bot_device.status)
  qed (use torn in \<open>simp_all add: stick_in_def\<close>)
qed

lemma stick_conforms: "conforms bs n (stick_transport bs n) st_phase (stick_disk bs)"
proof -
  have "bot_device bs n (st_phase s) (stick_disk bs s) c (fst (perform (stick_transport bs n) c s))
      (st_phase (snd (perform (stick_transport bs n) c s))) (stick_disk bs (snd (perform (stick_transport bs n) c s)))" for c s
  proof (cases c)
    case (C_Out xs)
    then show ?thesis using stick_out_step by (simp add: stick_transport_def no_data_bare)
  next
    case (C_In k)
    then show ?thesis using stick_in_step by (simp add: stick_transport_def)
  next
    case C_Clear_In
    then show ?thesis using stick_torn_step [OF refl refl, where c = C_Clear_In and s = s and g = "\<lambda>_. []"]
      by (auto simp: stick_transport_def no_data_bare stick_clear_in_def intro: bot_device.clear_in)
  next
    case C_Clear_Out
    then show ?thesis using stick_torn_step [OF refl refl, where c = C_Clear_Out and s = s and g = "\<lambda>_. []"]
      by (auto simp: stick_transport_def no_data_bare stick_clear_out_def intro: bot_device.clear_out)
  next
    case C_Reset
    then show ?thesis by (auto simp: stick_transport_def no_data_bare stick_reset_def intro: bot_device.reset)
  qed
  then show ?thesis unfolding conforms_def by (simp add: case_prod_unfold)
qed



section \<open>Properties\<close>

definition stick_driver :: "nat \<Rightarrow> nat \<Rightarrow> stick driver" where
  "stick_driver bs n = \<lparr>drv_bot = bot_new \<lparr>st_phase = Idle, st_tag = 0, st_bytes = (\<lambda>i. of_nat (i mod 200))\<rparr>,
     drv_block_size = bs, drv_capacity = n * bs\<rparr>"

text \<open>A stick that is plugged in and answers: every command succeeds.\<close>

definition healthy :: "stick bot \<Rightarrow> bool" where
  "healthy b \<longleftrightarrow> \<not> bot_mid b \<and> st_phase (bot_transport b) = Idle"

lemma stick_calls:
  "t_bulk_out (stick_transport bs n) = stick_out bs n" "t_bulk_in (stick_transport bs n) = stick_in"
  by (simp_all add: stick_transport_def)

lemma stick_csw: "decode_csw (csw_bytes \<lparr>csw_tag = t, csw_residue = 0, csw_status = CSW_PASSED\<rparr>) t =
    Ok \<lparr>csw_tag = t, csw_residue = 0, csw_status = CSW_PASSED\<rparr>"
  using decode_csw_bytes [of "\<lparr>csw_tag = t, csw_residue = 0, csw_status = CSW_PASSED\<rparr>"] by (simp add: bot_consts)

lemma passed_no_phase_error: "CSW_PASSED \<noteq> CSW_PHASE_ERROR"
  by (simp add: CSW_PASSED_def CSW_PHASE_ERROR_def)

lemma stick_status_stage:
  assumes "st_phase s = Sending [] \<or> (\<exists>R. st_phase s = Status_Due True R)"
  shows "csw_stage (stick_transport bs n) \<lparr>bot_transport = s, bot_tag = g, bot_mid = m\<rparr> =
    (Return (csw_bytes \<lparr>csw_tag = st_tag s, csw_residue = 0, csw_status = CSW_PASSED\<rparr>),
     \<lparr>bot_transport = s\<lparr>st_phase := Idle\<rparr>, bot_tag = g, bot_mid = m\<rparr>)"
  using assms
  by (auto simp: csw_stage_def io_bind_def await_def stick_calls stick_in_def Let_def ret_def)

lemma stick_judge:
  "judge_csw T tag data (csw_bytes \<lparr>csw_tag = tag, csw_residue = 0, csw_status = CSW_PASSED\<rparr>) b =
    (Return (data, \<lparr>csw_tag = tag, csw_residue = 0, csw_status = CSW_PASSED\<rparr>), b\<lparr>bot_mid := False\<rparr>)"
  by (simp add: judge_csw_def stick_csw passed_no_phase_error io_bind_def set_mid_def modify_def ret_def)

lemma stick_exchange_in:
  assumes v: "takes_rw bs n (stick_disk bs s) (cbw_for (g + 1) cdb (DataIn (length answer))) = Some (Sending answer)"
    and cdb: "cdb \<noteq> []" "length cdb \<le> 16" and len: "length answer < 2 ^ 32" and idle: "st_phase s = Idle"
  shows "execute (stick_transport bs n) cdb (DataIn (length answer)) \<lparr>bot_transport = s, bot_tag = g, bot_mid = False\<rparr> =
    (Return (answer, \<lparr>csw_tag = g + 1, csw_residue = 0, csw_status = CSW_PASSED\<rparr>),
     \<lparr>bot_transport = s\<lparr>st_phase := Idle, st_tag := g + 1\<rparr>, bot_tag = g + 1, bot_mid = False\<rparr>)"
proof -
  obtain cbw where e: "encode_cbw (g + 1) (length answer) In 0 cdb = Some cbw" using encode_cbw_Some [OF cdb] by blast
  from read_encode_cbw [OF e len] have r: "read_cbw cbw = Some (cbw_for (g + 1) cdb (DataIn (length answer)))"
    by (simp add: cbw_for_def phase_shape_def)
  have tag: "cbw_tag (cbw_for (g + 1) cdb (DataIn (length answer))) = g + 1" by (simp add: cbw_for_def)
  have data: "data_in (stick_transport bs n) (length answer) []
      \<lparr>bot_transport = s\<lparr>st_phase := Sending answer, st_tag := g + 1\<rparr>, bot_tag = g + 1, bot_mid = True\<rparr> =
    (Return answer, \<lparr>bot_transport = s\<lparr>st_phase := Sending [], st_tag := g + 1\<rparr>, bot_tag = g + 1, bot_mid = True\<rparr>)"
    by (cases "answer = []")
      (simp add: data_in.simps, subst data_in.simps, simp add: await_def stick_calls stick_in_def Let_def, simp add: data_in.simps)
  show ?thesis
    using data
    by (simp add: stick_status_stage stick_judge execute_def resync_def exchange_def reads_def ret_def next_tag_def Let_def phase_shape_def e or_panic_def
        set_mid_def modify_def send_cbw_def await_def stick_calls stick_out_def idle r v tag data_stage_def io_bind_def)
qed


lemma stick_exchange_out:
  assumes v: "takes_rw bs n (stick_disk bs s) (cbw_for (g + 1) cdb (DataOut payload)) = Some (Receiving lba k)"
    and cdb: "cdb \<noteq> []" "length cdb \<le> 16" and len: "length payload < 2 ^ 32" "length payload = k * bs"
    and idle: "st_phase s = Idle"
  obtains s' where "execute (stick_transport bs n) cdb (DataOut payload) \<lparr>bot_transport = s, bot_tag = g, bot_mid = False\<rparr> =
    (Return ([], \<lparr>csw_tag = g + 1, csw_residue = 0, csw_status = CSW_PASSED\<rparr>),
     \<lparr>bot_transport = s', bot_tag = g + 1, bot_mid = False\<rparr>)" and "st_phase s' = Idle"
proof -
  obtain cbw where e: "encode_cbw (g + 1) (length payload) Out 0 cdb = Some cbw" using encode_cbw_Some [OF cdb] by blast
  from read_encode_cbw [OF e len(1)] have r: "read_cbw cbw = Some (cbw_for (g + 1) cdb (DataOut payload))"
    by (simp add: cbw_for_def phase_shape_def)
  have tag: "cbw_tag (cbw_for (g + 1) cdb (DataOut payload)) = g + 1" by (simp add: cbw_for_def)
  let ?f = "\<lambda>i. if lba * bs \<le> i \<and> i < (lba + k) * bs then payload ! (i - lba * bs) else st_bytes s i"
  show ?thesis
    by (rule that [of "s\<lparr>st_phase := Idle, st_tag := g + 1, st_bytes := ?f\<rparr>"])
      (simp_all add: stick_status_stage stick_judge execute_def resync_def exchange_def reads_def ret_def next_tag_def Let_def
        phase_shape_def e [unfolded len(2)] or_panic_def set_mid_def modify_def send_cbw_def await_def stick_calls
        stick_out_def idle r v tag data_stage_def io_bind_def len(2) cong: if_cong)
qed

lemma bot_cases: "b = \<lparr>bot_transport = bot_transport b, bot_tag = bot_tag b, bot_mid = bot_mid b\<rparr>" by simp

lemma stick_read10:
  assumes h: "healthy b" and lba: "lba + k \<le> n" "lba < 2 ^ 32" "k < 2 ^ 16" and len: "k * bs < 2 ^ 32"
  obtains b' where "bot_read10 (stick_transport bs n) lba k bs b =
    (Return (blocks_at (stick_disk bs (bot_transport b)) lba k), b')" and "healthy b'"
proof -
  let ?d = "stick_disk bs (bot_transport b)"
  have blen: "length (blocks_at ?d lba k) = k * bs" by (rule length_blocks_at) simp
  have b: "b = \<lparr>bot_transport = bot_transport b, bot_tag = bot_tag b, bot_mid = False\<rparr>"
    using h by (simp add: healthy_def)
  have cdb: "cdb_read10 lba k \<noteq> []" "length (cdb_read10 lba k) \<le> 16" by (simp_all add: cdb_read10_def rw10_def)
  have len': "length (blocks_at ?d lba k) < 2 ^ 32" using len by (simp only: blen)
  have idle: "st_phase (bot_transport b) = Idle" using h by (simp add: healthy_def)
  have t: "times_exec 32 k bs = Some (k * bs)" using len by (simp add: times_exec_def)
  note ex = stick_exchange_in [OF takes_rw_read [OF lba, of bs ?d "bot_tag b + 1", folded blen] cdb len' idle]
  show ?thesis
    by (rule that [of "\<lparr>bot_transport = (bot_transport b)\<lparr>st_phase := Idle, st_tag := bot_tag b + 1\<rparr>,
        bot_tag = bot_tag b + 1, bot_mid = False\<rparr>"])
      (subst b, simp_all add: bot_read10_def t command_def io_bind_def or_panic_def ex [unfolded blen] ret_def blen healthy_def)
qed

lemma stick_write10:
  assumes h: "healthy b" and lba: "lba + k \<le> n" "lba < 2 ^ 32" "k < 2 ^ 16"
    and len: "k * bs < 2 ^ 32" "length payload = k * bs"
  obtains b' where "bot_write10 (stick_transport bs n) lba k bs payload b = (Return (), b')" and "healthy b'"
proof -
  let ?d = "stick_disk bs (bot_transport b)"
  have b: "b = \<lparr>bot_transport = bot_transport b, bot_tag = bot_tag b, bot_mid = False\<rparr>"
    using h by (simp add: healthy_def)
  have cdb: "cdb_write10 lba k \<noteq> []" "length (cdb_write10 lba k) \<le> 16" by (simp_all add: cdb_write10_def rw10_def)
  have idle: "st_phase (bot_transport b) = Idle" using h by (simp add: healthy_def)
  have len': "length payload < 2 ^ 32" using len by simp
  have t: "times_exec 32 k bs = Some (k * bs)" using len by (simp add: times_exec_def)
  obtain s' where ex: "execute (stick_transport bs n) (cdb_write10 lba k) (DataOut payload)
      \<lparr>bot_transport = bot_transport b, bot_tag = bot_tag b, bot_mid = False\<rparr> =
    (Return ([], \<lparr>csw_tag = bot_tag b + 1, csw_residue = 0, csw_status = CSW_PASSED\<rparr>),
     \<lparr>bot_transport = s', bot_tag = bot_tag b + 1, bot_mid = False\<rparr>)" and s': "st_phase s' = Idle"
    by (rule stick_exchange_out [OF takes_rw_write [OF lba len(2), of ?d "bot_tag b + 1"] cdb len' len(2) idle], rule that)
  show ?thesis
    by (rule that [of "\<lparr>bot_transport = s', bot_tag = bot_tag b + 1, bot_mid = False\<rparr>"])
      (subst b, simp_all add: bot_write10_def t len(2) command_def io_bind_def or_panic_def ex ret_def healthy_def s')
qed

lemma stick_on_bot:
  assumes "m (drv_bot d) = (Return x, b')"
  shows "on_bot what m d = (Return x, d\<lparr>drv_bot := b'\<rparr>)"
  using assms by (simp add: on_bot_def map_stop_def)


lemma stick_reads:
  assumes bs: "2 \<le> bs" "bs \<le> DATA_CAP" and n: "n \<le> 2 ^ 32"
  shows "healthy (drv_bot d) \<Longrightarrow> drv_block_size d = bs \<Longrightarrow> cursor + remaining \<le> n * bs \<Longrightarrow>
    \<exists>res d'. read_chunks (stick_transport bs n) cursor remaining out d = (Return res, d')"
proof (induction remaining arbitrary: d cursor out rule: less_induct)
  case (less remaining)
  show ?case
  proof (cases "remaining = 0")
    case True
    then show ?thesis by (subst read_chunks.simps) simp
  next
    case False
    then have pos: "0 < remaining" by simp
    obtain f w t k where ch: "next_chunk bs cursor remaining = Some (f, w, t, k)"
      and c: "cursor = f * bs + w" "0 < t" "t \<le> remaining" "w + t \<le> k * bs" "f + k \<le> n"
      "f mod 2 ^ 32 = f" "f < 2 ^ 32" "k < 2 ^ 16" "k * bs < 2 ^ 32"
      by (rule next_chunk_fits [OF bs pos less.prems(3) n], rule that)
    let ?chunk = "blocks_at (stick_disk bs (bot_transport (drv_bot d))) f k"
    obtain b' where b': "bot_read10 (stick_transport bs n) f k bs (drv_bot d) = (Return ?chunk, b')" and h: "healthy b'"
      by (rule stick_read10 [OF less.prems(1) c(5,7,8,9)], rule that)
    have len: "length ?chunk = k * bs" by (rule length_blocks_at) simp
    have lt: "remaining - t < remaining" and fit: "cursor + t + (remaining - t) \<le> n * bs"
      using less.prems(3) c(2,3) by simp_all
    have "\<exists>res d''. read_chunks (stick_transport bs n) (cursor + t) (remaining - t) (out @ slice w t ?chunk)
        (d\<lparr>drv_bot := b'\<rparr>) = (Return res, d'')"
      by (rule less.IH [OF lt _ _ fit]) (use h less.prems(2) in simp_all)
    moreover have "read_chunks (stick_transport bs n) cursor remaining out d =
        read_chunks (stick_transport bs n) (cursor + t) (remaining - t) (out @ slice w t ?chunk) (d\<lparr>drv_bot := b'\<rparr>)"
      using False ch c(4,6) less.prems(2) stick_on_bot [of "bot_read10 (stick_transport bs n) f k bs" d, OF b'] len by (subst read_chunks.simps) simp
    ultimately show ?thesis by simp
  qed
qed

lemma stick_write_step:
  assumes h: "healthy (drv_bot d)" and size: "drv_block_size d = bs" and bs: "2 \<le> bs"
    and c: "w + length part \<le> k * bs" "k * bs < w + length part + bs" "f + k \<le> n"
      "f mod 2 ^ 32 = f" "f < 2 ^ 32" "k < 2 ^ 16" "k * bs < 2 ^ 32"
  obtains d' where "io_bind (chunk_to_write (stick_transport bs n) f w k part) (\<lambda>chunk d'.
      on_bot ''WRITE(10)'' (bot_write10 (stick_transport bs n) (f mod 2 ^ 32) k (drv_block_size d') chunk) d') d = (Return (), d')"
    and "healthy (drv_bot d')" and "drv_block_size d' = bs"
proof (cases "w = 0 \<and> (w + length part) mod bs = 0")
  case True
  have len: "length part = k * bs" using whole_blocks [of "length part" bs k] True c(1,2) bs by auto
  obtain b' where b': "bot_write10 (stick_transport bs n) f k bs part (drv_bot d) = (Return (), b')" and h': "healthy b'"
    by (rule stick_write10 [OF h c(3,5,6,7) len], rule that)
  show ?thesis
    by (rule that [of "d\<lparr>drv_bot := b'\<rparr>"])
      (use True c(4) size stick_on_bot [of "bot_write10 (stick_transport bs n) f k bs part" d, OF b'] h' in \<open>auto simp: io_bind_def chunk_to_write_def Let_def\<close>)
next
  case False
  let ?cur = "blocks_at (stick_disk bs (bot_transport (drv_bot d))) f k"
  let ?p = "take w ?cur @ part @ drop (w + length part) ?cur"
  have clen: "length ?cur = k * bs" by (rule length_blocks_at) simp
  obtain b1 where b1: "bot_read10 (stick_transport bs n) f k bs (drv_bot d) = (Return ?cur, b1)" and h1: "healthy b1"
    by (rule stick_read10 [OF h c(3,5,6,7)], rule that)
  have plen: "length ?p = k * bs" using clen c(1) by simp
  have h1': "healthy (drv_bot (d\<lparr>drv_bot := b1\<rparr>))" using h1 by simp
  obtain b2 where b2: "bot_write10 (stick_transport bs n) f k bs ?p (drv_bot (d\<lparr>drv_bot := b1\<rparr>)) = (Return (), b2)" and h2: "healthy b2"
    by (rule stick_write10 [OF h1' c(3,5,6,7) plen], rule that)
  have step: "chunk_to_write (stick_transport bs n) f w k part d = (Return ?p, d\<lparr>drv_bot := b1\<rparr>)"
    using False c(1,4) size stick_on_bot [of "bot_read10 (stick_transport bs n) f k bs" d, OF b1] clen by (auto simp: chunk_to_write_def Let_def io_bind_def ret_def)
  show ?thesis
    by (rule that [of "(d\<lparr>drv_bot := b1\<rparr>)\<lparr>drv_bot := b2\<rparr>"])
      (use step c(4) size stick_on_bot [of "bot_write10 (stick_transport bs n) f k bs ?p" "d\<lparr>drv_bot := b1\<rparr>", OF b2] h2 in \<open>auto simp: io_bind_def\<close>)
qed

lemma stick_writes:
  assumes bs: "2 \<le> bs" "bs \<le> DATA_CAP" and n: "n \<le> 2 ^ 32"
  shows "healthy (drv_bot d) \<Longrightarrow> drv_block_size d = bs \<Longrightarrow> written \<le> length xs \<Longrightarrow>
    cursor + (length xs - written) \<le> n * bs \<Longrightarrow>
    \<exists>d'. write_chunks (stick_transport bs n) cursor written xs d = (Return (), d')"
proof (induction "length xs - written" arbitrary: d cursor written rule: less_induct)
  case less
  show ?case
  proof (cases "length xs \<le> written")
    case True
    then show ?thesis by (subst write_chunks.simps) simp
  next
    case False
    then have pos: "0 < length xs - written" by simp
    obtain f w t k where ch: "next_chunk bs cursor (length xs - written) = Some (f, w, t, k)"
      and c: "cursor = f * bs + w" "0 < t" "t \<le> length xs - written" "w + t \<le> k * bs" "f + k \<le> n"
      "f mod 2 ^ 32 = f" "f < 2 ^ 32" "k < 2 ^ 16" "k * bs < 2 ^ 32" "k * bs < w + t + bs" "w < bs"
      by (rule next_chunk_fits [OF bs pos less.prems(4) n], rule that)
    let ?part = "slice written t xs"
    have plen: "length ?part = t" using c(3) pos by simp
    have p: "w + length ?part \<le> k * bs" "k * bs < w + length ?part + bs" using c(4,10) plen by simp_all
    obtain d1 where d1: "io_bind (chunk_to_write (stick_transport bs n) f w k ?part) (\<lambda>chunk d'.
      on_bot ''WRITE(10)'' (bot_write10 (stick_transport bs n) (f mod 2 ^ 32) k (drv_block_size d') chunk) d') d = (Return (), d1)"
      and h1: "healthy (drv_bot d1)" and s1: "drv_block_size d1 = bs"
      by (rule stick_write_step [OF less.prems(1,2) bs(1) p c(5,6,7,8,9)], rule that)
    have lt: "length xs - (written + t) < length xs - written" and le: "written + t \<le> length xs"
      and fit: "cursor + t + (length xs - (written + t)) \<le> n * bs"
      using less.prems(4) c(2,3) pos by simp_all
    have "write_chunks (stick_transport bs n) cursor written xs d =
        write_chunks (stick_transport bs n) (cursor + t) (written + t) xs d1"
      using False ch d1 less.prems(2) by (subst write_chunks.simps) simp
    with less.hyps [OF lt h1 s1 le fit] show ?thesis by simp
  qed
qed



section \<open>What the stick promises\<close>

lemma stick_holding:
  assumes "healthy b" and "d = \<lparr>drv_bot = b, drv_block_size = bs, drv_capacity = n * bs\<rparr>"
  shows "holding st_phase (stick_disk bs) bs n {} (stick_disk bs (bot_transport b)) d"
  using assms by (simp add: holding_def ready_def healthy_def in_sync_def kept_def sized_def)

lemma stick_driver_healthy: "healthy (drv_bot (stick_driver bs n))"
  by (simp add: stick_driver_def healthy_def bot_new_def)

lemma io_case_mono:
  assumes "case p of (Return x, s) \<Rightarrow> Q x s | (Stop k, s) \<Rightarrow> E k s" and "(r, s') = p"
    and "\<And>x. Q x s' \<Longrightarrow> Q' x s'" and "\<And>k. E k s' \<Longrightarrow> E' k s'"
  shows "case r of Return x \<Rightarrow> Q' x s' | Stop k \<Rightarrow> E' k s'"
  using assms by (cases r) auto

text \<open>
  C5: the stick is a disk. Over a device that keeps to the Bulk-Only standard, with blocks of 2 to 64 Ki
  bytes and at most 2^32 of them, from whatever earlier operations left: a read that returns has exactly
  the bytes of its range; a write that returns has put exactly its bytes; either is refused as out of
  range exactly when the range passes the end, with nothing sent; and one that fails or is dropped
  leaves the engine in step with the device and only the blocks it touches changed or at risk.
\<close>

theorem msd_disk_refinement:
  assumes "conforms bs n T view disk" and "2 \<le> bs" "bs \<le> DATA_CAP" and "n \<le> 2 ^ 32"
    and "holding view disk bs n R d0 d"
  shows "(case read_bytes T offset len d of
      (Return out, d') \<Rightarrow> offset + len \<le> n * bs \<and> holding view disk bs n R d0 d' \<and>
        out = map (byte_at bs (disk_of disk d')) [offset..<offset + len]
    | (Stop k, d') \<Rightarrow> stopped view disk bs n R d0 k d' \<and> (k = Fail Out_Of_Range \<longleftrightarrow> n * bs < offset + len) \<and>
        (k = Fail Out_Of_Range \<longrightarrow> d' = d)) \<and>
    (case write_bytes T offset xs d of
      (Return u, d') \<Rightarrow> offset + length xs \<le> n * bs \<and> holding view disk bs n R (disk_of disk d') d' \<and>
        chunk_put disk bs R d0 offset xs d'
    | (Stop k, d') \<Rightarrow> stopped view disk bs n (R \<union> touched bs offset (length xs)) d0 k d' \<and>
        (k = Fail Out_Of_Range \<longleftrightarrow> n * bs < offset + length xs) \<and> (k = Fail Out_Of_Range \<longrightarrow> d' = d))"
  by (rule conjI [OF read_bytes_valid [OF assms] write_bytes_valid [OF assms]])

theorem msd_disk_refinement_witness:
  "(case read_bytes (stick_transport 512 8) 700 1000 (stick_driver 512 8) of
      (Return out, d') \<Rightarrow> out = map (byte_at 512 (disk_of (stick_disk 512) d')) [700..<1700]
    | (Stop k, d') \<Rightarrow> k \<noteq> Fail Out_Of_Range) \<and>
    (case write_bytes (stick_transport 512 8) 4090 [1, 2, 3, 4, 5, 6, 7] (stick_driver 512 8) of
      (Return u, d') \<Rightarrow> False
    | (Stop k, d') \<Rightarrow> k = Fail Out_Of_Range \<and> d' = stick_driver 512 8)"
proof (rule conjI)
  have h: "holding st_phase (stick_disk 512) 512 8 {} (stick_disk 512 (bot_transport (drv_bot (stick_driver 512 8)))) (stick_driver 512 8)"
    by (rule stick_holding [OF stick_driver_healthy]) (simp add: stick_driver_def)
  have bounds: "2 \<le> (512 :: nat)" "512 \<le> DATA_CAP" "(8 :: nat) \<le> 2 ^ 32" by (simp_all add: DATA_CAP_def)
  note R = msd_disk_refinement [OF stick_conforms bounds h]
  show "case read_bytes (stick_transport 512 8) 700 1000 (stick_driver 512 8) of
      (Return out, d') \<Rightarrow> out = map (byte_at 512 (disk_of (stick_disk 512) d')) [700..<1700]
    | (Stop k, d') \<Rightarrow> k \<noteq> Fail Out_Of_Range"
    by (rule case_prodI2, rule io_case_mono [OF R [THEN conjunct1, of 700 1000]]) simp_all
  show "case write_bytes (stick_transport 512 8) 4090 [1, 2, 3, 4, 5, 6, 7] (stick_driver 512 8) of
      (Return u, d') \<Rightarrow> False
    | (Stop k, d') \<Rightarrow> k = Fail Out_Of_Range \<and> d' = stick_driver 512 8"
    by (rule case_prodI2, rule io_case_mono [OF R [THEN conjunct2, of 4090 "[1, 2, 3, 4, 5, 6, 7]"]]) simp_all
qed






text \<open>
  A stick of one-byte blocks traps. Bring-up refuses only a block size of 0 or above 64 Ki, but with
  blocks of one byte a chunk of 64 Ki bytes is 65,536 blocks, which \<open>as u16\<close> makes none: on a healthy
  stick every read of 64 Ki bytes or more from its start panics on the slice of an empty answer.
\<close>

theorem msd_one_byte_blocks_trap:
  assumes "healthy b" and "65536 \<le> len" and "len \<le> n" and "n \<le> 2 ^ 32"
  shows "\<exists>d'. read_bytes (stick_transport 1 n) 0 len \<lparr>drv_bot = b, drv_block_size = 1, drv_capacity = n\<rparr> = (Stop Panic, d')"
proof -
  let ?d = "\<lparr>drv_bot = b, drv_block_size = 1, drv_capacity = n\<rparr>"
  have s: "sized 1 n ?d" by (simp add: sized_def)
  have ch: "next_chunk 1 0 len = Some (0, 0, 65536, 0)"
    using assms(2) by (simp add: next_chunk_def Let_def minus_exec_def DATA_CAP_def div_ceil_def)
  obtain b' where b': "bot_read10 (stick_transport 1 n) 0 0 1 b = (Return (blocks_at (stick_disk 1 (bot_transport b)) 0 0), b')"
    by (rule stick_read10 [OF assms(1), where lba = 0 and k = 0 and n = n and bs = 1]) simp_all
  have "blocks_at (stick_disk 1 (bot_transport b)) 0 0 = []" by (simp add: blocks_at_def)
  then have o: "on_bot ''READ(10)'' (bot_read10 (stick_transport 1 n) 0 0 1) ?d = (Return [], ?d\<lparr>drv_bot := b'\<rparr>)"
    using stick_on_bot [of "bot_read10 (stick_transport 1 n) 0 0 1" ?d, of "[]" b'] b' by simp
  have "read_chunks (stick_transport 1 n) 0 len [] ?d = (Stop Panic, ?d\<lparr>drv_bot := b'\<rparr>)"
    using assms(2) ch o by (subst read_chunks.simps) simp
  moreover have "read_bytes (stick_transport 1 n) 0 len ?d = read_chunks (stick_transport 1 n) 0 len [] ?d"
  proof -
    have c: "1 \<le> DATA_CAP" by (simp add: DATA_CAP_def)
    show ?thesis using assms(3) unfolding read_bytes_def ranged_bind [OF s c assms(4)] by simp
  qed
  ultimately show ?thesis by auto
qed

theorem msd_one_byte_blocks_trap_witness:
  "\<exists>d'. read_bytes (stick_transport 1 100000) 0 65536 (stick_driver 1 100000) = (Stop Panic, d')"
  using msd_one_byte_blocks_trap [of "drv_bot (stick_driver 1 100000)" 65536 100000] stick_driver_healthy [of 1 100000]
  by (simp add: stick_driver_def)

end
