(* ===== verification/Usb_Descriptor.thy ===== *)
theory Usb_Descriptor
  imports Prelude
begin

unbundle bit_operations_syntax

text \<open>
  USB framing (\<open>crates/eo9-ohci/src/setup.rs\<close>, \<open>descriptor.rs\<close>, \<open>hub.rs\<close>, \<open>hid.rs\<close>): setup packets, the
  standard descriptors and the walk over a configuration blob, hub descriptors and port status, and
  boot-protocol reports with the console bytes of a key.
\<close>

section \<open>Setup packets\<close>

record setup_packet =
  request_type :: "8 word"
  request :: "8 word"
  setup_value :: nat
  setup_index :: nat
  setup_length :: nat

definition setup_encode :: "setup_packet \<Rightarrow> bytes" where
  "setup_encode s = [request_type s, request s] @ le_encode 2 (setup_value s) @ le_encode 2 (setup_index s) @
     le_encode 2 (setup_length s)"

definition setup_is_in :: "setup_packet \<Rightarrow> bool" where
  "setup_is_in s \<longleftrightarrow> request_type s AND 0x80 \<noteq> 0"

definition STANDARD_OUT_DEVICE :: "8 word" where "STANDARD_OUT_DEVICE = 0x00"
definition STANDARD_IN_DEVICE :: "8 word" where "STANDARD_IN_DEVICE = 0x80"
definition CLASS_OUT_INTERFACE :: "8 word" where "CLASS_OUT_INTERFACE = 0x21"
definition GET_DESCRIPTOR :: "8 word" where "GET_DESCRIPTOR = 6"
definition SET_ADDRESS :: "8 word" where "SET_ADDRESS = 5"
definition SET_CONFIGURATION :: "8 word" where "SET_CONFIGURATION = 9"
definition HID_SET_IDLE :: "8 word" where "HID_SET_IDLE = 0x0a"
definition HID_SET_PROTOCOL :: "8 word" where "HID_SET_PROTOCOL = 0x0b"
definition DT_DEVICE :: "8 word" where "DT_DEVICE = 1"
definition DT_CONFIGURATION :: "8 word" where "DT_CONFIGURATION = 2"
definition DT_INTERFACE :: "8 word" where "DT_INTERFACE = 4"
definition DT_ENDPOINT :: "8 word" where "DT_ENDPOINT = 5"

lemmas setup_consts = STANDARD_OUT_DEVICE_def STANDARD_IN_DEVICE_def CLASS_OUT_INTERFACE_def GET_DESCRIPTOR_def
  SET_ADDRESS_def SET_CONFIGURATION_def HID_SET_IDLE_def HID_SET_PROTOCOL_def DT_DEVICE_def DT_CONFIGURATION_def
  DT_INTERFACE_def DT_ENDPOINT_def

definition set_address :: "8 word \<Rightarrow> setup_packet" where
  "set_address address = \<lparr>request_type = STANDARD_OUT_DEVICE, request = SET_ADDRESS, setup_value = unat address,
     setup_index = 0, setup_length = 0\<rparr>"

definition get_descriptor :: "8 word \<Rightarrow> 8 word \<Rightarrow> nat \<Rightarrow> setup_packet" where
  "get_descriptor descriptor index len = \<lparr>request_type = STANDARD_IN_DEVICE, request = GET_DESCRIPTOR,
     setup_value = unat descriptor * 2 ^ 8 + unat index, setup_index = 0, setup_length = len\<rparr>"

definition set_configuration :: "8 word \<Rightarrow> setup_packet" where
  "set_configuration configuration = \<lparr>request_type = STANDARD_OUT_DEVICE, request = SET_CONFIGURATION,
     setup_value = unat configuration, setup_index = 0, setup_length = 0\<rparr>"

definition hid_set_protocol_boot :: "8 word \<Rightarrow> setup_packet" where
  "hid_set_protocol_boot interface = \<lparr>request_type = CLASS_OUT_INTERFACE, request = HID_SET_PROTOCOL,
     setup_value = 0, setup_index = unat interface, setup_length = 0\<rparr>"

definition hid_set_idle_indefinite :: "8 word \<Rightarrow> setup_packet" where
  "hid_set_idle_indefinite interface = \<lparr>request_type = CLASS_OUT_INTERFACE, request = HID_SET_IDLE,
     setup_value = 0, setup_index = unat interface, setup_length = 0\<rparr>"


section \<open>Descriptors\<close>

record device_desc =
  dd_usb_version :: nat
  dd_class :: "8 word"
  dd_subclass :: "8 word"
  dd_protocol :: "8 word"
  dd_max_packet_size_ep0 :: "8 word"
  dd_vendor_id :: nat
  dd_product_id :: nat
  dd_device_version :: nat
  dd_manufacturer_index :: "8 word"
  dd_product_index :: "8 word"
  dd_serial_index :: "8 word"
  dd_num_configurations :: "8 word"

definition device_desc_parse :: "bytes \<Rightarrow> device_desc option" where
  "device_desc_parse bs =
     (if length bs < 18 \<or> bs ! 0 < 18 \<or> bs ! 1 \<noteq> DT_DEVICE then None
      else Some \<lparr>dd_usb_version = le_decode [bs ! 2, bs ! 3], dd_class = bs ! 4, dd_subclass = bs ! 5,
        dd_protocol = bs ! 6, dd_max_packet_size_ep0 = bs ! 7, dd_vendor_id = le_decode [bs ! 8, bs ! 9],
        dd_product_id = le_decode [bs ! 10, bs ! 11], dd_device_version = le_decode [bs ! 12, bs ! 13],
        dd_manufacturer_index = bs ! 14, dd_product_index = bs ! 15, dd_serial_index = bs ! 16,
        dd_num_configurations = bs ! 17\<rparr>)"

definition max_packet_size_from_head :: "bytes \<Rightarrow> 8 word option" where
  "max_packet_size_from_head head =
     (if length head < 8 \<or> head ! 1 \<noteq> DT_DEVICE then None else Some (head ! 7))"

record config_desc =
  cd_total_length :: nat
  cd_num_interfaces :: "8 word"
  cd_configuration_value :: "8 word"
  cd_attributes :: "8 word"
  cd_max_power :: "8 word"

definition config_desc_parse :: "bytes \<Rightarrow> config_desc option" where
  "config_desc_parse bs =
     (if length bs < 9 \<or> bs ! 0 < 9 \<or> bs ! 1 \<noteq> DT_CONFIGURATION then None
      else Some \<lparr>cd_total_length = le_decode [bs ! 2, bs ! 3], cd_num_interfaces = bs ! 4,
        cd_configuration_value = bs ! 5, cd_attributes = bs ! 7, cd_max_power = bs ! 8\<rparr>)"

record interface_desc =
  if_number :: "8 word"
  if_alternate_setting :: "8 word"
  if_num_endpoints :: "8 word"
  if_class :: "8 word"
  if_subclass :: "8 word"
  if_protocol :: "8 word"

record ep_desc =
  ep_address :: "8 word"
  ep_attributes :: "8 word"
  ep_max_packet_size :: nat
  ep_interval :: "8 word"

definition ep_number :: "ep_desc \<Rightarrow> 8 word" where "ep_number e = ep_address e AND 0xf"
definition ep_is_in :: "ep_desc \<Rightarrow> bool" where "ep_is_in e \<longleftrightarrow> ep_address e AND 0x80 \<noteq> 0"
definition ep_is_interrupt :: "ep_desc \<Rightarrow> bool" where "ep_is_interrupt e \<longleftrightarrow> ep_attributes e AND 0b11 = 3"

datatype descriptor = Configuration config_desc | Interface interface_desc | Endpoint ep_desc | Other_Desc bytes

text \<open>One descriptor of a blob, \<^term>\<open>None\<close> for a malformed one that the walk skips.\<close>

definition parse_one :: "bytes \<Rightarrow> descriptor option" where
  "parse_one raw =
     (if raw ! 1 = DT_CONFIGURATION then map_option Configuration (config_desc_parse raw)
      else if raw ! 1 = DT_INTERFACE \<and> 9 \<le> length raw then
        Some (Interface \<lparr>if_number = raw ! 2, if_alternate_setting = raw ! 3, if_num_endpoints = raw ! 4,
          if_class = raw ! 5, if_subclass = raw ! 6, if_protocol = raw ! 7\<rparr>)
      else if raw ! 1 = DT_ENDPOINT \<and> 7 \<le> length raw then
        Some (Endpoint \<lparr>ep_address = raw ! 2, ep_attributes = raw ! 3,
          ep_max_packet_size = le_decode [raw ! 4, raw ! 5], ep_interval = raw ! 6\<rparr>)
      else Some (Other_Desc raw))"

text \<open>The iterator, run to its end.\<close>

function descriptors :: "bytes \<Rightarrow> descriptor list" where
  "descriptors rest =
     (if length rest < 2 then []
      else let len = unat (rest ! 0) in
        if len < 2 \<or> length rest < len then []
        else (case parse_one (take len rest) of
            Some d \<Rightarrow> d # descriptors (drop len rest)
          | None \<Rightarrow> descriptors (drop len rest)))"
  by pat_completeness auto
termination by (relation "measure length") auto

declare descriptors.simps [simp del]

definition CLASS_HID :: "8 word" where "CLASS_HID = 3"
definition SUBCLASS_BOOT :: "8 word" where "SUBCLASS_BOOT = 1"

fun boot_walk :: "interface_desc option \<Rightarrow> descriptor list \<Rightarrow> (interface_desc \<times> ep_desc) option" where
  "boot_walk current [] = None"
| "boot_walk current (Interface i # ds) =
     boot_walk (if if_class i = CLASS_HID \<and> if_subclass i = SUBCLASS_BOOT then Some i else None) ds"
| "boot_walk current (Endpoint e # ds) =
     (case current of
        Some i \<Rightarrow> if ep_is_in e \<and> ep_is_interrupt e then Some (i, e) else boot_walk current ds
      | None \<Rightarrow> boot_walk current ds)"
| "boot_walk current (_ # ds) = boot_walk current ds"

definition find_boot_interface :: "bytes \<Rightarrow> (interface_desc \<times> ep_desc) option" where
  "find_boot_interface blob = boot_walk None (descriptors blob)"

text \<open>Descriptors written the way a device sends them, and read back by the walk.\<close>

definition desc_bytes :: "descriptor \<Rightarrow> bytes" where
  "desc_bytes d = (case d of
     Configuration c \<Rightarrow> [9, DT_CONFIGURATION] @ le_encode 2 (cd_total_length c) @
       [cd_num_interfaces c, cd_configuration_value c, 0, cd_attributes c, cd_max_power c]
   | Interface i \<Rightarrow> [9, DT_INTERFACE, if_number i, if_alternate_setting i, if_num_endpoints i, if_class i,
       if_subclass i, if_protocol i, 0]
   | Endpoint e \<Rightarrow> [7, DT_ENDPOINT, ep_address e, ep_attributes e] @ le_encode 2 (ep_max_packet_size e) @ [ep_interval e]
   | Other_Desc raw \<Rightarrow> raw)"

definition desc_ok :: "descriptor \<Rightarrow> bool" where
  "desc_ok d \<longleftrightarrow> (case d of
     Configuration c \<Rightarrow> cd_total_length c < 2 ^ 16
   | Interface i \<Rightarrow> True
   | Endpoint e \<Rightarrow> ep_max_packet_size e < 2 ^ 16
   | Other_Desc raw \<Rightarrow> 2 \<le> length raw \<and> length raw < 256 \<and> raw ! 0 = word_of_nat (length raw) \<and>
       raw ! 1 \<noteq> DT_CONFIGURATION \<and> (raw ! 1 = DT_INTERFACE \<longrightarrow> length raw < 9) \<and> (raw ! 1 = DT_ENDPOINT \<longrightarrow> length raw < 7))"

lemma le_two: "v < 2 ^ 16 \<Longrightarrow> \<exists>a b. le_encode 2 v = [a, b] \<and> le_decode [a, b] = v"
proof -
  assume v: "v < 2 ^ 16"
  have "length (le_encode 2 v) = 2" by simp
  then obtain a b where "le_encode 2 v = [a, b]" by (cases "le_encode 2 v"; cases "tl (le_encode 2 v)") auto
  with le_roundtrip [of v 2] v show ?thesis by auto
qed

lemma desc_bytes_head:
  assumes "desc_ok d"
  shows "2 \<le> length (desc_bytes d) \<and> unat (desc_bytes d ! 0) = length (desc_bytes d) \<and> parse_one (desc_bytes d) = Some d"
proof (cases d)
  case (Configuration c)
  with assms le_two [of "cd_total_length c"] obtain a b where
    "le_encode 2 (cd_total_length c) = [a, b]" "le_decode [a, b] = cd_total_length c" by (auto simp: desc_ok_def)
  then show ?thesis
    by (simp add: Configuration desc_bytes_def parse_one_def config_desc_parse_def setup_consts del: le_decode.simps)
next
  case (Interface i)
  then show ?thesis by (simp add: desc_bytes_def parse_one_def setup_consts)
next
  case (Endpoint e)
  with assms le_two [of "ep_max_packet_size e"] obtain a b where
    "le_encode 2 (ep_max_packet_size e) = [a, b]" "le_decode [a, b] = ep_max_packet_size e" by (auto simp: desc_ok_def)
  then show ?thesis
    by (simp add: Endpoint desc_bytes_def parse_one_def setup_consts del: le_decode.simps)
next
  case (Other_Desc raw)
  then show ?thesis using assms by (auto simp: desc_bytes_def desc_ok_def parse_one_def unat_of_nat)
qed

lemma descriptors_step:
  assumes "desc_ok d"
  shows "descriptors (desc_bytes d @ rest) = d # descriptors rest"
proof -
  note h = desc_bytes_head [OF assms]
  have "(desc_bytes d @ rest) ! 0 = desc_bytes d ! 0" using h by (cases "desc_bytes d") auto
  with h show ?thesis by (subst descriptors.simps) (simp add: Let_def)
qed

lemma descriptors_roundtrip: "list_all desc_ok ds \<Longrightarrow> descriptors (concat (map desc_bytes ds)) = ds"
proof (induction ds)
  case Nil
  then show ?case by (simp add: descriptors.simps)
next
  case (Cons d ds)
  then show ?case by (simp add: descriptors_step)
qed



section \<open>Hubs\<close>

definition DESCRIPTOR_HUB :: "8 word" where "DESCRIPTOR_HUB = 0x29"
definition FEATURE_PORT_POWER :: nat where "FEATURE_PORT_POWER = 8"
definition FEATURE_PORT_RESET :: nat where "FEATURE_PORT_RESET = 4"

definition get_hub_descriptor :: "nat \<Rightarrow> setup_packet" where
  "get_hub_descriptor len = \<lparr>request_type = 0xa0, request = GET_DESCRIPTOR, setup_value = unat DESCRIPTOR_HUB * 2 ^ 8,
     setup_index = 0, setup_length = len\<rparr>"

definition set_port_power :: "8 word \<Rightarrow> setup_packet" where
  "set_port_power port = \<lparr>request_type = 0x23, request = 3, setup_value = FEATURE_PORT_POWER,
     setup_index = unat port, setup_length = 0\<rparr>"

definition set_port_reset :: "8 word \<Rightarrow> setup_packet" where
  "set_port_reset port = \<lparr>request_type = 0x23, request = 3, setup_value = FEATURE_PORT_RESET,
     setup_index = unat port, setup_length = 0\<rparr>"

definition clear_port_feature :: "8 word \<Rightarrow> nat \<Rightarrow> setup_packet" where
  "clear_port_feature port feature = \<lparr>request_type = 0x23, request = 1, setup_value = feature,
     setup_index = unat port, setup_length = 0\<rparr>"

definition get_port_status :: "8 word \<Rightarrow> setup_packet" where
  "get_port_status port = \<lparr>request_type = 0xa3, request = 0, setup_value = 0, setup_index = unat port, setup_length = 4\<rparr>"

record hub_desc =
  hub_ports :: "8 word"
  hub_characteristics :: nat
  hub_power_on_to_power_good_2ms :: "8 word"
  hub_controller_current_ma :: "8 word"

definition hub_desc_parse :: "bytes \<Rightarrow> hub_desc option" where
  "hub_desc_parse bs =
     (if length bs < 7 \<or> bs ! 0 < 7 \<or> bs ! 1 \<noteq> DESCRIPTOR_HUB then None
      else Some \<lparr>hub_ports = bs ! 2, hub_characteristics = le_decode [bs ! 3, bs ! 4],
        hub_power_on_to_power_good_2ms = bs ! 5, hub_controller_current_ma = bs ! 6\<rparr>)"

datatype port_speed = Low | Full | High

record hub_port_status =
  hp_connected :: bool
  hp_enabled :: bool
  hp_suspended :: bool
  hp_powered :: bool
  hp_speed :: port_speed
  hp_change :: "16 word"
  hp_raw :: "16 word"

definition hub_port_status_parse :: "bytes \<Rightarrow> hub_port_status option" where
  "hub_port_status_parse bs =
     (if length bs < 4 then None
      else let status = (word_of_nat (le_decode [bs ! 0, bs ! 1]) :: 16 word);
               change = word_of_nat (le_decode [bs ! 2, bs ! 3]) in
        Some \<lparr>hp_connected = (status AND push_bit 0 1 \<noteq> 0), hp_enabled = (status AND push_bit 1 1 \<noteq> 0),
          hp_suspended = (status AND push_bit 2 1 \<noteq> 0), hp_powered = (status AND push_bit 8 1 \<noteq> 0),
          hp_speed = (if status AND push_bit 9 1 \<noteq> 0 then Low else if status AND push_bit 10 1 \<noteq> 0 then High else Full),
          hp_change = change, hp_raw = status\<rparr>)"

definition reset_complete :: "hub_port_status \<Rightarrow> bool" where
  "reset_complete p \<longleftrightarrow> hp_change p AND push_bit 4 1 \<noteq> 0"


section \<open>Boot reports\<close>

record keyboard_report =
  kb_modifiers :: "8 word"
  kb_keys :: "8 word list"

definition keyboard_report_parse :: "bytes \<Rightarrow> keyboard_report option" where
  "keyboard_report_parse report =
     (if length report < 8 then None else Some \<lparr>kb_modifiers = report ! 0, kb_keys = slice 2 6 report\<rparr>)"

definition is_rollover_error :: "keyboard_report \<Rightarrow> bool" where
  "is_rollover_error r \<longleftrightarrow> list_all (\<lambda>key. key = 0x01) (kb_keys r)"

definition LEFT_SHIFT :: "8 word" where "LEFT_SHIFT = push_bit 1 1"
definition RIGHT_SHIFT :: "8 word" where "RIGHT_SHIFT = push_bit 5 1"

definition kb_shift :: "keyboard_report \<Rightarrow> bool" where
  "kb_shift r \<longleftrightarrow> kb_modifiers r AND (LEFT_SHIFT OR RIGHT_SHIFT) \<noteq> 0"

definition pressed_since :: "keyboard_report \<Rightarrow> keyboard_report \<Rightarrow> 8 word list" where
  "pressed_since r previous = filter (\<lambda>key. key \<noteq> 0 \<and> key \<noteq> 0x01 \<and> key \<notin> set (kb_keys previous)) (kb_keys r)"

definition KEYS_PLAIN :: string where "KEYS_PLAIN = ''1234567890''"
definition KEYS_SHIFTED :: string where "KEYS_SHIFTED = ''!@#$%^&*()''"

text \<open>The character of a key, as its code.\<close>

definition key_ascii :: "8 word \<Rightarrow> bool \<Rightarrow> byte option" where
  "key_ascii usage shift =
     (if 0x04 \<le> usage \<and> usage \<le> 0x1d then Some (if shift then 0x41 + (usage - 0x04) else 0x61 + (usage - 0x04))
      else if 0x1e \<le> usage \<and> usage \<le> 0x27 then
        Some (of_char ((if shift then KEYS_SHIFTED else KEYS_PLAIN) ! unat (usage - 0x1e)))
      else if usage = 0x28 then Some 0x0a
      else if usage = 0x2b then Some 0x09
      else if usage = 0x2c then Some 0x20
      else if usage = 0x2d then Some (if shift then 0x5f else 0x2d)
      else if usage = 0x2e then Some (if shift then 0x2b else 0x3d)
      else if usage = 0x2f then Some (if shift then 0x7b else 0x5b)
      else if usage = 0x30 then Some (if shift then 0x7d else 0x5d)
      else if usage = 0x31 then Some (if shift then 0x7c else 0x5c)
      else if usage = 0x33 then Some (if shift then 0x3a else 0x3b)
      else if usage = 0x34 then Some (if shift then 0x22 else 0x27)
      else if usage = 0x35 then Some (if shift then 0x7e else 0x60)
      else if usage = 0x36 then Some (if shift then 0x3c else 0x2c)
      else if usage = 0x37 then Some (if shift then 0x3e else 0x2e)
      else if usage = 0x38 then Some (if shift then 0x3f else 0x2f)
      else None)"

text \<open>The bytes put into the four-byte buffer; none for a key without a console mapping.\<close>

definition key_console_bytes :: "8 word \<Rightarrow> bool \<Rightarrow> bytes" where
  "key_console_bytes usage shift =
     (if usage = 0x2a then [0x7f]
      else if usage = 0x52 then [0x1b, 0x5b, 0x41]
      else if usage = 0x51 then [0x1b, 0x5b, 0x42]
      else if usage = 0x4f then [0x1b, 0x5b, 0x43]
      else if usage = 0x50 then [0x1b, 0x5b, 0x44]
      else if usage = 0x4a then [0x1b, 0x5b, 0x48]
      else if usage = 0x4d then [0x1b, 0x5b, 0x46]
      else if usage = 0x4c then [0x1b, 0x5b, 0x33, 0x7e]
      else case key_ascii usage shift of Some ch \<Rightarrow> [ch] | None \<Rightarrow> [])"

lemma key_console_bytes_fit: "length (key_console_bytes usage shift) \<le> 4"
  by (simp add: key_console_bytes_def split: option.split)

text \<open>A key that stays down is not pressed again, and the phantom state presses nothing.\<close>

lemma pressed_since_self: "pressed_since r r = []"
  by (auto simp: pressed_since_def)

lemma rollover_presses_nothing: "is_rollover_error r \<Longrightarrow> pressed_since r p = []"
  by (auto simp: is_rollover_error_def pressed_since_def list_all_iff)

record mouse_report =
  mouse_buttons :: "8 word"
  mouse_dx :: int
  mouse_dy :: int

definition mouse_report_parse :: "bytes \<Rightarrow> mouse_report option" where
  "mouse_report_parse report =
     (if length report < 3 then None
      else Some \<lparr>mouse_buttons = report ! 0, mouse_dx = sint (report ! 1), mouse_dy = sint (report ! 2)\<rparr>)"

end
