(* ===== verification/Usb_Bringup.thy ===== *)
theory Usb_Bringup
  imports Usb_Msd_Props Usb_Descriptor
begin

text \<open>
  How a stick is brought up (\<open>guest/stubs/usb-msd/src/lib.rs\<close>): the watch over the root-hub ports, the
  descriptor chain, the mass-storage interface and its bulk pair, the settling of the unit and its
  geometry; and the slot the driver waits in between operations. The composed \<open>eo9:usb\<close> provider, the
  clock and the text output are a parameter, the record \<open>usb_host\<close> over a state \<open>'u\<close>.
\<close>

section \<open>The provider\<close>

datatype watch_outcome = Changed | Timed_Out | Unsupported_Watch

type_synonym ('u, 'a) usb_call = "'u \<Rightarrow> ('a, usb_error) result option \<times> 'u"

text \<open>\<^term>\<open>None\<close> is a dropped future; \<open>u_debug\<close> is the rendering \<open>{:?}\<close> of an error.\<close>

record ('u, 'd, 'p) usb_host =
  u_controller :: "('u, nat) usb_call"
  u_port :: "nat \<Rightarrow> ('u, bool) usb_call"
  u_watch_ports :: "('u, watch_outcome) usb_call"
  u_attach :: "nat \<Rightarrow> ('u, 'd) usb_call"
  u_control_in :: "'d \<Rightarrow> 8 word \<Rightarrow> 8 word \<Rightarrow> nat \<Rightarrow> nat \<Rightarrow> nat \<Rightarrow> ('u, bytes) usb_call"
  u_control_out :: "'d \<Rightarrow> 8 word \<Rightarrow> 8 word \<Rightarrow> nat \<Rightarrow> nat \<Rightarrow> bytes \<Rightarrow> ('u, unit) usb_call"
  u_open_bulk_in :: "'d \<Rightarrow> 8 word \<Rightarrow> nat \<Rightarrow> ('u, 'p) usb_call"
  u_open_bulk_out :: "'d \<Rightarrow> 8 word \<Rightarrow> nat \<Rightarrow> ('u, 'p) usb_call"
  u_bulk_read :: "'p \<Rightarrow> nat \<Rightarrow> ('u, bytes) usb_call"
  u_bulk_write :: "'p \<Rightarrow> bytes \<Rightarrow> ('u, unit) usb_call"
  u_now :: "'u \<Rightarrow> nat \<times> 'u"
  u_sleep :: "nat \<Rightarrow> 'u \<Rightarrow> unit option \<times> 'u"
  u_text :: "string \<Rightarrow> 'u \<Rightarrow> 'u"
  u_debug :: "usb_error \<Rightarrow> bytes"


section \<open>The transport over it\<close>

definition RESET_REQUEST_TYPE :: "8 word" where "RESET_REQUEST_TYPE = 0x21"
definition RESET_REQUEST :: "8 word" where "RESET_REQUEST = 0xff"
definition GET_MAX_LUN_REQUEST_TYPE :: "8 word" where "GET_MAX_LUN_REQUEST_TYPE = 0xa1"
definition GET_MAX_LUN :: "8 word" where "GET_MAX_LUN = 0xfe"
definition CLEAR_FEATURE_REQUEST_TYPE :: "8 word" where "CLEAR_FEATURE_REQUEST_TYPE = 0x02"
definition CLEAR_FEATURE :: "8 word" where "CLEAR_FEATURE = 1"
definition FEATURE_ENDPOINT_HALT :: nat where "FEATURE_ENDPOINT_HALT = 0"

record ('d, 'p) usb_transport =
  ut_device :: 'd
  ut_endpoint_in :: 'p
  ut_endpoint_out :: 'p
  ut_address_in :: "8 word"
  ut_address_out :: "8 word"
  ut_interface :: "8 word"

definition map_usb :: "('u, 'd, 'p) usb_host \<Rightarrow> usb_error \<Rightarrow> transport_error" where
  "map_usb U e = (case e of Usb_Stall \<Rightarrow> Stall | Usb_Timeout \<Rightarrow> Timeout | other \<Rightarrow> Other (u_debug U other))"

definition mapped :: "('u, 'd, 'p) usb_host \<Rightarrow> ('a, usb_error) result option \<times> 'u \<Rightarrow>
    ('a, transport_error) result option \<times> 'u" where
  "mapped U x = (case x of
     (None, u) \<Rightarrow> (None, u)
   | (Some (Ok v), u) \<Rightarrow> (Some (Ok v), u)
   | (Some (Err e), u) \<Rightarrow> (Some (Err (map_usb U e)), u))"

definition clear_halt :: "('u, 'd, 'p) usb_host \<Rightarrow> ('d, 'p) usb_transport \<Rightarrow> 8 word \<Rightarrow> 'u \<Rightarrow>
    (unit, transport_error) result option \<times> 'u" where
  "clear_halt U t endpoint_address u = mapped U
     (u_control_out U (ut_device t) CLEAR_FEATURE_REQUEST_TYPE CLEAR_FEATURE FEATURE_ENDPOINT_HALT (unat endpoint_address) [] u)"

definition transport_over :: "('u, 'd, 'p) usb_host \<Rightarrow> ('d, 'p) usb_transport \<Rightarrow> 'u transport" where
  "transport_over U t = \<lparr>
     t_bulk_out = (\<lambda>data u. mapped U (u_bulk_write U (ut_endpoint_out t) data u)),
     t_bulk_in = (\<lambda>len u. mapped U (u_bulk_read U (ut_endpoint_in t) len u)),
     t_clear_halt_in = clear_halt U t (ut_address_in t),
     t_clear_halt_out = clear_halt U t (ut_address_out t),
     t_mass_storage_reset = (\<lambda>u. mapped U (u_control_out U (ut_device t) RESET_REQUEST_TYPE RESET_REQUEST 0
        (unat (ut_interface t)) [] u))\<rparr>"


section \<open>The connect watch\<close>

definition WATCH_WINDOW_NS :: nat where "WATCH_WINDOW_NS = 2500000000"
definition WATCH_PACE_NS :: nat where "WATCH_PACE_NS = 50000000"
definition READY_ATTEMPTS :: nat where "READY_ATTEMPTS = 20"
definition READY_PACE_NS :: nat where "READY_PACE_NS = 50000000"
definition CLASS_MASS_STORAGE :: "8 word" where "CLASS_MASS_STORAGE = 0x08"
definition SUBCLASS_SCSI_TRANSPARENT :: "8 word" where "SUBCLASS_SCSI_TRANSPARENT = 0x06"
definition PROTOCOL_BULK_ONLY :: "8 word" where "PROTOCOL_BULK_ONLY = 0x50"

type_synonym ('u, 'a) up_proc = "('u, 'a, bring_up_error) proc"

text \<open>Awaiting a call; and one whose error ends bring-up with its label.\<close>

definition usb_await :: "('u, 'a) usb_call \<Rightarrow> ('u, ('a, usb_error) result) up_proc" where
  "usb_await call = (\<lambda>u. case call u of (None, u') \<Rightarrow> (Stop Dropped, u') | (Some r, u') \<Rightarrow> (Return r, u'))"

definition usb_try :: "string \<Rightarrow> ('u, 'a) usb_call \<Rightarrow> ('u, 'a) up_proc" where
  "usb_try what call = io_bind (usb_await call) (or_fail (Usb_Failed what))"

definition sleeping :: "('u \<Rightarrow> unit option \<times> 'u) \<Rightarrow> ('u, unit, 'e) proc" where
  "sleeping call = (\<lambda>u. case call u of (None, u') \<Rightarrow> (Stop Dropped, u') | (Some _, u') \<Rightarrow> (Return (), u'))"

text \<open>One sweep: the first connected port, if any.\<close>

fun sweep :: "('u, 'd, 'p) usb_host \<Rightarrow> nat list \<Rightarrow> ('u, nat option) up_proc" where
  "sweep U [] = ret None"
| "sweep U (port # ports) = io_bind (usb_try ''port'' (u_port U port)) (\<lambda>connected.
     if connected then ret (Some port) else sweep U ports)"

text \<open>The pause between two sweeps; whether it was a wait that timed out.\<close>

definition pause :: "('u, 'd, 'p) usb_host \<Rightarrow> ('u, bool) up_proc" where
  "pause U = io_bind (usb_await (u_watch_ports U)) (\<lambda>r. case r of
     Ok Changed \<Rightarrow> ret False
   | Ok Timed_Out \<Rightarrow> ret True
   | _ \<Rightarrow> io_bind (sleeping (u_sleep U WATCH_PACE_NS)) (\<lambda>_. ret False))"

text \<open>The watch: \<^term>\<open>None\<close> is a watch that never ends.\<close>

partial_function (option) watch ::
    "('u, 'd, 'p) usb_host \<Rightarrow> nat list \<Rightarrow> nat \<Rightarrow> bool \<Rightarrow> 'u \<Rightarrow> ((nat, bring_up_error) io \<times> 'u) option" where
  "watch U ports started after u =
     (case sweep U ports u of
        (Stop k, u1) \<Rightarrow> Some (Stop k, u1)
      | (Return (Some port), u1) \<Rightarrow>
          Some (Return port, if after then u_text U ''liveness: usb.msd: the port sweep found a connect'' u1 else u1)
      | (Return None, u1) \<Rightarrow>
          (case u_now U u1 of (now, u2) \<Rightarrow>
             if WATCH_WINDOW_NS < now - started then Some (Stop (Fail No_Device), u2)
             else (case pause U u2 of
                 (Stop k, u3) \<Rightarrow> Some (Stop k, u3)
               | (Return timed_out, u3) \<Rightarrow> watch U ports started timed_out u3)))"


section \<open>The descriptor chain\<close>

record msd_walk =
  w_current :: "interface_desc option"
  w_interface :: "interface_desc option"
  w_in :: "(8 word \<times> nat) option"
  w_out :: "(8 word \<times> nat) option"

definition get_or_insert :: "'a \<Rightarrow> 'a option \<Rightarrow> 'a option" where
  "get_or_insert x slot = (case slot of None \<Rightarrow> Some x | Some y \<Rightarrow> Some y)"

fun walk_msd :: "descriptor list \<Rightarrow> msd_walk \<Rightarrow> (msd_walk, bring_up_error) result" where
  "walk_msd [] w = Ok w"
| "walk_msd (Interface i # ds) w =
     (if w_interface w \<noteq> None then Ok w
      else if if_class i = CLASS_MASS_STORAGE then
        if if_subclass i \<noteq> SUBCLASS_SCSI_TRANSPARENT \<or> if_protocol i \<noteq> PROTOCOL_BULK_ONLY
        then Err (Bad_Flavour (if_class i) (if_subclass i) (if_protocol i))
        else walk_msd ds (w\<lparr>w_interface := Some i, w_current := Some i\<rparr>)
      else walk_msd ds (w\<lparr>w_current := Some i\<rparr>))"
| "walk_msd (Endpoint e # ds) w =
     (if map_option if_class (w_current w) = Some CLASS_MASS_STORAGE \<and> ep_attributes e AND 0b11 = 2 then
        walk_msd ds (if ep_is_in e then w\<lparr>w_in := get_or_insert (ep_address e, ep_max_packet_size e) (w_in w)\<rparr>
                     else w\<lparr>w_out := get_or_insert (ep_address e, ep_max_packet_size e) (w_out w)\<rparr>)
      else walk_msd ds w)"
| "walk_msd (_ # ds) w = walk_msd ds w"

definition find_msd :: "device_desc \<Rightarrow> bytes \<Rightarrow> (interface_desc \<times> (8 word \<times> nat) \<times> (8 word \<times> nat), bring_up_error) result" where
  "find_msd parsed blob =
     and_then (walk_msd (descriptors blob) \<lparr>w_current = None, w_interface = None, w_in = None, w_out = None\<rparr>) (\<lambda>w.
     and_then (ok_or (w_interface w) (No_Interface (dd_vendor_id parsed) (dd_product_id parsed) (dd_class parsed))) (\<lambda>interface.
     and_then (ok_or (w_in w) No_Bulk_In) (\<lambda>bulk_in.
     and_then (ok_or (w_out w) No_Bulk_Out) (\<lambda>bulk_out.
     Ok (interface, bulk_in, bulk_out)))))"



section \<open>Attach, configure, settle, measure\<close>

text \<open>Everything up to the transport, on a connected port.\<close>

definition attach_msd :: "('u, 'd, 'p) usb_host \<Rightarrow> nat \<Rightarrow> ('u, ('d, 'p) usb_transport) up_proc" where
  "attach_msd U port =
     io_bind (usb_try ''attach'' (u_attach U port)) (\<lambda>device.
     io_bind (usb_try ''device descriptor'' (u_control_in U device 0x80 6 (unat DT_DEVICE * 2 ^ 8) 0 18)) (\<lambda>device_bytes.
     io_bind (or_fail id (ok_or (device_desc_parse device_bytes) Bad_Device_Descriptor)) (\<lambda>parsed.
     if dd_class parsed = 0x09 then fail Is_A_Hub else
     io_bind (usb_try ''configuration head'' (u_control_in U device 0x80 6 (unat DT_CONFIGURATION * 2 ^ 8) 0 9)) (\<lambda>head.
     io_bind (or_fail id (ok_or (config_desc_parse head) Bad_Configuration)) (\<lambda>config.
     io_bind (usb_try ''configuration chain''
        (u_control_in U device 0x80 6 (unat DT_CONFIGURATION * 2 ^ 8) 0 (cd_total_length config))) (\<lambda>blob.
     io_bind (or_fail id (find_msd parsed blob)) (\<lambda>(interface, (address_in, mps_in), (address_out, mps_out)).
     let setup = set_configuration (cd_configuration_value config) in
     io_bind (usb_try ''SET_CONFIGURATION'' (u_control_out U device (request_type setup) (request setup)
        (setup_value setup) (setup_index setup) [])) (\<lambda>_.
     io_bind (usb_await (u_control_in U device GET_MAX_LUN_REQUEST_TYPE GET_MAX_LUN 0 (unat (if_number interface)) 1)) (\<lambda>luns.
     io_bind (case luns of
          Ok data \<Rightarrow> let max_lun = (case data of [] \<Rightarrow> 0 | b # _ \<Rightarrow> unat b) in
            if max_lun > 0 then fail (Many_Luns (max_lun + 1)) else ret ()
        | Err Usb_Stall \<Rightarrow> ret ()
        | Err other \<Rightarrow> fail (Usb_Failed ''GET MAX LUN'' other)) (\<lambda>_.
     io_bind (usb_try ''open-bulk-in'' (u_open_bulk_in U device address_in mps_in)) (\<lambda>endpoint_in.
     io_bind (usb_try ''open-bulk-out'' (u_open_bulk_out U device address_out mps_out)) (\<lambda>endpoint_out.
     ret \<lparr>ut_device = device, ut_endpoint_in = endpoint_in, ut_endpoint_out = endpoint_out,
       ut_address_in = address_in, ut_address_out = address_out, ut_interface = if_number interface\<rparr>))))))))))))"

text \<open>The engine's calls as steps of bring-up, and a pause of the clock while the engine waits.\<close>

definition on_engine :: "string \<Rightarrow> ('u, 'a) bot_proc \<Rightarrow> ('u bot, 'a, bring_up_error) proc" where
  "on_engine what m = map_stop (Msd_Up_Failed what) m"

definition bot_sleep :: "('u, 'd, 'p) usb_host \<Rightarrow> nat \<Rightarrow> ('u bot, unit, bring_up_error) proc" where
  "bot_sleep U ns = (\<lambda>b. case u_sleep U ns (bot_transport b) of
     (None, u) \<Rightarrow> (Stop Dropped, b\<lparr>bot_transport := u\<rparr>)
   | (Some _, u) \<Rightarrow> (Return (), b\<lparr>bot_transport := u\<rparr>))"

text \<open>\<open>TEST UNIT READY\<close> until the unit is, at most \<open>left\<close> times.\<close>

fun ready_loop :: "('u, 'd, 'p) usb_host \<Rightarrow> 'u transport \<Rightarrow> nat \<Rightarrow> msd_error option \<Rightarrow> ('u bot, unit, bring_up_error) proc" where
  "ready_loop U T 0 failure = fail (Msd_Up_Failed ''TEST UNIT READY (the unit never came ready within the bound)''
     (case failure of Some e \<Rightarrow> e | None \<Rightarrow> CommandFailed None))"
| "ready_loop U T (Suc left) failure = io_bind (catch (bot_test_unit_ready T)) (\<lambda>r. case r of
     Ok _ \<Rightarrow> ret ()
   | Err (CommandFailed sense) \<Rightarrow>
       io_bind (if left \<noteq> 0 then bot_sleep U READY_PACE_NS else ret ()) (\<lambda>_.
       ready_loop U T left (Some (CommandFailed sense)))
   | Err other \<Rightarrow> fail (Msd_Up_Failed ''TEST UNIT READY'' other))"

definition settle :: "('u, 'd, 'p) usb_host \<Rightarrow> 'u transport \<Rightarrow> ('u bot, inquiry_data \<times> capacity_data, bring_up_error) proc" where
  "settle U T =
     io_bind (ready_loop U T READY_ATTEMPTS None) (\<lambda>_.
     io_bind (on_engine ''INQUIRY'' (bot_inquiry T)) (\<lambda>inquiry.
     if inq_device_type inquiry \<noteq> 0 then fail (Not_Direct_Access (inq_device_type inquiry)) else
     io_bind (on_engine ''READ CAPACITY(10)'' (bot_read_capacity T)) (\<lambda>capacity.
     if cap_block_size capacity = 0 \<or> cap_block_size capacity > DATA_CAP mod 2 ^ 32
     then fail (Bad_Block_Size (cap_block_size capacity))
     else ret (inquiry, capacity))))"

definition bring_up_on :: "('u, 'd, 'p) usb_host \<Rightarrow> nat \<Rightarrow> ('u, ('d, 'p) usb_transport \<times> 'u driver) up_proc" where
  "bring_up_on U port = io_bind (attach_msd U port) (\<lambda>t u.
     (case settle U (transport_over U t) (bot_new u) of
        (Stop k, b) \<Rightarrow> (Stop k, bot_transport b)
      | (Return (inquiry, capacity), b) \<Rightarrow>
          (case capacity_bytes capacity of
             None \<Rightarrow> (Stop Panic, bot_transport b)
           | Some total_bytes \<Rightarrow>
               let u' = u_text U ''usb.msd: the device found'' (bot_transport b) in
               (Return (t, \<lparr>drv_bot = b\<lparr>bot_transport := u'\<rparr>, drv_block_size = cap_block_size capacity, drv_capacity = total_bytes\<rparr>), u'))))"

definition bring_up :: "('u, 'd, 'p) usb_host \<Rightarrow> 'u \<Rightarrow>
    ((('d, 'p) usb_transport \<times> 'u driver, bring_up_error) io \<times> 'u) option" where
  "bring_up U u =
     (case usb_try ''controller'' (u_controller U) u of
        (Stop k, u1) \<Rightarrow> Some (Stop k, u1)
      | (Return ports, u1) \<Rightarrow>
          (case u_now U u1 of (started, u2) \<Rightarrow>
            (case watch U [1..<ports + 1] started False u2 of
               None \<Rightarrow> None
             | Some (Stop k, u3) \<Rightarrow> Some (Stop k, u3)
             | Some (Return port, u3) \<Rightarrow> Some (bring_up_on U port u3))))"


section \<open>The slot\<close>

datatype ('u, 'd, 'p) slot = Slot_Empty | Slot_Busy | Slot_Ready "('d, 'p) usb_transport" "'u driver"

record ('u, 'd, 'p) provider =
  pv_slot :: "('u, 'd, 'p) slot"
  pv_world :: 'u

text \<open>\<open>take\<close>: the slot is busy from here on, whatever was in it.\<close>

definition slot_take :: "('u, 'd, 'p) slot \<Rightarrow> ((('d, 'p) usb_transport \<times> 'u driver) option, disk_fail) result \<times> ('u, 'd, 'p) slot" where
  "slot_take slot = (case slot of
     Slot_Ready t d \<Rightarrow> (Ok (Some (t, d)), Slot_Busy)
   | Slot_Empty \<Rightarrow> (Ok None, Slot_Busy)
   | Slot_Busy \<Rightarrow> (Err (Disk_Io Device_Busy), Slot_Busy))"

definition peek_capacity :: "('u, 'd, 'p) slot \<Rightarrow> nat option" where
  "peek_capacity slot = (case slot of Slot_Ready t d \<Rightarrow> Some (drv_capacity d) | _ \<Rightarrow> None)"

text \<open>The operation on the driver, which sees the world as it is now; the guard puts the driver back however it ends.\<close>

definition run_guarded ::
    "('u, 'd, 'p) usb_host \<Rightarrow> ('u transport \<Rightarrow> ('u driver, 'a, disk_fail) proc) \<Rightarrow> ('d, 'p) usb_transport \<Rightarrow> 'u driver \<Rightarrow> 'u \<Rightarrow>
     ('a, disk_fail) io \<times> ('u, 'd, 'p) provider" where
  "run_guarded U f t d u =
     (case f (transport_over U t) (d\<lparr>drv_bot := (drv_bot d)\<lparr>bot_transport := u\<rparr>\<rparr>) of
        (r, d') \<Rightarrow> (r, \<lparr>pv_slot = Slot_Ready t d', pv_world = bot_transport (drv_bot d')\<rparr>))"

definition with_driver ::
    "('u, 'd, 'p) usb_host \<Rightarrow> ('u transport \<Rightarrow> ('u driver, 'a, disk_fail) proc) \<Rightarrow> ('u, 'd, 'p) provider \<Rightarrow>
     (('a, disk_fail) io \<times> ('u, 'd, 'p) provider) option" where
  "with_driver U f p =
     (case slot_take (pv_slot p) of
        (Err e, s) \<Rightarrow> Some (Stop (Fail e), p\<lparr>pv_slot := s\<rparr>)
      | (Ok (Some (t, d)), _) \<Rightarrow> Some (run_guarded U f t d (pv_world p))
      | (Ok None, _) \<Rightarrow>
          (case bring_up U (pv_world p) of
             None \<Rightarrow> None
           | Some (Return (t, d), u) \<Rightarrow> Some (run_guarded U f t d u)
           | Some (Stop (Fail e), u) \<Rightarrow> Some (Stop (Fail (Disk_Io (Bring_Up_Failed e))), \<lparr>pv_slot = Slot_Empty, pv_world = u\<rparr>)
           | Some (Stop Dropped, u) \<Rightarrow> Some (Stop Dropped, \<lparr>pv_slot = Slot_Empty, pv_world = u\<rparr>)
           | Some (Stop Panic, u) \<Rightarrow> Some (Stop Panic, \<lparr>pv_slot = Slot_Empty, pv_world = u\<rparr>)))"


section \<open>The exported disk\<close>

datatype msd_answer = Answered nat | Refused_Range | Refused_Io msd_io | Gone "disk_fail stop"

definition msd_size :: "('u, 'd, 'p) provider \<Rightarrow> nat" where
  "msd_size p = (case peek_capacity (pv_slot p) of Some n \<Rightarrow> n | None \<Rightarrow> 0)"

definition msd_flush :: "('u, 'd, 'p) provider \<Rightarrow> (unit, disk_fail) result \<times> ('u, 'd, 'p) provider" where
  "msd_flush p = (Ok (), p)"

definition msd_read :: "('u, 'd, 'p) usb_host \<Rightarrow> nat \<Rightarrow> bytes \<Rightarrow> ('u, 'd, 'p) provider \<Rightarrow>
    (bytes \<times> msd_answer \<times> ('u, 'd, 'p) provider) option" where
  "msd_read U offset dst p =
     (case with_driver U (\<lambda>T. read_bytes T offset (length dst)) p of
        None \<Rightarrow> None
      | Some (Return bs, p') \<Rightarrow> Some (bs @ drop (length bs) dst, Answered (length dst), p')
      | Some (Stop (Fail Out_Of_Range), p') \<Rightarrow> Some (dst, Refused_Range, p')
      | Some (Stop (Fail (Disk_Io m)), p') \<Rightarrow> Some (dst, Refused_Io m, p')
      | Some (Stop k, p') \<Rightarrow> Some (dst, Gone k, p'))"

definition msd_write :: "('u, 'd, 'p) usb_host \<Rightarrow> nat \<Rightarrow> bytes \<Rightarrow> ('u, 'd, 'p) provider \<Rightarrow>
    (msd_answer \<times> ('u, 'd, 'p) provider) option" where
  "msd_write U offset src p =
     (case with_driver U (\<lambda>T. write_bytes T offset src) p of
        None \<Rightarrow> None
      | Some (Return _, p') \<Rightarrow> Some (Answered (length src), p')
      | Some (Stop (Fail Out_Of_Range), p') \<Rightarrow> Some (Refused_Range, p')
      | Some (Stop (Fail (Disk_Io m)), p') \<Rightarrow> Some (Refused_Io m, p')
      | Some (Stop k, p') \<Rightarrow> Some (Gone k, p'))"



section \<open>What bring-up hands over\<close>

lemma execute_closed: "valid (\<lambda>_. True) (execute T cdb phase) (\<lambda>_ b. \<not> bot_mid b) (\<lambda>_ _. True)"
proof -
  have J: "valid (\<lambda>_. True) (judge_csw T tag data bs) (\<lambda>_ b. \<not> bot_mid b) (\<lambda>_ _. True)" for tag data bs
    by (auto simp: valid_def judge_csw_def recover_and_fail_def io_bind_def set_mid_def modify_def ret_def fail_def
        split: result.splits prod.splits io.splits)
  have any: "valid (\<lambda>_. True) m (\<lambda>_ _. True) (\<lambda>_ _. True)" for m :: "('s bot, 'b, msd_error) proc"
    by (auto simp: valid_def split: prod.split io.split)
  show ?thesis unfolding execute_def exchange_def
    by (intro valid_bind [OF any] J)
qed

lemma command_closed: "valid (\<lambda>_. True) (command T cdb phase) (\<lambda>_ b. \<not> bot_mid b) (\<lambda>_ _. True)"
  unfolding command_def
proof (rule valid_bind [OF execute_closed])
  fix x :: "bytes \<times> csw"
  show "valid (\<lambda>b. \<not> bot_mid b) (case x of (data, c) \<Rightarrow> if csw_status c = CSW_PASSED then ret (data, csw_residue c)
      else io_bind (fetch_sense T) (\<lambda>sense. fail (CommandFailed sense))) (\<lambda>_ b. \<not> bot_mid b) (\<lambda>_ _. True)"
    by (auto simp: valid_def ret_def io_bind_def fail_def split: prod.splits io.splits)
qed

lemma read_capacity_closed:
  assumes "bot_read_capacity T b = (Return c, b')"
  shows "\<not> bot_mid b'" and "cap_last_lba c < 2 ^ 32" and "capacity_bytes c = Some ((cap_last_lba c + 1) * cap_block_size c)"
proof -
  obtain data residue b1 where cmd: "command T cdb_read_capacity10 (DataIn READ_CAPACITY_LEN) b = (Return (data, residue), b1)"
    and rest: "or_fail (\<lambda>e. e) (ok_or (capacity_parse data) (ShortData READ_CAPACITY_LEN (length data))) b1 = (Return c, b')"
    using assms by (auto simp: bot_read_capacity_def io_bind_def split: prod.splits io.splits)
  from rest have p: "capacity_parse data = Some c" and b': "b' = b1"
    by (auto simp: or_fail_def ok_or_def ret_def fail_def split: option.splits)
  show "\<not> bot_mid b'" using valid_Return [OF command_closed TrueI cmd] b' by simp
  show "cap_last_lba c < 2 ^ 32" and "capacity_bytes c = Some ((cap_last_lba c + 1) * cap_block_size c)"
    using capacity_parse_bounds [OF p] by simp_all
qed

lemma settle_measures:
  assumes "settle U T b = (Return (inquiry, c), b')"
  shows "\<not> bot_mid b'" and "0 < cap_block_size c" and "cap_block_size c \<le> DATA_CAP"
    and "cap_last_lba c < 2 ^ 32" and "capacity_bytes c = Some ((cap_last_lba c + 1) * cap_block_size c)"
proof -
  obtain b1 where rc: "bot_read_capacity T b1 = (Return c, b')" and bs: "cap_block_size c \<noteq> 0" "cap_block_size c \<le> DATA_CAP"
    using assms
    by (auto simp: settle_def io_bind_def fail_def ret_def on_engine_def map_stop_def DATA_CAP_def
        split: prod.splits io.splits stop.splits if_splits)
  show "\<not> bot_mid b'" "cap_last_lba c < 2 ^ 32" "capacity_bytes c = Some ((cap_last_lba c + 1) * cap_block_size c)"
    using read_capacity_closed [OF rc] by simp_all
  show "0 < cap_block_size c" "cap_block_size c \<le> DATA_CAP" using bs by simp_all
qed

lemma bring_up_measures:
  assumes "bring_up U u = Some (Return (t, d), u')"
  obtains n where "sized (drv_block_size d) n d" and "0 < drv_block_size d" "drv_block_size d \<le> DATA_CAP"
    and "0 < n" "n \<le> 2 ^ 32" and "\<not> bot_mid (drv_bot d)" and "bot_transport (drv_bot d) = u'"
proof -
  obtain port u3 where on: "bring_up_on U port u3 = (Return (t, d), u')"
    using assms by (auto simp: bring_up_def split: prod.splits io.splits option.splits)
  then obtain u4 inquiry c b total_bytes where s: "settle U (transport_over U t) (bot_new u4) = (Return (inquiry, c), b)"
    and cb: "capacity_bytes c = Some total_bytes"
    and d: "d = \<lparr>drv_bot = b\<lparr>bot_transport := u'\<rparr>, drv_block_size = cap_block_size c, drv_capacity = total_bytes\<rparr>"
    by (auto simp: bring_up_on_def io_bind_def Let_def split: prod.splits io.splits option.splits)
  note m = settle_measures [OF s]
  show ?thesis
    by (rule that [of "cap_last_lba c + 1"]) (use m cb d in \<open>auto simp: sized_def\<close>)
qed


section \<open>The watch ends\<close>

text \<open>
  A clock that every wait for a root-hub event moves on, and that nothing turns back: \<open>monotonic_now\<close>
  is monotonic, and time passes while a call is awaited.
\<close>

definition ticking :: "('u, 'd, 'p) usb_host \<Rightarrow> ('u \<Rightarrow> nat) \<Rightarrow> bool" where
  "ticking U clock \<longleftrightarrow>
     (\<forall>u. fst (u_now U u) = clock u \<and> clock u \<le> clock (snd (u_now U u))) \<and>
     (\<forall>port u. clock u \<le> clock (snd (u_port U port u))) \<and>
     (\<forall>u. clock u < clock (snd (u_watch_ports U u))) \<and>
     (\<forall>ns u. clock u \<le> clock (snd (u_sleep U ns u)))"

lemma sweep_clock: "ticking U clock \<Longrightarrow> clock u \<le> clock (snd (sweep U ports u))"
proof (induction ports arbitrary: u)
  case Nil
  then show ?case by (simp add: ret_def)
next
  case (Cons port ports)
  have p: "clock u \<le> clock (snd (u_port U port u))" using Cons.prems by (simp add: ticking_def)
  obtain r u1 where r: "u_port U port u = (r, u1)" by fastforce
  note IH = Cons.IH [OF Cons.prems, of u1]
  from p r IH show ?case
    by (cases r) (auto simp: usb_try_def usb_await_def io_bind_def or_fail_def ret_def fail_def
        split: result.split prod.split io.split)
qed

lemma pause_clock:
  assumes "ticking U clock"
  shows "clock u < clock (snd (pause U u))"
proof -
  have w: "clock u < clock (snd (u_watch_ports U u))" using assms by (simp add: ticking_def)
  have s: "clock v \<le> clock (snd (u_sleep U ns v))" for ns v using assms by (simp add: ticking_def)
  obtain r u1 where r: "u_watch_ports U u = (r, u1)" by fastforce
  obtain q u2 where q: "u_sleep U WATCH_PACE_NS u1 = (q, u2)" by fastforce
  from w r s [of u1 WATCH_PACE_NS] q show ?thesis
    by (auto simp: pause_def usb_await_def io_bind_def sleeping_def ret_def
        split: option.split result.split watch_outcome.split)
qed

lemma watch_ends:
  assumes T: "ticking U clock"
  shows "watch U ports started after u \<noteq> None"
proof (induction "started + WATCH_WINDOW_NS + 1 - clock u" arbitrary: u after rule: less_induct)
  case less
  obtain r u1 where r: "sweep U ports u = (r, u1)" by fastforce
  obtain now u2 where now: "u_now U u1 = (now, u2)" by fastforce
  obtain q u3 where q: "pause U u2 = (q, u3)" by fastforce
  have c1: "clock u \<le> clock u1" using sweep_clock [OF T, of u ports] r by simp
  have c2: "now = clock u1" "clock u1 \<le> clock u2" using T now unfolding ticking_def by (metis fst_conv snd_conv)+
  have c3: "clock u2 < clock u3" using pause_clock [OF T, of u2] q by simp
  have IH: "watch U ports started a u3 \<noteq> None" if "now - started \<le> WATCH_WINDOW_NS" for a
    by (rule less.hyps) (use c1 c2 c3 that in linarith)
  show ?case
    by (subst watch.simps) (use r now q IH in \<open>auto simp: not_less split: io.split option.split\<close>)
qed



section \<open>Properties\<close>

lemma bring_up_ends:
  assumes "ticking U clock"
  shows "bring_up U u \<noteq> None"
proof -
  have w: "\<exists>r u'. watch U ports started after v = Some (r, u')" for ports started after v
    using watch_ends [OF assms, of ports started after v] by auto
  obtain r u1 where c: "usb_try ''controller'' (u_controller U) u = (r, u1)" by fastforce
  obtain started u2 where n: "u_now U u1 = (started, u2)" by fastforce
  show ?thesis
  proof (cases r)
    case (Return ports)
    obtain q u3 where "watch U [1..<ports + 1] started False u2 = Some (q, u3)" using w by blast
    then show ?thesis using c n Return by (cases q) (simp_all add: bring_up_def)
  next
    case (Stop k)
    with c show ?thesis by (simp add: bring_up_def)
  qed
qed


text \<open>
  The stick is never wedged. An operation that finds the driver free ends, and leaves it free, however it
  ends: returned, failed, dropped in bring-up or dropped half way; one that finds it taken is refused
  with an error and changes nothing.
\<close>

theorem msd_never_wedged:
  assumes "ticking U clock"
  shows "\<exists>r p'. with_driver U f p = Some (r, p') \<and>
    (if pv_slot p = Slot_Busy then r = Stop (Fail (Disk_Io Device_Busy)) \<and> p' = p else pv_slot p' \<noteq> Slot_Busy)"
proof (cases "pv_slot p")
  case Slot_Empty
  obtain r u' where b: "bring_up U (pv_world p) = Some (r, u')" using bring_up_ends [OF assms, of "pv_world p"] by auto
  show ?thesis
  proof (cases r)
    case (Return x)
    then show ?thesis using b Slot_Empty
      by (cases x) (simp add: with_driver_def slot_take_def run_guarded_def split: prod.split)
  next
    case (Stop k)
    then show ?thesis using b Slot_Empty by (cases k) (simp_all add: with_driver_def slot_take_def)
  qed
next
  case Slot_Busy
  then show ?thesis by (cases p) (simp add: with_driver_def slot_take_def)
next
  case (Slot_Ready t d)
  then show ?thesis by (simp add: with_driver_def slot_take_def run_guarded_def split: prod.split)
qed

text \<open>A root hub of one port with nothing in it, each wait of which takes a second.\<close>

definition empty_host :: "(nat, unit, unit) usb_host" where
  "empty_host = \<lparr>u_controller = (\<lambda>u. (Some (Ok 1), u)), u_port = (\<lambda>port u. (Some (Ok False), u)),
     u_watch_ports = (\<lambda>u. (Some (Ok Timed_Out), u + 1000000000)), u_attach = (\<lambda>port u. (Some (Err Usb_Not_Found), u)),
     u_control_in = (\<lambda>d a b c e n u. (Some (Err Usb_Stall), u)), u_control_out = (\<lambda>d a b c e xs u. (Some (Err Usb_Stall), u)),
     u_open_bulk_in = (\<lambda>d a n u. (Some (Err Usb_Stall), u)), u_open_bulk_out = (\<lambda>d a n u. (Some (Err Usb_Stall), u)),
     u_bulk_read = (\<lambda>p n u. (Some (Err Usb_Stall), u)), u_bulk_write = (\<lambda>p xs u. (Some (Err Usb_Stall), u)),
     u_now = (\<lambda>u. (u, u)), u_sleep = (\<lambda>ns u. (Some (), u + ns)), u_text = (\<lambda>t u. u), u_debug = (\<lambda>e. [])\<rparr>"

lemma empty_host_ticks: "ticking empty_host id"
  by (simp add: ticking_def empty_host_def)


theorem msd_never_wedged_witness:
  "\<exists>r p'. with_driver empty_host (\<lambda>T. read_bytes T 0 512) \<lparr>pv_slot = Slot_Empty, pv_world = 0\<rparr> = Some (r, p') \<and>
     pv_slot p' \<noteq> Slot_Busy"
  using msd_never_wedged [OF empty_host_ticks, of "\<lambda>T. read_bytes T 0 512" "\<lparr>pv_slot = Slot_Empty, pv_world = 0\<rparr>"]
  by simp

end
