(* ===== verification/Usb_Enumerate.thy ===== *)
theory Usb_Enumerate
  imports Usb_Descriptor "HOL-Library.Sublist"
begin

text \<open>
  The enumeration machine (\<open>crates/eo9-ohci/src/enumerate.rs\<close>): what to do next with a device that was
  just connected, and what the answer to it means.
\<close>

section \<open>The machine\<close>

definition RESET_RECOVERY_MS :: nat where "RESET_RECOVERY_MS = 10"
definition ADDRESS_SETTLE_MS :: nat where "ADDRESS_SETTLE_MS = 2"
definition MAX_CONFIG_BYTES :: nat where "MAX_CONFIG_BYTES = 256"

datatype action = ResetPort | WaitMs nat | Control "8 word" "8 word" setup_packet | Finished

datatype event = PortResetComplete | Waited | ControlDone bytes

datatype enumeration_error = MalformedDescriptor | ConfigurationTooLarge | ProtocolMismatch

datatype enum_state =
    ResetIssued | ResetRecovery | DescriptorHead | SetAddress | AddressSettle | DeviceDescriptor
  | ConfigurationHead | ConfigurationFull nat | EnumDone

record enumeration =
  en_address :: "8 word"
  en_state :: enum_state
  en_max_packet_ep0 :: "8 word"
  en_device :: bytes
  en_config :: bytes
  en_config_len :: nat

definition enumeration_new :: "8 word \<Rightarrow> enumeration" where
  "enumeration_new address = \<lparr>en_address = address, en_state = ResetIssued, en_max_packet_ep0 = 8,
     en_device = replicate 18 0, en_config = replicate MAX_CONFIG_BYTES 0, en_config_len = 0\<rparr>"

definition next_action :: "enumeration \<Rightarrow> action" where
  "next_action m = (case en_state m of
     ResetIssued \<Rightarrow> ResetPort
   | ResetRecovery \<Rightarrow> WaitMs RESET_RECOVERY_MS
   | DescriptorHead \<Rightarrow> Control 0 8 (get_descriptor DT_DEVICE 0 8)
   | SetAddress \<Rightarrow> Control 0 (en_max_packet_ep0 m) (set_address (en_address m))
   | AddressSettle \<Rightarrow> WaitMs ADDRESS_SETTLE_MS
   | DeviceDescriptor \<Rightarrow> Control (en_address m) (en_max_packet_ep0 m) (get_descriptor DT_DEVICE 0 18)
   | ConfigurationHead \<Rightarrow> Control (en_address m) (en_max_packet_ep0 m) (get_descriptor DT_CONFIGURATION 0 9)
   | ConfigurationFull want \<Rightarrow> Control (en_address m) (en_max_packet_ep0 m) (get_descriptor DT_CONFIGURATION 0 want)
   | EnumDone \<Rightarrow> Finished)"

text \<open>\<open>dst[..n].copy_from_slice(&src[..n])\<close>: a panic when either is shorter.\<close>

definition copy_head :: "nat \<Rightarrow> bytes \<Rightarrow> bytes \<Rightarrow> bytes exec" where
  "copy_head n src dst = (if n \<le> length src \<and> n \<le> length dst then Some (take n src @ drop n dst) else None)"

definition on_event :: "enumeration \<Rightarrow> event \<Rightarrow> (enumeration \<times> (unit, enumeration_error) result) exec" where
  "on_event m e = (case (en_state m, e) of
     (ResetIssued, PortResetComplete) \<Rightarrow> Some (m\<lparr>en_state := ResetRecovery\<rparr>, Ok ())
   | (ResetRecovery, Waited) \<Rightarrow> Some (m\<lparr>en_state := DescriptorHead\<rparr>, Ok ())
   | (DescriptorHead, ControlDone data) \<Rightarrow>
       (case max_packet_size_from_head data of
          None \<Rightarrow> Some (m, Err MalformedDescriptor)
        | Some p \<Rightarrow> Some (m\<lparr>en_max_packet_ep0 := p, en_state := SetAddress\<rparr>, Ok ()))
   | (SetAddress, ControlDone data) \<Rightarrow> Some (m\<lparr>en_state := AddressSettle\<rparr>, Ok ())
   | (AddressSettle, Waited) \<Rightarrow> Some (m\<lparr>en_state := DeviceDescriptor\<rparr>, Ok ())
   | (DeviceDescriptor, ControlDone data) \<Rightarrow>
       if device_desc_parse data = None then Some (m, Err MalformedDescriptor)
       else do {
         dev \<leftarrow> copy_head 18 data (en_device m);
         Some (m\<lparr>en_device := dev, en_state := ConfigurationHead\<rparr>, Ok ())
       }
   | (ConfigurationHead, ControlDone data) \<Rightarrow>
       (case config_desc_parse data of
          None \<Rightarrow> Some (m, Err MalformedDescriptor)
        | Some c \<Rightarrow>
            if cd_total_length c > MAX_CONFIG_BYTES then Some (m, Err ConfigurationTooLarge)
            else Some (m\<lparr>en_state := ConfigurationFull (cd_total_length c)\<rparr>, Ok ()))
   | (ConfigurationFull want, ControlDone data) \<Rightarrow> do {
       let len = min (length data) MAX_CONFIG_BYTES;
       cfg \<leftarrow> copy_head len data (en_config m);
       Some (m\<lparr>en_config := cfg, en_config_len := len, en_state := EnumDone\<rparr>, Ok ())
     }
   | _ \<Rightarrow> Some (m, Err ProtocolMismatch))"

definition enum_result :: "enumeration \<Rightarrow> (8 word \<times> 8 word \<times> device_desc) option" where
  "enum_result m =
     (if en_state m \<noteq> EnumDone then None
      else do { d \<leftarrow> device_desc_parse (en_device m); Some (en_address m, en_max_packet_ep0 m, d) })"

text \<open>\<open>&self.config[..self.config_len]\<close>: a panic past the buffer.\<close>

definition configuration :: "enumeration \<Rightarrow> bytes exec" where
  "configuration m = (if en_config_len m \<le> length (en_config m) then Some (take (en_config_len m) (en_config m)) else None)"


section \<open>Runs\<close>

text \<open>
  A run answers each action; an error ends it. The trace has what was asked for: the actions that were
  pending when an event was taken.
\<close>

fun enum_run :: "enumeration \<Rightarrow> event list \<Rightarrow> (enumeration \<times> action list \<times> (unit, enumeration_error) result) exec" where
  "enum_run m [] = Some (m, [], Ok ())"
| "enum_run m (e # es) = (case on_event m e of
     None \<Rightarrow> None
   | Some (m', Err x) \<Rightarrow> Some (m', [next_action m], Err x)
   | Some (m', Ok _) \<Rightarrow> (case enum_run m' es of
       None \<Rightarrow> None | Some (m'', acts, r) \<Rightarrow> Some (m'', next_action m # acts, r)))"

definition answers :: "action \<Rightarrow> event \<Rightarrow> bool" where
  "answers a e \<longleftrightarrow> (case a of
     ResetPort \<Rightarrow> e = PortResetComplete
   | WaitMs n \<Rightarrow> e = Waited
   | Control addr mps setup \<Rightarrow> (\<exists>data. e = ControlDone data)
   | Finished \<Rightarrow> False)"

text \<open>The machine's buffers keep their sizes; once past the device descriptor it holds one.\<close>

definition past_device :: "enum_state \<Rightarrow> bool" where
  "past_device s \<longleftrightarrow> s = ConfigurationHead \<or> (\<exists>t. s = ConfigurationFull t) \<or> s = EnumDone"

definition enum_ok :: "enumeration \<Rightarrow> bool" where
  "enum_ok m \<longleftrightarrow> length (en_device m) = 18 \<and> length (en_config m) = MAX_CONFIG_BYTES \<and>
     en_config_len m \<le> MAX_CONFIG_BYTES \<and>
     (past_device (en_state m) \<longrightarrow> device_desc_parse (en_device m) \<noteq> None) \<and>
     (\<forall>t. en_state m = ConfigurationFull t \<longrightarrow> t \<le> MAX_CONFIG_BYTES)"

lemma enumeration_new_ok: "enum_ok (enumeration_new a)"
  by (simp add: enum_ok_def enumeration_new_def past_device_def)

lemma device_desc_parse_take:
  assumes "device_desc_parse data \<noteq> None"
  shows "18 \<le> length data" and "device_desc_parse (take 18 data) = device_desc_parse data"
  using assms by (auto simp: device_desc_parse_def split: if_splits)

text \<open>No event panics, the buffers stay sound, and an event is refused exactly when it answers nothing asked.\<close>

lemma on_event_ok:
  assumes "enum_ok m"
  obtains m' r where "on_event m e = Some (m', r)" and "enum_ok m'"
    and "r = Err ProtocolMismatch \<longleftrightarrow> \<not> answers (next_action m) e" and "\<not> is_ok r \<longrightarrow> m' = m"
    and "en_address m' = en_address m"
proof -
  have l: "length (en_device m) = 18" "length (en_config m) = MAX_CONFIG_BYTES" using assms by (simp_all add: enum_ok_def)
  have "\<exists>m' r. on_event m e = Some (m', r) \<and> enum_ok m' \<and> (r = Err ProtocolMismatch \<longleftrightarrow> \<not> answers (next_action m) e) \<and>
      (\<not> is_ok r \<longrightarrow> m' = m) \<and> en_address m' = en_address m"
  proof (cases e)
    case PortResetComplete
    with assms show ?thesis
      by (cases "en_state m") (auto simp: on_event_def next_action_def answers_def enum_ok_def past_device_def)
  next
    case Waited
    with assms show ?thesis
      by (cases "en_state m") (auto simp: on_event_def next_action_def answers_def enum_ok_def past_device_def)
  next
    case (ControlDone data)
    show ?thesis
    proof (cases "en_state m")
      case DeviceDescriptor
      show ?thesis
      proof (cases "device_desc_parse data = None")
        case True
        with assms ControlDone DeviceDescriptor show ?thesis
          by (auto simp: on_event_def next_action_def answers_def)
      next
        case False
        note d = device_desc_parse_take [OF False]
        have "copy_head 18 data (en_device m) = Some (take 18 data)" using d(1) l by (simp add: copy_head_def)
        with False d assms l ControlDone DeviceDescriptor show ?thesis
          by (auto simp: on_event_def next_action_def answers_def enum_ok_def past_device_def)
      qed
    next
      case (ConfigurationFull t)
      have "copy_head (min (length data) MAX_CONFIG_BYTES) data (en_config m) =
          Some (take (min (length data) MAX_CONFIG_BYTES) data @ drop (min (length data) MAX_CONFIG_BYTES) (en_config m))"
        using l by (simp add: copy_head_def)
      with assms l ControlDone ConfigurationFull show ?thesis
        by (auto simp: on_event_def next_action_def answers_def enum_ok_def past_device_def Let_def)
    qed (use assms ControlDone in \<open>auto simp: on_event_def next_action_def answers_def enum_ok_def past_device_def
        split: option.split\<close>)
  qed
  then show ?thesis using that by blast
qed



section \<open>The order of a run\<close>

definition enum_chain :: "8 word \<Rightarrow> 8 word \<Rightarrow> nat \<Rightarrow> action list" where
  "enum_chain a p t = [ResetPort, WaitMs RESET_RECOVERY_MS, Control 0 8 (get_descriptor DT_DEVICE 0 8),
     Control 0 p (set_address a), WaitMs ADDRESS_SETTLE_MS, Control a p (get_descriptor DT_DEVICE 0 18),
     Control a p (get_descriptor DT_CONFIGURATION 0 9), Control a p (get_descriptor DT_CONFIGURATION 0 t), Finished]"

fun stage :: "enum_state \<Rightarrow> nat" where
  "stage ResetIssued = 0" | "stage ResetRecovery = 1" | "stage DescriptorHead = 2" | "stage SetAddress = 3"
| "stage AddressSettle = 4" | "stage DeviceDescriptor = 5" | "stage ConfigurationHead = 6"
| "stage (ConfigurationFull t) = 7" | "stage EnumDone = 8"

definition chain_fits :: "enumeration \<Rightarrow> 8 word \<Rightarrow> nat \<Rightarrow> bool" where
  "chain_fits m p t \<longleftrightarrow> (3 \<le> stage (en_state m) \<longrightarrow> p = en_max_packet_ep0 m) \<and>
     (\<forall>t'. en_state m = ConfigurationFull t' \<longrightarrow> t = t') \<and> t \<le> MAX_CONFIG_BYTES"

lemma next_action_chain:
  assumes "chain_fits m p t"
  shows "drop (stage (en_state m)) (enum_chain (en_address m) p t) =
    next_action m # drop (Suc (stage (en_state m))) (enum_chain (en_address m) p t)"
  using assms by (cases "en_state m") (auto simp: chain_fits_def enum_chain_def next_action_def)

lemma on_event_stage:
  assumes "on_event m e = Some (m', Ok u)"
  shows "stage (en_state m') = Suc (stage (en_state m)) \<and> (3 \<le> stage (en_state m) \<longrightarrow> en_max_packet_ep0 m' = en_max_packet_ep0 m)"
proof (cases "en_state m")
  case DeviceDescriptor
  with assms show ?thesis by (cases e) (auto simp: on_event_def split: option.splits if_splits bind_splits)
next
  case (ConfigurationFull t)
  with assms show ?thesis by (cases e) (auto simp: on_event_def Let_def split: option.splits if_splits bind_splits)
qed (use assms in \<open>cases e; auto simp: on_event_def split: option.splits if_splits\<close>)+

lemma on_event_fits:
  assumes "on_event m e = Some (m', Ok u)" and "enum_ok m" and "chain_fits m' p t"
  obtains t' where "chain_fits m p t'"
    and "drop (Suc (stage (en_state m))) (enum_chain a p t') = drop (Suc (stage (en_state m))) (enum_chain a p t)"
proof (cases "\<exists>t0. en_state m = ConfigurationFull t0")
  case True
  then obtain t0 where t0: "en_state m = ConfigurationFull t0" by blast
  with on_event_stage [OF assms(1)] assms(2,3) have "chain_fits m p t0"
    by (auto simp: chain_fits_def enum_ok_def)
  with t0 that show ?thesis by (auto simp: enum_chain_def)
next
  case False
  with on_event_stage [OF assms(1)] assms(3) have "chain_fits m p t" by (auto simp: chain_fits_def)
  with that show ?thesis by blast
qed

lemma chain_fits_ex: "enum_ok m \<Longrightarrow> \<exists>p t. chain_fits m p t"
  unfolding chain_fits_def enum_ok_def
  by (cases "en_state m") (auto intro: exI [of _ "en_max_packet_ep0 m"] exI [of _ 0])

lemma enum_run_order:
  "enum_ok m \<Longrightarrow> \<exists>m' acts r p t. enum_run m es = Some (m', acts, r) \<and> enum_ok m' \<and> chain_fits m p t \<and>
    prefix acts (drop (stage (en_state m)) (enum_chain (en_address m) p t)) \<and>
    (is_ok r \<longrightarrow> stage (en_state m') = stage (en_state m) + length es)"
proof (induction es arbitrary: m)
  case Nil
  then show ?case using chain_fits_ex [OF Nil] by auto
next
  case (Cons e es)
  from on_event_ok [OF Cons.prems, of e] obtain m1 r1 where o: "on_event m e = Some (m1, r1)" and ok: "enum_ok m1"
    and addr: "en_address m1 = en_address m" by metis
  show ?case
  proof (cases r1)
    case (Err x)
    from chain_fits_ex [OF Cons.prems] obtain p t where f: "chain_fits m p t" by blast
    have "prefix [next_action m] (drop (stage (en_state m)) (enum_chain (en_address m) p t))"
      unfolding next_action_chain [OF f] by simp
    with f o Err ok show ?thesis by auto
  next
    case (Ok u)
    from Cons.IH [OF ok] obtain m' acts r p t where run: "enum_run m1 es = Some (m', acts, r)" "enum_ok m'"
      "chain_fits m1 p t" "prefix acts (drop (stage (en_state m1)) (enum_chain (en_address m1) p t))"
      "is_ok r \<longrightarrow> stage (en_state m') = stage (en_state m1) + length es" by blast
    note s = on_event_stage [OF o [unfolded Ok]]
    obtain t' where f: "chain_fits m p t'" and d: "drop (Suc (stage (en_state m))) (enum_chain (en_address m) p t') =
        drop (Suc (stage (en_state m))) (enum_chain (en_address m) p t)"
      by (rule on_event_fits [OF o [unfolded Ok] Cons.prems run(3)])
    have "prefix (next_action m # acts) (drop (stage (en_state m)) (enum_chain (en_address m) p t'))"
      unfolding next_action_chain [OF f] d using run(4) s addr by simp
    with f run o Ok s show ?thesis by auto
  qed
qed



section \<open>Properties\<close>

lemma stage_8: "stage s = 8 \<longleftrightarrow> s = EnumDone"
  by (cases s) simp_all

text \<open>
  C37: enumeration keeps its order. Whatever the device answers, no answer panics, and what was asked for is
  a prefix of one chain: reset, recovery, only the descriptor head from the default address, the address,
  its settling time, and then the descriptors from the new address, the last of at most 256 bytes. Eight
  accepted answers end it with a device that parses.
\<close>

theorem enumeration_order:
  "\<exists>m acts r p t. enum_run (enumeration_new a) es = Some (m, acts, r) \<and> t \<le> MAX_CONFIG_BYTES \<and>
     prefix acts (enum_chain a p t) \<and>
     (is_ok r \<and> length es = 8 \<longrightarrow> en_state m = EnumDone \<and> enum_result m \<noteq> None \<and> configuration m \<noteq> None)"
proof -
  from enum_run_order [OF enumeration_new_ok, of a es] obtain m acts r p t where
    run: "enum_run (enumeration_new a) es = Some (m, acts, r)" "enum_ok m" "chain_fits (enumeration_new a) p t"
    "prefix acts (drop (stage (en_state (enumeration_new a))) (enum_chain (en_address (enumeration_new a)) p t))"
    "is_ok r \<longrightarrow> stage (en_state m) = stage (en_state (enumeration_new a)) + length es" by blast
  have "is_ok r \<and> length es = 8 \<longrightarrow> en_state m = EnumDone \<and> enum_result m \<noteq> None \<and> configuration m \<noteq> None"
  proof
    assume "is_ok r \<and> length es = 8"
    with run(5) have "en_state m = EnumDone" by (simp add: enumeration_new_def stage_8)
    with run(2) show "en_state m = EnumDone \<and> enum_result m \<noteq> None \<and> configuration m \<noteq> None"
      by (auto simp: enum_ok_def enum_result_def configuration_def past_device_def)
  qed
  with run show ?thesis by (auto simp: enumeration_new_def chain_fits_def)
qed

definition kbd_device :: bytes where
  "kbd_device = [18, 1, 0x00, 0x02, 0, 0, 0, 8, 0x27, 0x06, 0x01, 0x00, 0x00, 0x00, 1, 4, 5, 1]"

definition kbd_config :: bytes where
  "kbd_config = [9, 2, 34, 0, 1, 1, 0, 0xe0, 25] @ [9, 4, 0, 0, 1, 3, 1, 1, 0] @ [9, 0x21, 0x11, 0x01, 0, 1, 0x22, 63, 0] @
     [7, 5, 0x81, 3, 8, 0, 10]"

definition kbd_answers :: "event list" where
  "kbd_answers = [PortResetComplete, Waited, ControlDone (take 8 kbd_device), ControlDone [], Waited,
     ControlDone kbd_device, ControlDone (take 9 kbd_config), ControlDone kbd_config]"

lemma kbd_run: "\<exists>m acts. enum_run (enumeration_new 2) kbd_answers = Some (m, acts, Ok ())"
  by (simp add: kbd_answers_def kbd_device_def kbd_config_def enumeration_new_def on_event_def
      max_packet_size_from_head_def device_desc_parse_def config_desc_parse_def setup_consts copy_head_def
      MAX_CONFIG_BYTES_def)

theorem enumeration_order_witness:
  "\<exists>m acts. enum_run (enumeration_new 2) kbd_answers = Some (m, acts, Ok ()) \<and> en_state m = EnumDone \<and>
     enum_result m \<noteq> None"
proof -
  obtain m acts where run: "enum_run (enumeration_new 2) kbd_answers = Some (m, acts, Ok ())" using kbd_run by blast
  have "length kbd_answers = 8" by (simp add: kbd_answers_def)
  with run enumeration_order [of 2 kbd_answers] show ?thesis by auto
qed

end
