(* ===== verification/Ohci_Structures.thy ===== *)
theory Ohci_Structures
  imports Prelude
begin

unbundle bit_operations_syntax

text \<open>
  The in-memory half of the OHCI conversation (\<open>crates/eo9-ohci/src/schedule.rs\<close>) and the register
  arithmetic of \<open>crates/eo9-ohci/src/lib.rs\<close>: endpoint and transfer descriptors as the sixteen bytes the
  controller reads, the done queue, the layout of the DMA arena, and the frame interval.
\<close>

section \<open>Condition codes\<close>

datatype condition_code =
    NoError | Crc | BitStuffing | DataToggleMismatch | StallCode | DeviceNotResponding | PidCheckFailure
  | UnexpectedPid | DataOverrun | DataUnderrun | BufferOverrun | BufferUnderrun | NotAccessed
  | Reserved "8 word"

definition cc_from_bits :: "8 word \<Rightarrow> condition_code" where
  "cc_from_bits code = (let c = code AND 0xf in
     if c = 0x0 then NoError else if c = 0x1 then Crc else if c = 0x2 then BitStuffing
     else if c = 0x3 then DataToggleMismatch else if c = 0x4 then StallCode
     else if c = 0x5 then DeviceNotResponding else if c = 0x6 then PidCheckFailure
     else if c = 0x7 then UnexpectedPid else if c = 0x8 then DataOverrun
     else if c = 0x9 then DataUnderrun else if c = 0xc then BufferOverrun
     else if c = 0xd then BufferUnderrun else if c = 0xe \<or> c = 0xf then NotAccessed
     else Reserved c)"

definition condition_bits :: "condition_code \<Rightarrow> 32 word" where
  "condition_bits code = (case code of
     NoError \<Rightarrow> 0x0 | Crc \<Rightarrow> 0x1 | BitStuffing \<Rightarrow> 0x2 | DataToggleMismatch \<Rightarrow> 0x3 | StallCode \<Rightarrow> 0x4
   | DeviceNotResponding \<Rightarrow> 0x5 | PidCheckFailure \<Rightarrow> 0x6 | UnexpectedPid \<Rightarrow> 0x7 | DataOverrun \<Rightarrow> 0x8
   | DataUnderrun \<Rightarrow> 0x9 | BufferOverrun \<Rightarrow> 0xc | BufferUnderrun \<Rightarrow> 0xd | NotAccessed \<Rightarrow> 0xf
   | Reserved bits \<Rightarrow> ucast (bits AND 0xf))"

text \<open>A code the controller can write: reserved ones are ten and eleven.\<close>

definition real_code :: "condition_code \<Rightarrow> bool" where
  "real_code c \<longleftrightarrow> (case c of Reserved r \<Rightarrow> r = 0xa \<or> r = 0xb | _ \<Rightarrow> True)"

lemma cc_roundtrip: "real_code c \<Longrightarrow> cc_from_bits (ucast (condition_bits c)) = c"
  by (cases c) (auto simp: cc_from_bits_def condition_bits_def real_code_def Let_def)

lemma cc_from_bits_real: "real_code (cc_from_bits b)"
proof -
  have "b AND 0xf < 16" using word_and_le1 [of b "0xf"] by (rule le_less_trans) simp
  then have "unat (b AND 0xf) < 16" by (simp add: word_less_nat_alt)
  moreover have "b AND 0xf = word_of_nat (unat (b AND 0xf))" by simp
  ultimately have "b AND 0xf \<in> word_of_nat ` {..<16}" by blast
  then show ?thesis by (auto simp: cc_from_bits_def real_code_def Let_def eval_nat_numeral lessThan_Suc)
qed

lemma condition_bits_bound: "condition_bits c AND 0xf = condition_bits c"
  by (cases c) (auto simp: condition_bits_def unsigned_and_eq and.assoc)


section \<open>Dwords\<close>

definition encode_dwords :: "32 word list \<Rightarrow> bytes" where
  "encode_dwords ds = concat (map (\<lambda>d. le_encode 4 (unat d)) ds)"

definition decode_dwords :: "bytes \<Rightarrow> 32 word list" where
  "decode_dwords bs = map (\<lambda>slot. word_of_nat (le_decode (slice (slot * 4) 4 bs))) [0..<4]"

lemma dwords_roundtrip: "decode_dwords (encode_dwords [a, b, c, d]) = [a, b, c, d]"
proof -
  have w: "word_of_nat (le_decode (le_encode 4 (unat x))) = x" for x :: "32 word"
    using unsigned_less [of x, where ?'a = nat] by (simp add: le_roundtrip)
  show ?thesis
    by (simp add: decode_dwords_def encode_dwords_def upt_rec slice_def w)
qed


section \<open>Endpoint descriptors\<close>

datatype ed_direction = FromTd | EdOut | EdIn

record endpoint_desc =
  function_address :: "8 word"
  endpoint_number :: "8 word"
  direction :: ed_direction
  low_speed :: bool
  skip :: bool
  isochronous :: bool
  max_packet_size :: "16 word"
  ed_tail :: "32 word"
  ed_head :: "32 word"
  halted :: bool
  toggle_carry :: bool
  ed_next :: "32 word"

definition direction_bits :: "ed_direction \<Rightarrow> 32 word" where
  "direction_bits d = (case d of FromTd \<Rightarrow> 0b00 | EdOut \<Rightarrow> 0b01 | EdIn \<Rightarrow> 0b10)"

definition ed_dword0 :: "endpoint_desc \<Rightarrow> 32 word" where
  "ed_dword0 e =
     ucast (function_address e AND 0x7f)
     OR push_bit 7 (ucast (endpoint_number e AND 0xf))
     OR push_bit 11 (direction_bits (direction e))
     OR push_bit 13 (of_bool (low_speed e))
     OR push_bit 14 (of_bool (skip e))
     OR push_bit 15 (of_bool (isochronous e))
     OR push_bit 16 (ucast (max_packet_size e AND 0x7ff))"

definition ed_encode :: "endpoint_desc \<Rightarrow> bytes" where
  "ed_encode e = encode_dwords
     [ed_dword0 e, ed_tail e AND NOT 0xf,
      (ed_head e AND NOT 0xf) OR of_bool (halted e) OR push_bit 1 (of_bool (toggle_carry e)),
      ed_next e AND NOT 0xf]"

definition ed_decode :: "bytes \<Rightarrow> endpoint_desc" where
  "ed_decode bs = (let ds = decode_dwords bs; dword0 = ds ! 0; head = ds ! 2 in
     \<lparr>function_address = ucast (dword0 AND 0x7f),
      endpoint_number = ucast (drop_bit 7 dword0 AND 0xf),
      direction = (let d = drop_bit 11 dword0 AND 0b11 in if d = 0b01 then EdOut else if d = 0b10 then EdIn else FromTd),
      low_speed = (dword0 AND push_bit 13 1 \<noteq> 0),
      skip = (dword0 AND push_bit 14 1 \<noteq> 0),
      isochronous = (dword0 AND push_bit 15 1 \<noteq> 0),
      max_packet_size = ucast (drop_bit 16 dword0 AND 0x7ff),
      ed_tail = ds ! 1,
      ed_head = head AND NOT 0xf,
      halted = (head AND 0b01 \<noteq> 0),
      toggle_carry = (head AND 0b10 \<noteq> 0),
      ed_next = ds ! 3\<rparr>)"

text \<open>Masks as \<open>take_bit\<close>, and single bits.\<close>

lemma mask_takes:
  "(x :: 'a :: len word) AND 0xf = take_bit 4 x" "x AND 0x7f = take_bit 7 x" "x AND 0x7ff = take_bit 11 x"
  "x AND 0b11 = take_bit 2 x" "x AND 0b111 = take_bit 3 x"
  by (simp_all add: take_bit_eq_mask mask_eq_exp_minus_1)

lemma test_bit: "(x :: 32 word) AND push_bit n 1 \<noteq> 0 \<longleftrightarrow> bit x n"
  by (simp add: bit_iff_and_push_bit_not_eq_0)


text \<open>What a field of a word holds: the bits of the parts it was put together from.\<close>

lemmas field_bits = bit_take_bit_iff bit_drop_bit_eq bit_or_iff bit_push_bit_iff bit_unsigned_iff bit_and_iff bit_not_iff
  bit_1_iff bit_of_bool_iff

definition ed_ok :: "endpoint_desc \<Rightarrow> bool" where
  "ed_ok e \<longleftrightarrow> function_address e AND 0x7f = function_address e \<and> endpoint_number e AND 0xf = endpoint_number e \<and>
     max_packet_size e AND 0x7ff = max_packet_size e \<and> ed_tail e AND NOT 0xf = ed_tail e \<and>
     ed_head e AND NOT 0xf = ed_head e \<and> ed_next e AND NOT 0xf = ed_next e"

lemma small_bits: "take_bit k w = w \<Longrightarrow> bit w n \<Longrightarrow> n < k"
  for w :: "'a :: len word"
  using bit_take_bit_iff [of k w n] by simp

lemma direction_bits_small [simp]: "2 \<le> n \<Longrightarrow> \<not> bit (direction_bits d) n"
  using small_bits [where w = "direction_bits d" and k = 2 and n = n] by (cases d) (auto simp: direction_bits_def)

lemma bit_ed_dword0:
  assumes "n < 32"
  shows "bit (ed_dword0 e) n \<longleftrightarrow>
    (if n < 7 then bit (function_address e) n
     else if n < 11 then bit (endpoint_number e) (n - 7)
     else if n < 13 then bit (direction_bits (direction e)) (n - 11)
     else if n = 13 then low_speed e else if n = 14 then skip e else if n = 15 then isochronous e
     else n < 27 \<and> bit (max_packet_size e) (n - 16))"
proof -
  consider "n < 7" | "7 \<le> n" "n < 11" | "11 \<le> n" "n < 13" | "n = 13" | "n = 14" | "n = 15" | "16 \<le> n" by linarith
  then show ?thesis
    by cases (use assms in \<open>simp_all add: ed_dword0_def mask_takes field_bits less_diff_conv2\<close>)
qed

lemma ed_dword0_fields:
  "ucast (ed_dword0 e AND 0x7f) = function_address e AND 0x7f"
  "ucast (drop_bit 7 (ed_dword0 e) AND 0xf) = endpoint_number e AND 0xf"
  "ucast (drop_bit 16 (ed_dword0 e) AND 0x7ff) = max_packet_size e AND 0x7ff"
  "drop_bit 11 (ed_dword0 e) AND 0b11 = direction_bits (direction e)"
  unfolding mask_takes
     apply (rule bit_word_eqI; simp add: bit_take_bit_iff bit_unsigned_iff bit_ed_dword0)
    apply (rule bit_word_eqI; simp add: bit_take_bit_iff bit_unsigned_iff bit_drop_bit_eq bit_ed_dword0)
    apply (rule bit_word_eqI; simp add: bit_take_bit_iff bit_unsigned_iff bit_drop_bit_eq bit_ed_dword0)
  apply (rule bit_word_eqI; case_tac "n < 2"; simp add: bit_take_bit_iff bit_drop_bit_eq bit_ed_dword0)
  done

lemma ed_dword0_flags:
  "bit (ed_dword0 e) 13 = low_speed e" "bit (ed_dword0 e) 14 = skip e" "bit (ed_dword0 e) 15 = isochronous e"
  by (simp_all add: bit_ed_dword0)

lemma bit_low_nibble: "bit (0xf :: 32 word) n \<longleftrightarrow> n < 4"
  using bit_take_bit_iff [of 4 "-1 :: 32 word" n] mask_takes(1) [of "-1 :: 32 word"] by auto

definition ed_head_word :: "32 word \<Rightarrow> bool \<Rightarrow> bool \<Rightarrow> 32 word" where
  "ed_head_word h a b = (h AND NOT 0xf) OR of_bool a OR push_bit 1 (of_bool b)"

lemma bit_ed_head_word:
  "n < 32 \<Longrightarrow> bit (ed_head_word h a b) n \<longleftrightarrow> 4 \<le> n \<and> bit h n \<or> n = 0 \<and> a \<or> n = 1 \<and> b"
  unfolding ed_head_word_def bit_or_iff bit_and_iff bit_not_iff bit_push_bit_iff bit_of_bool_iff bit_low_nibble by auto

lemma ed_head_fields:
  "ed_head_word h a b AND NOT 0xf = h AND NOT 0xf" "ed_head_word h a b AND 0b01 \<noteq> 0 \<longleftrightarrow> a"
  "ed_head_word h a b AND 0b10 \<noteq> 0 \<longleftrightarrow> b"
proof -
  show "ed_head_word h a b AND NOT 0xf = h AND NOT 0xf"
    by (rule bit_word_eqI) (auto simp only: bit_and_iff bit_not_iff bit_ed_head_word bit_low_nibble len_of_numeral_defs)
  show "ed_head_word h a b AND 0b01 \<noteq> 0 \<longleftrightarrow> a"
    using test_bit [of "ed_head_word h a b" 0] bit_ed_head_word [of 0 h a b] by simp
  show "ed_head_word h a b AND 0b10 \<noteq> 0 \<longleftrightarrow> b"
    using test_bit [of "ed_head_word h a b" 1] bit_ed_head_word [of 1 h a b] by simp
qed

lemma ed_roundtrip:
  assumes "ed_ok e"
  shows "ed_decode (ed_encode e) = e"
proof -
  have d: "(if direction_bits d = 0b01 then EdOut else if direction_bits d = 0b10 then EdIn else FromTd) = d" for d
    by (cases d) (simp_all add: direction_bits_def)
  have ds: "decode_dwords (ed_encode e) = [ed_dword0 e, ed_tail e AND NOT 0xf,
      ed_head_word (ed_head e) (halted e) (toggle_carry e), ed_next e AND NOT 0xf]"
    by (simp only: ed_encode_def dwords_roundtrip ed_head_word_def)
  have n: "[a, b, c, x] ! 0 = a" "[a, b, c, x] ! 1 = b" "[a, b, c, x] ! 2 = c" "[a, b, c, x] ! 3 = x"
    for a b c x :: "32 word" by simp_all
  show ?thesis
    using assms unfolding ed_decode_def Let_def ds n test_bit ed_dword0_fields ed_dword0_flags ed_head_fields d ed_ok_def by simp
qed



section \<open>Transfer descriptors\<close>

datatype td_pid = PidSetup | PidOut | PidIn

datatype td_toggle = ToggleFromEd | Data0 | Data1

record transfer_desc =
  buffer_rounding :: bool
  pid :: td_pid
  delay_interrupt :: "8 word"
  data_toggle :: td_toggle
  error_count :: "8 word"
  condition :: condition_code
  current_buffer :: "32 word"
  td_next :: "32 word"
  buffer_end :: "32 word"

definition DI_NONE :: "8 word" where "DI_NONE = 0b111"
definition DI_IMMEDIATE :: "8 word" where "DI_IMMEDIATE = 0"

definition td_new :: "td_pid \<Rightarrow> td_toggle \<Rightarrow> (nat \<times> nat) option \<Rightarrow> transfer_desc exec" where
  "td_new p toggle buffer = do {
     (first, last) \<leftarrow> (case buffer of
         Some (start, len) \<Rightarrow> do { e \<leftarrow> plus_exec 32 start len; l \<leftarrow> minus_exec e 1; Some (start, l) }
       | None \<Rightarrow> Some (0, 0));
     Some \<lparr>buffer_rounding = True, pid = p, delay_interrupt = DI_NONE, data_toggle = toggle, error_count = 0,
       condition = NotAccessed, current_buffer = word_of_nat first, td_next = 0, buffer_end = word_of_nat last\<rparr>
   }"

definition pid_bits :: "td_pid \<Rightarrow> 32 word" where
  "pid_bits p = (case p of PidSetup \<Rightarrow> 0b00 | PidOut \<Rightarrow> 0b01 | PidIn \<Rightarrow> 0b10)"

definition toggle_bits :: "td_toggle \<Rightarrow> 32 word" where
  "toggle_bits t = (case t of ToggleFromEd \<Rightarrow> 0b00 | Data0 \<Rightarrow> 0b10 | Data1 \<Rightarrow> 0b11)"

definition td_dword0 :: "transfer_desc \<Rightarrow> 32 word" where
  "td_dword0 t =
     push_bit 18 (of_bool (buffer_rounding t))
     OR push_bit 19 (pid_bits (pid t))
     OR push_bit 21 (ucast (delay_interrupt t AND 0b111))
     OR push_bit 24 (toggle_bits (data_toggle t))
     OR push_bit 26 (ucast (error_count t AND 0b11))
     OR push_bit 28 (condition_bits (condition t))"

definition td_encode :: "transfer_desc \<Rightarrow> bytes" where
  "td_encode t = encode_dwords [td_dword0 t, current_buffer t, td_next t AND NOT 0xf, buffer_end t]"

definition td_decode :: "bytes \<Rightarrow> transfer_desc" where
  "td_decode bs = (let ds = decode_dwords bs; dword0 = ds ! 0 in
     \<lparr>buffer_rounding = (dword0 AND push_bit 18 1 \<noteq> 0),
      pid = (let p = drop_bit 19 dword0 AND 0b11 in if p = 0b01 then PidOut else if p = 0b10 then PidIn else PidSetup),
      delay_interrupt = ucast (drop_bit 21 dword0 AND 0b111),
      data_toggle = (let t = drop_bit 24 dword0 AND 0b11 in if t = 0b10 then Data0 else if t = 0b11 then Data1 else ToggleFromEd),
      error_count = ucast (drop_bit 26 dword0 AND 0b11),
      condition = cc_from_bits (ucast (drop_bit 28 dword0)),
      current_buffer = ds ! 1,
      td_next = ds ! 2,
      buffer_end = ds ! 3\<rparr>)"

definition bytes_transferred :: "transfer_desc \<Rightarrow> nat \<Rightarrow> nat \<Rightarrow> nat" where
  "bytes_transferred t buffer_start buffer_len =
     (if current_buffer t = 0 then buffer_len else unat (current_buffer t) - buffer_start)"

definition td_ok :: "transfer_desc \<Rightarrow> bool" where
  "td_ok t \<longleftrightarrow> delay_interrupt t AND 0b111 = delay_interrupt t \<and> error_count t AND 0b11 = error_count t \<and>
     real_code (condition t) \<and> td_next t AND NOT 0xf = td_next t"

lemma pid_bits_small [simp]: "2 \<le> n \<Longrightarrow> \<not> bit (pid_bits p) n"
  using small_bits [where w = "pid_bits p" and k = 2 and n = n] by (cases p) (auto simp: pid_bits_def)

lemma toggle_bits_small [simp]: "2 \<le> n \<Longrightarrow> \<not> bit (toggle_bits p) n"
  using small_bits [where w = "toggle_bits p" and k = 2 and n = n] by (cases p) (auto simp: toggle_bits_def)

lemma condition_bits_small [simp]: "4 \<le> n \<Longrightarrow> \<not> bit (condition_bits c) n"
  using small_bits [where w = "condition_bits c" and k = 4 and n = n] condition_bits_bound [of c]
  by (auto simp: mask_takes)

lemma bit_td_dword0:
  assumes "n < 32"
  shows "bit (td_dword0 t) n \<longleftrightarrow>
    (if n < 18 then False else if n = 18 then buffer_rounding t
     else if n < 21 then bit (pid_bits (pid t)) (n - 19)
     else if n < 24 then bit (delay_interrupt t) (n - 21)
     else if n < 26 then bit (toggle_bits (data_toggle t)) (n - 24)
     else if n < 28 then bit (error_count t) (n - 26)
     else bit (condition_bits (condition t)) (n - 28))"
proof -
  consider "n < 18" | "n = 18" | "19 \<le> n" "n < 21" | "21 \<le> n" "n < 24" | "24 \<le> n" "n < 26" | "26 \<le> n" "n < 28" | "28 \<le> n"
    by linarith
  then show ?thesis
    by cases (use assms in \<open>simp_all add: td_dword0_def mask_takes field_bits less_diff_conv2\<close>)
qed

lemma td_dword0_fields:
  "bit (td_dword0 t) 18 = buffer_rounding t"
  "drop_bit 19 (td_dword0 t) AND 0b11 = pid_bits (pid t)"
  "ucast (drop_bit 21 (td_dword0 t) AND 0b111) = delay_interrupt t AND 0b111"
  "drop_bit 24 (td_dword0 t) AND 0b11 = toggle_bits (data_toggle t)"
  "ucast (drop_bit 26 (td_dword0 t) AND 0b11) = error_count t AND 0b11"
  "drop_bit 28 (td_dword0 t) = condition_bits (condition t)"
  unfolding mask_takes
       apply (simp add: bit_td_dword0)
      apply (rule bit_word_eqI; case_tac "n < 2"; simp add: bit_take_bit_iff bit_drop_bit_eq bit_td_dword0)
     apply (rule bit_word_eqI; simp add: bit_take_bit_iff bit_unsigned_iff bit_drop_bit_eq bit_td_dword0)
    apply (rule bit_word_eqI; case_tac "n < 2"; simp add: bit_take_bit_iff bit_drop_bit_eq bit_td_dword0)
   apply (rule bit_word_eqI; case_tac "n < 2"; simp add: bit_take_bit_iff bit_unsigned_iff bit_drop_bit_eq bit_td_dword0)
  apply (rule bit_word_eqI; case_tac "n < 4"; simp add: bit_drop_bit_eq bit_td_dword0)
  apply (auto dest: bit_imp_le_length)
  done

lemma td_roundtrip:
  assumes "td_ok t"
  shows "td_decode (td_encode t) = t"
proof -
  have p: "(if pid_bits d = 0b01 then PidOut else if pid_bits d = 0b10 then PidIn else PidSetup) = d" for d
    by (cases d) (simp_all add: pid_bits_def)
  have g: "(if toggle_bits d = 0b10 then Data0 else if toggle_bits d = 0b11 then Data1 else ToggleFromEd) = d" for d
    by (cases d) (simp_all add: toggle_bits_def)
  have ds: "decode_dwords (td_encode t) = [td_dword0 t, current_buffer t, td_next t AND NOT 0xf, buffer_end t]"
    by (simp only: td_encode_def dwords_roundtrip)
  have n: "[a, b, c, x] ! 0 = a" "[a, b, c, x] ! 1 = b" "[a, b, c, x] ! 2 = c" "[a, b, c, x] ! 3 = x"
    for a b c x :: "32 word" by simp_all
  show ?thesis
    using assms cc_roundtrip unfolding td_decode_def Let_def ds n test_bit td_dword0_fields p g td_ok_def by simp
qed


section \<open>The done queue\<close>

text \<open>
  Retired descriptors are linked newest first; the walk visits them in that order and ends after
  \<open>limit\<close> of them at the latest. \<open>read_td\<close> is the descriptor at an address; the visits are collected.
\<close>

definition DoneQueueOverrun :: unit where "DoneQueueOverrun = ()"

fun walk_done_queue :: "32 word \<Rightarrow> nat \<Rightarrow> (32 word \<Rightarrow> transfer_desc) \<Rightarrow>
    (32 word \<times> transfer_desc) list \<times> (unit, unit) result" where
  "walk_done_queue current 0 read_td = ([], if current = 0 then Ok () else Err DoneQueueOverrun)"
| "walk_done_queue current (Suc remaining) read_td =
     (if current = 0 then ([], Ok ())
      else let td = read_td current in
        (case walk_done_queue (td_next td AND NOT 0xf) remaining read_td of
           (visits, r) \<Rightarrow> ((current, td) # visits, r)))"

definition walk_from :: "32 word \<Rightarrow> nat \<Rightarrow> (32 word \<Rightarrow> transfer_desc) \<Rightarrow>
    (32 word \<times> transfer_desc) list \<times> (unit, unit) result" where
  "walk_from done_head limit read_td = walk_done_queue (done_head AND NOT 0xf) limit read_td"

definition done_head_pointer :: "32 word \<Rightarrow> 32 word \<times> bool" where
  "done_head_pointer d = (d AND NOT 0xf, d AND 1 \<noteq> 0)"

text \<open>A chain of descriptors in memory, the newest first.\<close>

fun done_chain :: "(32 word \<Rightarrow> transfer_desc) \<Rightarrow> 32 word \<Rightarrow> 32 word list \<Rightarrow> bool" where
  "done_chain read_td current [] \<longleftrightarrow> current = 0"
| "done_chain read_td current (a # as) \<longleftrightarrow> a = current \<and> a \<noteq> 0 \<and>
     done_chain read_td (td_next (read_td a) AND NOT 0xf) as"

lemma walk_chain:
  "done_chain read_td current as \<Longrightarrow> length as \<le> limit \<Longrightarrow>
    walk_done_queue current limit read_td = (map (\<lambda>a. (a, read_td a)) as, Ok ())"
proof (induction as arbitrary: current limit)
  case Nil
  then show ?case by (cases limit) simp_all
next
  case (Cons a as)
  then obtain l where "limit = Suc l" "length as \<le> l" by (cases limit) auto
  with Cons show ?case by (auto simp: Let_def)
qed

lemma walk_visits_bound: "length (fst (walk_done_queue current limit read_td)) \<le> limit"
  by (induction current limit read_td rule: walk_done_queue.induct) (auto simp: Let_def split: prod.split)

lemma walk_Ok_chain:
  "walk_done_queue current limit read_td = (visits, Ok u) \<Longrightarrow> done_chain read_td current (map fst visits)"
  by (induction current limit read_td arbitrary: visits rule: walk_done_queue.induct)
    (auto simp: Let_def split: prod.splits if_splits)


section \<open>The arena\<close>

definition ARENA_HCCA :: nat where "ARENA_HCCA = 0"
definition CONTROL_ED :: nat where "CONTROL_ED = 0x100"
definition INTERRUPT_ED :: nat where "INTERRUPT_ED = 0x110"
definition TD_POOL :: nat where "TD_POOL = 0x120"
definition TD_SLOTS :: nat where "TD_SLOTS = 10"
definition BULK_IN_ED :: nat where "BULK_IN_ED = 0x1c0"
definition BULK_OUT_ED :: nat where "BULK_OUT_ED = 0x1d0"
definition CONTROL_BUFFER :: nat where "CONTROL_BUFFER = 0x200"
definition CONTROL_BUFFER_LEN :: nat where "CONTROL_BUFFER_LEN = 0x200"
definition SETUP_BUFFER :: nat where "SETUP_BUFFER = 0x400"
definition INTERRUPT_BUFFER :: nat where "INTERRUPT_BUFFER = 0x440"
definition INTERRUPT_BUFFER_LEN :: nat where "INTERRUPT_BUFFER_LEN = 0x40"
definition BULK_BUFFER :: nat where "BULK_BUFFER = 0x1000"
definition BULK_BUFFER_LEN :: nat where "BULK_BUFFER_LEN = 0x2000"
definition ARENA_SIZE :: nat where "ARENA_SIZE = 0x3000"
definition HCCA_SIZE :: nat where "HCCA_SIZE = 256"
definition INTERRUPT_TABLE :: nat where "INTERRUPT_TABLE = 0"
definition INTERRUPT_TABLE_ENTRIES :: nat where "INTERRUPT_TABLE_ENTRIES = 32"
definition FRAME_NUMBER :: nat where "FRAME_NUMBER = 0x80"
definition DONE_HEAD :: nat where "DONE_HEAD = 0x84"

definition td_slot :: "nat \<Rightarrow> nat" where
  "td_slot slot = TD_POOL + 16 * (slot mod TD_SLOTS)"

definition interrupt_table_entry :: "nat \<Rightarrow> nat" where
  "interrupt_table_entry index = INTERRUPT_TABLE + 4 * (index mod INTERRUPT_TABLE_ENTRIES)"

lemmas arena_defs = ARENA_HCCA_def CONTROL_ED_def INTERRUPT_ED_def TD_POOL_def TD_SLOTS_def BULK_IN_ED_def
  BULK_OUT_ED_def CONTROL_BUFFER_def CONTROL_BUFFER_LEN_def SETUP_BUFFER_def INTERRUPT_BUFFER_def
  INTERRUPT_BUFFER_LEN_def BULK_BUFFER_def BULK_BUFFER_LEN_def ARENA_SIZE_def HCCA_SIZE_def

text \<open>The regions of the arena: offset, length and the alignment the controller needs.\<close>

definition arena_regions :: "(nat \<times> nat \<times> nat) list" where
  "arena_regions = [(ARENA_HCCA, HCCA_SIZE, 256), (CONTROL_ED, 16, 16), (INTERRUPT_ED, 16, 16)] @
     map (\<lambda>s. (td_slot s, 16, 16)) [0..<TD_SLOTS] @
     [(BULK_IN_ED, 16, 16), (BULK_OUT_ED, 16, 16), (CONTROL_BUFFER, CONTROL_BUFFER_LEN, 1), (SETUP_BUFFER, 8, 1),
      (INTERRUPT_BUFFER, INTERRUPT_BUFFER_LEN, 1), (BULK_BUFFER, BULK_BUFFER_LEN, 4096)]"

text \<open>In order, without overlap, each aligned, all inside: so a write to one never touches another.\<close>

lemma arena_disjoint:
  "sorted_wrt (\<lambda>(o1, l1, a1) (o2, l2, a2). o1 + l1 \<le> o2) arena_regions \<and>
   (\<forall>(off, len, align) \<in> set arena_regions. align dvd off \<and> off + len \<le> ARENA_SIZE)"
  by (simp add: arena_regions_def td_slot_def arena_defs upt_rec)


section \<open>The frame interval\<close>

definition FM_INTERVAL_FI_MASK :: "32 word" where "FM_INTERVAL_FI_MASK = 0x3fff"
definition FM_INTERVAL_FSMPS_SHIFT :: nat where "FM_INTERVAL_FSMPS_SHIFT = 16"
definition FM_INTERVAL_FIT :: "32 word" where "FM_INTERVAL_FIT = push_bit 31 1"

text \<open>A frame interval below 210 bit times makes the subtraction panic.\<close>

definition fsmps :: "nat \<Rightarrow> nat exec" where
  "fsmps frame_interval = do {
     d \<leftarrow> minus_exec frame_interval 210;
     m \<leftarrow> times_exec 32 d 6;
     Some (m div 7)
   }"

definition fm_interval_restore :: "32 word \<Rightarrow> 32 word \<Rightarrow> (32 word) exec" where
  "fm_interval_restore saved_fi previous = do {
     let fi = saved_fi AND FM_INTERVAL_FI_MASK;
     let toggled = (previous AND FM_INTERVAL_FIT) XOR FM_INTERVAL_FIT;
     packet \<leftarrow> fsmps (unat fi);
     Some (toggled OR push_bit FM_INTERVAL_FSMPS_SHIFT (word_of_nat packet) OR fi)
   }"

definition periodic_start :: "32 word \<Rightarrow> nat" where
  "periodic_start frame_interval = unat (frame_interval AND FM_INTERVAL_FI_MASK) * 9 div 10"

text \<open>Ports are numbered from 1; port 0 makes the subtraction panic.\<close>

definition rh_port_status :: "nat \<Rightarrow> nat exec" where
  "rh_port_status port = do { p \<leftarrow> minus_exec port 1; Some (0x54 + 4 * p) }"



section \<open>Properties\<close>

text \<open>
  C38: the controller's structures survive memory. An endpoint descriptor whose fields fit their bits and
  whose pointers are aligned is read back from its sixteen bytes as it was, and so is a transfer
  descriptor, with every condition code the controller can write.
\<close>

theorem ohci_descriptors_roundtrip:
  assumes "ed_ok e" and "td_ok t"
  shows "ed_decode (ed_encode e) = e \<and> td_decode (td_encode t) = t"
  using ed_roundtrip [OF assms(1)] td_roundtrip [OF assms(2)] by simp

definition sample_ed :: endpoint_desc where
  "sample_ed = \<lparr>function_address = 2, endpoint_number = 1, direction = EdIn, low_speed = True, skip = False,
     isochronous = False, max_packet_size = 8, ed_tail = 0x10000120, ed_head = 0x10000130, halted = True,
     toggle_carry = True, ed_next = 0\<rparr>"

definition sample_td :: transfer_desc where
  "sample_td = \<lparr>buffer_rounding = True, pid = PidIn, delay_interrupt = DI_NONE, data_toggle = Data1, error_count = 2,
     condition = Reserved 0xa, current_buffer = 0x10000203, td_next = 0x10000140, buffer_end = 0x10000240\<rparr>"

theorem ohci_descriptors_roundtrip_witness:
  "ed_decode (ed_encode sample_ed) = sample_ed \<and> td_decode (td_encode sample_td) = sample_td"
  by (rule ohci_descriptors_roundtrip)
    (simp_all add: ed_ok_def td_ok_def sample_ed_def sample_td_def DI_NONE_def real_code_def)

end
