(* ===== verification/Fs_Interface.thy ===== *)
theory Fs_Interface
  imports Io_Monad Utf8
begin

text \<open>
  The filesystem interface \<open>eo9:fs/fs\<close> (\<open>wit/fs/fs.wit\<close>): its types, a provider as the record of its
  operations over a state, and a client: a program holding the handles it was given, which issues calls
  one after another. The root handle carries nothing in any provider and is left out. A path or a name
  is its UTF-8 bytes; a buffer is the list of its bytes. What a middleware relies on from the
  provider under it is stated as locales; how a path is read is at the end.
\<close>

section \<open>Types\<close>

datatype fs_failure =
    ENotFound
  | EAlreadyExists
  | ENotADirectory
  | EIsADirectory
  | EDenied
  | EReadOnly
  | ENoSpace
  | ENotImmutable
  | EIo string

datatype fs_kind = KFile | KDirectory

record fs_stat =
  st_kind :: fs_kind
  st_size :: nat

record open_flags =
  fl_read :: bool
  fl_write :: bool
  fl_create :: bool
  fl_truncate :: bool

text \<open>\<open>options.intersects(OpenFlags::WRITE | OpenFlags::CREATE | OpenFlags::TRUNCATE)\<close>.\<close>

definition mutating :: "open_flags \<Rightarrow> bool" where
  "mutating fl \<longleftrightarrow> fl_write fl \<or> fl_create fl \<or> fl_truncate fl"

definition read_flags :: open_flags where
  "read_flags = \<lparr>fl_read = True, fl_write = False, fl_create = False, fl_truncate = False\<rparr>"

lemma mutating_read_flags [simp]: "\<not> mutating read_flags"
  by (simp add: mutating_def read_flags_def)

text \<open>
  A provider with states \<open>'s\<close>, files \<open>'f\<close> and immutable handles \<open>'h\<close>. A transfer gives the buffer back
  beside its result.
\<close>

type_synonym transfer = "bytes \<times> (nat, fs_failure) result"

record ('s, 'f, 'h) fs_ops =
  op_open :: "bytes \<Rightarrow> open_flags \<Rightarrow> ('s, 'f, fs_failure) proc"
  op_open_exec :: "bytes \<Rightarrow> ('s, 'h, fs_failure) proc"
  op_list :: "bytes \<Rightarrow> ('s, bytes list, fs_failure) proc"
  op_stat :: "bytes \<Rightarrow> ('s, fs_stat, fs_failure) proc"
  op_mkdir :: "bytes \<Rightarrow> ('s, unit, fs_failure) proc"
  op_remove :: "bytes \<Rightarrow> ('s, unit, fs_failure) proc"
  op_read :: "'f \<Rightarrow> nat \<Rightarrow> bytes \<Rightarrow> ('s, transfer, fs_failure) proc"
  op_write :: "'f \<Rightarrow> nat \<Rightarrow> bytes \<Rightarrow> ('s, transfer, fs_failure) proc"
  op_exec_size :: "'h \<Rightarrow> ('s, nat, fs_failure) proc"
  op_exec_read :: "'h \<Rightarrow> nat \<Rightarrow> bytes \<Rightarrow> ('s, transfer, fs_failure) proc"


section \<open>A client\<close>

text \<open>
  A component cannot make up a handle: a call names a file by its place among those the client was
  given. A call may fail, or its future may be dropped; a trap ends the program.
\<close>

datatype fs_call =
    CallOpen bytes open_flags
  | CallOpenExec bytes
  | CallList bytes
  | CallStat bytes
  | CallMkdir bytes
  | CallRemove bytes
  | CallRead nat nat bytes
  | CallWrite nat nat bytes
  | CallExecSize nat
  | CallExecRead nat nat bytes

datatype fs_answer =
    Opened
  | Listing "bytes list"
  | Stated fs_stat
  | Done
  | Moved transfer
  | Size nat
  | Refused fs_failure
  | Lost
  | Trapped
  | NoHandle

fun stopped :: "fs_failure stop \<Rightarrow> fs_answer" where
  "stopped (Fail e) = Refused e"
| "stopped Dropped = Lost"
| "stopped Panic = Trapped"

record ('s, 'f, 'h) client =
  cl_fs :: 's
  cl_files :: "'f list"
  cl_execs :: "'h list"

definition fresh_client :: "'s \<Rightarrow> ('s, 'f, 'h) client" where
  "fresh_client s = \<lparr>cl_fs = s, cl_files = [], cl_execs = []\<rparr>"

text \<open>The end of a call: a handle that it returned is kept.\<close>

fun settle :: "('a \<Rightarrow> ('s, 'f, 'h) client \<Rightarrow> fs_answer \<times> ('s, 'f, 'h) client) \<Rightarrow> ('s, 'f, 'h) client \<Rightarrow>
    ('a, fs_failure) io \<times> 's \<Rightarrow> fs_answer \<times> ('s, 'f, 'h) client" where
  "settle g c (Return x, s) = g x (c\<lparr>cl_fs := s\<rparr>)"
| "settle g c (Stop k, s) = (stopped k, c\<lparr>cl_fs := s\<rparr>)"

definition keep_file :: "'f \<Rightarrow> ('s, 'f, 'h) client \<Rightarrow> fs_answer \<times> ('s, 'f, 'h) client" where
  "keep_file f c = (Opened, c\<lparr>cl_files := cl_files c @ [f]\<rparr>)"

definition keep_exec :: "'h \<Rightarrow> ('s, 'f, 'h) client \<Rightarrow> fs_answer \<times> ('s, 'f, 'h) client" where
  "keep_exec h c = (Opened, c\<lparr>cl_execs := cl_execs c @ [h]\<rparr>)"

definition with_handle :: "'x list \<Rightarrow> nat \<Rightarrow> ('x \<Rightarrow> fs_answer \<times> ('s, 'f, 'h) client) \<Rightarrow> ('s, 'f, 'h) client \<Rightarrow>
    fs_answer \<times> ('s, 'f, 'h) client" where
  "with_handle hs i g c = (if i < length hs then g (hs ! i) else (NoHandle, c))"

fun fs_step :: "('s, 'f, 'h) fs_ops \<Rightarrow> fs_call \<Rightarrow> ('s, 'f, 'h) client \<Rightarrow> fs_answer \<times> ('s, 'f, 'h) client" where
  "fs_step U (CallOpen p fl) c = settle keep_file c (op_open U p fl (cl_fs c))"
| "fs_step U (CallOpenExec p) c = settle keep_exec c (op_open_exec U p (cl_fs c))"
| "fs_step U (CallList p) c = settle (\<lambda>ns. Pair (Listing ns)) c (op_list U p (cl_fs c))"
| "fs_step U (CallStat p) c = settle (\<lambda>st. Pair (Stated st)) c (op_stat U p (cl_fs c))"
| "fs_step U (CallMkdir p) c = settle (\<lambda>_. Pair Done) c (op_mkdir U p (cl_fs c))"
| "fs_step U (CallRemove p) c = settle (\<lambda>_. Pair Done) c (op_remove U p (cl_fs c))"
| "fs_step U (CallRead i off dst) c =
     with_handle (cl_files c) i (\<lambda>f. settle (\<lambda>t. Pair (Moved t)) c (op_read U f off dst (cl_fs c))) c"
| "fs_step U (CallWrite i off src) c =
     with_handle (cl_files c) i (\<lambda>f. settle (\<lambda>t. Pair (Moved t)) c (op_write U f off src (cl_fs c))) c"
| "fs_step U (CallExecSize i) c =
     with_handle (cl_execs c) i (\<lambda>h. settle (\<lambda>n. Pair (Size n)) c (op_exec_size U h (cl_fs c))) c"
| "fs_step U (CallExecRead i off dst) c =
     with_handle (cl_execs c) i (\<lambda>h. settle (\<lambda>t. Pair (Moved t)) c (op_exec_read U h off dst (cl_fs c))) c"

fun fs_run :: "('s, 'f, 'h) fs_ops \<Rightarrow> fs_call list \<Rightarrow> ('s, 'f, 'h) client \<Rightarrow> fs_answer list \<times> ('s, 'f, 'h) client" where
  "fs_run U [] c = ([], c)"
| "fs_run U (k # ks) c =
     (case fs_step U k c of
        (a, c') \<Rightarrow> if a = Trapped then ([a], c') else (case fs_run U ks c' of (as, c'') \<Rightarrow> (a # as, c'')))"

text \<open>A property of the client's state that every call keeps holds after every history.\<close>

lemma fs_run_invariant:
  assumes "\<And>k c. I c \<Longrightarrow> I (snd (fs_step U k c))" and "I c"
  shows "I (snd (fs_run U ks c))"
  using assms(2)
proof (induction ks arbitrary: c)
  case (Cons k ks)
  have "I (snd (fs_step U k c))" using assms(1) Cons.prems by blast
  from Cons.IH [OF this] this show ?case by (auto simp: case_prod_beta)
qed simp

text \<open>Two clients that every call keeps related, with equal answers, cannot be told apart by a history.\<close>

lemma fs_run_related:
  assumes "\<And>k c d. R c d \<Longrightarrow> fst (fs_step U k c) = fst (fs_step V k d) \<and> R (snd (fs_step U k c)) (snd (fs_step V k d))"
    and "R c d"
  shows "fst (fs_run U ks c) = fst (fs_run V ks d) \<and> R (snd (fs_run U ks c)) (snd (fs_run V ks d))"
  using assms(2)
proof (induction ks arbitrary: c d)
  case (Cons k ks)
  note st = assms(1) [OF Cons.prems, of k]
  show ?case using st Cons.IH [OF conjunct2 [OF st]] by (auto simp: case_prod_beta)
qed simp

text \<open>What a call does to the state, by the result of the operation it makes.\<close>

lemma settle_state:
  assumes "\<And>x d. cl_fs (snd (g x d)) = cl_fs d"
  shows "cl_fs (snd (settle g c r)) = snd r"
  using assms by (cases r; cases "fst r") auto

lemma keep_fields [simp]:
  "cl_fs (snd (keep_file f c)) = cl_fs c" "cl_files (snd (keep_file f c)) = cl_files c @ [f]"
  "cl_execs (snd (keep_file f c)) = cl_execs c"
  "cl_fs (snd (keep_exec h c)) = cl_fs c" "cl_files (snd (keep_exec h c)) = cl_files c"
  "cl_execs (snd (keep_exec h c)) = cl_execs c @ [h]"
  "fst (keep_file f c) = Opened" "fst (keep_exec h c) = Opened"
  by (simp_all add: keep_file_def keep_exec_def)

lemma with_handle_step:
  "(\<And>x. x \<in> set hs \<Longrightarrow> P (g x)) \<Longrightarrow> P (NoHandle, c) \<Longrightarrow> P (with_handle hs i g c)"
  by (simp add: with_handle_def)


section \<open>What a provider promises\<close>

text \<open>\<open>content\<close> is what is stored. Only operations that ask for a change make one.\<close>

locale reading_fs =
  fixes U :: "('s, 'f, 'h) fs_ops" and content :: "'s \<Rightarrow> 'c"
  assumes open_keeps: "\<not> mutating fl \<Longrightarrow> content (snd (op_open U p fl s)) = content s"
    and open_exec_keeps: "content (snd (op_open_exec U p s)) = content s"
    and list_keeps: "content (snd (op_list U p s)) = content s"
    and stat_keeps: "content (snd (op_stat U p s)) = content s"
    and read_keeps: "content (snd (op_read U f off dst s)) = content s"
    and exec_size_keeps: "content (snd (op_exec_size U h s)) = content s"
    and exec_read_keeps: "content (snd (op_exec_read U h off dst s)) = content s"

text \<open>And a file that was not opened for a change cannot make one: the provider marks it.\<close>

locale sealing_fs = reading_fs U content
  for U :: "('s, 'f, 'h) fs_ops" and content :: "'s \<Rightarrow> 'c" +
  fixes sealed :: "'f \<Rightarrow> bool"
  assumes open_seals: "\<not> mutating fl \<Longrightarrow> op_open U p fl s = (Return f, s') \<Longrightarrow> sealed f"
    and sealed_write: "sealed f \<Longrightarrow> content (snd (op_write U f off src s)) = content s"


section \<open>Paths\<close>

text \<open>A segment that names an entry, and the path that a list of them is written as.\<close>

definition proper :: "bytes \<Rightarrow> bool" where
  "proper seg \<longleftrightarrow> seg \<noteq> [] \<and> seg \<noteq> [0x2E] \<and> seg \<noteq> [0x2E, 0x2E] \<and> 0x2F \<notin> set seg"

text \<open>\<open>segments.join("/")\<close>.\<close>

fun join_slash :: "bytes list \<Rightarrow> bytes" where
  "join_slash [] = []"
| "join_slash [seg] = seg"
| "join_slash (seg # segs) = seg @ 0x2F # join_slash segs"

lemma split_slash_segments: "seg \<in> set (split_slash p) \<Longrightarrow> 0x2F \<notin> set seg"
  by (induction p arbitrary: seg) (auto split: if_splits list.splits)

lemma split_slash_single: "0x2F \<notin> set seg \<Longrightarrow> split_slash seg = [seg]"
  using split_slash_append [of seg "[]"] by simp

lemma split_slash_seg: "0x2F \<notin> set seg \<Longrightarrow> split_slash (seg @ 0x2F # p) = seg # split_slash p"
  using split_slash_append [of seg "0x2F # p"] by simp

lemma split_join:
  "segs \<noteq> [] \<Longrightarrow> \<forall>seg \<in> set segs. 0x2F \<notin> set seg \<Longrightarrow> split_slash (join_slash segs) = segs"
  by (induction segs rule: join_slash.induct) (simp_all add: split_slash_single split_slash_seg)

end
