(* ===== verification/Fs_Views.thy ===== *)
theory Fs_Views
  imports Fs_Interface
begin

text \<open>
  Middleware over the filesystem interface: the read-only view \<open>fs.readonly\<close>, the view gated by a path
  policy \<open>fs.filtered\<close> with the policy \<open>fs.policy-subtree\<close>, and \<open>fs.overlay\<close>, which layers two
  filesystems (\<open>guest/stubs/fs-readonly\<close>, \<open>fs-filtered\<close>, \<open>fs-policy-subtree\<close>, \<open>fs-overlay\<close>). Each takes
  the providers it imports as records of operations and is one itself, so that stacks of them are
  compositions of functions. Their own error, flag and stat types are copies of the imported ones.
\<close>

section \<open>fs.readonly\<close>

fun readonly_map_error :: "fs_failure \<Rightarrow> fs_failure" where
  "readonly_map_error ENotFound = ENotFound"
| "readonly_map_error EAlreadyExists = EAlreadyExists"
| "readonly_map_error ENotADirectory = ENotADirectory"
| "readonly_map_error EIsADirectory = EIsADirectory"
| "readonly_map_error EDenied = EDenied"
| "readonly_map_error EReadOnly = EReadOnly"
| "readonly_map_error ENoSpace = ENoSpace"
| "readonly_map_error ENotImmutable = ENotImmutable"
| "readonly_map_error (EIo message) = EIo message"

definition readonly_map_stat :: "fs_stat \<Rightarrow> fs_stat" where
  "readonly_map_stat st =
     \<lparr>st_kind = (case st_kind st of KFile \<Rightarrow> KFile | KDirectory \<Rightarrow> KDirectory), st_size = st_size st\<rparr>"

text \<open>The result of a transfer, mapped; \<open>Result::map\<close> and \<open>map_err\<close> on the outcome of a call.\<close>

definition map_transfer :: "(fs_failure \<Rightarrow> fs_failure) \<Rightarrow> transfer \<Rightarrow> transfer" where
  "map_transfer f t = (case t of (buf, r) \<Rightarrow> (buf, case r of Ok n \<Rightarrow> Ok n | Err e \<Rightarrow> Err (f e)))"

definition map_value :: "('a \<Rightarrow> 'b) \<Rightarrow> ('s, 'a, 'e) proc \<Rightarrow> ('s, 'b, 'e) proc" where
  "map_value g m = io_bind m (\<lambda>x. ret (g x))"

datatype 'f readonly_file = ReadonlyFile (ro_file: 'f)
datatype 'h readonly_exec = ReadonlyExec (ro_exec: 'h)

definition readonly_open where
  "readonly_open U path options =
     (if mutating options then fail EReadOnly
      else map_value ReadonlyFile (map_stop readonly_map_error (op_open U path options)))"

definition readonly_open_exec where
  "readonly_open_exec U path = map_value ReadonlyExec (map_stop readonly_map_error (op_open_exec U path))"

definition readonly_list where
  "readonly_list U path = map_stop readonly_map_error (op_list U path)"

definition readonly_stat where
  "readonly_stat U path = map_value readonly_map_stat (map_stop readonly_map_error (op_stat U path))"

definition readonly_create_directory where
  "readonly_create_directory U (path :: bytes) = fail EReadOnly"

definition readonly_remove where
  "readonly_remove U (path :: bytes) = fail EReadOnly"

definition readonly_read where
  "readonly_read U f offset dst = map_value (map_transfer readonly_map_error) (op_read U (ro_file f) offset dst)"

definition readonly_write where
  "readonly_write U f (offset :: nat) (src :: bytes) = ret (src, Err EReadOnly)"

definition readonly_exec_size where
  "readonly_exec_size U h = op_exec_size U (ro_exec h)"

definition readonly_exec_read where
  "readonly_exec_read U h offset dst =
     map_value (map_transfer readonly_map_error) (op_exec_read U (ro_exec h) offset dst)"

definition readonly_ops :: "('s, 'f, 'h) fs_ops \<Rightarrow> ('s, 'f readonly_file, 'h readonly_exec) fs_ops" where
  "readonly_ops U = \<lparr>op_open = readonly_open U, op_open_exec = readonly_open_exec U, op_list = readonly_list U,
     op_stat = readonly_stat U, op_mkdir = readonly_create_directory U, op_remove = readonly_remove U,
     op_read = readonly_read U, op_write = readonly_write U, op_exec_size = readonly_exec_size U,
     op_exec_read = readonly_exec_read U\<rparr>"

lemmas readonly_defs = readonly_open_def readonly_open_exec_def readonly_list_def readonly_stat_def
  readonly_create_directory_def readonly_remove_def readonly_read_def readonly_write_def readonly_exec_size_def
  readonly_exec_read_def


section \<open>Path policies\<close>

datatype fs_operation = OpReading | OpWriting

datatype verdict = Allow | Deny | ReadOnlyHere

type_synonym policy = "bytes \<Rightarrow> fs_operation \<Rightarrow> verdict"

text \<open>The loop of \<open>normalize\<close> over the segments; \<open>pop()?\<close> answers \<open>None\<close> at the root.\<close>

fun normalize_segs :: "bytes list \<Rightarrow> bytes list \<Rightarrow> bytes list option" where
  "normalize_segs acc [] = Some acc"
| "normalize_segs acc (seg # segs) =
     (if seg = [] \<or> seg = [0x2E] then normalize_segs acc segs
      else if seg = [0x2E, 0x2E] then (if acc = [] then None else normalize_segs (butlast acc) segs)
      else normalize_segs (acc @ [seg]) segs)"

definition normalize :: "bytes \<Rightarrow> bytes option" where
  "normalize path =
     (case normalize_segs [] (split_slash path) of
        None \<Rightarrow> None
      | Some segs \<Rightarrow> Some ([0x2F] @ join_slash segs))"


subsection \<open>fs.policy-subtree\<close>

datatype subtree_access = ReadWrite | ReadsOnly

type_synonym subtree_rule = "(bytes \<times> subtree_access) option"  \<comment> \<open>the static \<open>RULE\<close>\<close>

definition subtree_normalize :: "bytes \<Rightarrow> bytes option" where
  "subtree_normalize path =
     (case normalize_segs [] (split_slash path) of
        None \<Rightarrow> None
      | Some segs \<Rightarrow> Some ([0x2F] @ join_slash segs))"

definition under :: "bytes \<Rightarrow> bytes \<Rightarrow> bool" where
  "under path pre \<longleftrightarrow>
     pre = [0x2F] \<or> path = pre \<or>
     (case strip_prefix pre path of None \<Rightarrow> False | Some rest \<Rightarrow> starts_with [0x2F] rest)"

definition subtree_configure :: "bytes \<Rightarrow> subtree_access \<Rightarrow> subtree_rule \<Rightarrow> subtree_rule \<times> (unit, string) result" where
  "subtree_configure pre access rule =
     (case subtree_normalize pre of
        None \<Rightarrow> (rule, Err ''the subtree prefix escapes the root (too many `..` segments)'')
      | Some normalized \<Rightarrow> (Some (normalized, access), Ok ()))"

definition subtree_check :: "subtree_rule \<Rightarrow> policy" where
  "subtree_check rule path oper =
     (case rule of
        None \<Rightarrow> Deny
      | Some (pre, access) \<Rightarrow>
          (case subtree_normalize path of
             None \<Rightarrow> Deny
           | Some path \<Rightarrow>
               if \<not> under path pre then Deny
               else (case (access, oper) of
                   (ReadWrite, _) \<Rightarrow> Allow
                 | (ReadsOnly, OpReading) \<Rightarrow> Allow
                 | (ReadsOnly, OpWriting) \<Rightarrow> ReadOnlyHere)))"


subsection \<open>fs.filtered\<close>

definition gate :: "policy \<Rightarrow> bytes \<Rightarrow> fs_operation \<Rightarrow> (bytes, fs_failure) result" where
  "gate check path oper =
     (case normalize path of
        None \<Rightarrow> Err EDenied
      | Some normalized \<Rightarrow>
          (case check normalized oper of
             Allow \<Rightarrow> Ok normalized
           | Deny \<Rightarrow> Err EDenied
           | ReadOnlyHere \<Rightarrow> (case oper of OpReading \<Rightarrow> Ok normalized | OpWriting \<Rightarrow> Err EReadOnly)))"

fun filtered_map_error :: "fs_failure \<Rightarrow> fs_failure" where
  "filtered_map_error ENotFound = ENotFound"
| "filtered_map_error EAlreadyExists = EAlreadyExists"
| "filtered_map_error ENotADirectory = ENotADirectory"
| "filtered_map_error EIsADirectory = EIsADirectory"
| "filtered_map_error EDenied = EDenied"
| "filtered_map_error EReadOnly = EReadOnly"
| "filtered_map_error ENoSpace = ENoSpace"
| "filtered_map_error ENotImmutable = ENotImmutable"
| "filtered_map_error (EIo message) = EIo message"

definition filtered_map_stat :: "fs_stat \<Rightarrow> fs_stat" where
  "filtered_map_stat st =
     \<lparr>st_kind = (case st_kind st of KFile \<Rightarrow> KFile | KDirectory \<Rightarrow> KDirectory), st_size = st_size st\<rparr>"

definition open_operation :: "open_flags \<Rightarrow> fs_operation" where
  "open_operation options = (if mutating options then OpWriting else OpReading)"

datatype 'f filtered_file = FilteredFile (fi_file: 'f)
datatype 'h filtered_exec = FilteredExec (fi_exec: 'h)

definition gated :: "policy \<Rightarrow> bytes \<Rightarrow> fs_operation \<Rightarrow> (bytes \<Rightarrow> ('s, 'a, fs_failure) proc) \<Rightarrow> ('s, 'a, fs_failure) proc" where
  "gated check path oper k = io_bind (or_fail id (gate check path oper)) (\<lambda>p. map_stop filtered_map_error (k p))"

definition filtered_open where
  "filtered_open check U path options =
     map_value FilteredFile (gated check path (open_operation options) (\<lambda>p. op_open U p options))"

definition filtered_open_exec where
  "filtered_open_exec check U path = map_value FilteredExec (gated check path OpReading (op_open_exec U))"

definition filtered_list where
  "filtered_list check U path = gated check path OpReading (op_list U)"

definition filtered_stat where
  "filtered_stat check U path = map_value filtered_map_stat (gated check path OpReading (op_stat U))"

definition filtered_create_directory where
  "filtered_create_directory check U path = gated check path OpWriting (op_mkdir U)"

definition filtered_remove where
  "filtered_remove check U path = gated check path OpWriting (op_remove U)"

definition filtered_read where
  "filtered_read U f offset dst = map_value (map_transfer filtered_map_error) (op_read U (fi_file f) offset dst)"

definition filtered_write where
  "filtered_write U f offset src = map_value (map_transfer filtered_map_error) (op_write U (fi_file f) offset src)"

definition filtered_exec_size where
  "filtered_exec_size U h = op_exec_size U (fi_exec h)"

definition filtered_exec_read where
  "filtered_exec_read U h offset dst =
     map_value (map_transfer filtered_map_error) (op_exec_read U (fi_exec h) offset dst)"

definition filtered_ops :: "policy \<Rightarrow> ('s, 'f, 'h) fs_ops \<Rightarrow> ('s, 'f filtered_file, 'h filtered_exec) fs_ops" where
  "filtered_ops check U = \<lparr>op_open = filtered_open check U, op_open_exec = filtered_open_exec check U,
     op_list = filtered_list check U, op_stat = filtered_stat check U, op_mkdir = filtered_create_directory check U,
     op_remove = filtered_remove check U, op_read = filtered_read U, op_write = filtered_write U,
     op_exec_size = filtered_exec_size U, op_exec_read = filtered_exec_read U\<rparr>"

lemmas filtered_defs = filtered_open_def filtered_open_exec_def filtered_list_def filtered_stat_def
  filtered_create_directory_def filtered_remove_def filtered_read_def filtered_write_def filtered_exec_size_def
  filtered_exec_read_def



section \<open>fs.overlay\<close>

text \<open>The two imported filesystems have a state each; a call touches one of them.\<close>

definition on_upper :: "('u, 'a, 'e) proc \<Rightarrow> ('u \<times> 'l, 'a, 'e) proc" where
  "on_upper m = (\<lambda>(u, l). case m u of (r, u') \<Rightarrow> (r, u', l))"

definition on_lower :: "('l, 'a, 'e) proc \<Rightarrow> ('u \<times> 'l, 'a, 'e) proc" where
  "on_lower m = (\<lambda>(u, l). case m l of (r, l') \<Rightarrow> (r, u, l'))"

fun upper_error :: "fs_failure \<Rightarrow> fs_failure" where
  "upper_error ENotFound = ENotFound"
| "upper_error EAlreadyExists = EAlreadyExists"
| "upper_error ENotADirectory = ENotADirectory"
| "upper_error EIsADirectory = EIsADirectory"
| "upper_error EDenied = EDenied"
| "upper_error EReadOnly = EReadOnly"
| "upper_error ENoSpace = ENoSpace"
| "upper_error ENotImmutable = ENotImmutable"
| "upper_error (EIo message) = EIo message"

fun lower_error :: "fs_failure \<Rightarrow> fs_failure" where
  "lower_error ENotFound = ENotFound"
| "lower_error EAlreadyExists = EAlreadyExists"
| "lower_error ENotADirectory = ENotADirectory"
| "lower_error EIsADirectory = EIsADirectory"
| "lower_error EDenied = EDenied"
| "lower_error EReadOnly = EReadOnly"
| "lower_error ENoSpace = ENoSpace"
| "lower_error ENotImmutable = ENotImmutable"
| "lower_error (EIo message) = EIo message"

definition upper_stat :: "fs_stat \<Rightarrow> fs_stat" where
  "upper_stat st =
     \<lparr>st_kind = (case st_kind st of KFile \<Rightarrow> KFile | KDirectory \<Rightarrow> KDirectory), st_size = st_size st\<rparr>"

definition lower_stat :: "fs_stat \<Rightarrow> fs_stat" where
  "lower_stat st =
     \<lparr>st_kind = (case st_kind st of KFile \<Rightarrow> KFile | KDirectory \<Rightarrow> KDirectory), st_size = st_size st\<rparr>"

definition is_write :: "open_flags \<Rightarrow> bool" where
  "is_write options \<longleftrightarrow> mutating options"

datatype ('u, 'l) overlay_handle = Upper 'u | Lower 'l

text \<open>
  \<open>match upper::op(..).await { Ok(x) => .., Err(NotFound) => lower::op(..).await.map_err(lower_error)?,
  Err(other) => Err(upper_error(other)) }\<close>
\<close>

definition fall_through ::
    "('u, 'a, fs_failure) proc \<Rightarrow> ('a \<Rightarrow> 'c) \<Rightarrow> ('l, 'b, fs_failure) proc \<Rightarrow> ('b \<Rightarrow> 'c) \<Rightarrow> ('u \<times> 'l, 'c, fs_failure) proc" where
  "fall_through up f low g =
     io_bind (catch (on_upper up)) (\<lambda>r.
     case r of
       Ok x \<Rightarrow> ret (f x)
     | Err ENotFound \<Rightarrow> map_value g (map_stop lower_error (on_lower low))
     | Err other \<Rightarrow> fail (upper_error other))"

definition overlay_open where
  "overlay_open U L path options =
     (if is_write options then map_value Lower (map_stop lower_error (on_lower (op_open L path options)))
      else fall_through (op_open U path options) Upper (op_open L path options) Lower)"

definition overlay_open_exec where
  "overlay_open_exec U L path = fall_through (op_open_exec U path) Upper (op_open_exec L path) Lower"

text \<open>The loop over the lower layer's names.\<close>

fun union_names :: "bytes list \<Rightarrow> bytes list \<Rightarrow> bytes list" where
  "union_names up [] = up"
| "union_names up (name # low) = union_names (if name \<in> set up then up else up @ [name]) low"

definition overlay_list where
  "overlay_list U L path =
     io_bind (catch (on_upper (op_list U path))) (\<lambda>upper_entries.
     io_bind (catch (on_lower (op_list L path))) (\<lambda>lower_entries.
     case (upper_entries, lower_entries) of
       (Ok up, Ok low) \<Rightarrow> ret (union_names up low)
     | (Ok up, Err _) \<Rightarrow> ret up
     | (Err _, Ok low) \<Rightarrow> ret low
     | (Err up, Err _) \<Rightarrow> fail (upper_error up)))"

definition overlay_stat where
  "overlay_stat U L path = fall_through (op_stat U path) upper_stat (op_stat L path) lower_stat"

definition overlay_create_directory where
  "overlay_create_directory U L path = map_stop lower_error (on_lower (op_mkdir L path))"

definition overlay_remove where
  "overlay_remove U L path = map_stop lower_error (on_lower (op_remove L path))"

definition overlay_read where
  "overlay_read U L f offset dst =
     (case f of
        Upper inner \<Rightarrow> map_value (map_transfer upper_error) (on_upper (op_read U inner offset dst))
      | Lower inner \<Rightarrow> map_value (map_transfer lower_error) (on_lower (op_read L inner offset dst)))"

definition overlay_write where
  "overlay_write U L f offset src =
     (case f of
        Lower inner \<Rightarrow> map_value (map_transfer lower_error) (on_lower (op_write L inner offset src))
      | Upper inner \<Rightarrow> map_value (map_transfer upper_error) (on_upper (op_write U inner offset src)))"

definition overlay_exec_size where
  "overlay_exec_size U L h =
     (case h of
        Upper inner \<Rightarrow> on_upper (op_exec_size U inner)
      | Lower inner \<Rightarrow> on_lower (op_exec_size L inner))"

definition overlay_exec_read where
  "overlay_exec_read U L h offset dst =
     (case h of
        Upper inner \<Rightarrow> map_value (map_transfer upper_error) (on_upper (op_exec_read U inner offset dst))
      | Lower inner \<Rightarrow> map_value (map_transfer lower_error) (on_lower (op_exec_read L inner offset dst)))"

definition overlay_ops :: "('u, 'f, 'h) fs_ops \<Rightarrow> ('l, 'g, 'k) fs_ops \<Rightarrow>
    ('u \<times> 'l, ('f, 'g) overlay_handle, ('h, 'k) overlay_handle) fs_ops" where
  "overlay_ops U L = \<lparr>op_open = overlay_open U L, op_open_exec = overlay_open_exec U L, op_list = overlay_list U L,
     op_stat = overlay_stat U L, op_mkdir = overlay_create_directory U L, op_remove = overlay_remove U L,
     op_read = overlay_read U L, op_write = overlay_write U L, op_exec_size = overlay_exec_size U L,
     op_exec_read = overlay_exec_read U L\<rparr>"

lemmas overlay_defs = overlay_open_def overlay_open_exec_def overlay_list_def overlay_stat_def
  overlay_create_directory_def overlay_remove_def overlay_read_def overlay_write_def overlay_exec_size_def
  overlay_exec_read_def


section \<open>Automation\<close>

lemma map_error_ids [simp]:
  "readonly_map_error e = e" "filtered_map_error e = e" "upper_error e = e" "lower_error e = e"
  by (cases e; simp)+

lemma map_stat_ids [simp]:
  "readonly_map_stat st = st" "filtered_map_stat st = st" "upper_stat st = st" "lower_stat st = st"
  by (cases st; cases "st_kind st"; simp add: readonly_map_stat_def filtered_map_stat_def upper_stat_def lower_stat_def)+

lemma map_error_fun_ids [simp]:
  "readonly_map_error = id" "filtered_map_error = id" "upper_error = id" "lower_error = id"
  "readonly_map_stat = id" "filtered_map_stat = id" "upper_stat = id" "lower_stat = id"
  by (simp_all add: fun_eq_iff)

lemma map_transfer_id [simp]: "map_transfer id t = t"
  by (cases t) (simp add: map_transfer_def split: result.split)

lemma map_transfer_fun_id [simp]: "map_transfer id = id"
  by (simp add: fun_eq_iff)

lemma map_stop_id [simp]: "map_stop id m = m"
  by (auto simp: map_stop_def fun_eq_iff split: prod.split io.split stop.split)

lemma map_value_id [simp]: "map_value id m = m"
  by (auto simp: map_value_def io_bind_def ret_def fun_eq_iff split: prod.split io.split)

text \<open>The state a mapped call leaves, and its outcome.\<close>

lemma map_value_state [simp]: "snd (map_value g m s) = snd (m s)"
  by (auto simp: map_value_def io_bind_def ret_def split: prod.split io.split)

lemma map_value_Return: "map_value g m s = (Return y, s') \<longleftrightarrow> (\<exists>x. m s = (Return x, s') \<and> y = g x)"
  by (auto simp: map_value_def io_bind_def ret_def split: prod.split io.split)

lemma on_state [simp]:
  "snd (on_upper m s) = (snd (m (fst s)), snd s)" "snd (on_lower n s) = (fst s, snd (n (snd s)))"
  by (auto simp: on_upper_def on_lower_def split: prod.split)

lemma on_Return:
  "on_upper m s = (r, s') \<longleftrightarrow> m (fst s) = (r, fst s') \<and> snd s' = snd s"
  "on_lower n s = (q, s') \<longleftrightarrow> n (snd s) = (q, snd s') \<and> fst s' = fst s"
  by (auto simp: on_upper_def on_lower_def split: prod.split)

lemma catch_state [simp]: "snd (catch m s) = snd (m s)"
  by (auto simp: catch_def split: prod.split io.split stop.split)

text \<open>A gated call is not made, or made with the path that the policy saw.\<close>

lemma gate_Ok:
  assumes "gate check path oper = Ok p"
  shows "normalize path = Some p" "check p oper = Allow \<or> check p oper = ReadOnlyHere \<and> oper = OpReading"
  using assms by (auto simp: gate_def split: option.splits verdict.splits fs_operation.splits)

lemma gated_cases:
  obtains (closed) e where "gate check path oper = Err e" "gated check path oper k s = (Stop (Fail e), s)"
  | (made) p where "gate check path oper = Ok p" "gated check path oper k s = k p s"
  using that by (cases "gate check path oper") (auto simp: gated_def io_bind_def or_fail_def ret_def fail_def)

end
