(* ===== verification/Fs_Memfs.thy ===== *)
theory Fs_Memfs
  imports Fs_Interface "HOL-Library.List_Lexorder"
begin

text \<open>
  The RAM filesystem \<open>fs.memfs\<close> (\<open>guest/stubs/fs-memfs/src/lib.rs\<close>). A file's contents are an
  \<open>Rc<RefCell<Vec<u8>>>\<close> that the directory tree and the open files share: an address into a store of
  byte strings, which is never reused. The provider's operations do not await, so each is one step. The
  guest's \<open>usize\<close> has 32 bits.
\<close>

section \<open>The tree\<close>

datatype mem_node =
    FileNode nat
  | DirNode "(bytes, mem_node) btree_map"

type_synonym mem_dir = "(bytes, mem_node) btree_map"

text \<open>The static \<open>STATE\<close>, empty until its first use, and the contents of files.\<close>

record memfs =
  mf_state :: "mem_dir option"
  mf_heap :: "bytes list"

definition mf_root :: "memfs \<Rightarrow> mem_dir" where
  "mf_root w = (case mf_state w of None \<Rightarrow> [] | Some d \<Rightarrow> d)"

definition seg_step :: "bytes list \<Rightarrow> bytes \<Rightarrow> bytes list" where
  "seg_step acc seg =
     (if seg = [] \<or> seg = [0x2E] then acc
      else if seg = [0x2E, 0x2E] then butlast acc
      else acc @ [seg])"

definition segments :: "bytes \<Rightarrow> bytes list" where
  "segments path = foldl seg_step [] (split_slash path)"

text \<open>The walk over the segments before the last one, for reading and for changing the directory it ends in.\<close>

fun dir_at :: "mem_dir \<Rightarrow> bytes list \<Rightarrow> (mem_dir, fs_failure) result" where
  "dir_at d [] = Ok d"
| "dir_at d (s # ss) =
     (case bm_get d s of
        Some (DirNode es) \<Rightarrow> dir_at es ss
      | Some (FileNode _) \<Rightarrow> Err ENotADirectory
      | None \<Rightarrow> Err ENotFound)"

fun edit_at :: "mem_dir \<Rightarrow> bytes list \<Rightarrow> (mem_dir \<Rightarrow> mem_dir) \<Rightarrow> (mem_dir, fs_failure) result" where
  "edit_at d [] f = Ok (f d)"
| "edit_at d (s # ss) f =
     (case bm_get d s of
        Some (DirNode es) \<Rightarrow> and_then (edit_at es ss f) (\<lambda>es'. Ok (bm_insert s (DirNode es') d))
      | Some (FileNode _) \<Rightarrow> Err ENotADirectory
      | None \<Rightarrow> Err ENotFound)"

definition parent_of :: "mem_dir \<Rightarrow> bytes list \<Rightarrow> (mem_dir \<Rightarrow> mem_dir) \<Rightarrow> (mem_dir, fs_failure) result exec" where
  "parent_of d segs f = (if segs = [] then None else Some (edit_at d (butlast segs) f))"

definition mem_lookup :: "mem_dir \<Rightarrow> bytes list \<Rightarrow> (mem_node option, fs_failure) result exec" where
  "mem_lookup d segs =
     (if segs = [] then None
      else Some (and_then (dir_at d (butlast segs)) (\<lambda>es. Ok (bm_get es (last segs)))))"

definition file_data :: "mem_dir \<Rightarrow> bytes list \<Rightarrow> (nat, fs_failure) result exec" where
  "file_data d segs = do {
     r \<leftarrow> mem_lookup d segs;
     Some (and_then r (\<lambda>n. case n of
       Some (FileNode a) \<Rightarrow> Ok a
     | Some (DirNode _) \<Rightarrow> Err EIsADirectory
     | None \<Rightarrow> Err ENotFound))
   }"


section \<open>Contents\<close>

definition usize_of :: "nat \<Rightarrow> nat option" where
  "usize_of n = (if n < 2 ^ 32 then Some n else None)"

definition usize_or_max :: "nat \<Rightarrow> nat" where
  "usize_or_max n = (case usize_of n of Some v \<Rightarrow> v | None \<Rightarrow> u32_max)"

definition mem_read_at :: "bytes \<Rightarrow> nat \<Rightarrow> bytes \<Rightarrow> bytes \<times> nat" where
  "mem_read_at contents offset dst =
     (let available = (case usize_of offset of
            Some at \<Rightarrow> if at < length contents then drop at contents else []
          | None \<Rightarrow> []);
          wanted = usize_or_max (length dst);
          chunk = take (min wanted (length available)) available
      in (if chunk = [] then dst else chunk @ drop (length chunk) dst, length chunk))"

definition mem_write_at :: "bytes \<Rightarrow> nat \<Rightarrow> bytes \<Rightarrow> bytes \<times> (nat, fs_failure) result" where
  "mem_write_at contents offset src =
     (case usize_of offset of
        None \<Rightarrow> (contents, Err ENoSpace)
      | Some at \<Rightarrow>
          (let len = usize_or_max (length src) in
           case checked_add 32 at len of
             None \<Rightarrow> (contents, Err ENoSpace)
           | Some stop \<Rightarrow>
               (let bs = (if len = 0 then [] else take len src);
                    grown = (if length contents < stop then contents @ replicate (stop - length contents) 0 else contents)
                in (take at grown @ bs @ drop stop grown, Ok len))))"


section \<open>The provider\<close>

record open_file =
  of_data :: nat
  of_writable :: bool

type_synonym exec_snapshot = bytes

text \<open>\<open>with_state\<close> over an operation that only looks, and over one that changes the tree.\<close>

definition look :: "(mem_dir \<Rightarrow> ('a, fs_failure) result exec) \<Rightarrow> (memfs, 'a, fs_failure) proc" where
  "look f = (\<lambda>w. (case f (mf_root w) of
       None \<Rightarrow> Stop Panic
     | Some (Err e) \<Rightarrow> Stop (Fail e)
     | Some (Ok x) \<Rightarrow> Return x, w\<lparr>mf_state := Some (mf_root w)\<rparr>))"

definition change :: "(mem_dir \<Rightarrow> (mem_dir, fs_failure) result exec) \<Rightarrow> (memfs, unit, fs_failure) proc" where
  "change f = (\<lambda>w. case f (mf_root w) of
       None \<Rightarrow> (Stop Panic, w\<lparr>mf_state := Some (mf_root w)\<rparr>)
     | Some (Err e) \<Rightarrow> (Stop (Fail e), w\<lparr>mf_state := Some (mf_root w)\<rparr>)
     | Some (Ok d) \<Rightarrow> (Return (), w\<lparr>mf_state := Some d\<rparr>))"

definition mem_configure :: "(memfs, unit, fs_failure) proc" where
  "mem_configure = modify (\<lambda>w. w\<lparr>mf_state := Some []\<rparr>)"

definition new_data :: "(memfs, nat, fs_failure) proc" where
  "new_data = (\<lambda>w. (Return (length (mf_heap w)), w\<lparr>mf_heap := mf_heap w @ [[]]\<rparr>))"

definition open_data :: "bytes list \<Rightarrow> open_flags \<Rightarrow> (memfs, nat, fs_failure) proc" where
  "open_data segs options =
     io_bind (look (\<lambda>d. mem_lookup d segs)) (\<lambda>existing.
     case existing of
       Some (FileNode a) \<Rightarrow> ret a
     | Some (DirNode _) \<Rightarrow> fail EIsADirectory
     | None \<Rightarrow>
         if fl_create options then
           io_bind new_data (\<lambda>a.
           io_bind (change (\<lambda>d. parent_of d segs (bm_insert (last segs) (FileNode a)))) (\<lambda>_.
           ret a))
         else fail ENotFound)"

definition memfs_open :: "bytes \<Rightarrow> open_flags \<Rightarrow> (memfs, open_file, fs_failure) proc" where
  "memfs_open path options =
     (let segs = segments path in
      if segs = [] then fail EIsADirectory
      else
        io_bind (open_data segs options) (\<lambda>a.
        io_bind (if fl_truncate options then modify (\<lambda>w. w\<lparr>mf_heap := (mf_heap w)[a := []]\<rparr>) else ret ()) (\<lambda>_.
        ret \<lparr>of_data = a, of_writable = fl_write options\<rparr>)))"

definition memfs_open_exec :: "bytes \<Rightarrow> (memfs, exec_snapshot, fs_failure) proc" where
  "memfs_open_exec path =
     (let segs = segments path in
      if segs = [] then fail EIsADirectory
      else io_bind (look (\<lambda>d. file_data d segs)) (\<lambda>a. reads (\<lambda>w. mf_heap w ! a)))"

definition memfs_list :: "bytes \<Rightarrow> (memfs, bytes list, fs_failure) proc" where
  "memfs_list path =
     (let segs = segments path in
      look (\<lambda>root.
        if segs = [] then Some (Ok (bm_keys root))
        else do {
          r \<leftarrow> mem_lookup root segs;
          Some (and_then r (\<lambda>n. case n of
            Some (DirNode es) \<Rightarrow> Ok (bm_keys es)
          | Some (FileNode _) \<Rightarrow> Err ENotADirectory
          | None \<Rightarrow> Err ENotFound))
        }))"

definition memfs_stat :: "bytes \<Rightarrow> (memfs, fs_stat, fs_failure) proc" where
  "memfs_stat path =
     (let segs = segments path in
      if segs = [] then io_bind (look (\<lambda>_. Some (Ok ()))) (\<lambda>_. ret \<lparr>st_kind = KDirectory, st_size = 0\<rparr>)
      else
        io_bind (look (\<lambda>d. mem_lookup d segs)) (\<lambda>n.
        case n of
          Some (FileNode a) \<Rightarrow> reads (\<lambda>w. \<lparr>st_kind = KFile, st_size = length (mf_heap w ! a)\<rparr>)
        | Some (DirNode _) \<Rightarrow> ret \<lparr>st_kind = KDirectory, st_size = 0\<rparr>
        | None \<Rightarrow> fail ENotFound))"

definition memfs_create_directory :: "bytes \<Rightarrow> (memfs, unit, fs_failure) proc" where
  "memfs_create_directory path =
     (let segs = segments path in
      if segs = [] then fail EAlreadyExists
      else
        io_bind (look (\<lambda>d. mem_lookup d segs)) (\<lambda>n.
        if n \<noteq> None then fail EAlreadyExists
        else change (\<lambda>d. parent_of d segs (bm_insert (last segs) (DirNode [])))))"

definition memfs_remove :: "bytes \<Rightarrow> (memfs, unit, fs_failure) proc" where
  "memfs_remove path =
     (let segs = segments path in
      if segs = [] then fail (EIo ''cannot remove the root directory'')
      else
        io_bind (look (\<lambda>d. mem_lookup d segs)) (\<lambda>n.
        case n of
          None \<Rightarrow> fail ENotFound
        | Some node \<Rightarrow>
            if (case node of DirNode es \<Rightarrow> es \<noteq> [] | FileNode _ \<Rightarrow> False) then fail (EIo ''directory is not empty'')
            else change (\<lambda>d. parent_of d segs (bm_remove (last segs)))))"

definition memfs_read :: "open_file \<Rightarrow> nat \<Rightarrow> bytes \<Rightarrow> (memfs, transfer, fs_failure) proc" where
  "memfs_read f offset dst =
     reads (\<lambda>w. case mem_read_at (mf_heap w ! of_data f) offset dst of (dst', n) \<Rightarrow> (dst', Ok n))"

definition memfs_write :: "open_file \<Rightarrow> nat \<Rightarrow> bytes \<Rightarrow> (memfs, transfer, fs_failure) proc" where
  "memfs_write f offset src =
     (if \<not> of_writable f then ret (src, Err (EIo ''file is not open for writing''))
      else (\<lambda>w. case mem_write_at (mf_heap w ! of_data f) offset src of
              (contents, r) \<Rightarrow> (Return (src, r), w\<lparr>mf_heap := (mf_heap w)[of_data f := contents]\<rparr>)))"

definition memfs_exec_size :: "exec_snapshot \<Rightarrow> (memfs, nat, fs_failure) proc" where
  "memfs_exec_size h = ret (length h)"

definition memfs_exec_read :: "exec_snapshot \<Rightarrow> nat \<Rightarrow> bytes \<Rightarrow> (memfs, transfer, fs_failure) proc" where
  "memfs_exec_read h offset dst = ret (case mem_read_at h offset dst of (dst', n) \<Rightarrow> (dst', Ok n))"

definition memfs_ops :: "(memfs, open_file, exec_snapshot) fs_ops" where
  "memfs_ops = \<lparr>op_open = memfs_open, op_open_exec = memfs_open_exec, op_list = memfs_list, op_stat = memfs_stat,
     op_mkdir = memfs_create_directory, op_remove = memfs_remove, op_read = memfs_read, op_write = memfs_write,
     op_exec_size = memfs_exec_size, op_exec_read = memfs_exec_read\<rparr>"

lemmas memfs_defs = memfs_open_def memfs_open_exec_def memfs_list_def memfs_stat_def memfs_create_directory_def
  memfs_remove_def memfs_read_def memfs_write_def memfs_exec_size_def memfs_exec_read_def

text \<open>What is stored: an unconfigured provider holds the empty tree.\<close>

definition mf_content :: "memfs \<Rightarrow> mem_dir \<times> bytes list" where
  "mf_content w = (mf_root w, mf_heap w)"

lemma look_content [simp]: "mf_content (snd (look f w)) = mf_content w"
  by (simp add: look_def mf_content_def mf_root_def)

lemma look_snd: "snd (look f w) = w\<lparr>mf_state := Some (mf_root w)\<rparr>"
  by (simp add: look_def)

interpretation memfs: sealing_fs memfs_ops mf_content "\<lambda>f. \<not> of_writable f"
proof unfold_locales
  fix fl :: open_flags and p s
  assume "\<not> mutating fl"
  then show "mf_content (snd (op_open memfs_ops p fl s)) = mf_content s"
    by (auto simp: memfs_ops_def memfs_defs open_data_def mutating_def io_bind_def fail_def ret_def Let_def look_def
        mf_content_def mf_root_def split: prod.splits io.splits option.splits result.splits mem_node.splits)
qed (auto simp: memfs_ops_def memfs_defs open_data_def mutating_def io_bind_def fail_def ret_def reads_def Let_def look_def
        mf_content_def mf_root_def split: prod.splits io.splits option.splits result.splits mem_node.splits if_splits)

end
