(* ===== verification/Fs_Memfs_Spec.thy ===== *)
theory Fs_Memfs_Spec
  imports Fs_Memfs "HOL-Library.Sublist"
begin

text \<open>
  What \<open>fs.memfs\<close> is: a map from absolute paths to directories and inodes, and the contents of the
  inodes. Every history of a client has the same answers on the provider's tree of nested maps and on
  this flat map.
\<close>

section \<open>The flat filesystem\<close>

datatype entry = EFile nat | EDir

type_synonym paths = "bytes list \<Rightarrow> entry option"

record flat =
  ff_paths :: paths
  ff_heap :: "bytes list"

fun walk :: "paths \<Rightarrow> bytes list \<Rightarrow> (unit, fs_failure) result" where
  "walk M [] = Ok ()"
| "walk M (s # ss) =
     (case M [s] of
        Some EDir \<Rightarrow> walk (\<lambda>q. M (s # q)) ss
      | Some (EFile _) \<Rightarrow> Err ENotADirectory
      | None \<Rightarrow> Err ENotFound)"

definition flat_entry :: "bytes list \<Rightarrow> (flat, entry option, fs_failure) proc" where
  "flat_entry segs = (\<lambda>v. (case walk (ff_paths v) (butlast segs) of
       Err e \<Rightarrow> Stop (Fail e)
     | Ok _ \<Rightarrow> Return (ff_paths v segs), v))"

definition flat_put :: "bytes list \<Rightarrow> entry option \<Rightarrow> (flat, unit, fs_failure) proc" where
  "flat_put segs e = modify (\<lambda>v. v\<lparr>ff_paths := (ff_paths v)(segs := e)\<rparr>)"

definition flat_open :: "bytes \<Rightarrow> open_flags \<Rightarrow> (flat, open_file, fs_failure) proc" where
  "flat_open path options =
     (let segs = segments path in
      if segs = [] then fail EIsADirectory
      else
        io_bind (flat_entry segs) (\<lambda>e.
        io_bind (case e of
            Some (EFile a) \<Rightarrow> ret a
          | Some EDir \<Rightarrow> fail EIsADirectory
          | None \<Rightarrow>
              if fl_create options then (\<lambda>v. (Return (length (ff_heap v)),
                v\<lparr>ff_paths := (ff_paths v)(segs \<mapsto> EFile (length (ff_heap v))), ff_heap := ff_heap v @ [[]]\<rparr>))
              else fail ENotFound) (\<lambda>a.
        io_bind (if fl_truncate options then modify (\<lambda>v. v\<lparr>ff_heap := (ff_heap v)[a := []]\<rparr>) else ret ()) (\<lambda>_.
        ret \<lparr>of_data = a, of_writable = fl_write options\<rparr>))))"

definition flat_open_exec :: "bytes \<Rightarrow> (flat, exec_snapshot, fs_failure) proc" where
  "flat_open_exec path =
     (let segs = segments path in
      if segs = [] then fail EIsADirectory
      else
        io_bind (flat_entry segs) (\<lambda>e.
        case e of
          Some (EFile a) \<Rightarrow> reads (\<lambda>v. ff_heap v ! a)
        | Some EDir \<Rightarrow> fail EIsADirectory
        | None \<Rightarrow> fail ENotFound))"

definition names_in :: "paths \<Rightarrow> bytes list \<Rightarrow> bytes set" where
  "names_in M segs = {s. M (segs @ [s]) \<noteq> None}"

definition flat_list :: "bytes \<Rightarrow> (flat, bytes list, fs_failure) proc" where
  "flat_list path =
     (let segs = segments path in
      io_bind (if segs = [] then ret (Some EDir) else flat_entry segs) (\<lambda>e.
      case e of
        Some EDir \<Rightarrow> reads (\<lambda>v. sorted_list_of_set (names_in (ff_paths v) segs))
      | Some (EFile _) \<Rightarrow> fail ENotADirectory
      | None \<Rightarrow> fail ENotFound))"

definition flat_stat :: "bytes \<Rightarrow> (flat, fs_stat, fs_failure) proc" where
  "flat_stat path =
     (let segs = segments path in
      io_bind (if segs = [] then ret (Some EDir) else flat_entry segs) (\<lambda>e.
      case e of
        Some EDir \<Rightarrow> ret \<lparr>st_kind = KDirectory, st_size = 0\<rparr>
      | Some (EFile a) \<Rightarrow> reads (\<lambda>v. \<lparr>st_kind = KFile, st_size = length (ff_heap v ! a)\<rparr>)
      | None \<Rightarrow> fail ENotFound))"

definition flat_mkdir :: "bytes \<Rightarrow> (flat, unit, fs_failure) proc" where
  "flat_mkdir path =
     (let segs = segments path in
      if segs = [] then fail EAlreadyExists
      else io_bind (flat_entry segs) (\<lambda>e. if e \<noteq> None then fail EAlreadyExists else flat_put segs (Some EDir)))"

definition flat_remove :: "bytes \<Rightarrow> (flat, unit, fs_failure) proc" where
  "flat_remove path =
     (let segs = segments path in
      if segs = [] then fail (EIo ''cannot remove the root directory'')
      else
        io_bind (flat_entry segs) (\<lambda>e.
        if e = None then fail ENotFound
        else
          io_bind (reads (\<lambda>v. names_in (ff_paths v) segs)) (\<lambda>ns.
          if ns \<noteq> {} then fail (EIo ''directory is not empty'') else flat_put segs None)))"

definition flat_read :: "open_file \<Rightarrow> nat \<Rightarrow> bytes \<Rightarrow> (flat, transfer, fs_failure) proc" where
  "flat_read f offset dst =
     reads (\<lambda>v. case mem_read_at (ff_heap v ! of_data f) offset dst of (dst', n) \<Rightarrow> (dst', Ok n))"

definition flat_write :: "open_file \<Rightarrow> nat \<Rightarrow> bytes \<Rightarrow> (flat, transfer, fs_failure) proc" where
  "flat_write f offset src =
     (if \<not> of_writable f then ret (src, Err (EIo ''file is not open for writing''))
      else (\<lambda>v. case mem_write_at (ff_heap v ! of_data f) offset src of
              (contents, r) \<Rightarrow> (Return (src, r), v\<lparr>ff_heap := (ff_heap v)[of_data f := contents]\<rparr>)))"

definition flat_ops :: "(flat, open_file, exec_snapshot) fs_ops" where
  "flat_ops = \<lparr>op_open = flat_open, op_open_exec = flat_open_exec, op_list = flat_list, op_stat = flat_stat,
     op_mkdir = flat_mkdir, op_remove = flat_remove, op_read = flat_read, op_write = flat_write,
     op_exec_size = (\<lambda>h. ret (length h)),
     op_exec_read = (\<lambda>h offset dst. ret (case mem_read_at h offset dst of (dst', n) \<Rightarrow> (dst', Ok n)))\<rparr>"

lemmas flat_defs = flat_open_def flat_open_exec_def flat_list_def flat_stat_def flat_mkdir_def flat_remove_def
  flat_read_def flat_write_def


section \<open>The paths of a tree\<close>

fun kind_of :: "mem_node \<Rightarrow> entry" where
  "kind_of (FileNode a) = EFile a"
| "kind_of (DirNode _) = EDir"

fun node_at :: "mem_node \<Rightarrow> bytes list \<Rightarrow> mem_node option" where
  "node_at n [] = Some n"
| "node_at (FileNode _) (s # ss) = None"
| "node_at (DirNode es) (s # ss) = (case bm_get es s of None \<Rightarrow> None | Some n \<Rightarrow> node_at n ss)"

definition node_paths :: "mem_node \<Rightarrow> paths" where
  "node_paths n q = map_option kind_of (node_at n q)"

abbreviation paths_of :: "mem_dir \<Rightarrow> paths" where
  "paths_of d \<equiv> node_paths (DirNode d)"

lemma node_paths_simps [simp]:
  "node_paths n [] = Some (kind_of n)"
  "node_paths (FileNode a) (s # ss) = None"
  "paths_of d (s # ss) = (case bm_get d s of None \<Rightarrow> None | Some n \<Rightarrow> node_paths n ss)"
  by (auto simp: node_paths_def split: option.split)

lemma node_at_append: "node_at n (p @ q) = (case node_at n p of None \<Rightarrow> None | Some m \<Rightarrow> node_at m q)"
  by (induction n p rule: node_at.induct) (auto split: option.split)

lemma node_paths_below: "node_paths n p \<noteq> Some EDir \<Longrightarrow> q \<noteq> [] \<Longrightarrow> node_paths n (p @ q) = None"
proof (cases "node_at n p")
  case (Some m)
  assume "node_paths n p \<noteq> Some EDir" and "q \<noteq> []"
  with Some show ?thesis by (cases m; cases q) (auto simp: node_paths_def node_at_append)
qed (simp add: node_paths_def node_at_append)

lemma node_paths_shift: "bm_get d s = Some n \<Longrightarrow> (\<lambda>q. paths_of d (s # q)) = node_paths n"
  by (simp add: fun_eq_iff)

lemma dir_at_walk: "walk (paths_of d) ss = and_then (dir_at d ss) (\<lambda>_. Ok ())"
proof (induction d ss rule: dir_at.induct)
  case (2 d s ss)
  then show ?case by (auto simp: node_paths_shift split: option.split mem_node.split)
qed simp

lemma dir_at_node: "dir_at d ss = Ok es \<longleftrightarrow> node_at (DirNode d) ss = Some (DirNode es)"
  by (induction d ss rule: dir_at.induct) (auto split: option.splits mem_node.splits elim: node_at.elims)

lemma walk_Ok: "walk (paths_of d) ss = Ok u \<longleftrightarrow> (\<exists>es. dir_at d ss = Ok es)"
  by (auto simp: dir_at_walk and_then_Ok)

lemma edit_at_dir_at:
  "dir_at d ss = Err e \<Longrightarrow> edit_at d ss f = Err e"
  "dir_at d ss = Ok es \<Longrightarrow> \<exists>d'. edit_at d ss f = Ok d'"
  by (induction d ss f rule: edit_at.induct) (auto split: option.splits mem_node.splits)

lemma edit_at_paths:
  assumes "edit_at d ss f = Ok d'" and "dir_at d ss = Ok es"
  shows "paths_of d' q = (if prefix ss q then paths_of (f es) (drop (length ss) q) else paths_of d q)"
  using assms
proof (induction d ss f arbitrary: d' q rule: edit_at.induct)
  case (2 d s ss f)
  then obtain es1 es1' where es1: "bm_get d s = Some (DirNode es1)" "edit_at es1 ss f = Ok es1'"
    "d' = bm_insert s (DirNode es1') d" "dir_at es1 ss = Ok es"
    by (auto simp: and_then_Ok split: option.splits mem_node.splits)
  with 2(1) [OF es1(1) _ es1(2,4)] show ?case by (cases q) auto
qed simp

definition dirs_sorted :: "mem_dir \<Rightarrow> bool" where
  "dirs_sorted d \<longleftrightarrow> (\<forall>ss es. dir_at d ss = Ok es \<longrightarrow> bm_wf es)"

lemma dirs_sortedD: "dirs_sorted d \<Longrightarrow> dir_at d ss = Ok es \<Longrightarrow> bm_wf es"
  by (auto simp: dirs_sorted_def)

lemma dirs_sorted_sub: "dirs_sorted d \<Longrightarrow> bm_get d s = Some (DirNode es) \<Longrightarrow> dirs_sorted es"
  unfolding dirs_sorted_def by (metis (no_types, lifting) dir_at.simps(2) mem_node.simps(6) option.simps(5))

lemma dirs_sortedI:
  assumes "bm_wf d" and "\<And>s es. bm_get d s = Some (DirNode es) \<Longrightarrow> dirs_sorted es"
  shows "dirs_sorted d"
  unfolding dirs_sorted_def
proof (intro allI impI)
  fix ss es assume "dir_at d ss = Ok es"
  then show "bm_wf es" using assms
    by (cases ss) (auto split: option.splits mem_node.splits dest: dirs_sortedD)
qed

lemma dirs_sorted_root: "dirs_sorted d \<Longrightarrow> bm_wf d"
  using dirs_sortedD [of d "[]"] by simp

lemma dirs_sorted_insert:
  assumes "dirs_sorted d" and "\<And>es. n = DirNode es \<Longrightarrow> dirs_sorted es"
  shows "dirs_sorted (bm_insert s n d)"
proof (rule dirs_sortedI)
  show "bm_wf (bm_insert s n d)" using dirs_sorted_root [OF assms(1)] by blast
next
  fix t es assume "bm_get (bm_insert s n d) t = Some (DirNode es)"
  then show "dirs_sorted es" using assms(2) dirs_sorted_sub [OF assms(1)] by (auto split: if_splits)
qed

lemma dirs_sorted_edit:
  assumes "edit_at d ss f = Ok d'" and "dirs_sorted d"
    and "\<And>es. dirs_sorted es \<Longrightarrow> dirs_sorted (f es)"
  shows "dirs_sorted d'"
  using assms
proof (induction d ss f arbitrary: d' rule: edit_at.induct)
  case (2 d s ss f)
  then obtain es1 es1' where es1: "bm_get d s = Some (DirNode es1)" "edit_at es1 ss f = Ok es1'"
    "d' = bm_insert s (DirNode es1') d"
    by (auto simp: and_then_Ok split: option.splits mem_node.splits)
  have "dirs_sorted es1'" using 2(1) [OF es1(1) _ es1(2)] dirs_sorted_sub [OF 2(3) es1(1)] 2(4) by simp
  then show ?case using dirs_sorted_insert [OF 2(3), of "DirNode es1'" s] es1(3) by simp
qed simp

lemma dirs_sorted_empty [simp]: "dirs_sorted []"
  by (rule dirs_sortedI) auto

lemma dirs_sorted_remove:
  assumes "dirs_sorted d"
  shows "dirs_sorted (bm_remove s d)"
proof (rule dirs_sortedI)
  show "bm_wf (bm_remove s d)" using dirs_sorted_root [OF assms] by blast
next
  fix t es assume "bm_get (bm_remove s d) t = Some (DirNode es)"
  then show "dirs_sorted es" using dirs_sorted_sub [OF assms] by (auto split: if_splits)
qed


text \<open>A node with nothing below it, and changing one entry to or from such a node.\<close>

definition leaf :: "mem_node option \<Rightarrow> bool" where
  "leaf n \<longleftrightarrow> (\<forall>es. n \<noteq> Some (DirNode es)) \<or> n = Some (DirNode [])"

lemma leaf_below: "leaf n \<Longrightarrow> (case n of None \<Rightarrow> None | Some m \<Rightarrow> node_paths m q) = (if q = [] then map_option kind_of n else None)"
  by (cases q; cases n; cases "the n") (auto simp: leaf_def)

lemma lookup_node:
  assumes "segs \<noteq> []" and "dir_at d (butlast segs) = Ok es"
  shows "node_at (DirNode d) segs = bm_get es (last segs)"
  using node_at_append [of "DirNode d" "butlast segs" "[last segs]"] assms
  by (simp add: dir_at_node split: option.split)

lemma paths_split:
  assumes "dir_at d ps = Ok es"
  shows "paths_of d (ps @ r) = paths_of es r"
  using assms by (simp add: dir_at_node node_paths_def node_at_append)

lemma parent_of_put:
  assumes "segs \<noteq> []" and "dir_at d (butlast segs) = Ok es"
    and "\<And>es. bm_get (f es) = (bm_get es)(last segs := x)"
    and "leaf x" and "leaf (bm_get es (last segs))" and "dirs_sorted d"
    and "\<And>es. dirs_sorted es \<Longrightarrow> dirs_sorted (f es)"
  shows "\<exists>d'. parent_of d segs f = Some (Ok d') \<and> dirs_sorted d' \<and>
    paths_of d' = (paths_of d)(segs := map_option kind_of x)"
proof -
  obtain d' where d': "edit_at d (butlast segs) f = Ok d'" using edit_at_dir_at(2) [OF assms(2)] by blast
  have "paths_of d' q = ((paths_of d)(segs := map_option kind_of x)) q" for q
  proof (cases "prefix (butlast segs) q")
    case True
    then obtain r where q: "q = butlast segs @ r" by (auto simp: prefix_def)
    have "(segs = q) = (r = [last segs])"
      using assms(1) append_butlast_last_id [of segs] unfolding q by (metis append_same_eq same_append_eq)
    moreover have "paths_of (f es) r = (if r = [last segs] then map_option kind_of x else paths_of es r)"
    proof (cases r)
      case (Cons t r')
      then show ?thesis
        using leaf_below [OF assms(4), of r'] leaf_below [OF assms(5), of r'] assms(3)
        by (simp split: if_splits)
    qed simp
    ultimately show ?thesis
      using edit_at_paths [OF d' assms(2), of q] True paths_split [OF assms(2), of r] q by auto
  next
    case False
    then have "q \<noteq> segs" using assms(1) by (metis append_butlast_last_id prefixI)
    then show ?thesis using edit_at_paths [OF d' assms(2), of q] False by simp
  qed
  then show ?thesis
    using d' assms(1) dirs_sorted_edit [OF d' assms(6,7)] by (auto simp: parent_of_def fun_eq_iff)
qed

lemma parent_of_insert:
  assumes "segs \<noteq> []" and "dir_at d (butlast segs) = Ok es" and "bm_get es (last segs) = None"
    and "dirs_sorted d" and "leaf (Some n)"
  shows "\<exists>d'. parent_of d segs (bm_insert (last segs) n) = Some (Ok d') \<and> dirs_sorted d' \<and>
    paths_of d' = (paths_of d)(segs \<mapsto> kind_of n)"
proof -
  have "dirs_sorted (bm_insert (last segs) n es')" if "dirs_sorted es'" for es'
    using that assms(5) by (intro dirs_sorted_insert) (auto simp: leaf_def)
  then show ?thesis
    using parent_of_put [OF assms(1,2), of "bm_insert (last segs) n" "Some n"] assms by (simp add: leaf_def)
qed

lemma parent_of_remove:
  assumes "segs \<noteq> []" and "dir_at d (butlast segs) = Ok es" and "leaf (bm_get es (last segs))" and "dirs_sorted d"
  shows "\<exists>d'. parent_of d segs (bm_remove (last segs)) = Some (Ok d') \<and> dirs_sorted d' \<and>
    paths_of d' = (paths_of d)(segs := None)"
  using parent_of_put [OF assms(1,2), of "bm_remove (last segs)" None] assms dirs_sorted_remove by (simp add: leaf_def)

lemma keys_listing:
  assumes "dirs_sorted d" and "dir_at d ss = Ok es"
  shows "bm_keys es = sorted_list_of_set (names_in (paths_of d) ss)"
proof -
  have "names_in (paths_of d) ss = set (bm_keys es)"
    using paths_split [OF assms(2)] by (auto simp: names_in_def bm_keys_dom split: option.splits)
  moreover have "sorted (bm_keys es)" "distinct (bm_keys es)"
    using dirs_sortedD [OF assms] by (simp_all add: bm_wf_def bm_keys_def strict_sorted_iff)
  ultimately show ?thesis by (simp add: sorted_list_of_set.idem_if_sorted_distinct)
qed

lemma names_in_dir:
  assumes "dir_at d ss = Ok es"
  shows "names_in (paths_of d) ss = {} \<longleftrightarrow> es = []"
  using paths_split [OF assms] by (cases es) (auto simp: names_in_def split: option.splits)


section \<open>The simulation\<close>

definition mem_ok :: "memfs \<Rightarrow> bool" where
  "mem_ok w \<longleftrightarrow> dirs_sorted (mf_root w)"

definition flat_of :: "memfs \<Rightarrow> flat" where
  "flat_of w = \<lparr>ff_paths = paths_of (mf_root w), ff_heap = mf_heap w\<rparr>"

definition simulates :: "(memfs, 'a, fs_failure) proc \<Rightarrow> (flat, 'a, fs_failure) proc \<Rightarrow> bool" where
  "simulates m m' \<longleftrightarrow> (\<forall>w. mem_ok w \<longrightarrow> mem_ok (snd (m w)) \<and> m' (flat_of w) = map_prod id flat_of (m w))"

lemma simulatesI:
  "(\<And>w. mem_ok w \<Longrightarrow> mem_ok (snd (m w)) \<and> m' (flat_of w) = map_prod id flat_of (m w)) \<Longrightarrow> simulates m m'"
  by (simp add: simulates_def)


lemma lookup_cases:
  assumes "segs \<noteq> []"
  obtains (missing) e where "mem_lookup d segs = Some (Err e)" "walk (paths_of d) (butlast segs) = Err e"
  | (found) es where "dir_at d (butlast segs) = Ok es" "mem_lookup d segs = Some (Ok (bm_get es (last segs)))"
      "walk (paths_of d) (butlast segs) = Ok ()" "paths_of d segs = map_option kind_of (bm_get es (last segs))"
proof (cases "dir_at d (butlast segs)")
  case (Ok es)
  then show ?thesis
    using that(2) assms lookup_node [OF assms Ok] by (simp add: mem_lookup_def dir_at_walk node_paths_def)
next
  case (Err e)
  then show ?thesis using that(1) assms by (simp add: mem_lookup_def dir_at_walk)
qed

lemmas run_simps = io_bind_def ret_def fail_def reads_def modify_def look_def change_def flat_entry_def flat_put_def
  flat_of_def mem_ok_def mf_root_def [of "_\<lparr>mf_state := _\<rparr>"] new_data_def Let_def

lemma mf_root_set [simp]:
  "mf_root (w\<lparr>mf_state := Some d\<rparr>) = d" "mf_root (w\<lparr>mf_heap := h\<rparr>) = mf_root w"
  by (simp_all add: mf_root_def)

lemma simulates_mkdir: "simulates (memfs_create_directory path) (flat_mkdir path)"
proof (rule simulatesI)
  fix w assume w: "mem_ok w"
  define segs d where sd: "segs = segments path" "d = mf_root w"
  show "mem_ok (snd (memfs_create_directory path w)) \<and>
      flat_mkdir path (flat_of w) = map_prod id flat_of (memfs_create_directory path w)"
  proof (cases "segs = []")
    case False
    then show ?thesis
    proof (cases rule: lookup_cases [of segs d])
      case missing
      with False w sd show ?thesis by (simp add: memfs_create_directory_def flat_mkdir_def run_simps)
    next
      case (found es)
      show ?thesis
      proof (cases "bm_get es (last segs)")
        case None
        obtain d' where "parent_of d segs (bm_insert (last segs) (DirNode [])) = Some (Ok d')" "dirs_sorted d'"
          "paths_of d' = (paths_of d)(segs \<mapsto> EDir)"
          using parent_of_insert [OF False found(1) None, of "DirNode []"] w sd by (auto simp: mem_ok_def leaf_def)
        with found False w sd None show ?thesis
          by (simp add: memfs_create_directory_def flat_mkdir_def run_simps)
      next
        case (Some n)
        with found False w sd show ?thesis by (simp add: memfs_create_directory_def flat_mkdir_def run_simps)
      qed
    qed
  qed (use w sd in \<open>simp add: memfs_create_directory_def flat_mkdir_def run_simps\<close>)
qed

lemma simulates_remove: "simulates (memfs_remove path) (flat_remove path)"
proof (rule simulatesI)
  fix w assume w: "mem_ok w"
  define segs d where sd: "segs = segments path" "d = mf_root w"
  show "mem_ok (snd (memfs_remove path w)) \<and> flat_remove path (flat_of w) = map_prod id flat_of (memfs_remove path w)"
  proof (cases "segs = []")
    case False
    then show ?thesis
    proof (cases rule: lookup_cases [of segs d])
      case missing
      with False w sd show ?thesis by (simp add: memfs_remove_def flat_remove_def run_simps)
    next
      case (found es)
      show ?thesis
      proof (cases "bm_get es (last segs)")
        case None
        with found False w sd show ?thesis by (simp add: memfs_remove_def flat_remove_def run_simps)
      next
        case (Some n)
        have full: "names_in (paths_of d) segs = {} \<longleftrightarrow> leaf (Some n)"
        proof (cases n)
          case (FileNode a)
          have "node_paths (DirNode d) segs \<noteq> Some EDir" using found(4) Some FileNode by simp
          then have "names_in (paths_of d) segs = {}" by (auto simp: names_in_def node_paths_below)
          then show ?thesis using FileNode by (simp add: leaf_def)
        next
          case (DirNode es')
          have "dir_at d segs = Ok es'"
            using lookup_node [OF False found(1)] Some DirNode by (simp add: dir_at_node)
          then show ?thesis using names_in_dir DirNode by (auto simp: leaf_def)
        qed
        show ?thesis
        proof (cases "leaf (Some n)")
          case True
          obtain d' where "parent_of d segs (bm_remove (last segs)) = Some (Ok d')" "dirs_sorted d'"
            "paths_of d' = (paths_of d)(segs := None)"
            using parent_of_remove [OF False found(1)] True Some w sd by (auto simp: mem_ok_def)
          with found False w sd Some True full show ?thesis
            by (cases n) (auto simp: memfs_remove_def flat_remove_def run_simps leaf_def)
        next
          case False': False
          with found False w sd Some full show ?thesis
            by (cases n) (auto simp: memfs_remove_def flat_remove_def run_simps leaf_def)
        qed
      qed
    qed
  qed (use w sd in \<open>simp add: memfs_remove_def flat_remove_def run_simps\<close>)
qed

lemma simulates_open: "simulates (memfs_open path options) (flat_open path options)"
proof (rule simulatesI)
  fix w assume w: "mem_ok w"
  define segs d where sd: "segs = segments path" "d = mf_root w"
  show "mem_ok (snd (memfs_open path options w)) \<and>
      flat_open path options (flat_of w) = map_prod id flat_of (memfs_open path options w)"
  proof (cases "segs = []")
    case False
    then show ?thesis
    proof (cases rule: lookup_cases [of segs d])
      case missing
      with False w sd show ?thesis by (simp add: memfs_open_def open_data_def flat_open_def run_simps)
    next
      case (found es)
      show ?thesis
      proof (cases "bm_get es (last segs)")
        case None
        let ?n = "FileNode (length (mf_heap w))"
        obtain d' where "parent_of d segs (bm_insert (last segs) ?n) = Some (Ok d')" "dirs_sorted d'"
          "paths_of d' = (paths_of d)(segs \<mapsto> EFile (length (mf_heap w)))"
          using parent_of_insert [OF False found(1) None, of ?n] w sd by (auto simp: mem_ok_def leaf_def)
        with found False w sd None show ?thesis
          by (simp add: memfs_open_def open_data_def flat_open_def run_simps)
      next
        case (Some n)
        with found False w sd show ?thesis
          by (cases n) (simp_all add: memfs_open_def open_data_def flat_open_def run_simps)
      qed
    qed
  qed (use w sd in \<open>simp add: memfs_open_def flat_open_def run_simps\<close>)
qed


lemma simulates_open_exec: "simulates (memfs_open_exec path) (flat_open_exec path)"
proof (rule simulatesI)
  fix w assume w: "mem_ok w"
  define segs d where sd: "segs = segments path" "d = mf_root w"
  show "mem_ok (snd (memfs_open_exec path w)) \<and>
      flat_open_exec path (flat_of w) = map_prod id flat_of (memfs_open_exec path w)"
  proof (cases "segs = []")
    case False
    then show ?thesis
    proof (cases rule: lookup_cases [of segs d])
      case (found es)
      with False w sd show ?thesis
        by (cases "bm_get es (last segs)"; cases "the (bm_get es (last segs))")
          (simp_all add: memfs_open_exec_def file_data_def flat_open_exec_def run_simps)
    qed (use False w sd in \<open>simp_all add: memfs_open_exec_def file_data_def flat_open_exec_def run_simps\<close>)
  qed (use w sd in \<open>simp add: memfs_open_exec_def flat_open_exec_def run_simps\<close>)
qed

lemma simulates_stat: "simulates (memfs_stat path) (flat_stat path)"
proof (rule simulatesI)
  fix w assume w: "mem_ok w"
  define segs d where sd: "segs = segments path" "d = mf_root w"
  show "mem_ok (snd (memfs_stat path w)) \<and> flat_stat path (flat_of w) = map_prod id flat_of (memfs_stat path w)"
  proof (cases "segs = []")
    case False
    then show ?thesis
    proof (cases rule: lookup_cases [of segs d])
      case (found es)
      with False w sd show ?thesis
        by (cases "bm_get es (last segs)"; cases "the (bm_get es (last segs))")
          (simp_all add: memfs_stat_def flat_stat_def run_simps)
    qed (use False w sd in \<open>simp_all add: memfs_stat_def flat_stat_def run_simps\<close>)
  qed (use w sd in \<open>simp add: memfs_stat_def flat_stat_def run_simps\<close>)
qed

lemma simulates_list: "simulates (memfs_list path) (flat_list path)"
proof (rule simulatesI)
  fix w assume w: "mem_ok w"
  define segs d where sd: "segs = segments path" "d = mf_root w"
  have srt: "dirs_sorted d" using w sd by (simp add: mem_ok_def)
  show "mem_ok (snd (memfs_list path w)) \<and> flat_list path (flat_of w) = map_prod id flat_of (memfs_list path w)"
  proof (cases "segs = []")
    case True
    have "bm_keys d = sorted_list_of_set (names_in (paths_of d) [])" using keys_listing [OF srt, of "[]"] by simp
    with True w sd show ?thesis by (simp add: memfs_list_def flat_list_def run_simps)
  next
    case False
    then show ?thesis
    proof (cases rule: lookup_cases [of segs d])
      case (found es)
      show ?thesis
      proof (cases "\<exists>es'. bm_get es (last segs) = Some (DirNode es')")
        case True
        then obtain es' where es': "bm_get es (last segs) = Some (DirNode es')" by blast
        then have "dir_at d segs = Ok es'" using lookup_node [OF False found(1)] by (simp add: dir_at_node)
        then have "bm_keys es' = sorted_list_of_set (names_in (paths_of d) segs)" using keys_listing [OF srt] by blast
        with found False w sd es' show ?thesis by (simp add: memfs_list_def flat_list_def run_simps)
      next
        case no_dir: False
        with found False w sd show ?thesis
          by (cases "bm_get es (last segs)"; cases "the (bm_get es (last segs))")
            (auto simp: memfs_list_def flat_list_def run_simps)
      qed
    qed (use False w sd in \<open>simp_all add: memfs_list_def flat_list_def run_simps\<close>)
  qed
qed

lemma simulates_transfers:
  "simulates (memfs_read f off dst) (flat_read f off dst)"
  "simulates (memfs_write f off src) (flat_write f off src)"
  by (auto simp: simulates_def memfs_read_def flat_read_def memfs_write_def flat_write_def run_simps
      split: prod.split)

lemma simulates_execs:
  "simulates (memfs_exec_size h) (op_exec_size flat_ops h)"
  "simulates (memfs_exec_read h off dst) (op_exec_read flat_ops h off dst)"
  by (simp_all add: simulates_def flat_ops_def memfs_exec_size_def memfs_exec_read_def ret_def)

lemmas simulates_all = simulates_open simulates_open_exec simulates_list simulates_stat simulates_mkdir
  simulates_remove simulates_transfers simulates_execs

definition client_of :: "(memfs, 'f, 'h) client \<Rightarrow> (flat, 'f, 'h) client" where
  "client_of c = \<lparr>cl_fs = flat_of (cl_fs c), cl_files = cl_files c, cl_execs = cl_execs c\<rparr>"

definition in_step :: "(memfs, 'f, 'h) client \<Rightarrow> (flat, 'f, 'h) client \<Rightarrow> bool" where
  "in_step c d \<longleftrightarrow> mem_ok (cl_fs c) \<and> d = client_of c"

definition same_step :: "fs_answer \<times> (memfs, 'f, 'h) client \<Rightarrow> fs_answer \<times> (flat, 'f, 'h) client \<Rightarrow> bool" where
  "same_step r r' \<longleftrightarrow> fst r = fst r' \<and> in_step (snd r) (snd r')"

text \<open>Operation by operation, a provider over the tree does what one over the flat map does.\<close>

definition ops_simulate :: "(memfs, 'f, 'h) fs_ops \<Rightarrow> (flat, 'f, 'h) fs_ops \<Rightarrow> bool" where
  "ops_simulate U V \<longleftrightarrow>
     (\<forall>p fl. simulates (op_open U p fl) (op_open V p fl)) \<and> (\<forall>p. simulates (op_open_exec U p) (op_open_exec V p)) \<and>
     (\<forall>p. simulates (op_list U p) (op_list V p)) \<and> (\<forall>p. simulates (op_stat U p) (op_stat V p)) \<and>
     (\<forall>p. simulates (op_mkdir U p) (op_mkdir V p)) \<and> (\<forall>p. simulates (op_remove U p) (op_remove V p)) \<and>
     (\<forall>f off dst. simulates (op_read U f off dst) (op_read V f off dst)) \<and>
     (\<forall>f off src. simulates (op_write U f off src) (op_write V f off src)) \<and>
     (\<forall>h. simulates (op_exec_size U h) (op_exec_size V h)) \<and>
     (\<forall>h off dst. simulates (op_exec_read U h off dst) (op_exec_read V h off dst))"

lemma memfs_simulates: "ops_simulate memfs_ops flat_ops"
  using simulates_all by (simp add: ops_simulate_def memfs_ops_def flat_ops_def)

lemma settle_simulates:
  assumes "simulates m m'" and "mem_ok (cl_fs c)"
    and "\<And>x c. mem_ok (cl_fs c) \<Longrightarrow> same_step (g x c) (g' x (client_of c))"
  shows "same_step (settle g c (m (cl_fs c))) (settle g' (client_of c) (m' (flat_of (cl_fs c))))"
proof -
  obtain r w where r: "m (cl_fs c) = (r, w)" by fastforce
  have ok: "mem_ok w" "m' (flat_of (cl_fs c)) = (r, flat_of w)" using assms(1,2) r by (auto simp: simulates_def)
  have "client_of c\<lparr>cl_fs := flat_of w\<rparr> = client_of (c\<lparr>cl_fs := w\<rparr>)" by (simp add: client_of_def)
  then show ?thesis
    using r ok assms(3) [of "c\<lparr>cl_fs := w\<rparr>"] by (cases r) (auto simp: in_step_def same_step_def)
qed

lemma same_step_keep:
  "mem_ok (cl_fs c) \<Longrightarrow> same_step (keep_file f c) (keep_file f (client_of c))"
  "mem_ok (cl_fs c) \<Longrightarrow> same_step (keep_exec h c) (keep_exec h (client_of c))"
  "mem_ok (cl_fs c) \<Longrightarrow> same_step (a, c) (a, client_of c)"
  by (simp_all add: same_step_def in_step_def keep_file_def keep_exec_def client_of_def)

lemma step_simulates:
  assumes "ops_simulate U V" and "in_step c d"
  shows "same_step (fs_step U k c) (fs_step V k d)"
proof -
  have ok: "mem_ok (cl_fs c)" and d: "d = client_of c" using assms(2) by (simp_all add: in_step_def)
  have fields: "cl_fs (client_of c) = flat_of (cl_fs c)" "cl_files (client_of c) = cl_files c"
    "cl_execs (client_of c) = cl_execs c"
    by (simp_all add: client_of_def)
  note settle = settle_simulates [OF _ ok, unfolded fields]
  show ?thesis
    unfolding d using assms(1) [unfolded ops_simulate_def] ok
    by (cases k) (auto simp: fields with_handle_def intro!: settle same_step_keep)
qed

lemma run_simulates:
  assumes "ops_simulate U V" and "mem_ok w"
  shows "fst (fs_run U ks (fresh_client w)) = fst (fs_run V ks (fresh_client (flat_of w)))"
    and "mem_ok (cl_fs (snd (fs_run U ks (fresh_client w))))"
    and "snd (fs_run V ks (fresh_client (flat_of w))) = client_of (snd (fs_run U ks (fresh_client w)))"
proof -
  have "in_step (fresh_client w) (fresh_client (flat_of w))"
    using assms(2) by (simp add: in_step_def client_of_def fresh_client_def)
  from fs_run_related [of in_step U V, OF _ this, of ks]
  have "fst (fs_run U ks (fresh_client w)) = fst (fs_run V ks (fresh_client (flat_of w))) \<and>
      in_step (snd (fs_run U ks (fresh_client w))) (snd (fs_run V ks (fresh_client (flat_of w))))"
    using step_simulates [OF assms(1)] by (auto simp: same_step_def)
  then show "fst (fs_run U ks (fresh_client w)) = fst (fs_run V ks (fresh_client (flat_of w)))"
    and "mem_ok (cl_fs (snd (fs_run U ks (fresh_client w))))"
    and "snd (fs_run V ks (fresh_client (flat_of w))) = client_of (snd (fs_run U ks (fresh_client w)))"
    by (simp_all add: in_step_def)
qed


section \<open>The provider is the flat filesystem\<close>

definition memfs_blank :: memfs where
  "memfs_blank = \<lparr>mf_state = None, mf_heap = []\<rparr>"

definition flat_blank :: flat where
  "flat_blank = \<lparr>ff_paths = [[] \<mapsto> EDir], ff_heap = []\<rparr>"

lemma blank_in_step: "mem_ok memfs_blank" "flat_of memfs_blank = flat_blank"
proof -
  have "paths_of [] = [[] \<mapsto> EDir]"
  proof
    fix q show "paths_of [] q = [[] \<mapsto> EDir] q" by (cases q) auto
  qed
  then show "flat_of memfs_blank = flat_blank"
    by (simp add: flat_of_def memfs_blank_def flat_blank_def mf_root_def)
qed (simp add: mem_ok_def memfs_blank_def mf_root_def)

text \<open>No operation panics.\<close>

definition never_panics :: "('s, 'a, 'e) proc \<Rightarrow> bool" where
  "never_panics m \<longleftrightarrow> (\<forall>s. fst (m s) \<noteq> Stop Panic)"

lemma never_panics_intros:
  "never_panics (ret x)" "never_panics (fail e)" "never_panics (reads f)" "never_panics (modify g)"
  "never_panics m \<Longrightarrow> (\<And>x. never_panics (k x)) \<Longrightarrow> never_panics (io_bind m k)"
  "never_panics (flat_entry segs)" "never_panics (flat_put segs en)"
  "never_panics (\<lambda>v. (Return (p v), u v))"
  by (auto simp: never_panics_def io_defs flat_entry_def flat_put_def split: prod.splits io.splits result.splits)
    (metis fst_conv)

lemma flat_never_panics:
  "never_panics (op_open flat_ops p fl)" "never_panics (op_open_exec flat_ops p)" "never_panics (op_list flat_ops p)"
  "never_panics (op_stat flat_ops p)" "never_panics (op_mkdir flat_ops p)" "never_panics (op_remove flat_ops p)"
  "never_panics (op_read flat_ops f off dst)" "never_panics (op_write flat_ops f off dst)"
  "never_panics (op_exec_size flat_ops h)" "never_panics (op_exec_read flat_ops h off dst)"
  by (auto simp: flat_ops_def flat_defs Let_def case_prod_beta split: option.split entry.split if_split
      intro!: never_panics_intros)

lemma settle_not_trapped:
  assumes "fst r \<noteq> Stop Panic" and "\<And>x c. fst (g x c) \<noteq> Trapped"
  shows "fst (settle g c r) \<noteq> Trapped"
  using assms by (cases r; cases "fst r"; cases "case fst r of Stop k \<Rightarrow> k | _ \<Rightarrow> Dropped") auto

lemma run_not_trapped:
  assumes "\<And>k c. fst (fs_step U k c) \<noteq> Trapped"
  shows "Trapped \<notin> set (fst (fs_run U ks c))"
proof (induction ks arbitrary: c)
  case (Cons k ks)
  show ?case using Cons.IH [of "snd (fs_step U k c)"] assms [of k c] by (auto simp: case_prod_beta)
qed simp

lemma settle_never_panics:
  "never_panics m \<Longrightarrow> (\<And>x c. fst (g x c) \<noteq> Trapped) \<Longrightarrow> fst (settle g c (m s)) \<noteq> Trapped"
  by (rule settle_not_trapped) (simp_all add: never_panics_def)

lemma flat_not_trapped: "fst (fs_step flat_ops k c) \<noteq> Trapped"
  by (cases k; simp add: with_handle_def; intro impI settle_never_panics flat_never_panics) simp_all


end
