(* ===== verification/Fs_Paths.thy ===== *)
theory Fs_Paths
  imports Fs_Views Fs_Memfs_Spec
begin

text \<open>
  Paths as the middleware writes them and as the provider under it reads them: a normalized path is the
  one writing of its segments, every reader finds those segments in it, and the policy's test on strings
  is the prefix order on segments.
\<close>

definition render :: "bytes list \<Rightarrow> bytes" where
  "render ss = [0x2F] @ join_slash ss"

lemma normalize_segs_proper:
  assumes "normalize_segs acc segs = Some ss" and "list_all proper acc" and "\<forall>seg \<in> set segs. 0x2F \<notin> set seg"
  shows "list_all proper ss"
  using assms
proof (induction acc segs rule: normalize_segs.induct)
  case (2 acc seg segs)
  have "list_all proper (butlast acc)" using 2(5) by (auto simp: list_all_iff dest: in_set_butlastD)
  with 2 proper_def [of seg] show ?case by (auto split: if_splits)
qed simp

lemma normalize_segs_id: "list_all proper ss \<Longrightarrow> normalize_segs acc ss = Some (acc @ ss)"
  by (induction ss arbitrary: acc) (auto simp: proper_def)

lemma seg_steps_id: "list_all proper ss \<Longrightarrow> foldl seg_step acc ss = acc @ ss"
  by (induction ss arbitrary: acc) (auto simp: proper_def seg_step_def)

lemma split_render:
  "list_all proper ss \<Longrightarrow> split_slash (render ss) = [] # (if ss = [] then [[]] else ss)"
  by (auto simp: render_def list_all_iff proper_def intro!: split_join)

lemma normalize_render: "list_all proper ss \<Longrightarrow> normalize (render ss) = Some (render ss)"
  unfolding normalize_def
  by (cases "ss = []") (simp_all add: split_render normalize_segs_id, simp_all add: render_def)

lemma segments_render: "list_all proper ss \<Longrightarrow> segments (render ss) = ss"
  by (auto simp: segments_def split_render seg_steps_id) (simp_all add: seg_step_def seg_steps_id)

lemma normalize_Some:
  assumes "normalize p = Some n"
  obtains ss where "normalize_segs [] (split_slash p) = Some ss" "list_all proper ss" "n = render ss" "segments n = ss"
    "normalize n = Some n"
proof -
  obtain ss where ss: "normalize_segs [] (split_slash p) = Some ss" "n = render ss"
    using assms by (auto simp: normalize_def render_def split: option.splits)
  then have "list_all proper ss" using normalize_segs_proper split_slash_segments by fastforce
  with ss that segments_render normalize_render show ?thesis by simp
qed

lemma subtree_normalize_eq: "subtree_normalize = normalize"
  by (simp add: fun_eq_iff subtree_normalize_def normalize_def)

lemma join_slash_append: "xs \<noteq> [] \<Longrightarrow> ys \<noteq> [] \<Longrightarrow> join_slash (xs @ ys) = join_slash xs @ 0x2F # join_slash ys"
  by (induction xs rule: join_slash.induct) (cases ys; simp)+

lemma split_slash_join_append:
  "xs \<noteq> [] \<Longrightarrow> \<forall>seg \<in> set xs. 0x2F \<notin> set seg \<Longrightarrow> split_slash (join_slash xs @ 0x2F # p) = xs @ split_slash p"
  by (induction xs rule: join_slash.induct) (simp_all add: split_slash_seg)

lemma join_slash_Nil: "list_all proper ss \<Longrightarrow> join_slash ss = [] \<longleftrightarrow> ss = []"
  by (cases ss rule: join_slash.cases) (auto simp: proper_def)

text \<open>The test on strings is the prefix order on segments.\<close>

theorem under_prefix:
  assumes "list_all proper ss" and "list_all proper ps"
  shows "under (render ss) (render ps) \<longleftrightarrow> prefix ps ss"
proof (cases "ps = []")
  case False
  have seg: "\<forall>seg \<in> set ss. 0x2F \<notin> set seg" "\<forall>seg \<in> set ps. 0x2F \<notin> set seg"
    using assms by (auto simp: list_all_iff proper_def)
  have ne: "join_slash ps \<noteq> []" using join_slash_Nil [OF assms(2)] False by simp
  have strip: "strip_prefix (render ps) (render ss) = Some rest \<longleftrightarrow> join_slash ss = join_slash ps @ rest" for rest
    by (auto simp: strip_prefix_def starts_with_def render_def)
      (metis append_take_drop_id)
  show ?thesis
  proof
    assume "under (render ss) (render ps)"
    then consider "join_slash ss = join_slash ps" | rest where "join_slash ss = join_slash ps @ 0x2F # rest"
      using ne strip by (auto simp: under_def render_def starts_with_def split: option.splits)
        (metis append_Cons append_Nil append_take_drop_id)
    then show "prefix ps ss"
    proof cases
      case 1
      then have "ss = ps"
        using False ne seg split_join by (metis join_slash.simps(1))
      then show ?thesis by simp
    next
      case 2
      then have "ss \<noteq> []" by auto
      then have "ss = ps @ split_slash rest"
        using 2 split_join [OF _ seg(1)] split_slash_join_append [OF False seg(2)] by simp
      then show ?thesis by (metis prefixI)
    qed
  next
    assume "prefix ps ss"
    then obtain r where r: "ss = ps @ r" by (auto simp: prefix_def)
    show "under (render ss) (render ps)"
    proof (cases "r = []")
      case True
      then show ?thesis using r by (simp add: under_def)
    next
      case r_ne: False
      then have "strip_prefix (render ps) (render ss) = Some (0x2F # join_slash r)"
        using join_slash_append [OF False] r strip by simp
      then show ?thesis by (simp add: under_def starts_with_def)
    qed
  qed
qed (simp add: under_def render_def)

text \<open>What a configured rule admits, in terms of segments.\<close>

lemma subtree_configured:
  assumes "subtree_configure pre access r0 = (rule, Ok u)"
  obtains ps where "list_all proper ps" "rule = Some (render ps, access)" "normalize_segs [] (split_slash pre) = Some ps"
proof -
  from assms obtain n where n: "normalize pre = Some n" "rule = Some (n, access)"
    by (auto simp: subtree_configure_def subtree_normalize_eq split: option.splits)
  with that normalize_Some [OF n(1)] show ?thesis by metis
qed

lemma gate_subtree:
  assumes "gate (subtree_check (Some (render ps, access))) path oper = Ok p" and "list_all proper ps"
  shows "\<exists>ss. p = render ss \<and> segments p = ss \<and> prefix ps ss \<and> (access = ReadsOnly \<longrightarrow> oper = OpReading)"
proof -
  note g = gate_Ok [OF assms(1)]
  obtain ss where ss: "list_all proper ss" "p = render ss" "segments p = ss" "normalize p = Some p"
    using normalize_Some [OF g(1)] by blast
  have "under p (render ps)" "access = ReadsOnly \<longrightarrow> oper = OpReading"
    using g(2) ss(4) by (auto simp: subtree_check_def subtree_normalize_eq split: if_splits subtree_access.splits fs_operation.splits)
  then show ?thesis using under_prefix [OF ss(1) assms(2)] ss by auto
qed

end
