(* ===== verification/Fs_Views_Props.thy ===== *)
theory Fs_Views_Props
  imports Fs_Paths
begin

text \<open>
  What the filesystem middleware guarantees, for every client and every history of calls: the read-only
  view changes nothing, a filtered view passes on only what the policy approved, a program confined to a
  subtree of \<open>fs.memfs\<close> neither changes nor sees anything outside it, and an overlay does not touch its
  upper layer.
\<close>

section \<open>The read-only view\<close>

lemma settle_fs: "(\<And>x d. cl_fs (snd (g x d)) = cl_fs d) \<Longrightarrow> cl_fs (snd (settle g c r)) = snd r"
  by (rule settle_state)

text \<open>What a call may do to the state, from what each operation may do.\<close>

lemma step_content:
  assumes "\<And>p fl. k = CallOpen p fl \<Longrightarrow> content (snd (op_open U p fl (cl_fs c))) = content (cl_fs c)"
    and "\<And>p. content (snd (op_open_exec U p (cl_fs c))) = content (cl_fs c)"
    and "\<And>p. content (snd (op_list U p (cl_fs c))) = content (cl_fs c)"
    and "\<And>p. content (snd (op_stat U p (cl_fs c))) = content (cl_fs c)"
    and "\<And>p. content (snd (op_mkdir U p (cl_fs c))) = content (cl_fs c)"
    and "\<And>p. content (snd (op_remove U p (cl_fs c))) = content (cl_fs c)"
    and "\<And>f off dst. content (snd (op_read U f off dst (cl_fs c))) = content (cl_fs c)"
    and "\<And>f off src. f \<in> set (cl_files c) \<Longrightarrow> content (snd (op_write U f off src (cl_fs c))) = content (cl_fs c)"
    and "\<And>h. content (snd (op_exec_size U h (cl_fs c))) = content (cl_fs c)"
    and "\<And>h off dst. content (snd (op_exec_read U h off dst (cl_fs c))) = content (cl_fs c)"
  shows "content (cl_fs (snd (fs_step U k c))) = content (cl_fs c)"
  using assms by (cases k) (simp_all add: with_handle_def settle_fs)

context reading_fs
begin

lemma readonly_ops_keep:
  "content (snd (op_open (readonly_ops U) p fl s)) = content s"
  "content (snd (op_open_exec (readonly_ops U) p s)) = content s"
  "content (snd (op_list (readonly_ops U) p s)) = content s"
  "content (snd (op_stat (readonly_ops U) p s)) = content s"
  "content (snd (op_mkdir (readonly_ops U) p s)) = content s"
  "content (snd (op_remove (readonly_ops U) p s)) = content s"
  "content (snd (op_read (readonly_ops U) f off dst s)) = content s"
  "content (snd (op_write (readonly_ops U) f off dst s)) = content s"
  "content (snd (op_exec_size (readonly_ops U) h s)) = content s"
  "content (snd (op_exec_read (readonly_ops U) h off dst s)) = content s"
  by (simp_all add: readonly_ops_def readonly_defs open_keeps open_exec_keeps list_keeps stat_keeps read_keeps
      exec_size_keeps exec_read_keeps ret_def fail_def)

lemma readonly_step_keeps: "content (cl_fs (snd (fs_step (readonly_ops U) k c))) = content (cl_fs c)"
  by (rule step_content) (simp_all add: readonly_ops_keep)

lemma readonly_run_keeps: "content (cl_fs (snd (fs_run (readonly_ops U) ks c))) = content (cl_fs c)"
  using fs_run_invariant [of "\<lambda>d. content (cl_fs d) = content (cl_fs c)" "readonly_ops U" c ks]
  by (simp add: readonly_step_keeps)

text \<open>A read-only view is a provider whose files cannot make a change, whatever is under it.\<close>

lemma readonly_sealing: "sealing_fs (readonly_ops U) content (\<lambda>_. True)"
  by unfold_locales (simp_all add: readonly_ops_keep)

end

interpretation readonly_memfs: sealing_fs "readonly_ops memfs_ops" mf_content "\<lambda>_. True"
  by (rule memfs.readonly_sealing)

text \<open>Calls that ask for no change.\<close>

fun only_reads :: "fs_call \<Rightarrow> bool" where
  "only_reads (CallOpen p fl) \<longleftrightarrow> \<not> mutating fl"
| "only_reads (CallMkdir p) \<longleftrightarrow> False"
| "only_reads (CallRemove p) \<longleftrightarrow> False"
| "only_reads (CallWrite i off src) \<longleftrightarrow> False"
| "only_reads _ \<longleftrightarrow> True"

definition wraps :: "('s, 'f, 'h) client \<Rightarrow> ('s, 'f readonly_file, 'h readonly_exec) client \<Rightarrow> bool" where
  "wraps c d \<longleftrightarrow> cl_fs d = cl_fs c \<and> cl_files d = map ReadonlyFile (cl_files c) \<and>
     cl_execs d = map ReadonlyExec (cl_execs c)"

lemma settle_wraps:
  assumes "wraps c d" and "\<And>x c d. wraps c d \<Longrightarrow> fst (g x c) = fst (g' (j x) d) \<and> wraps (snd (g x c)) (snd (g' (j x) d))"
  shows "fst (settle g c r) = fst (settle g' d (map_prod (\<lambda>q. case q of Return x \<Rightarrow> Return (j x) | Stop k \<Rightarrow> Stop k) id r)) \<and>
    wraps (snd (settle g c r)) (snd (settle g' d (map_prod (\<lambda>q. case q of Return x \<Rightarrow> Return (j x) | Stop k \<Rightarrow> Stop k) id r)))"
  using assms(1) assms(2) [of "c\<lparr>cl_fs := snd r\<rparr>" "d\<lparr>cl_fs := snd r\<rparr>"]
  by (cases r; cases "fst r") (auto simp: wraps_def)

lemma map_value_map_prod:
  "map_value j m s = map_prod (\<lambda>q. case q of Return x \<Rightarrow> Return (j x) | Stop k \<Rightarrow> Stop k) id (m s)"
  by (auto simp: map_value_def io_bind_def ret_def split: prod.split io.split)

lemma wraps_keep:
  "wraps c d \<Longrightarrow> wraps (snd (keep_file f c)) (snd (keep_file (ReadonlyFile f) d))"
  "wraps c d \<Longrightarrow> wraps (snd (keep_exec h c)) (snd (keep_exec (ReadonlyExec h) d))"
  by (simp_all add: wraps_def)

lemma map_prod_id_io: "map_prod (\<lambda>q. case q of Return x \<Rightarrow> Return x | Stop k \<Rightarrow> Stop k) id r = (r :: ('a, 'e) io \<times> 's)"
  by (cases r; cases "fst r") auto

lemma readonly_step_same:
  assumes "wraps c d" and "only_reads k"
  shows "fst (fs_step U k c) = fst (fs_step (readonly_ops U) k d) \<and>
    wraps (snd (fs_step U k c)) (snd (fs_step (readonly_ops U) k d))"
proof -
  have st: "cl_fs d = cl_fs c" "length (cl_files d) = length (cl_files c)" "length (cl_execs d) = length (cl_execs c)"
    "\<And>i. i < length (cl_files c) \<Longrightarrow> cl_files d ! i = ReadonlyFile (cl_files c ! i)"
    "\<And>i. i < length (cl_execs c) \<Longrightarrow> cl_execs d ! i = ReadonlyExec (cl_execs c ! i)"
    using assms(1) by (simp_all add: wraps_def)
  note fileh = settle_wraps [OF assms(1), of keep_file keep_file ReadonlyFile]
  note exech = settle_wraps [OF assms(1), of keep_exec keep_exec ReadonlyExec]
  note same = settle_wraps [OF assms(1), of _ _ "\<lambda>x. x", unfolded map_prod_id_io]
  show ?thesis
    using assms(2)
    by (cases k)
      (auto simp: readonly_ops_def readonly_defs st with_handle_def map_value_map_prod [of ReadonlyFile]
        map_value_map_prod [of ReadonlyExec] assms(1) intro!: fileh exech same wraps_keep)
qed


lemma readonly_run_same:
  assumes "wraps c d" and "list_all only_reads ks"
  shows "fst (fs_run U ks c) = fst (fs_run (readonly_ops U) ks d)"
  using assms
proof (induction ks arbitrary: c d)
  case (Cons k ks)
  then have st: "fst (fs_step U k c) = fst (fs_step (readonly_ops U) k d)"
    "wraps (snd (fs_step U k c)) (snd (fs_step (readonly_ops U) k d))"
    using readonly_step_same [of c d k U] by simp_all
  with Cons show ?case by (auto simp: case_prod_beta)
qed simp

text \<open>
  C39: the read-only view is read-only and otherwise transparent. Over any provider whose reading
  operations change nothing, no history of calls through \<open>fs.readonly\<close> changes what is stored, whatever
  calls it makes and wherever one is dropped; and a history that only asks to read gets the answers it
  would get from the provider itself.
\<close>

theorem readonly_view:
  assumes "reading_fs U content"
  shows "content (cl_fs (snd (fs_run (readonly_ops U) ks (fresh_client s)))) = content s \<and>
    (list_all only_reads ks \<longrightarrow>
       fst (fs_run (readonly_ops U) ks (fresh_client s)) = fst (fs_run U ks (fresh_client s)))"
proof -
  have "wraps (fresh_client s) (fresh_client s)" by (simp add: wraps_def fresh_client_def)
  from readonly_run_same [OF this, of ks U] reading_fs.readonly_run_keeps [OF assms, of ks "fresh_client s"]
  show ?thesis by (simp add: fresh_client_def)
qed

theorem readonly_view_witness:
  "mf_content (cl_fs (snd (fs_run (readonly_ops memfs_ops) [CallMkdir [0x61], CallList [0x2F]] (fresh_client memfs_blank)))) =
     ([], [])"
  using readonly_view [OF memfs.reading_fs_axioms, of "[CallMkdir [0x61], CallList [0x2F]]" memfs_blank]
  by (simp add: mf_content_def memfs_blank_def mf_root_def)



section \<open>The overlay\<close>

text \<open>Over two providers that seal what they open for reading, the overlay is one as well.\<close>

fun overlay_sealed :: "('f \<Rightarrow> bool) \<Rightarrow> ('g \<Rightarrow> bool) \<Rightarrow> ('f, 'g) overlay_handle \<Rightarrow> bool" where
  "overlay_sealed P Q (Upper f) \<longleftrightarrow> P f"
| "overlay_sealed P Q (Lower g) \<longleftrightarrow> Q g"

lemma fall_through_state:
  assumes "A (snd (up u)) = A u" and "B (snd (low l)) = B l"
  shows "A (fst (snd (fall_through up f low g (u, l)))) = A u" "B (snd (snd (fall_through up f low g (u, l)))) = B l"
proof -
  obtain r u' where up: "up u = (r, u')" by fastforce
  then have "A u' = A u" using assms(1) by simp
  then show "A (fst (snd (fall_through up f low g (u, l)))) = A u" "B (snd (snd (fall_through up f low g (u, l)))) = B l"
    using up assms(2)
    by (cases r; auto simp: fall_through_def io_bind_def ret_def fail_def catch_def on_upper_def
        split: stop.splits fs_failure.splits)+
qed

lemma fall_through_Return:
  assumes "fall_through up f low g (u, l) = (Return y, s')"
  obtains x u' where "up u = (Return x, u')" "y = f x" | x l' where "low l = (Return x, l')" "y = g x"
proof -
  obtain r u' where up: "up u = (r, u')" by fastforce
  show ?thesis
  proof (cases r)
    case (Return x)
    then show ?thesis using assms that(1) up by (auto simp: fall_through_def io_bind_def ret_def catch_def on_upper_def)
  next
    case (Stop k)
    then show ?thesis
      using assms that(2) up
      by (cases "low l"; cases k)
        (auto simp: fall_through_def io_bind_def ret_def fail_def catch_def on_upper_def on_lower_def map_value_Return
          split: fs_failure.splits)
  qed
qed

lemma overlay_list_state:
  assumes "A (snd (op_list U p (fst s))) = A (fst s)" and "B (snd (op_list L p (snd s))) = B (snd s)"
  shows "A (fst (snd (overlay_list U L p s))) = A (fst s)" "B (snd (snd (overlay_list U L p s))) = B (snd s)"
proof -
  obtain u l where s: "s = (u, l)" by fastforce
  obtain r u' where up: "op_list U p u = (r, u')" by fastforce
  obtain q l' where low: "op_list L p l = (q, l')" by fastforce
  have "A u' = A u" "B l' = B l" using assms s up low by simp_all
  then show "A (fst (snd (overlay_list U L p s))) = A (fst s)" "B (snd (snd (overlay_list U L p s))) = B (snd s)"
    by (auto simp: overlay_list_def s io_bind_def ret_def fail_def catch_def on_upper_def on_lower_def up low
        split: io.split stop.split)
qed

text \<open>What an overlay keeps of its upper layer, whatever the lower one is.\<close>

context sealing_fs
begin

definition upper_client :: "'c \<Rightarrow> ('s \<times> 't, ('f, 'g) overlay_handle, ('h, 'k) overlay_handle) client \<Rightarrow> bool" where
  "upper_client x c \<longleftrightarrow> content (fst (cl_fs c)) = x \<and> (\<forall>f. Upper f \<in> set (cl_files c) \<longrightarrow> sealed f)"

lemma upper_settle:
  assumes "upper_client x c" and "content (fst (snd r)) = content (fst (cl_fs c))"
    and "\<And>y d. cl_fs (snd (g y d)) = cl_fs d \<and> cl_files (snd (g y d)) = cl_files d"
  shows "upper_client x (snd (settle g c r))"
  using assms by (cases r; cases "fst r") (auto simp: upper_client_def)

lemma upper_fall_through:
  "(\<And>s. content (snd (up s)) = content s) \<Longrightarrow> content (fst (snd (fall_through up f low g s))) = content (fst s)"
  using fall_through_state(1) [of content up "fst s" "\<lambda>_. ()" low "snd s" f g] by simp

lemma overlay_open_upper:
  assumes "overlay_open U L p fl s = (r, s')"
  shows "content (fst s') = content (fst s)" "r = Return (Upper f) \<Longrightarrow> sealed f"
proof -
  obtain u l where s: "s = (u, l)" by fastforce
  show "content (fst s') = content (fst s)"
  proof (cases "mutating fl")
    case False
    then show ?thesis
      using upper_fall_through [of "op_open U p fl" Upper "op_open L p fl" Lower s] open_keeps [OF False] assms
      by (simp add: overlay_open_def is_write_def)
  next
    case True
    have e: "map_value Lower (on_lower (op_open L p fl)) s = (r, s')" using True assms by (simp add: overlay_open_def is_write_def)
    have "(fst s, snd (op_open L p fl (snd s))) = s'" using arg_cong [OF e, of snd] by simp
    then show ?thesis by auto
  qed
  show "sealed f" if "r = Return (Upper f)"
  proof (cases "mutating fl")
    case False
    with assms that s show ?thesis
      by (auto simp: overlay_open_def is_write_def elim!: fall_through_Return intro: open_seals [OF False])
  qed (use assms that in \<open>auto simp: overlay_open_def is_write_def map_value_Return\<close>)
qed

lemma overlay_step_upper:
  assumes c: "upper_client x c"
  shows "upper_client x (snd (fs_step (overlay_ops U L) k c))"
proof (cases k)
  case (CallOpen p fl)
  then show ?thesis
    using c overlay_open_upper [of L p fl "cl_fs c"]
    by (cases "overlay_open U L p fl (cl_fs c)"; cases "fst (overlay_open U L p fl (cl_fs c))")
      (auto simp: overlay_ops_def upper_client_def)
next
  case (CallWrite i off src)
  have "content (fst (snd (overlay_write U L (cl_files c ! i) off src (cl_fs c)))) = content (fst (cl_fs c))"
    if "i < length (cl_files c)"
    using c nth_mem [OF that] by (cases "cl_files c ! i") (auto simp: overlay_write_def upper_client_def sealed_write)
  with CallWrite c show ?thesis
    by (auto simp: overlay_ops_def with_handle_def intro!: upper_settle)
next
  case (CallList p)
  have "content (fst (snd (overlay_list U L p (cl_fs c)))) = content (fst (cl_fs c))"
    using overlay_list_state(1) [of content U p "cl_fs c" "\<lambda>_. ()" L] list_keeps by simp
  with CallList c show ?thesis by (auto simp: overlay_ops_def intro!: upper_settle)
next
  case (CallRead i off dst)
  have "content (fst (snd (overlay_read U L f off dst (cl_fs c)))) = content (fst (cl_fs c))" for f
    by (cases f) (simp_all add: overlay_read_def read_keeps)
  with CallRead c show ?thesis by (auto simp: overlay_ops_def with_handle_def intro!: upper_settle)
next
  case (CallExecSize i)
  have "content (fst (snd (overlay_exec_size U L h (cl_fs c)))) = content (fst (cl_fs c))" for h
    by (cases h) (simp_all add: overlay_exec_size_def exec_size_keeps)
  with CallExecSize c show ?thesis by (auto simp: overlay_ops_def with_handle_def intro!: upper_settle)
next
  case (CallExecRead i off dst)
  have "content (fst (snd (overlay_exec_read U L h off dst (cl_fs c)))) = content (fst (cl_fs c))" for h
    by (cases h) (simp_all add: overlay_exec_read_def exec_read_keeps)
  with CallExecRead c show ?thesis by (auto simp: overlay_ops_def with_handle_def intro!: upper_settle)
qed (use c in \<open>auto simp: overlay_ops_def overlay_open_exec_def overlay_stat_def overlay_create_directory_def
    overlay_remove_def intro!: upper_settle upper_fall_through open_exec_keeps stat_keeps\<close>)

end

text \<open>
  C40: an overlay never changes its upper layer. Over an upper provider that changes nothing unless asked
  and seals what it opens for reading (as \<open>fs.memfs\<close> does, and any read-only view), and any lower
  provider, which may fail, be dropped or trap at any call: no history of calls, through files that
  either layer opened, changes what the upper layer holds.
\<close>

theorem overlay_upper_untouched:
  assumes "sealing_fs U content sealed"
  shows "content (fst (cl_fs (snd (fs_run (overlay_ops U L) ks (fresh_client s))))) = content (fst s)"
proof -
  have "sealing_fs.upper_client content sealed (content (fst s)) (snd (fs_run (overlay_ops U L) ks (fresh_client s)))"
    by (rule fs_run_invariant [where I = "sealing_fs.upper_client content sealed (content (fst s))",
        OF sealing_fs.overlay_step_upper [OF assms]])
      (simp_all add: sealing_fs.upper_client_def [OF assms] fresh_client_def)
  then show ?thesis by (simp add: sealing_fs.upper_client_def [OF assms])
qed

theorem overlay_upper_untouched_witness:
  "mf_content (fst (cl_fs (snd (fs_run (overlay_ops memfs_ops memfs_ops)
     [CallMkdir [0x61], CallStat [0x61], CallRemove [0x61]] (fresh_client (memfs_blank, memfs_blank)))))) = ([], [])"
  using overlay_upper_untouched [OF memfs.sealing_fs_axioms, of memfs_ops "[CallMkdir [0x61], CallStat [0x61], CallRemove [0x61]]"
      "(memfs_blank, memfs_blank)"]
  by (simp add: mf_content_def memfs_blank_def mf_root_def)

text \<open>
  A listing does not honour the shadowing that the other reads do: where the upper layer has a file and
  the lower one a directory of the same name, \<open>stat\<close> answers the file and \<open>list-directory\<close> the names in
  the directory that the file should hide.
\<close>

theorem overlay_lists_what_is_hidden:
  defines "up \<equiv> \<lparr>mf_state = Some [([0x61], FileNode 0)], mf_heap = [[]]\<rparr>"
    and "low \<equiv> \<lparr>mf_state = Some [([0x61], DirNode [([0x62], DirNode [])])], mf_heap = []\<rparr>"
  shows "overlay_stat memfs_ops memfs_ops [0x61] (up, low) = (Return \<lparr>st_kind = KFile, st_size = 0\<rparr>, up, low)"
    and "overlay_list memfs_ops memfs_ops [0x61] (up, low) = (Return [[0x62]], up, low)"
  by (simp_all add: up_def low_def overlay_stat_def overlay_list_def fall_through_def memfs_ops_def memfs_stat_def
      memfs_list_def segments_def seg_step_def look_def mem_lookup_def mf_root_def io_bind_def catch_def on_upper_def
      on_lower_def ret_def reads_def bm_keys_def Let_def)

end
