(* ===== verification/Fs_Confine.thy ===== *)
theory Fs_Confine
  imports Fs_Views_Props
begin

text \<open>
  A program confined to a subtree: \<open>fs.policy-subtree $ fs.filtered\<close> over \<open>fs.memfs\<close>. The stack of the three
  providers behaves like the filter over the flat filesystem; there, whatever the program calls, nothing
  outside the subtree changes, and nothing outside it has an influence on an answer.
\<close>

section \<open>The filter over the flat filesystem\<close>

lemma simulates_ret: "simulates (ret x) (ret x)"
  by (simp add: simulates_def ret_def)

lemma simulates_bind:
  "simulates m m' \<Longrightarrow> (\<And>x. simulates (k x) (k' x)) \<Longrightarrow> simulates (io_bind m k) (io_bind m' k')"
  by (fastforce simp: simulates_def io_bind_def split: prod.split io.split)

lemma simulates_or_fail: "simulates (or_fail f r) (or_fail f r)"
  by (simp add: simulates_def or_fail_def ret_def fail_def split: result.split)

lemma simulates_gated: "(\<And>p. simulates (k p) (k' p)) \<Longrightarrow> simulates (gated check path oper k) (gated check path oper k')"
  unfolding gated_def by (rule simulates_bind [OF simulates_or_fail]) simp

lemma simulates_map_value: "simulates m m' \<Longrightarrow> simulates (map_value g m) (map_value g m')"
  unfolding map_value_def by (rule simulates_bind) (simp_all add: simulates_ret)

lemma filtered_simulates:
  assumes "ops_simulate U V"
  shows "ops_simulate (filtered_ops check U) (filtered_ops check V)"
  using assms unfolding ops_simulate_def filtered_ops_def filtered_defs
  by (auto intro!: simulates_map_value simulates_gated)


section \<open>Inodes\<close>

definition inodes_ok :: "flat \<Rightarrow> bool" where
  "inodes_ok v \<longleftrightarrow> (\<forall>p a. ff_paths v p = Some (EFile a) \<longrightarrow> a < length (ff_heap v)) \<and>
     (\<forall>p q a. ff_paths v p = Some (EFile a) \<longrightarrow> ff_paths v q = Some (EFile a) \<longrightarrow> p = q)"

lemma inodes_ok_put:
  assumes "inodes_ok v"
  shows "inodes_ok (v\<lparr>ff_paths := (ff_paths v)(ss \<mapsto> EDir)\<rparr>)" "inodes_ok (v\<lparr>ff_paths := (ff_paths v)(ss := None)\<rparr>)"
    "inodes_ok (v\<lparr>ff_paths := (ff_paths v)(ss \<mapsto> EFile (length (ff_heap v))), ff_heap := ff_heap v @ [[]]\<rparr>)"
    "inodes_ok (v\<lparr>ff_heap := (ff_heap v)[a := x]\<rparr>)"
  using assms by (auto simp: inodes_ok_def less_Suc_eq split: if_splits)

definition always_flat :: "(flat \<Rightarrow> bool) \<Rightarrow> (flat, 'a, 'e) proc \<Rightarrow> bool" where
  "always_flat I m \<longleftrightarrow> (\<forall>v. I v \<longrightarrow> I (snd (m v)))"

lemma always_flatD: "always_flat I m \<Longrightarrow> I v \<Longrightarrow> I (snd (m v))"
  by (simp add: always_flat_def)

lemma always_flat_intros:
  "always_flat I (ret x)" "always_flat I (fail e)" "always_flat I (reads f)" "always_flat I (flat_entry ss)"
  "(\<And>v. I v \<Longrightarrow> I (g v)) \<Longrightarrow> always_flat I (modify g)"
  "(\<And>v. I v \<Longrightarrow> I (u v)) \<Longrightarrow> always_flat I (\<lambda>v. (Return (y v), u v))"
  "always_flat I m \<Longrightarrow> (\<And>x. always_flat I (k x)) \<Longrightarrow> always_flat I (io_bind m k)"
  by (fastforce simp: always_flat_def io_defs flat_entry_def split: prod.split io.split result.split)+

lemma flat_inodes:
  "always_flat inodes_ok (op_open flat_ops p fl)" "always_flat inodes_ok (op_open_exec flat_ops p)" "always_flat inodes_ok (op_list flat_ops p)"
  "always_flat inodes_ok (op_stat flat_ops p)" "always_flat inodes_ok (op_mkdir flat_ops p)" "always_flat inodes_ok (op_remove flat_ops p)"
  "always_flat inodes_ok (op_read flat_ops f off dst)" "always_flat inodes_ok (op_write flat_ops f off dst)"
  "always_flat inodes_ok (op_exec_size flat_ops h)" "always_flat inodes_ok (op_exec_read flat_ops h off dst)"
  by (auto simp: flat_ops_def flat_defs flat_put_def Let_def case_prod_beta split: option.split entry.split if_split
      intro!: always_flat_intros inodes_ok_put)

lemma flat_step_inodes: "inodes_ok (cl_fs c) \<Longrightarrow> inodes_ok (cl_fs (snd (fs_step flat_ops k c)))"
  by (cases k) (simp_all add: with_handle_def settle_fs flat_inodes always_flatD)

lemma flat_run_inodes: "inodes_ok (cl_fs (snd (fs_run flat_ops ks (fresh_client flat_blank))))"
  by (rule fs_run_invariant [of "\<lambda>c. inodes_ok (cl_fs c)"])
    (simp_all add: flat_step_inodes fresh_client_def, simp add: inodes_ok_def flat_blank_def)

text \<open>What a program left in the RAM filesystem, started from nothing.\<close>

definition after :: "fs_call list \<Rightarrow> memfs" where
  "after ks = cl_fs (snd (fs_run memfs_ops ks (fresh_client memfs_blank)))"

lemma after_ok: "mem_ok (after ks)" "inodes_ok (flat_of (after ks))"
  using run_simulates(2,3) [OF memfs_simulates blank_in_step(1), of ks] flat_run_inodes [of ks]
  by (simp_all add: after_def blank_in_step(2) client_of_def)



section \<open>Nothing outside changes\<close>

definition outside :: "bytes list \<Rightarrow> flat \<Rightarrow> nat set" where
  "outside ps v = {a. \<exists>q. \<not> prefix ps q \<and> ff_paths v q = Some (EFile a)}"

definition kept :: "bytes list \<Rightarrow> flat \<Rightarrow> flat \<Rightarrow> open_file list \<Rightarrow> bool" where
  "kept ps v0 v fs \<longleftrightarrow>
     (\<forall>q. \<not> prefix ps q \<longrightarrow> ff_paths v q = ff_paths v0 q) \<and>
     length (ff_heap v0) \<le> length (ff_heap v) \<and>
     (\<forall>a \<in> outside ps v0. a < length (ff_heap v0) \<and> ff_heap v ! a = ff_heap v0 ! a) \<and>
     (\<forall>f \<in> set fs. of_data f \<notin> outside ps v0) \<and>
     (\<forall>q a. prefix ps q \<longrightarrow> ff_paths v q = Some (EFile a) \<longrightarrow> a \<notin> outside ps v0)"

lemma kept_start: "inodes_ok v \<Longrightarrow> kept ps v v []"
  by (fastforce simp: kept_def outside_def inodes_ok_def)

text \<open>What the filter lets through: calls on paths in the subtree, and transfers on open files.\<close>

lemma kept_new:
  assumes "kept ps v0 v fs" and "prefix ps ss"
  shows "kept ps v0 (v\<lparr>ff_paths := (ff_paths v)(ss \<mapsto> EFile (length (ff_heap v))), ff_heap := ff_heap v @ [[]]\<rparr>) fs"
    and "length (ff_heap v) \<notin> outside ps v0"
proof -
  show out: "length (ff_heap v) \<notin> outside ps v0" using assms(1) by (fastforce simp: kept_def)
  have "\<forall>a \<in> outside ps v0. a < length (ff_heap v)" using assms(1) by (fastforce simp: kept_def)
  then show "kept ps v0 (v\<lparr>ff_paths := (ff_paths v)(ss \<mapsto> EFile (length (ff_heap v))), ff_heap := ff_heap v @ [[]]\<rparr>) fs"
    using assms out by (auto simp: kept_def nth_append)
qed

lemma kept_set: "kept ps v0 v fs \<Longrightarrow> a \<notin> outside ps v0 \<Longrightarrow> kept ps v0 (v\<lparr>ff_heap := (ff_heap v)[a := x]\<rparr>) fs"
  by (auto simp: kept_def) (metis nth_list_update_neq)

lemma kept_file: "kept ps v0 v fs \<Longrightarrow> prefix ps ss \<Longrightarrow> ff_paths v ss = Some (EFile a) \<Longrightarrow> a \<notin> outside ps v0"
  by (auto simp: kept_def)

lemma kept_add: "kept ps v0 v fs \<Longrightarrow> of_data f \<notin> outside ps v0 \<Longrightarrow> kept ps v0 v (fs @ [f])"
  by (auto simp: kept_def)

lemma kept_open:
  assumes "kept ps v0 v fs" and "prefix ps (segments p)"
  shows "case flat_open p fl v of (Return f, v') \<Rightarrow> kept ps v0 v' (fs @ [f]) | (Stop k, v') \<Rightarrow> kept ps v0 v' fs"
proof -
  note new = kept_new [OF assms] and linked = kept_file [OF assms] and set = kept_set [OF assms(1)]
  show ?thesis
    using assms(1) kept_set [OF new(1)] new
    by (auto simp: flat_open_def flat_entry_def io_bind_def ret_def fail_def modify_def Let_def linked
        intro!: kept_add set split: result.split option.split entry.split)
qed

lemma kept_mkdir: "kept ps v0 v fs \<Longrightarrow> prefix ps (segments p) \<Longrightarrow> kept ps v0 (snd (flat_mkdir p v)) fs"
  by (auto simp: flat_mkdir_def flat_entry_def flat_put_def io_bind_def fail_def modify_def Let_def kept_def
      split: result.splits if_splits)

lemma kept_remove: "kept ps v0 v fs \<Longrightarrow> prefix ps (segments p) \<Longrightarrow> kept ps v0 (snd (flat_remove p v)) fs"
  by (auto simp: flat_remove_def flat_entry_def flat_put_def io_bind_def fail_def modify_def reads_def Let_def kept_def
      split: result.splits if_splits)

lemma kept_write: "kept ps v0 v fs \<Longrightarrow> f \<in> set fs \<Longrightarrow> kept ps v0 (snd (flat_write f off src v)) fs"
  by (auto simp: flat_write_def ret_def split: prod.split intro!: kept_set) (simp add: kept_def)

lemma flat_lookers:
  "snd (flat_open_exec p v) = v" "snd (flat_list p v) = v" "snd (flat_stat p v) = v" "snd (flat_read f off dst v) = v"
  by (auto simp: flat_defs flat_entry_def io_bind_def ret_def fail_def reads_def Let_def
      split: result.split option.split entry.split)

abbreviation "subtree_filter ps access \<equiv> filtered_ops (subtree_check (Some (render ps, access)))"

lemma gated_subtree:
  assumes "list_all proper ps"
  shows "(\<exists>e. gated (subtree_check (Some (render ps, access))) path oper k s = (Stop (Fail e), s)) \<or>
    (\<exists>p. gated (subtree_check (Some (render ps, access))) path oper k s = k p s \<and> prefix ps (segments p) \<and>
       (access = ReadsOnly \<longrightarrow> oper = OpReading))"
  by (rule gated_cases [of "subtree_check (Some (render ps, access))" path oper k s])
    (auto dest!: gate_subtree [OF _ assms])

lemma flat_sel [simp]:
  "op_open flat_ops = flat_open" "op_open_exec flat_ops = flat_open_exec" "op_list flat_ops = flat_list"
  "op_stat flat_ops = flat_stat" "op_mkdir flat_ops = flat_mkdir" "op_remove flat_ops = flat_remove"
  "op_read flat_ops = flat_read" "op_write flat_ops = flat_write"
  "op_exec_size flat_ops h = ret (length h)"
  "op_exec_read flat_ops h off dst = ret (case mem_read_at h off dst of (dst', n) \<Rightarrow> (dst', Ok n))"
  by (simp_all add: flat_ops_def)

lemma filtered_sel [simp]:
  "op_open (filtered_ops check U) = filtered_open check U" "op_open_exec (filtered_ops check U) = filtered_open_exec check U"
  "op_list (filtered_ops check U) = filtered_list check U" "op_stat (filtered_ops check U) = filtered_stat check U"
  "op_mkdir (filtered_ops check U) = filtered_create_directory check U"
  "op_remove (filtered_ops check U) = filtered_remove check U" "op_read (filtered_ops check U) = filtered_read U"
  "op_write (filtered_ops check U) = filtered_write U" "op_exec_size (filtered_ops check U) = filtered_exec_size U"
  "op_exec_read (filtered_ops check U) = filtered_exec_read U"
  by (simp_all add: filtered_ops_def)

definition client_kept :: "bytes list \<Rightarrow> flat \<Rightarrow> (flat, open_file filtered_file, 'h) client \<Rightarrow> bool" where
  "client_kept ps v0 c \<longleftrightarrow> kept ps v0 (cl_fs c) (map fi_file (cl_files c))"

lemma client_kept_settle:
  assumes "client_kept ps v0 c" and "\<And>x d. cl_fs (snd (g x d)) = cl_fs d \<and> cl_files (snd (g x d)) = cl_files d"
    and "kept ps v0 (snd r) (map fi_file (cl_files c))"
  shows "client_kept ps v0 (snd (settle g c r))"
  using assms by (cases r; cases "fst r") (auto simp: client_kept_def)

lemma client_kept_look:
  "client_kept ps v0 c \<Longrightarrow> (\<And>x d. cl_fs (snd (g x d)) = cl_fs d \<and> cl_files (snd (g x d)) = cl_files d) \<Longrightarrow> snd r = cl_fs c \<Longrightarrow>
    client_kept ps v0 (snd (settle g c r))"
  by (rule client_kept_settle) (simp_all add: client_kept_def)

lemma gated_look: "(\<And>p. snd (k p s) = s) \<Longrightarrow> snd (gated check path oper k s) = s"
  by (rule gated_cases [of check path oper k s]) simp_all

lemma filtered_step_kept:
  assumes ck: "client_kept ps v0 c" and ps: "list_all proper ps"
  shows "client_kept ps v0 (snd (fs_step (subtree_filter ps access flat_ops) k c))"
proof (cases k)
  case (CallOpen path fl)
  let ?g = "gated (subtree_check (Some (render ps, access))) path (open_operation fl) (\<lambda>p. flat_open p fl)"
  have kc: "kept ps v0 (cl_fs c) (map fi_file (cl_files c))" using ck by (simp add: client_kept_def)
  have "case ?g (cl_fs c) of (Return f, v') \<Rightarrow> kept ps v0 v' (map fi_file (cl_files c) @ [f])
      | (Stop j, v') \<Rightarrow> kept ps v0 v' (map fi_file (cl_files c))"
    using gated_subtree [OF ps, of access path "open_operation fl" "\<lambda>p. flat_open p fl" "cl_fs c"]
  proof (elim disjE exE conjE)
    fix p assume g: "?g (cl_fs c) = flat_open p fl (cl_fs c)" and p: "prefix ps (segments p)"
    show ?thesis unfolding g by (rule kept_open [OF kc p])
  qed (use kc in auto)
  then show ?thesis
    by (cases "?g (cl_fs c)"; cases "fst (?g (cl_fs c))")
      (auto simp: CallOpen filtered_open_def map_value_def io_bind_def ret_def client_kept_def)
next
  case (CallMkdir path)
  have kc: "kept ps v0 (cl_fs c) (map fi_file (cl_files c))" using ck by (simp add: client_kept_def)
  have "kept ps v0 (snd (gated (subtree_check (Some (render ps, access))) path OpWriting flat_mkdir (cl_fs c)))
      (map fi_file (cl_files c))"
    using gated_subtree [OF ps, of access path OpWriting flat_mkdir "cl_fs c"] kc kept_mkdir [OF kc] by auto
  then show ?thesis
    by (simp add: CallMkdir filtered_create_directory_def client_kept_settle [OF ck])
next
  case (CallRemove path)
  have kc: "kept ps v0 (cl_fs c) (map fi_file (cl_files c))" using ck by (simp add: client_kept_def)
  have "kept ps v0 (snd (gated (subtree_check (Some (render ps, access))) path OpWriting flat_remove (cl_fs c)))
      (map fi_file (cl_files c))"
    using gated_subtree [OF ps, of access path OpWriting flat_remove "cl_fs c"] kc kept_remove [OF kc] by auto
  then show ?thesis
    by (simp add: CallRemove filtered_remove_def client_kept_settle [OF ck])
next
  case (CallWrite i off src)
  have kc: "kept ps v0 (cl_fs c) (map fi_file (cl_files c))" using ck by (simp add: client_kept_def)
  show ?thesis
    using kept_write [OF kc] ck
    by (auto simp: CallWrite with_handle_def filtered_write_def client_kept_settle)
qed (simp_all add: with_handle_def filtered_defs client_kept_look ck gated_look flat_lookers ret_def)



section \<open>Nothing outside is seen\<close>

definition inside :: "bytes list \<Rightarrow> flat \<Rightarrow> nat set" where
  "inside ps v = {a. \<exists>q. prefix ps q \<and> ff_paths v q = Some (EFile a)}"

text \<open>Two filesystems that agree on the subtree, on how it is reached, and on the files held open in it.\<close>

definition alike :: "bytes list \<Rightarrow> flat \<Rightarrow> flat \<Rightarrow> open_file list \<Rightarrow> bool" where
  "alike ps v w fs \<longleftrightarrow>
     (\<forall>q. prefix ps q \<longrightarrow> ff_paths v q = ff_paths w q) \<and>
     walk (ff_paths v) (butlast ps) = walk (ff_paths w) (butlast ps) \<and>
     length (ff_heap v) = length (ff_heap w) \<and>
     (\<forall>a \<in> inside ps v \<union> of_data ` set fs. ff_heap v ! a = ff_heap w ! a)"

lemma walk_local: "(\<And>q. prefix q xs \<Longrightarrow> q \<noteq> [] \<Longrightarrow> M q = M' q) \<Longrightarrow> walk M xs = walk M' xs"
proof (induction M xs arbitrary: M' rule: walk.induct)
  case (2 M s ss)
  have "M [s] = M' [s]" using 2(2) by simp
  moreover have "walk (\<lambda>q. M (s # q)) ss = walk (\<lambda>q. M' (s # q)) ss" if "M [s] = Some EDir"
    using 2(1) [OF that refl, of "\<lambda>q. M' (s # q)"] 2(2) by simp
  ultimately show ?case by (auto split: option.split entry.split)
qed simp

lemma walk_append: "walk M (xs @ ys) = and_then (walk M xs) (\<lambda>_. walk (\<lambda>q. M (xs @ q)) ys)"
  by (induction M xs rule: walk.induct) (auto split: option.split entry.split)

lemma walk_into:
  assumes "walk M (butlast ps) = walk M' (butlast ps)" and "\<And>q. prefix ps q \<Longrightarrow> M q = M' q" and "prefix ps ss"
  shows "walk M (butlast ss) = walk M' (butlast ss)"
proof (cases "ss = ps")
  case False
  then obtain r where ss: "ss = ps @ r" "r \<noteq> []" using assms(3) by (auto simp: prefix_def)
  have "walk M ps = walk M' ps"
  proof (cases ps rule: rev_cases)
    case (snoc qs s)
    then show ?thesis using assms(1) assms(2) [of ps] by (simp add: walk_append split: option.split entry.split)
  qed simp
  moreover have "walk (\<lambda>q. M (ps @ q)) xs = walk (\<lambda>q. M' (ps @ q)) xs" for xs
    by (rule walk_local) (simp add: assms(2))
  ultimately show ?thesis using ss by (simp add: butlast_append walk_append)
qed (simp add: assms(1))

lemma walk_past:
  assumes "prefix ps ss"
  shows "walk (M(ss := x)) (butlast ps) = walk M (butlast ps)"
proof (rule walk_local)
  fix q assume "prefix q (butlast ps)" "q \<noteq> []"
  then have "length q < length ps" by (cases ps rule: rev_cases) (auto dest: prefix_length_le)
  then have "q \<noteq> ss" using prefix_length_le [OF assms] by auto
  then show "(M(ss := x)) q = M q" by simp
qed

lemma alike_entry:
  assumes "alike ps v w fs" and "prefix ps ss"
  shows "walk (ff_paths v) (butlast ss) = walk (ff_paths w) (butlast ss)" "ff_paths v ss = ff_paths w ss"
    "names_in (ff_paths v) ss = names_in (ff_paths w) ss"
  using assms walk_into [of "ff_paths v" ps "ff_paths w" ss]
  by (auto simp: alike_def names_in_def prefix_prefix)

lemma alike_file: "alike ps v w fs \<Longrightarrow> prefix ps ss \<Longrightarrow> ff_paths w ss = Some (EFile a) \<Longrightarrow> ff_heap v ! a = ff_heap w ! a"
  unfolding alike_def inside_def by (metis (mono_tags, lifting) UnI1 mem_Collect_eq)

lemma alike_put:
  assumes "alike ps v w fs" and "prefix ps ss" and "\<And>a. x \<noteq> Some (EFile a)"
  shows "alike ps (v\<lparr>ff_paths := (ff_paths v)(ss := x)\<rparr>) (w\<lparr>ff_paths := (ff_paths w)(ss := x)\<rparr>) fs"
  using assms walk_past [OF assms(2)] by (auto simp: alike_def inside_def split: if_splits)

lemma alike_new:
  assumes "alike ps v w fs" and "prefix ps ss" and "n = length (ff_heap w)"
  shows "alike ps (v\<lparr>ff_paths := (ff_paths v)(ss \<mapsto> EFile n), ff_heap := ff_heap v @ [[]]\<rparr>)
    (w\<lparr>ff_paths := (ff_paths w)(ss \<mapsto> EFile n), ff_heap := ff_heap w @ [[]]\<rparr>) fs"
  using assms walk_past [OF assms(2)] by (auto simp: alike_def inside_def nth_append split: if_splits)

lemma alike_set:
  assumes "alike ps v w fs"
  shows "alike ps (v\<lparr>ff_heap := (ff_heap v)[a := x]\<rparr>) (w\<lparr>ff_heap := (ff_heap w)[a := x]\<rparr>) fs"
proof -
  have "(ff_heap v)[a := x] ! b = (ff_heap w)[a := x] ! b" if "ff_heap v ! b = ff_heap w ! b" for b
    using that assms by (cases "a = b"; cases "a < length (ff_heap v)") (auto simp: alike_def list_update_beyond)
  with assms show ?thesis by (auto simp: alike_def inside_def)
qed

lemma alike_hold: "alike ps v w fs \<Longrightarrow> ff_heap v ! of_data f = ff_heap w ! of_data f \<Longrightarrow> alike ps v w (fs @ [f])"
  by (auto simp: alike_def)


text \<open>An operation that answers the same on both and always_flat them alike.\<close>

definition blind :: "bytes list \<Rightarrow> open_file list \<Rightarrow> (flat, 'a, fs_failure) proc \<Rightarrow> bool" where
  "blind ps fs m \<longleftrightarrow>
     (\<forall>v w. alike ps v w fs \<longrightarrow> fst (m v) = fst (m w) \<and> alike ps (snd (m v)) (snd (m w)) fs)"

lemma blindD: "blind ps fs m \<Longrightarrow> alike ps v w fs \<Longrightarrow> fst (m v) = fst (m w) \<and> alike ps (snd (m v)) (snd (m w)) fs"
  by (simp add: blind_def)

lemma blind_ret: "blind ps fs (ret x)" and blind_fail: "blind ps fs (fail e)"
  by (simp_all add: blind_def ret_def fail_def)

lemma blind_bind: "blind ps fs m \<Longrightarrow> (\<And>x. blind ps fs (k x)) \<Longrightarrow> blind ps fs (io_bind m k)"
  unfolding blind_def io_bind_def by (auto split: prod.split io.split) (metis fst_conv snd_conv io.inject io.distinct)+

lemma blind_map_value: "blind ps fs m \<Longrightarrow> blind ps fs (map_value g m)"
  unfolding map_value_def by (rule blind_bind) (simp_all add: blind_ret)

lemma blind_gated:
  assumes "list_all proper ps" and "\<And>p. prefix ps (segments p) \<Longrightarrow> blind ps fs (k p)"
  shows "blind ps fs (gated (subtree_check (Some (render ps, access))) path oper k)"
proof (cases "gate (subtree_check (Some (render ps, access))) path oper")
  case (Ok p)
  then have "prefix ps (segments p)" using gate_subtree [OF Ok assms(1)] by auto
  then show ?thesis using assms(2) Ok by (simp add: gated_def or_fail_def io_bind_def ret_def blind_def)
qed (simp add: gated_def or_fail_def io_bind_def fail_def blind_def)

lemma blind_entry: "prefix ps ss \<Longrightarrow> blind ps fs (flat_entry ss)"
  by (auto simp: blind_def flat_entry_def alike_entry split: result.split)

lemma blind_put: "prefix ps ss \<Longrightarrow> (\<And>a. x \<noteq> Some (EFile a)) \<Longrightarrow> blind ps fs (flat_put ss x)"
  by (auto simp: blind_def flat_put_def modify_def intro: alike_put)

lemma blind_names: "prefix ps ss \<Longrightarrow> blind ps fs (reads (\<lambda>v. g (names_in (ff_paths v) ss)))"
  by (simp add: blind_def reads_def alike_entry)

lemma blind_changes:
  "prefix ps (segments p) \<Longrightarrow> blind ps fs (flat_mkdir p)"
  "prefix ps (segments p) \<Longrightarrow> blind ps fs (flat_remove p)"
  "prefix ps (segments p) \<Longrightarrow> blind ps fs (flat_list p)"
  by (auto simp: flat_mkdir_def flat_remove_def flat_list_def Let_def split: option.split entry.split
      intro!: blind_bind blind_entry blind_put blind_names blind_fail blind_ret blind_names [where g = "\<lambda>x. x", simplified])

text \<open>Operations that look at an inode do so after finding it in the subtree.\<close>

lemma blind_found:
  assumes "prefix ps ss" and "blind ps fs (k None)" and "blind ps fs (k (Some EDir))"
    and "\<And>a v w. alike ps v w fs \<Longrightarrow> ff_heap v ! a = ff_heap w ! a \<Longrightarrow>
       fst (k (Some (EFile a)) v) = fst (k (Some (EFile a)) w) \<and> alike ps (snd (k (Some (EFile a)) v)) (snd (k (Some (EFile a)) w)) fs"
  shows "blind ps fs (io_bind (flat_entry ss) k)"
  unfolding blind_def
proof (intro allI impI)
  fix v w assume vw: "alike ps v w fs"
  note e = alike_entry [OF vw assms(1)]
  show "fst (io_bind (flat_entry ss) k v) = fst (io_bind (flat_entry ss) k w) \<and>
      alike ps (snd (io_bind (flat_entry ss) k v)) (snd (io_bind (flat_entry ss) k w)) fs"
  proof (cases "walk (ff_paths w) (butlast ss)")
    case (Ok u)
    show ?thesis
    proof (cases "ff_paths w ss")
      case None
      with Ok e blindD [OF assms(2) vw] show ?thesis by (simp add: io_bind_def flat_entry_def)
    next
      case (Some x)
      then show ?thesis
        using Ok e blindD [OF assms(3) vw] assms(4) [OF vw] alike_file [OF vw assms(1)]
        by (cases x) (auto simp: io_bind_def flat_entry_def)
    qed
  next
    case (Err er)
    with vw e show ?thesis by (simp add: io_bind_def flat_entry_def)
  qed
qed

lemma blind_looks:
  assumes "prefix ps (segments p)"
  shows "blind ps fs (flat_open_exec p)" "blind ps fs (flat_stat p)"
proof -
  show "blind ps fs (flat_open_exec p)"
    using assms by (simp add: flat_open_exec_def Let_def blind_fail) (auto simp: reads_def intro!: blind_found blind_fail)
  show "blind ps fs (flat_stat p)"
  proof (cases "segments p = []")
    case False
    then show ?thesis
      using assms by (simp add: flat_stat_def Let_def) (auto simp: reads_def intro!: blind_found blind_fail blind_ret)
  qed (simp add: flat_stat_def blind_def io_bind_def ret_def)
qed

lemma blind_transfers:
  assumes "f \<in> set fs"
  shows "blind ps fs (flat_read f off dst)" "blind ps fs (flat_write f off src)"
proof -
  have same: "ff_heap v ! of_data f = ff_heap w ! of_data f" if "alike ps v w fs" for v w
    using that assms by (auto simp: alike_def)
  show "blind ps fs (flat_read f off dst)"
    by (auto simp: blind_def flat_read_def reads_def same)
  show "blind ps fs (flat_write f off src)"
    by (auto simp: blind_def flat_write_def ret_def same alike_set split: prod.split)
qed

lemma alike_open:
  assumes vw: "alike ps v w fs" and p: "prefix ps (segments p)"
  shows "fst (flat_open p fl v) = fst (flat_open p fl w) \<and>
    (case fst (flat_open p fl w) of
       Return f \<Rightarrow> alike ps (snd (flat_open p fl v)) (snd (flat_open p fl w)) (fs @ [f])
     | Stop k \<Rightarrow> alike ps (snd (flat_open p fl v)) (snd (flat_open p fl w)) fs)"
proof -
  define ss where "ss = segments p"
  note e = alike_entry [OF vw p, folded ss_def]
  have len: "length (ff_heap v) = length (ff_heap w)" using vw by (simp add: alike_def)
  note new = alike_new [OF vw p refl, folded ss_def]
  note fin = alike_hold [of ps _ _ fs]
  have upd: "xs[a := x] ! a = ys[a := x] ! a" if "length xs = length ys" "xs ! a = ys ! a" for xs ys :: "bytes list" and a x
    using that by (cases "a < length ys") (simp_all add: list_update_beyond)
  have fresh: "(ff_heap v @ [[]]) ! length (ff_heap w) = []"
    "(ff_heap v @ [[]])[length (ff_heap w) := []] = ff_heap v @ [[]]" by (simp_all flip: len)
  show ?thesis
    using vw e len new alike_file [OF vw p, folded ss_def] alike_set [OF vw] alike_set [OF new]
    by (auto simp: flat_open_def Let_def flat_entry_def io_bind_def ret_def fail_def modify_def fresh
        simp flip: ss_def intro!: fin upd split: result.split option.split entry.split)
qed



section \<open>Confinement\<close>

definition clients_alike ::
    "bytes list \<Rightarrow> (flat, open_file filtered_file, 'h) client \<Rightarrow> (flat, open_file filtered_file, 'h) client \<Rightarrow> bool" where
  "clients_alike ps c d \<longleftrightarrow> alike ps (cl_fs c) (cl_fs d) (map fi_file (cl_files c)) \<and>
     cl_files d = cl_files c \<and> cl_execs d = cl_execs c"

definition same_view where
  "same_view ps r r' \<longleftrightarrow> fst r = fst r' \<and> clients_alike ps (snd r) (snd r')"

lemma same_view_settle:
  assumes "clients_alike ps c d" and "blind ps (map fi_file (cl_files c)) m"
    and "\<And>x c d. clients_alike ps c d \<Longrightarrow> same_view ps (g x c) (g x d)"
  shows "same_view ps (settle g c (m (cl_fs c))) (settle g d (m (cl_fs d)))"
proof -
  note b = blindD [OF assms(2), of "cl_fs c" "cl_fs d"]
  have alk: "alike ps (cl_fs c) (cl_fs d) (map fi_file (cl_files c))" using assms(1) by (simp add: clients_alike_def)
  obtain r v w where m: "m (cl_fs c) = (r, v)" "m (cl_fs d) = (r, w)" "alike ps v w (map fi_file (cl_files c))"
    using b [OF alk] by (metis prod.collapse)
  then have "clients_alike ps (c\<lparr>cl_fs := v\<rparr>) (d\<lparr>cl_fs := w\<rparr>)" using assms(1) by (simp add: clients_alike_def)
  then show ?thesis using m assms(3) by (cases r) (auto simp: same_view_def)
qed

lemma same_view_keep:
  "clients_alike ps c d \<Longrightarrow> same_view ps (keep_exec h c) (keep_exec h d)"
  "clients_alike ps c d \<Longrightarrow> same_view ps (a, c) (a, d)"
  by (simp_all add: same_view_def clients_alike_def)

lemma filtered_step_alike:
  assumes cd: "clients_alike ps c d" and ps: "list_all proper ps"
  shows "same_view ps (fs_step (subtree_filter ps access flat_ops) k c) (fs_step (subtree_filter ps access flat_ops) k d)"
proof (cases k)
  case (CallOpen path fl)
  let ?check = "subtree_check (Some (render ps, access))"
  have alk: "alike ps (cl_fs c) (cl_fs d) (map fi_file (cl_files c))" using cd by (simp add: clients_alike_def)
  show ?thesis
  proof (cases "gate ?check path (open_operation fl)")
    case (Ok p)
    then have "prefix ps (segments p)" using gate_subtree [OF Ok ps] by auto
    from alike_open [OF alk this, of fl] Ok cd show ?thesis
      by (cases "flat_open p fl (cl_fs c)"; cases "flat_open p fl (cl_fs d)"; cases "fst (flat_open p fl (cl_fs d))")
        (auto simp: CallOpen filtered_open_def map_value_def gated_def or_fail_def io_bind_def ret_def same_view_def
          clients_alike_def)
  next
    case (Err e)
    with cd show ?thesis
      by (simp add: CallOpen filtered_open_def map_value_def gated_def or_fail_def io_bind_def fail_def same_view_def
          clients_alike_def)
  qed
next
  case (CallRead i off dst)
  with cd show ?thesis
    by (auto simp: with_handle_def clients_alike_def [of ps c d] filtered_read_def
        intro!: same_view_settle [OF cd] blind_transfers same_view_keep)
next
  case (CallWrite i off src)
  with cd show ?thesis
    by (auto simp: with_handle_def clients_alike_def [of ps c d] filtered_write_def
        intro!: same_view_settle [OF cd] blind_transfers same_view_keep)
next
  case (CallExecSize i)
  with cd show ?thesis
    by (auto simp: with_handle_def clients_alike_def [of ps c d] filtered_exec_size_def
        intro!: same_view_settle [OF cd] blind_ret same_view_keep)
next
  case (CallExecRead i off dst)
  with cd show ?thesis
    by (auto simp: with_handle_def clients_alike_def [of ps c d] filtered_exec_read_def
        intro!: same_view_settle [OF cd] blind_map_value blind_ret same_view_keep)
qed (auto simp: filtered_defs intro!: same_view_settle [OF cd] blind_map_value blind_gated [OF ps] blind_looks blind_changes
      same_view_keep)


text \<open>A policy that allows no change, over a provider that seals what it opens for reading.\<close>

context sealing_fs
begin

definition sealed_client :: "'c \<Rightarrow> ('s, 'f filtered_file, 'h filtered_exec) client \<Rightarrow> bool" where
  "sealed_client k c \<longleftrightarrow> content (cl_fs c) = k \<and> (\<forall>f \<in> set (cl_files c). sealed (fi_file f))"

lemma gate_refuses: "(\<And>p. check p OpWriting \<noteq> Allow) \<Longrightarrow> \<exists>e. gate check path OpWriting = Err e"
  by (cases "gate check path OpWriting") (auto dest: gate_Ok)

lemma gated_refuses: "(\<And>p. check p OpWriting \<noteq> Allow) \<Longrightarrow> \<exists>e. gated check path OpWriting k s = (Stop (Fail e), s)"
  using gate_refuses [of check path] by (auto simp: gated_def or_fail_def io_bind_def fail_def)

lemma gated_keeps: "(\<And>p. content (snd (k p s)) = content s) \<Longrightarrow> content (snd (gated check path oper k s)) = content s"
  by (rule gated_cases [of check path oper k s]) simp_all

lemma sealed_settle:
  assumes "sealed_client x c" and "content (snd r) = content (cl_fs c)"
    and "\<And>y d. cl_fs (snd (g y d)) = cl_fs d \<and> cl_files (snd (g y d)) = cl_files d"
  shows "sealed_client x (snd (settle g c r))"
  using assms by (cases r; cases "fst r") (auto simp: sealed_client_def)

lemma filtered_reads_step:
  assumes check: "\<And>p. check p OpWriting \<noteq> Allow" and c: "sealed_client x c"
  shows "sealed_client x (snd (fs_step (filtered_ops check U) k c))"
proof (cases k)
  case (CallOpen path fl)
  show ?thesis
  proof (cases "mutating fl")
    case True
    with gated_refuses [of check path "\<lambda>p. op_open U p fl" "cl_fs c", OF check] c show ?thesis
      by (auto simp: CallOpen filtered_ops_def filtered_open_def open_operation_def map_value_def io_bind_def sealed_client_def)
  next
    case False
    show ?thesis
    proof (cases rule: gated_cases [of check path OpReading "\<lambda>p. op_open U p fl" "cl_fs c"])
      case (made p)
      then show ?thesis
        using c open_keeps [OF False, of p "cl_fs c"] open_seals [OF False, of p "cl_fs c"] False
        by (cases "op_open U p fl (cl_fs c)"; cases "fst (op_open U p fl (cl_fs c))")
          (auto simp: CallOpen filtered_ops_def filtered_open_def open_operation_def map_value_def io_bind_def ret_def
            sealed_client_def)
    qed (use c False in \<open>auto simp: CallOpen filtered_ops_def filtered_open_def open_operation_def map_value_def io_bind_def
        sealed_client_def\<close>)
  qed
next
  case (CallMkdir path)
  with c gated_refuses [of check path "op_mkdir U" "cl_fs c", OF check] show ?thesis
    by (auto simp: filtered_ops_def filtered_create_directory_def sealed_client_def)
next
  case (CallRemove path)
  with c gated_refuses [of check path "op_remove U" "cl_fs c", OF check] show ?thesis
    by (auto simp: filtered_ops_def filtered_remove_def sealed_client_def)
next
  case (CallWrite i off src)
  have "content (snd (op_write U (fi_file (cl_files c ! i)) off src (cl_fs c))) = content (cl_fs c)" if "i < length (cl_files c)"
    using that c by (intro sealed_write) (simp add: sealed_client_def)
  with CallWrite c show ?thesis
    by (auto simp: filtered_ops_def filtered_write_def with_handle_def intro!: sealed_settle)
qed (use c in \<open>auto simp: filtered_ops_def filtered_defs with_handle_def intro!: sealed_settle gated_keeps
    open_exec_keeps list_keeps stat_keeps read_keeps exec_size_keeps exec_read_keeps\<close>)

lemma filtered_reads_keep:
  assumes "\<And>p. check p OpWriting \<noteq> Allow"
  shows "content (cl_fs (snd (fs_run (filtered_ops check U) ks (fresh_client s)))) = content s"
proof -
  have "sealed_client (content s) (snd (fs_run (filtered_ops check U) ks (fresh_client s)))"
    by (rule fs_run_invariant [of "sealed_client (content s)", OF filtered_reads_step])
      (use assms in \<open>simp_all add: sealed_client_def fresh_client_def\<close>)
  then show ?thesis by (simp add: sealed_client_def)
qed

end


text \<open>What is stored under a path: nothing, a directory, or a file with its bytes.\<close>

definition shown :: "memfs \<Rightarrow> bytes list \<Rightarrow> bytes option option" where
  "shown w q = (case paths_of (mf_root w) q of
     None \<Rightarrow> None
   | Some EDir \<Rightarrow> Some None
   | Some (EFile a) \<Rightarrow> Some (Some (mf_heap w ! a)))"

lemma shown_content: "mf_content w = mf_content w' \<Longrightarrow> shown w = shown w'"
  by (auto simp: shown_def fun_eq_iff mf_content_def split: option.split entry.split)

definition confined_run where
  "confined_run rule ks w = fs_run (filtered_ops (subtree_check rule) memfs_ops) ks (fresh_client w)"

lemma confined_flat:
  assumes "mem_ok w"
  shows "fst (confined_run rule ks w) = fst (fs_run (filtered_ops (subtree_check rule) flat_ops) ks (fresh_client (flat_of w)))"
    and "snd (fs_run (filtered_ops (subtree_check rule) flat_ops) ks (fresh_client (flat_of w))) = client_of (snd (confined_run rule ks w))"
  using run_simulates [OF filtered_simulates [OF memfs_simulates] assms] by (simp_all add: confined_run_def)

text \<open>
  C7: a program confined to a subtree changes nothing outside it. Over whatever another program left
  in the RAM filesystem, no history of calls through \<open>fs.filtered\<close> with a configured
  \<open>fs.policy-subtree\<close> changes what is stored under a path that the prefix does not lead to: not by
  paths with \<open>..\<close>, not by a name that begins like the prefix, not through a file held open. With
  read-only access it changes nothing at all.
\<close>

theorem confined_changes_inside:
  assumes "subtree_configure pre access r0 = (rule, Ok ())" and "normalize_segs [] (split_slash pre) = Some ps"
    and "\<not> prefix ps q \<or> access = ReadsOnly"
  shows "shown (cl_fs (snd (confined_run rule ks (after owner)))) q = shown (after owner) q"
proof (cases "access = ReadsOnly")
  case True
  obtain pre' where "rule = Some (pre', ReadsOnly)"
    using subtree_configured [OF assms(1)] True by metis
  then have "subtree_check rule p OpWriting \<noteq> Allow" for p
    by (simp add: subtree_check_def split: option.split)
  then show ?thesis
    using memfs.filtered_reads_keep [of "subtree_check rule" ks "after owner"] shown_content
    unfolding confined_run_def by metis
next
  case False
  let ?v = "flat_of (after owner)" and ?w = "cl_fs (snd (confined_run rule ks (after owner)))"
  obtain ps' where "list_all proper ps'" "rule = Some (render ps', access)" "normalize_segs [] (split_slash pre) = Some ps'"
    using subtree_configured [OF assms(1)] by metis
  then have ps: "list_all proper ps" "rule = Some (render ps, access)" using assms(2) by simp_all
  have "client_kept ps ?v (fresh_client ?v)" by (simp add: client_kept_def kept_start after_ok fresh_client_def)
  then have "client_kept ps ?v (snd (fs_run (subtree_filter ps access flat_ops) ks (fresh_client ?v)))"
    by (rule fs_run_invariant [of "client_kept ps ?v", rotated]) (rule filtered_step_kept [OF _ ps(1)])
  then obtain fs where k: "kept ps ?v (flat_of ?w) fs"
    using confined_flat(2) [OF after_ok(1), of rule ks owner] ps(2)
    by (auto simp: client_kept_def client_of_def)
  have q: "\<not> prefix ps q" using assms(3) False by simp
  then have "paths_of (mf_root ?w) q = paths_of (mf_root (after owner)) q"
    using k by (simp add: kept_def flat_of_def)
  moreover have "mf_heap ?w ! a = mf_heap (after owner) ! a" if "paths_of (mf_root (after owner)) q = Some (EFile a)" for a
  proof -
    have "a \<in> outside ps ?v" using q that by (auto simp: outside_def flat_of_def)
    then show ?thesis using k by (simp add: kept_def flat_of_def)
  qed
  ultimately show ?thesis by (simp add: shown_def split: option.split entry.split)
qed

theorem confined_changes_inside_witness:
  "shown (cl_fs (snd (confined_run (Some ([0x2F, 0x61], ReadWrite)) [CallRemove [0x61, 0x2F, 0x2E, 0x2E, 0x2F, 0x62]]
     (after [CallMkdir [0x61], CallMkdir [0x62]])))) [[0x62]] = shown (after [CallMkdir [0x61], CallMkdir [0x62]]) [[0x62]]"
proof (rule confined_changes_inside [of "[0x61]" ReadWrite None _ "[[0x61]]"])
  show "subtree_configure [0x61] ReadWrite None = (Some ([0x2F, 0x61], ReadWrite), Ok ())"
    by (simp add: subtree_configure_def subtree_normalize_def)
qed simp_all

text \<open>
  C8: nor does it see anything outside. Two programs may have left different things in the RAM
  filesystem, as long as they agree on the subtree (which paths lead to which files there, and their
  bytes), on whether the way to it is there, and on the number of files ever made: the confined
  program gets the same answers, whatever it calls.
\<close>

theorem confined_sees_inside:
  assumes "subtree_configure pre access r0 = (rule, Ok ())" and "normalize_segs [] (split_slash pre) = Some ps"
    and "alike ps (flat_of (after owner)) (flat_of (after other)) []"
  shows "fst (confined_run rule ks (after owner)) = fst (confined_run rule ks (after other))"
proof -
  obtain ps' where "list_all proper ps'" "rule = Some (render ps', access)" "normalize_segs [] (split_slash pre) = Some ps'"
    using subtree_configured [OF assms(1)] by metis
  then have ps: "list_all proper ps" "rule = Some (render ps, access)" using assms(2) by simp_all
  let ?U = "subtree_filter ps access flat_ops"
  have "clients_alike ps (fresh_client (flat_of (after owner))) (fresh_client (flat_of (after other)))"
    using assms(3) by (simp add: clients_alike_def fresh_client_def)
  from fs_run_related [of "clients_alike ps" ?U ?U, OF _ this, of ks] filtered_step_alike [OF _ ps(1), of _ _ access]
  have "fst (fs_run ?U ks (fresh_client (flat_of (after owner)))) = fst (fs_run ?U ks (fresh_client (flat_of (after other))))"
    by (auto simp: same_view_def)
  then show ?thesis using confined_flat(1) after_ok(1) ps(2) by metis
qed

text \<open>Two owners that differ in a file beside the subtree.\<close>

definition owner_calls :: "byte \<Rightarrow> fs_call list" where
  "owner_calls b = [CallMkdir [0x61], CallOpen [0x62] \<lparr>fl_read = False, fl_write = True, fl_create = True, fl_truncate = False\<rparr>,
     CallWrite 0 0 [b]]"

lemma owner_flat: "flat_of (after (owner_calls b)) =
  \<lparr>ff_paths = [[] \<mapsto> EDir, [[0x61]] \<mapsto> EDir, [[0x62]] \<mapsto> EFile 0], ff_heap = [[b]]\<rparr>"
proof -
  have "flat_of (after (owner_calls b)) = cl_fs (snd (fs_run flat_ops (owner_calls b) (fresh_client flat_blank)))"
    using run_simulates(3) [OF memfs_simulates blank_in_step(1), of "owner_calls b"]
    by (simp add: after_def blank_in_step(2) client_of_def)
  also have "\<dots> = \<lparr>ff_paths = [[] \<mapsto> EDir, [[0x61]] \<mapsto> EDir, [[0x62]] \<mapsto> EFile 0], ff_heap = [[b]]\<rparr>"
    by (simp add: owner_calls_def fresh_client_def flat_blank_def flat_mkdir_def flat_open_def flat_write_def segments_def
        seg_step_def flat_entry_def flat_put_def io_bind_def ret_def fail_def modify_def keep_file_def with_handle_def
        mem_write_at_def usize_of_def usize_or_max_def checked_add_def Let_def)
  finally show ?thesis .
qed

theorem confined_sees_inside_witness:
  "fst (confined_run (Some ([0x2F, 0x61], ReadWrite)) [CallStat [0x62], CallList [0x61]] (after (owner_calls 1))) =
   fst (confined_run (Some ([0x2F, 0x61], ReadWrite)) [CallStat [0x62], CallList [0x61]] (after (owner_calls 2)))"
proof (rule confined_sees_inside [of "[0x61]" ReadWrite None])
  show "subtree_configure [0x61] ReadWrite None = (Some ([0x2F, 0x61], ReadWrite), Ok ())"
    by (simp add: subtree_configure_def subtree_normalize_def)
  show "normalize_segs [] (split_slash [0x61]) = Some [[0x61]]" by simp
  show "alike [[0x61]] (flat_of (after (owner_calls 1))) (flat_of (after (owner_calls 2))) []"
    by (auto simp: owner_flat alike_def inside_def split: if_splits)
qed

end
