(* ===== verification/Spec2Isabelle.thy ===== *)
theory Spec2Isabelle
  imports Scheduler_Props Completion Stick_Flash Flashwire Dns Eofs_Namespace L2_Switch Shell_Session Usb_Bringup Usb_Enumerate Ohci_Structures Fs_Confine
begin

text \<open>
  \<^bold>\<open>A verification of the core of eo9.\<close>

  eo9 runs WebAssembly components as the programs of a small operating system, hosted on Unix or on
  its own kernel. This development models the parts of it that carry its own logic and that do not
  rest on a third-party engine: the task scheduler with its fuel accounting and completion queue,
  the copy-on-write filesystem EoFS, the readers of foreign disk structures (partition tables and
  FAT32 volumes) with the providers built on them, the USB stack above the host controller (enumeration,
  the mass-storage driver, the provider that exports a stick as a disk) and the structures the
  controller reads from memory, the RAM filesystem and the filesystem middleware that attenuates or
  layers others, the virtual network switch, the firmware-flashing wire protocol and
  the DNS codec, and the shell's incremental parser, typed arguments and resolve cache.

  \<^bold>\<open>Conventions\<close> (theory \<open>Prelude\<close>). A Rust function is a HOL function on explicit state. \<open>'a exec\<close>
  is \<^typ>\<open>'a option\<close>: \<^term>\<open>None\<close> stands for a panic (an index out of bounds, an overflow in a checked
  build, a failed \<open>expect\<close> or assertion) and, where a loop need not end, for divergence; a theorem
  that an operation returns is a theorem that it is not \<^term>\<open>None\<close>. \<open>Result\<close> is the datatype
  \<open>result\<close>; a \<open>BTreeMap\<close> is a sorted association list (\<open>bm_insert\<close>, \<open>bm_get\<close>, \<open>bm_remove\<close>). Machine
  integers that are only ever compared and added under a check are naturals with the bound written
  out (\<open>plus_exec\<close>, \<open>checked_add\<close>); where wrap-around or bit operations matter they are words.
  Bytes are \<open>8 word\<close>. \<open>async\<close> functions are modelled as the function they compute: the code awaits
  only the device it drives. \<open>usize\<close> has 64 bits.

  \<^bold>\<open>Scheduler\<close> (\<open>crates/eo9-sched\<close>). \<open>Fuel_Ledger\<close> models \<open>ledger.rs\<close>, \<open>Run_Queue\<close> the two shipped
  policies of \<open>policy.rs\<close>, \<open>Scheduler\<close> the node of \<open>sched.rs\<close> over any policy (a record of its five
  operations), \<open>Completion\<close> the doorbell and completion queue of \<open>completion.rs\<close> with its producers
  and consumer as an interleaving of atomic steps. The contract of a policy is the locale
  \<open>run_queue\<close>, interpreted on both policies. \<open>Scheduler_Inv\<close>, \<open>Scheduler_Ops\<close> and
  \<open>Scheduler_Props\<close> show: the node's invariant is kept by every operation, so that fuel is
  conserved, no operation panics, an error changes nothing, the queue is the set of runnable tasks
  and the task table a forest; the fair policy does not starve a task, the deterministic one
  resumes the smallest id; a doorbell is never lost and every completion is delivered.

  \<^bold>\<open>EoFS\<close> (\<open>crates/eo9-eofs\<close>). \<open>Eofs_Device\<close>: the device trait with the in-memory device and the
  power-cut simulator (\<open>device.rs\<close>); its contract is the locale \<open>block_device\<close>, extended by
  \<open>torn_device\<close>. \<open>Eofs_Space\<close>: the extent allocator (\<open>space.rs\<close>), locale \<open>space_manager\<close>.
  \<open>Eofs_Format\<close>: the on-disk encodings (\<open>format.rs\<close>). \<open>Eofs_Tree\<close>: blocks and byte objects
  (\<open>tree.rs\<close>). \<open>Eofs_Fs\<close>: format, mount, probe, commit, rollback, the namespace operations and
  snapshots; \<open>Eofs_Walk\<close>: verification and garbage collection (\<open>fs.rs\<close>). The device operations,
  \<open>blake3\<close> and \<open>lz4\<close> are the record \<open>env\<close>, an argument of every operation. The proofs are layered:
  \<open>Eofs_Store\<close> (copy-on-write: an operation writes free space only and keeps the invariant),
  \<open>Eofs_Wf\<close> (what is stored in a pointer survives its encoding), \<open>Eofs_Crash\<close> (slots, elections,
  torn writes: the next mount after a power cut adopts the last committed transaction or the one
  being committed), \<open>Eofs_Objects\<close> and \<open>Eofs_Splice\<close> (an object denotes a byte string; reads are
  slices of it, a range update splices bytes into it, every other object is kept), \<open>Eofs_Namespace\<close>
  (the engine's state represents a tree of byte strings with named snapshots, and every operation by
  path refines the one on trees, errors included). Hypotheses on
  the parameters, each named in the theorem that uses it: the hash has 32 bytes; a torn slot does
  not carry a matching checksum (\<open>tear_evident\<close>); the compressor has a round trip and does not
  compress a non-empty block to nothing (\<open>lz4_ok\<close>).

  \<^bold>\<open>Disks\<close>. \<open>Partwalk\<close> models the sans-IO partition-table walker (\<open>crates/eo9-partwalk\<close>),
  \<open>Disk_Part\<close> the providers \<open>guest/stubs/disk-mem\<close> and \<open>disk-part\<close>: the walk ends after at most 65
  sectors on every device, an accepted table has disjoint partitions clear of the table, and
  nothing written through the provider leaves the partition. \<open>Fatwalk\<close> models the FAT32 walker
  (\<open>crates/eo9-fatwalk\<close>): geometry, cluster chains, the root directory search, sector runs and the
  write plan; \<open>Stick_Flash\<close> the demand-fetch bridge that runs it over a cache of fetched sectors.

  \<^bold>\<open>USB\<close> (\<open>crates/eo9-msd\<close>, \<open>guest/stubs/usb-msd\<close>, \<open>crates/eo9-ohci\<close>). Code that talks to a device
  is a computation of \<open>Io_Monad\<close>: a function of the world (the device's state) that returns a value,
  fails with the code's error, is dropped at an await, or panics, each with the world it leaves, and
  a Hoare triple \<open>valid\<close> over the four. \<open>Msd_Bot\<close>: the wrappers and SCSI commands (\<open>bot.rs\<close>,
  \<open>scsi.rs\<close>); \<open>Msd_Engine\<close>: the transport engine of \<open>device.rs\<close> over a record \<open>transport\<close>, and the
  record \<open>bot_device\<close> of a device that keeps to the bulk-only standard but may refuse, stall, fail
  or be dropped at any call; \<open>Msd_Sync\<close> and \<open>Msd_Commands\<close>: the engine is in step with the device
  or knows that it is not, and what a read or write returns is what the blocks held. \<open>Usb_Msd\<close>: the
  byte-addressed driver over the block engine with its read-modify-write edges; \<open>Usb_Msd_Props\<close>:
  every history of operations refines one on a byte string, no history puts the engine out of step,
  and the refinement is met by a stick held in memory. \<open>Usb_Bringup\<close>: bring-up, the hot-plug watch,
  the slot and the exported disk, over a record of the host's operations. \<open>Usb_Descriptor\<close>: setup
  packets, descriptors, hub and keyboard reports; \<open>Usb_Enumerate\<close>: the enumeration sequence with its
  settling delays; \<open>Ohci_Structures\<close>: endpoint and transfer descriptors as 32-bit words, the done
  queue, the frame interval and the arena they are allocated from.

  \<^bold>\<open>Filesystem providers\<close> (\<open>guest/stubs/fs-memfs\<close>, \<open>fs-readonly\<close>, \<open>fs-filtered\<close>, \<open>fs-policy-subtree\<close>,
  \<open>fs-overlay\<close>). \<open>Fs_Interface\<close>: the interface as a record of operations, a client that holds the handles
  it was given and makes any calls in any order, and the contracts of a provider as the locales
  \<open>reading_fs\<close> and \<open>sealing_fs\<close>, interpreted on \<open>fs.memfs\<close> and on a read-only view of it. \<open>Fs_Memfs\<close>: the
  tree of nested maps with contents shared by address; \<open>Fs_Memfs_Spec\<close>: it is a flat map from paths to
  inodes. \<open>Fs_Views\<close>: the middleware, functions from providers to a provider; \<open>Fs_Paths\<close>: a normalized
  path means the same segments to the filter, the policy and the provider. \<open>Fs_Views_Props\<close>: the
  read-only view and the overlay's upper layer do not change; \<open>Fs_Confine\<close>: a program behind a subtree
  policy neither changes nor sees what is outside its subtree.

  \<^bold>\<open>Network switch\<close> (\<open>guest/stubs/net-l2-switch\<close>). \<open>L2_Switch\<close> splits every port operation at its
  awaits; a step relation interleaves the activations, drops their futures and lets the uplink
  answer anything. Shown: a port is handed only frames addressed to it or to everyone, what it sends
  carries its own source address, and the claim on the uplink is held by one activation at most and
  is never lost.

  \<^bold>\<open>Shell\<close> (\<open>guest/eosh/eosh-core/src\<close>). \<open>Charset\<close> (\<open>charset.rs\<close>) is a set of ASCII bytes in a
  128-bit word. \<open>Inc_Parse\<close> (\<open>input.rs\<close>, \<open>inc.rs\<close>, \<open>check.rs\<close>): a boxed parser, an object with three
  methods, is a codatatype with those methods as selectors, and \<open>boxed\<close> builds one from a state and
  its step function. Its contract (\<open>sane_at\<close>, closed under steps as \<open>inc_ok\<close>) is what the checker of
  \<open>check.rs\<close> tests; the locale \<open>inc_leaf\<close> states it for a state machine and is interpreted on every
  leaf. \<open>Comb\<close> (\<open>comb.rs\<close>): pure, map, bind, alternation and the repetitions; the states of a bind
  are the left side, the right side, or a fork of live branches. A repetition without bound carries a
  counter, and \<open>Comb_Props\<close> shows that no line shorter than the counter can tell. An empty \<open>alt\<close> panics in the code when it is
  built, in the model when it is asked what it admits. \<open>Comb_Leaves\<close>: literals,
  keywords, vocabularies, words, quotes, compound literals (their depth is a \<open>u32\<close> that wraps),
  blanks, comments, numbers. \<open>Comb_Contract\<close> and \<open>Comb_Props\<close>: the contract is kept in every state
  a line leads to, TAB types only what every accepted line has, the value of a line is that of a
  reference semantics (\<open>outcome\<close>), and a completion overlay changes nothing. \<open>Shell_Args\<close>
  (\<open>ast.rs\<close>, \<open>wave.rs\<close>, the argument functions of \<open>eval.rs\<close>): matching of flags and positional values against a
  signature; what is accepted is typed and complete. \<open>Shell_Cache\<close> (\<open>cache.rs\<close>): the canonical key
  of an expression, the bounded caches with their invalidation; \<open>Shell_Session\<close>: the steps of a
  session over it keep an invariant with a ghost history (what a name held at each generation), so
  no hit is stale. \<open>Utf8\<close> holds the text functions of the standard library that these use.

  \<^bold>\<open>Wires\<close>. \<open>Flashwire\<close> models the framing, acknowledgements and CRC-32 of the flashing protocol
  (\<open>crates/eo9-flashwire\<close>) at \<open>32 word\<close>; \<open>Dns\<close> the query encoder and reply parser.

  \<^bold>\<open>Fuel and bounds.\<close> Every loop of the model but one is a total function: the recursion is structural or has
  a measure taken from the code (a visited set, a level in a \<open>u8\<close>, the rest of a buffer, the
  cluster count). The only fuel is that of the code itself (the walker's table of at most 64
  sectors, the scheduler's task fuel). The copy loop of \<open>read_object_range\<close> can fail to progress on
  a malformed image; the model answers \<^term>\<open>None\<close> there, and likewise where the chunk loop of the
  mass-storage driver would not advance. The one loop that may run for ever is the hot-plug watch, a
  \<open>partial_function\<close>; it is shown to end under a clock that advances.

  \<^bold>\<open>Not modelled.\<close> The WebAssembly engine and everything that drives it (\<open>eo9-runtime\<close>,
  \<open>eo9-component\<close>'s reading and writing of binaries), device drivers (\<open>driver.rs\<close> of
  \<open>eo9-ohci\<close>, \<open>eo9-rtl8125\<close>) and the kernel, whose behaviour is register, DMA and interrupt traffic; terminal, process and network
  glue; build tooling. Also the texts of \<open>Display\<close> implementations, and running out of memory.

  \<^bold>\<open>What is left.\<close> The shell's evaluator and grammar, the decisions of the component algebra (version
  matching, restriction, wiring), the \<open>fs.eofs\<close> provider over the engine, the learning bridge and the
  port and address filters of the network stubs could be modelled the same way; the evaluator and the
  algebra only over an abstract component, since the binaries they work on are read and written by
  third-party code.
\<close>

end
